(* ===== verification/Prelude.thy ===== *)
theory Prelude
  imports Main "HOL-Library.Word" "HOL-Library.Multiset"
begin

text \<open>
  What every component of the development shares: the error values that stand for a failed
  assertion, a thrown exception or undefined behaviour of the C++ code, the sequencing of
  fallible operations, raw bytes with the little-endian layout of integers, and two views of a
  byte buffer (a list, and a memory that maps offsets to bytes) with the lemmas that connect
  reading after writing in both.
\<close>

section \<open>Collections of facts\<close>

named_theorems res_simps \<open>evaluation of fallible operations\<close>
named_theorems inv_intros \<open>preservation of the components' invariants\<close>

section \<open>Errors as values\<close>

text \<open>
  \<open>AssertionFailed\<close> is a failed \<open>assert\<close>, \<open>OutOfRange\<close> the \<open>std::out_of_range\<close> of a container's
  \<open>at\<close>, \<open>NullPointer\<close> a dereferenced null pointer, \<open>BadAccess\<close> a read or write outside the
  allocation a pointer points into, \<open>Diverges\<close> a loop that does not end, \<open>DivisionByZero\<close> a remainder by zero, \<open>RuntimeError\<close> a
  thrown \<open>std::runtime_error\<close>, \<open>LengthError\<close> a thrown \<open>std::length_error\<close>. Those from \<open>NullPointer\<close> to \<open>DivisionByZero\<close> are undefined behaviour
  or non-termination in C++; they are values here, so that a theorem which
  says an operation returns \<open>Inr\<close> says that none of them happens.
\<close>

datatype error =
  AssertionFailed | OutOfRange | NullPointer | BadAccess | Diverges | DivisionByZero | RuntimeError |
  LengthError

type_synonym 'a result = "error + 'a"

definition bnd :: "'a result \<Rightarrow> ('a \<Rightarrow> 'b result) \<Rightarrow> 'b result" where
  "bnd m f = (case m of Inl e \<Rightarrow> Inl e | Inr x \<Rightarrow> f x)"

definition assert_that :: "bool \<Rightarrow> unit result" where
  "assert_that b = (if b then Inr () else Inl AssertionFailed)"

definition returned :: "'a result option \<Rightarrow> 'a result" where
  "returned r = (case r of None \<Rightarrow> Inl Diverges | Some x \<Rightarrow> x)"

fun fold_res :: "('a \<Rightarrow> 's \<Rightarrow> 's result) \<Rightarrow> 'a list \<Rightarrow> 's \<Rightarrow> 's result" where
  "fold_res f [] s = Inr s"
| "fold_res f (x # xs) s = bnd (f x s) (fold_res f xs)"

lemma bnd_Inr [simp]: "bnd (Inr x) f = f x"
  by (simp add: bnd_def)

lemma bnd_Inl [simp]: "bnd (Inl e) f = Inl e"
  by (simp add: bnd_def)

lemma bnd_eq_Inr: "bnd m f = Inr y \<longleftrightarrow> (\<exists>x. m = Inr x \<and> f x = Inr y)"
  by (cases m) auto

lemma bnd_InrE [elim!]:
  assumes "bnd m f = Inr y"
  obtains x where "m = Inr x" "f x = Inr y"
  using assms by (auto simp: bnd_eq_Inr)

lemma bnd_assoc: "bnd (bnd m f) g = bnd m (\<lambda>x. bnd (f x) g)"
  by (cases m) auto

lemma bnd_cong [fundef_cong]:
  "m = m' \<Longrightarrow> (\<And>x. m' = Inr x \<Longrightarrow> f x = g x) \<Longrightarrow> bnd m f = bnd m' g"
  by (cases m') auto

lemma assert_that_simps [simp]:
  "assert_that True = Inr ()"
  "assert_that b = Inr u \<longleftrightarrow> b"
  by (auto simp: assert_that_def)

lemma assert_that_fails: "\<not> b \<Longrightarrow> assert_that b = Inl AssertionFailed"
  by (simp add: assert_that_def)

lemma returned_simps [simp]:
  "returned (Some x) = x"
  "returned None = Inl Diverges"
  by (simp_all add: returned_def)

fun map_res :: "('a \<Rightarrow> 'b result) \<Rightarrow> 'a list \<Rightarrow> 'b list result" where
  "map_res f [] = Inr []"
| "map_res f (x # xs) = bnd (f x) (\<lambda>y. bnd (map_res f xs) (\<lambda>ys. Inr (y # ys)))"

lemma map_res_eq:
  "(\<And>x. x \<in> set xs \<Longrightarrow> f x = Inr (g x)) \<Longrightarrow> map_res f xs = Inr (map g xs)"
  by (induction xs) auto

lemma fold_res_append:
  "fold_res f (xs @ ys) s = bnd (fold_res f xs s) (fold_res f ys)"
  by (induction xs arbitrary: s) (auto simp: bnd_assoc bnd_def split: sum.splits)

lemma fold_res_invariant:
  assumes "fold_res f xs s = Inr s'" and "P s"
    and "\<And>x s s'. x \<in> set xs \<Longrightarrow> P s \<Longrightarrow> f x s = Inr s' \<Longrightarrow> P s'"
  shows "P s'"
  using assms by (induction xs arbitrary: s) auto

text \<open>A loop all of whose steps return, with an invariant that relates the state to the elements that have
  been processed.\<close>

lemma fold_res_returns:
  assumes "\<And>ys x zs s. xs = ys @ x # zs \<Longrightarrow> I ys s \<Longrightarrow> \<exists>s'. f x s = Inr s' \<and> I (ys @ [x]) s'"
    and "I [] s"
  shows "\<exists>s'. fold_res f xs s = Inr s' \<and> I xs s'"
proof -
  have "\<exists>s'. fold_res f zs s = Inr s' \<and> I (ys @ zs) s'" if "xs = ys @ zs" "I ys s" for ys zs s
    using that
  proof (induction zs arbitrary: ys s)
    case (Cons x zs)
    obtain s1 where s1: "f x s = Inr s1" "I (ys @ [x]) s1" using assms(1) [OF Cons.prems] by blast
    have "\<exists>s'. fold_res f zs s1 = Inr s' \<and> I ((ys @ [x]) @ zs) s'"
      using Cons.prems(1) s1(2) by (intro Cons.IH) simp_all
    then show ?case using s1(1) by simp
  qed simp
  from this [of "[]" xs s] assms(2) show ?thesis by simp
qed

lemma fold_res_upt_returns:
  assumes "\<And>k s. k < n \<Longrightarrow> I k s \<Longrightarrow> \<exists>s'. f k s = Inr s' \<and> I (Suc k) s'" and "I 0 s"
  shows "\<exists>s'. fold_res f [0..<n] s = Inr s' \<and> I n s'"
proof -
  have "\<exists>s'. fold_res f [0..<n] s = Inr s' \<and> I (length [0..<n]) s'"
  proof (rule fold_res_returns [where I = "\<lambda>ys. I (length ys)"])
    fix ys x zs s
    assume split: "[0..<n] = ys @ x # zs" and inv: "I (length ys) s"
    have len: "length ys < n" using arg_cong [OF split, of length] by simp
    have "x = [0..<n] ! length ys" using split by (simp add: nth_append)
    then have "x = length ys" using len by simp
    then show "\<exists>s'. f x s = Inr s' \<and> I (length (ys @ [x])) s'" using assms(1) [OF len inv] by simp
  qed (simp add: assms(2))
  then show ?thesis by simp
qed

lemma map_nth_upt: "map (\<lambda>i. f (xs ! i)) [0..<length xs] = map f xs"
  by (rule nth_equalityI) auto

lemma concat_map_eq_iff:
  assumes "\<And>x. x \<in> set xs \<Longrightarrow> length (f x) = length (g x)"
  shows "concat (map f xs) = concat (map g xs) \<longleftrightarrow> (\<forall>x \<in> set xs. f x = g x)"
  using assms by (induction xs) auto

section \<open>Bytes and the layout of integers\<close>

type_synonym byte = "8 word"
type_synonym bytes = "byte list"

text \<open>
  The bytes of an integer in memory, least significant first, as on the x86-64 machines the
  program is built for (\<open>size_t\<close> has eight bytes, \<open>int\<close> four).
\<close>

primrec le_nat :: "nat \<Rightarrow> nat \<Rightarrow> bytes" where
  "le_nat 0 x = []"
| "le_nat (Suc n) x = word_of_nat (x mod 256) # le_nat n (x div 256)"

primrec le_val :: "bytes \<Rightarrow> nat" where
  "le_val [] = 0"
| "le_val (b # bs) = unat b + 256 * le_val bs"

lemma length_le_nat [simp]: "length (le_nat n x) = n"
  by (induction n arbitrary: x) auto

lemma unat_byte_of_mod: "unat (word_of_nat (x mod 256) :: byte) = x mod 256"
  by (simp add: unat_of_nat)

lemma le_val_le_nat: "le_val (le_nat n x) = x mod 256 ^ n"
proof (induction n arbitrary: x)
  case 0
  then show ?case by simp
next
  case (Suc n)
  have "le_val (le_nat (Suc n) x) = x mod 256 + 256 * (x div 256 mod 256 ^ n)"
    by (simp add: Suc unat_byte_of_mod del: unsigned_of_nat)
  also have "\<dots> = x mod 256 ^ Suc n"
    by (simp add: mod_mult2_eq)
  finally show ?case .
qed

lemma le_val_bound: "le_val bs < 256 ^ length bs"
proof (induction bs)
  case Nil
  then show ?case by simp
next
  case (Cons b bs)
  have "unat b < 256"
    using unsigned_less [of b] by simp
  then show ?case using Cons by simp
qed

lemma le_nat_le_val: "le_nat (length bs) (le_val bs) = bs"
proof (induction bs)
  case Nil
  then show ?case by simp
next
  case (Cons b bs)
  have b: "unat b < 256"
    using unsigned_less [of b] by simp
  then have "(unat b + 256 * le_val bs) mod 256 = unat b"
    and "(unat b + 256 * le_val bs) div 256 = le_val bs"
    by auto
  then show ?case using Cons by simp
qed

lemma le_nat_inj: "x < 256 ^ n \<Longrightarrow> y < 256 ^ n \<Longrightarrow> le_nat n x = le_nat n y \<longleftrightarrow> x = y"
  by (metis le_val_le_nat mod_less)

text \<open>The object representation of a fixed-width integer, and the value of a read through a
  pointer of that type.\<close>

definition to_bytes :: "'a::len word \<Rightarrow> bytes" where
  "to_bytes w = le_nat (LENGTH('a) div 8) (unat w)"

definition of_bytes :: "bytes \<Rightarrow> 'a::len word" where
  "of_bytes bs = word_of_nat (le_val bs)"

lemma length_to_bytes [simp]: "length (to_bytes (w :: 'a::len word)) = LENGTH('a) div 8"
  by (simp add: to_bytes_def)

lemma of_bytes_to_bytes:
  fixes w :: "'a::len word"
  assumes "8 dvd LENGTH('a)"
  shows "of_bytes (to_bytes w) = w"
proof -
  have "(256::nat) ^ (LENGTH('a) div 8) = (2 ^ 8) ^ (LENGTH('a) div 8)"
    by simp
  also have "\<dots> = 2 ^ LENGTH('a)"
    using assms by (metis dvd_mult_div_cancel power_mult)
  finally have "unat w < 256 ^ (LENGTH('a) div 8)"
    using unsigned_less [of w] by simp
  then show ?thesis
    by (simp add: of_bytes_def to_bytes_def le_val_le_nat)
qed

lemma of_bytes_to_bytes_simps [simp]:
  "of_bytes (to_bytes (a :: 8 word)) = a"
  "of_bytes (to_bytes (b :: 16 word)) = b"
  "of_bytes (to_bytes (c :: 32 word)) = c"
  "of_bytes (to_bytes (d :: 64 word)) = d"
  by (rule of_bytes_to_bytes, simp)+

lemma to_bytes_inj:
  fixes v w :: "'a::len word"
  assumes "8 dvd LENGTH('a)"
  shows "to_bytes v = to_bytes w \<longleftrightarrow> v = w"
  using of_bytes_to_bytes [OF assms] by metis

section \<open>Buffers\<close>

text \<open>
  \<open>seg\<close> and \<open>patch\<close> read and overwrite a part of a byte list; \<open>bytes_at\<close> and \<open>write_at\<close> do so
  in a memory given as a function from offsets.
\<close>

definition seg :: "nat \<Rightarrow> nat \<Rightarrow> 'a list \<Rightarrow> 'a list" where
  "seg off n xs = take n (drop off xs)"

definition patch :: "nat \<Rightarrow> 'a list \<Rightarrow> 'a list \<Rightarrow> 'a list" where
  "patch off ys xs = take off xs @ ys @ drop (off + length ys) xs"

definition bytes_at :: "(nat \<Rightarrow> 'a) \<Rightarrow> nat \<Rightarrow> nat \<Rightarrow> 'a list" where
  "bytes_at m off n = map m [off..<off + n]"

definition write_at :: "(nat \<Rightarrow> 'a) \<Rightarrow> nat \<Rightarrow> 'a list \<Rightarrow> (nat \<Rightarrow> 'a)" where
  "write_at m off ys = (\<lambda>i. if off \<le> i \<and> i < off + length ys then ys ! (i - off) else m i)"

lemma length_seg [simp]: "off + n \<le> length xs \<Longrightarrow> length (seg off n xs) = n"
  by (simp add: seg_def)

lemma length_patch [simp]: "off + length ys \<le> length xs \<Longrightarrow> length (patch off ys xs) = length xs"
  by (simp add: patch_def)

lemma length_bytes_at [simp]: "length (bytes_at m off n) = n"
  by (simp add: bytes_at_def)

lemma nth_bytes_at [simp]: "i < n \<Longrightarrow> bytes_at m off n ! i = m (off + i)"
  by (simp add: bytes_at_def)

lemma nth_patch:
  assumes "off + length ys \<le> length xs" and "i < length xs"
  shows "patch off ys xs ! i =
    (if off \<le> i \<and> i < off + length ys then ys ! (i - off) else xs ! i)"
  using assms by (auto simp: patch_def nth_append min_def)

lemma seg_full [simp]: "seg 0 (length xs) xs = xs"
  by (simp add: seg_def)

lemma seg_patch_same:
  "off + length ys \<le> length xs \<Longrightarrow> n = length ys \<Longrightarrow> seg off n (patch off ys xs) = ys"
  by (simp add: seg_def patch_def)

lemma seg_patch_disjoint:
  assumes "off + length ys \<le> length xs" and "o' + n \<le> length xs"
    and "o' + n \<le> off \<or> off + length ys \<le> o'"
  shows "seg o' n (patch off ys xs) = seg o' n xs"
proof (rule nth_equalityI)
  show "length (seg o' n (patch off ys xs)) = length (seg o' n xs)"
    using assms by simp
next
  fix i assume "i < length (seg o' n (patch off ys xs))"
  then have i: "i < n" using assms by simp
  then have "seg o' n (patch off ys xs) ! i = patch off ys xs ! (o' + i)"
    using assms by (simp add: seg_def)
  also have "\<dots> = xs ! (o' + i)"
    using assms i by (auto simp: nth_patch)
  finally show "seg o' n (patch off ys xs) ! i = seg o' n xs ! i"
    using assms i by (simp add: seg_def)
qed

lemma bytes_at_write_same [simp]: "n = length ys \<Longrightarrow> bytes_at (write_at m off ys) off n = ys"
  by (auto simp: write_at_def intro!: nth_equalityI)

lemma bytes_at_write_disjoint:
  "o' + n \<le> off \<or> off + length ys \<le> o' \<Longrightarrow> bytes_at (write_at m off ys) o' n = bytes_at m o' n"
  by (auto simp: write_at_def intro!: nth_equalityI)

lemma write_at_outside: "i < off \<or> off + length ys \<le> i \<Longrightarrow> write_at m off ys i = m i"
  by (auto simp: write_at_def)

lemma bytes_at_write_inside:
  assumes "d + length ys \<le> n"
  shows "bytes_at (write_at m (off + d) ys) off n = patch d ys (bytes_at m off n)"
  using assms by (intro nth_equalityI) (auto simp: nth_patch write_at_def add.commute)

lemma seg_bytes_at: "d + k \<le> n \<Longrightarrow> seg d k (bytes_at m off n) = bytes_at m (off + d) k"
  by (intro nth_equalityI) (auto simp: seg_def add.assoc)

lemma bytes_at_cong:
  "(\<And>i. off \<le> i \<Longrightarrow> i < off + n \<Longrightarrow> m i = m' i) \<Longrightarrow> bytes_at m off n = bytes_at m' off n"
  by (auto intro!: nth_equalityI)

text \<open>\<open>std::string(value, n)\<close> and \<open>memcpy(_, value, n)\<close> read the first \<open>n\<close> bytes of the buffer.\<close>

definition read_buffer :: "bytes \<Rightarrow> nat \<Rightarrow> bytes result" where
  "read_buffer buf n = (if n \<le> length buf then Inr (take n buf) else Inl BadAccess)"

lemma read_buffer_eq [res_simps]: "n \<le> length buf \<Longrightarrow> read_buffer buf n = Inr (take n buf)"
  by (simp add: read_buffer_def)

end
