(* ===== verification/MetaTypes.thy ===== *)
theory MetaTypes
  imports Prelude
begin

text \<open>
  storage/MetaTypes.h: the constants of the storage engine, the value types, the descriptions of
  columns and indexes, and the predicates a select or an update is given. A \<open>size_t\<close> is a natural
  number; a \<open>const char*\<close> to a value is the buffer it points to; the two parallel arrays and the
  length of a \<open>ColumnPredicates\<close> are one list of pairs. The enumerator \<open>INT\<close> is written \<open>INT'\<close> (the
  bare word is Isabelle syntax).
\<close>

section \<open>Constants\<close>

definition ENDEXECUTION :: nat where
  "ENDEXECUTION = 100"

definition kBlockSize :: nat where
  "kBlockSize = 8 * 1024 * 1024"

definition sizeof_size_t :: nat where
  "sizeof_size_t = 8"

definition kRecordHeaderSize :: nat where
  "kRecordHeaderSize = sizeof_size_t"

definition kFetchSize :: nat where
  "kFetchSize = 32"

lemma kRecordHeaderSize_eq [simp]: "kRecordHeaderSize = 8"
  by (simp add: kRecordHeaderSize_def sizeof_size_t_def)

lemma sizeof_size_t_eq [simp]: "sizeof_size_t = 8"
  by (simp add: sizeof_size_t_def)

datatype value_type = INT' | INT8 | INT16 | INT32 | INT64 | DOUBLE | FLOAT | VARCHAR
datatype index_type = HASHMAP | BTREE
datatype record_flag = FREE | OCCUPIED

fun flag_byte :: "record_flag \<Rightarrow> byte" where
  "flag_byte FREE = 0"
| "flag_byte OCCUPIED = 1"

lemma flag_byte_distinct [simp]:
  "flag_byte OCCUPIED \<noteq> 0" "flag_byte OCCUPIED = 1"
  by simp_all

definition kIntSize :: nat where "kIntSize = 4"
definition kInt8Size :: nat where "kInt8Size = 1"
definition kInt16Size :: nat where "kInt16Size = 2"
definition kInt32Size :: nat where "kInt32Size = 4"
definition kInt64Size :: nat where "kInt64Size = 8"
definition kFloatSize :: nat where "kFloatSize = 4"
definition kDoubleSize :: nat where "kDoubleSize = 8"

lemmas kSize_defs =
  kIntSize_def kInt8Size_def kInt16Size_def kInt32Size_def kInt64Size_def
  kFloatSize_def kDoubleSize_def

section \<open>Columns\<close>

record column_info =
  column_name :: string
  column_type :: value_type
  column_size :: nat
  column_offset :: nat
  is_primary :: bool

text \<open>
  The constructor for the fixed-size types: it asserts that the type is not \<open>VARCHAR\<close> and takes
  the size from the type.
\<close>

fun fixed_size :: "value_type \<Rightarrow> nat result" where
  "fixed_size INT' = Inr kIntSize"
| "fixed_size INT8 = Inr kInt8Size"
| "fixed_size INT16 = Inr kInt16Size"
| "fixed_size INT32 = Inr kInt32Size"
| "fixed_size INT64 = Inr kInt64Size"
| "fixed_size FLOAT = Inr kFloatSize"
| "fixed_size DOUBLE = Inr kDoubleSize"
| "fixed_size VARCHAR = Inl AssertionFailed"

definition ColumnInfo_fixed :: "string \<Rightarrow> value_type \<Rightarrow> bool \<Rightarrow> column_info result" where
  "ColumnInfo_fixed name t primary =
     bnd (assert_that (t \<noteq> VARCHAR)) (\<lambda>_.
     bnd (fixed_size t) (\<lambda>sz.
     Inr \<lparr>column_name = name, column_type = t, column_size = sz, column_offset = 0,
          is_primary = primary\<rparr>))"

definition ColumnInfo_sized :: "string \<Rightarrow> value_type \<Rightarrow> nat \<Rightarrow> bool \<Rightarrow> column_info" where
  "ColumnInfo_sized name t sz primary =
     \<lparr>column_name = name, column_type = t, column_size = sz, column_offset = 0,
      is_primary = primary\<rparr>"

section \<open>Indexes and predicates\<close>

text \<open>The object representation of an array of \<open>size_t\<close>, which the code uses as the symbol of a
  list of columns, and its reading back with \<open>memcpy\<close>.\<close>

definition size_t_symbol :: "nat list \<Rightarrow> bytes" where
  "size_t_symbol ids = concat (map (le_nat sizeof_size_t) ids)"

fun symbol_columns :: "nat \<Rightarrow> bytes \<Rightarrow> nat list" where
  "symbol_columns 0 cs = []"
| "symbol_columns (Suc n) cs =
     le_val (take sizeof_size_t cs) # symbol_columns n (drop sizeof_size_t cs)"

record index_info =
  index_type :: index_type
  ix_column_ids :: "nat list"
  ix_column_num :: nat

definition IndexInfo :: "index_type \<Rightarrow> nat list \<Rightarrow> nat \<Rightarrow> index_info" where
  "IndexInfo t ids n = \<lparr>index_type = t, ix_column_ids = take n ids, ix_column_num = n\<rparr>"

definition IndexInfo_getSerializedSymbol :: "index_info \<Rightarrow> bytes" where
  "IndexInfo_getSerializedSymbol ix = size_t_symbol (take (ix_column_num ix) (ix_column_ids ix))"

record column_predicate =
  cp_column_id :: nat
  cp_value :: bytes

type_synonym column_predicates = "(nat \<times> bytes) list"

lemma length_size_t_symbol [simp]: "length (size_t_symbol ids) = 8 * length ids"
  by (induction ids) (auto simp: size_t_symbol_def)

lemma size_t_symbol_Cons:
  "size_t_symbol (i # ids) = le_nat sizeof_size_t i @ size_t_symbol ids"
  by (simp add: size_t_symbol_def)

lemma symbol_columns_symbol:
  assumes "\<forall>i \<in> set ids. i < 2 ^ 64"
  shows "symbol_columns (length ids) (size_t_symbol ids) = ids"
  using assms
proof (induction ids)
  case Nil
  then show ?case by simp
next
  case (Cons i ids)
  have "i < 256 ^ sizeof_size_t" using Cons.prems by simp
  then have "le_val (le_nat sizeof_size_t i) = i"
    by (simp only: le_val_le_nat mod_less)
  then show ?case using Cons by (simp add: size_t_symbol_Cons)
qed

lemma size_t_symbol_inj:
  assumes "\<forall>i \<in> set ids. i < 2 ^ 64" and "\<forall>i \<in> set ids'. i < 2 ^ 64"
  shows "size_t_symbol ids = size_t_symbol ids' \<longleftrightarrow> ids = ids'"
proof
  assume eq: "size_t_symbol ids = size_t_symbol ids'"
  have "8 * length ids = 8 * length ids'"
    using arg_cong [OF eq, of length] by (simp only: length_size_t_symbol)
  then have "length ids = length ids'" by simp
  then show "ids = ids'"
    using eq symbol_columns_symbol [OF assms(1)] symbol_columns_symbol [OF assms(2)] by metis
qed simp

end
