(* ===== verification/Schema.thy ===== *)
theory Schema
  imports MetaTypes
begin

text \<open>
  storage/Schema.h and Schema.cc: the columns of a table with their offsets, the primary key, and
  the byte strings by which a list of columns and a list of values are looked up. The invariant
  \<open>schema_inv\<close> says what \<open>insertColumn\<close> maintains: the cached counts and sizes agree with the list
  of columns, and the columns lie next to each other from offset 0.
\<close>

section \<open>State and operations\<close>

record schema =
  columns :: "column_info list"
  column_count :: nat
  next_column_offset :: nat
  primary_key_length :: nat
  primary_col_num :: nat
  primary_cols :: "nat list"
  primary_col_sizes :: "nat list"

definition Schema_new :: schema where
  "Schema_new = \<lparr>columns = [], column_count = 0, next_column_offset = 0,
     primary_key_length = 0, primary_col_num = 0, primary_cols = [], primary_col_sizes = []\<rparr>"

text \<open>\<open>primary_cols\<close> and \<open>primary_col_sizes\<close> are arrays of five elements of which the first
  \<open>primary_col_num\<close> are set: the model holds that prefix.\<close>

text \<open>The sum of two \<open>size_t\<close>.\<close>

definition size_add :: "nat \<Rightarrow> nat \<Rightarrow> nat" where
  "size_add m n = nat ((int m + int n) mod 2 ^ 64)"

lemma size_add_eq: "m + n < 2 ^ 64 \<Longrightarrow> size_add m n = m + n"
  by (simp add: size_add_def nat_mod_distrib nat_add_distrib)

definition insertColumn :: "column_info \<Rightarrow> schema \<Rightarrow> schema result" where
  "insertColumn c s =
     (let s1 = s\<lparr>columns := columns s @ [c\<lparr>column_offset := next_column_offset s\<rparr>]\<rparr> in
      bnd (if is_primary c
           then bnd (assert_that (primary_col_num s1 < 5)) (\<lambda>_.
             Inr (s1\<lparr>primary_key_length := size_add (primary_key_length s1) (column_size c),
                     primary_cols := primary_cols s1 @ [column_count s1],
                     primary_col_sizes := primary_col_sizes s1 @ [column_size c],
                     primary_col_num := primary_col_num s1 + 1\<rparr>))
           else Inr s1) (\<lambda>s2.
      Inr (s2\<lparr>column_count := column_count s2 + 1,
              next_column_offset := size_add (next_column_offset s2) (column_size c)\<rparr>)))"

definition Schema_getColumn :: "schema \<Rightarrow> nat \<Rightarrow> column_info result" where
  "Schema_getColumn s i =
     bnd (assert_that (i < column_count s)) (\<lambda>_.
     if i < length (columns s) then Inr (columns s ! i) else Inl OutOfRange)"

definition getSchemaSize :: "schema \<Rightarrow> nat" where
  "getSchemaSize s = next_column_offset s"

definition Schema_getColumnCount :: "schema \<Rightarrow> nat" where
  "Schema_getColumnCount s = column_count s"

definition getColumnName :: "schema \<Rightarrow> nat \<Rightarrow> string result" where
  "getColumnName s i = bnd (Schema_getColumn s i) (\<lambda>c. Inr (column_name c))"

definition getColumnType :: "schema \<Rightarrow> nat \<Rightarrow> value_type result" where
  "getColumnType s i = bnd (Schema_getColumn s i) (\<lambda>c. Inr (column_type c))"

definition getColumnOffset :: "schema \<Rightarrow> nat \<Rightarrow> nat result" where
  "getColumnOffset s i = bnd (Schema_getColumn s i) (\<lambda>c. Inr (column_offset c))"

definition getColumnSize :: "schema \<Rightarrow> nat \<Rightarrow> nat result" where
  "getColumnSize s i = bnd (Schema_getColumn s i) (\<lambda>c. Inr (column_size c))"

definition isColumnPrimary :: "schema \<Rightarrow> nat \<Rightarrow> bool result" where
  "isColumnPrimary s i = bnd (Schema_getColumn s i) (\<lambda>c. Inr (is_primary c))"

definition getPrimaryColumnCount :: "schema \<Rightarrow> nat" where
  "getPrimaryColumnCount s = primary_col_num s"

definition getPrimaryColumnId :: "schema \<Rightarrow> nat \<Rightarrow> nat result" where
  "getPrimaryColumnId s i =
     bnd (assert_that (i < primary_col_num s)) (\<lambda>_. Inr (primary_cols s ! i))"

definition getPrimaryColumnSize :: "schema \<Rightarrow> nat \<Rightarrow> nat result" where
  "getPrimaryColumnSize s i =
     bnd (assert_that (i < primary_col_num s)) (\<lambda>_. Inr (primary_col_sizes s ! i))"

definition getPrimaryKeyLength :: "schema \<Rightarrow> nat" where
  "getPrimaryKeyLength s = primary_key_length s"

text \<open>\<open>getKeyLength\<close> reads the columns with \<open>at\<close>: an index out of range throws.\<close>

definition getKeyLength :: "schema \<Rightarrow> nat list \<Rightarrow> nat result" where
  "getKeyLength s cols =
     fold_res (\<lambda>i sum. if i < length (columns s) then Inr (sum + column_size (columns s ! i))
                       else Inl OutOfRange) cols 0"

definition getPrimaryColumnSymbol :: "schema \<Rightarrow> bytes" where
  "getPrimaryColumnSymbol s = size_t_symbol (take (primary_col_num s) (primary_cols s))"

text \<open>
  The overload for one predicate converts the column number itself to a pointer
  (\<open>reinterpret_cast<const char*>(param.column_id)\<close>, without taking its address) and reads eight
  bytes there, which belong to no object.
\<close>

definition getPredicateColumnSymbol_one :: "schema \<Rightarrow> column_predicate \<Rightarrow> bytes result" where
  "getPredicateColumnSymbol_one s p = Inl BadAccess"

definition getPredicateDataSymbol_one :: "schema \<Rightarrow> column_predicate \<Rightarrow> bytes result" where
  "getPredicateDataSymbol_one s p =
     bnd (getColumnSize s (cp_column_id p)) (\<lambda>n. read_buffer (cp_value p) n)"

definition getPredicateColumnSymbol :: "schema \<Rightarrow> column_predicates \<Rightarrow> bytes" where
  "getPredicateColumnSymbol s ps = size_t_symbol (map fst ps)"

text \<open>\<open>append_key\<close> is the loop body shared by the key-building functions of the engine: copy the
  value's bytes at the current offset of the key buffer of \<open>key_length\<close> bytes and advance.\<close>

definition append_key :: "nat \<Rightarrow> bytes \<Rightarrow> bytes \<Rightarrow> bytes result" where
  "append_key key_length v key =
     (if length key + length v \<le> key_length then Inr (key @ v) else Inl BadAccess)"

definition getPredicateDataSymbol :: "schema \<Rightarrow> column_predicates \<Rightarrow> bytes result" where
  "getPredicateDataSymbol s ps =
     bnd (getKeyLength s (map fst ps)) (\<lambda>key_length.
     fold_res (\<lambda>(i, value) key.
       bnd (getColumnSize s i) (\<lambda>n.
       bnd (read_buffer value n) (\<lambda>v.
       append_key key_length v key))) ps [])"

section \<open>The invariant\<close>

definition col_end :: "column_info \<Rightarrow> nat" where
  "col_end c = column_offset c + column_size c"

definition size_of_columns :: "column_info list \<Rightarrow> nat" where
  "size_of_columns cs = sum_list (map column_size cs)"

definition primary_ids :: "column_info list \<Rightarrow> nat list" where
  "primary_ids cs = filter (\<lambda>i. is_primary (cs ! i)) [0..<length cs]"

definition schema_inv :: "schema \<Rightarrow> bool" where
  "schema_inv s \<longleftrightarrow>
     column_count s = length (columns s) \<and>
     next_column_offset s = size_of_columns (columns s) \<and>
     (\<forall>i < length (columns s).
        column_offset (columns s ! i) = size_of_columns (take i (columns s))) \<and>
     primary_cols s = primary_ids (columns s) \<and>
     primary_col_sizes s = map (\<lambda>i. column_size (columns s ! i)) (primary_cols s) \<and>
     primary_col_num s = length (primary_cols s) \<and>
     primary_col_num s \<le> 5 \<and>
     primary_key_length s = sum_list (primary_col_sizes s)"

lemma size_of_columns_simps [simp]:
  "size_of_columns [] = 0"
  "size_of_columns (c # cs) = column_size c + size_of_columns cs"
  "size_of_columns (xs @ ys) = size_of_columns xs + size_of_columns ys"
  by (simp_all add: size_of_columns_def)

lemma primary_ids_snoc:
  "primary_ids (cs @ [c]) = primary_ids cs @ (if is_primary c then [length cs] else [])"
  by (auto simp: primary_ids_def nth_append intro!: filter_cong)

lemma primary_ids_less: "i \<in> set (primary_ids cs) \<Longrightarrow> i < length cs"
  by (auto simp: primary_ids_def)

lemma distinct_primary_ids: "distinct (primary_ids cs)"
  by (simp add: primary_ids_def)

lemma schema_inv_new: "schema_inv Schema_new"
  by (simp add: schema_inv_def Schema_new_def primary_ids_def)

lemma insertColumn_cases:
  assumes "insertColumn c s = Inr s'"
  shows "columns s' = columns s @ [c\<lparr>column_offset := next_column_offset s\<rparr>]"
    and "column_count s' = column_count s + 1"
    and "next_column_offset s' = size_add (next_column_offset s) (column_size c)"
    and "primary_cols s' = primary_cols s @ (if is_primary c then [column_count s] else [])"
    and "primary_col_sizes s' = primary_col_sizes s @ (if is_primary c then [column_size c] else [])"
    and "primary_col_num s' = primary_col_num s + (if is_primary c then 1 else 0)"
    and "primary_key_length s' =
      (if is_primary c then size_add (primary_key_length s) (column_size c) else primary_key_length s)"
    and "is_primary c \<Longrightarrow> primary_col_num s < 5"
  using assms by (auto simp: insertColumn_def Let_def split: if_splits)

lemma size_of_filter: "sum_list (map (\<lambda>i. column_size (cs ! i)) (filter P [0..<length cs])) \<le> size_of_columns cs"
proof -
  have "sum_list (map (\<lambda>i. column_size (cs ! i)) (filter P is)) \<le> sum_list (map (\<lambda>i. column_size (cs ! i)) is)" for "is"
    by (induction "is") auto
  also have "sum_list (map (\<lambda>i. column_size (cs ! i)) [0..<length cs]) = size_of_columns cs"
    unfolding size_of_columns_def by (rule arg_cong [where f = sum_list]) (rule nth_equalityI, simp_all)
  finally show ?thesis .
qed

lemma key_within_record: "schema_inv s \<Longrightarrow> primary_key_length s \<le> next_column_offset s"
  using size_of_filter [of "columns s" "\<lambda>i. is_primary (columns s ! i)"]
  by (simp add: schema_inv_def primary_ids_def)

lemma insertColumn_inv:
  assumes inv: "schema_inv s" and step: "insertColumn c s = Inr s'"
    and small: "next_column_offset s + column_size c < 2 ^ 64"
  shows "schema_inv s'"
proof -
  have add: "size_add (next_column_offset s) (column_size c) = next_column_offset s + column_size c"
    "size_add (primary_key_length s) (column_size c) = primary_key_length s + column_size c"
    using small key_within_record [OF inv] by (simp_all add: size_add_eq)
  let ?c = "c\<lparr>column_offset := next_column_offset s\<rparr>"
  have cols: "columns s' = columns s @ [?c]"
    using insertColumn_cases [OF step] by simp
  have pc: "primary_cols s = primary_ids (columns s)"
    and cnt: "column_count s = length (columns s)"
    using inv by (auto simp: schema_inv_def)
  have pc': "primary_cols s' = primary_ids (columns s')"
    using insertColumn_cases [OF step] pc cnt by (auto simp: cols primary_ids_snoc)
  have offs: "column_offset (columns s' ! i) = size_of_columns (take i (columns s'))"
    if "i < length (columns s')" for i
    using that inv by (auto simp: cols nth_append schema_inv_def not_less_eq)
  have sizes: "map (\<lambda>i. column_size (columns s' ! i)) (primary_ids (columns s))
      = map (\<lambda>i. column_size (columns s ! i)) (primary_ids (columns s))"
    by (auto simp: cols nth_append dest: primary_ids_less)
  have "primary_col_sizes s' = map (\<lambda>i. column_size (columns s' ! i)) (primary_cols s')"
    using insertColumn_cases [OF step] inv sizes
    by (auto simp: schema_inv_def pc cols)
  moreover have "primary_col_num s' = length (primary_cols s')" "primary_col_num s' \<le> 5"
    and "primary_key_length s' = sum_list (primary_col_sizes s')"
    and "column_count s' = length (columns s')"
    and "next_column_offset s' = size_of_columns (columns s')"
    using insertColumn_cases [OF step] inv add by (auto simp: schema_inv_def)
  ultimately show ?thesis
    unfolding schema_inv_def using pc' offs by blast
qed

lemma insertColumn_returns:
  "primary_col_num s < 5 \<or> \<not> is_primary c \<Longrightarrow> \<exists>s'. insertColumn c s = Inr s'"
  by (auto simp: insertColumn_def Let_def)

lemma insertColumn_sixth_primary:
  "is_primary c \<Longrightarrow> \<not> primary_col_num s < 5 \<Longrightarrow> insertColumn c s = Inl AssertionFailed"
  by (simp add: insertColumn_def Let_def assert_that_fails)

section \<open>What the accessors return\<close>

definition col_off :: "schema \<Rightarrow> nat \<Rightarrow> nat" where
  "col_off s i = column_offset (columns s ! i)"

definition col_size :: "schema \<Rightarrow> nat \<Rightarrow> nat" where
  "col_size s i = column_size (columns s ! i)"

definition cols_valid :: "schema \<Rightarrow> nat list \<Rightarrow> bool" where
  "cols_valid s ids \<longleftrightarrow> (\<forall>i \<in> set ids. i < column_count s)"

lemma cols_valid_simps [simp]:
  "cols_valid s []"
  "cols_valid s (i # ids) \<longleftrightarrow> i < column_count s \<and> cols_valid s ids"
  by (auto simp: cols_valid_def)

lemma Schema_getColumn_eq [res_simps]:
  "schema_inv s \<Longrightarrow> i < column_count s \<Longrightarrow> Schema_getColumn s i = Inr (columns s ! i)"
  by (simp add: Schema_getColumn_def schema_inv_def)

lemma Schema_getColumn_out_of_range:
  "\<not> i < column_count s \<Longrightarrow> Schema_getColumn s i = Inl AssertionFailed"
  by (simp add: Schema_getColumn_def assert_that_fails)

lemma getColumnOffset_eq [res_simps]:
  "schema_inv s \<Longrightarrow> i < column_count s \<Longrightarrow> getColumnOffset s i = Inr (col_off s i)"
  by (simp add: getColumnOffset_def Schema_getColumn_eq col_off_def)

lemma getColumnSize_eq [res_simps]:
  "schema_inv s \<Longrightarrow> i < column_count s \<Longrightarrow> getColumnSize s i = Inr (col_size s i)"
  by (simp add: getColumnSize_def Schema_getColumn_eq col_size_def)

lemma getColumnType_eq [res_simps]:
  "schema_inv s \<Longrightarrow> i < column_count s \<Longrightarrow> getColumnType s i = Inr (column_type (columns s ! i))"
  by (simp add: getColumnType_def Schema_getColumn_eq)

lemma getPrimaryColumnId_eq [res_simps]:
  "i < primary_col_num s \<Longrightarrow> getPrimaryColumnId s i = Inr (primary_cols s ! i)"
  by (simp add: getPrimaryColumnId_def)

lemma getPrimaryColumnSize_eq [res_simps]:
  "schema_inv s \<Longrightarrow> i < primary_col_num s \<Longrightarrow>
   getPrimaryColumnSize s i = Inr (col_size s (primary_cols s ! i))"
  by (simp add: getPrimaryColumnSize_def schema_inv_def col_size_def)

lemma primary_cols_valid: "schema_inv s \<Longrightarrow> cols_valid s (primary_cols s)"
  by (auto simp: schema_inv_def cols_valid_def dest: primary_ids_less)

lemma col_off_take:
  "schema_inv s \<Longrightarrow> i < column_count s \<Longrightarrow> col_off s i = size_of_columns (take i (columns s))"
  by (simp add: schema_inv_def col_off_def)

lemma size_of_columns_take_Suc:
  "i < length cs \<Longrightarrow> size_of_columns (take (Suc i) cs) = size_of_columns (take i cs) + column_size (cs ! i)"
  by (simp add: take_Suc_conv_app_nth)

lemma size_of_columns_take_mono:
  "i \<le> j \<Longrightarrow> size_of_columns (take i cs) \<le> size_of_columns (take j cs)"
proof -
  assume "i \<le> j"
  then have "take j cs = take i cs @ take (j - i) (drop i cs)"
    by (metis le_add_diff_inverse take_add)
  then show ?thesis by simp
qed

lemma col_end_take:
  assumes "schema_inv s" "i < column_count s"
  shows "col_off s i + col_size s i = size_of_columns (take (Suc i) (columns s))"
proof -
  have "i < length (columns s)" using assms by (simp add: schema_inv_def)
  then show ?thesis
    using assms by (simp add: col_off_take col_size_def size_of_columns_take_Suc)
qed

lemma columns_ordered:
  assumes "schema_inv s" "i < j" "j < column_count s"
  shows "col_off s i + col_size s i \<le> col_off s j"
proof -
  have "col_off s i + col_size s i = size_of_columns (take (Suc i) (columns s))"
    using assms by (intro col_end_take) auto
  also have "\<dots> \<le> size_of_columns (take j (columns s))"
    using assms by (intro size_of_columns_take_mono) simp
  finally show ?thesis using assms by (simp add: col_off_take)
qed

lemma column_in_record:
  assumes "schema_inv s" "i < column_count s"
  shows "col_off s i + col_size s i \<le> getSchemaSize s"
proof -
  have "col_off s i + col_size s i = size_of_columns (take (Suc i) (columns s))"
    using assms by (rule col_end_take)
  also have "\<dots> \<le> size_of_columns (take (length (columns s)) (columns s))"
    using assms by (intro size_of_columns_take_mono) (simp add: schema_inv_def)
  finally show ?thesis using assms by (simp add: getSchemaSize_def schema_inv_def)
qed

lemma columns_disjoint:
  assumes "schema_inv s" "i < column_count s" "j < column_count s" "i \<noteq> j"
  shows "col_off s i + col_size s i \<le> col_off s j \<or> col_off s j + col_size s j \<le> col_off s i"
  using assms columns_ordered [of s i j] columns_ordered [of s j i] by (cases "i < j") auto

section \<open>Keys\<close>

lemma append_key_eq [res_simps]:
  "length key + length v \<le> n \<Longrightarrow> append_key n v key = Inr (key @ v)"
  by (simp add: append_key_def)

lemma getKeyLength_from:
  assumes "schema_inv s" "cols_valid s ids"
  shows "fold_res (\<lambda>i sum. if i < length (columns s) then Inr (sum + column_size (columns s ! i))
           else Inl OutOfRange) ids n = Inr (n + sum_list (map (col_size s) ids))"
  using assms
  by (induction ids arbitrary: n) (auto simp: schema_inv_def col_size_def add.assoc)

lemma getKeyLength_eq [res_simps]:
  "schema_inv s \<Longrightarrow> cols_valid s ids \<Longrightarrow> getKeyLength s ids = Inr (sum_list (map (col_size s) ids))"
  by (simp add: getKeyLength_def getKeyLength_from)

text \<open>The loop that builds a key from a list of parts.\<close>

lemma append_keys:
  assumes "\<And>x. x \<in> set xs \<Longrightarrow> part x = Inr (val x)"
    and "length (key @ concat (map val xs)) \<le> n"
  shows "fold_res (\<lambda>x key. bnd (part x) (\<lambda>v. append_key n v key)) xs key
       = Inr (key @ concat (map val xs))"
  using assms
proof (induction xs arbitrary: key)
  case Nil
  then show ?case by simp
next
  case (Cons x xs)
  have step: "append_key n (val x) key = Inr (key @ val x)"
    using Cons.prems(2) by (intro append_key_eq) simp
  have "length ((key @ val x) @ concat (map val xs)) \<le> n"
    using Cons.prems(2) by simp
  then show ?case
    using Cons.IH [of "key @ val x"] Cons.prems(1) step by simp
qed

text \<open>The value bytes of a list of predicates, in order.\<close>

definition predicate_key :: "schema \<Rightarrow> column_predicates \<Rightarrow> bytes" where
  "predicate_key s ps = concat (map (\<lambda>(i, v). take (col_size s i) v) ps)"

definition predicates_valid :: "schema \<Rightarrow> column_predicates \<Rightarrow> bool" where
  "predicates_valid s ps \<longleftrightarrow> (\<forall>(i, v) \<in> set ps. i < column_count s \<and> col_size s i \<le> length v)"

lemma predicates_valid_simps [simp]:
  "predicates_valid s []"
  "predicates_valid s ((i, v) # ps) \<longleftrightarrow>
     i < column_count s \<and> col_size s i \<le> length v \<and> predicates_valid s ps"
  by (auto simp: predicates_valid_def)

lemma getPredicateDataSymbol_eq [res_simps]:
  assumes inv: "schema_inv s" and valid: "predicates_valid s ps"
  shows "getPredicateDataSymbol s ps = Inr (predicate_key s ps)"
proof -
  define part where "part = (\<lambda>(i, v). bnd (getColumnSize s i) (\<lambda>n. read_buffer v n))"
  define val where "val = (\<lambda>(i, v :: bytes). take (col_size s i) v)"
  have part: "part p = Inr (val p)" if "p \<in> set ps" for p
    using that inv valid
    by (cases p) (auto simp: part_def val_def predicates_valid_def res_simps)
  have len: "length (concat (map val ps)) = sum_list (map (col_size s) (map fst ps))"
    using valid by (induction ps) (auto simp: val_def predicates_valid_def)
  have "fold_res (\<lambda>(i, value) key. bnd (getColumnSize s i) (\<lambda>n. bnd (read_buffer value n) (\<lambda>v.
       append_key (sum_list (map (col_size s) (map fst ps))) v key))) ps []
     = fold_res (\<lambda>p key. bnd (part p) (\<lambda>v.
       append_key (sum_list (map (col_size s) (map fst ps))) v key)) ps []"
    by (simp add: part_def bnd_assoc case_prod_unfold)
  also have "\<dots> = Inr ([] @ concat (map val ps))"
    using part len by (intro append_keys) auto
  finally have "fold_res (\<lambda>(i, value) key. bnd (getColumnSize s i) (\<lambda>n. bnd (read_buffer value n)
       (\<lambda>v. append_key (sum_list (map (col_size s) (map fst ps))) v key))) ps []
     = Inr (predicate_key s ps)"
    by (simp add: predicate_key_def val_def)
  moreover have "cols_valid s (map fst ps)"
    using valid by (auto simp: cols_valid_def predicates_valid_def)
  ultimately show ?thesis
    using inv by (simp add: getPredicateDataSymbol_def res_simps)
qed

lemma getPredicateDataSymbol_one_eq [res_simps]:
  "schema_inv s \<Longrightarrow> i < column_count s \<Longrightarrow> col_size s i \<le> length v \<Longrightarrow>
   getPredicateDataSymbol_one s \<lparr>cp_column_id = i, cp_value = v\<rparr> = Inr (predicate_key s [(i, v)])"
  by (simp add: getPredicateDataSymbol_one_def res_simps predicate_key_def)

end
