(* ===== verification/BenchSchema.thy ===== *)
theory BenchSchema
  imports Schema
begin

text \<open>
  What the schema files of the two benchmarks share: \<open>std::to_string\<close>, the calls of
  \<open>insertColumn\<close> that build a schema, and the reading of a schema's layout.
\<close>

text \<open>The run-time constants of the benchmarks (\<open>kParallelism\<close>, \<open>kPartitionCnt\<close>, \<open>kPartition\<close>), and
  the contents of a buffer fresh from \<open>new char[n]\<close>, which C++ leaves open.\<close>

record bench_config =
  kParallelism :: nat
  kPartitionCnt :: nat
  kPartition :: bool
  uninit :: "nat \<Rightarrow> byte"

definition new_chars :: "bench_config \<Rightarrow> nat \<Rightarrow> bytes" where
  "new_chars cfg n = map (uninit cfg) [0..<n]"

lemma length_new_chars [simp]: "length (new_chars cfg n) = n"
  by (simp add: new_chars_def)

text \<open>\<open>kPartition ? id % kPartitionCnt : 0\<close> with an \<open>int\<close> identifier: the remainder is taken in \<open>size_t\<close>,
  so a negative identifier is first extended with its sign.\<close>

definition partition_offset :: "bench_config \<Rightarrow> 32 word \<Rightarrow> nat result" where
  "partition_offset cfg i =
     (if kPartition cfg
      then (if kPartitionCnt cfg = 0 then Inl DivisionByZero
            else Inr (unat (scast i :: 64 word) mod kPartitionCnt cfg))
      else Inr 0)"

definition partitions :: "bench_config \<Rightarrow> nat" where
  "partitions cfg = (if kPartition cfg then kPartitionCnt cfg else 1)"

definition partition_of :: "bench_config \<Rightarrow> 32 word \<Rightarrow> nat" where
  "partition_of cfg i = (if kPartition cfg then unat (scast i :: 64 word) mod kPartitionCnt cfg else 0)"

lemma partition_offset_eq [res_simps]:
  "0 < partitions cfg \<Longrightarrow> partition_offset cfg i = Inr (partition_of cfg i)"
  by (simp add: partition_offset_def partition_of_def partitions_def split: if_splits)

lemma partition_of_less: "0 < partitions cfg \<Longrightarrow> partition_of cfg i < partitions cfg"
  by (simp add: partition_of_def partitions_def split: if_splits)

text \<open>\<open>std::vector::at\<close>.\<close>

definition vec_at :: "'a list \<Rightarrow> nat \<Rightarrow> 'a result" where
  "vec_at xs i = (if i < length xs then Inr (xs ! i) else Inl OutOfRange)"

lemma vec_at_eq [res_simps]: "i < length xs \<Longrightarrow> vec_at xs i = Inr (xs ! i)"
  by (simp add: vec_at_def)

text \<open>\<open>c_str()\<close>: the characters of a string and the zero byte after them.\<close>

definition c_str :: "bytes \<Rightarrow> bytes" where
  "c_str str = str @ [0]"

lemma length_c_str [simp]: "length (c_str str) = Suc (length str)"
  by (simp add: c_str_def)

definition bytes_of_string :: "string \<Rightarrow> bytes" where
  "bytes_of_string str = map of_char str"

fun nat_digits :: "nat \<Rightarrow> string" where
  "nat_digits n =
     (if n < 10 then [char_of (48 + n)] else nat_digits (n div 10) @ [char_of (48 + n mod 10)])"

declare nat_digits.simps [simp del]

definition to_string :: "int \<Rightarrow> string" where
  "to_string i = (if i < 0 then CHR ''-'' # nat_digits (nat (- i)) else nat_digits (nat i))"

definition build_schema :: "column_info result list \<Rightarrow> schema result" where
  "build_schema cs = fold_res (\<lambda>c s. bnd c (\<lambda>ci. insertColumn ci s)) cs Schema_new"

text \<open>The short forms of the two \<open>ColumnInfo\<close> constructors with their default argument.\<close>

abbreviation key_col :: "string \<Rightarrow> value_type \<Rightarrow> column_info result" where
  "key_col name t \<equiv> ColumnInfo_fixed name t True"

abbreviation fix_col :: "string \<Rightarrow> value_type \<Rightarrow> column_info result" where
  "fix_col name t \<equiv> ColumnInfo_fixed name t False"

abbreviation str_col :: "string \<Rightarrow> nat \<Rightarrow> column_info result" where
  "str_col name n \<equiv> Inr (ColumnInfo_sized name VARCHAR n False)"

definition declared_size :: "column_info result list \<Rightarrow> nat" where
  "declared_size cs = sum_list (map (\<lambda>c. case c of Inl _ \<Rightarrow> 0 | Inr ci \<Rightarrow> column_size ci) cs)"

lemma build_schema_inv:
  assumes "build_schema cs = Inr s" "int (declared_size cs) < 2 ^ 64"
  shows "schema_inv s"
proof -
  have "schema_inv s'" if "fold_res (\<lambda>c s. bnd c (\<lambda>ci. insertColumn ci s)) cs s = Inr s'" "schema_inv s"
    "next_column_offset s + declared_size cs < 2 ^ 64" for s s' and cs :: "column_info result list"
    using that
  proof (induction cs arbitrary: s)
    case (Cons c cs)
    obtain ci s1 where c: "c = Inr ci" "insertColumn ci s = Inr s1"
        "fold_res (\<lambda>c s. bnd c (\<lambda>ci. insertColumn ci s)) cs s1 = Inr s'"
      using Cons.prems(1) by (auto simp: bnd_eq_Inr)
    have small: "next_column_offset s + column_size ci + declared_size cs < 2 ^ 64"
      using Cons.prems(3) by (simp add: declared_size_def c(1))
    then have "schema_inv s1" "next_column_offset s1 = next_column_offset s + column_size ci"
      using insertColumn_inv [OF Cons.prems(2) c(2)] insertColumn_cases(3) [OF c(2)] by (simp_all add: size_add_eq)
    then show ?case using Cons.IH [OF c(3)] small by simp
  qed simp
  from this [of cs Schema_new s] show ?thesis
    using assms schema_inv_new unfolding build_schema_def by (simp add: Schema_new_def)
qed

text \<open>The layout: type, offset and size of every column, and the numbers the engine needs.\<close>

definition schema_layout :: "schema \<Rightarrow> (value_type \<times> nat \<times> nat) list" where
  "schema_layout s = map (\<lambda>c. (column_type c, column_offset c, column_size c)) (columns s)"

definition schema_summary :: "schema \<Rightarrow> nat \<times> nat \<times> nat list \<times> nat" where
  "schema_summary s =
     (column_count s, getSchemaSize s, primary_cols s, primary_key_length s)"

lemma not_isl_Inr: "\<not> isl r \<Longrightarrow> r = Inr (projr r)"
  by (cases r) auto

lemma layout_nth:
  assumes "schema_layout s = l" "i < length l" "l ! i = (t, off, n)"
  shows "column_type (columns s ! i) = t" "col_off s i = off" "col_size s i = n"
proof -
  have "length (columns s) = length l" using assms(1) by (auto simp: schema_layout_def)
  then have "i < length (columns s)" using assms(2) by simp
  then have "(column_type (columns s ! i), column_offset (columns s ! i), column_size (columns s ! i)) = (t, off, n)"
    using assms(1,3) by (auto simp: schema_layout_def)
  then show "column_type (columns s ! i) = t" "col_off s i = off" "col_size s i = n"
    by (simp_all add: col_off_def col_size_def)
qed

end
