(* ===== verification/TatpSchema.thy ===== *)
theory TatpSchema
  imports BenchSchema
begin

text \<open>
  benchmark/tatp/TatpSchema.cc and TatpConstants.h: the four schemas of the TATP benchmark, their
  table numbers, and the layouts the transactions rely on. A getter builds its schema once and keeps
  it in a static pointer: here it is the value that is built.
\<close>

definition MAX_PARTITION_CNT :: nat where
  "MAX_PARTITION_CNT = 100"

definition SUBSCRIBER_TABLE_ID :: nat where
  "SUBSCRIBER_TABLE_ID = 0"

definition ACCESS_INFO_TABLE_ID :: nat where
  "ACCESS_INFO_TABLE_ID = MAX_PARTITION_CNT"

definition SPECIAL_FACILITY_TABLE_ID :: nat where
  "SPECIAL_FACILITY_TABLE_ID = MAX_PARTITION_CNT * 2"

definition CALL_FORWARDING_TABLE_ID :: nat where
  "CALL_FORWARDING_TABLE_ID = MAX_PARTITION_CNT * 3"

lemmas tatp_table_ids =
  MAX_PARTITION_CNT_def SUBSCRIBER_TABLE_ID_def ACCESS_INFO_TABLE_ID_def
  SPECIAL_FACILITY_TABLE_ID_def CALL_FORWARDING_TABLE_ID_def

definition getSubscriberSchema :: "schema result" where
  "getSubscriberSchema = build_schema (
     [key_col ''s_id'' INT32, str_col ''sub_nbr'' 15] @
     map (\<lambda>i. fix_col (''bit_'' @ to_string (int i)) INT8) [1..<11] @
     map (\<lambda>i. fix_col (''hex_'' @ to_string (int i)) INT8) [1..<11] @
     map (\<lambda>i. fix_col (''byte2_'' @ to_string (int i)) INT16) [1..<11] @
     [fix_col ''msc_location'' INT32, fix_col ''vlr_location'' INT32])"

definition getAccessInfoSchema :: "schema result" where
  "getAccessInfoSchema = build_schema
     [key_col ''s_id'' INT32, key_col ''ai_type'' INT8, fix_col ''data1'' INT16,
      fix_col ''data2'' INT16, str_col ''data3'' 3, str_col ''data4'' 5]"

definition getSpecialFacilitySchema :: "schema result" where
  "getSpecialFacilitySchema = build_schema
     [key_col ''s_id'' INT32, key_col ''sf_type'' INT8, fix_col ''is_active'' INT8,
      fix_col ''error_cntrl'' INT16, fix_col ''data_a'' INT16, str_col ''data_b'' 5]"

definition getCallForwardingSchema :: "schema result" where
  "getCallForwardingSchema = build_schema
     [key_col ''s_id'' INT32, key_col ''sf_type'' INT8, key_col ''start_time'' INT8,
      fix_col ''end_time'' INT8, str_col ''numberx'' 15]"

section \<open>Layouts\<close>

definition subscriber_schema :: schema where
  "subscriber_schema = projr getSubscriberSchema"

definition access_info_schema :: schema where
  "access_info_schema = projr getAccessInfoSchema"

definition special_facility_schema :: schema where
  "special_facility_schema = projr getSpecialFacilitySchema"

definition call_forwarding_schema :: schema where
  "call_forwarding_schema = projr getCallForwardingSchema"

lemma tatp_schemas [res_simps]:
  "getSubscriberSchema = Inr subscriber_schema"
  "getAccessInfoSchema = Inr access_info_schema"
  "getSpecialFacilitySchema = Inr special_facility_schema"
  "getCallForwardingSchema = Inr call_forwarding_schema"
  unfolding subscriber_schema_def access_info_schema_def special_facility_schema_def call_forwarding_schema_def
  by (rule not_isl_Inr, code_simp)+

lemma tatp_schema_inv:
  "schema_inv subscriber_schema" "schema_inv access_info_schema"
  "schema_inv special_facility_schema" "schema_inv call_forwarding_schema"
  by (rule build_schema_inv, rule tatp_schemas [unfolded getSubscriberSchema_def getAccessInfoSchema_def
      getSpecialFacilitySchema_def getCallForwardingSchema_def], code_simp)+

lemma tatp_summaries:
  "schema_summary subscriber_schema = (34, 67, [0], 4)"
  "schema_summary access_info_schema = (6, 17, [0, 1], 5)"
  "schema_summary special_facility_schema = (6, 15, [0, 1], 5)"
  "schema_summary call_forwarding_schema = (5, 22, [0, 1, 2], 6)"
  by code_simp+

lemma tatp_layouts:
  "schema_layout access_info_schema =
     [(INT32, 0, 4), (INT8, 4, 1), (INT16, 5, 2), (INT16, 7, 2), (VARCHAR, 9, 3), (VARCHAR, 12, 5)]"
  "schema_layout special_facility_schema =
     [(INT32, 0, 4), (INT8, 4, 1), (INT8, 5, 1), (INT16, 6, 2), (INT16, 8, 2), (VARCHAR, 10, 5)]"
  "schema_layout call_forwarding_schema =
     [(INT32, 0, 4), (INT8, 4, 1), (INT8, 5, 1), (INT8, 6, 1), (VARCHAR, 7, 15)]"
  by code_simp+

lemma subscriber_layout:
  "schema_layout subscriber_schema =
     [(INT32, 0, 4), (VARCHAR, 4, 15)] @ map (\<lambda>i. (INT8, 19 + i, 1)) [0..<20] @
     map (\<lambda>i. (INT16, 39 + 2 * i, 2)) [0..<10] @ [(INT32, 59, 4), (INT32, 63, 4)]"
  by code_simp

end
