(* ===== verification/TableRecord.thy ===== *)
theory TableRecord
  imports Schema
begin

text \<open>
  storage/Record.h and Record.cc: a record is a schema and a pointer to its bytes. \<open>Record\<close> is used
  for the buffers a caller fills before an insert, so \<open>local_record\<close> holds the buffer itself
  (\<open>None\<close> is the null pointer). \<open>ConstRecord\<close> points into the memory of a table; its operations
  take the bytes found there, from the record's first byte to the end of the allocation.
\<close>

section \<open>Writing columns\<close>

record local_record =
  lr_schema :: schema
  lr_data :: "bytes option"

definition Record_new :: "schema \<Rightarrow> local_record" where
  "Record_new s = \<lparr>lr_schema = s, lr_data = None\<rparr>"

definition transferData :: "bytes \<Rightarrow> local_record \<Rightarrow> local_record" where
  "transferData buf r = r\<lparr>lr_data := Some buf\<rparr>"

definition fetchData :: "local_record \<Rightarrow> bytes option" where
  "fetchData r = lr_data r"

definition write_buffer :: "nat \<Rightarrow> bytes \<Rightarrow> local_record \<Rightarrow> local_record result" where
  "write_buffer off v r =
     (case lr_data r of
        None \<Rightarrow> Inl NullPointer
      | Some buf \<Rightarrow>
          if off + length v \<le> length buf then Inr (r\<lparr>lr_data := Some (patch off v buf)\<rparr>)
          else Inl BadAccess)"

text \<open>\<open>setColumn(column_id, const char*)\<close>: a fixed-size column, all of its bytes.\<close>

definition setColumn :: "nat \<Rightarrow> bytes \<Rightarrow> local_record \<Rightarrow> local_record result" where
  "setColumn i data r =
     bnd (getColumnType (lr_schema r) i) (\<lambda>t.
     bnd (assert_that (t \<noteq> VARCHAR)) (\<lambda>_.
     bnd (getColumnOffset (lr_schema r) i) (\<lambda>off.
     bnd (getColumnSize (lr_schema r) i) (\<lambda>n.
     bnd (read_buffer data n) (\<lambda>v.
     write_buffer off v r)))))"

text \<open>
  \<open>setColumn(column_id, data_str, data_size)\<close>: a \<open>VARCHAR\<close> column; only \<open>data_size\<close> bytes are
  written. The overloads for \<open>CharArray\<close> and \<open>std::string\<close> do the same with the size of the
  array or string.
\<close>

definition setColumn_sized :: "nat \<Rightarrow> bytes \<Rightarrow> nat \<Rightarrow> local_record \<Rightarrow> local_record result" where
  "setColumn_sized i data_str data_size r =
     bnd (getColumnType (lr_schema r) i) (\<lambda>t.
     bnd (getColumnSize (lr_schema r) i) (\<lambda>n.
     bnd (assert_that (t = VARCHAR \<and> data_size \<le> n)) (\<lambda>_.
     bnd (getColumnOffset (lr_schema r) i) (\<lambda>off.
     bnd (read_buffer data_str data_size) (\<lambda>v.
     write_buffer off v r)))))"

definition setColumn_CharArray :: "nat \<Rightarrow> bytes \<Rightarrow> local_record \<Rightarrow> local_record result" where
  "setColumn_CharArray i arr r = setColumn_sized i arr (length arr) r"

definition setColumn_string :: "nat \<Rightarrow> bytes \<Rightarrow> local_record \<Rightarrow> local_record result" where
  "setColumn_string i str r = setColumn_sized i str (length str) r"

section \<open>Reading columns\<close>

text \<open>\<open>column_bytes\<close> is \<open>memcpy(_, data_ptr + getColumnOffset(i), getColumnSize(i))\<close> from the bytes
  at \<open>data_ptr\<close>.\<close>

definition column_bytes :: "schema \<Rightarrow> bytes \<Rightarrow> nat \<Rightarrow> bytes result" where
  "column_bytes s data i =
     bnd (getColumnOffset s i) (\<lambda>off.
     bnd (getColumnSize s i) (\<lambda>n.
     if off \<le> length data then read_buffer (drop off data) n else Inl BadAccess))"

definition Record_getColumn_copy :: "schema \<Rightarrow> bytes \<Rightarrow> nat \<Rightarrow> bytes result" where
  "Record_getColumn_copy s data i =
     bnd (getColumnType s i) (\<lambda>t.
     bnd (assert_that (t = VARCHAR)) (\<lambda>_. column_bytes s data i))"

definition Record_getColumn_CharArray :: "schema \<Rightarrow> bytes \<Rightarrow> nat \<Rightarrow> bytes result" where
  "Record_getColumn_CharArray s data i =
     bnd (getColumnType s i) (\<lambda>t.
     bnd (assert_that (t = VARCHAR)) (\<lambda>_. column_bytes s data i))"

text \<open>
  \<open>data.assign(data_ptr + offset, 0, size)\<close>: the three-argument \<open>assign\<close> takes a string, so the
  pointer is converted to one, which reads up to the first zero byte (past the column when there is
  none in it); of that string the first \<open>size\<close> characters are kept.
\<close>

definition c_string :: "bytes \<Rightarrow> bytes result" where
  "c_string bs = (if 0 \<in> set bs then Inr (takeWhile (\<lambda>b. b \<noteq> 0) bs) else Inl BadAccess)"

definition Record_getColumn_string :: "schema \<Rightarrow> bytes \<Rightarrow> nat \<Rightarrow> bytes result" where
  "Record_getColumn_string s data i =
     bnd (getColumnType s i) (\<lambda>t.
     bnd (assert_that (t = VARCHAR)) (\<lambda>_.
     bnd (getColumnOffset s i) (\<lambda>off.
     bnd (getColumnSize s i) (\<lambda>n.
     bnd (c_string (drop off data)) (\<lambda>str. Inr (take n str))))))"

definition ConstRecord_getColumn_copy :: "schema \<Rightarrow> bytes \<Rightarrow> nat \<Rightarrow> bytes result" where
  "ConstRecord_getColumn_copy s data i =
     bnd (getColumnType s i) (\<lambda>t.
     bnd (assert_that (t \<noteq> VARCHAR)) (\<lambda>_. column_bytes s data i))"

definition ConstRecord_getColumn_CharArray :: "schema \<Rightarrow> bytes \<Rightarrow> nat \<Rightarrow> bytes result" where
  "ConstRecord_getColumn_CharArray s data i = Record_getColumn_CharArray s data i"

definition ConstRecord_getColumn_string :: "schema \<Rightarrow> bytes \<Rightarrow> nat \<Rightarrow> bytes result" where
  "ConstRecord_getColumn_string s data i = Record_getColumn_string s data i"

section \<open>Keys of a record\<close>

definition getKeySymbol :: "schema \<Rightarrow> bytes \<Rightarrow> nat list \<Rightarrow> bytes result" where
  "getKeySymbol s data index_cols =
     bnd (getKeyLength s index_cols) (\<lambda>key_length.
     fold_res (\<lambda>i key.
       bnd (column_bytes s data i) (\<lambda>v. append_key key_length v key)) index_cols [])"

definition getPrimaryKeySymbol :: "schema \<Rightarrow> bytes \<Rightarrow> bytes result" where
  "getPrimaryKeySymbol s data =
     (if getPrimaryKeyLength s = 0 then read_buffer data (getSchemaSize s)
      else fold_res (\<lambda>i key.
        bnd (bnd (getPrimaryColumnId s i) (\<lambda>c.
             bnd (getColumnOffset s c) (\<lambda>off.
             bnd (getPrimaryColumnSize s i) (\<lambda>n.
             if off \<le> length data then read_buffer (drop off data) n else Inl BadAccess)))) (\<lambda>v.
        append_key (getPrimaryKeyLength s) v key)) [0..<getPrimaryColumnCount s] [])"

definition ConstRecord_getKeySymbol :: "schema \<Rightarrow> bytes \<Rightarrow> nat list \<Rightarrow> bytes result" where
  "ConstRecord_getKeySymbol s data index_cols = getKeySymbol s data index_cols"

definition ConstRecord_getPrimaryKeySymbol :: "schema \<Rightarrow> bytes \<Rightarrow> bytes result" where
  "ConstRecord_getPrimaryKeySymbol s data = getPrimaryKeySymbol s data"

section \<open>What they return\<close>

text \<open>The part of a record's bytes that a column occupies, and the keys built from them.\<close>

definition col_data :: "schema \<Rightarrow> nat \<Rightarrow> bytes \<Rightarrow> bytes" where
  "col_data s i data = seg (col_off s i) (col_size s i) data"

definition key_of :: "schema \<Rightarrow> nat list \<Rightarrow> bytes \<Rightarrow> bytes" where
  "key_of s ids data = concat (map (\<lambda>i. col_data s i data) ids)"

definition primary_key_of :: "schema \<Rightarrow> bytes \<Rightarrow> bytes" where
  "primary_key_of s data =
     (if primary_key_length s = 0 then take (getSchemaSize s) data
      else key_of s (primary_cols s) data)"

lemma length_col_data:
  "schema_inv s \<Longrightarrow> i < column_count s \<Longrightarrow> getSchemaSize s \<le> length data \<Longrightarrow>
   length (col_data s i data) = col_size s i"
  using column_in_record [of s i] by (simp add: col_data_def)

lemma length_key_of:
  assumes "schema_inv s" "cols_valid s ids" "getSchemaSize s \<le> length data"
  shows "length (key_of s ids data) = sum_list (map (col_size s) ids)"
  using assms(2) by (induction ids) (simp_all add: key_of_def length_col_data assms(1,3))

lemma column_bytes_eq [res_simps]:
  assumes "schema_inv s" "i < column_count s" "getSchemaSize s \<le> length data"
  shows "column_bytes s data i = Inr (col_data s i data)"
  using assms column_in_record [OF assms(1,2)]
  by (simp add: column_bytes_def res_simps col_data_def seg_def)

lemma getKeySymbol_eq [res_simps]:
  assumes "schema_inv s" "cols_valid s ids" "getSchemaSize s \<le> length data"
  shows "getKeySymbol s data ids = Inr (key_of s ids data)"
proof -
  have "fold_res (\<lambda>i key. bnd (column_bytes s data i) (\<lambda>v.
      append_key (sum_list (map (col_size s) ids)) v key)) ids []
      = Inr ([] @ concat (map (\<lambda>i. col_data s i data) ids))"
  proof (rule append_keys)
    show "column_bytes s data i = Inr (col_data s i data)" if "i \<in> set ids" for i
      using that assms by (simp add: column_bytes_eq cols_valid_def)
    show "length ([] @ concat (map (\<lambda>i. col_data s i data) ids)) \<le> sum_list (map (col_size s) ids)"
      using length_key_of [OF assms] by (simp add: key_of_def)
  qed
  then show ?thesis
    using assms by (simp add: getKeySymbol_def res_simps key_of_def)
qed

lemma primary_key_length_eq:
  "schema_inv s \<Longrightarrow> primary_key_length s = sum_list (map (col_size s) (primary_cols s))"
  by (simp add: schema_inv_def col_size_def [abs_def])

lemma getPrimaryKeySymbol_eq [res_simps]:
  assumes inv: "schema_inv s" and len: "getSchemaSize s \<le> length data"
  shows "getPrimaryKeySymbol s data = Inr (primary_key_of s data)"
proof (cases "primary_key_length s = 0")
  case True
  then show ?thesis
    using len by (simp add: getPrimaryKeySymbol_def getPrimaryKeyLength_def res_simps primary_key_of_def)
next
  case False
  let ?part = "\<lambda>i. bnd (getPrimaryColumnId s i) (\<lambda>c. bnd (getColumnOffset s c) (\<lambda>off.
    bnd (getPrimaryColumnSize s i) (\<lambda>n.
    if off \<le> length data then read_buffer (drop off data) n else Inl BadAccess)))"
  let ?n = "primary_col_num s"
  have num: "?n = length (primary_cols s)"
    using inv by (simp add: schema_inv_def)
  have valid: "primary_cols s ! i < column_count s" if "i < ?n" for i
    using that num primary_cols_valid [OF inv] by (simp add: cols_valid_def)
  have part: "?part i = Inr (col_data s (primary_cols s ! i) data)" if "i < ?n" for i
    using column_in_record [OF inv valid [OF that]] that len inv valid [OF that]
    by (simp add: res_simps col_data_def seg_def)
  have key: "concat (map (\<lambda>i. col_data s (primary_cols s ! i) data) [0..<?n])
      = key_of s (primary_cols s) data"
    by (simp add: key_of_def num map_nth_upt [where f = "\<lambda>c. col_data s c data"])
  have "fold_res (\<lambda>i key. bnd (?part i) (\<lambda>v. append_key (primary_key_length s) v key)) [0..<?n] []
      = Inr ([] @ concat (map (\<lambda>i. col_data s (primary_cols s ! i) data) [0..<?n]))"
    using part length_key_of [OF inv primary_cols_valid [OF inv] len]
    by (intro append_keys) (simp_all add: key primary_key_length_eq [OF inv])
  then show ?thesis
    using False key
    by (simp add: getPrimaryKeySymbol_def getPrimaryKeyLength_def getPrimaryColumnCount_def
        primary_key_of_def)
qed

section \<open>Writing and reading back\<close>

definition set_col :: "schema \<Rightarrow> nat \<Rightarrow> bytes \<Rightarrow> bytes \<Rightarrow> bytes" where
  "set_col s i v data = patch (col_off s i) v data"

lemma setColumn_eq [res_simps]:
  assumes "schema_inv (lr_schema r)" "i < column_count (lr_schema r)"
    and "column_type (columns (lr_schema r) ! i) \<noteq> VARCHAR"
    and "col_size (lr_schema r) i \<le> length v"
    and "lr_data r = Some buf" "length buf = getSchemaSize (lr_schema r)"
  shows "setColumn i v r =
    Inr (r\<lparr>lr_data := Some (set_col (lr_schema r) i (take (col_size (lr_schema r) i) v) buf)\<rparr>)"
  using assms column_in_record [OF assms(1,2)]
  by (simp add: setColumn_def res_simps write_buffer_def set_col_def)

lemma setColumn_sized_eq [res_simps]:
  assumes "schema_inv (lr_schema r)" "i < column_count (lr_schema r)"
    and "column_type (columns (lr_schema r) ! i) = VARCHAR"
    and "n \<le> col_size (lr_schema r) i" "n \<le> length v"
    and "lr_data r = Some buf" "length buf = getSchemaSize (lr_schema r)"
  shows "setColumn_sized i v n r =
    Inr (r\<lparr>lr_data := Some (set_col (lr_schema r) i (take n v) buf)\<rparr>)"
  using assms column_in_record [OF assms(1,2)]
  by (simp add: setColumn_sized_def res_simps write_buffer_def set_col_def)

lemma length_set_col [simp]:
  assumes "schema_inv s" "i < column_count s" "length v \<le> col_size s i"
    and "getSchemaSize s \<le> length data"
  shows "length (set_col s i v data) = length data"
  using assms column_in_record [OF assms(1,2)] by (simp add: set_col_def)

lemma col_data_set_col_same:
  assumes "schema_inv s" "i < column_count s" "length v = col_size s i"
    and "getSchemaSize s \<le> length data"
  shows "col_data s i (set_col s i v data) = v"
  using assms column_in_record [OF assms(1,2)]
  by (simp add: set_col_def col_data_def seg_patch_same)

lemma col_data_set_col_other:
  assumes "schema_inv s" "i < column_count s" "j < column_count s" "i \<noteq> j"
    and "length v \<le> col_size s i" "getSchemaSize s \<le> length data"
  shows "col_data s j (set_col s i v data) = col_data s j data"
proof -
  have "col_off s j + col_size s j \<le> col_off s i \<or> col_off s i + length v \<le> col_off s j"
    using columns_disjoint [OF assms(1-4)] assms(5) by auto
  then show ?thesis
    using column_in_record [OF assms(1,2)] column_in_record [OF assms(1,3)] assms(5,6)
    unfolding set_col_def col_data_def by (intro seg_patch_disjoint) auto
qed

lemma key_of_set_col_other:
  assumes "schema_inv s" "i < column_count s" "cols_valid s ids" "i \<notin> set ids"
    and "length v \<le> col_size s i" "getSchemaSize s \<le> length data"
  shows "key_of s ids (set_col s i v data) = key_of s ids data"
  unfolding key_of_def
  using assms by (intro arg_cong [where f = concat] map_cong refl col_data_set_col_other)
    (auto simp: cols_valid_def)

section \<open>Keys and predicates\<close>

text \<open>A record matches a list of predicates when each named column holds the given value; that is
  what comparing the key of the record with the key of the predicates decides.\<close>

definition matches :: "schema \<Rightarrow> column_predicates \<Rightarrow> bytes \<Rightarrow> bool" where
  "matches s ps data \<longleftrightarrow> (\<forall>(i, v) \<in> set ps. col_data s i data = take (col_size s i) v)"

lemma matches_simps [simp]:
  "matches s [] data"
  "matches s ((i, v) # ps) data \<longleftrightarrow> col_data s i data = take (col_size s i) v \<and> matches s ps data"
  by (auto simp: matches_def)

lemma key_of_eq_predicate_key:
  assumes "schema_inv s" "predicates_valid s ps" "getSchemaSize s \<le> length data"
  shows "key_of s (map fst ps) data = predicate_key s ps \<longleftrightarrow> matches s ps data"
proof -
  have "key_of s (map fst ps) data = predicate_key s ps \<longleftrightarrow>
      (\<forall>p \<in> set ps. col_data s (fst p) data = take (col_size s (fst p)) (snd p))"
    unfolding key_of_def predicate_key_def map_map comp_def case_prod_unfold
    using assms by (intro concat_map_eq_iff) (auto simp: length_col_data predicates_valid_def)
  then show ?thesis by (auto simp: matches_def)
qed

lemma key_of_eq_iff:
  assumes "schema_inv s" "cols_valid s ids"
    and "getSchemaSize s \<le> length data" "getSchemaSize s \<le> length data'"
  shows "key_of s ids data = key_of s ids data' \<longleftrightarrow> (\<forall>i \<in> set ids. col_data s i data = col_data s i data')"
  unfolding key_of_def
  using assms by (intro concat_map_eq_iff) (auto simp: length_col_data cols_valid_def)

end
