(* ===== verification/Memory.thy ===== *)
theory Memory
  imports MetaTypes
begin

text \<open>
  storage/Block.h and the pointers into blocks. A pointer is a block and an offset in it; the
  order on pointers is the order in which a table is scanned. Reading and writing through a
  pointer is checked against the block's end: an access outside is \<open>BadAccess\<close>, so an operation
  that returns \<open>Inr\<close> stayed inside its allocations.
\<close>

section \<open>Pointers\<close>

datatype addr = Addr (addr_block: nat) (addr_off: nat)

instantiation addr :: linorder
begin

definition less_eq_addr :: "addr \<Rightarrow> addr \<Rightarrow> bool" where
  "less_eq_addr a b \<longleftrightarrow>
     addr_block a < addr_block b \<or> addr_block a = addr_block b \<and> addr_off a \<le> addr_off b"

definition less_addr :: "addr \<Rightarrow> addr \<Rightarrow> bool" where
  "less_addr a b \<longleftrightarrow>
     addr_block a < addr_block b \<or> addr_block a = addr_block b \<and> addr_off a < addr_off b"

instance
  by intro_classes (auto simp: less_eq_addr_def less_addr_def addr.expand)

end

fun addr_plus :: "addr \<Rightarrow> nat \<Rightarrow> addr" where
  "addr_plus (Addr b off) n = Addr b (off + n)"

fun addr_minus :: "addr \<Rightarrow> nat \<Rightarrow> addr result" where
  "addr_minus (Addr b off) n = (if n \<le> off then Inr (Addr b (off - n)) else Inl BadAccess)"

lemma addr_minus_plus [simp]: "addr_minus (addr_plus a n) n = Inr a"
  by (cases a) simp

lemma addr_plus_0 [simp]: "addr_plus a 0 = a"
  by (cases a) simp

lemma addr_plus_plus [simp]: "addr_plus (addr_plus a m) n = addr_plus a (m + n)"
  by (cases a) (simp add: add.assoc)

lemma addr_plus_inj [simp]: "addr_plus a n = addr_plus b n \<longleftrightarrow> a = b"
  by (cases a; cases b) simp

lemma addr_sel_plus [simp]:
  "addr_block (addr_plus a n) = addr_block a"
  "addr_off (addr_plus a n) = addr_off a + n"
  by (cases a; simp)+

section \<open>Blocks\<close>

record block =
  blk_data :: "nat \<Rightarrow> byte"
  end_ptr :: nat
  next_block :: "nat option"

text \<open>\<open>end_ptr\<close> is the offset of the end; \<open>next_block\<close> is the position of the next block in the
  table's vector. The size parameter is a \<open>uint32_t\<close>.\<close>

definition Block_new :: "nat \<Rightarrow> block" where
  "Block_new sz = \<lparr>blk_data = (\<lambda>_. 0), end_ptr = sz mod 2 ^ 32, next_block = None\<rparr>"

definition mem_read :: "block list \<Rightarrow> addr \<Rightarrow> nat \<Rightarrow> bytes result" where
  "mem_read bs a n =
     (if addr_block a < length bs \<and> addr_off a + n \<le> end_ptr (bs ! addr_block a)
      then Inr (bytes_at (blk_data (bs ! addr_block a)) (addr_off a) n)
      else Inl BadAccess)"

definition mem_write :: "block list \<Rightarrow> addr \<Rightarrow> bytes \<Rightarrow> block list result" where
  "mem_write bs a v =
     (if addr_block a < length bs \<and> addr_off a + length v \<le> end_ptr (bs ! addr_block a)
      then (let blk = bs ! addr_block a in
            Inr (bs[addr_block a := blk\<lparr>blk_data := write_at (blk_data blk) (addr_off a) v\<rparr>]))
      else Inl BadAccess)"

text \<open>A C string read from a block: the bytes up to the first zero byte.\<close>

function c_string_at :: "(nat \<Rightarrow> byte) \<Rightarrow> nat \<Rightarrow> nat \<Rightarrow> bytes result" where
  "c_string_at m off e =
     (if off < e
      then (if m off = 0 then Inr [] else bnd (c_string_at m (Suc off) e) (\<lambda>str. Inr (m off # str)))
      else Inl BadAccess)"
  by pat_completeness auto
termination
  by (relation "measure (\<lambda>(m, off, e). e - off)") auto

declare c_string_at.simps [simp del]

definition mem_c_string :: "block list \<Rightarrow> addr \<Rightarrow> bytes result" where
  "mem_c_string bs a =
     (if addr_block a < length bs
      then c_string_at (blk_data (bs ! addr_block a)) (addr_off a) (end_ptr (bs ! addr_block a))
      else Inl BadAccess)"

section \<open>Reading after writing\<close>

lemma mem_write_shape:
  assumes "mem_write bs a v = Inr bs'"
  shows "length bs' = length bs"
    and "\<And>b. b < length bs \<Longrightarrow> end_ptr (bs' ! b) = end_ptr (bs ! b)"
    and "\<And>b. b < length bs \<Longrightarrow> next_block (bs' ! b) = next_block (bs ! b)"
  using assms by (auto simp: mem_write_def Let_def nth_list_update split: if_splits)

lemma mem_write_data:
  assumes "mem_write bs a v = Inr bs'" "b < length bs"
  shows "blk_data (bs' ! b) =
    (if b = addr_block a then write_at (blk_data (bs ! b)) (addr_off a) v else blk_data (bs ! b))"
  using assms by (auto simp: mem_write_def Let_def nth_list_update split: if_splits)

lemma mem_read_write_same:
  "mem_write bs a v = Inr bs' \<Longrightarrow> n = length v \<Longrightarrow> mem_read bs' a n = Inr v"
  by (auto simp: mem_read_def mem_write_def Let_def split: if_splits)

lemma mem_read_write_disjoint:
  assumes "mem_write bs a v = Inr bs'"
    and "addr_block a \<noteq> addr_block a' \<or> addr_off a' + n \<le> addr_off a
         \<or> addr_off a + length v \<le> addr_off a'"
  shows "mem_read bs' a' n = mem_read bs a' n"
  using assms
  by (auto simp: mem_read_def mem_write_def Let_def nth_list_update bytes_at_write_disjoint
      split: if_splits)

lemma mem_read_write_inside:
  assumes "mem_write bs (addr_plus a d) v = Inr bs'" "d + length v \<le> n" "mem_read bs a n = Inr w"
  shows "mem_read bs' a n = Inr (patch d v w)"
  using assms
  by (auto simp: mem_read_def mem_write_def Let_def bytes_at_write_inside split: if_splits)


end
