(* ===== verification/Tbb.thy ===== *)
theory Tbb
  imports Memory
begin

text \<open>
  The containers of Intel Threading Building Blocks the engine uses are not part of the
  repository: the model takes their operations as an argument, a record of functions, and relies on
  their documented behaviour only where a theorem has the hypothesis \<open>tbb_laws\<close>. The contents of a
  queue and the elements of a multimap under a key are observed through \<open>q_items\<close> (the elements
  between \<open>unsafe_begin\<close> and \<open>unsafe_end\<close>) and \<open>mm_range\<close> (the elements \<open>equal_range\<close> delimits).
\<close>

record ('q, 'h, 'm) tbb =
  q_empty :: 'q
  q_push :: "addr \<Rightarrow> 'q \<Rightarrow> 'q"
  q_try_pop :: "'q \<Rightarrow> (addr \<times> 'q) option"
  q_clear :: "'q \<Rightarrow> 'q"
  q_items :: "'q \<Rightarrow> addr list"
  hm_empty :: 'h
  hm_insert :: "bytes \<Rightarrow> addr \<Rightarrow> 'h \<Rightarrow> 'h"
  hm_erase :: "bytes \<Rightarrow> 'h \<Rightarrow> 'h"
  hm_find :: "'h \<Rightarrow> bytes \<Rightarrow> addr option"
  hm_size :: "'h \<Rightarrow> nat"
  mm_empty :: 'm
  mm_insert :: "bytes \<Rightarrow> addr \<Rightarrow> 'm \<Rightarrow> 'm"
  mm_erase :: "bytes \<Rightarrow> 'm \<Rightarrow> 'm"
  mm_find :: "'m \<Rightarrow> bytes \<Rightarrow> addr option"
  mm_count :: "'m \<Rightarrow> bytes \<Rightarrow> nat"
  mm_range :: "'m \<Rightarrow> bytes \<Rightarrow> addr list"
  mm_size :: "'m \<Rightarrow> nat"

text \<open>\<open>concurrent_queue\<close>: first in, first out; \<open>try_pop\<close> fails exactly when it is empty.\<close>

definition queue_laws :: "('q, 'h, 'm) tbb \<Rightarrow> bool" where
  "queue_laws T \<longleftrightarrow>
     q_items T (q_empty T) = [] \<and>
     (\<forall>a q. q_items T (q_push T a q) = q_items T q @ [a]) \<and>
     (\<forall>q. q_items T (q_clear T q) = []) \<and>
     (\<forall>q. q_items T q = [] \<longrightarrow> q_try_pop T q = None) \<and>
     (\<forall>q a as. q_items T q = a # as \<longrightarrow> (\<exists>q'. q_try_pop T q = Some (a, q') \<and> q_items T q' = as))"

text \<open>\<open>concurrent_hash_map\<close>: \<open>insert\<close> leaves an existing entry alone.\<close>

definition hash_map_laws :: "('q, 'h, 'm) tbb \<Rightarrow> bool" where
  "hash_map_laws T \<longleftrightarrow>
     (\<forall>k. hm_find T (hm_empty T) k = None) \<and>
     (\<forall>h k a k'. hm_find T (hm_insert T k a h) k' =
        (if k' = k \<and> hm_find T h k = None then Some a else hm_find T h k')) \<and>
     (\<forall>h k k'. hm_find T (hm_erase T k h) k' = (if k' = k then None else hm_find T h k')) \<and>
     hm_size T (hm_empty T) = 0 \<and>
     (\<forall>h k a. hm_size T (hm_insert T k a h) =
        hm_size T h + (if hm_find T h k = None then 1 else 0)) \<and>
     (\<forall>h k. hm_size T h = hm_size T (hm_erase T k h) + (if hm_find T h k = None then 0 else 1))"

text \<open>\<open>concurrent_unordered_multimap\<close>: \<open>insert\<close> always adds, \<open>unsafe_erase(key)\<close> removes every
  element of the key, \<open>find\<close> gives one of them. The order of equal keys is not documented.\<close>

definition multimap_laws :: "('q, 'h, 'm) tbb \<Rightarrow> bool" where
  "multimap_laws T \<longleftrightarrow>
     (\<forall>k. mm_range T (mm_empty T) k = []) \<and>
     (\<forall>m k a. mset (mm_range T (mm_insert T k a m) k) = add_mset a (mset (mm_range T m k))) \<and>
     (\<forall>m k a k'. k' \<noteq> k \<longrightarrow> mm_range T (mm_insert T k a m) k' = mm_range T m k') \<and>
     (\<forall>m k. mm_range T (mm_erase T k m) k = []) \<and>
     (\<forall>m k k'. k' \<noteq> k \<longrightarrow> mm_range T (mm_erase T k m) k' = mm_range T m k') \<and>
     (\<forall>m k. mm_range T m k = [] \<longrightarrow> mm_find T m k = None) \<and>
     (\<forall>m k. mm_range T m k \<noteq> [] \<longrightarrow> (\<exists>a \<in> set (mm_range T m k). mm_find T m k = Some a)) \<and>
     (\<forall>m k. mm_count T m k = length (mm_range T m k)) \<and>
     mm_size T (mm_empty T) = 0 \<and>
     (\<forall>m k a. mm_size T (mm_insert T k a m) = mm_size T m + 1) \<and>
     (\<forall>m k. mm_size T m = mm_size T (mm_erase T k m) + length (mm_range T m k))"

definition tbb_laws :: "('q, 'h, 'm) tbb \<Rightarrow> bool" where
  "tbb_laws T \<longleftrightarrow> queue_laws T \<and> hash_map_laws T \<and> multimap_laws T"

lemma tbb_lawsD:
  "tbb_laws T \<Longrightarrow> queue_laws T"
  "tbb_laws T \<Longrightarrow> hash_map_laws T"
  "tbb_laws T \<Longrightarrow> multimap_laws T"
  by (simp_all add: tbb_laws_def)

lemma try_pop_cases:
  assumes "queue_laws T"
  shows "q_items T q = [] \<and> q_try_pop T q = None \<or>
    (\<exists>a as q'. q_items T q = a # as \<and> q_try_pop T q = Some (a, q') \<and> q_items T q' = as)"
  using assms unfolding queue_laws_def by (cases "q_items T q") metis+

section \<open>An instance\<close>

text \<open>Lists satisfy the laws: the containers in which the witnesses run the program.\<close>

definition list_tbb :: "(addr list, (bytes \<times> addr) list, (bytes \<times> addr) list) tbb" where
  "list_tbb = \<lparr>
     q_empty = [],
     q_push = (\<lambda>a q. q @ [a]),
     q_try_pop = (\<lambda>q. case q of [] \<Rightarrow> None | a # q' \<Rightarrow> Some (a, q')),
     q_clear = (\<lambda>_. []),
     q_items = (\<lambda>q. q),
     hm_empty = [],
     hm_insert = (\<lambda>k a h. if map_of h k = None then (k, a) # h else h),
     hm_erase = (\<lambda>k h. filter (\<lambda>p. fst p \<noteq> k) h),
     hm_find = map_of,
     hm_size = (\<lambda>h. length (remdups (map fst h))),
     mm_empty = [],
     mm_insert = (\<lambda>k a m. m @ [(k, a)]),
     mm_erase = (\<lambda>k m. filter (\<lambda>p. fst p \<noteq> k) m),
     mm_find = map_of,
     mm_count = (\<lambda>m k. length (filter (\<lambda>p. fst p = k) m)),
     mm_range = (\<lambda>m k. map snd (filter (\<lambda>p. fst p = k) m)),
     mm_size = length\<rparr>"

lemma map_of_Some_filter:
  "filter (\<lambda>p. fst p = k) m \<noteq> [] \<Longrightarrow> \<exists>a \<in> set (map snd (filter (\<lambda>p. fst p = k) m)). map_of m k = Some a"
  by (induction m) auto

lemma map_of_None_filter: "filter (\<lambda>p. fst p = k) m = [] \<Longrightarrow> map_of m k = None"
  by (induction m) auto

lemma map_of_filter_neq: "map_of (filter (\<lambda>p. fst p \<noteq> k) h) k' = (if k' = k then None else map_of h k')"
  by (induction h) auto

lemma filter_filter_eq_neq:
  "filter (\<lambda>p. fst p = k') (filter (\<lambda>p. fst p \<noteq> k) m) =
   (if k' = k then [] else filter (\<lambda>p. fst p = k') m)"
  by (induction m) auto

lemma length_filter_split:
  "length m = length (filter (\<lambda>p. fst p \<noteq> k) m) + length (filter (\<lambda>p. fst p = k) m)"
  by (induction m) auto

lemma keys_erase:
  "length (remdups (map fst h)) =
   length (remdups (map fst (filter (\<lambda>p. fst p \<noteq> k) h))) + (if map_of h k = None then 0 else 1)"
proof -
  let ?K = "set (map fst h)"
  have "set (map fst (filter (\<lambda>p. fst p \<noteq> k) h)) = ?K - {k}"
    by auto
  moreover have "card ?K = card (?K - {k}) + (if k \<in> ?K then 1 else 0)"
    using card_Suc_Diff1 [of ?K k] by (simp del: set_map)
  ultimately show ?thesis
    unfolding length_remdups_card_conv map_of_eq_None_iff set_map [symmetric]
    by (simp del: set_map set_filter)
qed

lemma list_queue_laws: "queue_laws list_tbb"
  by (auto simp: queue_laws_def list_tbb_def)

lemma list_hash_map_laws: "hash_map_laws list_tbb"
proof -
  have "length (remdups (map fst h)) = length (remdups (map fst (filter (\<lambda>p. fst p \<noteq> k) h)))
      + (if map_of h k = None then 0 else 1)" for h :: "(bytes \<times> addr) list" and k
    by (rule keys_erase)
  then show ?thesis
    unfolding hash_map_laws_def list_tbb_def
    by (simp add: map_of_filter_neq map_of_eq_None_iff)
qed

lemma list_multimap_laws: "multimap_laws list_tbb"
proof -
  have "map_of m k = None" if "map snd (filter (\<lambda>p. fst p = k) m) = []"
    for m :: "(bytes \<times> addr) list" and k
    using that by (intro map_of_None_filter) simp
  moreover have "\<exists>a \<in> set (map snd (filter (\<lambda>p. fst p = k) m)). map_of m k = Some a"
    if "map snd (filter (\<lambda>p. fst p = k) m) \<noteq> []" for m :: "(bytes \<times> addr) list" and k
    using that by (intro map_of_Some_filter) simp
  moreover have "length m = length (filter (\<lambda>p. fst p \<noteq> k) m) + length (filter (\<lambda>p. fst p = k) m)"
    for m :: "(bytes \<times> addr) list" and k
    by (rule length_filter_split)
  ultimately show ?thesis
    unfolding multimap_laws_def list_tbb_def tbb.select_convs
    by (intro conjI allI impI) (simp_all add: filter_filter_eq_neq del: filter_filter)
qed

lemma list_tbb_laws: "tbb_laws list_tbb"
  by (simp add: tbb_laws_def list_queue_laws list_hash_map_laws list_multimap_laws)

end
