(* ===== verification/BaseTable.thy ===== *)
theory BaseTable
  imports Tbb
begin

text \<open>
  storage/BaseTable.h and BaseTable.cc: the record store. A table owns blocks of equally sized
  slots, each an eight-byte header (its first byte is the \<open>RecordFlag\<close>) and the bytes of a record;
  a slot is taken from a new block when every slot is occupied, else from the free list, else from
  the fresh part of the last block. The invariant \<open>bt_inv\<close> describes the slots; the contract
  \<open>record_store\<close> is what the rest of the engine relies on.
\<close>

section \<open>State and operations\<close>

record 'q base_table =
  record_size :: nat
  record_full_size :: nat
  record_num_per_block :: nat
  occupied_record_count :: nat
  allocated_record_count :: nat
  blocks :: "block list"
  free_list :: 'q
  next_freespace_ptr :: "addr option"

definition BaseTable_new :: "('q, 'h, 'm) tbb \<Rightarrow> nat \<Rightarrow> 'q base_table" where
  "BaseTable_new T rs =
     \<lparr>record_size = rs, record_full_size = rs + kRecordHeaderSize,
      record_num_per_block = kBlockSize div (rs + kRecordHeaderSize),
      occupied_record_count = 0, allocated_record_count = 0,
      blocks = [], free_list = q_empty T, next_freespace_ptr = None\<rparr>"

definition BaseTable_clear :: "('q, 'h, 'm) tbb \<Rightarrow> 'q base_table \<Rightarrow> 'q base_table" where
  "BaseTable_clear T t =
     t\<lparr>blocks := [], free_list := q_clear T (free_list t), next_freespace_ptr := None,
       occupied_record_count := 0, allocated_record_count := 0\<rparr>"

definition getTableSize :: "'q base_table \<Rightarrow> nat" where
  "getTableSize t = occupied_record_count t"

definition getOccupiedRecordCount :: "'q base_table \<Rightarrow> nat" where
  "getOccupiedRecordCount t = occupied_record_count t"

definition getAllocatedRecordCount :: "'q base_table \<Rightarrow> nat" where
  "getAllocatedRecordCount t = allocated_record_count t"

definition allocateNextBlock :: "'q base_table \<Rightarrow> 'q base_table" where
  "allocateNextBlock t =
     (let append_block = Block_new (kBlockSize div record_full_size t * record_full_size t);
          n = length (blocks t);
          linked = (if n > 0 then (blocks t)[n - 1 := (blocks t ! (n - 1))\<lparr>next_block := Some n\<rparr>]
                    else blocks t)
      in t\<lparr>next_freespace_ptr := Some (Addr n 0),
           blocks := linked @ [append_block],
           allocated_record_count := allocated_record_count t + record_num_per_block t\<rparr>)"

text \<open>The critical section of \<open>insertRecord\<close>: the slot the record goes to.\<close>

definition take_fresh :: "'q base_table \<Rightarrow> addr option \<times> 'q base_table" where
  "take_fresh t =
     (next_freespace_ptr t,
      t\<lparr>next_freespace_ptr :=
          map_option (\<lambda>p. addr_plus p (record_full_size t)) (next_freespace_ptr t)\<rparr>)"

definition acquire_slot :: "('q, 'h, 'm) tbb \<Rightarrow> 'q base_table \<Rightarrow> addr option \<times> 'q base_table" where
  "acquire_slot T t =
     (let (ans, t1) =
        (if allocated_record_count t = occupied_record_count t
         then take_fresh (allocateNextBlock t)
         else (case q_try_pop T (free_list t) of
                 Some (a, q') \<Rightarrow> (Some a, t\<lparr>free_list := q'\<rparr>)
               | None \<Rightarrow> take_fresh t))
      in (ans, t1\<lparr>occupied_record_count := occupied_record_count t1 + 1\<rparr>))"

text \<open>After the lock is released: mark the slot and copy the record.\<close>

definition fill_slot :: "addr \<Rightarrow> bytes \<Rightarrow> 'q base_table \<Rightarrow> (addr \<times> 'q base_table) result" where
  "fill_slot ans rec t =
     bnd (mem_write (blocks t) ans [flag_byte OCCUPIED]) (\<lambda>bs1.
     bnd (read_buffer rec (record_size t)) (\<lambda>v.
     bnd (mem_write bs1 (addr_plus ans kRecordHeaderSize) v) (\<lambda>bs2.
     Inr (addr_plus ans kRecordHeaderSize, t\<lparr>blocks := bs2\<rparr>))))"

definition BaseTable_insertRecord ::
  "('q, 'h, 'm) tbb \<Rightarrow> bytes \<Rightarrow> 'q base_table \<Rightarrow> (addr \<times> 'q base_table) result" where
  "BaseTable_insertRecord T rec t =
     (case acquire_slot T t of
        (None, t1) \<Rightarrow> Inl NullPointer
      | (Some ans, t1) \<Rightarrow> fill_slot ans rec t1)"

text \<open>The decrement of a \<open>size_t\<close>.\<close>

definition size_t_dec :: "nat \<Rightarrow> nat" where
  "size_t_dec n = (if n = 0 then 2 ^ 64 - 1 else n - 1)"

definition BaseTable_deleteRecord ::
  "('q, 'h, 'm) tbb \<Rightarrow> addr \<Rightarrow> 'q base_table \<Rightarrow> 'q base_table result" where
  "BaseTable_deleteRecord T record_pos t =
     bnd (addr_minus record_pos kRecordHeaderSize) (\<lambda>del_pos.
     let t1 = t\<lparr>free_list := q_push T del_pos (free_list t)\<rparr> in
     bnd (mem_write (blocks t1) del_pos (replicate kRecordHeaderSize 0)) (\<lambda>bs.
     Inr (t1\<lparr>blocks := bs, occupied_record_count := size_t_dec (occupied_record_count t1)\<rparr>)))"

text \<open>What a \<open>ConstRecord\<close> at an address of the table shows, and a write through its pointer.\<close>

definition BaseTable_read :: "'q base_table \<Rightarrow> addr \<Rightarrow> bytes result" where
  "BaseTable_read t a = mem_read (blocks t) a (record_size t)"

definition BaseTable_write :: "addr \<Rightarrow> nat \<Rightarrow> bytes \<Rightarrow> 'q base_table \<Rightarrow> 'q base_table result" where
  "BaseTable_write a off v t =
     bnd (mem_write (blocks t) (addr_plus a off) v) (\<lambda>bs. Inr (t\<lparr>blocks := bs\<rparr>))"

section \<open>Slots\<close>

text \<open>Slots are numbered in the order of their addresses.\<close>

definition slot_addr :: "'q base_table \<Rightarrow> nat \<Rightarrow> addr" where
  "slot_addr t s =
     Addr (s div record_num_per_block t) (s mod record_num_per_block t * record_full_size t)"

definition slot_count :: "'q base_table \<Rightarrow> nat" where
  "slot_count t = length (blocks t) * record_num_per_block t"

definition slot_flag :: "'q base_table \<Rightarrow> nat \<Rightarrow> byte" where
  "slot_flag t s =
     blk_data (blocks t ! addr_block (slot_addr t s)) (addr_off (slot_addr t s))"

text \<open>The number of slots that were ever handed out.\<close>

definition used_slots :: "'q base_table \<Rightarrow> nat" where
  "used_slots t =
     (case next_freespace_ptr t of
        None \<Rightarrow> 0
      | Some p \<Rightarrow> addr_block p * record_num_per_block t + addr_off p div record_full_size t)"

definition bt_geometry :: "'q base_table \<Rightarrow> bool" where
  "bt_geometry t \<longleftrightarrow>
     record_full_size t = record_size t + kRecordHeaderSize \<and>
     record_num_per_block t = kBlockSize div record_full_size t \<and>
     0 < record_num_per_block t \<and>
     allocated_record_count t = slot_count t \<and>
     (\<forall>b < length (blocks t).
        end_ptr (blocks t ! b) = record_num_per_block t * record_full_size t \<and>
        next_block (blocks t ! b) = (if Suc b < length (blocks t) then Some (Suc b) else None)) \<and>
     (case next_freespace_ptr t of
        None \<Rightarrow> blocks t = []
      | Some p \<Rightarrow> blocks t \<noteq> [] \<and> addr_block p = length (blocks t) - 1 \<and>
          (\<exists>k \<le> record_num_per_block t. addr_off p = k * record_full_size t))"

text \<open>\<open>free\<close> are the slots on the free list.\<close>

definition bt_slots :: "('q, 'h, 'm) tbb \<Rightarrow> 'q base_table \<Rightarrow> nat list \<Rightarrow> bool" where
  "bt_slots T t free \<longleftrightarrow>
     q_items T (free_list t) = map (slot_addr t) free \<and> distinct free \<and>
     (\<forall>s \<in> set free. s < used_slots t) \<and>
     occupied_record_count t + length free = used_slots t \<and>
     (\<forall>s < slot_count t.
        slot_flag t s = flag_byte (if s < used_slots t \<and> s \<notin> set free then OCCUPIED else FREE))"

definition bt_inv :: "('q, 'h, 'm) tbb \<Rightarrow> 'q base_table \<Rightarrow> bool" where
  "bt_inv T t \<longleftrightarrow> queue_laws T \<and> bt_geometry t \<and> (\<exists>free. bt_slots T t free)"

definition live_slots :: "'q base_table \<Rightarrow> nat list" where
  "live_slots t = filter (\<lambda>s. slot_flag t s = flag_byte OCCUPIED) [0..<slot_count t]"

definition record_addr :: "'q base_table \<Rightarrow> nat \<Rightarrow> addr" where
  "record_addr t s = addr_plus (slot_addr t s) kRecordHeaderSize"

text \<open>The addresses of the records of the table, in scan order, and the bytes at an address.\<close>

definition live_records :: "'q base_table \<Rightarrow> addr list" where
  "live_records t = map (record_addr t) (live_slots t)"

definition record_bytes :: "'q base_table \<Rightarrow> addr \<Rightarrow> bytes" where
  "record_bytes t a = bytes_at (blk_data (blocks t ! addr_block a)) (addr_off a) (record_size t)"

subsection \<open>Slots do not overlap\<close>

lemma slot_div_less: "s < (L::nat) * n \<Longrightarrow> s div n < L"
  by (rule less_mult_imp_div_less)

lemma slot_end_le: "0 < (n::nat) \<Longrightarrow> s mod n * f + f \<le> n * f"
  by (metis Suc_leI add.commute mod_less_divisor mult_Suc mult_le_mono1)

lemma slot_gap:
  assumes "(i::nat) \<noteq> j"
  shows "i * f + f \<le> j * f \<or> j * f + f \<le> i * f"
proof (cases "i < j")
  case True
  then have "Suc i * f \<le> j * f" by (intro mult_le_mono1) simp
  then show ?thesis by simp
next
  case False
  then have "Suc j * f \<le> i * f" using assms by (intro mult_le_mono1) simp
  then show ?thesis by simp
qed

lemma slots_disjoint:
  assumes "0 < (n::nat)" "s \<noteq> s'"
  shows "s div n \<noteq> s' div n \<or> s mod n * f + f \<le> s' mod n * f \<or> s' mod n * f + f \<le> s mod n * f"
proof (cases "s div n = s' div n")
  case True
  then have "s mod n \<noteq> s' mod n"
    using assms by (metis mult_div_mod_eq)
  then show ?thesis using slot_gap by blast
qed simp

lemma bt_geometryD:
  assumes "bt_geometry t"
  shows "record_full_size t = record_size t + 8" "0 < record_num_per_block t"
    and "0 < record_full_size t"
    and "\<And>b. b < length (blocks t) \<Longrightarrow>
      end_ptr (blocks t ! b) = record_num_per_block t * record_full_size t"
  using assms by (auto simp: bt_geometry_def)

lemma slot_addr_inj:
  assumes "bt_geometry t"
  shows "slot_addr t s = slot_addr t s' \<longleftrightarrow> s = s'"
proof
  assume "slot_addr t s = slot_addr t s'"
  then have "s div record_num_per_block t = s' div record_num_per_block t"
    and "s mod record_num_per_block t = s' mod record_num_per_block t"
    using bt_geometryD [OF assms] by (auto simp: slot_addr_def)
  then show "s = s'" by (metis mult_div_mod_eq)
qed simp

lemma record_addr_inj:
  "bt_geometry t \<Longrightarrow> record_addr t s = record_addr t s' \<longleftrightarrow> s = s'"
  by (simp add: record_addr_def slot_addr_inj)

lemma slot_addr_strict_mono:
  assumes "bt_geometry t" "s < s'"
  shows "slot_addr t s < slot_addr t s'"
proof -
  let ?n = "record_num_per_block t"
  have "s div ?n \<le> s' div ?n" using assms by (simp add: div_le_mono)
  moreover have "s mod ?n < s' mod ?n" if "s div ?n = s' div ?n"
    using that assms(2) by (metis mult_div_mod_eq nat_add_left_cancel_less)
  ultimately show ?thesis
    using bt_geometryD [OF assms(1)] by (auto simp: less_addr_def slot_addr_def)
qed

text \<open>The counters and the free list play no part in the layout.\<close>

lemma layout_update [simp]:
  "bt_geometry (t\<lparr>occupied_record_count := k\<rparr>) = bt_geometry t"
  "bt_geometry (t\<lparr>free_list := q\<rparr>) = bt_geometry t"
  "slot_addr (t\<lparr>occupied_record_count := k\<rparr>) = slot_addr t"
  "slot_addr (t\<lparr>free_list := q\<rparr>) = slot_addr t"
  "slot_addr (t\<lparr>blocks := bs\<rparr>) = slot_addr t"
  "slot_count (t\<lparr>occupied_record_count := k\<rparr>) = slot_count t"
  "slot_count (t\<lparr>free_list := q\<rparr>) = slot_count t"
  "slot_flag (t\<lparr>occupied_record_count := k\<rparr>) = slot_flag t"
  "slot_flag (t\<lparr>free_list := q\<rparr>) = slot_flag t"
  "used_slots (t\<lparr>occupied_record_count := k\<rparr>) = used_slots t"
  "used_slots (t\<lparr>free_list := q\<rparr>) = used_slots t"
  "used_slots (t\<lparr>blocks := bs\<rparr>) = used_slots t"
  by (simp_all add: bt_geometry_def slot_addr_def slot_count_def slot_flag_def used_slots_def
      fun_eq_iff cong: option.case_cong)

subsection \<open>Writing inside a slot\<close>

definition slot_byte :: "'q base_table \<Rightarrow> nat \<Rightarrow> nat \<Rightarrow> byte" where
  "slot_byte t s e =
     blk_data (blocks t ! (s div record_num_per_block t))
       (s mod record_num_per_block t * record_full_size t + e)"

lemma slot_byte_update [simp]:
  "slot_byte (t\<lparr>occupied_record_count := k\<rparr>) = slot_byte t"
  "slot_byte (t\<lparr>free_list := q\<rparr>) = slot_byte t"
  by (simp_all add: slot_byte_def fun_eq_iff)

lemma slot_flag_byte: "slot_flag t s = slot_byte t s 0"
  by (simp add: slot_flag_def slot_byte_def slot_addr_def)

lemma record_bytes_slot:
  "record_bytes t (record_addr t s) = map (\<lambda>i. slot_byte t s (8 + i)) [0..<record_size t]"
  by (rule nth_equalityI)
    (auto simp: record_bytes_def record_addr_def slot_addr_def slot_byte_def add.assoc)

lemma bt_geometry_write:
  assumes "bt_geometry t" "mem_write (blocks t) a v = Inr bs"
  shows "bt_geometry (t\<lparr>blocks := bs\<rparr>)" "length bs = length (blocks t)"
  using assms mem_write_shape [OF assms(2)]
  by (auto simp: bt_geometry_def slot_count_def split: option.splits)

lemma slot_write:
  assumes geo: "bt_geometry t" and s: "s < slot_count t" and d: "d + length v \<le> record_full_size t"
  obtains bs where "mem_write (blocks t) (addr_plus (slot_addr t s) d) v = Inr bs"
    and "bt_geometry (t\<lparr>blocks := bs\<rparr>)" and "length bs = length (blocks t)"
    and "\<And>s' e. s' < slot_count t \<Longrightarrow> e < record_full_size t \<Longrightarrow>
      slot_byte (t\<lparr>blocks := bs\<rparr>) s' e =
        (if s' = s \<and> d \<le> e \<and> e < d + length v then v ! (e - d) else slot_byte t s' e)"
proof -
  let ?n = "record_num_per_block t" and ?f = "record_full_size t"
  let ?a = "addr_plus (slot_addr t s) d"
  note g = bt_geometryD [OF geo]
  have blk: "s div ?n < length (blocks t)"
    using s by (simp add: slot_count_def slot_div_less)
  have "s mod ?n * ?f + d + length v \<le> ?n * ?f"
    using slot_end_le [OF g(2), of s ?f] d by simp
  then obtain bs where bs: "mem_write (blocks t) ?a v = Inr bs"
    using blk g(4) by (simp add: mem_write_def slot_addr_def Let_def)
  have "slot_byte (t\<lparr>blocks := bs\<rparr>) s' e =
      (if s' = s \<and> d \<le> e \<and> e < d + length v then v ! (e - d) else slot_byte t s' e)"
    if s': "s' < slot_count t" and e: "e < ?f" for s' e
  proof -
    have "s' div ?n < length (blocks t)"
      using s' by (simp add: slot_count_def slot_div_less)
    then have data: "blk_data (bs ! (s' div ?n)) =
        (if s' div ?n = s div ?n
         then write_at (blk_data (blocks t ! (s' div ?n))) (s mod ?n * ?f + d) v
         else blk_data (blocks t ! (s' div ?n)))"
      using mem_write_data [OF bs] by (simp add: slot_addr_def)
    show ?thesis
    proof (cases "s' = s")
      case True
      then show ?thesis using data by (auto simp: slot_byte_def write_at_def)
    next
      case False
      then have "s' div ?n \<noteq> s div ?n \<or> s' mod ?n * ?f + e < s mod ?n * ?f + d
          \<or> s mod ?n * ?f + d + length v \<le> s' mod ?n * ?f + e"
        using slots_disjoint [OF g(2), of s' s ?f] d e by auto
      then show ?thesis using False data by (auto simp: slot_byte_def write_at_outside)
    qed
  qed
  with bs show thesis
    using bt_geometry_write [OF geo bs] that by blast
qed

subsection \<open>The fresh part of the last block\<close>

lemma used_slots_cases:
  assumes "bt_geometry t"
  obtains (empty) "blocks t = []" "next_freespace_ptr t = None" "used_slots t = 0" "slot_count t = 0"
  | (fresh) k where "blocks t \<noteq> []" "k \<le> record_num_per_block t"
      "next_freespace_ptr t = Some (Addr (length (blocks t) - 1) (k * record_full_size t))"
      "used_slots t = (length (blocks t) - 1) * record_num_per_block t + k"
      "slot_count t = (length (blocks t) - 1) * record_num_per_block t + record_num_per_block t"
proof (cases "next_freespace_ptr t")
  case None
  then show thesis
    using assms empty by (simp add: bt_geometry_def used_slots_def slot_count_def)
next
  case (Some p)
  then obtain k where k: "blocks t \<noteq> []" "addr_block p = length (blocks t) - 1"
      "k \<le> record_num_per_block t" "addr_off p = k * record_full_size t"
    using assms by (auto simp: bt_geometry_def)
  then have "p = Addr (length (blocks t) - 1) (k * record_full_size t)"
    by (cases p) simp
  moreover have "slot_count t = (length (blocks t) - 1) * record_num_per_block t + record_num_per_block t"
    using k(1) by (cases "blocks t") (simp_all add: slot_count_def)
  ultimately show thesis
    using Some k bt_geometryD(3) [OF assms] by (intro fresh [of k]) (simp_all add: used_slots_def)
qed

lemma used_slots_le: "bt_geometry t \<Longrightarrow> used_slots t \<le> slot_count t"
  by (erule used_slots_cases) auto

lemma next_fresh_slot:
  assumes "bt_geometry t" "used_slots t < slot_count t"
  shows "next_freespace_ptr t = Some (slot_addr t (used_slots t))"
  using assms(1)
proof (cases rule: used_slots_cases)
  case empty
  then show ?thesis using assms by simp
next
  case (fresh k)
  then have "k < record_num_per_block t" using assms(2) by simp
  then show ?thesis using fresh by (simp add: slot_addr_def)
qed

text \<open>What no step of an insert changes in the slots that were there before.\<close>

definition bt_extends :: "'q base_table \<Rightarrow> 'q base_table \<Rightarrow> bool" where
  "bt_extends t t' \<longleftrightarrow>
     record_size t' = record_size t \<and> record_full_size t' = record_full_size t \<and>
     record_num_per_block t' = record_num_per_block t \<and> slot_count t \<le> slot_count t' \<and>
     (\<forall>s < slot_count t. \<forall>e < record_full_size t. slot_byte t' s e = slot_byte t s e)"

lemma bt_extends_refl: "bt_extends t t"
  by (simp add: bt_extends_def)

lemma bt_extends_slot_addr: "bt_extends t t' \<Longrightarrow> slot_addr t' s = slot_addr t s"
  by (simp add: bt_extends_def slot_addr_def)

lemma bt_extends_record_addr: "bt_extends t t' \<Longrightarrow> record_addr t' s = record_addr t s"
  by (simp add: record_addr_def bt_extends_slot_addr)

lemma block_size_eq:
  "(kBlockSize div f * f) mod 2 ^ 32 = kBlockSize div f * f"
proof -
  have "kBlockSize div f * f \<le> kBlockSize" by (rule div_times_less_eq_dividend)
  also have "\<dots> < 2 ^ 32" by (simp add: kBlockSize_def)
  finally show ?thesis by (rule mod_less)
qed

lemma allocateNextBlock_spec:
  assumes geo: "bt_geometry t" and full: "used_slots t = slot_count t"
  defines "t' \<equiv> allocateNextBlock t"
  shows "bt_geometry t'" "bt_extends t t'" "used_slots t' = used_slots t"
    and "slot_count t' = slot_count t + record_num_per_block t"
    and "\<And>s e. slot_count t \<le> s \<Longrightarrow> s < slot_count t' \<Longrightarrow> slot_byte t' s e = 0"
    and "occupied_record_count t' = occupied_record_count t" "free_list t' = free_list t"
proof -
  let ?L = "length (blocks t)" and ?n = "record_num_per_block t" and ?f = "record_full_size t"
  define linked where "linked = (if ?L > 0
    then (blocks t)[?L - 1 := (blocks t ! (?L - 1))\<lparr>next_block := Some ?L\<rparr>] else blocks t)"
  have t': "t' = t\<lparr>next_freespace_ptr := Some (Addr ?L 0),
      blocks := linked @ [Block_new (kBlockSize div ?f * ?f)],
      allocated_record_count := allocated_record_count t + ?n\<rparr>"
    by (simp add: t'_def allocateNextBlock_def linked_def Let_def)
  have len: "length linked = ?L" by (simp add: linked_def)
  have linked_nth: "blk_data (linked ! b) = blk_data (blocks t ! b)"
      "end_ptr (linked ! b) = end_ptr (blocks t ! b)"
      "next_block (linked ! b) = (if Suc b = ?L then Some ?L else next_block (blocks t ! b))"
    if "b < ?L" for b
    using that by (auto simp: linked_def nth_list_update)
  have n: "?n = kBlockSize div ?f" and pos: "0 < ?n" "0 < ?f"
    using geo bt_geometryD(3) [OF geo] by (auto simp: bt_geometry_def)
  have new: "end_ptr (Block_new (kBlockSize div ?f * ?f)) = ?n * ?f"
    unfolding Block_new_def block_size_eq by (simp add: n)
  show cnt: "slot_count t' = slot_count t + ?n"
    by (simp add: t' slot_count_def len)
  have chain: "next_block (blocks t' ! b) = (if Suc b < length (blocks t') then Some (Suc b) else None)"
    if "b < length (blocks t')" for b
    using that geo linked_nth(3) [of b]
    by (auto simp: t' len nth_append bt_geometry_def Block_new_def less_Suc_eq)
  have ends: "end_ptr (blocks t' ! b) = ?n * ?f" if "b < length (blocks t')" for b
    using that geo linked_nth(2) [of b] new
    by (auto simp: t' len nth_append bt_geometry_def)
  show "bt_geometry t'"
    using geo chain ends cnt n pos
    unfolding bt_geometry_def by (auto simp: t' len)
  have blk: "s div ?n < ?L" if "s < slot_count t" for s
    using that by (simp add: slot_count_def slot_div_less)
  have "slot_byte t' s e = slot_byte t s e" if "s < slot_count t" for s e
    using blk [OF that] linked_nth(1) [of "s div ?n"] by (simp add: slot_byte_def t' nth_append len)
  moreover have "record_size t' = record_size t" "record_full_size t' = ?f"
    and "record_num_per_block t' = ?n"
    by (simp_all add: t')
  ultimately show "bt_extends t t'"
    unfolding bt_extends_def using cnt by simp
  show "slot_byte t' s e = 0" if "slot_count t \<le> s" "s < slot_count t'" for s e
  proof -
    have "s div ?n = ?L"
    proof (rule div_nat_eqI)
      show "?n * ?L \<le> s" using that(1) by (simp add: slot_count_def mult.commute)
      show "s < ?n * Suc ?L" using that(2) cnt by (simp add: slot_count_def mult.commute)
    qed
    then show ?thesis by (simp add: slot_byte_def t' nth_append len Block_new_def)
  qed
  have "slot_count t = ?L * ?n" by (simp add: slot_count_def)
  then show "used_slots t' = used_slots t"
    using full by (simp add: used_slots_def t')
  show "occupied_record_count t' = occupied_record_count t" "free_list t' = free_list t"
    by (simp_all add: t')
qed

subsection \<open>Acquiring a slot\<close>

text \<open>Between the critical section of an insert and the write of the header, its slot is counted as
  occupied but not yet marked; \<open>pend\<close> are the slots of all inserts that are at this point.\<close>

definition bt_pending :: "('q, 'h, 'm) tbb \<Rightarrow> 'q base_table \<Rightarrow> nat list \<Rightarrow> nat list \<Rightarrow> bool" where
  "bt_pending T t free pend \<longleftrightarrow>
     bt_geometry t \<and> q_items T (free_list t) = map (slot_addr t) free \<and> distinct (free @ pend) \<and>
     (\<forall>x \<in> set (free @ pend). x < used_slots t) \<and>
     occupied_record_count t + length free = used_slots t \<and>
     (\<forall>x < slot_count t. slot_flag t x =
        flag_byte (if x < used_slots t \<and> x \<notin> set (free @ pend) then OCCUPIED else FREE))"

lemma bt_pending_none: "bt_pending T t free [] \<longleftrightarrow> bt_geometry t \<and> bt_slots T t free"
  by (auto simp: bt_pending_def bt_slots_def)

lemma bt_pending_geometry: "bt_pending T t free pend \<Longrightarrow> bt_geometry t"
  by (simp add: bt_pending_def)

lemma bt_pending_allocate:
  assumes pending: "bt_pending T t [] pend" and full: "used_slots t = slot_count t"
  shows "bt_pending T (allocateNextBlock t) [] pend"
proof -
  note geo = bt_pending_geometry [OF pending]
  note a = allocateNextBlock_spec [OF geo full]
  have "slot_flag (allocateNextBlock t) x =
      flag_byte (if x < used_slots t \<and> x \<notin> set pend then OCCUPIED else FREE)"
    if x: "x < slot_count (allocateNextBlock t)" for x
  proof (cases "x < slot_count t")
    case True
    then have "slot_byte (allocateNextBlock t) x 0 = slot_byte t x 0"
      using a(2) bt_geometryD(3) [OF geo] by (simp add: bt_extends_def)
    then show ?thesis
      using True pending by (simp add: bt_pending_def slot_flag_byte)
  next
    case False
    then have "slot_byte (allocateNextBlock t) x 0 = 0"
      using x by (intro a(5)) auto
    then show ?thesis using False full by (simp add: slot_flag_byte)
  qed
  then show ?thesis
    using pending a(1,3,6,7) by (simp add: bt_pending_def)
qed

lemma take_fresh_pending:
  assumes pending: "bt_pending T t [] pend" and room: "used_slots t < slot_count t"
  obtains s t1 where "take_fresh t = (Some (slot_addr t1 s), t1)" "bt_extends t t1"
    and "bt_pending T (t1\<lparr>occupied_record_count := occupied_record_count t1 + 1\<rparr>) [] (s # pend)"
    and "s = used_slots t" and "used_slots t1 = Suc s"
proof -
  let ?n = "record_num_per_block t" and ?f = "record_full_size t" and ?u = "used_slots t"
  note geo = bt_pending_geometry [OF pending]
  note g = bt_geometryD [OF geo]
  from geo obtain k where k: "blocks t \<noteq> []" "k \<le> ?n"
      "next_freespace_ptr t = Some (Addr (length (blocks t) - 1) (k * ?f))"
      "?u = (length (blocks t) - 1) * ?n + k"
      "slot_count t = (length (blocks t) - 1) * ?n + ?n"
    using room by (cases rule: used_slots_cases) auto
  have less: "k < ?n" using room k by simp
  define t1 where "t1 = t\<lparr>next_freespace_ptr := Some (Addr (length (blocks t) - 1) (Suc k * ?f))\<rparr>"
  have addr: "slot_addr t ?u = Addr (length (blocks t) - 1) (k * ?f)"
    using next_fresh_slot [OF geo room] k(3) by simp
  have tf: "take_fresh t = (Some (slot_addr t ?u), t1)"
    unfolding take_fresh_def t1_def addr using k(3) by (simp add: add.commute)
  have same: "slot_addr t1 s = slot_addr t s" "slot_count t1 = slot_count t"
      "slot_byte t1 s e = slot_byte t s e" for s e
    by (simp_all add: slot_addr_def slot_count_def slot_byte_def t1_def)
  have ext: "bt_extends t t1"
    unfolding bt_extends_def by (simp add: same) (simp add: t1_def)
  have geo1: "bt_geometry t1"
  proof -
    have "Suc k \<le> ?n" using less by simp
    then show ?thesis
      using geo k(1) unfolding bt_geometry_def same by (auto simp: t1_def)
  qed
  have u1: "used_slots t1 = Suc ?u"
    using k(4) g(3) by (simp add: used_slots_def t1_def)
  let ?t2 = "t1\<lparr>occupied_record_count := occupied_record_count t1 + 1\<rparr>"
  have "occupied_record_count t1 = occupied_record_count t" "free_list t1 = free_list t"
    by (simp_all add: t1_def)
  then have "bt_pending T ?t2 [] (?u # pend)"
    using pending geo1 u1 same by (auto simp: bt_pending_def slot_flag_byte)
  with tf ext show thesis
    using that [of t1 ?u] same(1) u1 by simp
qed

lemma acquire_slot_pending:
  assumes laws: "queue_laws T" and pending: "bt_pending T t free pend"
  obtains s t1 free' where "acquire_slot T t = (Some (slot_addr t1 s), t1)" "bt_extends t t1"
    and "bt_pending T t1 free' (s # pend)" and "s < slot_count t \<Longrightarrow> slot_flag t s = flag_byte FREE"
    and "\<And>x. slot_count t \<le> x \<Longrightarrow> x < used_slots t1 \<Longrightarrow> x = s"
proof -
  note geo = bt_pending_geometry [OF pending]
  have occ: "occupied_record_count t + length free = used_slots t"
    and items: "q_items T (free_list t) = map (slot_addr t) free"
    using pending by (auto simp: bt_pending_def)
  have alloc: "allocated_record_count t = slot_count t"
    using geo by (simp add: bt_geometry_def)
  show thesis
  proof (cases "allocated_record_count t = occupied_record_count t")
    case True
    then have full: "used_slots t = slot_count t" and "length free = 0"
      using occ alloc used_slots_le [OF geo] by linarith+
    then have nofree: "free = []" by simp
    let ?t = "allocateNextBlock t"
    note a = allocateNextBlock_spec [OF geo full]
    have "bt_pending T ?t [] pend"
      using bt_pending_allocate [OF _ full] pending nofree by simp
    moreover have "used_slots ?t < slot_count ?t"
      using a(3,4) full bt_geometryD(2) [OF geo] by simp
    ultimately obtain s t1 where t1: "take_fresh ?t = (Some (slot_addr t1 s), t1)" "bt_extends ?t t1"
      "bt_pending T (t1\<lparr>occupied_record_count := occupied_record_count t1 + 1\<rparr>) [] (s # pend)"
      "s = used_slots ?t" "used_slots t1 = Suc s"
      by (rule take_fresh_pending)
    have "bt_extends t t1"
      using a(2) t1(2) by (auto simp: bt_extends_def)
    then show thesis
      using that [of "t1\<lparr>occupied_record_count := occupied_record_count t1 + 1\<rparr>" s "[]"] True t1 a(3) full
      by (simp add: acquire_slot_def bt_extends_def)
  next
    case False
    show thesis
    proof (cases free)
      case Nil
      then have room: "used_slots t < slot_count t"
        using False occ alloc used_slots_le [OF geo] by simp
      have nopop: "q_try_pop T (free_list t) = None"
        using laws items Nil by (simp add: queue_laws_def)
      obtain s t1 where t1: "take_fresh t = (Some (slot_addr t1 s), t1)" "bt_extends t t1"
        "bt_pending T (t1\<lparr>occupied_record_count := occupied_record_count t1 + 1\<rparr>) [] (s # pend)"
        "s = used_slots t" "used_slots t1 = Suc s"
        using take_fresh_pending [OF _ room] pending Nil by metis
      have "slot_flag t s = flag_byte FREE"
        using pending room t1(4) by (simp add: bt_pending_def)
      then show thesis
        using that [of "t1\<lparr>occupied_record_count := occupied_record_count t1 + 1\<rparr>" s "[]"] False t1 nopop room
        by (simp add: acquire_slot_def bt_extends_def)
    next
      case (Cons s free')
      then obtain q' where pop: "q_try_pop T (free_list t) = Some (slot_addr t s, q')"
        and q': "q_items T q' = map (slot_addr t) free'"
        using laws items by (fastforce simp: queue_laws_def)
      let ?t1 = "t\<lparr>free_list := q', occupied_record_count := occupied_record_count t + 1\<rparr>"
      have "bt_pending T ?t1 free' (s # pend)"
        using pending Cons q' by (auto simp: bt_pending_def)
      moreover have "bt_extends t ?t1"
        by (simp add: bt_extends_def)
      moreover have "slot_flag t s = flag_byte FREE" if "s < slot_count t"
        using pending Cons that by (simp add: bt_pending_def)
      moreover have u1: "used_slots ?t1 = used_slots t"
        by (simp add: used_slots_def cong: option.case_cong)
      ultimately show thesis
        using that [of ?t1 s free'] False pop used_slots_le [OF geo] u1
        by (simp add: acquire_slot_def)
    qed
  qed
qed

lemma acquire_slot_spec:
  assumes inv: "bt_inv T t"
  obtains s t1 free where "acquire_slot T t = (Some (slot_addr t1 s), t1)" "bt_extends t t1"
    and "bt_pending T t1 free [s]" and "s < slot_count t \<Longrightarrow> slot_flag t s = flag_byte FREE"
    and "\<And>x. slot_count t \<le> x \<Longrightarrow> x < used_slots t1 \<Longrightarrow> x = s"
proof -
  from inv obtain free where "queue_laws T" "bt_pending T t free []"
    by (auto simp: bt_inv_def bt_pending_none)
  then show thesis by (rule acquire_slot_pending) (rule that)
qed

subsection \<open>Filling a slot\<close>

lemma set_live_slots: "set (live_slots t) = {s. s < slot_count t \<and> slot_flag t s = flag_byte OCCUPIED}"
  by (auto simp: live_slots_def)

lemma set_live_records:
  "set (live_records t) = record_addr t ` {s. s < slot_count t \<and> slot_flag t s = flag_byte OCCUPIED}"
  by (simp add: live_records_def set_live_slots)

lemma record_in_slot:
  "bt_geometry t \<Longrightarrow> i < record_size t \<Longrightarrow> 8 + i < record_full_size t"
  by (simp add: bt_geometryD)

lemma record_bytes_cong:
  assumes geo: "bt_geometry t" and same: "record_addr t' s = record_addr t s" "record_size t' = record_size t"
    and bytes: "\<And>e. 8 \<le> e \<Longrightarrow> e < record_full_size t \<Longrightarrow> slot_byte t' s e = slot_byte t s e"
  shows "record_bytes t' (record_addr t s) = record_bytes t (record_addr t s)"
proof -
  have "record_bytes t' (record_addr t' s) = map (\<lambda>i. slot_byte t s (8 + i)) [0..<record_size t]"
    unfolding record_bytes_slot same(2) using bytes record_in_slot [OF geo] by simp
  then show ?thesis unfolding same(1) record_bytes_slot .
qed

lemma fill_slot_bytes:
  assumes geo: "bt_geometry t" and s: "s < slot_count t" and len: "record_size t \<le> length rec"
  obtains bs where "fill_slot (slot_addr t s) rec t = Inr (record_addr t s, t\<lparr>blocks := bs\<rparr>)"
    and "bt_geometry (t\<lparr>blocks := bs\<rparr>)" and "length bs = length (blocks t)"
    and "slot_byte (t\<lparr>blocks := bs\<rparr>) s 0 = flag_byte OCCUPIED"
    and "\<And>i. i < record_size t \<Longrightarrow> slot_byte (t\<lparr>blocks := bs\<rparr>) s (8 + i) = rec ! i"
    and "\<And>s' e. s' < slot_count t \<Longrightarrow> e < record_full_size t \<Longrightarrow> s' \<noteq> s \<Longrightarrow>
      slot_byte (t\<lparr>blocks := bs\<rparr>) s' e = slot_byte t s' e"
proof -
  note g = bt_geometryD [OF geo]
  obtain bs1 where bs1: "mem_write (blocks t) (addr_plus (slot_addr t s) 0) [flag_byte OCCUPIED] = Inr bs1"
    "bt_geometry (t\<lparr>blocks := bs1\<rparr>)" "length bs1 = length (blocks t)"
    "\<And>s' e. s' < slot_count t \<Longrightarrow> e < record_full_size t \<Longrightarrow> slot_byte (t\<lparr>blocks := bs1\<rparr>) s' e =
        (if s' = s \<and> 0 \<le> e \<and> e < 0 + length [flag_byte OCCUPIED] then [flag_byte OCCUPIED] ! (e - 0)
         else slot_byte t s' e)"
    using s g by (rule_tac slot_write [OF geo s, of 0 "[flag_byte OCCUPIED]"]) auto
  let ?t1 = "t\<lparr>blocks := bs1\<rparr>" and ?v = "take (record_size t) rec"
  have s1: "s < slot_count ?t1" and cnt: "slot_count ?t1 = slot_count t"
    using s bs1(3) by (simp_all add: slot_count_def)
  have lv: "length ?v = record_size t" using len by simp
  obtain bs2 where bs2: "mem_write (blocks ?t1) (addr_plus (slot_addr ?t1 s) 8) ?v = Inr bs2"
    "bt_geometry (?t1\<lparr>blocks := bs2\<rparr>)" "length bs2 = length (blocks ?t1)"
    "\<And>s' e. s' < slot_count ?t1 \<Longrightarrow> e < record_full_size ?t1 \<Longrightarrow> slot_byte (?t1\<lparr>blocks := bs2\<rparr>) s' e =
        (if s' = s \<and> 8 \<le> e \<and> e < 8 + length ?v then ?v ! (e - 8) else slot_byte ?t1 s' e)"
    using g lv by (rule_tac slot_write [OF bs1(2) s1, of 8 ?v]) auto
  have upd: "?t1\<lparr>blocks := bs2\<rparr> = t\<lparr>blocks := bs2\<rparr>" by simp
  have byte: "slot_byte (t\<lparr>blocks := bs2\<rparr>) s' e =
      (if s' = s \<and> 8 \<le> e \<and> e < 8 + record_size t then rec ! (e - 8)
       else if s' = s \<and> e = 0 then flag_byte OCCUPIED else slot_byte t s' e)"
    if "s' < slot_count t" "e < record_full_size t" for s' e
    using bs2(4) [of s' e] bs1(4) [of s' e] that unfolding upd cnt lv
    by (auto simp del: flag_byte.simps)
  show thesis
  proof (rule that)
    show "fill_slot (slot_addr t s) rec t = Inr (record_addr t s, t\<lparr>blocks := bs2\<rparr>)"
      using bs1(1) bs2(1) len by (simp add: fill_slot_def read_buffer_eq record_addr_def)
    show "bt_geometry (t\<lparr>blocks := bs2\<rparr>)" using bs2(2) upd by simp
    show "length bs2 = length (blocks t)" using bs1(3) bs2(3) by simp
    show "slot_byte (t\<lparr>blocks := bs2\<rparr>) s 0 = flag_byte OCCUPIED" using byte [OF s, of 0] g by simp
    show "slot_byte (t\<lparr>blocks := bs2\<rparr>) s (8 + i) = rec ! i" if "i < record_size t" for i
      using byte [OF s, of "8 + i"] that g by simp
    show "slot_byte (t\<lparr>blocks := bs2\<rparr>) s' e = slot_byte t s' e"
      if "s' < slot_count t" "e < record_full_size t" "s' \<noteq> s" for s' e
      using byte [of s' e] that by simp
  qed
qed

section \<open>What the operations promise\<close>

lemma insertRecord_spec:
  assumes inv: "bt_inv T t" and len: "record_size t \<le> length rec"
  obtains a t' where "BaseTable_insertRecord T rec t = Inr (a, t')" "bt_inv T t'"
    and "a \<notin> set (live_records t)" "set (live_records t') = insert a (set (live_records t))"
    and "record_bytes t' a = take (record_size t) rec"
    and "\<And>x. x \<in> set (live_records t) \<Longrightarrow> record_bytes t' x = record_bytes t x"
    and "record_size t' = record_size t"
proof -
  obtain s t1 free where acq: "acquire_slot T t = (Some (slot_addr t1 s), t1)"
      "bt_extends t t1" "bt_pending T t1 free [s]" "s < slot_count t \<Longrightarrow> slot_flag t s = flag_byte FREE"
      "\<And>x. slot_count t \<le> x \<Longrightarrow> x < used_slots t1 \<Longrightarrow> x = s"
    using acquire_slot_spec [OF inv] by metis
  have geo: "bt_geometry t" using inv by (simp add: bt_inv_def)
  have geo1: "bt_geometry t1" and u: "s < used_slots t1"
    using acq(3) by (simp_all add: bt_pending_def)
  have s: "s < slot_count t1" using u used_slots_le [OF geo1] by simp
  have sz: "record_size t1 = record_size t" and fsz: "record_full_size t1 = record_full_size t"
    using acq(2) by (simp_all add: bt_extends_def)
  obtain bs where bs: "fill_slot (slot_addr t1 s) rec t1 = Inr (record_addr t1 s, t1\<lparr>blocks := bs\<rparr>)"
    "bt_geometry (t1\<lparr>blocks := bs\<rparr>)" "length bs = length (blocks t1)"
    "slot_byte (t1\<lparr>blocks := bs\<rparr>) s 0 = flag_byte OCCUPIED"
    "\<And>i. i < record_size t1 \<Longrightarrow> slot_byte (t1\<lparr>blocks := bs\<rparr>) s (8 + i) = rec ! i"
    "\<And>s' e. s' < slot_count t1 \<Longrightarrow> e < record_full_size t1 \<Longrightarrow> s' \<noteq> s \<Longrightarrow>
      slot_byte (t1\<lparr>blocks := bs\<rparr>) s' e = slot_byte t1 s' e"
    using len sz by (rule_tac fill_slot_bytes [OF geo1 s, of rec]) auto
  let ?t' = "t1\<lparr>blocks := bs\<rparr>"
  have cnt: "slot_count ?t' = slot_count t1" and ra: "\<And>x. record_addr ?t' x = record_addr t x"
    using bs(3) bt_extends_record_addr [OF acq(2)] by (simp_all add: slot_count_def record_addr_def)
  have flag: "slot_flag ?t' x = (if x = s then flag_byte OCCUPIED else slot_flag t1 x)"
    if "x < slot_count t1" for x
    using that bs(4,6) bt_geometryD(3) [OF geo1] by (simp add: slot_flag_byte)
  have slots: "bt_slots T ?t' free"
    using acq(3) flag unfolding bt_slots_def bt_pending_def cnt by (auto simp: slot_flag_byte)
  have old: "slot_flag t1 x = slot_flag t x" if "x < slot_count t" for x
    using that acq(2) bt_geometryD(3) [OF geo] by (simp add: slot_flag_byte bt_extends_def)
  have fresh: "slot_flag t1 x = flag_byte FREE" if "slot_count t \<le> x" "x < slot_count t1" "x \<noteq> s" for x
  proof -
    have "\<not> x < used_slots t1" using acq(5) that by blast
    then show ?thesis using acq(3) that unfolding bt_pending_def by (simp del: flag_byte.simps)
  qed
  have live: "{x. x < slot_count ?t' \<and> slot_flag ?t' x = flag_byte OCCUPIED}
      = insert s {x. x < slot_count t \<and> slot_flag t x = flag_byte OCCUPIED}"
  proof (rule set_eqI)
    fix x
    have "x < slot_count t \<Longrightarrow> x < slot_count t1" using acq(2) by (simp add: bt_extends_def)
    then show "x \<in> {x. x < slot_count ?t' \<and> slot_flag ?t' x = flag_byte OCCUPIED} \<longleftrightarrow>
        x \<in> insert s {x. x < slot_count t \<and> slot_flag t x = flag_byte OCCUPIED}"
      using flag [of x] old [of x] fresh [of x] s unfolding cnt
      by (cases "x < slot_count t") (auto split: if_splits)
  qed
  show thesis
  proof (rule that)
    show "BaseTable_insertRecord T rec t = Inr (record_addr t s, ?t')"
      using bs(1) acq(1) ra [of s] by (simp add: BaseTable_insertRecord_def record_addr_def)
    show "bt_inv T ?t'" using slots bs(2) inv by (auto simp: bt_inv_def)
    show "record_addr t s \<notin> set (live_records t)"
      using acq(4) by (auto simp: set_live_records record_addr_inj [OF geo])
    show "set (live_records ?t') = insert (record_addr t s) (set (live_records t))"
      unfolding set_live_records live ra by simp
    show "record_bytes ?t' (record_addr t s) = take (record_size t) rec"
      unfolding ra [symmetric] record_bytes_slot using bs(5) sz len
      by (intro nth_equalityI) auto
    show "record_size ?t' = record_size t" using sz by simp
    show "record_bytes ?t' x = record_bytes t x" if "x \<in> set (live_records t)" for x
    proof -
      from that obtain y where y: "x = record_addr t y" "y < slot_count t" "slot_flag t y = flag_byte OCCUPIED"
        by (auto simp: set_live_records)
      then have "y \<noteq> s" using acq(4) by auto
      moreover have "y < slot_count t1" using y acq(2) by (simp add: bt_extends_def)
      ultimately have "slot_byte ?t' y e = slot_byte t y e" if "e < record_full_size t" for e
        using bs(6) that fsz acq(2) y(2) by (simp add: bt_extends_def)
      then show ?thesis
        unfolding y(1) using ra sz by (intro record_bytes_cong [OF geo]) simp_all
    qed
  qed
qed

lemma bt_slots_live:
  assumes "bt_slots T t free" "s < slot_count t" "slot_flag t s = flag_byte OCCUPIED"
  shows "s < used_slots t" "s \<notin> set free"
  using assms by (auto simp: bt_slots_def split: if_splits)

lemma record_addr_minus: "addr_minus (record_addr t s) kRecordHeaderSize = Inr (slot_addr t s)"
  by (simp add: record_addr_def)

lemma slot_write_in_block:
  assumes "bt_geometry t" "s < slot_count t" "d + n \<le> record_full_size t"
  shows "addr_block (slot_addr t s) < length (blocks t)"
    and "addr_off (slot_addr t s) + (d + n) \<le> end_ptr (blocks t ! addr_block (slot_addr t s))"
proof -
  have blk: "s div record_num_per_block t < length (blocks t)"
    using assms(2) by (simp add: slot_count_def slot_div_less)
  then show "addr_block (slot_addr t s) < length (blocks t)" by (simp add: slot_addr_def)
  show "addr_off (slot_addr t s) + (d + n) \<le> end_ptr (blocks t ! addr_block (slot_addr t s))"
    using slot_end_le [OF bt_geometryD(2) [OF assms(1)], of s "record_full_size t"] assms(3)
      bt_geometryD(4) [OF assms(1) blk] by (simp add: slot_addr_def)
qed

lemma read_slot:
  assumes "bt_geometry t" "s < slot_count t"
  shows "BaseTable_read t (record_addr t s) = Inr (record_bytes t (record_addr t s))"
  using slot_write_in_block [OF assms, of 8 "record_size t"] bt_geometryD(1) [OF assms(1)]
  by (simp add: BaseTable_read_def mem_read_def record_addr_def record_bytes_def add.assoc)

lemma read_live:
  "bt_inv T t \<Longrightarrow> a \<in> set (live_records t) \<Longrightarrow> BaseTable_read t a = Inr (record_bytes t a)"
  by (auto simp: bt_inv_def set_live_records read_slot)

lemma length_record_bytes [simp]: "length (record_bytes t a) = record_size t"
  by (simp add: record_bytes_def)

lemma deleteRecord_spec:
  assumes inv: "bt_inv T t" and a: "a \<in> set (live_records t)"
  obtains t' where "BaseTable_deleteRecord T a t = Inr t'" "bt_inv T t'"
    and "set (live_records t') = set (live_records t) - {a}"
    and "\<And>x. x \<in> set (live_records t) \<Longrightarrow> record_bytes t' x = record_bytes t x"
    and "record_size t' = record_size t"
    and "\<And>x. x \<in> set (live_records t) \<Longrightarrow> BaseTable_read t' x = Inr (record_bytes t x)"
proof -
  from inv obtain free where geo: "bt_geometry t" and laws: "queue_laws T" and slots: "bt_slots T t free"
    by (auto simp: bt_inv_def)
  from a obtain s where s: "a = record_addr t s" "s < slot_count t" "slot_flag t s = flag_byte OCCUPIED"
    by (auto simp: set_live_records)
  note g = bt_geometryD [OF geo] and sl = bt_slots_live [OF slots s(2,3)]
  define q where "q = q_push T (slot_addr t s) (free_list t)"
  obtain bs where bs: "mem_write (blocks t) (addr_plus (slot_addr t s) 0) (replicate 8 0) = Inr bs"
    "bt_geometry (t\<lparr>blocks := bs\<rparr>)" "length bs = length (blocks t)"
    "\<And>s' e. s' < slot_count t \<Longrightarrow> e < record_full_size t \<Longrightarrow> slot_byte (t\<lparr>blocks := bs\<rparr>) s' e =
        (if s' = s \<and> 0 \<le> e \<and> e < 0 + length (replicate 8 (0::byte)) then replicate 8 0 ! (e - 0)
         else slot_byte t s' e)"
    using g by (rule_tac slot_write [OF geo s(2), of 0 "replicate 8 0"]) auto
  let ?t' = "t\<lparr>free_list := q, blocks := bs,
    occupied_record_count := size_t_dec (occupied_record_count t)\<rparr>"
  have del: "BaseTable_deleteRecord T a t = Inr ?t'"
    using bs(1) unfolding s(1) BaseTable_deleteRecord_def record_addr_minus by (simp add: q_def)
  have cnt: "slot_count ?t' = slot_count t" and u: "used_slots ?t' = used_slots t"
    and sz: "record_size ?t' = record_size t" "record_full_size ?t' = record_full_size t"
    and addr: "slot_addr ?t' = slot_addr t" "record_addr ?t' = record_addr t"
    using bs(3)
    by (simp_all add: slot_count_def used_slots_def slot_addr_def record_addr_def fun_eq_iff
        cong: option.case_cong)
  have byte: "slot_byte ?t' s' e = (if s' = s \<and> e < 8 then 0 else slot_byte t s' e)"
    if "s' < slot_count t" "e < record_full_size t" for s' e
    using bs(4) [OF that] by (simp add: slot_byte_def)
  have flag: "slot_flag ?t' x = (if x = s then 0 else slot_flag t x)" if "x < slot_count t" for x
    using byte [OF that, of 0] g by (simp add: slot_flag_byte)
  have geo': "bt_geometry ?t'"
  proof -
    have "?t' = (t\<lparr>blocks := bs\<rparr>)\<lparr>free_list := q,
        occupied_record_count := size_t_dec (occupied_record_count t)\<rparr>" by simp
    then show ?thesis using bs(2) by (simp only: layout_update)
  qed
  have pos: "occupied_record_count t = Suc (occupied_record_count t - 1)"
  proof -
    have "length free < used_slots t"
    proof -
      have "card (set free) \<le> card ({..<used_slots t} - {s})"
        using slots sl by (intro card_mono) (auto simp: bt_slots_def)
      then show ?thesis
        using slots sl by (auto simp: bt_slots_def distinct_card)
    qed
    then show ?thesis using slots by (auto simp: bt_slots_def)
  qed
  have "bt_slots T ?t' (free @ [s])"
    using slots sl laws pos flag unfolding bt_slots_def cnt u addr
    by (auto simp: queue_laws_def q_def size_t_dec_def)
  then have inv': "bt_inv T ?t'"
    using geo' laws by (auto simp: bt_inv_def)
  have "set (live_records ?t') = set (live_records t) - {a}"
  proof -
    have "{x. x < slot_count t \<and> slot_flag ?t' x = flag_byte OCCUPIED}
        = {x. x < slot_count t \<and> slot_flag t x = flag_byte OCCUPIED} - {s}"
    proof (rule set_eqI)
      fix x
      show "x \<in> {x. x < slot_count t \<and> slot_flag ?t' x = flag_byte OCCUPIED} \<longleftrightarrow>
          x \<in> {x. x < slot_count t \<and> slot_flag t x = flag_byte OCCUPIED} - {s}"
        using flag [of x] by (cases "x = s") auto
    qed
    moreover have "inj (record_addr t)"
      using record_addr_inj [OF geo] by (auto simp: inj_on_def)
    ultimately show ?thesis
      unfolding set_live_records cnt addr s(1) by (simp only: image_set_diff image_insert image_empty)
  qed
  moreover have rb: "record_bytes ?t' x = record_bytes t x" if x: "x \<in> set (live_records t)" for x
  proof -
    obtain y where y: "x = record_addr t y" "y < slot_count t" using x by (auto simp: set_live_records)
    show ?thesis
      unfolding y(1) using byte y(2) addr sz by (intro record_bytes_cong [OF geo]) simp_all
  qed
  moreover have "BaseTable_read ?t' x = Inr (record_bytes t x)" if x: "x \<in> set (live_records t)" for x
  proof -
    obtain y where y: "x = record_addr ?t' y" "y < slot_count ?t'"
      using x cnt addr by (auto simp: set_live_records)
    show ?thesis using read_slot [OF geo' y(2)] rb [OF x] y(1) by simp
  qed
  ultimately show thesis using that [OF del inv'] sz(1) by blast
qed

lemma write_spec:
  assumes inv: "bt_inv T t" and a: "a \<in> set (live_records t)" and off: "off + length v \<le> record_size t"
  obtains t' where "BaseTable_write a off v t = Inr t'" "bt_inv T t'"
    and "live_records t' = live_records t"
    and "record_bytes t' a = patch off v (record_bytes t a)"
    and "\<And>x. x \<in> set (live_records t) \<Longrightarrow> x \<noteq> a \<Longrightarrow> record_bytes t' x = record_bytes t x"
    and "record_size t' = record_size t"
proof -
  from inv obtain free where geo: "bt_geometry t" and slots: "bt_slots T t free"
    by (auto simp: bt_inv_def)
  note g = bt_geometryD [OF geo]
  from a obtain s where s: "a = record_addr t s" "s < slot_count t" "slot_flag t s = flag_byte OCCUPIED"
    by (auto simp: set_live_records)
  obtain bs where bs: "mem_write (blocks t) (addr_plus (slot_addr t s) (8 + off)) v = Inr bs"
    "bt_geometry (t\<lparr>blocks := bs\<rparr>)" "length bs = length (blocks t)"
    "\<And>s' e. s' < slot_count t \<Longrightarrow> e < record_full_size t \<Longrightarrow> slot_byte (t\<lparr>blocks := bs\<rparr>) s' e =
        (if s' = s \<and> 8 + off \<le> e \<and> e < 8 + off + length v then v ! (e - (8 + off))
         else slot_byte t s' e)"
    using g off by (rule_tac slot_write [OF geo s(2), of "8 + off" v]) auto
  let ?t' = "t\<lparr>blocks := bs\<rparr>"
  have cnt: "slot_count ?t' = slot_count t" and addr: "record_addr ?t' = record_addr t"
    using bs(3) by (simp_all add: slot_count_def record_addr_def fun_eq_iff)
  have flag: "slot_flag ?t' x = slot_flag t x" if "x < slot_count t" for x
    using bs(4) [OF that, of 0] g by (simp add: slot_flag_byte)
  have bytes_a: "slot_byte ?t' s (8 + i) = (if off \<le> i \<and> i < off + length v then v ! (i - off)
      else slot_byte t s (8 + i))" if "i < record_size t" for i
    using bs(4) [OF s(2), of "8 + i"] that g by simp
  show thesis
  proof (rule that)
    show "BaseTable_write a off v t = Inr ?t'"
      using bs(1) by (simp add: BaseTable_write_def s(1) record_addr_def)
    show "bt_inv T ?t'"
      using inv bs(2) slots flag unfolding bt_inv_def bt_slots_def cnt by (auto simp del: flag_byte.simps)
    show "live_records ?t' = live_records t"
      unfolding live_records_def live_slots_def cnt addr using flag
      by (intro map_cong filter_cong) auto
    show "record_bytes ?t' a = patch off v (record_bytes t a)"
    proof (rule nth_equalityI)
      fix i assume "i < length (record_bytes ?t' a)"
      then have i: "i < record_size t" by simp
      have "record_bytes ?t' a = map (\<lambda>i. slot_byte ?t' s (8 + i)) [0..<record_size t]"
        unfolding s(1) addr [symmetric] record_bytes_slot by simp
      then show "record_bytes ?t' a ! i = patch off v (record_bytes t a) ! i"
        using i off bytes_a [OF i] unfolding s(1) record_bytes_slot by (simp add: nth_patch)
    qed (use off in simp)
    show "record_bytes ?t' x = record_bytes t x" if x: "x \<in> set (live_records t)" "x \<noteq> a" for x
    proof -
      obtain y where y: "x = record_addr t y" "y < slot_count t" "y \<noteq> s"
        using x s(1) by (auto simp: set_live_records)
      show ?thesis
        unfolding y(1) using bs(4) [OF y(2)] y(3) addr by (intro record_bytes_cong [OF geo]) auto
    qed
  qed simp
qed

lemma bt_inv_new:
  assumes "queue_laws T" "0 < kBlockSize div (rs + 8)"
  shows "bt_inv T (BaseTable_new T rs)" "live_records (BaseTable_new T rs) = []"
proof -
  have "bt_geometry (BaseTable_new T rs)"
    using assms by (simp add: bt_geometry_def BaseTable_new_def slot_count_def)
  moreover have "bt_slots T (BaseTable_new T rs) []"
    using assms by (simp add: bt_slots_def BaseTable_new_def slot_count_def used_slots_def queue_laws_def)
  ultimately show "bt_inv T (BaseTable_new T rs)" using assms by (auto simp: bt_inv_def)
  show "live_records (BaseTable_new T rs) = []"
    by (simp add: live_records_def live_slots_def slot_count_def BaseTable_new_def)
qed

lemma bt_inv_clear:
  assumes "bt_inv T t"
  shows "bt_inv T (BaseTable_clear T t)" "live_records (BaseTable_clear T t) = []"
proof -
  have "bt_geometry t" using assms by (simp add: bt_inv_def)
  then have "bt_geometry (BaseTable_clear T t)"
    unfolding bt_geometry_def by (elim conjE) (simp add: BaseTable_clear_def slot_count_def)
  moreover have "bt_slots T (BaseTable_clear T t) []"
    using assms
    by (simp add: bt_slots_def bt_inv_def BaseTable_clear_def slot_count_def used_slots_def queue_laws_def)
  ultimately show "bt_inv T (BaseTable_clear T t)" using assms by (auto simp: bt_inv_def)
  show "live_records (BaseTable_clear T t) = []"
    by (simp add: live_records_def live_slots_def slot_count_def BaseTable_clear_def)
qed

lemma distinct_live_records: "bt_geometry t \<Longrightarrow> distinct (live_records t)"
  by (auto simp: live_records_def live_slots_def distinct_map inj_on_def record_addr_inj)

lemma getTableSize_live:
  assumes "bt_inv T t"
  shows "getTableSize t = length (live_records t)"
proof -
  from assms obtain free where geo: "bt_geometry t" and slots: "bt_slots T t free"
    by (auto simp: bt_inv_def)
  have le: "used_slots t \<le> slot_count t" using used_slots_le [OF geo] .
  have "set (live_slots t) = {..<used_slots t} - set free"
  proof (rule set_eqI)
    fix x
    have "slot_flag t x = flag_byte (if x < used_slots t \<and> x \<notin> set free then OCCUPIED else FREE)"
      if "x < slot_count t" using slots that by (simp add: bt_slots_def)
    then show "x \<in> set (live_slots t) \<longleftrightarrow> x \<in> {..<used_slots t} - set free"
      using le by (cases "x < slot_count t") (auto simp: set_live_slots)
  qed
  moreover have "set free \<subseteq> {..<used_slots t}" using slots by (auto simp: bt_slots_def)
  ultimately have "card (set (live_slots t)) = used_slots t - length free"
    using slots by (simp add: card_Diff_subset bt_slots_def distinct_card)
  then have "length (live_slots t) = used_slots t - length free"
    using distinct_card [of "live_slots t"] by (simp add: live_slots_def del: set_filter)
  moreover have "occupied_record_count t + length free = used_slots t"
    using slots by (simp add: bt_slots_def)
  ultimately show ?thesis by (simp add: getTableSize_def live_records_def)
qed

section \<open>The contract\<close>

text \<open>
  What the tables rely on: an insert returns an address that was not in use, and no operation
  disturbs the bytes of a record it was not given; the bytes of a deleted record stay readable until
  the next insert.
\<close>

locale record_store =
  fixes ins :: "bytes \<Rightarrow> 't \<Rightarrow> (addr \<times> 't) result"
    and del :: "addr \<Rightarrow> 't \<Rightarrow> 't result"
    and upd :: "addr \<Rightarrow> nat \<Rightarrow> bytes \<Rightarrow> 't \<Rightarrow> 't result"
    and readr :: "'t \<Rightarrow> addr \<Rightarrow> bytes result"
    and live :: "'t \<Rightarrow> addr set"
    and get :: "'t \<Rightarrow> addr \<Rightarrow> bytes"
    and width :: "'t \<Rightarrow> nat"
    and inv :: "'t \<Rightarrow> bool"
  assumes ins_ok: "inv t \<Longrightarrow> width t \<le> length rec \<Longrightarrow>
      \<exists>a t'. ins rec t = Inr (a, t') \<and> inv t' \<and> width t' = width t \<and> a \<notin> live t \<and>
        live t' = insert a (live t) \<and> get t' a = take (width t) rec \<and>
        (\<forall>x \<in> live t. get t' x = get t x)"
    and del_ok: "inv t \<Longrightarrow> a \<in> live t \<Longrightarrow>
      \<exists>t'. del a t = Inr t' \<and> inv t' \<and> width t' = width t \<and> live t' = live t - {a} \<and>
        (\<forall>x \<in> live t. get t' x = get t x) \<and> readr t' a = Inr (get t a)"
    and upd_ok: "inv t \<Longrightarrow> a \<in> live t \<Longrightarrow> off + length v \<le> width t \<Longrightarrow>
      \<exists>t'. upd a off v t = Inr t' \<and> inv t' \<and> width t' = width t \<and> live t' = live t \<and>
        get t' a = patch off v (get t a) \<and> (\<forall>x \<in> live t - {a}. get t' x = get t x)"
    and read_ok: "inv t \<Longrightarrow> a \<in> live t \<Longrightarrow> readr t a = Inr (get t a) \<and> length (get t a) = width t"
begin

lemma insE:
  assumes "inv t" "width t \<le> length rec"
  obtains a t' where "ins rec t = Inr (a, t')" "inv t'" "width t' = width t" "a \<notin> live t"
    "live t' = insert a (live t)" "get t' a = take (width t) rec"
    "\<And>x. x \<in> live t \<Longrightarrow> get t' x = get t x"
  using ins_ok [OF assms] by blast

lemma delE:
  assumes "inv t" "a \<in> live t"
  obtains t' where "del a t = Inr t'" "inv t'" "width t' = width t" "live t' = live t - {a}"
    "\<And>x. x \<in> live t \<Longrightarrow> get t' x = get t x" "readr t' a = Inr (get t a)"
  using del_ok [OF assms] by blast

lemma updE:
  assumes "inv t" "a \<in> live t" "off + length v \<le> width t"
  obtains t' where "upd a off v t = Inr t'" "inv t'" "width t' = width t" "live t' = live t"
    "get t' a = patch off v (get t a)" "\<And>x. x \<in> live t \<Longrightarrow> x \<noteq> a \<Longrightarrow> get t' x = get t x"
  using upd_ok [OF assms] by blast

end

interpretation bt: record_store "BaseTable_insertRecord T" "BaseTable_deleteRecord T" BaseTable_write
  BaseTable_read "\<lambda>t. set (live_records t)" record_bytes record_size "bt_inv T"
  for T :: "('q, 'h, 'm) tbb"
proof unfold_locales
  fix t :: "'q base_table" and a off and v rec :: bytes
  assume inv: "bt_inv T t"
  show "\<exists>a t'. BaseTable_insertRecord T rec t = Inr (a, t') \<and> bt_inv T t' \<and> record_size t' = record_size t \<and>
      a \<notin> set (live_records t) \<and> set (live_records t') = insert a (set (live_records t)) \<and>
      record_bytes t' a = take (record_size t) rec \<and>
      (\<forall>x \<in> set (live_records t). record_bytes t' x = record_bytes t x)" if "record_size t \<le> length rec"
    using insertRecord_spec [OF inv that] by metis
  assume a: "a \<in> set (live_records t)"
  show "BaseTable_read t a = Inr (record_bytes t a) \<and> length (record_bytes t a) = record_size t"
    using read_live [OF inv a] by simp
  show "\<exists>t'. BaseTable_deleteRecord T a t = Inr t' \<and> bt_inv T t' \<and> record_size t' = record_size t \<and>
      set (live_records t') = set (live_records t) - {a} \<and>
      (\<forall>x \<in> set (live_records t). record_bytes t' x = record_bytes t x) \<and>
      BaseTable_read t' a = Inr (record_bytes t a)"
    using deleteRecord_spec [OF inv a] a by metis
  show "\<exists>t'. BaseTable_write a off v t = Inr t' \<and> bt_inv T t' \<and> record_size t' = record_size t \<and>
      set (live_records t') = set (live_records t) \<and>
      record_bytes t' a = patch off v (record_bytes t a) \<and>
      (\<forall>x \<in> set (live_records t) - {a}. record_bytes t' x = record_bytes t x)"
    if "off + length v \<le> record_size t"
    using write_spec [OF inv a that] by (metis DiffE insertCI)
qed

end
