(* ===== verification/TableIterator.thy ===== *)
theory TableIterator
  imports BaseTable
begin

text \<open>
  storage/TableIterator.h, SchemaTableIterator.h and \<open>BaseTable::getIterator\<close>: the walk over the
  occupied slots of the chained blocks. The two loops end only because of the shape the table gives
  the blocks, so they are partial functions whose value \<open>None\<close> is a run that does not end; the
  theorems show that on a table that keeps its invariant they return, and that the walk visits
  exactly the table's records, in the order of their addresses.
\<close>

section \<open>The iterator\<close>

record table_iterator =
  cur_block :: nat
  m_ptr :: nat
  it_record_size :: nat

text \<open>The record size is a \<open>uint32_t\<close>; \<open>blocks[0]\<close> of an empty vector is an access out of range.\<close>

definition TableIterator_new :: "nat \<Rightarrow> nat \<Rightarrow> nat \<Rightarrow> table_iterator" where
  "TableIterator_new block ptr rs =
     \<lparr>cur_block = block, m_ptr = ptr, it_record_size = rs mod 2 ^ 32\<rparr>"

definition getIterator :: "'q base_table \<Rightarrow> table_iterator result" where
  "getIterator t =
     (if blocks t = [] then Inl BadAccess else Inr (TableIterator_new 0 0 (record_full_size t)))"

text \<open>\<open>if (m_ptr == end_ptr) { cur_block = next_block; m_ptr = data }\<close>, then the byte at \<open>m_ptr\<close>.\<close>

definition skip_end :: "block list \<Rightarrow> table_iterator \<Rightarrow> table_iterator result" where
  "skip_end bs it =
     (if m_ptr it = end_ptr (bs ! cur_block it)
      then (case next_block (bs ! cur_block it) of
              None \<Rightarrow> Inl NullPointer
            | Some b \<Rightarrow> Inr (it\<lparr>cur_block := b, m_ptr := 0\<rparr>))
      else Inr it)"

definition at_occupied :: "block list \<Rightarrow> table_iterator \<Rightarrow> bool result" where
  "at_occupied bs it =
     bnd (mem_read bs (Addr (cur_block it) (m_ptr it)) 1) (\<lambda>v. Inr (v = [flag_byte OCCUPIED]))"

definition it_advance :: "table_iterator \<Rightarrow> table_iterator" where
  "it_advance it = it\<lparr>m_ptr := m_ptr it + it_record_size it\<rparr>"

partial_function (option) hasNext ::
  "block list \<Rightarrow> table_iterator \<Rightarrow> (bool \<times> table_iterator) result option" where
  "hasNext bs it =
     (if next_block (bs ! cur_block it) \<noteq> None \<or> m_ptr it \<noteq> end_ptr (bs ! cur_block it)
      then (case skip_end bs it of
              Inl e \<Rightarrow> Some (Inl e)
            | Inr it1 \<Rightarrow>
                (case at_occupied bs it1 of
                   Inl e \<Rightarrow> Some (Inl e)
                 | Inr occ \<Rightarrow>
                     if occ then Some (Inr (True, it1)) else hasNext bs (it_advance it1)))
      else Some (Inr (False, it)))"

partial_function (option) it_next ::
  "block list \<Rightarrow> table_iterator \<Rightarrow> (addr \<times> table_iterator) result option" where
  "it_next bs it =
     (case skip_end bs it of
        Inl e \<Rightarrow> Some (Inl e)
      | Inr it1 \<Rightarrow>
          (case at_occupied bs it1 of
             Inl e \<Rightarrow> Some (Inl e)
           | Inr occ \<Rightarrow>
               if occ
               then Some (Inr (addr_plus (Addr (cur_block it1) (m_ptr it1)) kRecordHeaderSize,
                               it_advance it1))
               else it_next bs (it_advance it1)))"

text \<open>\<open>SchemaTableIterator\<close> hands out records, a schema with the address.\<close>

definition SchemaTableIterator_hasNext ::
  "block list \<Rightarrow> table_iterator \<Rightarrow> (bool \<times> table_iterator) result option" where
  "SchemaTableIterator_hasNext bs it = hasNext bs it"

definition SchemaTableIterator_next ::
  "'s \<Rightarrow> block list \<Rightarrow> table_iterator \<Rightarrow> (('s \<times> addr) \<times> table_iterator) result option" where
  "SchemaTableIterator_next schema bs it =
     map_option (\<lambda>r. bnd r (\<lambda>(a, it'). Inr ((schema, a), it'))) (it_next bs it)"

section \<open>Where the iterator stands\<close>

text \<open>The iterator stands before slot \<open>p\<close>. The end of a block and the start of the next one are the
  same position.\<close>

definition it_at :: "'q base_table \<Rightarrow> table_iterator \<Rightarrow> nat \<Rightarrow> bool" where
  "it_at t it p \<longleftrightarrow>
     cur_block it < length (blocks t) \<and> it_record_size it = record_full_size t \<and>
     (\<exists>k \<le> record_num_per_block t. m_ptr it = k * record_full_size t \<and>
        p = cur_block it * record_num_per_block t + k)"

text \<open>The live slots from \<open>p\<close> on.\<close>

definition live_from :: "'q base_table \<Rightarrow> nat \<Rightarrow> nat list" where
  "live_from t p = filter (\<lambda>s. slot_flag t s = flag_byte OCCUPIED) [p..<slot_count t]"

lemma live_from_0: "live_from t 0 = live_slots t"
  by (simp add: live_from_def live_slots_def)

lemma live_from_step:
  "p < slot_count t \<Longrightarrow> live_from t p =
     (if slot_flag t p = flag_byte OCCUPIED then p # live_from t (Suc p) else live_from t (Suc p))"
  by (simp add: live_from_def upt_conv_Cons)

lemma live_from_end: "slot_count t \<le> p \<Longrightarrow> live_from t p = []"
  by (simp add: live_from_def)

lemma full_size_small:
  assumes "bt_geometry t"
  shows "record_full_size t < 2 ^ 32"
proof -
  have "0 < kBlockSize div record_full_size t" using assms by (auto simp: bt_geometry_def)
  then have "record_full_size t \<le> kBlockSize"
    by (metis div_less gr0_conv_Suc not_less zero_less_iff_neq_zero)
  also have "\<dots> < 2 ^ 32" by (simp add: kBlockSize_def)
  finally show ?thesis .
qed

lemma getIterator_at:
  assumes "bt_geometry t" "blocks t \<noteq> []"
  obtains it where "getIterator t = Inr it" "it_at t it 0"
  using assms full_size_small [OF assms(1)] bt_geometryD(2) [OF assms(1)]
  by (auto simp: getIterator_def it_at_def TableIterator_new_def)

lemma skip_end_at:
  assumes geo: "bt_geometry t" and at: "it_at t it p" and p: "p < slot_count t"
  obtains it1 where "skip_end (blocks t) it = Inr it1" "it_at t it1 p"
    and "Addr (cur_block it1) (m_ptr it1) = slot_addr t p"
proof -
  let ?n = "record_num_per_block t" and ?f = "record_full_size t" and ?b = "cur_block it"
  note g = bt_geometryD [OF geo]
  obtain k where k: "k \<le> ?n" "m_ptr it = k * ?f" "p = ?b * ?n + k" "?b < length (blocks t)"
      "it_record_size it = ?f"
    using at by (auto simp: it_at_def)
  have e: "end_ptr (blocks t ! ?b) = ?n * ?f" using g(4) k(4) by simp
  show thesis
  proof (cases "k = ?n")
    case True
    then have "Suc ?b * ?n < length (blocks t) * ?n"
      using p k(3) by (simp add: slot_count_def)
    then have sb: "Suc ?b < length (blocks t)" by (metis mult_less_cancel2)
    then have nb: "next_block (blocks t ! ?b) = Some (Suc ?b)"
      using geo k(4) by (simp add: bt_geometry_def)
    let ?it = "it\<lparr>cur_block := Suc ?b, m_ptr := 0\<rparr>"
    have "p = Suc ?b * ?n" using True k(3) by simp
    then have "slot_addr t p = Addr (Suc ?b) 0" "it_at t ?it p"
      using g(2) sb k(5) by (auto simp: slot_addr_def it_at_def)
    then show thesis
      using that [of ?it] True k(2) e nb by (simp add: skip_end_def)
  next
    case False
    then have less: "k < ?n" using k(1) by simp
    then have "m_ptr it \<noteq> end_ptr (blocks t ! ?b)" using e k(2) g(3) by simp
    moreover have "slot_addr t p = Addr ?b (k * ?f)"
      using less k(3) by (simp add: slot_addr_def)
    ultimately show thesis
      using that [of it] at k(2) by (simp add: skip_end_def)
  qed
qed

lemma at_occupied_at:
  assumes geo: "bt_geometry t" and p: "p < slot_count t"
    and addr: "Addr (cur_block it) (m_ptr it) = slot_addr t p"
  shows "at_occupied (blocks t) it = Inr (slot_flag t p = flag_byte OCCUPIED)"
proof -
  have "0 + 1 \<le> record_full_size t" using bt_geometryD(3) [OF geo] by simp
  note blk = slot_write_in_block [OF geo p this]
  then have "mem_read (blocks t) (slot_addr t p) 1 = Inr [slot_flag t p]"
    by (simp add: mem_read_def bytes_at_def slot_flag_def)
  then show ?thesis by (simp add: at_occupied_def addr)
qed

lemma it_advance_at:
  assumes geo: "bt_geometry t" and at: "it_at t it p" and p: "p < slot_count t"
    and addr: "Addr (cur_block it) (m_ptr it) = slot_addr t p"
  shows "it_at t (it_advance it) (Suc p)"
proof -
  let ?n = "record_num_per_block t" and ?f = "record_full_size t"
  have n: "0 < ?n" using bt_geometryD(2) [OF geo] .
  have eq: "cur_block it = p div ?n" "m_ptr it = p mod ?n * ?f"
    using addr by (simp_all add: slot_addr_def)
  have "it_record_size it = ?f" "cur_block it < length (blocks t)"
    using at by (auto simp: it_at_def)
  moreover have "Suc (p mod ?n) \<le> ?n" using n by (simp add: Suc_leI)
  moreover have "m_ptr it + ?f = Suc (p mod ?n) * ?f" using eq by simp
  moreover have "Suc p = cur_block it * ?n + Suc (p mod ?n)" using eq(1) by simp
  ultimately show ?thesis
    unfolding it_at_def it_advance_def by (intro conjI exI [of _ "Suc (p mod ?n)"]) simp_all
qed

section \<open>The loops return\<close>

lemma hasNext_end:
  assumes geo: "bt_geometry t" and at: "it_at t it p" and p: "slot_count t \<le> p"
  shows "hasNext (blocks t) it = Some (Inr (False, it))"
proof -
  let ?n = "record_num_per_block t" and ?f = "record_full_size t" and ?b = "cur_block it"
  note g = bt_geometryD [OF geo]
  obtain k where k: "k \<le> ?n" "m_ptr it = k * ?f" "p = ?b * ?n + k" "?b < length (blocks t)"
    using at by (auto simp: it_at_def)
  have "length (blocks t) * ?n \<le> ?b * ?n + k" using p k(3) by (simp add: slot_count_def)
  moreover have "Suc ?b * ?n \<le> length (blocks t) * ?n" using k(4) by (intro mult_le_mono1) simp
  ultimately have kn: "k = ?n" and "length (blocks t) * ?n \<le> Suc ?b * ?n" using k(1) by auto
  have "length (blocks t) \<le> Suc ?b"
    using mult_le_cancel2 [of "length (blocks t)" ?n "Suc ?b"] g(2)
      \<open>length (blocks t) * ?n \<le> Suc ?b * ?n\<close> by simp
  then have "\<not> Suc ?b < length (blocks t)" by simp
  then have "next_block (blocks t ! ?b) = None" using geo k(4) by (simp add: bt_geometry_def)
  moreover have "m_ptr it = end_ptr (blocks t ! ?b)" using kn k(2,4) g(4) by simp
  ultimately show ?thesis by (simp add: hasNext.simps)
qed

lemma hasNext_guard:
  assumes geo: "bt_geometry t" and at: "it_at t it p" and p: "p < slot_count t"
  shows "next_block (blocks t ! cur_block it) \<noteq> None \<or> m_ptr it \<noteq> end_ptr (blocks t ! cur_block it)"
proof -
  obtain it1 where "skip_end (blocks t) it = Inr it1" using skip_end_at [OF assms] by metis
  then show ?thesis by (auto simp: skip_end_def split: if_splits option.splits)
qed

lemma hasNext_spec:
  assumes geo: "bt_geometry t" and at: "it_at t it p"
  shows "\<exists>it' p'. hasNext (blocks t) it = Some (Inr (live_from t p \<noteq> [], it')) \<and> it_at t it' p' \<and>
    live_from t p' = live_from t p"
  using at
proof (induction "slot_count t - p" arbitrary: p it)
  case 0
  then show ?case using hasNext_end [OF geo] by (auto simp: live_from_end)
next
  case (Suc d)
  then have p: "p < slot_count t" by simp
  obtain it1 where it1: "skip_end (blocks t) it = Inr it1" "it_at t it1 p"
      "Addr (cur_block it1) (m_ptr it1) = slot_addr t p"
    using skip_end_at [OF geo Suc.prems p] by metis
  note occ = at_occupied_at [OF geo p it1(3)] and adv = it_advance_at [OF geo it1(2) p it1(3)]
  note guard = hasNext_guard [OF geo Suc.prems p]
  show ?case
  proof (cases "slot_flag t p = flag_byte OCCUPIED")
    case True
    then have "hasNext (blocks t) it = Some (Inr (True, it1))"
      using guard it1(1) occ by (subst hasNext.simps) simp
    then show ?thesis using True it1(2) live_from_step [OF p] by auto
  next
    case False
    then have "hasNext (blocks t) it = hasNext (blocks t) (it_advance it1)"
      using guard it1(1) occ by (subst hasNext.simps) simp
    then show ?thesis
      using False live_from_step [OF p] Suc.hyps(1) [OF _ adv] Suc.hyps(2) by simp
  qed
qed

lemma next_spec:
  assumes geo: "bt_geometry t" and at: "it_at t it p" and live: "live_from t p = s # ss"
  shows "\<exists>it' p'. it_next (blocks t) it = Some (Inr (record_addr t s, it')) \<and> it_at t it' p' \<and>
    live_from t p' = ss"
  using at live
proof (induction "slot_count t - p" arbitrary: p it)
  case 0
  then show ?case by (simp add: live_from_end)
next
  case (Suc d)
  then have p: "p < slot_count t" by simp
  obtain it1 where it1: "skip_end (blocks t) it = Inr it1" "it_at t it1 p"
      "Addr (cur_block it1) (m_ptr it1) = slot_addr t p"
    using skip_end_at [OF geo Suc.prems(1) p] by metis
  note occ = at_occupied_at [OF geo p it1(3)] and adv = it_advance_at [OF geo it1(2) p it1(3)]
  show ?case
  proof (cases "slot_flag t p = flag_byte OCCUPIED")
    case True
    then have "it_next (blocks t) it =
        Some (Inr (addr_plus (slot_addr t p) kRecordHeaderSize, it_advance it1))"
      using it1(1) occ by (subst it_next.simps) (simp add: it1(3) [symmetric])
    then show ?thesis using True adv live_from_step [OF p] Suc.prems(2) by (auto simp: record_addr_def)
  next
    case False
    then have "it_next (blocks t) it = it_next (blocks t) (it_advance it1)"
      using it1(1) occ by (subst it_next.simps) simp
    then show ?thesis
      using False live_from_step [OF p] Suc.prems(2) Suc.hyps(1) [OF _ adv] Suc.hyps(2) by simp
  qed
qed

text \<open>The loop \<open>while (it->hasNext()) l.push_back(it->next())\<close>.\<close>

partial_function (option) iterate ::
  "block list \<Rightarrow> table_iterator \<Rightarrow> addr list \<Rightarrow> addr list result option" where
  "iterate bs it acc =
     (case hasNext bs it of
        None \<Rightarrow> None
      | Some (Inl e) \<Rightarrow> Some (Inl e)
      | Some (Inr (b, it1)) \<Rightarrow>
          if b
          then (case it_next bs it1 of
                  None \<Rightarrow> None
                | Some (Inl e) \<Rightarrow> Some (Inl e)
                | Some (Inr (a, it2)) \<Rightarrow> iterate bs it2 (acc @ [a]))
          else Some (Inr acc))"

lemma iterate_spec:
  assumes geo: "bt_geometry t" and at: "it_at t it p"
  shows "iterate (blocks t) it acc = Some (Inr (acc @ map (record_addr t) (live_from t p)))"
  using at
proof (induction "live_from t p" arbitrary: p it acc)
  case Nil
  then show ?case using hasNext_spec [OF geo Nil.prems] by (subst iterate.simps) auto
next
  case (Cons s ss)
  obtain it1 p1 where h: "hasNext (blocks t) it = Some (Inr (True, it1))" "it_at t it1 p1"
      "live_from t p1 = s # ss"
    using hasNext_spec [OF geo Cons.prems] unfolding Cons.hyps(2) [symmetric] by auto
  obtain it2 p2 where n: "it_next (blocks t) it1 = Some (Inr (record_addr t s, it2))" "it_at t it2 p2"
      "live_from t p2 = ss"
    using next_spec [OF geo h(2,3)] by auto
  show ?case
    using h(1) n(1) Cons.hyps(1) [OF n(3) [symmetric] n(2)] Cons.hyps(2) [symmetric] n(3)
    by (subst iterate.simps) simp
qed

end
