(* ===== verification/Indexes.thy ===== *)
theory Indexes
  imports Tbb
begin

text \<open>
  storage/BaseUniqueIndex.h and BaseMultiIndex.h are the interfaces \<open>SchemaTable\<close> calls its indexes
  through: here they are the locales \<open>unique_index\<close> and \<open>multi_index\<close>, with the laws the table relies
  on and the lemmas about an index that follows a set of records. The four implementations
  (TBBUniqueIndex.h, HashUniqueIndex.h, TBBMultiIndex.h, HashMultiIndex.h) interpret them.
\<close>

section \<open>Indexes that follow a set of records\<close>

text \<open>\<open>R\<close> are the addresses of the records, \<open>key\<close> the key of the record at an address. A unique
  index follows \<open>R\<close> when a search gives exactly the record with the key; a multi index when the
  entries of a key are its records, each once.\<close>

definition unique_follows :: "(bytes \<Rightarrow> addr option) \<Rightarrow> addr set \<Rightarrow> (addr \<Rightarrow> bytes) \<Rightarrow> bool" where
  "unique_follows srch R key \<longleftrightarrow>
     (\<forall>k a. srch k = Some a \<longleftrightarrow> a \<in> R \<and> key a = k)"

definition multi_follows :: "(bytes \<Rightarrow> addr list) \<Rightarrow> addr set \<Rightarrow> (addr \<Rightarrow> bytes) \<Rightarrow> bool" where
  "multi_follows entries R key \<longleftrightarrow>
     (\<forall>k. set (entries k) = {a \<in> R. key a = k} \<and> distinct (entries k))"

lemma unique_follows_iff: "unique_follows srch R key \<Longrightarrow> srch k = Some a \<longleftrightarrow> a \<in> R \<and> key a = k"
  unfolding unique_follows_def by blast

lemma unique_follows_cong:
  assumes "\<And>a. a \<in> R \<Longrightarrow> key' a = key a"
  shows "unique_follows srch R key' \<longleftrightarrow> unique_follows srch R key"
proof -
  have "(a \<in> R \<and> key' a = k) = (a \<in> R \<and> key a = k)" for a k using assms by auto
  then show ?thesis unfolding unique_follows_def by simp
qed

lemma multi_follows_cong:
  assumes "\<And>a. a \<in> R \<Longrightarrow> key' a = key a"
  shows "multi_follows entries R key' \<longleftrightarrow> multi_follows entries R key"
proof -
  have "{a \<in> R. key' a = k} = {a \<in> R. key a = k}" for k using assms by auto
  then show ?thesis by (simp add: multi_follows_def)
qed

lemma unique_follows_inj:
  assumes "unique_follows srch R key"
  shows "inj_on key R"
proof (rule inj_onI)
  fix x y assume "x \<in> R" "y \<in> R" "key x = key y"
  then have "srch (key y) = Some x" "srch (key y) = Some y"
    using unique_follows_iff [OF assms] by blast+
  then show "x = y" by simp
qed

lemma unique_follows_None:
  assumes "unique_follows srch R key"
  shows "srch k = None \<longleftrightarrow> k \<notin> key ` R"
proof -
  have "srch k \<noteq> None \<longleftrightarrow> (\<exists>a. srch k = Some a)" by auto
  also have "\<dots> \<longleftrightarrow> k \<in> key ` R"
    unfolding unique_follows_iff [OF assms] by auto
  finally show ?thesis by blast
qed

section \<open>The interfaces\<close>

locale unique_index =
  fixes empty_index :: 'h
    and insert_index :: "bytes \<Rightarrow> addr \<Rightarrow> 'h \<Rightarrow> 'h"
    and delete_index :: "bytes \<Rightarrow> 'h \<Rightarrow> 'h"
    and search_index :: "'h \<Rightarrow> bytes \<Rightarrow> addr option"
    and size_index :: "'h \<Rightarrow> nat"
    and laws :: bool
  assumes search_empty: "laws \<Longrightarrow> search_index empty_index k = None"
    and search_insert: "laws \<Longrightarrow> search_index (insert_index k a h) k' =
      (if k' = k \<and> search_index h k = None then Some a else search_index h k')"
    and search_delete: "laws \<Longrightarrow>
      search_index (delete_index k h) k' = (if k' = k then None else search_index h k')"
    and size_empty: "laws \<Longrightarrow> size_index empty_index = 0"
    and size_insert: "laws \<Longrightarrow>
      size_index (insert_index k a h) = size_index h + (if search_index h k = None then 1 else 0)"
    and size_delete: "laws \<Longrightarrow>
      size_index h = size_index (delete_index k h) + (if search_index h k = None then 0 else 1)"
begin

lemma follows_empty: "laws \<Longrightarrow> unique_follows (search_index empty_index) {} key"
  by (simp add: unique_follows_def search_empty)

lemma follows_insert:
  assumes "laws" and "unique_follows (search_index h) R key" and "k \<notin> key ` R"
    and "key' a = k" and "\<And>x. x \<in> R \<Longrightarrow> key' x = key x"
  shows "unique_follows (search_index (insert_index k a h)) (insert a R) key'"
  unfolding unique_follows_def
proof (intro allI)
  fix k' x
  have none: "search_index h k = None" using unique_follows_None [OF assms(2)] assms(3) by simp
  have old: "search_index h k' = Some x \<longleftrightarrow> x \<in> R \<and> key x = k'"
    using unique_follows_iff [OF assms(2)] .
  show "search_index (insert_index k a h) k' = Some x \<longleftrightarrow> x \<in> insert a R \<and> key' x = k'"
  proof (cases "k' = k")
    case True
    then have "\<not> (x \<in> R \<and> key' x = k')" using assms(3,5) by auto
    then show ?thesis using True none assms(4) by (auto simp: search_insert [OF assms(1)])
  next
    case False
    then show ?thesis using old assms(4,5) by (auto simp: search_insert [OF assms(1)])
  qed
qed

lemma insert_existing:
  assumes "laws" and "unique_follows (search_index h) R key" and "k \<in> key ` R"
  shows "search_index (insert_index k a h) = search_index h"
  using unique_follows_None [OF assms(2)] assms(3)
  by (auto simp: fun_eq_iff search_insert [OF assms(1)])

lemma follows_delete:
  assumes "laws" and "unique_follows (search_index h) R key" and "a \<in> R"
    and "\<And>x. x \<in> R \<Longrightarrow> key' x = key x"
  shows "unique_follows (search_index (delete_index (key a) h)) (R - {a}) key'"
  unfolding unique_follows_def
proof (intro allI)
  fix k x
  have "key x = key a \<longleftrightarrow> x = a" if "x \<in> R"
    using unique_follows_inj [OF assms(2)] assms(3) that by (auto simp: inj_on_def)
  then show "search_index (delete_index (key a) h) k = Some x \<longleftrightarrow> x \<in> R - {a} \<and> key' x = k"
    using unique_follows_iff [OF assms(2), of k x] assms(4) [of x]
    by (auto simp: search_delete [OF assms(1)])
qed

lemma search_deleted:
  assumes "laws" shows "search_index (delete_index k h) = (search_index h)(k := None)"
  by (auto simp: fun_eq_iff search_delete [OF assms])

end

locale multi_index =
  fixes empty_index :: 'm
    and insert_index :: "bytes \<Rightarrow> addr \<Rightarrow> 'm \<Rightarrow> 'm"
    and delete_index :: "bytes \<Rightarrow> 'm \<Rightarrow> 'm"
    and search_index :: "'m \<Rightarrow> bytes \<Rightarrow> addr option"
    and search_all :: "'m \<Rightarrow> bytes \<Rightarrow> addr list result"
    and entries :: "'m \<Rightarrow> bytes \<Rightarrow> addr list"
    and size_index :: "'m \<Rightarrow> nat"
    and laws :: bool
  assumes entries_empty: "laws \<Longrightarrow> entries empty_index k = []"
    and entries_insert: "laws \<Longrightarrow> mset (entries (insert_index k a m) k') =
      (if k' = k then add_mset a (mset (entries m k)) else mset (entries m k'))"
    and entries_delete: "laws \<Longrightarrow>
      entries (delete_index k m) k' = (if k' = k then [] else entries m k')"
    and search_one: "laws \<Longrightarrow>
      (case search_index m k of None \<Rightarrow> entries m k = [] | Some a \<Rightarrow> a \<in> set (entries m k))"
    and search_all_entries: "laws \<Longrightarrow> search_all m k = Inr (entries m k)"
    and size_insert: "laws \<Longrightarrow> size_index (insert_index k a m) = size_index m + 1"
    and size_delete: "laws \<Longrightarrow> size_index m = size_index (delete_index k m) + length (entries m k)"
begin

lemma follows_empty: "laws \<Longrightarrow> multi_follows (entries empty_index) {} key"
  by (simp add: multi_follows_def entries_empty)

lemma set_entries_insert:
  assumes "laws"
  shows "set (entries (insert_index k a m) k') =
      (if k' = k then insert a (set (entries m k)) else set (entries m k'))"
    and "distinct (entries (insert_index k a m) k') \<longleftrightarrow>
      (if k' = k then distinct (entries m k) \<and> a \<notin> set (entries m k) else distinct (entries m k'))"
proof -
  note eq = entries_insert [OF assms, of k a m k']
  show "set (entries (insert_index k a m) k') =
      (if k' = k then insert a (set (entries m k)) else set (entries m k'))"
    using arg_cong [OF eq, of set_mset] by (simp split: if_splits)
  have "distinct (entries (insert_index k a m) k') \<longleftrightarrow>
      distinct (if k' = k then a # entries m k else entries m k')"
    using eq by (intro mset_eq_imp_distinct_iff) (simp split: if_splits)
  then show "distinct (entries (insert_index k a m) k') \<longleftrightarrow>
      (if k' = k then distinct (entries m k) \<and> a \<notin> set (entries m k) else distinct (entries m k'))"
    by (simp split: if_splits) blast
qed

lemma follows_insert:
  assumes "laws" and "multi_follows (entries m) R key" and "a \<notin> R" and "key' a = k"
    and "\<And>x. x \<in> R \<Longrightarrow> key' x = key x"
  shows "multi_follows (entries (insert_index k a m)) (insert a R) key'"
  using assms(2-5) unfolding multi_follows_def set_entries_insert [OF assms(1)] by auto

text \<open>Deleting by key removes every entry of the key: the index follows the records that are left
  when no other record has it, and drops the others when one has.\<close>

lemma follows_delete_key:
  assumes "laws" and "multi_follows (entries m) R key"
  shows "multi_follows (entries (delete_index k m)) {a \<in> R. key a \<noteq> k} key"
  using assms(2) by (auto simp: multi_follows_def entries_delete [OF assms(1)])

lemma follows_delete:
  assumes "laws" and "multi_follows (entries m) R key" and "a \<in> R"
    and "\<And>x. x \<in> R \<Longrightarrow> key x = key a \<Longrightarrow> x = a" and "\<And>x. x \<in> R \<Longrightarrow> key' x = key x"
  shows "multi_follows (entries (delete_index (key a) m)) (R - {a}) key'"
proof -
  have "{x \<in> R. key x \<noteq> key a} = R - {a}" using assms(3,4) by auto
  then have "multi_follows (entries (delete_index (key a) m)) (R - {a}) key"
    using follows_delete_key [OF assms(1,2), of "key a"] by simp
  then show ?thesis using assms(5) by (subst multi_follows_cong) auto
qed

lemma search_follows:
  assumes "laws" and "multi_follows (entries m) R key"
  shows "case search_index m k of None \<Rightarrow> \<forall>a \<in> R. key a \<noteq> k | Some a \<Rightarrow> a \<in> R \<and> key a = k"
proof -
  have "set (entries m k) = {a \<in> R. key a = k}"
    using assms(2) by (simp add: multi_follows_def)
  then show ?thesis
    using search_one [OF assms(1), of m k] by (cases "search_index m k") auto
qed

end

section \<open>TBBUniqueIndex\<close>

definition TBBUniqueIndex_insertRecord :: "('q, 'h, 'm) tbb \<Rightarrow> bytes \<Rightarrow> addr \<Rightarrow> 'h \<Rightarrow> 'h" where
  "TBBUniqueIndex_insertRecord T key ptr h = hm_insert T key ptr h"

definition TBBUniqueIndex_deleteRecord :: "('q, 'h, 'm) tbb \<Rightarrow> bytes \<Rightarrow> 'h \<Rightarrow> 'h" where
  "TBBUniqueIndex_deleteRecord T key h = hm_erase T key h"

definition TBBUniqueIndex_searchRecord :: "('q, 'h, 'm) tbb \<Rightarrow> 'h \<Rightarrow> bytes \<Rightarrow> addr option" where
  "TBBUniqueIndex_searchRecord T h key =
     (case hm_find T h key of Some a \<Rightarrow> Some a | None \<Rightarrow> None)"

definition TBBUniqueIndex_getSize :: "('q, 'h, 'm) tbb \<Rightarrow> 'h \<Rightarrow> nat" where
  "TBBUniqueIndex_getSize T h = hm_size T h"

lemma TBBUniqueIndex_searchRecord_eq: "TBBUniqueIndex_searchRecord T h key = hm_find T h key"
  by (simp add: TBBUniqueIndex_searchRecord_def split: option.split)

interpretation tbb_unique: unique_index "hm_empty T" "TBBUniqueIndex_insertRecord T"
  "TBBUniqueIndex_deleteRecord T" "TBBUniqueIndex_searchRecord T" "TBBUniqueIndex_getSize T"
  "hash_map_laws T"
  for T :: "('q, 'h, 'm) tbb"
  by unfold_locales
    (simp_all add: hash_map_laws_def TBBUniqueIndex_insertRecord_def TBBUniqueIndex_deleteRecord_def
      TBBUniqueIndex_searchRecord_eq TBBUniqueIndex_getSize_def)

section \<open>HashUniqueIndex\<close>

text \<open>A \<open>std::unordered_map\<close> is an association list without repeated keys; \<open>at\<close> on the key that
  \<open>find\<close> found does not throw.\<close>

type_synonym hash_unique_index = "(bytes \<times> addr) list"

definition HashUniqueIndex_insertRecord :: "bytes \<Rightarrow> addr \<Rightarrow> hash_unique_index \<Rightarrow> hash_unique_index" where
  "HashUniqueIndex_insertRecord key address h =
     (if map_of h key = None then (key, address) # h else h)"

definition HashUniqueIndex_deleteRecord :: "bytes \<Rightarrow> hash_unique_index \<Rightarrow> hash_unique_index" where
  "HashUniqueIndex_deleteRecord key h = filter (\<lambda>p. fst p \<noteq> key) h"

definition HashUniqueIndex_searchRecord :: "hash_unique_index \<Rightarrow> bytes \<Rightarrow> addr option" where
  "HashUniqueIndex_searchRecord h key =
     (if map_of h key = None then None else Some (the (map_of h key)))"

definition HashUniqueIndex_getSize :: "hash_unique_index \<Rightarrow> nat" where
  "HashUniqueIndex_getSize h = length (remdups (map fst h))"

lemma HashUniqueIndex_searchRecord_eq: "HashUniqueIndex_searchRecord = map_of"
  by (auto simp: HashUniqueIndex_searchRecord_def fun_eq_iff)

interpretation hash_unique: unique_index "[] :: hash_unique_index" HashUniqueIndex_insertRecord
  HashUniqueIndex_deleteRecord HashUniqueIndex_searchRecord HashUniqueIndex_getSize True
proof unfold_locales
  fix k :: bytes and h :: hash_unique_index
  show "HashUniqueIndex_getSize h = HashUniqueIndex_getSize (HashUniqueIndex_deleteRecord k h)
      + (if HashUniqueIndex_searchRecord h k = None then 0 else 1)"
    unfolding HashUniqueIndex_searchRecord_eq HashUniqueIndex_getSize_def HashUniqueIndex_deleteRecord_def
    by (rule keys_erase)
qed (auto simp: HashUniqueIndex_searchRecord_eq HashUniqueIndex_insertRecord_def
    HashUniqueIndex_deleteRecord_def HashUniqueIndex_getSize_def map_of_filter_neq map_of_eq_None_iff)

section \<open>TBBMultiIndex\<close>

definition TBBMultiIndex_insertRecord :: "('q, 'h, 'm) tbb \<Rightarrow> bytes \<Rightarrow> addr \<Rightarrow> 'm \<Rightarrow> 'm" where
  "TBBMultiIndex_insertRecord T key ptr m = mm_insert T key ptr m"

definition TBBMultiIndex_deleteRecord :: "('q, 'h, 'm) tbb \<Rightarrow> bytes \<Rightarrow> 'm \<Rightarrow> 'm" where
  "TBBMultiIndex_deleteRecord T key m = mm_erase T key m"

definition TBBMultiIndex_searchRecord :: "('q, 'h, 'm) tbb \<Rightarrow> 'm \<Rightarrow> bytes \<Rightarrow> addr option" where
  "TBBMultiIndex_searchRecord T m key = (case mm_find T m key of None \<Rightarrow> None | Some a \<Rightarrow> Some a)"

text \<open>\<open>searchRecords\<close> copies \<open>count(key)\<close> elements starting at the first of the key's range: an
  iterator run past the range would be an access out of bounds.\<close>

definition copy_range :: "nat \<Rightarrow> addr list \<Rightarrow> addr list result" where
  "copy_range num run =
     (if num = 0 then Inr []
      else fold_res (\<lambda>i records. if i < length run then Inr (records @ [run ! i])
                                 else Inl BadAccess) [0..<num] [])"

definition TBBMultiIndex_searchRecords :: "('q, 'h, 'm) tbb \<Rightarrow> 'm \<Rightarrow> bytes \<Rightarrow> addr list result" where
  "TBBMultiIndex_searchRecords T m key = copy_range (mm_count T m key) (mm_range T m key)"

definition TBBMultiIndex_getSize :: "('q, 'h, 'm) tbb \<Rightarrow> 'm \<Rightarrow> nat" where
  "TBBMultiIndex_getSize T m = mm_size T m"

lemma copy_range_loop:
  "n \<le> length run \<Longrightarrow>
   fold_res (\<lambda>i records. if i < length run then Inr (records @ [run ! i]) else Inl BadAccess)
     [0..<n] [] = Inr (take n run)"
  by (induction n) (auto simp: fold_res_append take_Suc_conv_app_nth)

lemma copy_range_all: "copy_range (length run) run = Inr run"
  by (simp add: copy_range_def copy_range_loop)

lemma multi_search_one:
  assumes "multimap_laws T"
  shows "case TBBMultiIndex_searchRecord T m k of None \<Rightarrow> mm_range T m k = []
    | Some a \<Rightarrow> a \<in> set (mm_range T m k)"
proof (cases "mm_range T m k = []")
  case True
  then have "mm_find T m k = None" using assms by (simp add: multimap_laws_def)
  then show ?thesis using True by (simp add: TBBMultiIndex_searchRecord_def)
next
  case False
  have "\<forall>m k. mm_range T m k \<noteq> [] \<longrightarrow> (\<exists>a \<in> set (mm_range T m k). mm_find T m k = Some a)"
    using assms unfolding multimap_laws_def by (elim conjE)
  then obtain a where "a \<in> set (mm_range T m k)" "mm_find T m k = Some a"
    using False by blast
  then show ?thesis by (simp add: TBBMultiIndex_searchRecord_def)
qed

lemma multi_search_all:
  "multimap_laws T \<Longrightarrow> TBBMultiIndex_searchRecords T m k = Inr (mm_range T m k)"
  by (simp add: TBBMultiIndex_searchRecords_def multimap_laws_def copy_range_all)

interpretation tbb_multi: multi_index "mm_empty T" "TBBMultiIndex_insertRecord T"
  "TBBMultiIndex_deleteRecord T" "TBBMultiIndex_searchRecord T" "TBBMultiIndex_searchRecords T"
  "mm_range T" "TBBMultiIndex_getSize T" "multimap_laws T"
  for T :: "('q, 'h, 'm) tbb"
proof unfold_locales
  fix m k assume laws: "multimap_laws T"
  show "case TBBMultiIndex_searchRecord T m k of None \<Rightarrow> mm_range T m k = []
    | Some a \<Rightarrow> a \<in> set (mm_range T m k)"
    using laws by (rule multi_search_one)
  show "TBBMultiIndex_searchRecords T m k = Inr (mm_range T m k)"
    using laws by (rule multi_search_all)
qed (simp_all add: multimap_laws_def TBBMultiIndex_insertRecord_def TBBMultiIndex_deleteRecord_def
    TBBMultiIndex_getSize_def)

section \<open>HashMultiIndex\<close>

type_synonym hash_multi_index = "(bytes \<times> addr) list"

definition HashMultiIndex_insertRecord :: "bytes \<Rightarrow> addr \<Rightarrow> hash_multi_index \<Rightarrow> hash_multi_index" where
  "HashMultiIndex_insertRecord key address m = m @ [(key, address)]"

definition HashMultiIndex_deleteRecord :: "bytes \<Rightarrow> hash_multi_index \<Rightarrow> hash_multi_index" where
  "HashMultiIndex_deleteRecord key m = filter (\<lambda>p. fst p \<noteq> key) m"

definition hash_range :: "hash_multi_index \<Rightarrow> bytes \<Rightarrow> addr list" where
  "hash_range m key = map snd (filter (\<lambda>p. fst p = key) m)"

definition HashMultiIndex_searchRecord :: "hash_multi_index \<Rightarrow> bytes \<Rightarrow> addr option" where
  "HashMultiIndex_searchRecord m key =
     (case hash_range m key of [] \<Rightarrow> None | a # _ \<Rightarrow> Some a)"

definition HashMultiIndex_searchRecords :: "hash_multi_index \<Rightarrow> bytes \<Rightarrow> addr list result" where
  "HashMultiIndex_searchRecords m key = copy_range (length (hash_range m key)) (hash_range m key)"

definition HashMultiIndex_getSize :: "hash_multi_index \<Rightarrow> nat" where
  "HashMultiIndex_getSize m = length m"

interpretation hash_multi: multi_index "[] :: hash_multi_index" HashMultiIndex_insertRecord
  HashMultiIndex_deleteRecord HashMultiIndex_searchRecord HashMultiIndex_searchRecords
  hash_range HashMultiIndex_getSize True
proof unfold_locales
  fix m :: hash_multi_index and k :: bytes
  show "HashMultiIndex_getSize m =
      HashMultiIndex_getSize (HashMultiIndex_deleteRecord k m) + length (hash_range m k)"
    using length_filter_split [of m k]
    by (simp add: HashMultiIndex_getSize_def HashMultiIndex_deleteRecord_def hash_range_def)
  show "HashMultiIndex_searchRecords m k = Inr (hash_range m k)"
    unfolding HashMultiIndex_searchRecords_def by (rule copy_range_all)
  show "case HashMultiIndex_searchRecord m k of None \<Rightarrow> hash_range m k = []
      | Some a \<Rightarrow> a \<in> set (hash_range m k)"
    by (auto simp: HashMultiIndex_searchRecord_def split: list.split)
  fix k'
  show "hash_range (HashMultiIndex_deleteRecord k m) k' = (if k' = k then [] else hash_range m k')"
    by (simp add: hash_range_def HashMultiIndex_deleteRecord_def filter_filter_eq_neq del: filter_filter)
qed (simp_all add: HashMultiIndex_insertRecord_def hash_range_def HashMultiIndex_getSize_def)

end
