(* ===== verification/SchemaTable.thy ===== *)
theory SchemaTable
  imports TableRecord TableIterator Indexes "HOL-Library.AList"
begin

text \<open>
  storage/SchemaTable.h, SchemaTable.cc and Records.h: a table of records with a schema, a primary
  index and secondary indexes. The record a caller passes back (a \<open>ConstRecord\<close>) is an address in
  the table, \<open>None\<close> for the \<open>Record(NULL)\<close> a select gives when it finds nothing. The invariant
  \<open>st_inv\<close> says that every index follows the records of the store; \<open>st_map\<close> is the table as a map
  from primary keys to record bytes, the abstraction the transactions are reasoned about in.
\<close>

section \<open>Records\<close>

text \<open>The growing array of addresses a select of several records gives. Writing past the allocation
  is \<open>BadAccess\<close>; the array doubles when it is full.\<close>

record records =
  data_ptrs :: "addr list"
  allocated_record_num :: nat

definition Records_new :: "nat \<Rightarrow> records" where
  "Records_new init_size = \<lparr>data_ptrs = [], allocated_record_num = init_size\<rparr>"

definition Records_of :: "addr list \<Rightarrow> records" where
  "Records_of ptrs = \<lparr>data_ptrs = ptrs, allocated_record_num = length ptrs\<rparr>"

definition getRecordNum :: "records \<Rightarrow> nat" where
  "getRecordNum r = length (data_ptrs r)"

definition Records_insertRecord :: "addr \<Rightarrow> records \<Rightarrow> records result" where
  "Records_insertRecord a r =
     (if length (data_ptrs r) < allocated_record_num r
      then (let r1 = r\<lparr>data_ptrs := data_ptrs r @ [a]\<rparr> in
            Inr (if length (data_ptrs r1) = allocated_record_num r1
                 then r1\<lparr>allocated_record_num := allocated_record_num r1 * 2\<rparr> else r1))
      else Inl BadAccess)"

text \<open>\<open>ConstRecords::getRecord\<close> and the first step of \<open>ConstRecords::getColumn\<close>.\<close>

definition getRecord :: "records \<Rightarrow> nat \<Rightarrow> addr result" where
  "getRecord r i = (if i < length (data_ptrs r) then Inr (data_ptrs r ! i) else Inl BadAccess)"

definition records_inv :: "records \<Rightarrow> bool" where
  "records_inv r \<longleftrightarrow> length (data_ptrs r) < allocated_record_num r"

lemma records_inv_new [inv_intros]: "0 < n \<Longrightarrow> records_inv (Records_new n)"
  by (simp add: records_inv_def Records_new_def)

lemma Records_insertRecord_spec:
  assumes "records_inv r"
  obtains r' where "Records_insertRecord a r = Inr r'" "records_inv r'"
    "data_ptrs r' = data_ptrs r @ [a]"
  using assms by (auto simp: Records_insertRecord_def records_inv_def Let_def)

section \<open>State and operations\<close>

record ('q, 'h, 'm) schema_table =
  st_schema :: schema
  st_column_count :: nat
  st_column_names :: "string \<Rightarrow> nat option"
  st_base :: "'q base_table"
  primary_index_ptr :: "bytes \<times> 'h option"
  secondary_index_ptrs :: "(bytes \<times> 'm) list"

definition SchemaTable_new :: "('q, 'h, 'm) tbb \<Rightarrow> schema \<Rightarrow> ('q, 'h, 'm) schema_table result" where
  "SchemaTable_new T s =
     bnd (fold_res (\<lambda>i names. bnd (getColumnName s i) (\<lambda>n. Inr (names(n \<mapsto> i))))
            [0..<Schema_getColumnCount s] Map.empty) (\<lambda>names.
     Inr \<lparr>st_schema = s, st_column_count = Schema_getColumnCount s, st_column_names = names,
          st_base = BaseTable_new T (getSchemaSize s),
          primary_index_ptr =
            (if getPrimaryColumnCount s \<noteq> 0 then (getPrimaryColumnSymbol s, Some (hm_empty T))
             else ([], None)),
          secondary_index_ptrs = []\<rparr>)"

definition SchemaTable_new_indexed ::
  "('q, 'h, 'm) tbb \<Rightarrow> schema \<Rightarrow> index_info list \<Rightarrow> nat \<Rightarrow> ('q, 'h, 'm) schema_table result" where
  "SchemaTable_new_indexed T s indexes index_num =
     bnd (SchemaTable_new T s) (\<lambda>t.
     Inr (t\<lparr>secondary_index_ptrs :=
       fold (\<lambda>ix ptrs. AList.update (IndexInfo_getSerializedSymbol ix) (mm_empty T) ptrs)
         (take index_num indexes) (secondary_index_ptrs t)\<rparr>))"

definition SchemaTable_getSchemaTableIterator :: "('q, 'h, 'm) schema_table \<Rightarrow> table_iterator result" where
  "SchemaTable_getSchemaTableIterator t = getIterator (st_base t)"

definition SchemaTable_getRecordSize :: "('q, 'h, 'm) schema_table \<Rightarrow> nat" where
  "SchemaTable_getRecordSize t = getSchemaSize (st_schema t)"

text \<open>The columns of an index, read back from its symbol.\<close>

definition index_columns :: "bytes \<Rightarrow> nat list" where
  "index_columns smb = symbol_columns (length smb div sizeof_size_t) smb"

text \<open>The parts of \<open>insertRecord\<close> and \<open>deleteRecord\<close> that maintain the indexes, given the bytes the
  keys are read from.\<close>

definition primary_insert ::
  "('q, 'h, 'm) tbb \<Rightarrow> schema \<Rightarrow> bytes \<Rightarrow> addr \<Rightarrow> bytes \<times> 'h option \<Rightarrow> (bytes \<times> 'h option) result" where
  "primary_insert T s data address p =
     (case snd p of
        None \<Rightarrow> Inr p
      | Some h \<Rightarrow> bnd (getPrimaryKeySymbol s data) (\<lambda>k.
          Inr (fst p, Some (TBBUniqueIndex_insertRecord T k address h))))"

definition secondary_insert ::
  "('q, 'h, 'm) tbb \<Rightarrow> schema \<Rightarrow> bytes \<Rightarrow> addr \<Rightarrow> (bytes \<times> 'm) list \<Rightarrow> (bytes \<times> 'm) list result" where
  "secondary_insert T s data address entries =
     map_res (\<lambda>e. bnd (getKeySymbol s data (index_columns (fst e))) (\<lambda>k.
       Inr (fst e, TBBMultiIndex_insertRecord T k address (snd e)))) entries"

definition primary_delete ::
  "('q, 'h, 'm) tbb \<Rightarrow> schema \<Rightarrow> bytes \<Rightarrow> bytes \<times> 'h option \<Rightarrow> (bytes \<times> 'h option) result" where
  "primary_delete T s data p =
     (case snd p of
        None \<Rightarrow> Inr p
      | Some h \<Rightarrow> bnd (getPrimaryKeySymbol s data) (\<lambda>k.
          Inr (fst p, Some (TBBUniqueIndex_deleteRecord T k h))))"

definition secondary_delete ::
  "('q, 'h, 'm) tbb \<Rightarrow> schema \<Rightarrow> bytes \<Rightarrow> (bytes \<times> 'm) list \<Rightarrow> (bytes \<times> 'm) list result" where
  "secondary_delete T s data entries =
     map_res (\<lambda>e. bnd (getKeySymbol s data (index_columns (fst e))) (\<lambda>k.
       Inr (fst e, TBBMultiIndex_deleteRecord T k (snd e)))) entries"

definition SchemaTable_insertRecord ::
  "('q, 'h, 'm) tbb \<Rightarrow> bytes \<Rightarrow> ('q, 'h, 'm) schema_table \<Rightarrow> ('q, 'h, 'm) schema_table result" where
  "SchemaTable_insertRecord T data t =
     bnd (BaseTable_insertRecord T data (st_base t)) (\<lambda>(address, b).
     bnd (primary_insert T (st_schema t) data address (primary_index_ptr t)) (\<lambda>p.
     bnd (secondary_insert T (st_schema t) data address (secondary_index_ptrs t)) (\<lambda>ss.
     Inr (t\<lparr>st_base := b, primary_index_ptr := p, secondary_index_ptrs := ss\<rparr>))))"

text \<open>The overload for a \<open>Record\<close> asserts that it has the table's schema (the same object in C++).\<close>

definition SchemaTable_insertRecord_rec ::
  "('q, 'h, 'm) tbb \<Rightarrow> local_record \<Rightarrow> ('q, 'h, 'm) schema_table \<Rightarrow> ('q, 'h, 'm) schema_table result" where
  "SchemaTable_insertRecord_rec T rec t =
     bnd (assert_that (st_schema t = lr_schema rec)) (\<lambda>_.
     (case fetchData rec of
        None \<Rightarrow> Inl NullPointer
      | Some data \<Rightarrow> SchemaTable_insertRecord T data t))"

text \<open>\<open>deleteRecord\<close> gives the slot back first and then reads the keys from its bytes.\<close>

definition SchemaTable_deleteRecord ::
  "('q, 'h, 'm) tbb \<Rightarrow> addr option \<Rightarrow> ('q, 'h, 'm) schema_table \<Rightarrow> ('q, 'h, 'm) schema_table result" where
  "SchemaTable_deleteRecord T record t =
     (case record of
        None \<Rightarrow> Inl NullPointer
      | Some a \<Rightarrow>
          bnd (BaseTable_deleteRecord T a (st_base t)) (\<lambda>b.
          bnd (BaseTable_read b a) (\<lambda>data.
          bnd (primary_delete T (st_schema t) data (primary_index_ptr t)) (\<lambda>p.
          bnd (secondary_delete T (st_schema t) data (secondary_index_ptrs t)) (\<lambda>ss.
          Inr (t\<lparr>st_base := b, primary_index_ptr := p, secondary_index_ptrs := ss\<rparr>))))))"

definition update_column ::
  "addr \<Rightarrow> nat \<times> bytes \<Rightarrow> ('q, 'h, 'm) schema_table \<Rightarrow> ('q, 'h, 'm) schema_table result" where
  "update_column a p t =
     bnd (getColumnOffset (st_schema t) (fst p)) (\<lambda>off.
     bnd (getColumnSize (st_schema t) (fst p)) (\<lambda>n.
     bnd (read_buffer (snd p) n) (\<lambda>v.
     bnd (BaseTable_write a off v (st_base t)) (\<lambda>b.
     Inr (t\<lparr>st_base := b\<rparr>)))))"

text \<open>A \<open>Record(NULL)\<close> has no schema either: using it dereferences a null pointer.\<close>

definition SchemaTable_updateRecord_one ::
  "addr option \<Rightarrow> column_predicate \<Rightarrow> ('q, 'h, 'm) schema_table \<Rightarrow> ('q, 'h, 'm) schema_table result" where
  "SchemaTable_updateRecord_one record param t =
     (case record of
        None \<Rightarrow> Inl NullPointer
      | Some a \<Rightarrow> update_column a (cp_column_id param, cp_value param) t)"

definition SchemaTable_updateRecord ::
  "addr option \<Rightarrow> column_predicates \<Rightarrow> ('q, 'h, 'm) schema_table \<Rightarrow> ('q, 'h, 'm) schema_table result" where
  "SchemaTable_updateRecord record params t =
     (case record of
        None \<Rightarrow> if params = [] then Inr t else Inl NullPointer
      | Some a \<Rightarrow> fold_res (update_column a) params t)"

definition SchemaTable_updateRecords_one ::
  "records \<Rightarrow> nat \<Rightarrow> column_predicate \<Rightarrow> ('q, 'h, 'm) schema_table \<Rightarrow> ('q, 'h, 'm) schema_table result" where
  "SchemaTable_updateRecords_one rs i param t =
     bnd (getRecord rs i) (\<lambda>a. update_column a (cp_column_id param, cp_value param) t)"

definition SchemaTable_updateRecords ::
  "records \<Rightarrow> nat \<Rightarrow> column_predicates \<Rightarrow> ('q, 'h, 'm) schema_table \<Rightarrow> ('q, 'h, 'm) schema_table result" where
  "SchemaTable_updateRecords rs i params t =
     fold_res (\<lambda>p t. bnd (getRecord rs i) (\<lambda>a. update_column a p t)) params t"

subsection \<open>Selection\<close>

definition primary_search ::
  "('q, 'h, 'm) tbb \<Rightarrow> ('q, 'h, 'm) schema_table \<Rightarrow> bytes \<Rightarrow> addr option result" where
  "primary_search T t key =
     (case snd (primary_index_ptr t) of
        None \<Rightarrow> Inl NullPointer
      | Some h \<Rightarrow> Inr (TBBUniqueIndex_searchRecord T h key))"

definition SchemaTable_selectRecord_key ::
  "('q, 'h, 'm) tbb \<Rightarrow> bytes \<Rightarrow> ('q, 'h, 'm) schema_table \<Rightarrow> addr option result" where
  "SchemaTable_selectRecord_key T primary_key t = primary_search T t primary_key"

text \<open>The comparison of a record with the predicates: \<open>memcmp\<close> of each column, up to the first that
  differs.\<close>

fun columns_match :: "schema \<Rightarrow> bytes \<Rightarrow> column_predicates \<Rightarrow> bool result" where
  "columns_match s data [] = Inr True"
| "columns_match s data ((i, value) # ps) =
     bnd (getColumnSize s i) (\<lambda>n.
     bnd (read_buffer value n) (\<lambda>v.
     bnd (column_bytes s data i) (\<lambda>c.
     if v = c then columns_match s data ps else Inr False)))"

definition record_matches :: "('q, 'h, 'm) schema_table \<Rightarrow> column_predicates \<Rightarrow> addr \<Rightarrow> bool result" where
  "record_matches t ps a =
     bnd (BaseTable_read (st_base t) a) (\<lambda>data. columns_match (st_schema t) data ps)"

partial_function (option) scan_first ::
  "('q, 'h, 'm) schema_table \<Rightarrow> column_predicates \<Rightarrow> table_iterator \<Rightarrow> addr option result option" where
  "scan_first t ps it =
     (case hasNext (blocks (st_base t)) it of
        None \<Rightarrow> None
      | Some (Inl e) \<Rightarrow> Some (Inl e)
      | Some (Inr (b, it1)) \<Rightarrow>
          if b
          then (case it_next (blocks (st_base t)) it1 of
                  None \<Rightarrow> None
                | Some (Inl e) \<Rightarrow> Some (Inl e)
                | Some (Inr (a, it2)) \<Rightarrow>
                    (case record_matches t ps a of
                       Inl e \<Rightarrow> Some (Inl e)
                     | Inr found \<Rightarrow> if found then Some (Inr (Some a)) else scan_first t ps it2))
          else Some (Inr None))"

partial_function (option) scan_all ::
  "('q, 'h, 'm) schema_table \<Rightarrow> column_predicates \<Rightarrow> table_iterator \<Rightarrow> records \<Rightarrow> records result option" where
  "scan_all t ps it rs =
     (case hasNext (blocks (st_base t)) it of
        None \<Rightarrow> None
      | Some (Inl e) \<Rightarrow> Some (Inl e)
      | Some (Inr (b, it1)) \<Rightarrow>
          if b
          then (case it_next (blocks (st_base t)) it1 of
                  None \<Rightarrow> None
                | Some (Inl e) \<Rightarrow> Some (Inl e)
                | Some (Inr (a, it2)) \<Rightarrow>
                    (case record_matches t ps a of
                       Inl e \<Rightarrow> Some (Inl e)
                     | Inr found \<Rightarrow>
                         (case (if found then Records_insertRecord a rs else Inr rs) of
                            Inl e \<Rightarrow> Some (Inl e)
                          | Inr rs1 \<Rightarrow> scan_all t ps it2 rs1)))
          else Some (Inr rs))"

definition select_scan ::
  "('q, 'h, 'm) schema_table \<Rightarrow> column_predicates \<Rightarrow> addr option result" where
  "select_scan t ps = bnd (getIterator (st_base t)) (\<lambda>it. returned (scan_first t ps it))"

definition select_scan_all ::
  "('q, 'h, 'm) schema_table \<Rightarrow> column_predicates \<Rightarrow> records result" where
  "select_scan_all t ps =
     bnd (getIterator (st_base t)) (\<lambda>it. returned (scan_all t ps it (Records_new kFetchSize)))"

text \<open>\<open>selectRecord(ColumnPredicate)\<close> and \<open>selectRecord(ColumnPredicates)\<close>: the primary index, a
  secondary index or a scan, by the symbol of the predicates' columns.\<close>

definition SchemaTable_selectRecord_one ::
  "('q, 'h, 'm) tbb \<Rightarrow> column_predicate \<Rightarrow> ('q, 'h, 'm) schema_table \<Rightarrow> addr option result" where
  "SchemaTable_selectRecord_one T param t =
     (let smb = size_t_symbol [cp_column_id param] in
      if smb = fst (primary_index_ptr t)
      then bnd (getPredicateDataSymbol_one (st_schema t) param) (primary_search T t)
      else (case map_of (secondary_index_ptrs t) smb of
              Some m \<Rightarrow> bnd (getPredicateDataSymbol_one (st_schema t) param) (\<lambda>key.
                Inr (TBBMultiIndex_searchRecord T m key))
            | None \<Rightarrow> select_scan t [(cp_column_id param, cp_value param)]))"

definition SchemaTable_selectRecord ::
  "('q, 'h, 'm) tbb \<Rightarrow> column_predicates \<Rightarrow> ('q, 'h, 'm) schema_table \<Rightarrow> addr option result" where
  "SchemaTable_selectRecord T params t =
     (let smb = getPredicateColumnSymbol (st_schema t) params in
      if smb = fst (primary_index_ptr t)
      then bnd (getPredicateDataSymbol (st_schema t) params) (primary_search T t)
      else (case map_of (secondary_index_ptrs t) smb of
              Some m \<Rightarrow> bnd (getPredicateDataSymbol (st_schema t) params) (\<lambda>key.
                Inr (TBBMultiIndex_searchRecord T m key))
            | None \<Rightarrow> select_scan t params))"

definition SchemaTable_selectRecords_one ::
  "('q, 'h, 'm) tbb \<Rightarrow> column_predicate \<Rightarrow> ('q, 'h, 'm) schema_table \<Rightarrow> records result" where
  "SchemaTable_selectRecords_one T param t =
     (case map_of (secondary_index_ptrs t) (size_t_symbol [cp_column_id param]) of
        Some m \<Rightarrow> bnd (getPredicateDataSymbol_one (st_schema t) param) (\<lambda>key.
          bnd (TBBMultiIndex_searchRecords T m key) (\<lambda>ptrs. Inr (Records_of ptrs)))
      | None \<Rightarrow> select_scan_all t [(cp_column_id param, cp_value param)])"

definition SchemaTable_selectRecords ::
  "('q, 'h, 'm) tbb \<Rightarrow> column_predicates \<Rightarrow> ('q, 'h, 'm) schema_table \<Rightarrow> records result" where
  "SchemaTable_selectRecords T params t =
     (case map_of (secondary_index_ptrs t) (getPredicateColumnSymbol (st_schema t) params) of
        Some m \<Rightarrow> bnd (getPredicateDataSymbol (st_schema t) params) (\<lambda>key.
          bnd (TBBMultiIndex_searchRecords T m key) (\<lambda>ptrs. Inr (Records_of ptrs)))
      | None \<Rightarrow> select_scan_all t params)"

section \<open>The invariant\<close>

abbreviation st_live :: "('q, 'h, 'm) schema_table \<Rightarrow> addr set" where
  "st_live t \<equiv> set (live_records (st_base t))"

abbreviation st_bytes :: "('q, 'h, 'm) schema_table \<Rightarrow> addr \<Rightarrow> bytes" where
  "st_bytes t \<equiv> record_bytes (st_base t)"

definition primary_ok :: "('q, 'h, 'm) tbb \<Rightarrow> schema \<Rightarrow> 'q base_table \<Rightarrow> bytes \<times> 'h option \<Rightarrow> bool" where
  "primary_ok T s b p \<longleftrightarrow>
     (case snd p of
        None \<Rightarrow> fst p = []
      | Some h \<Rightarrow>
          fst p = getPrimaryColumnSymbol s \<and> 0 < primary_key_length s \<and>
          unique_follows (TBBUniqueIndex_searchRecord T h) (set (live_records b))
            (\<lambda>a. primary_key_of s (record_bytes b a)))"

definition secondary_ok :: "('q, 'h, 'm) tbb \<Rightarrow> schema \<Rightarrow> 'q base_table \<Rightarrow> bytes \<times> 'm \<Rightarrow> bool" where
  "secondary_ok T s b e \<longleftrightarrow>
     fst e = size_t_symbol (index_columns (fst e)) \<and> cols_valid s (index_columns (fst e)) \<and>
     multi_follows (mm_range T (snd e)) (set (live_records b))
       (\<lambda>a. key_of s (index_columns (fst e)) (record_bytes b a))"

definition st_inv :: "('q, 'h, 'm) tbb \<Rightarrow> ('q, 'h, 'm) schema_table \<Rightarrow> bool" where
  "st_inv T t \<longleftrightarrow>
     tbb_laws T \<and> schema_inv (st_schema t) \<and> column_count (st_schema t) < 2 ^ 64 \<and>
     bt_inv T (st_base t) \<and> record_size (st_base t) = getSchemaSize (st_schema t) \<and>
     primary_ok T (st_schema t) (st_base t) (primary_index_ptr t) \<and>
     distinct (map fst (secondary_index_ptrs t)) \<and>
     (\<forall>e \<in> set (secondary_index_ptrs t). secondary_ok T (st_schema t) (st_base t) e)"

definition st_map :: "('q, 'h, 'm) tbb \<Rightarrow> ('q, 'h, 'm) schema_table \<Rightarrow> bytes \<Rightarrow> bytes option" where
  "st_map T t k =
     (case snd (primary_index_ptr t) of
        None \<Rightarrow> None
      | Some h \<Rightarrow> map_option (st_bytes t) (TBBUniqueIndex_searchRecord T h k))"

lemma st_invD:
  assumes "st_inv T t"
  shows "queue_laws T" "hash_map_laws T" "multimap_laws T" "schema_inv (st_schema t)"
    "column_count (st_schema t) < 2 ^ 64" "bt_inv T (st_base t)"
    "record_size (st_base t) = getSchemaSize (st_schema t)" "primary_ok T (st_schema t) (st_base t) (primary_index_ptr t)"
    "\<And>e. e \<in> set (secondary_index_ptrs t) \<Longrightarrow> secondary_ok T (st_schema t) (st_base t) e"
  using assms tbb_lawsD [of T] by (auto simp: st_inv_def)

lemma index_columns_symbol:
  "\<forall>i \<in> set ids. i < 2 ^ 64 \<Longrightarrow> index_columns (size_t_symbol ids) = ids"
  using symbol_columns_symbol [of ids] by (simp add: index_columns_def)

lemma cols_valid_small:
  "cols_valid s ids \<Longrightarrow> column_count s < 2 ^ 64 \<Longrightarrow> \<forall>i \<in> set ids. i < 2 ^ 64"
  by (auto simp: cols_valid_def)

lemma seg_take: "off + k \<le> n \<Longrightarrow> seg off k (take n xs) = seg off k xs"
  by (simp add: seg_def drop_take min_def)

lemma key_of_take:
  assumes "schema_inv s" "cols_valid s ids"
  shows "key_of s ids (take (getSchemaSize s) data) = key_of s ids data"
  unfolding key_of_def col_data_def
  using assms column_in_record [OF assms(1)]
  by (intro arg_cong [where f = concat] map_cong refl seg_take) (auto simp: cols_valid_def)

lemma primary_key_of_take:
  "schema_inv s \<Longrightarrow> primary_key_of s (take (getSchemaSize s) data) = primary_key_of s data"
  by (simp add: primary_key_of_def key_of_take primary_cols_valid)

lemma primary_ok_None: "primary_ok T s b p \<Longrightarrow> snd p = None \<Longrightarrow> fst p = []"
  by (simp add: primary_ok_def)

lemma primary_ok_Some:
  assumes "primary_ok T s b p" "snd p = Some h"
  shows "fst p = getPrimaryColumnSymbol s" and "0 < primary_key_length s"
    and "unique_follows (TBBUniqueIndex_searchRecord T h) (set (live_records b))
            (\<lambda>a. primary_key_of s (record_bytes b a))"
  using assms by (auto simp: primary_ok_def)

subsection \<open>Creation\<close>

lemma primary_symbol:
  assumes "schema_inv s"
  shows "getPrimaryColumnSymbol s = size_t_symbol (primary_cols s)"
  using assms by (simp add: getPrimaryColumnSymbol_def schema_inv_def)

lemma column_names_loop:
  assumes "schema_inv s" "n \<le> column_count s"
  shows "\<exists>names. fold_res (\<lambda>i names. bnd (getColumnName s i) (\<lambda>nm. Inr (names(nm \<mapsto> i))))
    [0..<n] Map.empty = Inr names"
  using assms(2)
proof (induction n)
  case 0
  then show ?case by simp
next
  case (Suc n)
  then show ?case
    using assms(1) by (auto simp: fold_res_append getColumnName_def res_simps)
qed

lemma SchemaTable_new_inv:
  fixes T :: "('q, 'h, 'm) tbb"
  assumes "tbb_laws T" "schema_inv s" "column_count s < 2 ^ 64"
    and "0 < kBlockSize div (getSchemaSize s + 8)"
    and "primary_col_num s \<noteq> 0 \<Longrightarrow> 0 < primary_key_length s"
  obtains t :: "('q, 'h, 'm) schema_table" where "SchemaTable_new T s = Inr t" "st_inv T t" "st_live t = {}" "st_schema t = s"
    "secondary_index_ptrs t = []" "snd (primary_index_ptr t) = None \<longleftrightarrow> primary_col_num s = 0"
    "blocks (st_base t) = []"
proof -
  obtain names where names: "fold_res (\<lambda>i names. bnd (getColumnName s i) (\<lambda>nm. Inr (names(nm \<mapsto> i))))
    [0..<Schema_getColumnCount s] Map.empty = Inr names"
    using column_names_loop [OF assms(2)] by (auto simp: Schema_getColumnCount_def)
  define t :: "('q, 'h, 'm) schema_table" where "t = \<lparr>st_schema = s, st_column_count = Schema_getColumnCount s, st_column_names = names,
          st_base = BaseTable_new T (getSchemaSize s),
          primary_index_ptr =
            (if getPrimaryColumnCount s \<noteq> 0 then (getPrimaryColumnSymbol s, Some (hm_empty T))
             else ([], None)),
          secondary_index_ptrs = []\<rparr>"
  note b = bt_inv_new [OF tbb_lawsD(1) [OF assms(1)] assms(4)]
  have "record_size (BaseTable_new T (getSchemaSize s)) = getSchemaSize s"
    by (simp add: BaseTable_new_def)
  moreover have "primary_ok T s (st_base t) (primary_index_ptr t)"
    using assms(5) tbb_unique.follows_empty [OF tbb_lawsD(2) [OF assms(1)]]
    by (auto simp: primary_ok_def t_def b getPrimaryColumnCount_def)
  ultimately have "st_inv T t"
    using assms b unfolding st_inv_def by (simp add: t_def)
  then show thesis
    using that [of t] names b by (simp add: SchemaTable_new_def t_def getPrimaryColumnCount_def BaseTable_new_def)
qed

lemma set_update_cases: "e \<in> set (AList.update k v al) \<Longrightarrow> e = (k, v) \<or> e \<in> set al"
  by (induction al) (auto split: if_splits)

lemma st_inv_add_index:
  fixes t :: "('q, 'h, 'm) schema_table"
  assumes "st_inv T t" "st_live t = {}" "cols_valid (st_schema t) (take (ix_column_num ix) (ix_column_ids ix))"
  shows "st_inv T (t\<lparr>secondary_index_ptrs :=
    AList.update (IndexInfo_getSerializedSymbol ix) (mm_empty T) (secondary_index_ptrs t)\<rparr>)"
proof -
  let ?t = "t\<lparr>secondary_index_ptrs :=
    AList.update (IndexInfo_getSerializedSymbol ix) (mm_empty T) (secondary_index_ptrs t)\<rparr>"
  let ?ids = "take (ix_column_num ix) (ix_column_ids ix)"
  note i = st_invD [OF assms(1)]
  have ids: "index_columns (IndexInfo_getSerializedSymbol ix) = ?ids"
    unfolding IndexInfo_getSerializedSymbol_def
    using index_columns_symbol [OF cols_valid_small [OF assms(3) i(5)]] .
  have "secondary_ok T (st_schema t) (st_base t) (IndexInfo_getSerializedSymbol ix, mm_empty T)"
    using assms(2,3) tbb_multi.follows_empty [OF i(3)]
    by (simp add: secondary_ok_def ids) (simp add: IndexInfo_getSerializedSymbol_def)
  then show ?thesis
    using assms(1) unfolding st_inv_def
    by (auto simp: distinct_update dest!: set_update_cases)
qed

lemma SchemaTable_new_indexed_inv:
  fixes T :: "('q, 'h, 'm) tbb"
  assumes "tbb_laws T" "schema_inv s" "column_count s < 2 ^ 64"
    and "0 < kBlockSize div (getSchemaSize s + 8)"
    and "primary_col_num s \<noteq> 0 \<Longrightarrow> 0 < primary_key_length s"
    and "\<forall>ix \<in> set (take n indexes). cols_valid s (take (ix_column_num ix) (ix_column_ids ix))"
  obtains t :: "('q, 'h, 'm) schema_table" where "SchemaTable_new_indexed T s indexes n = Inr t" "st_inv T t" "st_live t = {}"
    "st_schema t = s" "snd (primary_index_ptr t) = None \<longleftrightarrow> primary_col_num s = 0"
proof -
  obtain t :: "('q, 'h, 'm) schema_table" where t: "SchemaTable_new T s = Inr t" "st_inv T t" "st_live t = {}" "st_schema t = s"
    "snd (primary_index_ptr t) = None \<longleftrightarrow> primary_col_num s = 0"
    using SchemaTable_new_inv [OF assms(1-5)] by metis
  define add where "add = (\<lambda>ix ptrs. AList.update (IndexInfo_getSerializedSymbol ix) (mm_empty T) ptrs)"
  have "st_inv T (t\<lparr>secondary_index_ptrs := fold add ixs ptrs\<rparr>)"
    if "\<forall>ix \<in> set ixs. cols_valid s (take (ix_column_num ix) (ix_column_ids ix))"
      "st_inv T (t\<lparr>secondary_index_ptrs := ptrs\<rparr>)" for ixs ptrs
    using that
  proof (induction ixs arbitrary: ptrs)
    case (Cons ix ixs)
    have "st_inv T (t\<lparr>secondary_index_ptrs := add ix ptrs\<rparr>)"
      using st_inv_add_index [OF Cons.prems(2), of ix] t(3,4) Cons.prems(1) by (simp add: add_def)
    then show ?case using Cons.IH Cons.prems(1) by simp
  qed simp
  from this [of "take n indexes" "secondary_index_ptrs t"]
  have "st_inv T (t\<lparr>secondary_index_ptrs := fold add (take n indexes) (secondary_index_ptrs t)\<rparr>)"
    using assms(6) t(2) by simp
  then show thesis
    using that t by (simp add: SchemaTable_new_indexed_def add_def)
qed

section \<open>Insertion\<close>

definition store_added :: "'q base_table \<Rightarrow> addr \<Rightarrow> bytes \<Rightarrow> 'q base_table \<Rightarrow> bool" where
  "store_added b a v b' \<longleftrightarrow>
     a \<notin> set (live_records b) \<and> set (live_records b') = insert a (set (live_records b)) \<and>
     record_bytes b' a = v \<and> (\<forall>x \<in> set (live_records b). record_bytes b' x = record_bytes b x)"

definition store_removed :: "'q base_table \<Rightarrow> addr \<Rightarrow> 'q base_table \<Rightarrow> bool" where
  "store_removed b a b' \<longleftrightarrow>
     a \<in> set (live_records b) \<and> set (live_records b') = set (live_records b) - {a} \<and>
     (\<forall>x \<in> set (live_records b). record_bytes b' x = record_bytes b x)"

definition store_changed :: "'q base_table \<Rightarrow> addr \<Rightarrow> bytes \<Rightarrow> 'q base_table \<Rightarrow> bool" where
  "store_changed b a v b' \<longleftrightarrow>
     a \<in> set (live_records b) \<and> set (live_records b') = set (live_records b) \<and>
     record_bytes b' a = v \<and>
     (\<forall>x \<in> set (live_records b). x \<noteq> a \<longrightarrow> record_bytes b' x = record_bytes b x)"

lemma primary_insert_spec:
  assumes "hash_map_laws T" "schema_inv s" "getSchemaSize s \<le> length data"
    and ok: "primary_ok T s b p" and added: "store_added b a (take (getSchemaSize s) data) b'"
    and new: "snd p \<noteq> None \<Longrightarrow>
      primary_key_of s data \<notin> (\<lambda>x. primary_key_of s (record_bytes b x)) ` set (live_records b)"
  obtains p' where "primary_insert T s data a p = Inr p'" "primary_ok T s b' p'"
    "snd p' = None \<longleftrightarrow> snd p = None"
proof (cases "snd p")
  case None
  then show thesis using that [of p] ok by (simp add: primary_insert_def primary_ok_def)
next
  case (Some h)
  let ?key = "\<lambda>b x. primary_key_of s (record_bytes b x)" and ?k = "primary_key_of s data"
  note pk = primary_ok_Some [OF ok Some]
  have "unique_follows (TBBUniqueIndex_searchRecord T (TBBUniqueIndex_insertRecord T ?k a h))
      (insert a (set (live_records b))) (?key b')"
    using added Some new
    by (intro tbb_unique.follows_insert [OF assms(1) pk(3)])
      (auto simp: store_added_def primary_key_of_take [OF assms(2)])
  then show thesis
    using that [of "(fst p, Some (TBBUniqueIndex_insertRecord T ?k a h))"] Some pk(1,2) added
    by (simp add: primary_insert_def getPrimaryKeySymbol_eq [OF assms(2,3)] primary_ok_def store_added_def)
qed

lemma secondary_insert_spec:
  fixes es :: "(bytes \<times> 'm) list" and T :: "('q, 'h, 'm) tbb"
  assumes "multimap_laws T" "schema_inv s" "getSchemaSize s \<le> length data"
    and ok: "\<forall>e \<in> set es. secondary_ok T s b e" and added: "store_added b a (take (getSchemaSize s) data) b'"
  obtains es' where "secondary_insert T s data a es = Inr es'" "\<forall>e \<in> set es'. secondary_ok T s b' e"
    "map fst es' = map fst es"
proof -
  define key where "key = (\<lambda>e :: bytes \<times> 'm. key_of s (index_columns (fst e)) data)"
  define upd where "upd = (\<lambda>e. (fst e, TBBMultiIndex_insertRecord T (key e) a (snd e)))"
  have "secondary_insert T s data a es = Inr (map upd es)"
    unfolding secondary_insert_def
    using ok by (intro map_res_eq) (simp add: secondary_ok_def getKeySymbol_eq [OF assms(2) _ assms(3)] upd_def key_def)
  moreover have "secondary_ok T s b' (upd e)" if "e \<in> set es" for e
  proof -
    let ?ids = "index_columns (fst e)"
    have e: "secondary_ok T s b e" using ok that by blast
    then have "multi_follows (mm_range T (TBBMultiIndex_insertRecord T (key e) a (snd e)))
        (insert a (set (live_records b))) (\<lambda>x. key_of s ?ids (record_bytes b' x))"
      using added
      by (intro tbb_multi.follows_insert [OF assms(1)])
        (auto simp: secondary_ok_def store_added_def key_def key_of_take [OF assms(2)])
    then show ?thesis
      using e added by (simp add: secondary_ok_def upd_def store_added_def)
  qed
  moreover have "map fst (map upd es) = map fst es" by (simp add: upd_def)
  ultimately show thesis using that [of "map upd es"] by auto
qed

lemma base_insert:
  assumes "bt_inv T b" "record_size b \<le> length data"
  obtains a b' where "BaseTable_insertRecord T data b = Inr (a, b')" "bt_inv T b'"
    "record_size b' = record_size b" "store_added b a (take (record_size b) data) b'"
proof -
  obtain a b' where "BaseTable_insertRecord T data b = Inr (a, b')" "bt_inv T b'"
    "record_size b' = record_size b" "a \<notin> set (live_records b)"
    "set (live_records b') = insert a (set (live_records b))"
    "record_bytes b' a = take (record_size b) data"
    "\<And>x. x \<in> set (live_records b) \<Longrightarrow> record_bytes b' x = record_bytes b x"
    by (fact bt.insE [OF assms])
  then show thesis using that [of a b'] by (simp add: store_added_def)
qed

lemma SchemaTable_insertRecord_spec:
  assumes inv: "st_inv T t" and len: "getSchemaSize (st_schema t) \<le> length data"
    and new: "snd (primary_index_ptr t) \<noteq> None \<Longrightarrow>
      primary_key_of (st_schema t) data \<notin> (\<lambda>x. primary_key_of (st_schema t) (st_bytes t x)) ` st_live t"
  obtains a t' where "SchemaTable_insertRecord T data t = Inr t'" "st_inv T t'"
    "store_added (st_base t) a (take (getSchemaSize (st_schema t)) data) (st_base t')"
    "st_schema t' = st_schema t"
    "snd (primary_index_ptr t') = None \<longleftrightarrow> snd (primary_index_ptr t) = None"
    "map fst (secondary_index_ptrs t') = map fst (secondary_index_ptrs t)"
proof -
  note i = st_invD [OF inv]
  obtain a b' where b': "BaseTable_insertRecord T data (st_base t) = Inr (a, b')" "bt_inv T b'"
    "record_size b' = record_size (st_base t)"
    "store_added (st_base t) a (take (getSchemaSize (st_schema t)) data) b'"
    using base_insert [OF i(6), of data] len i(7) by metis
  obtain p' where p': "primary_insert T (st_schema t) data a (primary_index_ptr t) = Inr p'"
    "primary_ok T (st_schema t) b' p'" "snd p' = None \<longleftrightarrow> snd (primary_index_ptr t) = None"
    using primary_insert_spec [OF i(2,4) len i(8) b'(4) new] by metis
  obtain es' where es': "secondary_insert T (st_schema t) data a (secondary_index_ptrs t) = Inr es'"
    "\<forall>e \<in> set es'. secondary_ok T (st_schema t) b' e" "map fst es' = map fst (secondary_index_ptrs t)"
    using secondary_insert_spec [OF i(3,4) len _ b'(4)] i(9) by metis
  let ?t' = "t\<lparr>st_base := b', primary_index_ptr := p', secondary_index_ptrs := es'\<rparr>"
  have "SchemaTable_insertRecord T data t = Inr ?t'"
    using b'(1) p'(1) es'(1) by (simp add: SchemaTable_insertRecord_def)
  moreover have "st_inv T ?t'"
    using inv b'(2,3) p'(2) es'(2,3) by (simp add: st_inv_def)
  ultimately show thesis using that [of ?t' a] b'(4) p'(3) es'(3) by simp
qed

section \<open>Deletion\<close>

text \<open>The keys of the record in the secondary indexes are its own: what \<open>deleteRecord\<close> needs for the
  indexes to follow the records afterwards.\<close>

definition sole_in_indexes :: "('q, 'h, 'm) schema_table \<Rightarrow> addr \<Rightarrow> bool" where
  "sole_in_indexes t a \<longleftrightarrow>
     (\<forall>e \<in> set (secondary_index_ptrs t). \<forall>x \<in> st_live t.
        key_of (st_schema t) (index_columns (fst e)) (st_bytes t x) =
        key_of (st_schema t) (index_columns (fst e)) (st_bytes t a) \<longrightarrow> x = a)"

lemma base_delete:
  assumes "bt_inv T b" "a \<in> set (live_records b)"
  obtains b' where "BaseTable_deleteRecord T a b = Inr b'" "bt_inv T b'" "record_size b' = record_size b"
    "store_removed b a b'" "BaseTable_read b' a = Inr (record_bytes b a)"
proof -
  obtain b' where "BaseTable_deleteRecord T a b = Inr b'" "bt_inv T b'"
    "record_size b' = record_size b" "set (live_records b') = set (live_records b) - {a}"
    "\<And>x. x \<in> set (live_records b) \<Longrightarrow> record_bytes b' x = record_bytes b x"
    "BaseTable_read b' a = Inr (record_bytes b a)"
    by (fact bt.delE [OF assms])
  then show thesis using that [of b'] assms(2) by (simp add: store_removed_def)
qed

lemma primary_delete_spec:
  assumes "hash_map_laws T" "schema_inv s" "record_size b = getSchemaSize s"
    and ok: "primary_ok T s b p" and removed: "store_removed b a b'"
  obtains p' where "primary_delete T s (record_bytes b a) p = Inr p'" "primary_ok T s b' p'"
    "snd p' = None \<longleftrightarrow> snd p = None"
proof (cases "snd p")
  case None
  then show thesis using that [of p] ok by (simp add: primary_delete_def primary_ok_def)
next
  case (Some h)
  let ?key = "\<lambda>b x. primary_key_of s (record_bytes b x)"
  note pk = primary_ok_Some [OF ok Some]
  have "unique_follows (TBBUniqueIndex_searchRecord T (TBBUniqueIndex_deleteRecord T (?key b a) h))
      (set (live_records b) - {a}) (?key b')"
    using removed by (intro tbb_unique.follows_delete [OF assms(1) pk(3)]) (auto simp: store_removed_def)
  moreover have "getPrimaryKeySymbol s (record_bytes b a) = Inr (?key b a)"
    using assms(2,3) by (intro getPrimaryKeySymbol_eq) simp_all
  ultimately show thesis
    using that [of "(fst p, Some (TBBUniqueIndex_deleteRecord T (?key b a) h))"] Some pk(1,2) removed
    by (simp add: primary_delete_def primary_ok_def store_removed_def)
qed

lemma secondary_delete_eq:
  assumes "schema_inv s" "record_size b = getSchemaSize s" "\<forall>e \<in> set es. secondary_ok T s b e"
  shows "secondary_delete T s (record_bytes b a) es =
    Inr (map (\<lambda>e. (fst e, TBBMultiIndex_deleteRecord T
      (key_of s (index_columns (fst e)) (record_bytes b a)) (snd e))) es)"
  unfolding secondary_delete_def
  using assms by (intro map_res_eq) (simp add: secondary_ok_def getKeySymbol_eq)

lemma SchemaTable_deleteRecord_spec:
  assumes inv: "st_inv T t" and a: "a \<in> st_live t" and sole: "sole_in_indexes t a"
  obtains t' where "SchemaTable_deleteRecord T (Some a) t = Inr t'" "st_inv T t'"
    "store_removed (st_base t) a (st_base t')" "st_schema t' = st_schema t"
    "snd (primary_index_ptr t') = None \<longleftrightarrow> snd (primary_index_ptr t) = None"
    "map fst (secondary_index_ptrs t') = map fst (secondary_index_ptrs t)"
proof -
  let ?s = "st_schema t" and ?b = "st_base t"
  note i = st_invD [OF inv]
  obtain b' where b': "BaseTable_deleteRecord T a ?b = Inr b'" "bt_inv T b'"
    "record_size b' = record_size ?b" "store_removed ?b a b'" "BaseTable_read b' a = Inr (record_bytes ?b a)"
    using base_delete [OF i(6) a] by metis
  obtain p' where p': "primary_delete T ?s (record_bytes ?b a) (primary_index_ptr t) = Inr p'"
    "primary_ok T ?s b' p'" "snd p' = None \<longleftrightarrow> snd (primary_index_ptr t) = None"
    using primary_delete_spec [OF i(2,4,7,8) b'(4)] by metis
  define es' where "es' = map (\<lambda>e. (fst e, TBBMultiIndex_deleteRecord T
      (key_of ?s (index_columns (fst e)) (record_bytes ?b a)) (snd e))) (secondary_index_ptrs t)"
  have es: "secondary_delete T ?s (record_bytes ?b a) (secondary_index_ptrs t) = Inr es'"
    unfolding es'_def using i(9) by (intro secondary_delete_eq [OF i(4,7)]) blast
  have keys: "map fst es' = map fst (secondary_index_ptrs t)" by (simp add: es'_def)
  have ok: "secondary_ok T ?s b' e'" if e': "e' \<in> set es'" for e'
  proof -
    obtain e where e: "e \<in> set (secondary_index_ptrs t)" "e' = (fst e, TBBMultiIndex_deleteRecord T
        (key_of ?s (index_columns (fst e)) (record_bytes ?b a)) (snd e))"
      using e' by (auto simp: es'_def)
    have "multi_follows (mm_range T (snd e')) (st_live t - {a})
        (\<lambda>x. key_of ?s (index_columns (fst e)) (record_bytes b' x))"
      unfolding e(2) snd_conv
      using i(9) [OF e(1)] sole e(1) a b'(4)
      by (intro tbb_multi.follows_delete [OF i(3), where key = "\<lambda>x. key_of ?s (index_columns (fst e)) (record_bytes ?b x)"])
        (auto simp: secondary_ok_def sole_in_indexes_def store_removed_def)
    then show ?thesis
      using i(9) [OF e(1)] e(2) b'(4) by (simp add: secondary_ok_def store_removed_def)
  qed
  let ?t' = "t\<lparr>st_base := b', primary_index_ptr := p', secondary_index_ptrs := es'\<rparr>"
  have "SchemaTable_deleteRecord T (Some a) t = Inr ?t'"
    using b'(1,5) p'(1) es by (simp add: SchemaTable_deleteRecord_def)
  moreover have "st_inv T ?t'"
    using inv b'(2,3) p'(2) ok keys by (simp add: st_inv_def)
  ultimately show thesis using that [of ?t'] b'(4) p'(3) keys by simp
qed

section \<open>Update\<close>

text \<open>A column no index is built on.\<close>

definition unindexed :: "('q, 'h, 'm) schema_table \<Rightarrow> nat \<Rightarrow> bool" where
  "unindexed t i \<longleftrightarrow>
     (snd (primary_index_ptr t) \<noteq> None \<longrightarrow> i \<notin> set (primary_cols (st_schema t))) \<and>
     (\<forall>e \<in> set (secondary_index_ptrs t). i \<notin> set (index_columns (fst e)))"

lemma update_column_spec:
  assumes inv: "st_inv T t" and a: "a \<in> st_live t" and col: "i < column_count (st_schema t)"
    and v: "col_size (st_schema t) i \<le> length v" and un: "unindexed t i"
  obtains t' where "update_column a (i, v) t = Inr t'" "st_inv T t'"
    "store_changed (st_base t) a
       (set_col (st_schema t) i (take (col_size (st_schema t) i) v) (st_bytes t a)) (st_base t')"
    "t' = t\<lparr>st_base := st_base t'\<rparr>"
proof -
  let ?s = "st_schema t" and ?b = "st_base t" and ?v = "take (col_size (st_schema t) i) v"
  note inv' = st_invD [OF inv]
  have off: "col_off ?s i + length ?v \<le> record_size ?b"
    using column_in_record [OF inv'(4) col] v inv'(7) by simp
  obtain b' where b': "BaseTable_write a (col_off ?s i) ?v ?b = Inr b'" "bt_inv T b'"
      "record_size b' = record_size ?b" "set (live_records b') = st_live t"
      "record_bytes b' a = set_col ?s i ?v (record_bytes ?b a)"
      "\<And>x. x \<in> st_live t \<Longrightarrow> x \<noteq> a \<Longrightarrow> record_bytes b' x = record_bytes ?b x"
    unfolding set_col_def by (fact bt.updE [OF inv'(6) a off])
  have key: "key_of ?s ids (record_bytes b' x) = key_of ?s ids (record_bytes ?b x)"
    if "cols_valid ?s ids" "i \<notin> set ids" "x \<in> st_live t" for ids x
    using b'(5,6) that key_of_set_col_other [OF inv'(4) col that(1,2)] inv'(7) v
    by (cases "x = a") auto
  have pk: "primary_ok T ?s b' (primary_index_ptr t)"
  proof (cases "snd (primary_index_ptr t)")
    case None
    then show ?thesis using inv'(8) by (simp add: primary_ok_def)
  next
    case (Some h)
    note p = primary_ok_Some [OF inv'(8) Some]
    have "unique_follows (TBBUniqueIndex_searchRecord T h) (st_live t)
        (\<lambda>x. primary_key_of ?s (record_bytes b' x))"
      using p(2,3) key [OF primary_cols_valid [OF inv'(4)]] un Some
      by (subst unique_follows_cong) (auto simp: primary_key_of_def unindexed_def)
    then show ?thesis using p Some b'(4) by (simp add: primary_ok_def)
  qed
  have sk: "secondary_ok T ?s b' e" if e: "e \<in> set (secondary_index_ptrs t)" for e
    using inv'(9) [OF e] key un e b'(4) unfolding secondary_ok_def unindexed_def
    by (subst multi_follows_cong) auto
  let ?t' = "t\<lparr>st_base := b'\<rparr>"
  have "update_column a (i, v) t = Inr ?t'"
    using b'(1) v by (simp add: update_column_def res_simps inv'(4) col)
  moreover have "st_inv T ?t'"
    using inv b'(2,3) pk sk by (simp add: st_inv_def)
  moreover have "store_changed ?b a (set_col ?s i ?v (st_bytes t a)) b'"
    using a b'(4,5,6) by (simp add: store_changed_def)
  ultimately show thesis using that [of ?t'] by simp
qed

section \<open>Selection\<close>

lemma columns_match_eq:
  assumes "schema_inv s" "getSchemaSize s \<le> length data" "predicates_valid s ps"
  shows "columns_match s data ps = Inr (matches s ps data)"
  using assms(3)
proof (induction ps)
  case Nil
  then show ?case by simp
next
  case (Cons p ps)
  then show ?case
    by (cases p) (auto simp: res_simps assms(1,2))
qed

lemma record_matches_eq:
  assumes "st_inv T t" "predicates_valid (st_schema t) ps" "a \<in> st_live t"
  shows "record_matches t ps a = Inr (matches (st_schema t) ps (st_bytes t a))"
  using columns_match_eq [OF st_invD(4) [OF assms(1)] _ assms(2), of "st_bytes t a"]
    st_invD(7) [OF assms(1)] read_live [OF st_invD(6) [OF assms(1)] assms(3)]
  by (simp add: record_matches_def)

lemma live_from_subset: "set (map (record_addr b) (live_from b p)) \<subseteq> set (live_records b)"
  by (auto simp: live_from_def live_records_def live_slots_def)

lemma live_from_Cons:
  assumes "live_from b p = s # ss"
  shows "record_addr b s \<in> set (live_records b)"
proof -
  have "record_addr b s \<in> set (map (record_addr b) (live_from b p))" using assms by simp
  then show ?thesis using live_from_subset by fast
qed

lemma scan_first_spec:
  assumes inv: "st_inv T t" and ps: "predicates_valid (st_schema t) ps" and at: "it_at (st_base t) it p"
  shows "scan_first t ps it = Some (Inr (find (\<lambda>a. matches (st_schema t) ps (st_bytes t a))
    (map (record_addr (st_base t)) (live_from (st_base t) p))))"
  using at
proof (induction "live_from (st_base t) p" arbitrary: p it)
  case Nil
  have "bt_geometry (st_base t)" using st_invD(6) [OF inv] by (simp add: bt_inv_def)
  then show ?case
    using hasNext_spec [OF _ Nil.prems] Nil.hyps by (subst scan_first.simps) auto
next
  case (Cons s ss)
  let ?b = "st_base t"
  have geo: "bt_geometry ?b" using st_invD(6) [OF inv] by (simp add: bt_inv_def)
  obtain it1 p1 where h: "hasNext (blocks ?b) it = Some (Inr (True, it1))" "it_at ?b it1 p1"
      "live_from ?b p1 = s # ss"
    using hasNext_spec [OF geo Cons.prems] unfolding Cons.hyps(2) [symmetric] by auto
  obtain it2 p2 where n: "it_next (blocks ?b) it1 = Some (Inr (record_addr ?b s, it2))" "it_at ?b it2 p2"
      "live_from ?b p2 = ss"
    using next_spec [OF geo h(2,3)] by auto
  note m = record_matches_eq [OF inv ps live_from_Cons [OF h(3)]]
  show ?case
    using h(1) n(1) m Cons.hyps(1) [OF n(3) [symmetric] n(2)] Cons.hyps(2) [symmetric] n(3)
    by (subst scan_first.simps) simp
qed

lemma scan_all_spec:
  assumes inv: "st_inv T t" and ps: "predicates_valid (st_schema t) ps" and at: "it_at (st_base t) it p"
    and rs: "records_inv rs"
  obtains rs' where "scan_all t ps it rs = Some (Inr rs')"
    "data_ptrs rs' = data_ptrs rs @ filter (\<lambda>a. matches (st_schema t) ps (st_bytes t a))
      (map (record_addr (st_base t)) (live_from (st_base t) p))"
  using at rs
proof (induction "live_from (st_base t) p" arbitrary: p it rs thesis)
  case Nil
  have "bt_geometry (st_base t)" using st_invD(6) [OF inv] by (simp add: bt_inv_def)
  then have "scan_all t ps it rs = Some (Inr rs)"
    using hasNext_spec [OF _ Nil.prems(2)] Nil.hyps by (subst scan_all.simps) auto
  then show ?case using Nil.prems(1) Nil.hyps [symmetric] by simp
next
  case (Cons s ss)
  let ?b = "st_base t" and ?P = "\<lambda>a. matches (st_schema t) ps (st_bytes t a)"
  have geo: "bt_geometry ?b" using st_invD(6) [OF inv] by (simp add: bt_inv_def)
  obtain it1 p1 where h: "hasNext (blocks ?b) it = Some (Inr (True, it1))" "it_at ?b it1 p1"
      "live_from ?b p1 = s # ss"
    using hasNext_spec [OF geo Cons.prems(2)] unfolding Cons.hyps(2) [symmetric] by auto
  obtain it2 p2 where n: "it_next (blocks ?b) it1 = Some (Inr (record_addr ?b s, it2))" "it_at ?b it2 p2"
      "live_from ?b p2 = ss"
    using next_spec [OF geo h(2,3)] by auto
  note m = record_matches_eq [OF inv ps live_from_Cons [OF h(3)]]
  let ?a = "record_addr ?b s"
  obtain rs1 where rs1: "(if ?P ?a then Records_insertRecord ?a rs else Inr rs) = Inr rs1" "records_inv rs1"
      "data_ptrs rs1 = data_ptrs rs @ (if ?P ?a then [?a] else [])"
  proof (cases "?P ?a")
    case True
    then show thesis using Records_insertRecord_spec [OF Cons.prems(3), of ?a] that by auto
  next
    case False
    then show thesis using Cons.prems(3) that by auto
  qed
  obtain rs' where rs': "scan_all t ps it2 rs1 = Some (Inr rs')"
      "data_ptrs rs' = data_ptrs rs1 @ filter ?P (map (record_addr ?b) (live_from ?b p2))"
    using Cons.hyps(1) [OF n(3) [symmetric] _ n(2) rs1(2)] by blast
  have "scan_all t ps it rs = Some (Inr rs')"
    using h(1) n(1) m rs1(1) rs'(1) by (subst scan_all.simps) simp
  moreover have "data_ptrs rs' = data_ptrs rs @ filter ?P (map (record_addr ?b) (live_from ?b p))"
    using rs'(2) rs1(3) Cons.hyps(2) [symmetric] n(3) by simp
  ultimately show ?case using Cons.prems(1) by blast
qed

lemma select_scan_eq:
  assumes "st_inv T t" "predicates_valid (st_schema t) ps" "blocks (st_base t) \<noteq> []"
  shows "select_scan t ps =
    Inr (find (\<lambda>a. matches (st_schema t) ps (st_bytes t a)) (live_records (st_base t)))"
proof -
  have geo: "bt_geometry (st_base t)" using st_invD(6) [OF assms(1)] by (simp add: bt_inv_def)
  obtain it where it: "getIterator (st_base t) = Inr it" "it_at (st_base t) it 0"
    using getIterator_at [OF geo assms(3)] by metis
  show ?thesis
    using it(1) scan_first_spec [OF assms(1,2) it(2)]
    by (simp add: select_scan_def live_from_0 live_records_def)
qed

lemma select_scan_all_eq:
  assumes "st_inv T t" "predicates_valid (st_schema t) ps" "blocks (st_base t) \<noteq> []"
  obtains rs where "select_scan_all t ps = Inr rs"
    "data_ptrs rs = filter (\<lambda>a. matches (st_schema t) ps (st_bytes t a)) (live_records (st_base t))"
proof -
  have geo: "bt_geometry (st_base t)" using st_invD(6) [OF assms(1)] by (simp add: bt_inv_def)
  obtain it where it: "getIterator (st_base t) = Inr it" "it_at (st_base t) it 0"
    using getIterator_at [OF geo assms(3)] by metis
  have "records_inv (Records_new kFetchSize)"
    by (simp add: kFetchSize_def records_inv_new)
  then obtain rs where "scan_all t ps it (Records_new kFetchSize) = Some (Inr rs)"
      "data_ptrs rs = data_ptrs (Records_new kFetchSize) @
        filter (\<lambda>a. matches (st_schema t) ps (st_bytes t a))
          (map (record_addr (st_base t)) (live_from (st_base t) 0))"
    using scan_all_spec [OF assms(1,2) it(2)] by metis
  then show thesis
    using that [of rs] it(1)
    by (simp add: select_scan_all_def live_from_0 live_records_def Records_new_def)
qed

lemma select_scan_never_inserted: "blocks (st_base t) = [] \<Longrightarrow> select_scan t ps = Inl BadAccess"
  by (simp add: select_scan_def getIterator_def)

subsection \<open>By an index\<close>

lemma find_Some_matches: "find P xs = Some a \<Longrightarrow> a \<in> set xs \<and> P a"
  by (metis find_Some_iff nth_mem)

lemma predicate_symbol_eq:
  assumes "column_count s < 2 ^ 64" "predicates_valid s ps" "cols_valid s ids"
  shows "getPredicateColumnSymbol s ps = size_t_symbol ids \<longleftrightarrow> map fst ps = ids"
proof -
  have "cols_valid s (map fst ps)"
    using assms(2) by (auto simp: predicates_valid_def cols_valid_def)
  then show ?thesis
    unfolding getPredicateColumnSymbol_def
    using assms by (intro size_t_symbol_inj cols_valid_small)
qed

lemma primary_key_matches:
  assumes "schema_inv s" "predicates_valid s ps" "map fst ps = primary_cols s" "0 < primary_key_length s"
    and "getSchemaSize s \<le> length data"
  shows "primary_key_of s data = predicate_key s ps \<longleftrightarrow> matches s ps data"
  using key_of_eq_predicate_key [OF assms(1,2,5)] assms(3,4) by (simp add: primary_key_of_def)

text \<open>What a select of one record gives.\<close>

definition selects :: "('q, 'h, 'm) schema_table \<Rightarrow> column_predicates \<Rightarrow> addr option \<Rightarrow> bool" where
  "selects t ps r \<longleftrightarrow>
     (case r of
        None \<Rightarrow> \<forall>a \<in> st_live t. \<not> matches (st_schema t) ps (st_bytes t a)
      | Some a \<Rightarrow> a \<in> st_live t \<and> matches (st_schema t) ps (st_bytes t a))"

definition indexed :: "('q, 'h, 'm) schema_table \<Rightarrow> column_predicates \<Rightarrow> bool" where
  "indexed t ps \<longleftrightarrow>
     getPredicateColumnSymbol (st_schema t) ps \<in>
       insert (fst (primary_index_ptr t)) (fst ` set (secondary_index_ptrs t))"

lemma selectRecord_primary:
  assumes inv: "st_inv T t" and ps: "predicates_valid (st_schema t) ps" "ps \<noteq> []"
    and smb: "getPredicateColumnSymbol (st_schema t) ps = fst (primary_index_ptr t)"
  obtains h where "snd (primary_index_ptr t) = Some h"
    "SchemaTable_selectRecord T ps t =
       Inr (TBBUniqueIndex_searchRecord T h (predicate_key (st_schema t) ps))"
    "selects t ps (TBBUniqueIndex_searchRecord T h (predicate_key (st_schema t) ps))"
proof (cases "snd (primary_index_ptr t)")
  case None
  then have "size_t_symbol (map fst ps) = []"
    using primary_ok_None [OF st_invD(8) [OF inv]] smb by (simp add: getPredicateColumnSymbol_def)
  then have "length (size_t_symbol (map fst ps)) = 0" by simp
  then show thesis using ps(2) by simp
next
  case (Some h)
  let ?s = "st_schema t"
  note i = st_invD [OF inv] and p = primary_ok_Some [OF st_invD(8) [OF inv] Some]
  have "map fst ps = primary_cols ?s"
    using predicate_symbol_eq [OF i(5) ps(1) primary_cols_valid [OF i(4)]] smb p(1)
    by (simp add: primary_symbol [OF i(4)])
  then have m: "primary_key_of ?s (st_bytes t a) = predicate_key ?s ps \<longleftrightarrow> matches ?s ps (st_bytes t a)" for a
    using primary_key_matches [OF i(4) ps(1) _ p(2)] i(7) by simp
  have "SchemaTable_selectRecord T ps t = Inr (TBBUniqueIndex_searchRecord T h (predicate_key ?s ps))"
    using smb Some ps(1) by (simp add: SchemaTable_selectRecord_def Let_def res_simps i(4) primary_search_def)
  moreover have "selects t ps (TBBUniqueIndex_searchRecord T h (predicate_key ?s ps))"
  proof (cases "TBBUniqueIndex_searchRecord T h (predicate_key ?s ps)")
    case None
    then have "predicate_key ?s ps \<notin> (\<lambda>a. primary_key_of ?s (st_bytes t a)) ` st_live t"
      using unique_follows_None [OF p(3)] by simp
    then have "\<not> matches ?s ps (st_bytes t a)" if "a \<in> st_live t" for a
      using that m by (metis (no_types, lifting) image_eqI)
    then show ?thesis using None by (simp add: selects_def)
  next
    case (Some a)
    then show ?thesis
      using unique_follows_iff [OF p(3), of "predicate_key ?s ps" a] m by (simp add: selects_def)
  qed
  ultimately show thesis using that Some by blast
qed

lemma secondary_entry:
  assumes inv: "st_inv T t" and ps: "predicates_valid (st_schema t) ps"
    and m: "map_of (secondary_index_ptrs t) (getPredicateColumnSymbol (st_schema t) ps) = Some m"
  shows "multi_follows (mm_range T m) (st_live t) (\<lambda>a. key_of (st_schema t) (map fst ps) (st_bytes t a))"
    and "key_of (st_schema t) (map fst ps) (st_bytes t a) = predicate_key (st_schema t) ps \<longleftrightarrow>
      matches (st_schema t) ps (st_bytes t a)"
proof -
  note i = st_invD [OF inv]
  let ?smb = "getPredicateColumnSymbol (st_schema t) ps"
  have e: "secondary_ok T (st_schema t) (st_base t) (?smb, m)"
    using i(9) map_of_SomeD [OF m] by simp
  then have "cols_valid (st_schema t) (index_columns ?smb)" "?smb = size_t_symbol (index_columns ?smb)"
    unfolding secondary_ok_def fst_conv by blast+
  then have "map fst ps = index_columns ?smb"
    using predicate_symbol_eq [OF i(5) ps] by blast
  then show "multi_follows (mm_range T m) (st_live t) (\<lambda>a. key_of (st_schema t) (map fst ps) (st_bytes t a))"
    using e by (simp add: secondary_ok_def)
  show "key_of (st_schema t) (map fst ps) (st_bytes t a) = predicate_key (st_schema t) ps \<longleftrightarrow>
      matches (st_schema t) ps (st_bytes t a)"
    using key_of_eq_predicate_key [OF i(4) ps] i(7) by simp
qed

text \<open>Whichever way it is done, a select finds a matching record exactly when there is one.\<close>

lemma SchemaTable_selectRecord_spec:
  assumes inv: "st_inv T t" and ps: "predicates_valid (st_schema t) ps" "ps \<noteq> []"
    and blk: "blocks (st_base t) \<noteq> [] \<or> indexed t ps"
  obtains r where "SchemaTable_selectRecord T ps t = Inr r" "selects t ps r"
proof (cases "getPredicateColumnSymbol (st_schema t) ps = fst (primary_index_ptr t)")
  case True
  then show thesis using selectRecord_primary [OF inv ps] that by metis
next
  case False
  let ?s = "st_schema t" and ?smb = "getPredicateColumnSymbol (st_schema t) ps"
  note i = st_invD [OF inv]
  show thesis
  proof (cases "map_of (secondary_index_ptrs t) ?smb")
    case None
    then have "blocks (st_base t) \<noteq> []"
      using blk False by (auto simp: indexed_def map_of_eq_None_iff)
    then have "SchemaTable_selectRecord T ps t =
        Inr (find (\<lambda>a. matches ?s ps (st_bytes t a)) (live_records (st_base t)))"
      using False None select_scan_eq [OF inv ps(1)] by (simp add: SchemaTable_selectRecord_def Let_def)
    moreover have "selects t ps (find (\<lambda>a. matches ?s ps (st_bytes t a)) (live_records (st_base t)))"
      by (auto simp: selects_def find_None_iff dest: find_Some_matches split: option.splits)
    ultimately show thesis using that by blast
  next
    case (Some m)
    note e = secondary_entry [OF inv ps(1) Some]
    have "SchemaTable_selectRecord T ps t = Inr (TBBMultiIndex_searchRecord T m (predicate_key ?s ps))"
      using False Some ps(1) by (simp add: SchemaTable_selectRecord_def Let_def res_simps i(4))
    moreover have "selects t ps (TBBMultiIndex_searchRecord T m (predicate_key ?s ps))"
      using tbb_multi.search_follows [OF i(3) e(1), of "predicate_key ?s ps"] e(2)
      by (simp add: selects_def split: option.splits)
    ultimately show thesis using that by blast
  qed
qed

lemma SchemaTable_selectRecords_spec:
  assumes inv: "st_inv T t" and ps: "predicates_valid (st_schema t) ps"
    and blk: "blocks (st_base t) \<noteq> [] \<or>
      getPredicateColumnSymbol (st_schema t) ps \<in> fst ` set (secondary_index_ptrs t)"
  obtains rs where "SchemaTable_selectRecords T ps t = Inr rs" "distinct (data_ptrs rs)"
    "set (data_ptrs rs) = {a \<in> st_live t. matches (st_schema t) ps (st_bytes t a)}"
proof (cases "map_of (secondary_index_ptrs t) (getPredicateColumnSymbol (st_schema t) ps)")
  case None
  then have b: "blocks (st_base t) \<noteq> []" using blk by (auto simp: map_of_eq_None_iff)
  have geo: "bt_geometry (st_base t)" using st_invD(6) [OF inv] by (simp add: bt_inv_def)
  obtain rs where rs: "select_scan_all t ps = Inr rs"
    "data_ptrs rs = filter (\<lambda>a. matches (st_schema t) ps (st_bytes t a)) (live_records (st_base t))"
    using select_scan_all_eq [OF inv ps b] by metis
  show thesis
    using that [of rs] None rs distinct_live_records [OF geo]
    by (auto simp: SchemaTable_selectRecords_def)
next
  case (Some m)
  let ?s = "st_schema t"
  note i = st_invD [OF inv] and e = secondary_entry [OF inv ps Some]
  have "SchemaTable_selectRecords T ps t = Inr (Records_of (mm_range T m (predicate_key ?s ps)))"
    using Some ps tbb_multi.search_all_entries [OF i(3)]
    by (simp add: SchemaTable_selectRecords_def res_simps i(4))
  then show thesis
    using that e by (auto simp: multi_follows_def Records_of_def)
qed

lemma select_one_eq:
  assumes "st_inv T t" "i < column_count (st_schema t)" "col_size (st_schema t) i \<le> length v"
  shows "SchemaTable_selectRecord_one T \<lparr>cp_column_id = i, cp_value = v\<rparr> t =
    SchemaTable_selectRecord T [(i, v)] t"
  using assms st_invD(4) [OF assms(1)]
  by (simp add: SchemaTable_selectRecord_one_def SchemaTable_selectRecord_def getPredicateColumnSymbol_def
      res_simps Let_def split: option.split)

end
