(* ===== verification/TableMap.thy ===== *)
theory TableMap
  imports SchemaTable
begin

text \<open>
  The abstraction of a table that has a primary index: the map from primary keys to the bytes of
  the records (\<open>st_map\<close>). Each operation of storage/SchemaTable.cc refines an operation on maps, so the
  transactions above it are reasoned about without addresses, slots and index entries.
\<close>

section \<open>Tables as maps\<close>

definition has_primary :: "('q, 'h, 'm) schema_table \<Rightarrow> bool" where
  "has_primary t \<longleftrightarrow> snd (primary_index_ptr t) \<noteq> None"

abbreviation record_key :: "('q, 'h, 'm) schema_table \<Rightarrow> addr \<Rightarrow> bytes" where
  "record_key t a \<equiv> primary_key_of (st_schema t) (st_bytes t a)"

lemma st_map_iff:
  assumes "st_inv T t" "has_primary t"
  shows "st_map T t k = Some d \<longleftrightarrow> (\<exists>a \<in> st_live t. record_key t a = k \<and> st_bytes t a = d)"
proof -
  obtain h where h: "snd (primary_index_ptr t) = Some h"
    using assms(2) by (auto simp: has_primary_def)
  note p = primary_ok_Some(3) [OF st_invD(8) [OF assms(1)] h]
  have "st_map T t k = Some d \<longleftrightarrow> (\<exists>a. TBBUniqueIndex_searchRecord T h k = Some a \<and> st_bytes t a = d)"
    by (auto simp: st_map_def h)
  then show ?thesis unfolding unique_follows_iff [OF p] by blast
qed

lemma st_map_at:
  "st_inv T t \<Longrightarrow> has_primary t \<Longrightarrow> a \<in> st_live t \<Longrightarrow> st_map T t (record_key t a) = Some (st_bytes t a)"
  by (auto simp: st_map_iff)

lemma record_key_inj:
  assumes "st_inv T t" "has_primary t" "a \<in> st_live t" "b \<in> st_live t" "record_key t a = record_key t b"
  shows "a = b"
proof -
  obtain h where h: "snd (primary_index_ptr t) = Some h"
    using assms(2) by (auto simp: has_primary_def)
  show ?thesis
    using unique_follows_inj [OF primary_ok_Some(3) [OF st_invD(8) [OF assms(1)] h]] assms(3-5)
    by (auto simp: inj_on_def)
qed

lemma map_eqI: "(\<And>k d. m k = Some d \<longleftrightarrow> m' k = Some d) \<Longrightarrow> m = m'"
  by (metis ext not_None_eq)

lemma st_map_None_iff:
  assumes "st_inv T t" "has_primary t"
  shows "st_map T t k = None \<longleftrightarrow> k \<notin> record_key t ` st_live t"
proof -
  have "st_map T t k \<noteq> None \<longleftrightarrow> (\<exists>d. st_map T t k = Some d)" by auto
  then show ?thesis unfolding st_map_iff [OF assms] by auto
qed

lemma st_map_added:
  assumes inv: "st_inv T t" "has_primary t" and inv': "st_inv T t'" "has_primary t'"
    and added: "store_added (st_base t) a (take (getSchemaSize (st_schema t)) data) (st_base t')"
    and s: "st_schema t' = st_schema t"
    and new: "primary_key_of (st_schema t) data \<notin> record_key t ` st_live t"
  shows "st_map T t' =
    (st_map T t)(primary_key_of (st_schema t) data \<mapsto> take (getSchemaSize (st_schema t)) data)"
proof (rule map_eqI)
  fix k d
  let ?s = "st_schema t" and ?v = "take (getSchemaSize (st_schema t)) data"
  have a: "a \<notin> st_live t" "st_live t' = insert a (st_live t)" "st_bytes t' a = ?v"
    "\<And>x. x \<in> st_live t \<Longrightarrow> st_bytes t' x = st_bytes t x"
    using added by (auto simp: store_added_def)
  have "st_map T t' k = Some d \<longleftrightarrow>
      primary_key_of ?s data = k \<and> ?v = d \<or> (\<exists>x \<in> st_live t. record_key t x = k \<and> st_bytes t x = d)"
    unfolding st_map_iff [OF inv'] s a(2)
    using a(1,3,4) primary_key_of_take [OF st_invD(4) [OF inv(1)]] by auto
  also have "\<dots> \<longleftrightarrow> ((st_map T t)(primary_key_of ?s data \<mapsto> ?v)) k = Some d"
  proof -
    have "record_key t x \<noteq> primary_key_of ?s data" if "x \<in> st_live t" for x
      using new that by (metis (no_types, lifting) image_eqI)
    then show ?thesis using st_map_iff [OF inv, of k d] by auto
  qed
  finally show "st_map T t' k = Some d \<longleftrightarrow>
      ((st_map T t)(primary_key_of ?s data \<mapsto> ?v)) k = Some d" .
qed

lemma st_map_removed:
  assumes inv: "st_inv T t" "has_primary t" and inv': "st_inv T t'" "has_primary t'"
    and removed: "store_removed (st_base t) a (st_base t')" and s: "st_schema t' = st_schema t"
  shows "st_map T t' = (st_map T t)(record_key t a := None)"
proof (rule map_eqI)
  fix k d
  have a: "a \<in> st_live t" "st_live t' = st_live t - {a}"
    "\<And>x. x \<in> st_live t \<Longrightarrow> st_bytes t' x = st_bytes t x"
    using removed by (auto simp: store_removed_def)
  have "st_map T t' k = Some d \<longleftrightarrow>
      (\<exists>x \<in> st_live t - {a}. record_key t x = k \<and> st_bytes t x = d)"
    unfolding st_map_iff [OF inv'] s a(2) using a(3) by auto
  also have "\<dots> \<longleftrightarrow> k \<noteq> record_key t a \<and> (\<exists>x \<in> st_live t. record_key t x = k \<and> st_bytes t x = d)"
    using record_key_inj [OF inv] a(1) by blast
  also have "\<dots> \<longleftrightarrow> ((st_map T t)(record_key t a := None)) k = Some d"
    unfolding st_map_iff [OF inv, symmetric] by simp
  finally show "st_map T t' k = Some d \<longleftrightarrow> ((st_map T t)(record_key t a := None)) k = Some d" .
qed

lemma st_map_changed:
  assumes inv: "st_inv T t" "has_primary t" and inv': "st_inv T t'" "has_primary t'"
    and changed: "store_changed (st_base t) a v (st_base t')" and s: "st_schema t' = st_schema t"
    and key: "primary_key_of (st_schema t) v = record_key t a"
  shows "st_map T t' = (st_map T t)(record_key t a \<mapsto> v)"
proof (rule map_eqI)
  fix k d
  have a: "a \<in> st_live t" "st_live t' = st_live t" "st_bytes t' a = v"
    "\<And>x. x \<in> st_live t \<Longrightarrow> x \<noteq> a \<Longrightarrow> st_bytes t' x = st_bytes t x"
    using changed by (auto simp: store_changed_def)
  have split: "(\<exists>x \<in> st_live t. P x) \<longleftrightarrow> P a \<or> (\<exists>x \<in> st_live t - {a}. P x)" for P
    using a(1) by blast
  have "st_map T t' k = Some d \<longleftrightarrow> record_key t a = k \<and> v = d \<or>
      (\<exists>x \<in> st_live t - {a}. record_key t x = k \<and> st_bytes t x = d)"
    unfolding st_map_iff [OF inv'] s a(2) split [of "\<lambda>x. primary_key_of (st_schema t) (st_bytes t' x) = k \<and> st_bytes t' x = d"]
    using a(3,4) key by auto
  also have "\<dots> \<longleftrightarrow> record_key t a = k \<and> v = d \<or>
      k \<noteq> record_key t a \<and> (\<exists>x \<in> st_live t. record_key t x = k \<and> st_bytes t x = d)"
    using record_key_inj [OF inv] a(1) by blast
  also have "\<dots> \<longleftrightarrow> ((st_map T t)(record_key t a \<mapsto> v)) k = Some d"
    unfolding st_map_iff [OF inv, symmetric] by auto
  finally show "st_map T t' k = Some d \<longleftrightarrow> ((st_map T t)(record_key t a \<mapsto> v)) k = Some d" .
qed

section \<open>The operations on maps\<close>

definition table_row :: "schema \<Rightarrow> bytes \<Rightarrow> bytes" where
  "table_row s data = take (getSchemaSize s) data"

definition same_shape :: "('q, 'h, 'm) schema_table \<Rightarrow> ('q, 'h, 'm) schema_table \<Rightarrow> bool" where
  "same_shape t t' \<longleftrightarrow>
     st_schema t' = st_schema t \<and> has_primary t' = has_primary t \<and>
     map fst (secondary_index_ptrs t') = map fst (secondary_index_ptrs t)"

lemma same_shape_refl [simp]: "same_shape t t"
  by (simp add: same_shape_def)

lemma same_shape_trans: "same_shape t t' \<Longrightarrow> same_shape t' t'' \<Longrightarrow> same_shape t t''"
  by (simp add: same_shape_def)

lemma insert_refines:
  assumes inv: "st_inv T t" "has_primary t" and len: "getSchemaSize (st_schema t) \<le> length data"
    and new: "st_map T t (primary_key_of (st_schema t) data) = None"
  obtains t' where "SchemaTable_insertRecord T data t = Inr t'" "st_inv T t'" "same_shape t t'"
    "st_map T t' = (st_map T t)(primary_key_of (st_schema t) data \<mapsto> table_row (st_schema t) data)"
proof -
  have fresh: "primary_key_of (st_schema t) data \<notin> record_key t ` st_live t"
    using new unfolding st_map_None_iff [OF inv] .
  obtain a t' where t': "SchemaTable_insertRecord T data t = Inr t'" "st_inv T t'"
    "store_added (st_base t) a (take (getSchemaSize (st_schema t)) data) (st_base t')"
    "st_schema t' = st_schema t" "snd (primary_index_ptr t') = None \<longleftrightarrow> snd (primary_index_ptr t) = None"
    "map fst (secondary_index_ptrs t') = map fst (secondary_index_ptrs t)"
    using SchemaTable_insertRecord_spec [OF inv(1) len fresh] by metis
  have hp: "has_primary t'" using inv(2) t'(5) by (simp add: has_primary_def)
  show thesis
    using that [OF t'(1,2)] st_map_added [OF inv t'(2) hp t'(3,4) fresh] t'(4,6) hp inv(2)
    by (simp add: same_shape_def table_row_def)
qed

lemma delete_refines:
  assumes inv: "st_inv T t" "has_primary t" and a: "a \<in> st_live t" and sole: "sole_in_indexes t a"
  obtains t' where "SchemaTable_deleteRecord T (Some a) t = Inr t'" "st_inv T t'" "same_shape t t'"
    "st_map T t' = (st_map T t)(record_key t a := None)"
proof -
  obtain t' where t': "SchemaTable_deleteRecord T (Some a) t = Inr t'" "st_inv T t'"
    "store_removed (st_base t) a (st_base t')"
    "st_schema t' = st_schema t" "snd (primary_index_ptr t') = None \<longleftrightarrow> snd (primary_index_ptr t) = None"
    "map fst (secondary_index_ptrs t') = map fst (secondary_index_ptrs t)"
    using SchemaTable_deleteRecord_spec [OF inv(1) a sole] by metis
  have hp: "has_primary t'" using inv(2) t'(5) by (simp add: has_primary_def)
  show thesis
    using that [OF t'(1,2)] st_map_removed [OF inv t'(2) hp t'(3,4)] t'(4,6) hp inv(2)
    by (simp add: same_shape_def)
qed

lemma update_refines:
  assumes inv: "st_inv T t" "has_primary t" and a: "a \<in> st_live t"
    and i: "i < column_count (st_schema t)" "col_size (st_schema t) i \<le> length v" and un: "unindexed t i"
  obtains t' where "update_column a (i, v) t = Inr t'" "st_inv T t'" "same_shape t t'"
    "st_map T t' = (st_map T t)(record_key t a \<mapsto>
       set_col (st_schema t) i (take (col_size (st_schema t) i) v) (st_bytes t a))"
    "secondary_index_ptrs t' = secondary_index_ptrs t" "st_live t' = st_live t"
    "\<And>x ids. x \<in> st_live t \<Longrightarrow> cols_valid (st_schema t) ids \<Longrightarrow> i \<notin> set ids \<Longrightarrow>
       key_of (st_schema t) ids (st_bytes t' x) = key_of (st_schema t) ids (st_bytes t x)"
proof -
  let ?s = "st_schema t" and ?v = "take (col_size (st_schema t) i) v"
  note i' = st_invD [OF inv(1)]
  obtain t' where t': "update_column a (i, v) t = Inr t'" "st_inv T t'"
    "store_changed (st_base t) a (set_col ?s i ?v (st_bytes t a)) (st_base t')"
    "t' = t\<lparr>st_base := st_base t'\<rparr>"
    using update_column_spec [OF inv(1) a i un] by metis
  have same: "st_schema t' = ?s" "primary_index_ptr t' = primary_index_ptr t"
      "secondary_index_ptrs t' = secondary_index_ptrs t"
    using arg_cong [OF t'(4), of st_schema] arg_cong [OF t'(4), of primary_index_ptr]
      arg_cong [OF t'(4), of secondary_index_ptrs] by simp_all
  have hp: "has_primary t'" using inv(2) same by (simp add: has_primary_def)
  obtain h where h: "snd (primary_index_ptr t) = Some h"
    using inv(2) by (auto simp: has_primary_def)
  have set_key: "key_of ?s ids (set_col ?s i ?v (st_bytes t x)) = key_of ?s ids (st_bytes t x)"
    if "cols_valid ?s ids" "i \<notin> set ids" for ids x
    using key_of_set_col_other [OF i'(4) i(1) that] i'(7) by simp
  have "primary_key_of ?s (set_col ?s i ?v (st_bytes t a)) = record_key t a"
    using set_key [OF primary_cols_valid [OF i'(4)]] un h primary_ok_Some(2) [OF i'(8) h]
    by (simp add: primary_key_of_def unindexed_def)
  note m = st_map_changed [OF inv t'(2) hp t'(3) same(1) this]
  have keys: "key_of ?s ids (st_bytes t' x) = key_of ?s ids (st_bytes t x)"
    if "x \<in> st_live t" "cols_valid ?s ids" "i \<notin> set ids" for x ids
    using set_key [OF that(2,3)] t'(3) that(1) by (cases "x = a") (auto simp: store_changed_def)
  have "same_shape t t'" using same hp inv(2) by (simp add: same_shape_def)
  moreover have "st_live t' = st_live t" using t'(3) by (simp add: store_changed_def)
  ultimately show thesis using that [OF t'(1,2) _ m same(3)] keys by blast
qed

text \<open>A select by the whole primary key is a lookup in the map.\<close>

lemma select_refines:
  assumes inv: "st_inv T t" "has_primary t" and ps: "predicates_valid (st_schema t) ps" "ps \<noteq> []"
    and cols: "map fst ps = primary_cols (st_schema t)"
  obtains r where "SchemaTable_selectRecord T ps t = Inr r"
    "map_option (st_bytes t) r = st_map T t (predicate_key (st_schema t) ps)"
    "\<And>a. r = Some a \<Longrightarrow> a \<in> st_live t \<and> record_key t a = predicate_key (st_schema t) ps"
proof -
  note i = st_invD [OF inv(1)]
  obtain h0 where h0: "snd (primary_index_ptr t) = Some h0"
    using inv(2) by (auto simp: has_primary_def)
  note p = primary_ok_Some [OF i(8) h0]
  have "getPredicateColumnSymbol (st_schema t) ps = fst (primary_index_ptr t)"
    using p(1) cols by (simp add: getPredicateColumnSymbol_def primary_symbol [OF i(4)])
  then have sel: "SchemaTable_selectRecord T ps t =
      Inr (TBBUniqueIndex_searchRecord T h0 (predicate_key (st_schema t) ps))"
    using selectRecord_primary [OF inv(1) ps] h0 by (metis option.inject)
  show thesis
  proof (rule that [OF sel])
    show "map_option (st_bytes t) (TBBUniqueIndex_searchRecord T h0 (predicate_key (st_schema t) ps)) =
        st_map T t (predicate_key (st_schema t) ps)"
      by (simp add: st_map_def h0)
    show "a \<in> st_live t \<and> record_key t a = predicate_key (st_schema t) ps"
      if "TBBUniqueIndex_searchRecord T h0 (predicate_key (st_schema t) ps) = Some a" for a
      using that unique_follows_iff [OF p(3)] by blast
  qed
qed

end
