(* ===== verification/StorageManager.thy ===== *)
theory StorageManager
  imports TableMap
begin

text \<open>
  storage/StorageManager.h: the tables of the database by number. Every operation looks the table up
  with \<open>at\<close>, which throws for a number that was not registered, and passes the call on. The tables
  are separate objects, so an operation on one leaves the others as they are.
\<close>

section \<open>Operations\<close>

type_synonym ('q, 'h, 'm) storage_manager = "nat \<Rightarrow> ('q, 'h, 'm) schema_table option"

definition StorageManager_new :: "('q, 'h, 'm) storage_manager" where
  "StorageManager_new = Map.empty"

definition table_at :: "('q, 'h, 'm) storage_manager \<Rightarrow> nat \<Rightarrow> ('q, 'h, 'm) schema_table result" where
  "table_at sm i = (case sm i of None \<Rightarrow> Inl OutOfRange | Some t \<Rightarrow> Inr t)"

definition with_table ::
  "nat \<Rightarrow> (('q, 'h, 'm) schema_table \<Rightarrow> ('q, 'h, 'm) schema_table result) \<Rightarrow>
   ('q, 'h, 'm) storage_manager \<Rightarrow> ('q, 'h, 'm) storage_manager result" where
  "with_table i f sm = bnd (table_at sm i) (\<lambda>t. bnd (f t) (\<lambda>t'. Inr (sm(i \<mapsto> t'))))"

definition registerTable ::
  "('q, 'h, 'm) tbb \<Rightarrow> nat \<Rightarrow> schema \<Rightarrow> ('q, 'h, 'm) storage_manager \<Rightarrow> ('q, 'h, 'm) storage_manager result" where
  "registerTable T i s sm = bnd (SchemaTable_new T s) (\<lambda>t. Inr (sm(i \<mapsto> t)))"

definition registerTable_indexed ::
  "('q, 'h, 'm) tbb \<Rightarrow> nat \<Rightarrow> schema \<Rightarrow> index_info list \<Rightarrow> nat \<Rightarrow>
   ('q, 'h, 'm) storage_manager \<Rightarrow> ('q, 'h, 'm) storage_manager result" where
  "registerTable_indexed T i s indexes n sm =
     bnd (SchemaTable_new_indexed T s indexes n) (\<lambda>t. Inr (sm(i \<mapsto> t)))"

definition dropAllTables :: "('q, 'h, 'm) storage_manager \<Rightarrow> ('q, 'h, 'm) storage_manager" where
  "dropAllTables sm = Map.empty"

definition sm_getTableSize :: "('q, 'h, 'm) storage_manager \<Rightarrow> nat \<Rightarrow> nat result" where
  "sm_getTableSize sm i = bnd (table_at sm i) (\<lambda>t. Inr (getTableSize (st_base t)))"

definition sm_getSchemaTableIterator :: "('q, 'h, 'm) storage_manager \<Rightarrow> nat \<Rightarrow> table_iterator result" where
  "sm_getSchemaTableIterator sm i = bnd (table_at sm i) SchemaTable_getSchemaTableIterator"

definition sm_insertData ::
  "('q, 'h, 'm) tbb \<Rightarrow> nat \<Rightarrow> bytes \<Rightarrow> ('q, 'h, 'm) storage_manager \<Rightarrow> ('q, 'h, 'm) storage_manager result" where
  "sm_insertData T i data = with_table i (SchemaTable_insertRecord T data)"

definition sm_insertRecord ::
  "('q, 'h, 'm) tbb \<Rightarrow> nat \<Rightarrow> local_record \<Rightarrow> ('q, 'h, 'm) storage_manager \<Rightarrow> ('q, 'h, 'm) storage_manager result" where
  "sm_insertRecord T i rec = with_table i (SchemaTable_insertRecord_rec T rec)"

definition sm_deleteRecord ::
  "('q, 'h, 'm) tbb \<Rightarrow> nat \<Rightarrow> addr option \<Rightarrow> ('q, 'h, 'm) storage_manager \<Rightarrow> ('q, 'h, 'm) storage_manager result" where
  "sm_deleteRecord T i record = with_table i (SchemaTable_deleteRecord T record)"

definition sm_updateRecord_one ::
  "nat \<Rightarrow> addr option \<Rightarrow> column_predicate \<Rightarrow> ('q, 'h, 'm) storage_manager \<Rightarrow> ('q, 'h, 'm) storage_manager result" where
  "sm_updateRecord_one i record param = with_table i (SchemaTable_updateRecord_one record param)"

definition sm_updateRecord ::
  "nat \<Rightarrow> addr option \<Rightarrow> column_predicates \<Rightarrow> ('q, 'h, 'm) storage_manager \<Rightarrow> ('q, 'h, 'm) storage_manager result" where
  "sm_updateRecord i record params = with_table i (SchemaTable_updateRecord record params)"

definition sm_updateRecords_one ::
  "nat \<Rightarrow> records \<Rightarrow> nat \<Rightarrow> column_predicate \<Rightarrow>
   ('q, 'h, 'm) storage_manager \<Rightarrow> ('q, 'h, 'm) storage_manager result" where
  "sm_updateRecords_one i rs r param = with_table i (SchemaTable_updateRecords_one rs r param)"

definition sm_updateRecords ::
  "nat \<Rightarrow> records \<Rightarrow> nat \<Rightarrow> column_predicates \<Rightarrow>
   ('q, 'h, 'm) storage_manager \<Rightarrow> ('q, 'h, 'm) storage_manager result" where
  "sm_updateRecords i rs r params = with_table i (SchemaTable_updateRecords rs r params)"

definition sm_selectRecord_key ::
  "('q, 'h, 'm) tbb \<Rightarrow> nat \<Rightarrow> bytes \<Rightarrow> ('q, 'h, 'm) storage_manager \<Rightarrow> addr option result" where
  "sm_selectRecord_key T i key sm = bnd (table_at sm i) (SchemaTable_selectRecord_key T key)"

definition sm_selectRecord_one ::
  "('q, 'h, 'm) tbb \<Rightarrow> nat \<Rightarrow> column_predicate \<Rightarrow> ('q, 'h, 'm) storage_manager \<Rightarrow> addr option result" where
  "sm_selectRecord_one T i param sm = bnd (table_at sm i) (SchemaTable_selectRecord_one T param)"

definition sm_selectRecord ::
  "('q, 'h, 'm) tbb \<Rightarrow> nat \<Rightarrow> column_predicates \<Rightarrow> ('q, 'h, 'm) storage_manager \<Rightarrow> addr option result" where
  "sm_selectRecord T i params sm = bnd (table_at sm i) (SchemaTable_selectRecord T params)"

definition sm_selectRecords_one ::
  "('q, 'h, 'm) tbb \<Rightarrow> nat \<Rightarrow> column_predicate \<Rightarrow> ('q, 'h, 'm) storage_manager \<Rightarrow> records result" where
  "sm_selectRecords_one T i param sm = bnd (table_at sm i) (SchemaTable_selectRecords_one T param)"

definition sm_selectRecords ::
  "('q, 'h, 'm) tbb \<Rightarrow> nat \<Rightarrow> column_predicates \<Rightarrow> ('q, 'h, 'm) storage_manager \<Rightarrow> records result" where
  "sm_selectRecords T i params sm = bnd (table_at sm i) (SchemaTable_selectRecords T params)"

text \<open>The number \<open>getStatisticsString\<close> adds up, in \<open>uint64_t\<close>, over the tables in the order of the
  map (\<open>ids\<close>).\<close>

definition database_size :: "('q, 'h, 'm) storage_manager \<Rightarrow> nat list \<Rightarrow> 64 word" where
  "database_size sm ids =
     fold (\<lambda>i n. case sm i of None \<Rightarrow> n
                 | Some t \<Rightarrow> n + of_nat (SchemaTable_getRecordSize t * getTableSize (st_base t))) ids 0"

text \<open>What a caller reads through a \<open>ConstRecord\<close> of table \<open>i\<close>: the bytes of the column, as
  \<open>getColumn(column_id)\<close> points to them.\<close>

definition sm_readColumn ::
  "('q, 'h, 'm) storage_manager \<Rightarrow> nat \<Rightarrow> addr option \<Rightarrow> nat \<Rightarrow> bytes result" where
  "sm_readColumn sm i record col =
     (case record of
        None \<Rightarrow> Inl NullPointer
      | Some a \<Rightarrow>
          bnd (table_at sm i) (\<lambda>t.
          bnd (BaseTable_read (st_base t) a) (\<lambda>data. column_bytes (st_schema t) data col)))"

section \<open>The invariant\<close>

definition sm_inv :: "('q, 'h, 'm) tbb \<Rightarrow> ('q, 'h, 'm) storage_manager \<Rightarrow> bool" where
  "sm_inv T sm \<longleftrightarrow> (\<forall>i t. sm i = Some t \<longrightarrow> st_inv T t)"

lemma table_at_eq [res_simps]: "sm i = Some t \<Longrightarrow> table_at sm i = Inr t"
  by (simp add: table_at_def)

lemma table_at_unregistered: "sm i = None \<Longrightarrow> table_at sm i = Inl OutOfRange"
  by (simp add: table_at_def)

lemma with_table_eq [res_simps]:
  "sm i = Some t \<Longrightarrow> f t = Inr t' \<Longrightarrow> with_table i f sm = Inr (sm(i \<mapsto> t'))"
  by (simp add: with_table_def res_simps)

lemma with_table_unregistered: "sm i = None \<Longrightarrow> with_table i f sm = Inl OutOfRange"
  by (simp add: with_table_def table_at_unregistered)

lemma with_table_frame:
  "with_table i f sm = Inr sm' \<Longrightarrow> j \<noteq> i \<Longrightarrow> sm' j = sm j"
  by (auto simp: with_table_def)

lemma sm_inv_new [inv_intros]: "sm_inv T StorageManager_new"
  by (simp add: sm_inv_def StorageManager_new_def)

lemma sm_inv_at: "sm_inv T sm \<Longrightarrow> sm i = Some t \<Longrightarrow> st_inv T t"
  by (auto simp: sm_inv_def)

lemma sm_inv_update [inv_intros]: "sm_inv T sm \<Longrightarrow> st_inv T t \<Longrightarrow> sm_inv T (sm(i \<mapsto> t))"
  by (auto simp: sm_inv_def)

lemma sm_readColumn_eq:
  assumes "sm i = Some t" "st_inv T t" "a \<in> st_live t" "col < column_count (st_schema t)"
  shows "sm_readColumn sm i (Some a) col = Inr (col_data (st_schema t) col (st_bytes t a))"
  using read_live [OF st_invD(6) [OF assms(2)] assms(3)] st_invD(4,7) [OF assms(2)] assms(1,4)
  by (simp add: sm_readColumn_def res_simps)

end
