(* ===== verification/Database.thy ===== *)
theory Database
  imports StorageManager
begin

text \<open>
  The database as a client of the storage manager sees it: maps from primary keys to the bytes of the
  records, one for each table with a primary index, and a multiset of records for a table without one.
  A registry says which tables there are. For each operation of storage/StorageManager.h one lemma
  says what it does to these maps, so that a transaction is followed without addresses and indexes.
\<close>

section \<open>Tables by number\<close>

definition table_ok ::
  "('q, 'h, 'm) storage_manager \<Rightarrow> nat \<Rightarrow> schema \<Rightarrow> bytes list \<Rightarrow> bool" where
  "table_ok sm i s smbs \<longleftrightarrow>
     (\<exists>t. sm i = Some t \<and> st_schema t = s \<and> has_primary t \<and> map fst (secondary_index_ptrs t) = smbs)"

definition table_map :: "('q, 'h, 'm) tbb \<Rightarrow> ('q, 'h, 'm) storage_manager \<Rightarrow> nat \<Rightarrow> bytes \<Rightarrow> bytes option" where
  "table_map T sm i = (case sm i of None \<Rightarrow> Map.empty | Some t \<Rightarrow> st_map T t)"

lemma table_okE:
  assumes "table_ok sm i s smbs" "sm_inv T sm"
  obtains t where "sm i = Some t" "st_inv T t" "st_schema t = s" "has_primary t"
    "map fst (secondary_index_ptrs t) = smbs"
  using assms by (auto simp: table_ok_def sm_inv_def)

lemma table_ok_update:
  assumes "table_ok sm j s smbs" "sm i = Some t" "same_shape t t'"
  shows "table_ok (sm(i \<mapsto> t')) j s smbs"
  using assms by (auto simp: table_ok_def same_shape_def)

lemma table_map_update [simp]:
  "table_map T (sm(i \<mapsto> t)) j = (if j = i then st_map T t else table_map T sm j)"
  by (simp add: table_map_def)

lemma table_map_at: "sm i = Some t \<Longrightarrow> table_map T sm i = st_map T t"
  by (simp add: table_map_def)

text \<open>What \<open>getColumn(column_id, std::string&)\<close> reads: a C string from the column on, cut to the size of the
  column.\<close>

definition sm_readString ::
  "('q, 'h, 'm) storage_manager \<Rightarrow> nat \<Rightarrow> addr option \<Rightarrow> nat \<Rightarrow> bytes result" where
  "sm_readString sm i record col =
     (case record of
        None \<Rightarrow> Inl NullPointer
      | Some a \<Rightarrow>
          bnd (table_at sm i) (\<lambda>t.
          bnd (getColumnType (st_schema t) col) (\<lambda>ty.
          bnd (assert_that (ty = VARCHAR)) (\<lambda>_.
          bnd (getColumnOffset (st_schema t) col) (\<lambda>off.
          bnd (getColumnSize (st_schema t) col) (\<lambda>n.
          bnd (mem_c_string (blocks (st_base t)) (addr_plus a off)) (\<lambda>str. Inr (take n str))))))))"

text \<open>Reading a column of one of the records a select of several records gave.\<close>

definition sm_readRecordsColumn ::
  "('q, 'h, 'm) storage_manager \<Rightarrow> nat \<Rightarrow> records \<Rightarrow> nat \<Rightarrow> nat \<Rightarrow> bytes result" where
  "sm_readRecordsColumn sm i rs r col = bnd (getRecord rs r) (\<lambda>a. sm_readColumn sm i (Some a) col)"

section \<open>The abstraction\<close>

text \<open>The registry gives the schema of a table, whether it has a primary index, and the symbols of its
  secondary indexes.\<close>

type_synonym registry = "nat \<Rightarrow> (schema \<times> bool \<times> bytes list) option"

definition table_shape :: "('q, 'h, 'm) schema_table \<Rightarrow> schema \<times> bool \<times> bytes list" where
  "table_shape t = (st_schema t, has_primary t, map fst (secondary_index_ptrs t))"

definition db_inv :: "('q, 'h, 'm) tbb \<Rightarrow> registry \<Rightarrow> ('q, 'h, 'm) storage_manager \<Rightarrow> bool" where
  "db_inv T R sm \<longleftrightarrow> sm_inv T sm \<and> (\<forall>i \<in> dom R. map_option table_shape (sm i) = R i)"

record database =
  db_tab :: "nat \<Rightarrow> bytes \<Rightarrow> bytes option"
  db_rows :: "nat \<Rightarrow> bytes multiset"

definition keyless_rows :: "('q, 'h, 'm) schema_table option \<Rightarrow> bytes multiset" where
  "keyless_rows r =
     (case r of
        None \<Rightarrow> {#}
      | Some t \<Rightarrow> if has_primary t then {#} else image_mset (st_bytes t) (mset_set (st_live t)))"

definition db_abs :: "('q, 'h, 'm) tbb \<Rightarrow> ('q, 'h, 'm) storage_manager \<Rightarrow> database" where
  "db_abs T sm = \<lparr>db_tab = table_map T sm, db_rows = (\<lambda>i. keyless_rows (sm i))\<rparr>"

text \<open>The operations on the maps.\<close>

definition a_put :: "nat \<Rightarrow> bytes \<Rightarrow> bytes \<Rightarrow> database \<Rightarrow> database" where
  "a_put i k row db = db\<lparr>db_tab := (db_tab db)(i := (db_tab db i)(k \<mapsto> row))\<rparr>"

definition a_remove :: "nat \<Rightarrow> bytes \<Rightarrow> database \<Rightarrow> database" where
  "a_remove i k db = db\<lparr>db_tab := (db_tab db)(i := (db_tab db i)(k := None))\<rparr>"

definition a_append :: "nat \<Rightarrow> bytes \<Rightarrow> database \<Rightarrow> database" where
  "a_append i row db = db\<lparr>db_rows := (db_rows db)(i := add_mset row (db_rows db i))\<rparr>"

text \<open>\<open>points_to sm i a k row\<close>: the address \<open>a\<close> is that of the record of table \<open>i\<close> with the key \<open>k\<close>,
  whose bytes are \<open>row\<close>.\<close>

definition points_to :: "('q, 'h, 'm) storage_manager \<Rightarrow> nat \<Rightarrow> addr \<Rightarrow> bytes \<Rightarrow> bytes \<Rightarrow> bool" where
  "points_to sm i a k row \<longleftrightarrow>
     (\<exists>t. sm i = Some t \<and> a \<in> st_live t \<and> record_key t a = k \<and> st_bytes t a = row)"

text \<open>\<open>becomes T R sm sm' f\<close>: \<open>sm'\<close> is a database in which the maps have changed as \<open>f\<close> says.\<close>

definition becomes ::
  "('q, 'h, 'm) tbb \<Rightarrow> registry \<Rightarrow> ('q, 'h, 'm) storage_manager \<Rightarrow> ('q, 'h, 'm) storage_manager \<Rightarrow>
   (database \<Rightarrow> database) \<Rightarrow> bool" where
  "becomes T R sm sm' f \<longleftrightarrow> db_inv T R sm' \<and> db_abs T sm' = f (db_abs T sm)"

lemma becomes_refl: "db_inv T R sm \<Longrightarrow> becomes T R sm sm id"
  by (simp add: becomes_def)

lemma becomes_trans:
  "becomes T R sm1 sm2 f \<Longrightarrow> becomes T R sm2 sm3 g \<Longrightarrow> becomes T R sm1 sm3 (g \<circ> f)"
  by (simp add: becomes_def)

lemma becomes_inv: "becomes T R sm sm' f \<Longrightarrow> db_inv T R sm'"
  by (simp add: becomes_def)

lemma db_abs_simps [simp]:
  "db_tab (db_abs T sm) = table_map T sm"
  "db_rows (db_abs T sm) i = keyless_rows (sm i)"
  by (simp_all add: db_abs_def)

lemma a_simps [simp]:
  "db_tab (a_put i k row db) j = (if j = i then (db_tab db i)(k \<mapsto> row) else db_tab db j)"
  "db_tab (a_remove i k db) j = (if j = i then (db_tab db i)(k := None) else db_tab db j)"
  "db_tab (a_append i row db) = db_tab db"
  "db_rows (a_put i k row db) = db_rows db"
  "db_rows (a_remove i k db) = db_rows db"
  "db_rows (a_append i row db) j = (if j = i then add_mset row (db_rows db i) else db_rows db j)"
  by (simp_all add: a_put_def a_remove_def a_append_def)

lemma db_inv_tableE:
  assumes "db_inv T R sm" "R i = Some (s, keyed, smbs)"
  obtains t where "sm i = Some t" "st_inv T t" "st_schema t = s" "has_primary t = keyed"
    "map fst (secondary_index_ptrs t) = smbs"
proof -
  have "map_option table_shape (sm i) = Some (s, keyed, smbs)"
    using assms unfolding db_inv_def by (metis domI)
  then obtain t where "sm i = Some t" "table_shape t = (s, keyed, smbs)"
    by (cases "sm i") auto
  then show thesis using that sm_inv_at [of T sm i t] assms(1) by (auto simp: db_inv_def table_shape_def)
qed

lemma same_table_shape: "same_shape t t' \<longleftrightarrow> table_shape t' = table_shape t"
  by (auto simp: same_shape_def table_shape_def)

lemma db_inv_schema: "db_inv T R sm \<Longrightarrow> R i = Some (s, keyed, smbs) \<Longrightarrow> schema_inv s"
  by (erule (1) db_inv_tableE) (metis st_invD(4))

lemma db_inv_set_table:
  assumes "db_inv T R sm" "sm i = Some t" "st_inv T t'" "same_shape t t'"
  shows "db_inv T R (sm(i \<mapsto> t'))"
proof -
  have "map_option table_shape ((sm(i \<mapsto> t')) j) = R j" if "j \<in> dom R" for j
    using assms that by (cases "j = i") (auto simp: db_inv_def same_table_shape dest: bspec)
  then show ?thesis using assms(1,3) by (simp add: db_inv_def sm_inv_update)
qed

lemma keyed_table_abs:
  assumes "sm i = Some t" "has_primary t" "same_shape t t'"
  shows "db_abs T (sm(i \<mapsto> t')) = (db_abs T sm)\<lparr>db_tab := (table_map T sm)(i := st_map T t')\<rparr>"
  using assms by (auto simp: db_abs_def same_shape_def keyless_rows_def fun_eq_iff)

lemma db_abs_put:
  assumes "sm i = Some t" "has_primary t" "same_shape t t'" "st_map T t' = (st_map T t)(k \<mapsto> row)"
  shows "db_abs T (sm(i \<mapsto> t')) = a_put i k row (db_abs T sm)"
  using assms keyed_table_abs [where sm = sm and i = i and T = T, OF assms(1-3)]
  by (simp add: a_put_def table_map_at)

lemma db_abs_remove:
  assumes "sm i = Some t" "has_primary t" "same_shape t t'" "st_map T t' = (st_map T t)(k := None)"
  shows "db_abs T (sm(i \<mapsto> t')) = a_remove i k (db_abs T sm)"
  using assms keyed_table_abs [where sm = sm and i = i and T = T, OF assms(1-3)]
  by (simp add: a_remove_def table_map_at)

section \<open>Reading\<close>

lemma points_to_map:
  assumes "db_inv T R sm" "R i = Some (s, True, smbs)" "points_to sm i a k row"
  shows "table_map T sm i k = Some row"
proof -
  obtain t where t: "sm i = Some t" "a \<in> st_live t" "record_key t a = k" "st_bytes t a = row"
    using assms(3) by (auto simp: points_to_def)
  obtain t2 where "sm i = Some t2" "st_inv T t2" "has_primary t2"
    using db_inv_tableE [OF assms(1,2)] by metis
  then show ?thesis using t st_map_at [of T t a] by (simp add: table_map_at)
qed

lemma select_keyed:
  assumes inv: "db_inv T R sm" and R: "R i = Some (s, True, smbs)"
    and ps: "predicates_valid s ps" "ps \<noteq> []" "map fst ps = primary_cols s"
  obtains (found) a row where "sm_selectRecord T i ps sm = Inr (Some a)"
      "table_map T sm i (predicate_key s ps) = Some row" "points_to sm i a (predicate_key s ps) row"
  | (missing) "sm_selectRecord T i ps sm = Inr None" "table_map T sm i (predicate_key s ps) = None"
proof -
  obtain t where t: "sm i = Some t" "st_inv T t" "st_schema t = s" "has_primary t = True"
    by (rule db_inv_tableE [OF inv R])
  have ps': "predicates_valid (st_schema t) ps" "map fst ps = primary_cols (st_schema t)"
    using ps t(3) by simp_all
  obtain r where r: "SchemaTable_selectRecord T ps t = Inr r"
      "map_option (st_bytes t) r = st_map T t (predicate_key s ps)"
      "\<And>a. r = Some a \<Longrightarrow> a \<in> st_live t \<and> record_key t a = predicate_key s ps"
    using select_refines [OF t(2) _ ps'(1) ps(2) ps'(2)] t(3,4) by auto
  have sel: "sm_selectRecord T i ps sm = Inr r"
    using r(1) t(1) by (simp add: sm_selectRecord_def res_simps)
  show thesis
  proof (cases r)
    case None
    then show thesis using missing sel r(2) t(1) by (simp add: table_map_at)
  next
    case (Some a)
    then show thesis
      using found [of a "st_bytes t a"] sel r(2) r(3) [OF Some] t(1)
      by (auto simp: table_map_at points_to_def)
  qed
qed

lemma select_found:
  assumes "db_inv T R sm" "R i = Some (s, True, smbs)"
    and "predicates_valid s ps" "ps \<noteq> []" "map fst ps = primary_cols s"
    and "table_map T sm i (predicate_key s ps) = Some row"
  obtains a where "sm_selectRecord T i ps sm = Inr (Some a)" "points_to sm i a (predicate_key s ps) row"
  using select_keyed [OF assms(1-5)] assms(6) by (metis option.distinct(1) option.inject)

lemma select_missing:
  assumes "db_inv T R sm" "R i = Some (s, True, smbs)"
    and "predicates_valid s ps" "ps \<noteq> []" "map fst ps = primary_cols s"
    and "table_map T sm i (predicate_key s ps) = None"
  shows "sm_selectRecord T i ps sm = Inr None"
  using select_keyed [OF assms(1-5)] assms(6) by (metis option.distinct(1))

lemma select_one_keyed:
  assumes "db_inv T R sm" "R i = Some (s, keyed, smbs)" "col < column_count s" "col_size s col \<le> length v"
  shows "sm_selectRecord_one T i \<lparr>cp_column_id = col, cp_value = v\<rparr> sm = sm_selectRecord T i [(col, v)] sm"
proof -
  obtain t where "sm i = Some t" "st_inv T t" "st_schema t = s"
    by (rule db_inv_tableE [OF assms(1,2)])
  then show ?thesis
    using assms(3,4) by (simp add: sm_selectRecord_one_def sm_selectRecord_def res_simps select_one_eq)
qed

lemma points_to_length:
  assumes "db_inv T R sm" "R i = Some (s, keyed, smbs)" "points_to sm i a k row"
  shows "length row = getSchemaSize s"
proof -
  obtain t where "sm i = Some t" "st_inv T t" "st_schema t = s"
    by (rule db_inv_tableE [OF assms(1,2)])
  then show ?thesis using assms(3) st_invD(7) [of T t] by (auto simp: points_to_def)
qed

lemma read_column:
  assumes "db_inv T R sm" "R i = Some (s, keyed, smbs)" "points_to sm i a k row" "col < column_count s"
  shows "sm_readColumn sm i (Some a) col = Inr (col_data s col row)"
proof -
  obtain t where t: "sm i = Some t" "st_inv T t" "st_schema t = s"
    by (rule db_inv_tableE [OF assms(1,2)])
  then have "a \<in> st_live t" "st_bytes t a = row" using assms(3) by (auto simp: points_to_def)
  then show ?thesis using sm_readColumn_eq [where sm = sm and i = i and a = a and col = col, OF t(1,2)] t(3) assms(4) by simp
qed

text \<open>A C string that ends within its column is read from the column alone.\<close>

lemma c_string_at_end:
  assumes "0 \<in> set (bytes_at m off n)" "off + n \<le> e"
  shows "c_string_at m off e = Inr (takeWhile (\<lambda>b. b \<noteq> 0) (bytes_at m off n))"
  using assms
proof (induction n arbitrary: off)
  case (Suc n)
  have split: "bytes_at m off (Suc n) = m off # bytes_at m (Suc off) n"
    by (simp add: bytes_at_def upt_conv_Cons del: upt_Suc)
  show ?case
  proof (cases "m off = 0")
    case True
    then show ?thesis using Suc.prems by (subst c_string_at.simps) (simp add: split)
  next
    case False
    then have "c_string_at m (Suc off) e = Inr (takeWhile (\<lambda>b. b \<noteq> 0) (bytes_at m (Suc off) n))"
      using Suc by (intro Suc.IH) (simp_all add: split)
    then show ?thesis using Suc.prems False by (subst c_string_at.simps) (simp add: split)
  qed
qed (simp add: bytes_at_def)

lemma read_string:
  assumes "db_inv T R sm" "R i = Some (s, keyed, smbs)" "points_to sm i a k row"
    and "col < column_count s" "column_type (columns s ! col) = VARCHAR" "0 \<in> set (col_data s col row)"
  shows "sm_readString sm i (Some a) col = Inr (takeWhile (\<lambda>b. b \<noteq> 0) (col_data s col row))"
proof -
  obtain t where t: "sm i = Some t" "st_inv T t" "st_schema t = s"
    by (rule db_inv_tableE [OF assms(1,2)])
  note i = st_invD [OF t(2)]
  have a: "a \<in> st_live t" "st_bytes t a = row" using assms(3) t(1) by (auto simp: points_to_def)
  let ?bs = "blocks (st_base t)" and ?n = "getSchemaSize s" and ?off = "col_off s col" and ?c = "col_size s col"
  have "mem_read ?bs a ?n = Inr row"
    using read_live [OF i(6) a(1)] i(7) a(2) t(3) by (simp add: BaseTable_read_def)
  then have m: "addr_block a < length ?bs" "addr_off a + ?n \<le> end_ptr (?bs ! addr_block a)"
      "row = bytes_at (blk_data (?bs ! addr_block a)) (addr_off a) ?n"
    by (auto simp: mem_read_def split: if_splits)
  have off: "?off + ?c \<le> ?n" using column_in_record [of s col] i(4) t(3) assms(4) by simp
  have col: "col_data s col row = bytes_at (blk_data (?bs ! addr_block a)) (addr_off a + ?off) ?c"
    using m(3) off by (simp add: col_data_def seg_bytes_at)
  have "c_string_at (blk_data (?bs ! addr_block a)) (addr_off a + ?off) (end_ptr (?bs ! addr_block a)) =
      Inr (takeWhile (\<lambda>b. b \<noteq> 0) (col_data s col row))"
    unfolding col using m(2) off assms(6) col by (intro c_string_at_end) simp_all
  moreover have "length (takeWhile (\<lambda>b. b \<noteq> 0) (col_data s col row)) \<le> ?c"
    using length_takeWhile_le [of "\<lambda>b. b \<noteq> 0" "col_data s col row"] col by simp
  ultimately show ?thesis
    using t(1,3) i(4) assms(4,5) m(1) by (simp add: sm_readString_def mem_c_string_def res_simps)
qed

lemma map_row_length:
  assumes "db_inv T R sm" "R i = Some (s, True, smbs)" "table_map T sm i k = Some row"
  shows "length row = getSchemaSize s"
proof -
  obtain t where t: "sm i = Some t" "st_inv T t" "st_schema t = s" "has_primary t = True"
    by (rule db_inv_tableE [OF assms(1,2)])
  then obtain a where "a \<in> st_live t" "st_bytes t a = row"
    using assms(3) st_map_iff [of T t k row] by (auto simp: table_map_at)
  then show ?thesis using st_invD(7) [OF t(2)] t(3) by auto
qed

section \<open>Writing\<close>

text \<open>A column that is part of no index can be written without making the indexes stale.\<close>

definition free_column :: "schema \<Rightarrow> bytes list \<Rightarrow> nat \<Rightarrow> bool" where
  "free_column s smbs col \<longleftrightarrow>
     col < column_count s \<and> col \<notin> set (primary_cols s) \<and> (\<forall>smb \<in> set smbs. col \<notin> set (index_columns smb))"

definition row_with :: "schema \<Rightarrow> nat \<Rightarrow> bytes \<Rightarrow> bytes \<Rightarrow> bytes" where
  "row_with s col v row = set_col s col (take (col_size s col) v) row"

text \<open>The pointers to other records stay what they are.\<close>

definition others_kept ::
  "('q, 'h, 'm) storage_manager \<Rightarrow> ('q, 'h, 'm) storage_manager \<Rightarrow> nat \<Rightarrow> addr \<Rightarrow> bool" where
  "others_kept sm sm' i a \<longleftrightarrow>
     (\<forall>j b k row. (j, b) \<noteq> (i, a) \<longrightarrow> points_to sm j b k row \<longrightarrow> points_to sm' j b k row)"

lemma others_kept_trans:
  "others_kept sm1 sm2 i a \<Longrightarrow> others_kept sm2 sm3 i a \<Longrightarrow> others_kept sm1 sm3 i a"
  by (simp add: others_kept_def)

lemma update_column_points:
  assumes inv: "db_inv T R sm" and R: "R i = Some (s, True, smbs)" and a: "points_to sm i a k row"
    and col: "free_column s smbs col" "col_size s col \<le> length v"
    and t: "sm i = Some t"
  obtains t' where "update_column a (col, v) t = Inr t'"
    "becomes T R sm (sm(i \<mapsto> t')) (a_put i k (row_with s col v row))"
    "points_to (sm(i \<mapsto> t')) i a k (row_with s col v row)" "others_kept sm (sm(i \<mapsto> t')) i a"
proof -
  obtain t0 where "sm i = Some t0" "st_inv T t0" "st_schema t0 = s" "has_primary t0 = True"
      "map fst (secondary_index_ptrs t0) = smbs"
    by (rule db_inv_tableE [OF inv R])
  then have t': "st_inv T t" "st_schema t = s" "has_primary t" "map fst (secondary_index_ptrs t) = smbs"
    using t by auto
  note i = st_invD [OF t'(1)]
  have a': "a \<in> st_live t" "record_key t a = k" "st_bytes t a = row"
    using a t by (auto simp: points_to_def)
  have un: "unindexed t col"
    using col(1) unfolding t'(2,4) [symmetric] unindexed_def free_column_def by auto
  have c: "col < column_count (st_schema t)" "col_size (st_schema t) col \<le> length v"
    using col t'(2) by (simp_all add: free_column_def)
  obtain u where u: "update_column a (col, v) t = Inr u" "st_inv T u" "same_shape t u"
      "st_map T u = (st_map T t)(record_key t a \<mapsto> set_col (st_schema t) col (take (col_size (st_schema t) col) v) (st_bytes t a))"
      "\<And>x ids. x \<in> st_live t \<Longrightarrow> cols_valid (st_schema t) ids \<Longrightarrow> col \<notin> set ids \<Longrightarrow>
        key_of (st_schema t) ids (st_bytes u x) = key_of (st_schema t) ids (st_bytes t x)"
    using update_refines [OF t'(1,3) a'(1) c un] by metis
  obtain u' where "update_column a (col, v) t = Inr u'" "store_changed (st_base t) a
      (set_col (st_schema t) col (take (col_size (st_schema t) col) v) (st_bytes t a)) (st_base u')"
    using update_column_spec [OF t'(1) a'(1) c un] by metis
  then have ch: "st_live u = st_live t" "st_bytes u a = row_with s col v row"
      "\<And>x. x \<in> st_live t \<Longrightarrow> x \<noteq> a \<Longrightarrow> st_bytes u x = st_bytes t x"
    using u(1) a'(3) t'(2) by (auto simp: store_changed_def row_with_def)
  have sch: "st_schema u = s" using u(3) t'(2) by (simp add: same_shape_def)
  obtain h where h: "snd (primary_index_ptr t) = Some h" using t'(3) by (auto simp: has_primary_def)
  have pk: "record_key u x = record_key t x" if "x \<in> st_live t" for x
    using u(5) [OF that primary_cols_valid [OF i(4)]] un h primary_ok_Some(2) [OF i(8) h] sch t'(2)
    by (simp add: primary_key_of_def unindexed_def)
  have "db_abs T (sm(i \<mapsto> u)) = a_put i k (row_with s col v row) (db_abs T sm)"
    using u(4) a' t'(2) by (intro db_abs_put [where t = t] t t'(3) u(3)) (simp add: row_with_def)
  then have "becomes T R sm (sm(i \<mapsto> u)) (a_put i k (row_with s col v row))"
    by (simp add: becomes_def db_inv_set_table [OF inv t u(2,3)])
  moreover have "points_to (sm(i \<mapsto> u)) i a k (row_with s col v row)"
    using a' ch(1,2) pk [OF a'(1)] by (simp add: points_to_def)
  moreover have "others_kept sm (sm(i \<mapsto> u)) i a"
    using ch(1,3) sch t'(2) t by (auto simp: others_kept_def points_to_def)
  ultimately show thesis using that [OF u(1)] by blast
qed

lemma update_one_keyed:
  assumes inv: "db_inv T R sm" and R: "R i = Some (s, True, smbs)" and a: "points_to sm i a k row"
    and col: "free_column s smbs col" "col_size s col \<le> length v"
  obtains sm' where "sm_updateRecord_one i (Some a) \<lparr>cp_column_id = col, cp_value = v\<rparr> sm = Inr sm'"
    "becomes T R sm sm' (a_put i k (row_with s col v row))"
    "points_to sm' i a k (row_with s col v row)" "others_kept sm sm' i a"
proof -
  obtain t where t: "sm i = Some t" using a by (auto simp: points_to_def)
  obtain t' where t': "update_column a (col, v) t = Inr t'"
    "becomes T R sm (sm(i \<mapsto> t')) (a_put i k (row_with s col v row))"
    "points_to (sm(i \<mapsto> t')) i a k (row_with s col v row)" "others_kept sm (sm(i \<mapsto> t')) i a"
    by (rule update_column_points [OF assms t])
  then show thesis
    using that [of "sm(i \<mapsto> t')"] t
    by (simp add: sm_updateRecord_one_def with_table_def SchemaTable_updateRecord_one_def res_simps)
qed

text \<open>The update of several columns is the sequence of the updates of one.\<close>

definition row_with_all :: "schema \<Rightarrow> column_predicates \<Rightarrow> bytes \<Rightarrow> bytes" where
  "row_with_all s ps row = fold (\<lambda>(col, v). row_with s col v) ps row"

lemma row_with_all_simps [simp]:
  "row_with_all s [] row = row"
  "row_with_all s ((col, v) # ps) row = row_with_all s ps (row_with s col v row)"
  by (simp_all add: row_with_all_def)

lemma a_put_put [simp]: "a_put i k row \<circ> a_put i k row' = a_put i k row"
  by (rule ext) (simp add: a_put_def)

lemma update_keyed:
  assumes "db_inv T R sm" and R: "R i = Some (s, True, smbs)" and "points_to sm i a k row" "ps \<noteq> []"
    and col: "\<forall>(col, v) \<in> set ps. free_column s smbs col \<and> col_size s col \<le> length v"
  obtains sm' where "sm_updateRecord i (Some a) ps sm = Inr sm'"
    "becomes T R sm sm' (a_put i k (row_with_all s ps row))"
    "points_to sm' i a k (row_with_all s ps row)" "others_kept sm sm' i a"
proof -
  have "\<exists>sm'. sm_updateRecord i (Some a) ps sm = Inr sm' \<and> becomes T R sm sm' (a_put i k (row_with_all s ps row)) \<and>
      points_to sm' i a k (row_with_all s ps row) \<and> others_kept sm sm' i a"
    using assms(1,3,4) col
  proof (induction ps arbitrary: sm row)
    case Nil
    then show ?case by simp
  next
    case (Cons p ps)
    obtain c v where p: "p = (c, v)" by (cases p)
    obtain t where t: "sm i = Some t" using Cons.prems(2) by (auto simp: points_to_def)
    have c: "free_column s smbs c" "col_size s c \<le> length v" using Cons.prems(4) p by auto
    let ?row = "row_with s c v row"
    obtain t' where t': "update_column a (c, v) t = Inr t'"
        "becomes T R sm (sm(i \<mapsto> t')) (a_put i k ?row)"
        "points_to (sm(i \<mapsto> t')) i a k ?row" "others_kept sm (sm(i \<mapsto> t')) i a"
      by (rule update_column_points [OF Cons.prems(1) R Cons.prems(2) c t])
    show ?case
    proof (cases "ps = []")
      case True
      then show ?thesis
        using t t' p
        by (auto simp: sm_updateRecord_def with_table_def SchemaTable_updateRecord_def res_simps)
    next
      case False
      have rest: "\<forall>(col, v) \<in> set ps. free_column s smbs col \<and> col_size s col \<le> length v"
        using Cons.prems(4) by simp
      obtain sm' where sm': "sm_updateRecord i (Some a) ps (sm(i \<mapsto> t')) = Inr sm'"
          "becomes T R (sm(i \<mapsto> t')) sm' (a_put i k (row_with_all s ps ?row))"
          "points_to sm' i a k (row_with_all s ps ?row)" "others_kept (sm(i \<mapsto> t')) sm' i a"
        using Cons.IH [OF becomes_inv [OF t'(2)] t'(3) False rest] by blast
      have "sm_updateRecord i (Some a) (p # ps) sm = sm_updateRecord i (Some a) ps (sm(i \<mapsto> t'))"
        using t t'(1) p
        by (simp add: sm_updateRecord_def with_table_def SchemaTable_updateRecord_def res_simps)
      moreover have "becomes T R sm sm' (a_put i k (row_with_all s ps ?row))"
        using becomes_trans [OF t'(2) sm'(2)] by simp
      ultimately show ?thesis
        using sm' p others_kept_trans [OF t'(4) sm'(4)] by auto
    qed
  qed
  then show thesis using that by blast
qed

section \<open>Inserting and deleting\<close>

definition all_kept :: "('q, 'h, 'm) storage_manager \<Rightarrow> ('q, 'h, 'm) storage_manager \<Rightarrow> bool" where
  "all_kept sm sm' \<longleftrightarrow> (\<forall>j b k row. points_to sm j b k row \<longrightarrow> points_to sm' j b k row)"

lemma insert_points:
  assumes inv: "db_inv T R sm" and R: "R i = Some (s, keyed, smbs)"
    and rec: "lr_schema rec = s" "lr_data rec = Some row" "length row = getSchemaSize s"
    and new: "keyed \<Longrightarrow> table_map T sm i (primary_key_of s row) = None"
  obtains t a t' where "sm i = Some t" "st_inv T t" "has_primary t = keyed"
    "sm_insertRecord T i rec sm = Inr (sm(i \<mapsto> t'))"
    "db_inv T R (sm(i \<mapsto> t'))" "same_shape t t'" "store_added (st_base t) a row (st_base t')"
    "keyed \<Longrightarrow> st_map T t' = (st_map T t)(primary_key_of s row \<mapsto> row)"
    "all_kept sm (sm(i \<mapsto> t'))"
proof -
  obtain t where t: "sm i = Some t" "st_inv T t" "st_schema t = s" "has_primary t = keyed"
      "map fst (secondary_index_ptrs t) = smbs"
    by (rule db_inv_tableE [OF inv R])
  have len: "getSchemaSize (st_schema t) \<le> length row" using rec(3) t(3) by simp
  have fresh: "primary_key_of (st_schema t) row \<notin> (\<lambda>x. primary_key_of (st_schema t) (st_bytes t x)) ` st_live t"
    if "snd (primary_index_ptr t) \<noteq> None"
    using that new t st_map_None_iff [OF t(2), of "primary_key_of s row"]
    by (simp add: has_primary_def table_map_at)
  obtain a t' where t': "SchemaTable_insertRecord T row t = Inr t'" "st_inv T t'"
      "store_added (st_base t) a (take (getSchemaSize (st_schema t)) row) (st_base t')"
      "st_schema t' = st_schema t" "snd (primary_index_ptr t') = None \<longleftrightarrow> snd (primary_index_ptr t) = None"
      "map fst (secondary_index_ptrs t') = map fst (secondary_index_ptrs t)"
    using SchemaTable_insertRecord_spec [OF t(2) len fresh] by metis
  have shape: "same_shape t t'" using t'(4-6) by (simp add: same_shape_def has_primary_def)
  have ins: "sm_insertRecord T i rec sm = Inr (sm(i \<mapsto> t'))"
    using t(1,3) t'(1) rec
    by (simp add: sm_insertRecord_def with_table_def SchemaTable_insertRecord_rec_def fetchData_def res_simps)
  have row: "store_added (st_base t) a row (st_base t')" using t'(3) rec(3) t(3) by simp
  have map: "st_map T t' = (st_map T t)(primary_key_of s row \<mapsto> row)" if keyed
    using st_map_added [OF t(2) _ t'(2) _ t'(3,4) fresh] that t(3,4) shape rec(3)
    by (simp add: same_shape_def has_primary_def)
  have "all_kept sm (sm(i \<mapsto> t'))"
    using row t'(4) t(1) by (auto simp: all_kept_def points_to_def store_added_def)
  then show thesis
    using that [OF t(1,2,4) ins db_inv_set_table [OF inv t(1) t'(2) shape] shape row map] by blast
qed

lemma insert_keyed:
  assumes "db_inv T R sm" "R i = Some (s, True, smbs)"
    and "lr_schema rec = s" "lr_data rec = Some row" "length row = getSchemaSize s"
    and "table_map T sm i (primary_key_of s row) = None"
  obtains sm' where "sm_insertRecord T i rec sm = Inr sm'"
    "becomes T R sm sm' (a_put i (primary_key_of s row) row)" "all_kept sm sm'"
proof -
  obtain t a t' where t': "sm i = Some t" "st_inv T t" "has_primary t = True"
    "sm_insertRecord T i rec sm = Inr (sm(i \<mapsto> t'))"
    "db_inv T R (sm(i \<mapsto> t'))" "same_shape t t'" "store_added (st_base t) a row (st_base t')"
    "st_map T t' = (st_map T t)(primary_key_of s row \<mapsto> row)" "all_kept sm (sm(i \<mapsto> t'))"
    using insert_points [OF assms(1-5)] assms(6) by metis
  have "db_abs T (sm(i \<mapsto> t')) = a_put i (primary_key_of s row) row (db_abs T sm)"
    using t'(1,3,6,8) by (intro db_abs_put [where t = t]) simp_all
  then show thesis using that [OF t'(4) _ t'(9)] t'(5) by (simp add: becomes_def)
qed

lemma insert_keyless:
  assumes "db_inv T R sm" "R i = Some (s, False, smbs)"
    and "lr_schema rec = s" "lr_data rec = Some row" "length row = getSchemaSize s"
  obtains sm' where "sm_insertRecord T i rec sm = Inr sm'" "becomes T R sm sm' (a_append i row)"
    "all_kept sm sm'"
proof -
  obtain t a t' where t': "sm i = Some t" "st_inv T t" "has_primary t = False"
    "sm_insertRecord T i rec sm = Inr (sm(i \<mapsto> t'))"
    "db_inv T R (sm(i \<mapsto> t'))" "same_shape t t'" "store_added (st_base t) a row (st_base t')"
    "all_kept sm (sm(i \<mapsto> t'))"
    using insert_points [OF assms] by metis
  have np: "\<not> has_primary t" "\<not> has_primary t'" using t'(3,6) by (simp_all add: same_shape_def)
  have "st_map T t = Map.empty" "st_map T t' = Map.empty"
    using np by (auto simp: st_map_def has_primary_def fun_eq_iff)
  then have maps: "table_map T (sm(i \<mapsto> t')) = table_map T sm"
    using t'(1) by (auto simp: fun_eq_iff table_map_at)
  have "image_mset (st_bytes t') (mset_set (st_live t')) =
      add_mset row (image_mset (st_bytes t) (mset_set (st_live t)))"
    using t'(7) unfolding store_added_def by (auto intro!: image_mset_cong)
  then have "keyless_rows ((sm(i \<mapsto> t')) j) = (if j = i then add_mset row (keyless_rows (sm i)) else keyless_rows (sm j))" for j
    using np t'(1) by (simp add: keyless_rows_def)
  then have "db_abs T (sm(i \<mapsto> t')) = a_append i row (db_abs T sm)"
    unfolding db_abs_def a_append_def maps by (auto simp: fun_eq_iff)
  then show thesis using that [OF t'(4) _ t'(8)] t'(5) by (simp add: becomes_def)
qed

lemma delete_keyed:
  assumes inv: "db_inv T R sm" and R: "R i = Some (s, True, [])" and a: "points_to sm i a k row"
  obtains sm' where "sm_deleteRecord T i (Some a) sm = Inr sm'" "becomes T R sm sm' (a_remove i k)"
    "others_kept sm sm' i a"
proof -
  obtain t where t: "sm i = Some t" "st_inv T t" "st_schema t = s" "has_primary t = True"
      "map fst (secondary_index_ptrs t) = []"
    by (rule db_inv_tableE [OF inv R])
  have a': "a \<in> st_live t" "record_key t a = k" "st_bytes t a = row"
    using a t(1) by (auto simp: points_to_def)
  have sole: "sole_in_indexes t a" using t(5) by (simp add: sole_in_indexes_def)
  obtain u where u: "SchemaTable_deleteRecord T (Some a) t = Inr u" "st_inv T u" "same_shape t u"
      "st_map T u = (st_map T t)(record_key t a := None)"
    using delete_refines [OF t(2) _ a'(1) sole] t(4) by metis
  obtain u' where "SchemaTable_deleteRecord T (Some a) t = Inr u'" "store_removed (st_base t) a (st_base u')"
    using SchemaTable_deleteRecord_spec [OF t(2) a'(1) sole] by metis
  then have rm: "store_removed (st_base t) a (st_base u)" using u(1) by simp
  have "sm_deleteRecord T i (Some a) sm = Inr (sm(i \<mapsto> u))"
    using u(1) t(1) by (simp add: sm_deleteRecord_def with_table_def res_simps)
  moreover have "becomes T R sm (sm(i \<mapsto> u)) (a_remove i k)"
    using t(1,4) u(3,4) a'(2) db_inv_set_table [OF inv t(1) u(2,3)]
    unfolding becomes_def by (auto intro: db_abs_remove)
  moreover have "others_kept sm (sm(i \<mapsto> u)) i a"
    using rm t(1) u(3) by (auto simp: others_kept_def points_to_def store_removed_def same_shape_def)
  ultimately show thesis using that by blast
qed

section \<open>Selecting several records\<close>

definition selected_rows ::
  "('q, 'h, 'm) storage_manager \<Rightarrow> nat \<Rightarrow> addr list \<Rightarrow> (bytes \<times> bytes) list \<Rightarrow> bool" where
  "selected_rows sm i as krs \<longleftrightarrow> list_all2 (\<lambda>a (k, row). points_to sm i a k row) as krs"

lemma select_several:
  assumes inv: "db_inv T R sm" and R: "R i = Some (s, True, smbs)"
    and ps: "predicates_valid s ps" "getPredicateColumnSymbol s ps \<in> set smbs"
  obtains rs krs where "sm_selectRecords T i ps sm = Inr rs" "distinct (data_ptrs rs)"
    "selected_rows sm i (data_ptrs rs) krs" "distinct (map fst krs)"
    "set krs = {(k, row). table_map T sm i k = Some row \<and> matches s ps row}"
proof -
  obtain t where t: "sm i = Some t" "st_inv T t" "st_schema t = s" "has_primary t = True"
      "map fst (secondary_index_ptrs t) = smbs"
    by (rule db_inv_tableE [OF inv R])
  have hp: "has_primary t" using t(4) by simp
  have ps': "predicates_valid (st_schema t) ps"
      "blocks (st_base t) \<noteq> [] \<or> getPredicateColumnSymbol (st_schema t) ps \<in> fst ` set (secondary_index_ptrs t)"
    using ps t(3,5) by auto
  obtain rs where rs: "SchemaTable_selectRecords T ps t = Inr rs" "distinct (data_ptrs rs)"
      "set (data_ptrs rs) = {a \<in> st_live t. matches (st_schema t) ps (st_bytes t a)}"
    by (rule SchemaTable_selectRecords_spec [OF t(2) ps'])
  define krs where "krs = map (\<lambda>a. (record_key t a, st_bytes t a)) (data_ptrs rs)"
  have live: "set (data_ptrs rs) \<subseteq> st_live t" using rs(3) by auto
  have "sm_selectRecords T i ps sm = Inr rs" using rs(1) t(1) by (simp add: sm_selectRecords_def res_simps)
  moreover have "selected_rows sm i (data_ptrs rs) krs"
    using live t(1) by (auto simp: selected_rows_def krs_def list_all2_map2 list_all2_same points_to_def)
  moreover have "distinct (map fst krs)"
    using rs(2) inj_on_subset [OF inj_onI [OF record_key_inj [OF t(2) hp]] live]
    by (simp add: krs_def distinct_map comp_def)
  moreover have "set krs = {(k, row). table_map T sm i k = Some row \<and> matches s ps row}"
    using rs(3) st_map_iff [OF t(2) hp] t(1,3) by (auto simp: krs_def table_map_at)
  ultimately show thesis using that rs(2) by blast
qed

section \<open>Registering\<close>

text \<open>A schema a table can be created with, and a table that has just been created.\<close>

definition creatable :: "schema \<Rightarrow> bool" where
  "creatable s \<longleftrightarrow>
     schema_inv s \<and> column_count s < 2 ^ 64 \<and> 0 < kBlockSize div (getSchemaSize s + 8) \<and>
     (primary_col_num s \<noteq> 0 \<longrightarrow> 0 < primary_key_length s)"

definition new_table ::
  "('q, 'h, 'm) tbb \<Rightarrow> schema \<times> bool \<times> bytes list \<Rightarrow> ('q, 'h, 'm) schema_table \<Rightarrow> bool" where
  "new_table T shape t \<longleftrightarrow> st_inv T t \<and> st_live t = {} \<and> table_shape t = shape"

lemma register_new:
  assumes "tbb_laws T" "creatable s"
  obtains t where "registerTable T i s sm = Inr (sm(i \<mapsto> t))"
    "new_table T (s, primary_col_num s \<noteq> 0, []) t"
proof -
  have s: "schema_inv s" "column_count s < 2 ^ 64" "0 < kBlockSize div (getSchemaSize s + 8)"
      "primary_col_num s \<noteq> 0 \<Longrightarrow> 0 < primary_key_length s"
    using assms(2) by (simp_all add: creatable_def)
  obtain t where "SchemaTable_new T s = Inr t" "st_inv T t" "st_live t = {}" "st_schema t = s"
      "secondary_index_ptrs t = []" "snd (primary_index_ptr t) = None \<longleftrightarrow> primary_col_num s = 0"
    using SchemaTable_new_inv [OF assms(1) s] by metis
  then show thesis
    using that [of t] by (simp add: registerTable_def new_table_def table_shape_def has_primary_def)
qed

lemma register_new_indexed:
  assumes "tbb_laws T" "creatable s" "cols_valid s ids" "n = length ids"
  obtains t where "registerTable_indexed T i s [IndexInfo HASHMAP ids n] 1 sm = Inr (sm(i \<mapsto> t))"
    "new_table T (s, primary_col_num s \<noteq> 0, [size_t_symbol ids]) t"
proof -
  have s: "schema_inv s" "column_count s < 2 ^ 64" "0 < kBlockSize div (getSchemaSize s + 8)"
      "primary_col_num s \<noteq> 0 \<Longrightarrow> 0 < primary_key_length s"
    using assms(2) by (simp_all add: creatable_def)
  have ix: "IndexInfo_getSerializedSymbol (IndexInfo HASHMAP ids n) = size_t_symbol ids"
    using assms(4) by (simp add: IndexInfo_getSerializedSymbol_def IndexInfo_def)
  obtain t where t: "SchemaTable_new T s = Inr t" "secondary_index_ptrs t = []"
    using SchemaTable_new_inv [OF assms(1) s] by metis
  have "\<forall>ix \<in> set (take 1 [IndexInfo HASHMAP ids n]). cols_valid s (take (ix_column_num ix) (ix_column_ids ix))"
    using assms(3,4) by (simp add: IndexInfo_def)
  then obtain t' where t': "SchemaTable_new_indexed T s [IndexInfo HASHMAP ids n] 1 = Inr t'" "st_inv T t'"
      "st_live t' = {}" "st_schema t' = s" "snd (primary_index_ptr t') = None \<longleftrightarrow> primary_col_num s = 0"
    using SchemaTable_new_indexed_inv [OF assms(1) s, of 1 "[IndexInfo HASHMAP ids n]"] by metis
  have "map fst (secondary_index_ptrs t') = [size_t_symbol ids]"
    using t t'(1) ix by (auto simp: SchemaTable_new_indexed_def)
  then show thesis
    using that [of t'] t' by (simp add: registerTable_indexed_def new_table_def table_shape_def has_primary_def)
qed

lemma new_table_empty:
  assumes "new_table T (s, keyed, smbs) t"
  shows "st_map T t = Map.empty" "keyless_rows (Some t) = {#}"
proof -
  have t: "st_inv T t" "st_live t = {}" using assms by (simp_all add: new_table_def)
  show "st_map T t = Map.empty"
  proof (cases "has_primary t")
    case True
    then show ?thesis using t st_map_None_iff by fastforce
  next
    case False
    then show ?thesis by (auto simp: st_map_def has_primary_def)
  qed
  show "keyless_rows (Some t) = {#}" using t(2) by (simp add: keyless_rows_def)
qed

text \<open>A database of which the registered tables have just been created.\<close>

definition db_new :: "('q, 'h, 'm) tbb \<Rightarrow> registry \<Rightarrow> ('q, 'h, 'm) storage_manager \<Rightarrow> bool" where
  "db_new T R sm \<longleftrightarrow> sm_inv T sm \<and> (\<forall>i shape. R i = Some shape \<longrightarrow> (\<exists>t. sm i = Some t \<and> new_table T shape t))"

lemma db_new_register:
  assumes "db_new T R sm" "new_table T shape t"
  shows "db_new T (R(i \<mapsto> shape)) (sm(i \<mapsto> t))"
  using assms by (auto simp: db_new_def new_table_def intro: sm_inv_update)

lemma db_new_mono: "db_new T R sm \<Longrightarrow> R' \<subseteq>\<^sub>m R \<Longrightarrow> db_new T R' sm"
  by (auto simp: db_new_def map_le_def dom_def)

lemma db_new_inv:
  assumes "db_new T R sm"
  shows "db_inv T R sm"
    and "i \<in> dom R \<Longrightarrow> table_map T sm i = Map.empty" "i \<in> dom R \<Longrightarrow> keyless_rows (sm i) = {#}"
proof -
  have new: "\<exists>t. sm i = Some t \<and> new_table T (the (R i)) t" if "i \<in> dom R" for i
    using assms that by (auto simp: db_new_def)
  have "map_option table_shape (sm i) = R i" if i: "i \<in> dom R" for i
  proof -
    obtain t where "sm i = Some t" "table_shape t = the (R i)" using new [OF i] by (auto simp: new_table_def)
    then show ?thesis using i by auto
  qed
  then show "db_inv T R sm" using assms by (simp add: db_inv_def db_new_def)
  show "i \<in> dom R \<Longrightarrow> table_map T sm i = Map.empty" "i \<in> dom R \<Longrightarrow> keyless_rows (sm i) = {#}"
    using new [of i] new_table_empty by (metis prod_cases3 table_map_at)+
qed

end
