(* ===== verification/TatpProcessor.thy ===== *)
theory TatpProcessor
  imports TatpSchema Database
begin

text \<open>
  benchmark/tatp/TatpBaseProcessor.cc, TatpSerialProcessor.cc, TatpTuples.h and the table
  registration of TatpPopulator.cc: the sub-transactions of the TATP benchmark on the storage
  manager. \<open>tatp_inv\<close> is the state of the database the processors work on, \<open>tatp_abs\<close> its
  abstraction to maps from keys to records; every sub-transaction refines an operation on maps.
\<close>

section \<open>Sub-transactions\<close>

definition getSubscriberId ::
  "('q, 'h, 'm) tbb \<Rightarrow> bytes \<Rightarrow> ('q, 'h, 'm) storage_manager \<Rightarrow> 32 word result" where
  "getSubscriberId T sub_nbr sm =
     bnd (sm_selectRecord_one T SUBSCRIBER_TABLE_ID \<lparr>cp_column_id = 1, cp_value = c_str sub_nbr\<rparr> sm) (\<lambda>r.
     case r of
       None \<Rightarrow> Inr (- 1)
     | Some a \<Rightarrow> bnd (sm_readColumn sm SUBSCRIBER_TABLE_ID r 0) (\<lambda>v. Inr (of_bytes v)))"

definition deleteCallForwardingRecord ::
  "('q, 'h, 'm) tbb \<Rightarrow> bench_config \<Rightarrow> 32 word \<Rightarrow> 8 word \<Rightarrow> 8 word \<Rightarrow>
   ('q, 'h, 'm) storage_manager \<Rightarrow> ('q, 'h, 'm) storage_manager result" where
  "deleteCallForwardingRecord T cfg s_id sf_type start_time sm =
     bnd (partition_offset cfg s_id) (\<lambda>offset.
     bnd (sm_selectRecord T (CALL_FORWARDING_TABLE_ID + offset)
            [(0, to_bytes s_id), (1, to_bytes sf_type), (2, to_bytes start_time)] sm) (\<lambda>r.
     if r \<noteq> None then sm_deleteRecord T (CALL_FORWARDING_TABLE_ID + offset) r sm else Inr sm))"

definition getAccessInfo ::
  "('q, 'h, 'm) tbb \<Rightarrow> bench_config \<Rightarrow> 32 word \<Rightarrow> 8 word \<Rightarrow>
   ('q, 'h, 'm) storage_manager \<Rightarrow> ('q, 'h, 'm) storage_manager result" where
  "getAccessInfo T cfg s_id ai_type sm =
     bnd (partition_offset cfg s_id) (\<lambda>offset.
     bnd (sm_selectRecord T (ACCESS_INFO_TABLE_ID + offset)
            [(0, to_bytes s_id), (1, to_bytes ai_type)] sm) (\<lambda>_. Inr sm))"

text \<open>\<open>getNewDestination\<close> has an empty body.\<close>

definition getNewDestination ::
  "32 word \<Rightarrow> 8 word \<Rightarrow> 8 word \<Rightarrow> 8 word \<Rightarrow>
   ('q, 'h, 'm) storage_manager \<Rightarrow> ('q, 'h, 'm) storage_manager result" where
  "getNewDestination s_id sf_type start_time end_time sm = Inr sm"

definition getSubscriberData ::
  "('q, 'h, 'm) tbb \<Rightarrow> 32 word \<Rightarrow> ('q, 'h, 'm) storage_manager \<Rightarrow> ('q, 'h, 'm) storage_manager result" where
  "getSubscriberData T s_id sm =
     bnd (sm_selectRecord_one T SUBSCRIBER_TABLE_ID \<lparr>cp_column_id = 0, cp_value = to_bytes s_id\<rparr> sm)
       (\<lambda>_. Inr sm)"

definition getSpecialFacilitySFType ::
  "('q, 'h, 'm) tbb \<Rightarrow> bench_config \<Rightarrow> 32 word \<Rightarrow>
   ('q, 'h, 'm) storage_manager \<Rightarrow> ('q, 'h, 'm) storage_manager result" where
  "getSpecialFacilitySFType T cfg s_id sm =
     bnd (partition_offset cfg s_id) (\<lambda>offset.
     bnd (sm_selectRecord_one T (SPECIAL_FACILITY_TABLE_ID + offset)
            \<lparr>cp_column_id = 0, cp_value = to_bytes s_id\<rparr> sm) (\<lambda>_. Inr sm))"

definition insertCallForwardingRecord ::
  "('q, 'h, 'm) tbb \<Rightarrow> bench_config \<Rightarrow> 32 word \<Rightarrow> 8 word \<Rightarrow> 8 word \<Rightarrow> 8 word \<Rightarrow> bytes \<Rightarrow>
   ('q, 'h, 'm) storage_manager \<Rightarrow> ('q, 'h, 'm) storage_manager result" where
  "insertCallForwardingRecord T cfg s_id sf_type start_time end_time numberx sm =
     bnd (partition_offset cfg s_id) (\<lambda>offset.
     bnd (sm_selectRecord T (CALL_FORWARDING_TABLE_ID + offset)
            [(0, to_bytes s_id), (1, to_bytes sf_type), (2, to_bytes start_time)] sm) (\<lambda>r.
     if r = None
     then
       bnd getCallForwardingSchema (\<lambda>s.
       bnd (setColumn 0 (to_bytes s_id) (transferData (new_chars cfg (getSchemaSize s)) (Record_new s))) (\<lambda>rec.
       bnd (setColumn 1 (to_bytes sf_type) rec) (\<lambda>rec.
       bnd (setColumn 2 (to_bytes start_time) rec) (\<lambda>rec.
       bnd (setColumn 3 (to_bytes end_time) rec) (\<lambda>rec.
       bnd (setColumn_sized 4 (c_str numberx) 15 rec) (\<lambda>rec.
       sm_insertRecord T (CALL_FORWARDING_TABLE_ID + offset) rec sm))))))
     else Inr sm))"

text \<open>\<open>updateSubscriberVLRLocation\<close> does not test whether the record was found.\<close>

definition updateSubscriberVLRLocation ::
  "('q, 'h, 'm) tbb \<Rightarrow> 32 word \<Rightarrow> 32 word \<Rightarrow>
   ('q, 'h, 'm) storage_manager \<Rightarrow> ('q, 'h, 'm) storage_manager result" where
  "updateSubscriberVLRLocation T s_id vlr_location sm =
     bnd (sm_selectRecord_one T SUBSCRIBER_TABLE_ID \<lparr>cp_column_id = 0, cp_value = to_bytes s_id\<rparr> sm) (\<lambda>r.
     sm_updateRecord_one SUBSCRIBER_TABLE_ID r \<lparr>cp_column_id = 33, cp_value = to_bytes vlr_location\<rparr> sm)"

definition updateSubscriberBit1 ::
  "('q, 'h, 'm) tbb \<Rightarrow> 32 word \<Rightarrow> 8 word \<Rightarrow>
   ('q, 'h, 'm) storage_manager \<Rightarrow> ('q, 'h, 'm) storage_manager result" where
  "updateSubscriberBit1 T s_id bit_1 sm =
     bnd (sm_selectRecord_one T SUBSCRIBER_TABLE_ID \<lparr>cp_column_id = 0, cp_value = to_bytes s_id\<rparr> sm) (\<lambda>r.
     if r \<noteq> None
     then sm_updateRecord_one SUBSCRIBER_TABLE_ID r \<lparr>cp_column_id = 2, cp_value = to_bytes bit_1\<rparr> sm
     else Inr sm)"

definition updateSpecialFacilityDataA ::
  "('q, 'h, 'm) tbb \<Rightarrow> bench_config \<Rightarrow> 32 word \<Rightarrow> 8 word \<Rightarrow> 16 word \<Rightarrow>
   ('q, 'h, 'm) storage_manager \<Rightarrow> ('q, 'h, 'm) storage_manager result" where
  "updateSpecialFacilityDataA T cfg s_id sf_type data_a sm =
     bnd (partition_offset cfg s_id) (\<lambda>offset.
     bnd (sm_selectRecord T (SPECIAL_FACILITY_TABLE_ID + offset)
            [(0, to_bytes s_id), (1, to_bytes sf_type)] sm) (\<lambda>r.
     if r \<noteq> None
     then sm_updateRecord_one (SPECIAL_FACILITY_TABLE_ID + offset) r
            \<lparr>cp_column_id = 4, cp_value = to_bytes data_a\<rparr> sm
     else Inr sm))"

section \<open>The database\<close>

text \<open>\<open>TatpPopulator::init\<close>: which tables are registered.\<close>

definition register_partition ::
  "('q, 'h, 'm) tbb \<Rightarrow> nat \<Rightarrow> ('q, 'h, 'm) storage_manager \<Rightarrow> ('q, 'h, 'm) storage_manager result" where
  "register_partition T i sm =
     bnd getAccessInfoSchema (\<lambda>s.
     bnd (registerTable T (ACCESS_INFO_TABLE_ID + i) s sm) (\<lambda>sm.
     bnd getSpecialFacilitySchema (\<lambda>s.
     bnd (registerTable_indexed T (SPECIAL_FACILITY_TABLE_ID + i) s [IndexInfo HASHMAP [0] 1] 1 sm) (\<lambda>sm.
     bnd getCallForwardingSchema (\<lambda>s.
     registerTable T (CALL_FORWARDING_TABLE_ID + i) s sm)))))"

definition TatpPopulator_init ::
  "('q, 'h, 'm) tbb \<Rightarrow> bench_config \<Rightarrow> ('q, 'h, 'm) storage_manager \<Rightarrow> ('q, 'h, 'm) storage_manager result" where
  "TatpPopulator_init T cfg sm =
     bnd getSubscriberSchema (\<lambda>s.
     bnd (registerTable_indexed T SUBSCRIBER_TABLE_ID s [IndexInfo HASHMAP [1] 1] 1 sm) (\<lambda>sm.
     if kPartition cfg
     then fold_res (register_partition T) [0..<kPartitionCnt cfg] sm
     else register_partition T 0 sm))"

definition tatp_inv :: "('q, 'h, 'm) tbb \<Rightarrow> bench_config \<Rightarrow> ('q, 'h, 'm) storage_manager \<Rightarrow> bool" where
  "tatp_inv T cfg sm \<longleftrightarrow>
     sm_inv T sm \<and> 0 < partitions cfg \<and> partitions cfg \<le> MAX_PARTITION_CNT \<and>
     table_ok sm SUBSCRIBER_TABLE_ID subscriber_schema [size_t_symbol [1]] \<and>
     (\<forall>p < partitions cfg.
        table_ok sm (ACCESS_INFO_TABLE_ID + p) access_info_schema [] \<and>
        table_ok sm (SPECIAL_FACILITY_TABLE_ID + p) special_facility_schema [size_t_symbol [0]] \<and>
        table_ok sm (CALL_FORWARDING_TABLE_ID + p) call_forwarding_schema [])"

text \<open>The database as maps: the subscriber number a lookup by \<open>sub_nbr\<close> gives (no sub-transaction
  changes it), the subscribers, and the access info (no sub-transaction changes it), the special facilities
  and call forwardings by partition.\<close>

record tatp_db =
  db_sid :: "bytes \<Rightarrow> 32 word"
  db_sub :: "bytes \<Rightarrow> bytes option"
  db_ai :: "nat \<Rightarrow> bytes \<Rightarrow> bytes option"
  db_sf :: "nat \<Rightarrow> bytes \<Rightarrow> bytes option"
  db_cf :: "nat \<Rightarrow> bytes \<Rightarrow> bytes option"

definition tatp_abs :: "('q, 'h, 'm) tbb \<Rightarrow> ('q, 'h, 'm) storage_manager \<Rightarrow> tatp_db" where
  "tatp_abs T sm =
     \<lparr>db_sid = (\<lambda>nbr. case getSubscriberId T nbr sm of Inl _ \<Rightarrow> - 1 | Inr i \<Rightarrow> i),
      db_sub = table_map T sm SUBSCRIBER_TABLE_ID,
      db_ai = (\<lambda>p. if p < MAX_PARTITION_CNT then table_map T sm (ACCESS_INFO_TABLE_ID + p) else Map.empty),
      db_sf = (\<lambda>p. if p < MAX_PARTITION_CNT then table_map T sm (SPECIAL_FACILITY_TABLE_ID + p) else Map.empty),
      db_cf = (\<lambda>p. if p < MAX_PARTITION_CNT then table_map T sm (CALL_FORWARDING_TABLE_ID + p) else Map.empty)\<rparr>"

subsection \<open>Operations on maps\<close>

definition cf_key :: "32 word \<Rightarrow> 8 word \<Rightarrow> 8 word \<Rightarrow> bytes" where
  "cf_key s_id sf_type start_time = to_bytes s_id @ to_bytes sf_type @ to_bytes start_time"

definition sf_key :: "32 word \<Rightarrow> 8 word \<Rightarrow> bytes" where
  "sf_key s_id sf_type = to_bytes s_id @ to_bytes sf_type"

definition cf_row :: "32 word \<Rightarrow> 8 word \<Rightarrow> 8 word \<Rightarrow> 8 word \<Rightarrow> bytes \<Rightarrow> bytes" where
  "cf_row s_id sf_type start_time end_time numberx =
     cf_key s_id sf_type start_time @ to_bytes end_time @ take 15 (c_str numberx)"

definition a_deleteCF :: "nat \<Rightarrow> bytes \<Rightarrow> tatp_db \<Rightarrow> tatp_db" where
  "a_deleteCF p k db = db\<lparr>db_cf := (db_cf db)(p := (db_cf db p)(k := None))\<rparr>"

definition a_insertCF :: "nat \<Rightarrow> bytes \<Rightarrow> bytes \<Rightarrow> tatp_db \<Rightarrow> tatp_db" where
  "a_insertCF p k row db =
     (if db_cf db p k = None then db\<lparr>db_cf := (db_cf db)(p := (db_cf db p)(k \<mapsto> row))\<rparr> else db)"

definition a_updateSub :: "nat \<Rightarrow> bytes \<Rightarrow> bytes \<Rightarrow> tatp_db \<Rightarrow> tatp_db" where
  "a_updateSub col k v db =
     (case db_sub db k of
        None \<Rightarrow> db
      | Some d \<Rightarrow> db\<lparr>db_sub := (db_sub db)(k \<mapsto> set_col subscriber_schema col v d)\<rparr>)"

definition a_updateSF :: "nat \<Rightarrow> bytes \<Rightarrow> bytes \<Rightarrow> tatp_db \<Rightarrow> tatp_db" where
  "a_updateSF p k v db =
     (case db_sf db p k of
        None \<Rightarrow> db
      | Some d \<Rightarrow> db\<lparr>db_sf := (db_sf db)(p := (db_sf db p)(k \<mapsto> set_col special_facility_schema 4 v d))\<rparr>)"

section \<open>Facts about the schemas\<close>

lemma tatp_col_facts [simp]:
  "column_count subscriber_schema = 34" "column_count access_info_schema = 6"
  "column_count special_facility_schema = 6" "column_count call_forwarding_schema = 5"
  "primary_cols subscriber_schema = [0]" "primary_cols access_info_schema = [0, 1]"
  "primary_cols special_facility_schema = [0, 1]" "primary_cols call_forwarding_schema = [0, 1, 2]"
  "primary_key_length call_forwarding_schema = 6"
  "getSchemaSize subscriber_schema = 67" "getSchemaSize call_forwarding_schema = 22"
  using tatp_summaries by (simp_all add: schema_summary_def)

lemma tatp_col_sizes [simp]:
  "col_size subscriber_schema 0 = 4" "col_size subscriber_schema (Suc 0) = 15"
  "col_size subscriber_schema 2 = 1" "col_size subscriber_schema 33 = 4"
  "col_size access_info_schema 0 = 4" "col_size access_info_schema (Suc 0) = 1"
  "col_size special_facility_schema 0 = 4" "col_size special_facility_schema (Suc 0) = 1"
  "col_size special_facility_schema 4 = 2"
  "col_size call_forwarding_schema 0 = 4" "col_size call_forwarding_schema (Suc 0) = 1"
  "col_size call_forwarding_schema 2 = 1" "col_size call_forwarding_schema 3 = 1"
  "col_size call_forwarding_schema 4 = 15"
  by (simp_all add: layout_nth(3) [OF subscriber_layout] layout_nth(3) [OF tatp_layouts(1)]
      layout_nth(3) [OF tatp_layouts(2)] layout_nth(3) [OF tatp_layouts(3)] nth_append nth_Cons')

lemma cf_col_facts [simp]:
  "col_off call_forwarding_schema 0 = 0" "col_off call_forwarding_schema (Suc 0) = 4"
  "col_off call_forwarding_schema 2 = 5" "col_off call_forwarding_schema 3 = 6"
  "col_off call_forwarding_schema 4 = 7"
  "column_type (columns call_forwarding_schema ! 0) = INT32"
  "column_type (columns call_forwarding_schema ! Suc 0) = INT8"
  "column_type (columns call_forwarding_schema ! 2) = INT8"
  "column_type (columns call_forwarding_schema ! 3) = INT8"
  "column_type (columns call_forwarding_schema ! 4) = VARCHAR"
  by (simp_all add: layout_nth(1,2) [OF tatp_layouts(3)])

lemma tatp_predicates [simp]:
  "predicates_valid subscriber_schema [(0, to_bytes (s :: 32 word))]"
  "predicates_valid access_info_schema [(0, to_bytes s), (Suc 0, to_bytes (a :: 8 word))]"
  "predicates_valid special_facility_schema [(0, to_bytes s)]"
  "predicates_valid special_facility_schema [(0, to_bytes s), (Suc 0, to_bytes a)]"
  "predicates_valid call_forwarding_schema [(0, to_bytes s), (Suc 0, to_bytes a), (2, to_bytes (b :: 8 word))]"
  by simp_all

lemma tatp_predicate_keys [simp]:
  "predicate_key subscriber_schema [(0, to_bytes (s :: 32 word))] = to_bytes s"
  "predicate_key special_facility_schema [(0, to_bytes s), (Suc 0, to_bytes (a :: 8 word))] = sf_key s a"
  "predicate_key call_forwarding_schema [(0, to_bytes s), (Suc 0, to_bytes a), (2, to_bytes (b :: 8 word))] =
     cf_key s a b"
  by (simp_all add: predicate_key_def sf_key_def cf_key_def)

lemma key_of_self: "key_of s [i] data = col_data s i data"
  by (simp add: key_of_def)

section \<open>Changing one table\<close>

lemma tatp_inv_update:
  assumes "tatp_inv T cfg sm" "sm i = Some t" "st_inv T t'" "same_shape t t'"
  shows "tatp_inv T cfg (sm(i \<mapsto> t'))"
proof -
  have "table_ok (sm(i \<mapsto> t')) j s smbs" if "table_ok sm j s smbs" for j s smbs
    using table_ok_update [where t = t, OF that assms(2,4)] .
  then show ?thesis
    using assms(1,3) unfolding tatp_inv_def by (blast intro: sm_inv_update)
qed

lemma getSubscriberId_frame:
  "sm' SUBSCRIBER_TABLE_ID = sm SUBSCRIBER_TABLE_ID \<Longrightarrow> getSubscriberId T nbr sm' = getSubscriberId T nbr sm"
  by (simp add: getSubscriberId_def sm_selectRecord_one_def sm_readColumn_def table_at_def
      cong: option.case_cong)

lemma tatp_abs_cf:
  assumes "p < MAX_PARTITION_CNT"
  shows "tatp_abs T (sm(CALL_FORWARDING_TABLE_ID + p \<mapsto> t)) =
    (tatp_abs T sm)\<lparr>db_cf := (db_cf (tatp_abs T sm))(p := st_map T t)\<rparr>"
proof -
  have "getSubscriberId T nbr (sm(CALL_FORWARDING_TABLE_ID + p \<mapsto> t)) = getSubscriberId T nbr sm" for nbr
    by (rule getSubscriberId_frame) (simp add: tatp_table_ids)
  then show ?thesis
    using assms by (auto simp: tatp_abs_def tatp_table_ids fun_eq_iff)
qed

lemma tatp_abs_sf:
  assumes "p < MAX_PARTITION_CNT"
  shows "tatp_abs T (sm(SPECIAL_FACILITY_TABLE_ID + p \<mapsto> t)) =
    (tatp_abs T sm)\<lparr>db_sf := (db_sf (tatp_abs T sm))(p := st_map T t)\<rparr>"
proof -
  have "getSubscriberId T nbr (sm(SPECIAL_FACILITY_TABLE_ID + p \<mapsto> t)) = getSubscriberId T nbr sm" for nbr
    by (rule getSubscriberId_frame) (simp add: tatp_table_ids)
  then show ?thesis
    using assms by (auto simp: tatp_abs_def tatp_table_ids fun_eq_iff)
qed

lemma tatp_abs_sub:
  assumes "\<And>nbr. getSubscriberId T nbr (sm(SUBSCRIBER_TABLE_ID \<mapsto> t)) = getSubscriberId T nbr sm"
  shows "tatp_abs T (sm(SUBSCRIBER_TABLE_ID \<mapsto> t)) = (tatp_abs T sm)\<lparr>db_sub := st_map T t\<rparr>"
  using assms by (auto simp: tatp_abs_def tatp_table_ids fun_eq_iff)

lemma tatp_invD:
  assumes "tatp_inv T cfg sm"
  shows "sm_inv T sm" "0 < partitions cfg" "partition_of cfg s < MAX_PARTITION_CNT"
    and "table_ok sm SUBSCRIBER_TABLE_ID subscriber_schema [size_t_symbol [1]]"
    and "table_ok sm (ACCESS_INFO_TABLE_ID + partition_of cfg s) access_info_schema []"
    and "table_ok sm (SPECIAL_FACILITY_TABLE_ID + partition_of cfg s) special_facility_schema [size_t_symbol [0]]"
    and "table_ok sm (CALL_FORWARDING_TABLE_ID + partition_of cfg s) call_forwarding_schema []"
  using assms partition_of_less [of cfg s] by (auto simp: tatp_inv_def)

lemma tatp_abs_simps:
  assumes "tatp_inv T cfg sm"
  shows "db_sub (tatp_abs T sm) = table_map T sm SUBSCRIBER_TABLE_ID"
    "db_sf (tatp_abs T sm) (partition_of cfg s) = table_map T sm (SPECIAL_FACILITY_TABLE_ID + partition_of cfg s)"
    "db_cf (tatp_abs T sm) (partition_of cfg s) = table_map T sm (CALL_FORWARDING_TABLE_ID + partition_of cfg s)"
  using tatp_invD(3) [OF assms] by (simp_all add: tatp_abs_def)

section \<open>Refinement of the sub-transactions\<close>

definition refines ::
  "('q, 'h, 'm) tbb \<Rightarrow> bench_config \<Rightarrow> (('q, 'h, 'm) storage_manager \<Rightarrow> ('q, 'h, 'm) storage_manager result) \<Rightarrow>
   (tatp_db \<Rightarrow> tatp_db) \<Rightarrow> ('q, 'h, 'm) storage_manager \<Rightarrow> bool" where
  "refines T cfg f g sm \<longleftrightarrow>
     (\<exists>sm'. f sm = Inr sm' \<and> tatp_inv T cfg sm' \<and> tatp_abs T sm' = g (tatp_abs T sm))"

lemma refines_read:
  "tatp_inv T cfg sm \<Longrightarrow> f sm = Inr sm \<Longrightarrow> refines T cfg f id sm"
  by (simp add: refines_def)

subsection \<open>Call forwardings\<close>

lemma deleteCallForwardingRecord_refines:
  assumes inv: "tatp_inv T cfg sm"
  shows "refines T cfg (deleteCallForwardingRecord T cfg s_id sf st)
    (a_deleteCF (partition_of cfg s_id) (cf_key s_id sf st)) sm"
proof -
  let ?p = "partition_of cfg s_id" and ?k = "cf_key s_id sf st"
  let ?i = "CALL_FORWARDING_TABLE_ID + ?p"
  let ?ps = "[(0, to_bytes s_id), (Suc 0, to_bytes sf), (2, to_bytes st)]"
  note d = tatp_invD [OF inv]
  obtain t where t: "sm ?i = Some t" "st_inv T t" "st_schema t = call_forwarding_schema" "has_primary t"
      "map fst (secondary_index_ptrs t) = []"
    using table_okE [OF d(7,1)] by metis
  obtain r where r: "SchemaTable_selectRecord T ?ps t = Inr r" "map_option (st_bytes t) r = st_map T t ?k"
      "\<And>a. r = Some a \<Longrightarrow> a \<in> st_live t \<and> record_key t a = ?k"
    using select_refines [OF t(2,4), of ?ps] t(3) by auto
  have sel: "sm_selectRecord T ?i ?ps sm = Inr r"
    using r(1) t(1) by (simp add: sm_selectRecord_def res_simps)
  have map: "db_cf (tatp_abs T sm) ?p = st_map T t"
    using tatp_abs_simps(3) [OF inv] t(1) by (simp add: table_map_at)
  show ?thesis
  proof (cases r)
    case None
    then have "(db_cf (tatp_abs T sm) ?p)(?k := None) = db_cf (tatp_abs T sm) ?p"
      using r(2) map by (auto simp: fun_eq_iff)
    then have "a_deleteCF ?p ?k (tatp_abs T sm) = tatp_abs T sm"
      by (simp add: a_deleteCF_def)
    moreover have "deleteCallForwardingRecord T cfg s_id sf st sm = Inr sm"
      using None sel d(2) by (simp add: deleteCallForwardingRecord_def res_simps)
    ultimately show ?thesis using inv by (simp add: refines_def)
  next
    case (Some a)
    have "sole_in_indexes t a" using t(5) by (simp add: sole_in_indexes_def)
    then obtain t' where t': "SchemaTable_deleteRecord T (Some a) t = Inr t'" "st_inv T t'" "same_shape t t'"
        "st_map T t' = (st_map T t)(?k := None)"
      using delete_refines [OF t(2,4), of a] r(3) [OF Some] by metis
    have "deleteCallForwardingRecord T cfg s_id sf st sm = Inr (sm(?i \<mapsto> t'))"
      using Some sel d(2) t(1) t'(1)
      by (simp add: deleteCallForwardingRecord_def sm_deleteRecord_def res_simps)
    moreover have "tatp_inv T cfg (sm(?i \<mapsto> t'))"
      using tatp_inv_update [OF inv t(1) t'(2,3)] .
    moreover have "tatp_abs T (sm(?i \<mapsto> t')) = a_deleteCF ?p ?k (tatp_abs T sm)"
      by (simp add: tatp_abs_cf [OF d(3)] a_deleteCF_def t'(4) map)
    ultimately show ?thesis by (simp add: refines_def)
  qed
qed

lemma patch_next:
  assumes "length pre = off" "length v \<le> length rest"
  shows "patch off v (pre @ rest) = pre @ v @ drop (length v) rest"
  using assms by (simp add: patch_def)

lemma setColumn_next:
  assumes "schema_inv s" "i < column_count s" "column_type (columns s ! i) \<noteq> VARCHAR"
    and "length v = col_size s i" "length pre = col_off s i" "length (pre @ rest) = getSchemaSize s"
  shows "setColumn i v \<lparr>lr_schema = s, lr_data = Some (pre @ rest)\<rparr> =
    Inr \<lparr>lr_schema = s, lr_data = Some ((pre @ v) @ drop (length v) rest)\<rparr>"
proof -
  have "length v \<le> length rest" using column_in_record [OF assms(1,2)] assms(4-6) by simp
  then show ?thesis
    using assms patch_next [OF assms(5), of v rest] by (simp add: setColumn_eq set_col_def)
qed

lemma setColumn_sized_next:
  assumes "schema_inv s" "i < column_count s" "column_type (columns s ! i) = VARCHAR"
    and "n \<le> col_size s i" "n \<le> length v" "length pre = col_off s i"
    and "length (pre @ rest) = getSchemaSize s"
  shows "setColumn_sized i v n \<lparr>lr_schema = s, lr_data = Some (pre @ rest)\<rparr> =
    Inr \<lparr>lr_schema = s, lr_data = Some ((pre @ take n v) @ drop n rest)\<rparr>"
proof -
  have "length (take n v) \<le> length rest"
    using column_in_record [OF assms(1,2)] assms(4-7) by simp
  then show ?thesis
    using assms patch_next [OF assms(6), of "take n v" rest] by (simp add: setColumn_sized_eq set_col_def)
qed

lemma cf_record:
  fixes s_id :: "32 word" and sf st et :: "8 word"
  assumes "14 \<le> length numberx"
  shows "bnd (setColumn 0 (to_bytes s_id)
       (transferData (new_chars cfg (getSchemaSize call_forwarding_schema)) (Record_new call_forwarding_schema))) (\<lambda>rec.
     bnd (setColumn 1 (to_bytes sf) rec) (\<lambda>rec.
     bnd (setColumn 2 (to_bytes st) rec) (\<lambda>rec.
     bnd (setColumn 3 (to_bytes et) rec) (\<lambda>rec.
     bnd (setColumn_sized 4 (c_str numberx) 15 rec) f))))
   = f \<lparr>lr_schema = call_forwarding_schema, lr_data = Some (cf_row s_id sf st et numberx)\<rparr>"
proof -
  let ?s = "call_forwarding_schema"
  let ?rec = "\<lambda>pre rest. \<lparr>lr_schema = ?s, lr_data = Some (pre @ rest)\<rparr>"
  define d where "d = new_chars cfg 22"
  have len: "length d = 22" by (simp add: d_def)
  have start: "transferData (new_chars cfg 22) (Record_new ?s) = ?rec [] d"
    by (simp add: transferData_def Record_new_def d_def)
  note next_col = setColumn_next [OF tatp_schema_inv(4)]
  have "setColumn 0 (to_bytes s_id) (?rec [] d) = Inr (?rec (to_bytes s_id) (drop 4 d))"
    using len by (subst next_col) simp_all
  moreover have "setColumn 1 (to_bytes sf) (?rec (to_bytes s_id) (drop 4 d)) =
      Inr (?rec (sf_key s_id sf) (drop 5 d))"
    using len by (subst next_col) (simp_all add: sf_key_def)
  moreover have "setColumn 2 (to_bytes st) (?rec (sf_key s_id sf) (drop 5 d)) =
      Inr (?rec (cf_key s_id sf st) (drop 6 d))"
    using len by (subst next_col) (simp_all add: sf_key_def cf_key_def)
  moreover have "setColumn 3 (to_bytes et) (?rec (cf_key s_id sf st) (drop 6 d)) =
      Inr (?rec (cf_key s_id sf st @ to_bytes et) (drop 7 d))"
    using len by (subst next_col) (simp_all add: cf_key_def)
  moreover have "setColumn_sized 4 (c_str numberx) 15 (?rec (cf_key s_id sf st @ to_bytes et) (drop 7 d)) =
      Inr (?rec (cf_row s_id sf st et numberx) [])"
    using len assms by (subst setColumn_sized_next [OF tatp_schema_inv(4)]) (simp_all add: cf_key_def cf_row_def)
  ultimately show ?thesis by (simp add: start del: One_nat_def)
qed

lemma length_cf_row: "14 \<le> length numberx \<Longrightarrow> length (cf_row s_id sf st et numberx) = 22"
  by (simp add: cf_row_def cf_key_def)

lemma cf_row_key:
  "primary_key_of call_forwarding_schema (cf_row s_id sf st et numberx) = cf_key s_id sf st"
proof -
  obtain a b where a: "to_bytes sf = [a]" and b: "to_bytes st = [b]"
    by (simp add: to_bytes_def)
  show ?thesis
    by (simp add: primary_key_of_def key_of_def col_data_def seg_def cf_row_def cf_key_def a b)
qed

text \<open>A record is inserted only when its key is new, so the primary index keeps following the table.\<close>

lemma insertCallForwardingRecord_refines:
  assumes inv: "tatp_inv T cfg sm" and numberx: "14 \<le> length numberx"
  shows "refines T cfg (insertCallForwardingRecord T cfg s_id sf st et numberx)
    (a_insertCF (partition_of cfg s_id) (cf_key s_id sf st) (cf_row s_id sf st et numberx)) sm"
proof -
  let ?p = "partition_of cfg s_id" and ?k = "cf_key s_id sf st" and ?row = "cf_row s_id sf st et numberx"
  let ?i = "CALL_FORWARDING_TABLE_ID + ?p" and ?s = "call_forwarding_schema"
  let ?ps = "[(0, to_bytes s_id), (Suc 0, to_bytes sf), (2, to_bytes st)]"
  note d = tatp_invD [OF inv]
  obtain t where t: "sm ?i = Some t" "st_inv T t" "st_schema t = ?s" "has_primary t"
      "map fst (secondary_index_ptrs t) = []"
    using table_okE [OF d(7,1)] by metis
  obtain r where r: "SchemaTable_selectRecord T ?ps t = Inr r" "map_option (st_bytes t) r = st_map T t ?k"
      "\<And>a. r = Some a \<Longrightarrow> a \<in> st_live t \<and> record_key t a = ?k"
    using select_refines [OF t(2,4), of ?ps] t(3) by auto
  have sel: "sm_selectRecord T ?i ?ps sm = Inr r"
    using r(1) t(1) by (simp add: sm_selectRecord_def res_simps)
  have map: "db_cf (tatp_abs T sm) ?p = st_map T t"
    using tatp_abs_simps(3) [OF inv] t(1) by (simp add: table_map_at)
  show ?thesis
  proof (cases r)
    case (Some a)
    then have "a_insertCF ?p ?k ?row (tatp_abs T sm) = tatp_abs T sm"
      using r(2) map by (auto simp: a_insertCF_def)
    moreover have "insertCallForwardingRecord T cfg s_id sf st et numberx sm = Inr sm"
      using Some sel d(2) by (simp add: insertCallForwardingRecord_def res_simps)
    ultimately show ?thesis using inv by (simp add: refines_def)
  next
    case None
    then have none: "st_map T t ?k = None" using r(2) by simp
    obtain t' where t': "SchemaTable_insertRecord T ?row t = Inr t'" "st_inv T t'" "same_shape t t'"
        "st_map T t' = (st_map T t)(?k \<mapsto> table_row ?s ?row)"
      using insert_refines [OF t(2,4), of ?row] none length_cf_row [OF numberx] t(3) cf_row_key by auto
    have "table_row ?s ?row = ?row"
      using length_cf_row [OF numberx] by (simp add: table_row_def)
    then have "tatp_abs T (sm(?i \<mapsto> t')) = a_insertCF ?p ?k ?row (tatp_abs T sm)"
      by (simp add: tatp_abs_cf [OF d(3)] a_insertCF_def t'(4) map none)
    moreover have "insertCallForwardingRecord T cfg s_id sf st et numberx sm =
        sm_insertRecord T ?i \<lparr>lr_schema = ?s, lr_data = Some ?row\<rparr> sm"
      using None sel d(2) cf_record [OF numberx]
      by (simp add: insertCallForwardingRecord_def res_simps)
    moreover have "\<dots> = Inr (sm(?i \<mapsto> t'))"
      using t'(1) t(1,3)
      by (simp add: sm_insertRecord_def SchemaTable_insertRecord_rec_def fetchData_def res_simps)
    moreover have "tatp_inv T cfg (sm(?i \<mapsto> t'))"
      using tatp_inv_update [OF inv t(1) t'(2,3)] .
    ultimately show ?thesis by (simp add: refines_def)
  qed
qed

subsection \<open>Lookups that change nothing\<close>

lemma index_columns_single: "i < 2 ^ 64 \<Longrightarrow> index_columns (size_t_symbol [i]) = [i]"
  using index_columns_symbol [of "[i]"] by simp

lemma size_t_symbol_single:
  "i < 2 ^ 64 \<Longrightarrow> j < 2 ^ 64 \<Longrightarrow> size_t_symbol [i] = size_t_symbol [j] \<longleftrightarrow> i = j"
  using size_t_symbol_inj [of "[i]" "[j]"] by simp

lemma primary_symbol_at:
  assumes "st_inv T t" "has_primary t"
  shows "fst (primary_index_ptr t) = size_t_symbol (primary_cols (st_schema t))"
proof -
  obtain h where "snd (primary_index_ptr t) = Some h" using assms(2) by (auto simp: has_primary_def)
  then show ?thesis
    using primary_ok_Some(1) [OF st_invD(8) [OF assms(1)]] primary_symbol [OF st_invD(4) [OF assms(1)]] by simp
qed

lemma getAccessInfo_refines:
  assumes inv: "tatp_inv T cfg sm"
  shows "refines T cfg (getAccessInfo T cfg s_id ai) id sm"
proof -
  note d = tatp_invD [OF inv]
  obtain t where t: "sm (ACCESS_INFO_TABLE_ID + partition_of cfg s_id) = Some t" "st_inv T t"
      "st_schema t = access_info_schema" "has_primary t"
    using table_okE [OF d(5,1)] by metis
  obtain r where "SchemaTable_selectRecord T [(0, to_bytes s_id), (Suc 0, to_bytes ai)] t = Inr r"
    using select_refines [OF t(2,4), of "[(0, to_bytes s_id), (Suc 0, to_bytes ai)]"] t(3) by auto
  then have "getAccessInfo T cfg s_id ai sm = Inr sm"
    using t(1) d(2) by (simp add: getAccessInfo_def sm_selectRecord_def res_simps)
  then show ?thesis using inv by (intro refines_read)
qed

lemma getNewDestination_refines: "tatp_inv T cfg sm \<Longrightarrow> refines T cfg (getNewDestination s sf st et) id sm"
  by (intro refines_read) (simp_all add: getNewDestination_def)

lemma select_subscriber:
  assumes inv: "tatp_inv T cfg sm"
  obtains t r where "sm SUBSCRIBER_TABLE_ID = Some t" "st_inv T t" "st_schema t = subscriber_schema"
    "has_primary t" "map fst (secondary_index_ptrs t) = [size_t_symbol [1]]"
    "sm_selectRecord_one T SUBSCRIBER_TABLE_ID \<lparr>cp_column_id = 0, cp_value = to_bytes (s_id :: 32 word)\<rparr> sm = Inr r"
    "map_option (st_bytes t) r = st_map T t (to_bytes s_id)"
    "\<And>a. r = Some a \<Longrightarrow> a \<in> st_live t \<and> record_key t a = to_bytes s_id"
proof -
  note d = tatp_invD [OF inv]
  obtain t where t: "sm SUBSCRIBER_TABLE_ID = Some t" "st_inv T t" "st_schema t = subscriber_schema"
      "has_primary t" "map fst (secondary_index_ptrs t) = [size_t_symbol [1]]"
    using table_okE [OF d(4,1)] by metis
  obtain r where r: "SchemaTable_selectRecord T [(0, to_bytes s_id)] t = Inr r"
      "map_option (st_bytes t) r = st_map T t (to_bytes s_id)"
      "\<And>a. r = Some a \<Longrightarrow> a \<in> st_live t \<and> record_key t a = to_bytes s_id"
    using select_refines [OF t(2,4), of "[(0, to_bytes s_id)]"] t(3) by auto
  have "sm_selectRecord_one T SUBSCRIBER_TABLE_ID \<lparr>cp_column_id = 0, cp_value = to_bytes s_id\<rparr> sm = Inr r"
    using r(1) t(1,3) select_one_eq [OF t(2), of 0 "to_bytes s_id"]
    by (simp add: sm_selectRecord_one_def res_simps)
  then show thesis using that [OF t] r(2,3) by blast
qed

lemma getSubscriberData_refines:
  assumes inv: "tatp_inv T cfg sm"
  shows "refines T cfg (getSubscriberData T s_id) id sm"
proof -
  obtain r where "sm_selectRecord_one T SUBSCRIBER_TABLE_ID \<lparr>cp_column_id = 0, cp_value = to_bytes s_id\<rparr> sm = Inr r"
    using select_subscriber [OF inv] by metis
  then show ?thesis using inv by (intro refines_read) (simp_all add: getSubscriberData_def)
qed

lemma secondary_single:
  assumes "map fst (secondary_index_ptrs t) = [smb]"
  obtains m where "secondary_index_ptrs t = [(smb, m)]"
  using assms by (auto simp: map_eq_Cons_conv)

lemma getSpecialFacilitySFType_refines:
  assumes inv: "tatp_inv T cfg sm"
  shows "refines T cfg (getSpecialFacilitySFType T cfg s_id) id sm"
proof -
  note d = tatp_invD [OF inv]
  obtain t where t: "sm (SPECIAL_FACILITY_TABLE_ID + partition_of cfg s_id) = Some t" "st_inv T t"
      "st_schema t = special_facility_schema" "map fst (secondary_index_ptrs t) = [size_t_symbol [0]]"
    using table_okE [OF d(6,1)] by metis
  have "size_t_symbol [0] \<in> fst ` set (secondary_index_ptrs t)"
    unfolding set_map [symmetric] t(4) by simp
  then have ix: "indexed t [(0, to_bytes s_id)]"
    by (simp add: indexed_def getPredicateColumnSymbol_def)
  obtain r where "SchemaTable_selectRecord T [(0, to_bytes s_id)] t = Inr r"
    using SchemaTable_selectRecord_spec [OF t(2), of "[(0, to_bytes s_id)]"] ix t(3) by auto
  then have "getSpecialFacilitySFType T cfg s_id sm = Inr sm"
    using t(1,3) d(2) select_one_eq [OF t(2), of 0 "to_bytes s_id"]
    by (simp add: getSpecialFacilitySFType_def sm_selectRecord_one_def res_simps)
  then show ?thesis using inv by (intro refines_read)
qed

subsection \<open>The subscriber number\<close>

lemma getSubscriberId_eq:
  assumes t: "sm SUBSCRIBER_TABLE_ID = Some t" "st_inv T t" "st_schema t = subscriber_schema"
      "has_primary t" "secondary_index_ptrs t = [(size_t_symbol [1], m)]"
  shows "getSubscriberId T nbr sm =
    (if 14 \<le> length nbr
     then Inr (case TBBMultiIndex_searchRecord T m (take 15 (c_str nbr)) of
                 None \<Rightarrow> - 1 | Some a \<Rightarrow> of_bytes (col_data subscriber_schema 0 (st_bytes t a)))
     else Inl BadAccess)"
proof -
  let ?p = "\<lparr>cp_column_id = 1, cp_value = c_str nbr\<rparr>"
  have "size_t_symbol [1] \<noteq> fst (primary_index_ptr t)"
    using primary_symbol_at [OF t(2,4)] t(3) size_t_symbol_single [of 1 0] by simp
  then have sel: "SchemaTable_selectRecord_one T ?p t =
      bnd (getPredicateDataSymbol_one subscriber_schema ?p) (\<lambda>key. Inr (TBBMultiIndex_searchRecord T m key))"
    using t(3,5) by (simp add: SchemaTable_selectRecord_one_def Let_def)
  have key: "getPredicateDataSymbol_one subscriber_schema ?p =
      (if 14 \<le> length nbr then Inr (take 15 (c_str nbr)) else Inl BadAccess)"
    using tatp_schema_inv(1) by (auto simp: getPredicateDataSymbol_one_def res_simps read_buffer_def)
  show ?thesis
  proof (cases "14 \<le> length nbr")
    case False
    then show ?thesis
      using sel key t(1) by (simp add: getSubscriberId_def sm_selectRecord_one_def res_simps)
  next
    case True
    let ?r = "TBBMultiIndex_searchRecord T m (take 15 (c_str nbr))"
    have r: "sm_selectRecord_one T SUBSCRIBER_TABLE_ID ?p sm = Inr ?r"
      using sel key True t(1) by (simp add: sm_selectRecord_one_def res_simps)
    show ?thesis
    proof (cases ?r)
      case None
      then show ?thesis using r True by (simp add: getSubscriberId_def)
    next
      case (Some a)
      have "secondary_ok T (st_schema t) (st_base t) (size_t_symbol [1], m)"
        using st_invD(9) [OF t(2)] t(5) by simp
      then have "multi_follows (mm_range T m) (st_live t)
          (\<lambda>a. key_of (st_schema t) (index_columns (size_t_symbol [1])) (st_bytes t a))"
        by (simp add: secondary_ok_def)
      then have "a \<in> st_live t"
        using tbb_multi.search_follows [OF st_invD(3) [OF t(2)], of m, where k = "take 15 (c_str nbr)"] Some by auto
      then have "sm_readColumn sm SUBSCRIBER_TABLE_ID (Some a) 0 = Inr (col_data subscriber_schema 0 (st_bytes t a))"
        using sm_readColumn_eq [of sm, OF t(1,2)] t(3) by simp
      then show ?thesis using r Some True by (simp add: getSubscriberId_def)
    qed
  qed
qed

lemma getSubscriberId_returns:
  assumes inv: "tatp_inv T cfg sm" and nbr: "14 \<le> length nbr"
  shows "getSubscriberId T nbr sm = Inr (db_sid (tatp_abs T sm) nbr)"
proof -
  note d = tatp_invD [OF inv]
  obtain t where t: "sm SUBSCRIBER_TABLE_ID = Some t" "st_inv T t" "st_schema t = subscriber_schema"
      "has_primary t" "map fst (secondary_index_ptrs t) = [size_t_symbol [1]]"
    using table_okE [OF d(4,1)] by metis
  obtain m where "secondary_index_ptrs t = [(size_t_symbol [1], m)]"
    using secondary_single [OF t(5)] by metis
  then show ?thesis
    using getSubscriberId_eq [of sm, OF t(1-4)] nbr by (simp add: tatp_abs_def)
qed

subsection \<open>Updates\<close>

lemma update_subscriber:
  assumes inv: "tatp_inv T cfg sm" and col: "col = 2 \<or> col = 33"
    and len: "col_size subscriber_schema col \<le> length v"
    and t: "sm SUBSCRIBER_TABLE_ID = Some t" "st_inv T t" "st_schema t = subscriber_schema"
      "has_primary t" "map fst (secondary_index_ptrs t) = [size_t_symbol [1]]"
    and a: "a \<in> st_live t" "record_key t a = to_bytes (s_id :: 32 word)"
  shows "refines T cfg (sm_updateRecord_one SUBSCRIBER_TABLE_ID (Some a) \<lparr>cp_column_id = col, cp_value = v\<rparr>)
    (a_updateSub col (to_bytes s_id) (take (col_size subscriber_schema col) v)) sm"
proof -
  let ?s = subscriber_schema
  obtain m where m: "secondary_index_ptrs t = [(size_t_symbol [1], m)]"
    using secondary_single [OF t(5)] by metis
  have un: "unindexed t col"
    using col t(3) m index_columns_single [of 1] by (auto simp: unindexed_def)
  have cl: "col < column_count (st_schema t)" "col_size (st_schema t) col \<le> length v"
    using col len t(3) by auto
  obtain t' where t': "update_column a (col, v) t = Inr t'" "st_inv T t'" "same_shape t t'"
    "st_map T t' = (st_map T t)(record_key t a \<mapsto>
       set_col (st_schema t) col (take (col_size (st_schema t) col) v) (st_bytes t a))"
    "secondary_index_ptrs t' = secondary_index_ptrs t" "st_live t' = st_live t"
    "\<And>x ids. x \<in> st_live t \<Longrightarrow> cols_valid (st_schema t) ids \<Longrightarrow> col \<notin> set ids \<Longrightarrow>
       key_of (st_schema t) ids (st_bytes t' x) = key_of (st_schema t) ids (st_bytes t x)"
    by (fact update_refines [OF t(2,4) a(1) cl un])
  let ?sm = "sm(SUBSCRIBER_TABLE_ID \<mapsto> t')"
  have upd: "sm_updateRecord_one SUBSCRIBER_TABLE_ID (Some a) \<lparr>cp_column_id = col, cp_value = v\<rparr> sm = Inr ?sm"
    using t(1) t'(1) by (simp add: sm_updateRecord_one_def SchemaTable_updateRecord_one_def res_simps)
  have m': "secondary_index_ptrs t' = [(size_t_symbol [1], m)]"
    using t'(5) m by simp
  have s': "st_schema t' = ?s" "has_primary t'"
    using t'(3) t(3,4) by (simp_all add: same_shape_def)
  have ids: "getSubscriberId T nbr ?sm = getSubscriberId T nbr sm" for nbr
  proof -
    have "col_data ?s 0 (st_bytes t' x) = col_data ?s 0 (st_bytes t x)"
      if "TBBMultiIndex_searchRecord T m (take 15 (c_str nbr)) = Some x" for x
    proof -
      have "secondary_ok T (st_schema t) (st_base t) (size_t_symbol [1], m)"
        using st_invD(9) [OF t(2)] m by simp
      then have "multi_follows (mm_range T m) (st_live t)
          (\<lambda>a. key_of (st_schema t) (index_columns (size_t_symbol [1])) (st_bytes t a))"
        by (simp add: secondary_ok_def)
      then have "x \<in> st_live t"
        using tbb_multi.search_follows [OF st_invD(3) [OF t(2)], of m, where k = "take 15 (c_str nbr)"] that by auto
      then show ?thesis using t'(7) [of x "[0]"] col t(3) by (auto simp: key_of_self)
    qed
    then show ?thesis
      using getSubscriberId_eq [of sm, OF t(1-4) m, of nbr] getSubscriberId_eq [of ?sm t' T m nbr] t'(2) s' m'
      by (auto split: option.split)
  qed
  have "st_map T t (to_bytes s_id) = Some (st_bytes t a)"
    using st_map_at [OF t(2,4) a(1)] a(2) by simp
  then have "tatp_abs T ?sm = a_updateSub col (to_bytes s_id) (take (col_size ?s col) v) (tatp_abs T sm)"
    using tatp_abs_simps(1) [OF inv] t(1)
    by (simp add: tatp_abs_sub [OF ids] a_updateSub_def t'(4) [unfolded a(2), unfolded t(3)] table_map_at)
  then show ?thesis
    using upd tatp_inv_update [OF inv t(1) t'(2,3)] by (simp add: refines_def)
qed

lemma updateSubscriberBit1_refines:
  assumes inv: "tatp_inv T cfg sm"
  shows "refines T cfg (updateSubscriberBit1 T s_id bit_1) (a_updateSub 2 (to_bytes s_id) (to_bytes bit_1)) sm"
proof -
  obtain t r where t: "sm SUBSCRIBER_TABLE_ID = Some t" "st_inv T t" "st_schema t = subscriber_schema"
    "has_primary t" "map fst (secondary_index_ptrs t) = [size_t_symbol [1]]"
    "sm_selectRecord_one T SUBSCRIBER_TABLE_ID \<lparr>cp_column_id = 0, cp_value = to_bytes s_id\<rparr> sm = Inr r"
    "map_option (st_bytes t) r = st_map T t (to_bytes s_id)"
    "\<And>a. r = Some a \<Longrightarrow> a \<in> st_live t \<and> record_key t a = to_bytes s_id"
    using select_subscriber [OF inv] by metis
  show ?thesis
  proof (cases r)
    case None
    then have "db_sub (tatp_abs T sm) (to_bytes s_id) = None"
      using t(1,7) tatp_abs_simps(1) [OF inv] by (simp add: table_map_at)
    then have "a_updateSub 2 (to_bytes s_id) (to_bytes bit_1) (tatp_abs T sm) = tatp_abs T sm"
      by (simp add: a_updateSub_def)
    then show ?thesis using None t(6) inv by (simp add: refines_def updateSubscriberBit1_def)
  next
    case (Some a)
    then have "updateSubscriberBit1 T s_id bit_1 sm =
        sm_updateRecord_one SUBSCRIBER_TABLE_ID (Some a) \<lparr>cp_column_id = 2, cp_value = to_bytes bit_1\<rparr> sm"
      using t(6) by (simp add: updateSubscriberBit1_def)
    then show ?thesis
      using update_subscriber [OF inv _ _ t(1-5), of 2 "to_bytes bit_1" a s_id] t(8) [OF Some]
      by (simp add: refines_def)
  qed
qed

text \<open>Without the test, the update of an unknown subscriber dereferences a null pointer.\<close>

lemma updateSubscriberVLRLocation_refines:
  assumes inv: "tatp_inv T cfg sm" and known: "db_sub (tatp_abs T sm) (to_bytes s_id) \<noteq> None"
  shows "refines T cfg (updateSubscriberVLRLocation T s_id vlr) (a_updateSub 33 (to_bytes s_id) (to_bytes vlr)) sm"
proof -
  obtain t r where t: "sm SUBSCRIBER_TABLE_ID = Some t" "st_inv T t" "st_schema t = subscriber_schema"
    "has_primary t" "map fst (secondary_index_ptrs t) = [size_t_symbol [1]]"
    "sm_selectRecord_one T SUBSCRIBER_TABLE_ID \<lparr>cp_column_id = 0, cp_value = to_bytes s_id\<rparr> sm = Inr r"
    "map_option (st_bytes t) r = st_map T t (to_bytes s_id)"
    "\<And>a. r = Some a \<Longrightarrow> a \<in> st_live t \<and> record_key t a = to_bytes s_id"
    using select_subscriber [OF inv] by metis
  have "r \<noteq> None"
    using known t(1,7) tatp_abs_simps(1) [OF inv] by (auto simp: table_map_at)
  then obtain a where a: "r = Some a" by auto
  then have "updateSubscriberVLRLocation T s_id vlr sm =
      sm_updateRecord_one SUBSCRIBER_TABLE_ID (Some a) \<lparr>cp_column_id = 33, cp_value = to_bytes vlr\<rparr> sm"
    using t(6) by (simp add: updateSubscriberVLRLocation_def)
  then show ?thesis
    using update_subscriber [OF inv _ _ t(1-5), of 33 "to_bytes vlr" a s_id] t(8) [OF a]
    by (simp add: refines_def)
qed

lemma updateSubscriberVLRLocation_unknown:
  assumes inv: "tatp_inv T cfg sm" and unknown: "db_sub (tatp_abs T sm) (to_bytes s_id) = None"
  shows "updateSubscriberVLRLocation T s_id vlr sm = Inl NullPointer"
proof -
  obtain t r where t: "sm SUBSCRIBER_TABLE_ID = Some t"
    "sm_selectRecord_one T SUBSCRIBER_TABLE_ID \<lparr>cp_column_id = 0, cp_value = to_bytes s_id\<rparr> sm = Inr r"
    "map_option (st_bytes t) r = st_map T t (to_bytes s_id)"
    using select_subscriber [OF inv] by metis
  have "r = None"
    using unknown t(1,3) tatp_abs_simps(1) [OF inv] by (auto simp: table_map_at)
  then show ?thesis
    using t(1,2) by (simp add: updateSubscriberVLRLocation_def sm_updateRecord_one_def
        SchemaTable_updateRecord_one_def with_table_def res_simps)
qed

lemma updateSpecialFacilityDataA_refines:
  assumes inv: "tatp_inv T cfg sm"
  shows "refines T cfg (updateSpecialFacilityDataA T cfg s_id sf data_a)
    (a_updateSF (partition_of cfg s_id) (sf_key s_id sf) (to_bytes data_a)) sm"
proof -
  let ?p = "partition_of cfg s_id" and ?k = "sf_key s_id sf" and ?s = "special_facility_schema"
  let ?i = "SPECIAL_FACILITY_TABLE_ID + ?p" and ?ps = "[(0, to_bytes s_id), (Suc 0, to_bytes sf)]"
  note d = tatp_invD [OF inv]
  obtain t where t: "sm ?i = Some t" "st_inv T t" "st_schema t = ?s" "has_primary t"
      "map fst (secondary_index_ptrs t) = [size_t_symbol [0]]"
    using table_okE [OF d(6,1)] by metis
  obtain r where r: "SchemaTable_selectRecord T ?ps t = Inr r" "map_option (st_bytes t) r = st_map T t ?k"
      "\<And>a. r = Some a \<Longrightarrow> a \<in> st_live t \<and> record_key t a = ?k"
    using select_refines [OF t(2,4), of ?ps] t(3) by auto
  have sel: "sm_selectRecord T ?i ?ps sm = Inr r"
    using r(1) t(1) by (simp add: sm_selectRecord_def res_simps)
  have map: "db_sf (tatp_abs T sm) ?p = st_map T t"
    using tatp_abs_simps(2) [OF inv] t(1) by (simp add: table_map_at)
  show ?thesis
  proof (cases r)
    case None
    then have "a_updateSF ?p ?k (to_bytes data_a) (tatp_abs T sm) = tatp_abs T sm"
      using r(2) map by (simp add: a_updateSF_def)
    then show ?thesis
      using None sel d(2) inv by (simp add: refines_def updateSpecialFacilityDataA_def res_simps)
  next
    case (Some a)
    obtain m where m: "secondary_index_ptrs t = [(size_t_symbol [0], m)]"
      using secondary_single [OF t(5)] by metis
    have un: "unindexed t 4"
      using t(3) m index_columns_single [of 0] by (auto simp: unindexed_def)
    obtain t' where t': "update_column a (4, to_bytes data_a) t = Inr t'" "st_inv T t'" "same_shape t t'"
      "st_map T t' = (st_map T t)(?k \<mapsto> set_col ?s 4 (to_bytes data_a) (st_bytes t a))"
      using update_refines [OF t(2,4) _ _ _ un, of a "to_bytes data_a"] r(3) [OF Some] t(3) by force
    have "st_map T t ?k = Some (st_bytes t a)" using r(2) Some by simp
    then have "tatp_abs T (sm(?i \<mapsto> t')) = a_updateSF ?p ?k (to_bytes data_a) (tatp_abs T sm)"
      by (simp add: tatp_abs_sf [OF d(3)] a_updateSF_def t'(4) map)
    moreover have "updateSpecialFacilityDataA T cfg s_id sf data_a sm = Inr (sm(?i \<mapsto> t'))"
      using Some sel d(2) t(1) t'(1)
      by (simp add: updateSpecialFacilityDataA_def sm_updateRecord_one_def SchemaTable_updateRecord_one_def res_simps)
    ultimately show ?thesis
      using tatp_inv_update [OF inv t(1) t'(2,3)] by (simp add: refines_def)
  qed
qed

section \<open>The empty database\<close>

text \<open>The tables \<open>TatpPopulator::init\<close> registers satisfy the invariant.\<close>

abbreviation fresh_table ::
  "('q, 'h, 'm) tbb \<Rightarrow> schema \<Rightarrow> bytes list \<Rightarrow> ('q, 'h, 'm) schema_table \<Rightarrow> bool" where
  "fresh_table T s smbs \<equiv> new_table T (s, True, smbs)"

lemmas fresh_table_def = new_table_def table_shape_def

text \<open>A schema a table with a primary index can be registered with.\<close>

definition registrable :: "schema \<Rightarrow> bool" where
  "registrable s \<longleftrightarrow> creatable s \<and> primary_col_num s \<noteq> 0"

lemma register_fresh:
  assumes "tbb_laws T" "registrable s"
  obtains t where "registerTable T i s sm = Inr (sm(i \<mapsto> t))" "fresh_table T s [] t"
  using register_new [OF assms(1), of s i sm] assms(2) by (auto simp: registrable_def)

lemma register_fresh_indexed:
  assumes "tbb_laws T" "registrable s" "c < column_count s"
  obtains t where "registerTable_indexed T i s [IndexInfo HASHMAP [c] 1] 1 sm = Inr (sm(i \<mapsto> t))"
    "fresh_table T s [size_t_symbol [c]] t"
  using register_new_indexed [OF assms(1), of s "[c]" 1 i sm] assms(2,3) by (auto simp: registrable_def)

lemma tatp_registers:
  "registrable subscriber_schema" "registrable access_info_schema"
  "registrable special_facility_schema" "registrable call_forwarding_schema"
proof -
  have num: "schema_inv s \<Longrightarrow> primary_col_num s = length (primary_cols s)" for s
    by (simp add: schema_inv_def)
  show "registrable subscriber_schema" "registrable access_info_schema"
    "registrable special_facility_schema" "registrable call_forwarding_schema"
    using tatp_summaries tatp_schema_inv
    by (simp_all add: registrable_def creatable_def num schema_summary_def kBlockSize_def)
qed

definition partition_registered ::
  "('q, 'h, 'm) tbb \<Rightarrow> ('q, 'h, 'm) storage_manager \<Rightarrow> nat \<Rightarrow> bool" where
  "partition_registered T sm p \<longleftrightarrow>
     (\<exists>t. sm (ACCESS_INFO_TABLE_ID + p) = Some t \<and> fresh_table T access_info_schema [] t) \<and>
     (\<exists>t. sm (SPECIAL_FACILITY_TABLE_ID + p) = Some t \<and> fresh_table T special_facility_schema [size_t_symbol [0]] t) \<and>
     (\<exists>t. sm (CALL_FORWARDING_TABLE_ID + p) = Some t \<and> fresh_table T call_forwarding_schema [] t)"

lemma register_partition_spec:
  assumes laws: "tbb_laws T" and p: "p < MAX_PARTITION_CNT" and inv: "sm_inv T sm"
  obtains sm' where "register_partition T p sm = Inr sm'" "sm_inv T sm'" "partition_registered T sm' p"
    "sm' SUBSCRIBER_TABLE_ID = sm SUBSCRIBER_TABLE_ID"
    "\<And>q. q < MAX_PARTITION_CNT \<Longrightarrow> partition_registered T sm q \<Longrightarrow> partition_registered T sm' q"
proof -
  let ?ai = "ACCESS_INFO_TABLE_ID + p" and ?sf = "SPECIAL_FACILITY_TABLE_ID + p"
  let ?cf = "CALL_FORWARDING_TABLE_ID + p"
  obtain t1 where t1: "registerTable T ?ai access_info_schema sm = Inr (sm(?ai \<mapsto> t1))"
      "fresh_table T access_info_schema [] t1"
    using register_fresh [OF laws tatp_registers(2), of ?ai sm] by blast
  obtain t2 where t2: "registerTable_indexed T ?sf special_facility_schema [IndexInfo HASHMAP [0] 1] 1
        (sm(?ai \<mapsto> t1)) = Inr (sm(?ai \<mapsto> t1, ?sf \<mapsto> t2))"
      "fresh_table T special_facility_schema [size_t_symbol [0]] t2"
    using register_fresh_indexed [OF laws tatp_registers(3), of 0 ?sf "sm(?ai \<mapsto> t1)"] by auto
  obtain t3 where t3: "registerTable T ?cf call_forwarding_schema (sm(?ai \<mapsto> t1, ?sf \<mapsto> t2)) =
        Inr (sm(?ai \<mapsto> t1, ?sf \<mapsto> t2, ?cf \<mapsto> t3))"
      "fresh_table T call_forwarding_schema [] t3"
    using register_fresh [OF laws tatp_registers(4), of ?cf "sm(?ai \<mapsto> t1, ?sf \<mapsto> t2)"] by blast
  let ?sm = "sm(?ai \<mapsto> t1, ?sf \<mapsto> t2, ?cf \<mapsto> t3)"
  show thesis
  proof (rule that)
    show "register_partition T p sm = Inr ?sm"
      using t1(1) t2(1) t3(1) by (simp add: register_partition_def res_simps)
    show "sm_inv T ?sm"
      using inv t1(2) t2(2) t3(2) by (intro sm_inv_update) (simp_all add: fresh_table_def)
    show "partition_registered T ?sm p"
      using t1(2) t2(2) t3(2) p by (simp add: partition_registered_def tatp_table_ids)
    show "?sm SUBSCRIBER_TABLE_ID = sm SUBSCRIBER_TABLE_ID"
      by (simp add: tatp_table_ids)
    show "partition_registered T ?sm q" if "q < MAX_PARTITION_CNT" "partition_registered T sm q" for q
      using that t1(2) t2(2) t3(2) p by (auto simp: partition_registered_def tatp_table_ids)
  qed
qed

lemma register_partitions_spec:
  assumes laws: "tbb_laws T" and inv: "sm_inv T sm" and n: "n \<le> MAX_PARTITION_CNT"
  obtains sm' where "fold_res (register_partition T) [0..<n] sm = Inr sm'" "sm_inv T sm'"
    "\<And>p. p < n \<Longrightarrow> partition_registered T sm' p" "sm' SUBSCRIBER_TABLE_ID = sm SUBSCRIBER_TABLE_ID"
  using n
proof (induction n arbitrary: thesis)
  case 0
  then show ?case using inv by simp
next
  case (Suc n)
  obtain sm1 where sm1: "fold_res (register_partition T) [0..<n] sm = Inr sm1" "sm_inv T sm1"
    "\<And>p. p < n \<Longrightarrow> partition_registered T sm1 p" "sm1 SUBSCRIBER_TABLE_ID = sm SUBSCRIBER_TABLE_ID"
    using Suc.IH Suc.prems(2) by auto
  obtain sm2 where sm2: "register_partition T n sm1 = Inr sm2" "sm_inv T sm2" "partition_registered T sm2 n"
    "sm2 SUBSCRIBER_TABLE_ID = sm1 SUBSCRIBER_TABLE_ID"
    "\<And>q. q < MAX_PARTITION_CNT \<Longrightarrow> partition_registered T sm1 q \<Longrightarrow> partition_registered T sm2 q"
    using register_partition_spec [OF laws _ sm1(2), of n] Suc.prems(2) by auto
  show ?case
  proof (rule Suc.prems(1))
    show "fold_res (register_partition T) [0..<Suc n] sm = Inr sm2"
      using sm1(1) sm2(1) by (simp add: fold_res_append)
    show "partition_registered T sm2 p" if "p < Suc n" for p
      using that sm1(3) sm2(3,5) Suc.prems(2) by (cases "p = n") auto
  qed (use sm1(4) sm2(2,4) in simp_all)
qed

lemma fresh_table_empty: "fresh_table T s smbs t \<Longrightarrow> st_map T t = Map.empty"
  by (rule new_table_empty)

lemma TatpPopulator_init_inv:
  assumes laws: "tbb_laws T" and parts: "0 < partitions cfg" "partitions cfg \<le> MAX_PARTITION_CNT"
  obtains sm where "TatpPopulator_init T cfg StorageManager_new = Inr sm" "tatp_inv T cfg sm"
    "table_map T sm SUBSCRIBER_TABLE_ID = Map.empty"
    "\<And>p. p < partitions cfg \<Longrightarrow> table_map T sm (SPECIAL_FACILITY_TABLE_ID + p) = Map.empty"
    "\<And>p. p < partitions cfg \<Longrightarrow> table_map T sm (CALL_FORWARDING_TABLE_ID + p) = Map.empty"
    "\<And>p. p < partitions cfg \<Longrightarrow> table_map T sm (ACCESS_INFO_TABLE_ID + p) = Map.empty"
proof -
  obtain t where t: "registerTable_indexed T SUBSCRIBER_TABLE_ID subscriber_schema [IndexInfo HASHMAP [1] 1] 1
        StorageManager_new = Inr (StorageManager_new(SUBSCRIBER_TABLE_ID \<mapsto> t))"
      "fresh_table T subscriber_schema [size_t_symbol [1]] t"
    using register_fresh_indexed [OF laws tatp_registers(1), of 1 SUBSCRIBER_TABLE_ID StorageManager_new] by auto
  let ?sm = "StorageManager_new(SUBSCRIBER_TABLE_ID \<mapsto> t)"
  have inv: "sm_inv T ?sm"
    using t(2) by (intro sm_inv_update sm_inv_new) (simp add: fresh_table_def)
  obtain sm' where sm': "fold_res (register_partition T) [0..<partitions cfg] ?sm = Inr sm'" "sm_inv T sm'"
    "\<And>p. p < partitions cfg \<Longrightarrow> partition_registered T sm' p" "sm' SUBSCRIBER_TABLE_ID = ?sm SUBSCRIBER_TABLE_ID"
    using register_partitions_spec [OF laws inv parts(2)] by metis
  have unit: "bnd r (fold_res (register_partition T) []) = r" for r
    by (cases r) simp_all
  have "TatpPopulator_init T cfg StorageManager_new = Inr sm'"
    using t(1) sm'(1) by (simp add: TatpPopulator_init_def res_simps partitions_def unit split: if_splits)
  moreover have "table_ok sm' i s smbs" if "\<exists>t. sm' i = Some t \<and> fresh_table T s smbs t" for i s smbs
    using that by (auto simp: table_ok_def fresh_table_def)
  then have "tatp_inv T cfg sm'"
    using sm'(2-4) t(2) parts
    by (simp add: tatp_inv_def partition_registered_def)
  moreover have "table_map T sm' SUBSCRIBER_TABLE_ID = Map.empty"
    using sm'(4) fresh_table_empty [OF t(2)] by (simp add: table_map_def)
  moreover have "table_map T sm' (SPECIAL_FACILITY_TABLE_ID + p) = Map.empty"
    "table_map T sm' (CALL_FORWARDING_TABLE_ID + p) = Map.empty"
    "table_map T sm' (ACCESS_INFO_TABLE_ID + p) = Map.empty" if "p < partitions cfg" for p
    using sm'(3) [OF that] fresh_table_empty by (auto simp: partition_registered_def table_map_def)
  ultimately show thesis using that by blast
qed

end
