(* ===== verification/RecordViews.thy ===== *)
theory RecordViews
  imports SchemaTable
begin

text \<open>
  How a caller looks at the records of a table: \<open>Record\<close> and \<open>ConstRecord\<close> as a schema and a pointer
  (storage/Record.h), and \<open>ConstRecords\<close>, the read-only copy of the array of pointers a select
  of several records gives (storage/Records.h). The pointers point into the table: what is read through
  them is the memory of the table at the time of reading.
\<close>

section \<open>Pointers to records\<close>

record table_record =
  tr_schema :: schema
  tr_ptr :: "addr option"

definition Record_null :: "schema \<Rightarrow> table_record" where
  "Record_null s = \<lparr>tr_schema = s, tr_ptr = None\<rparr>"

definition Record_at :: "schema \<Rightarrow> addr \<Rightarrow> table_record" where
  "Record_at s a = \<lparr>tr_schema = s, tr_ptr = Some a\<rparr>"

definition ConstRecord_null :: "schema \<Rightarrow> table_record" where
  "ConstRecord_null s = \<lparr>tr_schema = s, tr_ptr = None\<rparr>"

definition ConstRecord_at :: "schema \<Rightarrow> addr \<Rightarrow> table_record" where
  "ConstRecord_at s a = \<lparr>tr_schema = s, tr_ptr = Some a\<rparr>"

definition ConstRecord_of :: "table_record \<Rightarrow> table_record" where
  "ConstRecord_of r = \<lparr>tr_schema = tr_schema r, tr_ptr = tr_ptr r\<rparr>"

definition Record_getSchema :: "table_record \<Rightarrow> schema" where
  "Record_getSchema r = tr_schema r"

definition ConstRecord_fetchData :: "table_record \<Rightarrow> addr option" where
  "ConstRecord_fetchData r = tr_ptr r"

text \<open>The address of a column. Adding to a null pointer is undefined behaviour.\<close>

definition column_pointer :: "schema \<Rightarrow> addr option \<Rightarrow> nat \<Rightarrow> addr result" where
  "column_pointer s p i =
     bnd (getColumnOffset s i) (\<lambda>off.
     case p of None \<Rightarrow> Inl NullPointer | Some a \<Rightarrow> Inr (addr_plus a off))"

definition Record_getColumn :: "table_record \<Rightarrow> nat \<Rightarrow> addr result" where
  "Record_getColumn r i = column_pointer (tr_schema r) (tr_ptr r) i"

definition ConstRecord_getColumn :: "table_record \<Rightarrow> nat \<Rightarrow> addr result" where
  "ConstRecord_getColumn r i = column_pointer (tr_schema r) (tr_ptr r) i"

definition Record_getColumnSize :: "table_record \<Rightarrow> nat \<Rightarrow> nat result" where
  "Record_getColumnSize r i = getColumnSize (tr_schema r) i"

definition Record_getRecordSize :: "table_record \<Rightarrow> nat" where
  "Record_getRecordSize r = getSchemaSize (tr_schema r)"

definition Record_getColumnCount :: "table_record \<Rightarrow> nat" where
  "Record_getColumnCount r = Schema_getColumnCount (tr_schema r)"

definition ConstRecord_getColumnSize :: "table_record \<Rightarrow> nat \<Rightarrow> nat result" where
  "ConstRecord_getColumnSize r i = getColumnSize (tr_schema r) i"

definition ConstRecord_getRecordSize :: "table_record \<Rightarrow> nat" where
  "ConstRecord_getRecordSize r = getSchemaSize (tr_schema r)"

definition ConstRecord_getColumnCount :: "table_record \<Rightarrow> nat" where
  "ConstRecord_getColumnCount r = Schema_getColumnCount (tr_schema r)"

section \<open>Arrays of records\<close>

text \<open>A copy of \<open>Records\<close> has an array of its own with the same pointers and the same room.\<close>

definition Records_copy :: "records \<Rightarrow> records" where
  "Records_copy r = \<lparr>data_ptrs = data_ptrs r, allocated_record_num = allocated_record_num r\<rparr>"

definition Records_getColumnSize :: "schema \<Rightarrow> nat \<Rightarrow> nat result" where
  "Records_getColumnSize s i = getColumnSize s i"

definition Records_getRecordSize :: "schema \<Rightarrow> nat" where
  "Records_getRecordSize s = getSchemaSize s"

definition Records_getColumnCount :: "schema \<Rightarrow> nat" where
  "Records_getColumnCount s = Schema_getColumnCount s"

record const_records =
  cr_schema :: schema
  cr_ptrs :: "addr list"

definition ConstRecords_of :: "schema \<Rightarrow> records \<Rightarrow> const_records" where
  "ConstRecords_of s r = \<lparr>cr_schema = s, cr_ptrs = take (getRecordNum r) (data_ptrs r)\<rparr>"

definition ConstRecords_copy :: "const_records \<Rightarrow> const_records" where
  "ConstRecords_copy r = \<lparr>cr_schema = cr_schema r, cr_ptrs = cr_ptrs r\<rparr>"

definition ConstRecords_getRecordNum :: "const_records \<Rightarrow> nat" where
  "ConstRecords_getRecordNum r = length (cr_ptrs r)"

definition ConstRecords_getRecord :: "const_records \<Rightarrow> nat \<Rightarrow> table_record result" where
  "ConstRecords_getRecord r i =
     (if i < length (cr_ptrs r) then Inr (ConstRecord_at (cr_schema r) (cr_ptrs r ! i)) else Inl BadAccess)"

definition ConstRecords_getColumn :: "const_records \<Rightarrow> nat \<Rightarrow> nat \<Rightarrow> addr result" where
  "ConstRecords_getColumn r i c =
     (if i < length (cr_ptrs r) then column_pointer (cr_schema r) (Some (cr_ptrs r ! i)) c else Inl BadAccess)"

section \<open>Reading through the pointers\<close>

lemma bytes_at_part: "off + n \<le> m \<Longrightarrow> bytes_at d (o1 + off) n = seg off n (bytes_at d o1 m)"
  by (rule nth_equalityI) (auto simp: bytes_at_def seg_def add.assoc)

lemma mem_read_part:
  assumes "mem_read bs a m = Inr v" "off + n \<le> m"
  shows "mem_read bs (addr_plus a off) n = Inr (seg off n v)"
  using assms bytes_at_part [OF assms(2), of "blk_data (bs ! addr_block a)" "addr_off a"]
  by (auto simp: mem_read_def split: if_splits)

lemma column_pointer_reads:
  assumes inv: "st_inv T t" and a: "a \<in> st_live t" and i: "i < column_count (st_schema t)"
  shows "column_pointer (st_schema t) (Some a) i = Inr (addr_plus a (col_off (st_schema t) i))"
    and "mem_read (blocks (st_base t)) (addr_plus a (col_off (st_schema t) i)) (col_size (st_schema t) i) =
      Inr (col_data (st_schema t) i (st_bytes t a))"
proof -
  note s = st_invD [OF inv]
  show "column_pointer (st_schema t) (Some a) i = Inr (addr_plus a (col_off (st_schema t) i))"
    using s(4) i by (simp add: column_pointer_def res_simps)
  have "mem_read (blocks (st_base t)) a (getSchemaSize (st_schema t)) = Inr (st_bytes t a)"
    using read_live [OF s(6) a] s(7) by (simp add: BaseTable_read_def)
  then show "mem_read (blocks (st_base t)) (addr_plus a (col_off (st_schema t) i)) (col_size (st_schema t) i) =
      Inr (col_data (st_schema t) i (st_bytes t a))"
    unfolding col_data_def by (rule mem_read_part [OF _ column_in_record [OF s(4) i]])
qed

end
