(* ===== verification/StorageProperties.thy ===== *)
theory StorageProperties
  imports TatpProcessor RecordViews
begin

text \<open>
  What the storage engine (src/storage) promises its clients: a base table stores records under
  addresses, an iterator visits them in order, a schema lays columns out without overlap, keys
  identify the columns they are made of, and a table with a primary index is a map from keys to
  rows. The histories of a table (\<open>history\<close>) are the sequences of calls a single client can make.
  The last section has the behaviours a client has to avoid.
\<close>

section \<open>Histories of a base table\<close>

inductive history ::
  "('q, 'h, 'm) tbb \<Rightarrow> nat \<Rightarrow> 'q base_table \<Rightarrow> (addr \<Rightarrow> bytes option) \<Rightarrow> bool" for T rs where
  h_new: "history T rs (BaseTable_new T rs) Map.empty"
| h_insert:
    "history T rs t m \<Longrightarrow> rs \<le> length rec \<Longrightarrow> BaseTable_insertRecord T rec t = Inr (a, t') \<Longrightarrow>
     history T rs t' (m(a \<mapsto> take rs rec))"
| h_delete:
    "history T rs t m \<Longrightarrow> m a \<noteq> None \<Longrightarrow> BaseTable_deleteRecord T a t = Inr t' \<Longrightarrow>
     history T rs t' (m(a := None))"
| h_write:
    "history T rs t m \<Longrightarrow> m a = Some v \<Longrightarrow> off + length w \<le> rs \<Longrightarrow> BaseTable_write a off w t = Inr t' \<Longrightarrow>
     history T rs t' (m(a \<mapsto> patch off w v))"
| h_clear: "history T rs t m \<Longrightarrow> history T rs (BaseTable_clear T t) Map.empty"

inductive_simps history_new_iff: "history T rs (BaseTable_new T rs) m"

text \<open>The table holds the records of the map.\<close>

definition holds :: "('q, 'h, 'm) tbb \<Rightarrow> nat \<Rightarrow> 'q base_table \<Rightarrow> (addr \<Rightarrow> bytes option) \<Rightarrow> bool" where
  "holds T rs t m \<longleftrightarrow>
     bt_inv T t \<and> record_size t = rs \<and> dom m = set (live_records t) \<and>
     (\<forall>a v. m a = Some v \<longrightarrow> record_bytes t a = v)"

lemma holds_live: "holds T rs t m \<Longrightarrow> m a = Some v \<Longrightarrow> a \<in> set (live_records t) \<and> record_bytes t a = v"
  by (auto simp: holds_def)

lemma holds_insert:
  assumes "holds T rs t m" "rs \<le> length rec"
  obtains a t' where "BaseTable_insertRecord T rec t = Inr (a, t')" "m a = None"
    "holds T rs t' (m(a \<mapsto> take rs rec))"
proof -
  have inv: "bt_inv T t" "record_size t \<le> length rec" using assms by (simp_all add: holds_def)
  obtain a t' where t': "BaseTable_insertRecord T rec t = Inr (a, t')" "bt_inv T t'"
    "record_size t' = record_size t" "a \<notin> set (live_records t)"
    "set (live_records t') = insert a (set (live_records t))"
    "record_bytes t' a = take (record_size t) rec"
    "\<And>x. x \<in> set (live_records t) \<Longrightarrow> record_bytes t' x = record_bytes t x"
    by (fact bt.insE [OF inv])
  moreover have "m a = None" using assms(1) t'(4) by (auto simp: holds_def)
  moreover have "holds T rs t' (m(a \<mapsto> take rs rec))"
    using assms(1) t' holds_live [OF assms(1)] by (auto simp: holds_def)
  ultimately show thesis using that by blast
qed

lemma holds_delete:
  assumes "holds T rs t m" "m a \<noteq> None"
  obtains t' where "BaseTable_deleteRecord T a t = Inr t'" "holds T rs t' (m(a := None))"
proof -
  have inv: "bt_inv T t" "a \<in> set (live_records t)" using assms by (auto simp: holds_def)
  obtain t' where t': "BaseTable_deleteRecord T a t = Inr t'" "bt_inv T t'"
    "record_size t' = record_size t" "set (live_records t') = set (live_records t) - {a}"
    "\<And>x. x \<in> set (live_records t) \<Longrightarrow> record_bytes t' x = record_bytes t x"
    "BaseTable_read t' a = Inr (record_bytes t a)"
    by (fact bt.delE [OF inv])
  moreover have "holds T rs t' (m(a := None))"
    using assms(1) t' holds_live [OF assms(1)] by (auto simp: holds_def)
  ultimately show thesis using that by blast
qed

lemma holds_write:
  assumes "holds T rs t m" "m a = Some v" "off + length w \<le> rs"
  obtains t' where "BaseTable_write a off w t = Inr t'" "holds T rs t' (m(a \<mapsto> patch off w v))"
proof -
  have inv: "bt_inv T t" "a \<in> set (live_records t)" "off + length w \<le> record_size t"
    using assms by (auto simp: holds_def)
  obtain t' where t': "BaseTable_write a off w t = Inr t'" "bt_inv T t'"
    "record_size t' = record_size t" "set (live_records t') = set (live_records t)"
    "record_bytes t' a = patch off w (record_bytes t a)"
    "\<And>x. x \<in> set (live_records t) \<Longrightarrow> x \<noteq> a \<Longrightarrow> record_bytes t' x = record_bytes t x"
    by (fact bt.updE [OF inv])
  moreover have "holds T rs t' (m(a \<mapsto> patch off w v))"
    using assms t' holds_live [OF assms(1)] by (auto simp: holds_def)
  ultimately show thesis using that by blast
qed

lemma history_holds:
  assumes "queue_laws T" "0 < kBlockSize div (rs + 8)" "history T rs t m"
  shows "holds T rs t m"
  using assms(3)
proof (induction rule: history.induct)
  case h_new
  then show ?case
    using bt_inv_new [OF assms(1,2)] by (simp add: holds_def BaseTable_new_def)
next
  case (h_insert t m rec a t')
  then show ?case using h_insert.hyps by (cases rule: holds_insert [OF h_insert.IH h_insert.hyps(2)]) (auto simp: fun_upd_def)
next
  case (h_delete t m a t')
  then show ?case using h_delete.hyps by (cases rule: holds_delete [OF h_delete.IH h_delete.hyps(2)]) (auto simp: fun_upd_def)
next
  case (h_write t m a v off w t')
  then show ?case using h_write.hyps by (cases rule: holds_write [OF h_write.IH h_write.hyps(2,3)]) (auto simp: fun_upd_def)
next
  case (h_clear t m)
  then show ?case
    using bt_inv_clear [of T t] by (auto simp: holds_def BaseTable_clear_def)
qed

lemma holds_read: "holds T rs t m \<Longrightarrow> m a = Some v \<Longrightarrow> BaseTable_read t a = Inr v"
  using read_live [of T t a] by (auto simp: holds_def)

lemma sorted_live_records:
  assumes "bt_geometry t"
  shows "sorted (live_records t)"
proof -
  have "record_addr t s < record_addr t s'" if "s < s'" for s s'
    using slot_addr_strict_mono [OF assms that] by (auto simp: record_addr_def less_addr_def)
  then have "sorted_wrt (<) (map (record_addr t) [0..<slot_count t])"
    by (simp add: sorted_wrt_map sorted_wrt_mono_rel [of _ "(<)"])
  then have "sorted_wrt (<) (live_records t)"
    unfolding live_records_def live_slots_def by (simp add: sorted_wrt_map sorted_wrt_filter)
  then show ?thesis by (rule strict_sorted_imp_sorted)
qed

section \<open>Records\<close>

text \<open>C24: After any history of insertions, deletions, writes and clears, a base table counts its records, reads
  back at every address what was last stored there, and takes a further record of the record size
  at an address that is not in use.\<close>

theorem base_table_history:
  assumes "queue_laws T" "0 < kBlockSize div (rs + 8)" "history T rs t m"
  shows "getTableSize t = card (dom m) \<and>
    (\<forall>a. m a \<noteq> None \<longrightarrow> BaseTable_read t a = Inr (the (m a))) \<and>
    (\<forall>rec. rs \<le> length rec \<longrightarrow> (\<exists>a t'. BaseTable_insertRecord T rec t = Inr (a, t') \<and> m a = None))"
proof -
  note h = history_holds [OF assms]
  have inv: "bt_inv T t" "bt_geometry t" "dom m = set (live_records t)"
    using h by (simp_all add: holds_def bt_inv_def)
  have "getTableSize t = card (dom m)"
    using getTableSize_live [OF inv(1)] distinct_card [OF distinct_live_records [OF inv(2)]] inv(3) by simp
  moreover have "BaseTable_read t a = Inr (the (m a))" if "m a \<noteq> None" for a
    using holds_read [OF h] that by auto
  moreover have "\<exists>a t'. BaseTable_insertRecord T rec t = Inr (a, t') \<and> m a = None" if "rs \<le> length rec" for rec
    by (cases rule: holds_insert [OF h that]) blast
  ultimately show ?thesis by blast
qed

text \<open>A history: a record of three bytes is inserted into an empty table.\<close>

lemma sample_history:
  obtains a t where "history list_tbb 3 t [a \<mapsto> [1, 2, 3]]"
proof -
  have "holds list_tbb 3 (BaseTable_new list_tbb 3) Map.empty"
    by (rule history_holds [OF list_queue_laws _ h_new]) (simp add: kBlockSize_def)
  then obtain a t where "BaseTable_insertRecord list_tbb [1, 2, 3] (BaseTable_new list_tbb 3) = Inr (a, t)"
    by (cases rule: holds_insert [where rec = "[1, 2, 3]"]) auto
  then have "history list_tbb 3 t (Map.empty(a \<mapsto> take 3 [1, 2, 3]))"
    by (intro h_insert [OF h_new]) simp_all
  then show thesis using that [of t a] by simp
qed

lemma base_table_history_witness:
  "\<exists>t a. history list_tbb 3 t [a \<mapsto> [1, 2, 3]] \<and> getTableSize t = 1 \<and> BaseTable_read t a = Inr [1, 2, 3]"
proof -
  obtain a t where h: "history list_tbb 3 t [a \<mapsto> [1, 2, 3]]"
    by (rule sample_history)
  have "getTableSize t = card (dom [a \<mapsto> [1, 2, 3 :: byte]]) \<and> BaseTable_read t a = Inr [1, 2, 3]"
    using base_table_history [OF list_queue_laws _ h] by (simp add: kBlockSize_def)
  then show ?thesis using h by auto
qed

text \<open>C31: An iterator over a table that has a block visits the addresses of the stored records, each once and in
  increasing order, and then ends; on a table that never got a record there is no first block to
  start from and the access is out of bounds.\<close>

theorem iterator_visits:
  assumes "queue_laws T" "0 < kBlockSize div (rs + 8)" "history T rs t m"
  shows "if blocks t = [] then getIterator t = Inl BadAccess
    else \<exists>it visited. getIterator t = Inr it \<and> iterate (blocks t) it [] = Some (Inr visited) \<and>
      sorted visited \<and> distinct visited \<and> set visited = dom m"
proof (cases "blocks t = []")
  case True
  then show ?thesis by (simp add: getIterator_def)
next
  case False
  note h = history_holds [OF assms]
  have geo: "bt_geometry t" "dom m = set (live_records t)"
    using h by (simp_all add: holds_def bt_inv_def)
  obtain it where it: "getIterator t = Inr it" "it_at t it 0"
    using getIterator_at [OF geo(1) False] by metis
  have "iterate (blocks t) it [] = Some (Inr (live_records t))"
    using iterate_spec [OF geo(1) it(2), of "[]"] by (simp add: live_from_0 live_records_def)
  then show ?thesis
    using False it(1) geo(2) sorted_live_records [OF geo(1)] distinct_live_records [OF geo(1)] by auto
qed

lemma iterator_visits_witness:
  "\<exists>t a it. history list_tbb 3 t [a \<mapsto> [1, 2, 3]] \<and>
     (blocks t = [] \<longrightarrow> getIterator t = Inl BadAccess) \<and>
     (blocks t \<noteq> [] \<longrightarrow> getIterator t = Inr it \<and> iterate (blocks t) it [] = Some (Inr [a]))"
proof -
  obtain a t where h: "history list_tbb 3 t [a \<mapsto> [1, 2, 3]]"
    by (rule sample_history)
  have v: "xs = [a]" if "distinct xs" "set xs = dom [a \<mapsto> [1, 2, 3 :: byte]]" for xs
    using that by (cases xs) (auto simp: subset_singleton_iff)
  show ?thesis
    using iterator_visits [OF list_queue_laws _ h] h v
    by (simp add: kBlockSize_def split: if_splits) blast+
qed

section \<open>Schemas and keys\<close>

lemma fold_insertColumn:
  assumes "fold_res insertColumn cs s = Inr s'" "next_column_offset s + size_of_columns cs < 2 ^ 64" "schema_inv s"
  shows "columns s' = columns s @ map (\<lambda>i. (cs ! i)\<lparr>column_offset := next_column_offset s + size_of_columns (take i cs)\<rparr>) [0..<length cs]"
    and "schema_inv s'"
proof -
  have "columns s' = columns s @ map (\<lambda>i. (cs ! i)\<lparr>column_offset := next_column_offset s + size_of_columns (take i cs)\<rparr>) [0..<length cs] \<and>
      schema_inv s'"
    using assms
  proof (induction cs arbitrary: s)
    case (Cons c cs)
    obtain s1 where s1: "insertColumn c s = Inr s1" "fold_res insertColumn cs s1 = Inr s'"
      using Cons.prems(1) by (auto simp: bnd_eq_Inr)
    have small: "next_column_offset s + column_size c + size_of_columns cs < 2 ^ 64" using Cons.prems(2) by (simp add: add.assoc)
    then have n: "next_column_offset s1 = next_column_offset s + column_size c" "schema_inv s1"
      using insertColumn_cases(3) [OF s1(1)] insertColumn_inv [OF Cons.prems(3) s1(1)] by (simp_all add: size_add_eq)
    have upt: "map f [0..<length (c # cs)] = f 0 # map (\<lambda>i. f (Suc i)) [0..<length cs]" for f :: "nat \<Rightarrow> column_info"
      by (simp add: upt_conv_Cons map_Suc_upt [symmetric] del: upt_Suc)
    show ?case
      using Cons.IH [OF s1(2)] n small insertColumn_cases(1) [OF s1(1)] unfolding upt by (simp add: add.assoc)
  qed simp
  then show "columns s' = columns s @ map (\<lambda>i. (cs ! i)\<lparr>column_offset := next_column_offset s + size_of_columns (take i cs)\<rparr>) [0..<length cs]"
    "schema_inv s'" by blast+
qed

text \<open>C39: Inserting columns into an empty schema, if it succeeds and the sizes add up to less than 2 to the 64 (the size
  \<open>size_t\<close> wraps at), lays the columns out next to each other in the order of insertion: column number i is
  the i-th one inserted, with its name, type, size and mark, at the offset that is the sum of the sizes of
  those before it; the record is as long as the columns together, each column is inside the record and no
  two overlap. The primary columns are the marked ones, in order. A further insertion fails, by its
  assertion, exactly for a primary column when there are five primary columns already.\<close>

theorem schema_columns:
  assumes "fold_res insertColumn cs Schema_new = Inr s" "size_of_columns cs < 2 ^ 64"
  shows "column_count s = length cs \<and> getSchemaSize s = size_of_columns cs \<and>
    (\<forall>i < length cs. columns s ! i = (cs ! i)\<lparr>column_offset := size_of_columns (take i cs)\<rparr> \<and>
       col_off s i = size_of_columns (take i cs) \<and> col_size s i = column_size (cs ! i) \<and>
       col_off s i + col_size s i \<le> getSchemaSize s) \<and>
    (\<forall>i < length cs. \<forall>j < i. col_off s j + col_size s j \<le> col_off s i) \<and>
    primary_cols s = filter (\<lambda>i. is_primary (cs ! i)) [0..<length cs] \<and>
    (\<forall>c. case insertColumn c s of
           Inl e \<Rightarrow> e = AssertionFailed \<and> is_primary c \<and> length (primary_cols s) = 5
         | Inr _ \<Rightarrow> \<not> (is_primary c \<and> length (primary_cols s) = 5))"
proof -
  have cols: "columns s = map (\<lambda>i. (cs ! i)\<lparr>column_offset := size_of_columns (take i cs)\<rparr>) [0..<length cs]"
    and inv: "schema_inv s"
    using fold_insertColumn [OF assms(1) _ schema_inv_new] assms(2) by (simp_all add: Schema_new_def)
  have sizes: "map column_size (columns s) = map column_size cs"
    unfolding cols by (rule nth_equalityI) simp_all
  then have n: "column_count s = length cs" "getSchemaSize s = size_of_columns cs"
    using inv by (simp_all add: schema_inv_def getSchemaSize_def size_of_columns_def cols)
  have nth: "columns s ! i = (cs ! i)\<lparr>column_offset := size_of_columns (take i cs)\<rparr>" if "i < length cs" for i
    using that by (simp add: cols)
  have pc: "primary_cols s = filter (\<lambda>i. is_primary (cs ! i)) [0..<length cs]"
    using inv nth by (auto simp: schema_inv_def primary_ids_def cols intro!: filter_cong)
  have num: "length (primary_cols s) = primary_col_num s" "primary_col_num s \<le> 5"
    using inv unfolding schema_inv_def by argo+
  have last: "case insertColumn c s of
      Inl e \<Rightarrow> e = AssertionFailed \<and> is_primary c \<and> length (primary_cols s) = 5
    | Inr _ \<Rightarrow> \<not> (is_primary c \<and> length (primary_cols s) = 5)" for c
  proof (cases "is_primary c \<and> \<not> primary_col_num s < 5")
    case True
    then show ?thesis using insertColumn_sixth_primary [of c s] num by simp
  next
    case False
    then obtain s' where "insertColumn c s = Inr s'" using insertColumn_returns [of s c] by blast
    then show ?thesis using False num by auto
  qed
  have "\<forall>i < length cs. \<forall>j < i. col_off s j + col_size s j \<le> col_off s i"
    using columns_ordered [OF inv] n(1) by simp
  moreover have "\<forall>i < length cs. col_off s i + col_size s i \<le> getSchemaSize s"
    using column_in_record [OF inv] n(1) by simp
  ultimately show ?thesis
    using n nth pc last by (simp add: col_off_def col_size_def)
qed

lemma schema_columns_witness:
  "case fold_res insertColumn
     [\<lparr>column_name = ''id'', column_type = INT32, column_size = 4, column_offset = 0, is_primary = True\<rparr>,
      \<lparr>column_name = ''name'', column_type = VARCHAR, column_size = 9, column_offset = 0, is_primary = False\<rparr>]
     Schema_new of
     Inl e \<Rightarrow> False
   | Inr s \<Rightarrow> getSchemaSize s = 13 \<and> primary_cols s = [0] \<and> column_count s = 2"
proof -
  let ?cs = "[\<lparr>column_name = ''id'', column_type = INT32, column_size = 4, column_offset = 0, is_primary = True\<rparr>,
      \<lparr>column_name = ''name'', column_type = VARCHAR, column_size = 9, column_offset = 0, is_primary = False\<rparr>]"
  have "\<not> isl (fold_res insertColumn ?cs Schema_new)" by code_simp
  then obtain s where s: "fold_res insertColumn ?cs Schema_new = Inr s" by (auto dest: not_isl_Inr)
  show ?thesis using schema_columns [OF s] s by simp
qed

lemma col_data_set_col_prefix:
  assumes "schema_inv s" "i < column_count s" "length v \<le> col_size s i" "length buf = getSchemaSize s"
  shows "col_data s i (set_col s i v buf) = v @ drop (length v) (col_data s i buf)"
  using assms(3,4) column_in_record [OF assms(1,2)]
  by (simp add: col_data_def set_col_def seg_def patch_def drop_take add.commute)

text \<open>What a write of a column's first bytes does to the columns of a record.\<close>

lemma stored_column:
  assumes "schema_inv s" "i < column_count s" "length buf = getSchemaSize s" "length w \<le> col_size s i"
  shows "length (set_col s i w buf) = length buf"
    and "column_bytes s (set_col s i w buf) i = Inr (w @ drop (length w) (col_data s i buf))"
    and "\<forall>j < column_count s. j \<noteq> i \<longrightarrow> column_bytes s (set_col s i w buf) j = column_bytes s buf j"
  using length_set_col [OF assms(1,2), of w buf] column_bytes_eq [OF assms(1)]
    col_data_set_col_prefix [OF assms(1,2,4,3)]
    col_data_set_col_other [OF assms(1,2), of _ w buf] assms(2-4) by simp_all

lemma fixed_column_roundtrip:
  assumes "schema_inv s" "i < column_count s" "length buf = getSchemaSize s"
    and "column_type (columns s ! i) \<noteq> VARCHAR" "col_size s i \<le> length v"
  defines "buf' \<equiv> set_col s i (take (col_size s i) v) buf"
  shows "setColumn i v \<lparr>lr_schema = s, lr_data = Some buf\<rparr> = Inr \<lparr>lr_schema = s, lr_data = Some buf'\<rparr>"
    and "ConstRecord_getColumn_copy s buf' i = Inr (take (col_size s i) v)"
    and "Record_getColumn_copy s buf' i = Inl AssertionFailed"
    and "Record_getColumn_CharArray s buf' i = Inl AssertionFailed"
    and "Record_getColumn_string s buf' i = Inl AssertionFailed"
proof -
  show "setColumn i v \<lparr>lr_schema = s, lr_data = Some buf\<rparr> = Inr \<lparr>lr_schema = s, lr_data = Some buf'\<rparr>"
    using setColumn_eq [of "\<lparr>lr_schema = s, lr_data = Some buf\<rparr>" i v buf] assms by simp
  have "length (col_data s i buf) = col_size s i" using length_col_data [OF assms(1,2), of buf] assms(3) by simp
  then have "column_bytes s buf' i = Inr (take (col_size s i) v)"
    using stored_column(2) [OF assms(1-3), of "take (col_size s i) v"] assms(5) by (simp add: buf'_def)
  then show "ConstRecord_getColumn_copy s buf' i = Inr (take (col_size s i) v)"
    "Record_getColumn_copy s buf' i = Inl AssertionFailed"
    "Record_getColumn_CharArray s buf' i = Inl AssertionFailed"
    "Record_getColumn_string s buf' i = Inl AssertionFailed"
    using assms(1,2,4)
    by (simp_all add: ConstRecord_getColumn_copy_def Record_getColumn_copy_def Record_getColumn_CharArray_def
        Record_getColumn_string_def getColumnType_eq assert_that_fails)
qed

lemma sized_column_roundtrip:
  assumes "schema_inv s" "i < column_count s" "length buf = getSchemaSize s"
    and "column_type (columns s ! i) = VARCHAR" "n \<le> col_size s i" "n \<le> length v"
  defines "buf' \<equiv> set_col s i (take n v) buf" and "whole \<equiv> take n v @ drop n (col_data s i buf)"
  shows "setColumn_sized i v n \<lparr>lr_schema = s, lr_data = Some buf\<rparr> = Inr \<lparr>lr_schema = s, lr_data = Some buf'\<rparr>"
    and "Record_getColumn_copy s buf' i = Inr whole"
    and "Record_getColumn_CharArray s buf' i = Inr whole"
    and "ConstRecord_getColumn_CharArray s buf' i = Inr whole"
    and "ConstRecord_getColumn_copy s buf' i = Inl AssertionFailed"
proof -
  show "setColumn_sized i v n \<lparr>lr_schema = s, lr_data = Some buf\<rparr> = Inr \<lparr>lr_schema = s, lr_data = Some buf'\<rparr>"
    using setColumn_sized_eq [of "\<lparr>lr_schema = s, lr_data = Some buf\<rparr>" i n v buf] assms by simp
  have "column_bytes s buf' i = Inr whole"
    using stored_column(2) [OF assms(1-3), of "take n v"] assms(5,6) by (simp add: buf'_def whole_def)
  then show "Record_getColumn_copy s buf' i = Inr whole" "Record_getColumn_CharArray s buf' i = Inr whole"
    "ConstRecord_getColumn_CharArray s buf' i = Inr whole" "ConstRecord_getColumn_copy s buf' i = Inl AssertionFailed"
    using assms(1,2,4)
    by (simp_all add: ConstRecord_getColumn_copy_def Record_getColumn_copy_def Record_getColumn_CharArray_def
        ConstRecord_getColumn_CharArray_def getColumnType_eq assert_that_fails)
qed

lemma string_column_roundtrip:
  assumes "schema_inv s" "i < column_count s" "length buf = getSchemaSize s"
    and "column_type (columns s ! i) = VARCHAR" "n \<le> col_size s i" "n \<le> length v" "0 \<in> set (take n v)"
  shows "Record_getColumn_string s (set_col s i (take n v) buf) i = Inr (takeWhile (\<lambda>b. b \<noteq> 0) (take n v))"
proof -
  have at: "drop (col_off s i) (set_col s i (take n v) buf) = take n v @ drop (col_off s i + n) buf"
    using column_in_record [OF assms(1,2)] assms(3,6) by (simp add: set_col_def patch_def)
  have "length (takeWhile (\<lambda>b. b \<noteq> 0) (take n v)) \<le> col_size s i"
    using length_takeWhile_le [of "\<lambda>b. b \<noteq> 0" "take n v"] assms(5) by simp
  moreover have "takeWhile (\<lambda>b. b \<noteq> 0) (take n v @ bs) = takeWhile (\<lambda>b. b \<noteq> 0) (take n v)" for bs
    using assms(7) by (intro takeWhile_append1) auto
  ultimately show ?thesis
    using assms(1,2,4,7) by (simp add: Record_getColumn_string_def res_simps at c_string_def)
qed

text \<open>C40: A column set in a record is read back, and no other column changes. In a column of a fixed size
  \<open>setColumn\<close> stores the value cut to the width of the column; \<open>ConstRecord\<close> copies it out again, while the
  getters of \<open>Record\<close> that copy (into a buffer, a \<open>CharArray\<close> or a string) fail their assertion: the one for
  buffers asserts the type \<open>VARCHAR\<close> where that of \<open>ConstRecord\<close> asserts the opposite. In a \<open>VARCHAR\<close> column
  the setter that is given a size (at most that of the column) stores that many bytes and leaves the rest of the
  column as it was; the getters that copy to a buffer or a \<open>CharArray\<close> give the whole column with the old rest, and the one for strings gives the value up to
  its first zero byte, if it has one.\<close>

theorem column_roundtrip:
  assumes "schema_inv s" "i < column_count s" "length buf = getSchemaSize s"
  defines "rec \<equiv> \<lambda>bytes. \<lparr>lr_schema = s, lr_data = Some bytes\<rparr>"
  shows "(column_type (columns s ! i) \<noteq> VARCHAR \<and> col_size s i \<le> length v \<longrightarrow>
      (\<exists>buf'. setColumn i v (rec buf) = Inr (rec buf') \<and> length buf' = length buf \<and>
         (\<forall>j < column_count s. j \<noteq> i \<longrightarrow> column_bytes s buf' j = column_bytes s buf j) \<and>
         ConstRecord_getColumn_copy s buf' i = Inr (take (col_size s i) v) \<and>
         Record_getColumn_copy s buf' i = Inl AssertionFailed \<and>
         Record_getColumn_CharArray s buf' i = Inl AssertionFailed \<and>
         Record_getColumn_string s buf' i = Inl AssertionFailed)) \<and>
    (column_type (columns s ! i) = VARCHAR \<and> n \<le> col_size s i \<and> n \<le> length v \<longrightarrow>
      (\<exists>buf' rest. setColumn_sized i v n (rec buf) = Inr (rec buf') \<and> length buf' = length buf \<and>
         (\<forall>j < column_count s. j \<noteq> i \<longrightarrow> column_bytes s buf' j = column_bytes s buf j) \<and>
         rest = drop n (col_data s i buf) \<and>
         Record_getColumn_copy s buf' i = Inr (take n v @ rest) \<and>
         Record_getColumn_CharArray s buf' i = Inr (take n v @ rest) \<and>
         ConstRecord_getColumn_CharArray s buf' i = Inr (take n v @ rest) \<and>
         ConstRecord_getColumn_copy s buf' i = Inl AssertionFailed \<and>
         (0 \<in> set (take n v) \<longrightarrow> Record_getColumn_string s buf' i = Inr (takeWhile (\<lambda>b. b \<noteq> 0) (take n v)))))"
proof (intro conjI impI; elim conjE)
  have cut: "length (take m v) \<le> col_size s i" if "m \<le> col_size s i" for m
    using that by simp
  note stored = stored_column(1,3) [OF assms(1-3) cut]
  show "\<exists>buf'. setColumn i v (rec buf) = Inr (rec buf') \<and> length buf' = length buf \<and>
      (\<forall>j < column_count s. j \<noteq> i \<longrightarrow> column_bytes s buf' j = column_bytes s buf j) \<and>
      ConstRecord_getColumn_copy s buf' i = Inr (take (col_size s i) v) \<and>
      Record_getColumn_copy s buf' i = Inl AssertionFailed \<and>
      Record_getColumn_CharArray s buf' i = Inl AssertionFailed \<and>
      Record_getColumn_string s buf' i = Inl AssertionFailed"
    if "column_type (columns s ! i) \<noteq> VARCHAR" "col_size s i \<le> length v"
    unfolding rec_def
    by (intro exI [of _ "set_col s i (take (col_size s i) v) buf"] conjI stored [OF order_refl]
        fixed_column_roundtrip [OF assms(1-3) that])
  show "\<exists>buf' rest. setColumn_sized i v n (rec buf) = Inr (rec buf') \<and> length buf' = length buf \<and>
      (\<forall>j < column_count s. j \<noteq> i \<longrightarrow> column_bytes s buf' j = column_bytes s buf j) \<and>
      rest = drop n (col_data s i buf) \<and>
      Record_getColumn_copy s buf' i = Inr (take n v @ rest) \<and>
      Record_getColumn_CharArray s buf' i = Inr (take n v @ rest) \<and>
      ConstRecord_getColumn_CharArray s buf' i = Inr (take n v @ rest) \<and>
      ConstRecord_getColumn_copy s buf' i = Inl AssertionFailed \<and>
      (0 \<in> set (take n v) \<longrightarrow> Record_getColumn_string s buf' i = Inr (takeWhile (\<lambda>b. b \<noteq> 0) (take n v)))"
    if "column_type (columns s ! i) = VARCHAR" "n \<le> col_size s i" "n \<le> length v"
    unfolding rec_def
    by (intro exI [of _ "set_col s i (take n v) buf"] exI [of _ "drop n (col_data s i buf)"] conjI impI refl
        stored [OF that(2)] sized_column_roundtrip [OF assms(1-3) that] string_column_roundtrip [OF assms(1-3) that])
qed

lemma column_roundtrip_witness:
  "(\<exists>buf'. setColumn 3 [7] \<lparr>lr_schema = call_forwarding_schema, lr_data = Some (replicate 22 0)\<rparr> =
      Inr \<lparr>lr_schema = call_forwarding_schema, lr_data = Some buf'\<rparr> \<and>
    ConstRecord_getColumn_copy call_forwarding_schema buf' 3 = Inr [7]) \<and>
   (\<exists>buf'. setColumn_sized 4 [65, 0] 2 \<lparr>lr_schema = call_forwarding_schema, lr_data = Some (replicate 22 0)\<rparr> =
      Inr \<lparr>lr_schema = call_forwarding_schema, lr_data = Some buf'\<rparr> \<and>
    Record_getColumn_string call_forwarding_schema buf' 4 = Inr [65])"
proof (rule conjI, goal_cases)
  note facts = tatp_schema_inv(4) layout_nth [OF tatp_layouts(3), of 3] layout_nth [OF tatp_layouts(3), of 4] tatp_summaries(4)
  case 1
  then show ?case
    using column_roundtrip [of call_forwarding_schema 3 "replicate 22 0" "[7]" 0] facts by (auto simp: schema_summary_def)
  case 2
  then show ?case
    using column_roundtrip [of call_forwarding_schema 4 "replicate 22 0" "[65, 0]" 2] facts by (auto simp: schema_summary_def)
qed

text \<open>The primary key symbol of a record is exactly as long as the key and tells two records apart exactly when
  they differ in a primary column.\<close>

theorem primary_key_identifies:
  assumes "schema_inv s" "0 < primary_key_length s"
    and "getSchemaSize s \<le> length d" "getSchemaSize s \<le> length d'"
  shows "\<exists>k k'. getPrimaryKeySymbol s d = Inr k \<and> getPrimaryKeySymbol s d' = Inr k' \<and>
    length k = getPrimaryKeyLength s \<and> length k' = getPrimaryKeyLength s \<and>
    (k = k' \<longleftrightarrow> (\<forall>i \<in> set (primary_cols s). column_bytes s d i = column_bytes s d' i))"
proof -
  note valid = primary_cols_valid [OF assms(1)]
  have pk: "primary_key_of s x = key_of s (primary_cols s) x" for x
    using assms(2) by (simp add: primary_key_of_def)
  have "length (key_of s (primary_cols s) x) = getPrimaryKeyLength s" if "getSchemaSize s \<le> length x" for x
    using length_key_of [OF assms(1) valid that] primary_key_length_eq [OF assms(1)]
    by (simp add: getPrimaryKeyLength_def)
  moreover have "column_bytes s x i = Inr (col_data s i x)"
    if "i \<in> set (primary_cols s)" "getSchemaSize s \<le> length x" for i x
    using that valid by (intro column_bytes_eq [OF assms(1)]) (auto simp: cols_valid_def)
  ultimately show ?thesis
    using getPrimaryKeySymbol_eq [OF assms(1)] key_of_eq_iff [OF assms(1) valid assms(3,4)] assms(3,4) pk
    by auto
qed

lemma primary_key_identifies_witness:
  "\<exists>k k'. getPrimaryKeySymbol call_forwarding_schema (replicate 22 0) = Inr k \<and>
    getPrimaryKeySymbol call_forwarding_schema (replicate 22 1) = Inr k' \<and> length k = 6 \<and> length k' = 6"
  using primary_key_identifies [of call_forwarding_schema "replicate 22 0" "replicate 22 1"]
    tatp_schema_inv(4) tatp_summaries(4)
  by (auto simp: schema_summary_def getPrimaryKeyLength_def)

section \<open>Tables\<close>

lemma st_geometry: "st_inv T t \<Longrightarrow> bt_geometry (st_base t)"
  using st_invD(6) by (auto simp: bt_inv_def)

lemma table_size_card: "st_inv T t \<Longrightarrow> getTableSize (st_base t) = card (st_live t)"
  using getTableSize_live [OF st_invD(6)] distinct_card [OF distinct_live_records [OF st_geometry]] by metis

lemma size_added:
  assumes "st_inv T t" "st_inv T t'" "store_added (st_base t) a v (st_base t')"
  shows "getTableSize (st_base t') = getTableSize (st_base t) + 1"
  using assms(3) table_size_card [OF assms(1)] table_size_card [OF assms(2)] by (simp add: store_added_def)

text \<open>C6: Inserting a row under a key that is not in the table extends the map of the table by the row and leaves
  the other rows as they are; every index follows, and the table is one larger.\<close>

theorem table_insert:
  assumes "st_inv T t" "has_primary t" "getSchemaSize (st_schema t) \<le> length data"
    and "st_map T t (primary_key_of (st_schema t) data) = None"
  shows "\<exists>t'. SchemaTable_insertRecord T data t = Inr t' \<and> st_inv T t' \<and>
    st_map T t' = (st_map T t)(primary_key_of (st_schema t) data \<mapsto> table_row (st_schema t) data) \<and>
    getTableSize (st_base t') = getTableSize (st_base t) + 1"
proof -
  have new: "primary_key_of (st_schema t) data \<notin> record_key t ` st_live t"
    using assms(4) unfolding st_map_None_iff [OF assms(1,2)] .
  obtain t' where t': "SchemaTable_insertRecord T data t = Inr t'" "st_inv T t'"
    "st_map T t' = (st_map T t)(primary_key_of (st_schema t) data \<mapsto> table_row (st_schema t) data)"
    by (cases rule: insert_refines [OF assms]) blast
  obtain a t'' where "SchemaTable_insertRecord T data t = Inr t''"
    "store_added (st_base t) a (take (getSchemaSize (st_schema t)) data) (st_base t'')"
    by (cases rule: SchemaTable_insertRecord_spec [OF assms(1,3) new]) blast
  then have "getTableSize (st_base t') = getTableSize (st_base t) + 1"
    using size_added [OF assms(1) t'(2)] t'(1) by simp
  then show ?thesis using t' by blast
qed

text \<open>The table of the witnesses: \<open>CALL_FORWARDING\<close>, as the TATP populator registers it.\<close>

lemma sample_table:
  obtains t where "SchemaTable_new list_tbb call_forwarding_schema = Inr t" "st_inv list_tbb t" "has_primary t"
    "st_schema t = call_forwarding_schema" "st_map list_tbb t = Map.empty" "secondary_index_ptrs t = []"
    "blocks (st_base t) = []" "getTableSize (st_base t) = 0"
proof -
  have s: "schema_inv call_forwarding_schema" "column_count call_forwarding_schema < 2 ^ 64"
      "0 < kBlockSize div (getSchemaSize call_forwarding_schema + 8)"
      "primary_col_num call_forwarding_schema \<noteq> 0 \<Longrightarrow> 0 < primary_key_length call_forwarding_schema"
    using tatp_schema_inv(4) tatp_summaries(4) by (simp_all add: schema_summary_def kBlockSize_def)
  have prim: "primary_col_num call_forwarding_schema \<noteq> 0" by code_simp
  obtain t where t: "SchemaTable_new list_tbb call_forwarding_schema = Inr t" "st_inv list_tbb t" "st_live t = {}"
    "st_schema t = call_forwarding_schema" "secondary_index_ptrs t = []" "has_primary t" "blocks (st_base t) = []"
    using SchemaTable_new_inv [OF list_tbb_laws s] prim unfolding has_primary_def by metis
  have "st_map list_tbb t k = None" for k
    unfolding st_map_None_iff [OF t(2,6)] using t(3) by simp
  moreover have "getTableSize (st_base t) = 0"
    using table_size_card [OF t(2)] t(3) by simp
  ultimately show thesis using that t by blast
qed

definition sample_row :: bytes where
  "sample_row = [1, 0, 0, 0, 2, 8, 16] @ replicate 15 65"

lemma sample_row_facts:
  "getSchemaSize call_forwarding_schema \<le> length sample_row"
  "primary_key_of call_forwarding_schema sample_row = [1, 0, 0, 0, 2, 8]"
  "table_row call_forwarding_schema sample_row = sample_row"
  by code_simp+

lemma table_insert_witness:
  "\<exists>t t'. SchemaTable_new list_tbb call_forwarding_schema = Inr t \<and>
     SchemaTable_insertRecord list_tbb sample_row t = Inr t' \<and>
     st_map list_tbb t' = [[1, 0, 0, 0, 2, 8] \<mapsto> sample_row] \<and> getTableSize (st_base t') = 1"
proof -
  obtain t where t: "SchemaTable_new list_tbb call_forwarding_schema = Inr t" "st_inv list_tbb t" "has_primary t"
    "st_schema t = call_forwarding_schema" "st_map list_tbb t = Map.empty" "getTableSize (st_base t) = 0"
    by (rule sample_table)
  then show ?thesis
    using table_insert [OF t(2,3), of sample_row] sample_row_facts by auto
qed

text \<open>A table of one row.\<close>

lemma sample_filled:
  obtains t a where "st_inv list_tbb t" "has_primary t" "st_schema t = call_forwarding_schema"
    "secondary_index_ptrs t = []" "st_map list_tbb t = [[1, 0, 0, 0, 2, 8] \<mapsto> sample_row]"
    "st_live t = {a}" "st_bytes t a = sample_row" "record_key t a = [1, 0, 0, 0, 2, 8]"
    "getTableSize (st_base t) = 1"
proof -
  obtain t where t: "st_inv list_tbb t" "has_primary t" "st_schema t = call_forwarding_schema"
    "st_map list_tbb t = Map.empty" "getTableSize (st_base t) = 0" "secondary_index_ptrs t = []"
    by (rule sample_table)
  obtain t' where t': "st_inv list_tbb t'" "same_shape t t'"
    "st_map list_tbb t' = [[1, 0, 0, 0, 2, 8] \<mapsto> sample_row]"
    using insert_refines [OF t(1,2), of sample_row] t(3,4) sample_row_facts by auto
  have shape: "has_primary t'" "st_schema t' = call_forwarding_schema" "secondary_index_ptrs t' = []"
    using t'(2) t(2,3,6) by (auto simp: same_shape_def)
  have "getTableSize (st_base t') = card (st_live t')"
    by (rule table_size_card [OF t'(1)])
  obtain a where a: "a \<in> st_live t'" "record_key t' a = [1, 0, 0, 0, 2, 8]" "st_bytes t' a = sample_row"
    using st_map_iff [OF t'(1) shape(1), of "[1, 0, 0, 0, 2, 8]" sample_row] t'(3) by auto
  have "b = a" if "b \<in> st_live t'" for b
  proof -
    have "record_key t' b = [1, 0, 0, 0, 2, 8]"
      using st_map_at [OF t'(1) shape(1) that] t'(3) by (simp split: if_splits)
    then show ?thesis using record_key_inj [OF t'(1) shape(1) that a(1)] a(2) by simp
  qed
  then have "st_live t' = {a}" using a(1) by blast
  then show thesis using that [OF t'(1) shape t'(3) _ a(3,2)] table_size_card [OF t'(1)] by simp
qed

text \<open>C38: Inserting a row under a key that is already there succeeds, but the row cannot be found by its key: the
  map of the table is unchanged, although the table counts one more record.\<close>

theorem table_insert_duplicate:
  assumes "st_inv T t" "has_primary t" "getSchemaSize (st_schema t) \<le> length data"
    and "st_map T t (primary_key_of (st_schema t) data) \<noteq> None"
  shows "\<exists>t'. SchemaTable_insertRecord T data t = Inr t' \<and> st_map T t' = st_map T t \<and>
    getTableSize (st_base t') = getTableSize (st_base t) + 1"
proof -
  let ?s = "st_schema t" and ?b = "st_base t"
  note i = st_invD [OF assms(1)]
  obtain h where h: "snd (primary_index_ptr t) = Some h" using assms(2) by (auto simp: has_primary_def)
  note p = primary_ok_Some [OF i(8) h]
  obtain a b' where b': "BaseTable_insertRecord T data ?b = Inr (a, b')" "bt_inv T b'"
    "record_size b' = record_size ?b" "store_added ?b a (take (record_size ?b) data) b'"
    by (rule base_insert [OF i(6), of data]) (use assms(3) i(7) in simp)
  let ?k = "primary_key_of ?s data"
  have found: "?k \<in> record_key t ` st_live t"
    using assms(4) unfolding st_map_None_iff [OF assms(1,2)] not_not .
  have srch: "TBBUniqueIndex_searchRecord T (TBBUniqueIndex_insertRecord T ?k a h) =
      TBBUniqueIndex_searchRecord T h"
    by (rule tbb_unique.insert_existing [OF i(2) p(3) found])
  have prim: "primary_insert T ?s data a (primary_index_ptr t) =
      Inr (fst (primary_index_ptr t), Some (TBBUniqueIndex_insertRecord T ?k a h))"
    using h by (simp add: primary_insert_def getPrimaryKeySymbol_eq [OF i(4) assms(3)])
  obtain es' where es': "secondary_insert T ?s data a (secondary_index_ptrs t) = Inr es'"
    using secondary_insert_spec [OF i(3,4) assms(3) _ b'(4) [unfolded i(7)]] i(9) by metis
  let ?t' = "t\<lparr>st_base := b', primary_index_ptr := (fst (primary_index_ptr t),
    Some (TBBUniqueIndex_insertRecord T ?k a h)), secondary_index_ptrs := es'\<rparr>"
  have ins: "SchemaTable_insertRecord T data t = Inr ?t'"
    using b'(1) prim es' by (simp add: SchemaTable_insertRecord_def)
  have "st_map T ?t' k = st_map T t k" for k
  proof -
    have "x \<in> st_live t" if "TBBUniqueIndex_searchRecord T h k = Some x" for x
      using that unique_follows_iff [OF p(3)] by blast
    then show ?thesis
      using b'(4) by (cases "TBBUniqueIndex_searchRecord T h k") (simp_all add: st_map_def h srch store_added_def)
  qed
  moreover have "getTableSize b' = getTableSize ?b + 1"
  proof -
    have "bt_geometry ?b" "bt_geometry b'" using i(6) b'(2) by (simp_all add: bt_inv_def)
    then have "getTableSize ?b = card (set (live_records ?b))" "getTableSize b' = card (set (live_records b'))"
      using getTableSize_live i(6) b'(2) distinct_card distinct_live_records by metis+
    then show ?thesis using b'(4) by (simp add: store_added_def)
  qed
  ultimately show ?thesis using ins by auto
qed

lemma table_insert_duplicate_witness:
  "\<exists>t t'. st_map list_tbb t = [[1, 0, 0, 0, 2, 8] \<mapsto> sample_row] \<and> getTableSize (st_base t) = 1 \<and>
     SchemaTable_insertRecord list_tbb (sample_row[6 := 99]) t = Inr t' \<and>
     st_map list_tbb t' = [[1, 0, 0, 0, 2, 8] \<mapsto> sample_row] \<and> getTableSize (st_base t') = 2"
proof -
  obtain t where t: "st_inv list_tbb t" "has_primary t" "st_schema t = call_forwarding_schema"
    "st_map list_tbb t = [[1, 0, 0, 0, 2, 8] \<mapsto> sample_row]" "getTableSize (st_base t) = 1"
    by (rule sample_filled)
  have "getSchemaSize call_forwarding_schema \<le> length (sample_row[6 := 99])"
    "primary_key_of call_forwarding_schema (sample_row[6 := 99]) = [1, 0, 0, 0, 2, 8]"
    by code_simp+
  then show ?thesis
    using table_insert_duplicate [OF t(1,2), of "sample_row[6 := 99]"] t(3-5)
    by (metis (no_types, lifting) map_upd_Some_unfold not_None_eq one_add_one)
qed

text \<open>The effect of an update of several columns on the bytes of a row.\<close>

definition set_cols :: "schema \<Rightarrow> column_predicates \<Rightarrow> bytes \<Rightarrow> bytes" where
  "set_cols s ps data = fold (\<lambda>p. set_col s (fst p) (take (col_size s (fst p)) (snd p))) ps data"

definition updates_ok :: "('q, 'h, 'm) schema_table \<Rightarrow> column_predicates \<Rightarrow> bool" where
  "updates_ok t ps \<longleftrightarrow>
     (\<forall>p \<in> set ps. fst p < column_count (st_schema t) \<and> col_size (st_schema t) (fst p) \<le> length (snd p) \<and>
        unindexed t (fst p))"

lemma update_columns_refines:
  assumes "st_inv T t" "has_primary t" "a \<in> st_live t" "updates_ok t ps"
  obtains t' where "fold_res (update_column a) ps t = Inr t'" "st_inv T t'" "same_shape t t'"
    "st_map T t' = (st_map T t)(record_key t a \<mapsto> set_cols (st_schema t) ps (st_bytes t a))"
    "t' = t\<lparr>st_base := st_base t'\<rparr>" "st_live t' = st_live t"
  using assms
proof (induction ps arbitrary: t thesis)
  case Nil
  show ?case
    by (rule Nil.prems(1) [of t])
      (use Nil.prems(2) st_map_at [OF Nil.prems(2,3,4)] in \<open>simp_all add: set_cols_def fun_upd_idem del: fun_upd_apply\<close>)
next
  case (Cons p ps)
  let ?s = "st_schema t" and ?i = "fst p"
  let ?d = "set_col ?s ?i (take (col_size ?s ?i) (snd p)) (st_bytes t a)"
  have p: "?i < column_count ?s" "col_size ?s ?i \<le> length (snd p)" "unindexed t ?i" "updates_ok t ps"
    using Cons.prems(5) by (auto simp: updates_ok_def)
  obtain t1 where t1: "update_column a (?i, snd p) t = Inr t1" "st_inv T t1" "same_shape t t1"
    "st_map T t1 = (st_map T t)(record_key t a \<mapsto> ?d)"
    "secondary_index_ptrs t1 = secondary_index_ptrs t" "st_live t1 = st_live t"
    "\<And>x ids. x \<in> st_live t \<Longrightarrow> cols_valid ?s ids \<Longrightarrow> ?i \<notin> set ids \<Longrightarrow>
       key_of ?s ids (st_bytes t1 x) = key_of ?s ids (st_bytes t x)"
    by (fact update_refines [OF Cons.prems(2-4) p(1-3)])
  have base: "t1 = t\<lparr>st_base := st_base t1\<rparr>"
    using update_column_spec [OF Cons.prems(2,4) p(1-3)] t1(1) by (metis sum.inject(2))
  have shape: "st_schema t1 = ?s" "has_primary t1" using t1(3) Cons.prems(3) by (simp_all add: same_shape_def)
  have "?i \<notin> set (primary_cols ?s)" using p(3) Cons.prems(3) by (simp add: unindexed_def has_primary_def)
  moreover obtain h where h: "snd (primary_index_ptr t) = Some h" using Cons.prems(3) by (auto simp: has_primary_def)
  ultimately have key: "record_key t1 a = record_key t a"
    using primary_ok_Some(2) [OF st_invD(8) [OF Cons.prems(2)] h] t1(7) [OF Cons.prems(4) primary_cols_valid [OF st_invD(4) [OF Cons.prems(2)]]] shape(1)
    by (simp add: primary_key_of_def)
  have d: "st_bytes t1 a = ?d"
    using st_map_at [OF t1(2) shape(2), of a] Cons.prems(4) t1(4,6) key by simp
  have a1: "a \<in> st_live t1" using t1(6) Cons.prems(4) by simp
  have "updates_ok t1 ps"
    using p(4) shape t1(5) Cons.prems(3) by (auto simp: updates_ok_def unindexed_def has_primary_def)
  then obtain t' where t': "fold_res (update_column a) ps t1 = Inr t'" "st_inv T t'" "same_shape t1 t'"
    "st_map T t' = (st_map T t1)(record_key t1 a \<mapsto> set_cols (st_schema t1) ps (st_bytes t1 a))"
    "t' = t1\<lparr>st_base := st_base t'\<rparr>" "st_live t' = st_live t1"
    using Cons.IH [OF _ t1(2) shape(2) a1] by blast
  have all: "t' = t\<lparr>st_base := st_base t'\<rparr>"
    using t'(5) base by (cases t, cases t1, cases t') simp
  have run: "fold_res (update_column a) (p # ps) t = Inr t'" using t1(1) t'(1) by simp
  have map: "st_map T t' = (st_map T t)(record_key t a \<mapsto> set_cols ?s (p # ps) (st_bytes t a))"
    using t'(4) t1(4) key d shape(1) by (simp add: set_cols_def)
  have live: "st_live t' = st_live t" using t'(6) t1(6) by simp
  show ?case by (rule Cons.prems(1) [OF run t'(2) same_shape_trans [OF t1(3) t'(3)] map all live])
qed

text \<open>C33: An update of columns that no index is built on succeeds for a record of the table: the row of the record
  has the new values, and no other row, no index and none of the records that are in use changes.\<close>

theorem table_update:
  assumes "st_inv T t" "has_primary t" "a \<in> st_live t" "updates_ok t ps"
  shows "\<exists>t'. SchemaTable_updateRecord (Some a) ps t = Inr t' \<and> st_inv T t' \<and>
    st_map T t' = (st_map T t)(record_key t a \<mapsto> set_cols (st_schema t) ps (st_bytes t a)) \<and>
    primary_index_ptr t' = primary_index_ptr t \<and> secondary_index_ptrs t' = secondary_index_ptrs t \<and>
    st_schema t' = st_schema t \<and> st_live t' = st_live t"
proof -
  obtain t' where t': "fold_res (update_column a) ps t = Inr t'" "st_inv T t'" "same_shape t t'"
    "st_map T t' = (st_map T t)(record_key t a \<mapsto> set_cols (st_schema t) ps (st_bytes t a))"
    "t' = t\<lparr>st_base := st_base t'\<rparr>" "st_live t' = st_live t"
    by (rule update_columns_refines [OF assms])
  have "primary_index_ptr t' = primary_index_ptr t" "secondary_index_ptrs t' = secondary_index_ptrs t"
    using arg_cong [OF t'(5), of primary_index_ptr] arg_cong [OF t'(5), of secondary_index_ptrs] by simp_all
  then show ?thesis using t' by (auto simp: SchemaTable_updateRecord_def same_shape_def)
qed

lemma table_update_witness:
  "\<exists>t a t'. st_map list_tbb t = [[1, 0, 0, 0, 2, 8] \<mapsto> sample_row] \<and>
     SchemaTable_updateRecord (Some a) [(3, [24])] t = Inr t' \<and>
     st_map list_tbb t' = [[1, 0, 0, 0, 2, 8] \<mapsto> sample_row[6 := 24]]"
proof -
  obtain t a where t: "st_inv list_tbb t" "has_primary t" "st_schema t = call_forwarding_schema"
    "secondary_index_ptrs t = []" "st_map list_tbb t = [[1, 0, 0, 0, 2, 8] \<mapsto> sample_row]"
    "st_live t = {a}" "st_bytes t a = sample_row" "record_key t a = [1, 0, 0, 0, 2, 8]"
    by (rule sample_filled)
  have "set_cols call_forwarding_schema [(3, [24])] sample_row = sample_row[6 := 24]"
    "3 < column_count call_forwarding_schema" "col_size call_forwarding_schema 3 \<le> 1"
    "3 \<notin> set (primary_cols call_forwarding_schema)"
    by code_simp+
  then obtain t' where "SchemaTable_updateRecord (Some a) [(3, [24])] t = Inr t'"
    "st_map list_tbb t' = [[1, 0, 0, 0, 2, 8] \<mapsto> sample_row[6 := 24]]"
    using table_update [OF t(1,2), of a "[(3, [24])]"] t by (auto simp: updates_ok_def unindexed_def)
  then show ?thesis using t(5) by blast
qed

text \<open>C5: Deleting a record whose secondary keys no other record shares removes its row from the map of the table,
  keeps every index exact, and makes the table one smaller.\<close>

theorem table_delete:
  assumes "st_inv T t" "has_primary t" "a \<in> st_live t" "sole_in_indexes t a"
  shows "\<exists>t'. SchemaTable_deleteRecord T (Some a) t = Inr t' \<and> st_inv T t' \<and>
    st_map T t' = (st_map T t)(record_key t a := None) \<and>
    getTableSize (st_base t) = getTableSize (st_base t') + 1"
proof -
  obtain t' where t': "SchemaTable_deleteRecord T (Some a) t = Inr t'" "st_inv T t'"
    "st_map T t' = (st_map T t)(record_key t a := None)"
    by (cases rule: delete_refines [OF assms]) blast
  obtain t'' where "SchemaTable_deleteRecord T (Some a) t = Inr t''" "store_removed (st_base t) a (st_base t'')"
    by (cases rule: SchemaTable_deleteRecord_spec [OF assms(1,3,4)]) blast
  then have "store_removed (st_base t) a (st_base t')" using t'(1) by simp
  then have "getTableSize (st_base t) = getTableSize (st_base t') + 1"
    using table_size_card [OF assms(1)] table_size_card [OF t'(2)] assms(3)
      card_Suc_Diff1 [of "st_live t" a] by (simp add: store_removed_def)
  then show ?thesis using t' by blast
qed

lemma table_delete_witness:
  "\<exists>t a t'. st_map list_tbb t = [[1, 0, 0, 0, 2, 8] \<mapsto> sample_row] \<and>
     SchemaTable_deleteRecord list_tbb (Some a) t = Inr t' \<and> st_map list_tbb t' = Map.empty \<and>
     getTableSize (st_base t') = 0"
proof -
  obtain t a where t: "st_inv list_tbb t" "has_primary t" "st_schema t = call_forwarding_schema"
    "secondary_index_ptrs t = []" "st_map list_tbb t = [[1, 0, 0, 0, 2, 8] \<mapsto> sample_row]"
    "st_live t = {a}" "record_key t a = [1, 0, 0, 0, 2, 8]" "getTableSize (st_base t) = 1"
    by (rule sample_filled)
  have "sole_in_indexes t a" using t(4) by (simp add: sole_in_indexes_def)
  then obtain t' where "SchemaTable_deleteRecord list_tbb (Some a) t = Inr t'"
    "st_map list_tbb t' = Map.empty" "getTableSize (st_base t') = 0"
    using table_delete [OF t(1,2), of a] t by auto
  then show ?thesis using t(5) by blast
qed

section \<open>Selection\<close>



lemma live_blocks:
  assumes "st_inv T t" "a \<in> st_live t"
  shows "blocks (st_base t) \<noteq> []"
  using assms(2) by (auto simp: live_records_def live_slots_def slot_count_def)




text \<open>The read-only view of the result of a select has one entry for every record that matches; through the
  pointer it gives for a column of an entry one reads, in the memory of the table, the bytes of that column
  of a matching record; an entry past the end is an access out of bounds.\<close>

theorem selected_columns:
  assumes "st_inv T t" "predicates_valid (st_schema t) ps"
    and "SchemaTable_selectRecords T ps t = Inr rs"
    and "blocks (st_base t) = [] \<longrightarrow>
      getPredicateColumnSymbol (st_schema t) ps \<in> fst ` set (secondary_index_ptrs t)"
  defines "view \<equiv> ConstRecords_of (st_schema t) rs"
  shows "ConstRecords_getRecordNum view = card {a \<in> st_live t. matches (st_schema t) ps (st_bytes t a)} \<and>
    (\<forall>i < ConstRecords_getRecordNum view. \<exists>a \<in> st_live t. matches (st_schema t) ps (st_bytes t a) \<and>
      (\<forall>c < column_count (st_schema t). \<exists>p. ConstRecords_getColumn view i c = Inr p \<and>
        mem_read (blocks (st_base t)) p (col_size (st_schema t) c) =
          Inr (col_data (st_schema t) c (st_bytes t a)))) \<and>
    (\<forall>i c. ConstRecords_getRecordNum view \<le> i \<longrightarrow> ConstRecords_getColumn view i c = Inl BadAccess)"
proof -
  have "blocks (st_base t) \<noteq> [] \<or>
      getPredicateColumnSymbol (st_schema t) ps \<in> fst ` set (secondary_index_ptrs t)"
    using assms(4) by blast
  then have rs: "distinct (data_ptrs rs)" "set (data_ptrs rs) = {a \<in> st_live t. matches (st_schema t) ps (st_bytes t a)}"
    using SchemaTable_selectRecords_spec [OF assms(1,2)] assms(3) by auto
  have view: "cr_ptrs view = data_ptrs rs" "cr_schema view = st_schema t"
    by (simp_all add: view_def ConstRecords_of_def getRecordNum_def)
  have "\<exists>a \<in> st_live t. matches (st_schema t) ps (st_bytes t a) \<and>
      (\<forall>c < column_count (st_schema t). \<exists>p. ConstRecords_getColumn view i c = Inr p \<and>
        mem_read (blocks (st_base t)) p (col_size (st_schema t) c) = Inr (col_data (st_schema t) c (st_bytes t a)))"
    if i: "i < ConstRecords_getRecordNum view" for i
  proof (intro bexI [of _ "data_ptrs rs ! i"] conjI allI impI)
    have "data_ptrs rs ! i \<in> set (data_ptrs rs)" using i view by (simp add: ConstRecords_getRecordNum_def)
    then show a: "data_ptrs rs ! i \<in> st_live t" "matches (st_schema t) ps (st_bytes t (data_ptrs rs ! i))"
      unfolding rs(2) by simp_all
    show "\<exists>p. ConstRecords_getColumn view i c = Inr p \<and> mem_read (blocks (st_base t)) p (col_size (st_schema t) c) =
        Inr (col_data (st_schema t) c (st_bytes t (data_ptrs rs ! i)))" if "c < column_count (st_schema t)" for c
      using column_pointer_reads [OF assms(1) a(1) that] i view
      by (simp add: ConstRecords_getColumn_def ConstRecords_getRecordNum_def)
  qed
  moreover have "ConstRecords_getRecordNum view = card {a \<in> st_live t. matches (st_schema t) ps (st_bytes t a)}"
    unfolding rs(2) [symmetric] ConstRecords_getRecordNum_def view(1) by (rule distinct_card [OF rs(1), symmetric])
  moreover have "\<forall>i c. ConstRecords_getRecordNum view \<le> i \<longrightarrow> ConstRecords_getColumn view i c = Inl BadAccess"
    by (simp add: ConstRecords_getRecordNum_def ConstRecords_getColumn_def)
  ultimately show ?thesis by blast
qed

lemma selected_columns_witness:
  "\<exists>t a rs p. st_live t = {a} \<and> SchemaTable_selectRecords list_tbb [(3, [16])] t = Inr rs \<and>
     ConstRecords_getColumn (ConstRecords_of (st_schema t) rs) 0 3 = Inr p \<and>
     mem_read (blocks (st_base t)) p 1 = Inr [16]"
proof -
  obtain t a where t: "st_inv list_tbb t" "st_schema t = call_forwarding_schema" "st_live t = {a}"
    "st_bytes t a = sample_row"
    by (rule sample_filled)
  have m: "matches call_forwarding_schema [(3, [16])] sample_row" "predicates_valid call_forwarding_schema [(3, [16])]"
    "col_size call_forwarding_schema 3 = 1" "col_data call_forwarding_schema 3 sample_row = [16]"
    "3 < column_count call_forwarding_schema"
    by code_simp+
  have b: "blocks (st_base t) \<noteq> []" using live_blocks [OF t(1), of a] t(3) by simp
  have valid: "predicates_valid (st_schema t) [(3, [16])]" using m(2) t(2) by simp
  obtain rs where rs: "SchemaTable_selectRecords list_tbb [(3, [16])] t = Inr rs"
    using SchemaTable_selectRecords_spec [OF t(1) valid] b by blast
  have "{x \<in> st_live t. matches (st_schema t) [(3, [16])] (st_bytes t x)} = {a}"
    using t(2-4) m(1) by auto
  then have "\<forall>c < column_count (st_schema t). \<exists>p. ConstRecords_getColumn (ConstRecords_of (st_schema t) rs) 0 c = Inr p \<and>
      mem_read (blocks (st_base t)) p (col_size (st_schema t) c) = Inr (col_data (st_schema t) c (st_bytes t a))"
    using selected_columns [OF t(1) valid rs] b t(3) by auto
  then obtain p where "ConstRecords_getColumn (ConstRecords_of (st_schema t) rs) 0 3 = Inr p"
    "mem_read (blocks (st_base t)) p 1 = Inr [16]"
    using m(3-5) unfolding t(2,4) by metis
  then show ?thesis using t(3) rs by blast
qed

section \<open>What a client has to avoid\<close>

text \<open>A select that has no index to use, on a table that never got a record, reads the first block of an empty
  block list: an access out of bounds instead of the answer that nothing matches.\<close>

theorem select_uninitialised:
  assumes "SchemaTable_new T s = Inr t" "tbb_laws T" "schema_inv s" "column_count s < 2 ^ 64"
    and "0 < kBlockSize div (getSchemaSize s + 8)" "primary_col_num s \<noteq> 0 \<longrightarrow> 0 < primary_key_length s"
    and "predicates_valid s ps" "ps \<noteq> []" "map fst ps \<noteq> primary_cols s"
  shows "SchemaTable_selectRecord T ps t = Inl BadAccess \<and> SchemaTable_selectRecords T ps t = Inl BadAccess"
proof -
  obtain t' where t': "SchemaTable_new T s = Inr t'" "st_inv T t'" "st_schema t' = s"
    "secondary_index_ptrs t' = []" "blocks (st_base t') = []"
    by (rule SchemaTable_new_inv [OF assms(2-5)]) (use assms(6) in simp_all)
  then have t: "st_inv T t" "st_schema t = s" "secondary_index_ptrs t = []" "blocks (st_base t) = []"
    using assms(1) by auto
  have "getPredicateColumnSymbol s ps \<noteq> fst (primary_index_ptr t)"
  proof (cases "snd (primary_index_ptr t)")
    case None
    then have "fst (primary_index_ptr t) = []" using primary_ok_None [OF st_invD(8) [OF t(1)]] by simp
    moreover have "length (getPredicateColumnSymbol s ps) \<noteq> 0"
      using assms(8) by (simp add: getPredicateColumnSymbol_def)
    ultimately show ?thesis by auto
  next
    case (Some h)
    then have "fst (primary_index_ptr t) = size_t_symbol (primary_cols s)"
      using primary_ok_Some(1) [OF st_invD(8) [OF t(1)]] primary_symbol [OF assms(3)] t(2) by simp
    then show ?thesis
      using predicate_symbol_eq [OF assms(4,7) primary_cols_valid [OF assms(3)]] assms(9) by simp
  qed
  then show ?thesis
    using t by (simp add: SchemaTable_selectRecord_def SchemaTable_selectRecords_def select_scan_def
        select_scan_all_def getIterator_def Let_def)
qed

lemma select_uninitialised_witness:
  "\<exists>t. SchemaTable_new list_tbb call_forwarding_schema = Inr t \<and>
     SchemaTable_selectRecord list_tbb [(3, [16])] t = Inl BadAccess"
proof -
  obtain t where t: "SchemaTable_new list_tbb call_forwarding_schema = Inr t"
    by (rule sample_table)
  have "predicates_valid call_forwarding_schema [(3, [16])]" "map fst [(3, [16])] \<noteq> primary_cols call_forwarding_schema"
    by code_simp+
  moreover have "column_count call_forwarding_schema < 2 ^ 64"
    "0 < kBlockSize div (getSchemaSize call_forwarding_schema + 8)" "0 < primary_key_length call_forwarding_schema"
    using tatp_summaries(4) by (simp_all add: schema_summary_def kBlockSize_def)
  ultimately show ?thesis
    using select_uninitialised [OF t list_tbb_laws tatp_schema_inv(4), of "[(3, [16])]"] t by auto
qed

lemma map_of_map_entry: "map_of (map (\<lambda>(x, y). (x, g x y)) es) k = map_option (g k) (map_of es k)"
  by (induction es) auto

text \<open>C37: Deleting a record through a table drops every record with the same secondary key from the secondary index:
  another such record is still in the table and still matches, but a select of all records by that
  index gives none.\<close>

theorem delete_drops_others:
  assumes "st_inv T t" "a \<in> st_live t" "b \<in> st_live t" "a \<noteq> b"
    and "predicates_valid (st_schema t) ps"
    and "getPredicateColumnSymbol (st_schema t) ps \<in> fst ` set (secondary_index_ptrs t)"
    and "matches (st_schema t) ps (st_bytes t a)" "matches (st_schema t) ps (st_bytes t b)"
  shows "\<exists>t' rs. SchemaTable_deleteRecord T (Some a) t = Inr t' \<and> b \<in> st_live t' \<and>
    matches (st_schema t') ps (st_bytes t' b) \<and>
    SchemaTable_selectRecords T ps t' = Inr rs \<and> data_ptrs rs = []"
proof -
  let ?s = "st_schema t" and ?b = "st_base t" and ?smb = "getPredicateColumnSymbol (st_schema t) ps"
  note i = st_invD [OF assms(1)]
  obtain b' where b': "BaseTable_deleteRecord T a ?b = Inr b'" "store_removed ?b a b'"
    "BaseTable_read b' a = Inr (record_bytes ?b a)"
    by (rule base_delete [OF i(6) assms(2)])
  obtain p' where p': "primary_delete T ?s (record_bytes ?b a) (primary_index_ptr t) = Inr p'"
    using primary_delete_spec [OF i(2,4,7,8) b'(2)] by metis
  define k where "k = (\<lambda>smb. key_of ?s (index_columns smb) (record_bytes ?b a))"
  define es' where "es' = map (\<lambda>(smb, m). (smb, TBBMultiIndex_deleteRecord T (k smb) m)) (secondary_index_ptrs t)"
  have es: "secondary_delete T ?s (record_bytes ?b a) (secondary_index_ptrs t) = Inr es'"
    unfolding es'_def split_def k_def using i(9) by (intro secondary_delete_eq [OF i(4,7)]) blast
  let ?t' = "t\<lparr>st_base := b', primary_index_ptr := p', secondary_index_ptrs := es'\<rparr>"
  have del: "SchemaTable_deleteRecord T (Some a) t = Inr ?t'"
    using b'(1,3) p' es by (simp add: SchemaTable_deleteRecord_def)
  obtain m where m: "map_of (secondary_index_ptrs t) ?smb = Some m"
    using assms(6) by (metis map_of_eq_None_iff not_None_eq)
  have "?smb = size_t_symbol (index_columns ?smb)" "cols_valid ?s (index_columns ?smb)"
    using i(9) [OF map_of_SomeD [OF m]] by (simp_all add: secondary_ok_def)
  then have "index_columns ?smb = map fst ps"
    using predicate_symbol_eq [OF i(5) assms(5)] by metis
  then have key: "k ?smb = predicate_key ?s ps"
    using key_of_eq_predicate_key [OF i(4) assms(5), of "record_bytes ?b a"] i(7) assms(7)
    by (simp add: k_def)
  have m': "map_of es' ?smb = Some (TBBMultiIndex_deleteRecord T (k ?smb) m)"
    unfolding es'_def map_of_map_entry using m by simp
  have "SchemaTable_selectRecords T ps ?t' = Inr (Records_of [])"
    using m' key tbb_multi.search_all_entries [OF i(3)] tbb_multi.entries_delete [OF i(3)]
    by (simp add: SchemaTable_selectRecords_def getPredicateDataSymbol_eq [OF i(4) assms(5)])
  then show ?thesis
    using del b'(2) assms(3,4,8) by (auto simp: store_removed_def Records_of_def)
qed

text \<open>Two special facilities of one subscriber, in the table the TATP populator registers for them.\<close>

definition facility_row :: "byte \<Rightarrow> bytes" where
  "facility_row sf_type = [1, 0, 0, 0, sf_type] @ replicate 10 65"

lemma sample_facilities:
  obtains t where "fresh_table list_tbb special_facility_schema [size_t_symbol [0]] t"
proof -
  have "0 < column_count special_facility_schema"
    using tatp_summaries(3) by (simp add: schema_summary_def)
  then show thesis
    using register_fresh_indexed [OF list_tbb_laws tatp_registers(3)] that by metis
qed

lemma sample_pair:
  obtains t a b where "st_inv list_tbb t" "st_schema t = special_facility_schema"
    "map fst (secondary_index_ptrs t) = [size_t_symbol [0]]"
    "a \<in> st_live t" "b \<in> st_live t" "a \<noteq> b" "st_bytes t a = facility_row 1" "st_bytes t b = facility_row 2"
proof -
  obtain t where t: "fresh_table list_tbb special_facility_schema [size_t_symbol [0]] t"
    by (rule sample_facilities)
  note f = t [unfolded fresh_table_def]
  have facts: "primary_key_of special_facility_schema (facility_row 1) = [1, 0, 0, 0, 1]"
    "primary_key_of special_facility_schema (facility_row 2) = [1, 0, 0, 0, 2]"
    "table_row special_facility_schema (facility_row 1) = facility_row 1"
    "table_row special_facility_schema (facility_row 2) = facility_row 2"
    "getSchemaSize special_facility_schema \<le> length (facility_row 1)"
    "getSchemaSize special_facility_schema \<le> length (facility_row 2)"
    by code_simp+
  have inv: "st_inv list_tbb t" "has_primary t" "st_schema t = special_facility_schema" using f by simp_all
  have "st_map list_tbb t k = None" for k
    unfolding st_map_None_iff [OF inv(1,2)] using f by simp
  then obtain t1 where t1: "st_inv list_tbb t1" "same_shape t t1"
    "st_map list_tbb t1 = (st_map list_tbb t)([1, 0, 0, 0, 1] \<mapsto> facility_row 1)"
    using insert_refines [OF inv(1,2), of "facility_row 1"] inv(3) facts by metis
  have inv1: "has_primary t1" "st_schema t1 = special_facility_schema"
    using t1(2) inv(2,3) by (simp_all add: same_shape_def)
  have "st_map list_tbb t1 [1, 0, 0, 0, 2] = None"
    unfolding t1(3) using \<open>\<And>k. st_map list_tbb t k = None\<close> by simp
  then obtain t2 where t2: "st_inv list_tbb t2" "same_shape t1 t2"
    "st_map list_tbb t2 = (st_map list_tbb t1)([1, 0, 0, 0, 2] \<mapsto> facility_row 2)"
    using insert_refines [OF t1(1) inv1(1), of "facility_row 2"] inv1(2) facts by metis
  have inv2: "has_primary t2" "st_schema t2 = special_facility_schema"
    using t2(2) inv1 by (simp_all add: same_shape_def)
  have shape: "map fst (secondary_index_ptrs t2) = [size_t_symbol [0]]"
    using t2(2) t1(2) f by (simp add: same_shape_def)
  have "st_map list_tbb t2 [1, 0, 0, 0, 1] = Some (facility_row 1)"
    "st_map list_tbb t2 [1, 0, 0, 0, 2] = Some (facility_row 2)"
    by (simp_all add: t1(3) t2(3))
  then obtain a b where "a \<in> st_live t2" "b \<in> st_live t2"
    "st_bytes t2 a = facility_row 1" "st_bytes t2 b = facility_row 2"
    unfolding st_map_iff [OF t2(1) inv2(1)] by blast
  moreover have "facility_row 1 \<noteq> facility_row 2" by (simp add: facility_row_def)
  ultimately show thesis using that t2(1) inv2(2) shape by metis
qed

lemma delete_drops_others_witness:
  "\<exists>t a b t' rs. a \<noteq> b \<and> st_bytes t b = facility_row 2 \<and>
     SchemaTable_deleteRecord list_tbb (Some a) t = Inr t' \<and> b \<in> st_live t' \<and>
     SchemaTable_selectRecords list_tbb [(0, [1, 0, 0, 0])] t' = Inr rs \<and> data_ptrs rs = []"
proof -
  obtain t a b where t: "st_inv list_tbb t" "st_schema t = special_facility_schema"
    "map fst (secondary_index_ptrs t) = [size_t_symbol [0]]"
    "a \<in> st_live t" "b \<in> st_live t" "a \<noteq> b" "st_bytes t a = facility_row 1" "st_bytes t b = facility_row 2"
    by (rule sample_pair)
  have m: "matches special_facility_schema [(0, [1, 0, 0, 0])] (facility_row 1)"
    "matches special_facility_schema [(0, [1, 0, 0, 0])] (facility_row 2)"
    "predicates_valid special_facility_schema [(0, [1, 0, 0, 0])]"
    by code_simp+
  have "getPredicateColumnSymbol (st_schema t) [(0, [1, 0, 0, 0])] \<in> fst ` set (secondary_index_ptrs t)"
    using t(3) by (simp add: getPredicateColumnSymbol_def set_map [symmetric] del: set_map)
  then show ?thesis
    using delete_drops_others [OF t(1,4,5,6), of "[(0, [1, 0, 0, 0])]"] m t by metis
qed

end
