(* ===== verification/ConcurrentTable.thy ===== *)
theory ConcurrentTable
  imports BaseTable
begin

text \<open>
  One table used by several threads. \<open>BaseTable::insertRecord\<close> takes a slot under the mutex and fills it
  after the mutex is released; \<open>BaseTable::deleteRecord\<close> takes no mutex at all. Here each call is split into
  the accesses to the table it makes one after the other: an insert acquires its slot (the critical
  section), sets the flag of the header, and copies the record; a delete pushes the slot to the
  free list, clears the header, and lowers the counter. Threads need no names: the state lists the
  calls that are under way by the step they have reached, and the calls of insert that have returned.
\<close>

section \<open>State and steps\<close>

record 'q shared_table =
  table :: "'q base_table"
  acquired :: "(addr \<times> bytes) list"
  marked :: "(addr \<times> bytes) list"
  returns :: "(addr \<times> bytes) list"
  pushed :: "addr list"
  cleared :: "addr list"

definition shared :: "'q base_table \<Rightarrow> 'q shared_table" where
  "shared t = \<lparr>table = t, acquired = [], marked = [], returns = [], pushed = [], cleared = []\<rparr>"

definition idle_calls :: "'q shared_table \<Rightarrow> bool" where
  "idle_calls c \<longleftrightarrow> acquired c = [] \<and> marked c = [] \<and> pushed c = [] \<and> cleared c = []"

inductive insert_step :: "('q, 'h, 'm) tbb \<Rightarrow> 'q shared_table \<Rightarrow> 'q shared_table \<Rightarrow> bool" for T where
  ins_acquire: "acquire_slot T (table c) = (Some ans, t) \<Longrightarrow> record_size (table c) \<le> length rec \<Longrightarrow>
    insert_step T c (c\<lparr>table := t, acquired := (ans, rec) # acquired c\<rparr>)"
| ins_mark: "acquired c = xs @ (ans, rec) # ys \<Longrightarrow>
    mem_write (blocks (table c)) ans [flag_byte OCCUPIED] = Inr bs \<Longrightarrow>
    insert_step T c (c\<lparr>table := (table c)\<lparr>blocks := bs\<rparr>, acquired := xs @ ys, marked := (ans, rec) # marked c\<rparr>)"
| ins_copy: "marked c = xs @ (ans, rec) # ys \<Longrightarrow>
    mem_write (blocks (table c)) (addr_plus ans kRecordHeaderSize) (take (record_size (table c)) rec) = Inr bs \<Longrightarrow>
    insert_step T c (c\<lparr>table := (table c)\<lparr>blocks := bs\<rparr>, marked := xs @ ys,
      returns := (addr_plus ans kRecordHeaderSize, rec) # returns c\<rparr>)"

inductive delete_step :: "('q, 'h, 'm) tbb \<Rightarrow> 'q shared_table \<Rightarrow> 'q shared_table \<Rightarrow> bool" for T where
  del_push: "addr_minus record_pos kRecordHeaderSize = Inr del_pos \<Longrightarrow>
    delete_step T c (c\<lparr>table := (table c)\<lparr>free_list := q_push T del_pos (free_list (table c))\<rparr>,
      pushed := del_pos # pushed c\<rparr>)"
| del_clear: "pushed c = xs @ del_pos # ys \<Longrightarrow>
    mem_write (blocks (table c)) del_pos (replicate kRecordHeaderSize 0) = Inr bs \<Longrightarrow>
    delete_step T c (c\<lparr>table := (table c)\<lparr>blocks := bs\<rparr>, pushed := xs @ ys, cleared := del_pos # cleared c\<rparr>)"
| del_count: "cleared c = xs @ del_pos # ys \<Longrightarrow>
    delete_step T c (c\<lparr>table := (table c)\<lparr>occupied_record_count := size_t_dec (occupied_record_count (table c))\<rparr>,
      cleared := xs @ ys\<rparr>)"

inductive table_runs :: "('q shared_table \<Rightarrow> 'q shared_table \<Rightarrow> bool) \<Rightarrow> 'q shared_table \<Rightarrow> 'q shared_table \<Rightarrow> bool"
  for step where
  runs_refl: "table_runs step c c"
| runs_step: "table_runs step c c1 \<Longrightarrow> step c1 c2 \<Longrightarrow> table_runs step c c2"

abbreviation any_step :: "('q, 'h, 'm) tbb \<Rightarrow> 'q shared_table \<Rightarrow> 'q shared_table \<Rightarrow> bool" where
  "any_step T c c' \<equiv> insert_step T c c' \<or> delete_step T c c'"

lemma fill_slot_writes:
  assumes "fill_slot ans rec t = Inr (a, t')" "record_size t \<le> length rec"
  obtains bs1 bs2 where "mem_write (blocks t) ans [flag_byte OCCUPIED] = Inr bs1"
    and "mem_write bs1 (addr_plus ans kRecordHeaderSize) (take (record_size t) rec) = Inr bs2"
    and "a = addr_plus ans kRecordHeaderSize" "t' = t\<lparr>blocks := bs2\<rparr>"
  using assms by (auto simp: fill_slot_def read_buffer_eq simp del: flag_byte.simps)

text \<open>Without interruption the steps are the operations of the table.\<close>

lemma insert_steps_sequential:
  assumes "BaseTable_insertRecord T rec t = Inr (a, t')" "record_size t \<le> length rec"
    and "acquire_slot T t = (Some ans, t1)" "record_size t1 = record_size t"
  shows "table_runs (insert_step T) (shared t) ((shared t')\<lparr>returns := [(a, rec)]\<rparr>)"
proof -
  obtain bs1 bs2 where w: "mem_write (blocks t1) ans [flag_byte OCCUPIED] = Inr bs1"
    "mem_write bs1 (addr_plus ans kRecordHeaderSize) (take (record_size t1) rec) = Inr bs2"
    "a = addr_plus ans kRecordHeaderSize" "t' = t1\<lparr>blocks := bs2\<rparr>"
    using fill_slot_writes [of ans rec t1 a t'] assms by (auto simp: BaseTable_insertRecord_def)
  let ?c1 = "(shared t1)\<lparr>acquired := [(ans, rec)]\<rparr>"
  let ?c2 = "(shared (t1\<lparr>blocks := bs1\<rparr>))\<lparr>marked := [(ans, rec)]\<rparr>"
  have "insert_step T (shared t) ?c1"
    using ins_acquire [of T "shared t" ans t1 rec] assms(2,3) by (simp add: shared_def)
  moreover have "insert_step T ?c1 ?c2"
    using ins_mark [of ?c1 "[]" ans rec "[]" bs1 T] w(1) by (simp add: shared_def)
  moreover have "insert_step T ?c2 ((shared t')\<lparr>returns := [(a, rec)]\<rparr>)"
    using ins_copy [of ?c2 "[]" ans rec "[]" bs2 T] w(2-4) by (simp add: shared_def)
  ultimately show ?thesis using runs_refl runs_step by metis
qed

section \<open>Inserts alone\<close>

text \<open>
  The invariant of inserts that run concurrently on a table that was \<open>t0\<close>: the acquired slots are pending, the
  records in the table are those of \<open>t0\<close> and of the inserts that have marked their slot, no slot is given out
  twice, and the bytes of \<open>t0\<close>'s records and of the returned ones are in place.
\<close>

definition inserted_addrs :: "'q shared_table \<Rightarrow> addr list" where
  "inserted_addrs c = map (\<lambda>(a, rec). addr_plus a kRecordHeaderSize) (marked c) @ map fst (returns c)"

definition inserts_inv :: "('q, 'h, 'm) tbb \<Rightarrow> 'q base_table \<Rightarrow> 'q shared_table \<Rightarrow> bool" where
  "inserts_inv T t0 c \<longleftrightarrow>
     (\<exists>free pend. bt_pending T (table c) free pend \<and> map fst (acquired c) = map (slot_addr (table c)) pend) \<and>
     set (live_records (table c)) = set (live_records t0) \<union> set (inserted_addrs c) \<and>
     distinct (inserted_addrs c) \<and> set (live_records t0) \<inter> set (inserted_addrs c) = {} \<and>
     (\<forall>(a, rec) \<in> set (returns c). record_bytes (table c) a = take (record_size t0) rec) \<and>
     (\<forall>x \<in> set (live_records t0). record_bytes (table c) x = record_bytes t0 x) \<and>
     record_size (table c) = record_size t0 \<and>
     (\<forall>(a, rec) \<in> set (acquired c) \<union> set (marked c) \<union> set (returns c). record_size t0 \<le> length rec)"

lemma acquire_slot_live:
  assumes laws: "queue_laws T" and pending: "bt_pending T t free pend"
  obtains s t1 free' where "acquire_slot T t = (Some (slot_addr t1 s), t1)" "bt_pending T t1 free' (s # pend)"
    and "set (live_records t1) = set (live_records t)" "record_size t1 = record_size t"
    and "\<And>x. x \<in> set (live_records t) \<Longrightarrow> record_bytes t1 x = record_bytes t x"
    and "slot_addr t1 = slot_addr t"
proof -
  note geo = bt_pending_geometry [OF pending]
  obtain s t1 free' where acq: "acquire_slot T t = (Some (slot_addr t1 s), t1)" "bt_extends t t1"
    "bt_pending T t1 free' (s # pend)" "s < slot_count t \<Longrightarrow> slot_flag t s = flag_byte FREE"
    "\<And>x. slot_count t \<le> x \<Longrightarrow> x < used_slots t1 \<Longrightarrow> x = s"
    by (rule acquire_slot_pending [OF laws pending]) blast
  have addr: "slot_addr t1 = slot_addr t" "record_addr t1 = record_addr t"
    using bt_extends_slot_addr [OF acq(2)] bt_extends_record_addr [OF acq(2)] by auto
  have sz: "record_size t1 = record_size t" using acq(2) by (simp add: bt_extends_def)
  have old: "slot_flag t1 x = slot_flag t x" if "x < slot_count t" for x
    using that acq(2) bt_geometryD(3) [OF geo] by (simp add: slot_flag_byte bt_extends_def)
  have new: "slot_flag t1 x = flag_byte FREE" if "slot_count t \<le> x" "x < slot_count t1" for x
    using acq(5) [OF that(1)] acq(3) that by (auto simp: bt_pending_def)
  have "{x. x < slot_count t1 \<and> slot_flag t1 x = flag_byte OCCUPIED} =
      {x. x < slot_count t \<and> slot_flag t x = flag_byte OCCUPIED}"
  proof (rule set_eqI)
    fix x
    have "slot_count t \<le> slot_count t1" using acq(2) by (simp add: bt_extends_def)
    then show "x \<in> {x. x < slot_count t1 \<and> slot_flag t1 x = flag_byte OCCUPIED} \<longleftrightarrow>
        x \<in> {x. x < slot_count t \<and> slot_flag t x = flag_byte OCCUPIED}"
      using old [of x] new [of x] by (cases "x < slot_count t") auto
  qed
  then have live: "set (live_records t1) = set (live_records t)"
    unfolding set_live_records addr by simp
  have "record_bytes t1 x = record_bytes t x" if "x \<in> set (live_records t)" for x
  proof -
    obtain y where y: "x = record_addr t y" "y < slot_count t" using \<open>x \<in> _\<close> by (auto simp: set_live_records)
    show ?thesis
      unfolding y(1) using acq(2) y(2) addr sz
      by (intro record_bytes_cong [OF geo]) (simp_all add: bt_extends_def)
  qed
  then show thesis using that [OF acq(1,3) live sz] addr(1) by blast
qed

lemma distinct_remove: "distinct (xs @ x # ys) \<Longrightarrow> distinct (xs @ ys) \<and> x \<notin> set (xs @ ys)"
  by auto

text \<open>Marking a pending slot makes its record one of the table's.\<close>

lemma mark_slot:
  assumes pending: "bt_pending T t free (xs @ s # ys)"
  obtains bs where "mem_write (blocks t) (slot_addr t s) [flag_byte OCCUPIED] = Inr bs"
    and "bt_pending T (t\<lparr>blocks := bs\<rparr>) free (xs @ ys)"
    and "record_addr t s \<notin> set (live_records t)"
    and "set (live_records (t\<lparr>blocks := bs\<rparr>)) = insert (record_addr t s) (set (live_records t))"
    and "\<And>x. x \<in> set (live_records t) \<Longrightarrow> record_bytes (t\<lparr>blocks := bs\<rparr>) x = record_bytes t x"
proof -
  note geo = bt_pending_geometry [OF pending]
  note g = bt_geometryD [OF geo]
  have s: "s < used_slots t" "s < slot_count t"
    using pending used_slots_le [OF geo] by (auto simp: bt_pending_def)
  obtain bs where bs: "mem_write (blocks t) (addr_plus (slot_addr t s) 0) [flag_byte OCCUPIED] = Inr bs"
    "bt_geometry (t\<lparr>blocks := bs\<rparr>)" "length bs = length (blocks t)"
    "\<And>s' e. s' < slot_count t \<Longrightarrow> e < record_full_size t \<Longrightarrow> slot_byte (t\<lparr>blocks := bs\<rparr>) s' e =
        (if s' = s \<and> 0 \<le> e \<and> e < 0 + length [flag_byte OCCUPIED] then [flag_byte OCCUPIED] ! (e - 0)
         else slot_byte t s' e)"
    using s g by (rule_tac slot_write [OF geo s(2), of 0 "[flag_byte OCCUPIED]"]) auto
  let ?t = "t\<lparr>blocks := bs\<rparr>"
  have cnt: "slot_count ?t = slot_count t" and addr: "record_addr ?t = record_addr t"
    using bs(3) by (simp_all add: slot_count_def record_addr_def fun_eq_iff)
  have flag: "slot_flag ?t x = (if x = s then flag_byte OCCUPIED else slot_flag t x)" if "x < slot_count t" for x
    using bs(4) [OF that, of 0] g by (simp add: slot_flag_byte del: flag_byte.simps)
  have free: "slot_flag t s = flag_byte FREE" using pending s by (simp add: bt_pending_def)
  have pend: "bt_pending T ?t free (xs @ ys)"
    using pending bs(2) flag unfolding bt_pending_def cnt by (auto simp del: flag_byte.simps)
  have live: "set (live_records ?t) = insert (record_addr t s) (set (live_records t))"
    unfolding set_live_records addr cnt using flag s by (auto simp del: flag_byte.simps split: if_splits)
  have notin: "record_addr t s \<notin> set (live_records t)"
    using free by (auto simp: set_live_records record_addr_inj [OF geo])
  have bytes: "record_bytes ?t x = record_bytes t x" if x: "x \<in> set (live_records t)" for x
  proof -
    obtain y where y: "x = record_addr t y" "y < slot_count t" using x by (auto simp: set_live_records)
    show ?thesis
      unfolding y(1) using bs(4) [OF y(2)] addr by (intro record_bytes_cong [OF geo]) simp_all
  qed
  show thesis using that [OF _ pend notin live bytes] bs(1) by simp
qed

text \<open>Copying into a marked slot changes the bytes of its record only.\<close>

lemma copy_slot:
  assumes pending: "bt_pending T t free pend" and a: "a \<in> set (live_records t)" and len: "length v = record_size t"
  obtains bs where "mem_write (blocks t) a v = Inr bs" "bt_pending T (t\<lparr>blocks := bs\<rparr>) free pend"
    and "set (live_records (t\<lparr>blocks := bs\<rparr>)) = set (live_records t)"
    and "record_bytes (t\<lparr>blocks := bs\<rparr>) a = v"
    and "\<And>x. x \<in> set (live_records t) \<Longrightarrow> x \<noteq> a \<Longrightarrow> record_bytes (t\<lparr>blocks := bs\<rparr>) x = record_bytes t x"
proof -
  note geo = bt_pending_geometry [OF pending]
  note g = bt_geometryD [OF geo]
  from a obtain s where s: "a = record_addr t s" "s < slot_count t"
    by (auto simp: set_live_records)
  obtain bs where bs: "mem_write (blocks t) (addr_plus (slot_addr t s) 8) v = Inr bs"
    "bt_geometry (t\<lparr>blocks := bs\<rparr>)" "length bs = length (blocks t)"
    "\<And>s' e. s' < slot_count t \<Longrightarrow> e < record_full_size t \<Longrightarrow> slot_byte (t\<lparr>blocks := bs\<rparr>) s' e =
        (if s' = s \<and> 8 \<le> e \<and> e < 8 + length v then v ! (e - 8) else slot_byte t s' e)"
    using g len by (rule_tac slot_write [OF geo s(2), of 8 v]) auto
  let ?t = "t\<lparr>blocks := bs\<rparr>"
  have cnt: "slot_count ?t = slot_count t" and addr: "record_addr ?t = record_addr t"
    using bs(3) by (simp_all add: slot_count_def record_addr_def fun_eq_iff)
  have flag: "slot_flag ?t x = slot_flag t x" if "x < slot_count t" for x
    using bs(4) [OF that, of 0] g by (simp add: slot_flag_byte)
  have pend': "bt_pending T ?t free pend"
    using pending bs(2) flag unfolding bt_pending_def cnt by (auto simp del: flag_byte.simps)
  have live: "set (live_records ?t) = set (live_records t)"
    unfolding set_live_records addr cnt using flag by auto
  have "record_bytes ?t (record_addr ?t s) = map (\<lambda>i. v ! i) [0..<record_size t]"
    unfolding record_bytes_slot using bs(4) [OF s(2)] g len by simp
  then have new: "record_bytes ?t a = v" using len addr s(1) map_nth [of v] by simp
  have bytes: "record_bytes ?t x = record_bytes t x" if x: "x \<in> set (live_records t)" "x \<noteq> a" for x
  proof -
    obtain y where y: "x = record_addr t y" "y < slot_count t" "y \<noteq> s"
      using x s(1) by (auto simp: set_live_records)
    show ?thesis
      unfolding y(1) using bs(4) [OF y(2)] y(3) addr by (intro record_bytes_cong [OF geo]) simp_all
  qed
  show thesis using that [OF _ pend' live new bytes] bs(1) s(1) by (simp add: record_addr_def)
qed


lemma inserts_inv_start: "bt_inv T t0 \<Longrightarrow> inserts_inv T t0 (shared t0)"
  by (auto simp: inserts_inv_def shared_def inserted_addrs_def bt_inv_def bt_pending_none)

lemma pending_call:
  assumes "map fst (xs @ (ans, rec) # ys) = map f pend"
  obtains ps s qs where "pend = ps @ s # qs" "ans = f s" "map fst (xs @ ys) = map f (ps @ qs)"
proof -
  from assms obtain ps rest where r: "pend = ps @ rest" "map fst xs = map f ps" "ans # map fst ys = map f rest"
    by (auto simp: append_eq_map_conv)
  then obtain s qs where "rest = s # qs" "ans = f s" "map fst ys = map f qs" by (cases rest) auto
  then show thesis using that r by simp
qed

lemma inserts_invD:
  assumes "inserts_inv T t0 c"
  shows "set (live_records (table c)) = set (live_records t0) \<union> set (inserted_addrs c)"
    and "distinct (inserted_addrs c)" and "set (live_records t0) \<inter> set (inserted_addrs c) = {}"
    and "(a, rec) \<in> set (returns c) \<Longrightarrow> record_bytes (table c) a = take (record_size t0) rec"
    and "x \<in> set (live_records t0) \<Longrightarrow> record_bytes (table c) x = record_bytes t0 x"
    and "record_size (table c) = record_size t0"
    and "(a, rec) \<in> set (acquired c) \<union> set (marked c) \<union> set (returns c) \<Longrightarrow> record_size t0 \<le> length rec"
    and "(a, rec) \<in> set (returns c) \<Longrightarrow> a \<in> set (live_records (table c))"
    and "x \<in> set (live_records t0) \<Longrightarrow> x \<in> set (live_records (table c))"
proof -
  note i = assms [unfolded inserts_inv_def]
  show live: "set (live_records (table c)) = set (live_records t0) \<union> set (inserted_addrs c)"
    and "distinct (inserted_addrs c)" "set (live_records t0) \<inter> set (inserted_addrs c) = {}"
    and "record_size (table c) = record_size t0"
    using i by blast+
  show "record_bytes (table c) a = take (record_size t0) rec" if "(a, rec) \<in> set (returns c)"
    using i that by blast
  show "record_bytes (table c) x = record_bytes t0 x" if "x \<in> set (live_records t0)"
    using i that by blast
  show "record_size t0 \<le> length rec" if "(a, rec) \<in> set (acquired c) \<union> set (marked c) \<union> set (returns c)"
    using i that by blast
  show "a \<in> set (live_records (table c))" if "(a, rec) \<in> set (returns c)"
    unfolding live inserted_addrs_def using that by force
  show "x \<in> set (live_records (table c))" if "x \<in> set (live_records t0)"
    unfolding live using that by simp
qed

lemma inserts_invI:
  assumes "bt_pending T (table c) free pend" "map fst (acquired c) = map (slot_addr (table c)) pend"
    and "set (live_records (table c)) = set (live_records t0) \<union> set (inserted_addrs c)"
    and "distinct (inserted_addrs c)" "set (live_records t0) \<inter> set (inserted_addrs c) = {}"
    and "\<And>a rec. (a, rec) \<in> set (returns c) \<Longrightarrow> record_bytes (table c) a = take (record_size t0) rec"
    and "\<And>x. x \<in> set (live_records t0) \<Longrightarrow> record_bytes (table c) x = record_bytes t0 x"
    and "record_size (table c) = record_size t0"
    and "\<And>a rec. (a, rec) \<in> set (acquired c) \<union> set (marked c) \<union> set (returns c) \<Longrightarrow> record_size t0 \<le> length rec"
  shows "inserts_inv T t0 c"
  unfolding inserts_inv_def using assms by (intro conjI) (blast | simp)+

lemma inserts_inv_acquire:
  assumes laws: "queue_laws T" and inv: "inserts_inv T t0 c"
    and acq: "acquire_slot T (table c) = (Some ans, t)" and len: "record_size (table c) \<le> length rec"
  shows "inserts_inv T t0 (c\<lparr>table := t, acquired := (ans, rec) # acquired c\<rparr>)" (is "inserts_inv T t0 ?c")
proof -
  note i = inserts_invD [OF inv]
  obtain free pend where pending: "bt_pending T (table c) free pend"
    and calls: "map fst (acquired c) = map (slot_addr (table c)) pend"
    using inv by (auto simp: inserts_inv_def)
  obtain s t1 free' where a: "acquire_slot T (table c) = (Some (slot_addr t1 s), t1)" "bt_pending T t1 free' (s # pend)"
    "set (live_records t1) = set (live_records (table c))" "record_size t1 = record_size (table c)"
    "\<And>x. x \<in> set (live_records (table c)) \<Longrightarrow> record_bytes t1 x = record_bytes (table c) x"
    "slot_addr t1 = slot_addr (table c)"
    by (rule acquire_slot_live [OF laws pending]) blast
  have t: "t = t1" "ans = slot_addr t1 s" using acq a(1) by auto
  show ?thesis
  proof (rule inserts_invI [of T ?c free' "s # pend"])
    show "bt_pending T (table ?c) free' (s # pend)" using a(2) t(1) by simp
    show "map fst (acquired ?c) = map (slot_addr (table ?c)) (s # pend)" using calls a(6) t by simp
    show "set (live_records (table ?c)) = set (live_records t0) \<union> set (inserted_addrs ?c)"
      "distinct (inserted_addrs ?c)" "set (live_records t0) \<inter> set (inserted_addrs ?c) = {}"
      using i(1-3) a(3) t(1) by (simp_all add: inserted_addrs_def)
    show "record_size (table ?c) = record_size t0" using a(4) t(1) i(6) by simp
    show "record_bytes (table ?c) x = record_bytes t0 x" if "x \<in> set (live_records t0)" for x
      using i(5,9) [OF that] a(5) t(1) by simp
    show "record_bytes (table ?c) b = take (record_size t0) r" if "(b, r) \<in> set (returns ?c)" for b r
      using i(4,8) [of b r] that a(5) t(1) by simp
    show "record_size t0 \<le> length r" if "(b, r) \<in> set (acquired ?c) \<union> set (marked ?c) \<union> set (returns ?c)" for b r
    proof (cases "(b, r) = (ans, rec)")
      case True
      then show ?thesis using len i(6) by simp
    next
      case False
      then have "(b, r) \<in> set (acquired c) \<union> set (marked c) \<union> set (returns c)" using that by auto
      then show ?thesis by (rule i(7))
    qed
  qed
qed

lemma inserts_inv_mark:
  assumes inv: "inserts_inv T t0 c" and calls: "acquired c = xs @ (ans, rec) # ys"
  obtains bs where "mem_write (blocks (table c)) ans [flag_byte OCCUPIED] = Inr bs"
    and "inserts_inv T t0 (c\<lparr>table := (table c)\<lparr>blocks := bs\<rparr>, acquired := xs @ ys, marked := (ans, rec) # marked c\<rparr>)"
proof -
  note i = inserts_invD [OF inv]
  obtain free pend where pending: "bt_pending T (table c) free pend"
    and acq: "map fst (acquired c) = map (slot_addr (table c)) pend"
    using inv by (auto simp: inserts_inv_def)
  obtain ps s qs where call: "pend = ps @ s # qs" "ans = slot_addr (table c) s"
    "map fst (xs @ ys) = map (slot_addr (table c)) (ps @ qs)"
    by (rule pending_call [OF acq [unfolded calls]]) blast
  obtain bs where m: "mem_write (blocks (table c)) (slot_addr (table c) s) [flag_byte OCCUPIED] = Inr bs"
    "bt_pending T ((table c)\<lparr>blocks := bs\<rparr>) free (ps @ qs)" "record_addr (table c) s \<notin> set (live_records (table c))"
    "set (live_records ((table c)\<lparr>blocks := bs\<rparr>)) = insert (record_addr (table c) s) (set (live_records (table c)))"
    "\<And>x. x \<in> set (live_records (table c)) \<Longrightarrow>
      record_bytes ((table c)\<lparr>blocks := bs\<rparr>) x = record_bytes (table c) x"
    using mark_slot [OF pending [unfolded call(1)]] by metis
  let ?c = "c\<lparr>table := (table c)\<lparr>blocks := bs\<rparr>, acquired := xs @ ys, marked := (ans, rec) # marked c\<rparr>"
  have ins: "inserted_addrs ?c = record_addr (table c) s # inserted_addrs c"
    by (simp add: inserted_addrs_def record_addr_def call(2))
  have "inserts_inv T t0 ?c"
  proof (rule inserts_invI [of T ?c free "ps @ qs"])
    show "bt_pending T (table ?c) free (ps @ qs)" using m(2) by simp
    show "map fst (acquired ?c) = map (slot_addr (table ?c)) (ps @ qs)" using call(3) by simp
    show "set (live_records (table ?c)) = set (live_records t0) \<union> set (inserted_addrs ?c)"
      unfolding ins using i(1) m(4) by simp
    show "distinct (inserted_addrs ?c)" "set (live_records t0) \<inter> set (inserted_addrs ?c) = {}"
      unfolding ins using i(1-3) m(3) by auto
    show "record_size (table ?c) = record_size t0" using i(6) by simp
    show "record_bytes (table ?c) x = record_bytes t0 x" if "x \<in> set (live_records t0)" for x
      using i(5,9) [OF that] m(5) by simp
    show "record_bytes (table ?c) b = take (record_size t0) r" if "(b, r) \<in> set (returns ?c)" for b r
      using i(4,8) [of b r] that m(5) by simp
    show "record_size t0 \<le> length r" if "(b, r) \<in> set (acquired ?c) \<union> set (marked ?c) \<union> set (returns ?c)" for b r
    proof -
      have "(b, r) \<in> set (acquired c) \<union> set (marked c) \<union> set (returns c)" using that by (auto simp: calls)
      then show ?thesis by (rule i(7))
    qed
  qed
  then show thesis using that m(1) call(2) by simp
qed

lemma inserts_inv_copy:
  assumes inv: "inserts_inv T t0 c" and calls: "marked c = xs @ (ans, rec) # ys"
  obtains bs where "mem_write (blocks (table c)) (addr_plus ans kRecordHeaderSize) (take (record_size (table c)) rec) = Inr bs"
    and "inserts_inv T t0 (c\<lparr>table := (table c)\<lparr>blocks := bs\<rparr>, marked := xs @ ys,
      returns := (addr_plus ans kRecordHeaderSize, rec) # returns c\<rparr>)"
proof -
  note i = inserts_invD [OF inv]
  let ?a = "addr_plus ans kRecordHeaderSize"
  obtain free pend where pending: "bt_pending T (table c) free pend"
    and acq: "map fst (acquired c) = map (slot_addr (table c)) pend"
    using inv by (auto simp: inserts_inv_def)
  have a: "?a \<in> set (inserted_addrs c)" by (simp add: inserted_addrs_def calls)
  then have live: "?a \<in> set (live_records (table c))" using i(1) by simp
  have "record_size t0 \<le> length rec" using i(7) [of ans rec] by (simp add: calls)
  then have len: "length (take (record_size (table c)) rec) = record_size (table c)" using i(6) by simp
  obtain bs where m: "mem_write (blocks (table c)) ?a (take (record_size (table c)) rec) = Inr bs"
    "bt_pending T ((table c)\<lparr>blocks := bs\<rparr>) free pend"
    "set (live_records ((table c)\<lparr>blocks := bs\<rparr>)) = set (live_records (table c))"
    "record_bytes ((table c)\<lparr>blocks := bs\<rparr>) ?a = take (record_size (table c)) rec"
    "\<And>x. x \<in> set (live_records (table c)) \<Longrightarrow> x \<noteq> ?a \<Longrightarrow>
      record_bytes ((table c)\<lparr>blocks := bs\<rparr>) x = record_bytes (table c) x"
    using copy_slot [OF pending live len] by metis
  let ?c = "c\<lparr>table := (table c)\<lparr>blocks := bs\<rparr>, marked := xs @ ys, returns := (?a, rec) # returns c\<rparr>"
  have ins: "set (inserted_addrs ?c) = set (inserted_addrs c)" "distinct (inserted_addrs ?c)"
    and new: "?a \<notin> fst ` set (returns c)"
    using i(2) by (auto simp: inserted_addrs_def calls)
  have "inserts_inv T t0 ?c"
  proof (rule inserts_invI [of T ?c free pend])
    show "bt_pending T (table ?c) free pend" using m(2) by simp
    show "map fst (acquired ?c) = map (slot_addr (table ?c)) pend" using acq by simp
    show "set (live_records (table ?c)) = set (live_records t0) \<union> set (inserted_addrs ?c)"
      "distinct (inserted_addrs ?c)" "set (live_records t0) \<inter> set (inserted_addrs ?c) = {}"
      unfolding ins(1) using i(1,3) m(3) ins(2) by simp_all
    show "record_size (table ?c) = record_size t0" using i(6) by simp
    show "record_bytes (table ?c) x = record_bytes t0 x" if "x \<in> set (live_records t0)" for x
    proof -
      have "x \<noteq> ?a" using i(3) a that by auto
      then show ?thesis using i(5,9) [OF that] m(5) by simp
    qed
    show "record_bytes (table ?c) b = take (record_size t0) r" if "(b, r) \<in> set (returns ?c)" for b r
    proof (cases "(b, r) = (?a, rec)")
      case True
      then show ?thesis using m(4) i(6) by simp
    next
      case False
      then have b: "(b, r) \<in> set (returns c)" using that by auto
      then have "b \<noteq> ?a" using new by force
      then show ?thesis using i(4,8) [OF b] m(5) by simp
    qed
    show "record_size t0 \<le> length r" if "(b, r) \<in> set (acquired ?c) \<union> set (marked ?c) \<union> set (returns ?c)" for b r
    proof (cases "(b, r) = (?a, rec)")
      case True
      then show ?thesis using \<open>record_size t0 \<le> length rec\<close> by simp
    next
      case False
      then have "(b, r) \<in> set (acquired c) \<union> set (marked c) \<union> set (returns c)"
        using that by (auto simp: calls)
      then show ?thesis by (rule i(7))
    qed
  qed
  then show thesis using that m(1) by simp
qed

lemma inserts_inv_step:
  assumes "insert_step T c c'" and "queue_laws T" and inv: "inserts_inv T t0 c"
  shows "inserts_inv T t0 c'"
  using assms(1)
proof cases
  case (ins_acquire ans t rec)
  then show ?thesis using inserts_inv_acquire [OF assms(2) inv] by simp
next
  case (ins_mark xs ans rec ys bs)
  then show ?thesis using inserts_inv_mark [OF inv ins_mark(2)] by (metis Inr_inject)
next
  case (ins_copy xs ans rec ys bs)
  then show ?thesis using inserts_inv_copy [OF inv ins_copy(2)] by (metis Inr_inject)
qed

lemma inserts_inv_runs:
  "table_runs (insert_step T) c c' \<Longrightarrow> queue_laws T \<Longrightarrow> inserts_inv T t0 c \<Longrightarrow> inserts_inv T t0 c'"
  by (induction rule: table_runs.induct) (auto intro: inserts_inv_step)

text \<open>Inserts use neither list of the deletes, and each of them can always go on to its end.\<close>

lemma insert_step_deletes: "insert_step T c c' \<Longrightarrow> pushed c' = pushed c \<and> cleared c' = cleared c"
  by (erule insert_step.cases) auto

lemma insert_runs_deletes:
  "table_runs (insert_step T) c c' \<Longrightarrow> pushed c' = pushed c \<and> cleared c' = cleared c"
  by (induction rule: table_runs.induct) (auto dest: insert_step_deletes)

lemma table_runs_trans: "table_runs step c1 c2 \<Longrightarrow> table_runs step c c1 \<Longrightarrow> table_runs step c c2"
  by (induction rule: table_runs.induct) (auto intro: runs_step)

lemma table_runs_one: "step c c1 \<Longrightarrow> table_runs step c c1"
  using runs_step runs_refl by metis

lemma inserts_complete:
  assumes "inserts_inv T t0 c" "queue_laws T" "pushed c = []" "cleared c = []"
  shows "\<exists>c'. table_runs (insert_step T) c c' \<and> idle_calls c' \<and>
    length (returns c') = length (returns c) + length (marked c) + length (acquired c)"
  using assms
proof (induction "2 * length (acquired c) + length (marked c)" arbitrary: c rule: less_induct)
  case less
  have next_call: "\<exists>c'. table_runs (insert_step T) c c' \<and> idle_calls c' \<and>
      length (returns c') = length (returns c) + length (marked c) + length (acquired c)"
    if step: "insert_step T c c1" and smaller: "2 * length (acquired c1) + length (marked c1) <
        2 * length (acquired c) + length (marked c)"
      and same: "length (returns c1) + length (marked c1) + length (acquired c1) =
        length (returns c) + length (marked c) + length (acquired c)" for c1
  proof -
    obtain c' where "table_runs (insert_step T) c1 c'" "idle_calls c'"
      "length (returns c') = length (returns c1) + length (marked c1) + length (acquired c1)"
      using less(1) [OF smaller inserts_inv_step [OF step less(3,2)] less(3)] insert_step_deletes [OF step] less(4,5)
      by auto
    then show ?thesis using table_runs_trans table_runs_one [of "insert_step T", OF step] same by metis
  qed
  show ?case
  proof (cases "acquired c")
    case (Cons call ys)
    obtain ans rec where call: "acquired c = [] @ (ans, rec) # ys" using Cons by (cases call) simp
    obtain bs where bs: "mem_write (blocks (table c)) ans [flag_byte OCCUPIED] = Inr bs"
      using inserts_inv_mark [OF less(2) call] by blast
    show ?thesis by (rule next_call [OF ins_mark [OF call bs]]) (simp_all add: call)
  next
    case no_acquired: Nil
    show ?thesis
    proof (cases "marked c")
      case (Cons call ys)
      obtain ans rec where call: "marked c = [] @ (ans, rec) # ys" using Cons by (cases call) simp
      obtain bs where bs: "mem_write (blocks (table c)) (addr_plus ans kRecordHeaderSize)
          (take (record_size (table c)) rec) = Inr bs"
        using inserts_inv_copy [OF less(2) call] by blast
      show ?thesis by (rule next_call [OF ins_copy [OF call bs]]) (simp_all add: call)
    next
      case Nil
      then show ?thesis
        using no_acquired less(4,5) runs_refl [of "insert_step T" c] by (auto simp: idle_calls_def)
    qed
  qed
qed

lemma insert_can_start:
  fixes rec :: bytes
  assumes inv: "inserts_inv T t0 c" and laws: "queue_laws T" and len: "record_size t0 \<le> length rec"
  shows "\<exists>c1. insert_step T c c1 \<and> inserts_inv T t0 c1 \<and> returns c1 = returns c \<and> marked c1 = marked c \<and>
    length (acquired c1) = length (acquired c) + 1"
proof -
  obtain free pend where "bt_pending T (table c) free pend" using inv by (auto simp: inserts_inv_def)
  then obtain ans t where acq: "acquire_slot T (table c) = (Some ans, t)"
    using acquire_slot_pending [OF laws] by metis
  have "record_size (table c) \<le> length rec" using len inserts_invD(6) [OF inv] by simp
  note step = ins_acquire [OF acq this]
  show ?thesis
    using step inserts_inv_step [OF step laws inv]
    by (intro exI [of _ "c\<lparr>table := t, acquired := (ans, rec) # acquired c\<rparr>"]) simp
qed

section \<open>Inserts are safe, deletes are not\<close>

text \<open>A table of four-byte records with one record, for the instances below.\<close>

lemma one_record:
  obtains a t where "BaseTable_insertRecord list_tbb [1, 2, 3, 4] (BaseTable_new list_tbb 4) = Inr (a, t)"
    "bt_inv list_tbb t" "set (live_records t) = {a}" "q_items list_tbb (free_list t) = []"
    "occupied_record_count t = 1" "occupied_record_count t < allocated_record_count t" "record_size t = 4"
proof -
  let ?t = "BaseTable_new list_tbb 4 :: addr list base_table"
  have block: "1 < kBlockSize div 12" by (simp add: kBlockSize_def)
  have inv: "bt_inv list_tbb ?t" "live_records ?t = []"
    using bt_inv_new [of list_tbb 4] list_queue_laws block by simp_all
  have size: "record_size ?t \<le> length ([1, 2, 3, 4] :: bytes)" "record_size ?t = 4" by (simp_all add: BaseTable_new_def)
  obtain a t where t: "BaseTable_insertRecord list_tbb [1, 2, 3, 4] ?t = Inr (a, t)" "bt_inv list_tbb t"
    "set (live_records t) = insert a (set (live_records ?t))" "record_size t = record_size ?t"
    by (rule insertRecord_spec [OF inv(1) size(1)]) blast
  then have ins: "BaseTable_insertRecord list_tbb [1, 2, 3, 4] ?t = Inr (a, t)" "bt_inv list_tbb t"
    "set (live_records t) = {a}" "record_size t = 4" using inv(2) size(2) by simp_all
  obtain ans t1 where acq: "acquire_slot list_tbb ?t = (Some ans, t1)" "q_items list_tbb (free_list t1) = []"
    "occupied_record_count t1 = 1" "allocated_record_count t1 = kBlockSize div 12" "record_size t1 = 4"
    by (simp add: acquire_slot_def BaseTable_new_def allocateNextBlock_def take_fresh_def list_tbb_def Let_def)
  have "fill_slot ans [1, 2, 3, 4] t1 = Inr (a, t)" using ins(1) acq(1) by (simp add: BaseTable_insertRecord_def)
  then obtain bs where "t = t1\<lparr>blocks := bs\<rparr>" by (rule fill_slot_writes) (use acq(5) in simp_all)
  then show thesis using that [OF ins(1-3)] ins(4) acq(2-4) block by simp
qed

text \<open>C13: Inserts alone may run concurrently on a table, whatever the interleaving of their critical sections and of
  their writes outside the mutex: no call is ever stuck, and when all have returned the table is well formed,
  they have returned different addresses, none of a record that was there before, the records of the
  table are the old ones, with their bytes, and the inserted ones, with the bytes given to insert,
  and the size has grown by the number of calls.\<close>

theorem concurrent_inserts:
  assumes "bt_inv T t0" "table_runs (insert_step T) (shared t0) c"
  shows "(\<exists>c'. table_runs (insert_step T) c c' \<and> idle_calls c' \<and>
      length (returns c') = length (returns c) + length (marked c) + length (acquired c)) \<and>
    (idle_calls c \<longrightarrow>
      bt_inv T (table c) \<and> distinct (map fst (returns c)) \<and>
      set (live_records (table c)) = set (live_records t0) \<union> fst ` set (returns c) \<and>
      set (live_records t0) \<inter> fst ` set (returns c) = {} \<and>
      (\<forall>(a, rec) \<in> set (returns c). record_bytes (table c) a = take (record_size t0) rec) \<and>
      (\<forall>a \<in> set (live_records t0). record_bytes (table c) a = record_bytes t0 a) \<and>
      getTableSize (table c) = getTableSize t0 + length (returns c))"
proof -
  have laws: "queue_laws T" using assms(1) by (simp add: bt_inv_def)
  have inv: "inserts_inv T t0 c"
    by (rule inserts_inv_runs [OF assms(2) laws inserts_inv_start [OF assms(1)]])
  note i = inserts_invD [OF inv]
  have deletes: "pushed c = []" "cleared c = []"
    using insert_runs_deletes [OF assms(2)] by (simp_all add: shared_def)
  have idle: "bt_inv T (table c) \<and> distinct (map fst (returns c)) \<and>
      set (live_records (table c)) = set (live_records t0) \<union> fst ` set (returns c) \<and>
      set (live_records t0) \<inter> fst ` set (returns c) = {} \<and>
      getTableSize (table c) = getTableSize t0 + length (returns c)" if idle: "idle_calls c"
  proof -
    obtain free pend where p: "bt_pending T (table c) free pend"
      "map fst (acquired c) = map (slot_addr (table c)) pend"
      using inv by (auto simp: inserts_inv_def)
    then have "bt_pending T (table c) free []" using idle by (simp add: idle_calls_def)
    then have table: "bt_inv T (table c)" using laws by (auto simp: bt_inv_def bt_pending_none)
    have addrs: "inserted_addrs c = map fst (returns c)" using idle by (simp add: inserted_addrs_def idle_calls_def)
    have live: "set (live_records (table c)) = set (live_records t0) \<union> set (map fst (returns c))"
      and new: "distinct (map fst (returns c))" "set (live_records t0) \<inter> set (map fst (returns c)) = {}"
      using i(1-3) unfolding addrs by blast+
    have count: "getTableSize t = card (set (live_records t))" if "bt_inv T t" for t
      using getTableSize_live [OF that] distinct_card [OF distinct_live_records, of t] that by (simp add: bt_inv_def)
    have "getTableSize (table c) = getTableSize t0 + length (returns c)"
      using count [OF table] count [OF assms(1)] live new distinct_card [OF new(1)] card_Un_disjoint [OF _ _ new(2)]
      by simp
    then show ?thesis using table live new by simp
  qed
  have "\<forall>(a, rec) \<in> set (returns c). record_bytes (table c) a = take (record_size t0) rec"
    "\<forall>a \<in> set (live_records t0). record_bytes (table c) a = record_bytes t0 a"
    using i(4,5) by auto
  then show ?thesis
    using idle inserts_complete [OF inv laws deletes] by blast
qed

lemma concurrent_inserts_witness:
  "\<exists>c. table_runs (insert_step list_tbb) (shared (BaseTable_new list_tbb 4)) c \<and> idle_calls c \<and>
    length (returns c) = 2 \<and> distinct (map fst (returns c)) \<and> getTableSize (table c) = 2"
proof -
  let ?t0 = "BaseTable_new list_tbb 4 :: addr list base_table" and ?rec = "[1, 2, 3, 4] :: bytes"
  have block: "1 < kBlockSize div 12" by (simp add: kBlockSize_def)
  have t0: "bt_inv list_tbb ?t0" "record_size ?t0 = 4" "getTableSize ?t0 = 0"
    using bt_inv_new(1) [of list_tbb 4] list_queue_laws block by (simp_all add: BaseTable_new_def getTableSize_def)
  obtain c1 where c1: "insert_step list_tbb (shared ?t0) c1" "inserts_inv list_tbb ?t0 c1"
    "returns c1 = []" "marked c1 = []" "length (acquired c1) = 1"
    using insert_can_start [OF inserts_inv_start [OF t0(1)] list_queue_laws, of ?rec] t0(2) by (auto simp: shared_def)
  obtain c2 where c2: "insert_step list_tbb c1 c2" "returns c2 = []" "marked c2 = []" "length (acquired c2) = 2"
    using insert_can_start [OF c1(2) list_queue_laws, of ?rec] c1(3-5) t0(2) by auto
  have run: "table_runs (insert_step list_tbb) (shared ?t0) c2"
    by (rule runs_step [OF table_runs_one [of "insert_step list_tbb", OF c1(1)] c2(1)])
  obtain c where c: "table_runs (insert_step list_tbb) c2 c" "idle_calls c" "length (returns c) = 2"
    using concurrent_inserts [OF t0(1) run] c2(2-4) by auto
  have "table_runs (insert_step list_tbb) (shared ?t0) c" by (rule table_runs_trans [OF c(1) run])
  then show ?thesis using concurrent_inserts [OF t0(1)] c(2,3) t0(3) by fastforce
qed

text \<open>The delete of a record and an insert that takes the slot between the two writes of the delete.\<close>

lemma race_slot:
  assumes inv: "bt_inv T t" and a: "a \<in> set (live_records t)"
    and free: "q_items T (free_list t) = []" and room: "occupied_record_count t < allocated_record_count t"
  obtains s q where "a = record_addr t s" "s < slot_count t" "slot_flag t s = flag_byte OCCUPIED"
    and "acquire_slot T (t\<lparr>free_list := q_push T (slot_addr t s) (free_list t)\<rparr>) =
      (Some (slot_addr t s), t\<lparr>free_list := q, occupied_record_count := occupied_record_count t + 1\<rparr>)"
proof -
  have laws: "queue_laws T" using inv by (simp add: bt_inv_def)
  obtain s where s: "a = record_addr t s" "s < slot_count t" "slot_flag t s = flag_byte OCCUPIED"
    using a by (auto simp: set_live_records)
  let ?q = "q_push T (slot_addr t s) (free_list t)"
  have "q_items T ?q = [slot_addr t s]" using laws free by (simp add: queue_laws_def)
  then obtain q where "q_try_pop T ?q = Some (slot_addr t s, q)" using laws unfolding queue_laws_def by blast
  then show thesis using that [OF s] room by (simp add: acquire_slot_def)
qed

lemma cleared_header:
  assumes geo: "bt_geometry t" and s: "s < slot_count t"
  obtains bs where "mem_write (blocks t) (slot_addr t s) (replicate kRecordHeaderSize 0) = Inr bs"
    and "set (live_records (t\<lparr>blocks := bs\<rparr>)) = set (live_records t) - {record_addr t s}"
    and "bt_geometry (t\<lparr>blocks := bs\<rparr>)"
proof -
  note g = bt_geometryD [OF geo]
  obtain bs where bs: "mem_write (blocks t) (addr_plus (slot_addr t s) 0) (replicate 8 0) = Inr bs"
    "bt_geometry (t\<lparr>blocks := bs\<rparr>)" "length bs = length (blocks t)"
    "\<And>s' e. s' < slot_count t \<Longrightarrow> e < record_full_size t \<Longrightarrow> slot_byte (t\<lparr>blocks := bs\<rparr>) s' e =
        (if s' = s \<and> 0 \<le> e \<and> e < 0 + length (replicate 8 (0::byte)) then replicate 8 0 ! (e - 0)
         else slot_byte t s' e)"
    using g by (rule_tac slot_write [OF geo s, of 0 "replicate 8 0"]) auto
  have cnt: "slot_count (t\<lparr>blocks := bs\<rparr>) = slot_count t" and addr: "record_addr (t\<lparr>blocks := bs\<rparr>) = record_addr t"
    using bs(3) by (simp_all add: slot_count_def record_addr_def fun_eq_iff)
  have flag: "slot_flag (t\<lparr>blocks := bs\<rparr>) x = (if x = s then 0 else slot_flag t x)" if "x < slot_count t" for x
    using bs(4) [OF that, of 0] g by (simp add: slot_flag_byte)
  have "{x. x < slot_count t \<and> slot_flag (t\<lparr>blocks := bs\<rparr>) x = flag_byte OCCUPIED} =
      {x. x < slot_count t \<and> slot_flag t x = flag_byte OCCUPIED} - {s}"
    using flag by (auto split: if_splits)
  moreover have "inj (record_addr t)" using record_addr_inj [OF geo] by (auto simp: inj_on_def)
  ultimately have "set (live_records (t\<lparr>blocks := bs\<rparr>)) = set (live_records t) - {record_addr t s}"
    unfolding set_live_records cnt addr by (simp only: image_set_diff image_insert image_empty)
  then show thesis using that bs(1,2) by simp
qed

lemma live_records_count: "live_records (t\<lparr>occupied_record_count := k\<rparr>) = live_records t"
  by (simp add: live_records_def live_slots_def record_addr_def fun_eq_iff del: flag_byte.simps)

lemma race_run:
  assumes minus: "addr_minus a kRecordHeaderSize = Inr x" "addr_plus x kRecordHeaderSize = a"
    and acq: "acquire_slot T (t\<lparr>free_list := q_push T x (free_list t)\<rparr>) = (Some x, t2)"
    and len: "record_size t \<le> length rec"
    and w: "mem_write (blocks t2) x [flag_byte OCCUPIED] = Inr bs1"
      "mem_write bs1 (addr_plus x kRecordHeaderSize) (take (record_size t2) rec) = Inr bs2"
    and clear: "mem_write bs2 x (replicate kRecordHeaderSize 0) = Inr bs3"
    and t5: "t5 = t2\<lparr>blocks := bs3, occupied_record_count := size_t_dec (occupied_record_count t2)\<rparr>"
  shows "table_runs (any_step T) (shared t)
    \<lparr>table = t5, acquired = [], marked = [], returns = [(a, rec)], pushed = [], cleared = []\<rparr>"
proof -
  let ?c = "\<lambda>t as ms rs ps cs. \<lparr>table = t, acquired = as, marked = ms, returns = rs, pushed = ps, cleared = cs\<rparr>"
  let ?t1 = "t\<lparr>free_list := q_push T x (free_list t)\<rparr>"
  have "table_runs (any_step T) (shared t) (?c ?t1 [] [] [] [x] [])"
    by (rule runs_step [OF runs_refl]) (use del_push [OF minus(1), of T "shared t"] in \<open>simp add: shared_def\<close>)
  then have "table_runs (any_step T) (shared t) (?c t2 [(x, rec)] [] [] [x] [])"
    by (rule runs_step) (use ins_acquire [of T "?c ?t1 [] [] [] [x] []" x t2 rec] acq len in simp)
  then have "table_runs (any_step T) (shared t) (?c (t2\<lparr>blocks := bs1\<rparr>) [] [(x, rec)] [] [x] [])"
    by (rule runs_step) (use ins_mark [of "?c t2 [(x, rec)] [] [] [x] []" "[]" x rec "[]" bs1 T] w(1) in simp)
  then have "table_runs (any_step T) (shared t) (?c (t2\<lparr>blocks := bs2\<rparr>) [] [] [(a, rec)] [x] [])"
    by (rule runs_step)
      (use ins_copy [of "?c (t2\<lparr>blocks := bs1\<rparr>) [] [(x, rec)] [] [x] []" "[]" x rec "[]" bs2 T] w(2) minus(2) in simp)
  then have "table_runs (any_step T) (shared t) (?c (t2\<lparr>blocks := bs3\<rparr>) [] [] [(a, rec)] [] [x])"
    by (rule runs_step)
      (use del_clear [of "?c (t2\<lparr>blocks := bs2\<rparr>) [] [] [(a, rec)] [x] []" "[]" x "[]" bs3 T] clear in simp)
  then show ?thesis
    by (rule runs_step) (use del_count [of "?c (t2\<lparr>blocks := bs3\<rparr>) [] [] [(a, rec)] [] [x]" "[]" x "[]" T] t5 in simp)
qed

text \<open>C14: A delete and an insert on the same table are not safe: deleteRecord gives the slot to the free list before it
  clears the header. From a table with an empty free list and room in its last block, an insert may take
  the slot, mark it and return, and then the delete clears the mark: both calls have returned, the address
  the insert returned is no record of the table, the record is lost to every scan, and the size of
  the table counts one record more than there are.\<close>

theorem delete_insert_race:
  assumes "bt_inv T t" "a \<in> set (live_records t)" "q_items T (free_list t) = []"
    and "occupied_record_count t < allocated_record_count t" "occupied_record_count t < 2 ^ 64 - 1"
    and "record_size t \<le> length rec"
  shows "\<exists>c. table_runs (any_step T) (shared t) c \<and> idle_calls c \<and> returns c = [(a, rec)] \<and>
    a \<notin> set (live_records (table c)) \<and> set (live_records (table c)) = set (live_records t) - {a} \<and>
    getTableSize (table c) = length (live_records (table c)) + 1"
proof -
  have geo: "bt_geometry t" using assms(1) by (simp add: bt_inv_def)
  obtain s q where s: "a = record_addr t s" "s < slot_count t" "slot_flag t s = flag_byte OCCUPIED"
    and acq: "acquire_slot T (t\<lparr>free_list := q_push T (slot_addr t s) (free_list t)\<rparr>) =
      (Some (slot_addr t s), t\<lparr>free_list := q, occupied_record_count := occupied_record_count t + 1\<rparr>)"
    by (rule race_slot [OF assms(1-4)])
  let ?x = "slot_addr t s"
  let ?t1 = "t\<lparr>free_list := q_push T ?x (free_list t)\<rparr>"
  let ?t2 = "t\<lparr>free_list := q, occupied_record_count := occupied_record_count t + 1\<rparr>"
  have geo2: "bt_geometry ?t2" "s < slot_count ?t2" "slot_addr ?t2 s = ?x" "record_addr ?t2 = record_addr t"
    using geo s(2) by (simp_all add: record_addr_def fun_eq_iff)
  obtain bs where bs: "fill_slot (slot_addr ?t2 s) rec ?t2 = Inr (record_addr ?t2 s, ?t2\<lparr>blocks := bs\<rparr>)"
    "bt_geometry (?t2\<lparr>blocks := bs\<rparr>)" "length bs = length (blocks ?t2)"
    "slot_byte (?t2\<lparr>blocks := bs\<rparr>) s 0 = flag_byte OCCUPIED"
    "\<And>s' e. s' < slot_count ?t2 \<Longrightarrow> e < record_full_size ?t2 \<Longrightarrow> s' \<noteq> s \<Longrightarrow>
      slot_byte (?t2\<lparr>blocks := bs\<rparr>) s' e = slot_byte ?t2 s' e"
    using assms(6) by (rule_tac fill_slot_bytes [OF geo2(1,2), of rec]) auto
  let ?t3 = "?t2\<lparr>blocks := bs\<rparr>"
  obtain bs1 where w: "mem_write (blocks t) ?x [flag_byte OCCUPIED] = Inr bs1"
    "mem_write bs1 (addr_plus ?x kRecordHeaderSize) (take (record_size t) rec) = Inr bs"
  proof (rule fill_slot_writes [OF bs(1)])
    fix bs1 bs2
    assume f: "mem_write (blocks ?t2) (slot_addr ?t2 s) [flag_byte OCCUPIED] = Inr bs1"
      "mem_write bs1 (addr_plus (slot_addr ?t2 s) kRecordHeaderSize) (take (record_size ?t2) rec) = Inr bs2"
      "?t3 = ?t2\<lparr>blocks := bs2\<rparr>"
    have "bs = bs2" using arg_cong [OF f(3), of blocks] by simp
    then show thesis using f(1,2) geo2(3) that by simp
  qed (use assms(6) in simp)
  have cnt: "slot_count ?t3 = slot_count t" and addr: "record_addr ?t3 = record_addr t" "slot_addr ?t3 s = ?x"
    using bs(3) by (simp_all add: slot_count_def record_addr_def fun_eq_iff)
  have flag: "slot_flag ?t3 x = slot_flag t x" if "x < slot_count t" for x
    using bs(4,5) that s(3) bt_geometryD(3) [OF geo] by (cases "x = s") (simp_all add: slot_flag_byte)
  then have live3: "set (live_records ?t3) = set (live_records t)"
    unfolding set_live_records cnt addr by (intro image_cong) auto
  have "s < slot_count ?t3" using s(2) cnt by simp
  then obtain bs4 where bs4: "mem_write (blocks ?t3) (slot_addr ?t3 s) (replicate kRecordHeaderSize 0) = Inr bs4"
    "set (live_records (?t3\<lparr>blocks := bs4\<rparr>)) = set (live_records ?t3) - {record_addr ?t3 s}"
    "bt_geometry (?t3\<lparr>blocks := bs4\<rparr>)"
    by (rule cleared_header [OF bs(2)]) blast
  let ?t4 = "?t3\<lparr>blocks := bs4\<rparr>"
  let ?t5 = "?t4\<lparr>occupied_record_count := size_t_dec (occupied_record_count ?t4)\<rparr>"
  let ?c = "\<lambda>t as ms rs ps cs. \<lparr>table = t, acquired = as, marked = ms, returns = rs, pushed = ps, cleared = cs\<rparr>"
  have run: "table_runs (any_step T) (shared t) (?c ?t5 [] [] [(a, rec)] [] [])"
  proof (rule race_run [of a ?x T t ?t2 rec bs1 bs bs4])
    show "addr_minus a kRecordHeaderSize = Inr ?x" unfolding s(1) by (rule record_addr_minus)
    show "addr_plus ?x kRecordHeaderSize = a" by (simp add: s(1) record_addr_def)
    show "mem_write bs ?x (replicate kRecordHeaderSize 0) = Inr bs4" using bs4(1) addr(2) by simp
  qed (use acq assms(6) w in simp_all)
  have live5: "set (live_records ?t5) = set (live_records t) - {a}"
    by (simp only: live_records_count bs4(2) live3 addr(1) s(1))
  have geo5: "bt_geometry ?t5" using bs4(3) by (simp only: layout_update)
  have "length (live_records ?t5) = card (set (live_records t) - {a})"
    using distinct_card [OF distinct_live_records [OF geo5]] live5 by simp
  moreover have "getTableSize t = card (set (live_records t))"
    using getTableSize_live [OF assms(1)] distinct_card [OF distinct_live_records [OF geo]] by simp
  moreover have "getTableSize ?t5 = getTableSize t" by (simp add: getTableSize_def size_t_dec_def)
  moreover have "card (set (live_records t)) = card (set (live_records t) - {a}) + 1"
    using card.remove [of "set (live_records t)" a] assms(2) by simp
  ultimately show ?thesis using run live5 by (intro exI [of _ "?c ?t5 [] [] [(a, rec)] [] []"]) (simp add: idle_calls_def)
qed

lemma delete_insert_race_witness:
  "\<exists>a t c. BaseTable_insertRecord list_tbb [1, 2, 3, 4] (BaseTable_new list_tbb 4) = Inr (a, t) \<and>
    table_runs (any_step list_tbb) (shared t) c \<and> returns c = [(a, [5, 6, 7, 8])] \<and>
    live_records (table c) = [] \<and> getTableSize (table c) = 1"
proof -
  obtain a t where t: "BaseTable_insertRecord list_tbb [1, 2, 3, 4] (BaseTable_new list_tbb 4) = Inr (a, t)"
    "bt_inv list_tbb t" "set (live_records t) = {a}" "q_items list_tbb (free_list t) = []"
    "occupied_record_count t = 1" "occupied_record_count t < allocated_record_count t" "record_size t = 4"
    by (rule one_record)
  obtain c where "table_runs (any_step list_tbb) (shared t) c" "returns c = [(a, [5, 6, 7, 8])]"
    "set (live_records (table c)) = set (live_records t) - {a}"
    "getTableSize (table c) = length (live_records (table c)) + 1"
    using delete_insert_race [OF t(2) _ t(4,6), of a "[5, 6, 7, 8]"] t(3,5,7) by auto
  then show ?thesis using t(1,3) by auto
qed

end
