(* ===== verification/RandomGenerator.thy ===== *)
theory RandomGenerator
  imports BenchSchema
begin

text \<open>
  benchmark/distributions/RandomGenerator.cc: random integers and strings. The engine
  (\<open>std::mt19937\<close>, seeded from the device) and \<open>std::uniform_int_distribution\<close> are the standard library's:
  a parameter that maps bounds and the state of the engine to a number and the next state, with the
  documented law that the number lies within the bounds. A computation that draws numbers maps the
  state of the engine to its result and the next state (\<open>gen\<close>); \<open>gen_returns m P\<close> says that \<open>m\<close> returns
  from every state, with a result that has \<open>P\<close>.
\<close>

section \<open>Computations that draw numbers\<close>

record 'g rng =
  uniform_int :: "int \<Rightarrow> int \<Rightarrow> 'g \<Rightarrow> int \<times> 'g"

definition rng_laws :: "'g rng \<Rightarrow> bool" where
  "rng_laws R \<longleftrightarrow>
     (\<forall>lo hi g. lo \<le> hi \<longrightarrow> lo \<le> fst (uniform_int R lo hi g) \<and> fst (uniform_int R lo hi g) \<le> hi)"

text \<open>An instance: the numbers come from a list, reduced to the bounds; zero when it is used up.\<close>

definition list_rng :: "nat list rng" where
  "list_rng = \<lparr>uniform_int = (\<lambda>lo hi g.
     case g of [] \<Rightarrow> (lo, []) | n # g' \<Rightarrow> (lo + int n mod (hi - lo + 1), g'))\<rparr>"

lemma list_rng_laws: "rng_laws list_rng"
proof -
  have "lo \<le> fst (uniform_int list_rng lo hi g) \<and> fst (uniform_int list_rng lo hi g) \<le> hi"
    if "lo \<le> hi" for lo hi g
    using that pos_mod_sign [of "hi - lo + 1"] pos_mod_bound [of "hi - lo + 1"]
    by (cases g) (simp_all add: list_rng_def add.commute zle_diff1_eq [symmetric] le_diff_eq)
  then show ?thesis by (simp add: rng_laws_def)
qed

type_synonym ('g, 'a) gen = "'g \<Rightarrow> ('a \<times> 'g) result"

definition gret :: "'a \<Rightarrow> ('g, 'a) gen" where
  "gret x g = Inr (x, g)"

definition gbnd :: "('g, 'a) gen \<Rightarrow> ('a \<Rightarrow> ('g, 'b) gen) \<Rightarrow> ('g, 'b) gen" where
  "gbnd m f g = bnd (m g) (\<lambda>(x, g'). f x g')"

definition glift :: "'a result \<Rightarrow> ('g, 'a) gen" where
  "glift r g = bnd r (\<lambda>x. Inr (x, g))"

primrec gen_list :: "nat \<Rightarrow> ('g, 'a) gen \<Rightarrow> ('g, 'a list) gen" where
  "gen_list 0 m = gret []"
| "gen_list (Suc n) m = gbnd m (\<lambda>x. gbnd (gen_list n m) (\<lambda>xs. gret (x # xs)))"

primrec gfold :: "('x \<Rightarrow> 's \<Rightarrow> ('g, 's) gen) \<Rightarrow> 'x list \<Rightarrow> 's \<Rightarrow> ('g, 's) gen" where
  "gfold f [] s = gret s"
| "gfold f (x # xs) s = gbnd (f x s) (gfold f xs)"

section \<open>Computations that return\<close>

named_theorems gen_intros \<open>computations that return\<close>

definition gen_returns :: "('g, 'a) gen \<Rightarrow> ('a \<Rightarrow> bool) \<Rightarrow> bool" where
  "gen_returns m P \<longleftrightarrow> (\<forall>g. \<exists>x g'. m g = Inr (x, g') \<and> P x)"

lemma gen_returnsE:
  assumes "gen_returns m P"
  obtains x g' where "m g = Inr (x, g')" "P x"
  using assms unfolding gen_returns_def by blast

lemma gen_weaken: "gen_returns m P \<Longrightarrow> (\<And>x. P x \<Longrightarrow> Q x) \<Longrightarrow> gen_returns m Q"
  unfolding gen_returns_def by blast

lemma gret_returns [gen_intros]: "P x \<Longrightarrow> gen_returns (gret x) P"
  by (simp add: gen_returns_def gret_def)

lemma glift_returns: "r = Inr x \<Longrightarrow> P x \<Longrightarrow> gen_returns (glift r) P"
  by (simp add: gen_returns_def glift_def)

lemma gbnd_returns:
  assumes "gen_returns m P" "\<And>x. P x \<Longrightarrow> gen_returns (f x) Q"
  shows "gen_returns (gbnd m f) Q"
  unfolding gen_returns_def
proof
  fix g
  obtain x g' where x: "m g = Inr (x, g')" "P x" using gen_returnsE [OF assms(1)] .
  obtain y g'' where "f x g' = Inr (y, g'')" "Q y" using gen_returnsE [OF assms(2) [OF x(2)]] .
  then show "\<exists>y g'. gbnd m f g = Inr (y, g') \<and> Q y" using x(1) by (simp add: gbnd_def)
qed

lemma gbnd_assoc: "gbnd (gbnd m f) h = gbnd m (\<lambda>x. gbnd (f x) h)"
  by (rule ext) (simp add: gbnd_def bnd_def split: sum.split)

lemma gen_list_returns:
  assumes "gen_returns m P"
  shows "gen_returns (gen_list n m) (\<lambda>xs. length xs = n \<and> (\<forall>x \<in> set xs. P x))"
proof (induction n)
  case 0
  then show ?case by (simp add: gret_returns)
next
  case (Suc n)
  show ?case
    by (auto intro!: gbnd_returns [OF assms] gbnd_returns [OF Suc] gret_returns)
qed

text \<open>The invariant of a loop relates the state to the elements that have been processed.\<close>

lemma gfold_invariant:
  assumes "\<And>ys x zs s. xs = ys @ x # zs \<Longrightarrow> I ys s \<Longrightarrow> gen_returns (f x s) (I (ys @ [x]))"
    and "I [] s"
  shows "gen_returns (gfold f xs s) (I xs)"
proof -
  have "gen_returns (gfold f zs s) (I (ys @ zs))" if "xs = ys @ zs" "I ys s" for ys zs s
    using that
  proof (induction zs arbitrary: ys s)
    case Nil
    then show ?case by (simp add: gret_returns)
  next
    case (Cons x zs)
    have "gen_returns (gfold f zs s') (I (ys @ x # zs))" if "I (ys @ [x]) s'" for s'
      using Cons.IH [of "ys @ [x]" s'] Cons.prems(1) that by simp
    then show ?case
      using gbnd_returns [OF assms(1) [OF Cons.prems(1,2)], of "gfold f zs" "I (ys @ x # zs)"] by simp
  qed
  from this [of "[]" xs s] assms(2) show ?thesis by simp
qed

lemma gfold_upt_invariant:
  assumes "\<And>k s. k < n \<Longrightarrow> I k s \<Longrightarrow> gen_returns (f k s) (I (Suc k))" "I 0 s"
  shows "gen_returns (gfold f [0..<n] s) (I n)"
proof -
  have "gen_returns (gfold f [0..<n] s) (\<lambda>s. I (length [0..<n]) s)"
  proof (rule gfold_invariant [where I = "\<lambda>ys. I (length ys)"])
    fix ys x zs s
    assume split: "[0..<n] = ys @ x # zs" and inv: "I (length ys) s"
    have len: "length ys < n" using arg_cong [OF split, of length] by simp
    have "x = [0..<n] ! length ys" using split by (simp add: nth_append)
    then have "x = length ys" using len by simp
    then show "gen_returns (f x s) (I (length (ys @ [x])))" using assms(1) [OF len inv] by simp
  qed (simp add: assms(2))
  then show ?thesis by simp
qed

section \<open>RandomGenerator\<close>

text \<open>\<open>uniform_int_distribution(min, max)\<close> requires \<open>min \<le> max\<close>.\<close>

definition generateInteger :: "'g rng \<Rightarrow> 32 word \<Rightarrow> 32 word \<Rightarrow> ('g, 32 word) gen" where
  "generateInteger R mn mx g =
     (if sint mn \<le> sint mx
      then (case uniform_int R (sint mn) (sint mx) g of (x, g') \<Rightarrow> Inr (word_of_int x, g'))
      else Inl AssertionFailed)"

definition generateLong :: "'g rng \<Rightarrow> 64 word \<Rightarrow> 64 word \<Rightarrow> ('g, 64 word) gen" where
  "generateLong R mn mx g =
     (if sint mn \<le> sint mx
      then (case uniform_int R (sint mn) (sint mx) g of (x, g') \<Rightarrow> Inr (word_of_int x, g'))
      else Inl AssertionFailed)"

text \<open>\<open>resize\<close> throws when the length, converted to \<open>size_t\<close>, is beyond \<open>max_size\<close>: with an \<open>int\<close>, when it is
  negative.\<close>

definition generateRandomString ::
  "'g rng \<Rightarrow> 32 word \<Rightarrow> 32 word \<Rightarrow> byte \<Rightarrow> 32 word \<Rightarrow> ('g, bytes) gen" where
  "generateRandomString R min_length max_length base num_characters =
     gbnd (generateInteger R min_length max_length) (\<lambda>n.
     if sint n < 0 then glift (Inl LengthError)
     else gen_list (nat (sint n))
       (gbnd (generateInteger R 0 (num_characters - 1)) (\<lambda>x. gret (base + scast x))))"

definition generateCString :: "'g rng \<Rightarrow> 32 word \<Rightarrow> 32 word \<Rightarrow> ('g, bytes) gen" where
  "generateCString R min_length max_length = generateRandomString R min_length max_length (of_char CHR ''a'') 26"

definition generateNString :: "'g rng \<Rightarrow> 32 word \<Rightarrow> 32 word \<Rightarrow> ('g, bytes) gen" where
  "generateNString R min_length max_length = generateRandomString R min_length max_length (of_char CHR ''0'') 10"

lemma sint_word_of_int_between:
  fixes v w :: "'a::len word"
  assumes "sint v \<le> x" "x \<le> sint w"
  shows "sint (word_of_int x :: 'a word) = x"
proof -
  have "- (2 ^ (LENGTH('a) - 1)) \<le> x" "x < 2 ^ (LENGTH('a) - 1)"
    using sint_range_size [of v] sint_range_size [of w] assms by (simp_all add: word_size)
  then show ?thesis by (simp add: signed_of_int signed_take_bit_int_eq_self)
qed

lemma generateInteger_returns:
  assumes "rng_laws R" "sint mn \<le> sint mx"
  shows "gen_returns (generateInteger R mn mx) (\<lambda>x. sint mn \<le> sint x \<and> sint x \<le> sint mx)"
  unfolding gen_returns_def
proof
  fix g
  obtain x g' where x: "uniform_int R (sint mn) (sint mx) g = (x, g')" by fastforce
  then have "sint mn \<le> x" "x \<le> sint mx"
    using assms unfolding rng_laws_def by (metis fst_conv)+
  then have "sint (word_of_int x :: 32 word) = x" by (rule sint_word_of_int_between)
  then show "\<exists>y g'. generateInteger R mn mx g = Inr (y, g') \<and> sint mn \<le> sint y \<and> sint y \<le> sint mx"
    using x assms(2) \<open>sint mn \<le> x\<close> \<open>x \<le> sint mx\<close> by (simp add: generateInteger_def)
qed

lemma generateLong_returns:
  assumes "rng_laws R" "sint mn \<le> sint mx"
  shows "gen_returns (generateLong R mn mx) (\<lambda>x. sint mn \<le> sint x \<and> sint x \<le> sint mx)"
  unfolding gen_returns_def
proof
  fix g
  obtain x g' where x: "uniform_int R (sint mn) (sint mx) g = (x, g')" by fastforce
  then have "sint mn \<le> x" "x \<le> sint mx"
    using assms unfolding rng_laws_def by (metis fst_conv)+
  then have "sint (word_of_int x :: 64 word) = x" by (rule sint_word_of_int_between)
  then show "\<exists>y g'. generateLong R mn mx g = Inr (y, g') \<and> sint mn \<le> sint y \<and> sint y \<le> sint mx"
    using x assms(2) \<open>sint mn \<le> x\<close> \<open>x \<le> sint mx\<close> by (simp add: generateLong_def)
qed

text \<open>Within constant bounds a number is always drawn.\<close>

lemma generateInteger_any [gen_intros]:
  "rng_laws R \<Longrightarrow> sint mn \<le> sint mx \<Longrightarrow> gen_returns (generateInteger R mn mx) (\<lambda>_. True)"
  by (rule gen_weaken [OF generateInteger_returns]) simp_all

lemma generateRandomString_returns:
  assumes "rng_laws R" "0 \<le> sint n" "0 \<le> sint (num - 1)"
  shows "gen_returns (generateRandomString R n n base num) (\<lambda>str. length str = nat (sint n))"
proof -
  have char: "gen_returns (gbnd (generateInteger R 0 (num - 1)) (\<lambda>x. gret (base + scast x))) (\<lambda>_. True)"
    using assms by (intro gbnd_returns [OF generateInteger_any] gret_returns) simp_all
  show ?thesis
    unfolding generateRandomString_def
  proof (rule gbnd_returns [OF generateInteger_returns [OF assms(1) order_refl]])
    fix x assume "sint n \<le> sint x \<and> sint x \<le> sint n"
    then have "\<not> sint x < 0" "nat (sint x) = nat (sint n)" using assms(2) by auto
    then show "gen_returns (if sint x < 0 then glift (Inl LengthError)
        else gen_list (nat (sint x)) (gbnd (generateInteger R 0 (num - 1)) (\<lambda>x. gret (base + scast x))))
      (\<lambda>str. length str = nat (sint n))"
      by (auto intro: gen_weaken [OF gen_list_returns [OF char]])
  qed
qed

lemma generateString_returns [gen_intros]:
  assumes "rng_laws R" "0 \<le> sint n"
  shows "gen_returns (generateCString R n n) (\<lambda>str. length str = nat (sint n))"
    and "gen_returns (generateNString R n n) (\<lambda>str. length str = nat (sint n))"
  using generateRandomString_returns [OF assms] unfolding generateCString_def generateNString_def by simp_all

end
