(* ===== verification/TatpUtil.thy ===== *)
theory TatpUtil
  imports RandomGenerator
begin

text \<open>
  benchmark/tatp/TatpUtil.h: the subscriber numbers (\<open>padWithZero\<close>) with the proof that they identify
  the subscriber, and \<open>subArr\<close>, which draws distinct elements of an array. \<open>subArr\<close> stores its result in
  a new array, but its parameter \<open>sub\<close> is a copy of the caller's pointer, so the caller gets the length
  and the permuted \<open>arr\<close> only; the model returns all three.
\<close>

section \<open>Definitions\<close>

definition SUB_NBR_PADDING_SIZE :: nat where
  "SUB_NBR_PADDING_SIZE = 15"

text \<open>The operands of \<open><\<close> are drawn from left to right here; C++ leaves the order open.\<close>

definition isActive :: "'g rng \<Rightarrow> ('g, 32 word) gen" where
  "isActive R =
     gbnd (generateInteger R 1 100) (\<lambda>x.
     gbnd (generateInteger R 86 100) (\<lambda>y. gret (if x <s y then 1 else 0)))"

definition TatpUtil_getSubscriberId :: "'g rng \<Rightarrow> 64 word \<Rightarrow> ('g, 64 word) gen" where
  "TatpUtil_getSubscriberId R subscriber_size = generateLong R 1 subscriber_size"

text \<open>For a longer number the difference of the sizes wraps around, and the constructor of the string of
  zeros throws.\<close>

definition padWithZero :: "64 word \<Rightarrow> bytes result" where
  "padWithZero n =
     (let str = to_string (sint n) in
      if SUB_NBR_PADDING_SIZE < length str then Inl LengthError
      else Inr (bytes_of_string (replicate (SUB_NBR_PADDING_SIZE - length str) CHR ''0'' @ str)))"

text \<open>The loop of \<open>subArr\<close> with \<open>k\<close> rounds to go: the chosen element is swapped with the last one of the
  first \<open>arr_len\<close>, which is then out of the choice.\<close>

primrec subArr_loop ::
  "'g rng \<Rightarrow> nat \<Rightarrow> 32 word list \<Rightarrow> nat \<Rightarrow> 32 word list \<Rightarrow> ('g, 32 word list \<times> 32 word list) gen" where
  "subArr_loop R 0 arr arr_len sub = gret (arr, sub)"
| "subArr_loop R (Suc k) arr arr_len sub =
     gbnd (generateInteger R 0 (word_of_int (int arr_len - 1))) (\<lambda>x.
     let j = nat (sint x); l = arr_len - 1 in
     if j < length arr \<and> l < length arr
     then subArr_loop R k (arr[j := arr ! l, l := arr ! j]) l (sub @ [arr ! j])
     else glift (Inl BadAccess))"

text \<open>The result: \<open>sub_len\<close>, the caller's array, and the new array no pointer is left to.\<close>

definition subArr ::
  "'g rng \<Rightarrow> 32 word list \<Rightarrow> nat \<Rightarrow> 32 word \<Rightarrow> 32 word \<Rightarrow> ('g, nat \<times> 32 word list \<times> 32 word list) gen" where
  "subArr R arr arr_len min_len max_len =
     gbnd (glift (assert_that (sint min_len \<le> sint max_len \<and> 0 \<le> sint min_len))) (\<lambda>_.
     gbnd (generateInteger R min_len max_len) (\<lambda>sub_len.
     gbnd (glift (assert_that (sint sub_len \<le> int arr_len))) (\<lambda>_.
     gbnd (subArr_loop R (nat (sint sub_len)) arr arr_len []) (\<lambda>(arr, sub).
     gret (nat (sint sub_len), arr, sub)))))"

section \<open>Subscriber numbers\<close>

text \<open>The number a string of digits stands for.\<close>

definition digits_value :: "bytes \<Rightarrow> nat" where
  "digits_value str = foldl (\<lambda>v b. 10 * v + unat (b - 48)) 0 str"

lemma digits_value_snoc: "digits_value (str @ [b]) = 10 * digits_value str + unat (b - 48)"
  by (simp add: digits_value_def)

lemma digit_byte:
  assumes "d < 10"
  shows "(of_char (char_of (48 + d :: nat)) :: byte) = 48 + word_of_nat d"
proof -
  have "(of_char (char_of (48 + d)) :: nat) = 48 + d"
    using assms by (simp add: take_bit_nat_eq_self)
  then have "(word_of_nat (of_char (char_of (48 + d))) :: byte) = word_of_nat (48 + d)" by simp
  then show ?thesis by (simp only: of_nat_of_char of_nat_add of_nat_numeral)
qed

lemma unat_digit: "d < 10 \<Longrightarrow> unat (word_of_nat d :: byte) = d"
  by (simp add: unat_of_nat)

lemma digits_value_nat_digits: "digits_value (bytes_of_string (nat_digits n)) = n"
proof (induction n rule: nat_digits.induct)
  case (1 n)
  show ?case
  proof (cases "n < 10")
    case True
    then show ?thesis
      by (simp add: nat_digits.simps [of n] bytes_of_string_def digits_value_def digit_byte unat_digit
          del: of_char_of)
  next
    case False
    have "digits_value (bytes_of_string (nat_digits n)) =
        10 * digits_value (bytes_of_string (nat_digits (n div 10))) + unat (word_of_nat (n mod 10) :: byte)"
      using False digit_byte [of "n mod 10"]
      by (simp add: nat_digits.simps [of n] bytes_of_string_def digits_value_snoc del: of_char_of)
    then show ?thesis using 1 False by (simp add: unat_digit del: unsigned_of_nat)
  qed
qed

lemma length_nat_digits: "n < 10 ^ Suc k \<Longrightarrow> length (nat_digits n) \<le> Suc k"
proof (induction k arbitrary: n)
  case 0
  then show ?case by (simp add: nat_digits.simps [of n])
next
  case (Suc k)
  show ?case
  proof (cases "n < 10")
    case True
    then show ?thesis by (simp add: nat_digits.simps [of n])
  next
    case False
    have "n div 10 < 10 ^ Suc k" using Suc.prems by (simp add: less_mult_imp_div_less mult.commute)
    then show ?thesis using False Suc.IH [of "n div 10"] by (simp add: nat_digits.simps [of n])
  qed
qed

lemma digits_value_zeros:
  "digits_value (bytes_of_string (replicate k CHR ''0'') @ str) = digits_value str"
  by (induction k) (simp_all add: digits_value_def bytes_of_string_def)

lemma padWithZero_eq:
  assumes "0 \<le> sint n" "sint n < 10 ^ 15"
  obtains str where "padWithZero n = Inr str" "length str = 15" "digits_value str = nat (sint n)"
proof -
  let ?d = "nat_digits (nat (sint n))"
  have "nat (sint n) < 10 ^ Suc 14" using assms by simp
  from length_nat_digits [OF this] have len: "length ?d \<le> 15" by simp
  have "padWithZero n = Inr (bytes_of_string (replicate (15 - length ?d) CHR ''0'' @ ?d))"
    using assms(1) len by (simp add: padWithZero_def to_string_def SUB_NBR_PADDING_SIZE_def Let_def)
  then show thesis
    using that [of "bytes_of_string (replicate (15 - length ?d) CHR ''0'' @ ?d)"] len
      digits_value_zeros [of "15 - length ?d" "bytes_of_string ?d"] digits_value_nat_digits
    by (simp add: bytes_of_string_def)
qed

text \<open>The subscriber number of an \<open>int\<close> identifier.\<close>

definition sub_nbr_of :: "32 word \<Rightarrow> bytes" where
  "sub_nbr_of i = projr (padWithZero (scast i))"

lemma padWithZero_int:
  assumes "0 \<le> sint (i :: 32 word)"
  shows "padWithZero (scast i) = Inr (sub_nbr_of i)" "length (sub_nbr_of i) = 15"
    "digits_value (sub_nbr_of i) = nat (sint i)"
proof -
  have i: "sint (scast i :: 64 word) = sint i"
    using sint_range_size [of i] by (simp add: signed_scast_eq word_size signed_take_bit_int_eq_self)
  have "sint i < 2 ^ 31" using sint_range_size [of i] by (simp add: word_size)
  then have "sint (scast i :: 64 word) < 10 ^ 15" unfolding i by simp
  then obtain str where "padWithZero (scast i) = Inr str" "length str = 15" "digits_value str = nat (sint i)"
    using padWithZero_eq [of "scast i"] assms i by metis
  then show "padWithZero (scast i) = Inr (sub_nbr_of i)" "length (sub_nbr_of i) = 15"
    "digits_value (sub_nbr_of i) = nat (sint i)"
    by (simp_all add: sub_nbr_of_def)
qed

lemma sub_nbr_inj:
  fixes i j :: "32 word"
  assumes "0 \<le> sint i" "0 \<le> sint j" "sub_nbr_of i = sub_nbr_of j"
  shows "i = j"
proof -
  have "nat (sint i) = nat (sint j)" using padWithZero_int(3) assms by metis
  then have "sint i = sint j" using assms(1,2) by simp
  then show ?thesis by (simp add: signed_word_eqI)
qed

section \<open>Sub-arrays\<close>

lemma sint_pred_of_nat:
  assumes "n \<le> 2 ^ 31"
  shows "sint (word_of_int (int n - 1) :: 32 word) = int n - 1"
proof -
  have "- (2 ^ 31) \<le> int n - 1" "int n - 1 < 2 ^ 31" using assms by simp_all
  then have "signed_take_bit 31 (int n - 1) = int n - 1" by (rule signed_take_bit_int_eq_self)
  then show ?thesis unfolding signed_of_int by simp
qed

lemma drop_take_Suc:
  assumes "m \<le> l" "l < length xs"
  shows "drop m (take (Suc l) xs) = drop m (take l xs) @ [xs ! l]"
  using assms by (simp add: take_Suc_conv_app_nth)

lemma subArr_loop_returns:
  assumes "rng_laws R" "k \<le> n" "n \<le> length arr" "length arr \<le> 2 ^ 31"
  shows "gen_returns (subArr_loop R k arr n sub) (\<lambda>(arr', sub').
    mset arr' = mset arr \<and> drop n arr' = drop n arr \<and> sub' = sub @ rev (drop (n - k) (take n arr')))"
  using assms(2-4)
proof (induction k arbitrary: arr n sub)
  case 0
  then show ?case by (simp add: gret_returns)
next
  case (Suc k)
  let ?l = "n - 1"
  have l: "n = Suc ?l" "?l < length arr" "k \<le> ?l" using Suc.prems by simp_all
  have up: "sint (word_of_int (int n - 1) :: 32 word) = int n - 1"
    using Suc.prems by (intro sint_pred_of_nat) simp
  have draw: "gen_returns (generateInteger R 0 (word_of_int (int n - 1))) (\<lambda>x. 0 \<le> sint x \<and> sint x \<le> int n - 1)"
    using generateInteger_returns [OF assms(1), of 0 "word_of_int (int n - 1)"] l(1) unfolding up by simp
  show ?case
    unfolding subArr_loop.simps Let_def
  proof (rule gbnd_returns [OF draw])
    fix x :: "32 word" assume x: "0 \<le> sint x \<and> sint x \<le> int n - 1"
    let ?j = "nat (sint x)" and ?arr = "arr[nat (sint x) := arr ! ?l, ?l := arr ! nat (sint x)]"
    have j: "?j < length arr" using x Suc.prems(2) by linarith
    have jn: "?j < n" using x by linarith
    have "mset ?arr = mset arr" using mset_swap [OF l(2) j] by (simp add: list_update_swap)
    have "gen_returns (subArr_loop R k ?arr ?l (sub @ [arr ! ?j])) (\<lambda>(arr', sub').
        mset arr' = mset ?arr \<and> drop ?l arr' = drop ?l ?arr \<and>
        sub' = (sub @ [arr ! ?j]) @ rev (drop (?l - k) (take ?l arr')))"
      using Suc.IH [of ?l ?arr "sub @ [arr ! ?j]"] l Suc.prems(3) by simp
    then have "gen_returns (subArr_loop R k ?arr ?l (sub @ [arr ! ?j])) (\<lambda>(arr', sub').
        mset arr' = mset arr \<and> drop n arr' = drop n arr \<and> sub' = sub @ rev (drop (n - Suc k) (take n arr')))"
    proof (rule gen_weaken)
      fix r
      assume "case r of (arr', sub') \<Rightarrow> mset arr' = mset ?arr \<and> drop ?l arr' = drop ?l ?arr \<and>
          sub' = (sub @ [arr ! ?j]) @ rev (drop (?l - k) (take ?l arr'))"
      then obtain arr' sub' where r: "r = (arr', sub')" "mset arr' = mset ?arr" "drop ?l arr' = drop ?l ?arr"
          "sub' = (sub @ [arr ! ?j]) @ rev (drop (?l - k) (take ?l arr'))"
        by (cases r) simp
      have len: "length arr' = length arr" using mset_eq_length [OF r(2)] by simp
      have at: "arr' ! ?l = arr ! ?j"
        using arg_cong [OF r(3), of hd] l(2) len by (simp add: hd_drop_conv_nth)
      have "drop n arr' = drop n ?arr"
        using arg_cong [OF r(3), of tl] l(1) by (metis drop_Suc tl_drop)
      also have "\<dots> = drop n arr"
        using jn l(1) by (simp add: drop_update_cancel)
      finally have "drop n arr' = drop n arr" .
      moreover have "drop (n - Suc k) (take n arr') = drop (?l - k) (take ?l arr') @ [arr ! ?j]"
        using drop_take_Suc [of "?l - k" ?l arr'] at l len by simp
      ultimately show "case r of (arr', sub') \<Rightarrow> mset arr' = mset arr \<and> drop n arr' = drop n arr \<and>
          sub' = sub @ rev (drop (n - Suc k) (take n arr'))"
        using r \<open>mset ?arr = mset arr\<close> by simp
    qed
    then show "gen_returns (if ?j < length arr \<and> n - 1 < length arr
        then subArr_loop R k ?arr (n - 1) (sub @ [arr ! ?j]) else glift (Inl BadAccess)) (\<lambda>(arr', sub').
        mset arr' = mset arr \<and> drop n arr' = drop n arr \<and> sub' = sub @ rev (drop (n - Suc k) (take n arr')))"
      using j l(2) by simp
  qed
qed

lemma subArr_returns:
  assumes "rng_laws R" "length arr \<le> 2 ^ 31"
    and "0 \<le> sint mn" "sint mn \<le> sint mx" "sint mx \<le> int (length arr)"
  shows "gen_returns (subArr R arr (length arr) mn mx) (\<lambda>(len, arr', sub).
    nat (sint mn) \<le> len \<and> len \<le> nat (sint mx) \<and> mset arr' = mset arr \<and>
    sub = rev (drop (length arr - len) arr'))"
  unfolding subArr_def
proof (rule gbnd_returns [OF glift_returns [where P = "\<lambda>_. True"]])
  fix u :: unit
  show "gen_returns (gbnd (generateInteger R mn mx) (\<lambda>sub_len.
      gbnd (glift (assert_that (sint sub_len \<le> int (length arr)))) (\<lambda>_.
      gbnd (subArr_loop R (nat (sint sub_len)) arr (length arr) []) (\<lambda>(arr, sub).
      gret (nat (sint sub_len), arr, sub))))) (\<lambda>(len, arr', sub).
    nat (sint mn) \<le> len \<and> len \<le> nat (sint mx) \<and> mset arr' = mset arr \<and> sub = rev (drop (length arr - len) arr'))"
  proof (rule gbnd_returns [OF generateInteger_returns [OF assms(1,4)]], rule gbnd_returns [OF glift_returns [where P = "\<lambda>_. True"]])
    fix x :: "32 word" and u :: unit
    assume x: "sint mn \<le> sint x \<and> sint x \<le> sint mx"
    show "assert_that (sint x \<le> int (length arr)) = Inr ()" using x assms(5) by simp
    have "nat (sint x) \<le> length arr" using x assms(5) by linarith
    from subArr_loop_returns [OF assms(1) this order_refl assms(2), of "[]"]
    show "gen_returns (gbnd (subArr_loop R (nat (sint x)) arr (length arr) []) (\<lambda>(arr, sub).
      gret (nat (sint x), arr, sub))) (\<lambda>(len, arr', sub).
      nat (sint mn) \<le> len \<and> len \<le> nat (sint mx) \<and> mset arr' = mset arr \<and> sub = rev (drop (length arr - len) arr'))"
    proof (rule gbnd_returns)
      fix r assume "case r of (arr', sub') \<Rightarrow> mset arr' = mset arr \<and> drop (length arr) arr' = drop (length arr) arr \<and>
          sub' = [] @ rev (drop (length arr - nat (sint x)) (take (length arr) arr'))"
      then obtain arr' sub' where r: "r = (arr', sub')" "mset arr' = mset arr"
          "sub' = rev (drop (length arr - nat (sint x)) (take (length arr) arr'))"
        by (cases r) simp
      have "length arr' = length arr" using mset_eq_length [OF r(2)] .
      then show "gen_returns ((\<lambda>(arr, sub). gret (nat (sint x), arr, sub)) r) (\<lambda>(len, arr', sub).
          nat (sint mn) \<le> len \<and> len \<le> nat (sint mx) \<and> mset arr' = mset arr \<and> sub = rev (drop (length arr - len) arr'))"
        using r x by (auto intro!: gret_returns)
    qed
  qed simp
qed (use assms in simp_all)

section \<open>Properties\<close>

lemma nat_digits_longer: "10 ^ k \<le> n \<Longrightarrow> k < length (nat_digits n)"
proof (induction k arbitrary: n)
  case 0
  then show ?case by (simp add: nat_digits.simps [of n])
next
  case (Suc k)
  have "10 ^ k \<le> n div 10" using div_le_mono [OF Suc.prems, of 10] by simp
  moreover have "\<not> n < 10"
  proof
    assume "n < 10"
    then have "n div 10 = 0" by simp
    with \<open>10 ^ k \<le> n div 10\<close> show False by simp
  qed
  ultimately show ?case using Suc.IH [of "n div 10"] by (simp add: nat_digits.simps [of n])
qed

text \<open>A subscriber number is fifteen digits that stand for the identifier, so it can be read back, for identifiers
  of up to fifteen digits; for a longer identifier the length of the padding wraps around and the string
  constructor throws.\<close>

theorem subscriber_number:
  assumes "0 \<le> sint n"
  shows "if sint n < 10 ^ 15
    then \<exists>str. padWithZero n = Inr str \<and> length str = 15 \<and> digits_value str = nat (sint n)
    else padWithZero n = Inl LengthError"
proof (cases "sint n < 10 ^ 15")
  case True
  then show ?thesis using padWithZero_eq [OF assms True] by (simp del: power_numeral) metis
next
  case False
  then have "10 ^ 15 \<le> nat (sint n)" using assms by (simp add: le_nat_iff)
  then have "15 < length (nat_digits (nat (sint n)))" by (rule nat_digits_longer)
  then have "padWithZero n = Inl LengthError"
    using assms by (simp add: padWithZero_def to_string_def SUB_NBR_PADDING_SIZE_def Let_def)
  then show ?thesis using False by simp
qed

lemma subscriber_number_witness:
  "(\<exists>str. padWithZero 1000000 = Inr str \<and> length str = 15 \<and> digits_value str = 1000000) \<and>
   padWithZero 1000000000000000 = Inl LengthError"
proof -
  have "0 \<le> sint (1000000 :: 64 word)" "0 \<le> sint (1000000000000000 :: 64 word)" by simp_all
  from subscriber_number [OF this(1)] subscriber_number [OF this(2)] show ?thesis by simp
qed

text \<open>\<open>subArr\<close> draws a number of elements within the bounds, each element of the array at most once, and leaves the
  caller's array a permutation of what it was; the elements are the last ones of that permutation, in
  the reverse order.\<close>

theorem sub_array_distinct:
  assumes "rng_laws R" "distinct arr" "length arr \<le> 2 ^ 31"
    and "0 \<le> sint min_len" "sint min_len \<le> sint max_len" "sint max_len \<le> int (length arr)"
  shows "\<exists>sub_len arr' sub g'. subArr R arr (length arr) min_len max_len g = Inr ((sub_len, arr', sub), g') \<and>
    nat (sint min_len) \<le> sub_len \<and> sub_len \<le> nat (sint max_len) \<and>
    length sub = sub_len \<and> distinct sub \<and> set sub \<subseteq> set arr \<and> mset arr' = mset arr \<and>
    sub = rev (drop (length arr - sub_len) arr')"
proof -
  obtain x g' where x: "subArr R arr (length arr) min_len max_len g = Inr (x, g')"
    "case x of (len, arr', sub) \<Rightarrow> nat (sint min_len) \<le> len \<and> len \<le> nat (sint max_len) \<and> mset arr' = mset arr \<and>
      sub = rev (drop (length arr - len) arr')"
    using gen_returnsE [OF subArr_returns [OF assms(1,3-6)]] by blast
  then obtain len arr' sub where r: "x = (len, arr', sub)" "nat (sint min_len) \<le> len" "len \<le> nat (sint max_len)"
    "mset arr' = mset arr" "sub = rev (drop (length arr - len) arr')" by (cases x) auto
  have "len \<le> length arr" using r(3) assms(6) by linarith
  moreover have "length arr' = length arr" "distinct arr'" "set arr' = set arr"
    using r(4) assms(2) by (metis mset_eq_length, metis mset_eq_imp_distinct_iff, metis mset_eq_setD)
  ultimately have "length sub = len" "distinct sub" "set sub \<subseteq> set arr"
    using r(5) set_drop_subset [of "length arr - len" arr'] by simp_all
  then show ?thesis using x(1) r by blast
qed

lemma sub_array_distinct_witness:
  "\<exists>sub_len arr' sub g'. subArr list_rng [0, 8, 6] (length [0, 8, 6 :: 32 word]) 0 3 [2, 7, 1] = Inr ((sub_len, arr', sub), g') \<and>
    distinct sub \<and> mset arr' = {#0, 8, 6#}"
  using sub_array_distinct [OF list_rng_laws, of "[0, 8, 6]" 0 3 "[2, 7, 1]"] by auto

end
