(* ===== verification/RowBuilder.thy ===== *)
theory RowBuilder
  imports Database
begin

text \<open>
  Building a record for an insert: the calls of \<open>setColumn\<close> (storage/Record.cc) that fill a buffer fresh
  from \<open>new char[n]\<close>, as a list of writes executed one after the other, and the row they leave.
\<close>

text \<open>A write is one of the overloads of \<open>setColumn\<close>: a fixed-size column, a string with its length, or
  a \<open>std::string\<close>.\<close>

datatype col_write = Fixed bytes | Sized bytes nat | Str bytes

fun write_column :: "nat \<times> col_write \<Rightarrow> local_record \<Rightarrow> local_record result" where
  "write_column (i, Fixed v) rec = setColumn i v rec"
| "write_column (i, Sized v n) rec = setColumn_sized i v n rec"
| "write_column (i, Str v) rec = setColumn_string i v rec"

definition write_columns :: "(nat \<times> col_write) list \<Rightarrow> local_record \<Rightarrow> local_record result" where
  "write_columns ws rec = fold_res write_column ws rec"

fun written :: "schema \<Rightarrow> nat \<times> col_write \<Rightarrow> bytes" where
  "written s (i, Fixed v) = take (col_size s i) v"
| "written s (i, Sized v n) = take n v"
| "written s (i, Str v) = v"

fun writable :: "schema \<Rightarrow> nat \<times> col_write \<Rightarrow> bool" where
  "writable s (i, Fixed v) \<longleftrightarrow>
     i < column_count s \<and> column_type (columns s ! i) \<noteq> VARCHAR \<and> col_size s i \<le> length v"
| "writable s (i, Sized v n) \<longleftrightarrow>
     i < column_count s \<and> column_type (columns s ! i) = VARCHAR \<and> n \<le> col_size s i \<and> n \<le> length v"
| "writable s (i, Str v) \<longleftrightarrow>
     i < column_count s \<and> column_type (columns s ! i) = VARCHAR \<and> length v \<le> col_size s i"

definition row_of :: "schema \<Rightarrow> (nat \<times> col_write) list \<Rightarrow> bytes \<Rightarrow> bytes" where
  "row_of s ws buf = fold (\<lambda>w. set_col s (fst w) (written s w)) ws buf"

lemma row_of_simps [simp]:
  "row_of s [] buf = buf"
  "row_of s (w # ws) buf = row_of s ws (set_col s (fst w) (written s w) buf)"
  by (simp_all add: row_of_def)

lemma writableD:
  "writable s w \<Longrightarrow> fst w < column_count s"
  "writable s w \<Longrightarrow> length (written s w) \<le> col_size s (fst w)"
  by (cases "(s, w)" rule: writable.cases; simp)+

lemma write_column_eq:
  assumes "schema_inv s" "writable s w" "length buf = getSchemaSize s"
  shows "write_column w \<lparr>lr_schema = s, lr_data = Some buf\<rparr> =
    Inr \<lparr>lr_schema = s, lr_data = Some (set_col s (fst w) (written s w) buf)\<rparr>"
  using assms
  by (cases "(s, w)" rule: writable.cases)
    (simp_all add: setColumn_eq setColumn_sized_eq setColumn_string_def)

lemma length_row_of:
  "schema_inv s \<Longrightarrow> list_all (writable s) ws \<Longrightarrow> length buf = getSchemaSize s \<Longrightarrow>
   length (row_of s ws buf) = getSchemaSize s"
  by (induction ws arbitrary: buf) (simp_all add: writableD)

lemma write_columns_eq:
  assumes "schema_inv s" "list_all (writable s) ws" "length buf = getSchemaSize s"
  shows "write_columns ws \<lparr>lr_schema = s, lr_data = Some buf\<rparr> =
    Inr \<lparr>lr_schema = s, lr_data = Some (row_of s ws buf)\<rparr>"
  using assms unfolding write_columns_def
  by (induction ws arbitrary: buf) (simp_all add: write_column_eq writableD)

text \<open>What a column holds afterwards: what the last write of the column has written.\<close>

lemma col_data_row_of_other:
  assumes "schema_inv s" "list_all (writable s) ws" "length buf = getSchemaSize s"
    and "i < column_count s" "i \<notin> fst ` set ws"
  shows "col_data s i (row_of s ws buf) = col_data s i buf"
  using assms(2-5)
proof (induction ws arbitrary: buf)
  case (Cons w ws)
  then have "col_data s i (set_col s (fst w) (written s w) buf) = col_data s i buf"
    using assms(1) writableD [of s w] by (intro col_data_set_col_other) auto
  then show ?case using Cons assms(1) by (simp add: writableD)
qed simp

lemma col_data_row_of:
  assumes "schema_inv s" "list_all (writable s) ws" "length buf = getSchemaSize s"
    and "distinct (map fst ws)" "w \<in> set ws" "length (written s w) = col_size s (fst w)"
  shows "col_data s (fst w) (row_of s ws buf) = written s w"
  using assms(2-5)
proof (induction ws arbitrary: buf)
  case (Cons w' ws)
  have len: "length (set_col s (fst w') (written s w') buf) = getSchemaSize s"
    using Cons.prems assms(1) by (simp add: writableD)
  show ?case
  proof (cases "w \<in> set ws")
    case True
    then show ?thesis using Cons.IH [OF _ len] Cons.prems by simp
  next
    case False
    then have w: "w' = w" using Cons.prems(4) by simp
    then have "col_data s (fst w) (row_of s ws (set_col s (fst w) (written s w) buf)) =
        col_data s (fst w) (set_col s (fst w) (written s w) buf)"
      using Cons.prems len writableD(1) [of s w] by (intro col_data_row_of_other assms(1)) auto
    also have "\<dots> = written s w"
      using Cons.prems w assms(1,6) writableD(1) [of s w] by (intro col_data_set_col_same) auto
    finally show ?thesis using w by simp
  qed
qed simp

section \<open>Character arrays of the records\<close>

text \<open>\<open>memcpy(array, str.c_str(), str.size())\<close> into a \<open>char\<close> array of \<open>n\<close> bytes of a record that
  \<open>new\<close> has set to zero.\<close>

definition char_field :: "nat \<Rightarrow> bytes \<Rightarrow> bytes result" where
  "char_field n str = (if length str \<le> n then Inr (patch 0 str (replicate n 0)) else Inl BadAccess)"

lemma char_field_full [res_simps]: "length str = n \<Longrightarrow> char_field n str = Inr str"
  by (simp add: char_field_def patch_def)

lemma char_field_eq:
  "length str \<le> n \<Longrightarrow> char_field n str = Inr (str @ replicate (n - length str) 0)"
  by (simp add: char_field_def patch_def)

end
