(* ===== verification/TatpPopulator.thy ===== *)
theory TatpPopulator
  imports TatpUtil TatpProcessor RowBuilder
begin

text \<open>
  benchmark/tatp/TatpPopulator.cc and TatpRecords.h: the records of the TATP database, how they are
  drawn, how they are written into rows column by column, and the loops that load the four tables
  (the registration of the tables, \<open>TatpPopulator_init\<close>, is in the theory TatpProcessor). The loops
  read arrays that \<open>subArr\<close> was to fill and did not (see the theory TatpUtil): their contents, which
  C++ leaves open, are a parameter (\<open>stack_arrays\<close>).
\<close>

section \<open>Records\<close>

record subscriber_record =
  sr_s_id :: "32 word"
  sr_sub_nbr :: bytes
  sr_bit :: "8 word list"
  sr_hex :: "8 word list"
  sr_byte2 :: "16 word list"
  sr_msc_location :: "32 word"
  sr_vlr_location :: "32 word"

record access_info_record =
  ar_s_id :: "32 word"
  ar_ai_type :: "8 word"
  ar_data1 :: "16 word"
  ar_data2 :: "16 word"
  ar_data3 :: bytes
  ar_data4 :: bytes

record special_facility_record =
  fr_s_id :: "32 word"
  fr_sf_type :: "8 word"
  fr_is_active :: "8 word"
  fr_error_cntrl :: "16 word"
  fr_data_a :: "16 word"
  fr_data_b :: bytes

record call_forwarding_record =
  cr_s_id :: "32 word"
  cr_sf_type :: "8 word"
  cr_start_time :: "8 word"
  cr_end_time :: "8 word"
  cr_numberx :: bytes

section \<open>Drawing the records\<close>

abbreviation draw8 :: "'g rng \<Rightarrow> 32 word \<Rightarrow> 32 word \<Rightarrow> ('g, 8 word) gen" where
  "draw8 R mn mx \<equiv> gbnd (generateInteger R mn mx) (\<lambda>x. gret (scast x))"

abbreviation draw16 :: "'g rng \<Rightarrow> 32 word \<Rightarrow> 32 word \<Rightarrow> ('g, 16 word) gen" where
  "draw16 R mn mx \<equiv> gbnd (generateInteger R mn mx) (\<lambda>x. gret (scast x))"

definition INT_MAX :: "32 word" where
  "INT_MAX = 2147483647"

definition generateSubscriberRecord :: "'g rng \<Rightarrow> 32 word \<Rightarrow> ('g, subscriber_record) gen" where
  "generateSubscriberRecord R s_id =
     gbnd (glift (padWithZero (scast s_id))) (\<lambda>tmp.
     gbnd (glift (char_field 15 tmp)) (\<lambda>sub_nbr.
     gbnd (gen_list 10 (draw8 R 0 1)) (\<lambda>bit.
     gbnd (gen_list 10 (draw8 R 0 15)) (\<lambda>hex.
     gbnd (gen_list 10 (draw16 R 0 255)) (\<lambda>byte2.
     gbnd (generateInteger R 0 INT_MAX) (\<lambda>msc_location.
     gbnd (generateInteger R 0 INT_MAX) (\<lambda>vlr_location.
     gret \<lparr>sr_s_id = s_id, sr_sub_nbr = sub_nbr, sr_bit = bit, sr_hex = hex, sr_byte2 = byte2,
       sr_msc_location = msc_location, sr_vlr_location = vlr_location\<rparr>)))))))"

definition generateAccessInfoRecord :: "'g rng \<Rightarrow> 32 word \<Rightarrow> 32 word \<Rightarrow> ('g, access_info_record) gen" where
  "generateAccessInfoRecord R s_id ai_type =
     gbnd (draw16 R 0 255) (\<lambda>data1.
     gbnd (draw16 R 0 255) (\<lambda>data2.
     gbnd (generateCString R 3 3) (\<lambda>tmp1.
     gbnd (glift (char_field 3 tmp1)) (\<lambda>data3.
     gbnd (generateCString R 5 5) (\<lambda>tmp2.
     gbnd (glift (char_field 5 tmp2)) (\<lambda>data4.
     gret \<lparr>ar_s_id = s_id, ar_ai_type = scast ai_type, ar_data1 = data1, ar_data2 = data2,
       ar_data3 = data3, ar_data4 = data4\<rparr>))))))"

definition generateSpecialFacilityRecord :: "'g rng \<Rightarrow> 32 word \<Rightarrow> 32 word \<Rightarrow> ('g, special_facility_record) gen" where
  "generateSpecialFacilityRecord R s_id sf_type =
     gbnd (isActive R) (\<lambda>is_active.
     gbnd (draw16 R 0 255) (\<lambda>error_cntrl.
     gbnd (draw16 R 0 255) (\<lambda>data_a.
     gbnd (generateCString R 5 5) (\<lambda>tmp.
     gbnd (glift (char_field 5 tmp)) (\<lambda>data_b.
     gret \<lparr>fr_s_id = s_id, fr_sf_type = scast sf_type, fr_is_active = scast is_active,
       fr_error_cntrl = error_cntrl, fr_data_a = data_a, fr_data_b = data_b\<rparr>)))))"

definition generateCallForwardingRecord ::
  "'g rng \<Rightarrow> 32 word \<Rightarrow> 32 word \<Rightarrow> 32 word \<Rightarrow> ('g, call_forwarding_record) gen" where
  "generateCallForwardingRecord R s_id sf_type start_time =
     gbnd (generateInteger R 1 8) (\<lambda>x.
     gbnd (generateNString R 15 15) (\<lambda>tmp.
     gbnd (glift (char_field 15 tmp)) (\<lambda>numberx.
     gret \<lparr>cr_s_id = s_id, cr_sf_type = scast sf_type, cr_start_time = scast start_time,
       cr_end_time = scast (start_time + x), cr_numberx = numberx\<rparr>)))"

text \<open>The addition of \<open>start_time\<close> is in \<open>int\<close>; where it overflowed the model wraps, as the conversion
  to \<open>int8_t\<close> does.\<close>

section \<open>Inserting the records\<close>

definition subscriber_columns :: "bench_config \<Rightarrow> subscriber_record \<Rightarrow> schema \<Rightarrow> local_record result" where
  "subscriber_columns cfg r s =
     bnd (setColumn 0 (to_bytes (sr_s_id r)) (transferData (new_chars cfg (getSchemaSize s)) (Record_new s))) (\<lambda>rec.
     bnd (setColumn_sized 1 (sr_sub_nbr r) 15 rec) (\<lambda>rec.
     bnd (fold_res (\<lambda>i. setColumn (i + 2) (to_bytes (sr_bit r ! i))) [0..<10] rec) (\<lambda>rec.
     bnd (fold_res (\<lambda>i. setColumn (i + 12) (to_bytes (sr_hex r ! i))) [0..<10] rec) (\<lambda>rec.
     bnd (fold_res (\<lambda>i. setColumn (i + 22) (to_bytes (sr_byte2 r ! i))) [0..<10] rec) (\<lambda>rec.
     bnd (setColumn 32 (to_bytes (sr_msc_location r)) rec) (\<lambda>rec.
     setColumn 33 (to_bytes (sr_vlr_location r)) rec))))))"

definition insertSubscriberRecord ::
  "('q, 'h, 'm) tbb \<Rightarrow> bench_config \<Rightarrow> subscriber_record \<Rightarrow>
   ('q, 'h, 'm) storage_manager \<Rightarrow> ('q, 'h, 'm) storage_manager result" where
  "insertSubscriberRecord T cfg r sm =
     bnd getSubscriberSchema (\<lambda>s.
     bnd (subscriber_columns cfg r s) (\<lambda>rec. sm_insertRecord T SUBSCRIBER_TABLE_ID rec sm))"

definition access_info_columns :: "bench_config \<Rightarrow> access_info_record \<Rightarrow> schema \<Rightarrow> local_record result" where
  "access_info_columns cfg r s =
     bnd (setColumn 0 (to_bytes (ar_s_id r)) (transferData (new_chars cfg (getSchemaSize s)) (Record_new s))) (\<lambda>rec.
     bnd (setColumn 1 (to_bytes (ar_ai_type r)) rec) (\<lambda>rec.
     bnd (setColumn 2 (to_bytes (ar_data1 r)) rec) (\<lambda>rec.
     bnd (setColumn 3 (to_bytes (ar_data2 r)) rec) (\<lambda>rec.
     bnd (setColumn_sized 4 (ar_data3 r) 3 rec) (\<lambda>rec.
     setColumn_sized 5 (ar_data4 r) 5 rec)))))"

definition insertAccessInfoRecord ::
  "('q, 'h, 'm) tbb \<Rightarrow> bench_config \<Rightarrow> access_info_record \<Rightarrow>
   ('q, 'h, 'm) storage_manager \<Rightarrow> ('q, 'h, 'm) storage_manager result" where
  "insertAccessInfoRecord T cfg r sm =
     bnd getAccessInfoSchema (\<lambda>s.
     bnd (access_info_columns cfg r s) (\<lambda>rec.
     bnd (partition_offset cfg (ar_s_id r)) (\<lambda>offset.
     sm_insertRecord T (ACCESS_INFO_TABLE_ID + offset) rec sm)))"

definition special_facility_columns :: "bench_config \<Rightarrow> special_facility_record \<Rightarrow> schema \<Rightarrow> local_record result" where
  "special_facility_columns cfg r s =
     bnd (setColumn 0 (to_bytes (fr_s_id r)) (transferData (new_chars cfg (getSchemaSize s)) (Record_new s))) (\<lambda>rec.
     bnd (setColumn 1 (to_bytes (fr_sf_type r)) rec) (\<lambda>rec.
     bnd (setColumn 2 (to_bytes (fr_is_active r)) rec) (\<lambda>rec.
     bnd (setColumn 3 (to_bytes (fr_error_cntrl r)) rec) (\<lambda>rec.
     bnd (setColumn 4 (to_bytes (fr_data_a r)) rec) (\<lambda>rec.
     setColumn_sized 5 (fr_data_b r) 5 rec)))))"

definition insertSpecialFacilityRecord ::
  "('q, 'h, 'm) tbb \<Rightarrow> bench_config \<Rightarrow> special_facility_record \<Rightarrow>
   ('q, 'h, 'm) storage_manager \<Rightarrow> ('q, 'h, 'm) storage_manager result" where
  "insertSpecialFacilityRecord T cfg r sm =
     bnd getSpecialFacilitySchema (\<lambda>s.
     bnd (special_facility_columns cfg r s) (\<lambda>rec.
     bnd (partition_offset cfg (fr_s_id r)) (\<lambda>offset.
     sm_insertRecord T (SPECIAL_FACILITY_TABLE_ID + offset) rec sm)))"

definition call_forwarding_columns :: "bench_config \<Rightarrow> call_forwarding_record \<Rightarrow> schema \<Rightarrow> local_record result" where
  "call_forwarding_columns cfg r s =
     bnd (setColumn 0 (to_bytes (cr_s_id r)) (transferData (new_chars cfg (getSchemaSize s)) (Record_new s))) (\<lambda>rec.
     bnd (setColumn 1 (to_bytes (cr_sf_type r)) rec) (\<lambda>rec.
     bnd (setColumn 2 (to_bytes (cr_start_time r)) rec) (\<lambda>rec.
     bnd (setColumn 3 (to_bytes (cr_end_time r)) rec) (\<lambda>rec.
     setColumn_sized 4 (cr_numberx r) 15 rec))))"

definition populator_insertCallForwardingRecord ::
  "('q, 'h, 'm) tbb \<Rightarrow> bench_config \<Rightarrow> call_forwarding_record \<Rightarrow>
   ('q, 'h, 'm) storage_manager \<Rightarrow> ('q, 'h, 'm) storage_manager result" where
  "populator_insertCallForwardingRecord T cfg r sm =
     bnd getCallForwardingSchema (\<lambda>s.
     bnd (call_forwarding_columns cfg r s) (\<lambda>rec.
     bnd (partition_offset cfg (cr_s_id r)) (\<lambda>offset.
     sm_insertRecord T (CALL_FORWARDING_TABLE_ID + offset) rec sm)))"

section \<open>Loading the tables\<close>

text \<open>What the local arrays \<open>ai_types\<close>, \<open>sf_types\<close> (one in each round of the loop over the subscribers)
  and \<open>start_times\<close> (one in each round of the loop inside it) hold.\<close>

record stack_arrays =
  ai_types :: "nat \<Rightarrow> 32 word"
  sf_types :: "32 word \<Rightarrow> nat \<Rightarrow> 32 word"
  start_times :: "32 word \<Rightarrow> nat \<Rightarrow> nat \<Rightarrow> 32 word"

text \<open>\<open>for (int s_id = 1; s_id <= subscriber_size; ++s_id)\<close>, which does not end when
  \<open>subscriber_size\<close> is the greatest \<open>int\<close>.\<close>

definition s_ids :: "32 word \<Rightarrow> 32 word list" where
  "s_ids subscriber_size = map word_of_int [1..sint subscriber_size]"

definition for_subscribers :: "32 word \<Rightarrow> (32 word \<Rightarrow> 's \<Rightarrow> ('g, 's) gen) \<Rightarrow> 's \<Rightarrow> ('g, 's) gen" where
  "for_subscribers subscriber_size body st =
     gbnd (gfold body (s_ids subscriber_size) st) (\<lambda>st.
     if subscriber_size = INT_MAX then glift (Inl Diverges) else gret st)"

definition load_subscribers ::
  "'g rng \<Rightarrow> ('q, 'h, 'm) tbb \<Rightarrow> bench_config \<Rightarrow> 32 word \<Rightarrow>
   ('q, 'h, 'm) storage_manager \<Rightarrow> ('g, ('q, 'h, 'm) storage_manager) gen" where
  "load_subscribers R T cfg subscriber_size =
     for_subscribers subscriber_size (\<lambda>s_id sm.
       gbnd (generateSubscriberRecord R s_id) (\<lambda>r. glift (insertSubscriberRecord T cfg r sm)))"

definition load_access_info ::
  "'g rng \<Rightarrow> ('q, 'h, 'm) tbb \<Rightarrow> bench_config \<Rightarrow> stack_arrays \<Rightarrow> 32 word \<Rightarrow>
   ('q, 'h, 'm) storage_manager \<Rightarrow> ('g, ('q, 'h, 'm) storage_manager) gen" where
  "load_access_info R T cfg stk subscriber_size sm =
     gbnd (subArr R [1, 2, 3, 4] 4 1 4) (\<lambda>(ai_types_len, arr, _).
     for_subscribers subscriber_size (\<lambda>s_id.
       gfold (\<lambda>j sm.
         gbnd (generateAccessInfoRecord R s_id (ai_types stk j)) (\<lambda>r.
         glift (insertAccessInfoRecord T cfg r sm))) [0..<ai_types_len]) sm)"

text \<open>The state of the last loop: the database and the two arrays \<open>subArr\<close> keeps permuting.\<close>

definition load_call_forwardings ::
  "'g rng \<Rightarrow> ('q, 'h, 'm) tbb \<Rightarrow> bench_config \<Rightarrow> stack_arrays \<Rightarrow> 32 word \<Rightarrow> nat \<Rightarrow>
   ('q, 'h, 'm) storage_manager \<times> 32 word list \<Rightarrow> ('g, ('q, 'h, 'm) storage_manager \<times> 32 word list) gen" where
  "load_call_forwardings R T cfg stk s_id j = (\<lambda>(sm, cal_arr).
     gbnd (generateSpecialFacilityRecord R s_id (sf_types stk s_id j)) (\<lambda>r.
     gbnd (glift (insertSpecialFacilityRecord T cfg r sm)) (\<lambda>sm.
     gbnd (subArr R cal_arr 3 0 3) (\<lambda>(start_times_length, cal_arr, _).
     gbnd (gfold (\<lambda>k sm.
         gbnd (generateCallForwardingRecord R s_id (sf_types stk s_id j) (start_times stk s_id j k)) (\<lambda>r.
         glift (populator_insertCallForwardingRecord T cfg r sm))) [0..<start_times_length] sm) (\<lambda>sm.
     gret (sm, cal_arr))))))"

definition load_facilities ::
  "'g rng \<Rightarrow> ('q, 'h, 'm) tbb \<Rightarrow> bench_config \<Rightarrow> stack_arrays \<Rightarrow> 32 word \<Rightarrow>
   ('q, 'h, 'm) storage_manager \<Rightarrow> ('g, ('q, 'h, 'm) storage_manager) gen" where
  "load_facilities R T cfg stk subscriber_size sm =
     gbnd (for_subscribers subscriber_size (\<lambda>s_id (sm, spe_arr, cal_arr).
       gbnd (subArr R spe_arr 4 1 4) (\<lambda>(sf_types_len, spe_arr, _).
       gbnd (gfold (load_call_forwardings R T cfg stk s_id) [0..<sf_types_len] (sm, cal_arr)) (\<lambda>(sm, cal_arr).
       gret (sm, spe_arr, cal_arr)))) (sm, [1, 2, 3, 4], [0, 8, 6])) (\<lambda>(sm, spe_arr, cal_arr). gret sm)"

definition startPopulate ::
  "'g rng \<Rightarrow> ('q, 'h, 'm) tbb \<Rightarrow> bench_config \<Rightarrow> stack_arrays \<Rightarrow> 32 word \<Rightarrow>
   ('q, 'h, 'm) storage_manager \<Rightarrow> ('g, ('q, 'h, 'm) storage_manager) gen" where
  "startPopulate R T cfg stk subscriber_size sm =
     gbnd (load_subscribers R T cfg subscriber_size sm) (\<lambda>sm.
     gbnd (load_access_info R T cfg stk subscriber_size sm) (\<lambda>sm.
     load_facilities R T cfg stk subscriber_size sm))"

definition TatpPopulator_start ::
  "'g rng \<Rightarrow> ('q, 'h, 'm) tbb \<Rightarrow> bench_config \<Rightarrow> stack_arrays \<Rightarrow> 32 word \<Rightarrow>
   ('q, 'h, 'm) storage_manager \<Rightarrow> ('g, ('q, 'h, 'm) storage_manager) gen" where
  "TatpPopulator_start R T cfg stk subscriber_size sm =
     gbnd (glift (TatpPopulator_init T cfg sm)) (startPopulate R T cfg stk subscriber_size)"

section \<open>Rows\<close>

text \<open>A row whose first \<open>c\<close> columns have been written with \<open>pre\<close>.\<close>

definition row_prefix :: "schema \<Rightarrow> nat \<Rightarrow> bytes \<Rightarrow> local_record \<Rightarrow> bool" where
  "row_prefix s c pre rec \<longleftrightarrow>
     length pre = size_of_columns (take c (columns s)) \<and>
     (\<exists>rest. rec = \<lparr>lr_schema = s, lr_data = Some (pre @ rest)\<rparr> \<and> length (pre @ rest) = getSchemaSize s)"

definition writes :: "local_record result \<Rightarrow> schema \<Rightarrow> nat \<Rightarrow> bytes \<Rightarrow> bool" where
  "writes m s c pre \<longleftrightarrow> (\<exists>rec. m = Inr rec \<and> row_prefix s c pre rec)"

lemma writes_bnd:
  assumes "writes m s c pre" "\<And>rec. row_prefix s c pre rec \<Longrightarrow> writes (f rec) s c' pre'"
  shows "writes (bnd m f) s c' pre'"
  using assms by (auto simp: writes_def)

lemma row_prefix_start: "row_prefix s 0 [] (transferData (new_chars cfg (getSchemaSize s)) (Record_new s))"
  by (simp add: row_prefix_def transferData_def Record_new_def)

lemma row_prefix_Suc:
  assumes "schema_inv s" "c < column_count s" "length pre = size_of_columns (take c (columns s))"
    and "length v = col_size s c"
  shows "length (pre @ v) = size_of_columns (take (Suc c) (columns s))"
  using assms by (simp add: col_size_def size_of_columns_take_Suc schema_inv_def)

lemma writes_fixed:
  assumes s: "schema_inv s" "c < column_count s" "column_type (columns s ! c) \<noteq> VARCHAR"
    and v: "length v = col_size s c" and rec: "row_prefix s c pre rec"
  shows "writes (setColumn c v rec) s (Suc c) (pre @ v)"
proof -
  obtain rest where r: "rec = \<lparr>lr_schema = s, lr_data = Some (pre @ rest)\<rparr>"
      "length (pre @ rest) = getSchemaSize s" "length pre = size_of_columns (take c (columns s))"
    using rec by (auto simp: row_prefix_def)
  have off: "length pre = col_off s c" using r(3) col_off_take [OF s(1,2)] by simp
  have "length v \<le> length rest" using column_in_record [OF s(1,2)] off v r(2) by simp
  then show ?thesis
    using setColumn_next [OF s v off r(2)] r row_prefix_Suc [OF s(1,2) r(3) v]
    by (simp add: writes_def row_prefix_def)
qed

lemma writes_sized:
  assumes s: "schema_inv s" "c < column_count s" "column_type (columns s ! c) = VARCHAR"
    and v: "n = col_size s c" "length v = n" and rec: "row_prefix s c pre rec"
  shows "writes (setColumn_sized c v n rec) s (Suc c) (pre @ v)"
proof -
  obtain rest where r: "rec = \<lparr>lr_schema = s, lr_data = Some (pre @ rest)\<rparr>"
      "length (pre @ rest) = getSchemaSize s" "length pre = size_of_columns (take c (columns s))"
    using rec by (auto simp: row_prefix_def)
  have off: "length pre = col_off s c" using r(3) col_off_take [OF s(1,2)] by simp
  have "length v \<le> length rest" using column_in_record [OF s(1,2)] off v r(2) by simp
  then show ?thesis
    using setColumn_sized_next [OF s, of n v pre rest] off r v row_prefix_Suc [OF s(1,2) r(3), of v]
    by (simp add: writes_def row_prefix_def)
qed

text \<open>A loop that writes \<open>n\<close> columns of one size.\<close>

lemma writes_loop:
  assumes s: "schema_inv s" "c + n \<le> column_count s"
    and col: "\<And>i. i < n \<Longrightarrow> column_type (columns s ! (i + c)) \<noteq> VARCHAR \<and> length (f i) = col_size s (i + c)"
    and rec: "row_prefix s c pre rec"
  shows "writes (fold_res (\<lambda>i. setColumn (i + c) (f i)) [0..<n] rec) s (n + c) (pre @ concat (map f [0..<n]))"
  using s(2) col
proof (induction n)
  case 0
  then show ?case using rec by (simp add: writes_def)
next
  case (Suc n)
  have "writes (bnd (fold_res (\<lambda>i. setColumn (i + c) (f i)) [0..<n] rec) (setColumn (n + c) (f n)))
      s (Suc n + c) (pre @ concat (map f [0..<Suc n]))"
  proof (rule writes_bnd)
    show "writes (fold_res (\<lambda>i. setColumn (i + c) (f i)) [0..<n] rec) s (n + c) (pre @ concat (map f [0..<n]))"
      using Suc by simp
    show "writes (setColumn (n + c) (f n) rec) s (Suc n + c) (pre @ concat (map f [0..<Suc n]))"
      if "row_prefix s (n + c) (pre @ concat (map f [0..<n])) rec" for rec
      using writes_fixed [OF s(1) _ _ _ that, of "f n"] Suc.prems by simp
  qed
  moreover have "bnd (fold_res (\<lambda>i. setColumn (i + c) (f i)) [0..<n] rec) (setColumn (n + c) (f n)) =
      fold_res (\<lambda>i. setColumn (i + c) (f i)) [0..<Suc n] rec"
    by (simp add: fold_res_append bnd_def split: sum.split)
  ultimately show ?case by simp
qed

lemma writes_all:
  assumes "schema_inv s" "writes m s (column_count s) pre"
  shows "m = Inr \<lparr>lr_schema = s, lr_data = Some pre\<rparr>" "length pre = getSchemaSize s"
proof -
  have "size_of_columns (take (column_count s) (columns s)) = getSchemaSize s"
    using assms(1) by (simp add: schema_inv_def getSchemaSize_def)
  then show "m = Inr \<lparr>lr_schema = s, lr_data = Some pre\<rparr>" "length pre = getSchemaSize s"
    using assms(2) by (auto simp: writes_def row_prefix_def)
qed

subsection \<open>The rows of the four tables\<close>

definition subscriber_row :: "subscriber_record \<Rightarrow> bytes" where
  "subscriber_row r =
     to_bytes (sr_s_id r) @ sr_sub_nbr r @ concat (map to_bytes (sr_bit r)) @ concat (map to_bytes (sr_hex r)) @
     concat (map to_bytes (sr_byte2 r)) @ to_bytes (sr_msc_location r) @ to_bytes (sr_vlr_location r)"

definition access_info_row :: "access_info_record \<Rightarrow> bytes" where
  "access_info_row r =
     sf_key (ar_s_id r) (ar_ai_type r) @ to_bytes (ar_data1 r) @ to_bytes (ar_data2 r) @ ar_data3 r @ ar_data4 r"

definition special_facility_row :: "special_facility_record \<Rightarrow> bytes" where
  "special_facility_row r =
     sf_key (fr_s_id r) (fr_sf_type r) @ to_bytes (fr_is_active r) @ to_bytes (fr_error_cntrl r) @
     to_bytes (fr_data_a r) @ fr_data_b r"

definition call_forwarding_row :: "call_forwarding_record \<Rightarrow> bytes" where
  "call_forwarding_row r =
     cf_key (cr_s_id r) (cr_sf_type r) (cr_start_time r) @ to_bytes (cr_end_time r) @ cr_numberx r"

text \<open>The array fields have the lengths of their declarations.\<close>

definition sr_ok :: "subscriber_record \<Rightarrow> bool" where
  "sr_ok r \<longleftrightarrow> length (sr_sub_nbr r) = 15 \<and> length (sr_bit r) = 10 \<and> length (sr_hex r) = 10 \<and>
     length (sr_byte2 r) = 10"

definition ar_ok :: "access_info_record \<Rightarrow> bool" where
  "ar_ok r \<longleftrightarrow> length (ar_data3 r) = 3 \<and> length (ar_data4 r) = 5"

definition fr_ok :: "special_facility_record \<Rightarrow> bool" where
  "fr_ok r \<longleftrightarrow> length (fr_data_b r) = 5"

definition cr_ok :: "call_forwarding_record \<Rightarrow> bool" where
  "cr_ok r \<longleftrightarrow> length (cr_numberx r) = 15"

lemma subscriber_col:
  assumes "i < 34"
  shows "column_type (columns subscriber_schema ! i) =
      (if i = 1 then VARCHAR else if i = 0 \<or> 32 \<le> i then INT32 else if i < 22 then INT8 else INT16)"
    and "col_size subscriber_schema i =
      (if i = 1 then 15 else if i = 0 \<or> 32 \<le> i then 4 else if i < 22 then 1 else 2)"
proof -
  have "length (columns subscriber_schema) = 34"
    using tatp_schema_inv(1) by (simp add: schema_inv_def)
  then have "column_type (columns subscriber_schema ! i) = fst (schema_layout subscriber_schema ! i)"
    "col_size subscriber_schema i = snd (snd (schema_layout subscriber_schema ! i))"
    using assms by (simp_all add: schema_layout_def col_size_def)
  then show "column_type (columns subscriber_schema ! i) =
      (if i = 1 then VARCHAR else if i = 0 \<or> 32 \<le> i then INT32 else if i < 22 then INT8 else INT16)"
    "col_size subscriber_schema i =
      (if i = 1 then 15 else if i = 0 \<or> 32 \<le> i then 4 else if i < 22 then 1 else 2)"
    unfolding subscriber_layout using assms by (auto simp: nth_append nth_Cons' simp del: upt_Suc)
qed

lemma concat_map_nth: "length xs = n \<Longrightarrow> concat (map (\<lambda>i. f (xs ! i)) [0..<n]) = concat (map f xs)"
  using map_nth_upt [of f xs] by simp

lemma subscriber_columns_eq:
  assumes "sr_ok r"
  shows "subscriber_columns cfg r subscriber_schema = Inr \<lparr>lr_schema = subscriber_schema, lr_data = Some (subscriber_row r)\<rparr>"
    and "length (subscriber_row r) = getSchemaSize subscriber_schema"
proof -
  note inv = tatp_schema_inv(1)
  have loop: "writes (fold_res (\<lambda>i. setColumn (i + c) (to_bytes (xs ! i))) [0..<10] rec) subscriber_schema (10 + c)
      (pre @ concat (map to_bytes xs))"
    if "row_prefix subscriber_schema c pre rec" "length xs = 10" "c + 10 \<le> 34"
      "\<And>i. i < 10 \<Longrightarrow> column_type (columns subscriber_schema ! (i + c)) \<noteq> VARCHAR \<and> LENGTH('a) div 8 = col_size subscriber_schema (i + c)"
    for c pre rec and xs :: "'a::len word list"
    using writes_loop [OF inv _ _ that(1), of 10 "\<lambda>i. to_bytes (xs ! i)"] that(2-4)
      concat_map_nth [OF that(2), of to_bytes] by simp
  let ?s = subscriber_schema
  have c0: "writes (setColumn 0 (to_bytes (sr_s_id r)) (transferData (new_chars cfg (getSchemaSize ?s)) (Record_new ?s)))
      ?s 1 (to_bytes (sr_s_id r))"
    using writes_fixed [OF inv _ _ _ row_prefix_start [of ?s cfg], of "to_bytes (sr_s_id r)"]
    by (simp add: subscriber_col)
  have c1: "writes (setColumn_sized 1 (sr_sub_nbr r) 15 rec) ?s 2 (pre @ sr_sub_nbr r)"
    if "row_prefix ?s 1 pre rec" for pre rec
    using writes_sized [OF inv _ _ _ _ that, of 15 "sr_sub_nbr r"] assms
    by (simp add: subscriber_col sr_ok_def numeral_2_eq_2)
  have c2: "writes (fold_res (\<lambda>i. setColumn (i + 2) (to_bytes (sr_bit r ! i))) [0..<10] rec) ?s 12
      (pre @ concat (map to_bytes (sr_bit r)))" if "row_prefix ?s 2 pre rec" for pre rec
    using loop [OF that, of "sr_bit r"] assms by (simp add: subscriber_col sr_ok_def)
  have c3: "writes (fold_res (\<lambda>i. setColumn (i + 12) (to_bytes (sr_hex r ! i))) [0..<10] rec) ?s 22
      (pre @ concat (map to_bytes (sr_hex r)))" if "row_prefix ?s 12 pre rec" for pre rec
    using loop [OF that, of "sr_hex r"] assms by (simp add: subscriber_col sr_ok_def)
  have c4: "writes (fold_res (\<lambda>i. setColumn (i + 22) (to_bytes (sr_byte2 r ! i))) [0..<10] rec) ?s 32
      (pre @ concat (map to_bytes (sr_byte2 r)))" if "row_prefix ?s 22 pre rec" for pre rec
    using loop [OF that, of "sr_byte2 r"] assms by (simp add: subscriber_col sr_ok_def)
  have c5: "writes (setColumn 32 (to_bytes (sr_msc_location r)) rec) ?s 33 (pre @ to_bytes (sr_msc_location r))"
    if "row_prefix ?s 32 pre rec" for pre rec
    using writes_fixed [OF inv _ _ _ that, of "to_bytes (sr_msc_location r)"] by (simp add: subscriber_col)
  have c6: "writes (setColumn 33 (to_bytes (sr_vlr_location r)) rec) ?s 34 (pre @ to_bytes (sr_vlr_location r))"
    if "row_prefix ?s 33 pre rec" for pre rec
    using writes_fixed [OF inv _ _ _ that, of "to_bytes (sr_vlr_location r)"] by (simp add: subscriber_col)
  have "writes (subscriber_columns cfg r ?s) ?s 34
    ((((((to_bytes (sr_s_id r) @ sr_sub_nbr r) @ concat (map to_bytes (sr_bit r))) @ concat (map to_bytes (sr_hex r))) @
     concat (map to_bytes (sr_byte2 r))) @ to_bytes (sr_msc_location r)) @ to_bytes (sr_vlr_location r))"
    unfolding subscriber_columns_def
    by (rule writes_bnd, rule c0, rule writes_bnd, erule c1, rule writes_bnd, erule c2, rule writes_bnd, erule c3,
        rule writes_bnd, erule c4, rule writes_bnd, erule c5, erule c6)
  then have "writes (subscriber_columns cfg r ?s) ?s (column_count ?s) (subscriber_row r)"
    by (simp add: subscriber_row_def)
  from writes_all [OF inv this]
  show "subscriber_columns cfg r ?s = Inr \<lparr>lr_schema = ?s, lr_data = Some (subscriber_row r)\<rparr>"
    and "length (subscriber_row r) = getSchemaSize ?s" .
qed

text \<open>The columns of the other three schemas.\<close>

lemma facility_cols [simp]:
  "column_type (columns access_info_schema ! 0) = INT32"
  "column_type (columns access_info_schema ! Suc 0) = INT8"
  "column_type (columns access_info_schema ! 2) = INT16"
  "column_type (columns access_info_schema ! 3) = INT16"
  "column_type (columns access_info_schema ! 4) = VARCHAR"
  "column_type (columns access_info_schema ! 5) = VARCHAR"
  "col_size access_info_schema 2 = 2" "col_size access_info_schema 3 = 2"
  "col_size access_info_schema 4 = 3" "col_size access_info_schema 5 = 5"
  "column_type (columns special_facility_schema ! 0) = INT32"
  "column_type (columns special_facility_schema ! Suc 0) = INT8"
  "column_type (columns special_facility_schema ! 2) = INT8"
  "column_type (columns special_facility_schema ! 3) = INT16"
  "column_type (columns special_facility_schema ! 4) = INT16"
  "column_type (columns special_facility_schema ! 5) = VARCHAR"
  "col_size special_facility_schema 2 = 1" "col_size special_facility_schema 3 = 2"
  "col_size special_facility_schema 5 = 5"
  by (simp_all add: layout_nth(1,3) [OF tatp_layouts(1)] layout_nth(1,3) [OF tatp_layouts(2)])

lemma access_info_columns_eq:
  assumes "ar_ok r"
  shows "access_info_columns cfg r access_info_schema = Inr \<lparr>lr_schema = access_info_schema, lr_data = Some (access_info_row r)\<rparr>"
    and "length (access_info_row r) = getSchemaSize access_info_schema"
proof -
  let ?s = access_info_schema
  note inv = tatp_schema_inv(2)
  have c0: "writes (setColumn 0 (to_bytes (ar_s_id r)) (transferData (new_chars cfg (getSchemaSize ?s)) (Record_new ?s)))
      ?s 1 (to_bytes (ar_s_id r))"
    using writes_fixed [OF inv _ _ _ row_prefix_start [of ?s cfg], of "to_bytes (ar_s_id r)"] by simp
  have c1: "writes (setColumn 1 (to_bytes (ar_ai_type r)) rec) ?s 2 (pre @ to_bytes (ar_ai_type r))" if "row_prefix ?s 1 pre rec" for pre rec
    using writes_fixed [OF inv _ _ _ that, of "to_bytes (ar_ai_type r)"] by (simp add: numeral_2_eq_2)
  have c2: "writes (setColumn 2 (to_bytes (ar_data1 r)) rec) ?s 3 (pre @ to_bytes (ar_data1 r))" if "row_prefix ?s 2 pre rec" for pre rec
    using writes_fixed [OF inv _ _ _ that, of "to_bytes (ar_data1 r)"] by simp
  have c3: "writes (setColumn 3 (to_bytes (ar_data2 r)) rec) ?s 4 (pre @ to_bytes (ar_data2 r))" if "row_prefix ?s 3 pre rec" for pre rec
    using writes_fixed [OF inv _ _ _ that, of "to_bytes (ar_data2 r)"] by simp
  have c4: "writes (setColumn_sized 4 (ar_data3 r) 3 rec) ?s 5 (pre @ ar_data3 r)" if "row_prefix ?s 4 pre rec" for pre rec
    using writes_sized [OF inv _ _ _ _ that, of 3 "ar_data3 r"] assms by (simp add: ar_ok_def)
  have c5: "writes (setColumn_sized 5 (ar_data4 r) 5 rec) ?s 6 (pre @ ar_data4 r)" if "row_prefix ?s 5 pre rec" for pre rec
    using writes_sized [OF inv _ _ _ _ that, of 5 "ar_data4 r"] assms by (simp add: ar_ok_def)
  have "writes (access_info_columns cfg r ?s) ?s 6
    (((((to_bytes (ar_s_id r) @ to_bytes (ar_ai_type r)) @ to_bytes (ar_data1 r)) @ to_bytes (ar_data2 r)) @ ar_data3 r) @ ar_data4 r)"
    unfolding access_info_columns_def
    by (rule writes_bnd, rule c0, rule writes_bnd, erule c1, rule writes_bnd, erule c2, rule writes_bnd, erule c3, rule writes_bnd, erule c4, erule c5)
  then have "writes (access_info_columns cfg r ?s) ?s (column_count ?s) (access_info_row r)"
    by (simp add: access_info_row_def sf_key_def cf_key_def)
  from writes_all [OF inv this]
  show "access_info_columns cfg r ?s = Inr \<lparr>lr_schema = ?s, lr_data = Some (access_info_row r)\<rparr>"
    and "length (access_info_row r) = getSchemaSize ?s" .
qed

lemma special_facility_columns_eq:
  assumes "fr_ok r"
  shows "special_facility_columns cfg r special_facility_schema = Inr \<lparr>lr_schema = special_facility_schema, lr_data = Some (special_facility_row r)\<rparr>"
    and "length (special_facility_row r) = getSchemaSize special_facility_schema"
proof -
  let ?s = special_facility_schema
  note inv = tatp_schema_inv(3)
  have c0: "writes (setColumn 0 (to_bytes (fr_s_id r)) (transferData (new_chars cfg (getSchemaSize ?s)) (Record_new ?s)))
      ?s 1 (to_bytes (fr_s_id r))"
    using writes_fixed [OF inv _ _ _ row_prefix_start [of ?s cfg], of "to_bytes (fr_s_id r)"] by simp
  have c1: "writes (setColumn 1 (to_bytes (fr_sf_type r)) rec) ?s 2 (pre @ to_bytes (fr_sf_type r))" if "row_prefix ?s 1 pre rec" for pre rec
    using writes_fixed [OF inv _ _ _ that, of "to_bytes (fr_sf_type r)"] by (simp add: numeral_2_eq_2)
  have c2: "writes (setColumn 2 (to_bytes (fr_is_active r)) rec) ?s 3 (pre @ to_bytes (fr_is_active r))" if "row_prefix ?s 2 pre rec" for pre rec
    using writes_fixed [OF inv _ _ _ that, of "to_bytes (fr_is_active r)"] by simp
  have c3: "writes (setColumn 3 (to_bytes (fr_error_cntrl r)) rec) ?s 4 (pre @ to_bytes (fr_error_cntrl r))" if "row_prefix ?s 3 pre rec" for pre rec
    using writes_fixed [OF inv _ _ _ that, of "to_bytes (fr_error_cntrl r)"] by simp
  have c4: "writes (setColumn 4 (to_bytes (fr_data_a r)) rec) ?s 5 (pre @ to_bytes (fr_data_a r))" if "row_prefix ?s 4 pre rec" for pre rec
    using writes_fixed [OF inv _ _ _ that, of "to_bytes (fr_data_a r)"] by simp
  have c5: "writes (setColumn_sized 5 (fr_data_b r) 5 rec) ?s 6 (pre @ fr_data_b r)" if "row_prefix ?s 5 pre rec" for pre rec
    using writes_sized [OF inv _ _ _ _ that, of 5 "fr_data_b r"] assms by (simp add: fr_ok_def)
  have "writes (special_facility_columns cfg r ?s) ?s 6
    (((((to_bytes (fr_s_id r) @ to_bytes (fr_sf_type r)) @ to_bytes (fr_is_active r)) @ to_bytes (fr_error_cntrl r)) @ to_bytes (fr_data_a r)) @ fr_data_b r)"
    unfolding special_facility_columns_def
    by (rule writes_bnd, rule c0, rule writes_bnd, erule c1, rule writes_bnd, erule c2, rule writes_bnd, erule c3, rule writes_bnd, erule c4, erule c5)
  then have "writes (special_facility_columns cfg r ?s) ?s (column_count ?s) (special_facility_row r)"
    by (simp add: special_facility_row_def sf_key_def cf_key_def)
  from writes_all [OF inv this]
  show "special_facility_columns cfg r ?s = Inr \<lparr>lr_schema = ?s, lr_data = Some (special_facility_row r)\<rparr>"
    and "length (special_facility_row r) = getSchemaSize ?s" .
qed

lemma call_forwarding_columns_eq:
  assumes "cr_ok r"
  shows "call_forwarding_columns cfg r call_forwarding_schema = Inr \<lparr>lr_schema = call_forwarding_schema, lr_data = Some (call_forwarding_row r)\<rparr>"
    and "length (call_forwarding_row r) = getSchemaSize call_forwarding_schema"
proof -
  let ?s = call_forwarding_schema
  note inv = tatp_schema_inv(4)
  have c0: "writes (setColumn 0 (to_bytes (cr_s_id r)) (transferData (new_chars cfg (getSchemaSize ?s)) (Record_new ?s)))
      ?s 1 (to_bytes (cr_s_id r))"
    using writes_fixed [OF inv _ _ _ row_prefix_start [of ?s cfg], of "to_bytes (cr_s_id r)"] by simp
  have c1: "writes (setColumn 1 (to_bytes (cr_sf_type r)) rec) ?s 2 (pre @ to_bytes (cr_sf_type r))" if "row_prefix ?s 1 pre rec" for pre rec
    using writes_fixed [OF inv _ _ _ that, of "to_bytes (cr_sf_type r)"] by (simp add: numeral_2_eq_2)
  have c2: "writes (setColumn 2 (to_bytes (cr_start_time r)) rec) ?s 3 (pre @ to_bytes (cr_start_time r))" if "row_prefix ?s 2 pre rec" for pre rec
    using writes_fixed [OF inv _ _ _ that, of "to_bytes (cr_start_time r)"] by simp
  have c3: "writes (setColumn 3 (to_bytes (cr_end_time r)) rec) ?s 4 (pre @ to_bytes (cr_end_time r))" if "row_prefix ?s 3 pre rec" for pre rec
    using writes_fixed [OF inv _ _ _ that, of "to_bytes (cr_end_time r)"] by simp
  have c4: "writes (setColumn_sized 4 (cr_numberx r) 15 rec) ?s 5 (pre @ cr_numberx r)" if "row_prefix ?s 4 pre rec" for pre rec
    using writes_sized [OF inv _ _ _ _ that, of 15 "cr_numberx r"] assms by (simp add: cr_ok_def)
  have "writes (call_forwarding_columns cfg r ?s) ?s 5
    ((((to_bytes (cr_s_id r) @ to_bytes (cr_sf_type r)) @ to_bytes (cr_start_time r)) @ to_bytes (cr_end_time r)) @ cr_numberx r)"
    unfolding call_forwarding_columns_def
    by (rule writes_bnd, rule c0, rule writes_bnd, erule c1, rule writes_bnd, erule c2, rule writes_bnd, erule c3, erule c4)
  then have "writes (call_forwarding_columns cfg r ?s) ?s (column_count ?s) (call_forwarding_row r)"
    by (simp add: call_forwarding_row_def sf_key_def cf_key_def)
  from writes_all [OF inv this]
  show "call_forwarding_columns cfg r ?s = Inr \<lparr>lr_schema = ?s, lr_data = Some (call_forwarding_row r)\<rparr>"
    and "length (call_forwarding_row r) = getSchemaSize ?s" .
qed

end
