(* ===== verification/TatpPopulation.thy ===== *)
theory TatpPopulation
  imports TatpPopulator
begin

text \<open>
  What \<open>TatpPopulator::start\<close> leaves in the database: the loops of the theory TatpPopulator are
  followed on the maps of the tables (\<open>table_map\<close>), one invariant for each of the three parts of
  \<open>startPopulate\<close>. The result, \<open>populated\<close>, is what the processors of the benchmark start from.
\<close>

section \<open>Inserting one row\<close>

definition adds ::
  "('q, 'h, 'm) tbb \<Rightarrow> bench_config \<Rightarrow> ('q, 'h, 'm) storage_manager \<Rightarrow> nat \<Rightarrow> bytes \<Rightarrow> bytes \<Rightarrow>
   ('q, 'h, 'm) storage_manager \<Rightarrow> bool" where
  "adds T cfg sm i k d sm' \<longleftrightarrow>
     tatp_inv T cfg sm' \<and> table_map T sm' = (table_map T sm)(i := (table_map T sm i)(k \<mapsto> d))"

lemma insert_row:
  assumes inv: "tatp_inv T cfg sm" and t: "table_ok sm i s smbs" and len: "length row = getSchemaSize s"
    and new: "table_map T sm i (primary_key_of s row) = None"
  obtains sm' where "sm_insertRecord T i \<lparr>lr_schema = s, lr_data = Some row\<rparr> sm = Inr sm'"
    "adds T cfg sm i (primary_key_of s row) row sm'"
proof -
  obtain t where t: "sm i = Some t" "st_inv T t" "st_schema t = s" "has_primary t"
    using table_okE [OF t tatp_invD(1) [OF inv]] by metis
  have "st_map T t (primary_key_of (st_schema t) row) = None"
    using new t(1,3) by (simp add: table_map_at)
  then obtain t' where t': "SchemaTable_insertRecord T row t = Inr t'" "st_inv T t'" "same_shape t t'"
      "st_map T t' = (st_map T t)(primary_key_of s row \<mapsto> table_row s row)"
    using insert_refines [OF t(2,4), of row] len t(3) by auto
  have "sm_insertRecord T i \<lparr>lr_schema = s, lr_data = Some row\<rparr> sm = Inr (sm(i \<mapsto> t'))"
    using t'(1) t(1,3)
    by (simp add: sm_insertRecord_def SchemaTable_insertRecord_rec_def fetchData_def res_simps)
  moreover have "adds T cfg sm i (primary_key_of s row) row (sm(i \<mapsto> t'))"
    using tatp_inv_update [OF inv t(1) t'(2,3)] t'(4) t(1) len
    by (auto simp: adds_def table_map_at table_row_def fun_eq_iff)
  ultimately show thesis using that by blast
qed

lemma primary_keys:
  "sr_ok r \<Longrightarrow> primary_key_of subscriber_schema (subscriber_row r) = to_bytes (sr_s_id r)"
  "primary_key_of access_info_schema (access_info_row a) = sf_key (ar_s_id a) (ar_ai_type a)"
  "primary_key_of special_facility_schema (special_facility_row f) = sf_key (fr_s_id f) (fr_sf_type f)"
  "primary_key_of call_forwarding_schema (call_forwarding_row c) = cf_key (cr_s_id c) (cr_sf_type c) (cr_start_time c)"
proof -
  have one: "\<exists>x. to_bytes (b :: 8 word) = [x]" for b by (simp add: to_bytes_def)
  have off: "col_off access_info_schema 0 = 0" "col_off access_info_schema (Suc 0) = 4"
    "col_off special_facility_schema 0 = 0" "col_off special_facility_schema (Suc 0) = 4"
    "col_off subscriber_schema 0 = 0"
    using subscriber_layout
    by (simp_all add: layout_nth(2) [OF tatp_layouts(1)] layout_nth(2) [OF tatp_layouts(2)] layout_nth(2) [OF subscriber_layout] nth_append)
  note defs = primary_key_of_def key_of_def col_data_def seg_def off
  show "sr_ok r \<Longrightarrow> primary_key_of subscriber_schema (subscriber_row r) = to_bytes (sr_s_id r)"
    using tatp_summaries(1) by (simp add: defs subscriber_row_def schema_summary_def)
  obtain x where "to_bytes (ar_ai_type a) = [x]" using one by blast
  then show "primary_key_of access_info_schema (access_info_row a) = sf_key (ar_s_id a) (ar_ai_type a)"
    using tatp_summaries(2) by (simp add: defs access_info_row_def sf_key_def schema_summary_def)
  obtain y where "to_bytes (fr_sf_type f) = [y]" using one by blast
  then show "primary_key_of special_facility_schema (special_facility_row f) = sf_key (fr_s_id f) (fr_sf_type f)"
    using tatp_summaries(3) by (simp add: defs special_facility_row_def sf_key_def schema_summary_def)
  obtain z w where "to_bytes (cr_sf_type c) = [z]" "to_bytes (cr_start_time c) = [w]" using one by blast
  then show "primary_key_of call_forwarding_schema (call_forwarding_row c) =
      cf_key (cr_s_id c) (cr_sf_type c) (cr_start_time c)"
    by (simp add: defs call_forwarding_row_def cf_key_def)
qed

lemma sub_nbr_column: "sr_ok r \<Longrightarrow> col_data subscriber_schema 1 (subscriber_row r) = sr_sub_nbr r"
  by (simp add: col_data_def seg_def subscriber_row_def sr_ok_def layout_nth(2) [OF subscriber_layout])

lemma insertSubscriberRecord_adds:
  assumes inv: "tatp_inv T cfg sm" and r: "sr_ok r"
    and new: "table_map T sm SUBSCRIBER_TABLE_ID (to_bytes (sr_s_id r)) = None"
  obtains sm' where "insertSubscriberRecord T cfg r sm = Inr sm'"
    "adds T cfg sm SUBSCRIBER_TABLE_ID (to_bytes (sr_s_id r)) (subscriber_row r) sm'"
  using insert_row [OF inv tatp_invD(4) [OF inv], where row = "subscriber_row r"] new
    subscriber_columns_eq [OF r] primary_keys(1) [OF r]
  by (auto simp: insertSubscriberRecord_def res_simps)

lemma insertAccessInfoRecord_adds:
  assumes inv: "tatp_inv T cfg sm" and r: "ar_ok r"
    and new: "table_map T sm (ACCESS_INFO_TABLE_ID + partition_of cfg (ar_s_id r)) (sf_key (ar_s_id r) (ar_ai_type r)) = None"
  obtains sm' where "insertAccessInfoRecord T cfg r sm = Inr sm'"
    "adds T cfg sm (ACCESS_INFO_TABLE_ID + partition_of cfg (ar_s_id r)) (sf_key (ar_s_id r) (ar_ai_type r)) (access_info_row r) sm'"
  using insert_row [OF inv tatp_invD(5) [OF inv, where s = "ar_s_id r"], where row = "access_info_row r"] new
    access_info_columns_eq [OF r] primary_keys(2) [of r] tatp_invD(2) [OF inv]
  by (auto simp: insertAccessInfoRecord_def res_simps)

lemma insertSpecialFacilityRecord_adds:
  assumes inv: "tatp_inv T cfg sm" and r: "fr_ok r"
    and new: "table_map T sm (SPECIAL_FACILITY_TABLE_ID + partition_of cfg (fr_s_id r)) (sf_key (fr_s_id r) (fr_sf_type r)) = None"
  obtains sm' where "insertSpecialFacilityRecord T cfg r sm = Inr sm'"
    "adds T cfg sm (SPECIAL_FACILITY_TABLE_ID + partition_of cfg (fr_s_id r)) (sf_key (fr_s_id r) (fr_sf_type r)) (special_facility_row r) sm'"
  using insert_row [OF inv tatp_invD(6) [OF inv, where s = "fr_s_id r"], where row = "special_facility_row r"] new
    special_facility_columns_eq [OF r] primary_keys(3) [of r] tatp_invD(2) [OF inv]
  by (auto simp: insertSpecialFacilityRecord_def res_simps)

lemma populator_insertCallForwardingRecord_adds:
  assumes inv: "tatp_inv T cfg sm" and r: "cr_ok r"
    and new: "table_map T sm (CALL_FORWARDING_TABLE_ID + partition_of cfg (cr_s_id r))
        (cf_key (cr_s_id r) (cr_sf_type r) (cr_start_time r)) = None"
  obtains sm' where "populator_insertCallForwardingRecord T cfg r sm = Inr sm'"
    "adds T cfg sm (CALL_FORWARDING_TABLE_ID + partition_of cfg (cr_s_id r))
       (cf_key (cr_s_id r) (cr_sf_type r) (cr_start_time r)) (call_forwarding_row r) sm'"
  using insert_row [OF inv tatp_invD(7) [OF inv, where s = "cr_s_id r"], where row = "call_forwarding_row r"] new
    call_forwarding_columns_eq [OF r] primary_keys(4) [of r] tatp_invD(2) [OF inv]
  by (auto simp: populator_insertCallForwardingRecord_def res_simps)

section \<open>Drawing one record\<close>

lemma draw8_any [gen_intros]:
  "rng_laws R \<Longrightarrow> sint mn \<le> sint mx \<Longrightarrow> gen_returns (draw8 R mn mx) (\<lambda>_. True)"
  by (rule gbnd_returns [OF generateInteger_any]) (auto intro: gret_returns)

lemma draw16_any [gen_intros]:
  "rng_laws R \<Longrightarrow> sint mn \<le> sint mx \<Longrightarrow> gen_returns (draw16 R mn mx) (\<lambda>_. True)"
  by (rule gbnd_returns [OF generateInteger_any]) (auto intro: gret_returns)

lemma char_field_returns: "length str = n \<Longrightarrow> gen_returns (glift (char_field n str)) (\<lambda>a. a = str)"
  by (rule glift_returns) (simp_all add: res_simps)

lemma generateSubscriberRecord_returns:
  assumes "rng_laws R" "0 \<le> sint s_id"
  shows "gen_returns (generateSubscriberRecord R s_id)
    (\<lambda>r. sr_ok r \<and> sr_s_id r = s_id \<and> sr_sub_nbr r = sub_nbr_of s_id)"
  unfolding generateSubscriberRecord_def
proof (rule gbnd_returns)
  show "gen_returns (glift (padWithZero (scast s_id))) (\<lambda>tmp. tmp = sub_nbr_of s_id)"
    by (rule glift_returns [OF padWithZero_int(1) [OF assms(2)]]) simp
next
  fix tmp assume "tmp = sub_nbr_of s_id"
  then have tmp: "length tmp = 15" "tmp = sub_nbr_of s_id" using padWithZero_int(2) [OF assms(2)] by simp_all
  show "gen_returns (gbnd (glift (char_field 15 tmp)) (\<lambda>sub_nbr.
     gbnd (gen_list 10 (draw8 R 0 1)) (\<lambda>bit.
     gbnd (gen_list 10 (draw8 R 0 15)) (\<lambda>hex.
     gbnd (gen_list 10 (draw16 R 0 255)) (\<lambda>byte2.
     gbnd (generateInteger R 0 INT_MAX) (\<lambda>msc_location.
     gbnd (generateInteger R 0 INT_MAX) (\<lambda>vlr_location.
     gret \<lparr>sr_s_id = s_id, sr_sub_nbr = sub_nbr, sr_bit = bit, sr_hex = hex, sr_byte2 = byte2,
       sr_msc_location = msc_location, sr_vlr_location = vlr_location\<rparr>)))))))
    (\<lambda>r. sr_ok r \<and> sr_s_id r = s_id \<and> sr_sub_nbr r = sub_nbr_of s_id)"
    by (rule gbnd_returns [OF char_field_returns [OF tmp(1)]],
        rule gbnd_returns [OF gen_list_returns [OF draw8_any [OF assms(1)]]], simp,
        rule gbnd_returns [OF gen_list_returns [OF draw8_any [OF assms(1)]]], simp,
        rule gbnd_returns [OF gen_list_returns [OF draw16_any [OF assms(1)]]], simp,
        rule gbnd_returns [OF generateInteger_any [OF assms(1)]], simp add: INT_MAX_def,
        rule gbnd_returns [OF generateInteger_any [OF assms(1)]], simp add: INT_MAX_def,
        rule gret_returns)
      (simp add: sr_ok_def tmp(1), simp add: tmp(2))
qed

lemma generateAccessInfoRecord_returns:
  assumes "rng_laws R"
  shows "gen_returns (generateAccessInfoRecord R s_id ai_type)
    (\<lambda>r. ar_ok r \<and> ar_s_id r = s_id \<and> ar_ai_type r = scast ai_type)"
  unfolding generateAccessInfoRecord_def
  by (rule gbnd_returns [OF draw16_any [OF assms]], simp, rule gbnd_returns [OF draw16_any [OF assms]], simp,
      rule gbnd_returns [OF generateString_returns(1) [OF assms]], simp,
      rule gbnd_returns [OF char_field_returns], simp,
      rule gbnd_returns [OF generateString_returns(1) [OF assms]], simp,
      rule gbnd_returns [OF char_field_returns], simp, rule gret_returns, simp add: ar_ok_def)

lemma isActive_returns: "rng_laws R \<Longrightarrow> gen_returns (isActive R) (\<lambda>x. x = 0 \<or> x = 1)"
  unfolding isActive_def
  by (rule gbnd_returns [OF generateInteger_any], simp, simp, rule gbnd_returns [OF generateInteger_any], simp, simp,
      rule gret_returns, simp)

lemma generateSpecialFacilityRecord_returns:
  assumes "rng_laws R"
  shows "gen_returns (generateSpecialFacilityRecord R s_id sf_type)
    (\<lambda>r. fr_ok r \<and> fr_s_id r = s_id \<and> fr_sf_type r = scast sf_type)"
  unfolding generateSpecialFacilityRecord_def
  by (rule gbnd_returns [OF isActive_returns [OF assms]],
      rule gbnd_returns [OF draw16_any [OF assms]], simp, rule gbnd_returns [OF draw16_any [OF assms]], simp,
      rule gbnd_returns [OF generateString_returns(1) [OF assms]], simp,
      rule gbnd_returns [OF char_field_returns], simp, rule gret_returns, simp add: fr_ok_def)

lemma generateCallForwardingRecord_returns:
  assumes "rng_laws R"
  shows "gen_returns (generateCallForwardingRecord R s_id sf_type start_time)
    (\<lambda>r. cr_ok r \<and> cr_s_id r = s_id \<and> cr_sf_type r = scast sf_type \<and> cr_start_time r = scast start_time)"
  unfolding generateCallForwardingRecord_def
  by (rule gbnd_returns [OF generateInteger_any [OF assms]], simp,
      rule gbnd_returns [OF generateString_returns(2) [OF assms]], simp,
      rule gbnd_returns [OF char_field_returns], simp, rule gret_returns, simp add: cr_ok_def)

section \<open>The loops\<close>

lemma s_ids_iff: "s \<in> set (s_ids n) \<longleftrightarrow> 1 \<le> sint s \<and> sint s \<le> sint n"
proof
  assume "s \<in> set (s_ids n)"
  then obtain x where x: "s = word_of_int x" "1 \<le> x" "x \<le> sint n" by (auto simp: s_ids_def)
  have "sint s = x"
    unfolding x(1) using x(2,3) by (intro sint_word_of_int_between [where v = 1 and w = n]) simp_all
  then show "1 \<le> sint s \<and> sint s \<le> sint n" using x by simp
next
  assume "1 \<le> sint s \<and> sint s \<le> sint n"
  then have "sint s \<in> {1..sint n}" by simp
  then have "word_of_int (sint s) \<in> (word_of_int :: int \<Rightarrow> 32 word) ` {1..sint n}" by (rule imageI)
  then show "s \<in> set (s_ids n)" by (simp add: s_ids_def)
qed

lemma distinct_s_ids: "distinct (s_ids n)"
proof -
  have "sint (word_of_int x :: 32 word) = x" if "x \<in> {1..sint n}" for x
    using that by (intro sint_word_of_int_between [where v = 1 and w = n]) simp_all
  then have "inj_on (word_of_int :: int \<Rightarrow> 32 word) {1..sint n}"
    by (rule inj_on_inverseI)
  then show ?thesis by (simp add: s_ids_def distinct_map)
qed

lemma for_subscribers_returns:
  assumes "n \<noteq> INT_MAX"
    and "\<And>S s st. 1 \<le> sint s \<Longrightarrow> s \<notin> S \<Longrightarrow> I S st \<Longrightarrow> gen_returns (body s st) (I (insert s S))"
    and "I {} st"
  shows "gen_returns (for_subscribers n body st) (I (set (s_ids n)))"
proof -
  have "gen_returns (gfold body (s_ids n) st) (I (set (s_ids n)))"
  proof (rule gfold_invariant [where I = "\<lambda>ys. I (set ys)"])
    fix ys s zs st
    assume split: "s_ids n = ys @ s # zs" and inv: "I (set ys) st"
    have "s \<in> set (s_ids n)" "s \<notin> set ys" using distinct_s_ids [of n] unfolding split by simp_all
    then show "gen_returns (body s st) (I (set (ys @ [s])))"
      using assms(2) [OF _ _ inv, of s] by (simp add: s_ids_iff)
  qed (simp add: assms(3))
  then show ?thesis
    unfolding for_subscribers_def using assms(1) by (auto intro: gbnd_returns gret_returns)
qed

section \<open>What is loaded\<close>

definition subs_loaded :: "(bytes \<Rightarrow> bytes option) \<Rightarrow> 32 word set \<Rightarrow> bool" where
  "subs_loaded m S \<longleftrightarrow>
     dom m = to_bytes ` S \<and>
     (\<forall>s \<in> S. \<exists>d. m (to_bytes s) = Some d \<and> col_data subscriber_schema 1 d = sub_nbr_of s)"

text \<open>The keys of partition \<open>p\<close> when subscriber \<open>s\<close> has \<open>L s\<close> facilities, of the types \<open>ty s j\<close>; when
  facility \<open>j\<close> of \<open>s\<close> has \<open>M s j\<close> call forwardings, with the start times \<open>tm s j l\<close>.\<close>

definition facility_keys ::
  "bench_config \<Rightarrow> (32 word \<Rightarrow> nat \<Rightarrow> 8 word) \<Rightarrow> (32 word \<Rightarrow> nat) \<Rightarrow> nat \<Rightarrow> bytes set" where
  "facility_keys cfg ty L p =
     (\<lambda>(s, j). sf_key s (ty s j)) ` {(s, j). j < L s \<and> partition_of cfg s = p}"

definition forwarding_keys ::
  "bench_config \<Rightarrow> (32 word \<Rightarrow> nat \<Rightarrow> 8 word) \<Rightarrow> (32 word \<Rightarrow> nat \<Rightarrow> nat \<Rightarrow> 8 word) \<Rightarrow>
   (32 word \<Rightarrow> nat) \<Rightarrow> (32 word \<Rightarrow> nat \<Rightarrow> nat) \<Rightarrow> nat \<Rightarrow> bytes set" where
  "forwarding_keys cfg ty tm L M p =
     (\<lambda>(s, j, l). cf_key s (ty s j) (tm s j l)) ` {(s, j, l). j < L s \<and> l < M s j \<and> partition_of cfg s = p}"

lemma to_bytes_8: "to_bytes (a :: 8 word) = to_bytes b \<longleftrightarrow> a = b"
  by (rule to_bytes_inj) simp

lemma tatp_keys_eq:
  "sf_key s a = sf_key s' a' \<longleftrightarrow> s = s' \<and> a = a'"
  "cf_key s a b = cf_key s' a' b' \<longleftrightarrow> s = s' \<and> a = a' \<and> b = b'"
proof -
  have "to_bytes s = to_bytes s' \<longleftrightarrow> s = s'" by (rule to_bytes_inj) simp
  then show "sf_key s a = sf_key s' a' \<longleftrightarrow> s = s' \<and> a = a'"
    "cf_key s a b = cf_key s' a' b' \<longleftrightarrow> s = s' \<and> a = a' \<and> b = b'"
    by (auto simp: sf_key_def cf_key_def append_eq_append_conv to_bytes_8)
qed

lemma facility_key_new:
  assumes "inj_on (ty s) {..<n}" "L s < n"
  shows "sf_key s (ty s (L s)) \<notin> facility_keys cfg ty L p"
proof
  assume "sf_key s (ty s (L s)) \<in> facility_keys cfg ty L p"
  then obtain j where "j < L s" "ty s (L s) = ty s j" by (auto simp: facility_keys_def tatp_keys_eq)
  then show False using inj_onD [OF assms(1), of "L s" j] assms(2) by simp
qed

lemma facility_keys_Suc:
  "facility_keys cfg ty (L(s := Suc (L s))) p =
    (if p = partition_of cfg s then insert (sf_key s (ty s (L s))) (facility_keys cfg ty L p) else facility_keys cfg ty L p)"
proof -
  have "{(s', j). j < (L(s := Suc (L s))) s' \<and> partition_of cfg s' = p} =
      {(s', j). j < L s' \<and> partition_of cfg s' = p} \<union> (if p = partition_of cfg s then {(s, L s)} else {})"
    by (auto simp: less_Suc_eq split: if_splits)
  then show ?thesis by (simp add: facility_keys_def)
qed

lemma forwarding_key_new:
  assumes "inj_on (ty s) {..<n}" "L s \<le> n" "j < L s" "inj_on (tm s j) {..<m}" "M s j < m"
  shows "cf_key s (ty s j) (tm s j (M s j)) \<notin> forwarding_keys cfg ty tm L M p"
proof
  assume "cf_key s (ty s j) (tm s j (M s j)) \<in> forwarding_keys cfg ty tm L M p"
  then obtain j' l where j': "j' < L s" "ty s j = ty s j'" "l < M s j'" "tm s j (M s j) = tm s j' l"
    by (auto simp: forwarding_keys_def tatp_keys_eq)
  have "j' = j" using inj_onD [OF assms(1), of j j'] j'(1,2) assms(2,3) by simp
  then show False using inj_onD [OF assms(4), of "M s j" l] j' assms(5) by simp
qed

lemma forwarding_keys_Suc:
  assumes "j < L s"
  shows "forwarding_keys cfg ty tm L (M(s := (M s)(j := Suc (M s j)))) p =
    (if p = partition_of cfg s then insert (cf_key s (ty s j) (tm s j (M s j))) (forwarding_keys cfg ty tm L M p)
     else forwarding_keys cfg ty tm L M p)"
proof -
  have "{(s', j', l). j' < L s' \<and> l < (M(s := (M s)(j := Suc (M s j)))) s' j' \<and> partition_of cfg s' = p} =
      {(s', j', l). j' < L s' \<and> l < M s' j' \<and> partition_of cfg s' = p} \<union>
      (if p = partition_of cfg s then {(s, j, M s j)} else {})"
    using assms by (auto simp: less_Suc_eq split: if_splits)
  then show ?thesis by (simp add: forwarding_keys_def)
qed

lemma forwarding_keys_facility:
  "forwarding_keys cfg ty tm (L(s := Suc (L s))) (M(s := (M s)(L s := 0))) p = forwarding_keys cfg ty tm L M p"
proof -
  have "{(s', j, l). j < (L(s := Suc (L s))) s' \<and> l < (M(s := (M s)(L s := 0))) s' j \<and> partition_of cfg s' = p} =
      {(s', j, l). j < L s' \<and> l < M s' j \<and> partition_of cfg s' = p}"
    by (auto simp: less_Suc_eq split: if_splits)
  then show ?thesis by (simp add: forwarding_keys_def)
qed

section \<open>Loading the tables\<close>

lemma addsD:
  assumes "adds T cfg sm i k d sm'"
  shows "tatp_inv T cfg sm'" "table_map T sm' i = (table_map T sm i)(k \<mapsto> d)"
    "j \<noteq> i \<Longrightarrow> table_map T sm' j = table_map T sm j"
    "dom (table_map T sm' i) = insert k (dom (table_map T sm i))"
  using assms by (simp_all add: adds_def)

lemma subs_loaded_insert:
  assumes "subs_loaded m S" "s \<notin> S" "col_data subscriber_schema 1 d = sub_nbr_of s"
  shows "m (to_bytes s) = None" "subs_loaded (m(to_bytes s \<mapsto> d)) (insert s S)"
proof -
  have inj: "to_bytes a = to_bytes b \<longleftrightarrow> a = b" for a b :: "32 word" by (rule to_bytes_inj) simp
  have "to_bytes s \<notin> dom m" using assms(1,2) by (auto simp: subs_loaded_def inj)
  then show "m (to_bytes s) = None" by (simp add: domIff)
  show "subs_loaded (m(to_bytes s \<mapsto> d)) (insert s S)"
    using assms by (auto simp: subs_loaded_def inj)
qed

lemma load_subscribers_returns:
  assumes R: "rng_laws R" and n: "n \<noteq> INT_MAX" and inv: "tatp_inv T cfg sm"
    and empty: "table_map T sm SUBSCRIBER_TABLE_ID = Map.empty"
  shows "gen_returns (load_subscribers R T cfg n sm) (\<lambda>sm'.
    tatp_inv T cfg sm' \<and> subs_loaded (table_map T sm' SUBSCRIBER_TABLE_ID) (set (s_ids n)) \<and>
    (\<forall>i. i \<noteq> SUBSCRIBER_TABLE_ID \<longrightarrow> table_map T sm' i = table_map T sm i))"
  unfolding load_subscribers_def
proof (rule for_subscribers_returns [OF n, where I = "\<lambda>S sm'. tatp_inv T cfg sm' \<and>
      subs_loaded (table_map T sm' SUBSCRIBER_TABLE_ID) S \<and>
      (\<forall>i. i \<noteq> SUBSCRIBER_TABLE_ID \<longrightarrow> table_map T sm' i = table_map T sm i)"])
  fix S and s :: "32 word" and st
  assume s: "1 \<le> sint s" "s \<notin> S"
    and st: "tatp_inv T cfg st \<and> subs_loaded (table_map T st SUBSCRIBER_TABLE_ID) S \<and>
      (\<forall>i. i \<noteq> SUBSCRIBER_TABLE_ID \<longrightarrow> table_map T st i = table_map T sm i)"
  have "0 \<le> sint s" using s(1) by simp
  then show "gen_returns (gbnd (generateSubscriberRecord R s) (\<lambda>r. glift (insertSubscriberRecord T cfg r st)))
    (\<lambda>sm'. tatp_inv T cfg sm' \<and> subs_loaded (table_map T sm' SUBSCRIBER_TABLE_ID) (insert s S) \<and>
      (\<forall>i. i \<noteq> SUBSCRIBER_TABLE_ID \<longrightarrow> table_map T sm' i = table_map T sm i))"
  proof (rule gbnd_returns [OF generateSubscriberRecord_returns [OF R]])
    fix r assume r: "sr_ok r \<and> sr_s_id r = s \<and> sr_sub_nbr r = sub_nbr_of s"
    note loaded = subs_loaded_insert [of "table_map T st SUBSCRIBER_TABLE_ID" S s "subscriber_row r"]
    have "col_data subscriber_schema 1 (subscriber_row r) = sub_nbr_of s" using sub_nbr_column r by metis
    note loaded = loaded [OF conjunct1 [OF conjunct2 [OF st]] s(2) this]
    obtain sm' where sm': "insertSubscriberRecord T cfg r st = Inr sm'"
        "adds T cfg st SUBSCRIBER_TABLE_ID (to_bytes s) (subscriber_row r) sm'"
      using insertSubscriberRecord_adds [of T cfg st r] st r loaded(1) by auto
    show "gen_returns (glift (insertSubscriberRecord T cfg r st))
      (\<lambda>sm'. tatp_inv T cfg sm' \<and> subs_loaded (table_map T sm' SUBSCRIBER_TABLE_ID) (insert s S) \<and>
        (\<forall>i. i \<noteq> SUBSCRIBER_TABLE_ID \<longrightarrow> table_map T sm' i = table_map T sm i))"
      using addsD [OF sm'(2)] loaded(2) st by (intro glift_returns [OF sm'(1)]) simp
  qed
qed (use inv empty in \<open>simp add: subs_loaded_def\<close>)

lemma subArr_bounds:
  assumes "rng_laws R" "length arr = n" "n \<le> 2 ^ 31" "0 \<le> sint mn" "sint mn \<le> sint mx" "sint mx \<le> int n"
  shows "gen_returns (subArr R arr n mn mx) (\<lambda>(len, arr', sub).
    nat (sint mn) \<le> len \<and> len \<le> nat (sint mx) \<and> length arr' = n)"
proof -
  have "gen_returns (subArr R arr (length arr) mn mx) (\<lambda>(len, arr', sub).
    nat (sint mn) \<le> len \<and> len \<le> nat (sint mx) \<and> mset arr' = mset arr \<and> sub = rev (drop (length arr - len) arr'))"
    using assms by (intro subArr_returns) simp_all
  then show ?thesis unfolding assms(2)
    by (rule gen_weaken) (use assms(2) in \<open>auto dest: mset_eq_length\<close>)
qed

text \<open>The number of access-info records is drawn once, for all subscribers.\<close>

definition ai_keys :: "bench_config \<Rightarrow> stack_arrays \<Rightarrow> (32 word \<Rightarrow> nat) \<Rightarrow> nat \<Rightarrow> bytes set" where
  "ai_keys cfg stk = facility_keys cfg (\<lambda>_ j. scast (ai_types stk j))"

definition ai_loaded ::
  "('q, 'h, 'm) tbb \<Rightarrow> bench_config \<Rightarrow> stack_arrays \<Rightarrow> (32 word \<Rightarrow> nat) \<Rightarrow> ('q, 'h, 'm) storage_manager \<Rightarrow> bool" where
  "ai_loaded T cfg stk L sm \<longleftrightarrow>
     (\<forall>p < partitions cfg. dom (table_map T sm (ACCESS_INFO_TABLE_ID + p)) = ai_keys cfg stk L p)"

lemma insert_access_info:
  assumes R: "rng_laws R" and inv: "tatp_inv T cfg st" and loaded: "ai_loaded T cfg stk L st"
    and types: "inj_on (\<lambda>j. scast (ai_types stk j) :: 8 word) {..<4}" and L: "L s < 4"
  shows "gen_returns (gbnd (generateAccessInfoRecord R s (ai_types stk (L s))) (\<lambda>r. glift (insertAccessInfoRecord T cfg r st)))
    (\<lambda>sm'. tatp_inv T cfg sm' \<and> ai_loaded T cfg stk (L(s := Suc (L s))) sm' \<and>
      (\<forall>i. i < ACCESS_INFO_TABLE_ID \<or> SPECIAL_FACILITY_TABLE_ID \<le> i \<longrightarrow> table_map T sm' i = table_map T st i))"
proof (rule gbnd_returns [OF generateAccessInfoRecord_returns [OF R]])
  fix r assume r: "ar_ok r \<and> ar_s_id r = s \<and> ar_ai_type r = scast (ai_types stk (L s))"
  let ?p = "partition_of cfg s" and ?k = "sf_key s (scast (ai_types stk (L s)))"
  note p = partition_of_less [OF tatp_invD(2) [OF inv], of s] tatp_invD(3) [OF inv, of s]
  have "?k \<notin> ai_keys cfg stk L ?p"
    unfolding ai_keys_def using facility_key_new [of "\<lambda>_ j. scast (ai_types stk j)" s 4 L] types L by simp
  then have new: "table_map T st (ACCESS_INFO_TABLE_ID + ?p) ?k = None"
    using loaded p(1) by (auto simp: ai_loaded_def domIff)
  obtain sm' where sm': "insertAccessInfoRecord T cfg r st = Inr sm'"
      "adds T cfg st (ACCESS_INFO_TABLE_ID + ?p) ?k (access_info_row r) sm'"
    using insertAccessInfoRecord_adds [of T cfg st r] inv r new by auto
  have "ai_loaded T cfg stk (L(s := Suc (L s))) sm'"
    unfolding ai_loaded_def
  proof (intro allI impI)
    fix q assume q: "q < partitions cfg"
    show "dom (table_map T sm' (ACCESS_INFO_TABLE_ID + q)) = ai_keys cfg stk (L(s := Suc (L s))) q"
      using addsD(3,4) [OF sm'(2)] loaded q by (simp add: ai_loaded_def ai_keys_def facility_keys_Suc)
  qed
  moreover have "table_map T sm' i = table_map T st i"
    if "i < ACCESS_INFO_TABLE_ID \<or> SPECIAL_FACILITY_TABLE_ID \<le> i" for i
    using that p(2) by (intro addsD(3) [OF sm'(2)]) (auto simp: tatp_table_ids)
  ultimately show "gen_returns (glift (insertAccessInfoRecord T cfg r st))
    (\<lambda>sm'. tatp_inv T cfg sm' \<and> ai_loaded T cfg stk (L(s := Suc (L s))) sm' \<and>
      (\<forall>i. i < ACCESS_INFO_TABLE_ID \<or> SPECIAL_FACILITY_TABLE_ID \<le> i \<longrightarrow> table_map T sm' i = table_map T st i))"
    using addsD(1) [OF sm'(2)] by (intro glift_returns [OF sm'(1)]) simp
qed

lemma load_access_info_returns:
  assumes R: "rng_laws R" and n: "n \<noteq> INT_MAX" and inv: "tatp_inv T cfg sm"
    and empty: "\<And>p. p < partitions cfg \<Longrightarrow> table_map T sm (ACCESS_INFO_TABLE_ID + p) = Map.empty"
    and types: "inj_on (\<lambda>j. scast (ai_types stk j) :: 8 word) {..<4}"
  shows "gen_returns (load_access_info R T cfg stk n sm) (\<lambda>sm'.
    tatp_inv T cfg sm' \<and>
    (\<exists>k. 1 \<le> k \<and> k \<le> 4 \<and> ai_loaded T cfg stk (\<lambda>s. if s \<in> set (s_ids n) then k else 0) sm') \<and>
    (\<forall>i. i < ACCESS_INFO_TABLE_ID \<or> SPECIAL_FACILITY_TABLE_ID \<le> i \<longrightarrow> table_map T sm' i = table_map T sm i))"
  unfolding load_access_info_def
proof (rule gbnd_returns)
  show "gen_returns (subArr R [1, 2, 3, 4] 4 1 4) (\<lambda>(k, arr, sub). 1 \<le> k \<and> k \<le> 4)"
    by (rule gen_weaken [OF subArr_bounds [OF R, where n = 4]]) auto
next
  fix x :: "nat \<times> 32 word list \<times> 32 word list"
  assume x: "case x of (k, arr, sub) \<Rightarrow> 1 \<le> k \<and> k \<le> 4"
  obtain k arr sub where k: "x = (k, arr, sub)" "1 \<le> k" "k \<le> 4" using x by (cases x) auto
  let ?frame = "\<lambda>sm'. \<forall>i. i < ACCESS_INFO_TABLE_ID \<or> SPECIAL_FACILITY_TABLE_ID \<le> i \<longrightarrow> table_map T sm' i = table_map T sm i"
  let ?L = "\<lambda>S s. if s \<in> S then k else 0 :: nat"
  let ?body = "\<lambda>s. gfold (\<lambda>j sm. gbnd (generateAccessInfoRecord R s (ai_types stk j)) (\<lambda>r.
       glift (insertAccessInfoRecord T cfg r sm))) [0..<k]"
  have "gen_returns (for_subscribers n ?body sm) (\<lambda>sm'. tatp_inv T cfg sm' \<and> ai_loaded T cfg stk (?L (set (s_ids n))) sm' \<and> ?frame sm')"
  proof (rule for_subscribers_returns [OF n, where I = "\<lambda>S sm'. tatp_inv T cfg sm' \<and> ai_loaded T cfg stk (?L S) sm' \<and> ?frame sm'"])
    fix S and s :: "32 word" and st
    assume s: "s \<notin> S" and st: "tatp_inv T cfg st \<and> ai_loaded T cfg stk (?L S) st \<and> ?frame st"
    have "gen_returns (?body s st) (\<lambda>sm'. tatp_inv T cfg sm' \<and> ai_loaded T cfg stk ((?L S)(s := k)) sm' \<and> ?frame sm')"
    proof (rule gfold_upt_invariant [where I = "\<lambda>j sm'. tatp_inv T cfg sm' \<and> ai_loaded T cfg stk ((?L S)(s := j)) sm' \<and> ?frame sm'"])
      fix j st assume j: "j < k" and st: "tatp_inv T cfg st \<and> ai_loaded T cfg stk ((?L S)(s := j)) st \<and> ?frame st"
      have "gen_returns (gbnd (generateAccessInfoRecord R s (ai_types stk (((?L S)(s := j)) s))) (\<lambda>r. glift (insertAccessInfoRecord T cfg r st)))
        (\<lambda>sm'. tatp_inv T cfg sm' \<and> ai_loaded T cfg stk (((?L S)(s := j))(s := Suc (((?L S)(s := j)) s))) sm' \<and>
          (\<forall>i. i < ACCESS_INFO_TABLE_ID \<or> SPECIAL_FACILITY_TABLE_ID \<le> i \<longrightarrow> table_map T sm' i = table_map T st i))"
        using j k(3) st by (intro insert_access_info [OF R _ _ types]) (simp_all add: fun_upd_def)
      then show "gen_returns (gbnd (generateAccessInfoRecord R s (ai_types stk j)) (\<lambda>r. glift (insertAccessInfoRecord T cfg r st)))
        (\<lambda>sm'. tatp_inv T cfg sm' \<and> ai_loaded T cfg stk ((?L S)(s := Suc j)) sm' \<and> ?frame sm')"
        using st by (auto intro: gen_weaken)
    next
      have "(?L S)(s := 0) = ?L S" using s by auto
      then show "tatp_inv T cfg st \<and> ai_loaded T cfg stk ((?L S)(s := 0)) st \<and> ?frame st"
        using st by simp
    qed
    moreover have "(?L S)(s := k) = ?L (insert s S)" by auto
    ultimately show "gen_returns (?body s st) (\<lambda>sm'. tatp_inv T cfg sm' \<and> ai_loaded T cfg stk (?L (insert s S)) sm' \<and> ?frame sm')"
      by simp
  qed (use inv empty in \<open>simp add: ai_loaded_def ai_keys_def facility_keys_def\<close>)
  then show "gen_returns (case x of (ai_types_len, arr, _) \<Rightarrow> for_subscribers n (\<lambda>s_id. gfold (\<lambda>j sm.
         gbnd (generateAccessInfoRecord R s_id (ai_types stk j)) (\<lambda>r.
         glift (insertAccessInfoRecord T cfg r sm))) [0..<ai_types_len]) sm) (\<lambda>sm'.
    tatp_inv T cfg sm' \<and>
    (\<exists>k. 1 \<le> k \<and> k \<le> 4 \<and> ai_loaded T cfg stk (\<lambda>s. if s \<in> set (s_ids n) then k else 0) sm') \<and>
    (\<forall>i. i < ACCESS_INFO_TABLE_ID \<or> SPECIAL_FACILITY_TABLE_ID \<le> i \<longrightarrow> table_map T sm' i = table_map T sm i))"
    unfolding k(1) prod.case by (rule gen_weaken) (use k(2,3) in blast)
qed

definition sf_keys :: "bench_config \<Rightarrow> stack_arrays \<Rightarrow> (32 word \<Rightarrow> nat) \<Rightarrow> nat \<Rightarrow> bytes set" where
  "sf_keys cfg stk = facility_keys cfg (\<lambda>s j. scast (sf_types stk s j))"

definition cf_keys ::
  "bench_config \<Rightarrow> stack_arrays \<Rightarrow> (32 word \<Rightarrow> nat) \<Rightarrow> (32 word \<Rightarrow> nat \<Rightarrow> nat) \<Rightarrow> nat \<Rightarrow> bytes set" where
  "cf_keys cfg stk =
     forwarding_keys cfg (\<lambda>s j. scast (sf_types stk s j)) (\<lambda>s j l. scast (start_times stk s j l))"

definition facilities_loaded ::
  "('q, 'h, 'm) tbb \<Rightarrow> bench_config \<Rightarrow> stack_arrays \<Rightarrow> (32 word \<Rightarrow> nat) \<Rightarrow> (32 word \<Rightarrow> nat \<Rightarrow> nat) \<Rightarrow>
   ('q, 'h, 'm) storage_manager \<Rightarrow> bool" where
  "facilities_loaded T cfg stk L M sm \<longleftrightarrow>
     (\<forall>p < partitions cfg.
        dom (table_map T sm (SPECIAL_FACILITY_TABLE_ID + p)) = sf_keys cfg stk L p \<and>
        dom (table_map T sm (CALL_FORWARDING_TABLE_ID + p)) = cf_keys cfg stk L M p)"

text \<open>The state of the last loop, when subscriber \<open>s\<close> has \<open>L s\<close> special facilities; \<open>sm0\<close> is the
  database before the loop.\<close>

definition fac_state ::
  "('q, 'h, 'm) tbb \<Rightarrow> bench_config \<Rightarrow> stack_arrays \<Rightarrow> ('q, 'h, 'm) storage_manager \<Rightarrow>
   (32 word \<Rightarrow> nat) \<Rightarrow> (32 word \<Rightarrow> nat \<Rightarrow> nat) \<Rightarrow> ('q, 'h, 'm) storage_manager \<Rightarrow> bool" where
  "fac_state T cfg stk sm0 L M sm \<longleftrightarrow>
     tatp_inv T cfg sm \<and> facilities_loaded T cfg stk L M sm \<and> (\<forall>s j. M s j \<le> 3) \<and>
     (\<forall>i < SPECIAL_FACILITY_TABLE_ID. table_map T sm i = table_map T sm0 i)"

lemma insert_special_facility:
  assumes R: "rng_laws R" and st: "fac_state T cfg stk sm0 L M st"
    and types: "inj_on (\<lambda>j. scast (sf_types stk s j) :: 8 word) {..<4}" and L: "L s < 4"
  shows "gen_returns (gbnd (generateSpecialFacilityRecord R s (sf_types stk s (L s))) (\<lambda>r.
      glift (insertSpecialFacilityRecord T cfg r st)))
    (fac_state T cfg stk sm0 (L(s := Suc (L s))) (M(s := (M s)(L s := 0))))"
proof (rule gbnd_returns [OF generateSpecialFacilityRecord_returns [OF R]])
  fix r assume r: "fr_ok r \<and> fr_s_id r = s \<and> fr_sf_type r = scast (sf_types stk s (L s))"
  let ?p = "partition_of cfg s" and ?k = "sf_key s (scast (sf_types stk s (L s)))"
  have inv: "tatp_inv T cfg st" and loaded: "facilities_loaded T cfg stk L M st"
    using st by (simp_all add: fac_state_def)
  note p = partition_of_less [OF tatp_invD(2) [OF inv], of s] tatp_invD(3) [OF inv, of s]
  have max: "partitions cfg \<le> MAX_PARTITION_CNT" using inv by (simp add: tatp_inv_def)
  have "?k \<notin> sf_keys cfg stk L ?p"
    unfolding sf_keys_def using facility_key_new [of "\<lambda>s j. scast (sf_types stk s j)" s 4 L] types L by simp
  then have new: "table_map T st (SPECIAL_FACILITY_TABLE_ID + ?p) ?k = None"
    using loaded p(1) by (auto simp: facilities_loaded_def domIff)
  obtain sm' where sm': "insertSpecialFacilityRecord T cfg r st = Inr sm'"
      "adds T cfg st (SPECIAL_FACILITY_TABLE_ID + ?p) ?k (special_facility_row r) sm'"
    using insertSpecialFacilityRecord_adds [of T cfg st r] inv r new by auto
  have "facilities_loaded T cfg stk (L(s := Suc (L s))) (M(s := (M s)(L s := 0))) sm'"
    unfolding facilities_loaded_def
  proof (intro allI impI conjI)
    fix q assume q: "q < partitions cfg"
    show "dom (table_map T sm' (SPECIAL_FACILITY_TABLE_ID + q)) = sf_keys cfg stk (L(s := Suc (L s))) q"
      using addsD(3,4) [OF sm'(2)] loaded q by (simp add: facilities_loaded_def sf_keys_def facility_keys_Suc)
    have "CALL_FORWARDING_TABLE_ID + q \<noteq> SPECIAL_FACILITY_TABLE_ID + ?p"
      using p(2) by (simp add: tatp_table_ids)
    then show "dom (table_map T sm' (CALL_FORWARDING_TABLE_ID + q)) =
        cf_keys cfg stk (L(s := Suc (L s))) (M(s := (M s)(L s := 0))) q"
      using addsD(3) [OF sm'(2)] loaded q
      by (simp add: facilities_loaded_def cf_keys_def forwarding_keys_facility)
  qed
  moreover have "table_map T sm' i = table_map T st i" if "i < SPECIAL_FACILITY_TABLE_ID" for i
    using that by (intro addsD(3) [OF sm'(2)]) simp
  ultimately show "gen_returns (glift (insertSpecialFacilityRecord T cfg r st))
      (fac_state T cfg stk sm0 (L(s := Suc (L s))) (M(s := (M s)(L s := 0))))"
    using addsD(1) [OF sm'(2)] st by (intro glift_returns [OF sm'(1)]) (simp add: fac_state_def)
qed

lemma insert_call_forwarding:
  assumes R: "rng_laws R" and st: "fac_state T cfg stk sm0 L M st"
    and types: "inj_on (\<lambda>j. scast (sf_types stk s j) :: 8 word) {..<4}"
    and times: "inj_on (\<lambda>l. scast (start_times stk s j l) :: 8 word) {..<3}"
    and L: "L s \<le> 4" "j < L s" "M s j < 3"
  shows "gen_returns (gbnd (generateCallForwardingRecord R s (sf_types stk s j) (start_times stk s j (M s j))) (\<lambda>r.
      glift (populator_insertCallForwardingRecord T cfg r st)))
    (fac_state T cfg stk sm0 L (M(s := (M s)(j := Suc (M s j)))))"
proof (rule gbnd_returns [OF generateCallForwardingRecord_returns [OF R]])
  fix r assume r: "cr_ok r \<and> cr_s_id r = s \<and> cr_sf_type r = scast (sf_types stk s j) \<and>
      cr_start_time r = scast (start_times stk s j (M s j))"
  let ?p = "partition_of cfg s" and ?k = "cf_key s (scast (sf_types stk s j)) (scast (start_times stk s j (M s j)))"
  have inv: "tatp_inv T cfg st" and loaded: "facilities_loaded T cfg stk L M st"
    using st by (simp_all add: fac_state_def)
  note p = partition_of_less [OF tatp_invD(2) [OF inv], of s] tatp_invD(3) [OF inv, of s]
  have max: "partitions cfg \<le> MAX_PARTITION_CNT" using inv by (simp add: tatp_inv_def)
  have "?k \<notin> cf_keys cfg stk L M ?p"
    unfolding cf_keys_def
    using forwarding_key_new [of "\<lambda>s j. scast (sf_types stk s j)" s 4 L j "\<lambda>s j l. scast (start_times stk s j l)" 3 M]
      types times L by simp
  then have new: "table_map T st (CALL_FORWARDING_TABLE_ID + ?p) ?k = None"
    using loaded p(1) by (auto simp: facilities_loaded_def domIff)
  obtain sm' where sm': "populator_insertCallForwardingRecord T cfg r st = Inr sm'"
      "adds T cfg st (CALL_FORWARDING_TABLE_ID + ?p) ?k (call_forwarding_row r) sm'"
    using populator_insertCallForwardingRecord_adds [of T cfg st r] inv r new by auto
  have "facilities_loaded T cfg stk L (M(s := (M s)(j := Suc (M s j)))) sm'"
    unfolding facilities_loaded_def
  proof (intro allI impI conjI)
    fix q assume q: "q < partitions cfg"
    have "SPECIAL_FACILITY_TABLE_ID + q \<noteq> CALL_FORWARDING_TABLE_ID + ?p"
      using q max by (simp add: tatp_table_ids)
    then show "dom (table_map T sm' (SPECIAL_FACILITY_TABLE_ID + q)) = sf_keys cfg stk L q"
      using addsD(3) [OF sm'(2)] loaded q by (simp add: facilities_loaded_def)
    show "dom (table_map T sm' (CALL_FORWARDING_TABLE_ID + q)) = cf_keys cfg stk L (M(s := (M s)(j := Suc (M s j)))) q"
      using addsD(3,4) [OF sm'(2)] loaded q
      by (simp add: facilities_loaded_def cf_keys_def forwarding_keys_Suc [of j L s, OF L(2)])
  qed
  moreover have "table_map T sm' i = table_map T st i" if "i < SPECIAL_FACILITY_TABLE_ID" for i
    using that by (intro addsD(3) [OF sm'(2)]) (simp add: tatp_table_ids)
  ultimately show "gen_returns (glift (populator_insertCallForwardingRecord T cfg r st))
      (fac_state T cfg stk sm0 L (M(s := (M s)(j := Suc (M s j)))))"
    using addsD(1) [OF sm'(2)] st L(3) by (intro glift_returns [OF sm'(1)]) (simp add: fac_state_def)
qed

text \<open>What C++ does not promise and the loops need: the values the arrays happen to hold differ.\<close>

definition arrays_distinct :: "stack_arrays \<Rightarrow> bool" where
  "arrays_distinct stk \<longleftrightarrow>
     inj_on (\<lambda>j. scast (ai_types stk j) :: 8 word) {..<4} \<and>
     (\<forall>s. inj_on (\<lambda>j. scast (sf_types stk s j) :: 8 word) {..<4}) \<and>
     (\<forall>s j. inj_on (\<lambda>l. scast (start_times stk s j l) :: 8 word) {..<3})"

lemma load_call_forwardings_returns:
  assumes R: "rng_laws R" and distinct: "arrays_distinct stk"
    and st: "fac_state T cfg stk sm0 L M sm" "L s = j" "j < 4" "length cal_arr = 3"
  shows "gen_returns (load_call_forwardings R T cfg stk s j (sm, cal_arr)) (\<lambda>(sm', cal_arr').
    length cal_arr' = 3 \<and> (\<exists>M'. fac_state T cfg stk sm0 (L(s := Suc j)) M' sm'))"
proof -
  have types: "inj_on (\<lambda>j. scast (sf_types stk s j) :: 8 word) {..<4}"
    and times: "inj_on (\<lambda>l. scast (start_times stk s j l) :: 8 word) {..<3}"
    using distinct by (simp_all add: arrays_distinct_def)
  let ?L = "L(s := Suc j)"
  let ?facility = "\<lambda>sm'. \<exists>M'. M' s j = 0 \<and> fac_state T cfg stk sm0 ?L M' sm'"
  have facility: "gen_returns (gbnd (generateSpecialFacilityRecord R s (sf_types stk s j)) (\<lambda>r.
      gbnd (glift (insertSpecialFacilityRecord T cfg r sm)) f)) Q"
    if "\<And>sm'. ?facility sm' \<Longrightarrow> gen_returns (f sm') Q" for f and Q :: "_ \<Rightarrow> bool"
  proof -
    have "gen_returns (gbnd (generateSpecialFacilityRecord R s (sf_types stk s j)) (\<lambda>r.
        glift (insertSpecialFacilityRecord T cfg r sm))) ?facility"
      unfolding st(2) [symmetric]
    proof (rule gen_weaken [OF insert_special_facility [OF R st(1) types]])
      show "L s < 4" using st(2,3) by simp
      fix sm' assume "fac_state T cfg stk sm0 (L(s := Suc (L s))) (M(s := (M s)(L s := 0))) sm'"
      then show "\<exists>M'. M' s (L s) = 0 \<and> fac_state T cfg stk sm0 (L(s := Suc (L s))) M' sm'"
        by (intro exI [of _ "M(s := (M s)(L s := 0))"]) simp
    qed
    then have "gen_returns (gbnd (gbnd (generateSpecialFacilityRecord R s (sf_types stk s j)) (\<lambda>r.
        glift (insertSpecialFacilityRecord T cfg r sm))) f) Q"
      using that by (rule gbnd_returns)
    then show ?thesis by (simp add: gbnd_assoc)
  qed
  show ?thesis
    unfolding load_call_forwardings_def prod.case
  proof (rule facility)
    fix sm1 assume "?facility sm1"
    then obtain M1 where M1: "M1 s j = 0" "fac_state T cfg stk sm0 ?L M1 sm1" by blast
    let ?loop = "\<lambda>n. gfold (\<lambda>k sm.
         gbnd (generateCallForwardingRecord R s (sf_types stk s j) (start_times stk s j k)) (\<lambda>r.
         glift (populator_insertCallForwardingRecord T cfg r sm))) [0..<n] sm1"
    have loop: "gen_returns (?loop n) (fac_state T cfg stk sm0 ?L (M1(s := (M1 s)(j := n))))" if "n \<le> 3" for n
    proof (rule gfold_upt_invariant [where I = "\<lambda>k. fac_state T cfg stk sm0 ?L (M1(s := (M1 s)(j := k)))"])
      fix k st assume k: "k < n" and st: "fac_state T cfg stk sm0 ?L (M1(s := (M1 s)(j := k))) st"
      show "gen_returns (gbnd (generateCallForwardingRecord R s (sf_types stk s j) (start_times stk s j k)) (\<lambda>r.
           glift (populator_insertCallForwardingRecord T cfg r st)))
         (fac_state T cfg stk sm0 ?L (M1(s := (M1 s)(j := Suc k))))"
        using insert_call_forwarding [OF R st types times] \<open>j < 4\<close> k that by simp
    qed (use M1 in \<open>simp add: fun_upd_idem\<close>)
    show "gen_returns (gbnd (subArr R cal_arr 3 0 3) (\<lambda>(start_times_length, cal_arr, _).
        gbnd (?loop start_times_length) (\<lambda>sm. gret (sm, cal_arr))))
      (\<lambda>(sm', cal_arr'). length cal_arr' = 3 \<and> (\<exists>M'. fac_state T cfg stk sm0 ?L M' sm'))"
    proof (rule gbnd_returns [OF subArr_bounds [OF R st(4)]])
      fix x :: "nat \<times> 32 word list \<times> 32 word list"
      assume "case x of (len, arr', sub) \<Rightarrow> nat (sint (0 :: 32 word)) \<le> len \<and> len \<le> nat (sint (3 :: 32 word)) \<and> length arr' = 3"
      then obtain n arr sub where x: "x = (n, arr, sub)" "n \<le> 3" "length arr = 3" by (cases x) auto
      show "gen_returns (case x of (start_times_length, cal_arr, _) \<Rightarrow>
          gbnd (?loop start_times_length) (\<lambda>sm. gret (sm, cal_arr)))
        (\<lambda>(sm', cal_arr'). length cal_arr' = 3 \<and> (\<exists>M'. fac_state T cfg stk sm0 ?L M' sm'))"
        unfolding x(1) prod.case
        by (rule gbnd_returns [OF loop [OF x(2)]], rule gret_returns) (use x(3) in auto)
    qed simp_all
  qed
qed

text \<open>The subscribers of \<open>S\<close> have one to four facilities each, the others none.\<close>

definition counts_ok :: "32 word set \<Rightarrow> (32 word \<Rightarrow> nat) \<Rightarrow> bool" where
  "counts_ok S L \<longleftrightarrow> (\<forall>s. if s \<in> S then 1 \<le> L s \<and> L s \<le> 4 else L s = 0)"

lemma load_facilities_returns:
  fixes T :: "('q, 'h, 'm) tbb"
  assumes R: "rng_laws R" and distinct: "arrays_distinct stk" and n: "n \<noteq> INT_MAX" and inv: "tatp_inv T cfg sm"
    and empty: "\<And>p. p < partitions cfg \<Longrightarrow> table_map T sm (SPECIAL_FACILITY_TABLE_ID + p) = Map.empty"
      "\<And>p. p < partitions cfg \<Longrightarrow> table_map T sm (CALL_FORWARDING_TABLE_ID + p) = Map.empty"
  shows "gen_returns (load_facilities R T cfg stk n sm) (\<lambda>sm'.
    \<exists>L M. counts_ok (set (s_ids n)) L \<and> fac_state T cfg stk sm L M sm')"
proof -
  let ?I = "\<lambda>S (sm', spe_arr :: 32 word list, cal_arr :: 32 word list). length spe_arr = 4 \<and> length cal_arr = 3 \<and>
      (\<exists>L M. counts_ok S L \<and> fac_state T cfg stk sm L M sm')"
  have loops: "gen_returns (for_subscribers n (\<lambda>s_id (sm, spe_arr, cal_arr).
       gbnd (subArr R spe_arr 4 1 4) (\<lambda>(sf_types_len, spe_arr, _).
       gbnd (gfold (load_call_forwardings R T cfg stk s_id) [0..<sf_types_len] (sm, cal_arr)) (\<lambda>(sm, cal_arr).
       gret (sm, spe_arr, cal_arr)))) (sm, [1, 2, 3, 4], [0, 8, 6])) (?I (set (s_ids n)))"
  proof (rule for_subscribers_returns [OF n, where I = ?I])
    fix S and s :: "32 word" and st :: "('q, 'h, 'm) storage_manager \<times> 32 word list \<times> 32 word list"
    assume s: "s \<notin> S" and st: "?I S st"
    obtain sm1 spe cal L M where st1: "st = (sm1, spe, cal)" "length spe = 4" "length cal = 3"
        "counts_ok S L" "fac_state T cfg stk sm L M sm1"
      using st by (cases st) auto
    show "gen_returns (case st of (sm, spe_arr, cal_arr) \<Rightarrow>
       gbnd (subArr R spe_arr 4 1 4) (\<lambda>(sf_types_len, spe_arr, _).
       gbnd (gfold (load_call_forwardings R T cfg stk s) [0..<sf_types_len] (sm, cal_arr)) (\<lambda>(sm, cal_arr).
       gret (sm, spe_arr, cal_arr)))) (?I (insert s S))"
      unfolding st1(1) prod.case
    proof (rule gbnd_returns [OF subArr_bounds [OF R st1(2)]])
      fix x :: "nat \<times> 32 word list \<times> 32 word list"
      assume "case x of (len, arr', sub) \<Rightarrow> nat (sint (1 :: 32 word)) \<le> len \<and> len \<le> nat (sint (4 :: 32 word)) \<and> length arr' = 4"
      then obtain k arr sub where x: "x = (k, arr, sub)" "1 \<le> k" "k \<le> 4" "length arr = 4" by (cases x) auto
      let ?J = "\<lambda>j (sm', cal_arr :: 32 word list). length cal_arr = 3 \<and> (\<exists>M. fac_state T cfg stk sm (L(s := j)) M sm')"
      have "gen_returns (gfold (load_call_forwardings R T cfg stk s) [0..<k] (sm1, cal)) (?J k)"
      proof (rule gfold_upt_invariant [where I = ?J])
        fix j st assume j: "j < k" and st: "?J j st"
        obtain sm2 cal2 M2 where "st = (sm2, cal2)" "length cal2 = 3" "fac_state T cfg stk sm (L(s := j)) M2 sm2"
          using st by (cases st) auto
        then show "gen_returns (load_call_forwardings R T cfg stk s j st) (?J (Suc j))"
          using load_call_forwardings_returns [OF R distinct, of T cfg sm "L(s := j)" M2 sm2 s j cal2] j x(3) by simp
      next
        have "L(s := 0) = L" using st1(4) s by (auto simp: counts_ok_def fun_upd_idem)
        then show "?J 0 (sm1, cal)" using st1(3,5) by auto
      qed
      then show "gen_returns (case x of (sf_types_len, spe_arr, _) \<Rightarrow>
         gbnd (gfold (load_call_forwardings R T cfg stk s) [0..<sf_types_len] (sm1, cal)) (\<lambda>(sm, cal_arr).
         gret (sm, spe_arr, cal_arr))) (?I (insert s S))"
        unfolding x(1) prod.case
      proof (rule gbnd_returns)
        fix y assume "?J k y"
        then obtain sm3 cal3 M3 where y: "y = (sm3, cal3)" "length cal3 = 3" "fac_state T cfg stk sm (L(s := k)) M3 sm3"
          by (cases y) auto
        have "counts_ok (insert s S) (L(s := k))" using st1(4) x(2,3) by (auto simp: counts_ok_def split: if_splits)
        then show "gen_returns (case y of (sm, cal_arr) \<Rightarrow> gret (sm, arr, cal_arr)) (?I (insert s S))"
          unfolding y(1) prod.case using y(2,3) x(4) by (intro gret_returns) auto
      qed
    qed simp_all
  next
    have "facilities_loaded T cfg stk (\<lambda>_. 0) (\<lambda>_ _. 0) sm"
      using empty by (simp add: facilities_loaded_def sf_keys_def cf_keys_def facility_keys_def forwarding_keys_def)
    then have "fac_state T cfg stk sm (\<lambda>_. 0) (\<lambda>_ _. 0) sm" using inv by (simp add: fac_state_def)
    moreover have "counts_ok {} (\<lambda>_. 0)" by (simp add: counts_ok_def)
    ultimately show "?I {} (sm, [1, 2, 3, 4], [0, 8, 6])" by auto
  qed
  show ?thesis
    unfolding load_facilities_def
  proof (rule gbnd_returns [OF loops])
    fix x assume "?I (set (s_ids n)) x"
    then show "gen_returns (case x of (sm, spe_arr, cal_arr) \<Rightarrow> gret sm)
      (\<lambda>sm'. \<exists>L M. counts_ok (set (s_ids n)) L \<and> fac_state T cfg stk sm L M sm')"
      by (cases x) (auto intro: gret_returns)
  qed
qed

section \<open>The populated database\<close>

definition populated ::
  "('q, 'h, 'm) tbb \<Rightarrow> bench_config \<Rightarrow> stack_arrays \<Rightarrow> 32 word \<Rightarrow> ('q, 'h, 'm) storage_manager \<Rightarrow> bool" where
  "populated T cfg stk n sm \<longleftrightarrow>
     tatp_inv T cfg sm \<and>
     subs_loaded (table_map T sm SUBSCRIBER_TABLE_ID) (set (s_ids n)) \<and>
     (\<exists>k. 1 \<le> k \<and> k \<le> 4 \<and> ai_loaded T cfg stk (\<lambda>s. if s \<in> set (s_ids n) then k else 0) sm) \<and>
     (\<exists>L M. counts_ok (set (s_ids n)) L \<and> (\<forall>s j. M s j \<le> 3) \<and>
        facilities_loaded T cfg stk L M sm)"

lemma TatpPopulator_start_returns:
  assumes laws: "tbb_laws T" "rng_laws R" and parts: "0 < partitions cfg" "partitions cfg \<le> MAX_PARTITION_CNT"
    and distinct: "arrays_distinct stk" and n: "n \<noteq> INT_MAX"
  shows "gen_returns (TatpPopulator_start R T cfg stk n StorageManager_new) (populated T cfg stk n)"
proof -
  obtain sm where sm: "TatpPopulator_init T cfg StorageManager_new = Inr sm" "tatp_inv T cfg sm"
    "table_map T sm SUBSCRIBER_TABLE_ID = Map.empty"
    "\<And>p. p < partitions cfg \<Longrightarrow> table_map T sm (SPECIAL_FACILITY_TABLE_ID + p) = Map.empty"
    "\<And>p. p < partitions cfg \<Longrightarrow> table_map T sm (CALL_FORWARDING_TABLE_ID + p) = Map.empty"
    "\<And>p. p < partitions cfg \<Longrightarrow> table_map T sm (ACCESS_INFO_TABLE_ID + p) = Map.empty"
    using TatpPopulator_init_inv [OF laws(1) parts] by metis
  have types: "inj_on (\<lambda>j. scast (ai_types stk j) :: 8 word) {..<4}"
    using distinct by (simp add: arrays_distinct_def)
  show ?thesis
    unfolding TatpPopulator_start_def startPopulate_def
  proof (rule gbnd_returns [OF glift_returns [OF sm(1), where P = "\<lambda>x. x = sm"]])
    fix x assume x: "x = sm"
    show "gen_returns (gbnd (load_subscribers R T cfg n x) (\<lambda>sm.
        gbnd (load_access_info R T cfg stk n sm) (\<lambda>sm. load_facilities R T cfg stk n sm))) (populated T cfg stk n)"
      unfolding x
    proof (rule gbnd_returns [OF load_subscribers_returns [OF laws(2) n sm(2,3)]])
      fix sm1
      assume sm1: "tatp_inv T cfg sm1 \<and> subs_loaded (table_map T sm1 SUBSCRIBER_TABLE_ID) (set (s_ids n)) \<and>
        (\<forall>i. i \<noteq> SUBSCRIBER_TABLE_ID \<longrightarrow> table_map T sm1 i = table_map T sm i)"
      then have inv1: "tatp_inv T cfg sm1" by blast
      have empty1: "table_map T sm1 (ACCESS_INFO_TABLE_ID + p) = Map.empty"
        "table_map T sm1 (SPECIAL_FACILITY_TABLE_ID + p) = Map.empty"
        "table_map T sm1 (CALL_FORWARDING_TABLE_ID + p) = Map.empty" if "p < partitions cfg" for p
        using sm1 sm(4-6) [OF that] by (simp_all add: tatp_table_ids)
      show "gen_returns (gbnd (load_access_info R T cfg stk n sm1) (\<lambda>sm. load_facilities R T cfg stk n sm))
          (populated T cfg stk n)"
      proof (rule gbnd_returns [OF load_access_info_returns [OF laws(2) n inv1 empty1(1) types]])
        fix sm2
        assume sm2: "tatp_inv T cfg sm2 \<and>
          (\<exists>k. 1 \<le> k \<and> k \<le> 4 \<and> ai_loaded T cfg stk (\<lambda>s. if s \<in> set (s_ids n) then k else 0) sm2) \<and>
          (\<forall>i. i < ACCESS_INFO_TABLE_ID \<or> SPECIAL_FACILITY_TABLE_ID \<le> i \<longrightarrow> table_map T sm2 i = table_map T sm1 i)"
        then have inv2: "tatp_inv T cfg sm2" by blast
        have empty2: "table_map T sm2 (SPECIAL_FACILITY_TABLE_ID + p) = Map.empty"
          "table_map T sm2 (CALL_FORWARDING_TABLE_ID + p) = Map.empty" if "p < partitions cfg" for p
          using sm2 empty1(2,3) [OF that] by (simp_all add: tatp_table_ids)
        show "gen_returns (load_facilities R T cfg stk n sm2) (populated T cfg stk n)"
        proof (rule gen_weaken [OF load_facilities_returns [OF laws(2) distinct n inv2 empty2]])
          fix sm3 assume "\<exists>L M. counts_ok (set (s_ids n)) L \<and>
            fac_state T cfg stk sm2 L M sm3"
          then obtain L M where L: "counts_ok (set (s_ids n)) L"
            "fac_state T cfg stk sm2 L M sm3" by blast
          have frame: "table_map T sm3 i = table_map T sm2 i" if "i < SPECIAL_FACILITY_TABLE_ID" for i
            using L(2) that by (simp add: fac_state_def)
          have "table_map T sm3 SUBSCRIBER_TABLE_ID = table_map T sm1 SUBSCRIBER_TABLE_ID"
            using frame [of SUBSCRIBER_TABLE_ID] sm2 by (simp add: tatp_table_ids)
          moreover have "table_map T sm3 (ACCESS_INFO_TABLE_ID + p) = table_map T sm2 (ACCESS_INFO_TABLE_ID + p)"
            if "p < partitions cfg" for p
            using frame [of "ACCESS_INFO_TABLE_ID + p"] that parts(2) by (simp add: tatp_table_ids)
          then have "ai_loaded T cfg stk K sm3 \<longleftrightarrow> ai_loaded T cfg stk K sm2" for K
            by (simp add: ai_loaded_def)
          moreover have "tatp_inv T cfg sm3" "facilities_loaded T cfg stk L M sm3" "\<forall>s j. M s j \<le> 3"
            using L(2) by (simp_all add: fac_state_def)
          ultimately show "populated T cfg stk n sm3"
            unfolding populated_def using L(1) sm1 sm2 by metis
        qed
      qed
    qed
  qed simp
qed

end
