(* ===== verification/Interleaving.thy ===== *)
theory Interleaving
  imports Prelude
begin

text \<open>
  Threads as lists of steps, and the sequences in which a scheduler can execute them. The locale
  \<open>commuting_steps\<close> is the contract of the batch processors' steps (benchmark/tatp, benchmark/tpcc):
  each step touches at most one resource, and steps on different resources commute. Inside it, two
  executions that agree on the order of the steps of every resource end in the same state.
\<close>

section \<open>Schedules\<close>

inductive interleaving :: "'a list list \<Rightarrow> 'a list \<Rightarrow> bool" where
  il_done: "\<forall>th \<in> set ths. th = [] \<Longrightarrow> interleaving ths []"
| il_step: "i < length ths \<Longrightarrow> ths ! i = x # xs \<Longrightarrow> interleaving (ths[i := xs]) zs \<Longrightarrow>
    interleaving ths (x # zs)"

inductive_cases interleaving_NilE: "interleaving ths []"
inductive_cases interleaving_ConsE: "interleaving ths (x # zs)"

text \<open>Running the threads one after the other is one of the schedules.\<close>

lemma interleaving_run_thread:
  "i < length ths \<Longrightarrow> interleaving (ths[i := ys]) zs \<Longrightarrow> ths ! i = xs @ ys \<Longrightarrow> interleaving ths (xs @ zs)"
proof (induction xs arbitrary: ths)
  case Nil
  then show ?case by (metis append_Nil list_update_id)
next
  case (Cons x xs)
  let ?ths = "ths[i := xs @ ys]"
  have "interleaving ?ths (xs @ zs)"
    using Cons by (intro Cons.IH) simp_all
  then show ?case
    using Cons.prems by (auto intro: il_step)
qed

lemma interleaving_concat_from:
  assumes "n \<le> length ths" "\<forall>i < n. ths ! i = []"
  shows "interleaving ths (concat (drop n ths))"
  using assms
proof (induction "length ths - n" arbitrary: n ths)
  case 0
  then have "\<forall>th \<in> set ths. th = []" by (auto simp: in_set_conv_nth)
  then show ?case using 0 by (simp add: il_done)
next
  case (Suc d)
  then have n: "n < length ths" by simp
  let ?ths = "ths[n := []]"
  have "interleaving ?ths (concat (drop (Suc n) ?ths))"
    using Suc.hyps(2) Suc.prems by (intro Suc.hyps(1)) (auto simp: nth_list_update less_Suc_eq)
  moreover have "drop (Suc n) ?ths = drop (Suc n) ths" by simp
  ultimately have "interleaving ths (ths ! n @ concat (drop (Suc n) ths))"
    using interleaving_run_thread [OF n, of "[]"] by simp
  then show ?case
    using n by (simp add: Cons_nth_drop_Suc [symmetric])
qed

lemma interleaving_concat: "interleaving ths (concat ths)"
  using interleaving_concat_from [of 0 ths] by simp

lemma interleaving_set: "interleaving ths zs \<Longrightarrow> set zs = (\<Union>th \<in> set ths. set th)"
proof (induction rule: interleaving.induct)
  case (il_done ths)
  then show ?case by auto
next
  case (il_step i ths x xs zs)
  have "(\<Union>th \<in> set ths. set th) = insert x (\<Union>th \<in> set (ths[i := xs]). set th)"
  proof -
    have "set (concat ths) = insert x (set (concat (ths[i := xs])))"
    proof -
      have "ths = take i ths @ (x # xs) # drop (Suc i) ths"
        using il_step(1,2) id_take_nth_drop by metis
      moreover have "ths[i := xs] = take i ths @ xs # drop (Suc i) ths"
        using il_step(1) by (rule upd_conv_take_nth_drop)
      ultimately show ?thesis
        by (metis Un_insert_left Un_insert_right concat.simps(2) concat_append list.simps(15) set_append)
    qed
    then show ?thesis by simp
  qed
  then show ?case using il_step.IH by simp
qed

text \<open>Steps that are all in one thread keep the order of that thread.\<close>

lemma filter_interleaving:
  assumes "interleaving ths zs" and "t < length ths"
    and "\<And>i. i < length ths \<Longrightarrow> i \<noteq> t \<Longrightarrow> filter P (ths ! i) = []"
  shows "filter P zs = filter P (ths ! t)"
  using assms
proof (induction rule: interleaving.induct)
  case (il_done ths)
  then have "ths ! t = []" by simp
  then show ?case by simp
next
  case (il_step i ths x xs zs)
  have IH: "filter P zs = filter P (ths[i := xs] ! t)"
  proof (rule il_step.IH)
    fix j assume "j < length (ths[i := xs])" "j \<noteq> t"
    then show "filter P (ths[i := xs] ! j) = []"
      using il_step.prems(2) [of j] il_step.hyps by (cases "j = i") (auto split: if_splits)
  qed (use il_step.prems in simp)
  show ?case
  proof (cases "i = t")
    case True
    then show ?thesis using IH il_step.hyps by simp
  next
    case False
    then have "filter P (x # xs) = []" using il_step.prems(2) il_step.hyps by metis
    then show ?thesis using IH False by (simp split: if_splits)
  qed
qed

lemma filter_interleaving_split:
  assumes "interleaving (us @ th # vs) zs"
    and "\<And>x. x \<in> set us \<union> set vs \<Longrightarrow> filter P x = []"
  shows "filter P zs = filter P th"
proof -
  have "filter P zs = filter P ((us @ th # vs) ! length us)"
  proof (rule filter_interleaving [OF assms(1)])
    fix i assume "i < length (us @ th # vs)" "i \<noteq> length us"
    then have "(us @ th # vs) ! i \<in> set us \<union> set vs"
      by (cases "i < length us") (auto simp: nth_append nth_Cons' intro: nth_mem)
    then show "filter P ((us @ th # vs) ! i) = []" by (rule assms(2))
  qed simp
  then show ?thesis by simp
qed

lemma filter_interleaving_none:
  assumes "interleaving ths zs" "\<And>th. th \<in> set ths \<Longrightarrow> filter P th = []"
  shows "filter P zs = []"
proof -
  have "\<forall>th \<in> set ths. \<forall>x \<in> set th. \<not> P x"
    using assms(2) by (simp add: filter_empty_conv)
  then have "\<forall>x \<in> set zs. \<not> P x"
    unfolding interleaving_set [OF assms(1)] by blast
  then show ?thesis by (simp add: filter_empty_conv)
qed

section \<open>Steps on separate resources\<close>

locale commuting_steps =
  fixes step :: "'x \<Rightarrow> 's \<Rightarrow> 's"
    and resource :: "'x \<Rightarrow> 'k option"
  assumes no_resource: "resource x = None \<Longrightarrow> step x s = s"
    and commute: "resource x \<noteq> resource y \<Longrightarrow> step x (step y s) = step y (step x s)"
begin

lemma move_to_front:
  "(\<And>y. y \<in> set ys \<Longrightarrow> resource y \<noteq> resource x) \<Longrightarrow>
   fold step (ys @ x # zs) s = fold step (x # ys @ zs) s"
proof (induction ys arbitrary: s)
  case (Cons y ys)
  have "fold step (ys @ x # zs) (step y s) = fold step (x # ys @ zs) (step y s)"
    using Cons by simp
  moreover have "step x (step y s) = step y (step x s)"
    using Cons.prems [of y] by (intro commute) auto
  ultimately show ?case by simp
qed simp

lemma same_order_effects:
  assumes "\<And>k. filter (\<lambda>x. resource x = Some k) xs = filter (\<lambda>x. resource x = Some k) ys"
    and "\<And>x. x \<in> set xs \<union> set ys \<Longrightarrow> resource x \<noteq> None"
  shows "fold step xs s = fold step ys s"
  using assms
proof (induction xs arbitrary: ys s)
  case Nil
  have "ys = []"
  proof (rule ccontr)
    assume "ys \<noteq> []"
    then obtain y where y: "y \<in> set ys" by (cases ys) auto
    then obtain k where "resource y = Some k" using Nil.prems(2) by auto
    moreover have "filter (\<lambda>x. resource x = Some k) ys = []" using Nil.prems(1) [of k] by simp
    ultimately show False using y by (auto simp: filter_empty_conv)
  qed
  then show ?case by simp
next
  case (Cons x xs)
  have "resource x \<noteq> None" using Cons.prems(2) by simp
  then obtain k where k: "resource x = Some k" by blast
  have "filter (\<lambda>x. resource x = Some k) ys = x # filter (\<lambda>x. resource x = Some k) xs"
    using Cons.prems(1) [of k] k by simp
  then obtain us vs where ys: "ys = us @ x # vs" "\<forall>u \<in> set us. resource u \<noteq> Some k"
      and vs: "filter (\<lambda>x. resource x = Some k) xs = filter (\<lambda>x. resource x = Some k) vs"
    by (auto dest!: filter_eq_ConsD)
  have "fold step ys s = fold step (us @ vs) (step x s)"
    unfolding ys(1) using ys(2) k by (subst move_to_front) auto
  moreover have "fold step xs (step x s) = fold step (us @ vs) (step x s)"
  proof (rule Cons.IH)
    fix j
    show "filter (\<lambda>x. resource x = Some j) xs = filter (\<lambda>x. resource x = Some j) (us @ vs)"
    proof (cases "j = k")
      case True
      then have "filter (\<lambda>x. resource x = Some j) us = []" using ys(2) by (simp add: filter_empty_conv)
      then show ?thesis using vs True by simp
    next
      case False
      then show ?thesis using Cons.prems(1) [of j] k ys(1) by simp
    qed
  qed (use Cons.prems(2) ys(1) in auto)
  ultimately show ?case by simp
qed

lemma fold_effects: "fold step xs s = fold step (filter (\<lambda>x. resource x \<noteq> None) xs) s"
  by (induction xs arbitrary: s) (auto simp: no_resource)

theorem same_order:
  assumes "\<And>k. filter (\<lambda>x. resource x = Some k) xs = filter (\<lambda>x. resource x = Some k) ys"
  shows "fold step xs s = fold step ys s"
proof -
  let ?E = "filter (\<lambda>x. resource x \<noteq> None)"
  have "filter (\<lambda>x. resource x = Some k) (?E zs) = filter (\<lambda>x. resource x = Some k) zs" for k zs
    by (induction zs) auto
  then have "fold step (?E xs) s = fold step (?E ys) s"
    using assms by (intro same_order_effects) auto
  then show ?thesis by (simp add: fold_effects [of xs] fold_effects [of ys])
qed

end

end
