(* ===== verification/TatpSerial.thy ===== *)
theory TatpSerial
  imports TatpProcessor Interleaving
begin

text \<open>
  benchmark/tatp/TatpTuples.h and TatpSerialProcessor.cc: the parameters of the seven transactions,
  the queue, and the processor that executes the transactions one after the other. The queue is the
  list of its elements; popping from the empty queue spins for ever, which is \<open>Diverges\<close>. A
  transaction is the sequence of its sub-transactions (\<open>event_steps\<close>), each a step on one resource.
\<close>

section \<open>Transactions\<close>

record dcf_param =
  dcf_sub_nbr :: bytes
  dcf_sf_type :: "8 word"
  dcf_start_time :: "8 word"

record gad_param =
  gad_s_id :: "32 word"
  gad_ai_type :: "8 word"

record gnd_param =
  gnd_s_id :: "32 word"
  gnd_sf_type :: "8 word"
  gnd_start_time :: "8 word"
  gnd_end_time :: "8 word"

record gsd_param =
  gsd_s_id :: "32 word"

record icf_param =
  icf_sub_nbr :: bytes
  icf_sf_type :: "8 word"
  icf_start_time :: "8 word"
  icf_end_time :: "8 word"
  icf_numberx :: bytes

record ul_param =
  ul_vlr_location :: "32 word"
  ul_sub_nbr :: bytes

record usd_param =
  usd_s_id :: "32 word"
  usd_bit_1 :: "8 word"
  usd_data_a :: "16 word"
  usd_sf_type :: "8 word"

datatype tatp_event =
  DELETE_CALL_FORWARDING dcf_param
| GET_ACCESS_DATA gad_param
| GET_NEW_DESTINATION gnd_param
| GET_SUBSCRIBER_DATA gsd_param
| INSERT_CALL_FORWARDING icf_param
| UPDATE_LOCATION ul_param
| UPDATE_SUBSCRIBER_DATA usd_param
| END_EXECUTION

section \<open>The serial processor\<close>

definition processDeleteCallForwarding ::
  "('q, 'h, 'm) tbb \<Rightarrow> bench_config \<Rightarrow> dcf_param \<Rightarrow> ('q, 'h, 'm) storage_manager \<Rightarrow> ('q, 'h, 'm) storage_manager result" where
  "processDeleteCallForwarding T cfg p sm =
     bnd (getSubscriberId T (dcf_sub_nbr p) sm) (\<lambda>s_id.
     deleteCallForwardingRecord T cfg s_id (dcf_sf_type p) (dcf_start_time p) sm)"

definition processGetAccessData ::
  "('q, 'h, 'm) tbb \<Rightarrow> bench_config \<Rightarrow> gad_param \<Rightarrow> ('q, 'h, 'm) storage_manager \<Rightarrow> ('q, 'h, 'm) storage_manager result" where
  "processGetAccessData T cfg p sm = getAccessInfo T cfg (gad_s_id p) (gad_ai_type p) sm"

definition processGetNewDestination ::
  "gnd_param \<Rightarrow> ('q, 'h, 'm) storage_manager \<Rightarrow> ('q, 'h, 'm) storage_manager result" where
  "processGetNewDestination p sm =
     getNewDestination (gnd_s_id p) (gnd_sf_type p) (gnd_start_time p) (gnd_end_time p) sm"

definition processGetSubscriberData ::
  "('q, 'h, 'm) tbb \<Rightarrow> gsd_param \<Rightarrow> ('q, 'h, 'm) storage_manager \<Rightarrow> ('q, 'h, 'm) storage_manager result" where
  "processGetSubscriberData T p sm = getSubscriberData T (gsd_s_id p) sm"

definition processInsertCallForwarding ::
  "('q, 'h, 'm) tbb \<Rightarrow> bench_config \<Rightarrow> icf_param \<Rightarrow> ('q, 'h, 'm) storage_manager \<Rightarrow> ('q, 'h, 'm) storage_manager result" where
  "processInsertCallForwarding T cfg p sm =
     bnd (getSubscriberId T (icf_sub_nbr p) sm) (\<lambda>s_id.
     bnd (getSpecialFacilitySFType T cfg s_id sm) (\<lambda>sm.
     insertCallForwardingRecord T cfg s_id (icf_sf_type p) (icf_start_time p) (icf_end_time p) (icf_numberx p) sm))"

definition processUpdateLocation ::
  "('q, 'h, 'm) tbb \<Rightarrow> ul_param \<Rightarrow> ('q, 'h, 'm) storage_manager \<Rightarrow> ('q, 'h, 'm) storage_manager result" where
  "processUpdateLocation T p sm =
     bnd (getSubscriberId T (ul_sub_nbr p) sm) (\<lambda>s_id.
     updateSubscriberVLRLocation T s_id (ul_vlr_location p) sm)"

definition processUpdateSubscriberData ::
  "('q, 'h, 'm) tbb \<Rightarrow> bench_config \<Rightarrow> usd_param \<Rightarrow> ('q, 'h, 'm) storage_manager \<Rightarrow> ('q, 'h, 'm) storage_manager result" where
  "processUpdateSubscriberData T cfg p sm =
     bnd (updateSubscriberBit1 T (usd_s_id p) (usd_bit_1 p) sm) (\<lambda>sm.
     updateSpecialFacilityDataA T cfg (usd_s_id p) (usd_sf_type p) (usd_data_a p) sm)"

fun process_event ::
  "('q, 'h, 'm) tbb \<Rightarrow> bench_config \<Rightarrow> tatp_event \<Rightarrow> ('q, 'h, 'm) storage_manager \<Rightarrow> ('q, 'h, 'm) storage_manager result" where
  "process_event T cfg (DELETE_CALL_FORWARDING p) sm = processDeleteCallForwarding T cfg p sm"
| "process_event T cfg (GET_ACCESS_DATA p) sm = processGetAccessData T cfg p sm"
| "process_event T cfg (GET_NEW_DESTINATION p) sm = processGetNewDestination p sm"
| "process_event T cfg (GET_SUBSCRIBER_DATA p) sm = processGetSubscriberData T p sm"
| "process_event T cfg (INSERT_CALL_FORWARDING p) sm = processInsertCallForwarding T cfg p sm"
| "process_event T cfg (UPDATE_LOCATION p) sm = processUpdateLocation T p sm"
| "process_event T cfg (UPDATE_SUBSCRIBER_DATA p) sm = processUpdateSubscriberData T cfg p sm"
| "process_event T cfg END_EXECUTION sm = Inr sm"

text \<open>\<open>TatpSerialProcessor::start\<close>: the final database, the transaction count and what is left in the
  queue.\<close>

fun tatp_serial_start ::
  "('q, 'h, 'm) tbb \<Rightarrow> bench_config \<Rightarrow> tatp_event list \<Rightarrow> nat \<Rightarrow> ('q, 'h, 'm) storage_manager \<Rightarrow>
   (('q, 'h, 'm) storage_manager \<times> nat \<times> tatp_event list) result" where
  "tatp_serial_start T cfg [] txn_cnt sm = Inl Diverges"
| "tatp_serial_start T cfg (e # queue) txn_cnt sm =
     (if e = END_EXECUTION then Inr (sm, txn_cnt, queue)
      else bnd (process_event T cfg e sm) (tatp_serial_start T cfg queue (txn_cnt + 1)))"

section \<open>Steps\<close>

datatype tatp_step =
  CF_Delete "32 word" "8 word" "8 word"
| CF_Insert "32 word" "8 word" "8 word" "8 word" bytes
| Sub_Read "32 word"
| Sub_Vlr "32 word" "32 word"
| Sub_Bit1 "32 word" "8 word"
| SF_Read "32 word"
| SF_DataA "32 word" "8 word" "16 word"
| AI_Read "32 word" "8 word"

fun step_exec ::
  "('q, 'h, 'm) tbb \<Rightarrow> bench_config \<Rightarrow> tatp_step \<Rightarrow> ('q, 'h, 'm) storage_manager \<Rightarrow> ('q, 'h, 'm) storage_manager result" where
  "step_exec T cfg (CF_Delete s sf st) sm = deleteCallForwardingRecord T cfg s sf st sm"
| "step_exec T cfg (CF_Insert s sf st et n) sm = insertCallForwardingRecord T cfg s sf st et n sm"
| "step_exec T cfg (Sub_Read s) sm = getSubscriberData T s sm"
| "step_exec T cfg (Sub_Vlr s v) sm = updateSubscriberVLRLocation T s v sm"
| "step_exec T cfg (Sub_Bit1 s b) sm = updateSubscriberBit1 T s b sm"
| "step_exec T cfg (SF_Read s) sm = getSpecialFacilitySFType T cfg s sm"
| "step_exec T cfg (SF_DataA s sf a) sm = updateSpecialFacilityDataA T cfg s sf a sm"
| "step_exec T cfg (AI_Read s ai) sm = getAccessInfo T cfg s ai sm"

fun step_effect :: "bench_config \<Rightarrow> tatp_step \<Rightarrow> tatp_db \<Rightarrow> tatp_db" where
  "step_effect cfg (CF_Delete s sf st) = a_deleteCF (partition_of cfg s) (cf_key s sf st)"
| "step_effect cfg (CF_Insert s sf st et n) =
     a_insertCF (partition_of cfg s) (cf_key s sf st) (cf_row s sf st et n)"
| "step_effect cfg (Sub_Read s) = id"
| "step_effect cfg (Sub_Vlr s v) = a_updateSub 33 (to_bytes s) (to_bytes v)"
| "step_effect cfg (Sub_Bit1 s b) = a_updateSub 2 (to_bytes s) (to_bytes b)"
| "step_effect cfg (SF_Read s) = id"
| "step_effect cfg (SF_DataA s sf a) = a_updateSF (partition_of cfg s) (sf_key s sf) (to_bytes a)"
| "step_effect cfg (AI_Read s ai) = id"

text \<open>The resource a step changes: the rows of one subscriber in one group of tables.\<close>

datatype table_group = CF_tables | Sub_table | SF_tables

fun step_resource :: "tatp_step \<Rightarrow> (table_group \<times> 32 word) option" where
  "step_resource (CF_Delete s sf st) = Some (CF_tables, s)"
| "step_resource (CF_Insert s sf st et n) = Some (CF_tables, s)"
| "step_resource (Sub_Read s) = None"
| "step_resource (Sub_Vlr s v) = Some (Sub_table, s)"
| "step_resource (Sub_Bit1 s b) = Some (Sub_table, s)"
| "step_resource (SF_Read s) = None"
| "step_resource (SF_DataA s sf a) = Some (SF_tables, s)"
| "step_resource (AI_Read s ai) = None"

fun event_steps :: "(bytes \<Rightarrow> 32 word) \<Rightarrow> tatp_event \<Rightarrow> tatp_step list" where
  "event_steps sid (DELETE_CALL_FORWARDING p) =
     [CF_Delete (sid (dcf_sub_nbr p)) (dcf_sf_type p) (dcf_start_time p)]"
| "event_steps sid (GET_ACCESS_DATA p) = [AI_Read (gad_s_id p) (gad_ai_type p)]"
| "event_steps sid (GET_NEW_DESTINATION p) = []"
| "event_steps sid (GET_SUBSCRIBER_DATA p) = [Sub_Read (gsd_s_id p)]"
| "event_steps sid (INSERT_CALL_FORWARDING p) =
     [SF_Read (sid (icf_sub_nbr p)),
      CF_Insert (sid (icf_sub_nbr p)) (icf_sf_type p) (icf_start_time p) (icf_end_time p) (icf_numberx p)]"
| "event_steps sid (UPDATE_LOCATION p) = [Sub_Vlr (sid (ul_sub_nbr p)) (ul_vlr_location p)]"
| "event_steps sid (UPDATE_SUBSCRIBER_DATA p) =
     [Sub_Bit1 (usd_s_id p) (usd_bit_1 p), SF_DataA (usd_s_id p) (usd_sf_type p) (usd_data_a p)]"
| "event_steps sid END_EXECUTION = []"

text \<open>What the source guarantees of a transaction: the numbers have their fourteen digits, and the
  subscriber of an \<open>UPDATE_LOCATION\<close> exists.\<close>

fun event_ok :: "tatp_db \<Rightarrow> tatp_event \<Rightarrow> bool" where
  "event_ok db (DELETE_CALL_FORWARDING p) \<longleftrightarrow> 14 \<le> length (dcf_sub_nbr p)"
| "event_ok db (INSERT_CALL_FORWARDING p) \<longleftrightarrow> 14 \<le> length (icf_sub_nbr p) \<and> 14 \<le> length (icf_numberx p)"
| "event_ok db (UPDATE_LOCATION p) \<longleftrightarrow>
     14 \<le> length (ul_sub_nbr p) \<and> db_sub db (to_bytes (db_sid db (ul_sub_nbr p))) \<noteq> None"
| "event_ok db e \<longleftrightarrow> True"

fun step_ok :: "tatp_db \<Rightarrow> tatp_step \<Rightarrow> bool" where
  "step_ok db (CF_Insert s sf st et n) \<longleftrightarrow> 14 \<le> length n"
| "step_ok db (Sub_Vlr s v) \<longleftrightarrow> db_sub db (to_bytes s) \<noteq> None"
| "step_ok db st \<longleftrightarrow> True"

section \<open>Steps on different resources commute\<close>

lemma to_bytes_append_eq:
  fixes s s' :: "32 word"
  shows "to_bytes s @ xs = to_bytes s' @ ys \<longleftrightarrow> s = s' \<and> xs = ys"
  using to_bytes_inj [of s s'] by (auto simp: append_eq_append_conv)

lemma key_eqs [simp]:
  "cf_key s a b = cf_key s' a' b' \<longleftrightarrow> s = s' \<and> to_bytes a @ to_bytes b = to_bytes a' @ to_bytes b'"
  "sf_key s a = sf_key s' a' \<longleftrightarrow> s = s' \<and> to_bytes a = to_bytes a'"
  "to_bytes (s :: 32 word) = to_bytes s' \<longleftrightarrow> s = s'"
  using to_bytes_append_eq [of s "[]" s' "[]"] by (simp_all add: cf_key_def sf_key_def to_bytes_append_eq)

lemma a_updates_commute:
  assumes "k \<noteq> k'"
  shows "a_deleteCF p k (a_deleteCF p' k' db) = a_deleteCF p' k' (a_deleteCF p k db)"
    "a_deleteCF p k (a_insertCF p' k' row db) = a_insertCF p' k' row (a_deleteCF p k db)"
    "a_insertCF p k row (a_insertCF p' k' row' db) = a_insertCF p' k' row' (a_insertCF p k row db)"
    "a_updateSub c k v (a_updateSub c' k' v' db) = a_updateSub c' k' v' (a_updateSub c k v db)"
    "a_updateSF p k v (a_updateSF p' k' v' db) = a_updateSF p' k' v' (a_updateSF p k v db)"
proof -
  show "a_deleteCF p k (a_deleteCF p' k' db) = a_deleteCF p' k' (a_deleteCF p k db)"
    using assms by (cases "p = p'") (simp_all add: a_deleteCF_def fun_upd_twist)
  show "a_deleteCF p k (a_insertCF p' k' row db) = a_insertCF p' k' row (a_deleteCF p k db)"
    using assms by (cases "p = p'") (simp_all add: a_deleteCF_def a_insertCF_def fun_upd_twist)
  show "a_insertCF p k row (a_insertCF p' k' row' db) = a_insertCF p' k' row' (a_insertCF p k row db)"
    using assms by (cases "p = p'") (auto simp: a_insertCF_def fun_upd_twist)
  show "a_updateSub c k v (a_updateSub c' k' v' db) = a_updateSub c' k' v' (a_updateSub c k v db)"
    using assms by (simp add: a_updateSub_def fun_upd_twist split: option.split)
  show "a_updateSF p k v (a_updateSF p' k' v' db) = a_updateSF p' k' v' (a_updateSF p k v db)"
    using assms by (cases "p = p'") (simp_all add: a_updateSF_def fun_upd_twist split: option.split)
qed

lemma a_groups_commute:
  "a_deleteCF p k (a_updateSub c k' v db) = a_updateSub c k' v (a_deleteCF p k db)"
  "a_deleteCF p k (a_updateSF p' k' v db) = a_updateSF p' k' v (a_deleteCF p k db)"
  "a_insertCF p k row (a_updateSub c k' v db) = a_updateSub c k' v (a_insertCF p k row db)"
  "a_insertCF p k row (a_updateSF p' k' v db) = a_updateSF p' k' v (a_insertCF p k row db)"
  "a_updateSub c k v (a_updateSF p' k' v' db) = a_updateSF p' k' v' (a_updateSub c k v db)"
  by (auto simp: a_deleteCF_def a_insertCF_def a_updateSub_def a_updateSF_def split: option.split)

lemma step_effects_commute:
  assumes "step_resource x \<noteq> step_resource y"
  shows "step_effect cfg x (step_effect cfg y db) = step_effect cfg y (step_effect cfg x db)"
  using assms by (cases x; cases y) (simp_all add: a_updates_commute a_groups_commute)

interpretation tatp: commuting_steps "step_effect cfg" step_resource for cfg
proof unfold_locales
  fix x y db
  show "step_resource x = None \<Longrightarrow> step_effect cfg x db = db" by (cases x) simp_all
  show "step_resource x \<noteq> step_resource y \<Longrightarrow>
      step_effect cfg x (step_effect cfg y db) = step_effect cfg y (step_effect cfg x db)"
    by (rule step_effects_commute)
qed

section \<open>Executing steps\<close>

text \<open>What no step changes: the lookup of subscriber numbers and which subscribers there are.\<close>

definition same_subscribers :: "tatp_db \<Rightarrow> tatp_db \<Rightarrow> bool" where
  "same_subscribers db db' \<longleftrightarrow> db_sid db' = db_sid db \<and> dom (db_sub db') = dom (db_sub db)"

lemma same_subscribers_refl [simp]: "same_subscribers db db"
  by (simp add: same_subscribers_def)

lemma same_subscribers_trans:
  "same_subscribers a b \<Longrightarrow> same_subscribers b c \<Longrightarrow> same_subscribers a c"
  by (simp add: same_subscribers_def)

lemma step_same_subscribers: "same_subscribers db (step_effect cfg x db)"
  by (cases x)
    (auto simp: same_subscribers_def a_deleteCF_def a_insertCF_def a_updateSub_def a_updateSF_def
      split: option.split)

lemma steps_same_subscribers: "same_subscribers db (fold (step_effect cfg) xs db)"
  by (induction xs arbitrary: db) (auto intro: same_subscribers_trans step_same_subscribers)

lemma same_subscribers_None:
  assumes "same_subscribers db db'"
  shows "db_sub db' k = None \<longleftrightarrow> db_sub db k = None"
proof -
  have "k \<in> dom (db_sub db') \<longleftrightarrow> k \<in> dom (db_sub db)"
    using assms by (simp add: same_subscribers_def)
  then show ?thesis unfolding domIff by blast
qed

lemma step_ok_same: "same_subscribers db db' \<Longrightarrow> step_ok db' x \<longleftrightarrow> step_ok db x"
  by (cases x) (simp_all add: same_subscribers_None del: not_None_eq)

lemma event_ok_same:
  assumes "same_subscribers db db'"
  shows "event_ok db' e \<longleftrightarrow> event_ok db e"
proof -
  have "db_sid db' = db_sid db" using assms by (simp add: same_subscribers_def)
  then show ?thesis
    by (cases e) (simp_all add: same_subscribers_None [OF assms] del: not_None_eq)
qed

lemma step_refines:
  assumes inv: "tatp_inv T cfg sm" and ok: "step_ok (tatp_abs T sm) x"
  shows "refines T cfg (step_exec T cfg x) (step_effect cfg x) sm"
proof (cases x)
  case (CF_Delete s sf st)
  then show ?thesis using deleteCallForwardingRecord_refines [OF inv] by (simp add: refines_def)
next
  case (CF_Insert s sf st et n)
  then show ?thesis using insertCallForwardingRecord_refines [OF inv] ok by (simp add: refines_def)
next
  case (Sub_Read s)
  then show ?thesis using getSubscriberData_refines [OF inv] by (simp add: refines_def)
next
  case (Sub_Vlr s v)
  then show ?thesis using updateSubscriberVLRLocation_refines [OF inv] ok by (simp add: refines_def)
next
  case (Sub_Bit1 s b)
  then show ?thesis using updateSubscriberBit1_refines [OF inv] by (simp add: refines_def)
next
  case (SF_Read s)
  then show ?thesis using getSpecialFacilitySFType_refines [OF inv] by (simp add: refines_def)
next
  case (SF_DataA s sf a)
  then show ?thesis using updateSpecialFacilityDataA_refines [OF inv] by (simp add: refines_def)
next
  case (AI_Read s ai)
  then show ?thesis using getAccessInfo_refines [OF inv] by (simp add: refines_def)
qed

text \<open>A run from one state of the database to another whose abstraction is the effect of the steps.\<close>

definition runs_to ::
  "('q, 'h, 'm) tbb \<Rightarrow> bench_config \<Rightarrow> ('q, 'h, 'm) storage_manager result \<Rightarrow>
   ('q, 'h, 'm) storage_manager \<Rightarrow> tatp_step list \<Rightarrow> bool" where
  "runs_to T cfg r sm xs \<longleftrightarrow>
     (\<exists>sm'. r = Inr sm' \<and> tatp_inv T cfg sm' \<and>
        tatp_abs T sm' = fold (step_effect cfg) xs (tatp_abs T sm))"

lemma runs_to_refl: "tatp_inv T cfg sm \<Longrightarrow> runs_to T cfg (Inr sm) sm []"
  by (simp add: runs_to_def)

lemma runs_to_step:
  "tatp_inv T cfg sm \<Longrightarrow> step_ok (tatp_abs T sm) x \<Longrightarrow> runs_to T cfg (step_exec T cfg x sm) sm [x]"
  using step_refines [of T cfg sm x] by (simp add: runs_to_def refines_def)

lemma runs_to_bnd:
  assumes "runs_to T cfg r sm xs"
    and "\<And>sm'. tatp_inv T cfg sm' \<Longrightarrow> same_subscribers (tatp_abs T sm) (tatp_abs T sm') \<Longrightarrow>
      runs_to T cfg (f sm') sm' ys"
  shows "runs_to T cfg (bnd r f) sm (xs @ ys)"
proof -
  obtain sm' where sm': "r = Inr sm'" "tatp_inv T cfg sm'"
      "tatp_abs T sm' = fold (step_effect cfg) xs (tatp_abs T sm)"
    using assms(1) by (auto simp: runs_to_def)
  have "same_subscribers (tatp_abs T sm) (tatp_abs T sm')"
    unfolding sm'(3) by (rule steps_same_subscribers)
  then have "runs_to T cfg (f sm') sm' ys" using assms(2) sm'(2) by blast
  then show ?thesis using sm' by (simp add: runs_to_def)
qed

lemma run_steps:
  assumes "tatp_inv T cfg sm" "\<forall>x \<in> set xs. step_ok (tatp_abs T sm) x"
  shows "runs_to T cfg (fold_res (step_exec T cfg) xs sm) sm xs"
  using assms
proof (induction xs arbitrary: sm)
  case Nil
  then show ?case by (simp add: runs_to_refl)
next
  case (Cons x xs)
  have "runs_to T cfg (bnd (step_exec T cfg x sm) (fold_res (step_exec T cfg) xs)) sm ([x] @ xs)"
  proof (rule runs_to_bnd [OF runs_to_step])
    fix sm' assume "tatp_inv T cfg sm'" "same_subscribers (tatp_abs T sm) (tatp_abs T sm')"
    then show "runs_to T cfg (fold_res (step_exec T cfg) xs sm') sm' xs"
      using Cons step_ok_same by auto
  qed (use Cons.prems in auto)
  then show ?case by simp
qed

lemma process_event_steps:
  assumes inv: "tatp_inv T cfg sm" and ok: "event_ok (tatp_abs T sm) e"
  shows "process_event T cfg e sm =
    fold_res (step_exec T cfg) (event_steps (db_sid (tatp_abs T sm)) e) sm"
proof -
  have unit: "bnd r (fold_res (step_exec T cfg) []) = r" for r
    by (cases r) simp_all
  have nil: "fold_res (step_exec T cfg) [] = Inr"
    by (simp add: fun_eq_iff)
  have sf: "fold_res (step_exec T cfg) [SF_DataA s f a] = updateSpecialFacilityDataA T cfg s f a" for s f a
    by (simp add: fun_eq_iff unit)
  have cf: "fold_res (step_exec T cfg) [CF_Insert s f st et n] = insertCallForwardingRecord T cfg s f st et n"
    for s f st et n
    by (simp add: fun_eq_iff unit)
  note sid = getSubscriberId_returns [OF inv]
  show ?thesis
    using ok
    by (cases e)
      (simp_all add: sid processDeleteCallForwarding_def processGetAccessData_def
        processGetNewDestination_def processGetSubscriberData_def processInsertCallForwarding_def
        processUpdateLocation_def processUpdateSubscriberData_def getNewDestination_def nil sf cf unit [unfolded nil])
qed

lemma event_steps_ok:
  "event_ok db e \<Longrightarrow> x \<in> set (event_steps (db_sid db) e) \<Longrightarrow> step_ok db x"
  by (cases e) auto

lemma process_event_refines:
  assumes "tatp_inv T cfg sm" "event_ok (tatp_abs T sm) e"
  shows "runs_to T cfg (process_event T cfg e sm) sm (event_steps (db_sid (tatp_abs T sm)) e)"
  using process_event_steps [OF assms] run_steps [OF assms(1)] event_steps_ok [OF assms(2)] by simp

definition events_steps :: "(bytes \<Rightarrow> 32 word) \<Rightarrow> tatp_event list \<Rightarrow> tatp_step list" where
  "events_steps sid es = concat (map (event_steps sid) es)"

text \<open>The serial processor executes the transactions of the queue up to the end marker, in order.\<close>

lemma serial_refines:
  assumes "tatp_inv T cfg sm" "\<forall>e \<in> set es. event_ok (tatp_abs T sm) e \<and> e \<noteq> END_EXECUTION"
  obtains sm' where "tatp_serial_start T cfg (es @ END_EXECUTION # rest) n sm = Inr (sm', n + length es, rest)"
    "tatp_inv T cfg sm'"
    "tatp_abs T sm' = fold (step_effect cfg) (events_steps (db_sid (tatp_abs T sm)) es) (tatp_abs T sm)"
  using assms
proof (induction es arbitrary: sm n thesis)
  case Nil
  then show ?case by (simp add: events_steps_def)
next
  case (Cons e es)
  obtain sm1 where sm1: "process_event T cfg e sm = Inr sm1" "tatp_inv T cfg sm1"
      "tatp_abs T sm1 = fold (step_effect cfg) (event_steps (db_sid (tatp_abs T sm)) e) (tatp_abs T sm)"
    using process_event_refines [OF Cons.prems(2), of e] Cons.prems(3) by (auto simp: runs_to_def)
  have same: "same_subscribers (tatp_abs T sm) (tatp_abs T sm1)"
    unfolding sm1(3) by (rule steps_same_subscribers)
  then have sid: "db_sid (tatp_abs T sm1) = db_sid (tatp_abs T sm)"
    by (simp add: same_subscribers_def)
  obtain sm2 where sm2: "tatp_serial_start T cfg (es @ END_EXECUTION # rest) (n + 1) sm1 =
        Inr (sm2, n + 1 + length es, rest)" "tatp_inv T cfg sm2"
      "tatp_abs T sm2 = fold (step_effect cfg) (events_steps (db_sid (tatp_abs T sm1)) es) (tatp_abs T sm1)"
  proof -
    have "\<forall>e \<in> set es. event_ok (tatp_abs T sm1) e \<and> e \<noteq> END_EXECUTION"
      using Cons.prems(3) event_ok_same [OF same] by auto
    then show thesis using Cons.IH [OF _ sm1(2), of "n + 1"] that by blast
  qed
  have "tatp_serial_start T cfg ((e # es) @ END_EXECUTION # rest) n sm = Inr (sm2, n + length (e # es), rest)"
    using sm1(1) sm2(1) Cons.prems(3) by simp
  then show ?case
    using Cons.prems(1) sm2(2,3) sm1(3) sid by (simp add: events_steps_def)
qed

lemma serial_waits: "END_EXECUTION \<notin> set es \<Longrightarrow> tatp_serial_start T cfg es n sm \<noteq> Inr r"
  by (induction es arbitrary: n sm) (auto simp: bnd_eq_Inr)

end
