(* ===== verification/TatpSource.thy ===== *)
theory TatpSource
  imports TatpUtil TatpSerial
begin

text \<open>
  benchmark/tatp/ScaleParams.h and TatpSource.h: the mix of the transactions and the source that draws
  them and pushes them into the queue. The queue is \<open>boost::lockfree::spsc_queue\<close>, a bounded FIFO queue:
  the list of its elements with its capacity. The source runs before any processor is started, so a
  push into the full queue spins for ever.
\<close>

section \<open>The mix of transactions\<close>

record scale_params =
  workload_weight :: "64 word list"
  subscriber_size :: "32 word"

definition DEFAULT_NUM_SUBSCRIBERS :: "32 word" where
  "DEFAULT_NUM_SUBSCRIBERS = 1000000"

text \<open>The default constructor. The scale factor is the double 1, with which the product of the default
  number of subscribers is exact.\<close>

definition ScaleParams_new :: scale_params where
  "ScaleParams_new =
     (let w0 = 2; w1 = w0 + 40; w2 = w1 + 0; w3 = w2 + 40; w4 = w3 + 2; w5 = w4 + 14; w6 = w5 + 2 in
      \<lparr>workload_weight = [w0, w1, w2, w3, w4, w5, w6], subscriber_size = DEFAULT_NUM_SUBSCRIBERS\<rparr>)"

text \<open>The constructor with weights; \<open>scaled\<close> is \<open>DEFAULT_NUM_SUBSCRIBERS * scale_factor\<close>, computed as a
  double and converted to \<open>int\<close>.\<close>

fun cumulate :: "64 word \<Rightarrow> 64 word list \<Rightarrow> 64 word list" where
  "cumulate acc [] = []"
| "cumulate acc (w # ws) = (acc + w) # cumulate (acc + w) ws"

definition ScaleParams_weights :: "32 word \<Rightarrow> 64 word list \<Rightarrow> scale_params result" where
  "ScaleParams_weights scaled weight =
     (if length weight < 7 then Inl BadAccess
      else let sums = cumulate 0 (take 7 weight) in
        bnd (assert_that (last sums = 100)) (\<lambda>_.
        Inr \<lparr>workload_weight = sums, subscriber_size = scaled\<rparr>))"

section \<open>Drawing transactions\<close>

abbreviation draw_type :: "'g rng \<Rightarrow> ('g, 8 word) gen" where
  "draw_type R \<equiv> gbnd (generateInteger R 1 4) (\<lambda>x. gret (scast x))"

abbreviation draw_start :: "'g rng \<Rightarrow> ('g, 8 word) gen" where
  "draw_start R \<equiv> gbnd (generateInteger R 0 2) (\<lambda>x. gret (scast (x * 8)))"

abbreviation draw_end :: "'g rng \<Rightarrow> ('g, 8 word) gen" where
  "draw_end R \<equiv> gbnd (generateInteger R 1 24) (\<lambda>x. gret (scast x))"

text \<open>The body of the loop up to the push; \<open>None\<close> when \<open>x\<close> is above all weights.\<close>

definition source_event :: "'g rng \<Rightarrow> scale_params \<Rightarrow> 64 word \<Rightarrow> 32 word \<Rightarrow> ('g, tatp_event option) gen" where
  "source_event R sp x s_id =
     (let w = workload_weight sp in
      if x \<le> w ! 0 then
        gbnd (glift (padWithZero (scast s_id))) (\<lambda>nbr.
        gbnd (draw_type R) (\<lambda>sf.
        gbnd (draw_start R) (\<lambda>st.
        gret (Some (DELETE_CALL_FORWARDING \<lparr>dcf_sub_nbr = nbr, dcf_sf_type = sf, dcf_start_time = st\<rparr>)))))
      else if x \<le> w ! 1 then
        gbnd (draw_type R) (\<lambda>ai.
        gret (Some (GET_ACCESS_DATA \<lparr>gad_s_id = s_id, gad_ai_type = ai\<rparr>)))
      else if x \<le> w ! 2 then
        gbnd (draw_type R) (\<lambda>sf.
        gbnd (draw_start R) (\<lambda>st.
        gbnd (draw_end R) (\<lambda>et.
        gret (Some (GET_NEW_DESTINATION
          \<lparr>gnd_s_id = s_id, gnd_sf_type = sf, gnd_start_time = st, gnd_end_time = et\<rparr>)))))
      else if x \<le> w ! 3 then
        gret (Some (GET_SUBSCRIBER_DATA \<lparr>gsd_s_id = s_id\<rparr>))
      else if x \<le> w ! 4 then
        gbnd (glift (padWithZero (scast s_id))) (\<lambda>nbr.
        gbnd (draw_type R) (\<lambda>sf.
        gbnd (draw_start R) (\<lambda>st.
        gbnd (draw_end R) (\<lambda>et.
        gbnd (glift (padWithZero (scast s_id))) (\<lambda>numberx.
        gret (Some (INSERT_CALL_FORWARDING
          \<lparr>icf_sub_nbr = nbr, icf_sf_type = sf, icf_start_time = st, icf_end_time = et, icf_numberx = numberx\<rparr>)))))))
      else if x \<le> w ! 5 then
        gbnd (generateInteger R 0 2147483647) (\<lambda>vlr.
        gbnd (glift (padWithZero (scast s_id))) (\<lambda>nbr.
        gret (Some (UPDATE_LOCATION \<lparr>ul_vlr_location = vlr, ul_sub_nbr = nbr\<rparr>))))
      else if x \<le> w ! 6 then
        gbnd (generateInteger R 0 1) (\<lambda>b.
        gbnd (generateInteger R 0 255) (\<lambda>a.
        gbnd (draw_type R) (\<lambda>sf.
        gret (Some (UPDATE_SUBSCRIBER_DATA
          \<lparr>usd_s_id = s_id, usd_bit_1 = scast b, usd_data_a = scast a, usd_sf_type = sf\<rparr>)))))
      else gret None)"

definition queue_push :: "nat \<Rightarrow> tatp_event \<Rightarrow> tatp_event list \<Rightarrow> tatp_event list result" where
  "queue_push capacity e q = (if length q < capacity then Inr (q @ [e]) else Inl Diverges)"

definition source_round :: "'g rng \<Rightarrow> scale_params \<Rightarrow> nat \<Rightarrow> tatp_event list \<Rightarrow> ('g, tatp_event list) gen" where
  "source_round R sp capacity q =
     gbnd (generateInteger R 1 100) (\<lambda>x.
     gbnd (TatpUtil_getSubscriberId R (scast (subscriber_size sp))) (\<lambda>l.
     gbnd (source_event R sp (scast x) (scast l)) (\<lambda>e.
     case e of None \<Rightarrow> gret q | Some e \<Rightarrow> glift (queue_push capacity e q))))"

definition startExecution ::
  "'g rng \<Rightarrow> scale_params \<Rightarrow> nat \<Rightarrow> nat \<Rightarrow> tatp_event list \<Rightarrow> ('g, tatp_event list) gen" where
  "startExecution R sp capacity num_transactions = gfold (\<lambda>_. source_round R sp capacity) [0..<num_transactions]"

definition TatpSource_start ::
  "'g rng \<Rightarrow> scale_params \<Rightarrow> nat \<Rightarrow> nat \<Rightarrow> tatp_event list \<Rightarrow> ('g, tatp_event list) gen" where
  "TatpSource_start R sp capacity num_transactions q =
     gbnd (startExecution R sp capacity num_transactions q) (\<lambda>q. glift (queue_push capacity END_EXECUTION q))"

section \<open>What the source draws\<close>

text \<open>The transactions are about the subscribers of \<open>S\<close>, by identifier or by number.\<close>

fun about :: "32 word set \<Rightarrow> tatp_event \<Rightarrow> bool" where
  "about S (DELETE_CALL_FORWARDING p) \<longleftrightarrow> dcf_sub_nbr p \<in> sub_nbr_of ` S"
| "about S (GET_ACCESS_DATA p) \<longleftrightarrow> gad_s_id p \<in> S"
| "about S (GET_NEW_DESTINATION p) \<longleftrightarrow> gnd_s_id p \<in> S"
| "about S (GET_SUBSCRIBER_DATA p) \<longleftrightarrow> gsd_s_id p \<in> S"
| "about S (INSERT_CALL_FORWARDING p) \<longleftrightarrow> icf_sub_nbr p \<in> sub_nbr_of ` S \<and> icf_numberx p = icf_sub_nbr p"
| "about S (UPDATE_LOCATION p) \<longleftrightarrow> ul_sub_nbr p \<in> sub_nbr_of ` S"
| "about S (UPDATE_SUBSCRIBER_DATA p) \<longleftrightarrow> usd_s_id p \<in> S"
| "about S END_EXECUTION \<longleftrightarrow> False"

lemma draw_any:
  assumes "rng_laws R" "sint mn \<le> sint mx"
  shows "gen_returns (gbnd (generateInteger R mn mx) (\<lambda>x. gret (f x))) (\<lambda>_. True)"
  by (rule gbnd_returns [OF generateInteger_any [OF assms]], rule gret_returns, simp)

lemma pad_returns:
  assumes "0 \<le> sint s_id"
  shows "gen_returns (glift (padWithZero (scast s_id))) (\<lambda>nbr. nbr = sub_nbr_of s_id)"
  by (rule glift_returns [OF padWithZero_int(1) [OF assms]]) simp

lemma gen_if:
  "(b \<Longrightarrow> gen_returns m P) \<Longrightarrow> (\<not> b \<Longrightarrow> gen_returns m' P) \<Longrightarrow> gen_returns (if b then m else m') P"
  by simp

lemma sint_scast_64: "sint (scast (w :: 32 word) :: 64 word) = sint w"
  using sint_range_size [of w] by (simp add: signed_scast_eq word_size signed_take_bit_int_eq_self)

lemma sint_scast_32:
  fixes w :: "64 word" and n :: "32 word"
  assumes "0 \<le> sint w" "sint w \<le> sint n"
  shows "sint (scast w :: 32 word) = sint w"
proof -
  have "sint w < 2 ^ 31" using sint_range_size [of n] assms(2) by (simp add: word_size)
  then show ?thesis using assms(1) by (simp add: signed_scast_eq signed_take_bit_int_eq_self)
qed

lemma unat_sint_nonneg: "0 \<le> sint w \<Longrightarrow> unat w = nat (sint (w :: 64 word))"
proof -
  assume "0 \<le> sint w"
  moreover have "sint w < 2 ^ 63" using sint_range_size [of w] by (simp add: word_size)
  ultimately have "take_bit 64 (sint w) = sint w" by (intro take_bit_int_eq_self) simp_all
  then have "uint w = sint w" by (simp add: uint_sint)
  then show ?thesis by (metis nat_uint_eq)
qed

lemma source_event_returns:
  assumes R: "rng_laws R" and x: "x \<le> workload_weight sp ! 6" and s: "0 \<le> sint s_id"
  shows "gen_returns (source_event R sp x s_id) (\<lambda>e. \<exists>e'. e = Some e' \<and> about {s_id} e')"
proof -
  note pad = gbnd_returns [OF pad_returns [OF s]] and any = gbnd_returns [OF draw_any [OF R]]
    and int = gbnd_returns [OF generateInteger_any [OF R]]
  show ?thesis
    unfolding source_event_def Let_def
  proof (intro gen_if)
    show "gen_returns (gbnd (glift (padWithZero (scast s_id))) (\<lambda>nbr. gbnd (draw_type R) (\<lambda>sf. gbnd (draw_start R) (\<lambda>st.
        gret (Some (DELETE_CALL_FORWARDING \<lparr>dcf_sub_nbr = nbr, dcf_sf_type = sf, dcf_start_time = st\<rparr>))))))
      (\<lambda>e. \<exists>e'. e = Some e' \<and> about {s_id} e')"
      by (rule pad, rule any, simp, rule any, simp, rule gret_returns, simp)
    show "gen_returns (gbnd (draw_type R) (\<lambda>ai. gret (Some (GET_ACCESS_DATA \<lparr>gad_s_id = s_id, gad_ai_type = ai\<rparr>))))
      (\<lambda>e. \<exists>e'. e = Some e' \<and> about {s_id} e')"
      by (rule any, simp, rule gret_returns, simp)
    show "gen_returns (gbnd (draw_type R) (\<lambda>sf. gbnd (draw_start R) (\<lambda>st. gbnd (draw_end R) (\<lambda>et.
        gret (Some (GET_NEW_DESTINATION \<lparr>gnd_s_id = s_id, gnd_sf_type = sf, gnd_start_time = st, gnd_end_time = et\<rparr>))))))
      (\<lambda>e. \<exists>e'. e = Some e' \<and> about {s_id} e')"
      by (rule any, simp, rule any, simp, rule any, simp, rule gret_returns, simp)
    show "gen_returns (gret (Some (GET_SUBSCRIBER_DATA \<lparr>gsd_s_id = s_id\<rparr>))) (\<lambda>e. \<exists>e'. e = Some e' \<and> about {s_id} e')"
      by (rule gret_returns) simp
    show "gen_returns (gbnd (glift (padWithZero (scast s_id))) (\<lambda>nbr. gbnd (draw_type R) (\<lambda>sf. gbnd (draw_start R) (\<lambda>st.
        gbnd (draw_end R) (\<lambda>et. gbnd (glift (padWithZero (scast s_id))) (\<lambda>numberx.
        gret (Some (INSERT_CALL_FORWARDING \<lparr>icf_sub_nbr = nbr, icf_sf_type = sf, icf_start_time = st, icf_end_time = et,
          icf_numberx = numberx\<rparr>))))))))
      (\<lambda>e. \<exists>e'. e = Some e' \<and> about {s_id} e')"
      by (rule pad, rule any, simp, rule any, simp, rule any, simp, rule pad, rule gret_returns, simp)
    show "gen_returns (gbnd (generateInteger R 0 2147483647) (\<lambda>vlr. gbnd (glift (padWithZero (scast s_id))) (\<lambda>nbr.
        gret (Some (UPDATE_LOCATION \<lparr>ul_vlr_location = vlr, ul_sub_nbr = nbr\<rparr>)))))
      (\<lambda>e. \<exists>e'. e = Some e' \<and> about {s_id} e')"
      by (rule int, simp, rule pad, rule gret_returns, simp)
    show "gen_returns (gbnd (generateInteger R 0 1) (\<lambda>b. gbnd (generateInteger R 0 255) (\<lambda>a. gbnd (draw_type R) (\<lambda>sf.
        gret (Some (UPDATE_SUBSCRIBER_DATA \<lparr>usd_s_id = s_id, usd_bit_1 = scast b, usd_data_a = scast a, usd_sf_type = sf\<rparr>))))))
      (\<lambda>e. \<exists>e'. e = Some e' \<and> about {s_id} e')"
      by (rule int, simp, rule int, simp, rule any, simp, rule gret_returns, simp)
  qed (use x in blast)
qed

text \<open>Every round pushes one transaction, when the last cumulated weight is one hundred.\<close>

lemma about_mono: "about S e \<Longrightarrow> S \<subseteq> S' \<Longrightarrow> about S' e"
  by (cases e) auto

lemma source_round_returns:
  assumes R: "rng_laws R" and w: "100 \<le> workload_weight sp ! 6" and n: "1 \<le> sint (subscriber_size sp)"
    and cap: "length q < capacity"
  shows "gen_returns (source_round R sp capacity q) (\<lambda>q'. \<exists>e. q' = q @ [e] \<and> about {s. 1 \<le> sint s \<and> sint s \<le> sint (subscriber_size sp)} e)"
  unfolding source_round_def TatpUtil_getSubscriberId_def
proof (rule gbnd_returns [OF generateInteger_returns [OF R]])
  fix x :: "32 word" assume x: "sint (1 :: 32 word) \<le> sint x \<and> sint x \<le> sint (100 :: 32 word)"
  let ?n = "subscriber_size sp"
  have n64: "sint (scast ?n :: 64 word) = sint ?n" by (rule sint_scast_64)
  have "unat (scast x :: 64 word) \<le> 100"
    using x sint_scast_64 [of x] by (simp add: unat_sint_nonneg nat_le_iff)
  then have "(scast x :: 64 word) \<le> 100" by (simp add: word_le_nat_alt)
  then have x6: "(scast x :: 64 word) \<le> workload_weight sp ! 6" using w by (rule order_trans)
  show "gen_returns (gbnd (generateLong R 1 (scast ?n)) (\<lambda>l. gbnd (source_event R sp (scast x) (scast l)) (\<lambda>e.
      case e of None \<Rightarrow> gret q | Some e \<Rightarrow> glift (queue_push capacity e q))))
    (\<lambda>q'. \<exists>e. q' = q @ [e] \<and> about {s. 1 \<le> sint s \<and> sint s \<le> sint ?n} e)"
  proof (rule gbnd_returns [OF generateLong_returns [OF R]])
    fix l :: "64 word" assume l: "sint (1 :: 64 word) \<le> sint l \<and> sint l \<le> sint (scast ?n :: 64 word)"
    have s: "sint (scast l :: 32 word) = sint l"
      using l n64 by (intro sint_scast_32 [where n = ?n]) simp_all
    have "0 \<le> sint (scast l :: 32 word)" using l s by simp
    then show "gen_returns (gbnd (source_event R sp (scast x) (scast l)) (\<lambda>e.
        case e of None \<Rightarrow> gret q | Some e \<Rightarrow> glift (queue_push capacity e q)))
      (\<lambda>q'. \<exists>e. q' = q @ [e] \<and> about {s. 1 \<le> sint s \<and> sint s \<le> sint ?n} e)"
    proof (rule gbnd_returns [OF source_event_returns [OF R x6]])
      fix e assume "\<exists>e'. e = Some e' \<and> about {scast l} e'"
      then obtain e' where e: "e = Some e'" "about {scast l} e'" by blast
      have "about {s. 1 \<le> sint s \<and> sint s \<le> sint ?n} e'"
        using l s n64 by (intro about_mono [OF e(2)]) simp
      then show "gen_returns (case e of None \<Rightarrow> gret q | Some e \<Rightarrow> glift (queue_push capacity e q))
        (\<lambda>q'. \<exists>e. q' = q @ [e] \<and> about {s. 1 \<le> sint s \<and> sint s \<le> sint ?n} e)"
        unfolding e(1) option.case using cap by (intro glift_returns [of _ "q @ [e']"]) (auto simp: queue_push_def)
    qed
  qed (use n n64 in simp)
qed simp

text \<open>The source returns when the queue can hold all transactions and the end marker.\<close>

lemma TatpSource_start_returns:
  assumes R: "rng_laws R" and w: "100 \<le> workload_weight sp ! 6" and n: "1 \<le> sint (subscriber_size sp)"
    and cap: "num_transactions < capacity"
  shows "gen_returns (TatpSource_start R sp capacity num_transactions []) (\<lambda>q.
    \<exists>es. q = es @ [END_EXECUTION] \<and> length es = num_transactions \<and>
      (\<forall>e \<in> set es. about {s. 1 \<le> sint s \<and> sint s \<le> sint (subscriber_size sp)} e))"
proof -
  let ?S = "{s. 1 \<le> sint s \<and> sint s \<le> sint (subscriber_size sp)}"
  have "gen_returns (startExecution R sp capacity num_transactions [])
      (\<lambda>q. length q = num_transactions \<and> (\<forall>e \<in> set q. about ?S e))"
    unfolding startExecution_def
  proof (rule gfold_upt_invariant [where I = "\<lambda>k q. length q = k \<and> (\<forall>e \<in> set q. about ?S e)"])
    fix k q assume k: "k < num_transactions" and q: "length q = k \<and> (\<forall>e \<in> set q. about ?S e)"
    have "length q < capacity" using k q cap by simp
    then show "gen_returns (source_round R sp capacity q) (\<lambda>q. length q = Suc k \<and> (\<forall>e \<in> set q. about ?S e))"
      using q by (intro gen_weaken [OF source_round_returns [OF R w n]]) auto
  qed simp
  then show ?thesis
    unfolding TatpSource_start_def
  proof (rule gbnd_returns)
    fix q assume q: "length q = num_transactions \<and> (\<forall>e \<in> set q. about ?S e)"
    then have "queue_push capacity END_EXECUTION q = Inr (q @ [END_EXECUTION])"
      using cap by (simp add: queue_push_def)
    then show "gen_returns (glift (queue_push capacity END_EXECUTION q)) (\<lambda>q'.
        \<exists>es. q' = es @ [END_EXECUTION] \<and> length es = num_transactions \<and> (\<forall>e \<in> set es. about ?S e))"
      using q by (intro glift_returns) auto
  qed
qed

end
