(* ===== verification/TatpBatch.thy ===== *)
theory TatpBatch
  imports TatpSerial
begin

unbundle bit_operations_syntax

text \<open>
  benchmark/tatp/TatpBatchProcessor.h and TatpBatchProcessor.cc (TatpTPBatchProcessor.cc is the same
  code with a thread pool in place of \<open>std::thread\<close>): transactions are collected in a batch, their
  sub-transactions are distributed to buckets by a hash of the subscriber number, and one thread per
  bucket executes them. A thread is the list of its steps, a step is one loop iteration of the
  thread's lambda; the threads that run at the same time are scheduled in any interleaving. That an
  iteration is one step is an assumption: the storage engine does not lock a table against a delete
  (\<open>delete_insert_race\<close>), so two threads that delete from and insert into one table can lose records
  in ways these schedules do not show. \<open>TatpBatchTables\<close> says when no two threads change the same table
  with deletes; the properties of the processor carry that condition. The theorems here say that every
  schedule of whole iterations leaves the database the serial processor leaves.
\<close>

section \<open>The batch\<close>

record tatp_batch =
  dcf_params :: "dcf_param list"
  gad_params :: "gad_param list"
  gnd_params :: "gnd_param list"
  gsd_params :: "gsd_param list"
  icf_params :: "icf_param list"
  ul_params :: "ul_param list"
  usd_params :: "usd_param list"
  batch_params :: "tatp_event list"

definition clearBatch :: "tatp_batch \<Rightarrow> tatp_batch" where
  "clearBatch b =
     \<lparr>dcf_params = [], gad_params = [], gnd_params = [], gsd_params = [], icf_params = [],
      ul_params = [], usd_params = [], batch_params = []\<rparr>"

definition empty_batch :: tatp_batch where
  "empty_batch =
     \<lparr>dcf_params = [], gad_params = [], gnd_params = [], gsd_params = [], icf_params = [],
      ul_params = [], usd_params = [], batch_params = []\<rparr>"

fun dispatch_event :: "tatp_event \<Rightarrow> tatp_batch \<Rightarrow> tatp_batch" where
  "dispatch_event (DELETE_CALL_FORWARDING p) b = b\<lparr>dcf_params := dcf_params b @ [p]\<rparr>"
| "dispatch_event (GET_ACCESS_DATA p) b = b\<lparr>gad_params := gad_params b @ [p]\<rparr>"
| "dispatch_event (GET_NEW_DESTINATION p) b = b\<lparr>gnd_params := gnd_params b @ [p]\<rparr>"
| "dispatch_event (GET_SUBSCRIBER_DATA p) b = b\<lparr>gsd_params := gsd_params b @ [p]\<rparr>"
| "dispatch_event (INSERT_CALL_FORWARDING p) b = b\<lparr>icf_params := icf_params b @ [p]\<rparr>"
| "dispatch_event (UPDATE_LOCATION p) b = b\<lparr>ul_params := ul_params b @ [p]\<rparr>"
| "dispatch_event (UPDATE_SUBSCRIBER_DATA p) b = b\<lparr>usd_params := usd_params b @ [p]\<rparr>"
| "dispatch_event END_EXECUTION b = b"

definition add_event :: "tatp_event \<Rightarrow> tatp_batch \<Rightarrow> tatp_batch" where
  "add_event e b = dispatch_event e (b\<lparr>batch_params := batch_params b @ [e]\<rparr>)"

text \<open>The inner loop of \<open>start\<close>: each element of the queue comes with the answer of the batch timer
  after it (\<open>True\<close>: the batch time is over). The result is the batch, whether the end marker was met,
  the number of transactions and the rest of the queue.\<close>

fun collect_batch ::
  "(tatp_event \<times> bool) list \<Rightarrow> tatp_batch \<Rightarrow> nat \<Rightarrow> (tatp_batch \<times> bool \<times> nat \<times> (tatp_event \<times> bool) list) result" where
  "collect_batch [] b cnt = Inl Diverges"
| "collect_batch ((e, timeout) # queue) b cnt =
     (if e = END_EXECUTION then Inr (add_event e b, True, cnt, queue)
      else if timeout then Inr (add_event e b, False, cnt + 1, queue)
      else collect_batch queue (add_event e b) (cnt + 1))"

section \<open>Buckets\<close>

definition hash_int :: "32 word \<Rightarrow> 32 word" where
  "hash_int a0 =
     (let a = (a0 + 0x7ed55d16) + push_bit 12 a0;
          a = (a XOR 0xc761c23c) XOR drop_bit 19 a;
          a = (a + 0x165667b1) + push_bit 5 a;
          a = (a + 0xd3a2646c) XOR push_bit 9 a;
          a = (a + 0xfd7046c5) + push_bit 3 a;
          a = (a XOR 0xb55a4f09) XOR drop_bit 16 a
      in a)"

definition bucket_of :: "bench_config \<Rightarrow> 32 word \<Rightarrow> nat" where
  "bucket_of cfg s = unat (hash_int s) mod kParallelism cfg"

type_synonym bucket = "(nat \<times> nat) list"

record tatp_buckets =
  dcf_icf_bkt :: "bucket list"
  icf_usd_bkt :: "bucket list"
  gsd_ul_usd_bkt :: "bucket list"
  dcf_pos :: nat
  gsd_pos :: nat
  icf_pos :: nat
  ul_pos :: nat
  usd_pos :: nat

definition empty_buckets :: "bench_config \<Rightarrow> tatp_buckets" where
  "empty_buckets cfg =
     \<lparr>dcf_icf_bkt = replicate (kParallelism cfg) [], icf_usd_bkt = replicate (kParallelism cfg) [],
      gsd_ul_usd_bkt = replicate (kParallelism cfg) [],
      dcf_pos = 0, gsd_pos = 0, icf_pos = 0, ul_pos = 0, usd_pos = 0\<rparr>"

text \<open>\<open>bkt[hash_int(s) % kParallelism].emplace_back(e)\<close>.\<close>

definition emplace :: "bench_config \<Rightarrow> 32 word \<Rightarrow> nat \<times> nat \<Rightarrow> bucket list \<Rightarrow> bucket list result" where
  "emplace cfg s e bkt =
     (if kParallelism cfg = 0 then Inl DivisionByZero
      else Inr (bkt[bucket_of cfg s := bkt ! bucket_of cfg s @ [e]]))"

record ('q, 'h, 'm) batch_state =
  bs_sm :: "('q, 'h, 'm) storage_manager"
  dcf_s_ids :: "32 word list"
  icf_s_ids :: "32 word list"
  ul_s_ids :: "32 word list"

fun fill_bucket ::
  "bench_config \<Rightarrow> ('q, 'h, 'm) batch_state \<Rightarrow> tatp_event \<Rightarrow> tatp_buckets \<Rightarrow> tatp_buckets result" where
  "fill_bucket cfg bs (DELETE_CALL_FORWARDING p) bk =
     bnd (vec_at (dcf_s_ids bs) (dcf_pos bk)) (\<lambda>s.
     bnd (emplace cfg s (0, dcf_pos bk) (dcf_icf_bkt bk)) (\<lambda>b.
     Inr (bk\<lparr>dcf_icf_bkt := b, dcf_pos := dcf_pos bk + 1\<rparr>)))"
| "fill_bucket cfg bs (GET_SUBSCRIBER_DATA p) bk =
     bnd (emplace cfg (gsd_s_id p) (0, gsd_pos bk) (gsd_ul_usd_bkt bk)) (\<lambda>b.
     Inr (bk\<lparr>gsd_ul_usd_bkt := b, gsd_pos := gsd_pos bk + 1\<rparr>))"
| "fill_bucket cfg bs (INSERT_CALL_FORWARDING p) bk =
     bnd (vec_at (icf_s_ids bs) (icf_pos bk)) (\<lambda>s.
     bnd (emplace cfg s (1, icf_pos bk) (dcf_icf_bkt bk)) (\<lambda>b1.
     bnd (emplace cfg s (0, icf_pos bk) (icf_usd_bkt bk)) (\<lambda>b2.
     Inr (bk\<lparr>dcf_icf_bkt := b1, icf_usd_bkt := b2, icf_pos := icf_pos bk + 1\<rparr>))))"
| "fill_bucket cfg bs (UPDATE_LOCATION p) bk =
     bnd (vec_at (ul_s_ids bs) (ul_pos bk)) (\<lambda>s.
     bnd (emplace cfg s (1, ul_pos bk) (gsd_ul_usd_bkt bk)) (\<lambda>b.
     Inr (bk\<lparr>gsd_ul_usd_bkt := b, ul_pos := ul_pos bk + 1\<rparr>)))"
| "fill_bucket cfg bs (UPDATE_SUBSCRIBER_DATA p) bk =
     bnd (emplace cfg (usd_s_id p) (2, usd_pos bk) (gsd_ul_usd_bkt bk)) (\<lambda>b1.
     bnd (emplace cfg (usd_s_id p) (1, usd_pos bk) (icf_usd_bkt bk)) (\<lambda>b2.
     Inr (bk\<lparr>gsd_ul_usd_bkt := b1, icf_usd_bkt := b2, usd_pos := usd_pos bk + 1\<rparr>)))"
| "fill_bucket cfg bs e bk = Inr bk"

section \<open>Threads\<close>

text \<open>One iteration of the loop of a thread; the pairs are the entries of a bucket.\<close>

datatype batch_step =
  Dcf_sid nat
| Icf_sid nat
| Ul_sid nat
| Gad nat
| Dcf_icf "nat \<times> nat"
| Gsd_ul_usd "nat \<times> nat"
| Icf_usd "nat \<times> nat"

definition on_sm ::
  "(('q, 'h, 'm) storage_manager \<Rightarrow> ('q, 'h, 'm) storage_manager result) \<Rightarrow>
   ('q, 'h, 'm) batch_state \<Rightarrow> ('q, 'h, 'm) batch_state result" where
  "on_sm f bs = bnd (f (bs_sm bs)) (\<lambda>sm. Inr (bs\<lparr>bs_sm := sm\<rparr>))"

fun batch_exec ::
  "('q, 'h, 'm) tbb \<Rightarrow> bench_config \<Rightarrow> tatp_batch \<Rightarrow> batch_step \<Rightarrow>
   ('q, 'h, 'm) batch_state \<Rightarrow> ('q, 'h, 'm) batch_state result" where
  "batch_exec T cfg b (Dcf_sid i) bs =
     bnd (vec_at (dcf_params b) i) (\<lambda>p.
     bnd (getSubscriberId T (dcf_sub_nbr p) (bs_sm bs)) (\<lambda>s.
     bnd (vec_at (dcf_s_ids bs) i) (\<lambda>_. Inr (bs\<lparr>dcf_s_ids := (dcf_s_ids bs)[i := s]\<rparr>))))"
| "batch_exec T cfg b (Icf_sid i) bs =
     bnd (vec_at (icf_params b) i) (\<lambda>p.
     bnd (getSubscriberId T (icf_sub_nbr p) (bs_sm bs)) (\<lambda>s.
     bnd (vec_at (icf_s_ids bs) i) (\<lambda>_. Inr (bs\<lparr>icf_s_ids := (icf_s_ids bs)[i := s]\<rparr>))))"
| "batch_exec T cfg b (Ul_sid i) bs =
     bnd (vec_at (ul_params b) i) (\<lambda>p.
     bnd (getSubscriberId T (ul_sub_nbr p) (bs_sm bs)) (\<lambda>s.
     bnd (vec_at (ul_s_ids bs) i) (\<lambda>_. Inr (bs\<lparr>ul_s_ids := (ul_s_ids bs)[i := s]\<rparr>))))"
| "batch_exec T cfg b (Gad i) bs =
     bnd (vec_at (gad_params b) i) (\<lambda>p. on_sm (getAccessInfo T cfg (gad_s_id p) (gad_ai_type p)) bs)"
| "batch_exec T cfg b (Dcf_icf (kind, i)) bs =
     (if kind = 0
      then bnd (vec_at (dcf_params b) i) (\<lambda>p. bnd (vec_at (dcf_s_ids bs) i) (\<lambda>s.
        on_sm (deleteCallForwardingRecord T cfg s (dcf_sf_type p) (dcf_start_time p)) bs))
      else bnd (vec_at (icf_params b) i) (\<lambda>p. bnd (vec_at (icf_s_ids bs) i) (\<lambda>s.
        on_sm (insertCallForwardingRecord T cfg s (icf_sf_type p) (icf_start_time p) (icf_end_time p)
                 (icf_numberx p)) bs)))"
| "batch_exec T cfg b (Gsd_ul_usd (kind, i)) bs =
     (if kind = 0
      then bnd (vec_at (gsd_params b) i) (\<lambda>p. on_sm (getSubscriberData T (gsd_s_id p)) bs)
      else if kind = 1
      then bnd (vec_at (ul_params b) i) (\<lambda>p. bnd (vec_at (ul_s_ids bs) i) (\<lambda>s.
        on_sm (updateSubscriberVLRLocation T s (ul_vlr_location p)) bs))
      else bnd (vec_at (usd_params b) i) (\<lambda>p. on_sm (updateSubscriberBit1 T (usd_s_id p) (usd_bit_1 p)) bs))"
| "batch_exec T cfg b (Icf_usd (kind, i)) bs =
     (if kind = 0
      then bnd (vec_at (icf_s_ids bs) i) (\<lambda>s. on_sm (getSpecialFacilitySFType T cfg s) bs)
      else bnd (vec_at (usd_params b) i) (\<lambda>p.
        on_sm (updateSpecialFacilityDataA T cfg (usd_s_id p) (usd_sf_type p) (usd_data_a p)) bs))"

text \<open>\<open>for (i = t; i < n; i += k)\<close>.\<close>

function strided :: "nat \<Rightarrow> nat \<Rightarrow> nat \<Rightarrow> nat list" where
  "strided k n t = (if t < n \<and> 0 < k then t # strided k n (t + k) else [])"
  by pat_completeness auto
termination
  by (relation "measure (\<lambda>(k, n, t). n - t)") auto

declare strided.simps [simp del]

definition loop_threads :: "bench_config \<Rightarrow> (nat \<Rightarrow> 'a) \<Rightarrow> nat \<Rightarrow> 'a list list" where
  "loop_threads cfg f n = map (\<lambda>t. map f (strided (kParallelism cfg) n t)) [0..<kParallelism cfg]"

definition sid_threads :: "bench_config \<Rightarrow> tatp_batch \<Rightarrow> batch_step list list" where
  "sid_threads cfg b =
     loop_threads cfg Dcf_sid (length (dcf_params b)) @
     loop_threads cfg Icf_sid (length (icf_params b)) @
     loop_threads cfg Ul_sid (length (ul_params b))"

definition gad_threads :: "bench_config \<Rightarrow> tatp_batch \<Rightarrow> batch_step list list" where
  "gad_threads cfg b = loop_threads cfg Gad (length (gad_params b))"

definition bucket_threads :: "tatp_buckets \<Rightarrow> batch_step list list" where
  "bucket_threads bk =
     map (map Dcf_icf) (dcf_icf_bkt bk) @ map (map Gsd_ul_usd) (gsd_ul_usd_bkt bk) @
     map (map Icf_usd) (icf_usd_bkt bk)"

definition init_state :: "tatp_batch \<Rightarrow> ('q, 'h, 'm) storage_manager \<Rightarrow> ('q, 'h, 'm) batch_state" where
  "init_state b sm =
     \<lparr>bs_sm = sm, dcf_s_ids = replicate (length (dcf_params b)) 0,
      icf_s_ids = replicate (length (icf_params b)) 0, ul_s_ids = replicate (length (ul_params b)) 0\<rparr>"

text \<open>
  \<open>processBatch\<close>. The threads that look the subscribers up are joined before the buckets are filled;
  the \<open>GET_ACCESS_DATA\<close> threads are joined only at the end, so a part of each (\<open>g1\<close>) runs with the
  first group of threads and the rest (\<open>g2\<close>) with the second.
\<close>

inductive tatp_processBatch ::
  "('q, 'h, 'm) tbb \<Rightarrow> bench_config \<Rightarrow> tatp_batch \<Rightarrow> ('q, 'h, 'm) storage_manager \<Rightarrow>
   ('q, 'h, 'm) storage_manager result \<Rightarrow> bool" for T cfg b sm where
  pb_lookup_error:
    "gad_threads cfg b = map2 (@) g1 g2 \<Longrightarrow> length g1 = length g2 \<Longrightarrow>
     interleaving (sid_threads cfg b @ g1) xs \<Longrightarrow>
     fold_res (batch_exec T cfg b) xs (init_state b sm) = Inl e \<Longrightarrow>
     tatp_processBatch T cfg b sm (Inl e)"
| pb_bucket_error:
    "gad_threads cfg b = map2 (@) g1 g2 \<Longrightarrow> length g1 = length g2 \<Longrightarrow>
     interleaving (sid_threads cfg b @ g1) xs \<Longrightarrow>
     fold_res (batch_exec T cfg b) xs (init_state b sm) = Inr bs \<Longrightarrow>
     fold_res (fill_bucket cfg bs) (batch_params b) (empty_buckets cfg) = Inl e \<Longrightarrow>
     tatp_processBatch T cfg b sm (Inl e)"
| pb_execute:
    "gad_threads cfg b = map2 (@) g1 g2 \<Longrightarrow> length g1 = length g2 \<Longrightarrow>
     interleaving (sid_threads cfg b @ g1) xs \<Longrightarrow>
     fold_res (batch_exec T cfg b) xs (init_state b sm) = Inr bs \<Longrightarrow>
     fold_res (fill_bucket cfg bs) (batch_params b) (empty_buckets cfg) = Inr bk \<Longrightarrow>
     interleaving (bucket_threads bk @ g2) ys \<Longrightarrow>
     tatp_processBatch T cfg b sm (bnd (fold_res (batch_exec T cfg b) ys bs) (\<lambda>bs. Inr (bs_sm bs)))"

text \<open>\<open>start\<close>: batch after batch until the end marker.\<close>

inductive tatp_batch_start ::
  "('q, 'h, 'm) tbb \<Rightarrow> bench_config \<Rightarrow> (tatp_event \<times> bool) list \<Rightarrow> nat \<Rightarrow> ('q, 'h, 'm) storage_manager \<Rightarrow>
   (('q, 'h, 'm) storage_manager \<times> nat \<times> (tatp_event \<times> bool) list) result \<Rightarrow> bool" for T cfg where
  bt_wait:
    "collect_batch queue empty_batch 0 = Inl e \<Longrightarrow> tatp_batch_start T cfg queue n sm (Inl e)"
| bt_error:
    "collect_batch queue empty_batch 0 = Inr (b, stop, cnt, rest) \<Longrightarrow>
     tatp_processBatch T cfg b sm (Inl e) \<Longrightarrow> tatp_batch_start T cfg queue n sm (Inl e)"
| bt_stop:
    "collect_batch queue empty_batch 0 = Inr (b, True, cnt, rest) \<Longrightarrow>
     tatp_processBatch T cfg b sm (Inr sm') \<Longrightarrow>
     tatp_batch_start T cfg queue n sm (Inr (sm', n + cnt, rest))"
| bt_next:
    "collect_batch queue empty_batch 0 = Inr (b, False, cnt, rest) \<Longrightarrow>
     tatp_processBatch T cfg b sm (Inr sm') \<Longrightarrow>
     tatp_batch_start T cfg rest (n + cnt) sm' r \<Longrightarrow> tatp_batch_start T cfg queue n sm r"

section \<open>The parameters of a batch\<close>

definition dcfs :: "tatp_event list \<Rightarrow> dcf_param list" where
  "dcfs es = concat (map (\<lambda>e. case e of DELETE_CALL_FORWARDING p \<Rightarrow> [p] | _ \<Rightarrow> []) es)"

definition gads :: "tatp_event list \<Rightarrow> gad_param list" where
  "gads es = concat (map (\<lambda>e. case e of GET_ACCESS_DATA p \<Rightarrow> [p] | _ \<Rightarrow> []) es)"

definition gsds :: "tatp_event list \<Rightarrow> gsd_param list" where
  "gsds es = concat (map (\<lambda>e. case e of GET_SUBSCRIBER_DATA p \<Rightarrow> [p] | _ \<Rightarrow> []) es)"

definition icfs :: "tatp_event list \<Rightarrow> icf_param list" where
  "icfs es = concat (map (\<lambda>e. case e of INSERT_CALL_FORWARDING p \<Rightarrow> [p] | _ \<Rightarrow> []) es)"

definition uls :: "tatp_event list \<Rightarrow> ul_param list" where
  "uls es = concat (map (\<lambda>e. case e of UPDATE_LOCATION p \<Rightarrow> [p] | _ \<Rightarrow> []) es)"

definition usds :: "tatp_event list \<Rightarrow> usd_param list" where
  "usds es = concat (map (\<lambda>e. case e of UPDATE_SUBSCRIBER_DATA p \<Rightarrow> [p] | _ \<Rightarrow> []) es)"

lemmas event_lists = dcfs_def gads_def gsds_def icfs_def uls_def usds_def

definition batch_of :: "tatp_event list \<Rightarrow> tatp_batch" where
  "batch_of es = fold add_event es empty_batch"

lemma fold_add_event:
  "dcf_params (fold add_event es b) = dcf_params b @ dcfs es"
  "gad_params (fold add_event es b) = gad_params b @ gads es"
  "gsd_params (fold add_event es b) = gsd_params b @ gsds es"
  "icf_params (fold add_event es b) = icf_params b @ icfs es"
  "ul_params (fold add_event es b) = ul_params b @ uls es"
  "usd_params (fold add_event es b) = usd_params b @ usds es"
  "batch_params (fold add_event es b) = batch_params b @ es"
proof (induction es arbitrary: b)
  case Nil
  show "dcf_params (fold add_event [] b) = dcf_params b @ dcfs []"
    "gad_params (fold add_event [] b) = gad_params b @ gads []"
    "gsd_params (fold add_event [] b) = gsd_params b @ gsds []"
    "icf_params (fold add_event [] b) = icf_params b @ icfs []"
    "ul_params (fold add_event [] b) = ul_params b @ uls []"
    "usd_params (fold add_event [] b) = usd_params b @ usds []"
    "batch_params (fold add_event [] b) = batch_params b @ []" for b
    by (simp_all add: event_lists)
next
  case (Cons e es)
  show "dcf_params (fold add_event (e # es) b) = dcf_params b @ dcfs (e # es)"
    "gad_params (fold add_event (e # es) b) = gad_params b @ gads (e # es)"
    "gsd_params (fold add_event (e # es) b) = gsd_params b @ gsds (e # es)"
    "icf_params (fold add_event (e # es) b) = icf_params b @ icfs (e # es)"
    "ul_params (fold add_event (e # es) b) = ul_params b @ uls (e # es)"
    "usd_params (fold add_event (e # es) b) = usd_params b @ usds (e # es)"
    "batch_params (fold add_event (e # es) b) = batch_params b @ e # es" for b
    by (cases e; simp add: Cons.IH event_lists add_event_def)+
qed

lemma batch_of_params [simp]:
  "dcf_params (batch_of es) = dcfs es" "gad_params (batch_of es) = gads es"
  "gsd_params (batch_of es) = gsds es" "icf_params (batch_of es) = icfs es"
  "ul_params (batch_of es) = uls es" "usd_params (batch_of es) = usds es"
  "batch_params (batch_of es) = es"
  by (simp_all add: batch_of_def fold_add_event empty_batch_def)

section \<open>A step of a thread is a sub-transaction\<close>

fun resolve :: "tatp_event list \<Rightarrow> (bytes \<Rightarrow> 32 word) \<Rightarrow> batch_step \<Rightarrow> tatp_step" where
  "resolve es sid (Dcf_icf (kind, i)) =
     (if kind = 0
      then CF_Delete (sid (dcf_sub_nbr (dcfs es ! i))) (dcf_sf_type (dcfs es ! i)) (dcf_start_time (dcfs es ! i))
      else CF_Insert (sid (icf_sub_nbr (icfs es ! i))) (icf_sf_type (icfs es ! i)) (icf_start_time (icfs es ! i))
             (icf_end_time (icfs es ! i)) (icf_numberx (icfs es ! i)))"
| "resolve es sid (Gsd_ul_usd (kind, i)) =
     (if kind = 0 then Sub_Read (gsd_s_id (gsds es ! i))
      else if kind = 1 then Sub_Vlr (sid (ul_sub_nbr (uls es ! i))) (ul_vlr_location (uls es ! i))
      else Sub_Bit1 (usd_s_id (usds es ! i)) (usd_bit_1 (usds es ! i)))"
| "resolve es sid (Icf_usd (kind, i)) =
     (if kind = 0 then SF_Read (sid (icf_sub_nbr (icfs es ! i)))
      else SF_DataA (usd_s_id (usds es ! i)) (usd_sf_type (usds es ! i)) (usd_data_a (usds es ! i)))"
| "resolve es sid (Gad i) = AI_Read (gad_s_id (gads es ! i)) (gad_ai_type (gads es ! i))"
| "resolve es sid x = AI_Read 0 0"

fun in_range :: "tatp_event list \<Rightarrow> batch_step \<Rightarrow> bool" where
  "in_range es (Dcf_icf (kind, i)) \<longleftrightarrow> (if kind = 0 then i < length (dcfs es) else i < length (icfs es))"
| "in_range es (Gsd_ul_usd (kind, i)) \<longleftrightarrow>
     (if kind = 0 then i < length (gsds es) else if kind = 1 then i < length (uls es) else i < length (usds es))"
| "in_range es (Icf_usd (kind, i)) \<longleftrightarrow> (if kind = 0 then i < length (icfs es) else i < length (usds es))"
| "in_range es (Gad i) \<longleftrightarrow> i < length (gads es)"
| "in_range es (Dcf_sid i) \<longleftrightarrow> i < length (dcfs es)"
| "in_range es (Icf_sid i) \<longleftrightarrow> i < length (icfs es)"
| "in_range es (Ul_sid i) \<longleftrightarrow> i < length (uls es)"

fun is_lookup :: "batch_step \<Rightarrow> bool" where
  "is_lookup (Dcf_sid i) = True"
| "is_lookup (Icf_sid i) = True"
| "is_lookup (Ul_sid i) = True"
| "is_lookup x = False"

definition ids_ok :: "tatp_event list \<Rightarrow> (bytes \<Rightarrow> 32 word) \<Rightarrow> ('q, 'h, 'm) batch_state \<Rightarrow> bool" where
  "ids_ok es sid bs \<longleftrightarrow>
     dcf_s_ids bs = map (sid \<circ> dcf_sub_nbr) (dcfs es) \<and>
     icf_s_ids bs = map (sid \<circ> icf_sub_nbr) (icfs es) \<and>
     ul_s_ids bs = map (sid \<circ> ul_sub_nbr) (uls es)"

lemma batch_exec_resolve:
  assumes "ids_ok es sid bs" "in_range es x" "\<not> is_lookup x"
  shows "batch_exec T cfg (batch_of es) x bs = on_sm (step_exec T cfg (resolve es sid x)) bs"
proof (cases x)
  case (Dcf_icf e)
  then show ?thesis using assms by (cases e) (auto simp: res_simps ids_ok_def on_sm_def)
next
  case (Gsd_ul_usd e)
  then show ?thesis using assms by (cases e) (auto simp: res_simps ids_ok_def on_sm_def)
next
  case (Icf_usd e)
  then show ?thesis using assms by (cases e) (auto simp: res_simps ids_ok_def on_sm_def)
qed (use assms in \<open>auto simp: res_simps on_sm_def\<close>)

lemma batch_exec_steps:
  assumes "ids_ok es sid bs" "\<forall>x \<in> set ys. in_range es x \<and> \<not> is_lookup x"
  shows "fold_res (batch_exec T cfg (batch_of es)) ys bs =
    bnd (fold_res (step_exec T cfg) (map (resolve es sid) ys) (bs_sm bs)) (\<lambda>sm. Inr (bs\<lparr>bs_sm := sm\<rparr>))"
  using assms
proof (induction ys arbitrary: bs)
  case Nil
  then show ?case by simp
next
  case (Cons y ys)
  have same: "ids_ok es sid (bs\<lparr>bs_sm := sm\<rparr>)" for sm
    using Cons.prems(1) by (simp add: ids_ok_def)
  have "batch_exec T cfg (batch_of es) y bs = on_sm (step_exec T cfg (resolve es sid y)) bs"
    using batch_exec_resolve Cons.prems by auto
  then show ?case
    using Cons.IH [OF same] Cons.prems(2)
    by (simp add: on_sm_def bnd_assoc)
qed

section \<open>What the buckets hold\<close>

text \<open>The group of tables and the subscriber of a step, also when it only reads.\<close>

fun step_site :: "tatp_step \<Rightarrow> (table_group \<times> 32 word) option" where
  "step_site (Sub_Read s) = Some (Sub_table, s)"
| "step_site (SF_Read s) = Some (SF_tables, s)"
| "step_site x = step_resource x"

definition in_bucket :: "bench_config \<Rightarrow> table_group \<Rightarrow> nat \<Rightarrow> tatp_step \<Rightarrow> bool" where
  "in_bucket cfg g t x \<longleftrightarrow> (case step_site x of None \<Rightarrow> False | Some (g', s) \<Rightarrow> g' = g \<and> bucket_of cfg s = t)"

definition in_group :: "table_group \<Rightarrow> tatp_step \<Rightarrow> bool" where
  "in_group g x \<longleftrightarrow> (case step_site x of None \<Rightarrow> False | Some (g', s) \<Rightarrow> g' = g)"

definition bkt_ok ::
  "bench_config \<Rightarrow> tatp_event list \<Rightarrow> (bytes \<Rightarrow> 32 word) \<Rightarrow> tatp_event list \<Rightarrow>
   (nat \<times> nat \<Rightarrow> batch_step) \<Rightarrow> table_group \<Rightarrow> bucket list \<Rightarrow> bool" where
  "bkt_ok cfg es sid xs f g bkt \<longleftrightarrow>
     length bkt = kParallelism cfg \<and>
     (\<forall>t < kParallelism cfg.
        map (resolve es sid \<circ> f) (bkt ! t) = filter (in_bucket cfg g t) (events_steps sid xs) \<and>
        (\<forall>e \<in> set (bkt ! t). in_range es (f e)))"

lemma bucket_of_less: "0 < kParallelism cfg \<Longrightarrow> bucket_of cfg s < kParallelism cfg"
  by (simp add: bucket_of_def)

lemma events_steps_snoc: "events_steps sid (xs @ [e]) = events_steps sid xs @ event_steps sid e"
  by (simp add: events_steps_def)

lemma in_bucket_group: "in_bucket cfg g t x \<Longrightarrow> in_group g x"
  by (auto simp: in_bucket_def in_group_def split: option.splits)

lemma bkt_ok_skip:
  assumes "bkt_ok cfg es sid xs f g bkt" "filter (in_group g) (event_steps sid e) = []"
  shows "bkt_ok cfg es sid (xs @ [e]) f g bkt"
proof -
  have "filter (in_bucket cfg g t) (event_steps sid e) = []" for t
    using assms(2) in_bucket_group by (fastforce simp: filter_empty_conv)
  then show ?thesis using assms(1) by (simp add: bkt_ok_def events_steps_snoc)
qed

lemma bkt_ok_emplace:
  assumes k: "0 < kParallelism cfg" and ok: "bkt_ok cfg es sid xs f g bkt"
    and step: "filter (in_group g) (event_steps sid e) = [resolve es sid (f entry)]"
    and site: "step_site (resolve es sid (f entry)) = Some (g, s)" and range: "in_range es (f entry)"
  obtains bkt' where "emplace cfg s entry bkt = Inr bkt'" "bkt_ok cfg es sid (xs @ [e]) f g bkt'"
proof -
  let ?b = "bucket_of cfg s"
  let ?bkt = "bkt[?b := bkt ! ?b @ [entry]]"
  have "filter (in_bucket cfg g t) (event_steps sid e) =
      filter (in_bucket cfg g t) (filter (in_group g) (event_steps sid e))" for t
    by (auto intro: filter_cong dest: in_bucket_group)
  then have new: "filter (in_bucket cfg g t) (event_steps sid e) =
      (if t = ?b then [resolve es sid (f entry)] else [])" for t
    unfolding step by (auto simp: in_bucket_def site)
  have "bkt_ok cfg es sid (xs @ [e]) f g ?bkt"
    using ok range bucket_of_less [OF k, of s]
    by (auto simp: bkt_ok_def events_steps_snoc new nth_list_update)
  then show thesis using that k by (simp add: emplace_def)
qed

definition filled ::
  "bench_config \<Rightarrow> tatp_event list \<Rightarrow> (bytes \<Rightarrow> 32 word) \<Rightarrow> tatp_event list \<Rightarrow> tatp_buckets \<Rightarrow> bool" where
  "filled cfg es sid xs bk \<longleftrightarrow>
     dcf_pos bk = length (dcfs xs) \<and> gsd_pos bk = length (gsds xs) \<and> icf_pos bk = length (icfs xs) \<and>
     ul_pos bk = length (uls xs) \<and> usd_pos bk = length (usds xs) \<and>
     bkt_ok cfg es sid xs Dcf_icf CF_tables (dcf_icf_bkt bk) \<and>
     bkt_ok cfg es sid xs Gsd_ul_usd Sub_table (gsd_ul_usd_bkt bk) \<and>
     bkt_ok cfg es sid xs Icf_usd SF_tables (icf_usd_bkt bk)"

lemma filled_empty: "filled cfg es sid [] (empty_buckets cfg)"
  by (simp add: filled_def empty_buckets_def bkt_ok_def event_lists events_steps_def)

lemma event_lists_append [simp]:
  "dcfs (xs @ ys) = dcfs xs @ dcfs ys" "gads (xs @ ys) = gads xs @ gads ys"
  "gsds (xs @ ys) = gsds xs @ gsds ys" "icfs (xs @ ys) = icfs xs @ icfs ys"
  "uls (xs @ ys) = uls xs @ uls ys" "usds (xs @ ys) = usds xs @ usds ys"
  by (simp_all add: event_lists)

lemma fill_bucket_spec:
  assumes k: "0 < kParallelism cfg" and es: "es = xs @ e # ys" and ids: "ids_ok es sid bs"
    and ok: "filled cfg es sid xs bk"
  obtains bk' where "fill_bucket cfg bs e bk = Inr bk'" "filled cfg es sid (xs @ [e]) bk'"
proof -
  note f = ok [unfolded filled_def]
  have b: "bkt_ok cfg es sid xs Dcf_icf CF_tables (dcf_icf_bkt bk)"
    "bkt_ok cfg es sid xs Gsd_ul_usd Sub_table (gsd_ul_usd_bkt bk)"
    "bkt_ok cfg es sid xs Icf_usd SF_tables (icf_usd_bkt bk)"
    using f by simp_all
  note skip = bkt_ok_skip [where e = e] and put = bkt_ok_emplace [OF k, where e = e]
  show thesis
  proof (cases e)
    case (DELETE_CALL_FORWARDING p)
    have at: "dcfs es ! dcf_pos bk = p" "dcf_pos bk < length (dcfs es)"
      using f es DELETE_CALL_FORWARDING by (simp_all add: dcfs_def)
    obtain b1 where b1: "emplace cfg (sid (dcf_sub_nbr p)) (0, dcf_pos bk) (dcf_icf_bkt bk) = Inr b1"
        "bkt_ok cfg es sid (xs @ [e]) Dcf_icf CF_tables b1"
      by (rule put [OF b(1)]) (use DELETE_CALL_FORWARDING at in \<open>auto simp: in_group_def\<close>)
    have "fill_bucket cfg bs e bk = Inr (bk\<lparr>dcf_icf_bkt := b1, dcf_pos := dcf_pos bk + 1\<rparr>)"
      using DELETE_CALL_FORWARDING b1(1) at ids by (simp add: res_simps ids_ok_def)
    moreover have "filled cfg es sid (xs @ [e]) (bk\<lparr>dcf_icf_bkt := b1, dcf_pos := dcf_pos bk + 1\<rparr>)"
      using f b1(2) skip [OF b(2)] skip [OF b(3)] DELETE_CALL_FORWARDING
      by (simp add: filled_def event_lists in_group_def)
    ultimately show thesis using that by blast
  next
    case (GET_SUBSCRIBER_DATA p)
    have at: "gsds es ! gsd_pos bk = p" "gsd_pos bk < length (gsds es)"
      using f es GET_SUBSCRIBER_DATA by (simp_all add: gsds_def)
    obtain b1 where b1: "emplace cfg (gsd_s_id p) (0, gsd_pos bk) (gsd_ul_usd_bkt bk) = Inr b1"
        "bkt_ok cfg es sid (xs @ [e]) Gsd_ul_usd Sub_table b1"
      by (rule put [OF b(2)]) (use GET_SUBSCRIBER_DATA at in \<open>auto simp: in_group_def\<close>)
    have "fill_bucket cfg bs e bk = Inr (bk\<lparr>gsd_ul_usd_bkt := b1, gsd_pos := gsd_pos bk + 1\<rparr>)"
      using GET_SUBSCRIBER_DATA b1(1) by simp
    moreover have "filled cfg es sid (xs @ [e]) (bk\<lparr>gsd_ul_usd_bkt := b1, gsd_pos := gsd_pos bk + 1\<rparr>)"
      using f b1(2) skip [OF b(1)] skip [OF b(3)] GET_SUBSCRIBER_DATA
      by (simp add: filled_def event_lists in_group_def)
    ultimately show thesis using that by blast
  next
    case (INSERT_CALL_FORWARDING p)
    have at: "icfs es ! icf_pos bk = p" "icf_pos bk < length (icfs es)"
      using f es INSERT_CALL_FORWARDING by (simp_all add: icfs_def)
    obtain b1 where b1: "emplace cfg (sid (icf_sub_nbr p)) (1, icf_pos bk) (dcf_icf_bkt bk) = Inr b1"
        "bkt_ok cfg es sid (xs @ [e]) Dcf_icf CF_tables b1"
      by (rule put [OF b(1)]) (use INSERT_CALL_FORWARDING at in \<open>auto simp: in_group_def\<close>)
    obtain b2 where b2: "emplace cfg (sid (icf_sub_nbr p)) (0, icf_pos bk) (icf_usd_bkt bk) = Inr b2"
        "bkt_ok cfg es sid (xs @ [e]) Icf_usd SF_tables b2"
      by (rule put [OF b(3)]) (use INSERT_CALL_FORWARDING at in \<open>auto simp: in_group_def\<close>)
    have "fill_bucket cfg bs e bk =
        Inr (bk\<lparr>dcf_icf_bkt := b1, icf_usd_bkt := b2, icf_pos := icf_pos bk + 1\<rparr>)"
      using INSERT_CALL_FORWARDING b1(1) b2(1) at ids by (simp add: res_simps ids_ok_def)
    moreover have "filled cfg es sid (xs @ [e])
        (bk\<lparr>dcf_icf_bkt := b1, icf_usd_bkt := b2, icf_pos := icf_pos bk + 1\<rparr>)"
      using f b1(2) b2(2) skip [OF b(2)] INSERT_CALL_FORWARDING
      by (simp add: filled_def event_lists in_group_def)
    ultimately show thesis using that by blast
  next
    case (UPDATE_LOCATION p)
    have at: "uls es ! ul_pos bk = p" "ul_pos bk < length (uls es)"
      using f es UPDATE_LOCATION by (simp_all add: uls_def)
    obtain b1 where b1: "emplace cfg (sid (ul_sub_nbr p)) (1, ul_pos bk) (gsd_ul_usd_bkt bk) = Inr b1"
        "bkt_ok cfg es sid (xs @ [e]) Gsd_ul_usd Sub_table b1"
      by (rule put [OF b(2)]) (use UPDATE_LOCATION at in \<open>auto simp: in_group_def\<close>)
    have "fill_bucket cfg bs e bk = Inr (bk\<lparr>gsd_ul_usd_bkt := b1, ul_pos := ul_pos bk + 1\<rparr>)"
      using UPDATE_LOCATION b1(1) at ids by (simp add: res_simps ids_ok_def)
    moreover have "filled cfg es sid (xs @ [e]) (bk\<lparr>gsd_ul_usd_bkt := b1, ul_pos := ul_pos bk + 1\<rparr>)"
      using f b1(2) skip [OF b(1)] skip [OF b(3)] UPDATE_LOCATION
      by (simp add: filled_def event_lists in_group_def)
    ultimately show thesis using that by blast
  next
    case (UPDATE_SUBSCRIBER_DATA p)
    have at: "usds es ! usd_pos bk = p" "usd_pos bk < length (usds es)"
      using f es UPDATE_SUBSCRIBER_DATA by (simp_all add: usds_def)
    obtain b1 where b1: "emplace cfg (usd_s_id p) (2, usd_pos bk) (gsd_ul_usd_bkt bk) = Inr b1"
        "bkt_ok cfg es sid (xs @ [e]) Gsd_ul_usd Sub_table b1"
      by (rule put [OF b(2)]) (use UPDATE_SUBSCRIBER_DATA at in \<open>auto simp: in_group_def\<close>)
    obtain b2 where b2: "emplace cfg (usd_s_id p) (1, usd_pos bk) (icf_usd_bkt bk) = Inr b2"
        "bkt_ok cfg es sid (xs @ [e]) Icf_usd SF_tables b2"
      by (rule put [OF b(3)]) (use UPDATE_SUBSCRIBER_DATA at in \<open>auto simp: in_group_def\<close>)
    have "fill_bucket cfg bs e bk =
        Inr (bk\<lparr>gsd_ul_usd_bkt := b1, icf_usd_bkt := b2, usd_pos := usd_pos bk + 1\<rparr>)"
      using UPDATE_SUBSCRIBER_DATA b1(1) b2(1) by simp
    moreover have "filled cfg es sid (xs @ [e])
        (bk\<lparr>gsd_ul_usd_bkt := b1, icf_usd_bkt := b2, usd_pos := usd_pos bk + 1\<rparr>)"
      using f b1(2) b2(2) skip [OF b(1)] UPDATE_SUBSCRIBER_DATA
      by (simp add: filled_def event_lists in_group_def)
    ultimately show thesis using that by blast
  qed (use that [of bk] f skip [OF b(1)] skip [OF b(2)] skip [OF b(3)] in
      \<open>simp_all add: filled_def event_lists in_group_def\<close>)
qed

lemma fill_buckets_spec:
  assumes k: "0 < kParallelism cfg" and ids: "ids_ok es sid bs"
  obtains bk where "fold_res (fill_bucket cfg bs) es (empty_buckets cfg) = Inr bk" "filled cfg es sid es bk"
proof -
  have "\<exists>bk. fold_res (fill_bucket cfg bs) xs (empty_buckets cfg) = Inr bk \<and> filled cfg es sid xs bk"
    if "es = xs @ ys" for xs ys
    using that
  proof (induction xs arbitrary: ys rule: rev_induct)
    case Nil
    then show ?case using filled_empty by simp
  next
    case (snoc e xs)
    then obtain bk where bk: "fold_res (fill_bucket cfg bs) xs (empty_buckets cfg) = Inr bk"
        "filled cfg es sid xs bk"
      by auto
    obtain bk' where "fill_bucket cfg bs e bk = Inr bk'" "filled cfg es sid (xs @ [e]) bk'"
      using fill_bucket_spec [OF k _ ids bk(2), of e ys] snoc.prems by auto
    then show ?case using bk(1) by (simp add: fold_res_append)
  qed
  from this [of es "[]"] show thesis using that by auto
qed

section \<open>The lookups\<close>

lemma set_strided:
  assumes "0 < k"
  shows "set (strided k n t) = {i. t \<le> i \<and> i < n \<and> i mod k = t mod k}"
  using assms
proof (induction k n t rule: strided.induct)
  case (1 k n t)
  show ?case
  proof (cases "t < n \<and> 0 < k")
    case True
    have "i = t \<or> t + k \<le> i" if "t \<le> i" "i mod k = t mod k" for i
    proof (rule ccontr)
      assume "\<not> (i = t \<or> t + k \<le> i)"
      then have "0 < i - t" "i - t < k" using that(1) by auto
      moreover have "k dvd i - t" using that by (simp add: mod_eq_dvd_iff_nat)
      ultimately show False by (auto dest: dvd_imp_le)
    qed
    then have "{i. t \<le> i \<and> i < n \<and> i mod k = t mod k} =
        insert t {i. t + k \<le> i \<and> i < n \<and> i mod k = (t + k) mod k}"
      using True by auto
    then show ?thesis using True 1 by (subst strided.simps) simp
  next
    case False
    then have "\<not> t < n" using "1.prems" by simp
    then show ?thesis by (subst strided.simps) auto
  qed
qed

lemma distinct_strided: "distinct (strided k n t)"
proof (induction k n t rule: strided.induct)
  case (1 k n t)
  show ?case
  proof (cases "t < n \<and> 0 < k")
    case True
    then have "t \<notin> set (strided k n (t + k))" by (simp add: set_strided)
    then show ?thesis using 1 True by (subst strided.simps) simp
  next
    case False
    have "strided k n t = []" using False by (subst strided.simps) simp
    then show ?thesis by simp
  qed
qed

lemma loop_threads_steps:
  assumes "0 < kParallelism cfg"
  shows "(\<Union>th \<in> set (loop_threads cfg f n). set th) = f ` {..<n}"
proof -
  let ?k = "kParallelism cfg"
  have "(\<Union>t \<in> {..<?k}. set (strided ?k n t)) = {..<n}"
  proof (intro equalityI subsetI)
    fix i assume "i \<in> {..<n}"
    then have "i \<in> set (strided ?k n (i mod ?k))" "i mod ?k \<in> {..<?k}"
      using assms by (simp_all add: set_strided)
    then show "i \<in> (\<Union>t \<in> {..<?k}. set (strided ?k n t))" by blast
  qed (auto simp: set_strided [OF assms])
  then have "f ` (\<Union>t \<in> {..<?k}. set (strided ?k n t)) = f ` {..<n}" by simp
  then show ?thesis by (simp add: loop_threads_def image_UN atLeast0LessThan)
qed

definition lookup_steps :: "tatp_event list \<Rightarrow> batch_step set" where
  "lookup_steps es =
     Dcf_sid ` {..<length (dcfs es)} \<union> Icf_sid ` {..<length (icfs es)} \<union> Ul_sid ` {..<length (uls es)}"

lemma sid_threads_steps:
  "0 < kParallelism cfg \<Longrightarrow> (\<Union>th \<in> set (sid_threads cfg (batch_of es)). set th) = lookup_steps es"
  by (simp add: sid_threads_def loop_threads_steps lookup_steps_def Un_assoc)

lemma gad_threads_steps:
  "0 < kParallelism cfg \<Longrightarrow> (\<Union>th \<in> set (gad_threads cfg (batch_of es)). set th) = Gad ` {..<length (gads es)}"
  by (simp add: gad_threads_def loop_threads_steps)

text \<open>What holds while the first group of threads runs: the elements that were looked up have the
  subscriber's number, and the database is as it was.\<close>

definition looked_up ::
  "tatp_event list \<Rightarrow> ('q, 'h, 'm) tbb \<Rightarrow> bench_config \<Rightarrow> tatp_db \<Rightarrow> batch_step set \<Rightarrow>
   ('q, 'h, 'm) batch_state \<Rightarrow> bool" where
  "looked_up es T cfg db seen bs \<longleftrightarrow>
     tatp_inv T cfg (bs_sm bs) \<and> tatp_abs T (bs_sm bs) = db \<and>
     length (dcf_s_ids bs) = length (dcfs es) \<and> length (icf_s_ids bs) = length (icfs es) \<and>
     length (ul_s_ids bs) = length (uls es) \<and>
     (\<forall>i. Dcf_sid i \<in> seen \<longrightarrow> i < length (dcfs es) \<longrightarrow> dcf_s_ids bs ! i = db_sid db (dcf_sub_nbr (dcfs es ! i))) \<and>
     (\<forall>i. Icf_sid i \<in> seen \<longrightarrow> i < length (icfs es) \<longrightarrow> icf_s_ids bs ! i = db_sid db (icf_sub_nbr (icfs es ! i))) \<and>
     (\<forall>i. Ul_sid i \<in> seen \<longrightarrow> i < length (uls es) \<longrightarrow> ul_s_ids bs ! i = db_sid db (ul_sub_nbr (uls es ! i)))"

lemma event_lists_ok:
  assumes "\<forall>e \<in> set es. event_ok db e"
  shows "i < length (dcfs es) \<Longrightarrow> 14 \<le> length (dcf_sub_nbr (dcfs es ! i))"
    and "i < length (icfs es) \<Longrightarrow> 14 \<le> length (icf_sub_nbr (icfs es ! i)) \<and> 14 \<le> length (icf_numberx (icfs es ! i))"
    and "i < length (uls es) \<Longrightarrow> 14 \<le> length (ul_sub_nbr (uls es ! i)) \<and>
      db_sub db (to_bytes (db_sid db (ul_sub_nbr (uls es ! i)))) \<noteq> None"
proof -
  have "DELETE_CALL_FORWARDING p \<in> set es" if "p \<in> set (dcfs es)" for p
    using that by (auto simp: dcfs_def split: tatp_event.splits)
  then show "i < length (dcfs es) \<Longrightarrow> 14 \<le> length (dcf_sub_nbr (dcfs es ! i))"
    using assms nth_mem by fastforce
  have "INSERT_CALL_FORWARDING p \<in> set es" if "p \<in> set (icfs es)" for p
    using that by (auto simp: icfs_def split: tatp_event.splits)
  then show "i < length (icfs es) \<Longrightarrow> 14 \<le> length (icf_sub_nbr (icfs es ! i)) \<and> 14 \<le> length (icf_numberx (icfs es ! i))"
    using assms nth_mem by fastforce
  have "UPDATE_LOCATION p \<in> set es" if "p \<in> set (uls es)" for p
    using that by (auto simp: uls_def split: tatp_event.splits)
  then show "i < length (uls es) \<Longrightarrow> 14 \<le> length (ul_sub_nbr (uls es ! i)) \<and>
      db_sub db (to_bytes (db_sid db (ul_sub_nbr (uls es ! i)))) \<noteq> None"
    using assms nth_mem by fastforce
qed

lemma lookup_step:
  assumes ok: "\<forall>e \<in> set es. event_ok db e" and inv: "looked_up es T cfg db seen bs"
    and x: "x \<in> lookup_steps es \<union> Gad ` {..<length (gads es)}"
  obtains bs' where "batch_exec T cfg (batch_of es) x bs = Inr bs'" "looked_up es T cfg db (insert x seen) bs'"
proof -
  note l = inv [unfolded looked_up_def]
  have sid: "getSubscriberId T nbr (bs_sm bs) = Inr (db_sid db nbr)" if "14 \<le> length nbr" for nbr
    using getSubscriberId_returns [of T cfg "bs_sm bs"] l that by auto
  show thesis
  proof (cases x)
    case (Dcf_sid i)
    then have i: "i < length (dcfs es)" using x by (auto simp: lookup_steps_def)
    let ?bs = "bs\<lparr>dcf_s_ids := (dcf_s_ids bs)[i := db_sid db (dcf_sub_nbr (dcfs es ! i))]\<rparr>"
    have "batch_exec T cfg (batch_of es) x bs = Inr ?bs"
      using Dcf_sid i l sid event_lists_ok(1) [OF ok i] by (simp add: res_simps)
    moreover have "looked_up es T cfg db (insert x seen) ?bs"
      using Dcf_sid i l by (auto simp: looked_up_def nth_list_update)
    ultimately show thesis using that by blast
  next
    case (Icf_sid i)
    then have i: "i < length (icfs es)" using x by (auto simp: lookup_steps_def)
    let ?bs = "bs\<lparr>icf_s_ids := (icf_s_ids bs)[i := db_sid db (icf_sub_nbr (icfs es ! i))]\<rparr>"
    have "batch_exec T cfg (batch_of es) x bs = Inr ?bs"
      using Icf_sid i l sid event_lists_ok(2) [OF ok i] by (simp add: res_simps)
    moreover have "looked_up es T cfg db (insert x seen) ?bs"
      using Icf_sid i l by (auto simp: looked_up_def nth_list_update)
    ultimately show thesis using that by blast
  next
    case (Ul_sid i)
    then have i: "i < length (uls es)" using x by (auto simp: lookup_steps_def)
    let ?bs = "bs\<lparr>ul_s_ids := (ul_s_ids bs)[i := db_sid db (ul_sub_nbr (uls es ! i))]\<rparr>"
    have "batch_exec T cfg (batch_of es) x bs = Inr ?bs"
      using Ul_sid i l sid event_lists_ok(3) [OF ok i] by (simp add: res_simps)
    moreover have "looked_up es T cfg db (insert x seen) ?bs"
      using Ul_sid i l by (auto simp: looked_up_def nth_list_update)
    ultimately show thesis using that by blast
  next
    case (Gad i)
    then have i: "i < length (gads es)" using x by (auto simp: lookup_steps_def)
    let ?p = "gads es ! i"
    obtain sm' where sm': "getAccessInfo T cfg (gad_s_id ?p) (gad_ai_type ?p) (bs_sm bs) = Inr sm'"
        "tatp_inv T cfg sm'" "tatp_abs T sm' = tatp_abs T (bs_sm bs)"
      using getAccessInfo_refines [of T cfg "bs_sm bs" "gad_s_id ?p" "gad_ai_type ?p"] l
      by (auto simp: refines_def)
    have "batch_exec T cfg (batch_of es) x bs = Inr (bs\<lparr>bs_sm := sm'\<rparr>)"
      using Gad i sm'(1) by (simp add: res_simps on_sm_def)
    moreover have "looked_up es T cfg db (insert x seen) (bs\<lparr>bs_sm := sm'\<rparr>)"
      using Gad l sm'(2,3) by (simp add: looked_up_def)
    ultimately show thesis using that by blast
  qed (use x in \<open>auto simp: lookup_steps_def\<close>)
qed

lemma run_lookups:
  assumes ok: "\<forall>e \<in> set es. event_ok db e" and inv: "looked_up es T cfg db seen bs"
    and xs: "set xs \<subseteq> lookup_steps es \<union> Gad ` {..<length (gads es)}"
  obtains bs' where "fold_res (batch_exec T cfg (batch_of es)) xs bs = Inr bs'"
    "looked_up es T cfg db (set xs \<union> seen) bs'"
  using inv xs
proof (induction xs arbitrary: bs seen thesis)
  case Nil
  then show ?case by simp
next
  case (Cons x xs)
  obtain bs1 where bs1: "batch_exec T cfg (batch_of es) x bs = Inr bs1" "looked_up es T cfg db (insert x seen) bs1"
    using lookup_step [OF ok Cons.prems(2), of x] Cons.prems(3) by auto
  obtain bs2 where "fold_res (batch_exec T cfg (batch_of es)) xs bs1 = Inr bs2"
      "looked_up es T cfg db (set xs \<union> insert x seen) bs2"
    using Cons.IH [OF _ bs1(2)] Cons.prems(3) by auto
  then show ?case using Cons.prems(1) bs1(1) by simp
qed

lemma looked_up_ids_ok:
  assumes "looked_up es T cfg db seen bs" "lookup_steps es \<subseteq> seen"
  shows "ids_ok es (db_sid db) bs"
proof -
  have "Dcf_sid i \<in> seen" if "i < length (dcfs es)" for i
    using that assms(2) by (auto simp: lookup_steps_def)
  moreover have "Icf_sid i \<in> seen" if "i < length (icfs es)" for i
    using that assms(2) by (auto simp: lookup_steps_def)
  moreover have "Ul_sid i \<in> seen" if "i < length (uls es)" for i
    using that assms(2) by (auto simp: lookup_steps_def)
  ultimately show ?thesis
    using assms(1) unfolding looked_up_def ids_ok_def by (auto intro!: nth_equalityI)
qed

section \<open>The bucket threads\<close>

lemma resource_site: "step_resource x = Some gs \<Longrightarrow> step_site x = Some gs"
  by (cases x) auto

lemma resolve_ok:
  assumes "\<forall>e \<in> set es. event_ok db e" "in_range es x"
  shows "step_ok db (resolve es (db_sid db) x)"
proof (cases x)
  case (Dcf_icf e)
  then show ?thesis using assms event_lists_ok(2) [OF assms(1)] by (cases e) auto
next
  case (Gsd_ul_usd e)
  then show ?thesis using assms event_lists_ok(3) [OF assms(1)] by (cases e) (auto split: if_splits)
next
  case (Icf_usd e)
  then show ?thesis by (cases e) auto
qed auto

lemma bucket_thread_other:
  assumes ok: "bkt_ok cfg es sid es f g bkt" and t: "t < kParallelism cfg"
    and other: "g \<noteq> g' \<or> t \<noteq> bucket_of cfg s"
  shows "filter (\<lambda>x. step_resource (resolve es sid x) = Some (g', s)) (map f (bkt ! t)) = []"
proof -
  have "step_resource (resolve es sid (f e)) \<noteq> Some (g', s)" if "e \<in> set (bkt ! t)" for e
  proof
    assume "step_resource (resolve es sid (f e)) = Some (g', s)"
    then have site: "step_site (resolve es sid (f e)) = Some (g', s)" by (rule resource_site)
    have "(resolve es sid \<circ> f) e \<in> set (map (resolve es sid \<circ> f) (bkt ! t))" using that by auto
    also have "\<dots> = set (filter (in_bucket cfg g t) (events_steps sid es))"
      using ok t by (simp add: bkt_ok_def)
    finally have "in_bucket cfg g t (resolve es sid (f e))" by simp
    then show False using site other by (auto simp: in_bucket_def)
  qed
  then show ?thesis by (auto simp: filter_empty_conv)
qed

lemma bucket_thread_own:
  assumes ok: "bkt_ok cfg es sid es f g bkt" and t: "bucket_of cfg s < kParallelism cfg"
  shows "map (resolve es sid) (filter (\<lambda>x. step_resource (resolve es sid x) = Some (g, s))
      (map f (bkt ! bucket_of cfg s))) =
    filter (\<lambda>x. step_resource x = Some (g, s)) (events_steps sid es)"
proof -
  let ?P = "\<lambda>x. step_resource x = Some (g, s)"
  have "map (resolve es sid) (filter (\<lambda>x. ?P (resolve es sid x)) (map f (bkt ! bucket_of cfg s))) =
      filter ?P (map (resolve es sid \<circ> f) (bkt ! bucket_of cfg s))"
    by (simp add: filter_map comp_def)
  also have "\<dots> = filter ?P (filter (in_bucket cfg g (bucket_of cfg s)) (events_steps sid es))"
    using ok t by (simp add: bkt_ok_def)
  also have "\<dots> = filter ?P (events_steps sid es)"
    by (auto simp: in_bucket_def dest: resource_site intro!: filter_cong)
  finally show ?thesis .
qed

lemma bkt_split:
  assumes "bkt_ok cfg es sid es f g bkt" "t < kParallelism cfg"
  shows "map (map f) bkt = map (map f) (take t bkt) @ map f (bkt ! t) # map (map f) (drop (Suc t) bkt)"
  using assms id_take_nth_drop [of t bkt] by (simp add: bkt_ok_def flip: map_append list.map)

lemma bucket_threads_other:
  assumes ok: "bkt_ok cfg es sid es f g bkt" and th: "th \<in> set (map (map f) bkt)" and other: "g \<noteq> g'"
  shows "filter (\<lambda>x. step_resource (resolve es sid x) = Some (g', s)) th = []"
proof -
  obtain t where "t < length bkt" "th = map f (bkt ! t)" using th by (auto simp: in_set_conv_nth)
  then show ?thesis using bucket_thread_other [OF ok, of t g' s] other ok by (simp add: bkt_ok_def)
qed

lemma bucket_threads_rest:
  assumes ok: "bkt_ok cfg es sid es f g bkt" and t: "t = bucket_of cfg s" "t < kParallelism cfg"
    and th: "th \<in> set (map (map f) (take t bkt)) \<union> set (map (map f) (drop (Suc t) bkt))"
  shows "filter (\<lambda>x. step_resource (resolve es sid x) = Some (g, s)) th = []"
proof -
  have len: "length bkt = kParallelism cfg" using ok by (simp add: bkt_ok_def)
  obtain i where i: "i < kParallelism cfg" "i \<noteq> t" "th = map f (bkt ! i)"
  proof -
    have "\<exists>i < kParallelism cfg. i \<noteq> t \<and> e = bkt ! i" if e: "e \<in> set (take t bkt)" for e
    proof -
      obtain j where "j < length (take t bkt)" "e = take t bkt ! j"
        using e unfolding in_set_conv_nth by blast
      then have "j < t" "e = bkt ! j" by simp_all
      then show ?thesis using t(2) by (intro exI [of _ j]) simp
    qed
    moreover have "\<exists>i < kParallelism cfg. i \<noteq> t \<and> e = bkt ! i" if e: "e \<in> set (drop (Suc t) bkt)" for e
    proof -
      obtain j where "j < length bkt - Suc t" "e = bkt ! (Suc t + j)"
        using e by (auto simp: in_set_conv_nth)
      then show ?thesis using len by (intro exI [of _ "Suc t + j"]) simp
    qed
    ultimately show thesis using th that by fastforce
  qed
  then show ?thesis using bucket_thread_other [OF ok, of i g s] t(1) by simp
qed

lemma phase2_order:
  assumes k: "0 < kParallelism cfg" and bk: "filled cfg es sid es bk"
    and g2: "\<And>th. th \<in> set g2 \<Longrightarrow> set th \<subseteq> range Gad"
    and il: "interleaving (bucket_threads bk @ g2) ys"
  shows "filter (\<lambda>x. step_resource x = Some r) (map (resolve es sid) ys) =
    filter (\<lambda>x. step_resource x = Some r) (events_steps sid es)"
proof -
  obtain g s where r: "r = (g, s)" by (cases r)
  let ?P = "\<lambda>x. step_resource (resolve es sid x) = Some (g, s)" and ?t = "bucket_of cfg s"
  let ?A = "map (map Dcf_icf) (dcf_icf_bkt bk)" and ?B = "map (map Gsd_ul_usd) (gsd_ul_usd_bkt bk)"
  let ?C = "map (map Icf_usd) (icf_usd_bkt bk)"
  have t: "?t < kParallelism cfg" using bucket_of_less [OF k] .
  have b: "bkt_ok cfg es sid es Dcf_icf CF_tables (dcf_icf_bkt bk)"
    "bkt_ok cfg es sid es Gsd_ul_usd Sub_table (gsd_ul_usd_bkt bk)"
    "bkt_ok cfg es sid es Icf_usd SF_tables (icf_usd_bkt bk)"
    using bk by (simp_all add: filled_def)
  have gad: "filter ?P th = []" if "th \<in> set g2" for th
    using g2 [OF that] by (fastforce simp: filter_empty_conv)
  have main: "filter ?P ys = filter ?P (map f (bkt ! ?t))"
    if ok: "bkt_ok cfg es sid es f g bkt" and ths: "bucket_threads bk @ g2 = us @ map (map f) bkt @ vs"
      and other: "\<And>th. th \<in> set us \<union> set vs \<Longrightarrow> filter ?P th = []" for f bkt us vs
  proof (rule filter_interleaving_split)
    show "interleaving ((us @ map (map f) (take ?t bkt)) @ map f (bkt ! ?t) #
        (map (map f) (drop (Suc ?t) bkt) @ vs)) ys"
      using il unfolding ths bkt_split [OF ok t] by simp
  qed (use other bucket_threads_rest [OF ok refl t] in auto)
  have "map (resolve es sid) (filter ?P ys) = filter (\<lambda>x. step_resource x = Some (g, s)) (events_steps sid es)"
  proof (cases g)
    case CF_tables
    have "filter ?P ys = filter ?P (map Dcf_icf (dcf_icf_bkt bk ! ?t))"
      using CF_tables bucket_threads_other [OF b(2)] bucket_threads_other [OF b(3)] gad b(1)
      by (intro main [of _ _ "[]" "?B @ ?C @ g2"]) (auto simp: bucket_threads_def)
    then show ?thesis using bucket_thread_own [OF b(1) t] CF_tables by simp
  next
    case Sub_table
    have "filter ?P ys = filter ?P (map Gsd_ul_usd (gsd_ul_usd_bkt bk ! ?t))"
      using Sub_table bucket_threads_other [OF b(1)] bucket_threads_other [OF b(3)] gad b(2)
      by (intro main [of _ _ "?A" "?C @ g2"]) (auto simp: bucket_threads_def)
    then show ?thesis using bucket_thread_own [OF b(2) t] Sub_table by simp
  next
    case SF_tables
    have "filter ?P ys = filter ?P (map Icf_usd (icf_usd_bkt bk ! ?t))"
      using SF_tables bucket_threads_other [OF b(1)] bucket_threads_other [OF b(2)] gad b(3)
      by (intro main [of _ _ "?A @ ?B" g2]) (auto simp: bucket_threads_def)
    then show ?thesis using bucket_thread_own [OF b(3) t] SF_tables by simp
  qed
  then show ?thesis by (simp add: r filter_map comp_def)
qed

section \<open>A batch is its transactions in order\<close>

lemma map2_append_steps:
  "length g1 = length g2 \<Longrightarrow>
   (\<Union>th \<in> set (map2 (@) g1 g2). set th) = (\<Union>th \<in> set g1. set th) \<union> (\<Union>th \<in> set g2. set th)"
  by (induction g1 g2 rule: list_induct2) auto

lemma in_range_gad: "x \<in> Gad ` {..<length (gads es)} \<Longrightarrow> in_range es x \<and> \<not> is_lookup x"
  by auto

lemma phase2_in_range:
  assumes bk: "filled cfg es sid es bk" and g2: "(\<Union>th \<in> set g2. set th) \<subseteq> Gad ` {..<length (gads es)}"
    and il: "interleaving (bucket_threads bk @ g2) ys"
  shows "\<forall>x \<in> set ys. in_range es x \<and> \<not> is_lookup x"
proof
  fix x assume "x \<in> set ys"
  then obtain th where th: "th \<in> set (bucket_threads bk) \<union> set g2" "x \<in> set th"
    using interleaving_set [OF il] by auto
  have ok: "in_range es (f e)" if ok: "bkt_ok cfg es sid es f g bkt" and b: "b \<in> set bkt" and e: "e \<in> set b" for f g bkt b e
  proof -
    obtain t where "t < kParallelism cfg" "b = bkt ! t"
      using ok b by (auto simp: bkt_ok_def in_set_conv_nth)
    then show ?thesis using ok e by (simp add: bkt_ok_def)
  qed
  note b = bk [unfolded filled_def]
  show "in_range es x \<and> \<not> is_lookup x"
  proof (cases "th \<in> set g2")
    case True
    then show ?thesis using th(2) g2 in_range_gad by blast
  next
    case False
    then show ?thesis using th b by (auto simp: bucket_threads_def dest: ok)
  qed
qed

lemma processBatch_spec:
  assumes k: "0 < kParallelism cfg" and inv: "tatp_inv T cfg sm"
    and ok: "\<forall>e \<in> set es. event_ok (tatp_abs T sm) e"
    and run: "tatp_processBatch T cfg (batch_of es) sm r"
  shows "runs_to T cfg r sm (events_steps (db_sid (tatp_abs T sm)) es)"
proof -
  let ?db = "tatp_abs T sm" and ?sid = "db_sid (tatp_abs T sm)"
  have start: "looked_up es T cfg ?db {} (init_state (batch_of es) sm)"
    using inv by (simp add: looked_up_def init_state_def)
  have lookups: "\<exists>bs. fold_res (batch_exec T cfg (batch_of es)) xs (init_state (batch_of es) sm) = Inr bs \<and>
      ids_ok es ?sid bs \<and> tatp_inv T cfg (bs_sm bs) \<and> tatp_abs T (bs_sm bs) = ?db \<and>
      (\<Union>th \<in> set g2. set th) \<subseteq> Gad ` {..<length (gads es)}"
    if g: "gad_threads cfg (batch_of es) = map2 (@) g1 g2" "length g1 = length g2"
      and il: "interleaving (sid_threads cfg (batch_of es) @ g1) xs" for g1 g2 xs
  proof -
    have gs: "(\<Union>th \<in> set g1. set th) \<union> (\<Union>th \<in> set g2. set th) = Gad ` {..<length (gads es)}"
      using map2_append_steps [OF g(2)] gad_threads_steps [OF k, of es] g(1) by simp
    have xs: "set xs = lookup_steps es \<union> (\<Union>th \<in> set g1. set th)"
      using interleaving_set [OF il] sid_threads_steps [OF k, of es] by simp
    obtain bs where bs: "fold_res (batch_exec T cfg (batch_of es)) xs (init_state (batch_of es) sm) = Inr bs"
        "looked_up es T cfg ?db (set xs \<union> {}) bs"
      using run_lookups [OF ok start, of xs] xs gs by blast
    have "ids_ok es ?sid bs" using looked_up_ids_ok [OF bs(2)] xs by auto
    then show ?thesis using bs gs by (auto simp: looked_up_def)
  qed
  from run show ?thesis
  proof cases
    case (pb_lookup_error g1 g2 xs e)
    then show ?thesis using lookups [OF pb_lookup_error(2-4)] by simp
  next
    case (pb_bucket_error g1 g2 xs bs e)
    then have "ids_ok es ?sid bs" using lookups [OF pb_bucket_error(2-4)] by simp
    then show ?thesis using fill_buckets_spec [OF k] pb_bucket_error by (metis batch_of_params(7) sum.distinct(1))
  next
    case (pb_execute g1 g2 xs bs bk ys)
    note lk = lookups [OF pb_execute(2-4)]
    then have ids: "ids_ok es ?sid bs" and inv1: "tatp_inv T cfg (bs_sm bs)"
      and abs1: "tatp_abs T (bs_sm bs) = ?db" and g2: "(\<Union>th \<in> set g2. set th) \<subseteq> Gad ` {..<length (gads es)}"
      using pb_execute by simp_all
    have bk: "filled cfg es ?sid es bk"
      using fill_buckets_spec [OF k ids] pb_execute(6) by (metis batch_of_params(7) sum.inject(2))
    note rng = phase2_in_range [OF bk g2 pb_execute(7)]
    have "\<forall>x \<in> set (map (resolve es ?sid) ys). step_ok ?db x"
      using rng resolve_ok [OF ok] by auto
    then obtain sm' where sm': "fold_res (step_exec T cfg) (map (resolve es ?sid) ys) (bs_sm bs) = Inr sm'"
        "tatp_inv T cfg sm'" "tatp_abs T sm' = fold (step_effect cfg) (map (resolve es ?sid) ys) ?db"
      using run_steps [OF inv1, of "map (resolve es ?sid) ys"] abs1 by (auto simp: runs_to_def)
    have "set th \<subseteq> range Gad" if "th \<in> set g2" for th using g2 that by blast
    then have "fold (step_effect cfg) (map (resolve es ?sid) ys) ?db =
        fold (step_effect cfg) (events_steps ?sid es) ?db"
      using phase2_order [OF k bk _ pb_execute(7)] by (intro tatp.same_order) blast
    then show ?thesis
      using pb_execute(1) sm' batch_exec_steps [OF ids rng, of T cfg] by (simp add: runs_to_def)
  qed
qed

lemma processBatch_exists: "\<exists>r. tatp_processBatch T cfg b sm r"
proof -
  let ?g1 = "gad_threads cfg b" and ?g2 = "replicate (length (gad_threads cfg b)) []"
  let ?xs = "concat (sid_threads cfg b @ ?g1)"
  have g: "gad_threads cfg b = map2 (@) ?g1 ?g2"
    by (rule nth_equalityI) simp_all
  note il = interleaving_concat [of "sid_threads cfg b @ ?g1"]
  show ?thesis
  proof (cases "fold_res (batch_exec T cfg b) ?xs (init_state b sm)")
    case (Inl e)
    then show ?thesis using pb_lookup_error [OF g _ il] by auto
  next
    case (Inr bs)
    show ?thesis
    proof (cases "fold_res (fill_bucket cfg bs) (batch_params b) (empty_buckets cfg)")
      case (Inl e)
      then show ?thesis using pb_bucket_error [OF g _ il Inr] by auto
    next
      case (Inr bk)
      show ?thesis
        using pb_execute [OF g _ il \<open>fold_res (batch_exec T cfg b) ?xs (init_state b sm) = Inr bs\<close> Inr
            interleaving_concat] by auto
    qed
  qed
qed

section \<open>All batches\<close>

lemma collect_batch_spec:
  assumes "\<forall>e \<in> fst ` set q. e \<noteq> END_EXECUTION"
  shows "collect_batch (q @ (END_EXECUTION, tm) # rest) b cnt =
      Inr (fold add_event (map fst q @ [END_EXECUTION]) b, True, cnt + length q, rest) \<or>
    (\<exists>q1 q2. q = q1 @ q2 \<and> q1 \<noteq> [] \<and> collect_batch (q @ (END_EXECUTION, tm) # rest) b cnt =
      Inr (fold add_event (map fst q1) b, False, cnt + length q1, q2 @ (END_EXECUTION, tm) # rest))"
  using assms
proof (induction q arbitrary: b cnt)
  case Nil
  then show ?case by simp
next
  case (Cons et q)
  obtain e timeout where et: "et = (e, timeout)" by (cases et)
  have e: "e \<noteq> END_EXECUTION" using Cons.prems et by simp
  show ?case
  proof (cases timeout)
    case True
    then show ?thesis using e et by (intro disjI2 exI [of _ "[et]"] exI [of _ q]) simp
  next
    case False
    then have step: "collect_batch ((et # q) @ (END_EXECUTION, tm) # rest) b cnt =
        collect_batch (q @ (END_EXECUTION, tm) # rest) (add_event e b) (cnt + 1)"
      using e et by simp
    from Cons.IH [of "add_event e b" "cnt + 1"] Cons.prems
    consider "collect_batch (q @ (END_EXECUTION, tm) # rest) (add_event e b) (cnt + 1) =
        Inr (fold add_event (map fst q @ [END_EXECUTION]) (add_event e b), True, cnt + 1 + length q, rest)"
      | q1 q2 where "q = q1 @ q2" "q1 \<noteq> []"
        "collect_batch (q @ (END_EXECUTION, tm) # rest) (add_event e b) (cnt + 1) =
         Inr (fold add_event (map fst q1) (add_event e b), False, cnt + 1 + length q1, q2 @ (END_EXECUTION, tm) # rest)"
      by auto
    then show ?thesis
    proof cases
      case 1
      then show ?thesis using step et by simp
    next
      case 2
      then show ?thesis
        using step et by (intro disjI2 exI [of _ "et # q1"] exI [of _ q2]) simp
    qed
  qed
qed

lemma collect_batch_of:
  assumes "\<forall>e \<in> fst ` set q. e \<noteq> END_EXECUTION"
  obtains (stop) "collect_batch (q @ (END_EXECUTION, tm) # rest) empty_batch 0 =
      Inr (batch_of (map fst q @ [END_EXECUTION]), True, length q, rest)"
  | (again) q1 q2 where "q = q1 @ q2" "q1 \<noteq> []" "collect_batch (q @ (END_EXECUTION, tm) # rest) empty_batch 0 =
      Inr (batch_of (map fst q1), False, length q1, q2 @ (END_EXECUTION, tm) # rest)"
  using collect_batch_spec [OF assms, of tm rest empty_batch 0] unfolding batch_of_def by auto

text \<open>What every run of the batch processor does, whatever the schedules and the timer.\<close>

definition batch_result ::
  "('q, 'h, 'm) tbb \<Rightarrow> bench_config \<Rightarrow> ('q, 'h, 'm) storage_manager \<Rightarrow> tatp_event list \<Rightarrow> nat \<Rightarrow>
   (tatp_event \<times> bool) list \<Rightarrow>
   (('q, 'h, 'm) storage_manager \<times> nat \<times> (tatp_event \<times> bool) list) result \<Rightarrow> bool" where
  "batch_result T cfg sm es n rest r \<longleftrightarrow>
     (\<exists>sm'. r = Inr (sm', n + length es, rest) \<and> tatp_inv T cfg sm' \<and>
        tatp_abs T sm' = fold (step_effect cfg) (events_steps (db_sid (tatp_abs T sm)) es) (tatp_abs T sm))"

lemma events_steps_append [simp]:
  "events_steps sid (xs @ ys) = events_steps sid xs @ events_steps sid ys"
  "events_steps sid [END_EXECUTION] = []"
  by (simp_all add: events_steps_def)

lemma batch_start_spec:
  assumes k: "0 < kParallelism cfg" and run: "tatp_batch_start T cfg queue n sm r"
    and "queue = q @ (END_EXECUTION, tm) # rest" "tatp_inv T cfg sm"
    and "\<forall>e \<in> fst ` set q. event_ok (tatp_abs T sm) e \<and> e \<noteq> END_EXECUTION"
  shows "batch_result T cfg sm (map fst q) n rest r"
  using run assms(3-5)
proof (induction arbitrary: q rule: tatp_batch_start.induct)
  case (bt_wait queue e n sm)
  then have ne: "\<forall>e \<in> fst ` set q. e \<noteq> END_EXECUTION" by blast
  show ?case
    using bt_wait(1,2) by (cases rule: collect_batch_of [OF ne, where tm = tm and rest = rest]) auto
next
  case (bt_error queue b stop cnt rest' sm e n)
  then have ne: "\<forall>e \<in> fst ` set q. e \<noteq> END_EXECUTION" by blast
  obtain es where es: "b = batch_of es" "set es \<subseteq> insert END_EXECUTION (fst ` set q)"
  proof (cases rule: collect_batch_of [OF ne, where tm = tm and rest = rest])
    case 1
    then show thesis using that [of "map fst q @ [END_EXECUTION]"] bt_error(1,3) by auto
  next
    case (2 q1 q2)
    then show thesis using that [of "map fst q1"] bt_error(1,3) by auto
  qed
  then have "\<forall>e \<in> set es. event_ok (tatp_abs T sm) e" using bt_error.prems(3) by auto
  then show ?case
    using processBatch_spec [OF k bt_error.prems(2)] bt_error(2) es(1) by (auto simp: runs_to_def)
next
  case (bt_stop queue b cnt rest' sm sm' n)
  then have ne: "\<forall>e \<in> fst ` set q. e \<noteq> END_EXECUTION" by blast
  have b: "b = batch_of (map fst q @ [END_EXECUTION]) \<and> cnt = length q \<and> rest' = rest"
    using bt_stop(1,3) by (cases rule: collect_batch_of [OF ne, where tm = tm and rest = rest]) auto
  have "\<forall>e \<in> set (map fst q @ [END_EXECUTION]). event_ok (tatp_abs T sm) e"
    using bt_stop.prems(3) by auto
  then show ?case
    using processBatch_spec [OF k bt_stop.prems(2), of "map fst q @ [END_EXECUTION]"] bt_stop(2) b
    by (auto simp: runs_to_def batch_result_def)
next
  case (bt_next queue b cnt rest' sm sm' n r)
  then have ne: "\<forall>e \<in> fst ` set q. e \<noteq> END_EXECUTION" by blast
  obtain q1 q2 where q: "q = q1 @ q2" "b = batch_of (map fst q1)" "cnt = length q1"
      "rest' = q2 @ (END_EXECUTION, tm) # rest"
    using bt_next(1) bt_next.prems(1)
    by (cases rule: collect_batch_of [OF ne, where tm = tm and rest = rest]) auto
  have "\<forall>e \<in> set (map fst q1). event_ok (tatp_abs T sm) e" using bt_next.prems(3) q(1) by auto
  then have sm': "tatp_inv T cfg sm'"
      "tatp_abs T sm' = fold (step_effect cfg) (events_steps (db_sid (tatp_abs T sm)) (map fst q1)) (tatp_abs T sm)"
    using processBatch_spec [OF k bt_next.prems(2), of "map fst q1"] bt_next(2) q(2) by (auto simp: runs_to_def)
  have same: "same_subscribers (tatp_abs T sm) (tatp_abs T sm')"
    unfolding sm'(2) by (rule steps_same_subscribers)
  have "batch_result T cfg sm' (map fst q2) (n + cnt) rest r"
    using bt_next.IH [OF q(4) sm'(1)] bt_next.prems(3) q(1) event_ok_same [OF same] by auto
  moreover have "db_sid (tatp_abs T sm') = db_sid (tatp_abs T sm)"
    using same by (simp add: same_subscribers_def)
  ultimately show ?case using sm'(2) q(1,3) by (auto simp: batch_result_def)
qed

lemma batch_start_exists:
  assumes k: "0 < kParallelism cfg" and "tatp_inv T cfg sm"
    and "\<forall>e \<in> fst ` set q. event_ok (tatp_abs T sm) e \<and> e \<noteq> END_EXECUTION"
  shows "\<exists>r. tatp_batch_start T cfg (q @ (END_EXECUTION, tm) # rest) n sm r"
  using assms(2,3)
proof (induction "length q" arbitrary: q n sm rule: less_induct)
  case less
  then have ne: "\<forall>e \<in> fst ` set q. e \<noteq> END_EXECUTION" by blast
  from ne show ?case
  proof (cases rule: collect_batch_of [where tm = tm and rest = rest])
    case stop
    obtain r where r: "tatp_processBatch T cfg (batch_of (map fst q @ [END_EXECUTION])) sm r"
      using processBatch_exists by blast
    then show ?thesis
      using bt_error [OF stop] bt_stop [OF stop] by (cases r) blast+
  next
    case (again q1 q2)
    obtain r where r: "tatp_processBatch T cfg (batch_of (map fst q1)) sm r"
      using processBatch_exists by blast
    have ok: "\<forall>e \<in> set (map fst q1). event_ok (tatp_abs T sm) e" using less.prems(2) again(1) by auto
    obtain sm' where sm': "r = Inr sm'" "tatp_inv T cfg sm'"
      "tatp_abs T sm' = fold (step_effect cfg) (events_steps (db_sid (tatp_abs T sm)) (map fst q1)) (tatp_abs T sm)"
      using processBatch_spec [OF k less.prems(1) ok r] by (auto simp: runs_to_def)
    have same: "same_subscribers (tatp_abs T sm) (tatp_abs T sm')"
      unfolding sm'(3) by (rule steps_same_subscribers)
    have "\<exists>r. tatp_batch_start T cfg (q2 @ (END_EXECUTION, tm) # rest) (n + length q1) sm' r"
      using less.hyps [of q2 sm' "n + length q1"] sm'(2) again(1,2) less.prems(2) event_ok_same [OF same] by auto
    then show ?thesis using bt_next [OF again(3)] r sm'(1) by blast
  qed
qed

end
