(* ===== verification/TatpBatchTables.thy ===== *)
theory TatpBatchTables
  imports TatpBatch
begin

text \<open>
  When an iteration of a thread's loop may count as one step. \<open>BaseTable::deleteRecord\<close> takes no mutex, so a thread
  that deletes from a table must not meet another one that deletes from it or inserts into it. The batch processor
  (benchmark/tatp/TatpBatchProcessor.cc) deletes from and inserts into the \<open>CALL_FORWARDING\<close> tables only, which it
  chooses by \<open>s_id % kPartitionCnt\<close>, while it chooses the thread by \<open>hash_int(s_id) % kParallelism\<close>. Here: when
  the subscribers of one table hash to one thread, as they do when there is only one, no two threads change the
  same \<open>CALL_FORWARDING\<close> table.
\<close>

section \<open>Which tables a step changes\<close>

definition call_forwarding_table :: "nat \<Rightarrow> bool" where
  "call_forwarding_table i \<longleftrightarrow> CALL_FORWARDING_TABLE_ID \<le> i \<and> i < CALL_FORWARDING_TABLE_ID + MAX_PARTITION_CNT"

lemma cf_with_table_frame: "with_table i f sm = Inr sm' \<Longrightarrow> j \<noteq> i \<Longrightarrow> sm' j = sm j"
  by (auto simp: with_table_def bnd_eq_Inr)

lemma cf_updates_frame:
  "sm_insertRecord T i rec sm = Inr sm' \<Longrightarrow> j \<noteq> i \<Longrightarrow> sm' j = sm j"
  "sm_deleteRecord T i r sm = Inr sm' \<Longrightarrow> j \<noteq> i \<Longrightarrow> sm' j = sm j"
  "sm_updateRecord_one i r p sm = Inr sm' \<Longrightarrow> j \<noteq> i \<Longrightarrow> sm' j = sm j"
  unfolding sm_insertRecord_def sm_deleteRecord_def sm_updateRecord_one_def by (erule (1) cf_with_table_frame)+

text \<open>The \<open>CALL_FORWARDING\<close> table a sub-transaction may change: the one of its subscriber.\<close>

fun touched_forwardings :: "bench_config \<Rightarrow> tatp_step \<Rightarrow> nat option" where
  "touched_forwardings cfg (CF_Delete s sf st) = Some (CALL_FORWARDING_TABLE_ID + partition_of cfg s)"
| "touched_forwardings cfg (CF_Insert s sf st et n) = Some (CALL_FORWARDING_TABLE_ID + partition_of cfg s)"
| "touched_forwardings cfg x = None"

lemma step_exec_frame:
  assumes cfg: "0 < partitions cfg" "partitions cfg \<le> MAX_PARTITION_CNT"
    and r: "step_exec T cfg x sm = Inr sm'" "call_forwarding_table i" "touched_forwardings cfg x \<noteq> Some i"
  shows "sm' i = sm i"
proof -
  have off: "partition_offset cfg s = Inr (partition_of cfg s)" for s using cfg(1) by (simp add: partition_offset_eq)
  have part: "partition_of cfg s < MAX_PARTITION_CNT" for s using partition_of_less [OF cfg(1), of s] cfg(2) by simp
  have ne: "i \<noteq> SUBSCRIBER_TABLE_ID" "i \<noteq> SPECIAL_FACILITY_TABLE_ID + partition_of cfg s" for s
    using r(2) part [of s] unfolding call_forwarding_table_def tatp_table_ids by simp_all
  show ?thesis
    using r(1,3)
    by (cases x)
      (auto simp: deleteCallForwardingRecord_def insertCallForwardingRecord_def getSubscriberData_def getAccessInfo_def
        getSpecialFacilitySFType_def updateSubscriberVLRLocation_def updateSubscriberBit1_def
        updateSpecialFacilityDataA_def bnd_eq_Inr off split: if_splits dest: cf_updates_frame(1,2) [OF _ not_sym]
        cf_updates_frame(3) [OF _ ne(1)] cf_updates_frame(3) [OF _ ne(2)])
qed

text \<open>The tables a step of a thread changes, once the subscribers are looked up.\<close>

definition step_changes_table ::
  "('q, 'h, 'm) tbb \<Rightarrow> bench_config \<Rightarrow> (bytes \<Rightarrow> 32 word) \<Rightarrow> tatp_event list \<Rightarrow> batch_step \<Rightarrow> nat \<Rightarrow> bool" where
  "step_changes_table T cfg sid es x i \<longleftrightarrow>
     (\<exists>(bs :: ('q, 'h, 'm) batch_state) bs'. ids_ok es sid bs \<and>
        batch_exec T cfg (batch_of es) x bs = Inr bs' \<and> bs_sm bs' i \<noteq> bs_sm bs i)"

lemma step_changes_touched:
  assumes cfg: "0 < partitions cfg" "partitions cfg \<le> MAX_PARTITION_CNT"
    and x: "in_range es x" "\<not> is_lookup x" and i: "call_forwarding_table i" "step_changes_table T cfg sid es x i"
  shows "touched_forwardings cfg (resolve es sid x) = Some i"
proof (rule ccontr)
  assume no: "touched_forwardings cfg (resolve es sid x) \<noteq> Some i"
  obtain bs bs' where b: "ids_ok es sid bs" "batch_exec T cfg (batch_of es) x bs = Inr bs'" "bs_sm bs' i \<noteq> bs_sm bs i"
    using i(2) unfolding step_changes_table_def by blast
  obtain sm' where "step_exec T cfg (resolve es sid x) (bs_sm bs) = Inr sm'" "bs_sm bs' = sm'"
    using b(2) batch_exec_resolve [OF b(1) x, of T cfg] by (auto simp: on_sm_def bnd_eq_Inr)
  then show False using step_exec_frame [OF cfg _ i(1) no] b(3) by metis
qed

section \<open>Threads on different tables\<close>

text \<open>The subscriber whose call forwarding a transaction changes.\<close>

fun forwarding_subscriber :: "(bytes \<Rightarrow> 32 word) \<Rightarrow> tatp_event \<Rightarrow> 32 word option" where
  "forwarding_subscriber sid (DELETE_CALL_FORWARDING p) = Some (sid (dcf_sub_nbr p))"
| "forwarding_subscriber sid (INSERT_CALL_FORWARDING p) = Some (sid (icf_sub_nbr p))"
| "forwarding_subscriber sid e = None"

definition tables_have_threads :: "bench_config \<Rightarrow> (bytes \<Rightarrow> 32 word) \<Rightarrow> tatp_event set \<Rightarrow> bool" where
  "tables_have_threads cfg sid es \<longleftrightarrow>
     (\<forall>e \<in> es. \<forall>e' \<in> es. \<forall>s s'. forwarding_subscriber sid e = Some s \<longrightarrow> forwarding_subscriber sid e' = Some s' \<longrightarrow>
        partition_of cfg s = partition_of cfg s' \<longrightarrow> bucket_of cfg s = bucket_of cfg s')"

lemma one_thread: "kParallelism cfg = 1 \<Longrightarrow> tables_have_threads cfg sid es"
  by (simp add: tables_have_threads_def bucket_of_def)

lemma tables_have_threads_mono: "tables_have_threads cfg sid es \<Longrightarrow> es' \<subseteq> es \<Longrightarrow> tables_have_threads cfg sid es'"
  unfolding tables_have_threads_def by blast

lemma tables_have_threads_end:
  assumes "tables_have_threads cfg sid es"
  shows "tables_have_threads cfg sid (insert END_EXECUTION es)"
proof -
  have none: "forwarding_subscriber sid END_EXECUTION \<noteq> Some s" for s by simp
  show ?thesis using assms none unfolding tables_have_threads_def by (metis insert_iff)
qed

text \<open>The threads that run while call forwardings are inserted and deleted.\<close>

definition forwardings_separate ::
  "('q, 'h, 'm) tbb \<Rightarrow> bench_config \<Rightarrow> (bytes \<Rightarrow> 32 word) \<Rightarrow> tatp_event list \<Rightarrow> bool" where
  "forwardings_separate T cfg sid es \<longleftrightarrow>
     (\<forall>(bs :: ('q, 'h, 'm) batch_state) bk. ids_ok es sid bs \<longrightarrow>
        fold_res (fill_bucket cfg bs) es (empty_buckets cfg) = Inr bk \<longrightarrow>
        (let ths = bucket_threads bk @ gad_threads cfg (batch_of es) in
         \<forall>j < length ths. \<forall>j' < length ths. \<forall>x \<in> set (ths ! j). \<forall>y \<in> set (ths ! j'). \<forall>i.
           j \<noteq> j' \<and> call_forwarding_table i \<and> step_changes_table T cfg sid es x i \<longrightarrow>
           \<not> step_changes_table T cfg sid es y i))"

lemma forwarding_thread:
  assumes k: "0 < kParallelism cfg" and f: "filled cfg es sid es bk"
    and ths: "ths = bucket_threads bk @ gad_threads cfg (batch_of es)" "j < length ths" "x \<in> set (ths ! j)"
    and t: "touched_forwardings cfg (resolve es sid x) = Some i"
  obtains e s where "e \<in> set es" "forwarding_subscriber sid e = Some s" "j = bucket_of cfg s"
    "i = CALL_FORWARDING_TABLE_ID + partition_of cfg s"
proof -
  let ?rest = "map (map Gsd_ul_usd) (gsd_ul_usd_bkt bk) @ map (map Icf_usd) (icf_usd_bkt bk) @ gad_threads cfg (batch_of es)"
  have split: "ths = map (map Dcf_icf) (dcf_icf_bkt bk) @ ?rest" by (simp add: ths(1) bucket_threads_def)
  have ok: "bkt_ok cfg es sid es Dcf_icf CF_tables (dcf_icf_bkt bk)" using f by (simp add: filled_def)
  then have len: "length (dcf_icf_bkt bk) = kParallelism cfg" by (simp add: bkt_ok_def)
  have "touched_forwardings cfg (resolve es sid z) = None" if "th \<in> set ?rest" "z \<in> set th" for th z
    using that by (auto simp: gad_threads_def loop_threads_def)
  then have "ths ! j \<notin> set ?rest" using ths(3) t by force
  moreover have "ths ! j \<in> set ?rest" if "\<not> j < length (dcf_icf_bkt bk)"
  proof -
    have "ths ! j = ?rest ! (j - length (dcf_icf_bkt bk))"
      using that unfolding split by (simp only: nth_append length_map if_False)
    moreover have "j - length (dcf_icf_bkt bk) < length ?rest"
      using that ths(2) unfolding split length_append length_map by arith
    ultimately show ?thesis by (simp only: nth_mem)
  qed
  ultimately have j: "j < kParallelism cfg" using len by auto
  then obtain c where c: "c \<in> set (dcf_icf_bkt bk ! j)" "x = Dcf_icf c"
    using ths(3) len unfolding split by (auto simp: nth_append)
  have "resolve es sid x \<in> set (map (resolve es sid \<circ> Dcf_icf) (dcf_icf_bkt bk ! j))" using c by auto
  also have "map (resolve es sid \<circ> Dcf_icf) (dcf_icf_bkt bk ! j) = filter (in_bucket cfg CF_tables j) (events_steps sid es)"
    using ok j by (simp add: bkt_ok_def)
  finally have st: "in_bucket cfg CF_tables j (resolve es sid x)" "resolve es sid x \<in> set (events_steps sid es)" by simp_all
  then obtain e where e: "e \<in> set es" "resolve es sid x \<in> set (event_steps sid e)" by (auto simp: events_steps_def)
  obtain s where s: "forwarding_subscriber sid e = Some s" "j = bucket_of cfg s"
      "i = CALL_FORWARDING_TABLE_ID + partition_of cfg s"
    using e(2) t st(1) by (cases e) (auto simp: in_bucket_def split: if_splits)
  then show thesis using that e(1) by blast
qed

lemma bucket_threads_in_range:
  assumes f: "filled cfg es sid es bk"
    and th: "th \<in> set (bucket_threads bk @ gad_threads cfg (batch_of es))" "x \<in> set th" and k: "0 < kParallelism cfg"
  shows "in_range es x \<and> \<not> is_lookup x"
proof -
  have bkt [dest]: "in_range es (h e)"
    if "bkt_ok cfg es sid es h g bkt" "bk' \<in> set bkt" "e \<in> set bk'" for h g bkt bk' e
    using that by (auto simp: bkt_ok_def in_set_conv_nth [of bk' bkt])
  then show ?thesis
    using th f unfolding filled_def bucket_threads_def gad_threads_def loop_threads_def
    by (auto simp: set_strided [OF k])
qed

lemma batch_forwardings_separate:
  fixes T :: "('q, 'h, 'm) tbb"
  assumes k: "0 < kParallelism cfg" and cfg: "0 < partitions cfg" "partitions cfg \<le> MAX_PARTITION_CNT"
    and own: "tables_have_threads cfg sid (set es)"
  shows "forwardings_separate T cfg sid es"
  unfolding forwardings_separate_def Let_def
proof (intro allI impI ballI)
  fix bs :: "('q, 'h, 'm) batch_state" and bk j j' x y i
  let ?ths = "bucket_threads bk @ gad_threads cfg (batch_of es)"
  assume "ids_ok es sid bs" "fold_res (fill_bucket cfg bs) es (empty_buckets cfg) = Inr bk"
  then have f: "filled cfg es sid es bk" using fill_buckets_spec [OF k, of es sid bs] by auto
  assume j: "j < length ?ths" "j' < length ?ths" and xy: "x \<in> set (?ths ! j)" "y \<in> set (?ths ! j')"
  assume a: "j \<noteq> j' \<and> call_forwarding_table i \<and> step_changes_table T cfg sid es x i"
  have touched: "touched_forwardings cfg (resolve es sid z) = Some i"
    if "step_changes_table T cfg sid es z i" "z \<in> set (?ths ! l)" "l < length ?ths" for z l
    using step_changes_touched [OF cfg _ _ _ that(1)] bucket_threads_in_range [OF f nth_mem [OF that(3)] that(2) k] a by blast
  show "\<not> step_changes_table T cfg sid es y i"
  proof
    assume y: "step_changes_table T cfg sid es y i"
    obtain e s where e: "e \<in> set es" "forwarding_subscriber sid e = Some s" "j = bucket_of cfg s"
        "i = CALL_FORWARDING_TABLE_ID + partition_of cfg s"
      by (rule forwarding_thread [OF k f refl j(1) xy(1)]) (use touched a xy(1) j(1) in blast)+
    obtain e' s' where e': "e' \<in> set es" "forwarding_subscriber sid e' = Some s'" "j' = bucket_of cfg s'"
        "i = CALL_FORWARDING_TABLE_ID + partition_of cfg s'"
      by (rule forwarding_thread [OF k f refl j(2) xy(2)]) (use touched y xy(2) j(2) in blast)+
    have "bucket_of cfg s = bucket_of cfg s'"
      using own e(1,2,4) e'(1,2,4) unfolding tables_have_threads_def by (metis add_left_cancel)
    then show False using e(3) e'(3) a by simp
  qed
qed

end
