(* ===== verification/TatpMain.thy ===== *)
theory TatpMain
  imports TatpPopulation TatpSource TatpBatch TatpBatchTables
begin

text \<open>
  benchmark/tatp/TatpMain.cc: the benchmark as a whole. The populator fills the database, the source
  fills the queue with a hundred million transactions, and the processor chosen on the command line
  executes them. The transactions the source draws are about subscribers the populator has loaded, so the
  processors meet no error.
\<close>

section \<open>The program\<close>

definition NUM_TRANSACTIONS :: nat where
  "NUM_TRANSACTIONS = 100000000"

definition QUEUE_CAPACITY :: nat where
  "QUEUE_CAPACITY = 100000001"

text \<open>The arguments are the numbers \<open>atoi\<close> reads, converted to \<open>size_t\<close>; \<open>batch_time\<close> only sets the period
  of the timer.\<close>

definition main_config :: "(nat \<Rightarrow> byte) \<Rightarrow> int \<Rightarrow> int \<Rightarrow> bench_config" where
  "main_config memory parallelism partition_num =
     \<lparr>kParallelism = unat (word_of_int parallelism :: 64 word),
      kPartitionCnt = unat (word_of_int partition_num :: 64 word),
      kPartition = (partition_num \<noteq> 1), uninit = memory\<rparr>"

definition main_prepare ::
  "'g rng \<Rightarrow> ('q, 'h, 'm) tbb \<Rightarrow> bench_config \<Rightarrow> stack_arrays \<Rightarrow> ('g, ('q, 'h, 'm) storage_manager \<times> tatp_event list) gen" where
  "main_prepare R T cfg stk =
     gbnd (TatpPopulator_start R T cfg stk (subscriber_size ScaleParams_new) StorageManager_new) (\<lambda>sm.
     gbnd (TatpSource_start R ScaleParams_new QUEUE_CAPACITY NUM_TRANSACTIONS []) (\<lambda>q. gret (sm, q)))"

text \<open>The outcome of a run: the database, the number of transactions and what is left in the queue. The batch
  processors read a timer with every transaction (\<open>map fst q' = q\<close>) and schedule threads, so they have many runs.\<close>

inductive tatp_main ::
  "'g rng \<Rightarrow> ('q, 'h, 'm) tbb \<Rightarrow> bench_config \<Rightarrow> stack_arrays \<Rightarrow> 'g \<Rightarrow> int \<Rightarrow>
   (('q, 'h, 'm) storage_manager \<times> nat) result \<Rightarrow> bool" for R T cfg stk g where
  main_error:
    "main_prepare R T cfg stk g = Inl e \<Longrightarrow> tatp_main R T cfg stk g processor_no (Inl e)"
| main_serial:
    "main_prepare R T cfg stk g = Inr ((sm, q), g') \<Longrightarrow> processor_no = 0 \<Longrightarrow>
     tatp_main R T cfg stk g processor_no (bnd (tatp_serial_start T cfg q 0 sm) (\<lambda>(sm, n, q). Inr (sm, n)))"
| main_batch:
    "main_prepare R T cfg stk g = Inr ((sm, q), g') \<Longrightarrow> processor_no \<noteq> 0 \<Longrightarrow> map fst q' = q \<Longrightarrow>
     tatp_batch_start T cfg q' 0 sm r \<Longrightarrow>
     tatp_main R T cfg stk g processor_no (bnd r (\<lambda>(sm, n, q). Inr (sm, n)))"

section \<open>The subscriber numbers of the populated database\<close>

lemma populated_sid:
  assumes pop: "populated T cfg stk n sm" and s: "s \<in> set (s_ids n)"
  shows "db_sid (tatp_abs T sm) (sub_nbr_of s) = s"
proof -
  have inv: "tatp_inv T cfg sm" and loaded: "subs_loaded (table_map T sm SUBSCRIBER_TABLE_ID) (set (s_ids n))"
    using pop by (simp_all add: populated_def)
  have pos: "0 \<le> sint i" if "i \<in> set (s_ids n)" for i using that by (simp add: s_ids_iff)
  obtain t where t: "sm SUBSCRIBER_TABLE_ID = Some t" "st_inv T t" "st_schema t = subscriber_schema"
      "has_primary t" "map fst (secondary_index_ptrs t) = [size_t_symbol [1]]"
    using table_okE [OF tatp_invD(4,1) [OF inv]] by metis
  obtain m where m: "secondary_index_ptrs t = [(size_t_symbol [1], m)]"
    using secondary_single [OF t(5)] by metis
  have len: "length (sub_nbr_of s) = 15" using padWithZero_int(2) [OF pos [OF s]] .
  have map: "table_map T sm SUBSCRIBER_TABLE_ID = st_map T t" using t(1) by (simp add: table_map_at)
  have live: "\<exists>i \<in> set (s_ids n). record_key t a = to_bytes i \<and> col_data subscriber_schema 1 (st_bytes t a) = sub_nbr_of i"
    if a: "a \<in> st_live t" for a
  proof -
    have at: "st_map T t (record_key t a) = Some (st_bytes t a)" by (rule st_map_at [OF t(2,4) a])
    then have "record_key t a \<in> to_bytes ` set (s_ids n)" using loaded map by (auto simp: subs_loaded_def)
    then obtain i where "i \<in> set (s_ids n)" "record_key t a = to_bytes i" by blast
    then show ?thesis using loaded map at by (auto simp: subs_loaded_def)
  qed
  have "secondary_ok T (st_schema t) (st_base t) (size_t_symbol [1], m)"
    using st_invD(9) [OF t(2)] m by simp
  then have follows: "multi_follows (mm_range T m) (st_live t) (\<lambda>a. col_data subscriber_schema 1 (st_bytes t a))"
    using index_columns_single [of 1] by (simp add: secondary_ok_def t(3) key_of_self)
  note search = tbb_multi.search_follows [OF st_invD(3) [OF t(2)] follows, of "sub_nbr_of s"]
  obtain d where d: "st_map T t (to_bytes s) = Some d" "col_data subscriber_schema 1 d = sub_nbr_of s"
    using loaded s map by (auto simp: subs_loaded_def)
  then obtain b where "b \<in> st_live t" "st_bytes t b = d" using st_map_iff [OF t(2,4)] by blast
  then obtain a where a: "TBBMultiIndex_searchRecord T m (sub_nbr_of s) = Some a" "a \<in> st_live t"
      "col_data subscriber_schema 1 (st_bytes t a) = sub_nbr_of s"
    using search d(2) by (cases "TBBMultiIndex_searchRecord T m (sub_nbr_of s)") auto
  obtain i where i: "i \<in> set (s_ids n)" "record_key t a = to_bytes i" "sub_nbr_of i = sub_nbr_of s"
    using live [OF a(2)] a(3) by auto
  then have "i = s" using sub_nbr_inj [of i s] pos s by blast
  then have "col_data subscriber_schema 0 (st_bytes t a) = to_bytes s"
    using i(2) t(3) tatp_summaries(1) by (simp add: primary_key_of_def key_of_self schema_summary_def)
  then have "getSubscriberId T (sub_nbr_of s) sm = Inr s"
    using getSubscriberId_eq [of sm, OF t(1-4) m] len a(1) by (simp add: c_str_def)
  then show ?thesis by (simp add: tatp_abs_def)
qed

lemma about_event_ok:
  assumes pop: "populated T cfg stk n sm" and e: "about {s. 1 \<le> sint s \<and> sint s \<le> sint n} e"
  shows "event_ok (tatp_abs T sm) e" "e \<noteq> END_EXECUTION"
proof -
  have S: "{s. 1 \<le> sint s \<and> sint s \<le> sint n} = set (s_ids n)" by (auto simp: s_ids_iff)
  have len: "length (sub_nbr_of i) = 15" if "i \<in> set (s_ids n)" for i
    using that padWithZero_int(2) [of i] by (simp add: s_ids_iff)
  have sub: "\<exists>d. db_sub (tatp_abs T sm) (to_bytes (db_sid (tatp_abs T sm) (sub_nbr_of i))) = Some d"
    if i: "i \<in> set (s_ids n)" for i
  proof -
    have "subs_loaded (db_sub (tatp_abs T sm)) (set (s_ids n))"
      using pop tatp_abs_simps(1) [of T cfg sm] by (simp add: populated_def)
    then show ?thesis using i unfolding populated_sid [OF pop i] by (auto simp: subs_loaded_def)
  qed
  show "event_ok (tatp_abs T sm) e"
    using e unfolding S by (cases e) (use len sub in auto)
  show "e \<noteq> END_EXECUTION" using e by auto
qed

section \<open>What the populator loads\<close>

lemma populated_facts:
  assumes pop: "populated T cfg stk n sm"
  shows "tatp_inv T cfg sm" "dom (db_sub (tatp_abs T sm)) = to_bytes ` set (s_ids n)"
    and "s \<in> set (s_ids n) \<Longrightarrow>
      db_sf (tatp_abs T sm) (partition_of cfg s) (sf_key s (scast (sf_types stk s 0))) \<noteq> None"
    and "db_cf (tatp_abs T sm) (partition_of cfg i) (cf_key i a b) \<noteq> None \<Longrightarrow>
      db_sf (tatp_abs T sm) (partition_of cfg i) (sf_key i a) \<noteq> None"
proof -
  show inv: "tatp_inv T cfg sm" using pop by (simp add: populated_def)
  show "dom (db_sub (tatp_abs T sm)) = to_bytes ` set (s_ids n)"
    using pop by (simp add: populated_def subs_loaded_def tatp_abs_simps(1) [OF inv])
  obtain L M where LM: "counts_ok (set (s_ids n)) L" "facilities_loaded T cfg stk L M sm"
    using pop by (auto simp: populated_def)
  have "partition_of cfg i < partitions cfg" for i by (rule partition_of_less [OF tatp_invD(2) [OF inv]])
  then have sf: "dom (db_sf (tatp_abs T sm) (partition_of cfg i)) = sf_keys cfg stk L (partition_of cfg i)"
    and cf: "dom (db_cf (tatp_abs T sm) (partition_of cfg i)) = cf_keys cfg stk L M (partition_of cfg i)" for i
    using LM(2) by (simp_all add: facilities_loaded_def tatp_abs_simps(2,3) [OF inv])
  show "db_sf (tatp_abs T sm) (partition_of cfg s) (sf_key s (scast (sf_types stk s 0))) \<noteq> None"
    if "s \<in> set (s_ids n)"
  proof -
    have "1 \<le> L s" using LM(1) that unfolding counts_ok_def by metis
    then have "0 < L s" by simp
    then have "sf_key s (scast (sf_types stk s 0)) \<in> sf_keys cfg stk L (partition_of cfg s)"
      unfolding sf_keys_def facility_keys_def by (intro image_eqI [of _ _ "(s, 0)"]) simp_all
    then show ?thesis unfolding sf [symmetric] by (simp add: domIff)
  qed
  show "db_sf (tatp_abs T sm) (partition_of cfg i) (sf_key i a) \<noteq> None"
    if "db_cf (tatp_abs T sm) (partition_of cfg i) (cf_key i a b) \<noteq> None"
  proof -
    have "cf_key i a b \<in> cf_keys cfg stk L M (partition_of cfg i)"
      using that unfolding cf [symmetric] by (simp add: domIff)
    then obtain j where "a = scast (sf_types stk i j)" "j < L i"
      by (auto simp: cf_keys_def forwarding_keys_def to_bytes_8)
    then have "sf_key i a \<in> sf_keys cfg stk L (partition_of cfg i)"
      unfolding sf_keys_def facility_keys_def by (intro image_eqI [of _ _ "(i, j)"]) simp_all
    then show ?thesis unfolding sf [symmetric] by (simp add: domIff)
  qed
qed

definition sample_arrays :: stack_arrays where
  "sample_arrays = \<lparr>ai_types = of_nat, sf_types = (\<lambda>_. of_nat), start_times = (\<lambda>_ _. of_nat)\<rparr>"

lemma sample_arrays_distinct: "arrays_distinct sample_arrays"
proof -
  have "inj_on (\<lambda>j. scast (of_nat j :: 32 word) :: 8 word) {..<4}" "inj_on (\<lambda>j. scast (of_nat j :: 32 word) :: 8 word) {..<3}"
    by (simp_all add: lessThan_nat_numeral lessThan_Suc)
  then show ?thesis by (simp add: arrays_distinct_def sample_arrays_def)
qed

definition main_cfg :: bench_config where
  "main_cfg = main_config (\<lambda>_. 0) 4 8"

lemma main_cfg_partitions: "0 < partitions main_cfg" "partitions main_cfg \<le> MAX_PARTITION_CNT"
  by (simp_all add: main_cfg_def main_config_def partitions_def MAX_PARTITION_CNT_def)

text \<open>C25: From an empty storage manager the populator returns, for every number of subscribers below the greatest
  \<open>int\<close>, and has loaded exactly the subscribers from one to that number, each found by the number the
  source makes of its identifier; every subscriber has a special facility in its partition, and every call
  forwarding belongs to a special facility that exists. This needs that the uninitialised arrays hold
  different values.\<close>

theorem populator_loads:
  assumes "tbb_laws T" "rng_laws R" "0 < partitions cfg" "partitions cfg \<le> MAX_PARTITION_CNT"
    and "arrays_distinct stk" "n \<noteq> INT_MAX"
  shows "\<exists>sm g'. TatpPopulator_start R T cfg stk n StorageManager_new g = Inr (sm, g') \<and> tatp_inv T cfg sm \<and>
    dom (db_sub (tatp_abs T sm)) = to_bytes ` {s :: 32 word. 1 \<le> sint s \<and> sint s \<le> sint n} \<and>
    (\<forall>s. 1 \<le> sint s \<and> sint s \<le> sint n \<longrightarrow>
       getSubscriberId T (sub_nbr_of s) sm = Inr s \<and>
       db_sf (tatp_abs T sm) (partition_of cfg s) (sf_key s (scast (sf_types stk s 0))) \<noteq> None) \<and>
    (\<forall>s a b. db_cf (tatp_abs T sm) (partition_of cfg s) (cf_key s a b) \<noteq> None \<longrightarrow>
       db_sf (tatp_abs T sm) (partition_of cfg s) (sf_key s a) \<noteq> None)"
proof -
  obtain sm g' where sm: "TatpPopulator_start R T cfg stk n StorageManager_new g = Inr (sm, g')"
      "populated T cfg stk n sm"
    using gen_returnsE [OF TatpPopulator_start_returns [OF assms]] .
  have S: "set (s_ids n) = {s. 1 \<le> sint s \<and> sint s \<le> sint n}" by (auto simp: s_ids_iff)
  note facts = populated_facts [OF sm(2), unfolded S mem_Collect_eq]
  have "getSubscriberId T (sub_nbr_of s) sm = Inr s" if "s \<in> set (s_ids n)" for s
    using getSubscriberId_returns [OF facts(1), of "sub_nbr_of s"] populated_sid [OF sm(2) that]
      padWithZero_int(2) [of s] that by (simp add: s_ids_iff)
  then have "getSubscriberId T (sub_nbr_of s) sm = Inr s" if "1 \<le> sint s \<and> sint s \<le> sint n" for s
    using that by (simp add: S)
  then show ?thesis using sm(1) facts by (intro exI [of _ sm] exI [of _ g'] conjI allI impI) simp_all
qed

lemma populator_loads_witness:
  "\<exists>sm g'. TatpPopulator_start list_rng list_tbb main_cfg sample_arrays 2 StorageManager_new [5, 6] = Inr (sm, g') \<and>
    db_sub (tatp_abs list_tbb sm) (to_bytes (2 :: 32 word)) \<noteq> None \<and>
    getSubscriberId list_tbb (sub_nbr_of 2) sm = Inr 2"
proof -
  have n: "(2 :: 32 word) \<noteq> INT_MAX" by (simp add: INT_MAX_def)
  obtain sm g' where sm: "TatpPopulator_start list_rng list_tbb main_cfg sample_arrays 2 StorageManager_new [5, 6] = Inr (sm, g')"
    "dom (db_sub (tatp_abs list_tbb sm)) = to_bytes ` {s :: 32 word. 1 \<le> sint s \<and> sint s \<le> sint (2 :: 32 word)}"
    "getSubscriberId list_tbb (sub_nbr_of 2) sm = Inr 2"
    using populator_loads [OF list_tbb_laws list_rng_laws main_cfg_partitions sample_arrays_distinct n, of "[5, 6]"]
    by auto
  have "to_bytes (2 :: 32 word) \<in> dom (db_sub (tatp_abs list_tbb sm))" unfolding sm(2) by (rule imageI) simp
  then show ?thesis using sm(1,3) by blast
qed

text \<open>C26: The types of the access-info records, which TATP wants from one to four, are whatever the uninitialised
  array held: with one number \<open>k\<close> of records for all subscribers, a subscriber has an access-info record
  of a type exactly when the type is among the first \<open>k\<close> values found in memory.\<close>

theorem access_info_types:
  assumes "tbb_laws T" "rng_laws R" "0 < partitions cfg" "partitions cfg \<le> MAX_PARTITION_CNT"
    and "arrays_distinct stk" "n \<noteq> INT_MAX"
  shows "\<exists>sm g' k. TatpPopulator_start R T cfg stk n StorageManager_new g = Inr (sm, g') \<and> 1 \<le> k \<and> k \<le> 4 \<and>
    (\<forall>s a. 1 \<le> sint s \<and> sint s \<le> sint n \<longrightarrow>
       (table_map T sm (ACCESS_INFO_TABLE_ID + partition_of cfg s) (sf_key s a) \<noteq> None \<longleftrightarrow>
        (\<exists>j < k. a = scast (ai_types stk j))))"
proof -
  obtain sm g' where sm: "TatpPopulator_start R T cfg stk n StorageManager_new g = Inr (sm, g')"
      "populated T cfg stk n sm"
    using gen_returnsE [OF TatpPopulator_start_returns [OF assms]] .
  obtain k where k: "1 \<le> k" "k \<le> 4" "ai_loaded T cfg stk (\<lambda>s. if s \<in> set (s_ids n) then k else 0) sm"
    using sm(2) by (auto simp: populated_def)
  have "table_map T sm (ACCESS_INFO_TABLE_ID + partition_of cfg s) (sf_key s a) \<noteq> None \<longleftrightarrow>
      (\<exists>j < k. a = scast (ai_types stk j))" if s: "1 \<le> sint s \<and> sint s \<le> sint n" for s a
  proof -
    have "dom (table_map T sm (ACCESS_INFO_TABLE_ID + partition_of cfg s)) =
        ai_keys cfg stk (\<lambda>s. if s \<in> set (s_ids n) then k else 0) (partition_of cfg s)"
      using k(3) partition_of_less [OF assms(3)] by (simp add: ai_loaded_def)
    then have "table_map T sm (ACCESS_INFO_TABLE_ID + partition_of cfg s) (sf_key s a) \<noteq> None \<longleftrightarrow>
        sf_key s a \<in> ai_keys cfg stk (\<lambda>s. if s \<in> set (s_ids n) then k else 0) (partition_of cfg s)"
      by (simp only: domIff [symmetric])
    also have "\<dots> \<longleftrightarrow> (\<exists>j < k. a = scast (ai_types stk j))"
      using s by (auto simp: ai_keys_def facility_keys_def to_bytes_8 image_iff s_ids_iff)
    finally show ?thesis .
  qed
  then show ?thesis using sm(1) k(1,2) by blast
qed

lemma access_info_types_witness:
  "\<exists>sm g'. TatpPopulator_start list_rng list_tbb main_cfg sample_arrays 2 StorageManager_new [5, 6] = Inr (sm, g') \<and>
    table_map list_tbb sm (ACCESS_INFO_TABLE_ID + partition_of main_cfg 1) (sf_key 1 0) \<noteq> None \<and>
    table_map list_tbb sm (ACCESS_INFO_TABLE_ID + partition_of main_cfg 1) (sf_key 1 4) = None"
proof -
  have n: "(2 :: 32 word) \<noteq> INT_MAX" by (simp add: INT_MAX_def)
  obtain sm g' k where sm: "TatpPopulator_start list_rng list_tbb main_cfg sample_arrays 2 StorageManager_new [5, 6] = Inr (sm, g')"
    "1 \<le> k" "k \<le> 4" and iff: "\<And>a. table_map list_tbb sm (ACCESS_INFO_TABLE_ID + partition_of main_cfg 1) (sf_key 1 a) \<noteq> None \<longleftrightarrow>
      (\<exists>j < k. a = scast (ai_types sample_arrays j))"
    using access_info_types [OF list_tbb_laws list_rng_laws main_cfg_partitions sample_arrays_distinct n, of "[5, 6]"]
    by auto
  have "table_map list_tbb sm (ACCESS_INFO_TABLE_ID + partition_of main_cfg 1) (sf_key 1 0) \<noteq> None"
    unfolding iff using sm(2) by (intro exI [of _ 0]) (simp add: sample_arrays_def)
  moreover have "(4 :: 8 word) \<noteq> scast (ai_types sample_arrays j)" if "j < k" for j
  proof -
    have "j \<in> {0, 1, 2, 3}" using that sm(3) by auto
    then show ?thesis by (auto simp: sample_arrays_def)
  qed
  then have "table_map list_tbb sm (ACCESS_INFO_TABLE_ID + partition_of main_cfg 1) (sf_key 1 4) = None"
    using iff [of 4] by blast
  ultimately show ?thesis using sm(1) by blast
qed

section \<open>The outcome\<close>

lemma ScaleParams_facts:
  "100 \<le> workload_weight ScaleParams_new ! 6" "1 \<le> sint (subscriber_size ScaleParams_new)"
  "subscriber_size ScaleParams_new \<noteq> INT_MAX"
  by (simp_all add: ScaleParams_new_def Let_def DEFAULT_NUM_SUBSCRIBERS_def INT_MAX_def)

lemma main_prepare_returns:
  assumes laws: "tbb_laws T" "rng_laws R" and parts: "0 < partitions cfg" "partitions cfg \<le> MAX_PARTITION_CNT"
    and distinct: "arrays_distinct stk"
  obtains sm es g' where "main_prepare R T cfg stk g = Inr ((sm, es @ [END_EXECUTION]), g')"
    "populated T cfg stk (subscriber_size ScaleParams_new) sm" "length es = NUM_TRANSACTIONS"
    "\<forall>e \<in> set es. event_ok (tatp_abs T sm) e \<and> e \<noteq> END_EXECUTION"
proof -
  let ?n = "subscriber_size ScaleParams_new"
  have cap: "NUM_TRANSACTIONS < QUEUE_CAPACITY" by (simp add: NUM_TRANSACTIONS_def QUEUE_CAPACITY_def)
  obtain sm g1 where sm: "TatpPopulator_start R T cfg stk ?n StorageManager_new g = Inr (sm, g1)"
      "populated T cfg stk ?n sm"
    using gen_returnsE [OF TatpPopulator_start_returns [OF laws parts distinct ScaleParams_facts(3)]] .
  obtain q g2 where q: "TatpSource_start R ScaleParams_new QUEUE_CAPACITY NUM_TRANSACTIONS [] g1 = Inr (q, g2)"
      "\<exists>es. q = es @ [END_EXECUTION] \<and> length es = NUM_TRANSACTIONS \<and>
        (\<forall>e \<in> set es. about {s. 1 \<le> sint s \<and> sint s \<le> sint ?n} e)"
    using gen_returnsE [OF TatpSource_start_returns [OF laws(2) ScaleParams_facts(1,2) cap]] .
  then obtain es where es: "q = es @ [END_EXECUTION]" "length es = NUM_TRANSACTIONS"
      "\<forall>e \<in> set es. about {s. 1 \<le> sint s \<and> sint s \<le> sint ?n} e" by blast
  have "main_prepare R T cfg stk g = Inr ((sm, es @ [END_EXECUTION]), g2)"
    using sm(1) q(1) es(1) by (simp add: main_prepare_def gbnd_def gret_def)
  moreover have "\<forall>e \<in> set es. event_ok (tatp_abs T sm) e \<and> e \<noteq> END_EXECUTION"
    using about_event_ok [OF sm(2)] es(3) by blast
  ultimately show thesis using that sm(2) es(2) by blast
qed

lemma main_config_partitions:
  assumes "1 \<le> partition_num" "partition_num \<le> 100"
  shows "0 < partitions (main_config memory parallelism partition_num)"
    "partitions (main_config memory parallelism partition_num) \<le> MAX_PARTITION_CNT"
proof -
  have "unat (word_of_int partition_num :: 64 word) = nat partition_num"
    using assms by (simp add: unsigned_of_int take_bit_int_eq_self)
  then show "0 < partitions (main_config memory parallelism partition_num)"
    "partitions (main_config memory parallelism partition_num) \<le> MAX_PARTITION_CNT"
    using assms by (simp_all add: partitions_def main_config_def MAX_PARTITION_CNT_def nat_le_iff)
qed

lemma main_config_threads:
  assumes "1 \<le> parallelism" "parallelism < 2 ^ 31"
  shows "0 < kParallelism (main_config memory parallelism partition_num)"
proof -
  have "unat (word_of_int parallelism :: 64 word) = nat parallelism"
    using assms by (simp add: unsigned_of_int take_bit_int_eq_self)
  then show ?thesis using assms by (simp add: main_config_def)
qed

text \<open>What the model gives for any number of threads, when an iteration of a thread's loop is one step.\<close>

lemma main_outcome:
  assumes "tbb_laws T" "rng_laws R" "arrays_distinct stk"
    and "1 \<le> partition_num" "partition_num \<le> 100" "1 \<le> parallelism" "parallelism < 2 ^ 31"
    and cfg: "cfg = main_config memory parallelism partition_num"
  shows "\<exists>db. \<forall>processor_no.
    (\<exists>r. tatp_main R T cfg stk g processor_no r) \<and>
    (\<forall>r. tatp_main R T cfg stk g processor_no r \<longrightarrow>
       (\<exists>sm. r = Inr (sm, NUM_TRANSACTIONS) \<and> tatp_inv T cfg sm \<and> tatp_abs T sm = db))"
proof -
  have parts: "0 < partitions cfg" "partitions cfg \<le> MAX_PARTITION_CNT" and k: "0 < kParallelism cfg"
    using main_config_partitions [OF assms(4,5)] main_config_threads [OF assms(6,7)] unfolding cfg by simp_all
  obtain sm es g' where prep: "main_prepare R T cfg stk g = Inr ((sm, es @ [END_EXECUTION]), g')"
    and pop: "populated T cfg stk (subscriber_size ScaleParams_new) sm" and len: "length es = NUM_TRANSACTIONS"
    and ok: "\<forall>e \<in> set es. event_ok (tatp_abs T sm) e \<and> e \<noteq> END_EXECUTION"
    using main_prepare_returns [OF assms(1,2) parts assms(3)] .
  have inv: "tatp_inv T cfg sm" using pop by (simp add: populated_def)
  obtain sm' where serial: "tatp_serial_start T cfg (es @ [END_EXECUTION]) 0 sm = Inr (sm', 0 + length es, [])"
      "tatp_inv T cfg sm'" "tatp_abs T sm' = fold (step_effect cfg) (events_steps (db_sid (tatp_abs T sm)) es) (tatp_abs T sm)"
    using serial_refines [OF inv ok] by metis
  have batch: "\<exists>sm2. r = Inr (sm2, length es, []) \<and> tatp_inv T cfg sm2 \<and> tatp_abs T sm2 = tatp_abs T sm'"
    if run: "tatp_batch_start T cfg q 0 sm r" and q: "map fst q = es @ [END_EXECUTION]" for q r
  proof -
    obtain q1 tm where q1: "q = q1 @ [(END_EXECUTION, tm)]" "map fst q1 = es"
      using q by (auto simp: map_eq_append_conv)
    have "\<forall>e \<in> fst ` set q1. event_ok (tatp_abs T sm) e \<and> e \<noteq> END_EXECUTION"
      using ok unfolding q1(2) [symmetric] set_map .
    then have "batch_result T cfg sm (map fst q1) 0 [] r"
      using batch_start_spec [OF k run q1(1) inv] by simp
    then show ?thesis using q1(2) serial(3) by (auto simp: batch_result_def)
  qed
  have runs: "\<exists>r. tatp_main R T cfg stk g processor_no r" for processor_no
  proof (cases "processor_no = 0")
    case True
    then show ?thesis using main_serial [OF prep] by blast
  next
    case False
    let ?q = "map (\<lambda>e. (e, False)) es"
    have "fst ` set ?q = set es" by (simp add: image_image)
    then have "\<forall>e \<in> fst ` set ?q. event_ok (tatp_abs T sm) e \<and> e \<noteq> END_EXECUTION" using ok by simp
    then obtain r where "tatp_batch_start T cfg (?q @ [(END_EXECUTION, False)]) 0 sm r"
      using batch_start_exists [OF k inv] by blast
    then show ?thesis using main_batch [OF prep False, of "?q @ [(END_EXECUTION, False)]"] by (auto simp: comp_def)
  qed
  have outcome: "\<exists>sm. r = Inr (sm, NUM_TRANSACTIONS) \<and> tatp_inv T cfg sm \<and> tatp_abs T sm = tatp_abs T sm'"
    if "tatp_main R T cfg stk g processor_no r" for processor_no r
    using that
  proof cases
    case (main_error e)
    then show ?thesis using prep by simp
  next
    case (main_serial sm1 q g1)
    then show ?thesis using prep serial(1,2) len by simp
  next
    case (main_batch sm1 q1 g1 q2 r1)
    then have "tatp_batch_start T cfg q2 0 sm r1" "map fst q2 = es @ [END_EXECUTION]" using prep by simp_all
    then show ?thesis using batch main_batch(1) len by fastforce
  qed
  show ?thesis using runs outcome by blast
qed

text \<open>C1: The benchmark runs to its end with the serial processor, for any number of threads, and with the batch
  processors run with one thread per loop: for one to a hundred partitions, populator, source and processor
  meet no error and do not hang, all hundred million transactions are executed, and the database at the end,
  all its tables, is the same for every processor, every reading of the timer and every order in which the
  iterations of the loops that run at the same time are interleaved. An iteration of a loop counts as one
  atomic step; with one thread per loop no two threads change the same \<open>CALL_FORWARDING\<close> table, the only
  tables records are inserted into and deleted from (with more threads they may, and meet the race of
  \<open>BaseTable::deleteRecord\<close>, so this theorem says nothing of them). The theorem needs that the uninitialised
  arrays the populator reads happen to hold different values.\<close>

theorem benchmark_outcome:
  fixes T :: "('q, 'h, 'm) tbb"
  assumes "tbb_laws T" "rng_laws R" "arrays_distinct stk"
    and "1 \<le> partition_num" "partition_num \<le> 100" "1 \<le> parallelism" "parallelism < 2 ^ 31"
    and cfg: "cfg = main_config memory parallelism partition_num"
  shows "(\<exists>db. \<forall>processor_no. processor_no = 0 \<or> parallelism = 1 \<longrightarrow>
      (\<exists>r. tatp_main R T cfg stk g processor_no r) \<and>
      (\<forall>r. tatp_main R T cfg stk g processor_no r \<longrightarrow>
         (\<exists>sm. r = Inr (sm, NUM_TRANSACTIONS) \<and> tatp_inv T cfg sm \<and> tatp_abs T sm = db))) \<and>
    (parallelism = 1 \<longrightarrow> (\<forall>sid es. forwardings_separate T cfg sid es))"
proof (rule conjI, goal_cases)
  case 1
  obtain db where db: "\<forall>processor_no. (\<exists>r. tatp_main R T cfg stk g processor_no r) \<and>
      (\<forall>r. tatp_main R T cfg stk g processor_no r \<longrightarrow>
         (\<exists>sm. r = Inr (sm, NUM_TRANSACTIONS) \<and> tatp_inv T cfg sm \<and> tatp_abs T sm = db))"
    using main_outcome [OF assms, of g] ..
  show ?case by (intro exI [of _ db] allI impI, rule spec [OF db])
next
  case 2
  show ?case
  proof (intro impI allI)
    fix sid es
    assume "parallelism = 1"
    then have one: "kParallelism cfg = 1" by (simp add: cfg main_config_def)
    show "forwardings_separate T cfg sid es"
      by (rule batch_forwardings_separate [OF _ _ _ one_thread])
        (use one main_config_partitions [OF assms(4,5)] in \<open>simp_all only: cfg zero_less_one\<close>)
  qed
qed

lemma benchmark_outcome_witness:
  "\<exists>db. \<forall>processor_no.
    (\<exists>r. tatp_main list_rng list_tbb (main_config (\<lambda>_. 0) 1 8) sample_arrays [1, 2, 3] processor_no r) \<and>
    (\<forall>r. tatp_main list_rng list_tbb (main_config (\<lambda>_. 0) 1 8) sample_arrays [1, 2, 3] processor_no r \<longrightarrow>
       (\<exists>sm. r = Inr (sm, NUM_TRANSACTIONS) \<and> tatp_inv list_tbb (main_config (\<lambda>_. 0) 1 8) sm \<and>
          tatp_abs list_tbb sm = db))"
  using conjunct1 [OF benchmark_outcome [OF list_tbb_laws list_rng_laws sample_arrays_distinct, of 8 1, OF _ _ _ _ refl]]
  by simp

end
