(* ===== verification/Distributions.thy ===== *)
theory Distributions
  imports Complex_Main RandomGenerator "HOL-Library.Signed_Division"
begin

unbundle bit_operations_syntax

text \<open>
  benchmark/distributions: the counter, the hash functions (Util.cc) and the Zipfian generators. Doubles
  and \<open>std::uniform_real_distribution\<close> are parameters: the operations the code uses on doubles are the
  record \<open>dbl\<close>, with the few facts of IEEE arithmetic the proofs need as \<open>dbl_laws\<close>. \<open>long\<close> has 64
  bits, \<open>int\<close> 32. The mutex of the generator and the warning it prints are left out.
\<close>

section \<open>CounterGenerator\<close>

record counter_generator =
  cg_counter :: "32 word"
  cg_lastint :: "32 word"

definition CounterGenerator_new :: "32 word \<Rightarrow> counter_generator" where
  "CounterGenerator_new count_start = \<lparr>cg_counter = count_start, cg_lastint = count_start - 1\<rparr>"

definition counter_nextInt :: "counter_generator \<Rightarrow> 32 word \<times> counter_generator" where
  "counter_nextInt c = (cg_counter c, \<lparr>cg_counter = cg_counter c + 1, cg_lastint = cg_counter c\<rparr>)"

definition counter_lastInt :: "counter_generator \<Rightarrow> 32 word" where
  "counter_lastInt c = cg_counter c - 1"

definition counter_reset :: "counter_generator \<Rightarrow> counter_generator" where
  "counter_reset c = \<lparr>cg_counter = 0, cg_lastint = - 1\<rparr>"

text \<open>\<open>lastInt\<close> gives what \<open>nextInt\<close> gave, although it does not read what \<open>setLastInt\<close> stored.\<close>

lemma counter_last: "counter_nextInt c = (i, c') \<Longrightarrow> counter_lastInt c' = i \<and> cg_lastint c' = i"
  by (auto simp: counter_nextInt_def counter_lastInt_def)

section \<open>Utils\<close>

definition FNVhash32_round :: "32 word \<times> 32 word \<Rightarrow> 32 word \<times> 32 word" where
  "FNVhash32_round = (\<lambda>(val, hashval).
     (signed_drop_bit 8 val, (hashval XOR (val AND 0xff)) * 16777619))"

definition FNVhash32 :: "32 word \<Rightarrow> 32 word" where
  "FNVhash32 val =
     (let hashval = snd ((FNVhash32_round ^^ 4) (val, 0x811c9dc5)) in
      if hashval <s 0 then - hashval else hashval)"

definition FNVhash64_round :: "64 word \<times> 64 word \<Rightarrow> 64 word \<times> 64 word" where
  "FNVhash64_round = (\<lambda>(val, hashval).
     (signed_drop_bit 8 val, (hashval XOR (val AND 0xff)) * 1099511628211))"

text \<open>
  \<open>FNVhash64\<close> ends with an unqualified \<open>abs\<close> of a \<open>long\<close>. Which function that is depends on the headers of the standard
  library: the one for \<open>long\<close>, or, when \<open><cstdlib>\<close> declares only the one for \<open>int\<close> outside the namespace
  \<open>std\<close>, as that of g++ (the compiler of the Makefile) does, the one for \<open>int\<close>, which keeps the lower 32 bits only. So
  the function is an argument.
\<close>

definition abs_long :: "64 word \<Rightarrow> 64 word" where
  "abs_long x = (if x <s 0 then - x else x)"

definition abs_int :: "64 word \<Rightarrow> 64 word" where
  "abs_int x = (let i = scast x :: 32 word in scast (if i <s 0 then - i else i))"

definition FNVhash64 :: "(64 word \<Rightarrow> 64 word) \<Rightarrow> 64 word \<Rightarrow> 64 word" where
  "FNVhash64 abs_fn val = abs_fn (snd ((FNVhash64_round ^^ 8) (val, 0xcbf29ce484222325)))"

definition Utils_hash :: "(64 word \<Rightarrow> 64 word) \<Rightarrow> 64 word \<Rightarrow> 64 word" where
  "Utils_hash abs_fn val = FNVhash64 abs_fn val"

text \<open>With the one for \<open>int\<close> the hash of 64 bits has 32.\<close>

lemma FNVhash64_int: "- (2 ^ 31) \<le> sint (FNVhash64 abs_int val) \<and> sint (FNVhash64 abs_int val) < 2 ^ 31"
proof -
  have "sint (scast i :: 64 word) = sint i" for i :: "32 word"
    by (rule sint_up_scast) (simp add: is_up)
  moreover have "- (2 ^ 31) \<le> sint i \<and> sint i < 2 ^ 31" for i :: "32 word"
    using sint_range_size [of i] by (simp add: word_size)
  ultimately show ?thesis by (simp add: FNVhash64_def abs_int_def Let_def)
qed

section \<open>Doubles\<close>

text \<open>\<open>d_lit m k\<close> is the literal \<open>m / 10 ^ k\<close>, \<open>d_trunc\<close> the conversion to an integer type.\<close>

record 'd dbl =
  d_of_int :: "int \<Rightarrow> 'd"
  d_lit :: "int \<Rightarrow> nat \<Rightarrow> 'd"
  d_add :: "'d \<Rightarrow> 'd \<Rightarrow> 'd"
  d_sub :: "'d \<Rightarrow> 'd \<Rightarrow> 'd"
  d_mul :: "'d \<Rightarrow> 'd \<Rightarrow> 'd"
  d_div :: "'d \<Rightarrow> 'd \<Rightarrow> 'd"
  d_pow :: "'d \<Rightarrow> 'd \<Rightarrow> 'd"
  d_less :: "'d \<Rightarrow> 'd \<Rightarrow> bool"
  d_eq :: "'d \<Rightarrow> 'd \<Rightarrow> bool"
  d_finite :: "'d \<Rightarrow> bool"
  d_trunc :: "'d \<Rightarrow> int"

record ('d, 'g) real_rng =
  uniform_real :: "'d \<Rightarrow> 'd \<Rightarrow> 'g \<Rightarrow> 'd \<times> 'g"

text \<open>A number from zero up to and without one is cut to zero; zero times a finite number is below one; the
  distribution gives numbers from its lower bound up to and without its upper bound.\<close>

definition dbl_laws :: "'d dbl \<Rightarrow> ('d, 'g) real_rng \<Rightarrow> bool" where
  "dbl_laws D Q \<longleftrightarrow>
     (\<forall>x. \<not> d_less D x (d_of_int D 0) \<and> d_less D x (d_of_int D 1) \<longrightarrow> d_trunc D x = 0) \<and>
     (\<forall>x. d_finite D x \<longrightarrow> d_less D (d_mul D (d_of_int D 0) x) (d_of_int D 1)) \<and>
     (\<forall>lo hi g. d_less D lo hi \<longrightarrow>
        \<not> d_less D (fst (uniform_real Q lo hi g)) lo \<and> d_less D (fst (uniform_real Q lo hi g)) hi) \<and>
     d_less D (d_of_int D 0) (d_of_int D 1) \<and> d_lit D 0 1 = d_of_int D 0 \<and> d_lit D 10 1 = d_of_int D 1"

text \<open>An instance: exact real numbers, and a distribution that gives the middle.\<close>

definition real_dbl :: "real dbl" where
  "real_dbl = \<lparr>d_of_int = of_int, d_lit = (\<lambda>m k. of_int m / 10 ^ k), d_add = (+), d_sub = (-), d_mul = (*),
     d_div = (/), d_pow = (powr), d_less = (<), d_eq = (=), d_finite = (\<lambda>_. True),
     d_trunc = (\<lambda>x. if 0 \<le> x then \<lfloor>x\<rfloor> else \<lceil>x\<rceil>)\<rparr>"

definition middle_rng :: "(real, nat) real_rng" where
  "middle_rng = \<lparr>uniform_real = (\<lambda>lo hi g. ((lo + hi) / 2, Suc g))\<rparr>"

lemma real_dbl_laws: "dbl_laws real_dbl middle_rng"
  by (auto simp: dbl_laws_def real_dbl_def middle_rng_def floor_eq_iff)

text \<open>\<open>RandomGenerator::generateDouble\<close>: its result type is \<open>int\<close>.\<close>

definition generateDouble :: "'d dbl \<Rightarrow> ('d, 'g) real_rng \<Rightarrow> 'd \<Rightarrow> 'd \<Rightarrow> ('g, 32 word) gen" where
  "generateDouble D Q mn mx g =
     (case uniform_real Q mn mx g of (x, g') \<Rightarrow> Inr (word_of_int (d_trunc D x), g'))"

section \<open>ZipfianGenerator\<close>

record 'd zipfian_generator =
  zg_items :: "64 word"
  zg_base :: "64 word"
  zg_zipfian_constant :: 'd
  zg_alpha :: 'd
  zg_zetan :: 'd
  zg_eta :: 'd
  zg_theta :: 'd
  zg_zeta2theta :: 'd
  zg_count_for_zeta :: "64 word"
  zg_allow_item_count_decrease :: bool
  zg_lastint :: "32 word"

definition zetastatic :: "'d dbl \<Rightarrow> 64 word \<Rightarrow> 64 word \<Rightarrow> 'd \<Rightarrow> 'd \<Rightarrow> 'd" where
  "zetastatic D st n th initialsum =
     fold (\<lambda>i acc. d_add D acc (d_div D (d_of_int D 1) (d_pow D (d_of_int D (i + 1)) th))) [sint st..sint n - 1] initialsum"

text \<open>\<open>(1 - pow(2.0 / items, 1 - theta)) / (1 - zeta2theta / zetan)\<close>.\<close>

definition zipf_eta :: "'d dbl \<Rightarrow> 'd zipfian_generator \<Rightarrow> 'd" where
  "zipf_eta D z =
     (let one = d_of_int D 1 in
      d_div D (d_sub D one (d_pow D (d_div D (d_lit D 20 1) (d_of_int D (sint (zg_items z)))) (d_sub D one (zg_theta z))))
        (d_sub D one (d_div D (zg_zeta2theta z) (zg_zetan z))))"

definition recompute_zeta :: "'d dbl \<Rightarrow> 64 word \<Rightarrow> 'd zipfian_generator \<Rightarrow> 'd zipfian_generator" where
  "recompute_zeta D item_count z =
     (if item_count = zg_count_for_zeta z then z
      else if zg_count_for_zeta z <s item_count then
        let z' = z\<lparr>zg_zetan := zetastatic D (zg_count_for_zeta z) item_count (zg_theta z) (zg_zetan z), zg_count_for_zeta := item_count\<rparr>
        in z'\<lparr>zg_eta := zipf_eta D z'\<rparr>
      else if item_count <s zg_count_for_zeta z \<and> zg_allow_item_count_decrease z then
        let z' = z\<lparr>zg_zetan := zetastatic D 0 item_count (zg_theta z) (d_of_int D 0), zg_count_for_zeta := item_count\<rparr>
        in z'\<lparr>zg_eta := zipf_eta D z'\<rparr>
      else z)"

definition zipf_nextLong ::
  "'d dbl \<Rightarrow> ('d, 'g) real_rng \<Rightarrow> 64 word \<Rightarrow> 'd zipfian_generator \<Rightarrow> ('g, 64 word \<times> 'd zipfian_generator) gen" where
  "zipf_nextLong D Q item_count z0 =
     (let z = recompute_zeta D item_count z0; one = d_of_int D 1 in
      gbnd (generateDouble D Q (d_lit D 0 1) (d_lit D 10 1)) (\<lambda>i.
      let u = d_of_int D (sint i); uz = d_mul D u (zg_zetan z) in
      if d_less D uz (d_lit D 10 1) then gret (0, z)
      else if d_less D uz (d_add D (d_lit D 10 1) (d_pow D (d_lit D 5 1) (zg_theta z))) then gret (1, z)
      else
        let x = d_mul D (d_of_int D (sint item_count))
              (d_pow D (d_add D (d_sub D (d_mul D (zg_eta z) u) (zg_eta z)) one) (zg_alpha z));
            ret = zg_base z + word_of_int (d_trunc D x)
        in gret (ret, z\<lparr>zg_lastint := scast ret\<rparr>)))"

text \<open>\<open>nextLong()\<close> and \<open>nextInt()\<close> use the number of items.\<close>

definition zipf_next ::
  "'d dbl \<Rightarrow> ('d, 'g) real_rng \<Rightarrow> 'd zipfian_generator \<Rightarrow> ('g, 64 word \<times> 'd zipfian_generator) gen" where
  "zipf_next D Q z = zipf_nextLong D Q (zg_items z) z"

definition zipf_nextInt ::
  "'d dbl \<Rightarrow> ('d, 'g) real_rng \<Rightarrow> 'd zipfian_generator \<Rightarrow> ('g, 32 word \<times> 'd zipfian_generator) gen" where
  "zipf_nextInt D Q z = gbnd (zipf_nextLong D Q (zg_items z) z) (\<lambda>(x, z). gret (scast x, z))"

text \<open>The constructor; \<open>memory\<close> is what the member \<open>lastint\<close> holds before it is set.\<close>

definition ZipfianGenerator_new ::
  "'d dbl \<Rightarrow> ('d, 'g) real_rng \<Rightarrow> 32 word \<Rightarrow> 64 word \<Rightarrow> 64 word \<Rightarrow> 'd \<Rightarrow> 'd \<Rightarrow> ('g, 'd zipfian_generator) gen" where
  "ZipfianGenerator_new D Q memory mn mx const zn =
     (let one = d_of_int D 1; n = mx - mn + 1;
          z = \<lparr>zg_items = n, zg_base = mn, zg_zipfian_constant = const,
               zg_alpha = d_div D (d_lit D 10 1) (d_sub D (d_lit D 10 1) const), zg_zetan = zn, zg_eta = zn, zg_theta = const,
               zg_zeta2theta = zetastatic D 0 2 const (d_of_int D 0), zg_count_for_zeta = n,
               zg_allow_item_count_decrease = False, zg_lastint = memory\<rparr>;
          z = z\<lparr>zg_eta := zipf_eta D z\<rparr>
      in gbnd (zipf_nextInt D Q z) (\<lambda>(_, z). gret z))"

section \<open>ScrambledZipfianGenerator\<close>

record 'd scrambled_generator =
  scr_gen :: "'d zipfian_generator"
  scr_min :: "64 word"
  scr_max :: "64 word"
  scr_item_count :: "64 word"
  scr_lastint :: "32 word"

definition ITEM_COUNT :: "64 word" where
  "ITEM_COUNT = 10000000000"

text \<open>\<open>ZETAN\<close> is the literal 26.46902820178302; without it the sum over all items is computed.\<close>

definition scrambled_zetan :: "'d dbl \<Rightarrow> 'd \<Rightarrow> 'd" where
  "scrambled_zetan D const =
     (if d_eq D const (d_lit D 99 2) then d_lit D 2646902820178302 14
      else zetastatic D 0 (ITEM_COUNT - 0 + 1) const (d_of_int D 0))"

definition ScrambledZipfianGenerator_new ::
  "'d dbl \<Rightarrow> ('d, 'g) real_rng \<Rightarrow> 32 word \<Rightarrow> 64 word \<Rightarrow> 64 word \<Rightarrow> 'd \<Rightarrow> ('g, 'd scrambled_generator) gen" where
  "ScrambledZipfianGenerator_new D Q memory mn mx const =
     gbnd (ZipfianGenerator_new D Q memory 0 ITEM_COUNT const (scrambled_zetan D const)) (\<lambda>z.
     gret \<lparr>scr_gen = z, scr_min = mn, scr_max = mx, scr_item_count = mx - mn + 1, scr_lastint = memory\<rparr>)"

definition scrambled_nextLong ::
  "(64 word \<Rightarrow> 64 word) \<Rightarrow> 'd dbl \<Rightarrow> ('d, 'g) real_rng \<Rightarrow> 'd scrambled_generator \<Rightarrow>
   ('g, 32 word \<times> 'd scrambled_generator) gen" where
  "scrambled_nextLong A D Q s =
     gbnd (zipf_next D Q (scr_gen s)) (\<lambda>(ret, z).
     if scr_item_count s = 0 then glift (Inl DivisionByZero)
     else
       let ret = scr_min s + word_of_int (sint (FNVhash64 A ret) smod sint (scr_item_count s))
       in gret (scast ret, s\<lparr>scr_gen := z, scr_lastint := scast ret\<rparr>))"

definition scrambled_mean :: "'d dbl \<Rightarrow> 'd scrambled_generator \<Rightarrow> 'd" where
  "scrambled_mean D s = d_div D (d_of_int D (sint (scr_min s + scr_max s))) (d_lit D 20 1)"

section \<open>What the generators give\<close>

text \<open>Numbers drawn one after the other.\<close>

primrec zipf_draws ::
  "'d dbl \<Rightarrow> ('d, 'g) real_rng \<Rightarrow> nat \<Rightarrow> 'd zipfian_generator \<Rightarrow> ('g, 64 word list \<times> 'd zipfian_generator) gen" where
  "zipf_draws D Q 0 z = gret ([], z)"
| "zipf_draws D Q (Suc k) z =
     gbnd (zipf_next D Q z) (\<lambda>(x, z).
     gbnd (zipf_draws D Q k z) (\<lambda>(xs, z). gret (x # xs, z)))"

primrec scrambled_draws ::
  "(64 word \<Rightarrow> 64 word) \<Rightarrow> 'd dbl \<Rightarrow> ('d, 'g) real_rng \<Rightarrow> nat \<Rightarrow> 'd scrambled_generator \<Rightarrow>
   ('g, 32 word list \<times> 'd scrambled_generator) gen" where
  "scrambled_draws A D Q 0 s = gret ([], s)"
| "scrambled_draws A D Q (Suc k) s =
     gbnd (scrambled_nextLong A D Q s) (\<lambda>(x, s).
     gbnd (scrambled_draws A D Q k s) (\<lambda>(xs, s). gret (x # xs, s)))"

lemma generateDouble_zero:
  assumes "dbl_laws D Q"
  shows "gen_returns (generateDouble D Q (d_lit D 0 1) (d_lit D 10 1)) (\<lambda>x. x = 0)"
  unfolding gen_returns_def
proof
  fix g
  obtain x g' where x: "uniform_real Q (d_of_int D 0) (d_of_int D 1) g = (x, g')" by fastforce
  let ?x = "fst (uniform_real Q (d_of_int D 0) (d_of_int D 1) g)"
  have "\<not> d_less D ?x (d_of_int D 0) \<and> d_less D ?x (d_of_int D 1)"
    using assms unfolding dbl_laws_def by blast
  then have "d_trunc D ?x = 0" using assms unfolding dbl_laws_def by blast
  moreover have "d_lit D 0 1 = d_of_int D 0" "d_lit D 10 1 = d_of_int D 1"
    using assms unfolding dbl_laws_def by blast+
  ultimately show "\<exists>y g'. generateDouble D Q (d_lit D 0 1) (d_lit D 10 1) g = Inr (y, g') \<and> y = 0"
    using x by (simp add: generateDouble_def)
qed

lemma zipf_nextLong_zero:
  assumes laws: "dbl_laws D Q" and z: "zg_count_for_zeta z = n" "d_finite D (zg_zetan z)"
  shows "gen_returns (zipf_nextLong D Q n z) (\<lambda>r. r = (0, z))"
proof -
  have rc: "recompute_zeta D n z = z" using z(1) by (simp add: recompute_zeta_def)
  have less: "d_less D (d_mul D (d_of_int D (sint (0 :: 32 word))) (zg_zetan z)) (d_lit D 10 1)"
    using laws z(2) by (simp add: dbl_laws_def)
  show ?thesis
    unfolding zipf_nextLong_def Let_def rc
    by (rule gbnd_returns [OF generateDouble_zero [OF laws]]) (simp only: less if_True gret_returns)
qed

lemma zipf_next_zero:
  assumes "dbl_laws D Q" "zg_count_for_zeta z = zg_items z" "d_finite D (zg_zetan z)"
  shows "gen_returns (zipf_next D Q z) (\<lambda>r. r = (0, z))" "gen_returns (zipf_nextInt D Q z) (\<lambda>r. r = (0, z))"
  unfolding zipf_next_def zipf_nextInt_def
  by (rule zipf_nextLong_zero [OF assms], rule gbnd_returns [OF zipf_nextLong_zero [OF assms]])
    (auto intro!: gret_returns)

lemma ZipfianGenerator_new_returns:
  assumes laws: "dbl_laws D Q" and zn: "d_finite D zn"
  shows "gen_returns (ZipfianGenerator_new D Q memory mn mx const zn) (\<lambda>z.
    zg_items z = mx - mn + 1 \<and> zg_count_for_zeta z = zg_items z \<and> zg_zetan z = zn \<and> zg_lastint z = memory)"
  unfolding ZipfianGenerator_new_def Let_def
  by (rule gbnd_returns [OF zipf_next_zero(2) [OF laws]]) (use zn in \<open>auto intro!: gret_returns\<close>)

lemma zipf_draws_zero:
  assumes laws: "dbl_laws D Q" and z: "zg_count_for_zeta z = zg_items z" "d_finite D (zg_zetan z)"
  shows "gen_returns (zipf_draws D Q k z) (\<lambda>r. r = (replicate k 0, z))"
proof (induction k)
  case 0
  then show ?case by (simp add: gret_returns)
next
  case (Suc k)
  show ?case
    by (auto intro!: gbnd_returns [OF zipf_next_zero(1) [OF laws z]] gbnd_returns [OF Suc] gret_returns)
qed

lemma scrambled_draws_constant:
  assumes laws: "dbl_laws D Q"
    and z: "zg_count_for_zeta (scr_gen s) = zg_items (scr_gen s)" "d_finite D (zg_zetan (scr_gen s))"
    and n: "scr_item_count s \<noteq> 0"
  shows "gen_returns (scrambled_draws A D Q k s) (\<lambda>r. fst r =
    replicate k (scast (scr_min s + word_of_int (sint (FNVhash64 A 0) smod sint (scr_item_count s)))))"
  using z n
proof (induction k arbitrary: s)
  case 0
  then show ?case by (simp add: gret_returns)
next
  case (Suc k)
  let ?x = "scr_min s + word_of_int (sint (FNVhash64 A 0) smod sint (scr_item_count s))"
  let ?s = "s\<lparr>scr_lastint := scast ?x\<rparr>"
  have "gen_returns (scrambled_nextLong A D Q s) (\<lambda>r. r = (scast ?x, ?s))"
    unfolding scrambled_nextLong_def
    by (rule gbnd_returns [OF zipf_next_zero(1) [OF laws Suc.prems(1,2)]])
      (use Suc.prems(3) in \<open>auto intro!: gret_returns simp: Let_def\<close>)
  moreover have "gen_returns (scrambled_draws A D Q k ?s) (\<lambda>r. fst r = replicate k (scast ?x))"
    using Suc.IH [of ?s] Suc.prems by simp
  ultimately show ?case
    by (auto intro!: gbnd_returns [where P = "\<lambda>r. r = (scast ?x, ?s)"] gbnd_returns [where P = "\<lambda>r. fst r = replicate k (scast ?x)"]
        gret_returns)
qed

text \<open>C27: The Zipfian generator gives zero for ever, for every constant, every range and every random sequence, as long as its
  \<open>zetan\<close> is a finite number: the random number between zero and one it starts from is returned as an \<open>int\<close>, so
  it is zero. The scrambled generator, for a range whose number of items is not zero and again a finite
  \<open>zetan\<close> (the literal for the constant 0.99, the sum over all items for the others), therefore gives one
  and the same number for ever, whichever function \<open>abs\<close> is; and the last number of the Zipfian generator is never
  set.\<close>

theorem zipfian_always_zero:
  assumes "dbl_laws D Q" "d_finite D zn" "d_finite D (scrambled_zetan D c)" "mx - mn + 1 \<noteq> 0"
  shows "(\<exists>z g'. ZipfianGenerator_new D Q memory mn mx const zn g = Inr (z, g') \<and> zg_lastint z = memory \<and>
      (\<forall>k g. \<exists>g'. zipf_draws D Q k z g = Inr ((replicate k 0, z), g'))) \<and>
    (\<exists>x s g'. ScrambledZipfianGenerator_new D Q memory mn mx c g = Inr (s, g') \<and>
      (\<forall>k g. \<exists>s' g'. scrambled_draws A D Q k s g = Inr ((replicate k x, s'), g')))"
proof (rule conjI)
  obtain z g1 where z: "ZipfianGenerator_new D Q memory mn mx const zn g = Inr (z, g1)"
    "zg_count_for_zeta z = zg_items z" "zg_zetan z = zn" "zg_lastint z = memory"
    using gen_returnsE [OF ZipfianGenerator_new_returns [OF assms(1,2)]] by metis
  have "\<exists>g'. zipf_draws D Q k z g = Inr ((replicate k 0, z), g')" for k g
    using gen_returnsE [OF zipf_draws_zero [OF assms(1) z(2)]] assms(2) z(3) by metis
  then show "\<exists>z g'. ZipfianGenerator_new D Q memory mn mx const zn g = Inr (z, g') \<and> zg_lastint z = memory \<and>
      (\<forall>k g. \<exists>g'. zipf_draws D Q k z g = Inr ((replicate k 0, z), g'))"
    using z(1,4) by blast
next
  obtain z g1 where z: "ZipfianGenerator_new D Q memory 0 ITEM_COUNT c (scrambled_zetan D c) g = Inr (z, g1)"
    "zg_count_for_zeta z = zg_items z" "zg_zetan z = scrambled_zetan D c"
    using gen_returnsE [OF ZipfianGenerator_new_returns [OF assms(1,3)]] by metis
  let ?s = "\<lparr>scr_gen = z, scr_min = mn, scr_max = mx, scr_item_count = mx - mn + 1, scr_lastint = memory\<rparr>"
  let ?x = "scast (mn + word_of_int (sint (FNVhash64 A 0) smod sint (mx - mn + 1))) :: 32 word"
  have "ScrambledZipfianGenerator_new D Q memory mn mx c g = Inr (?s, g1)"
    using z(1) by (simp add: ScrambledZipfianGenerator_new_def gbnd_def gret_def)
  moreover have "gen_returns (scrambled_draws A D Q k ?s) (\<lambda>r. fst r = replicate k ?x)" for k
    using scrambled_draws_constant [OF assms(1), of ?s A k] z(2,3) assms(3,4) by simp
  then have "\<exists>s' g'. scrambled_draws A D Q k ?s g = Inr ((replicate k ?x, s'), g')" for k g
    unfolding gen_returns_def by fastforce
  ultimately show "\<exists>x s g'. ScrambledZipfianGenerator_new D Q memory mn mx c g = Inr (s, g') \<and>
      (\<forall>k g. \<exists>s' g'. scrambled_draws A D Q k s g = Inr ((replicate k x, s'), g'))"
    by blast
qed

lemma zipfian_always_zero_witness:
  "(\<exists>z g'. ZipfianGenerator_new real_dbl middle_rng 7 1 100 (99 / 100) 5 0 = Inr (z, g') \<and> zg_lastint z = 7 \<and>
      (\<forall>k g. \<exists>g'. zipf_draws real_dbl middle_rng k z g = Inr ((replicate k 0, z), g'))) \<and>
   (\<exists>x s g'. ScrambledZipfianGenerator_new real_dbl middle_rng 7 1 100 (1 / 2) 0 = Inr (s, g') \<and>
      (\<forall>k g. \<exists>s' g'. scrambled_draws abs_int real_dbl middle_rng k s g = Inr ((replicate k x, s'), g')))"
proof -
  have "d_finite real_dbl 5" "d_finite real_dbl (scrambled_zetan real_dbl (1 / 2))"
    "(100 :: 64 word) - 1 + 1 \<noteq> 0"
    by (simp_all add: real_dbl_def)
  from zipfian_always_zero [OF real_dbl_laws this] show ?thesis by blast
qed

end
