(* ===== verification/ThreadPool.thy ===== *)
theory ThreadPool
  imports Prelude
begin

text \<open>
  The thread pool of \<open>src/common/ThreadPool.h\<close>: a queue of tasks, worker threads that wait on a
  condition variable for tasks, \<open>enqueue\<close>, and a destructor that lets the workers finish the queue and
  joins them. A step of the relation \<open>pool_step\<close> is what one thread does while it holds the mutex, one
  notification, or the end of one task, so that every interleaving of the program is a sequence of
  steps. A task is a \<open>packaged_task\<close>, which keeps an exception for the future: running it ends and
  throws nothing. The lists \<open>accepted\<close>, \<open>started\<close> and \<open>finished\<close> are no part of the program: they record
  which tasks \<open>enqueue\<close> took, workers popped, and workers completed.
\<close>

section \<open>State\<close>

text \<open>
  A worker is about to take the mutex, waits on the condition variable, runs a task, or has
  returned. The destructor has not begun, has set \<open>stop\<close>, has notified the workers and joins them, or has
  returned. \<open>notifying\<close> counts the calls of \<open>enqueue\<close> that released the mutex and have not called
  \<open>notify_one\<close> yet.
\<close>

datatype 'a worker = AtLock | Asleep | Running 'a | Exited

datatype destructor_phase = Alive | Stopping | Joining | Destroyed

record 'a pool =
  workers :: "'a worker list"
  tasks :: "'a list"
  stop :: bool
  notifying :: nat
  phase :: destructor_phase
  accepted :: "'a list"
  started :: "'a list"
  finished :: "'a list"

section \<open>Operations\<close>

definition ThreadPool_new :: "nat \<Rightarrow> 'a pool" where
  "ThreadPool_new threads =
     \<lparr>workers = replicate threads AtLock, tasks = [], stop = False, notifying = 0, phase = Alive,
      accepted = [], started = [], finished = []\<rparr>"

text \<open>
  The body of a worker while it holds the mutex: \<open>wait\<close> with its predicate goes (back) to sleep when
  there is no task and the pool is not stopped.
\<close>

definition worker_section :: "nat \<Rightarrow> 'a pool \<Rightarrow> 'a pool" where
  "worker_section i p =
     (case tasks p of
        [] \<Rightarrow> p\<lparr>workers := (workers p)[i := (if stop p then Exited else Asleep)]\<rparr>
      | task # rest \<Rightarrow>
          p\<lparr>workers := (workers p)[i := Running task], tasks := rest, started := started p @ [task]\<rparr>)"

definition worker_task_end :: "nat \<Rightarrow> 'a \<Rightarrow> 'a pool \<Rightarrow> 'a pool" where
  "worker_task_end i task p = p\<lparr>workers := (workers p)[i := AtLock], finished := finished p @ [task]\<rparr>"

definition ThreadPool_enqueue :: "'a \<Rightarrow> 'a pool \<Rightarrow> 'a pool result" where
  "ThreadPool_enqueue task p =
     (if stop p then Inl RuntimeError
      else Inr (p\<lparr>tasks := tasks p @ [task], accepted := accepted p @ [task], notifying := notifying p + 1\<rparr>))"

definition wake :: "nat \<Rightarrow> 'a pool \<Rightarrow> 'a pool" where
  "wake i p = p\<lparr>workers := (workers p)[i := AtLock]\<rparr>"

definition notified :: "'a pool \<Rightarrow> 'a pool" where
  "notified p = p\<lparr>notifying := notifying p - 1\<rparr>"

definition destructor_stop :: "'a pool \<Rightarrow> 'a pool" where
  "destructor_stop p = p\<lparr>stop := True, phase := Stopping\<rparr>"

fun woken :: "'a worker \<Rightarrow> 'a worker" where
  "woken Asleep = AtLock"
| "woken w = w"

definition destructor_notify_all :: "'a pool \<Rightarrow> 'a pool" where
  "destructor_notify_all p = p\<lparr>workers := map woken (workers p), phase := Joining\<rparr>"

definition destructor_join :: "'a pool \<Rightarrow> 'a pool" where
  "destructor_join p = p\<lparr>phase := Destroyed\<rparr>"

section \<open>Steps\<close>

text \<open>
  \<open>NotifyOne\<close> carries the worker the notification wakes, or \<open>None\<close> when no worker waits; a wait may also
  end without a notification (\<open>Spurious\<close>). The pool outlives the calls of \<open>enqueue\<close>: no call starts after
  the destructor returned, and the destructor does not return while one has its notification to make.
\<close>

datatype 'a pool_event =
    Section nat | TaskEnd nat | Enqueue 'a | NotifyOne "nat option" | Spurious nat
  | SetStop | NotifyAll | Join

inductive pool_step :: "'a pool \<Rightarrow> 'a pool_event \<Rightarrow> 'a pool \<Rightarrow> bool" where
  sec: "i < length (workers p) \<Longrightarrow> workers p ! i = AtLock \<Longrightarrow> pool_step p (Section i) (worker_section i p)"
| task_end: "i < length (workers p) \<Longrightarrow> workers p ! i = Running task \<Longrightarrow>
    pool_step p (TaskEnd i) (worker_task_end i task p)"
| enqueue: "phase p \<noteq> Destroyed \<Longrightarrow> ThreadPool_enqueue task p = Inr p' \<Longrightarrow> pool_step p (Enqueue task) p'"
| notify_wakes: "0 < notifying p \<Longrightarrow> i < length (workers p) \<Longrightarrow> workers p ! i = Asleep \<Longrightarrow>
    pool_step p (NotifyOne (Some i)) (notified (wake i p))"
| notify_nobody: "0 < notifying p \<Longrightarrow> Asleep \<notin> set (workers p) \<Longrightarrow>
    pool_step p (NotifyOne None) (notified p)"
| spurious: "i < length (workers p) \<Longrightarrow> workers p ! i = Asleep \<Longrightarrow> pool_step p (Spurious i) (wake i p)"
| set_stop: "phase p = Alive \<Longrightarrow> pool_step p SetStop (destructor_stop p)"
| notify_all: "phase p = Stopping \<Longrightarrow> pool_step p NotifyAll (destructor_notify_all p)"
| join: "phase p = Joining \<Longrightarrow> set (workers p) \<subseteq> {Exited} \<Longrightarrow> notifying p = 0 \<Longrightarrow>
    pool_step p Join (destructor_join p)"

inductive_cases pool_stepE: "pool_step p e p'"

inductive pool_run :: "'a pool \<Rightarrow> 'a pool_event list \<Rightarrow> 'a pool \<Rightarrow> bool" where
  run_nil: "pool_run p [] p"
| run_cons: "pool_step p e p1 \<Longrightarrow> pool_run p1 es p2 \<Longrightarrow> pool_run p (e # es) p2"

inductive pool_reachable :: "nat \<Rightarrow> 'a pool \<Rightarrow> bool" for threads where
  reach_new: "pool_reachable threads (ThreadPool_new threads)"
| reach_step: "pool_reachable threads p \<Longrightarrow> pool_step p e p' \<Longrightarrow> pool_reachable threads p'"

section \<open>Sums over the workers\<close>

definition tally :: "('a worker \<Rightarrow> 'b::comm_monoid_add) \<Rightarrow> 'a worker list \<Rightarrow> 'b" where
  "tally f ws = sum_list (map f ws)"

lemma tally_simps [simp]:
  "tally f [] = 0"
  "tally f (w # ws) = f w + tally f ws"
  by (simp_all add: tally_def)

lemma tally_update:
  "i < length ws \<Longrightarrow> tally f (ws[i := w]) + f (ws ! i) = tally f ws + f w"
  by (induction ws arbitrary: i) (auto simp: add.assoc add.commute add.left_commute nth_Cons split: nat.splits)

lemma tally_update_nat:
  "i < length ws \<Longrightarrow> tally f (ws[i := w]) = tally f ws + f w - (f (ws ! i) :: nat)"
  using tally_update [of i ws f w] by simp

lemma tally_update_same:
  fixes f :: "'a worker \<Rightarrow> 'b::cancel_comm_monoid_add"
  shows "i < length ws \<Longrightarrow> f (ws ! i) = f w \<Longrightarrow> tally f (ws[i := w]) = tally f ws"
  using tally_update [of i ws f w] by simp

lemma tally_ge: "i < length ws \<Longrightarrow> f (ws ! i) \<le> (tally f ws :: nat)"
  by (induction ws arbitrary: i) (auto simp: nth_Cons trans_le_add2 split: nat.splits)

lemma tally_map: "tally f (map g ws) = tally (f \<circ> g) ws"
  by (simp add: tally_def)

lemma tally_mono: "(\<And>w. w \<in> set ws \<Longrightarrow> f w \<le> g w + (k :: nat)) \<Longrightarrow> tally f ws \<le> tally g ws + length ws * k"
  by (induction ws) (force simp: algebra_simps)+

lemma tally_zeroI: "(\<And>w. w \<in> set ws \<Longrightarrow> f w = 0) \<Longrightarrow> tally f ws = 0"
  by (induction ws) auto

text \<open>The workers about to take the mutex, and the tasks being run.\<close>

fun at_lock :: "'a worker \<Rightarrow> nat" where
  "at_lock AtLock = 1"
| "at_lock w = 0"

fun running_task :: "'a worker \<Rightarrow> 'a multiset" where
  "running_task (Running task) = {#task#}"
| "running_task w = {#}"

abbreviation running :: "'a pool \<Rightarrow> 'a multiset" where
  "running p \<equiv> tally running_task (workers p)"

lemma woken_facts [simp]:
  "running_task (woken w) = running_task w"
  "woken w \<noteq> Asleep"
  "woken w = Exited \<longleftrightarrow> w = Exited"
  by (cases w; simp)+

lemma woken_set [simp]:
  "Asleep \<notin> woken ` set ws"
  "Exited \<in> woken ` set ws \<longleftrightarrow> Exited \<in> set ws"
  by (metis imageE woken_facts(2), metis image_iff woken_facts(3))

section \<open>The invariant\<close>

definition pool_inv :: "nat \<Rightarrow> 'a pool \<Rightarrow> bool" where
  "pool_inv threads p \<longleftrightarrow>
     length (workers p) = threads \<and>
     accepted p = started p @ tasks p \<and>
     mset (started p) = mset (finished p) + running p \<and>
     (stop p \<longleftrightarrow> phase p \<noteq> Alive) \<and>
     (Exited \<in> set (workers p) \<longrightarrow> stop p \<and> tasks p = []) \<and>
     (Asleep \<in> set (workers p) \<longrightarrow> length (tasks p) \<le> tally at_lock (workers p) + notifying p) \<and>
     (phase p \<in> {Joining, Destroyed} \<longrightarrow> Asleep \<notin> set (workers p)) \<and>
     (phase p = Destroyed \<longrightarrow> set (workers p) \<subseteq> {Exited})"

lemma pool_invD:
  assumes "pool_inv threads p"
  shows "length (workers p) = threads"
    and "accepted p = started p @ tasks p"
    and "mset (started p) = mset (finished p) + running p"
    and "stop p \<longleftrightarrow> phase p \<noteq> Alive"
    and "Exited \<in> set (workers p) \<Longrightarrow> stop p"
    and "Exited \<in> set (workers p) \<Longrightarrow> tasks p = []"
    and "Asleep \<in> set (workers p) \<Longrightarrow> length (tasks p) \<le> tally at_lock (workers p) + notifying p"
    and "phase p \<in> {Joining, Destroyed} \<Longrightarrow> Asleep \<notin> set (workers p)"
    and "phase p = Destroyed \<Longrightarrow> set (workers p) \<subseteq> {Exited}"
  using assms by (auto simp: pool_inv_def)

lemma in_set_update: "x \<in> set (ws[i := w]) \<Longrightarrow> x = w \<or> x \<in> set ws"
  using set_update_subset_insert [of ws i w] by auto

lemma pool_inv_new [inv_intros]: "pool_inv threads (ThreadPool_new threads)"
proof -
  have "tally running_task (replicate threads AtLock) = {#}" by (induction threads) auto
  then show ?thesis by (simp add: pool_inv_def ThreadPool_new_def)
qed

lemma pool_inv_section:
  assumes inv: "pool_inv threads p" and i: "i < length (workers p)" "workers p ! i = AtLock"
  shows "pool_inv threads (worker_section i p)"
proof (cases "tasks p")
  case Nil
  have alive: "phase p \<noteq> Destroyed"
    using pool_invD(9) [OF inv] nth_mem [OF i(1)] i(2) by auto
  have "running (worker_section i p) = running p"
    using i Nil by (simp add: worker_section_def tally_update_same)
  then show ?thesis
    using inv Nil alive by (auto simp: pool_inv_def worker_section_def dest!: in_set_update)
next
  case (Cons task rest)
  have "running (worker_section i p) = running p + {#task#}"
    using tally_update [OF i(1), of running_task "Running task"] i(2) Cons by (simp add: worker_section_def)
  moreover have "Asleep \<in> set (workers p) \<Longrightarrow> length rest \<le> tally at_lock ((workers p)[i := Running task]) + notifying p"
    using pool_invD(7) [OF inv] tally_update_nat [OF i(1), of at_lock "Running task"] i(2) Cons by simp
  moreover have "phase p \<noteq> Destroyed"
    using pool_invD(9) [OF inv] nth_mem [OF i(1)] i(2) by auto
  ultimately show ?thesis
    using inv Cons by (auto simp: pool_inv_def worker_section_def dest!: in_set_update)
qed

lemma pool_inv_task_end:
  assumes inv: "pool_inv threads p" and i: "i < length (workers p)" "workers p ! i = Running task"
  shows "pool_inv threads (worker_task_end i task p)"
proof -
  have "running (worker_task_end i task p) + {#task#} = running p"
    using tally_update [OF i(1), of running_task AtLock] i(2) by (simp add: worker_task_end_def)
  then have "mset (finished p @ [task]) + tally running_task ((workers p)[i := AtLock]) = mset (started p)"
    using pool_invD(3) [OF inv] by (simp add: worker_task_end_def)
  moreover have "tally at_lock (workers p) \<le> tally at_lock ((workers p)[i := AtLock])"
    using tally_update_nat [OF i(1), of at_lock AtLock] i(2) by simp
  moreover have "phase p \<noteq> Destroyed"
    using pool_invD(9) [OF inv] nth_mem [OF i(1)] i(2) by auto
  ultimately show ?thesis
    using inv by (auto simp: pool_inv_def worker_task_end_def dest!: in_set_update)
qed

lemma pool_inv_wake:
  assumes inv: "pool_inv threads p" and i: "i < length (workers p)" "workers p ! i = Asleep"
  shows "pool_inv threads (wake i p)" and "0 < notifying p \<Longrightarrow> pool_inv threads (notified (wake i p))"
proof -
  have asleep: "Asleep \<in> set (workers p)" using nth_mem [OF i(1)] i(2) by simp
  have lock: "tally at_lock ((workers p)[i := AtLock]) = tally at_lock (workers p) + 1"
    using tally_update_nat [OF i(1), of at_lock AtLock] i(2) by simp
  have run: "tally running_task ((workers p)[i := AtLock]) = running p"
    using i by (simp add: tally_update_same)
  have "phase p \<notin> {Joining, Destroyed}" using pool_invD(8) [OF inv] asleep by auto
  then show "pool_inv threads (wake i p)" "0 < notifying p \<Longrightarrow> pool_inv threads (notified (wake i p))"
    using inv asleep lock run
    by (auto simp: pool_inv_def wake_def notified_def dest!: in_set_update)
qed

lemma pool_inv_step:
  assumes "pool_step p e p'" and inv: "pool_inv threads p"
  shows "pool_inv threads p'"
  using assms(1)
proof cases
  case (enqueue task)
  then show ?thesis using inv by (auto simp: pool_inv_def ThreadPool_enqueue_def split: if_splits)
next
  case notify_nobody
  then show ?thesis using inv by (auto simp: pool_inv_def notified_def)
next
  case notify_all
  have "tally running_task (map woken (workers p)) = running p" by (simp add: tally_map comp_def)
  then show ?thesis
    using notify_all inv by (auto simp: pool_inv_def destructor_notify_all_def)
next
  case set_stop
  then show ?thesis using inv by (auto simp: pool_inv_def destructor_stop_def)
next
  case join
  then show ?thesis using inv by (auto simp: pool_inv_def destructor_join_def)
qed (use inv in \<open>auto intro: pool_inv_section pool_inv_task_end pool_inv_wake\<close>)

lemma reachable_inv: "pool_reachable threads p \<Longrightarrow> pool_inv threads p"
  by (induction rule: pool_reachable.induct) (auto intro: pool_inv_new pool_inv_step)


section \<open>Quiet runs\<close>

text \<open>
  The steps the workers, the pending notifications and the rest of the destructor make by themselves:
  everything but new calls of \<open>enqueue\<close>, the start of the destructor and spurious wake-ups.
\<close>

fun quiet :: "'a pool_event \<Rightarrow> bool" where
  "quiet (Enqueue task) = False"
| "quiet (Spurious i) = False"
| "quiet SetStop = False"
| "quiet e = True"

fun phase_rank :: "destructor_phase \<Rightarrow> nat" where
  "phase_rank Alive = 3"
| "phase_rank Stopping = 2"
| "phase_rank Joining = 1"
| "phase_rank Destroyed = 0"

fun worker_rank :: "'a worker \<Rightarrow> nat" where
  "worker_rank AtLock = 1"
| "worker_rank (Running task) = 2"
| "worker_rank w = 0"

definition pool_rank :: "'a pool \<Rightarrow> nat" where
  "pool_rank p =
     2 * length (tasks p) + tally worker_rank (workers p) + 2 * notifying p +
     phase_rank (phase p) * (length (workers p) + 1)"

lemma quiet_step_rank:
  assumes "pool_step p e p'" and "quiet e"
  shows "pool_rank p' < pool_rank p"
  using assms(1)
proof cases
  case (sec i)
  then show ?thesis
    using tally_ge [of i "workers p" worker_rank]
    by (auto simp: worker_section_def pool_rank_def tally_update_nat split: list.split)
next
  case (task_end i task)
  then show ?thesis
    using tally_ge [of i "workers p" worker_rank]
    by (auto simp: worker_task_end_def pool_rank_def tally_update_nat)
next
  case (notify_wakes i)
  then show ?thesis
    by (auto simp: notified_def wake_def pool_rank_def tally_update_nat)
next
  case notify_all
  have "tally worker_rank (map woken (workers p)) \<le> tally worker_rank (workers p) + length (workers p) * 1"
    unfolding tally_map by (rule tally_mono) (case_tac w; simp)
  then show ?thesis
    using notify_all by (simp add: destructor_notify_all_def pool_rank_def)
qed (use assms(2) in \<open>auto simp: notified_def destructor_join_def pool_rank_def\<close>)

lemma quiet_run_rank:
  "pool_run p es p' \<Longrightarrow> list_all quiet es \<Longrightarrow> length es + pool_rank p' \<le> pool_rank p"
  by (induction rule: pool_run.induct) (auto dest: quiet_step_rank)

lemma pool_run_reachable:
  "pool_run p es p' \<Longrightarrow> pool_reachable threads p \<Longrightarrow> pool_reachable threads p'"
  by (induction rule: pool_run.induct) (auto intro: reach_step)

lemma pool_run_snoc: "pool_run p es p1 \<Longrightarrow> pool_step p1 e p2 \<Longrightarrow> pool_run p (es @ [e]) p2"
  by (induction rule: pool_run.induct) (auto intro: pool_run.intros)

text \<open>A state with no quiet step, and that every state reaches one.\<close>

definition settled :: "'a pool \<Rightarrow> bool" where
  "settled p \<longleftrightarrow> (\<forall>e p'. quiet e \<longrightarrow> \<not> pool_step p e p')"

lemma quiet_run_settles:
  obtains es p' where "pool_run p es p'" "list_all quiet es" "settled p'"
proof -
  have "\<exists>es p'. pool_run p es p' \<and> list_all quiet es \<and> settled p'"
  proof (induction "pool_rank p" arbitrary: p rule: less_induct)
    case less
    show ?case
    proof (cases "settled p")
      case True
      then show ?thesis using run_nil [of p] by (intro exI [of _ "[]"] exI [of _ p]) simp
    next
      case False
      then obtain e p1 where step: "quiet e" "pool_step p e p1" by (auto simp: settled_def)
      then obtain es p2 where "pool_run p1 es p2" "list_all quiet es" "settled p2"
        using less [of p1] quiet_step_rank by blast
      then show ?thesis using step run_cons [OF step(2)] by (intro exI [of _ "e # es"]) auto
    qed
  qed
  then show thesis using that by blast
qed

lemma settledD:
  assumes "settled p"
  shows "AtLock \<notin> set (workers p)"
    and "Running task \<notin> set (workers p)"
    and "notifying p = 0"
    and "phase p \<noteq> Stopping"
    and "phase p = Joining \<Longrightarrow> \<not> set (workers p) \<subseteq> {Exited}"
proof -
  have no: "\<And>e p'. quiet e \<Longrightarrow> \<not> pool_step p e p'" using assms by (simp add: settled_def)
  show "AtLock \<notin> set (workers p)"
    using no [OF _] sec [of _ p] by (fastforce simp: in_set_conv_nth)
  show "Running task \<notin> set (workers p)"
    using no task_end [of _ p] by (fastforce simp: in_set_conv_nth)
  show "notifying p = 0"
  proof (rule ccontr)
    assume n: "notifying p \<noteq> 0"
    then have "Asleep \<notin> set (workers p)"
      using no notify_wakes [of p] by (fastforce simp: in_set_conv_nth)
    then show False using no notify_nobody [of p] n by fastforce
  qed
  then show "phase p = Joining \<Longrightarrow> \<not> set (workers p) \<subseteq> {Exited}"
    using no join [of p] by fastforce
  show "phase p \<noteq> Stopping" using no notify_all [of p] by fastforce
qed

lemma settled_state:
  assumes inv: "pool_inv threads p" and "0 < threads" and settled: "settled p"
  shows "tasks p = []" and "mset (finished p) = mset (accepted p)"
    and "\<not> stop p \<Longrightarrow> set (workers p) = {Asleep}"
    and "stop p \<Longrightarrow> phase p = Destroyed \<and> set (workers p) = {Exited}"
proof -
  note idle = settledD [OF settled]
  have workers: "w = Asleep \<or> w = Exited" if "w \<in> set (workers p)" for w
    using that idle(1) idle(2) by (cases w rule: worker.exhaust) auto
  have some: "workers p \<noteq> []" using assms(2) pool_invD(1) [OF inv] by auto
  have lock: "tally at_lock (workers p) = 0" using workers by (intro tally_zeroI) fastforce
  have run: "running p = {#}"
    using workers by (intro tally_zeroI) fastforce
  show tasks: "tasks p = []"
  proof (cases "Asleep \<in> set (workers p)")
    case True
    then show ?thesis using pool_invD(7) [OF inv] lock idle(3) by simp
  next
    case False
    then have "Exited \<in> set (workers p)" using workers some by (cases "workers p") auto
    then show ?thesis by (rule pool_invD(6) [OF inv])
  qed
  show "mset (finished p) = mset (accepted p)"
    using pool_invD(2,3) [OF inv] tasks run by simp
  show "set (workers p) = {Asleep}" if "\<not> stop p"
    using that workers pool_invD(5) [OF inv] some by (cases "workers p") auto
  show "phase p = Destroyed \<and> set (workers p) = {Exited}" if "stop p"
  proof -
    have "phase p \<in> {Joining, Destroyed}"
      using that idle(4) pool_invD(4) [OF inv] by (cases "phase p") auto
    then have "set (workers p) = {Exited}"
      using workers pool_invD(8) [OF inv] some by (cases "workers p") auto
    then show ?thesis using idle(5) \<open>phase p \<in> {Joining, Destroyed}\<close> by auto
  qed
qed


section \<open>A pool with one worker\<close>

text \<open>One worker executes the tasks one after the other: they are finished in the order of acceptance.\<close>

fun current_task :: "'a worker list \<Rightarrow> 'a list" where
  "current_task [Running task] = [task]"
| "current_task ws = []"

lemma one_worker_step:
  assumes "pool_step p e p'" "length (workers p) = 1" "started p = finished p @ current_task (workers p)"
  shows "started p' = finished p' @ current_task (workers p')"
proof -
  obtain w where w: "workers p = [w]" using assms(2) by (auto simp: length_Suc_conv)
  from assms(1) show ?thesis
    by (cases rule: pool_stepE; cases w)
      (use assms(3) w in \<open>auto simp: worker_section_def worker_task_end_def ThreadPool_enqueue_def wake_def notified_def
        destructor_stop_def destructor_notify_all_def destructor_join_def nth_Cons split: list.split if_splits nat.splits\<close>)
qed

lemma one_worker_order:
  assumes "pool_reachable 1 p"
  shows "\<exists>more. accepted p = finished p @ more"
proof -
  from assms have "started p = finished p @ current_task (workers p)"
  proof induction
    case reach_new
    then show ?case by (simp add: ThreadPool_new_def)
  next
    case (reach_step p e p')
    then show ?case using one_worker_step pool_invD(1) [OF reachable_inv [OF reach_step(1)]] by blast
  qed
  then show ?thesis using pool_invD(2) [OF reachable_inv [OF assms]] by auto
qed

section \<open>A run of a pool with two workers\<close>

text \<open>The first worker finds no task and sleeps, two tasks come, the second worker takes one of them.\<close>

definition sample_pool :: "nat pool" where
  "sample_pool =
     \<lparr>workers = [Asleep, Running 7], tasks = [8], stop = False, notifying = 2, phase = Alive,
      accepted = [7, 8], started = [7], finished = []\<rparr>"

lemma sample_pool_reachable: "pool_reachable 2 sample_pool"
proof -
  note defs = worker_section_def ThreadPool_enqueue_def numeral_2_eq_2
  let ?p = "\<lambda>ws queue n log. \<lparr>workers = ws, tasks = queue, stop = False, notifying = n, phase = Alive,
    accepted = log, started = [], finished = []\<rparr>"
  have start: "ThreadPool_new 2 = ?p [AtLock, AtLock] [] 0 ([] :: nat list)"
    by (simp add: ThreadPool_new_def numeral_2_eq_2)
  have "pool_reachable 2 (?p [AtLock, AtLock] [] 0 ([] :: nat list))"
    unfolding start [symmetric] by (rule reach_new)
  then have "pool_reachable 2 (?p [Asleep, AtLock] [] 0 ([] :: nat list))"
    by (rule reach_step) (use sec [of 0 "?p [AtLock, AtLock] [] 0 []"] in \<open>simp add: defs\<close>)
  then have "pool_reachable 2 (?p [Asleep, AtLock] [7] 1 [7 :: nat])"
    by (rule reach_step) (rule enqueue, simp_all add: defs)
  then have "pool_reachable 2 (?p [Asleep, AtLock] [7, 8] 2 [7, 8 :: nat])"
    by (rule reach_step) (rule enqueue, simp_all add: defs)
  then show ?thesis
    by (rule reach_step)
      (use sec [of 1 "?p [Asleep, AtLock] [7, 8] 2 [7, 8]"] in \<open>simp add: defs sample_pool_def\<close>)
qed

lemma sample_pool_stopping: "pool_reachable 2 (destructor_stop sample_pool)"
  using reach_step [OF sample_pool_reachable set_stop [of sample_pool]] by (simp add: sample_pool_def)

section \<open>What the pool promises\<close>

text \<open>C18: In every reachable state of the pool, whatever the interleaving of its workers, of calls of enqueue and of
  the destructor, the tasks enqueue accepted were started in the order of acceptance, the rest of them is
  the queue, and every started task is being run by one worker or has been finished: no task is
  lost or run twice.\<close>

theorem pool_fifo:
  assumes "pool_reachable threads p"
  shows "accepted p = started p @ tasks p \<and>
    mset (accepted p) = mset (finished p) + running p + mset (tasks p) \<and> size (running p) \<le> threads"
proof -
  note inv = reachable_inv [OF assms]
  have "size (tally running_task ws) \<le> length ws" for ws :: "'a worker list"
  proof (induction ws)
    case (Cons w ws)
    then show ?case by (cases w) auto
  qed simp
  then show ?thesis using pool_invD(1-3) [OF inv] by auto
qed

lemma pool_fifo_witness:
  "accepted sample_pool = started sample_pool @ tasks sample_pool \<and>
   mset (accepted sample_pool) = {#7, 8#} \<and> running sample_pool = {#7#}"
  using pool_fifo [OF sample_pool_reachable] by (simp add: sample_pool_def)

text \<open>C17: A notification is never lost: while a worker sleeps on the condition variable, every queued task has a worker
  that is about to take the mutex or a notification that enqueue has still to make.\<close>

theorem pool_no_lost_wakeup:
  assumes "pool_reachable threads p" and "Asleep \<in> set (workers p)"
  shows "length (tasks p) \<le> length (filter (\<lambda>w. w = AtLock) (workers p)) + notifying p"
proof -
  have "tally at_lock ws = length (filter (\<lambda>w. w = AtLock) ws)" for ws :: "'a worker list"
  proof (induction ws)
    case (Cons w ws)
    then show ?case by (cases w) auto
  qed simp
  then show ?thesis using pool_invD(7) [OF reachable_inv [OF assms(1)] assms(2)] by simp
qed

lemma pool_no_lost_wakeup_witness:
  "Asleep \<in> set (workers sample_pool) \<and> length (tasks sample_pool) = 1 \<and>
   length (tasks sample_pool) \<le> length (filter (\<lambda>w. w = AtLock) (workers sample_pool)) + notifying sample_pool"
  using pool_no_lost_wakeup [OF sample_pool_reachable] by (simp add: sample_pool_def)

text \<open>C19: Without new calls, spurious wake-ups or the start of the destructor, the workers and the destructor come to
  rest: a run has at most as many steps as the rank of its first state, which is 2 for each queued
  task and each pending notification, at most 2 for each worker, and the number of workers plus 1 for each
  step left to the destructor; and a run to a state of rest exists.\<close>

theorem pool_comes_to_rest:
  "(\<forall>es p'. pool_run p es p' \<and> list_all quiet es \<longrightarrow> length es \<le> pool_rank p) \<and>
   (\<exists>es p'. pool_run p es p' \<and> list_all quiet es \<and> settled p')"
proof -
  have "length es \<le> pool_rank p" if "pool_run p es p'" "list_all quiet es" for es p'
    using quiet_run_rank [OF that] by simp
  moreover obtain es p' where "pool_run p es p'" "list_all quiet es" "settled p'"
    by (rule quiet_run_settles)
  ultimately show ?thesis by blast
qed

lemma pool_comes_to_rest_witness:
  "\<exists>es p'. pool_run sample_pool es p' \<and> list_all quiet es \<and> settled p' \<and> length es \<le> 17"
  using pool_comes_to_rest [of sample_pool] by (auto simp: pool_rank_def sample_pool_def)

text \<open>C16: Once the destructor of a pool with a worker has begun, enqueue throws, and every run of the workers that
  cannot go on ends with all workers returned and joined, no task in the queue, and every task that was
  ever accepted finished exactly once.\<close>

theorem destructor_drains:
  assumes "pool_reachable threads p" "0 < threads" "stop p"
  shows "ThreadPool_enqueue task p = Inl RuntimeError \<and>
    (\<forall>es p'. pool_run p es p' \<and> list_all quiet es \<and> settled p' \<longrightarrow>
       phase p' = Destroyed \<and> set (workers p') = {Exited} \<and> tasks p' = [] \<and>
       accepted p' = accepted p \<and> mset (finished p') = mset (accepted p))"
proof -
  have kept: "stop q' \<and> accepted q' = accepted q" if "pool_run q es q'" "stop q" for q es q'
    using that
  proof (induction rule: pool_run.induct)
    case (run_cons q e q1 es q2)
    from run_cons(1,4) have "stop q1 \<and> accepted q1 = accepted q"
      by (cases rule: pool_stepE)
        (auto simp: worker_section_def worker_task_end_def ThreadPool_enqueue_def wake_def notified_def
           destructor_stop_def destructor_notify_all_def destructor_join_def split: list.split)
    then show ?case using run_cons by simp
  qed simp
  show ?thesis
  proof (intro conjI allI impI)
    show "ThreadPool_enqueue task p = Inl RuntimeError"
      using assms(3) by (simp add: ThreadPool_enqueue_def)
    fix es p' assume run: "pool_run p es p' \<and> list_all quiet es \<and> settled p'"
    have inv: "pool_inv threads p'"
      using run pool_run_reachable assms(1) reachable_inv by blast
    have "stop p'" "accepted p' = accepted p" using kept run assms(3) by blast+
    then show "phase p' = Destroyed" "set (workers p') = {Exited}" "tasks p' = []"
      "accepted p' = accepted p" "mset (finished p') = mset (accepted p)"
      using settled_state [OF inv assms(2)] run by auto
  qed
qed

lemma destructor_drains_witness:
  "\<exists>es p'. pool_run (destructor_stop sample_pool) es p' \<and> list_all quiet es \<and> phase p' = Destroyed \<and>
     mset (finished p') = {#7, 8#}"
proof -
  obtain es p' where run: "pool_run (destructor_stop sample_pool) es p'" "list_all quiet es" "settled p'"
    by (rule quiet_run_settles)
  have "stop (destructor_stop sample_pool)" by (simp add: destructor_stop_def)
  then have "phase p' = Destroyed \<and> mset (finished p') = mset (accepted (destructor_stop sample_pool))"
    using destructor_drains [OF sample_pool_stopping] run by simp
  then show ?thesis using run by (auto simp: destructor_stop_def sample_pool_def)
qed

end
