(* ===== verification/Common.thy ===== *)
theory Common
  imports Prelude
begin

text \<open>
  The small helpers of \<open>src/common\<close>: the owning byte array \<open>CharArray\<close> with the heap its pointers
  point into, the header of \<open>EventTuple\<close>, and \<open>Timer\<close>. The heap matters here: \<open>softCopy\<close> shares an
  allocation, \<open>release\<close> frees it, and nothing in the class keeps the two apart.
\<close>

section \<open>Arrays on the heap\<close>

text \<open>
  \<open>new char[n]\<close> takes a fresh address; what the memory holds before it is written is \<open>indeterminate\<close>.
  \<open>delete[]\<close> of an address that is not allocated (any more) and every access outside an allocation are
  \<open>BadAccess\<close>. Copying no byte touches no memory.
\<close>

record chars_heap =
  next_array :: nat
  arrays :: "nat \<Rightarrow> bytes option"
  indeterminate :: "nat \<Rightarrow> nat \<Rightarrow> byte"

definition new_array :: "nat \<Rightarrow> chars_heap \<Rightarrow> nat \<times> chars_heap" where
  "new_array n h =
     (next_array h,
      h\<lparr>arrays := (arrays h)(next_array h \<mapsto> map (indeterminate h (next_array h)) [0..<n]),
        next_array := next_array h + 1\<rparr>)"

definition delete_array :: "nat \<Rightarrow> chars_heap \<Rightarrow> chars_heap result" where
  "delete_array a h =
     (if arrays h a = None then Inl BadAccess else Inr (h\<lparr>arrays := (arrays h)(a := None)\<rparr>))"

definition read_array :: "nat option \<Rightarrow> nat \<Rightarrow> nat \<Rightarrow> chars_heap \<Rightarrow> bytes result" where
  "read_array p off n h =
     (if n = 0 then Inr []
      else case p of
        None \<Rightarrow> Inl NullPointer
      | Some a \<Rightarrow>
          (case arrays h a of
             None \<Rightarrow> Inl BadAccess
           | Some bs \<Rightarrow> if off + n \<le> length bs then Inr (take n (drop off bs)) else Inl BadAccess))"

definition write_array :: "nat option \<Rightarrow> nat \<Rightarrow> bytes \<Rightarrow> chars_heap \<Rightarrow> chars_heap result" where
  "write_array p off src h =
     (if src = [] then Inr h
      else case p of
        None \<Rightarrow> Inl NullPointer
      | Some a \<Rightarrow>
          (case arrays h a of
             None \<Rightarrow> Inl BadAccess
           | Some bs \<Rightarrow>
               if off + length src \<le> length bs
               then Inr (h\<lparr>arrays := (arrays h)(a \<mapsto> take off bs @ src @ drop (off + length src) bs)\<rparr>)
               else Inl BadAccess))"

section \<open>CharArray\<close>

record char_array =
  ca_size :: "32 word"
  ca_data :: "nat option"

definition CharArray_new :: char_array where
  "CharArray_new = \<lparr>ca_size = 0, ca_data = None\<rparr>"

definition CharArray_allocate :: "32 word \<Rightarrow> char_array \<Rightarrow> chars_heap \<Rightarrow> (char_array \<times> chars_heap) result" where
  "CharArray_allocate n x h =
     (let (a, h1) = new_array (unat n) h in
      bnd (write_array (Some a) 0 (replicate (unat n) 0) h1) (\<lambda>h2.
      Inr (\<lparr>ca_size = n, ca_data = Some a\<rparr>, h2)))"

text \<open>The copied array is another object than the one that is written.\<close>

definition CharArray_hardCopy :: "char_array \<Rightarrow> char_array \<Rightarrow> chars_heap \<Rightarrow> (char_array \<times> chars_heap) result" where
  "CharArray_hardCopy other x h =
     (let (a, h1) = new_array (unat (ca_size other)) h in
      bnd (read_array (ca_data other) 0 (unat (ca_size other)) h1) (\<lambda>bs.
      bnd (write_array (Some a) 0 bs h1) (\<lambda>h2.
      Inr (\<lparr>ca_size = ca_size other, ca_data = Some a\<rparr>, h2))))"

definition CharArray_softCopy :: "char_array \<Rightarrow> char_array \<Rightarrow> char_array" where
  "CharArray_softCopy other x = \<lparr>ca_size = ca_size other, ca_data = ca_data other\<rparr>"

definition CharArray_Memcpy :: "32 word \<Rightarrow> char_array \<Rightarrow> char_array \<Rightarrow> chars_heap \<Rightarrow> chars_heap result" where
  "CharArray_Memcpy offset other x h =
     bnd (read_array (ca_data other) 0 (unat (ca_size other)) h) (\<lambda>bs.
     write_array (ca_data x) (unat offset) bs h)"

text \<open>
  The second overload copies \<open>size\<close> bytes from a pointer: an \<open>int\<close>, which the call of \<open>memcpy\<close> converts
  to \<open>size_t\<close>. The pointer points into an allocation or to a constant, whose bytes are \<open>src\<close>.
\<close>

definition CharArray_Memcpy_raw :: "32 word \<Rightarrow> bytes \<Rightarrow> 32 word \<Rightarrow> char_array \<Rightarrow> chars_heap \<Rightarrow> chars_heap result" where
  "CharArray_Memcpy_raw offset src n x h =
     (let m = unat (scast n :: 64 word) in
      if m \<le> length src then write_array (ca_data x) (unat offset) (take m src) h else Inl BadAccess)"

definition CharArray_Memset :: "32 word \<Rightarrow> 32 word \<Rightarrow> 32 word \<Rightarrow> char_array \<Rightarrow> chars_heap \<Rightarrow> chars_heap result" where
  "CharArray_Memset offset value n x h =
     (let m = unat (scast n :: 64 word) in
      if 2 ^ 31 \<le> m then Inl BadAccess
      else write_array (ca_data x) (unat offset) (replicate m (ucast value)) h)"

definition CharArray_release :: "char_array \<Rightarrow> chars_heap \<Rightarrow> (char_array \<times> chars_heap) result" where
  "CharArray_release x h =
     (case ca_data x of
        None \<Rightarrow> Inr (\<lparr>ca_size = 0, ca_data = None\<rparr>, h)
      | Some a \<Rightarrow> bnd (delete_array a h) (\<lambda>h1. Inr (\<lparr>ca_size = 0, ca_data = None\<rparr>, h1)))"

text \<open>The destructor releases.\<close>

definition CharArray_destroy :: "char_array \<Rightarrow> chars_heap \<Rightarrow> chars_heap result" where
  "CharArray_destroy x h = bnd (CharArray_release x h) (\<lambda>(_, h1). Inr h1)"

text \<open>What an array holds, and the heaps in which fresh addresses are fresh.\<close>

definition holds_bytes :: "chars_heap \<Rightarrow> char_array \<Rightarrow> bytes \<Rightarrow> bool" where
  "holds_bytes h x bs \<longleftrightarrow>
     length bs = unat (ca_size x) \<and> (\<exists>a. ca_data x = Some a \<and> arrays h a = Some bs)"

definition heap_ok :: "chars_heap \<Rightarrow> bool" where
  "heap_ok h \<longleftrightarrow> (\<forall>a. next_array h \<le> a \<longrightarrow> arrays h a = None)"

lemma heap_ok_allocated: "heap_ok h \<Longrightarrow> arrays h a = Some bs \<Longrightarrow> a < next_array h"
  by (metis heap_ok_def not_le option.distinct(1))

lemma new_array_filled:
  assumes "new_array n h = (a, h1)" "length bs = n"
  shows "write_array (Some a) 0 bs h1 =
    Inr (h\<lparr>arrays := (arrays h)(a \<mapsto> bs), next_array := next_array h + 1\<rparr>)"
proof (cases "n = 0")
  case True
  then show ?thesis using assms by (auto simp: new_array_def write_array_def)
next
  case False
  then show ?thesis using assms by (auto simp: new_array_def write_array_def)
qed

lemma allocate_eq:
  "CharArray_allocate n x h =
     Inr (\<lparr>ca_size = n, ca_data = Some (next_array h)\<rparr>,
       h\<lparr>arrays := (arrays h)(next_array h \<mapsto> replicate (unat n) 0), next_array := next_array h + 1\<rparr>)"
proof -
  obtain h1 where h1: "new_array (unat n) h = (next_array h, h1)" by (simp add: new_array_def)
  show ?thesis
    using new_array_filled [OF h1, of "replicate (unat n) 0"] by (simp add: CharArray_allocate_def h1)
qed

lemma hardCopy_eq:
  assumes "heap_ok h" "holds_bytes h other bs"
  shows "CharArray_hardCopy other x h =
     Inr (\<lparr>ca_size = ca_size other, ca_data = Some (next_array h)\<rparr>,
       h\<lparr>arrays := (arrays h)(next_array h \<mapsto> bs), next_array := next_array h + 1\<rparr>)"
proof -
  obtain h1 where h1: "new_array (unat (ca_size other)) h = (next_array h, h1)"
    by (simp add: new_array_def)
  obtain a where a: "ca_data other = Some a" "arrays h a = Some bs" "length bs = unat (ca_size other)"
    using assms(2) by (auto simp: holds_bytes_def)
  have "arrays h1 a = Some bs"
    using h1 a heap_ok_allocated [OF assms(1) a(2)] by (auto simp: new_array_def)
  then show ?thesis
    using new_array_filled [OF h1 a(3)] a by (auto simp: CharArray_hardCopy_def h1 read_array_def)
qed

section \<open>The header of an event\<close>

text \<open>Every event starts with the transaction number -1, the largest \<open>size_t\<close>.\<close>

record event_tuple =
  txn_no :: "64 word"
  tuple_type :: "8 word"

definition EventTuple_new :: event_tuple where
  "EventTuple_new = \<lparr>txn_no = - 1, tuple_type = 0\<rparr>"

definition EventTuple_of_type :: "8 word \<Rightarrow> event_tuple" where
  "EventTuple_of_type ty = \<lparr>txn_no = - 1, tuple_type = ty\<rparr>"

section \<open>Timer\<close>

text \<open>
  Points of time are the ticks (nanoseconds, signed) of the clock, whose readings are arguments. The
  duration is cut towards zero to milliseconds and returned as an \<open>unsigned long long\<close>.
\<close>

record timer =
  start_time :: int
  end_time :: int

definition Timer_start :: "int \<Rightarrow> timer \<Rightarrow> timer" where
  "Timer_start now t = t\<lparr>start_time := now\<rparr>"

definition Timer_stop :: "int \<Rightarrow> timer \<Rightarrow> timer" where
  "Timer_stop now t = t\<lparr>end_time := now\<rparr>"

definition getElapsedMilliSeconds :: "timer \<Rightarrow> 64 word" where
  "getElapsedMilliSeconds t =
     (let d = end_time t - start_time t in word_of_int (sgn d * (\<bar>d\<bar> div 1000000)))"

section \<open>Copies of a byte array\<close>

text \<open>A heap with one array of two bytes, for the instances below.\<close>

definition sample_heap :: chars_heap where
  "sample_heap = \<lparr>next_array = 1, arrays = [0 \<mapsto> [5, 6]], indeterminate = (\<lambda>_ _. 255)\<rparr>"

definition sample_array :: char_array where
  "sample_array = \<lparr>ca_size = 2, ca_data = Some 0\<rparr>"

lemma sample_heap_facts: "heap_ok sample_heap" "holds_bytes sample_heap sample_array [5, 6]"
  by (auto simp: heap_ok_def sample_heap_def holds_bytes_def sample_array_def)

text \<open>C36: hardCopy gives the array its own copy of the bytes: writing through the copy, at any place, leaves the
  original as it is, and destroying the copy frees exactly what hardCopy allocated. What the array
  held before stays allocated, since hardCopy does not release it.\<close>

theorem hard_copy_independent:
  assumes "heap_ok h" "holds_bytes h other bs"
  shows "\<exists>x' h'. CharArray_hardCopy other x h = Inr (x', h') \<and> heap_ok h' \<and> holds_bytes h' x' bs \<and>
    (\<forall>offset src n h''. CharArray_Memcpy_raw offset src n x' h' = Inr h'' \<longrightarrow> holds_bytes h'' other bs) \<and>
    CharArray_destroy x' h' = Inr (h\<lparr>next_array := next_array h + 1\<rparr>) \<and>
    (\<forall>a old. arrays h a = Some old \<longrightarrow> arrays h' a = Some old)"
proof -
  let ?a = "next_array h"
  let ?h = "h\<lparr>arrays := (arrays h)(?a \<mapsto> bs), next_array := ?a + 1\<rparr>"
  let ?x = "\<lparr>ca_size = ca_size other, ca_data = Some ?a\<rparr>"
  have fresh: "arrays h ?a = None" using assms(1) by (simp add: heap_ok_def)
  obtain b where b: "ca_data other = Some b" "arrays h b = Some bs" "length bs = unat (ca_size other)"
    using assms(2) by (auto simp: holds_bytes_def)
  then have "b \<noteq> ?a" using fresh by auto
  then have "holds_bytes h'' other bs" if "CharArray_Memcpy_raw offset src n ?x ?h = Inr h''" for offset src n h''
    using that b by (auto simp: CharArray_Memcpy_raw_def write_array_def holds_bytes_def Let_def
      split: if_splits option.splits)
  moreover have "CharArray_destroy ?x ?h = Inr (h\<lparr>next_array := ?a + 1\<rparr>)"
    using fresh by (simp add: CharArray_destroy_def CharArray_release_def delete_array_def fun_upd_idem)
  moreover have "heap_ok ?h" "holds_bytes ?h ?x bs" using assms(1) b by (auto simp: heap_ok_def holds_bytes_def)
  moreover have "\<forall>a old. arrays h a = Some old \<longrightarrow> arrays ?h a = Some old" using fresh by auto
  ultimately show ?thesis using hardCopy_eq [OF assms, of x] by blast
qed

lemma hard_copy_independent_witness:
  "\<exists>x' h'. CharArray_hardCopy sample_array CharArray_new sample_heap = Inr (x', h') \<and>
    holds_bytes h' x' [5, 6] \<and> CharArray_destroy x' h' = Inr (sample_heap\<lparr>next_array := 2\<rparr>)"
  using hard_copy_independent [OF sample_heap_facts, of CharArray_new] by (auto simp: sample_heap_def)

text \<open>softCopy makes two arrays own one allocation: destroying either of them succeeds and empties the other,
  whose bytes can no longer be read and whose destructor frees the allocation a second time, which is
  undefined behaviour.\<close>

theorem soft_copy_double_free:
  assumes "holds_bytes h other bs" "bs \<noteq> []"
  shows "\<exists>h'. CharArray_destroy (CharArray_softCopy other x) h = Inr h' \<and>
    CharArray_destroy other h' = Inl BadAccess \<and>
    read_array (ca_data other) 0 (length bs) h' = Inl BadAccess"
proof -
  obtain a where "ca_data other = Some a" "arrays h a = Some bs"
    using assms(1) by (auto simp: holds_bytes_def)
  moreover have "length bs \<noteq> 0" using assms(2) by simp
  ultimately show ?thesis
    by (simp add: CharArray_destroy_def CharArray_release_def CharArray_softCopy_def delete_array_def
      read_array_def)
qed

lemma soft_copy_double_free_witness:
  "\<exists>h'. CharArray_destroy (CharArray_softCopy sample_array CharArray_new) sample_heap = Inr h' \<and>
    CharArray_destroy sample_array h' = Inl BadAccess"
  using soft_copy_double_free [OF sample_heap_facts(2), of CharArray_new] by auto

end
