(* ===== verification/Asio.thy ===== *)
theory Asio
  imports Prelude
begin

text \<open>
  The TCP sockets of Boost.Asio are not part of the repository: the model of the network layer takes a
  connection as an argument, a record of relations, and relies on the documented behaviour of a byte
  stream only where a theorem has the hypothesis \<open>tcp_laws\<close>. \<open>write_some\<close> and \<open>read_some\<close>
  transfer at least one byte and at most what they are given, and it is left to the connection how many;
  a stream delivers the bytes in the order in which they were written. What one end has written and the
  other has not read is observed through \<open>tcp_unread\<close>.
\<close>

datatype side = Client | Server

fun other :: "side \<Rightarrow> side" where
  "other Client = Server"
| "other Server = Client"

record 'c tcp =
  tcp_connect :: "string \<Rightarrow> string \<Rightarrow> 'c result"
  tcp_write_some :: "side \<Rightarrow> bytes \<Rightarrow> 'c \<Rightarrow> nat \<Rightarrow> 'c \<Rightarrow> bool"
  tcp_read_some :: "side \<Rightarrow> nat \<Rightarrow> 'c \<Rightarrow> bytes \<Rightarrow> 'c \<Rightarrow> bool"
  tcp_unread :: "side \<Rightarrow> 'c \<Rightarrow> bytes"

definition tcp_laws :: "'c tcp \<Rightarrow> bool" where
  "tcp_laws K \<longleftrightarrow>
     (\<forall>host port c s. tcp_connect K host port = Inr c \<longrightarrow> tcp_unread K s c = []) \<and>
     (\<forall>s bs c n c'. tcp_write_some K s bs c n c' \<longrightarrow>
        0 < n \<and> n \<le> length bs \<and> tcp_unread K (other s) c' = tcp_unread K (other s) c @ take n bs \<and>
        tcp_unread K s c' = tcp_unread K s c) \<and>
     (\<forall>s m c bs c'. tcp_read_some K s m c bs c' \<longrightarrow>
        bs \<noteq> [] \<and> length bs \<le> m \<and> tcp_unread K s c = bs @ tcp_unread K s c' \<and>
        tcp_unread K (other s) c' = tcp_unread K (other s) c)"

lemma tcp_connectD: "tcp_laws K \<Longrightarrow> tcp_connect K host port = Inr c \<Longrightarrow> tcp_unread K s c = []"
  by (simp add: tcp_laws_def)

lemma tcp_writeD:
  assumes "tcp_laws K" "tcp_write_some K s bs c n c'"
  shows "0 < n" "n \<le> length bs" "tcp_unread K (other s) c' = tcp_unread K (other s) c @ take n bs"
    "tcp_unread K s c' = tcp_unread K s c"
  using assms unfolding tcp_laws_def by blast+

lemma tcp_readD:
  assumes "tcp_laws K" "tcp_read_some K s m c bs c'"
  shows "bs \<noteq> []" "length bs \<le> m" "tcp_unread K s c = bs @ tcp_unread K s c'"
    "tcp_unread K (other s) c' = tcp_unread K (other s) c"
  using assms unfolding tcp_laws_def by blast+

text \<open>The laws hold for a connection that is the two lists of bytes on their way, by the side that reads them.\<close>

definition list_tcp :: "(side \<Rightarrow> bytes) tcp" where
  "list_tcp =
     \<lparr>tcp_connect = (\<lambda>host port. Inr (\<lambda>_. [])),
      tcp_write_some = (\<lambda>s bs c n c'. 0 < n \<and> n \<le> length bs \<and> c' = c(other s := c (other s) @ take n bs)),
      tcp_read_some = (\<lambda>s m c bs c'. bs \<noteq> [] \<and> length bs \<le> m \<and>
        bs = take (length bs) (c s) \<and> c' = c(s := drop (length bs) (c s))),
      tcp_unread = (\<lambda>s c. c s)\<rparr>"

lemma list_tcp_simps [simp]:
  "tcp_connect list_tcp host port = Inr (\<lambda>_. [])"
  "tcp_write_some list_tcp s bs c n c' \<longleftrightarrow> 0 < n \<and> n \<le> length bs \<and> c' = c(other s := c (other s) @ take n bs)"
  "tcp_read_some list_tcp s m c bs c' \<longleftrightarrow>
     bs \<noteq> [] \<and> length bs \<le> m \<and> bs = take (length bs) (c s) \<and> c' = c(s := drop (length bs) (c s))"
  "tcp_unread list_tcp s c = c s"
  by (simp_all add: list_tcp_def)

lemma other_neq [simp]: "other s \<noteq> s" "s \<noteq> other s"
  by (cases s; simp)+

lemma list_tcp_laws: "tcp_laws list_tcp"
proof -
  have "c s = bs @ drop (length bs) (c s)" if "bs = take (length bs) (c s)" for bs :: bytes and c and s :: side
    using that append_take_drop_id [of "length bs" "c s"] by simp
  then show ?thesis by (simp add: tcp_laws_def)
qed

end
