(* ===== verification/EchoNodeSession.thy ===== *)
theory EchoNodeSession
  imports Asio
begin

text \<open>
  The server side of a connection, \<open>src/dtxn/EchoNodeSession.h\<close>, started by the accept handler of
  \<open>src/dtxn/BaseNodeService.h\<close>: a read of at most 1024 bytes into the buffer of the session, then a write of
  what was read, and again. The asynchronous operations complete one at a time on the thread that runs
  the \<open>io_service\<close>; a completion with an error starts nothing new, which drops the last reference to the session.
\<close>

text \<open>\<open>Writing length done\<close>: \<open>async_write\<close> has sent \<open>done\<close> of the first \<open>length\<close> bytes of the buffer.\<close>

datatype session_phase = Constructed | Reading | Writing nat nat | Ended

record session =
  ses_phase :: session_phase
  ses_data :: bytes

definition max_length :: nat where
  "max_length = 1024"

definition EchoNodeSession_new :: "bytes \<Rightarrow> session" where
  "EchoNodeSession_new uninitialised = \<lparr>ses_phase = Constructed, ses_data = take max_length uninitialised\<rparr>"

definition do_read :: "session \<Rightarrow> session" where
  "do_read s = s\<lparr>ses_phase := Reading\<rparr>"

definition EchoNodeSession_start :: "session \<Rightarrow> session" where
  "EchoNodeSession_start s = do_read s"

definition do_write :: "nat \<Rightarrow> session \<Rightarrow> session" where
  "do_write len s = s\<lparr>ses_phase := Writing len 0\<rparr>"

text \<open>The completion handlers; the bytes read are in the buffer when the handler of the read runs.\<close>

definition on_read :: "bool \<Rightarrow> bytes \<Rightarrow> session \<Rightarrow> session" where
  "on_read ec bs s =
     (if ec then s\<lparr>ses_phase := Ended\<rparr>
      else do_write (length bs) (s\<lparr>ses_data := bs @ drop (length bs) (ses_data s)\<rparr>))"

definition on_write :: "bool \<Rightarrow> session \<Rightarrow> session" where
  "on_write ec s = (if ec then s\<lparr>ses_phase := Ended\<rparr> else do_read s)"

text \<open>The accept handler: on an error no session is made.\<close>

definition on_accept :: "bool \<Rightarrow> bytes \<Rightarrow> session option" where
  "on_accept ec uninitialised =
     (if ec then None else Some (EchoNodeSession_start (EchoNodeSession_new uninitialised)))"

text \<open>The bytes the session has read and not written back.\<close>

fun pending_of :: "session_phase \<Rightarrow> bytes \<Rightarrow> bytes" where
  "pending_of (Writing len d) data = drop d (take len data)"
| "pending_of ph data = []"

definition ses_pending :: "session \<Rightarrow> bytes" where
  "ses_pending s = pending_of (ses_phase s) (ses_data s)"

inductive session_step :: "'c tcp \<Rightarrow> session \<Rightarrow> 'c \<Rightarrow> session \<Rightarrow> 'c \<Rightarrow> bool" for K where
  ses_read: "ses_phase s = Reading \<Longrightarrow> tcp_read_some K Server max_length c bs c' \<Longrightarrow>
    session_step K s c (on_read False bs s) c'"
| ses_read_fails: "ses_phase s = Reading \<Longrightarrow> session_step K s c (on_read True [] s) c"
| ses_write: "ses_phase s = Writing len d \<Longrightarrow> d < len \<Longrightarrow>
    tcp_write_some K Server (drop d (take len (ses_data s))) c n c' \<Longrightarrow>
    session_step K s c (s\<lparr>ses_phase := Writing len (d + n)\<rparr>) c'"
| ses_written: "ses_phase s = Writing len len \<Longrightarrow> session_step K s c (on_write False s) c"
| ses_write_fails: "ses_phase s = Writing len d \<Longrightarrow> session_step K s c (on_write True s) c"

text \<open>The buffer keeps its size and no write is longer than the buffer.\<close>

definition session_ok :: "session \<Rightarrow> bool" where
  "session_ok s \<longleftrightarrow> length (ses_data s) = max_length \<and>
     (\<forall>len d. ses_phase s = Writing len d \<longrightarrow> d \<le> len \<and> len \<le> max_length)"

lemma on_accept_ok:
  "max_length \<le> length uninitialised \<Longrightarrow> on_accept ec uninitialised = Some s \<Longrightarrow>
    session_ok s \<and> ses_pending s = [] \<and> ses_phase s = Reading"
  by (auto simp: on_accept_def EchoNodeSession_start_def EchoNodeSession_new_def do_read_def session_ok_def
    ses_pending_def split: if_splits)

lemma session_step_ok:
  assumes "session_step K s c s' c'" "session_ok s" "tcp_laws K"
  shows "session_ok s'"
  using assms(1)
proof cases
  case (ses_read bs)
  then show ?thesis
    using assms(2) tcp_readD(2) [OF assms(3)] by (auto simp: session_ok_def on_read_def do_write_def)
next
  case (ses_write len d n)
  then show ?thesis
    using assms(2) tcp_writeD(2) [OF assms(3) ses_write(4)] by (auto simp: session_ok_def)
qed (use assms(2) in \<open>auto simp: session_ok_def on_read_def on_write_def do_read_def\<close>)

text \<open>
  Each step takes the next bytes from the client and puts the next bytes on the way back: while the session
  has not ended, the bytes on the way back, those in the session and those on the way to it
  are together the same before and after. When it ends, those in the session are dropped.
\<close>

definition echo_bytes :: "'c tcp \<Rightarrow> session \<Rightarrow> 'c \<Rightarrow> bytes" where
  "echo_bytes K s c = tcp_unread K Client c @ ses_pending s @ tcp_unread K Server c"

lemma session_step_echo:
  assumes "session_step K s c s' c'" "session_ok s" "tcp_laws K"
  shows "ses_phase s' = Ended \<and> tcp_unread K Client c' = tcp_unread K Client c \<or>
    echo_bytes K s' c' = echo_bytes K s c"
  using assms(1)
proof cases
  case (ses_read bs)
  then show ?thesis
    using tcp_readD [OF assms(3) ses_read(3)]
    by (simp add: echo_bytes_def ses_pending_def on_read_def do_write_def)
next
  case (ses_write len d n)
  have "drop d (take len (ses_data s)) = take n (drop d (take len (ses_data s))) @ drop (d + n) (take len (ses_data s))"
    by (metis append_take_drop_id drop_drop add.commute)
  then show ?thesis
    using tcp_writeD [OF assms(3) ses_write(4)] ses_write
    by (simp add: echo_bytes_def ses_pending_def)
next
  case (ses_written len)
  then show ?thesis using assms(2) by (simp add: echo_bytes_def ses_pending_def on_write_def do_read_def)
qed (auto simp: on_read_def on_write_def)

end
