(* ===== verification/NodeLinker.thy ===== *)
theory NodeLinker
  imports ThreadPool Common EchoNodeSession
begin

text \<open>
  The client side of a connection, \<open>src/dtxn/NodeLinker.cc\<close>, and the coordinator that owns one linker per
  node, \<open>src/dtxn/BaseCoordinatorService.h\<close>. A linker is a queue of requests and one worker thread, with
  the text of \<open>ThreadPool\<close> repeated, so its state holds a pool with one worker and its operations are
  those of the pool; the task of a request is written out step by step, with the session at the other end of
  the connection and the heap of the client process.
\<close>

section \<open>State\<close>

text \<open>
  A request is a pointer and a size: the bytes are read when the task runs, not when it is submitted.
  \<open>Sending n\<close>: the task has written \<open>n\<close> bytes of the request; \<open>Faulted\<close>: it has read memory the client does
  not own any more. \<open>exchanges\<close> records the tasks that ended: the bytes they sent, the value of the future
  (the length and the address of the reply, or the exception), and the bytes they received; \<open>sent\<close> the
  bytes the current task has sent.
\<close>

type_synonym request = "nat option \<times> 64 word"

datatype task_phase = NotStarted | Sending nat | Receiving | Faulted error

record exchange =
  ex_task :: request
  ex_sent :: bytes
  ex_result :: "(nat \<times> nat) result"
  ex_reply :: bytes

record 'c linker =
  worker_id :: nat
  host :: string
  port :: string
  queue :: "request pool"
  task_io :: task_phase
  memory :: chars_heap
  connection :: 'c
  remote :: "session option"
  sent :: bytes
  exchanges :: "exchange list"

section \<open>Operations\<close>

definition NodeLinker_new :: "'c tcp \<Rightarrow> nat \<Rightarrow> string \<Rightarrow> string \<Rightarrow> chars_heap \<Rightarrow> 'c linker result" where
  "NodeLinker_new K no hst prt h =
     bnd (tcp_connect K hst prt) (\<lambda>c.
     Inr \<lparr>worker_id = no, host = hst, port = prt, queue = ThreadPool_new 1, task_io = NotStarted,
          memory = h, connection = c, remote = None, sent = [], exchanges = []\<rparr>)"

definition NodeLinker_worker :: "'c linker \<Rightarrow> 'c linker" where
  "NodeLinker_worker l = l\<lparr>queue := worker_section 0 (queue l), task_io := NotStarted\<rparr>"

definition NodeLinker_submitTask :: "request \<Rightarrow> 'c linker \<Rightarrow> 'c linker result" where
  "NodeLinker_submitTask r l = bnd (ThreadPool_enqueue r (queue l)) (\<lambda>q. Inr (l\<lparr>queue := q\<rparr>))"

text \<open>The end of a task: its value goes to the future, and the worker returns to the queue.\<close>

definition task_end :: "request \<Rightarrow> (nat \<times> nat) result \<Rightarrow> bytes \<Rightarrow> 'c linker \<Rightarrow> 'c linker" where
  "task_end r result reply l =
     l\<lparr>queue := worker_task_end 0 r (queue l), task_io := NotStarted, sent := [],
       exchanges := exchanges l @ [\<lparr>ex_task = r, ex_sent = sent l, ex_result = result, ex_reply = reply\<rparr>]\<rparr>"

text \<open>The bytes \<open>write\<close> has still to send, read from the memory of the client at this moment.\<close>

definition task_unsent :: "request \<Rightarrow> nat \<Rightarrow> 'c linker \<Rightarrow> bytes result" where
  "task_unsent r n l = read_array (fst r) n (unat (snd r) - n) (memory l)"

definition task_write :: "nat \<Rightarrow> nat \<Rightarrow> bytes \<Rightarrow> 'c \<Rightarrow> 'c linker \<Rightarrow> 'c linker" where
  "task_write n k rest c l = l\<lparr>task_io := Sending (n + k), sent := sent l @ take k rest, connection := c\<rparr>"

text \<open>One \<open>read_some\<close> into \<open>reply\<close>, then the copy into a new array.\<close>

definition reply_size :: nat where
  "reply_size = 1024"

definition task_read :: "request \<Rightarrow> bytes \<Rightarrow> 'c \<Rightarrow> 'c linker \<Rightarrow> 'c linker result" where
  "task_read r reply c l =
     (let (ans, h) = new_array (length reply) (memory l) in
      bnd (write_array (Some ans) 0 reply h) (\<lambda>h1.
      Inr (task_end r (Inr (length reply, ans)) reply (l\<lparr>memory := h1, connection := c\<rparr>))))"

section \<open>Steps\<close>

text \<open>
  The steps of the worker thread and of the callers; a notification or the destructor acts on the queue as in the
  pool; the session at the other end; and the rest of the client process, which may change its memory in
  any way that keeps fresh addresses fresh. An operation of the socket may fail at any time, with
  \<open>boost::system::system_error\<close>, a \<open>runtime_error\<close> that ends the task.
\<close>

fun queue_only :: "request pool_event \<Rightarrow> bool" where
  "queue_only (Section i) = False"
| "queue_only (TaskEnd i) = False"
| "queue_only (Enqueue r) = False"
| "queue_only e = True"

inductive link_step :: "'c tcp \<Rightarrow> 'c linker \<Rightarrow> 'c linker \<Rightarrow> bool" for K where
  link_worker: "workers (queue l) = [AtLock] \<Longrightarrow> link_step K l (NodeLinker_worker l)"
| link_submit: "phase (queue l) \<noteq> Destroyed \<Longrightarrow> NodeLinker_submitTask r l = Inr l' \<Longrightarrow> link_step K l l'"
| link_queue: "queue_only e \<Longrightarrow> pool_step (queue l) e q \<Longrightarrow> link_step K l (l\<lparr>queue := q\<rparr>)"
| link_start: "workers (queue l) = [Running r] \<Longrightarrow> task_io l = NotStarted \<Longrightarrow>
    link_step K l (l\<lparr>task_io := Sending 0\<rparr>)"
| link_write: "workers (queue l) = [Running r] \<Longrightarrow> task_io l = Sending n \<Longrightarrow> n < unat (snd r) \<Longrightarrow>
    task_unsent r n l = Inr rest \<Longrightarrow> tcp_write_some K Client rest (connection l) k c \<Longrightarrow>
    link_step K l (task_write n k rest c l)"
| link_fault: "workers (queue l) = [Running r] \<Longrightarrow> task_io l = Sending n \<Longrightarrow> n < unat (snd r) \<Longrightarrow>
    task_unsent r n l = Inl e \<Longrightarrow> link_step K l (l\<lparr>task_io := Faulted e\<rparr>)"
| link_written: "workers (queue l) = [Running r] \<Longrightarrow> task_io l = Sending n \<Longrightarrow> n = unat (snd r) \<Longrightarrow>
    link_step K l (l\<lparr>task_io := Receiving\<rparr>)"
| link_read: "workers (queue l) = [Running r] \<Longrightarrow> task_io l = Receiving \<Longrightarrow>
    tcp_read_some K Client reply_size (connection l) reply c \<Longrightarrow> task_read r reply c l = Inr l' \<Longrightarrow>
    link_step K l l'"
| link_throws: "workers (queue l) = [Running r] \<Longrightarrow> task_io l = Sending n \<or> task_io l = Receiving \<Longrightarrow>
    link_step K l (task_end r (Inl RuntimeError) [] l)"
| link_accept: "remote l = None \<Longrightarrow> max_length \<le> length junk \<Longrightarrow>
    link_step K l (l\<lparr>remote := on_accept ec junk\<rparr>)"
| link_session: "remote l = Some s \<Longrightarrow> session_step K s (connection l) s' c \<Longrightarrow>
    link_step K l (l\<lparr>remote := Some s', connection := c\<rparr>)"
| link_client: "heap_ok h \<Longrightarrow> link_step K l (l\<lparr>memory := h\<rparr>)"

inductive link_reachable :: "'c tcp \<Rightarrow> 'c linker \<Rightarrow> bool" for K where
  link_new: "heap_ok h \<Longrightarrow> NodeLinker_new K no hst prt h = Inr l \<Longrightarrow> link_reachable K l"
| link_more: "link_reachable K l \<Longrightarrow> link_step K l l' \<Longrightarrow> link_reachable K l'"

section \<open>The queue of a linker is a pool with one worker\<close>

lemma task_read_eq:
  "task_read r reply c l =
    Inr (task_end r (Inr (length reply, next_array (memory l))) reply
      (l\<lparr>memory := (memory l)\<lparr>arrays := (arrays (memory l))(next_array (memory l) \<mapsto> reply),
         next_array := next_array (memory l) + 1\<rparr>, connection := c\<rparr>))"
proof -
  obtain h where h: "new_array (length reply) (memory l) = (next_array (memory l), h)"
    by (simp add: new_array_def)
  show ?thesis using new_array_filled [OF h refl] by (simp add: task_read_def h)
qed

lemma link_step_queue:
  assumes "link_step K l l'"
  shows "queue l' = queue l \<or> (\<exists>e. pool_step (queue l) e (queue l'))"
  using assms
proof cases
  case link_worker
  then have "pool_step (queue l) (Section 0) (queue l')"
    using sec [of 0 "queue l"] by (simp add: NodeLinker_worker_def)
  then show ?thesis by blast
next
  case (link_submit r)
  then have "pool_step (queue l) (Enqueue r) (queue l')"
    by (auto simp: NodeLinker_submitTask_def intro: enqueue)
  then show ?thesis by blast
next
  case (link_read r reply c)
  then have "pool_step (queue l) (TaskEnd 0) (queue l')"
    using pool_step.task_end [of 0 "queue l" r] by (auto simp: task_read_eq task_end_def)
  then show ?thesis by blast
next
  case (link_throws r n)
  then have "pool_step (queue l) (TaskEnd 0) (queue l')"
    using pool_step.task_end [of 0 "queue l" r] by (simp add: task_end_def)
  then show ?thesis by blast
qed (auto simp: task_write_def)

lemma link_queue_reachable: "link_reachable K l \<Longrightarrow> pool_reachable 1 (queue l)"
proof (induction rule: link_reachable.induct)
  case (link_new h no hst prt l)
  then show ?case by (auto simp: NodeLinker_new_def intro: reach_new)
next
  case (link_more l l')
  then show ?case using link_step_queue [OF link_more(2)] reach_step by metis
qed


section \<open>The invariant of a linker\<close>

definition total_sent :: "'c linker \<Rightarrow> bytes" where
  "total_sent l = concat (map ex_sent (exchanges l)) @ sent l"

definition total_received :: "'c linker \<Rightarrow> bytes" where
  "total_received l = concat (map ex_reply (exchanges l))"

text \<open>The bytes that are on their way: every byte that was sent is received, on its way, or dropped by a session that ended.\<close>

definition stream_ok :: "'c tcp \<Rightarrow> 'c linker \<Rightarrow> bool" where
  "stream_ok K l \<longleftrightarrow>
     (case remote l of
        None \<Rightarrow> total_sent l = total_received l @ tcp_unread K Client (connection l) @ tcp_unread K Server (connection l)
      | Some s \<Rightarrow> session_ok s \<and>
          (if ses_phase s = Ended
           then \<exists>rest. total_sent l = total_received l @ tcp_unread K Client (connection l) @ rest
           else total_sent l = total_received l @ echo_bytes K s (connection l)))"

definition task_ok :: "'c linker \<Rightarrow> bool" where
  "task_ok l \<longleftrightarrow>
     (case task_io l of
        NotStarted \<Rightarrow> sent l = []
      | Sending n \<Rightarrow> \<exists>r. workers (queue l) = [Running r] \<and> length (sent l) = n \<and> n \<le> unat (snd r)
      | Receiving \<Rightarrow> \<exists>r. workers (queue l) = [Running r] \<and> length (sent l) = unat (snd r)
      | Faulted e \<Rightarrow> \<exists>r. workers (queue l) = [Running r])"

definition exchange_ok :: "exchange \<Rightarrow> bool" where
  "exchange_ok x \<longleftrightarrow>
     (case ex_result x of
        Inl e \<Rightarrow> e = RuntimeError \<and> ex_reply x = [] \<and> length (ex_sent x) \<le> unat (snd (ex_task x))
      | Inr (n, a) \<Rightarrow> n = length (ex_reply x) \<and> 0 < n \<and> n \<le> reply_size \<and>
          length (ex_sent x) = unat (snd (ex_task x)))"

definition link_inv :: "'c tcp \<Rightarrow> 'c linker \<Rightarrow> bool" where
  "link_inv K l \<longleftrightarrow> stream_ok K l \<and> task_ok l \<and> heap_ok (memory l) \<and>
     (\<forall>x \<in> set (exchanges l). exchange_ok x) \<and> map ex_task (exchanges l) = finished (queue l)"

lemma totals_task_end [simp]:
  "total_sent (task_end r res reply l) = total_sent l"
  "total_received (task_end r res reply l) = total_received l @ reply"
  by (simp_all add: total_sent_def total_received_def task_end_def)

lemma task_end_simps [simp]:
  "task_io (task_end r res reply l) = NotStarted" "sent (task_end r res reply l) = []"
  "memory (task_end r res reply l) = memory l" "connection (task_end r res reply l) = connection l"
  "remote (task_end r res reply l) = remote l"
  "queue (task_end r res reply l) = worker_task_end 0 r (queue l)"
  "exchanges (task_end r res reply l) =
     exchanges l @ [\<lparr>ex_task = r, ex_sent = sent l, ex_result = res, ex_reply = reply\<rparr>]"
  by (simp_all add: task_end_def)

text \<open>What the other end and the totals depend on.\<close>

lemma stream_ok_cong:
  assumes "remote l' = remote l" "connection l' = connection l"
    and "total_sent l' = total_sent l" "total_received l' = total_received l"
  shows "stream_ok K l' = stream_ok K l"
  using assms by (simp add: stream_ok_def cong: option.case_cong)

lemma task_ok_cong:
  "queue l' = queue l \<Longrightarrow> task_io l' = task_io l \<Longrightarrow> sent l' = sent l \<Longrightarrow> task_ok l' = task_ok l"
  by (simp add: task_ok_def cong: task_phase.case_cong)

lemma stream_ok_sent:
  assumes "stream_ok K l" "remote l' = remote l"
    and "tcp_unread K Server (connection l') = tcp_unread K Server (connection l) @ bs"
    and "tcp_unread K Client (connection l') = tcp_unread K Client (connection l)"
    and "total_sent l' = total_sent l @ bs" "total_received l' = total_received l"
  shows "stream_ok K l'"
  using assms by (auto simp: stream_ok_def echo_bytes_def split: option.splits)

lemma stream_ok_received:
  assumes "stream_ok K l" "remote l' = remote l"
    and "tcp_unread K Client (connection l) = bs @ tcp_unread K Client (connection l')"
    and "tcp_unread K Server (connection l') = tcp_unread K Server (connection l)"
    and "total_sent l' = total_sent l" "total_received l' = total_received l @ bs"
  shows "stream_ok K l'"
  using assms by (auto simp: stream_ok_def echo_bytes_def split: option.splits)

lemma queue_only_workers:
  "pool_step q e q' \<Longrightarrow> queue_only e \<Longrightarrow> workers q = [Running r] \<Longrightarrow> workers q' = [Running r]"
  by (erule pool_stepE)
    (auto simp: notified_def wake_def destructor_stop_def destructor_notify_all_def destructor_join_def
      nth_Cons split: nat.splits)

lemma queue_only_finished: "pool_step q e q' \<Longrightarrow> queue_only e \<Longrightarrow> finished q' = finished q"
  by (erule pool_stepE)
    (auto simp: notified_def wake_def destructor_stop_def destructor_notify_all_def destructor_join_def)

lemma link_inv_new:
  assumes "tcp_laws K" "heap_ok h" "NodeLinker_new K no hst prt h = Inr l"
  shows "link_inv K l"
proof -
  obtain c where c: "tcp_connect K hst prt = Inr c" "remote l = None" "connection l = c" "task_io l = NotStarted"
    "sent l = []" "exchanges l = []" "memory l = h" "queue l = ThreadPool_new 1"
    using assms(3) by (auto simp: NodeLinker_new_def)
  then show ?thesis
    using tcp_connectD [OF assms(1) c(1)] assms(2)
    by (simp add: link_inv_def stream_ok_def task_ok_def total_sent_def total_received_def ThreadPool_new_def)
qed

lemma unsent_length: "task_unsent r n l = Inr rest \<Longrightarrow> n < unat (snd r) \<Longrightarrow> length rest = unat (snd r) - n"
  by (auto simp: task_unsent_def read_array_def split: if_splits option.splits)

lemma link_inv_step:
  assumes K: "tcp_laws K" and "link_step K l l'" and inv: "link_inv K l"
  shows "link_inv K l'"
  using assms(2)
proof cases
  case link_worker
  then have "sent l = []" using inv by (auto simp: link_inv_def task_ok_def split: task_phase.splits)
  then show ?thesis
    using link_worker inv stream_ok_cong [of l' l K]
    by (auto simp: link_inv_def task_ok_def NodeLinker_worker_def worker_section_def total_sent_def
      total_received_def split: list.split)
next
  case (link_submit r)
  then show ?thesis
    using inv stream_ok_cong [of l' l K]
    by (auto simp: link_inv_def task_ok_def NodeLinker_submitTask_def ThreadPool_enqueue_def total_sent_def
      total_received_def split: if_splits task_phase.splits)
next
  case (link_queue e q)
  then show ?thesis
    using inv stream_ok_cong [of l' l K] queue_only_workers [OF link_queue(3,2)] queue_only_finished [OF link_queue(3,2)]
    by (auto simp: link_inv_def task_ok_def total_sent_def total_received_def split: task_phase.splits)
next
  case (link_start r)
  then show ?thesis
    using inv stream_ok_cong [of l' l K]
    by (auto simp: link_inv_def task_ok_def total_sent_def total_received_def)
next
  case (link_write r n rest k c)
  note w = tcp_writeD [OF K link_write(6)]
  have "stream_ok K l'"
    using inv stream_ok_sent [of K l l' "take k rest"] w link_write(1)
    by (simp add: link_inv_def task_write_def total_sent_def total_received_def)
  moreover have "task_ok l'"
    using inv link_write w unsent_length [OF link_write(5,4)] by (simp add: link_inv_def task_ok_def task_write_def)
  ultimately show ?thesis using inv link_write(1) by (simp add: link_inv_def task_write_def)
next
  case (link_fault r n e)
  then show ?thesis
    using inv stream_ok_cong [of l' l K]
    by (auto simp: link_inv_def task_ok_def total_sent_def total_received_def)
next
  case (link_written r n)
  then show ?thesis
    using inv stream_ok_cong [of l' l K]
    by (auto simp: link_inv_def task_ok_def total_sent_def total_received_def)
next
  case (link_read r reply c)
  note w = tcp_readD [OF K link_read(3)]
  have l': "l' = task_end r (Inr (length reply, next_array (memory l))) reply
      (l\<lparr>memory := (memory l)\<lparr>arrays := (arrays (memory l))(next_array (memory l) \<mapsto> reply),
         next_array := next_array (memory l) + 1\<rparr>, connection := c\<rparr>)" (is "_ = task_end _ _ _ ?l")
    using link_read(4) by (simp add: task_read_eq)
  have "stream_ok K l'"
    unfolding l' using inv w stream_ok_received [of K l _ reply]
    by (simp add: link_inv_def total_sent_def total_received_def task_end_def)
  moreover have "length (sent l) = unat (snd r)"
    using inv link_read(1,2) by (auto simp: link_inv_def task_ok_def)
  moreover have "heap_ok (memory l')" using inv by (auto simp: l' link_inv_def heap_ok_def)
  ultimately show ?thesis
    using inv w(1,2) by (auto simp: link_inv_def l' task_ok_def exchange_ok_def worker_task_end_def)
next
  case (link_throws r n)
  then have "length (sent l) \<le> unat (snd r)" using inv by (auto simp: link_inv_def task_ok_def)
  then show ?thesis
    using inv link_throws(1) stream_ok_received [of K l l' "[]"]
    by (auto simp: link_inv_def task_ok_def exchange_ok_def worker_task_end_def)
next
  case (link_accept junk ec)
  have "total_sent l' = total_sent l" "total_received l' = total_received l"
    using link_accept(1) by (simp_all add: total_sent_def total_received_def)
  then have "stream_ok K l'"
    using inv link_accept(1,2) on_accept_ok [OF link_accept(3), of ec]
    by (auto simp: link_inv_def stream_ok_def echo_bytes_def split: option.split)
  then show ?thesis using inv link_accept(1) by (simp add: link_inv_def task_ok_def split: task_phase.splits)
next
  case (link_session s s' c)
  have "ses_phase s \<noteq> Ended" using link_session(3) by cases auto
  then have ok: "session_ok s" "total_sent l = total_received l @ echo_bytes K s (connection l)"
    using inv link_session(2) by (simp_all add: link_inv_def stream_ok_def)
  have totals: "total_sent l' = total_sent l" "total_received l' = total_received l"
    using link_session(1) by (simp_all add: total_sent_def total_received_def)
  have "\<exists>rest. echo_bytes K s (connection l) = tcp_unread K Client c @ rest"
    and "ses_phase s' = Ended \<or> echo_bytes K s' c = echo_bytes K s (connection l)"
    using session_step_echo [OF link_session(3) ok(1) K] by (auto simp: echo_bytes_def intro: sym)
  then have "stream_ok K l'"
    using ok(2) totals link_session(1) session_step_ok [OF link_session(3) ok(1) K]
    by (auto simp: stream_ok_def)
  then show ?thesis using inv link_session(1) by (simp add: link_inv_def task_ok_def split: task_phase.splits)
next
  case (link_client h)
  then have "stream_ok K l'" "task_ok l'"
    using inv stream_ok_cong [of l' l K] task_ok_cong [of l' l]
    by (simp_all add: link_inv_def total_sent_def total_received_def)
  then show ?thesis using inv link_client by (simp add: link_inv_def)
qed


lemma link_reachable_inv: "link_reachable K l \<Longrightarrow> tcp_laws K \<Longrightarrow> link_inv K l"
  by (induction rule: link_reachable.induct) (auto intro: link_inv_new link_inv_step)

lemma link_inv_prefix:
  assumes "link_inv K l"
  obtains rest where "total_sent l = total_received l @ rest"
  using assms by (auto simp: link_inv_def stream_ok_def split: option.splits if_splits)


section \<open>Two requests over one connection\<close>

text \<open>
  A run of a linker: the request of two bytes is sent twice; the first read takes one byte of the echo
  and the second read the other.
\<close>

definition wires :: "bytes \<Rightarrow> bytes \<Rightarrow> side \<Rightarrow> bytes" where
  "wires to_client to_server s = (case s of Client \<Rightarrow> to_client | Server \<Rightarrow> to_server)"

lemma wires_simps [simp]:
  "wires x y Client = x" "wires x y Server = y"
  "(wires x y)(Client := z) = wires z y" "(wires x y)(Server := z) = wires x z"
  by (auto simp: wires_def split: side.splits)

definition sample_exchange :: "byte \<Rightarrow> nat \<Rightarrow> exchange" where
  "sample_exchange b a =
     \<lparr>ex_task = (Some 0, 2), ex_sent = [5, 6], ex_result = Inr (1, a), ex_reply = [b]\<rparr>"

lemma link_session_at:
  "session_step K s c s' c' \<Longrightarrow> remote l = Some s \<Longrightarrow> connection l = c \<Longrightarrow>
    link_step K l (l\<lparr>remote := Some s', connection := c'\<rparr>)"
  by (rule link_session) simp_all

lemma sample_link:
  obtains l :: "(side \<Rightarrow> bytes) linker" where "link_reachable list_tcp l"
    "exchanges l = [sample_exchange 5 1, sample_exchange 6 2]" "sent l = []"
proof -
  let ?r = "(Some 0, 2) :: request"
  let ?z = "replicate 1024 0 :: bytes"
  let ?d = "[5, 6] @ replicate 1022 0 :: bytes"
  let ?h1 = "sample_heap\<lparr>next_array := 2, arrays := (arrays sample_heap)(1 \<mapsto> [5])\<rparr>"
  let ?h2 = "?h1\<lparr>next_array := 3, arrays := (arrays ?h1)(2 \<mapsto> [6])\<rparr>"
  let ?L = "\<lambda>ws ts n acc st fin io h x y ph d snt exs.
    \<lparr>worker_id = 0, host = [], port = [], queue = \<lparr>workers = ws, tasks = ts, stop = False, notifying = n,
       phase = Alive, accepted = acc, started = st, finished = fin\<rparr>, task_io = io, memory = h,
     connection = wires x y, remote = Some \<lparr>ses_phase = ph, ses_data = d\<rparr>, sent = snt, exchanges = exs\<rparr>"
  let ?l0 = "\<lparr>worker_id = 0, host = [], port = [], queue = ThreadPool_new 1, task_io = NotStarted,
     memory = sample_heap, connection = wires [] [], remote = None, sent = [], exchanges = []\<rparr>"
  note pool = ThreadPool_new_def ThreadPool_enqueue_def worker_section_def worker_task_end_def
  have heaps: "next_array sample_heap = 1" "arrays sample_heap 0 = Some [5, 6]" by (simp_all add: sample_heap_def)
  have two: "2 = unat (snd ?r)" by (simp add: eq_commute)
  have sread: "session_step list_tcp \<lparr>ses_phase = Reading, ses_data = ?z\<rparr> (wires [] [5, 6])
      \<lparr>ses_phase = Writing 2 0, ses_data = ?d\<rparr> (wires [] [])"
    using ses_read [of "\<lparr>ses_phase = Reading, ses_data = ?z\<rparr>" list_tcp "wires [] [5, 6]" "[5, 6]"]
    by (simp add: on_read_def do_write_def max_length_def numeral_2_eq_2 [symmetric])
  have swrite: "session_step list_tcp \<lparr>ses_phase = Writing 2 0, ses_data = ?d\<rparr> (wires [] [])
      \<lparr>ses_phase = Writing 2 2, ses_data = ?d\<rparr> (wires [5, 6] [])"
    using ses_write [of "\<lparr>ses_phase = Writing 2 0, ses_data = ?d\<rparr>" 2 0 list_tcp "wires [] []" 2]
    by (simp add: numeral_2_eq_2 [symmetric])
  have unsent: "task_unsent ?r 0 (?L ws ts n acc st fin io h x y ph d snt exs) = Inr [5, 6]"
    if "arrays h 0 = Some [5, 6]" for ws ts n acc st fin io h x y ph d snt exs
    using that by (simp add: task_unsent_def read_array_def)
  have conn: "(\<lambda>_. []) = wires [] []" by (auto simp: wires_def fun_eq_iff split: side.split)
  have "link_reachable list_tcp ?l0"
    using link_new [OF sample_heap_facts(1), of list_tcp 0 "[]" "[]"]
    by (simp add: NodeLinker_new_def list_tcp_def conn)
  then have "link_reachable list_tcp (?L [AtLock] [] 0 [] [] [] NotStarted sample_heap [] [] Reading ?z [] [])"
    by (rule link_more)
      (use link_accept [of ?l0 ?z list_tcp False] in
        \<open>simp add: on_accept_def EchoNodeSession_start_def EchoNodeSession_new_def do_read_def max_length_def pool\<close>)
  then have "link_reachable list_tcp (?L [AtLock] [?r] 1 [?r] [] [] NotStarted sample_heap [] [] Reading ?z [] [])"
    by (rule link_more) (rule link_submit, simp_all add: NodeLinker_submitTask_def pool)
  then have "link_reachable list_tcp (?L [Running ?r] [] 1 [?r] [?r] [] NotStarted sample_heap [] [] Reading ?z [] [])"
    by (rule link_more) (use link_worker [of "?L [AtLock] [?r] 1 [?r] [] [] NotStarted sample_heap [] [] Reading ?z [] []"] in \<open>simp add: NodeLinker_worker_def pool\<close>)
  then have "link_reachable list_tcp (?L [Running ?r] [] 1 [?r] [?r] [] (Sending 0) sample_heap [] [] Reading ?z [] [])"
    by (rule link_more) (use link_start [of "?L [Running ?r] [] 1 [?r] [?r] [] NotStarted sample_heap [] [] Reading ?z [] []" ?r] in simp)
  then have "link_reachable list_tcp (?L [Running ?r] [] 1 [?r] [?r] [] (Sending 2) sample_heap [] [5, 6] Reading ?z [5, 6] [])"
    by (rule link_more)
      (use link_write [of "?L [Running ?r] [] 1 [?r] [?r] [] (Sending 0) sample_heap [] [] Reading ?z [] []" ?r 0 "[5, 6]" list_tcp 2] in \<open>simp add: unsent task_write_def heaps numeral_2_eq_2 [symmetric]\<close>)
  then have "link_reachable list_tcp (?L [Running ?r] [] 1 [?r] [?r] [] Receiving sample_heap [] [5, 6] Reading ?z [5, 6] [])"
    by (rule link_more) (use link_written [of "?L [Running ?r] [] 1 [?r] [?r] [] (Sending 2) sample_heap [] [5, 6] Reading ?z [5, 6] []" ?r 2, OF _ _ two] in simp)
  then have "link_reachable list_tcp (?L [Running ?r] [] 1 [?r] [?r] [] Receiving sample_heap [] [] (Writing 2 0) ?d [5, 6] [])"
    by (rule link_more) (use link_session_at [OF sread, of "?L [Running ?r] [] 1 [?r] [?r] [] Receiving sample_heap [] [5, 6] Reading ?z [5, 6] []"] in simp)
  then have "link_reachable list_tcp (?L [Running ?r] [] 1 [?r] [?r] [] Receiving sample_heap [5, 6] [] (Writing 2 2) ?d [5, 6] [])"
    by (rule link_more) (use link_session_at [OF swrite, of "?L [Running ?r] [] 1 [?r] [?r] [] Receiving sample_heap [] [] (Writing 2 0) ?d [5, 6] []"] in simp)
  then have "link_reachable list_tcp (?L [AtLock] [] 1 [?r] [?r] [?r] NotStarted ?h1 [6] [] (Writing 2 2) ?d [] [sample_exchange 5 1])"
    by (rule link_more) (use link_read [of "?L [Running ?r] [] 1 [?r] [?r] [] Receiving sample_heap [5, 6] [] (Writing 2 2) ?d [5, 6] []" ?r list_tcp "[5]"] in
      \<open>simp add: task_read_eq task_end_def reply_size_def sample_exchange_def heaps pool\<close>)
  then have "link_reachable list_tcp (?L [AtLock] [?r] 2 [?r, ?r] [?r] [?r] NotStarted ?h1 [6] [] (Writing 2 2) ?d [] [sample_exchange 5 1])"
    by (rule link_more) (rule link_submit, simp_all add: NodeLinker_submitTask_def pool)
  then have "link_reachable list_tcp (?L [Running ?r] [] 2 [?r, ?r] [?r, ?r] [?r] NotStarted ?h1 [6] [] (Writing 2 2) ?d [] [sample_exchange 5 1])"
    by (rule link_more) (use link_worker [of "?L [AtLock] [?r] 2 [?r, ?r] [?r] [?r] NotStarted ?h1 [6] [] (Writing 2 2) ?d [] [sample_exchange 5 1]"] in \<open>simp add: NodeLinker_worker_def pool\<close>)
  then have "link_reachable list_tcp (?L [Running ?r] [] 2 [?r, ?r] [?r, ?r] [?r] (Sending 0) ?h1 [6] [] (Writing 2 2) ?d [] [sample_exchange 5 1])"
    by (rule link_more) (use link_start [of "?L [Running ?r] [] 2 [?r, ?r] [?r, ?r] [?r] NotStarted ?h1 [6] [] (Writing 2 2) ?d [] [sample_exchange 5 1]" ?r] in simp)
  then have "link_reachable list_tcp (?L [Running ?r] [] 2 [?r, ?r] [?r, ?r] [?r] (Sending 2) ?h1 [6] [5, 6] (Writing 2 2) ?d [5, 6] [sample_exchange 5 1])"
    by (rule link_more)
      (use link_write [of "?L [Running ?r] [] 2 [?r, ?r] [?r, ?r] [?r] (Sending 0) ?h1 [6] [] (Writing 2 2) ?d [] [sample_exchange 5 1]" ?r 0 "[5, 6]" list_tcp 2] in \<open>simp add: unsent task_write_def heaps numeral_2_eq_2 [symmetric]\<close>)
  then have "link_reachable list_tcp (?L [Running ?r] [] 2 [?r, ?r] [?r, ?r] [?r] Receiving ?h1 [6] [5, 6] (Writing 2 2) ?d [5, 6] [sample_exchange 5 1])"
    by (rule link_more) (use link_written [of "?L [Running ?r] [] 2 [?r, ?r] [?r, ?r] [?r] (Sending 2) ?h1 [6] [5, 6] (Writing 2 2) ?d [5, 6] [sample_exchange 5 1]" ?r 2, OF _ _ two] in simp)
  then have "link_reachable list_tcp (?L [AtLock] [] 2 [?r, ?r] [?r, ?r] [?r, ?r] NotStarted ?h2 [] [5, 6] (Writing 2 2) ?d [] [sample_exchange 5 1, sample_exchange 6 2])"
    by (rule link_more) (use link_read [of "?L [Running ?r] [] 2 [?r, ?r] [?r, ?r] [?r] Receiving ?h1 [6] [5, 6] (Writing 2 2) ?d [5, 6] [sample_exchange 5 1]" ?r list_tcp "[6]"] in
      \<open>simp add: task_read_eq task_end_def reply_size_def sample_exchange_def heaps pool\<close>)
  then show thesis by (rule that) simp_all
qed


section \<open>What a linker promises\<close>

text \<open>C15: Whatever the interleaving of the callers, the worker, the session at the other end and the network, and
  however the stream is cut into reads and writes: the requests are executed one after the other in
  the order in which they were submitted, and the replies of the executed requests are together a prefix of the
  bytes that were sent. A reply that was received has between 1 and 1024 bytes.\<close>

theorem replies_prefix:
  assumes "tcp_laws K" "link_reachable K l"
  shows "map ex_task (exchanges l) = take (length (exchanges l)) (accepted (queue l)) \<and>
    (\<exists>rest. concat (map ex_sent (exchanges l)) @ sent l = concat (map ex_reply (exchanges l)) @ rest) \<and>
    (\<forall>x \<in> set (exchanges l). \<forall>n a. ex_result x = Inr (n, a) \<longrightarrow>
       n = length (ex_reply x) \<and> 1 \<le> n \<and> n \<le> 1024 \<and> length (ex_sent x) = unat (snd (ex_task x)))"
proof -
  have inv: "link_inv K l" by (rule link_reachable_inv [OF assms(2,1)])
  have tasks: "map ex_task (exchanges l) = finished (queue l)" using inv by (simp add: link_inv_def)
  obtain more where "accepted (queue l) = finished (queue l) @ more"
    using one_worker_order [OF link_queue_reachable [OF assms(2)]] by blast
  then have "map ex_task (exchanges l) = take (length (map ex_task (exchanges l))) (accepted (queue l))"
    unfolding tasks by simp
  moreover obtain rest where "total_sent l = total_received l @ rest" by (rule link_inv_prefix [OF inv])
  moreover have "n = length (ex_reply x) \<and> 1 \<le> n \<and> n \<le> 1024 \<and> length (ex_sent x) = unat (snd (ex_task x))"
    if "x \<in> set (exchanges l)" "ex_result x = Inr (n, a)" for x n a
  proof -
    have "exchange_ok x" using inv that(1) by (simp add: link_inv_def)
    then show ?thesis using that(2) by (auto simp: exchange_ok_def reply_size_def)
  qed
  ultimately show ?thesis unfolding total_sent_def total_received_def by simp
qed

lemma replies_prefix_witness:
  "\<exists>l :: (side \<Rightarrow> bytes) linker. exchanges l = [sample_exchange 5 1, sample_exchange 6 2] \<and>
    (\<exists>rest. [5, 6, 5, 6] = [5, 6] @ rest) \<and>
    [(Some 0, 2), (Some 0, 2)] = take 2 (accepted (queue l))"
proof -
  obtain l :: "(side \<Rightarrow> bytes) linker" where l: "link_reachable list_tcp l"
    "exchanges l = [sample_exchange 5 1, sample_exchange 6 2]" "sent l = []"
    by (rule sample_link)
  have "(\<exists>rest. [5, 6, 5, 6] = [5, 6] @ rest) \<and> [(Some 0, 2), (Some 0, 2)] = take 2 (accepted (queue l))"
    using replies_prefix [OF list_tcp_laws l(1)] l(2,3) by (simp add: sample_exchange_def numeral_2_eq_2)
  then show ?thesis using l(2) by blast
qed

text \<open>C20: As long as every reply is as long as its request, every reply is its request. The first reply that is
  shorter, as every reply to a request of more than 1024 bytes is, shifts the stream: the reply to the next
  request starts with the byte of the earlier request at which its reply was cut.\<close>

theorem short_reply_shifts:
  assumes "tcp_laws K" "link_reachable K l" "exchanges l = xs @ ys"
    and "\<forall>x \<in> set xs. length (ex_reply x) = length (ex_sent x)"
  shows "(\<forall>x \<in> set xs. ex_reply x = ex_sent x) \<and>
    (\<forall>x y zs n a. ys = x # y # zs \<and> length (ex_reply x) < length (ex_sent x) \<and> ex_result y = Inr (n, a) \<longrightarrow>
       ex_reply y \<noteq> [] \<and> hd (ex_reply y) = ex_sent x ! length (ex_reply x))"
proof -
  have inv: "link_inv K l" by (rule link_reachable_inv [OF assms(2,1)])
  obtain rest where "total_sent l = total_received l @ rest" by (rule link_inv_prefix [OF inv])
  then have streams: "concat (map ex_sent xs) @ concat (map ex_sent ys) @ sent l =
      concat (map ex_reply xs) @ concat (map ex_reply ys) @ rest"
    by (simp add: total_sent_def total_received_def assms(3))
  have "length (concat (map ex_sent xs)) = length (concat (map ex_reply xs))"
    using assms(4) by (induction xs) auto
  then have "concat (map ex_sent xs) = concat (map ex_reply xs)"
    and tail: "concat (map ex_sent ys) @ sent l = concat (map ex_reply ys) @ rest"
    using streams by simp_all
  then have "\<forall>x \<in> set xs. ex_reply x = ex_sent x"
    using concat_map_eq_iff [of xs ex_reply ex_sent] assms(4) by simp
  moreover have "ex_reply y \<noteq> [] \<and> hd (ex_reply y) = ex_sent x ! length (ex_reply x)"
    if y: "ys = x # y # zs" "length (ex_reply x) < length (ex_sent x)" "ex_result y = Inr (n, a)" for x y zs n a
  proof -
    have "exchange_ok y" using inv y(1) assms(3) by (simp add: link_inv_def)
    then have "ex_reply y \<noteq> []" using y(3) by (auto simp: exchange_ok_def)
    moreover have "(concat (map ex_sent ys) @ sent l) ! length (ex_reply x) = ex_sent x ! length (ex_reply x)"
      using y(1,2) by (simp add: nth_append)
    moreover have "(concat (map ex_reply ys) @ rest) ! length (ex_reply x) = hd (ex_reply y)"
      using y(1) \<open>ex_reply y \<noteq> []\<close> by (simp add: nth_append hd_conv_nth)
    ultimately show ?thesis using tail by simp
  qed
  ultimately show ?thesis by blast
qed

lemma short_reply_shifts_witness:
  "hd (ex_reply (sample_exchange 6 2)) = ex_sent (sample_exchange 5 1) ! 1 \<and>
   ex_reply (sample_exchange 6 2) \<noteq> ex_sent (sample_exchange 6 2)"
proof -
  obtain l :: "(side \<Rightarrow> bytes) linker" where l: "link_reachable list_tcp l"
    "exchanges l = [sample_exchange 5 1, sample_exchange 6 2]"
    by (rule sample_link)
  then have "hd (ex_reply (sample_exchange 6 2)) =
      ex_sent (sample_exchange 5 1) ! length (ex_reply (sample_exchange 5 1))"
    using short_reply_shifts [OF list_tcp_laws l(1), of "[]"] by (auto simp: sample_exchange_def)
  then show ?thesis by (simp add: sample_exchange_def)
qed

end
