(* ===== verification/Coordinator.thy ===== *)
theory Coordinator
  imports NodeLinker
begin

text \<open>
  The coordinator of \<open>src/dtxn/BaseCoordinatorService.h\<close>: a vector of linkers, one per node, numbered in
  the order in which they were added; and the treatment of a reply in \<open>src/dtxn/client.cc\<close>. All
  linkers live in one process: what one of them does to the memory is a step of the client for the others.
\<close>

section \<open>State and operations\<close>

text \<open>\<open>deleting\<close>: the destructor has deleted that many linkers.\<close>

record 'c coordinator =
  linkers :: "'c linker list"
  deleting :: "nat option"

fun link_nodes :: "'c tcp \<Rightarrow> nat \<Rightarrow> (string \<times> string) list \<Rightarrow> chars_heap \<Rightarrow> 'c linker list result" where
  "link_nodes K i [] h = Inr []"
| "link_nodes K i ((hst, prt) # nodes) h =
     bnd (NodeLinker_new K i hst prt h) (\<lambda>l.
     bnd (link_nodes K (i + 1) nodes h) (\<lambda>ls. Inr (l # ls)))"

definition BaseCoordinatorService_new ::
    "'c tcp \<Rightarrow> (string \<times> string) list \<Rightarrow> chars_heap \<Rightarrow> 'c coordinator result" where
  "BaseCoordinatorService_new K nodes h =
     bnd (link_nodes K 0 nodes h) (\<lambda>ls. Inr \<lparr>linkers = ls, deleting = None\<rparr>)"

definition addNodeLinker ::
    "'c tcp \<Rightarrow> string \<Rightarrow> string \<Rightarrow> chars_heap \<Rightarrow> 'c coordinator \<Rightarrow> (nat \<times> 'c coordinator) result" where
  "addNodeLinker K hst prt h s =
     (let cnt = length (linkers s) in
      bnd (NodeLinker_new K cnt hst prt h) (\<lambda>l.
      Inr (cnt, s\<lparr>linkers := linkers s @ [l]\<rparr>)))"

text \<open>\<open>linkers[node_no]\<close> is not checked: a number outside the vector is undefined behaviour.\<close>

definition coordinator_request :: "int \<Rightarrow> request \<Rightarrow> 'c coordinator \<Rightarrow> 'c coordinator result" where
  "coordinator_request node_no r s =
     (if 0 \<le> node_no \<and> nat node_no < length (linkers s)
      then bnd (NodeLinker_submitTask r (linkers s ! nat node_no)) (\<lambda>l.
           Inr (s\<lparr>linkers := (linkers s)[nat node_no := l]\<rparr>))
      else Inl BadAccess)"

definition coordinator_clear :: "'c coordinator \<Rightarrow> 'c coordinator" where
  "coordinator_clear s = s\<lparr>linkers := []\<rparr>"

section \<open>Steps\<close>

text \<open>
  The linkers run by themselves, but only the destructor of the coordinator deletes them, one after the other,
  and the next when the one before has joined its thread.
\<close>

abbreviation alive :: "'c linker \<Rightarrow> bool" where
  "alive l \<equiv> phase (queue l) = Alive"

inductive coordinator_step :: "'c tcp \<Rightarrow> 'c coordinator \<Rightarrow> 'c coordinator \<Rightarrow> bool" for K where
  co_add: "deleting s = None \<Longrightarrow> heap_ok h \<Longrightarrow> addNodeLinker K hst prt h s = Inr (n, s') \<Longrightarrow> coordinator_step K s s'"
| co_request: "deleting s = None \<Longrightarrow> coordinator_request node_no r s = Inr s' \<Longrightarrow> coordinator_step K s s'"
| co_link: "i < length (linkers s) \<Longrightarrow> link_step K (linkers s ! i) l \<Longrightarrow>
    alive (linkers s ! i) \<longrightarrow> alive l \<or> deleting s = Some i \<Longrightarrow>
    coordinator_step K s (s\<lparr>linkers := (linkers s)[i := l]\<rparr>)"
| co_destroy: "deleting s = None \<Longrightarrow> coordinator_step K s (s\<lparr>deleting := Some 0\<rparr>)"
| co_next: "deleting s = Some i \<Longrightarrow> i < length (linkers s) \<Longrightarrow> phase (queue (linkers s ! i)) = Destroyed \<Longrightarrow>
    coordinator_step K s (s\<lparr>deleting := Some (i + 1)\<rparr>)"
| co_clear: "deleting s = Some (length (linkers s)) \<Longrightarrow> coordinator_step K s (coordinator_clear s)"

inductive coordinator_reachable :: "'c tcp \<Rightarrow> 'c coordinator \<Rightarrow> bool" for K where
  co_new: "heap_ok h \<Longrightarrow> BaseCoordinatorService_new K nodes h = Inr s \<Longrightarrow> coordinator_reachable K s"
| co_step: "coordinator_reachable K s \<Longrightarrow> coordinator_step K s s' \<Longrightarrow> coordinator_reachable K s'"

section \<open>The numbering of the linkers\<close>

definition coordinator_inv :: "'c tcp \<Rightarrow> 'c coordinator \<Rightarrow> bool" where
  "coordinator_inv K s \<longleftrightarrow>
     map worker_id (linkers s) = [0..<length (linkers s)] \<and>
     (\<forall>l \<in> set (linkers s). link_reachable K l \<and> (deleting s = None \<longrightarrow> alive l))"

lemma link_step_worker_id: "link_step K l l' \<Longrightarrow> worker_id l' = worker_id l"
  by (erule link_step.cases)
    (auto simp: NodeLinker_worker_def NodeLinker_submitTask_def task_write_def task_read_eq task_end_def)

lemma NodeLinker_new_facts:
  assumes "NodeLinker_new K no hst prt h = Inr l"
  shows "worker_id l = no" "alive l"
  using assms by (auto simp: NodeLinker_new_def ThreadPool_new_def)

lemma NodeLinker_submitTask_facts:
  assumes "NodeLinker_submitTask r l = Inr l'"
  shows "worker_id l' = worker_id l" "phase (queue l') = phase (queue l)"
  using assms by (auto simp: NodeLinker_submitTask_def ThreadPool_enqueue_def split: if_splits)

lemma submitTask_alive:
  assumes "link_reachable K l" "alive l"
  obtains l' where "NodeLinker_submitTask r l = Inr l'" "accepted (queue l') = accepted (queue l) @ [r]"
    "link_reachable K l'"
proof -
  have "\<not> stop (queue l)"
    using pool_invD(4) [OF reachable_inv [OF link_queue_reachable [OF assms(1)]]] assms(2) by simp
  then obtain l' where l': "NodeLinker_submitTask r l = Inr l'" "accepted (queue l') = accepted (queue l) @ [r]"
    by (simp add: NodeLinker_submitTask_def ThreadPool_enqueue_def)
  have "link_reachable K l'"
    by (rule link_more [OF assms(1)], rule link_submit [OF _ l'(1)]) (simp add: assms(2))
  then show thesis using that l' by blast
qed

lemma link_nodes_facts:
  "link_nodes K i nodes h = Inr ls \<Longrightarrow> heap_ok h \<Longrightarrow>
    map worker_id ls = [i..<i + length nodes] \<and> length ls = length nodes \<and>
    (\<forall>l \<in> set ls. link_reachable K l \<and> alive l)"
proof (induction K i nodes h arbitrary: ls rule: link_nodes.induct)
  case (2 K i hst prt nodes h)
  then obtain l ls' where l: "NodeLinker_new K i hst prt h = Inr l" "link_nodes K (i + 1) nodes h = Inr ls'"
    "ls = l # ls'" by auto
  then show ?case
    using 2(1) [OF l(1) l(2) 2(3)] NodeLinker_new_facts [OF l(1)] link_new [OF 2(3) l(1)]
    by (simp add: upt_conv_Cons del: upt_Suc)
qed simp

lemma coordinator_inv_update:
  assumes "coordinator_inv K s" "i < length (linkers s)" "worker_id l = worker_id (linkers s ! i)"
    and "link_reachable K l" "deleting s = None \<longrightarrow> alive l"
  shows "coordinator_inv K (s\<lparr>linkers := (linkers s)[i := l]\<rparr>)"
proof -
  have "map worker_id ((linkers s)[i := l]) = map worker_id (linkers s)"
    using assms(2,3) by (metis list_update_id map_update nth_map)
  then show ?thesis
    using assms set_update_subset_insert [of "linkers s" i l] by (auto simp: coordinator_inv_def)
qed

lemma coordinator_inv_step:
  assumes "coordinator_step K s s'" and inv: "coordinator_inv K s"
  shows "coordinator_inv K s'"
  using assms(1)
proof cases
  case (co_add h hst prt n)
  then obtain l where l: "NodeLinker_new K (length (linkers s)) hst prt h = Inr l"
    "s' = s\<lparr>linkers := linkers s @ [l]\<rparr>" by (auto simp: addNodeLinker_def Let_def)
  then show ?thesis
    using inv NodeLinker_new_facts [OF l(1)] link_new [OF co_add(2) l(1)] by (simp add: coordinator_inv_def)
next
  case (co_request node_no r)
  then obtain l where l: "nat node_no < length (linkers s)" "NodeLinker_submitTask r (linkers s ! nat node_no) = Inr l"
    "s' = s\<lparr>linkers := (linkers s)[nat node_no := l]\<rparr>" by (auto simp: coordinator_request_def split: if_splits)
  have "link_reachable K (linkers s ! nat node_no)" "alive (linkers s ! nat node_no)"
    using inv co_request(1) nth_mem [OF l(1)] by (auto simp: coordinator_inv_def)
  then have "link_reachable K l" "alive l"
    using link_more [OF _ link_submit [OF _ l(2)]] NodeLinker_submitTask_facts [OF l(2)] by auto
  then show ?thesis
    unfolding l(3) using coordinator_inv_update [OF inv l(1) NodeLinker_submitTask_facts(1) [OF l(2)]] by simp
next
  case (co_link i l)
  have old: "link_reachable K (linkers s ! i)" "deleting s = None \<Longrightarrow> alive (linkers s ! i)"
    using inv nth_mem [OF co_link(2)] by (auto simp: coordinator_inv_def)
  have "deleting s = None \<longrightarrow> alive l" using old(2) co_link(4) by auto
  then show ?thesis
    unfolding co_link(1)
    by (rule coordinator_inv_update [OF inv co_link(2) link_step_worker_id [OF co_link(3)] link_more [OF old(1) co_link(3)]])
qed (use inv in \<open>auto simp: coordinator_inv_def coordinator_clear_def\<close>)

lemma coordinator_reachable_inv: "coordinator_reachable K s \<Longrightarrow> coordinator_inv K s"
proof (induction rule: coordinator_reachable.induct)
  case (co_new h nodes s)
  then obtain ls where ls: "link_nodes K 0 nodes h = Inr ls" "s = \<lparr>linkers = ls, deleting = None\<rparr>"
    by (auto simp: BaseCoordinatorService_new_def)
  then show ?case using link_nodes_facts [OF ls(1) co_new(1)] by (simp add: coordinator_inv_def)
qed (rule coordinator_inv_step)

text \<open>C35: In every reachable state of the coordinator, the linkers are numbered by their places, and each is in a state
  its worker, its callers and its connection can bring it to. The number addNodeLinker returns is that of
  the new linker; a request for a number in use is queued at the linker with that number, after
  the requests it had, and at no other; for any other number it is undefined behaviour.\<close>

theorem coordinator_numbering:
  assumes "coordinator_reachable K s" "deleting s = None"
  shows "(\<forall>i < length (linkers s). worker_id (linkers s ! i) = i \<and> link_reachable K (linkers s ! i)) \<and>
    (\<forall>hst prt h n s'. addNodeLinker K hst prt h s = Inr (n, s') \<longrightarrow>
       n = length (linkers s) \<and> worker_id (linkers s' ! n) = n \<and> take n (linkers s') = linkers s) \<and>
    (\<forall>node_no r. if 0 \<le> node_no \<and> nat node_no < length (linkers s)
       then \<exists>s'. coordinator_request node_no r s = Inr s' \<and>
         accepted (queue (linkers s' ! nat node_no)) = accepted (queue (linkers s ! nat node_no)) @ [r] \<and>
         (\<forall>j. j \<noteq> nat node_no \<longrightarrow> linkers s' ! j = linkers s ! j)
       else coordinator_request node_no r s = Inl BadAccess)"
proof -
  have inv: "coordinator_inv K s" by (rule coordinator_reachable_inv [OF assms(1)])
  have ids: "worker_id (linkers s ! i) = i \<and> link_reachable K (linkers s ! i) \<and> alive (linkers s ! i)"
    if "i < length (linkers s)" for i
  proof -
    have "map worker_id (linkers s) ! i = i" using inv that by (simp add: coordinator_inv_def)
    then show ?thesis using inv that nth_mem [OF that] assms(2) by (simp add: coordinator_inv_def)
  qed
  moreover have "n = length (linkers s) \<and> worker_id (linkers s' ! n) = n \<and> take n (linkers s') = linkers s"
    if "addNodeLinker K hst prt h s = Inr (n, s')" for hst prt h n s'
    using that by (auto simp: addNodeLinker_def Let_def NodeLinker_new_facts)
  moreover have "\<exists>s'. coordinator_request node_no r s = Inr s' \<and>
      accepted (queue (linkers s' ! nat node_no)) = accepted (queue (linkers s ! nat node_no)) @ [r] \<and>
      (\<forall>j. j \<noteq> nat node_no \<longrightarrow> linkers s' ! j = linkers s ! j)"
    if node: "0 \<le> node_no \<and> nat node_no < length (linkers s)" for node_no r
  proof -
    obtain l' where "NodeLinker_submitTask r (linkers s ! nat node_no) = Inr l'"
      "accepted (queue l') = accepted (queue (linkers s ! nat node_no)) @ [r]"
      using submitTask_alive [of K _ r] ids node by blast
    then show ?thesis using node by (simp add: coordinator_request_def)
  qed
  moreover have "coordinator_request node_no r s = Inl BadAccess"
    if "\<not> (0 \<le> node_no \<and> nat node_no < length (linkers s))" for node_no r
    unfolding coordinator_request_def by (rule if_not_P [OF that])
  ultimately show ?thesis unfolding if_bool_eq_conj by blast
qed

lemma coordinator_numbering_witness:
  "\<exists>s. BaseCoordinatorService_new list_tcp [(''localhost'', ''33333''), (''localhost'', ''33334'')] sample_heap = Inr s \<and>
     length (linkers s) = 2 \<and> worker_id (linkers s ! 1) = 1 \<and>
     coordinator_request 2 (Some 0, 2) s = Inl BadAccess"
proof -
  let ?nodes = "[(''localhost'', ''33333''), (''localhost'', ''33334'')]"
  obtain s where s: "BaseCoordinatorService_new list_tcp ?nodes sample_heap = Inr s" "length (linkers s) = 2"
    "deleting s = None"
    by (simp add: BaseCoordinatorService_new_def NodeLinker_new_def)
  have "coordinator_reachable list_tcp s" by (rule co_new [OF sample_heap_facts(1) s(1)])
  then have "worker_id (linkers s ! 1) = 1" "coordinator_request 2 (Some 0, 2) s = Inl BadAccess"
    using coordinator_numbering [OF _ s(3), of list_tcp] s(2) by auto
  then show ?thesis using s(1,2) by blast
qed

section \<open>The reply at the client\<close>

text \<open>
  What \<open>main\<close> of the client does with the pair of the future: it allocates the array \<open>reply_data\<close> with the
  length of the reply, and then overwrites the pointer with the address of the reply.
\<close>

definition client_reply :: "nat \<times> nat \<Rightarrow> chars_heap \<Rightarrow> (char_array \<times> chars_heap) result" where
  "client_reply reply_pair h =
     bnd (CharArray_allocate (word_of_nat (fst reply_pair)) CharArray_new h) (\<lambda>(reply_data, h1).
     Inr (reply_data\<lparr>ca_data := Some (snd reply_pair)\<rparr>, h1))"

text \<open>The array of the client ends up with the bytes of the reply, and its destructor frees them; the array it
  allocated first is never freed: after the destructor it is still on the heap, full of zeros, and no
  array points to it.\<close>

theorem client_reply_leaks:
  assumes "heap_ok h" "arrays h a = Some reply" "length reply \<le> 1024"
  shows "\<exists>x h1 h2. client_reply (length reply, a) h = Inr (x, h1) \<and> holds_bytes h1 x reply \<and>
    CharArray_destroy x h1 = Inr h2 \<and> arrays h2 a = None \<and>
    arrays h (next_array h) = None \<and> arrays h2 (next_array h) = Some (replicate (length reply) 0)"
proof -
  have len: "unat (word_of_nat (length reply) :: 32 word) = length reply"
    using assms(3) by (simp add: unat_of_nat)
  let ?h = "h\<lparr>arrays := (arrays h)(next_array h \<mapsto> replicate (length reply) 0), next_array := next_array h + 1\<rparr>"
  let ?x = "\<lparr>ca_size = word_of_nat (length reply), ca_data = Some a\<rparr> :: char_array"
  have a: "a < next_array h" by (rule heap_ok_allocated [OF assms(1,2)])
  have "client_reply (length reply, a) h = Inr (?x, ?h)"
    using len by (simp add: client_reply_def allocate_eq)
  moreover have "holds_bytes ?h ?x reply" using a assms(2) len by (simp add: holds_bytes_def)
  moreover have "CharArray_destroy ?x ?h = Inr (?h\<lparr>arrays := (arrays ?h)(a := None)\<rparr>)"
    using a assms(2) by (simp add: CharArray_destroy_def CharArray_release_def delete_array_def)
  moreover have "arrays h (next_array h) = None" using assms(1) by (simp add: heap_ok_def)
  ultimately show ?thesis using a by fastforce
qed

lemma client_reply_leaks_witness:
  "\<exists>x h1 h2. client_reply (2, 0) sample_heap = Inr (x, h1) \<and> CharArray_destroy x h1 = Inr h2 \<and>
    arrays h2 1 = Some [0, 0]"
  using client_reply_leaks [OF sample_heap_facts(1), of 0 "[5, 6]"]
  by (auto simp: sample_heap_def numeral_2_eq_2)

end
