(* ===== verification/Client.thy ===== *)
theory Client
  imports Coordinator
begin

text \<open>
  The test client of \<open>src/dtxn/client.cc\<close>: it sends one serialised order to a node that echoes it, and compares
  what comes back with what it sent. The class of the order is in a directory that is not in the
  repository (benchmark/tpcc-d): its fields are those the client uses, and its two functions \<open>serialize\<close> and
  \<open>deserialize\<close> are a parameter.
\<close>

record client_order =
  cl_w_id :: "32 word"
  cl_d_id :: "32 word"
  cl_c_id :: "32 word"
  cl_o_entry_d :: "64 word"
  cl_i_ids :: "32 word list"
  cl_i_w_ids :: "32 word list"
  cl_i_qtys :: "32 word list"

record order_codec =
  oc_serialize :: "client_order \<Rightarrow> bytes"
  oc_deserialize :: "bytes \<Rightarrow> client_order result"

definition codec_laws :: "order_codec \<Rightarrow> bool" where
  "codec_laws C \<longleftrightarrow> (\<forall>p. oc_deserialize C (oc_serialize C p) = Inr p)"

section \<open>The program\<close>

definition client_order_of :: "64 word \<Rightarrow> client_order" where
  "client_order_of now =
     fold (\<lambda>i p. p\<lparr>cl_i_ids := cl_i_ids p @ [word_of_nat i], cl_i_w_ids := cl_i_w_ids p @ [word_of_nat (i + 2)],
          cl_i_qtys := cl_i_qtys p @ [word_of_nat (i + 3)]\<rparr>)
       [0..<3]
       \<lparr>cl_w_id = 10, cl_d_id = 22, cl_c_id = 333, cl_o_entry_d = now, cl_i_ids = [], cl_i_w_ids = [], cl_i_qtys = []\<rparr>"

text \<open>Up to the request: one linker, the order serialised into an array on the heap, whose address and size go to the
  coordinator.\<close>

definition client_request ::
  "'c tcp \<Rightarrow> order_codec \<Rightarrow> 64 word \<Rightarrow> chars_heap \<Rightarrow> (client_order \<times> 'c coordinator) result" where
  "client_request K C now h =
     bnd (BaseCoordinatorService_new K [] h) (\<lambda>s.
     bnd (addNodeLinker K ''localhost'' ''33333'' h s) (\<lambda>(_, s).
     let param = client_order_of now; bs = oc_serialize C param; (a, h1) = new_array (length bs) h in
     bnd (write_array (Some a) 0 bs h1) (\<lambda>h2.
     bnd (coordinator_request 0 (Some a, word_of_nat (length bs))
           (s\<lparr>linkers := map (\<lambda>l. l\<lparr>memory := h2\<rparr>) (linkers s)\<rparr>)) (\<lambda>s.
     Inr (param, s)))))"

text \<open>\<open>operator[]\<close> of a vector is not checked: outside it is undefined behaviour.\<close>

definition operator_at :: "'a list \<Rightarrow> nat \<Rightarrow> 'a result" where
  "operator_at xs i = (if i < length xs then Inr (xs ! i) else Inl BadAccess)"

definition client_compare :: "client_order \<Rightarrow> client_order \<Rightarrow> nat \<Rightarrow> unit result" where
  "client_compare param echo i =
     bnd (operator_at (cl_i_ids param) i) (\<lambda>x. bnd (operator_at (cl_i_ids echo) i) (\<lambda>y. bnd (assert_that (x = y)) (\<lambda>_.
     bnd (operator_at (cl_i_w_ids param) i) (\<lambda>x. bnd (operator_at (cl_i_w_ids echo) i) (\<lambda>y. bnd (assert_that (x = y)) (\<lambda>_.
     bnd (operator_at (cl_i_qtys param) i) (\<lambda>x. bnd (operator_at (cl_i_qtys echo) i) (\<lambda>y. assert_that (x = y)))))))))"

definition client_check :: "client_order \<Rightarrow> client_order \<Rightarrow> unit result" where
  "client_check param echo =
     bnd (assert_that (cl_w_id param = cl_w_id echo)) (\<lambda>_.
     bnd (assert_that (cl_d_id param = cl_d_id echo)) (\<lambda>_.
     bnd (assert_that (cl_c_id param = cl_c_id echo)) (\<lambda>_.
     bnd (assert_that (cl_o_entry_d param = cl_o_entry_d echo)) (\<lambda>_.
     bnd (assert_that (3 = length (cl_i_ids echo))) (\<lambda>_.
     bnd (assert_that (3 = length (cl_i_w_ids echo))) (\<lambda>_.
     bnd (assert_that (3 = length (cl_i_qtys echo))) (\<lambda>_.
     fold_res (\<lambda>i _. client_compare param echo i) [0..<length (cl_i_ids echo)] ())))))))"

text \<open>From the value of the future on: \<open>get\<close> throws the exception the task ended with.\<close>

definition client_finish ::
  "order_codec \<Rightarrow> client_order \<Rightarrow> (nat \<times> nat) result \<Rightarrow> chars_heap \<Rightarrow> unit result" where
  "client_finish C param reply h =
     bnd reply (\<lambda>reply_pair.
     bnd (client_reply reply_pair h) (\<lambda>(reply_data, h1).
     bnd (assert_that (ca_data reply_data \<noteq> None)) (\<lambda>_.
     bnd (read_array (ca_data reply_data) 0 (unat (ca_size reply_data)) h1) (\<lambda>bs.
     bnd (oc_deserialize C bs) (\<lambda>echo. client_check param echo)))))"

section \<open>What the test tests\<close>

lemma client_order_of_eq:
  "client_order_of now = \<lparr>cl_w_id = 10, cl_d_id = 22, cl_c_id = 333, cl_o_entry_d = now, cl_i_ids = [0, 1, 2],
     cl_i_w_ids = [2, 3, 4], cl_i_qtys = [3, 4, 5]\<rparr>"
  by (simp add: client_order_of_def upt_rec)

text \<open>The comparison accepts the order that was sent and no other.\<close>

lemma client_check_exact: "client_check (client_order_of now) echo = Inr () \<longleftrightarrow> echo = client_order_of now"
proof
  assume "client_check (client_order_of now) echo = Inr ()"
  then have e: "cl_w_id echo = 10" "cl_d_id echo = 22" "cl_c_id echo = 333" "cl_o_entry_d echo = now"
      "length (cl_i_ids echo) = 3" "length (cl_i_w_ids echo) = 3" "length (cl_i_qtys echo) = 3"
    and f: "fold_res (\<lambda>i _. client_compare (client_order_of now) echo i) [0..<3] () = Inr ()"
    by (auto simp: client_check_def client_order_of_eq)
  obtain a b c where ids: "cl_i_ids echo = [a, b, c]"
    using e(5) by (auto simp: numeral_3_eq_3 length_Suc_conv)
  obtain a' b' c' where w_ids: "cl_i_w_ids echo = [a', b', c']"
    using e(6) by (auto simp: numeral_3_eq_3 length_Suc_conv)
  obtain a'' b'' c'' where qtys: "cl_i_qtys echo = [a'', b'', c'']"
    using e(7) by (auto simp: numeral_3_eq_3 length_Suc_conv)
  show "echo = client_order_of now"
    using f e(1-4) ids w_ids qtys
    by (auto simp: client_order_of_eq client_compare_def operator_at_def upt_rec intro: client_order.equality)
next
  assume "echo = client_order_of now"
  then show "client_check (client_order_of now) echo = Inr ()"
    by (simp add: client_check_def client_compare_def operator_at_def client_order_of_eq upt_rec)
qed

text \<open>The request is queued at the only linker; its bytes are the serialised order.\<close>

lemma client_request_queued:
  assumes h: "heap_ok h" and K: "tcp_connect K ''localhost'' ''33333'' = Inr c"
  shows "\<exists>s l. client_request K C now h = Inr (client_order_of now, s) \<and> linkers s = [l] \<and> link_reachable K l \<and>
    accepted (queue l) = [(Some (next_array h), word_of_nat (length (oc_serialize C (client_order_of now))))] \<and>
    arrays (memory l) (next_array h) = Some (oc_serialize C (client_order_of now))"
proof -
  let ?bs = "oc_serialize C (client_order_of now)"
  let ?h2 = "h\<lparr>arrays := (arrays h)(next_array h \<mapsto> ?bs), next_array := next_array h + 1\<rparr>"
  obtain l where l: "NodeLinker_new K 0 ''localhost'' ''33333'' h = Inr l" using K by (simp add: NodeLinker_new_def)
  have acc: "accepted (queue l) = []" using l K by (auto simp: NodeLinker_new_def ThreadPool_new_def)
  obtain h1 where h1: "new_array (length ?bs) h = (next_array h, h1)" by (simp add: new_array_def)
  have ok: "heap_ok ?h2" using h by (simp add: heap_ok_def)
  let ?l = "l\<lparr>memory := ?h2\<rparr>"
  have r: "link_reachable K ?l" by (rule link_more [OF link_new [OF h l] link_client [OF ok]])
  have a: "alive ?l" using NodeLinker_new_facts(2) [OF l] by simp
  obtain l' where l': "NodeLinker_submitTask (Some (next_array h), word_of_nat (length ?bs)) ?l = Inr l'"
      "accepted (queue l') = accepted (queue ?l) @ [(Some (next_array h), word_of_nat (length ?bs))]" "link_reachable K l'"
    by (rule submitTask_alive [OF r a])
  have "memory l' = ?h2" using l'(1) by (auto simp: NodeLinker_submitTask_def)
  then show ?thesis
    using l l' acc h1 new_array_filled [OF h1 refl]
    by (simp add: client_request_def BaseCoordinatorService_new_def addNodeLinker_def coordinator_request_def Let_def)
qed

text \<open>The test succeeds exactly when the reply is read back as the order that was sent; so it does when the reply is
  the whole request. What the linker delivers for the first request is a prefix of it.\<close>

theorem client_accepts:
  assumes "codec_laws C" "heap_ok h" "arrays h a = Some reply" "length reply \<le> 1024"
  shows "client_finish C (client_order_of now) (Inr (length reply, a)) h = Inr () \<longleftrightarrow>
      oc_deserialize C reply = Inr (client_order_of now)"
    and "reply = oc_serialize C (client_order_of now) \<Longrightarrow>
      client_finish C (client_order_of now) (Inr (length reply, a)) h = Inr ()"
proof -
  obtain x h1 where x: "client_reply (length reply, a) h = Inr (x, h1)" "holds_bytes h1 x reply"
    using client_reply_leaks [OF assms(2-4)] by blast
  then obtain b where b: "ca_data x = Some b" "arrays h1 b = Some reply" "length reply = unat (ca_size x)"
    by (auto simp: holds_bytes_def)
  have "read_array (ca_data x) 0 (unat (ca_size x)) h1 = Inr reply" using b by (cases reply) (auto simp: read_array_def)
  then show iff: "client_finish C (client_order_of now) (Inr (length reply, a)) h = Inr () \<longleftrightarrow>
      oc_deserialize C reply = Inr (client_order_of now)"
    using x(1) b(1) client_check_exact by (cases "oc_deserialize C reply") (simp_all add: client_finish_def)
  show "reply = oc_serialize C (client_order_of now) \<Longrightarrow>
      client_finish C (client_order_of now) (Inr (length reply, a)) h = Inr ()"
    unfolding iff using assms(1) by (simp add: codec_laws_def)
qed

lemma first_reply_prefix:
  assumes "tcp_laws K" "link_reachable K l" "exchanges l = [x]"
  shows "\<exists>rest. ex_sent x @ sent l = ex_reply x @ rest"
  using link_inv_prefix [OF link_reachable_inv [OF assms(2,1)]] assms(3)
  by (auto simp: total_sent_def total_received_def)

end
