(* ===== verification/TpccSchema.thy ===== *)
theory TpccSchema
  imports BenchSchema
begin

text \<open>
  benchmark/tpcc/TpccSchema.cc, TpccConstants.h and ScaleParams.h: the ten schemas of the TPC-C benchmark,
  their table numbers, the constants of the transactions, and the layouts the transactions rely on. A
  getter builds its schema once and keeps it in a static pointer: here it is the value that is built.
\<close>

section \<open>Constants\<close>

definition TPCC_MAX_PARTITION_CNT :: nat where
  "TPCC_MAX_PARTITION_CNT = 100"

definition ITEM_TABLE_ID :: nat where "ITEM_TABLE_ID = 0"
definition WAREHOUSE_TABLE_ID :: nat where "WAREHOUSE_TABLE_ID = 1"
definition DISTRICT_TABLE_ID :: nat where "DISTRICT_TABLE_ID = 2"
definition CUSTOMER_TABLE_ID :: nat where "CUSTOMER_TABLE_ID = 3"
definition HISTORY_TABLE_ID :: nat where "HISTORY_TABLE_ID = 4"
definition STOCK_TABLE_ID :: nat where "STOCK_TABLE_ID = 5"
definition DISTRICT_NEW_ORDER_TABLE_ID :: nat where "DISTRICT_NEW_ORDER_TABLE_ID = 6"
definition ORDER_TABLE_ID :: nat where "ORDER_TABLE_ID = 7"
definition NEW_ORDER_TABLE_ID :: nat where "NEW_ORDER_TABLE_ID = 7 + TPCC_MAX_PARTITION_CNT"
definition ORDER_LINE_TABLE_ID :: nat where "ORDER_LINE_TABLE_ID = 7 + TPCC_MAX_PARTITION_CNT * 2"

lemmas tpcc_table_ids =
  TPCC_MAX_PARTITION_CNT_def ITEM_TABLE_ID_def WAREHOUSE_TABLE_ID_def DISTRICT_TABLE_ID_def
  CUSTOMER_TABLE_ID_def HISTORY_TABLE_ID_def STOCK_TABLE_ID_def DISTRICT_NEW_ORDER_TABLE_ID_def
  ORDER_TABLE_ID_def NEW_ORDER_TABLE_ID_def ORDER_LINE_TABLE_ID_def

definition DISTRICTS_PER_WAREHOUSE :: "32 word" where "DISTRICTS_PER_WAREHOUSE = 10"
definition NULL_CARRIER_ID :: "32 word" where "NULL_CARRIER_ID = 0"

text \<open>\<open>ScaleParams\<close>, without the scale factor, which only its constructor uses: the program creates it
  with ten warehouses and the factor one, by which the division of the constants is exact.\<close>

record tpcc_scale =
  num_warehouses :: "32 word"
  starting_warehouse :: "32 word"
  ending_warehouse :: "32 word"
  num_items :: "32 word"
  num_districts_per_warehouse :: "32 word"
  num_customers_per_district :: "32 word"
  num_new_orders_per_district :: "32 word"

definition TpccScaleParams_unit :: "32 word \<Rightarrow> tpcc_scale" where
  "TpccScaleParams_unit warehouses =
     \<lparr>num_warehouses = warehouses, starting_warehouse = 1, ending_warehouse = 1 + warehouses - 1,
      num_items = 100000, num_districts_per_warehouse = DISTRICTS_PER_WAREHOUSE,
      num_customers_per_district = 3000, num_new_orders_per_district = 900\<rparr>"

text \<open>The number of a district among all districts: computed with \<open>int\<close> and returned as \<open>size_t\<close>.\<close>

definition getOrderLineTableOffset :: "tpcc_scale \<Rightarrow> 32 word \<Rightarrow> 32 word \<Rightarrow> 64 word" where
  "getOrderLineTableOffset P w_id d_id =
     scast ((w_id - 1) * num_districts_per_warehouse P + d_id - 1)"

section \<open>Schemas\<close>

text \<open>A third argument of type \<open>size_t\<close> selects the constructor with a size, also for a fixed-size type.\<close>

abbreviation sized_col :: "string \<Rightarrow> value_type \<Rightarrow> nat \<Rightarrow> column_info result" where
  "sized_col name t n \<equiv> Inr (ColumnInfo_sized name t n False)"

definition getItemSchema :: "schema result" where
  "getItemSchema = build_schema
     [key_col ''i_id'' INT32, fix_col ''i_im_id'' INT32, str_col ''i_name'' 32, fix_col ''i_price'' DOUBLE,
      str_col ''i_data'' 64]"

definition getWarehouseSchema :: "schema result" where
  "getWarehouseSchema = build_schema
     [key_col ''w_id'' INT32, str_col ''w_name'' 16, str_col ''w_street_1'' 32, str_col ''w_street_2'' 32,
      str_col ''w_city'' 32, str_col ''w_state'' 2, str_col ''w_zip'' 9, fix_col ''w_tax'' DOUBLE,
      fix_col ''w_ytd'' DOUBLE]"

definition getDistrictSchema :: "schema result" where
  "getDistrictSchema = build_schema
     [key_col ''d_id'' INT32, key_col ''d_w_id'' INT32, str_col ''d_name'' 16, str_col ''d_street_1'' 32,
      str_col ''d_street_2'' 32, str_col ''d_city'' 32, str_col ''d_state'' 2, str_col ''d_zip'' 9,
      fix_col ''d_tax'' DOUBLE, fix_col ''d_ytd'' DOUBLE, fix_col ''d_next_o_id'' INT32]"

definition getCustomerSchema :: "schema result" where
  "getCustomerSchema = build_schema
     [key_col ''c_id'' INT32, key_col ''c_d_id'' INT32, key_col ''c_w_id'' INT32, str_col ''c_first'' 32,
      str_col ''c_middle'' 2, str_col ''c_last'' 32, str_col ''c_street_1'' 32, str_col ''c_street_2'' 32,
      str_col ''c_city'' 32, str_col ''c_state'' 2, str_col ''c_zip'' 9, str_col ''c_phone'' 32,
      fix_col ''c_since'' INT64, str_col ''c_credit'' 2, fix_col ''c_credit_lim'' DOUBLE,
      fix_col ''c_discount'' DOUBLE, fix_col ''c_balance'' DOUBLE, fix_col ''c_ytd_payment'' DOUBLE,
      fix_col ''c_payment_cnt'' INT32, fix_col ''c_delivery_cnt'' INT32, str_col ''c_data'' 500]"

definition getStockSchema :: "schema result" where
  "getStockSchema = build_schema (
     [key_col ''s_i_id'' INT32, key_col ''s_w_id'' INT32, fix_col ''s_quantity'' INT32] @
     map (\<lambda>i. str_col (''s_dists'' @ to_string (int i)) 32) [0..<10] @
     [fix_col ''s_ytd'' INT32, fix_col ''s_order_cnt'' INT32, fix_col ''s_remote_cnt'' INT32,
      str_col ''s_data'' 64])"

definition getOrderSchema :: "schema result" where
  "getOrderSchema = build_schema
     [key_col ''o_id'' INT32, fix_col ''o_c_id'' INT32, key_col ''o_d_id'' INT32, key_col ''o_w_id'' INT32,
      fix_col ''o_entry_d'' INT64, fix_col ''o_carrier_id'' INT32, fix_col ''o_ol_cnt'' INT32,
      fix_col ''o_all_local'' INT32]"

definition getNewOrderSchema :: "schema result" where
  "getNewOrderSchema = build_schema
     [key_col ''o_id'' INT32, key_col ''d_id'' INT32, key_col ''w_id'' INT32]"

definition getOrderLineSchema :: "schema result" where
  "getOrderLineSchema = build_schema
     [key_col ''ol_o_id'' INT32, key_col ''ol_d_id'' INT32, key_col ''ol_w_id'' INT32,
      key_col ''ol_number'' INT32, sized_col ''ol_i_id'' INT32 kInt32Size,
      sized_col ''ol_supply_w_id'' INT32 kInt32Size, sized_col ''ol_delivery_d'' INT64 kInt64Size,
      sized_col ''ol_quantity'' INT32 kInt32Size, sized_col ''ol_amount'' DOUBLE kDoubleSize,
      str_col ''ol_dist_info'' 32]"

definition getHistorySchema :: "schema result" where
  "getHistorySchema = build_schema
     [fix_col ''h_c_id'' INT32, fix_col ''h_c_d_id'' INT32, fix_col ''h_c_w_id'' INT32,
      fix_col ''h_d_id'' INT32, fix_col ''h_w_id'' INT32, fix_col ''h_date'' INT64,
      fix_col ''h_amount'' DOUBLE, str_col ''h_data'' 32]"

definition getDistrictNewOrderSchema :: "schema result" where
  "getDistrictNewOrderSchema = build_schema
     [key_col ''w_id'' INT32, key_col ''d_id'' INT32, fix_col ''o_id'' INT32]"

section \<open>Layouts\<close>

definition item_schema :: schema where "item_schema = projr getItemSchema"
definition warehouse_schema :: schema where "warehouse_schema = projr getWarehouseSchema"
definition district_schema :: schema where "district_schema = projr getDistrictSchema"
definition customer_schema :: schema where "customer_schema = projr getCustomerSchema"
definition stock_schema :: schema where "stock_schema = projr getStockSchema"
definition order_schema :: schema where "order_schema = projr getOrderSchema"
definition new_order_schema :: schema where "new_order_schema = projr getNewOrderSchema"
definition order_line_schema :: schema where "order_line_schema = projr getOrderLineSchema"
definition history_schema :: schema where "history_schema = projr getHistorySchema"
definition district_new_order_schema :: schema where
  "district_new_order_schema = projr getDistrictNewOrderSchema"

lemma tpcc_schemas [res_simps]:
  "getItemSchema = Inr item_schema" "getWarehouseSchema = Inr warehouse_schema"
  "getDistrictSchema = Inr district_schema" "getCustomerSchema = Inr customer_schema"
  "getStockSchema = Inr stock_schema" "getOrderSchema = Inr order_schema"
  "getNewOrderSchema = Inr new_order_schema" "getOrderLineSchema = Inr order_line_schema"
  "getHistorySchema = Inr history_schema" "getDistrictNewOrderSchema = Inr district_new_order_schema"
  unfolding item_schema_def warehouse_schema_def district_schema_def customer_schema_def stock_schema_def
    order_schema_def new_order_schema_def order_line_schema_def history_schema_def
    district_new_order_schema_def
  by (rule not_isl_Inr, code_simp)+

lemma tpcc_schema_inv:
  "schema_inv item_schema" "schema_inv warehouse_schema" "schema_inv district_schema"
  "schema_inv customer_schema" "schema_inv stock_schema" "schema_inv order_schema"
  "schema_inv new_order_schema" "schema_inv order_line_schema" "schema_inv history_schema"
  "schema_inv district_new_order_schema"
  by (rule build_schema_inv, rule tpcc_schemas [unfolded getItemSchema_def getWarehouseSchema_def getDistrictSchema_def
      getCustomerSchema_def getStockSchema_def getOrderSchema_def getNewOrderSchema_def getOrderLineSchema_def
      getHistorySchema_def getDistrictNewOrderSchema_def], code_simp)+

lemma tpcc_summaries:
  "schema_summary item_schema = (5, 112, [0], 4)"
  "schema_summary warehouse_schema = (9, 143, [0], 4)"
  "schema_summary district_schema = (11, 151, [0, 1], 8)"
  "schema_summary customer_schema = (21, 767, [0, 1, 2], 12)"
  "schema_summary stock_schema = (17, 408, [0, 1], 8)"
  "schema_summary order_schema = (8, 36, [0, 2, 3], 12)"
  "schema_summary new_order_schema = (3, 12, [0, 1, 2], 12)"
  "schema_summary order_line_schema = (10, 76, [0, 1, 2, 3], 16)"
  "schema_summary history_schema = (8, 68, [], 0)"
  "schema_summary district_new_order_schema = (3, 12, [0, 1], 8)"
  by code_simp+

text \<open>Type and size of every column.\<close>

lemma tpcc_types:
  "map column_type (columns item_schema) =
     [INT32, INT32, VARCHAR, DOUBLE, VARCHAR]"
  "map column_type (columns warehouse_schema) =
     [INT32, VARCHAR, VARCHAR, VARCHAR, VARCHAR, VARCHAR, VARCHAR, DOUBLE, DOUBLE]"
  "map column_type (columns district_schema) =
     [INT32, INT32, VARCHAR, VARCHAR, VARCHAR, VARCHAR, VARCHAR, VARCHAR, DOUBLE, DOUBLE, INT32]"
  "map column_type (columns customer_schema) =
     [INT32, INT32, INT32, VARCHAR, VARCHAR, VARCHAR, VARCHAR, VARCHAR, VARCHAR, VARCHAR, VARCHAR, VARCHAR, INT64, VARCHAR, DOUBLE, DOUBLE, DOUBLE, DOUBLE, INT32, INT32, VARCHAR]"
  "map column_type (columns stock_schema) =
     [INT32, INT32, INT32, VARCHAR, VARCHAR, VARCHAR, VARCHAR, VARCHAR, VARCHAR, VARCHAR, VARCHAR, VARCHAR, VARCHAR, INT32, INT32, INT32, VARCHAR]"
  "map column_type (columns order_schema) =
     [INT32, INT32, INT32, INT32, INT64, INT32, INT32, INT32]"
  "map column_type (columns new_order_schema) =
     [INT32, INT32, INT32]"
  "map column_type (columns order_line_schema) =
     [INT32, INT32, INT32, INT32, INT32, INT32, INT64, INT32, DOUBLE, VARCHAR]"
  "map column_type (columns history_schema) =
     [INT32, INT32, INT32, INT32, INT32, INT64, DOUBLE, VARCHAR]"
  "map column_type (columns district_new_order_schema) =
     [INT32, INT32, INT32]"
  by code_simp+

lemma tpcc_sizes:
  "map column_size (columns item_schema) =
     [4, 4, 32, 8, 64]"
  "map column_size (columns warehouse_schema) =
     [4, 16, 32, 32, 32, 2, 9, 8, 8]"
  "map column_size (columns district_schema) =
     [4, 4, 16, 32, 32, 32, 2, 9, 8, 8, 4]"
  "map column_size (columns customer_schema) =
     [4, 4, 4, 32, 2, 32, 32, 32, 32, 2, 9, 32, 8, 2, 8, 8, 8, 8, 4, 4, 500]"
  "map column_size (columns stock_schema) =
     [4, 4, 4, 32, 32, 32, 32, 32, 32, 32, 32, 32, 32, 4, 4, 4, 64]"
  "map column_size (columns order_schema) =
     [4, 4, 4, 4, 8, 4, 4, 4]"
  "map column_size (columns new_order_schema) =
     [4, 4, 4]"
  "map column_size (columns order_line_schema) =
     [4, 4, 4, 4, 4, 4, 8, 4, 8, 32]"
  "map column_size (columns history_schema) =
     [4, 4, 4, 4, 4, 8, 8, 32]"
  "map column_size (columns district_new_order_schema) =
     [4, 4, 4]"
  by code_simp+

lemma nth_of_map: "map f xs = ys \<Longrightarrow> i < length ys \<Longrightarrow> f (xs ! i) = ys ! i"
  by auto

lemma item_cols [simp]:
  "column_type (columns item_schema ! 0) = INT32" "col_size item_schema 0 = 4"
  "column_type (columns item_schema ! (Suc 0)) = INT32" "col_size item_schema (Suc 0) = 4"
  "column_type (columns item_schema ! 2) = VARCHAR" "col_size item_schema 2 = 32"
  "column_type (columns item_schema ! 3) = DOUBLE" "col_size item_schema 3 = 8"
  "column_type (columns item_schema ! 4) = VARCHAR" "col_size item_schema 4 = 64"
  by (simp_all add: col_size_def nth_of_map [OF tpcc_types(1)] nth_of_map [OF tpcc_sizes(1)])

lemma warehouse_cols [simp]:
  "column_type (columns warehouse_schema ! 0) = INT32" "col_size warehouse_schema 0 = 4"
  "column_type (columns warehouse_schema ! (Suc 0)) = VARCHAR" "col_size warehouse_schema (Suc 0) = 16"
  "column_type (columns warehouse_schema ! 2) = VARCHAR" "col_size warehouse_schema 2 = 32"
  "column_type (columns warehouse_schema ! 3) = VARCHAR" "col_size warehouse_schema 3 = 32"
  "column_type (columns warehouse_schema ! 4) = VARCHAR" "col_size warehouse_schema 4 = 32"
  "column_type (columns warehouse_schema ! 5) = VARCHAR" "col_size warehouse_schema 5 = 2"
  "column_type (columns warehouse_schema ! 6) = VARCHAR" "col_size warehouse_schema 6 = 9"
  "column_type (columns warehouse_schema ! 7) = DOUBLE" "col_size warehouse_schema 7 = 8"
  "column_type (columns warehouse_schema ! 8) = DOUBLE" "col_size warehouse_schema 8 = 8"
  by (simp_all add: col_size_def nth_of_map [OF tpcc_types(2)] nth_of_map [OF tpcc_sizes(2)])

lemma district_cols [simp]:
  "column_type (columns district_schema ! 0) = INT32" "col_size district_schema 0 = 4"
  "column_type (columns district_schema ! (Suc 0)) = INT32" "col_size district_schema (Suc 0) = 4"
  "column_type (columns district_schema ! 2) = VARCHAR" "col_size district_schema 2 = 16"
  "column_type (columns district_schema ! 3) = VARCHAR" "col_size district_schema 3 = 32"
  "column_type (columns district_schema ! 4) = VARCHAR" "col_size district_schema 4 = 32"
  "column_type (columns district_schema ! 5) = VARCHAR" "col_size district_schema 5 = 32"
  "column_type (columns district_schema ! 6) = VARCHAR" "col_size district_schema 6 = 2"
  "column_type (columns district_schema ! 7) = VARCHAR" "col_size district_schema 7 = 9"
  "column_type (columns district_schema ! 8) = DOUBLE" "col_size district_schema 8 = 8"
  "column_type (columns district_schema ! 9) = DOUBLE" "col_size district_schema 9 = 8"
  "column_type (columns district_schema ! 10) = INT32" "col_size district_schema 10 = 4"
  by (simp_all add: col_size_def nth_of_map [OF tpcc_types(3)] nth_of_map [OF tpcc_sizes(3)])

lemma customer_cols [simp]:
  "column_type (columns customer_schema ! 0) = INT32" "col_size customer_schema 0 = 4"
  "column_type (columns customer_schema ! (Suc 0)) = INT32" "col_size customer_schema (Suc 0) = 4"
  "column_type (columns customer_schema ! 2) = INT32" "col_size customer_schema 2 = 4"
  "column_type (columns customer_schema ! 3) = VARCHAR" "col_size customer_schema 3 = 32"
  "column_type (columns customer_schema ! 4) = VARCHAR" "col_size customer_schema 4 = 2"
  "column_type (columns customer_schema ! 5) = VARCHAR" "col_size customer_schema 5 = 32"
  "column_type (columns customer_schema ! 6) = VARCHAR" "col_size customer_schema 6 = 32"
  "column_type (columns customer_schema ! 7) = VARCHAR" "col_size customer_schema 7 = 32"
  "column_type (columns customer_schema ! 8) = VARCHAR" "col_size customer_schema 8 = 32"
  "column_type (columns customer_schema ! 9) = VARCHAR" "col_size customer_schema 9 = 2"
  "column_type (columns customer_schema ! 10) = VARCHAR" "col_size customer_schema 10 = 9"
  "column_type (columns customer_schema ! 11) = VARCHAR" "col_size customer_schema 11 = 32"
  "column_type (columns customer_schema ! 12) = INT64" "col_size customer_schema 12 = 8"
  "column_type (columns customer_schema ! 13) = VARCHAR" "col_size customer_schema 13 = 2"
  "column_type (columns customer_schema ! 14) = DOUBLE" "col_size customer_schema 14 = 8"
  "column_type (columns customer_schema ! 15) = DOUBLE" "col_size customer_schema 15 = 8"
  "column_type (columns customer_schema ! 16) = DOUBLE" "col_size customer_schema 16 = 8"
  "column_type (columns customer_schema ! 17) = DOUBLE" "col_size customer_schema 17 = 8"
  "column_type (columns customer_schema ! 18) = INT32" "col_size customer_schema 18 = 4"
  "column_type (columns customer_schema ! 19) = INT32" "col_size customer_schema 19 = 4"
  "column_type (columns customer_schema ! 20) = VARCHAR" "col_size customer_schema 20 = 500"
  by (simp_all add: col_size_def nth_of_map [OF tpcc_types(4)] nth_of_map [OF tpcc_sizes(4)])

lemma stock_cols [simp]:
  "column_type (columns stock_schema ! 0) = INT32" "col_size stock_schema 0 = 4"
  "column_type (columns stock_schema ! (Suc 0)) = INT32" "col_size stock_schema (Suc 0) = 4"
  "column_type (columns stock_schema ! 2) = INT32" "col_size stock_schema 2 = 4"
  "column_type (columns stock_schema ! 3) = VARCHAR" "col_size stock_schema 3 = 32"
  "column_type (columns stock_schema ! 4) = VARCHAR" "col_size stock_schema 4 = 32"
  "column_type (columns stock_schema ! 5) = VARCHAR" "col_size stock_schema 5 = 32"
  "column_type (columns stock_schema ! 6) = VARCHAR" "col_size stock_schema 6 = 32"
  "column_type (columns stock_schema ! 7) = VARCHAR" "col_size stock_schema 7 = 32"
  "column_type (columns stock_schema ! 8) = VARCHAR" "col_size stock_schema 8 = 32"
  "column_type (columns stock_schema ! 9) = VARCHAR" "col_size stock_schema 9 = 32"
  "column_type (columns stock_schema ! 10) = VARCHAR" "col_size stock_schema 10 = 32"
  "column_type (columns stock_schema ! 11) = VARCHAR" "col_size stock_schema 11 = 32"
  "column_type (columns stock_schema ! 12) = VARCHAR" "col_size stock_schema 12 = 32"
  "column_type (columns stock_schema ! 13) = INT32" "col_size stock_schema 13 = 4"
  "column_type (columns stock_schema ! 14) = INT32" "col_size stock_schema 14 = 4"
  "column_type (columns stock_schema ! 15) = INT32" "col_size stock_schema 15 = 4"
  "column_type (columns stock_schema ! 16) = VARCHAR" "col_size stock_schema 16 = 64"
  by (simp_all add: col_size_def nth_of_map [OF tpcc_types(5)] nth_of_map [OF tpcc_sizes(5)])

lemma order_schema_cols [simp]:
  "column_type (columns order_schema ! 0) = INT32" "col_size order_schema 0 = 4"
  "column_type (columns order_schema ! (Suc 0)) = INT32" "col_size order_schema (Suc 0) = 4"
  "column_type (columns order_schema ! 2) = INT32" "col_size order_schema 2 = 4"
  "column_type (columns order_schema ! 3) = INT32" "col_size order_schema 3 = 4"
  "column_type (columns order_schema ! 4) = INT64" "col_size order_schema 4 = 8"
  "column_type (columns order_schema ! 5) = INT32" "col_size order_schema 5 = 4"
  "column_type (columns order_schema ! 6) = INT32" "col_size order_schema 6 = 4"
  "column_type (columns order_schema ! 7) = INT32" "col_size order_schema 7 = 4"
  by (simp_all add: col_size_def nth_of_map [OF tpcc_types(6)] nth_of_map [OF tpcc_sizes(6)])

lemma new_order_cols [simp]:
  "column_type (columns new_order_schema ! 0) = INT32" "col_size new_order_schema 0 = 4"
  "column_type (columns new_order_schema ! (Suc 0)) = INT32" "col_size new_order_schema (Suc 0) = 4"
  "column_type (columns new_order_schema ! 2) = INT32" "col_size new_order_schema 2 = 4"
  by (simp_all add: col_size_def nth_of_map [OF tpcc_types(7)] nth_of_map [OF tpcc_sizes(7)])

lemma order_line_schema_cols [simp]:
  "column_type (columns order_line_schema ! 0) = INT32" "col_size order_line_schema 0 = 4"
  "column_type (columns order_line_schema ! (Suc 0)) = INT32" "col_size order_line_schema (Suc 0) = 4"
  "column_type (columns order_line_schema ! 2) = INT32" "col_size order_line_schema 2 = 4"
  "column_type (columns order_line_schema ! 3) = INT32" "col_size order_line_schema 3 = 4"
  "column_type (columns order_line_schema ! 4) = INT32" "col_size order_line_schema 4 = 4"
  "column_type (columns order_line_schema ! 5) = INT32" "col_size order_line_schema 5 = 4"
  "column_type (columns order_line_schema ! 6) = INT64" "col_size order_line_schema 6 = 8"
  "column_type (columns order_line_schema ! 7) = INT32" "col_size order_line_schema 7 = 4"
  "column_type (columns order_line_schema ! 8) = DOUBLE" "col_size order_line_schema 8 = 8"
  "column_type (columns order_line_schema ! 9) = VARCHAR" "col_size order_line_schema 9 = 32"
  by (simp_all add: col_size_def nth_of_map [OF tpcc_types(8)] nth_of_map [OF tpcc_sizes(8)])

lemma history_cols [simp]:
  "column_type (columns history_schema ! 0) = INT32" "col_size history_schema 0 = 4"
  "column_type (columns history_schema ! (Suc 0)) = INT32" "col_size history_schema (Suc 0) = 4"
  "column_type (columns history_schema ! 2) = INT32" "col_size history_schema 2 = 4"
  "column_type (columns history_schema ! 3) = INT32" "col_size history_schema 3 = 4"
  "column_type (columns history_schema ! 4) = INT32" "col_size history_schema 4 = 4"
  "column_type (columns history_schema ! 5) = INT64" "col_size history_schema 5 = 8"
  "column_type (columns history_schema ! 6) = DOUBLE" "col_size history_schema 6 = 8"
  "column_type (columns history_schema ! 7) = VARCHAR" "col_size history_schema 7 = 32"
  by (simp_all add: col_size_def nth_of_map [OF tpcc_types(9)] nth_of_map [OF tpcc_sizes(9)])

lemma district_new_order_cols [simp]:
  "column_type (columns district_new_order_schema ! 0) = INT32" "col_size district_new_order_schema 0 = 4"
  "column_type (columns district_new_order_schema ! (Suc 0)) = INT32" "col_size district_new_order_schema (Suc 0) = 4"
  "column_type (columns district_new_order_schema ! 2) = INT32" "col_size district_new_order_schema 2 = 4"
  by (simp_all add: col_size_def nth_of_map [OF tpcc_types(10)] nth_of_map [OF tpcc_sizes(10)])

lemma tpcc_col_facts [simp]:
  "column_count item_schema = 5" "getSchemaSize item_schema = 112"
  "primary_cols item_schema = [0]" "primary_key_length item_schema = 4"
  "column_count warehouse_schema = 9" "getSchemaSize warehouse_schema = 143"
  "primary_cols warehouse_schema = [0]" "primary_key_length warehouse_schema = 4"
  "column_count district_schema = 11" "getSchemaSize district_schema = 151"
  "primary_cols district_schema = [0, 1]" "primary_key_length district_schema = 8"
  "column_count customer_schema = 21" "getSchemaSize customer_schema = 767"
  "primary_cols customer_schema = [0, 1, 2]" "primary_key_length customer_schema = 12"
  "column_count stock_schema = 17" "getSchemaSize stock_schema = 408"
  "primary_cols stock_schema = [0, 1]" "primary_key_length stock_schema = 8"
  "column_count order_schema = 8" "getSchemaSize order_schema = 36"
  "primary_cols order_schema = [0, 2, 3]" "primary_key_length order_schema = 12"
  "column_count new_order_schema = 3" "getSchemaSize new_order_schema = 12"
  "primary_cols new_order_schema = [0, 1, 2]" "primary_key_length new_order_schema = 12"
  "column_count order_line_schema = 10" "getSchemaSize order_line_schema = 76"
  "primary_cols order_line_schema = [0, 1, 2, 3]" "primary_key_length order_line_schema = 16"
  "column_count history_schema = 8" "getSchemaSize history_schema = 68"
  "primary_cols history_schema = []" "primary_key_length history_schema = 0"
  "column_count district_new_order_schema = 3" "getSchemaSize district_new_order_schema = 12"
  "primary_cols district_new_order_schema = [0, 1]" "primary_key_length district_new_order_schema = 8"
  using tpcc_summaries by (simp_all add: schema_summary_def)

text \<open>The ten columns of a stock record with the district information.\<close>

lemma stock_dist_cols:
  assumes "3 \<le> c" "c < 13"
  shows "column_type (columns stock_schema ! c) = VARCHAR" "col_size stock_schema c = 32"
proof -
  have "c = 3 \<or> c = 4 \<or> c = 5 \<or> c = 6 \<or> c = 7 \<or> c = 8 \<or> c = 9 \<or> c = 10 \<or> c = 11 \<or> c = 12"
    using assms by arith
  then show "column_type (columns stock_schema ! c) = VARCHAR" "col_size stock_schema c = 32"
    by auto
qed

end
