(* ===== verification/TpccRandom.thy ===== *)
theory TpccRandom
  imports TpccSchema RowBuilder Distributions
begin

text \<open>
  benchmark/tpcc/RandomGenerator.h: random integers, strings, names, identifiers and addresses of TPC-C.
  The C library's \<open>rand\<close>, which gives a number from zero to \<open>RAND_MAX\<close>, and the clock are parameters. \<open>int\<close>
  has 32 bits; the operators \<open>%\<close> and \<open>/\<close> round towards zero. Where C++ leaves the order of evaluation of the
  operands open, they are drawn from left to right.
\<close>

unbundle bit_operations_syntax

section \<open>Integers\<close>

record 'g c_lib =
  c_rand :: "'g \<Rightarrow> int \<times> 'g"
  c_clock :: "'g \<Rightarrow> 64 word \<times> 'g"

definition RAND_MAX :: int where
  "RAND_MAX = 2147483647"

definition rand_laws :: "'g c_lib \<Rightarrow> bool" where
  "rand_laws R \<longleftrightarrow> (\<forall>g. 0 \<le> fst (c_rand R g) \<and> fst (c_rand R g) \<le> RAND_MAX)"

text \<open>An instance: the numbers come from a list and are zero when it is used up.\<close>

definition list_rand :: "nat list c_lib" where
  "list_rand = \<lparr>c_rand = (\<lambda>g. case g of [] \<Rightarrow> (0, []) | n # g' \<Rightarrow> (int n mod (RAND_MAX + 1), g')),
     c_clock = (\<lambda>g. (0, g))\<rparr>"

lemma list_rand_laws: "rand_laws list_rand"
proof -
  have "0 \<le> fst (c_rand list_rand g) \<and> fst (c_rand list_rand g) \<le> RAND_MAX" for g
    by (cases g) (simp_all add: list_rand_def RAND_MAX_def zle_diff1_eq [symmetric] del: zle_diff1_eq)
  then show ?thesis by (simp add: rand_laws_def)
qed

definition tpcc_generateInteger :: "'g c_lib \<Rightarrow> 32 word \<Rightarrow> 32 word \<Rightarrow> ('g, 32 word) gen" where
  "tpcc_generateInteger R mn mx g =
     (case c_rand R g of (x, g') \<Rightarrow>
        let d = mx - mn + 1 in
        if d = 0 then Inl DivisionByZero else Inr (word_of_int (x smod sint d) + mn, g'))"

lemma word_of_int_sint_diff: "mx - mn + 1 = word_of_int (sint mx - sint mn + 1)" for mx mn :: "32 word"
  by simp

lemma tpcc_generateInteger_returns:
  assumes R: "rand_laws R" and le: "sint mn \<le> sint mx" "sint mx - sint mn < 2147483647"
  shows "gen_returns (tpcc_generateInteger R mn mx) (\<lambda>x. sint mn \<le> sint x \<and> sint x \<le> sint mx)"
  unfolding gen_returns_def
proof
  fix g
  obtain x g' where x: "c_rand R g = (x, g')" by fastforce
  have "0 \<le> x" using R x unfolding rand_laws_def by (metis fst_conv)
  let ?n = "sint mx - sint mn + 1"
  have "sint (word_of_int ?n :: 32 word) = ?n"
    using le by (simp add: signed_of_int signed_take_bit_int_eq_self del: of_int_add of_int_diff)
  then have d: "sint (mx - mn + 1) = ?n" by (simp only: word_of_int_sint_diff)
  then have nz: "mx - mn + 1 \<noteq> 0" using le(1) by auto
  have m: "x smod ?n = x mod ?n" using \<open>0 \<le> x\<close> le(1) by (simp add: smod_int_alt_def sgn_if)
  have b: "0 \<le> x mod ?n" "x mod ?n < ?n"
    using pos_mod_sign [of ?n x] pos_mod_bound [of ?n x] le(1) by linarith+
  have v: "word_of_int (x smod ?n) + mn = (word_of_int (x mod ?n + sint mn) :: 32 word)"
    unfolding m by simp
  have "sint (word_of_int (x mod ?n + sint mn) :: 32 word) = x mod ?n + sint mn"
    using b by (intro sint_word_of_int_between [where v = mn and w = mx]) simp_all
  then show "\<exists>y g'. tpcc_generateInteger R mn mx g = Inr (y, g') \<and> sint mn \<le> sint y \<and> sint y \<le> sint mx"
    using x nz b by (simp add: tpcc_generateInteger_def Let_def d v del: minus_add_distrib)
qed

definition generateIntegerExcluding ::
  "'g c_lib \<Rightarrow> 32 word \<Rightarrow> 32 word \<Rightarrow> 32 word \<Rightarrow> ('g, 32 word) gen" where
  "generateIntegerExcluding R mn mx excluding =
     gbnd (tpcc_generateInteger R mn (mx - 1)) (\<lambda>num.
     gret (if excluding <s num then num + 1 else num))"

text \<open>The constants that are drawn once, before \<open>main\<close>.\<close>

record tpcc_consts =
  cLast :: "32 word"
  cId :: "32 word"
  orderlineItemId :: "32 word"

definition draw_consts :: "'g c_lib \<Rightarrow> ('g, tpcc_consts) gen" where
  "draw_consts R =
     gbnd (tpcc_generateInteger R 0 255) (\<lambda>a.
     gbnd (tpcc_generateInteger R 0 1023) (\<lambda>b.
     gbnd (tpcc_generateInteger R 0 8191) (\<lambda>c.
     gret \<lparr>cLast = a, cId = b, orderlineItemId = c\<rparr>)))"

definition generateNonuniformInteger ::
  "'g c_lib \<Rightarrow> tpcc_consts \<Rightarrow> 32 word \<Rightarrow> 32 word \<Rightarrow> 32 word \<Rightarrow> ('g, 32 word) gen" where
  "generateNonuniformInteger R C a x y =
     (let c = (if a = 255 then cLast C else if a = 1023 then cId C
               else if a = 8191 then orderlineItemId C else 0) in
      gbnd (tpcc_generateInteger R 0 a) (\<lambda>u.
      gbnd (tpcc_generateInteger R x y) (\<lambda>v.
      let d = y - x + 1 in
      if d = 0 then glift (Inl DivisionByZero)
      else gret (word_of_int (sint ((u OR v) + c) smod sint d) + x))))"

definition generateWarehouseId :: "'g c_lib \<Rightarrow> 32 word \<Rightarrow> 32 word \<Rightarrow> ('g, 32 word) gen" where
  "generateWarehouseId R starting ending = tpcc_generateInteger R starting ending"

definition generateDistrictId :: "'g c_lib \<Rightarrow> 32 word \<Rightarrow> ('g, 32 word) gen" where
  "generateDistrictId R n = tpcc_generateInteger R 1 n"

definition generateCustomerId :: "'g c_lib \<Rightarrow> tpcc_consts \<Rightarrow> 32 word \<Rightarrow> ('g, 32 word) gen" where
  "generateCustomerId R C n = generateNonuniformInteger R C 1023 1 n"

definition generateItemId :: "'g c_lib \<Rightarrow> tpcc_consts \<Rightarrow> 32 word \<Rightarrow> ('g, 32 word) gen" where
  "generateItemId R C n = generateNonuniformInteger R C 8191 1 n"

definition generateCurrentTime :: "'g c_lib \<Rightarrow> ('g, 64 word) gen" where
  "generateCurrentTime R g = Inr (c_clock R g)"

section \<open>Strings and amounts\<close>

definition tpcc_generateRandomString ::
  "'g c_lib \<Rightarrow> 32 word \<Rightarrow> 32 word \<Rightarrow> byte \<Rightarrow> 32 word \<Rightarrow> ('g, bytes) gen" where
  "tpcc_generateRandomString R min_length max_length base num_characters =
     gbnd (tpcc_generateInteger R min_length max_length) (\<lambda>n.
     if sint n < 0 then glift (Inl LengthError)
     else gen_list (nat (sint n))
       (gbnd (tpcc_generateInteger R 0 (num_characters - 1)) (\<lambda>x. gret (base + scast x))))"

definition tpcc_generateCString :: "'g c_lib \<Rightarrow> 32 word \<Rightarrow> 32 word \<Rightarrow> ('g, bytes) gen" where
  "tpcc_generateCString R mn mx = tpcc_generateRandomString R mn mx (of_char CHR ''a'') 26"

definition tpcc_generateNString :: "'g c_lib \<Rightarrow> 32 word \<Rightarrow> 32 word \<Rightarrow> ('g, bytes) gen" where
  "tpcc_generateNString R mn mx = tpcc_generateRandomString R mn mx (of_char CHR ''0'') 10"

lemma tpcc_generateString_returns:
  assumes R: "rand_laws R" and le: "0 \<le> sint mn" "sint mn \<le> sint mx" "sint mx < 2147483647"
  shows "gen_returns (tpcc_generateCString R mn mx) (\<lambda>str. nat (sint mn) \<le> length str \<and> length str \<le> nat (sint mx))"
    and "gen_returns (tpcc_generateNString R mn mx) (\<lambda>str. nat (sint mn) \<le> length str \<and> length str \<le> nat (sint mx))"
proof -
  have "gen_returns (tpcc_generateRandomString R mn mx base num)
      (\<lambda>str. nat (sint mn) \<le> length str \<and> length str \<le> nat (sint mx))"
    if num: "0 \<le> sint (num - 1)" "sint (num - 1) < 2147483647" for base num
  proof -
    have char: "gen_returns (gbnd (tpcc_generateInteger R 0 (num - 1)) (\<lambda>x. gret (base + scast x))) (\<lambda>_. True)"
      using num by (intro gbnd_returns [OF tpcc_generateInteger_returns [OF R]] gret_returns) simp_all
    show ?thesis
      unfolding tpcc_generateRandomString_def
    proof (rule gbnd_returns [OF tpcc_generateInteger_returns [OF R]])
      fix x assume x: "sint mn \<le> sint x \<and> sint x \<le> sint mx"
      show "gen_returns (if sint x < 0 then glift (Inl LengthError)
          else gen_list (nat (sint x)) (gbnd (tpcc_generateInteger R 0 (num - 1)) (\<lambda>x. gret (base + scast x))))
        (\<lambda>str. nat (sint mn) \<le> length str \<and> length str \<le> nat (sint mx))"
        using x le(1) by (auto intro: gen_weaken [OF gen_list_returns [OF char]])
    qed (use le in simp_all)
  qed
  from this [of 26] this [of 10] show
    "gen_returns (tpcc_generateCString R mn mx) (\<lambda>str. nat (sint mn) \<le> length str \<and> length str \<le> nat (sint mx))"
    "gen_returns (tpcc_generateNString R mn mx) (\<lambda>str. nat (sint mn) \<le> length str \<and> length str \<le> nat (sint mx))"
    by (simp_all add: tpcc_generateCString_def tpcc_generateNString_def)
qed

definition generateFixedPoint ::
  "'g c_lib \<Rightarrow> 64 word dbl \<Rightarrow> nat \<Rightarrow> 64 word \<Rightarrow> 64 word \<Rightarrow> ('g, 64 word) gen" where
  "generateFixedPoint R D decimal_places mn mx =
     (let multiplier = 10 ^ decimal_places :: int;
          cut = (\<lambda>x. word_of_int (d_trunc D (d_add D (d_mul D x (d_of_int D multiplier)) (d_lit D 5 1))) :: 32 word) in
      gbnd (tpcc_generateInteger R (cut mn) (cut mx)) (\<lambda>x.
      gret (d_div D (d_of_int D (sint x)) (d_of_int D multiplier))))"

definition generateTax :: "'g c_lib \<Rightarrow> 64 word dbl \<Rightarrow> ('g, 64 word) gen" where
  "generateTax R D = generateFixedPoint R D 4 (d_lit D 0 0) (d_lit D 2000 4)"

definition syllables :: "bytes list" where
  "syllables = map bytes_of_string
     [''BAR'', ''OUGHT'', ''ABLE'', ''PRI'', ''PRES'', ''ESE'', ''ANTI'', ''CALLY'', ''ATION'', ''EING'']"

definition syllable :: "int \<Rightarrow> bytes result" where
  "syllable i = (if 0 \<le> i \<and> i < 10 then Inr (syllables ! nat i) else Inl BadAccess)"

definition generateLastName :: "32 word \<Rightarrow> bytes result" where
  "generateLastName number =
     (let n = sint number in
      bnd (syllable (n sdiv 100)) (\<lambda>a.
      bnd (syllable ((n sdiv 10) smod 10)) (\<lambda>b.
      bnd (syllable (n smod 10)) (\<lambda>c. Inr (a @ b @ c)))))"

definition generateRandomLastName :: "'g c_lib \<Rightarrow> tpcc_consts \<Rightarrow> 32 word \<Rightarrow> ('g, bytes) gen" where
  "generateRandomLastName R C max_cid =
     (let min_cid = (if max_cid - 1 <s 999 then max_cid - 1 else 999) in
      gbnd (generateNonuniformInteger R C 255 0 min_cid) (\<lambda>n. glift (generateLastName n)))"

text \<open>\<open>FillOriginal\<close> replaces eight characters of the data, from a random position, by the word ORIGINAL. It
  is called nowhere.\<close>

definition ORIGINAL_STRING :: bytes where
  "ORIGINAL_STRING = bytes_of_string ''ORIGINAL''"

definition FillOriginal :: "'g c_lib \<Rightarrow> bytes \<Rightarrow> ('g, bytes) gen" where
  "FillOriginal R data =
     gbnd (tpcc_generateInteger R 0 (word_of_int (int (length data) - int (length ORIGINAL_STRING)))) (\<lambda>p.
     if sint p < 0 \<or> length data < nat (sint p) + length ORIGINAL_STRING then glift (Inl OutOfRange)
     else gret (take (nat (sint p)) data @ ORIGINAL_STRING @
       drop (nat (sint p) + length ORIGINAL_STRING) data))"

definition ZIP_SUFFIX :: bytes where
  "ZIP_SUFFIX = bytes_of_string ''11111''"

text \<open>\<open>generateAddress\<close> fills five arrays of its caller, of 32, 32, 32, 2 and 9 characters in every call.\<close>

definition generateAddress :: "'g c_lib \<Rightarrow> ('g, bytes \<times> bytes \<times> bytes \<times> bytes \<times> bytes) gen" where
  "generateAddress R =
     gbnd (tpcc_generateCString R 10 20) (\<lambda>str. gbnd (glift (char_field 32 str)) (\<lambda>street_1.
     gbnd (tpcc_generateCString R 10 20) (\<lambda>str. gbnd (glift (char_field 32 str)) (\<lambda>street_2.
     gbnd (tpcc_generateCString R 10 20) (\<lambda>str. gbnd (glift (char_field 32 str)) (\<lambda>city.
     gbnd (tpcc_generateCString R 2 2) (\<lambda>str. gbnd (glift (char_field 2 str)) (\<lambda>state.
     gbnd (tpcc_generateNString R 4 4) (\<lambda>str. gbnd (glift (char_field 9 (str @ ZIP_SUFFIX))) (\<lambda>zip.
     gret (street_1, street_2, city, state, zip)))))))))))"

section \<open>Unique numbers\<close>

text \<open>\<open>selectUniqueIds\<close> draws until the number is a new one (and not minus one), for ever when there is none. The
  set of the rows is a list here.\<close>

partial_function (option) unique_number ::
  "'g c_lib \<Rightarrow> 32 word \<Rightarrow> 32 word \<Rightarrow> 32 word list \<Rightarrow> 32 word \<Rightarrow> 'g \<Rightarrow> (32 word \<times> 'g) result option" where
  "unique_number R mn mx rows num g =
     (if num = - 1 \<or> num \<in> set rows
      then (case tpcc_generateInteger R mn mx g of
              Inl e \<Rightarrow> Some (Inl e)
            | Inr (num', g') \<Rightarrow> unique_number R mn mx rows num' g')
      else Some (Inr (num, g)))"

definition selectUniqueIds ::
  "'g c_lib \<Rightarrow> 32 word \<Rightarrow> 32 word \<Rightarrow> 32 word \<Rightarrow> 32 word list \<Rightarrow> ('g, 32 word list) gen" where
  "selectUniqueIds R numUnique mn mx =
     gfold (\<lambda>_ rows. gbnd (\<lambda>g. returned (unique_number R mn mx rows (- 1) g)) (\<lambda>num. gret (num # rows)))
       [0..<nat (sint numUnique)]"

end
