(* ===== verification/TpccProcessor.thy ===== *)
theory TpccProcessor
  imports TpccRandom
begin

text \<open>
  benchmark/tpcc/TpccBaseProcessor.cc and TpccTuples.h: the sub-transactions of TPC-C on the storage
  manager. A \<open>double\<close> is its eight bytes, as a 64-bit word; the operations on doubles are the parameter
  \<open>env_dbl\<close> (see the theory Distributions). The iteration order of a \<open>std::unordered_map\<close>, which C++ leaves
  open, is the parameter \<open>env_order\<close>; a map from \<open>int\<close> is an association list. \<open>int\<close> wraps around.
\<close>

section \<open>Parameters\<close>

record delivery_param =
  del_w_id :: "32 word"
  del_o_carrier_id :: "32 word"
  del_ol_delivery_d :: "64 word"

record new_order_param =
  nop_w_id :: "32 word"
  nop_d_id :: "32 word"
  nop_c_id :: "32 word"
  nop_o_entry_d :: "64 word"
  nop_i_ids :: "32 word list"
  nop_i_w_ids :: "32 word list"
  nop_i_qtys :: "32 word list"

record payment_param =
  pay_w_id :: "32 word"
  pay_d_id :: "32 word"
  pay_h_amount :: "64 word"
  pay_c_w_id :: "32 word"
  pay_c_d_id :: "32 word"
  pay_c_id :: "32 word"
  pay_h_date :: "64 word"

text \<open>\<open>env_stack\<close> is what the memory holds behind a local variable of type \<open>bool\<close>: \<open>setColumn\<close> reads four
  bytes from its one byte. With fewer than three bytes there the read is \<open>BadAccess\<close>.\<close>

record 'g tpcc_env =
  env_cfg :: bench_config
  env_scale :: tpcc_scale
  env_dbl :: "64 word dbl"
  env_lib :: "'g c_lib"
  env_stack :: bytes
  env_order :: "(32 word \<times> 32 word) list \<Rightarrow> (32 word \<times> 32 word) list"

text \<open>\<open>kPartition ? getOrderLineTableOffset(w_id, d_id) % kPartitionCnt : 0\<close>.\<close>

definition tpcc_offset :: "'g tpcc_env \<Rightarrow> 32 word \<Rightarrow> 32 word \<Rightarrow> nat result" where
  "tpcc_offset E w_id d_id =
     (if kPartition (env_cfg E)
      then (if kPartitionCnt (env_cfg E) = 0 then Inl DivisionByZero
            else Inr (unat (getOrderLineTableOffset (env_scale E) w_id d_id) mod kPartitionCnt (env_cfg E)))
      else Inr 0)"

definition build_record :: "'g tpcc_env \<Rightarrow> schema \<Rightarrow> (nat \<times> col_write) list \<Rightarrow> local_record result" where
  "build_record E s ws =
     write_columns ws (transferData (new_chars (env_cfg E) (getSchemaSize s)) (Record_new s))"

text \<open>The districts of the loops \<open>for (int no_d_id = 1; no_d_id <= DISTRICTS_PER_WAREHOUSE; ++no_d_id)\<close>.\<close>

definition all_districts :: "32 word list" where
  "all_districts = map word_of_int [1..sint DISTRICTS_PER_WAREHOUSE]"

section \<open>New order\<close>

definition neworderSubTxn1 ::
  "('q, 'h, 'm) tbb \<Rightarrow> new_order_param \<Rightarrow>
   ('q, 'h, 'm) storage_manager \<Rightarrow> (32 word \<times> ('q, 'h, 'm) storage_manager) result" where
  "neworderSubTxn1 T p sm =
     bnd (sm_selectRecord T DISTRICT_TABLE_ID [(0, to_bytes (nop_d_id p)), (1, to_bytes (nop_w_id p))] sm) (\<lambda>r.
     bnd (assert_that (r \<noteq> None)) (\<lambda>_.
     bnd (sm_readColumn sm DISTRICT_TABLE_ID r 10) (\<lambda>v.
     let d_next_o_id = of_bytes v :: 32 word; o_id = d_next_o_id + 1 in
     bnd (sm_updateRecord_one DISTRICT_TABLE_ID r \<lparr>cp_column_id = 10, cp_value = to_bytes o_id\<rparr> sm) (\<lambda>sm.
     Inr (d_next_o_id, sm)))))"

definition neworderSubTxn2 ::
  "('q, 'h, 'm) tbb \<Rightarrow> 'g tpcc_env \<Rightarrow> new_order_param \<Rightarrow> 32 word \<Rightarrow>
   ('q, 'h, 'm) storage_manager \<Rightarrow> ('q, 'h, 'm) storage_manager result" where
  "neworderSubTxn2 T E p d_next_o_id sm =
     (let all_local = fold (\<lambda>w_id all_local. all_local \<and> nop_w_id p = w_id) (nop_i_w_ids p) True;
          ol_cnt = word_of_nat (length (nop_i_ids p)) :: 32 word in
      bnd getOrderSchema (\<lambda>s.
      bnd (build_record E s
        [(0, Fixed (to_bytes d_next_o_id)), (1, Fixed (to_bytes (nop_c_id p))), (2, Fixed (to_bytes (nop_d_id p))),
         (3, Fixed (to_bytes (nop_w_id p))), (4, Fixed (to_bytes (nop_o_entry_d p))),
         (5, Fixed (to_bytes NULL_CARRIER_ID)), (6, Fixed (to_bytes ol_cnt)),
         (7, Fixed ((if all_local then 1 else 0) # env_stack E))]) (\<lambda>rec.
      bnd (tpcc_offset E (nop_w_id p) (nop_d_id p)) (\<lambda>offset.
      sm_insertRecord T (ORDER_TABLE_ID + offset) rec sm))))"

definition neworderSubTxn3 ::
  "('q, 'h, 'm) tbb \<Rightarrow> 'g tpcc_env \<Rightarrow> new_order_param \<Rightarrow> 32 word \<Rightarrow>
   ('q, 'h, 'm) storage_manager \<Rightarrow> ('q, 'h, 'm) storage_manager result" where
  "neworderSubTxn3 T E p d_next_o_id sm =
     bnd getNewOrderSchema (\<lambda>s.
     bnd (build_record E s
       [(0, Fixed (to_bytes d_next_o_id)), (1, Fixed (to_bytes (nop_d_id p))), (2, Fixed (to_bytes (nop_w_id p)))]) (\<lambda>rec.
     bnd (tpcc_offset E (nop_w_id p) (nop_d_id p)) (\<lambda>offset.
     sm_insertRecord T (NEW_ORDER_TABLE_ID + offset) rec sm)))"

text \<open>The new quantity of an item in stock.\<close>

definition stock_quantity :: "32 word \<Rightarrow> 32 word \<Rightarrow> 32 word" where
  "stock_quantity quantity ol_quantity =
     (if ol_quantity + 10 \<le>s quantity then quantity - ol_quantity else quantity + 91 - ol_quantity)"

definition neworderSubTxn4Single ::
  "('q, 'h, 'm) tbb \<Rightarrow> new_order_param \<Rightarrow> nat \<Rightarrow>
   ('q, 'h, 'm) storage_manager \<Rightarrow> (bytes \<times> ('q, 'h, 'm) storage_manager) result" where
  "neworderSubTxn4Single T p i sm =
     bnd (vec_at (nop_i_w_ids p) i) (\<lambda>ol_supply_w_id.
     bnd (vec_at (nop_i_ids p) i) (\<lambda>ol_i_id.
     bnd (vec_at (nop_i_qtys p) i) (\<lambda>ol_quantity.
     bnd (sm_selectRecord T STOCK_TABLE_ID [(0, to_bytes ol_i_id), (1, to_bytes ol_supply_w_id)] sm) (\<lambda>r.
     bnd (assert_that (r \<noteq> None)) (\<lambda>_.
     bnd (sm_readColumn sm STOCK_TABLE_ID r 2) (\<lambda>v.
     let quantity = stock_quantity (of_bytes v) ol_quantity in
     bnd (sm_readColumn sm STOCK_TABLE_ID r 13) (\<lambda>v.
     let ytd = of_bytes v + ol_quantity in
     bnd (sm_readColumn sm STOCK_TABLE_ID r 14) (\<lambda>v.
     let order_cnt = of_bytes v + 1 :: 32 word in
     bnd (sm_updateRecord STOCK_TABLE_ID r
            [(2, to_bytes quantity), (13, to_bytes ytd), (14, to_bytes order_cnt)] sm) (\<lambda>sm.
     bnd (if ol_supply_w_id \<noteq> nop_w_id p
          then bnd (sm_readColumn sm STOCK_TABLE_ID r 15) (\<lambda>v.
               let remote_cnt = of_bytes v + 1 :: 32 word in
               sm_updateRecord_one STOCK_TABLE_ID r \<lparr>cp_column_id = 15, cp_value = to_bytes remote_cnt\<rparr> sm)
          else Inr sm) (\<lambda>sm.
     bnd (sm_readString sm STOCK_TABLE_ID r (unat (scast (nop_d_id p + 2) :: 64 word))) (\<lambda>s_dist.
     Inr (s_dist, sm))))))))))))"

text \<open>The body of the loop of \<open>neworderSubTxn4\<close> is \<open>neworderSubTxn4Single\<close>, statement by statement; it
  appends what the other stores through its reference.\<close>

definition neworderSubTxn4 ::
  "('q, 'h, 'm) tbb \<Rightarrow> new_order_param \<Rightarrow> bytes list \<Rightarrow>
   ('q, 'h, 'm) storage_manager \<Rightarrow> (bytes list \<times> ('q, 'h, 'm) storage_manager) result" where
  "neworderSubTxn4 T p s_dists sm =
     fold_res (\<lambda>i (s_dists, sm).
       bnd (neworderSubTxn4Single T p i sm) (\<lambda>(s_dist, sm). Inr (s_dists @ [s_dist], sm)))
       [0..<length (nop_i_ids p)] (s_dists, sm)"

definition neworderSubTxn5Single ::
  "('q, 'h, 'm) tbb \<Rightarrow> 'g tpcc_env \<Rightarrow> new_order_param \<Rightarrow> nat \<Rightarrow> ('q, 'h, 'm) storage_manager \<Rightarrow> 64 word result" where
  "neworderSubTxn5Single T E p i sm =
     bnd (vec_at (nop_i_ids p) i) (\<lambda>i_id.
     bnd (sm_selectRecord_one T ITEM_TABLE_ID \<lparr>cp_column_id = 0, cp_value = to_bytes i_id\<rparr> sm) (\<lambda>r.
     bnd (assert_that (r \<noteq> None)) (\<lambda>_.
     bnd (vec_at (nop_i_qtys p) i) (\<lambda>ol_quantity.
     bnd (sm_readColumn sm ITEM_TABLE_ID r 3) (\<lambda>price.
     Inr (d_mul (env_dbl E) (d_of_int (env_dbl E) (sint ol_quantity)) (of_bytes price)))))))"

definition neworderSubTxn5 ::
  "('q, 'h, 'm) tbb \<Rightarrow> 'g tpcc_env \<Rightarrow> new_order_param \<Rightarrow> 64 word list \<Rightarrow>
   ('q, 'h, 'm) storage_manager \<Rightarrow> 64 word list result" where
  "neworderSubTxn5 T E p ol_amounts sm =
     fold_res (\<lambda>i ol_amounts. bnd (neworderSubTxn5Single T E p i sm) (\<lambda>ol_amount. Inr (ol_amounts @ [ol_amount])))
       [0..<length (nop_i_ids p)] ol_amounts"

definition neworderSubTxn6 ::
  "('q, 'h, 'm) tbb \<Rightarrow> 'g tpcc_env \<Rightarrow> new_order_param \<Rightarrow> 32 word \<Rightarrow> bytes list \<Rightarrow> 64 word list \<Rightarrow>
   ('q, 'h, 'm) storage_manager \<Rightarrow> ('q, 'h, 'm) storage_manager result" where
  "neworderSubTxn6 T E p d_next_o_id s_dists ol_amounts sm =
     fold_res (\<lambda>i sm.
       let ol_number = word_of_nat (i + 1) :: 32 word in
       bnd (vec_at (nop_i_ids p) i) (\<lambda>ol_i_id.
       bnd (vec_at (nop_i_w_ids p) i) (\<lambda>ol_supply_w_id.
       bnd (vec_at (nop_i_qtys p) i) (\<lambda>ol_quantity.
       bnd (vec_at ol_amounts i) (\<lambda>ol_amount.
       bnd (vec_at s_dists i) (\<lambda>s_dist.
       bnd getOrderLineSchema (\<lambda>s.
       bnd (build_record E s
         [(0, Fixed (to_bytes d_next_o_id)), (1, Fixed (to_bytes (nop_d_id p))), (2, Fixed (to_bytes (nop_w_id p))),
          (3, Fixed (to_bytes ol_number)), (4, Fixed (to_bytes ol_i_id)), (5, Fixed (to_bytes ol_supply_w_id)),
          (6, Fixed (to_bytes (nop_o_entry_d p))), (7, Fixed (to_bytes ol_quantity)),
          (8, Fixed (to_bytes ol_amount)), (9, Str s_dist)]) (\<lambda>rec.
       bnd (tpcc_offset E (nop_w_id p) (nop_d_id p)) (\<lambda>offset.
       sm_insertRecord T (ORDER_LINE_TABLE_ID + offset) rec sm)))))))))
       [0..<length (nop_i_ids p)] sm"

section \<open>Payment\<close>

text \<open>The records of the selects are used without a check.\<close>

definition paymentSubTxn1 ::
  "('q, 'h, 'm) tbb \<Rightarrow> 'g tpcc_env \<Rightarrow> payment_param \<Rightarrow>
   ('q, 'h, 'm) storage_manager \<Rightarrow> ('q, 'h, 'm) storage_manager result" where
  "paymentSubTxn1 T E p sm =
     bnd (sm_selectRecord_one T WAREHOUSE_TABLE_ID \<lparr>cp_column_id = 0, cp_value = to_bytes (pay_w_id p)\<rparr> sm) (\<lambda>r.
     bnd (sm_readColumn sm WAREHOUSE_TABLE_ID r 8) (\<lambda>v.
     let w_ytd = d_add (env_dbl E) (of_bytes v) (pay_h_amount p) in
     sm_updateRecord_one WAREHOUSE_TABLE_ID r \<lparr>cp_column_id = 8, cp_value = to_bytes w_ytd\<rparr> sm))"

definition paymentSubTxn2 ::
  "('q, 'h, 'm) tbb \<Rightarrow> 'g tpcc_env \<Rightarrow> payment_param \<Rightarrow>
   ('q, 'h, 'm) storage_manager \<Rightarrow> ('q, 'h, 'm) storage_manager result" where
  "paymentSubTxn2 T E p sm =
     bnd (sm_selectRecord T DISTRICT_TABLE_ID [(0, to_bytes (pay_d_id p)), (1, to_bytes (pay_w_id p))] sm) (\<lambda>r.
     bnd (sm_readColumn sm DISTRICT_TABLE_ID r 9) (\<lambda>v.
     let d_ytd = d_add (env_dbl E) (of_bytes v) (pay_h_amount p) in
     sm_updateRecord_one DISTRICT_TABLE_ID r \<lparr>cp_column_id = 9, cp_value = to_bytes d_ytd\<rparr> sm))"

definition paymentSubTxn3 ::
  "('q, 'h, 'm) tbb \<Rightarrow> 'g tpcc_env \<Rightarrow> payment_param \<Rightarrow>
   ('q, 'h, 'm) storage_manager \<Rightarrow> ('g, ('q, 'h, 'm) storage_manager) gen" where
  "paymentSubTxn3 T E p sm =
     gbnd (tpcc_generateCString (env_lib E) 12 24) (\<lambda>h_data.
     glift (
       bnd getHistorySchema (\<lambda>s.
       bnd (build_record E s
         [(0, Fixed (to_bytes (pay_c_id p))), (1, Fixed (to_bytes (pay_c_d_id p))),
          (2, Fixed (to_bytes (pay_c_w_id p))), (3, Fixed (to_bytes (pay_d_id p))),
          (4, Fixed (to_bytes (pay_w_id p))), (5, Fixed (to_bytes (pay_h_date p))),
          (6, Fixed (to_bytes (pay_h_amount p))), (7, Str h_data)]) (\<lambda>rec.
       sm_insertRecord T HISTORY_TABLE_ID rec sm))))"

definition paymentSubTxn4 ::
  "('q, 'h, 'm) tbb \<Rightarrow> 'g tpcc_env \<Rightarrow> payment_param \<Rightarrow>
   ('q, 'h, 'm) storage_manager \<Rightarrow> ('q, 'h, 'm) storage_manager result" where
  "paymentSubTxn4 T E p sm =
     bnd (sm_selectRecord T CUSTOMER_TABLE_ID
            [(0, to_bytes (pay_c_id p)), (1, to_bytes (pay_d_id p)), (2, to_bytes (pay_w_id p))] sm) (\<lambda>r.
     bnd (sm_readColumn sm CUSTOMER_TABLE_ID r 16) (\<lambda>v.
     let balance = d_sub (env_dbl E) (of_bytes v) (pay_h_amount p) in
     bnd (sm_readColumn sm CUSTOMER_TABLE_ID r 17) (\<lambda>v.
     let ytd_payment = d_add (env_dbl E) (of_bytes v) (pay_h_amount p) in
     bnd (sm_readColumn sm CUSTOMER_TABLE_ID r 18) (\<lambda>v.
     let payment_cnt = of_bytes v + 1 :: 32 word in
     sm_updateRecord CUSTOMER_TABLE_ID r
       [(16, to_bytes balance), (17, to_bytes ytd_payment), (18, to_bytes payment_cnt)] sm))))"

section \<open>Delivery\<close>

text \<open>\<open>operator[]\<close> and \<open>at\<close> of a map.\<close>

definition map_at :: "('k \<times> 'v) list \<Rightarrow> 'k \<Rightarrow> 'v result" where
  "map_at m k = (case map_of m k of None \<Rightarrow> Inl OutOfRange | Some v \<Rightarrow> Inr v)"

text \<open>\<open>o_id\<close> keeps its value when there is no new order.\<close>

definition deliverySubTxn1Single ::
  "('q, 'h, 'm) tbb \<Rightarrow> 'g tpcc_env \<Rightarrow> delivery_param \<Rightarrow> 32 word \<Rightarrow> 32 word \<Rightarrow>
   ('q, 'h, 'm) storage_manager \<Rightarrow> (32 word \<times> ('q, 'h, 'm) storage_manager) result" where
  "deliverySubTxn1Single T E p no_d_id o_id sm =
     bnd (sm_selectRecord T DISTRICT_NEW_ORDER_TABLE_ID
            [(0, to_bytes (del_w_id p)), (1, to_bytes no_d_id)] sm) (\<lambda>dno.
     bnd (assert_that (dno \<noteq> None)) (\<lambda>_.
     bnd (sm_readColumn sm DISTRICT_NEW_ORDER_TABLE_ID dno 2) (\<lambda>v.
     let no_o_id = of_bytes v :: 32 word in
     bnd (tpcc_offset E (del_w_id p) no_d_id) (\<lambda>offset.
     bnd (sm_selectRecord T (NEW_ORDER_TABLE_ID + offset)
            [(0, to_bytes no_o_id), (1, to_bytes no_d_id), (2, to_bytes (del_w_id p))] sm) (\<lambda>no.
     if no \<noteq> None
     then
       bnd (sm_deleteRecord T (NEW_ORDER_TABLE_ID + offset) no sm) (\<lambda>sm.
       let next_o_id = no_o_id + 1 in
       bnd (sm_updateRecord_one DISTRICT_NEW_ORDER_TABLE_ID dno
              \<lparr>cp_column_id = 2, cp_value = to_bytes next_o_id\<rparr> sm) (\<lambda>sm.
       Inr (no_o_id, sm)))
     else Inr (o_id, sm))))))"

definition deliverySubTxn1 ::
  "('q, 'h, 'm) tbb \<Rightarrow> 'g tpcc_env \<Rightarrow> delivery_param \<Rightarrow> (32 word \<times> 32 word) list \<Rightarrow>
   ('q, 'h, 'm) storage_manager \<Rightarrow> ((32 word \<times> 32 word) list \<times> ('q, 'h, 'm) storage_manager) result" where
  "deliverySubTxn1 T E p no_o_ids sm =
     fold_res (\<lambda>no_d_id (no_o_ids, sm).
       bnd (sm_selectRecord T DISTRICT_NEW_ORDER_TABLE_ID
              [(0, to_bytes (del_w_id p)), (1, to_bytes no_d_id)] sm) (\<lambda>dno.
       bnd (assert_that (dno \<noteq> None)) (\<lambda>_.
       bnd (sm_readColumn sm DISTRICT_NEW_ORDER_TABLE_ID dno 2) (\<lambda>v.
       let no_o_id = of_bytes v :: 32 word in
       bnd (tpcc_offset E (del_w_id p) no_d_id) (\<lambda>offset.
       bnd (sm_selectRecord T (NEW_ORDER_TABLE_ID + offset)
              [(0, to_bytes no_o_id), (1, to_bytes no_d_id), (2, to_bytes (del_w_id p))] sm) (\<lambda>no.
       if no \<noteq> None
       then
         let no_o_ids = AList.update no_d_id no_o_id no_o_ids in
         bnd (sm_deleteRecord T (NEW_ORDER_TABLE_ID + offset) no sm) (\<lambda>sm.
         let next_o_id = no_o_id + 1 in
         bnd (sm_updateRecord_one DISTRICT_NEW_ORDER_TABLE_ID dno
                \<lparr>cp_column_id = 2, cp_value = to_bytes next_o_id\<rparr> sm) (\<lambda>sm.
         Inr (no_o_ids, sm)))
       else Inr (no_o_ids, sm)))))))
       all_districts (no_o_ids, sm)"

definition deliverySubTxn2Single ::
  "('q, 'h, 'm) tbb \<Rightarrow> 'g tpcc_env \<Rightarrow> delivery_param \<Rightarrow> 32 word \<Rightarrow> 32 word \<Rightarrow>
   ('q, 'h, 'm) storage_manager \<Rightarrow> (64 word \<times> ('q, 'h, 'm) storage_manager) result" where
  "deliverySubTxn2Single T E p no_d_id no_o_id sm =
     bnd (tpcc_offset E (del_w_id p) no_d_id) (\<lambda>offset.
     bnd (sm_selectRecords T (ORDER_LINE_TABLE_ID + offset)
            [(0, to_bytes no_o_id), (1, to_bytes no_d_id), (2, to_bytes (del_w_id p))] sm) (\<lambda>rs.
     bnd (assert_that (getRecordNum rs \<noteq> 0)) (\<lambda>_.
     fold_res (\<lambda>i (amount, sm).
       bnd (sm_updateRecords_one (ORDER_LINE_TABLE_ID + offset) rs i
              \<lparr>cp_column_id = 6, cp_value = to_bytes (del_ol_delivery_d p)\<rparr> sm) (\<lambda>sm.
       bnd (sm_readRecordsColumn sm (ORDER_LINE_TABLE_ID + offset) rs i 8) (\<lambda>v.
       Inr (d_add (env_dbl E) amount (of_bytes v), sm))))
       [0..<getRecordNum rs] (d_of_int (env_dbl E) 0, sm))))"

text \<open>The bodies of the loops of \<open>deliverySubTxn2\<close>, 3 and 4 are the functions for a single district,
  statement by statement, for the entries of the map \<open>no_o_ids\<close> in its iteration order.\<close>

definition deliverySubTxn2 ::
  "('q, 'h, 'm) tbb \<Rightarrow> 'g tpcc_env \<Rightarrow> delivery_param \<Rightarrow> (32 word \<times> 32 word) list \<Rightarrow> (32 word \<times> 64 word) list \<Rightarrow>
   ('q, 'h, 'm) storage_manager \<Rightarrow> ((32 word \<times> 64 word) list \<times> ('q, 'h, 'm) storage_manager) result" where
  "deliverySubTxn2 T E p no_o_ids amounts sm =
     fold_res (\<lambda>(d, no_o_id) (amounts, sm).
       bnd (deliverySubTxn2Single T E p d no_o_id sm) (\<lambda>(amount, sm). Inr (AList.update d amount amounts, sm)))
       (env_order E no_o_ids) (amounts, sm)"

definition deliverySubTxn3Single ::
  "('q, 'h, 'm) tbb \<Rightarrow> 'g tpcc_env \<Rightarrow> delivery_param \<Rightarrow> 32 word \<Rightarrow> 32 word \<Rightarrow>
   ('q, 'h, 'm) storage_manager \<Rightarrow> (32 word \<times> ('q, 'h, 'm) storage_manager) result" where
  "deliverySubTxn3Single T E p no_d_id no_o_id sm =
     bnd (tpcc_offset E (del_w_id p) no_d_id) (\<lambda>offset.
     bnd (sm_selectRecord T (ORDER_TABLE_ID + offset)
            [(0, to_bytes no_o_id), (2, to_bytes no_d_id), (3, to_bytes (del_w_id p))] sm) (\<lambda>r.
     bnd (assert_that (r \<noteq> None)) (\<lambda>_.
     bnd (sm_updateRecord_one (ORDER_TABLE_ID + offset) r
            \<lparr>cp_column_id = 5, cp_value = to_bytes (del_o_carrier_id p)\<rparr> sm) (\<lambda>sm.
     bnd (sm_readColumn sm (ORDER_TABLE_ID + offset) r 1) (\<lambda>v. Inr (of_bytes v, sm))))))"

definition deliverySubTxn3 ::
  "('q, 'h, 'm) tbb \<Rightarrow> 'g tpcc_env \<Rightarrow> delivery_param \<Rightarrow> (32 word \<times> 32 word) list \<Rightarrow> (32 word \<times> 32 word) list \<Rightarrow>
   ('q, 'h, 'm) storage_manager \<Rightarrow> ((32 word \<times> 32 word) list \<times> ('q, 'h, 'm) storage_manager) result" where
  "deliverySubTxn3 T E p no_o_ids c_ids sm =
     fold_res (\<lambda>(d, no_o_id) (c_ids, sm).
       bnd (deliverySubTxn3Single T E p d no_o_id sm) (\<lambda>(c_id, sm). Inr (AList.update d c_id c_ids, sm)))
       (env_order E no_o_ids) (c_ids, sm)"

definition deliverySubTxn4Single ::
  "('q, 'h, 'm) tbb \<Rightarrow> 'g tpcc_env \<Rightarrow> delivery_param \<Rightarrow> 32 word \<Rightarrow> 64 word \<Rightarrow> 32 word \<Rightarrow>
   ('q, 'h, 'm) storage_manager \<Rightarrow> ('q, 'h, 'm) storage_manager result" where
  "deliverySubTxn4Single T E p no_d_id amount c_id sm =
     bnd (sm_selectRecord T CUSTOMER_TABLE_ID
            [(0, to_bytes c_id), (1, to_bytes no_d_id), (2, to_bytes (del_w_id p))] sm) (\<lambda>r.
     bnd (assert_that (r \<noteq> None)) (\<lambda>_.
     bnd (sm_readColumn sm CUSTOMER_TABLE_ID r 16) (\<lambda>v.
     let balance = d_add (env_dbl E) (of_bytes v) amount in
     sm_updateRecord_one CUSTOMER_TABLE_ID r \<lparr>cp_column_id = 16, cp_value = to_bytes balance\<rparr> sm)))"

definition deliverySubTxn4 ::
  "('q, 'h, 'm) tbb \<Rightarrow> 'g tpcc_env \<Rightarrow> delivery_param \<Rightarrow> (32 word \<times> 32 word) list \<Rightarrow> (32 word \<times> 64 word) list \<Rightarrow>
   (32 word \<times> 32 word) list \<Rightarrow> ('q, 'h, 'm) storage_manager \<Rightarrow> ('q, 'h, 'm) storage_manager result" where
  "deliverySubTxn4 T E p no_o_ids amounts c_ids sm =
     fold_res (\<lambda>(d, no_o_id) sm.
       bnd (map_at c_ids d) (\<lambda>c_id.
       bnd (map_at amounts d) (\<lambda>amount. deliverySubTxn4Single T E p d amount c_id sm)))
       (env_order E no_o_ids) sm"

end
