(* ===== verification/TpccTables.thy ===== *)
theory TpccTables
  imports TpccProcessor
begin

text \<open>
  The database of TPC-C: which tables \<open>TpccPopulator::init\<close> (benchmark/tpcc/TpccPopulator.cc) registers, the
  keys of their records, and the rows the transactions insert.
\<close>

section \<open>The tables\<close>

definition register_orders ::
  "('q, 'h, 'm) tbb \<Rightarrow> nat \<Rightarrow> ('q, 'h, 'm) storage_manager \<Rightarrow> ('q, 'h, 'm) storage_manager result" where
  "register_orders T i sm =
     bnd getOrderSchema (\<lambda>s.
     bnd (registerTable T (ORDER_TABLE_ID + i) s sm) (\<lambda>sm.
     bnd getNewOrderSchema (\<lambda>s.
     bnd (registerTable T (NEW_ORDER_TABLE_ID + i) s sm) (\<lambda>sm.
     bnd getOrderLineSchema (\<lambda>s.
     registerTable_indexed T (ORDER_LINE_TABLE_ID + i) s [IndexInfo HASHMAP [0, 1, 2] 3] 1 sm)))))"

definition TpccPopulator_init ::
  "('q, 'h, 'm) tbb \<Rightarrow> bench_config \<Rightarrow> ('q, 'h, 'm) storage_manager \<Rightarrow> ('q, 'h, 'm) storage_manager result" where
  "TpccPopulator_init T cfg sm =
     bnd (bnd getItemSchema (\<lambda>s. registerTable T ITEM_TABLE_ID s sm)) (\<lambda>sm.
     bnd (bnd getWarehouseSchema (\<lambda>s. registerTable T WAREHOUSE_TABLE_ID s sm)) (\<lambda>sm.
     bnd (bnd getDistrictSchema (\<lambda>s. registerTable T DISTRICT_TABLE_ID s sm)) (\<lambda>sm.
     bnd (bnd getCustomerSchema (\<lambda>s. registerTable T CUSTOMER_TABLE_ID s sm)) (\<lambda>sm.
     bnd (if kPartition cfg then fold_res (register_orders T) [0..<kPartitionCnt cfg] sm
          else register_orders T 0 sm) (\<lambda>sm.
     bnd (bnd getHistorySchema (\<lambda>s. registerTable T HISTORY_TABLE_ID s sm)) (\<lambda>sm.
     bnd (bnd getStockSchema (\<lambda>s. registerTable T STOCK_TABLE_ID s sm)) (\<lambda>sm.
     bnd getDistrictNewOrderSchema (\<lambda>s. registerTable T DISTRICT_NEW_ORDER_TABLE_ID s sm))))))))"

text \<open>The registry: every table by its number.\<close>

definition order_line_index :: bytes where
  "order_line_index = size_t_symbol [0, 1, 2]"

definition tpcc_registry :: "bench_config \<Rightarrow> registry" where
  "tpcc_registry cfg i =
     (if i = ITEM_TABLE_ID then Some (item_schema, True, [])
      else if i = WAREHOUSE_TABLE_ID then Some (warehouse_schema, True, [])
      else if i = DISTRICT_TABLE_ID then Some (district_schema, True, [])
      else if i = CUSTOMER_TABLE_ID then Some (customer_schema, True, [])
      else if i = HISTORY_TABLE_ID then Some (history_schema, False, [])
      else if i = STOCK_TABLE_ID then Some (stock_schema, True, [])
      else if i = DISTRICT_NEW_ORDER_TABLE_ID then Some (district_new_order_schema, True, [])
      else if ORDER_TABLE_ID \<le> i \<and> i < ORDER_TABLE_ID + partitions cfg then Some (order_schema, True, [])
      else if NEW_ORDER_TABLE_ID \<le> i \<and> i < NEW_ORDER_TABLE_ID + partitions cfg
      then Some (new_order_schema, True, [])
      else if ORDER_LINE_TABLE_ID \<le> i \<and> i < ORDER_LINE_TABLE_ID + partitions cfg
      then Some (order_line_schema, True, [order_line_index])
      else None)"

definition tpcc_inv :: "('q, 'h, 'm) tbb \<Rightarrow> 'g tpcc_env \<Rightarrow> ('q, 'h, 'm) storage_manager \<Rightarrow> bool" where
  "tpcc_inv T E sm \<longleftrightarrow>
     db_inv T (tpcc_registry (env_cfg E)) sm \<and>
     0 < partitions (env_cfg E) \<and> partitions (env_cfg E) \<le> TPCC_MAX_PARTITION_CNT"

lemma tpcc_registry_simps [simp]:
  "tpcc_registry cfg ITEM_TABLE_ID = Some (item_schema, True, [])"
  "tpcc_registry cfg WAREHOUSE_TABLE_ID = Some (warehouse_schema, True, [])"
  "tpcc_registry cfg DISTRICT_TABLE_ID = Some (district_schema, True, [])"
  "tpcc_registry cfg CUSTOMER_TABLE_ID = Some (customer_schema, True, [])"
  "tpcc_registry cfg HISTORY_TABLE_ID = Some (history_schema, False, [])"
  "tpcc_registry cfg STOCK_TABLE_ID = Some (stock_schema, True, [])"
  "tpcc_registry cfg DISTRICT_NEW_ORDER_TABLE_ID = Some (district_new_order_schema, True, [])"
  by (simp_all add: tpcc_registry_def tpcc_table_ids)

lemma tpcc_registry_parts:
  assumes "off < partitions cfg" "partitions cfg \<le> TPCC_MAX_PARTITION_CNT"
  shows "tpcc_registry cfg (ORDER_TABLE_ID + off) = Some (order_schema, True, [])"
    "tpcc_registry cfg (NEW_ORDER_TABLE_ID + off) = Some (new_order_schema, True, [])"
    "tpcc_registry cfg (ORDER_LINE_TABLE_ID + off) = Some (order_line_schema, True, [order_line_index])"
  using assms by (simp_all add: tpcc_registry_def tpcc_table_ids)

lemma index_columns_order_line: "index_columns order_line_index = [0, 1, 2]"
  unfolding order_line_index_def by (rule index_columns_symbol) simp

text \<open>The partition a district belongs to.\<close>

definition district_part :: "'g tpcc_env \<Rightarrow> 32 word \<Rightarrow> 32 word \<Rightarrow> nat" where
  "district_part E w_id d_id =
     (if kPartition (env_cfg E)
      then unat (getOrderLineTableOffset (env_scale E) w_id d_id) mod kPartitionCnt (env_cfg E) else 0)"

lemma tpcc_offset_eq [res_simps]:
  "0 < partitions (env_cfg E) \<Longrightarrow> tpcc_offset E w d = Inr (district_part E w d)"
  by (simp add: tpcc_offset_def district_part_def partitions_def split: if_splits)

lemma district_part_less: "0 < partitions (env_cfg E) \<Longrightarrow> district_part E w d < partitions (env_cfg E)"
  by (simp add: district_part_def partitions_def split: if_splits)

lemma tpcc_invD:
  assumes "tpcc_inv T E sm"
  shows "db_inv T (tpcc_registry (env_cfg E)) sm" "0 < partitions (env_cfg E)"
    "tpcc_registry (env_cfg E) (ORDER_TABLE_ID + district_part E w d) = Some (order_schema, True, [])"
    "tpcc_registry (env_cfg E) (NEW_ORDER_TABLE_ID + district_part E w d) = Some (new_order_schema, True, [])"
    "tpcc_registry (env_cfg E) (ORDER_LINE_TABLE_ID + district_part E w d) =
       Some (order_line_schema, True, [order_line_index])"
  using assms tpcc_registry_parts [OF district_part_less] by (auto simp: tpcc_inv_def)

lemma district_part_max: "tpcc_inv T E sm \<Longrightarrow> district_part E w d < TPCC_MAX_PARTITION_CNT"
  using district_part_less [of E w d] by (simp add: tpcc_inv_def)

text \<open>The numbers of the tables differ.\<close>

lemma whole_tables [simp]:
  shows "ITEM_TABLE_ID \<noteq> WAREHOUSE_TABLE_ID" "ITEM_TABLE_ID \<noteq> DISTRICT_TABLE_ID"
    "ITEM_TABLE_ID \<noteq> CUSTOMER_TABLE_ID" "ITEM_TABLE_ID \<noteq> STOCK_TABLE_ID"
    "ITEM_TABLE_ID \<noteq> HISTORY_TABLE_ID" "ITEM_TABLE_ID \<noteq> DISTRICT_NEW_ORDER_TABLE_ID"
    "WAREHOUSE_TABLE_ID \<noteq> ITEM_TABLE_ID" "WAREHOUSE_TABLE_ID \<noteq> DISTRICT_TABLE_ID"
    "WAREHOUSE_TABLE_ID \<noteq> CUSTOMER_TABLE_ID" "WAREHOUSE_TABLE_ID \<noteq> STOCK_TABLE_ID"
    "WAREHOUSE_TABLE_ID \<noteq> HISTORY_TABLE_ID" "WAREHOUSE_TABLE_ID \<noteq> DISTRICT_NEW_ORDER_TABLE_ID"
    "DISTRICT_TABLE_ID \<noteq> ITEM_TABLE_ID" "DISTRICT_TABLE_ID \<noteq> WAREHOUSE_TABLE_ID"
    "DISTRICT_TABLE_ID \<noteq> CUSTOMER_TABLE_ID" "DISTRICT_TABLE_ID \<noteq> STOCK_TABLE_ID"
    "DISTRICT_TABLE_ID \<noteq> HISTORY_TABLE_ID" "DISTRICT_TABLE_ID \<noteq> DISTRICT_NEW_ORDER_TABLE_ID"
    "CUSTOMER_TABLE_ID \<noteq> ITEM_TABLE_ID" "CUSTOMER_TABLE_ID \<noteq> WAREHOUSE_TABLE_ID"
    "CUSTOMER_TABLE_ID \<noteq> DISTRICT_TABLE_ID" "CUSTOMER_TABLE_ID \<noteq> STOCK_TABLE_ID"
    "CUSTOMER_TABLE_ID \<noteq> HISTORY_TABLE_ID" "CUSTOMER_TABLE_ID \<noteq> DISTRICT_NEW_ORDER_TABLE_ID"
    "STOCK_TABLE_ID \<noteq> ITEM_TABLE_ID" "STOCK_TABLE_ID \<noteq> WAREHOUSE_TABLE_ID"
    "STOCK_TABLE_ID \<noteq> DISTRICT_TABLE_ID" "STOCK_TABLE_ID \<noteq> CUSTOMER_TABLE_ID"
    "STOCK_TABLE_ID \<noteq> HISTORY_TABLE_ID" "STOCK_TABLE_ID \<noteq> DISTRICT_NEW_ORDER_TABLE_ID"
    "HISTORY_TABLE_ID \<noteq> ITEM_TABLE_ID" "HISTORY_TABLE_ID \<noteq> WAREHOUSE_TABLE_ID"
    "HISTORY_TABLE_ID \<noteq> DISTRICT_TABLE_ID" "HISTORY_TABLE_ID \<noteq> CUSTOMER_TABLE_ID"
    "HISTORY_TABLE_ID \<noteq> STOCK_TABLE_ID" "HISTORY_TABLE_ID \<noteq> DISTRICT_NEW_ORDER_TABLE_ID"
    "DISTRICT_NEW_ORDER_TABLE_ID \<noteq> ITEM_TABLE_ID" "DISTRICT_NEW_ORDER_TABLE_ID \<noteq> WAREHOUSE_TABLE_ID"
    "DISTRICT_NEW_ORDER_TABLE_ID \<noteq> DISTRICT_TABLE_ID" "DISTRICT_NEW_ORDER_TABLE_ID \<noteq> CUSTOMER_TABLE_ID"
    "DISTRICT_NEW_ORDER_TABLE_ID \<noteq> STOCK_TABLE_ID" "DISTRICT_NEW_ORDER_TABLE_ID \<noteq> HISTORY_TABLE_ID"
    "ORDER_TABLE_ID \<noteq> NEW_ORDER_TABLE_ID" "ORDER_TABLE_ID \<noteq> ORDER_LINE_TABLE_ID" "NEW_ORDER_TABLE_ID \<noteq> ORDER_TABLE_ID"
    "NEW_ORDER_TABLE_ID \<noteq> ORDER_LINE_TABLE_ID" "ORDER_LINE_TABLE_ID \<noteq> ORDER_TABLE_ID" "ORDER_LINE_TABLE_ID \<noteq> NEW_ORDER_TABLE_ID"
  by (simp_all add: tpcc_table_ids)

lemma part_tables:
  assumes "a < TPCC_MAX_PARTITION_CNT" "b < TPCC_MAX_PARTITION_CNT"
  shows "ORDER_TABLE_ID + a \<noteq> NEW_ORDER_TABLE_ID + b" "ORDER_TABLE_ID + a \<noteq> ORDER_LINE_TABLE_ID + b"
    "NEW_ORDER_TABLE_ID + a \<noteq> ORDER_TABLE_ID + b" "NEW_ORDER_TABLE_ID + a \<noteq> ORDER_LINE_TABLE_ID + b"
    "ORDER_LINE_TABLE_ID + a \<noteq> ORDER_TABLE_ID + b" "ORDER_LINE_TABLE_ID + a \<noteq> NEW_ORDER_TABLE_ID + b"
    "ITEM_TABLE_ID \<noteq> ORDER_TABLE_ID + a" "ORDER_TABLE_ID + a \<noteq> ITEM_TABLE_ID"
    "ITEM_TABLE_ID \<noteq> NEW_ORDER_TABLE_ID + a" "NEW_ORDER_TABLE_ID + a \<noteq> ITEM_TABLE_ID"
    "ITEM_TABLE_ID \<noteq> ORDER_LINE_TABLE_ID + a" "ORDER_LINE_TABLE_ID + a \<noteq> ITEM_TABLE_ID"
    "WAREHOUSE_TABLE_ID \<noteq> ORDER_TABLE_ID + a" "ORDER_TABLE_ID + a \<noteq> WAREHOUSE_TABLE_ID"
    "WAREHOUSE_TABLE_ID \<noteq> NEW_ORDER_TABLE_ID + a" "NEW_ORDER_TABLE_ID + a \<noteq> WAREHOUSE_TABLE_ID"
    "WAREHOUSE_TABLE_ID \<noteq> ORDER_LINE_TABLE_ID + a" "ORDER_LINE_TABLE_ID + a \<noteq> WAREHOUSE_TABLE_ID"
    "DISTRICT_TABLE_ID \<noteq> ORDER_TABLE_ID + a" "ORDER_TABLE_ID + a \<noteq> DISTRICT_TABLE_ID"
    "DISTRICT_TABLE_ID \<noteq> NEW_ORDER_TABLE_ID + a" "NEW_ORDER_TABLE_ID + a \<noteq> DISTRICT_TABLE_ID"
    "DISTRICT_TABLE_ID \<noteq> ORDER_LINE_TABLE_ID + a" "ORDER_LINE_TABLE_ID + a \<noteq> DISTRICT_TABLE_ID"
    "CUSTOMER_TABLE_ID \<noteq> ORDER_TABLE_ID + a" "ORDER_TABLE_ID + a \<noteq> CUSTOMER_TABLE_ID"
    "CUSTOMER_TABLE_ID \<noteq> NEW_ORDER_TABLE_ID + a" "NEW_ORDER_TABLE_ID + a \<noteq> CUSTOMER_TABLE_ID"
    "CUSTOMER_TABLE_ID \<noteq> ORDER_LINE_TABLE_ID + a" "ORDER_LINE_TABLE_ID + a \<noteq> CUSTOMER_TABLE_ID"
    "STOCK_TABLE_ID \<noteq> ORDER_TABLE_ID + a" "ORDER_TABLE_ID + a \<noteq> STOCK_TABLE_ID"
    "STOCK_TABLE_ID \<noteq> NEW_ORDER_TABLE_ID + a" "NEW_ORDER_TABLE_ID + a \<noteq> STOCK_TABLE_ID"
    "STOCK_TABLE_ID \<noteq> ORDER_LINE_TABLE_ID + a" "ORDER_LINE_TABLE_ID + a \<noteq> STOCK_TABLE_ID"
    "HISTORY_TABLE_ID \<noteq> ORDER_TABLE_ID + a" "ORDER_TABLE_ID + a \<noteq> HISTORY_TABLE_ID"
    "HISTORY_TABLE_ID \<noteq> NEW_ORDER_TABLE_ID + a" "NEW_ORDER_TABLE_ID + a \<noteq> HISTORY_TABLE_ID"
    "HISTORY_TABLE_ID \<noteq> ORDER_LINE_TABLE_ID + a" "ORDER_LINE_TABLE_ID + a \<noteq> HISTORY_TABLE_ID"
    "DISTRICT_NEW_ORDER_TABLE_ID \<noteq> ORDER_TABLE_ID + a"
    "ORDER_TABLE_ID + a \<noteq> DISTRICT_NEW_ORDER_TABLE_ID"
    "DISTRICT_NEW_ORDER_TABLE_ID \<noteq> NEW_ORDER_TABLE_ID + a"
    "NEW_ORDER_TABLE_ID + a \<noteq> DISTRICT_NEW_ORDER_TABLE_ID"
    "DISTRICT_NEW_ORDER_TABLE_ID \<noteq> ORDER_LINE_TABLE_ID + a"
    "ORDER_LINE_TABLE_ID + a \<noteq> DISTRICT_NEW_ORDER_TABLE_ID"
  using assms by (simp_all add: tpcc_table_ids)

section \<open>Keys\<close>

definition wkey :: "32 word list \<Rightarrow> bytes" where
  "wkey ws = concat (map to_bytes ws)"

lemma wkey_Cons: "wkey (w # ws) = to_bytes w @ wkey ws"
  by (simp add: wkey_def)

lemma length_wkey: "length (wkey ws) = 4 * length ws"
  by (induction ws) (simp_all add: wkey_def)

lemma wkey_inj [simp]: "wkey ws = wkey vs \<longleftrightarrow> ws = vs"
proof
  assume "wkey ws = wkey vs"
  then show "ws = vs"
  proof (induction ws arbitrary: vs)
    case Nil
    then have "4 * length vs = 0" using length_wkey [of vs] length_wkey [of "[]"] by simp
    then show ?case by simp
  next
    case (Cons w ws)
    have "4 * length vs = 4 * Suc (length ws)"
      using arg_cong [OF Cons.prems, of length] by (simp add: length_wkey)
    then obtain v vs' where vs: "vs = v # vs'" by (cases vs) auto
    then have "to_bytes w = to_bytes v" "wkey ws = wkey vs'"
      using Cons.prems by (simp_all add: wkey_Cons)
    then show ?case using vs Cons.IH by (metis of_bytes_to_bytes_simps(3))
  qed
qed simp

section \<open>Fields\<close>

definition fld32 :: "schema \<Rightarrow> nat \<Rightarrow> bytes \<Rightarrow> 32 word" where
  "fld32 s col row = of_bytes (col_data s col row)"

lemma to_bytes_of_bytes_32:
  assumes "length bs = 4"
  shows "to_bytes (of_bytes bs :: 32 word) = bs"
proof -
  have "le_val bs < 2 ^ LENGTH(32)" using le_val_bound [of bs] assms by simp
  then have "unat (word_of_nat (le_val bs) :: 32 word) = le_val bs" by (rule of_nat_inverse [OF refl])
  then show ?thesis using le_nat_le_val [of bs] assms by (simp add: to_bytes_def of_bytes_def)
qed

lemma fld32_eq_iff:
  "schema_inv s \<Longrightarrow> i < column_count s \<Longrightarrow> length row = getSchemaSize s \<Longrightarrow> col_size s i = 4 \<Longrightarrow>
   fld32 s i row = x \<longleftrightarrow> col_data s i row = to_bytes x"
  using length_col_data [of s i row] to_bytes_of_bytes_32 [of "col_data s i row"] by (auto simp: fld32_def)

definition fld64 :: "schema \<Rightarrow> nat \<Rightarrow> bytes \<Rightarrow> 64 word" where
  "fld64 s col row = of_bytes (col_data s col row)"

lemma col_data_row_with:
  assumes "schema_inv s" "length row = getSchemaSize s" "i < column_count s" "j < column_count s"
    and "col_size s i \<le> length v"
  shows "col_data s j (row_with s i v row) = (if j = i then take (col_size s i) v else col_data s j row)"
  using assms by (auto simp: row_with_def col_data_set_col_same col_data_set_col_other)

lemma length_row_with:
  "schema_inv s \<Longrightarrow> i < column_count s \<Longrightarrow> length row = getSchemaSize s \<Longrightarrow>
   length (row_with s i v row) = getSchemaSize s"
  by (simp add: row_with_def)

lemma col_data_built:
  assumes "schema_inv s" "list_all (writable s) ws" "distinct (map fst ws)" "length buf = getSchemaSize s"
    and "(i, Fixed v) \<in> set ws" "length v = col_size s i"
  shows "col_data s i (row_of s ws buf) = v"
  using col_data_row_of [OF assms(1,2,4,3,5)] assms(6) by simp

lemma build_record_eq:
  assumes "schema_inv s" "list_all (writable s) ws"
  shows "build_record E s ws =
    Inr \<lparr>lr_schema = s, lr_data = Some (row_of s ws (new_chars (env_cfg E) (getSchemaSize s)))\<rparr>"
    and "length (row_of s ws (new_chars (env_cfg E) (getSchemaSize s))) = getSchemaSize s"
  using write_columns_eq [OF assms, of "new_chars (env_cfg E) (getSchemaSize s)"]
    length_row_of [OF assms, of "new_chars (env_cfg E) (getSchemaSize s)"]
  by (simp_all add: build_record_def transferData_def Record_new_def)

section \<open>The empty database\<close>

lemma tpcc_keyed [simp]:
  "primary_col_num item_schema \<noteq> 0" "primary_col_num warehouse_schema \<noteq> 0"
  "primary_col_num district_schema \<noteq> 0" "primary_col_num customer_schema \<noteq> 0"
  "primary_col_num stock_schema \<noteq> 0" "primary_col_num order_schema \<noteq> 0"
  "primary_col_num new_order_schema \<noteq> 0" "primary_col_num order_line_schema \<noteq> 0"
  "primary_col_num history_schema = 0" "primary_col_num district_new_order_schema \<noteq> 0"
proof -
  have num: "schema_inv s \<Longrightarrow> primary_col_num s = length (primary_cols s)" for s
    by (simp add: schema_inv_def)
  note n = tpcc_schema_inv [THEN num]
  show "primary_col_num item_schema \<noteq> 0" "primary_col_num warehouse_schema \<noteq> 0"
    "primary_col_num district_schema \<noteq> 0" "primary_col_num customer_schema \<noteq> 0"
    "primary_col_num stock_schema \<noteq> 0" "primary_col_num order_schema \<noteq> 0"
    "primary_col_num new_order_schema \<noteq> 0" "primary_col_num order_line_schema \<noteq> 0"
    "primary_col_num history_schema = 0" "primary_col_num district_new_order_schema \<noteq> 0"
    using n by simp_all
qed

lemma tpcc_creatable:
  "creatable item_schema" "creatable warehouse_schema" "creatable district_schema"
  "creatable customer_schema" "creatable stock_schema" "creatable order_schema"
  "creatable new_order_schema" "creatable order_line_schema" "creatable history_schema"
  "creatable district_new_order_schema"
  using tpcc_schema_inv by (simp_all add: creatable_def kBlockSize_def)

lemma register_step:
  assumes "tbb_laws T" "db_new T R sm" "creatable s"
  obtains sm' where "registerTable T i s sm = Inr sm'" "db_new T (R(i \<mapsto> (s, primary_col_num s \<noteq> 0, []))) sm'"
  using register_new [OF assms(1,3), of i sm] db_new_register [OF assms(2)] by metis

text \<open>The registry while the loop over the partitions runs.\<close>

definition order_tables :: "nat \<Rightarrow> registry" where
  "order_tables n i =
     (if ORDER_TABLE_ID \<le> i \<and> i < ORDER_TABLE_ID + n then Some (order_schema, True, [])
      else if NEW_ORDER_TABLE_ID \<le> i \<and> i < NEW_ORDER_TABLE_ID + n then Some (new_order_schema, True, [])
      else if ORDER_LINE_TABLE_ID \<le> i \<and> i < ORDER_LINE_TABLE_ID + n
      then Some (order_line_schema, True, [order_line_index]) else None)"

lemma order_tables_Suc:
  "n < TPCC_MAX_PARTITION_CNT \<Longrightarrow>
   order_tables (Suc n) = (order_tables n)(ORDER_TABLE_ID + n \<mapsto> (order_schema, True, []),
     NEW_ORDER_TABLE_ID + n \<mapsto> (new_order_schema, True, []),
     ORDER_LINE_TABLE_ID + n \<mapsto> (order_line_schema, True, [order_line_index]))"
  by (auto simp: order_tables_def tpcc_table_ids fun_eq_iff)

lemma register_orders_new:
  assumes laws: "tbb_laws T" and new: "db_new T (R ++ order_tables n) sm" and n: "n < TPCC_MAX_PARTITION_CNT"
  obtains sm' where "register_orders T n sm = Inr sm'" "db_new T (R ++ order_tables (Suc n)) sm'"
proof -
  let ?R1 = "(R ++ order_tables n)(ORDER_TABLE_ID + n \<mapsto> (order_schema, True, []))"
  let ?R2 = "?R1(NEW_ORDER_TABLE_ID + n \<mapsto> (new_order_schema, True, []))"
  obtain sm1 where sm1: "registerTable T (ORDER_TABLE_ID + n) order_schema sm = Inr sm1" "db_new T ?R1 sm1"
    using register_step [OF laws new tpcc_creatable(6), of "ORDER_TABLE_ID + n"] by auto
  obtain sm2 where sm2: "registerTable T (NEW_ORDER_TABLE_ID + n) new_order_schema sm1 = Inr sm2" "db_new T ?R2 sm2"
    using register_step [OF laws sm1(2) tpcc_creatable(7), of "NEW_ORDER_TABLE_ID + n"] by auto
  obtain t where t: "registerTable_indexed T (ORDER_LINE_TABLE_ID + n) order_line_schema
        [IndexInfo HASHMAP [0, 1, 2] 3] 1 sm2 = Inr (sm2(ORDER_LINE_TABLE_ID + n \<mapsto> t))"
      "new_table T (order_line_schema, True, [order_line_index]) t"
    using register_new_indexed [OF laws tpcc_creatable(8), of "[0, 1, 2]" 3 "ORDER_LINE_TABLE_ID + n" sm2]
    by (auto simp: order_line_index_def)
  have "R ++ order_tables (Suc n) = ?R2(ORDER_LINE_TABLE_ID + n \<mapsto> (order_line_schema, True, [order_line_index]))"
    by (simp add: order_tables_Suc [OF n])
  then show thesis
    using that [of "sm2(ORDER_LINE_TABLE_ID + n \<mapsto> t)"] sm1(1) sm2(1) t(1) db_new_register [OF sm2(2) t(2)]
    by (simp add: register_orders_def res_simps)
qed

lemma TpccPopulator_init_new:
  assumes laws: "tbb_laws T" and parts: "0 < partitions cfg" "partitions cfg \<le> TPCC_MAX_PARTITION_CNT"
  obtains sm where "TpccPopulator_init T cfg StorageManager_new = Inr sm" "db_new T (tpcc_registry cfg) sm"
proof -
  have "db_new T Map.empty StorageManager_new"
    using sm_inv_new by (simp add: db_new_def)
  then obtain sm1 where sm1: "registerTable T ITEM_TABLE_ID item_schema StorageManager_new = Inr sm1"
      "db_new T [ITEM_TABLE_ID \<mapsto> (item_schema, True, [])] sm1"
    using register_step [OF laws _ tpcc_creatable(1), of Map.empty _ ITEM_TABLE_ID] by auto
  obtain sm2 where sm2: "registerTable T WAREHOUSE_TABLE_ID warehouse_schema sm1 = Inr sm2"
      "db_new T [ITEM_TABLE_ID \<mapsto> (item_schema, True, []), WAREHOUSE_TABLE_ID \<mapsto> (warehouse_schema, True, [])] sm2"
    using register_step [OF laws sm1(2) tpcc_creatable(2), of WAREHOUSE_TABLE_ID] by auto
  obtain sm3 where sm3: "registerTable T DISTRICT_TABLE_ID district_schema sm2 = Inr sm3"
      "db_new T [ITEM_TABLE_ID \<mapsto> (item_schema, True, []), WAREHOUSE_TABLE_ID \<mapsto> (warehouse_schema, True, []),
         DISTRICT_TABLE_ID \<mapsto> (district_schema, True, [])] sm3"
    using register_step [OF laws sm2(2) tpcc_creatable(3), of DISTRICT_TABLE_ID] by auto
  let ?R = "[ITEM_TABLE_ID \<mapsto> (item_schema, True, []), WAREHOUSE_TABLE_ID \<mapsto> (warehouse_schema, True, []),
         DISTRICT_TABLE_ID \<mapsto> (district_schema, True, []), CUSTOMER_TABLE_ID \<mapsto> (customer_schema, True, [])] :: registry"
  obtain sm4 where sm4: "registerTable T CUSTOMER_TABLE_ID customer_schema sm3 = Inr sm4" "db_new T ?R sm4"
    using register_step [OF laws sm3(2) tpcc_creatable(4), of CUSTOMER_TABLE_ID] by auto
  have "order_tables 0 = Map.empty" by (auto simp: order_tables_def fun_eq_iff)
  then have start: "db_new T (?R ++ order_tables 0) sm4" using sm4(2) by simp
  obtain sm5 where sm5: "(if kPartition cfg then fold_res (register_orders T) [0..<kPartitionCnt cfg] sm4
        else register_orders T 0 sm4) = Inr sm5" "db_new T (?R ++ order_tables (partitions cfg)) sm5"
  proof (cases "kPartition cfg")
    case True
    have n: "kPartitionCnt cfg \<le> TPCC_MAX_PARTITION_CNT" using parts(2) True by (simp add: partitions_def)
    have "\<exists>s'. fold_res (register_orders T) [0..<kPartitionCnt cfg] sm4 = Inr s' \<and>
        db_new T (?R ++ order_tables (kPartitionCnt cfg)) s'"
    proof (rule fold_res_upt_returns [where I = "\<lambda>k. db_new T (?R ++ order_tables k)"])
      fix k s assume k: "k < kPartitionCnt cfg" "db_new T (?R ++ order_tables k) s"
      have "k < TPCC_MAX_PARTITION_CNT" using k(1) n by simp
      from register_orders_new [OF laws k(2) this]
      show "\<exists>s'. register_orders T k s = Inr s' \<and> db_new T (?R ++ order_tables (Suc k)) s'" by blast
    qed (rule start)
    then show thesis using that True by (auto simp: partitions_def)
  next
    case False
    then show thesis
      using that register_orders_new [OF laws start] parts by (auto simp: partitions_def tpcc_table_ids)
  qed
  obtain sm6 where sm6: "registerTable T HISTORY_TABLE_ID history_schema sm5 = Inr sm6"
      "db_new T ((?R ++ order_tables (partitions cfg))(HISTORY_TABLE_ID \<mapsto> (history_schema, False, []))) sm6"
    using register_step [OF laws sm5(2) tpcc_creatable(9), of HISTORY_TABLE_ID] by auto
  obtain sm7 where sm7: "registerTable T STOCK_TABLE_ID stock_schema sm6 = Inr sm7"
      "db_new T ((?R ++ order_tables (partitions cfg))(HISTORY_TABLE_ID \<mapsto> (history_schema, False, []),
         STOCK_TABLE_ID \<mapsto> (stock_schema, True, []))) sm7"
    using register_step [OF laws sm6(2) tpcc_creatable(5), of STOCK_TABLE_ID] by auto
  obtain sm8 where sm8: "registerTable T DISTRICT_NEW_ORDER_TABLE_ID district_new_order_schema sm7 = Inr sm8"
      "db_new T ((?R ++ order_tables (partitions cfg))(HISTORY_TABLE_ID \<mapsto> (history_schema, False, []),
         STOCK_TABLE_ID \<mapsto> (stock_schema, True, []),
         DISTRICT_NEW_ORDER_TABLE_ID \<mapsto> (district_new_order_schema, True, []))) sm8"
    using register_step [OF laws sm7(2) tpcc_creatable(10), of DISTRICT_NEW_ORDER_TABLE_ID] by auto
  have "tpcc_registry cfg \<subseteq>\<^sub>m (?R ++ order_tables (partitions cfg))(HISTORY_TABLE_ID \<mapsto> (history_schema, False, []),
         STOCK_TABLE_ID \<mapsto> (stock_schema, True, []),
         DISTRICT_NEW_ORDER_TABLE_ID \<mapsto> (district_new_order_schema, True, []))"
    using parts(2)
    by (auto simp: map_le_def tpcc_registry_def order_tables_def map_add_def tpcc_table_ids split: if_splits)
  then have "db_new T (tpcc_registry cfg) sm8" by (rule db_new_mono [OF sm8(2)])
  moreover have "TpccPopulator_init T cfg StorageManager_new = Inr sm8"
    using sm1(1) sm2(1) sm3(1) sm4(1) sm5(1) sm6(1) sm7(1) sm8(1)
    by (simp add: TpccPopulator_init_def res_simps)
  ultimately show thesis using that by blast
qed

end
