(* ===== verification/TpccPopulator.thy ===== *)
theory TpccPopulator
  imports TpccTables
begin

text \<open>
  benchmark/tpcc/TpccPopulator.cc and TpccRecords.h: the records of the TPC-C database, how they are drawn, how
  they are written into rows, and the loops that load the tables (\<open>init\<close>, which registers them, is in the
  theory TpccTables). \<open>new XRecord()\<close> sets the record to zero. The arguments \<open>original\<close> of the functions
  that draw items and stock are not used by the code.
\<close>

section \<open>Records\<close>

record item_record =
  ir_i_id :: "32 word"
  ir_i_im_id :: "32 word"
  ir_i_name :: bytes
  ir_i_price :: "64 word"
  ir_i_data :: bytes

record warehouse_record =
  wr_w_id :: "32 word"
  wr_w_name :: bytes
  wr_w_street_1 :: bytes
  wr_w_street_2 :: bytes
  wr_w_city :: bytes
  wr_w_state :: bytes
  wr_w_zip :: bytes
  wr_w_tax :: "64 word"
  wr_w_ytd :: "64 word"

record district_record =
  dr_d_id :: "32 word"
  dr_d_w_id :: "32 word"
  dr_d_name :: bytes
  dr_d_street_1 :: bytes
  dr_d_street_2 :: bytes
  dr_d_city :: bytes
  dr_d_state :: bytes
  dr_d_zip :: bytes
  dr_d_tax :: "64 word"
  dr_d_ytd :: "64 word"
  dr_d_next_o_id :: "32 word"

record customer_record =
  cur_c_id :: "32 word"
  cur_c_d_id :: "32 word"
  cur_c_w_id :: "32 word"
  cur_c_first :: bytes
  cur_c_middle :: bytes
  cur_c_last :: bytes
  cur_c_street_1 :: bytes
  cur_c_street_2 :: bytes
  cur_c_city :: bytes
  cur_c_state :: bytes
  cur_c_zip :: bytes
  cur_c_phone :: bytes
  cur_c_since :: "64 word"
  cur_c_credit :: bytes
  cur_c_credit_lim :: "64 word"
  cur_c_discount :: "64 word"
  cur_c_balance :: "64 word"
  cur_c_ytd_payment :: "64 word"
  cur_c_payment_cnt :: "32 word"
  cur_c_delivery_cnt :: "32 word"
  cur_c_data :: bytes

record stock_record =
  skr_s_i_id :: "32 word"
  skr_s_w_id :: "32 word"
  skr_s_quantity :: "32 word"
  skr_s_dists :: "bytes list"
  skr_s_ytd :: "32 word"
  skr_s_order_cnt :: "32 word"
  skr_s_remote_cnt :: "32 word"
  skr_s_data :: bytes

record order_record =
  or_o_id :: "32 word"
  or_o_c_id :: "32 word"
  or_o_d_id :: "32 word"
  or_o_w_id :: "32 word"
  or_o_entry_d :: "64 word"
  or_o_carrier_id :: "32 word"
  or_o_ol_cnt :: "32 word"
  or_o_all_local :: "32 word"

record new_order_record =
  nor_o_id :: "32 word"
  nor_d_id :: "32 word"
  nor_w_id :: "32 word"

record order_line_record =
  olr_ol_o_id :: "32 word"
  olr_ol_d_id :: "32 word"
  olr_ol_w_id :: "32 word"
  olr_ol_number :: "32 word"
  olr_ol_i_id :: "32 word"
  olr_ol_supply_w_id :: "32 word"
  olr_ol_delivery_d :: "64 word"
  olr_ol_quantity :: "32 word"
  olr_ol_amount :: "64 word"
  olr_ol_dist_info :: bytes

record history_record =
  hr_h_c_id :: "32 word"
  hr_h_c_d_id :: "32 word"
  hr_h_c_w_id :: "32 word"
  hr_h_d_id :: "32 word"
  hr_h_w_id :: "32 word"
  hr_h_date :: "64 word"
  hr_h_amount :: "64 word"
  hr_h_data :: bytes

record district_new_order_record =
  dnr_w_id :: "32 word"
  dnr_d_id :: "32 word"
  dnr_o_id :: "32 word"

section \<open>Drawing the records\<close>

text \<open>A string drawn and copied into an array of \<open>n\<close> characters of the record.\<close>

definition draw_chars :: "'g tpcc_env \<Rightarrow> nat \<Rightarrow> 32 word \<Rightarrow> 32 word \<Rightarrow> ('g, bytes) gen" where
  "draw_chars E n mn mx = gbnd (tpcc_generateCString (env_lib E) mn mx) (\<lambda>str. glift (char_field n str))"

definition generateItemRecord :: "'g tpcc_env \<Rightarrow> 32 word \<Rightarrow> ('g, item_record) gen" where
  "generateItemRecord E item_id =
     (let D = env_dbl E in
      gbnd (tpcc_generateInteger (env_lib E) 1 10000) (\<lambda>i_im_id.
      gbnd (draw_chars E 32 14 24) (\<lambda>name.
      gbnd (generateFixedPoint (env_lib E) D 2 (d_lit D 100 2) (d_lit D 10000 2)) (\<lambda>price.
      gbnd (draw_chars E 64 26 50) (\<lambda>data.
      gret \<lparr>ir_i_id = item_id, ir_i_im_id = i_im_id, ir_i_name = name, ir_i_price = price, ir_i_data = data\<rparr>)))))"

definition generateWarehouseRecord :: "'g tpcc_env \<Rightarrow> 32 word \<Rightarrow> ('g, warehouse_record) gen" where
  "generateWarehouseRecord E w_id =
     (let D = env_dbl E in
      gbnd (draw_chars E 16 6 10) (\<lambda>name.
      gbnd (generateAddress (env_lib E)) (\<lambda>(street_1, street_2, city, state, zip).
      gbnd (generateTax (env_lib E) D) (\<lambda>tax.
      gret \<lparr>wr_w_id = w_id, wr_w_name = name, wr_w_street_1 = street_1, wr_w_street_2 = street_2,
        wr_w_city = city, wr_w_state = state, wr_w_zip = zip, wr_w_tax = tax,
        wr_w_ytd = d_lit D 30000000 2\<rparr>))))"

definition generateDistrictRecord :: "'g tpcc_env \<Rightarrow> 32 word \<Rightarrow> 32 word \<Rightarrow> 32 word \<Rightarrow> ('g, district_record) gen" where
  "generateDistrictRecord E d_w_id d_id d_next_o_id =
     (let D = env_dbl E in
      gbnd (draw_chars E 16 6 10) (\<lambda>name.
      gbnd (generateAddress (env_lib E)) (\<lambda>(street_1, street_2, city, state, zip).
      gbnd (generateTax (env_lib E) D) (\<lambda>tax.
      gret \<lparr>dr_d_id = d_id, dr_d_w_id = d_w_id, dr_d_name = name, dr_d_street_1 = street_1, dr_d_street_2 = street_2,
        dr_d_city = city, dr_d_state = state, dr_d_zip = zip, dr_d_tax = tax,
        dr_d_ytd = d_lit D 3000000 2, dr_d_next_o_id = d_next_o_id\<rparr>))))"

definition generateCustomerRecord ::
  "'g tpcc_env \<Rightarrow> tpcc_consts \<Rightarrow> 32 word \<Rightarrow> 32 word \<Rightarrow> 32 word \<Rightarrow> bool \<Rightarrow> ('g, customer_record) gen" where
  "generateCustomerRecord E C c_w_id c_d_id c_id bad_credit =
     (let D = env_dbl E; R = env_lib E in
      gbnd (draw_chars E 32 6 10) (\<lambda>first.
      gbnd (glift (char_field 2 (bytes_of_string ''OE''))) (\<lambda>middle.
      gbnd (if c_id <s 1000 then glift (generateLastName (c_id - 1)) else generateRandomLastName R C 3000) (\<lambda>last.
      gbnd (glift (char_field 32 last)) (\<lambda>last.
      gbnd (generateAddress R) (\<lambda>(street_1, street_2, city, state, zip).
      gbnd (tpcc_generateNString R 16 16) (\<lambda>phone.
      gbnd (glift (char_field 32 phone)) (\<lambda>phone.
      gbnd (generateCurrentTime R) (\<lambda>since.
      gbnd (glift (char_field 2 (bytes_of_string (if bad_credit then ''BC'' else ''GC'')))) (\<lambda>credit.
      gbnd (generateFixedPoint R D 4 (d_lit D 0 4) (d_lit D 5000 4)) (\<lambda>discount.
      gbnd (draw_chars E 500 300 500) (\<lambda>data.
      gret \<lparr>cur_c_id = c_id, cur_c_d_id = c_d_id, cur_c_w_id = c_w_id, cur_c_first = first, cur_c_middle = middle,
        cur_c_last = last, cur_c_street_1 = street_1, cur_c_street_2 = street_2, cur_c_city = city,
        cur_c_state = state, cur_c_zip = zip, cur_c_phone = phone, cur_c_since = since, cur_c_credit = credit,
        cur_c_credit_lim = d_lit D 5000000 2, cur_c_discount = discount, cur_c_balance = d_lit D (- 1000) 2,
        cur_c_ytd_payment = d_lit D 1000 2, cur_c_payment_cnt = 1, cur_c_delivery_cnt = 0, cur_c_data = data\<rparr>))))))))))))"

definition generateStockRecord :: "'g tpcc_env \<Rightarrow> 32 word \<Rightarrow> 32 word \<Rightarrow> ('g, stock_record) gen" where
  "generateStockRecord E s_w_id s_i_id =
     gbnd (tpcc_generateInteger (env_lib E) 10 100) (\<lambda>quantity.
     gbnd (gen_list (unat DISTRICTS_PER_WAREHOUSE) (draw_chars E 32 24 24)) (\<lambda>dists.
     gbnd (draw_chars E 64 26 50) (\<lambda>data.
     gret \<lparr>skr_s_i_id = s_i_id, skr_s_w_id = s_w_id, skr_s_quantity = quantity, skr_s_dists = dists,
       skr_s_ytd = 0, skr_s_order_cnt = 0, skr_s_remote_cnt = 0, skr_s_data = data\<rparr>)))"

definition generateOrderRecord ::
  "'g tpcc_env \<Rightarrow> 32 word \<Rightarrow> 32 word \<Rightarrow> 32 word \<Rightarrow> 32 word \<Rightarrow> 32 word \<Rightarrow> bool \<Rightarrow> ('g, order_record) gen" where
  "generateOrderRecord E o_w_id o_d_id o_id o_c_id o_ol_cnt new_order =
     gbnd (generateCurrentTime (env_lib E)) (\<lambda>entry_d.
     gbnd (if new_order then gret NULL_CARRIER_ID else tpcc_generateInteger (env_lib E) 1 10) (\<lambda>carrier.
     gret \<lparr>or_o_id = o_id, or_o_c_id = o_c_id, or_o_d_id = o_d_id, or_o_w_id = o_w_id, or_o_entry_d = entry_d,
       or_o_carrier_id = carrier, or_o_ol_cnt = o_ol_cnt, or_o_all_local = 1\<rparr>))"

definition generateNewOrderRecord :: "32 word \<Rightarrow> 32 word \<Rightarrow> 32 word \<Rightarrow> new_order_record" where
  "generateNewOrderRecord w_id d_id o_id = \<lparr>nor_o_id = o_id, nor_d_id = d_id, nor_w_id = w_id\<rparr>"

text \<open>The greatest amount of a new line is the price of an item times a quantity.\<close>

definition generateOrderLineRecord ::
  "'g tpcc_env \<Rightarrow> 32 word \<Rightarrow> 32 word \<Rightarrow> 32 word \<Rightarrow> 32 word \<Rightarrow> 32 word \<Rightarrow> bool \<Rightarrow> ('g, order_line_record) gen" where
  "generateOrderLineRecord E ol_w_id ol_d_id ol_o_id ol_number max_items new_order =
     (let D = env_dbl E; R = env_lib E in
      gbnd (tpcc_generateInteger R 1 max_items) (\<lambda>i_id.
      gbnd (if new_order
            then gbnd (generateFixedPoint R D 2 (d_lit D 1 2) (d_mul D (d_lit D 10000 2) (d_of_int D 10))) (\<lambda>amount.
              gret (- 1, amount))
            else gbnd (generateCurrentTime R) (\<lambda>delivery_d. gret (delivery_d, d_lit D 0 1))) (\<lambda>(delivery_d, amount).
      gbnd (draw_chars E 32 24 24) (\<lambda>dist_info.
      gret \<lparr>olr_ol_o_id = ol_o_id, olr_ol_d_id = ol_d_id, olr_ol_w_id = ol_w_id, olr_ol_number = ol_number,
        olr_ol_i_id = i_id, olr_ol_supply_w_id = ol_w_id, olr_ol_delivery_d = delivery_d, olr_ol_quantity = 5,
        olr_ol_amount = amount, olr_ol_dist_info = dist_info\<rparr>))))"

definition generateHistoryRecord :: "'g tpcc_env \<Rightarrow> 32 word \<Rightarrow> 32 word \<Rightarrow> 32 word \<Rightarrow> ('g, history_record) gen" where
  "generateHistoryRecord E h_c_w_id h_c_d_id h_c_id =
     gbnd (generateCurrentTime (env_lib E)) (\<lambda>date.
     gbnd (draw_chars E 32 12 24) (\<lambda>data.
     gret \<lparr>hr_h_c_id = h_c_id, hr_h_c_d_id = h_c_d_id, hr_h_c_w_id = h_c_w_id, hr_h_d_id = h_c_d_id,
       hr_h_w_id = h_c_w_id, hr_h_date = date, hr_h_amount = d_lit (env_dbl E) 1000 2, hr_h_data = data\<rparr>))"

definition generateDistrictNewOrderRecord :: "32 word \<Rightarrow> 32 word \<Rightarrow> 32 word \<Rightarrow> district_new_order_record" where
  "generateDistrictNewOrderRecord w_id d_id o_id = \<lparr>dnr_w_id = w_id, dnr_d_id = d_id, dnr_o_id = o_id\<rparr>"

section \<open>Inserting the records\<close>

abbreviation int_col :: "nat \<Rightarrow> 32 word \<Rightarrow> nat \<times> col_write" where
  "int_col i v \<equiv> (i, Fixed (to_bytes v))"

abbreviation dbl_col :: "nat \<Rightarrow> 64 word \<Rightarrow> nat \<times> col_write" where
  "dbl_col i v \<equiv> (i, Fixed (to_bytes v))"

text \<open>The writes of the functions \<open>insertXRecord\<close>.\<close>

definition item_writes :: "item_record \<Rightarrow> (nat \<times> col_write) list" where
  "item_writes r =
     [int_col 0 (ir_i_id r), int_col 1 (ir_i_im_id r), (2, Sized (ir_i_name r) 32), dbl_col 3 (ir_i_price r),
      (4, Sized (ir_i_data r) 64)]"

definition warehouse_writes :: "warehouse_record \<Rightarrow> (nat \<times> col_write) list" where
  "warehouse_writes r =
     [int_col 0 (wr_w_id r), (1, Sized (wr_w_name r) 16), (2, Sized (wr_w_street_1 r) 32),
      (3, Sized (wr_w_street_2 r) 32), (4, Sized (wr_w_city r) 32), (5, Sized (wr_w_state r) 2),
      (6, Sized (wr_w_zip r) 9), dbl_col 7 (wr_w_tax r), dbl_col 8 (wr_w_ytd r)]"

definition district_writes :: "district_record \<Rightarrow> (nat \<times> col_write) list" where
  "district_writes r =
     [int_col 0 (dr_d_id r), int_col 1 (dr_d_w_id r), (2, Sized (dr_d_name r) 16), (3, Sized (dr_d_street_1 r) 32),
      (4, Sized (dr_d_street_2 r) 32), (5, Sized (dr_d_city r) 32), (6, Sized (dr_d_state r) 2),
      (7, Sized (dr_d_zip r) 9), dbl_col 8 (dr_d_tax r), dbl_col 9 (dr_d_ytd r), int_col 10 (dr_d_next_o_id r)]"

definition customer_writes :: "customer_record \<Rightarrow> (nat \<times> col_write) list" where
  "customer_writes r =
     [int_col 0 (cur_c_id r), int_col 1 (cur_c_d_id r), int_col 2 (cur_c_w_id r), (3, Sized (cur_c_first r) 32),
      (4, Sized (cur_c_middle r) 2), (5, Sized (cur_c_last r) 32), (6, Sized (cur_c_street_1 r) 32),
      (7, Sized (cur_c_street_2 r) 32), (8, Sized (cur_c_city r) 32), (9, Sized (cur_c_state r) 2),
      (10, Sized (cur_c_zip r) 9), (11, Sized (cur_c_phone r) 32), dbl_col 12 (cur_c_since r),
      (13, Sized (cur_c_credit r) 2), dbl_col 14 (cur_c_credit_lim r), dbl_col 15 (cur_c_discount r),
      dbl_col 16 (cur_c_balance r), dbl_col 17 (cur_c_ytd_payment r), int_col 18 (cur_c_payment_cnt r),
      int_col 19 (cur_c_delivery_cnt r), (20, Sized (cur_c_data r) 500)]"

definition stock_writes :: "stock_record \<Rightarrow> (nat \<times> col_write) list" where
  "stock_writes r =
     [int_col 0 (skr_s_i_id r), int_col 1 (skr_s_w_id r), int_col 2 (skr_s_quantity r)] @
     map (\<lambda>i. (i, Sized (skr_s_dists r ! (i - 3)) 32)) [3..<13] @
     [int_col 13 (skr_s_ytd r), int_col 14 (skr_s_order_cnt r), int_col 15 (skr_s_remote_cnt r),
      (16, Sized (skr_s_data r) 64)]"

definition order_record_writes :: "order_record \<Rightarrow> (nat \<times> col_write) list" where
  "order_record_writes r =
     [int_col 0 (or_o_id r), int_col 1 (or_o_c_id r), int_col 2 (or_o_d_id r), int_col 3 (or_o_w_id r),
      dbl_col 4 (or_o_entry_d r), int_col 5 (or_o_carrier_id r), int_col 6 (or_o_ol_cnt r),
      int_col 7 (or_o_all_local r)]"

definition new_order_record_writes :: "new_order_record \<Rightarrow> (nat \<times> col_write) list" where
  "new_order_record_writes r = [int_col 0 (nor_o_id r), int_col 1 (nor_d_id r), int_col 2 (nor_w_id r)]"

definition order_line_record_writes :: "order_line_record \<Rightarrow> (nat \<times> col_write) list" where
  "order_line_record_writes r =
     [int_col 0 (olr_ol_o_id r), int_col 1 (olr_ol_d_id r), int_col 2 (olr_ol_w_id r), int_col 3 (olr_ol_number r),
      int_col 4 (olr_ol_i_id r), int_col 5 (olr_ol_supply_w_id r), dbl_col 6 (olr_ol_delivery_d r),
      int_col 7 (olr_ol_quantity r), dbl_col 8 (olr_ol_amount r), (9, Sized (olr_ol_dist_info r) 32)]"

definition history_record_writes :: "history_record \<Rightarrow> (nat \<times> col_write) list" where
  "history_record_writes r =
     [int_col 0 (hr_h_c_id r), int_col 1 (hr_h_c_d_id r), int_col 2 (hr_h_c_w_id r), int_col 3 (hr_h_d_id r),
      int_col 4 (hr_h_w_id r), dbl_col 5 (hr_h_date r), dbl_col 6 (hr_h_amount r), (7, Sized (hr_h_data r) 32)]"

definition district_new_order_writes :: "district_new_order_record \<Rightarrow> (nat \<times> col_write) list" where
  "district_new_order_writes r = [int_col 0 (dnr_w_id r), int_col 1 (dnr_d_id r), int_col 2 (dnr_o_id r)]"

text \<open>What the functions have in common.\<close>

definition populate_row ::
  "('q, 'h, 'm) tbb \<Rightarrow> 'g tpcc_env \<Rightarrow> nat \<Rightarrow> schema result \<Rightarrow> (nat \<times> col_write) list \<Rightarrow>
   ('q, 'h, 'm) storage_manager \<Rightarrow> ('q, 'h, 'm) storage_manager result" where
  "populate_row T E i s ws sm =
     bnd s (\<lambda>s. bnd (build_record E s ws) (\<lambda>rec. sm_insertRecord T i rec sm))"

definition insertItemRecord where
  "insertItemRecord T E r = populate_row T E ITEM_TABLE_ID getItemSchema (item_writes r)"

definition insertWarehouseRecord where
  "insertWarehouseRecord T E r = populate_row T E WAREHOUSE_TABLE_ID getWarehouseSchema (warehouse_writes r)"

definition insertDistrictRecord where
  "insertDistrictRecord T E r = populate_row T E DISTRICT_TABLE_ID getDistrictSchema (district_writes r)"

definition insertCustomerRecord where
  "insertCustomerRecord T E r = populate_row T E CUSTOMER_TABLE_ID getCustomerSchema (customer_writes r)"

definition insertStockRecord where
  "insertStockRecord T E r = populate_row T E STOCK_TABLE_ID getStockSchema (stock_writes r)"

definition insertHistoryRecord where
  "insertHistoryRecord T E r = populate_row T E HISTORY_TABLE_ID getHistorySchema (history_record_writes r)"

definition insertDistrictNewOrderRecord where
  "insertDistrictNewOrderRecord T E r =
     populate_row T E DISTRICT_NEW_ORDER_TABLE_ID getDistrictNewOrderSchema (district_new_order_writes r)"

text \<open>The offset is computed after the columns have been set.\<close>

definition populate_part ::
  "('q, 'h, 'm) tbb \<Rightarrow> 'g tpcc_env \<Rightarrow> nat \<Rightarrow> 32 word \<Rightarrow> 32 word \<Rightarrow> schema result \<Rightarrow> (nat \<times> col_write) list \<Rightarrow>
   ('q, 'h, 'm) storage_manager \<Rightarrow> ('q, 'h, 'm) storage_manager result" where
  "populate_part T E i w_id d_id s ws sm =
     bnd s (\<lambda>s.
     bnd (build_record E s ws) (\<lambda>rec.
     bnd (tpcc_offset E w_id d_id) (\<lambda>offset.
     sm_insertRecord T (i + offset) rec sm)))"

definition insertOrderRecord where
  "insertOrderRecord T E r =
     populate_part T E ORDER_TABLE_ID (or_o_w_id r) (or_o_d_id r) getOrderSchema (order_record_writes r)"

definition insertNewOrderRecord where
  "insertNewOrderRecord T E r =
     populate_part T E NEW_ORDER_TABLE_ID (nor_w_id r) (nor_d_id r) getNewOrderSchema (new_order_record_writes r)"

definition insertOrderLineRecord where
  "insertOrderLineRecord T E r =
     populate_part T E ORDER_LINE_TABLE_ID (olr_ol_w_id r) (olr_ol_d_id r) getOrderLineSchema (order_line_record_writes r)"

section \<open>Loading the tables\<close>

text \<open>\<open>for (int i = 1; i <= n; ++i)\<close>, which does not end when \<open>n\<close> is the greatest \<open>int\<close>.\<close>

definition ints_to :: "32 word \<Rightarrow> 32 word list" where
  "ints_to n = map word_of_int [1..sint n]"

definition for_ints :: "32 word \<Rightarrow> (32 word \<Rightarrow> 's \<Rightarrow> ('g, 's) gen) \<Rightarrow> 's \<Rightarrow> ('g, 's) gen" where
  "for_ints n body st =
     gbnd (gfold body (ints_to n) st) (\<lambda>st. if n = 2147483647 then glift (Inl Diverges) else gret st)"

definition tenth :: "32 word \<Rightarrow> 32 word" where
  "tenth n = word_of_int (sint n sdiv 10)"

definition load_items ::
  "('q, 'h, 'm) tbb \<Rightarrow> 'g tpcc_env \<Rightarrow> ('q, 'h, 'm) storage_manager \<Rightarrow> ('g, ('q, 'h, 'm) storage_manager) gen" where
  "load_items T E sm =
     (let n = num_items (env_scale E) in
      gbnd (selectUniqueIds (env_lib E) (tenth n) 1 n []) (\<lambda>original_rows.
      for_ints n (\<lambda>item_id sm.
        gbnd (generateItemRecord E item_id) (\<lambda>r. glift (insertItemRecord T E r sm))) sm))"

definition load_customer ::
  "('q, 'h, 'm) tbb \<Rightarrow> 'g tpcc_env \<Rightarrow> tpcc_consts \<Rightarrow> 32 word \<Rightarrow> 32 word \<Rightarrow> 32 word list \<Rightarrow> 32 word \<Rightarrow>
   ('q, 'h, 'm) storage_manager \<Rightarrow> ('g, ('q, 'h, 'm) storage_manager) gen" where
  "load_customer T E C w_id d_id rows c_id sm =
     gbnd (generateCustomerRecord E C w_id d_id c_id (c_id \<in> set rows)) (\<lambda>r.
     gbnd (glift (insertCustomerRecord T E r sm)) (\<lambda>sm.
     gbnd (generateHistoryRecord E w_id d_id c_id) (\<lambda>r. glift (insertHistoryRecord T E r sm))))"

definition load_line ::
  "('q, 'h, 'm) tbb \<Rightarrow> 'g tpcc_env \<Rightarrow> 32 word \<Rightarrow> 32 word \<Rightarrow> 32 word \<Rightarrow> bool \<Rightarrow> 32 word \<Rightarrow>
   ('q, 'h, 'm) storage_manager \<Rightarrow> ('g, ('q, 'h, 'm) storage_manager) gen" where
  "load_line T E w_id d_id o_id is_new_order ol_number sm =
     gbnd (generateOrderLineRecord E w_id d_id o_id ol_number (num_items (env_scale E)) is_new_order) (\<lambda>r.
     glift (insertOrderLineRecord T E r sm))"

definition load_order ::
  "('q, 'h, 'm) tbb \<Rightarrow> 'g tpcc_env \<Rightarrow> 32 word \<Rightarrow> 32 word \<Rightarrow> 32 word \<Rightarrow> 32 word \<Rightarrow>
   ('q, 'h, 'm) storage_manager \<Rightarrow> ('g, ('q, 'h, 'm) storage_manager) gen" where
  "load_order T E w_id d_id initial_new_order_id o_id sm =
     gbnd (tpcc_generateInteger (env_lib E) 5 15) (\<lambda>o_ol_cnt.
     let is_new_order = (initial_new_order_id \<le>s o_id) in
     gbnd (generateOrderRecord E w_id d_id o_id o_id o_ol_cnt is_new_order) (\<lambda>r.
     gbnd (glift (insertOrderRecord T E r sm)) (\<lambda>sm.
     gbnd (for_ints o_ol_cnt (load_line T E w_id d_id o_id is_new_order) sm) (\<lambda>sm.
     if is_new_order then glift (insertNewOrderRecord T E (generateNewOrderRecord w_id d_id o_id) sm) else gret sm))))"

definition load_district ::
  "('q, 'h, 'm) tbb \<Rightarrow> 'g tpcc_env \<Rightarrow> tpcc_consts \<Rightarrow> 32 word \<Rightarrow> 32 word \<Rightarrow>
   ('q, 'h, 'm) storage_manager \<Rightarrow> ('g, ('q, 'h, 'm) storage_manager) gen" where
  "load_district T E C w_id d_id sm =
     (let n = num_customers_per_district (env_scale E);
          initial_new_order_id = n - num_new_orders_per_district (env_scale E) + 1 in
      gbnd (generateDistrictRecord E w_id d_id (n + 1)) (\<lambda>r.
      gbnd (glift (insertDistrictRecord T E r sm)) (\<lambda>sm.
      gbnd (selectUniqueIds (env_lib E) (tenth n) 1 n []) (\<lambda>rows.
      gbnd (for_ints n (load_customer T E C w_id d_id rows) sm) (\<lambda>sm.
      gbnd (glift (insertDistrictNewOrderRecord T E (generateDistrictNewOrderRecord w_id d_id initial_new_order_id) sm)) (\<lambda>sm.
      for_ints n (load_order T E w_id d_id initial_new_order_id) sm))))))"

definition load_stock ::
  "('q, 'h, 'm) tbb \<Rightarrow> 'g tpcc_env \<Rightarrow> 32 word \<Rightarrow>
   ('q, 'h, 'm) storage_manager \<Rightarrow> ('g, ('q, 'h, 'm) storage_manager) gen" where
  "load_stock T E w_id sm =
     (let n = num_items (env_scale E) in
      gbnd (selectUniqueIds (env_lib E) (tenth n) 1 n []) (\<lambda>rows.
      for_ints n (\<lambda>i_id sm.
        gbnd (generateStockRecord E w_id i_id) (\<lambda>r. glift (insertStockRecord T E r sm))) sm))"

definition load_warehouse ::
  "('q, 'h, 'm) tbb \<Rightarrow> 'g tpcc_env \<Rightarrow> tpcc_consts \<Rightarrow> 32 word \<Rightarrow>
   ('q, 'h, 'm) storage_manager \<Rightarrow> ('g, ('q, 'h, 'm) storage_manager) gen" where
  "load_warehouse T E C w_id sm =
     gbnd (generateWarehouseRecord E w_id) (\<lambda>r.
     gbnd (glift (insertWarehouseRecord T E r sm)) (\<lambda>sm.
     gbnd (for_ints (num_districts_per_warehouse (env_scale E)) (load_district T E C w_id) sm) (\<lambda>sm.
     load_stock T E w_id sm)))"

definition tpcc_startPopulate ::
  "('q, 'h, 'm) tbb \<Rightarrow> 'g tpcc_env \<Rightarrow> tpcc_consts \<Rightarrow>
   ('q, 'h, 'm) storage_manager \<Rightarrow> ('g, ('q, 'h, 'm) storage_manager) gen" where
  "tpcc_startPopulate T E C sm =
     gbnd (load_items T E sm) (\<lambda>sm.
     for_ints (num_warehouses (env_scale E)) (load_warehouse T E C) sm)"

definition TpccPopulator_start ::
  "('q, 'h, 'm) tbb \<Rightarrow> 'g tpcc_env \<Rightarrow> tpcc_consts \<Rightarrow>
   ('q, 'h, 'm) storage_manager \<Rightarrow> ('g, ('q, 'h, 'm) storage_manager) gen" where
  "TpccPopulator_start T E C sm =
     gbnd (glift (TpccPopulator_init T (env_cfg E) sm)) (tpcc_startPopulate T E C)"

end
