(* ===== verification/TpccDraws.thy ===== *)
theory TpccDraws
  imports TpccPopulator
begin

text \<open>
  What the random generators of TPC-C (benchmark/tpcc/RandomGenerator.h) and the functions that draw the records
  (benchmark/tpcc/TpccPopulator.cc) return. That the loop of \<open>selectUniqueIds\<close> ends needs a fair \<open>rand\<close>: one
  that gives every number from time to time.
\<close>

unbundle bit_operations_syntax

section \<open>Unique numbers\<close>

definition rand_next :: "'g c_lib \<Rightarrow> 'g \<Rightarrow> 'g" where
  "rand_next R g = snd (c_rand R g)"

definition rand_fair :: "'g c_lib \<Rightarrow> bool" where
  "rand_fair R \<longleftrightarrow>
     rand_laws R \<and>
     (\<forall>g x. 0 \<le> x \<longrightarrow> x \<le> RAND_MAX \<longrightarrow> (\<exists>k. fst (c_rand R ((rand_next R ^^ k) g)) = x))"

text \<open>An instance: a counter.\<close>

definition counter_rand :: "nat c_lib" where
  "counter_rand = \<lparr>c_rand = (\<lambda>g. (int g mod (RAND_MAX + 1), Suc g)), c_clock = (\<lambda>g. (0, g))\<rparr>"

lemma counter_rand_fair: "rand_fair counter_rand"
proof -
  have n: "(rand_next counter_rand ^^ k) g = g + k" for k g
    by (induction k) (simp_all add: rand_next_def counter_rand_def)
  have "\<exists>k. fst (c_rand counter_rand ((rand_next counter_rand ^^ k) g)) = x" if x: "0 \<le> x" "x \<le> RAND_MAX" for g x
  proof
    let ?k = "nat ((x - int g) mod (RAND_MAX + 1))"
    have "int (g + ?k) mod (RAND_MAX + 1) = (int g + (x - int g)) mod (RAND_MAX + 1)"
      by (simp add: RAND_MAX_def mod_simps)
    also have "\<dots> = x" using x by (simp add: RAND_MAX_def)
    finally show "fst (c_rand counter_rand ((rand_next counter_rand ^^ ?k) g)) = x"
      unfolding n by (simp add: counter_rand_def)
  qed
  moreover have "int g mod 2147483648 \<le> 2147483647" for g
    using pos_mod_bound [of 2147483648 "int g"] by linarith
  then have "rand_laws counter_rand" by (simp add: rand_laws_def counter_rand_def RAND_MAX_def)
  ultimately show ?thesis by (simp add: rand_fair_def)
qed

lemma generateInteger_hits:
  assumes R: "rand_laws R" and y: "sint mn \<le> sint y" "sint y \<le> sint mx" "sint mx - sint mn < 2147483647"
    and x: "c_rand R g = (sint y - sint mn, g')"
  shows "tpcc_generateInteger R mn mx g = Inr (y, g')"
proof -
  let ?n = "sint mx - sint mn + 1"
  have "sint (word_of_int ?n :: 32 word) = ?n"
    using y by (simp add: signed_of_int signed_take_bit_int_eq_self del: of_int_add of_int_diff)
  then have d: "sint (mx - mn + 1) = ?n" by (simp only: word_of_int_sint_diff)
  then have nz: "mx - mn + 1 \<noteq> 0" using y(1,2) by auto
  have "(sint y - sint mn) smod ?n = sint y - sint mn"
    using y by (simp add: smod_int_alt_def sgn_if)
  then show ?thesis using x nz by (simp add: tpcc_generateInteger_def Let_def d)
qed

text \<open>The loop ends when there is a number left.\<close>

lemma unique_number_returns:
  assumes R: "rand_fair R" and y: "sint mn \<le> sint y" "sint y \<le> sint mx" "y \<notin> set rows" "y \<noteq> - 1"
    and small: "sint mx - sint mn < 2147483647"
    and start: "num = - 1 \<or> num \<in> set rows \<or> (sint mn \<le> sint num \<and> sint num \<le> sint mx)"
  shows "\<exists>num' g'. unique_number R mn mx rows num g = Some (Inr (num', g')) \<and>
    num' \<notin> set rows \<and> sint mn \<le> sint num' \<and> sint num' \<le> sint mx"
proof -
  have laws: "rand_laws R" using R by (simp add: rand_fair_def)
  have "0 \<le> sint y - sint mn \<and> sint y - sint mn \<le> RAND_MAX" using y small by (simp add: RAND_MAX_def)
  then obtain k where "fst (c_rand R ((rand_next R ^^ k) g)) = sint y - sint mn"
    using R unfolding rand_fair_def by blast
  then show ?thesis
    using start
  proof (induction k arbitrary: g num)
    case 0
    then obtain g' where g': "c_rand R g = (sint y - sint mn, g')" by (cases "c_rand R g") auto
    have hit: "tpcc_generateInteger R mn mx g = Inr (y, g')"
      by (rule generateInteger_hits [OF laws y(1,2) small g'])
    have "unique_number R mn mx rows y g' = Some (Inr (y, g'))"
      using y by (subst unique_number.simps) simp
    then show ?case using 0 hit y by (subst unique_number.simps) auto
  next
    case (Suc k)
    show ?case
    proof (cases "num = - 1 \<or> num \<in> set rows")
      case True
      have le: "sint mn \<le> sint mx" using y by simp
      obtain v g' where v: "tpcc_generateInteger R mn mx g = Inr (v, g')" "sint mn \<le> sint v" "sint v \<le> sint mx"
        using gen_returnsE [OF tpcc_generateInteger_returns [OF laws le small], of g] by metis
      have "g' = rand_next R g"
        using v(1) by (cases "c_rand R g") (simp add: tpcc_generateInteger_def rand_next_def Let_def split: if_splits)
      then have "fst (c_rand R ((rand_next R ^^ k) g')) = sint y - sint mn"
        using Suc.prems(1) by (simp add: funpow_swap1)
      from Suc.IH [OF this, of v] v obtain num' g'' where
        "unique_number R mn mx rows v g' = Some (Inr (num', g''))" "num' \<notin> set rows" "sint mn \<le> sint num'" "sint num' \<le> sint mx"
        by blast
      then show ?thesis using True v(1) by (subst unique_number.simps) auto
    next
      case False
      then show ?thesis using Suc.prems(2) by (subst unique_number.simps) auto
    qed
  qed
qed

lemma card_between:
  fixes mn mx :: "32 word"
  assumes "sint mn \<le> sint mx"
  shows "card {x :: 32 word. sint mn \<le> sint x \<and> sint x \<le> sint mx} = nat (sint mx - sint mn + 1)"
proof -
  have eq: "{x :: 32 word. sint mn \<le> sint x \<and> sint x \<le> sint mx} = word_of_int ` {sint mn..sint mx}" (is "?A = ?B")
  proof
    show "?A \<subseteq> ?B"
    proof
      fix x assume "x \<in> ?A"
      then have "x = word_of_int (sint x)" "sint x \<in> {sint mn..sint mx}" by simp_all
      then show "x \<in> ?B" by blast
    qed
    show "?B \<subseteq> ?A"
    proof
      fix x assume "x \<in> ?B"
      then obtain i where i: "x = word_of_int i" "sint mn \<le> i" "i \<le> sint mx" by auto
      then have "sint x = i" using sint_word_of_int_between [of mn i mx] by simp
      then show "x \<in> ?A" using i by simp
    qed
  qed
  have "inj_on (word_of_int :: int \<Rightarrow> 32 word) {sint mn..sint mx}"
  proof (rule inj_onI)
    fix i j assume i: "i \<in> {sint mn..sint mx}" and j: "j \<in> {sint mn..sint mx}"
      and eq: "word_of_int i = (word_of_int j :: 32 word)"
    have "sint (word_of_int i :: 32 word) = i" "sint (word_of_int j :: 32 word) = j"
      using i j sint_word_of_int_between [of mn i mx] sint_word_of_int_between [of mn j mx] by simp_all
    then show "i = j" unfolding eq by (rule trans [OF sym])
  qed
  then show ?thesis unfolding eq by (simp add: card_image)
qed

lemma selectUniqueIds_returns:
  assumes R: "rand_fair R" and mn: "1 \<le> sint mn" "sint mn \<le> sint mx" "sint mx - sint mn < 2147483647"
    and n: "sint n \<le> sint mx - sint mn + 1"
  shows "gen_returns (selectUniqueIds R n mn mx []) (\<lambda>rows. distinct rows \<and> length rows = nat (sint n) \<and>
    set rows \<subseteq> {x. sint mn \<le> sint x \<and> sint x \<le> sint mx})"
proof -
  let ?A = "{x :: 32 word. sint mn \<le> sint x \<and> sint x \<le> sint mx}"
  show ?thesis
    unfolding selectUniqueIds_def
  proof (rule gfold_upt_invariant [where I = "\<lambda>k rows. distinct rows \<and> length rows = k \<and> set rows \<subseteq> ?A"])
    fix k rows assume k: "k < nat (sint n)" and rows: "distinct rows \<and> length rows = k \<and> set rows \<subseteq> ?A"
    have less: "card (set rows) < card ?A"
      unfolding card_between [OF mn(2)] using distinct_card [of rows] rows k n by linarith
    have "\<not> ?A \<subseteq> set rows"
    proof
      assume "?A \<subseteq> set rows"
      then have "card ?A \<le> card (set rows)" by (intro card_mono finite_set)
      then show False using less by simp
    qed
    then obtain y where y: "y \<in> ?A" "y \<notin> set rows" by blast
    have "y \<noteq> - 1" using y(1) mn(1) by auto
    then have one: "\<exists>num g'. unique_number R mn mx rows (- 1) g = Some (Inr (num, g')) \<and>
        num \<notin> set rows \<and> sint mn \<le> sint num \<and> sint num \<le> sint mx" for g
      using unique_number_returns [OF R _ _ y(2) _ mn(3), of "- 1" g] y(1) by simp
    show "gen_returns (gbnd (\<lambda>g. returned (unique_number R mn mx rows (- 1) g)) (\<lambda>num. gret (num # rows)))
      (\<lambda>rows. distinct rows \<and> length rows = Suc k \<and> set rows \<subseteq> ?A)"
    proof (rule gbnd_returns)
      show "gen_returns (\<lambda>g. returned (unique_number R mn mx rows (- 1) g))
        (\<lambda>num. num \<notin> set rows \<and> sint mn \<le> sint num \<and> sint num \<le> sint mx)"
        unfolding gen_returns_def
      proof
        fix g
        obtain num g' where num: "unique_number R mn mx rows (- 1) g = Some (Inr (num, g'))"
            "num \<notin> set rows \<and> sint mn \<le> sint num \<and> sint num \<le> sint mx"
          using one [of g] by blast
        then have "returned (unique_number R mn mx rows (- 1) g) = Inr (num, g')" by (simp add: returned_def)
        then show "\<exists>num g'. returned (unique_number R mn mx rows (- 1) g) = Inr (num, g') \<and>
            num \<notin> set rows \<and> sint mn \<le> sint num \<and> sint num \<le> sint mx" using num(2) by blast
      qed
      show "gen_returns (gret (num # rows)) (\<lambda>rows. distinct rows \<and> length rows = Suc k \<and> set rows \<subseteq> ?A)"
        if "num \<notin> set rows \<and> sint mn \<le> sint num \<and> sint num \<le> sint mx" for num
        using that rows by (intro gret_returns) auto
    qed
  qed simp
qed

section \<open>Numbers that are not uniform\<close>

lemma sint_eq_uint_small: "uint w < 2 ^ 31 \<Longrightarrow> sint (w :: 32 word) = uint w"
proof -
  assume "uint w < 2 ^ 31"
  moreover have "- (2 ^ 31) \<le> uint w" by (rule order_trans [of _ 0]) simp_all
  ultimately have "signed_take_bit 31 (uint w) = uint w" by (rule signed_take_bit_int_eq_self [rotated])
  then show ?thesis by (simp add: sint_uint)
qed

lemma uint_eq_sint_nonneg: "0 \<le> sint w \<Longrightarrow> uint (w :: 32 word) = sint w"
  using sint_range_size [of w] by (simp add: uint_sint take_bit_int_eq_self word_size)

definition consts_ok :: "tpcc_consts \<Rightarrow> bool" where
  "consts_ok C \<longleftrightarrow> 0 \<le> sint (cLast C) \<and> sint (cLast C) \<le> 255 \<and> 0 \<le> sint (cId C) \<and> sint (cId C) \<le> 1023 \<and>
     0 \<le> sint (orderlineItemId C) \<and> sint (orderlineItemId C) \<le> 8191"

lemma draw_consts_returns: "rand_laws R \<Longrightarrow> gen_returns (draw_consts R) consts_ok"
  unfolding draw_consts_def
  by (rule gbnd_returns [OF tpcc_generateInteger_returns], simp_all, rule gbnd_returns [OF tpcc_generateInteger_returns],
      simp_all, rule gbnd_returns [OF tpcc_generateInteger_returns], simp_all, rule gret_returns, simp add: consts_ok_def)

lemma nonuniform_value:
  fixes u v c x y :: "32 word"
  assumes u: "0 \<le> sint u" "sint u < 2 ^ 20" and v: "0 \<le> sint v" "sint v < 2 ^ 20" and c: "0 \<le> sint c" "sint c < 2 ^ 20"
    and xy: "0 \<le> sint x" "sint x \<le> sint y" "sint y < 2 ^ 20"
  shows "y - x + 1 \<noteq> 0"
    "sint x \<le> sint (word_of_int (sint ((u OR v) + c) smod sint (y - x + 1)) + x)"
    "sint (word_of_int (sint ((u OR v) + c) smod sint (y - x + 1)) + x) \<le> sint y"
proof -
  let ?n = "sint y - sint x + 1"
  have "sint (word_of_int ?n :: 32 word) = ?n"
    using xy by (simp add: signed_of_int signed_take_bit_int_eq_self del: of_int_add of_int_diff)
  then have d: "sint (y - x + 1) = ?n" by (simp only: word_of_int_sint_diff)
  then show "y - x + 1 \<noteq> 0" using xy by auto
  have "uint (u OR v) = uint u OR uint v" by (rule uint_or)
  then have or: "uint (u OR v) < 2 ^ 20"
    using OR_upper [of "uint u" 20 "uint v"] u v by (simp add: uint_eq_sint_nonneg)
  then have "sint (u OR v) = uint (u OR v)" by (intro sint_eq_uint_small) simp
  then have ou: "0 \<le> sint (u OR v)" "sint (u OR v) < 2 ^ 20" using or by simp_all
  let ?s = "sint (u OR v) + sint c"
  have "sint (word_of_int ?s :: 32 word) = ?s"
    using ou c by (simp add: signed_of_int signed_take_bit_int_eq_self del: of_int_add)
  then have s: "sint ((u OR v) + c) = ?s" by simp
  have m: "?s smod ?n = ?s mod ?n" using ou c xy by (simp add: smod_int_alt_def sgn_if)
  have b: "0 \<le> ?s mod ?n" "?s mod ?n < ?n"
    using pos_mod_sign [of ?n ?s] pos_mod_bound [of ?n ?s] xy by linarith+
  have "word_of_int (?s mod ?n) + x = (word_of_int (?s mod ?n + sint x) :: 32 word)" by simp
  moreover have "sint (word_of_int (?s mod ?n + sint x) :: 32 word) = ?s mod ?n + sint x"
    using b by (intro sint_word_of_int_between [where v = x and w = y]) simp_all
  ultimately show "sint x \<le> sint (word_of_int (sint ((u OR v) + c) smod sint (y - x + 1)) + x)"
    "sint (word_of_int (sint ((u OR v) + c) smod sint (y - x + 1)) + x) \<le> sint y"
    using b by (simp_all only: s d m)
qed

lemma generateNonuniformInteger_returns:
  assumes R: "rand_laws R" and C: "consts_ok C" and a: "0 \<le> sint a" "sint a < 2 ^ 20"
    and xy: "0 \<le> sint x" "sint x \<le> sint y" "sint y < 2 ^ 20"
  shows "gen_returns (generateNonuniformInteger R C a x y) (\<lambda>n. sint x \<le> sint n \<and> sint n \<le> sint y)"
proof -
  let ?c = "if a = 255 then cLast C else if a = 1023 then cId C else if a = 8191 then orderlineItemId C else 0"
  have c: "0 \<le> sint ?c" "sint ?c < 2 ^ 20" using C by (auto simp: consts_ok_def)
  show ?thesis
    unfolding generateNonuniformInteger_def Let_def
  proof (rule gbnd_returns [OF tpcc_generateInteger_returns [OF R]])
    fix u :: "32 word" assume u: "sint (0 :: 32 word) \<le> sint u \<and> sint u \<le> sint a"
    show "gen_returns (gbnd (tpcc_generateInteger R x y) (\<lambda>v.
        if y - x + 1 = 0 then glift (Inl DivisionByZero)
        else gret (word_of_int (sint ((u OR v) + ?c) smod sint (y - x + 1)) + x)))
      (\<lambda>n. sint x \<le> sint n \<and> sint n \<le> sint y)"
    proof (rule gbnd_returns [OF tpcc_generateInteger_returns [OF R]])
      fix v :: "32 word" assume v: "sint x \<le> sint v \<and> sint v \<le> sint y"
      have "0 \<le> sint u" "sint u < 2 ^ 20" "0 \<le> sint v" "sint v < 2 ^ 20" using u v a xy by simp_all
      from nonuniform_value [OF this c xy]
      show "gen_returns (if y - x + 1 = 0 then glift (Inl DivisionByZero)
          else gret (word_of_int (sint ((u OR v) + ?c) smod sint (y - x + 1)) + x))
        (\<lambda>n. sint x \<le> sint n \<and> sint n \<le> sint y)"
        by (simp add: gret_returns)
    qed (use xy in simp_all)
  qed (use a in simp_all)
qed

section \<open>Amounts\<close>

text \<open>The bounds of an amount, cut to integers, are in their order and not too far apart.\<close>

definition fixed_ok :: "64 word dbl \<Rightarrow> nat \<Rightarrow> 64 word \<Rightarrow> 64 word \<Rightarrow> bool" where
  "fixed_ok D k mn mx \<longleftrightarrow>
     (let cut = (\<lambda>x. word_of_int (d_trunc D (d_add D (d_mul D x (d_of_int D (10 ^ k))) (d_lit D 5 1))) :: 32 word) in
      sint (cut mn) \<le> sint (cut mx) \<and> sint (cut mx) - sint (cut mn) < 2147483647)"

lemma generateFixedPoint_returns:
  assumes "rand_laws R" "fixed_ok D k mn mx"
  shows "gen_returns (generateFixedPoint R D k mn mx) (\<lambda>_. True)"
  using assms(2) unfolding generateFixedPoint_def fixed_ok_def Let_def
  by (intro gbnd_returns [OF tpcc_generateInteger_returns [OF assms(1)]] gret_returns) simp_all

text \<open>The bounds the code uses.\<close>

definition amounts_laws :: "64 word dbl \<Rightarrow> bool" where
  "amounts_laws D \<longleftrightarrow>
     fixed_ok D 2 (d_lit D 100 2) (d_lit D 10000 2) \<and> fixed_ok D 4 (d_lit D 0 0) (d_lit D 2000 4) \<and>
     fixed_ok D 4 (d_lit D 0 4) (d_lit D 5000 4) \<and>
     fixed_ok D 2 (d_lit D 1 2) (d_mul D (d_lit D 10000 2) (d_of_int D 10)) \<and>
     fixed_ok D 2 (d_lit D 10 1) (d_lit D 50000 1)"

text \<open>An instance: numbers with four decimals, as integers.\<close>

definition decimal_dbl :: "64 word dbl" where
  "decimal_dbl = \<lparr>d_of_int = (\<lambda>i. word_of_int (i * 10000)), d_lit = (\<lambda>m k. word_of_int (m * 10000 div 10 ^ k)),
     d_add = (+), d_sub = (-), d_mul = (\<lambda>x y. word_of_int (sint x * sint y div 10000)),
     d_div = (\<lambda>x y. if sint y = 0 then 0 else word_of_int (sint x * 10000 div sint y)), d_pow = (\<lambda>x y. x),
     d_less = (<s), d_eq = (=), d_finite = (\<lambda>_. True), d_trunc = (\<lambda>x. sint x sdiv 10000)\<rparr>"

lemma decimal_dbl_laws: "amounts_laws decimal_dbl"
  unfolding amounts_laws_def fixed_ok_def Let_def decimal_dbl_def by code_simp

section \<open>Strings and names\<close>

lemma draw_chars_returns:
  assumes R: "rand_laws (env_lib E)" and le: "0 \<le> sint mn" "sint mn \<le> sint mx" "sint mx < 2147483647" "sint mx \<le> int n"
  shows "gen_returns (draw_chars E n mn mx) (\<lambda>s. length s = n \<and> (sint mx < int n \<longrightarrow> 0 \<in> set s))"
  unfolding draw_chars_def
proof (rule gbnd_returns [OF tpcc_generateString_returns(1) [OF R le(1-3)]])
  fix str :: bytes assume "nat (sint mn) \<le> length str \<and> length str \<le> nat (sint mx)"
  then have len: "int (length str) \<le> sint mx" using le by auto
  then have "char_field n str = Inr (str @ replicate (n - length str) 0)"
    using le(4) by (intro char_field_eq) linarith
  then show "gen_returns (glift (char_field n str)) (\<lambda>s. length s = n \<and> (sint mx < int n \<longrightarrow> 0 \<in> set s))"
    by (rule glift_returns) (use len le(4) in auto)
qed

lemma syllable_returns: "0 \<le> i \<Longrightarrow> i < 10 \<Longrightarrow> \<exists>s. syllable i = Inr s \<and> length s \<le> 5"
proof -
  assume i: "0 \<le> i" "i < 10"
  have "\<forall>s \<in> set syllables. length s \<le> 5" by (simp add: syllables_def bytes_of_string_def)
  moreover have "syllables ! nat i \<in> set syllables" using i by (intro nth_mem) (simp add: syllables_def nat_less_iff)
  ultimately show ?thesis using i by (simp add: syllable_def)
qed

lemma generateLastName_returns:
  assumes "0 \<le> sint n" "sint n < 1000"
  obtains s where "generateLastName n = Inr s" "length s \<le> 15"
proof -
  let ?n = "sint n"
  have pos: "?n sdiv 100 = ?n div 100" "(?n sdiv 10) smod 10 = (?n div 10) mod 10" "?n smod 10 = ?n mod 10"
    using assms(1) by (simp_all add: signed_divide_int_def smod_int_alt_def sgn_if)
  have "0 \<le> i div 100 \<and> i div 100 < 10" if "0 \<le> i" "i < 1000" for i :: int using that by presburger
  then have d: "0 \<le> ?n div 100" "?n div 100 < 10" using assms by blast+
  obtain a where a: "syllable (?n div 100) = Inr a" "length a \<le> 5"
    using syllable_returns [OF d] by blast
  obtain b where b: "syllable ((?n div 10) mod 10) = Inr b" "length b \<le> 5"
    using syllable_returns [of "(?n div 10) mod 10"] by auto
  obtain c where c: "syllable (?n mod 10) = Inr c" "length c \<le> 5"
    using syllable_returns [of "?n mod 10"] by auto
  show thesis
    using that [of "a @ b @ c"] a b c by (simp add: generateLastName_def Let_def pos)
qed

lemma last_name_returns:
  assumes R: "rand_laws R" and C: "consts_ok C" and c: "1 \<le> sint c_id"
  shows "gen_returns (if c_id <s 1000 then glift (generateLastName (c_id - 1)) else generateRandomLastName R C 3000)
    (\<lambda>s. length s \<le> 15)"
proof (cases "c_id <s 1000")
  case True
  have lt: "sint c_id < 1000" using True by (simp add: word_sless_alt)
  have "c_id - 1 = word_of_int (sint c_id - 1)" by simp
  then have "sint (c_id - 1) = sint c_id - 1"
    using c lt by (simp add: signed_of_int signed_take_bit_int_eq_self del: of_int_diff)
  then have "0 \<le> sint (c_id - 1)" "sint (c_id - 1) < 1000" using c lt by simp_all
  then obtain s where "generateLastName (c_id - 1) = Inr s" "length s \<le> 15" by (rule generateLastName_returns)
  then show ?thesis using True by (auto intro: glift_returns)
next
  case False
  have mc: "(if (3000 :: 32 word) - 1 <s 999 then 3000 - 1 else 999) = (999 :: 32 word)" by simp
  have "gen_returns (generateRandomLastName R C 3000) (\<lambda>s. length s \<le> 15)"
    unfolding generateRandomLastName_def Let_def mc
  proof (rule gbnd_returns [OF generateNonuniformInteger_returns [OF R C]])
    fix n :: "32 word" assume n: "sint (0 :: 32 word) \<le> sint n \<and> sint n \<le> sint (999 :: 32 word)"
    then have "0 \<le> sint n" "sint n < 1000" by simp_all
    then obtain s where "generateLastName n = Inr s" "length s \<le> 15" by (rule generateLastName_returns)
    then show "gen_returns (glift (generateLastName n)) (\<lambda>s. length s \<le> 15)" by (auto intro: glift_returns)
  qed simp_all
  then show ?thesis using False by simp
qed

lemma field_returns: "length str \<le> n \<Longrightarrow> gen_returns (glift (char_field n str)) (\<lambda>s. length s = n)"
  by (rule glift_returns [OF char_field_eq]) simp_all

lemma generateAddress_returns:
  assumes R: "rand_laws R"
  shows "gen_returns (generateAddress R) (\<lambda>(street_1, street_2, city, state, zip).
    length street_1 = 32 \<and> length street_2 = 32 \<and> length city = 32 \<and> length state = 2 \<and> length zip = 9)"
proof -
  have c: "gen_returns (tpcc_generateCString R 10 20) (\<lambda>s. length s \<le> 20)"
    "gen_returns (tpcc_generateCString R 2 2) (\<lambda>s. length s = 2)"
    "gen_returns (tpcc_generateNString R 4 4) (\<lambda>s. length s = 4)"
    by (rule gen_weaken [OF tpcc_generateString_returns(1) [OF R]], simp_all,
        rule gen_weaken [OF tpcc_generateString_returns(1) [OF R]], simp_all,
        rule gen_weaken [OF tpcc_generateString_returns(2) [OF R]], simp_all)
  have z: "length ZIP_SUFFIX = 5" by (simp add: ZIP_SUFFIX_def bytes_of_string_def)
  show ?thesis
    unfolding generateAddress_def
    by (rule gbnd_returns [OF c(1)], rule gbnd_returns [OF field_returns], simp,
        rule gbnd_returns [OF c(1)], rule gbnd_returns [OF field_returns], simp,
        rule gbnd_returns [OF c(1)], rule gbnd_returns [OF field_returns], simp,
        rule gbnd_returns [OF c(2)], rule gbnd_returns [OF field_returns], simp,
        rule gbnd_returns [OF c(3)], rule gbnd_returns [OF field_returns], simp add: z,
        rule gret_returns, simp)
qed

section \<open>Records\<close>

text \<open>What is assumed of the environment of the populator.\<close>

definition draws_ok :: "'g tpcc_env \<Rightarrow> tpcc_consts \<Rightarrow> bool" where
  "draws_ok E C \<longleftrightarrow> rand_fair (env_lib E) \<and> amounts_laws (env_dbl E) \<and> consts_ok C"

lemma draws_okD:
  assumes "draws_ok E C"
  shows "rand_laws (env_lib E)" "rand_fair (env_lib E)" "consts_ok C"
    "fixed_ok (env_dbl E) 2 (d_lit (env_dbl E) 100 2) (d_lit (env_dbl E) 10000 2)"
    "fixed_ok (env_dbl E) 4 (d_lit (env_dbl E) 0 0) (d_lit (env_dbl E) 2000 4)"
    "fixed_ok (env_dbl E) 4 (d_lit (env_dbl E) 0 4) (d_lit (env_dbl E) 5000 4)"
    "fixed_ok (env_dbl E) 2 (d_lit (env_dbl E) 1 2) (d_mul (env_dbl E) (d_lit (env_dbl E) 10000 2) (d_of_int (env_dbl E) 10))"
    "fixed_ok (env_dbl E) 2 (d_lit (env_dbl E) 10 1) (d_lit (env_dbl E) 50000 1)"
  using assms by (simp_all add: draws_ok_def rand_fair_def amounts_laws_def)

lemma generateItemRecord_returns:
  assumes ok: "draws_ok E C"
  shows "gen_returns (generateItemRecord E i) (\<lambda>r. ir_i_id r = i \<and> list_all (writable item_schema) (item_writes r))"
proof -
  note R = draws_okD(1) [OF ok]
  show ?thesis
    unfolding generateItemRecord_def Let_def
    by (rule gbnd_returns [OF tpcc_generateInteger_returns [OF R]], simp, simp,
        rule gbnd_returns [OF draw_chars_returns [OF R]], simp, simp, simp, simp,
        rule gbnd_returns [OF generateFixedPoint_returns [OF R draws_okD(4) [OF ok]]],
        rule gbnd_returns [OF draw_chars_returns [OF R]], simp, simp, simp, simp,
        rule gret_returns, simp add: item_writes_def)
qed

lemma tax_returns:
  assumes ok: "draws_ok E C"
  shows "gen_returns (generateTax (env_lib E) (env_dbl E)) (\<lambda>_. True)"
  unfolding generateTax_def by (rule generateFixedPoint_returns [OF draws_okD(1,5) [OF ok]])

lemma generateWarehouseRecord_returns:
  assumes ok: "draws_ok E C"
  shows "gen_returns (generateWarehouseRecord E w)
    (\<lambda>r. wr_w_id r = w \<and> list_all (writable warehouse_schema) (warehouse_writes r))"
proof -
  note R = draws_okD(1) [OF ok]
  show ?thesis
    unfolding generateWarehouseRecord_def Let_def
    by (rule gbnd_returns [OF draw_chars_returns [OF R]], simp, simp, simp, simp,
        rule gbnd_returns [OF generateAddress_returns [OF R]], clarify,
        rule gbnd_returns [OF tax_returns [OF ok]],
        rule gret_returns, simp add: warehouse_writes_def)
qed

lemma generateDistrictRecord_returns:
  assumes ok: "draws_ok E C"
  shows "gen_returns (generateDistrictRecord E w d nxt) (\<lambda>r. dr_d_id r = d \<and> dr_d_w_id r = w \<and> dr_d_next_o_id r = nxt \<and>
    list_all (writable district_schema) (district_writes r))"
proof -
  note R = draws_okD(1) [OF ok]
  show ?thesis
    unfolding generateDistrictRecord_def Let_def
    by (rule gbnd_returns [OF draw_chars_returns [OF R]], simp, simp, simp, simp,
        rule gbnd_returns [OF generateAddress_returns [OF R]], clarify,
        rule gbnd_returns [OF tax_returns [OF ok]],
        rule gret_returns, simp add: district_writes_def)
qed

lemma time_returns: "gen_returns (generateCurrentTime R) (\<lambda>_. True)"
  by (simp add: gen_returns_def generateCurrentTime_def)

lemma generateCustomerRecord_returns:
  assumes ok: "draws_ok E C" and c: "1 \<le> sint c"
  shows "gen_returns (generateCustomerRecord E C w d c bad)
    (\<lambda>r. cur_c_id r = c \<and> cur_c_d_id r = d \<and> cur_c_w_id r = w \<and> list_all (writable customer_schema) (customer_writes r))"
proof -
  note R = draws_okD(1) [OF ok]
  have phone: "gen_returns (tpcc_generateNString (env_lib E) 16 16) (\<lambda>s. length s = 16)"
    by (rule gen_weaken [OF tpcc_generateString_returns(2) [OF R]]) simp_all
  have two: "length (bytes_of_string ''OE'') = 2" "length (bytes_of_string (if bad then ''BC'' else ''GC'')) = 2"
    by (simp_all add: bytes_of_string_def)
  show ?thesis
    unfolding generateCustomerRecord_def Let_def
    by (rule gbnd_returns [OF draw_chars_returns [OF R]], simp, simp, simp, simp,
        rule gbnd_returns [OF field_returns], simp add: two,
        rule gbnd_returns [OF last_name_returns [OF R draws_okD(3) [OF ok] c]],
        rule gbnd_returns [OF field_returns], simp,
        rule gbnd_returns [OF generateAddress_returns [OF R]], clarify,
        rule gbnd_returns [OF phone], rule gbnd_returns [OF field_returns], simp,
        rule gbnd_returns [OF time_returns], rule gbnd_returns [OF field_returns], simp add: two,
        rule gbnd_returns [OF generateFixedPoint_returns [OF R draws_okD(6) [OF ok]]],
        rule gbnd_returns [OF draw_chars_returns [OF R]], simp, simp, simp, simp,
        rule gret_returns, simp add: customer_writes_def)
qed

lemma generateStockRecord_returns:
  assumes ok: "draws_ok E C"
  shows "gen_returns (generateStockRecord E w i) (\<lambda>r. skr_s_i_id r = i \<and> skr_s_w_id r = w \<and>
    10 \<le> sint (skr_s_quantity r) \<and> sint (skr_s_quantity r) \<le> 100 \<and>
    length (skr_s_dists r) = 10 \<and> (\<forall>s \<in> set (skr_s_dists r). length s = 32 \<and> 0 \<in> set s) \<and> length (skr_s_data r) = 64)"
proof -
  note R = draws_okD(1) [OF ok]
  have "gen_returns (draw_chars E 32 24 24) (\<lambda>s. length s = 32 \<and> 0 \<in> set s)"
    by (rule gen_weaken [OF draw_chars_returns [OF R]]) simp_all
  note dists = gen_list_returns [OF this, of "unat DISTRICTS_PER_WAREHOUSE"]
  show ?thesis
    unfolding generateStockRecord_def
    by (rule gbnd_returns [OF tpcc_generateInteger_returns [OF R]], simp, simp,
        rule gbnd_returns [OF dists],
        rule gbnd_returns [OF draw_chars_returns [OF R]], simp, simp, simp, simp,
        rule gret_returns, simp add: DISTRICTS_PER_WAREHOUSE_def list_all_iff)
qed

lemma stock_writable:
  assumes "length (skr_s_dists r) = 10" "\<forall>s \<in> set (skr_s_dists r). length s = 32" "length (skr_s_data r) = 64"
  shows "list_all (writable stock_schema) (stock_writes r)"
proof -
  have "writable stock_schema (i, Sized (skr_s_dists r ! (i - 3)) 32)" if "3 \<le> i" "i < 13" for i
    using assms(1,2) that by (simp add: stock_dist_cols)
  then have "list_all (writable stock_schema) (map (\<lambda>i. (i, Sized (skr_s_dists r ! (i - 3)) 32)) [3..<13])"
    by (simp add: list_all_iff del: upt_rec_numeral)
  then show ?thesis using assms(3) by (simp add: stock_writes_def del: upt_rec_numeral)
qed

lemma generateOrderRecord_returns:
  assumes ok: "draws_ok E C"
  shows "gen_returns (generateOrderRecord E w d o_id c n new) (\<lambda>r. or_o_id r = o_id \<and> or_o_c_id r = c \<and> or_o_d_id r = d \<and>
    or_o_w_id r = w)"
proof -
  note R = draws_okD(1) [OF ok]
  have "gen_returns (if new then gret NULL_CARRIER_ID else tpcc_generateInteger (env_lib E) 1 10) (\<lambda>_. True)"
    by (cases new) (auto intro!: gret_returns gen_weaken [OF tpcc_generateInteger_returns [OF R]])
  then show ?thesis
    unfolding generateOrderRecord_def
    by (rule gbnd_returns [OF time_returns gbnd_returns]) (rule gret_returns, simp)
qed

lemma generateOrderLineRecord_returns:
  assumes ok: "draws_ok E C" and n: "1 \<le> sint n" "sint n < 2147483647"
  shows "gen_returns (generateOrderLineRecord E w d o_id num n new) (\<lambda>r. olr_ol_o_id r = o_id \<and> olr_ol_d_id r = d \<and>
    olr_ol_w_id r = w \<and> olr_ol_number r = num \<and> list_all (writable order_line_schema) (order_line_record_writes r))"
proof -
  note R = draws_okD(1) [OF ok]
  have dates: "gen_returns (if new
      then gbnd (generateFixedPoint (env_lib E) (env_dbl E) 2 (d_lit (env_dbl E) 1 2)
          (d_mul (env_dbl E) (d_lit (env_dbl E) 10000 2) (d_of_int (env_dbl E) 10))) (\<lambda>amount. gret (- 1, amount))
      else gbnd (generateCurrentTime (env_lib E)) (\<lambda>delivery_d. gret (delivery_d, d_lit (env_dbl E) 0 1))) (\<lambda>_. True)"
    by (cases new) (auto intro!: gret_returns gbnd_returns [OF time_returns]
        gbnd_returns [OF generateFixedPoint_returns [OF R draws_okD(7) [OF ok]]])
  show ?thesis
    unfolding generateOrderLineRecord_def Let_def
    by (rule gbnd_returns [OF tpcc_generateInteger_returns [OF R]], use n in simp, use n in simp,
        rule gbnd_returns [OF dates], clarify,
        rule gbnd_returns [OF draw_chars_returns [OF R]], simp, simp, simp, simp,
        rule gret_returns, simp add: order_line_record_writes_def)
qed

lemma generateHistoryRecord_returns:
  assumes ok: "draws_ok E C"
  shows "gen_returns (generateHistoryRecord E w d c) (\<lambda>r. list_all (writable history_schema) (history_record_writes r))"
proof -
  note R = draws_okD(1) [OF ok]
  show ?thesis
    unfolding generateHistoryRecord_def
    by (rule gbnd_returns [OF time_returns], rule gbnd_returns [OF draw_chars_returns [OF R]], simp, simp, simp, simp,
        rule gret_returns, simp add: history_record_writes_def)
qed

end
