(* ===== verification/TpccRefinement.thy ===== *)
theory TpccRefinement
  imports TpccTables
begin

text \<open>
  What the sub-transactions of benchmark/tpcc/TpccBaseProcessor.cc do to the database seen as maps: each is
  an update of one row, an insert or a delete, under the conditions on the database it relies on.
\<close>

section \<open>Selects by key\<close>

lemma tpcc_predicates [simp]:
  "predicates_valid item_schema [(0, to_bytes (a :: 32 word))]"
  "predicates_valid warehouse_schema [(0, to_bytes a)]"
  "predicates_valid district_schema [(0, to_bytes a), (Suc 0, to_bytes (b :: 32 word))]"
  "predicates_valid stock_schema [(0, to_bytes a), (Suc 0, to_bytes b)]"
  "predicates_valid district_new_order_schema [(0, to_bytes a), (Suc 0, to_bytes b)]"
  "predicates_valid customer_schema [(0, to_bytes a), (Suc 0, to_bytes b), (2, to_bytes (c :: 32 word))]"
  "predicates_valid new_order_schema [(0, to_bytes a), (Suc 0, to_bytes b), (2, to_bytes c)]"
  "predicates_valid order_schema [(0, to_bytes a), (2, to_bytes b), (3, to_bytes c)]"
  "predicates_valid order_line_schema [(0, to_bytes a), (Suc 0, to_bytes b), (2, to_bytes c)]"
  by simp_all

lemma tpcc_predicate_keys [simp]:
  "predicate_key item_schema [(0, to_bytes (a :: 32 word))] = wkey [a]"
  "predicate_key warehouse_schema [(0, to_bytes a)] = wkey [a]"
  "predicate_key district_schema [(0, to_bytes a), (Suc 0, to_bytes (b :: 32 word))] = wkey [a, b]"
  "predicate_key stock_schema [(0, to_bytes a), (Suc 0, to_bytes b)] = wkey [a, b]"
  "predicate_key district_new_order_schema [(0, to_bytes a), (Suc 0, to_bytes b)] = wkey [a, b]"
  "predicate_key customer_schema [(0, to_bytes a), (Suc 0, to_bytes b), (2, to_bytes (c :: 32 word))] = wkey [a, b, c]"
  "predicate_key new_order_schema [(0, to_bytes a), (Suc 0, to_bytes b), (2, to_bytes c)] = wkey [a, b, c]"
  "predicate_key order_schema [(0, to_bytes a), (2, to_bytes b), (3, to_bytes c)] = wkey [a, b, c]"
  by (simp_all add: predicate_key_def wkey_def)

lemma tpcc_free_columns [simp]:
  "free_column warehouse_schema [] 8" "free_column district_schema [] 9" "free_column district_schema [] 10"
  "free_column customer_schema [] 16" "free_column customer_schema [] 17" "free_column customer_schema [] 18"
  "free_column stock_schema [] 2" "free_column stock_schema [] 13" "free_column stock_schema [] 14"
  "free_column stock_schema [] 15" "free_column order_schema [] 5"
  "free_column district_new_order_schema [] 2" "free_column order_line_schema [order_line_index] 6"
  by (simp_all add: free_column_def index_columns_order_line)

section \<open>Changing one row\<close>

definition a_modify :: "nat \<Rightarrow> bytes \<Rightarrow> (bytes \<Rightarrow> bytes) \<Rightarrow> database \<Rightarrow> database" where
  "a_modify i k f db = (case db_tab db i k of None \<Rightarrow> db | Some row \<Rightarrow> a_put i k (f row) db)"

lemma a_modify_simps [simp]:
  "db_tab (a_modify i k f db) j =
     (if j = i then (db_tab db i)(k := map_option f (db_tab db i k)) else db_tab db j)"
  "db_rows (a_modify i k f db) = db_rows db"
  by (auto simp: a_modify_def fun_eq_iff split: option.split)

lemma a_modify_dom [simp]: "db_tab (a_modify i k f db) j k' = None \<longleftrightarrow> db_tab db j k' = None"
  by auto

text \<open>\<open>does T R f sm g\<close>: \<open>f\<close> returns from \<open>sm\<close>, and changes the maps as \<open>g\<close> says.\<close>

definition does ::
  "('q, 'h, 'm) tbb \<Rightarrow> registry \<Rightarrow> ('q, 'h, 'm) storage_manager result \<Rightarrow> ('q, 'h, 'm) storage_manager \<Rightarrow>
   (database \<Rightarrow> database) \<Rightarrow> bool" where
  "does T R m sm g \<longleftrightarrow> (\<exists>sm'. m = Inr sm' \<and> becomes T R sm sm' g)"

lemma doesI: "m = Inr sm' \<Longrightarrow> becomes T R sm sm' g \<Longrightarrow> does T R m sm g"
  by (auto simp: does_def)

lemma does_after:
  "does T R m sm g \<Longrightarrow> becomes T R sm0 sm f \<Longrightarrow> \<exists>sm'. m = Inr sm' \<and> becomes T R sm0 sm' (g \<circ> f)"
  unfolding does_def by (blast intro: becomes_trans)

lemma does_modify:
  assumes "m = Inr sm'" "becomes T R sm sm' (a_put i k row')" "table_map T sm i k = Some row" "row' = f row"
  shows "does T R m sm (a_modify i k f)"
  using assms by (simp add: does_def becomes_def a_modify_def)

lemma does_bnd:
  assumes "does T R m sm g" "\<And>sm'. becomes T R sm sm' g \<Longrightarrow> does T R (f sm') sm' h"
  shows "does T R (bnd m f) sm (h \<circ> g)"
proof -
  obtain sm1 where sm1: "m = Inr sm1" "becomes T R sm sm1 g" using assms(1) by (auto simp: does_def)
  then obtain sm2 where "f sm1 = Inr sm2" "becomes T R sm1 sm2 h" using assms(2) by (auto simp: does_def)
  then show ?thesis using sm1 becomes_trans [OF sm1(2)] by (auto simp: does_def)
qed

lemma tpcc_inv_becomes:
  "tpcc_inv T E sm \<Longrightarrow> becomes T (tpcc_registry (env_cfg E)) sm sm' f \<Longrightarrow> tpcc_inv T E sm'"
  by (simp add: tpcc_inv_def becomes_def)

lemma becomes_tab: "becomes T R sm sm' f \<Longrightarrow> table_map T sm' = db_tab (f (db_abs T sm))"
  unfolding becomes_def by (metis db_abs_simps(1))

section \<open>Payment\<close>

definition warehouse_paid :: "64 word dbl \<Rightarrow> 64 word \<Rightarrow> bytes \<Rightarrow> bytes" where
  "warehouse_paid D amount row =
     row_with warehouse_schema 8 (to_bytes (d_add D (fld64 warehouse_schema 8 row) amount)) row"

definition district_paid :: "64 word dbl \<Rightarrow> 64 word \<Rightarrow> bytes \<Rightarrow> bytes" where
  "district_paid D amount row =
     row_with district_schema 9 (to_bytes (d_add D (fld64 district_schema 9 row) amount)) row"

definition customer_paid :: "64 word dbl \<Rightarrow> 64 word \<Rightarrow> bytes \<Rightarrow> bytes" where
  "customer_paid D amount row =
     row_with_all customer_schema
       [(16, to_bytes (d_sub D (fld64 customer_schema 16 row) amount)),
        (17, to_bytes (d_add D (fld64 customer_schema 17 row) amount)),
        (18, to_bytes (fld32 customer_schema 18 row + 1))] row"

definition history_writes :: "payment_param \<Rightarrow> bytes \<Rightarrow> (nat \<times> col_write) list" where
  "history_writes p h_data =
     [(0, Fixed (to_bytes (pay_c_id p))), (1, Fixed (to_bytes (pay_c_d_id p))),
      (2, Fixed (to_bytes (pay_c_w_id p))), (3, Fixed (to_bytes (pay_d_id p))),
      (4, Fixed (to_bytes (pay_w_id p))), (5, Fixed (to_bytes (pay_h_date p))),
      (6, Fixed (to_bytes (pay_h_amount p))), (7, Str h_data)]"

definition history_row :: "'g tpcc_env \<Rightarrow> payment_param \<Rightarrow> bytes \<Rightarrow> bytes" where
  "history_row E p h_data = row_of history_schema (history_writes p h_data) (new_chars (env_cfg E) 68)"

lemma paymentSubTxn1_does:
  assumes inv: "tpcc_inv T E sm" and row: "table_map T sm WAREHOUSE_TABLE_ID (wkey [pay_w_id p]) = Some row"
  shows "does T (tpcc_registry (env_cfg E)) (paymentSubTxn1 T E p sm) sm
    (a_modify WAREHOUSE_TABLE_ID (wkey [pay_w_id p]) (warehouse_paid (env_dbl E) (pay_h_amount p)))"
proof -
  let ?R = "tpcc_registry (env_cfg E)" and ?i = WAREHOUSE_TABLE_ID and ?k = "wkey [pay_w_id p]"
  note i = tpcc_invD(1) [OF inv]
  obtain a where a: "sm_selectRecord T ?i [(0, to_bytes (pay_w_id p))] sm = Inr (Some a)" "points_to sm ?i a ?k row"
    using select_found [OF i tpcc_registry_simps(2), of "[(0, to_bytes (pay_w_id p))]" row] row by auto
  have one: "sm_selectRecord_one T ?i \<lparr>cp_column_id = 0, cp_value = to_bytes (pay_w_id p)\<rparr> sm = Inr (Some a)"
    using select_one_keyed [OF i tpcc_registry_simps(2), of 0 "to_bytes (pay_w_id p)"] a(1) by simp
  have read: "sm_readColumn sm ?i (Some a) 8 = Inr (col_data warehouse_schema 8 row)"
    using read_column [OF i tpcc_registry_simps(2) a(2)] by simp
  obtain sm' where sm': "sm_updateRecord_one ?i (Some a) \<lparr>cp_column_id = 8,
        cp_value = to_bytes (d_add (env_dbl E) (fld64 warehouse_schema 8 row) (pay_h_amount p))\<rparr> sm = Inr sm'"
      "becomes T ?R sm sm' (a_put ?i ?k (warehouse_paid (env_dbl E) (pay_h_amount p) row))"
    using update_one_keyed [OF i tpcc_registry_simps(2) a(2), of 8
        "to_bytes (d_add (env_dbl E) (fld64 warehouse_schema 8 row) (pay_h_amount p))"]
    by (auto simp: warehouse_paid_def)
  show ?thesis
    using one read sm'(1) by (intro does_modify [OF _ sm'(2) row]) (simp_all add: paymentSubTxn1_def Let_def fld64_def)
qed

lemma paymentSubTxn2_does:
  assumes inv: "tpcc_inv T E sm"
    and row: "table_map T sm DISTRICT_TABLE_ID (wkey [pay_d_id p, pay_w_id p]) = Some row"
  shows "does T (tpcc_registry (env_cfg E)) (paymentSubTxn2 T E p sm) sm
    (a_modify DISTRICT_TABLE_ID (wkey [pay_d_id p, pay_w_id p]) (district_paid (env_dbl E) (pay_h_amount p)))"
proof -
  let ?R = "tpcc_registry (env_cfg E)" and ?i = DISTRICT_TABLE_ID and ?k = "wkey [pay_d_id p, pay_w_id p]"
  note i = tpcc_invD(1) [OF inv]
  obtain a where a: "sm_selectRecord T ?i [(0, to_bytes (pay_d_id p)), (Suc 0, to_bytes (pay_w_id p))] sm = Inr (Some a)"
      "points_to sm ?i a ?k row"
    using select_found [OF i tpcc_registry_simps(3), of "[(0, to_bytes (pay_d_id p)), (Suc 0, to_bytes (pay_w_id p))]" row]
      row by auto
  have read: "sm_readColumn sm ?i (Some a) 9 = Inr (col_data district_schema 9 row)"
    using read_column [OF i tpcc_registry_simps(3) a(2)] by simp
  obtain sm' where sm': "sm_updateRecord_one ?i (Some a) \<lparr>cp_column_id = 9,
        cp_value = to_bytes (d_add (env_dbl E) (fld64 district_schema 9 row) (pay_h_amount p))\<rparr> sm = Inr sm'"
      "becomes T ?R sm sm' (a_put ?i ?k (district_paid (env_dbl E) (pay_h_amount p) row))"
    using update_one_keyed [OF i tpcc_registry_simps(3) a(2), of 9
        "to_bytes (d_add (env_dbl E) (fld64 district_schema 9 row) (pay_h_amount p))"]
    by (auto simp: district_paid_def)
  show ?thesis
    using a(1) read sm'(1) by (intro does_modify [OF _ sm'(2) row]) (simp_all add: paymentSubTxn2_def Let_def fld64_def)
qed

lemma paymentSubTxn4_does:
  assumes inv: "tpcc_inv T E sm"
    and row: "table_map T sm CUSTOMER_TABLE_ID (wkey [pay_c_id p, pay_d_id p, pay_w_id p]) = Some row"
  shows "does T (tpcc_registry (env_cfg E)) (paymentSubTxn4 T E p sm) sm
    (a_modify CUSTOMER_TABLE_ID (wkey [pay_c_id p, pay_d_id p, pay_w_id p]) (customer_paid (env_dbl E) (pay_h_amount p)))"
proof -
  let ?R = "tpcc_registry (env_cfg E)" and ?i = CUSTOMER_TABLE_ID and ?k = "wkey [pay_c_id p, pay_d_id p, pay_w_id p]"
  let ?ps = "[(0, to_bytes (pay_c_id p)), (Suc 0, to_bytes (pay_d_id p)), (2, to_bytes (pay_w_id p))]"
  let ?us = "[(16, to_bytes (d_sub (env_dbl E) (fld64 customer_schema 16 row) (pay_h_amount p))),
      (17, to_bytes (d_add (env_dbl E) (fld64 customer_schema 17 row) (pay_h_amount p))),
      (18, to_bytes (fld32 customer_schema 18 row + 1))]"
  note i = tpcc_invD(1) [OF inv]
  obtain a where a: "sm_selectRecord T ?i ?ps sm = Inr (Some a)" "points_to sm ?i a ?k row"
    using select_found [OF i tpcc_registry_simps(4), of ?ps row] row by auto
  have read: "sm_readColumn sm ?i (Some a) 16 = Inr (col_data customer_schema 16 row)"
      "sm_readColumn sm ?i (Some a) 17 = Inr (col_data customer_schema 17 row)"
      "sm_readColumn sm ?i (Some a) 18 = Inr (col_data customer_schema 18 row)"
    using read_column [OF i tpcc_registry_simps(4) a(2)] by simp_all
  obtain sm' where sm': "sm_updateRecord ?i (Some a) ?us sm = Inr sm'"
      "becomes T ?R sm sm' (a_put ?i ?k (customer_paid (env_dbl E) (pay_h_amount p) row))"
    using update_keyed [OF i tpcc_registry_simps(4) a(2), of ?us] by (auto simp: customer_paid_def)
  show ?thesis
    using a(1) read sm'(1) by (intro does_modify [OF _ sm'(2) row]) (simp_all add: paymentSubTxn4_def Let_def fld64_def fld32_def numeral_2_eq_2)
qed

lemma history_writable:
  "length h_data \<le> 32 \<Longrightarrow> list_all (writable history_schema) (history_writes p h_data)"
  by (simp add: history_writes_def)

lemma paymentSubTxn3_does:
  assumes inv: "tpcc_inv T E sm" and R: "rand_laws (env_lib E)"
  shows "gen_returns (paymentSubTxn3 T E p sm) (\<lambda>sm'. \<exists>h_data. 12 \<le> length h_data \<and> length h_data \<le> 24 \<and>
    becomes T (tpcc_registry (env_cfg E)) sm sm' (a_append HISTORY_TABLE_ID (history_row E p h_data)))"
  unfolding paymentSubTxn3_def
proof (rule gbnd_returns [OF tpcc_generateString_returns(1) [OF R]])
  fix h_data :: bytes
  assume "nat (sint (12 :: 32 word)) \<le> length h_data \<and> length h_data \<le> nat (sint (24 :: 32 word))"
  then have len: "12 \<le> length h_data" "length h_data \<le> 24" by simp_all
  note i = tpcc_invD(1) [OF inv]
  have w: "list_all (writable history_schema) (history_writes p h_data)"
    using len by (intro history_writable) simp
  note b = build_record_eq [OF tpcc_schema_inv(9) w, of E]
  obtain sm' where sm': "sm_insertRecord T HISTORY_TABLE_ID
        \<lparr>lr_schema = history_schema, lr_data = Some (history_row E p h_data)\<rparr> sm = Inr sm'"
      "becomes T (tpcc_registry (env_cfg E)) sm sm' (a_append HISTORY_TABLE_ID (history_row E p h_data))"
    using insert_keyless [OF i tpcc_registry_simps(5), of "\<lparr>lr_schema = history_schema, lr_data = Some (history_row E p h_data)\<rparr>"]
      b(2) by (auto simp: history_row_def)
  have eq: "bnd getHistorySchema (\<lambda>s.
       bnd (build_record E s
         [(0, Fixed (to_bytes (pay_c_id p))), (1, Fixed (to_bytes (pay_c_d_id p))),
          (2, Fixed (to_bytes (pay_c_w_id p))), (3, Fixed (to_bytes (pay_d_id p))),
          (4, Fixed (to_bytes (pay_w_id p))), (5, Fixed (to_bytes (pay_h_date p))),
          (6, Fixed (to_bytes (pay_h_amount p))), (7, Str h_data)]) (\<lambda>rec.
       sm_insertRecord T HISTORY_TABLE_ID rec sm)) = Inr sm'"
    unfolding history_writes_def [symmetric] using b(1) sm'(1) by (simp add: tpcc_schemas history_row_def)
  show "gen_returns (glift (bnd getHistorySchema (\<lambda>s.
       bnd (build_record E s
         [(0, Fixed (to_bytes (pay_c_id p))), (1, Fixed (to_bytes (pay_c_d_id p))),
          (2, Fixed (to_bytes (pay_c_w_id p))), (3, Fixed (to_bytes (pay_d_id p))),
          (4, Fixed (to_bytes (pay_w_id p))), (5, Fixed (to_bytes (pay_h_date p))),
          (6, Fixed (to_bytes (pay_h_amount p))), (7, Str h_data)]) (\<lambda>rec.
       sm_insertRecord T HISTORY_TABLE_ID rec sm))))
    (\<lambda>sm'. \<exists>h_data. 12 \<le> length h_data \<and> length h_data \<le> 24 \<and>
      becomes T (tpcc_registry (env_cfg E)) sm sm' (a_append HISTORY_TABLE_ID (history_row E p h_data)))"
    by (rule glift_returns [OF eq]) (use len sm'(2) in blast)
qed simp_all

section \<open>New order: the district and the order\<close>

text \<open>The row of the district gives the number of the order and keeps the next one.\<close>

definition next_o_id :: "bytes \<Rightarrow> 32 word" where
  "next_o_id row = fld32 district_schema 10 row"

definition district_advanced :: "bytes \<Rightarrow> bytes" where
  "district_advanced row = row_with district_schema 10 (to_bytes (next_o_id row + 1)) row"

definition all_local :: "new_order_param \<Rightarrow> bool" where
  "all_local p \<longleftrightarrow> (\<forall>w \<in> set (nop_i_w_ids p). w = nop_w_id p)"

definition order_writes :: "'g tpcc_env \<Rightarrow> new_order_param \<Rightarrow> 32 word \<Rightarrow> (nat \<times> col_write) list" where
  "order_writes E p o_id =
     [(0, Fixed (to_bytes o_id)), (1, Fixed (to_bytes (nop_c_id p))), (2, Fixed (to_bytes (nop_d_id p))),
      (3, Fixed (to_bytes (nop_w_id p))), (4, Fixed (to_bytes (nop_o_entry_d p))),
      (5, Fixed (to_bytes NULL_CARRIER_ID)), (6, Fixed (to_bytes (word_of_nat (length (nop_i_ids p)) :: 32 word))),
      (7, Fixed ((if all_local p then 1 else 0) # env_stack E))]"

definition order_row :: "'g tpcc_env \<Rightarrow> new_order_param \<Rightarrow> 32 word \<Rightarrow> bytes" where
  "order_row E p o_id = row_of order_schema (order_writes E p o_id) (new_chars (env_cfg E) 36)"

definition new_order_writes :: "new_order_param \<Rightarrow> 32 word \<Rightarrow> (nat \<times> col_write) list" where
  "new_order_writes p o_id =
     [(0, Fixed (to_bytes o_id)), (1, Fixed (to_bytes (nop_d_id p))), (2, Fixed (to_bytes (nop_w_id p)))]"

definition new_order_row :: "'g tpcc_env \<Rightarrow> new_order_param \<Rightarrow> 32 word \<Rightarrow> bytes" where
  "new_order_row E p o_id = row_of new_order_schema (new_order_writes p o_id) (new_chars (env_cfg E) 12)"

abbreviation district_key :: "new_order_param \<Rightarrow> bytes" where
  "district_key p \<equiv> wkey [nop_d_id p, nop_w_id p]"

abbreviation order_key :: "new_order_param \<Rightarrow> 32 word \<Rightarrow> bytes" where
  "order_key p o_id \<equiv> wkey [o_id, nop_d_id p, nop_w_id p]"

lemma neworderSubTxn1_does:
  assumes inv: "tpcc_inv T E sm" and row: "table_map T sm DISTRICT_TABLE_ID (district_key p) = Some row"
  obtains sm' where "neworderSubTxn1 T p sm = Inr (next_o_id row, sm')"
    "becomes T (tpcc_registry (env_cfg E)) sm sm' (a_modify DISTRICT_TABLE_ID (district_key p) district_advanced)"
proof -
  let ?R = "tpcc_registry (env_cfg E)" and ?i = DISTRICT_TABLE_ID
  let ?ps = "[(0, to_bytes (nop_d_id p)), (Suc 0, to_bytes (nop_w_id p))]"
  note i = tpcc_invD(1) [OF inv]
  obtain a where a: "sm_selectRecord T ?i ?ps sm = Inr (Some a)" "points_to sm ?i a (district_key p) row"
    using select_found [OF i tpcc_registry_simps(3), of ?ps row] row by auto
  have read: "sm_readColumn sm ?i (Some a) 10 = Inr (col_data district_schema 10 row)"
    using read_column [OF i tpcc_registry_simps(3) a(2)] by simp
  obtain sm' where sm': "sm_updateRecord_one ?i (Some a) \<lparr>cp_column_id = 10, cp_value = to_bytes (next_o_id row + 1)\<rparr> sm = Inr sm'"
      "becomes T ?R sm sm' (a_put ?i (district_key p) (district_advanced row))"
    using update_one_keyed [OF i tpcc_registry_simps(3) a(2), of 10 "to_bytes (next_o_id row + 1)"]
    by (auto simp: district_advanced_def)
  have "does T ?R (Inr sm') sm (a_modify ?i (district_key p) district_advanced)"
    by (intro does_modify [OF _ sm'(2) row]) simp_all
  then have "becomes T ?R sm sm' (a_modify ?i (district_key p) district_advanced)" by (simp add: does_def)
  moreover have "neworderSubTxn1 T p sm = Inr (next_o_id row, sm')"
    using a(1) read sm'(1) by (simp add: neworderSubTxn1_def Let_def next_o_id_def fld32_def)
  ultimately show thesis using that by blast
qed

text \<open>Inserting the row a transaction has built.\<close>

lemma insert_built:
  assumes inv: "tpcc_inv T E sm" and R: "tpcc_registry (env_cfg E) i = Some (s, True, smbs)"
    and w: "list_all (writable s) ws" and k: "primary_key_of s (row_of s ws (new_chars (env_cfg E) (getSchemaSize s))) = k"
    and new: "table_map T sm i k = None"
  shows "does T (tpcc_registry (env_cfg E)) (bnd (build_record E s ws) (\<lambda>rec. sm_insertRecord T i rec sm)) sm
    (a_put i k (row_of s ws (new_chars (env_cfg E) (getSchemaSize s))))"
proof -
  note i = tpcc_invD(1) [OF inv]
  note b = build_record_eq [OF db_inv_schema [OF i R] w, of E]
  let ?row = "row_of s ws (new_chars (env_cfg E) (getSchemaSize s))"
  obtain sm' where "sm_insertRecord T i \<lparr>lr_schema = s, lr_data = Some ?row\<rparr> sm = Inr sm'"
      "becomes T (tpcc_registry (env_cfg E)) sm sm' (a_put i (primary_key_of s ?row) ?row)"
    using insert_keyed [OF i R, of "\<lparr>lr_schema = s, lr_data = Some ?row\<rparr>" ?row] b(2) new k by auto
  then show ?thesis using b(1) k by (intro doesI [of _ sm']) simp_all
qed

lemma all_local_fold: "fold (\<lambda>w_id b. b \<and> no = w_id) ws c \<longleftrightarrow> c \<and> (\<forall>w \<in> set ws. w = no)"
  by (induction ws arbitrary: c) auto

lemma order_writable:
  "3 \<le> length (env_stack E) \<Longrightarrow> list_all (writable order_schema) (order_writes E p o_id)"
  "list_all (writable new_order_schema) (new_order_writes p o_id)"
  by (simp_all add: order_writes_def new_order_writes_def)

lemma order_cols:
  assumes "3 \<le> length (env_stack E)"
  shows "length (order_row E p o_id) = 36"
    "col_data order_schema 0 (order_row E p o_id) = to_bytes o_id"
    "col_data order_schema 1 (order_row E p o_id) = to_bytes (nop_c_id p)"
    "col_data order_schema 2 (order_row E p o_id) = to_bytes (nop_d_id p)"
    "col_data order_schema 3 (order_row E p o_id) = to_bytes (nop_w_id p)"
proof -
  note w = order_writable(1) [OF assms, of p o_id]
  have d: "distinct (map fst (order_writes E p o_id))" by (simp add: order_writes_def)
  note c = col_data_built [OF tpcc_schema_inv(6) w d, of "new_chars (env_cfg E) 36"]
  show "length (order_row E p o_id) = 36"
    using length_row_of [OF tpcc_schema_inv(6) w, of "new_chars (env_cfg E) 36"] by (simp add: order_row_def)
  show "col_data order_schema 0 (order_row E p o_id) = to_bytes o_id"
    "col_data order_schema 1 (order_row E p o_id) = to_bytes (nop_c_id p)"
    "col_data order_schema 2 (order_row E p o_id) = to_bytes (nop_d_id p)"
    "col_data order_schema 3 (order_row E p o_id) = to_bytes (nop_w_id p)"
    unfolding order_row_def by (rule c; simp add: order_writes_def)+
qed

lemma new_order_key:
  "primary_key_of new_order_schema (new_order_row E p o_id) = order_key p o_id"
proof -
  have d: "distinct (map fst (new_order_writes p o_id))" by (simp add: new_order_writes_def)
  note c = col_data_built [OF tpcc_schema_inv(7) order_writable(2) d, of "new_chars (env_cfg E) 12"]
  have "col_data new_order_schema 0 (new_order_row E p o_id) = to_bytes o_id"
    "col_data new_order_schema 1 (new_order_row E p o_id) = to_bytes (nop_d_id p)"
    "col_data new_order_schema 2 (new_order_row E p o_id) = to_bytes (nop_w_id p)"
    unfolding new_order_row_def by (rule c; simp add: new_order_writes_def)+
  then show ?thesis by (simp add: primary_key_of_def key_of_def wkey_def)
qed

lemma neworderSubTxn2_does:
  assumes inv: "tpcc_inv T E sm" and stack: "3 \<le> length (env_stack E)"
    and new: "table_map T sm (ORDER_TABLE_ID + district_part E (nop_w_id p) (nop_d_id p)) (order_key p o_id) = None"
  shows "does T (tpcc_registry (env_cfg E)) (neworderSubTxn2 T E p o_id sm) sm
    (a_put (ORDER_TABLE_ID + district_part E (nop_w_id p) (nop_d_id p)) (order_key p o_id) (order_row E p o_id))"
proof -
  have "primary_key_of order_schema (order_row E p o_id) = order_key p o_id"
    using order_cols [OF stack, of p o_id] by (simp add: primary_key_of_def key_of_def wkey_def)
  then have "does T (tpcc_registry (env_cfg E)) (bnd (build_record E order_schema (order_writes E p o_id))
      (\<lambda>rec. sm_insertRecord T (ORDER_TABLE_ID + district_part E (nop_w_id p) (nop_d_id p)) rec sm)) sm
    (a_put (ORDER_TABLE_ID + district_part E (nop_w_id p) (nop_d_id p)) (order_key p o_id) (order_row E p o_id))"
    using insert_built [OF inv tpcc_invD(3) [OF inv] order_writable(1) [OF stack], of p o_id "order_key p o_id"] new
    by (simp add: order_row_def)
  then show ?thesis
    using tpcc_invD(2) [OF inv]
    by (simp add: neworderSubTxn2_def Let_def tpcc_schemas tpcc_offset_eq all_local_fold all_local_def order_writes_def)
qed

lemma neworderSubTxn3_does:
  assumes inv: "tpcc_inv T E sm"
    and new: "table_map T sm (NEW_ORDER_TABLE_ID + district_part E (nop_w_id p) (nop_d_id p)) (order_key p o_id) = None"
  shows "does T (tpcc_registry (env_cfg E)) (neworderSubTxn3 T E p o_id sm) sm
    (a_put (NEW_ORDER_TABLE_ID + district_part E (nop_w_id p) (nop_d_id p)) (order_key p o_id) (new_order_row E p o_id))"
  using insert_built [OF inv tpcc_invD(4) [OF inv] order_writable(2), of p o_id "order_key p o_id"] new
    new_order_key [of E p o_id] tpcc_invD(2) [OF inv]
  by (simp add: neworderSubTxn3_def tpcc_schemas tpcc_offset_eq new_order_row_def new_order_writes_def)

section \<open>New order: the stock\<close>

definition stock_ordered :: "32 word \<Rightarrow> 32 word \<Rightarrow> 32 word \<Rightarrow> bytes \<Rightarrow> bytes" where
  "stock_ordered w_id supply_w_id quantity row =
     (let row1 = row_with_all stock_schema
            [(2, to_bytes (stock_quantity (fld32 stock_schema 2 row) quantity)),
             (13, to_bytes (fld32 stock_schema 13 row + quantity)),
             (14, to_bytes (fld32 stock_schema 14 row + 1))] row in
      if supply_w_id \<noteq> w_id
      then row_with stock_schema 15 (to_bytes (fld32 stock_schema 15 row1 + 1)) row1 else row1)"

lemma stock_ordered_cols:
  assumes "length row = 408"
  shows "length (stock_ordered w v q row) = 408"
    "fld32 stock_schema 2 (stock_ordered w v q row) = stock_quantity (fld32 stock_schema 2 row) q"
    "fld32 stock_schema 13 (stock_ordered w v q row) = fld32 stock_schema 13 row + q"
    "fld32 stock_schema 14 (stock_ordered w v q row) = fld32 stock_schema 14 row + 1"
    "fld32 stock_schema 15 (stock_ordered w v q row) = fld32 stock_schema 15 row + (if v \<noteq> w then 1 else 0)"
    "j < 17 \<Longrightarrow> j \<notin> {2, 13, 14, 15} \<Longrightarrow> col_data stock_schema j (stock_ordered w v q row) = col_data stock_schema j row"
  using assms tpcc_schema_inv(5)
  by (auto simp: stock_ordered_def Let_def fld32_def length_row_with col_data_row_with)

text \<open>The column with the information of the district, and what is read from it.\<close>

definition dist_column :: "new_order_param \<Rightarrow> nat" where
  "dist_column p = unat (scast (nop_d_id p + 2) :: 64 word)"

definition dist_info :: "new_order_param \<Rightarrow> bytes \<Rightarrow> bytes" where
  "dist_info p row = takeWhile (\<lambda>b. b \<noteq> 0) (col_data stock_schema (dist_column p) row)"

abbreviation stock_key :: "new_order_param \<Rightarrow> nat \<Rightarrow> bytes" where
  "stock_key p i \<equiv> wkey [nop_i_ids p ! i, nop_i_w_ids p ! i]"

text \<open>What a line of an order needs: the stock record of the item, with a terminated district string.\<close>

definition stock_ready :: "new_order_param \<Rightarrow> nat \<Rightarrow> (bytes \<Rightarrow> bytes option) \<Rightarrow> bool" where
  "stock_ready p i stock \<longleftrightarrow>
     (case stock (stock_key p i) of
        None \<Rightarrow> False
      | Some row \<Rightarrow> 0 \<in> set (col_data stock_schema (dist_column p) row))"

definition lists_agree :: "new_order_param \<Rightarrow> bool" where
  "lists_agree p \<longleftrightarrow>
     length (nop_i_w_ids p) = length (nop_i_ids p) \<and> length (nop_i_qtys p) = length (nop_i_ids p) \<and>
     3 \<le> dist_column p \<and> dist_column p < 13"

definition a_stock :: "new_order_param \<Rightarrow> nat \<Rightarrow> database \<Rightarrow> database" where
  "a_stock p i =
     a_modify STOCK_TABLE_ID (stock_key p i) (stock_ordered (nop_w_id p) (nop_i_w_ids p ! i) (nop_i_qtys p ! i))"

lemma neworderSubTxn4Single_does:
  assumes inv: "tpcc_inv T E sm" and p: "lists_agree p" "i < length (nop_i_ids p)"
    and ready: "stock_ready p i (table_map T sm STOCK_TABLE_ID)"
  obtains sm' row where "neworderSubTxn4Single T p i sm = Inr (dist_info p row, sm')"
    "table_map T sm STOCK_TABLE_ID (stock_key p i) = Some row"
    "becomes T (tpcc_registry (env_cfg E)) sm sm' (a_stock p i)"
proof -
  let ?R = "tpcc_registry (env_cfg E)" and ?t = STOCK_TABLE_ID and ?k = "stock_key p i"
  let ?w = "nop_i_w_ids p ! i" and ?q = "nop_i_qtys p ! i" and ?dc = "dist_column p"
  let ?ps = "[(0, to_bytes (nop_i_ids p ! i)), (Suc 0, to_bytes ?w)]"
  note inv' = tpcc_invD(1) [OF inv]
  obtain row where row: "table_map T sm ?t ?k = Some row" "0 \<in> set (col_data stock_schema ?dc row)"
    using ready by (auto simp: stock_ready_def split: option.splits)
  have len: "length row = 408" using map_row_length [OF inv' tpcc_registry_simps(6) row(1)] by simp
  let ?us = "[(2, to_bytes (stock_quantity (fld32 stock_schema 2 row) ?q)),
      (13, to_bytes (fld32 stock_schema 13 row + ?q)), (14, to_bytes (fld32 stock_schema 14 row + 1))]"
  let ?row1 = "row_with_all stock_schema ?us row"
  obtain a where a: "sm_selectRecord T ?t ?ps sm = Inr (Some a)" "points_to sm ?t a ?k row"
    using select_found [OF inv' tpcc_registry_simps(6), of ?ps row] row(1) by auto
  have read: "sm_readColumn sm ?t (Some a) 2 = Inr (col_data stock_schema 2 row)"
      "sm_readColumn sm ?t (Some a) 13 = Inr (col_data stock_schema 13 row)"
      "sm_readColumn sm ?t (Some a) 14 = Inr (col_data stock_schema 14 row)"
    using read_column [OF inv' tpcc_registry_simps(6) a(2)] by simp_all
  obtain sm1 where sm1: "sm_updateRecord ?t (Some a) ?us sm = Inr sm1"
      "becomes T ?R sm sm1 (a_put ?t ?k ?row1)" "points_to sm1 ?t a ?k ?row1"
    using update_keyed [OF inv' tpcc_registry_simps(6) a(2), of ?us] by auto
  note inv1 = becomes_inv [OF sm1(2)]
  have read15: "sm_readColumn sm1 ?t (Some a) 15 = Inr (col_data stock_schema 15 ?row1)"
    using read_column [OF inv1 tpcc_registry_simps(6) sm1(3)] by simp
  let ?cnt = "to_bytes (fld32 stock_schema 15 ?row1 + 1)"
  let ?row2 = "stock_ordered (nop_w_id p) ?w ?q row"
  have "\<exists>sm2. (if ?w \<noteq> nop_w_id p
        then bnd (sm_readColumn sm1 ?t (Some a) 15) (\<lambda>v.
             let remote_cnt = of_bytes v + 1 :: 32 word in
             sm_updateRecord_one ?t (Some a) \<lparr>cp_column_id = 15, cp_value = to_bytes remote_cnt\<rparr> sm1)
        else Inr sm1) = Inr sm2 \<and> becomes T ?R sm sm2 (a_put ?t ?k ?row2) \<and> points_to sm2 ?t a ?k ?row2"
  proof (cases "?w = nop_w_id p")
    case True
    then show ?thesis using sm1(2,3) by (simp add: stock_ordered_def)
  next
    case False
    obtain sm2 where sm2: "sm_updateRecord_one ?t (Some a) \<lparr>cp_column_id = 15, cp_value = ?cnt\<rparr> sm1 = Inr sm2"
        "becomes T ?R sm1 sm2 (a_put ?t ?k (row_with stock_schema 15 ?cnt ?row1))"
        "points_to sm2 ?t a ?k (row_with stock_schema 15 ?cnt ?row1)"
      using update_one_keyed [OF inv1 tpcc_registry_simps(6) sm1(3), of 15 ?cnt] by auto
    have r2: "?row2 = row_with stock_schema 15 ?cnt ?row1" using False by (simp add: stock_ordered_def Let_def)
    have "becomes T ?R sm sm2 (a_put ?t ?k ?row2)"
      unfolding r2 using becomes_trans [OF sm1(2) sm2(2)] by simp
    then show ?thesis
      using False sm2(1,3) read15 r2 by (simp add: fld32_def)
  qed
  then obtain sm2 where sm2: "(if ?w \<noteq> nop_w_id p
        then bnd (sm_readColumn sm1 ?t (Some a) 15) (\<lambda>v.
             let remote_cnt = of_bytes v + 1 :: 32 word in
             sm_updateRecord_one ?t (Some a) \<lparr>cp_column_id = 15, cp_value = to_bytes remote_cnt\<rparr> sm1)
        else Inr sm1) = Inr sm2" "becomes T ?R sm sm2 (a_put ?t ?k ?row2)" "points_to sm2 ?t a ?k ?row2"
    by blast
  have dc: "3 \<le> ?dc" "?dc < 13" using p(1) by (simp_all add: lists_agree_def)
  have same: "col_data stock_schema ?dc ?row2 = col_data stock_schema ?dc row"
    using dc by (intro stock_ordered_cols(6) [OF len]) auto
  have str: "sm_readString sm2 ?t (Some a) ?dc = Inr (dist_info p row)"
    using read_string [OF becomes_inv [OF sm2(2)] tpcc_registry_simps(6) sm2(3), of ?dc]
      stock_dist_cols(1) [OF dc] dc row(2) same by (simp add: dist_info_def)
  have "neworderSubTxn4Single T p i sm = Inr (dist_info p row, sm2)"
    using p a(1) read sm1(1) sm2(1) str
    by (simp add: neworderSubTxn4Single_def lists_agree_def vec_at_eq Let_def fld32_def dist_column_def)
  moreover have "does T ?R (Inr sm2) sm (a_stock p i)"
    unfolding a_stock_def by (intro does_modify [OF _ sm2(2) row(1)]) simp_all
  ultimately show thesis using that [OF _ row(1)] by (simp add: does_def)
qed

end
