(* ===== verification/TpccSerialProcessor.thy ===== *)
theory TpccSerialProcessor
  imports TpccProcessor
begin

text \<open>
  benchmark/tpcc/TpccTuples.h and TpccSerialProcessor.cc: the transactions in the queue and the processor
  that executes them one after the other. Popping from the empty queue spins for ever, which is
  \<open>Diverges\<close>. There is no code that executes an order-status or a stock-level transaction: they are counted.
\<close>

record order_status_param =
  ost_w_id :: "32 word"
  ost_d_id :: "32 word"
  ost_c_last :: bytes
  ost_c_id :: "32 word"

record stock_level_param =
  slp_w_id :: "32 word"
  slp_d_id :: "32 word"

datatype tpcc_event =
  DELIVERY delivery_param
| NEW_ORDER new_order_param
| PAYMENT payment_param
| ORDER_STATUS order_status_param
| STOCK_LEVEL stock_level_param
| ENDEXECUTION

definition processDelivery ::
  "('q, 'h, 'm) tbb \<Rightarrow> 'g tpcc_env \<Rightarrow> delivery_param \<Rightarrow> ('q, 'h, 'm) storage_manager \<Rightarrow> ('q, 'h, 'm) storage_manager result" where
  "processDelivery T E p sm =
     bnd (deliverySubTxn1 T E p [] sm) (\<lambda>(no_o_ids, sm).
     bnd (deliverySubTxn2 T E p no_o_ids [] sm) (\<lambda>(amounts, sm).
     bnd (deliverySubTxn3 T E p no_o_ids [] sm) (\<lambda>(c_ids, sm).
     deliverySubTxn4 T E p no_o_ids amounts c_ids sm)))"

definition processNewOrder ::
  "('q, 'h, 'm) tbb \<Rightarrow> 'g tpcc_env \<Rightarrow> new_order_param \<Rightarrow> ('q, 'h, 'm) storage_manager \<Rightarrow> ('q, 'h, 'm) storage_manager result" where
  "processNewOrder T E p sm =
     bnd (neworderSubTxn1 T p sm) (\<lambda>(d_next_o_id, sm).
     bnd (neworderSubTxn2 T E p d_next_o_id sm) (\<lambda>sm.
     bnd (neworderSubTxn3 T E p d_next_o_id sm) (\<lambda>sm.
     bnd (neworderSubTxn4 T p [] sm) (\<lambda>(s_dists, sm).
     bnd (neworderSubTxn5 T E p [] sm) (\<lambda>ol_amounts.
     neworderSubTxn6 T E p d_next_o_id s_dists ol_amounts sm)))))"

definition processPayment ::
  "('q, 'h, 'm) tbb \<Rightarrow> 'g tpcc_env \<Rightarrow> payment_param \<Rightarrow> ('q, 'h, 'm) storage_manager \<Rightarrow>
   ('g, ('q, 'h, 'm) storage_manager) gen" where
  "processPayment T E p sm =
     gbnd (glift (paymentSubTxn1 T E p sm)) (\<lambda>sm.
     gbnd (glift (paymentSubTxn2 T E p sm)) (\<lambda>sm.
     gbnd (paymentSubTxn3 T E p sm) (\<lambda>sm.
     glift (paymentSubTxn4 T E p sm))))"

fun tpcc_process ::
  "('q, 'h, 'm) tbb \<Rightarrow> 'g tpcc_env \<Rightarrow> tpcc_event \<Rightarrow> ('q, 'h, 'm) storage_manager \<Rightarrow>
   ('g, ('q, 'h, 'm) storage_manager) gen" where
  "tpcc_process T E (DELIVERY p) sm = glift (processDelivery T E p sm)"
| "tpcc_process T E (NEW_ORDER p) sm = glift (processNewOrder T E p sm)"
| "tpcc_process T E (PAYMENT p) sm = processPayment T E p sm"
| "tpcc_process T E (ORDER_STATUS p) sm = gret sm"
| "tpcc_process T E (STOCK_LEVEL p) sm = gret sm"
| "tpcc_process T E ENDEXECUTION sm = gret sm"

text \<open>\<open>TpccSerialProcessor::start\<close>: the final database, the number of transactions and the rest of the queue.\<close>

fun tpcc_serial_start ::
  "('q, 'h, 'm) tbb \<Rightarrow> 'g tpcc_env \<Rightarrow> tpcc_event list \<Rightarrow> nat \<Rightarrow> ('q, 'h, 'm) storage_manager \<Rightarrow>
   ('g, ('q, 'h, 'm) storage_manager \<times> nat \<times> tpcc_event list) gen" where
  "tpcc_serial_start T E [] txn_cnt sm = glift (Inl Diverges)"
| "tpcc_serial_start T E (e # queue) txn_cnt sm =
     (if e = ENDEXECUTION then gret (sm, txn_cnt, queue)
      else gbnd (tpcc_process T E e sm) (tpcc_serial_start T E queue (txn_cnt + 1)))"

end
