(* ===== verification/TpccNewOrder.thy ===== *)
theory TpccNewOrder
  imports TpccRefinement TpccSerialProcessor
begin

text \<open>
  The loops of the new-order transaction of benchmark/tpcc/TpccBaseProcessor.cc over the lines of an
  order, and the whole transaction (\<open>TpccSerialProcessor::processNewOrder\<close>), as changes of the maps.
\<close>

section \<open>The stock of all items\<close>

definition order_length :: "new_order_param \<Rightarrow> nat" where
  "order_length p = length (nop_i_ids p)"

text \<open>The district strings of the items: what \<open>stock\<close>, the map of the table, has for them.\<close>

definition dist_infos :: "new_order_param \<Rightarrow> (bytes \<Rightarrow> bytes option) \<Rightarrow> nat \<Rightarrow> bytes list" where
  "dist_infos p stock n = map (\<lambda>i. dist_info p (the (stock (stock_key p i)))) [0..<n]"

definition a_stocks :: "new_order_param \<Rightarrow> nat \<Rightarrow> database \<Rightarrow> database" where
  "a_stocks p n = fold (a_stock p) [0..<n]"

lemma a_stocks_simps [simp]:
  "a_stocks p 0 = id" "a_stocks p (Suc n) = a_stock p n \<circ> a_stocks p n"
  by (simp_all add: a_stocks_def)

text \<open>Taking items from the stock changes no district string and no length.\<close>

definition same_dists :: "new_order_param \<Rightarrow> (bytes \<Rightarrow> bytes option) \<Rightarrow> (bytes \<Rightarrow> bytes option) \<Rightarrow> bool" where
  "same_dists p stock stock' \<longleftrightarrow>
     (\<forall>k. map_option (col_data stock_schema (dist_column p)) (stock' k) =
          map_option (col_data stock_schema (dist_column p)) (stock k))"

lemma same_distsD:
  assumes "same_dists p stock stock'" "stock' k = Some row'"
  obtains row where "stock k = Some row"
    "col_data stock_schema (dist_column p) row' = col_data stock_schema (dist_column p) row"
proof -
  have "map_option (col_data stock_schema (dist_column p)) (stock' k) =
      map_option (col_data stock_schema (dist_column p)) (stock k)"
    using assms(1) unfolding same_dists_def by (rule spec)
  then show thesis using that assms(2) by (cases "stock k") simp_all
qed

lemma same_dists_ready:
  assumes "same_dists p stock stock'" "stock_ready p i stock"
  shows "stock_ready p i stock'"
proof -
  obtain row where row: "stock (stock_key p i) = Some row" "0 \<in> set (col_data stock_schema (dist_column p) row)"
    using assms(2) by (auto simp: stock_ready_def split: option.splits)
  have "map_option (col_data stock_schema (dist_column p)) (stock' (stock_key p i)) =
      Some (col_data stock_schema (dist_column p) row)"
    using assms(1) row(1) by (simp add: same_dists_def)
  then show ?thesis using row(2) by (auto simp: stock_ready_def)
qed

lemma same_dists_stock:
  assumes "same_dists p stock (db_tab db STOCK_TABLE_ID)" "lists_agree p"
    and "\<And>k row. db_tab db STOCK_TABLE_ID k = Some row \<Longrightarrow> length row = 408"
  shows "same_dists p stock (db_tab (a_stock p i db) STOCK_TABLE_ID)"
proof -
  have dc: "3 \<le> dist_column p" "dist_column p < 13" using assms(2) by (simp_all add: lists_agree_def)
  have "map_option (col_data stock_schema (dist_column p)) (db_tab (a_stock p i db) STOCK_TABLE_ID k) =
      map_option (col_data stock_schema (dist_column p)) (db_tab db STOCK_TABLE_ID k)" for k
    using dc assms(3) [of k]
    by (cases "db_tab db STOCK_TABLE_ID k") (auto simp: a_stock_def stock_ordered_cols(6))
  then show ?thesis using assms(1) by (simp add: same_dists_def)
qed

lemma neworderSubTxn4_does:
  fixes sm :: "('q, 'h, 'm) storage_manager"
  assumes inv: "tpcc_inv T E sm" and p: "lists_agree p"
    and ready: "\<And>i. i < order_length p \<Longrightarrow> stock_ready p i (table_map T sm STOCK_TABLE_ID)"
  obtains sm' where "neworderSubTxn4 T p s_dists sm =
      Inr (s_dists @ dist_infos p (table_map T sm STOCK_TABLE_ID) (order_length p), sm')"
    "becomes T (tpcc_registry (env_cfg E)) sm sm' (a_stocks p (order_length p))"
proof -
  let ?R = "tpcc_registry (env_cfg E)" and ?n = "order_length p" and ?stock = "table_map T sm STOCK_TABLE_ID"
  define I where "I k r \<longleftrightarrow> becomes T ?R sm (snd r) (a_stocks p k) \<and> fst r = s_dists @ dist_infos p ?stock k \<and>
      same_dists p ?stock (table_map T (snd r) STOCK_TABLE_ID)" for k and r :: "bytes list \<times> ('q, 'h, 'm) storage_manager"
  have "\<exists>r. fold_res (\<lambda>i (s_dists, sm).
       bnd (neworderSubTxn4Single T p i sm) (\<lambda>(s_dist, sm). Inr (s_dists @ [s_dist], sm)))
       [0..<?n] (s_dists, sm) = Inr r \<and> I ?n r"
  proof (rule fold_res_upt_returns)
    show "I 0 (s_dists, sm)"
      using becomes_refl [OF tpcc_invD(1) [OF inv]] by (simp add: I_def dist_infos_def same_dists_def)
  next
    fix k r assume k: "k < ?n" and r: "I k r"
    have i1: "tpcc_inv T E (snd r)" and b: "becomes T ?R sm (snd r) (a_stocks p k)"
      using r tpcc_inv_becomes [OF inv] by (auto simp: I_def)
    have same: "same_dists p ?stock (table_map T (snd r) STOCK_TABLE_ID)" using r by (simp add: I_def)
    have k': "k < length (nop_i_ids p)" using k by (simp add: order_length_def)
    obtain sm' row where sm': "neworderSubTxn4Single T p k (snd r) = Inr (dist_info p row, sm')"
        "table_map T (snd r) STOCK_TABLE_ID (stock_key p k) = Some row" "becomes T ?R (snd r) sm' (a_stock p k)"
      by (rule neworderSubTxn4Single_does [OF i1 p k' same_dists_ready [OF same ready [OF k]]])
    obtain row0 where "?stock (stock_key p k) = Some row0"
        "col_data stock_schema (dist_column p) row = col_data stock_schema (dist_column p) row0"
      by (rule same_distsD [OF same sm'(2)])
    then have dist: "dist_info p row = dist_info p (the (?stock (stock_key p k)))" by (simp add: dist_info_def)
    have len: "length row' = 408" if "db_tab (db_abs T (snd r)) STOCK_TABLE_ID k' = Some row'" for k' row'
      using that map_row_length [OF tpcc_invD(1) [OF i1] tpcc_registry_simps(6)] by simp
    have "same_dists p ?stock (table_map T sm' STOCK_TABLE_ID)"
      unfolding becomes_tab [OF sm'(3)] using same len by (intro same_dists_stock p) simp_all
    moreover have "becomes T ?R sm sm' (a_stocks p (Suc k))" using becomes_trans [OF b sm'(3)] by simp
    ultimately have "I (Suc k) (s_dists @ dist_infos p ?stock (Suc k), sm')"
      by (simp add: I_def)
    moreover have "(case r of (s_dists, sm) \<Rightarrow>
        bnd (neworderSubTxn4Single T p k sm) (\<lambda>(s_dist, sm). Inr (s_dists @ [s_dist], sm))) =
        Inr (s_dists @ dist_infos p ?stock (Suc k), sm')"
      using r sm'(1) dist by (simp add: I_def split_beta dist_infos_def)
    ultimately show "\<exists>s'. (case r of (s_dists, sm) \<Rightarrow>
        bnd (neworderSubTxn4Single T p k sm) (\<lambda>(s_dist, sm). Inr (s_dists @ [s_dist], sm))) = Inr s' \<and> I (Suc k) s'"
      by blast
  qed
  then show thesis using that by (auto simp: I_def neworderSubTxn4_def order_length_def)
qed

section \<open>The amounts\<close>

definition line_amount :: "64 word dbl \<Rightarrow> new_order_param \<Rightarrow> (bytes \<Rightarrow> bytes option) \<Rightarrow> nat \<Rightarrow> 64 word" where
  "line_amount D p items i =
     d_mul D (d_of_int D (sint (nop_i_qtys p ! i))) (fld64 item_schema 3 (the (items (wkey [nop_i_ids p ! i]))))"

lemma neworderSubTxn5Single_does:
  assumes inv: "tpcc_inv T E sm" and p: "lists_agree p" "i < order_length p"
    and row: "table_map T sm ITEM_TABLE_ID (wkey [nop_i_ids p ! i]) = Some row"
  shows "neworderSubTxn5Single T E p i sm = Inr (line_amount (env_dbl E) p (table_map T sm ITEM_TABLE_ID) i)"
proof -
  note i = tpcc_invD(1) [OF inv]
  let ?ps = "[(0, to_bytes (nop_i_ids p ! i))]"
  obtain a where a: "sm_selectRecord T ITEM_TABLE_ID ?ps sm = Inr (Some a)"
      "points_to sm ITEM_TABLE_ID a (wkey [nop_i_ids p ! i]) row"
    using select_found [OF i tpcc_registry_simps(1), of ?ps row] row by auto
  have "sm_selectRecord_one T ITEM_TABLE_ID \<lparr>cp_column_id = 0, cp_value = to_bytes (nop_i_ids p ! i)\<rparr> sm = Inr (Some a)"
    using select_one_keyed [OF i tpcc_registry_simps(1), of 0 "to_bytes (nop_i_ids p ! i)"] a(1) by simp
  moreover have "sm_readColumn sm ITEM_TABLE_ID (Some a) 3 = Inr (col_data item_schema 3 row)"
    using read_column [OF i tpcc_registry_simps(1) a(2)] by simp
  ultimately show ?thesis
    using p row
    by (simp add: neworderSubTxn5Single_def lists_agree_def order_length_def vec_at_eq line_amount_def fld64_def)
qed

lemma neworderSubTxn5_does:
  assumes inv: "tpcc_inv T E sm" and p: "lists_agree p"
    and items: "\<And>i. i < order_length p \<Longrightarrow> table_map T sm ITEM_TABLE_ID (wkey [nop_i_ids p ! i]) \<noteq> None"
  shows "neworderSubTxn5 T E p ol_amounts sm =
    Inr (ol_amounts @ map (line_amount (env_dbl E) p (table_map T sm ITEM_TABLE_ID)) [0..<order_length p])"
proof -
  let ?f = "line_amount (env_dbl E) p (table_map T sm ITEM_TABLE_ID)"
  have one: "neworderSubTxn5Single T E p i sm = Inr (?f i)" if "i < order_length p" for i
    using neworderSubTxn5Single_does [OF inv p that] items [OF that] by auto
  have "\<exists>r. fold_res (\<lambda>i ol_amounts. bnd (neworderSubTxn5Single T E p i sm) (\<lambda>ol_amount. Inr (ol_amounts @ [ol_amount])))
       [0..<order_length p] ol_amounts = Inr r \<and> r = ol_amounts @ map ?f [0..<order_length p]"
    by (rule fold_res_upt_returns [where I = "\<lambda>k r. r = ol_amounts @ map ?f [0..<k]"]) (simp_all add: one)
  then show ?thesis by (simp add: neworderSubTxn5_def order_length_def)
qed

section \<open>The order lines\<close>

definition order_line_writes :: "new_order_param \<Rightarrow> 32 word \<Rightarrow> bytes \<Rightarrow> 64 word \<Rightarrow> nat \<Rightarrow> (nat \<times> col_write) list" where
  "order_line_writes p o_id s_dist amount i =
     [(0, Fixed (to_bytes o_id)), (1, Fixed (to_bytes (nop_d_id p))), (2, Fixed (to_bytes (nop_w_id p))),
      (3, Fixed (to_bytes (word_of_nat (i + 1) :: 32 word))), (4, Fixed (to_bytes (nop_i_ids p ! i))),
      (5, Fixed (to_bytes (nop_i_w_ids p ! i))), (6, Fixed (to_bytes (nop_o_entry_d p))),
      (7, Fixed (to_bytes (nop_i_qtys p ! i))), (8, Fixed (to_bytes amount)), (9, Str s_dist)]"

definition order_line_row :: "'g tpcc_env \<Rightarrow> new_order_param \<Rightarrow> 32 word \<Rightarrow> bytes \<Rightarrow> 64 word \<Rightarrow> nat \<Rightarrow> bytes" where
  "order_line_row E p o_id s_dist amount i =
     row_of order_line_schema (order_line_writes p o_id s_dist amount i) (new_chars (env_cfg E) 76)"

definition line_key :: "new_order_param \<Rightarrow> 32 word \<Rightarrow> nat \<Rightarrow> bytes" where
  "line_key p o_id i = wkey [o_id, nop_d_id p, nop_w_id p, word_of_nat (i + 1)]"

lemma order_line_writable:
  "length s_dist \<le> 32 \<Longrightarrow> list_all (writable order_line_schema) (order_line_writes p o_id s_dist amount i)"
  by (simp add: order_line_writes_def)

lemma order_line_cols:
  assumes "length s_dist \<le> 32"
  shows "primary_key_of order_line_schema (order_line_row E p o_id s_dist amount i) = line_key p o_id i"
    "fld32 order_line_schema 0 (order_line_row E p o_id s_dist amount i) = o_id"
    "fld32 order_line_schema 1 (order_line_row E p o_id s_dist amount i) = nop_d_id p"
    "fld32 order_line_schema 2 (order_line_row E p o_id s_dist amount i) = nop_w_id p"
    "fld32 order_line_schema 4 (order_line_row E p o_id s_dist amount i) = nop_i_ids p ! i"
    "fld64 order_line_schema 8 (order_line_row E p o_id s_dist amount i) = amount"
proof -
  note w = order_line_writable [OF assms, of p o_id amount i]
  have d: "distinct (map fst (order_line_writes p o_id s_dist amount i))" by (simp add: order_line_writes_def)
  note c = col_data_built [OF tpcc_schema_inv(8) w d, of "new_chars (env_cfg E) 76"]
  have col: "col_data order_line_schema 0 (order_line_row E p o_id s_dist amount i) = to_bytes o_id"
    "col_data order_line_schema 1 (order_line_row E p o_id s_dist amount i) = to_bytes (nop_d_id p)"
    "col_data order_line_schema 2 (order_line_row E p o_id s_dist amount i) = to_bytes (nop_w_id p)"
    "col_data order_line_schema 3 (order_line_row E p o_id s_dist amount i) = to_bytes (word_of_nat (i + 1) :: 32 word)"
    "col_data order_line_schema 4 (order_line_row E p o_id s_dist amount i) = to_bytes (nop_i_ids p ! i)"
    "col_data order_line_schema 8 (order_line_row E p o_id s_dist amount i) = to_bytes amount"
    unfolding order_line_row_def by (rule c; simp add: order_line_writes_def)+
  then show "primary_key_of order_line_schema (order_line_row E p o_id s_dist amount i) = line_key p o_id i"
    by (simp add: primary_key_of_def key_of_def wkey_def line_key_def)
  show "fld32 order_line_schema 0 (order_line_row E p o_id s_dist amount i) = o_id"
    "fld32 order_line_schema 1 (order_line_row E p o_id s_dist amount i) = nop_d_id p"
    "fld32 order_line_schema 2 (order_line_row E p o_id s_dist amount i) = nop_w_id p"
    "fld32 order_line_schema 4 (order_line_row E p o_id s_dist amount i) = nop_i_ids p ! i"
    "fld64 order_line_schema 8 (order_line_row E p o_id s_dist amount i) = amount"
    using col by (simp_all add: fld32_def fld64_def)
qed

definition line_table :: "'g tpcc_env \<Rightarrow> new_order_param \<Rightarrow> nat" where
  "line_table E p = ORDER_LINE_TABLE_ID + district_part E (nop_w_id p) (nop_d_id p)"

definition a_line :: "'g tpcc_env \<Rightarrow> new_order_param \<Rightarrow> 32 word \<Rightarrow> bytes list \<Rightarrow> 64 word list \<Rightarrow> nat \<Rightarrow> database \<Rightarrow> database" where
  "a_line E p o_id s_dists amounts i =
     a_put (line_table E p) (line_key p o_id i) (order_line_row E p o_id (s_dists ! i) (amounts ! i) i)"

definition a_lines :: "'g tpcc_env \<Rightarrow> new_order_param \<Rightarrow> 32 word \<Rightarrow> bytes list \<Rightarrow> 64 word list \<Rightarrow> nat \<Rightarrow> database \<Rightarrow> database" where
  "a_lines E p o_id s_dists amounts n = fold (a_line E p o_id s_dists amounts) [0..<n]"

lemma a_lines_simps [simp]:
  "a_lines E p o_id s_dists amounts 0 = id"
  "a_lines E p o_id s_dists amounts (Suc n) = a_line E p o_id s_dists amounts n \<circ> a_lines E p o_id s_dists amounts n"
  by (simp_all add: a_lines_def)

lemma line_key_inj:
  assumes "i < n" "j < n" "n < 2 ^ 32"
  shows "line_key p o_id i = line_key p o_id j \<longleftrightarrow> i = j"
proof
  assume "line_key p o_id i = line_key p o_id j"
  then have "word_of_nat (i + 1) = (word_of_nat (j + 1) :: 32 word)" by (simp add: line_key_def)
  moreover have "i + 1 < 2 ^ LENGTH(32)" "j + 1 < 2 ^ LENGTH(32)" using assms by simp_all
  ultimately have "i + 1 = j + 1" using of_nat_inverse by metis
  then show "i = j" by simp
qed simp

lemma a_lines_tab:
  assumes "\<And>i. i < n \<Longrightarrow> k \<noteq> line_key p o_id i"
  shows "db_tab (a_lines E p o_id s_dists amounts n db) (line_table E p) k = db_tab db (line_table E p) k"
  using assms by (induction n) (simp_all add: a_line_def)

lemma neworderSubTxn6_does:
  fixes sm :: "('q, 'h, 'm) storage_manager"
  assumes inv: "tpcc_inv T E sm" and p: "lists_agree p" "order_length p < 2 ^ 32"
    and lists: "length s_dists = order_length p" "length amounts = order_length p" "\<forall>s \<in> set s_dists. length s \<le> 32"
    and new: "\<And>i. i < order_length p \<Longrightarrow> table_map T sm (line_table E p) (line_key p o_id i) = None"
  shows "does T (tpcc_registry (env_cfg E)) (neworderSubTxn6 T E p o_id s_dists amounts sm) sm
    (a_lines E p o_id s_dists amounts (order_length p))"
proof -
  let ?R = "tpcc_registry (env_cfg E)" and ?n = "order_length p" and ?f = "a_lines E p o_id s_dists amounts"
  let ?body = "\<lambda>i sm. let ol_number = word_of_nat (i + 1) :: 32 word in
       bnd (vec_at (nop_i_ids p) i) (\<lambda>ol_i_id.
       bnd (vec_at (nop_i_w_ids p) i) (\<lambda>ol_supply_w_id.
       bnd (vec_at (nop_i_qtys p) i) (\<lambda>ol_quantity.
       bnd (vec_at amounts i) (\<lambda>ol_amount.
       bnd (vec_at s_dists i) (\<lambda>s_dist.
       bnd getOrderLineSchema (\<lambda>s.
       bnd (build_record E s
         [(0, Fixed (to_bytes o_id)), (1, Fixed (to_bytes (nop_d_id p))), (2, Fixed (to_bytes (nop_w_id p))),
          (3, Fixed (to_bytes ol_number)), (4, Fixed (to_bytes ol_i_id)), (5, Fixed (to_bytes ol_supply_w_id)),
          (6, Fixed (to_bytes (nop_o_entry_d p))), (7, Fixed (to_bytes ol_quantity)),
          (8, Fixed (to_bytes ol_amount)), (9, Str s_dist)]) (\<lambda>rec.
       bnd (tpcc_offset E (nop_w_id p) (nop_d_id p)) (\<lambda>offset.
       sm_insertRecord T (ORDER_LINE_TABLE_ID + offset) rec sm))))))))"
  have "\<exists>r. fold_res ?body [0..<?n] sm = Inr r \<and> becomes T ?R sm r (?f ?n)"
  proof (rule fold_res_upt_returns [where I = "\<lambda>k r. becomes T ?R sm r (?f k)"])
    show "becomes T ?R sm sm (?f 0)" using becomes_refl [OF tpcc_invD(1) [OF inv]] by simp
  next
    fix k r assume k: "k < ?n" and r: "becomes T ?R sm r (?f k)"
    note i1 = tpcc_inv_becomes [OF inv r]
    have len: "length (s_dists ! k) \<le> 32" using lists(1,3) k by simp
    have "line_key p o_id k \<noteq> line_key p o_id i" if "i < k" for i
      using line_key_inj [of k ?n i p o_id] that k p(2) by simp
    then have fresh: "table_map T r (line_table E p) (line_key p o_id k) = None"
      using a_lines_tab [of k "line_key p o_id k" p o_id E] new [OF k] becomes_tab [OF r] by simp
    have reg: "tpcc_registry (env_cfg E) (line_table E p) = Some (order_line_schema, True, [order_line_index])"
      using tpcc_invD(5) [OF inv] by (simp add: line_table_def)
    have key: "primary_key_of order_line_schema (row_of order_line_schema
        (order_line_writes p o_id (s_dists ! k) (amounts ! k) k) (new_chars (env_cfg E) (getSchemaSize order_line_schema))) =
        line_key p o_id k"
      using order_line_cols(1) [OF len, of E p o_id "amounts ! k" k] by (simp add: order_line_row_def)
    have "does T ?R (bnd (build_record E order_line_schema (order_line_writes p o_id (s_dists ! k) (amounts ! k) k))
        (\<lambda>rec. sm_insertRecord T (line_table E p) rec r)) r (a_line E p o_id s_dists amounts k)"
      using insert_built [OF i1 reg order_line_writable [OF len] key fresh] by (simp add: order_line_row_def a_line_def)
    moreover have "?body k r = bnd (build_record E order_line_schema (order_line_writes p o_id (s_dists ! k) (amounts ! k) k))
        (\<lambda>rec. sm_insertRecord T (line_table E p) rec r)"
      using p(1) k lists(1,2) tpcc_invD(2) [OF inv]
      by (simp add: lists_agree_def order_length_def vec_at_eq tpcc_schemas tpcc_offset_eq order_line_writes_def line_table_def)
    ultimately have "does T ?R (?body k r) r (a_line E p o_id s_dists amounts k)" by simp
    from does_after [OF this r]
    show "\<exists>s'. ?body k r = Inr s' \<and> becomes T ?R sm s' (?f (Suc k))" by simp
  qed
  then show ?thesis by (simp add: does_def neworderSubTxn6_def order_length_def)
qed

section \<open>The transaction\<close>

text \<open>What the transaction relies on: the district with its next number, whose order and lines are not
  there yet, and a stock record and an item for every line.\<close>

definition new_order_ready :: "'g tpcc_env \<Rightarrow> new_order_param \<Rightarrow> database \<Rightarrow> bool" where
  "new_order_ready E p db \<longleftrightarrow>
     lists_agree p \<and> order_length p < 2 ^ 32 \<and>
     (\<exists>row. db_tab db DISTRICT_TABLE_ID (district_key p) = Some row \<and>
        (let o_id = next_o_id row; part = district_part E (nop_w_id p) (nop_d_id p) in
          db_tab db (ORDER_TABLE_ID + part) (order_key p o_id) = None \<and>
          db_tab db (NEW_ORDER_TABLE_ID + part) (order_key p o_id) = None \<and>
          (\<forall>i < order_length p. db_tab db (line_table E p) (line_key p o_id i) = None))) \<and>
     (\<forall>i < order_length p. stock_ready p i (db_tab db STOCK_TABLE_ID) \<and>
        db_tab db ITEM_TABLE_ID (wkey [nop_i_ids p ! i]) \<noteq> None)"

text \<open>What it does to the maps.\<close>

definition a_new_order :: "'g tpcc_env \<Rightarrow> new_order_param \<Rightarrow> database \<Rightarrow> database" where
  "a_new_order E p db =
     (let o_id = next_o_id (the (db_tab db DISTRICT_TABLE_ID (district_key p)));
          part = district_part E (nop_w_id p) (nop_d_id p);
          s_dists = dist_infos p (db_tab db STOCK_TABLE_ID) (order_length p);
          amounts = map (line_amount (env_dbl E) p (db_tab db ITEM_TABLE_ID)) [0..<order_length p] in
      a_lines E p o_id s_dists amounts (order_length p)
        (a_stocks p (order_length p)
          (a_put (NEW_ORDER_TABLE_ID + part) (order_key p o_id) (new_order_row E p o_id)
            (a_put (ORDER_TABLE_ID + part) (order_key p o_id) (order_row E p o_id)
              (a_modify DISTRICT_TABLE_ID (district_key p) district_advanced db)))))"

lemma a_stocks_other: "i \<noteq> STOCK_TABLE_ID \<Longrightarrow> db_tab (a_stocks p n db) i = db_tab db i"
  by (induction n) (simp_all add: a_stock_def)

lemma a_lines_other: "i \<noteq> line_table E p \<Longrightarrow> db_tab (a_lines E p o_id s_dists amounts n db) i = db_tab db i"
  by (induction n) (simp_all add: a_line_def)

lemma dist_info_length:
  assumes "length row = 408" "lists_agree p"
  shows "length (dist_info p row) \<le> 32"
proof -
  have dc: "3 \<le> dist_column p" "dist_column p < 13" using assms(2) by (simp_all add: lists_agree_def)
  have "length (dist_info p row) \<le> length (col_data stock_schema (dist_column p) row)"
    unfolding dist_info_def by (rule length_takeWhile_le)
  also have "\<dots> \<le> col_size stock_schema (dist_column p)" by (simp add: col_data_def seg_def)
  finally show ?thesis using stock_dist_cols(2) [OF dc] by simp
qed

lemma processNewOrder_does:
  assumes inv: "tpcc_inv T E sm" and stack: "3 \<le> length (env_stack E)" and ready: "new_order_ready E p (db_abs T sm)"
  shows "does T (tpcc_registry (env_cfg E)) (processNewOrder T E p sm) sm (a_new_order E p)"
proof -
  let ?R = "tpcc_registry (env_cfg E)" and ?db = "db_abs T sm" and ?n = "order_length p"
  let ?part = "district_part E (nop_w_id p) (nop_d_id p)"
  have part: "?part < TPCC_MAX_PARTITION_CNT" by (rule district_part_max [OF inv])
  note ids = part_tables [OF part part] line_table_def
  have p: "lists_agree p" "?n < 2 ^ 32" using ready by (simp_all add: new_order_ready_def)
  obtain row where row: "table_map T sm DISTRICT_TABLE_ID (district_key p) = Some row"
    and new: "table_map T sm (ORDER_TABLE_ID + ?part) (order_key p (next_o_id row)) = None"
      "table_map T sm (NEW_ORDER_TABLE_ID + ?part) (order_key p (next_o_id row)) = None"
      "\<And>i. i < ?n \<Longrightarrow> table_map T sm (line_table E p) (line_key p (next_o_id row) i) = None"
    using ready by (auto simp: new_order_ready_def Let_def)
  let ?o = "next_o_id row"
  let ?f1 = "a_modify DISTRICT_TABLE_ID (district_key p) district_advanced"
  let ?f2 = "a_put (ORDER_TABLE_ID + ?part) (order_key p ?o) (order_row E p ?o) \<circ> ?f1"
  let ?f3 = "a_put (NEW_ORDER_TABLE_ID + ?part) (order_key p ?o) (new_order_row E p ?o) \<circ> ?f2"
  let ?f4 = "a_stocks p ?n \<circ> ?f3"
  let ?ds = "dist_infos p (table_map T sm STOCK_TABLE_ID) ?n"
  let ?am = "map (line_amount (env_dbl E) p (table_map T sm ITEM_TABLE_ID)) [0..<?n]"
  obtain sm1 where s1: "neworderSubTxn1 T p sm = Inr (?o, sm1)" "becomes T ?R sm sm1 ?f1"
    by (rule neworderSubTxn1_does [OF inv row])
  note i1 = tpcc_inv_becomes [OF inv s1(2)]
  have "table_map T sm1 (ORDER_TABLE_ID + ?part) (order_key p ?o) = None"
    unfolding becomes_tab [OF s1(2)] using new(1) by (simp add: ids)
  from does_after [OF neworderSubTxn2_does [OF i1 stack this] s1(2)]
  obtain sm2 where s2: "neworderSubTxn2 T E p ?o sm1 = Inr sm2" "becomes T ?R sm sm2 ?f2" by blast
  note i2 = tpcc_inv_becomes [OF inv s2(2)]
  have "table_map T sm2 (NEW_ORDER_TABLE_ID + ?part) (order_key p ?o) = None"
    unfolding becomes_tab [OF s2(2)] using new(2) by (simp add: ids)
  from does_after [OF neworderSubTxn3_does [OF i2 this] s2(2)]
  obtain sm3 where s3: "neworderSubTxn3 T E p ?o sm2 = Inr sm3" "becomes T ?R sm sm3 ?f3" by blast
  note i3 = tpcc_inv_becomes [OF inv s3(2)]
  have stock3: "table_map T sm3 STOCK_TABLE_ID = table_map T sm STOCK_TABLE_ID"
    unfolding becomes_tab [OF s3(2)] by (simp add: ids)
  have "stock_ready p i (table_map T sm3 STOCK_TABLE_ID)" if "i < ?n" for i
    using ready that unfolding stock3 by (simp add: new_order_ready_def)
  from neworderSubTxn4_does [OF i3 p(1) this, of "[]"]
  obtain sm4 where s4: "neworderSubTxn4 T p [] sm3 = Inr (?ds, sm4)" "becomes T ?R sm3 sm4 (a_stocks p ?n)"
    unfolding stock3 by auto
  have b4: "becomes T ?R sm sm4 ?f4" by (rule becomes_trans [OF s3(2) s4(2)])
  note i4 = tpcc_inv_becomes [OF inv b4]
  have item4: "table_map T sm4 ITEM_TABLE_ID = table_map T sm ITEM_TABLE_ID"
    unfolding becomes_tab [OF b4] by (simp add: a_stocks_other ids)
  have "table_map T sm4 ITEM_TABLE_ID (wkey [nop_i_ids p ! i]) \<noteq> None" if "i < ?n" for i
    using ready that unfolding item4 by (simp add: new_order_ready_def)
  from neworderSubTxn5_does [OF i4 p(1) this, of "[]"]
  have s5: "neworderSubTxn5 T E p [] sm4 = Inr ?am" unfolding item4 by simp
  have "length s \<le> 32" if s: "s \<in> set ?ds" for s
  proof -
    obtain i where i: "i < ?n" "s = dist_info p (the (table_map T sm STOCK_TABLE_ID (stock_key p i)))"
      using s by (auto simp: dist_infos_def)
    then obtain r where "table_map T sm STOCK_TABLE_ID (stock_key p i) = Some r"
      using ready by (auto simp: new_order_ready_def stock_ready_def split: option.splits)
    then show ?thesis
      using i(2) map_row_length [OF tpcc_invD(1) [OF inv] tpcc_registry_simps(6)] dist_info_length [OF _ p(1)] by simp
  qed
  then have ds: "\<forall>s \<in> set ?ds. length s \<le> 32" by blast
  have "table_map T sm4 (line_table E p) (line_key p ?o i) = None" if "i < ?n" for i
    unfolding becomes_tab [OF b4] using new(3) [OF that] by (simp add: a_stocks_other ids)
  from neworderSubTxn6_does [OF i4 p _ _ ds this, of ?am] have
    "does T ?R (neworderSubTxn6 T E p ?o ?ds ?am sm4) sm4 (a_lines E p ?o ?ds ?am ?n)"
    by (simp add: dist_infos_def)
  from does_after [OF this b4]
  obtain sm6 where s6: "neworderSubTxn6 T E p ?o ?ds ?am sm4 = Inr sm6"
      "becomes T ?R sm sm6 (a_lines E p ?o ?ds ?am ?n \<circ> ?f4)" by blast
  have "processNewOrder T E p sm = Inr sm6"
    using s1(1) s2(1) s3(1) s4(1) s5 s6(1) by (simp add: processNewOrder_def)
  moreover have "becomes T ?R sm sm6 (a_new_order E p)"
    using s6(2) row by (simp add: becomes_def a_new_order_def Let_def)
  ultimately show ?thesis by (rule doesI)
qed

end
