(* ===== verification/TpccDelivery.thy ===== *)
theory TpccDelivery
  imports TpccRefinement TpccSerialProcessor
begin

text \<open>
  The delivery transaction of benchmark/tpcc/TpccBaseProcessor.cc (\<open>deliverySubTxn1\<close> to
  \<open>deliverySubTxn4\<close>) and \<open>TpccSerialProcessor::processDelivery\<close>, as changes of the maps.
\<close>

section \<open>The oldest new order of a district\<close>

abbreviation dno_key :: "32 word \<Rightarrow> 32 word \<Rightarrow> bytes" where
  "dno_key w d \<equiv> wkey [w, d]"

text \<open>A record of the table of the oldest new orders and what delivering does to it.\<close>

definition oldest :: "bytes \<Rightarrow> 32 word" where
  "oldest row = fld32 district_new_order_schema 2 row"

definition oldest_advanced :: "bytes \<Rightarrow> bytes" where
  "oldest_advanced row = row_with district_new_order_schema 2 (to_bytes (oldest row + 1)) row"

text \<open>The order a delivery takes from a district, when there is one.\<close>

definition to_deliver :: "'g tpcc_env \<Rightarrow> 32 word \<Rightarrow> database \<Rightarrow> 32 word \<Rightarrow> 32 word option" where
  "to_deliver E w db d =
     (case db_tab db DISTRICT_NEW_ORDER_TABLE_ID (dno_key w d) of
        None \<Rightarrow> None
      | Some row \<Rightarrow>
          if db_tab db (NEW_ORDER_TABLE_ID + district_part E w d) (wkey [oldest row, d, w]) = None
          then None else Some (oldest row))"

definition a_take :: "'g tpcc_env \<Rightarrow> 32 word \<Rightarrow> 32 word \<Rightarrow> database \<Rightarrow> database" where
  "a_take E w d db =
     (case to_deliver E w db d of
        None \<Rightarrow> db
      | Some o_id \<Rightarrow>
          a_modify DISTRICT_NEW_ORDER_TABLE_ID (dno_key w d) oldest_advanced
            (a_remove (NEW_ORDER_TABLE_ID + district_part E w d) (wkey [o_id, d, w]) db))"

text \<open>The statements the loop of \<open>deliverySubTxn1\<close> and \<open>deliverySubTxn1Single\<close> have in common.\<close>

lemma take_order:
  assumes inv: "tpcc_inv T E sm"
    and dno: "table_map T sm DISTRICT_NEW_ORDER_TABLE_ID (dno_key w d) = Some row"
  obtains (some) a b sm1 sm2 where
      "sm_selectRecord T DISTRICT_NEW_ORDER_TABLE_ID [(0, to_bytes w), (Suc 0, to_bytes d)] sm = Inr (Some a)"
      "sm_readColumn sm DISTRICT_NEW_ORDER_TABLE_ID (Some a) 2 = Inr (col_data district_new_order_schema 2 row)"
      "sm_selectRecord T (NEW_ORDER_TABLE_ID + district_part E w d)
         [(0, to_bytes (oldest row)), (Suc 0, to_bytes d), (2, to_bytes w)] sm = Inr (Some b)"
      "sm_deleteRecord T (NEW_ORDER_TABLE_ID + district_part E w d) (Some b) sm = Inr sm1"
      "sm_updateRecord_one DISTRICT_NEW_ORDER_TABLE_ID (Some a)
         \<lparr>cp_column_id = 2, cp_value = to_bytes (oldest row + 1)\<rparr> sm1 = Inr sm2"
      "becomes T (tpcc_registry (env_cfg E)) sm sm2 (a_take E w d)" "to_deliver E w (db_abs T sm) d = Some (oldest row)"
  | (no) a where
      "sm_selectRecord T DISTRICT_NEW_ORDER_TABLE_ID [(0, to_bytes w), (Suc 0, to_bytes d)] sm = Inr (Some a)"
      "sm_readColumn sm DISTRICT_NEW_ORDER_TABLE_ID (Some a) 2 = Inr (col_data district_new_order_schema 2 row)"
      "sm_selectRecord T (NEW_ORDER_TABLE_ID + district_part E w d)
         [(0, to_bytes (oldest row)), (Suc 0, to_bytes d), (2, to_bytes w)] sm = Inr None"
      "to_deliver E w (db_abs T sm) d = None"
proof -
  let ?R = "tpcc_registry (env_cfg E)" and ?D = DISTRICT_NEW_ORDER_TABLE_ID
  let ?N = "NEW_ORDER_TABLE_ID + district_part E w d"
  note i = tpcc_invD(1) [OF inv] and RN = tpcc_invD(4) [OF inv, of w d]
  have part: "district_part E w d < TPCC_MAX_PARTITION_CNT" by (rule district_part_max [OF inv])
  note ids = part_tables [OF part part]
  let ?ps = "[(0, to_bytes w), (Suc 0, to_bytes d)]"
  let ?qs = "[(0, to_bytes (oldest row)), (Suc 0, to_bytes d), (2, to_bytes w)]"
  obtain a where a: "sm_selectRecord T ?D ?ps sm = Inr (Some a)" "points_to sm ?D a (dno_key w d) row"
    using select_found [OF i tpcc_registry_simps(7), of ?ps row] dno by auto
  have read: "sm_readColumn sm ?D (Some a) 2 = Inr (col_data district_new_order_schema 2 row)"
    using read_column [OF i tpcc_registry_simps(7) a(2), of 2] by simp
  have qs: "predicates_valid new_order_schema ?qs" "?qs \<noteq> []" "map fst ?qs = primary_cols new_order_schema" by simp_all
  show thesis
  proof (rule select_keyed [OF i RN qs])
    fix b row' assume b: "sm_selectRecord T ?N ?qs sm = Inr (Some b)"
      "table_map T sm ?N (predicate_key new_order_schema ?qs) = Some row'"
      "points_to sm ?N b (predicate_key new_order_schema ?qs) row'"
    obtain sm1 where sm1: "sm_deleteRecord T ?N (Some b) sm = Inr sm1"
        "becomes T ?R sm sm1 (a_remove ?N (wkey [oldest row, d, w]))" "others_kept sm sm1 ?N b"
      using delete_keyed [OF i RN b(3)] by auto
    have a1: "points_to sm1 ?D a (dno_key w d) row"
      using sm1(3) a(2) ids by (auto simp: others_kept_def)
    obtain sm2 where sm2: "sm_updateRecord_one ?D (Some a) \<lparr>cp_column_id = 2, cp_value = to_bytes (oldest row + 1)\<rparr> sm1 = Inr sm2"
        "becomes T ?R sm1 sm2 (a_put ?D (dno_key w d) (oldest_advanced row))"
      using update_one_keyed [OF becomes_inv [OF sm1(2)] tpcc_registry_simps(7) a1, of 2 "to_bytes (oldest row + 1)"]
      by (auto simp: oldest_advanced_def)
    have td: "to_deliver E w (db_abs T sm) d = Some (oldest row)"
      using dno b(2) by (simp add: to_deliver_def)
    have "becomes T ?R sm sm2 (a_take E w d)"
      using becomes_trans [OF sm1(2) sm2(2)] td dno ids by (simp add: becomes_def a_take_def a_modify_def)
    then show thesis using some [OF a(1) read b(1) sm1(1) sm2(1) _ td] by blast
  next
    assume n: "sm_selectRecord T ?N ?qs sm = Inr None" "table_map T sm ?N (predicate_key new_order_schema ?qs) = None"
    then have "to_deliver E w (db_abs T sm) d = None" using dno by (simp add: to_deliver_def)
    then show thesis using no [OF a(1) read n(1)] by blast
  qed
qed

lemma deliverySubTxn1Single_does:
  assumes inv: "tpcc_inv T E sm"
    and dno: "table_map T sm DISTRICT_NEW_ORDER_TABLE_ID (dno_key (del_w_id p) d) \<noteq> None"
  obtains sm' where "deliverySubTxn1Single T E p d o_id sm =
      Inr (case to_deliver E (del_w_id p) (db_abs T sm) d of None \<Rightarrow> o_id | Some no_o_id \<Rightarrow> no_o_id, sm')"
    "becomes T (tpcc_registry (env_cfg E)) sm sm' (a_take E (del_w_id p) d)"
proof -
  obtain row where row: "table_map T sm DISTRICT_NEW_ORDER_TABLE_ID (dno_key (del_w_id p) d) = Some row"
    using dno by blast
  show thesis
  proof (rule take_order [OF inv row])
    fix a b sm1 sm2
    assume s: "sm_selectRecord T DISTRICT_NEW_ORDER_TABLE_ID [(0, to_bytes (del_w_id p)), (Suc 0, to_bytes d)] sm = Inr (Some a)"
      "sm_readColumn sm DISTRICT_NEW_ORDER_TABLE_ID (Some a) 2 = Inr (col_data district_new_order_schema 2 row)"
      "sm_selectRecord T (NEW_ORDER_TABLE_ID + district_part E (del_w_id p) d)
         [(0, to_bytes (oldest row)), (Suc 0, to_bytes d), (2, to_bytes (del_w_id p))] sm = Inr (Some b)"
      "sm_deleteRecord T (NEW_ORDER_TABLE_ID + district_part E (del_w_id p) d) (Some b) sm = Inr sm1"
      "sm_updateRecord_one DISTRICT_NEW_ORDER_TABLE_ID (Some a)
         \<lparr>cp_column_id = 2, cp_value = to_bytes (oldest row + 1)\<rparr> sm1 = Inr sm2"
      and b: "becomes T (tpcc_registry (env_cfg E)) sm sm2 (a_take E (del_w_id p) d)"
      and td: "to_deliver E (del_w_id p) (db_abs T sm) d = Some (oldest row)"
    show thesis
      using that [OF _ b] s td tpcc_invD(2) [OF inv] by (simp add: deliverySubTxn1Single_def Let_def tpcc_offset_eq oldest_def fld32_def)
  next
    fix a
    assume s: "sm_selectRecord T DISTRICT_NEW_ORDER_TABLE_ID [(0, to_bytes (del_w_id p)), (Suc 0, to_bytes d)] sm = Inr (Some a)"
      "sm_readColumn sm DISTRICT_NEW_ORDER_TABLE_ID (Some a) 2 = Inr (col_data district_new_order_schema 2 row)"
      "sm_selectRecord T (NEW_ORDER_TABLE_ID + district_part E (del_w_id p) d)
         [(0, to_bytes (oldest row)), (Suc 0, to_bytes d), (2, to_bytes (del_w_id p))] sm = Inr None"
      and td: "to_deliver E (del_w_id p) (db_abs T sm) d = None"
    have "becomes T (tpcc_registry (env_cfg E)) sm sm (a_take E (del_w_id p) d)"
      using becomes_refl [OF tpcc_invD(1) [OF inv]] td by (simp add: becomes_def a_take_def)
    then show thesis
      using that s td tpcc_invD(2) [OF inv] by (simp add: deliverySubTxn1Single_def Let_def tpcc_offset_eq oldest_def fld32_def)
  qed
qed

text \<open>Taking the order of one district leaves the others.\<close>

lemma to_deliver_take:
  assumes "district_part E w d < TPCC_MAX_PARTITION_CNT" "district_part E w d' < TPCC_MAX_PARTITION_CNT" "d \<noteq> d'"
  shows "to_deliver E w (a_take E w d' db) d = to_deliver E w db d"
proof -
  note ids = part_tables [OF assms(2,1)] part_tables [OF assms(1,2)]
  have "db_tab (a_take E w d' db) DISTRICT_NEW_ORDER_TABLE_ID (dno_key w d) =
      db_tab db DISTRICT_NEW_ORDER_TABLE_ID (dno_key w d)"
    "db_tab (a_take E w d' db) (NEW_ORDER_TABLE_ID + district_part E w d) (wkey [o_id, d, w]) =
      db_tab db (NEW_ORDER_TABLE_ID + district_part E w d) (wkey [o_id, d, w])" for o_id
    using ids assms(3) by (simp_all add: a_take_def split: option.split)
  then show ?thesis by (simp add: to_deliver_def split: option.split)
qed

lemma a_take_dno:
  "db_tab (a_take E w d db) DISTRICT_NEW_ORDER_TABLE_ID k = None \<longleftrightarrow> db_tab db DISTRICT_NEW_ORDER_TABLE_ID k = None"
  if "district_part E w d < TPCC_MAX_PARTITION_CNT"
  using part_tables [OF that that] by (simp add: a_take_def split: option.split)

definition a_takes :: "'g tpcc_env \<Rightarrow> 32 word \<Rightarrow> 32 word list \<Rightarrow> database \<Rightarrow> database" where
  "a_takes E w ds = fold (a_take E w) ds"

text \<open>The entries of \<open>no_o_ids\<close>.\<close>

definition deliveries :: "'g tpcc_env \<Rightarrow> 32 word \<Rightarrow> database \<Rightarrow> 32 word list \<Rightarrow> (32 word \<times> 32 word) list" where
  "deliveries E w db ds = List.map_filter (\<lambda>d. map_option (Pair d) (to_deliver E w db d)) ds"

lemma deliveries_simps:
  "deliveries E w db [] = []"
  "deliveries E w db (ds @ [d]) =
     deliveries E w db ds @ (case to_deliver E w db d of None \<Rightarrow> [] | Some o_id \<Rightarrow> [(d, o_id)])"
  by (simp_all add: deliveries_def List.map_filter_def split: option.split)

lemma deliveries_set:
  "set (deliveries E w db ds) = {(d, o_id). d \<in> set ds \<and> to_deliver E w db d = Some o_id}"
  by (induction ds rule: rev_induct) (auto simp: deliveries_simps split: option.split)

lemma deliveries_keys: "fst ` set (deliveries E w db ds) \<subseteq> set ds"
  by (auto simp: deliveries_set)

lemma deliveries_distinct:
  "distinct ds \<Longrightarrow> distinct (map fst (deliveries E w db ds))"
proof (induction ds rule: rev_induct)
  case (snoc d ds)
  then show ?case using deliveries_keys [of E w db ds] by (auto simp: deliveries_simps split: option.split)
qed (simp add: deliveries_simps)

lemma update_new_key: "k \<notin> fst ` set xs \<Longrightarrow> AList.update k v xs = xs @ [(k, v)]"
  by (induction xs) auto

lemma distinct_all_districts: "distinct all_districts"
  by code_simp

lemma deliverySubTxn1_does:
  fixes sm :: "('q, 'h, 'm) storage_manager"
  assumes inv: "tpcc_inv T E sm"
    and dno: "\<forall>d \<in> set all_districts. table_map T sm DISTRICT_NEW_ORDER_TABLE_ID (dno_key (del_w_id p) d) \<noteq> None"
  obtains sm' where "deliverySubTxn1 T E p [] sm = Inr (deliveries E (del_w_id p) (db_abs T sm) all_districts, sm')"
    "becomes T (tpcc_registry (env_cfg E)) sm sm' (a_takes E (del_w_id p) all_districts)"
proof -
  let ?R = "tpcc_registry (env_cfg E)" and ?w = "del_w_id p" and ?db = "db_abs T sm"
  have part: "district_part E ?w d < TPCC_MAX_PARTITION_CNT" for d by (rule district_part_max [OF inv])
  define I where "I ds r \<longleftrightarrow> becomes T ?R sm (snd r) (a_takes E ?w ds) \<and> fst r = deliveries E ?w ?db ds \<and>
      (\<forall>d. d \<notin> set ds \<longrightarrow> to_deliver E ?w (db_abs T (snd r)) d = to_deliver E ?w ?db d) \<and>
      (\<forall>k. table_map T (snd r) DISTRICT_NEW_ORDER_TABLE_ID k = None \<longleftrightarrow>
           table_map T sm DISTRICT_NEW_ORDER_TABLE_ID k = None)"
    for ds and r :: "(32 word \<times> 32 word) list \<times> ('q, 'h, 'm) storage_manager"
  let ?body = "\<lambda>no_d_id (no_o_ids, sm).
       bnd (sm_selectRecord T DISTRICT_NEW_ORDER_TABLE_ID
              [(0, to_bytes (del_w_id p)), (1, to_bytes no_d_id)] sm) (\<lambda>dno.
       bnd (assert_that (dno \<noteq> None)) (\<lambda>_.
       bnd (sm_readColumn sm DISTRICT_NEW_ORDER_TABLE_ID dno 2) (\<lambda>v.
       let no_o_id = of_bytes v :: 32 word in
       bnd (tpcc_offset E (del_w_id p) no_d_id) (\<lambda>offset.
       bnd (sm_selectRecord T (NEW_ORDER_TABLE_ID + offset)
              [(0, to_bytes no_o_id), (1, to_bytes no_d_id), (2, to_bytes (del_w_id p))] sm) (\<lambda>no.
       if no \<noteq> None
       then
         let no_o_ids = AList.update no_d_id no_o_id no_o_ids in
         bnd (sm_deleteRecord T (NEW_ORDER_TABLE_ID + offset) no sm) (\<lambda>sm.
         let next_o_id = no_o_id + 1 in
         bnd (sm_updateRecord_one DISTRICT_NEW_ORDER_TABLE_ID dno
                \<lparr>cp_column_id = 2, cp_value = to_bytes next_o_id\<rparr> sm) (\<lambda>sm.
         Inr (no_o_ids, sm)))
       else Inr (no_o_ids, sm))))))"
  have "\<exists>r. fold_res ?body all_districts ([], sm) = Inr r \<and> I all_districts r"
  proof (rule fold_res_returns)
    show "I [] ([], sm)"
      using becomes_refl [OF tpcc_invD(1) [OF inv]] by (simp add: I_def a_takes_def deliveries_simps id_def [symmetric])
  next
    fix ds d ds' r assume split: "all_districts = ds @ d # ds'" and r: "I ds r"
    obtain ids s where rs: "r = (ids, s)" by (cases r)
    have d: "d \<notin> set ds" "d \<in> set all_districts" using distinct_all_districts unfolding split by simp_all
    have b: "becomes T ?R sm s (a_takes E ?w ds)" and ids: "ids = deliveries E ?w ?db ds"
      and td: "to_deliver E ?w (db_abs T s) d = to_deliver E ?w ?db d"
      and other: "\<And>d'. d' \<notin> set ds \<Longrightarrow> to_deliver E ?w (db_abs T s) d' = to_deliver E ?w ?db d'"
      and dnos: "\<And>k. table_map T s DISTRICT_NEW_ORDER_TABLE_ID k = None \<longleftrightarrow> table_map T sm DISTRICT_NEW_ORDER_TABLE_ID k = None"
      using r rs d(1) by (simp_all add: I_def)
    note i1 = tpcc_inv_becomes [OF inv b]
    obtain row where row: "table_map T s DISTRICT_NEW_ORDER_TABLE_ID (dno_key ?w d) = Some row"
      using dno d(2) dnos by blast
    have upd: "AList.update d o_id ids = ids @ [(d, o_id)]" for o_id
      using update_new_key [of d ids o_id] deliveries_keys [of E ?w ?db ds] d(1) ids by blast
    have step: "I (ds @ [d]) (deliveries E ?w ?db (ds @ [d]), s')" if b': "becomes T ?R s s' (a_take E ?w d)" for s'
    proof -
      have abs: "db_abs T s' = a_take E ?w d (db_abs T s)" using b' by (simp add: becomes_def)
      have "to_deliver E ?w (db_abs T s') d' = to_deliver E ?w ?db d'" if "d' \<notin> set (ds @ [d])" for d'
        using that to_deliver_take [OF part part, of d' d] other [of d'] unfolding abs by simp
      moreover have "table_map T s' DISTRICT_NEW_ORDER_TABLE_ID k = None \<longleftrightarrow>
          table_map T sm DISTRICT_NEW_ORDER_TABLE_ID k = None" for k
        using dnos [of k] a_take_dno [OF part, where db = "db_abs T s" and k = k] unfolding becomes_tab [OF b'] by simp
      moreover have "becomes T ?R sm s' (a_takes E ?w (ds @ [d]))"
        using becomes_trans [OF b b'] by (simp add: a_takes_def)
      ultimately show ?thesis by (simp add: I_def)
    qed
    show "\<exists>s'. ?body d r = Inr s' \<and> I (ds @ [d]) s'"
    proof (rule take_order [OF i1 row])
      fix a c s1 s2
      assume sel: "sm_selectRecord T DISTRICT_NEW_ORDER_TABLE_ID [(0, to_bytes ?w), (Suc 0, to_bytes d)] s = Inr (Some a)"
        "sm_readColumn s DISTRICT_NEW_ORDER_TABLE_ID (Some a) 2 = Inr (col_data district_new_order_schema 2 row)"
        "sm_selectRecord T (NEW_ORDER_TABLE_ID + district_part E ?w d)
           [(0, to_bytes (oldest row)), (Suc 0, to_bytes d), (2, to_bytes ?w)] s = Inr (Some c)"
        "sm_deleteRecord T (NEW_ORDER_TABLE_ID + district_part E ?w d) (Some c) s = Inr s1"
        "sm_updateRecord_one DISTRICT_NEW_ORDER_TABLE_ID (Some a)
           \<lparr>cp_column_id = 2, cp_value = to_bytes (oldest row + 1)\<rparr> s1 = Inr s2"
        and b': "becomes T ?R s s2 (a_take E ?w d)" and "to_deliver E ?w (db_abs T s) d = Some (oldest row)"
      then have "?body d r = Inr (deliveries E ?w ?db (ds @ [d]), s2)"
        using td upd tpcc_invD(2) [OF inv] rs ids
        by (simp add: Let_def tpcc_offset_eq oldest_def fld32_def deliveries_simps)
      then show ?thesis using step [OF b'] by blast
    next
      fix a
      assume sel: "sm_selectRecord T DISTRICT_NEW_ORDER_TABLE_ID [(0, to_bytes ?w), (Suc 0, to_bytes d)] s = Inr (Some a)"
        "sm_readColumn s DISTRICT_NEW_ORDER_TABLE_ID (Some a) 2 = Inr (col_data district_new_order_schema 2 row)"
        "sm_selectRecord T (NEW_ORDER_TABLE_ID + district_part E ?w d)
           [(0, to_bytes (oldest row)), (Suc 0, to_bytes d), (2, to_bytes ?w)] s = Inr None"
        and td': "to_deliver E ?w (db_abs T s) d = None"
      have b': "becomes T ?R s s (a_take E ?w d)"
        using becomes_refl [OF tpcc_invD(1) [OF i1]] td' by (simp add: becomes_def a_take_def)
      have "?body d r = Inr (deliveries E ?w ?db (ds @ [d]), s)"
        using sel td td' tpcc_invD(2) [OF inv] rs ids
        by (simp add: Let_def tpcc_offset_eq oldest_def fld32_def deliveries_simps)
      then show ?thesis using step [OF b'] by blast
    qed
  qed
  then show thesis using that by (auto simp: I_def deliverySubTxn1_def)
qed

section \<open>The lines of an order\<close>

definition a_modify_where :: "nat \<Rightarrow> (bytes \<Rightarrow> bool) \<Rightarrow> (bytes \<Rightarrow> bytes) \<Rightarrow> database \<Rightarrow> database" where
  "a_modify_where i P f db =
     db\<lparr>db_tab := (db_tab db)(i := \<lambda>k. map_option (\<lambda>row. if P row then f row else row) (db_tab db i k))\<rparr>"

lemma a_modify_where_simps [simp]:
  "db_tab (a_modify_where i P f db) j k =
     (if j = i then map_option (\<lambda>row. if P row then f row else row) (db_tab db i k) else db_tab db j k)"
  "db_rows (a_modify_where i P f db) = db_rows db"
  by (simp_all add: a_modify_where_def)

definition of_order :: "32 word \<Rightarrow> 32 word \<Rightarrow> 32 word \<Rightarrow> bytes \<Rightarrow> bool" where
  "of_order o_id d w row \<longleftrightarrow>
     fld32 order_line_schema 0 row = o_id \<and> fld32 order_line_schema 1 row = d \<and> fld32 order_line_schema 2 row = w"

definition line_delivered :: "64 word \<Rightarrow> bytes \<Rightarrow> bytes" where
  "line_delivered date row = row_with order_line_schema 6 (to_bytes date) row"

text \<open>The sum of the amounts of some lines, in their order.\<close>

definition amount_sum :: "64 word dbl \<Rightarrow> (bytes \<times> bytes) list \<Rightarrow> 64 word" where
  "amount_sum D krs = fold (\<lambda>(k, row) a. d_add D a (fld64 order_line_schema 8 row)) krs (d_of_int D 0)"

text \<open>\<open>lines_listed krs P m\<close>: \<open>krs\<close> lists the entries of the map \<open>m\<close> with \<open>P\<close>, each once.\<close>

definition lines_listed :: "(bytes \<times> bytes) list \<Rightarrow> (bytes \<Rightarrow> bool) \<Rightarrow> (bytes \<Rightarrow> bytes option) \<Rightarrow> bool" where
  "lines_listed krs P m \<longleftrightarrow> distinct (map fst krs) \<and> set krs = {(k, row). m k = Some row \<and> P row}"

lemma puts_are_modify:
  assumes "lines_listed krs P (db_tab db i)"
  shows "fold (\<lambda>(k, row). a_put i k (f row)) krs db = a_modify_where i P f db"
proof -
  have fold: "fold (\<lambda>(k, row). a_put i k (f row)) krs db =
      db\<lparr>db_tab := (db_tab db)(i := db_tab db i ++ (map_option f \<circ> map_of krs))\<rparr>" if "distinct (map fst krs)" for krs
    using that
  proof (induction krs rule: rev_induct)
    case (snoc kr krs)
    obtain k row where kr: "kr = (k, row)" by (cases kr)
    have "map_of krs k = None" using snoc.prems kr by (auto simp: map_of_eq_None_iff)
    then show ?case
      using snoc kr by (auto simp: a_put_def map_add_def fun_eq_iff split: option.split)
  qed (simp add: comp_def map_add_def)
  have d: "distinct (map fst krs)" and s: "set krs = {(k, row). db_tab db i k = Some row \<and> P row}"
    using assms by (simp_all add: lines_listed_def)
  have m: "map_of krs k = Some row \<longleftrightarrow> db_tab db i k = Some row \<and> P row" for k row
    using map_of_eq_Some_iff [OF d] s by auto
  have "(db_tab db i ++ (map_option f \<circ> map_of krs)) k =
      map_option (\<lambda>row. if P row then f row else row) (db_tab db i k)" for k
  proof (cases "map_of krs k")
    case None
    then show ?thesis using m [of k] by (cases "db_tab db i k") (auto simp: map_add_def)
  next
    case (Some row)
    then show ?thesis using m [of k row] by (simp add: map_add_def)
  qed
  then show ?thesis unfolding fold [OF d] a_modify_where_def by (simp add: fun_eq_iff)
qed

lemma of_order_matches:
  assumes "length row = 76"
  shows "matches order_line_schema [(0, to_bytes o_id), (Suc 0, to_bytes d), (2, to_bytes w)] row \<longleftrightarrow>
    of_order o_id d w row"
  using assms tpcc_schema_inv(8) by (simp add: of_order_def fld32_eq_iff)

lemma updateRecords_one_nth:
  assumes "r < length (data_ptrs rs)"
  shows "sm_updateRecords_one i rs r q sm = sm_updateRecord_one i (Some (data_ptrs rs ! r)) q sm"
  using assms
  by (simp add: sm_updateRecords_one_def sm_updateRecord_one_def with_table_def SchemaTable_updateRecords_one_def
      SchemaTable_updateRecord_one_def getRecord_def)

lemma readRecordsColumn_nth:
  "r < length (data_ptrs rs) \<Longrightarrow> sm_readRecordsColumn sm i rs r c = sm_readColumn sm i (Some (data_ptrs rs ! r)) c"
  by (simp add: sm_readRecordsColumn_def getRecord_def)

lemma line_free: "free_column order_line_schema [order_line_index] 6"
  by simp

text \<open>One pass over the lines: the dates are set, and the amounts are added in the order of the index.\<close>

lemma deliver_lines:
  fixes sm :: "('q, 'h, 'm) storage_manager"
  assumes inv: "tpcc_inv T E sm" and R: "tpcc_registry (env_cfg E) i = Some (order_line_schema, True, [order_line_index])"
    and as: "distinct as" "data_ptrs rs = as" "selected_rows sm i as krs"
  obtains sm' where "fold_res (\<lambda>r (amount, sm).
       bnd (sm_updateRecords_one i rs r \<lparr>cp_column_id = 6, cp_value = to_bytes date\<rparr> sm) (\<lambda>sm.
       bnd (sm_readRecordsColumn sm i rs r 8) (\<lambda>v. Inr (d_add D amount (of_bytes v), sm))))
       [0..<length as] (d_of_int D 0, sm) = Inr (amount_sum D krs, sm')"
    "becomes T (tpcc_registry (env_cfg E)) sm sm' (fold (\<lambda>(k, row). a_put i k (line_delivered date row)) krs)"
proof -
  let ?R = "tpcc_registry (env_cfg E)" and ?n = "length as" and ?P = "\<lambda>(k, row). a_put i k (line_delivered date row)"
  let ?body = "\<lambda>r (amount, sm).
       bnd (sm_updateRecords_one i rs r \<lparr>cp_column_id = 6, cp_value = to_bytes date\<rparr> sm) (\<lambda>sm.
       bnd (sm_readRecordsColumn sm i rs r 8) (\<lambda>v. Inr (d_add D amount (of_bytes v), sm)))"
  have len: "length krs = ?n" using as(3) by (simp add: selected_rows_def list_all2_lengthD)
  have at: "points_to sm i (as ! j) (fst (krs ! j)) (snd (krs ! j))" if "j < ?n" for j
    using list_all2_nthD [OF as(3) [unfolded selected_rows_def] that] by (simp add: split_beta)
  define I where "I k r \<longleftrightarrow> becomes T ?R sm (snd r) (fold ?P (take k krs)) \<and> fst r = amount_sum D (take k krs) \<and>
      (\<forall>j. k \<le> j \<and> j < ?n \<longrightarrow> points_to (snd r) i (as ! j) (fst (krs ! j)) (snd (krs ! j)))"
    for k and r :: "64 word \<times> ('q, 'h, 'm) storage_manager"
  have "\<exists>r. fold_res ?body [0..<?n] (d_of_int D 0, sm) = Inr r \<and> I ?n r"
  proof (rule fold_res_upt_returns)
    show "I 0 (d_of_int D 0, sm)"
      using becomes_refl [OF tpcc_invD(1) [OF inv]] at by (simp add: I_def amount_sum_def id_def [symmetric])
  next
    fix k r assume k: "k < ?n" and r: "I k r"
    obtain am s where rs': "r = (am, s)" by (cases r)
    obtain key row where kr: "krs ! k = (key, row)" by fastforce
    have b: "becomes T ?R sm s (fold ?P (take k krs))" and am: "am = amount_sum D (take k krs)"
      and pts: "\<And>j. k \<le> j \<Longrightarrow> j < ?n \<Longrightarrow> points_to s i (as ! j) (fst (krs ! j)) (snd (krs ! j))"
      using r rs' by (simp_all add: I_def)
    have pt: "points_to s i (as ! k) key row" using pts [of k] k kr by simp
    have colsz: "col_size order_line_schema 6 \<le> length (to_bytes date)" by simp
    obtain s' where s': "sm_updateRecord_one i (Some (as ! k)) \<lparr>cp_column_id = 6, cp_value = to_bytes date\<rparr> s = Inr s'"
        "becomes T ?R s s' (a_put i key (line_delivered date row))"
        "points_to s' i (as ! k) key (line_delivered date row)" "others_kept s s' i (as ! k)"
      using update_one_keyed [OF becomes_inv [OF b] R pt line_free colsz] by (auto simp: line_delivered_def)
    have rowlen: "length row = 76" using points_to_length [OF becomes_inv [OF b] R pt] by simp
    have "sm_readColumn s' i (Some (as ! k)) 8 = Inr (col_data order_line_schema 8 row)"
      using read_column [OF becomes_inv [OF s'(2)] R s'(3), of 8] rowlen tpcc_schema_inv(8)
      by (simp add: line_delivered_def col_data_row_with)
    then have run: "?body k r = Inr (amount_sum D (take (Suc k) krs), s')"
      using s'(1) k as(2) am kr len
      by (simp add: rs' updateRecords_one_nth readRecordsColumn_nth amount_sum_def take_Suc_conv_app_nth fld64_def)
    have "points_to s' i (as ! j) (fst (krs ! j)) (snd (krs ! j))" if "Suc k \<le> j" "j < ?n" for j
      using s'(4) pts [of j] that as(1) k nth_eq_iff_index_eq [OF as(1), of j k] by (auto simp: others_kept_def)
    moreover have "becomes T ?R sm s' (fold ?P (take (Suc k) krs))"
      using becomes_trans [OF b s'(2)] k kr len by (simp add: take_Suc_conv_app_nth)
    ultimately have "I (Suc k) (amount_sum D (take (Suc k) krs), s')" by (simp add: I_def)
    then show "\<exists>r'. ?body k r = Inr r' \<and> I (Suc k) r'" using run by blast
  qed
  then show thesis using that len by (auto simp: I_def)
qed

lemma deliverySubTxn2Single_does:
  assumes inv: "tpcc_inv T E sm"
    and lines: "table_map T sm (ORDER_LINE_TABLE_ID + district_part E (del_w_id p) d) k = Some row"
      "of_order o_id d (del_w_id p) row"
  obtains sm' krs where "deliverySubTxn2Single T E p d o_id sm = Inr (amount_sum (env_dbl E) krs, sm')"
    "lines_listed krs (of_order o_id d (del_w_id p)) (table_map T sm (ORDER_LINE_TABLE_ID + district_part E (del_w_id p) d))"
    "becomes T (tpcc_registry (env_cfg E)) sm sm'
       (a_modify_where (ORDER_LINE_TABLE_ID + district_part E (del_w_id p) d) (of_order o_id d (del_w_id p))
         (line_delivered (del_ol_delivery_d p)))"
proof -
  let ?R = "tpcc_registry (env_cfg E)" and ?i = "ORDER_LINE_TABLE_ID + district_part E (del_w_id p) d"
  let ?ps = "[(0, to_bytes o_id), (Suc 0, to_bytes d), (2, to_bytes (del_w_id p))]"
  note inv' = tpcc_invD(1) [OF inv] and R = tpcc_invD(5) [OF inv, of "del_w_id p" d]
  have ps: "predicates_valid order_line_schema ?ps" "getPredicateColumnSymbol order_line_schema ?ps \<in> set [order_line_index]"
    by (simp_all add: getPredicateColumnSymbol_def order_line_index_def)
  obtain rs krs where sel: "sm_selectRecords T ?i ?ps sm = Inr rs" "distinct (data_ptrs rs)"
      "selected_rows sm ?i (data_ptrs rs) krs" "distinct (map fst krs)"
      "set krs = {(k, row). table_map T sm ?i k = Some row \<and> matches order_line_schema ?ps row}"
    by (rule select_several [OF inv' R ps])
  have len: "length r = 76" if "table_map T sm ?i k' = Some r" for k' r
    using map_row_length [OF inv' R that] by simp
  have listed: "lines_listed krs (of_order o_id d (del_w_id p)) (table_map T sm ?i)"
    using sel(4,5) by (auto simp: lines_listed_def of_order_matches [OF len] simp del: matches_simps)
  then have "(k, row) \<in> set krs" using lines by (simp add: lines_listed_def)
  then have "data_ptrs rs \<noteq> []" using sel(3) by (auto simp: selected_rows_def)
  then have num: "getRecordNum rs \<noteq> 0" by (simp add: getRecordNum_def)
  obtain sm' where sm': "fold_res (\<lambda>r (amount, sm).
       bnd (sm_updateRecords_one ?i rs r \<lparr>cp_column_id = 6, cp_value = to_bytes (del_ol_delivery_d p)\<rparr> sm) (\<lambda>sm.
       bnd (sm_readRecordsColumn sm ?i rs r 8) (\<lambda>v. Inr (d_add (env_dbl E) amount (of_bytes v), sm))))
       [0..<length (data_ptrs rs)] (d_of_int (env_dbl E) 0, sm) = Inr (amount_sum (env_dbl E) krs, sm')"
      "becomes T ?R sm sm' (fold (\<lambda>(k, row). a_put ?i k (line_delivered (del_ol_delivery_d p) row)) krs)"
    by (rule deliver_lines [OF inv R sel(2) refl sel(3)])
  have "deliverySubTxn2Single T E p d o_id sm = Inr (amount_sum (env_dbl E) krs, sm')"
    using sel(1) num sm'(1) tpcc_invD(2) [OF inv]
    by (simp add: deliverySubTxn2Single_def tpcc_offset_eq getRecordNum_def numeral_2_eq_2)
  moreover have "becomes T ?R sm sm' (a_modify_where ?i (of_order o_id d (del_w_id p)) (line_delivered (del_ol_delivery_d p)))"
    using sm'(2) puts_are_modify [of krs "of_order o_id d (del_w_id p)" "db_abs T sm" ?i] listed by (simp add: becomes_def)
  ultimately show thesis using that listed by blast
qed

section \<open>All districts\<close>

text \<open>The loops of \<open>deliverySubTxn2\<close> and \<open>deliverySubTxn3\<close> over the districts, which collect one value for each.\<close>

lemma per_district:
  fixes sm :: "('q, 'h, 'm) storage_manager"
  assumes inv: "db_inv T R sm" and d: "distinct (map fst xs)"
    and step: "\<And>ys k x zs s. xs = ys @ (k, x) # zs \<Longrightarrow> becomes T R sm s (fold (\<lambda>(k, x). g k x) ys) \<Longrightarrow>
      \<exists>v s'. f k x s = Inr (v, s') \<and> becomes T R s s' (g k x) \<and> Q k x v"
  obtains m sm' where "fold_res (\<lambda>(k, x) (m, sm). bnd (f k x sm) (\<lambda>(v, sm). Inr (AList.update k v m, sm))) xs ([], sm) = Inr (m, sm')"
    "\<forall>(k, x) \<in> set xs. \<exists>v. map_of m k = Some v \<and> Q k x v" "becomes T R sm sm' (fold (\<lambda>(k, x). g k x) xs)"
proof -
  let ?body = "\<lambda>(k, x) (m, sm). bnd (f k x sm) (\<lambda>(v, sm). Inr (AList.update k v m, sm))"
  define I where "I ys r \<longleftrightarrow> becomes T R sm (snd r) (fold (\<lambda>(k, x). g k x) ys) \<and>
      (\<forall>(k, x) \<in> set ys. \<exists>v. map_of (fst r) k = Some v \<and> Q k x v)" for ys and r :: "_ \<times> ('q, 'h, 'm) storage_manager"
  have "\<exists>r. fold_res ?body xs ([], sm) = Inr r \<and> I xs r"
  proof (rule fold_res_returns)
    show "I [] ([], sm)" using becomes_refl [OF inv] by (simp add: I_def id_def [symmetric])
  next
    fix ys kx zs r assume split: "xs = ys @ kx # zs" and r: "I ys r"
    obtain k x where kx: "kx = (k, x)" by (cases kx)
    obtain m s where ms: "r = (m, s)" by (cases r)
    have b: "becomes T R sm s (fold (\<lambda>(k, x). g k x) ys)"
      and old: "\<And>k' x'. (k', x') \<in> set ys \<Longrightarrow> \<exists>v. map_of m k' = Some v \<and> Q k' x' v"
      using r ms by (auto simp: I_def)
    obtain v s' where s': "f k x s = Inr (v, s')" "becomes T R s s' (g k x)" "Q k x v"
      using step [OF split [unfolded kx] b] by blast
    have new: "k \<notin> fst ` set ys" using d split kx by auto
    have "\<exists>v'. map_of (AList.update k v m) k' = Some v' \<and> Q k' x' v'" if "(k', x') \<in> set (ys @ [kx])" for k' x'
    proof (cases "k' = k")
      case True
      then have "x' = x" using that new kx by force
      then show ?thesis using True s'(3) by (simp add: update_conv)
    next
      case False
      then show ?thesis using that old [of k' x'] kx by (auto simp: update_conv)
    qed
    moreover have "becomes T R sm s' (fold (\<lambda>(k, x). g k x) (ys @ [kx]))"
      using becomes_trans [OF b s'(2)] kx by simp
    ultimately have "I (ys @ [kx]) (AList.update k v m, s')" unfolding I_def by auto
    moreover have "?body kx r = Inr (AList.update k v m, s')" using s'(1) kx ms by simp
    ultimately show "\<exists>s'. ?body kx r = Inr s' \<and> I (ys @ [kx]) s'" by blast
  qed
  then obtain m sm' where "fold_res ?body xs ([], sm) = Inr (m, sm')" "I xs (m, sm')" by auto
  then show thesis using that by (simp add: I_def)
qed

definition order_lines :: "'g tpcc_env \<Rightarrow> 32 word \<Rightarrow> 32 word \<Rightarrow> 32 word \<Rightarrow> database \<Rightarrow> (bytes \<times> bytes) set" where
  "order_lines E w d o_id db =
     {(k, row). db_tab db (ORDER_LINE_TABLE_ID + district_part E w d) k = Some row \<and> of_order o_id d w row}"

definition lines_wf :: "'g tpcc_env \<Rightarrow> 32 word \<Rightarrow> database \<Rightarrow> bool" where
  "lines_wf E w db \<longleftrightarrow>
     (\<forall>d k row. db_tab db (ORDER_LINE_TABLE_ID + district_part E w d) k = Some row \<longrightarrow> length row = 76)"

definition a_deliver_lines :: "'g tpcc_env \<Rightarrow> delivery_param \<Rightarrow> 32 word \<Rightarrow> 32 word \<Rightarrow> database \<Rightarrow> database" where
  "a_deliver_lines E p d o_id =
     a_modify_where (ORDER_LINE_TABLE_ID + district_part E (del_w_id p) d) (of_order o_id d (del_w_id p))
       (line_delivered (del_ol_delivery_d p))"

lemma line_delivered_cols:
  assumes "length row = 76"
  shows "length (line_delivered date row) = 76" "of_order o_id d w (line_delivered date row) = of_order o_id d w row"
    "fld64 order_line_schema 8 (line_delivered date row) = fld64 order_line_schema 8 row"
    "fld64 order_line_schema 6 (line_delivered date row) = date"
  using assms tpcc_schema_inv(8)
  by (simp_all add: line_delivered_def length_row_with of_order_def fld32_def fld64_def col_data_row_with)

lemma deliver_lines_wf: "lines_wf E (del_w_id p) db \<Longrightarrow> lines_wf E (del_w_id p) (a_deliver_lines E p d o_id db)"
  by (auto simp: lines_wf_def a_deliver_lines_def line_delivered_cols split: if_splits)

lemma order_lines_deliver:
  assumes "lines_wf E (del_w_id p) db" "d \<noteq> d'"
  shows "order_lines E (del_w_id p) d o_id (a_deliver_lines E p d' o_id' db) = order_lines E (del_w_id p) d o_id db"
proof -
  let ?t = "ORDER_LINE_TABLE_ID + district_part E (del_w_id p) d" and ?P = "of_order o_id d (del_w_id p)"
  have "db_tab (a_deliver_lines E p d' o_id' db) ?t k = Some row \<and> ?P row \<longleftrightarrow> db_tab db ?t k = Some row \<and> ?P row" for k row
  proof (cases "db_tab db ?t k")
    case (Some row0)
    have len: "length row0 = 76" using assms(1) Some by (simp add: lines_wf_def)
    have "?P row0 \<Longrightarrow> \<not> of_order o_id' d' (del_w_id p) row0" using assms(2) by (auto simp: of_order_def)
    then show ?thesis
      using Some line_delivered_cols(2) [OF len] by (auto simp: a_deliver_lines_def)
  next
    case None
    then show ?thesis
      by (cases "district_part E (del_w_id p) d = district_part E (del_w_id p) d'") (simp_all add: a_deliver_lines_def)
  qed
  then show ?thesis by (simp add: order_lines_def)
qed

lemma deliver_all_lines:
  assumes "lines_wf E (del_w_id p) db" "d \<notin> fst ` set ys"
  shows "order_lines E (del_w_id p) d o_id (fold (\<lambda>(d, o_id). a_deliver_lines E p d o_id) ys db) =
      order_lines E (del_w_id p) d o_id db" (is ?lines)
    "lines_wf E (del_w_id p) (fold (\<lambda>(d, o_id). a_deliver_lines E p d o_id) ys db)" (is ?wf)
proof -
  have "?lines \<and> ?wf"
    using assms(2)
  proof (induction ys rule: rev_induct)
    case (snoc y ys)
    then show ?case by (cases y) (simp add: order_lines_deliver deliver_lines_wf)
  qed (simp add: assms(1))
  then show ?lines ?wf by simp_all
qed

lemma tpcc_lines_wf: "tpcc_inv T E sm \<Longrightarrow> lines_wf E w (db_abs T sm)"
  unfolding lines_wf_def
proof (intro allI impI)
  fix d k row assume inv: "tpcc_inv T E sm"
    and row: "db_tab (db_abs T sm) (ORDER_LINE_TABLE_ID + district_part E w d) k = Some row"
  show "length row = 76"
    using map_row_length [OF tpcc_invD(1) [OF inv] tpcc_invD(5) [OF inv, of w d], of k row] row by simp
qed

text \<open>The iteration visits each entry once.\<close>

definition order_ok :: "'g tpcc_env \<Rightarrow> bool" where
  "order_ok E \<longleftrightarrow> (\<forall>xs. mset (env_order E xs) = mset xs)"

text \<open>\<open>amounts_of E p db xs amount\<close>: each amount is the sum over the lines of the order, in some order.\<close>

definition amount_of_lines :: "'g tpcc_env \<Rightarrow> 32 word \<Rightarrow> database \<Rightarrow> 32 word \<Rightarrow> 32 word \<Rightarrow> 64 word \<Rightarrow> bool" where
  "amount_of_lines E w db d o_id amount \<longleftrightarrow>
     (\<exists>krs. distinct (map fst krs) \<and> set krs = order_lines E w d o_id db \<and> amount = amount_sum (env_dbl E) krs)"

lemma deliverySubTxn2_does:
  assumes inv: "tpcc_inv T E sm" and d: "distinct (map fst (env_order E ids))"
    and lines: "\<forall>(d, o_id) \<in> set (env_order E ids). order_lines E (del_w_id p) d o_id (db_abs T sm) \<noteq> {}"
  obtains m sm' where "deliverySubTxn2 T E p ids [] sm = Inr (m, sm')"
    "\<forall>(d, o_id) \<in> set (env_order E ids). \<exists>v. map_of m d = Some v \<and> amount_of_lines E (del_w_id p) (db_abs T sm) d o_id v"
    "becomes T (tpcc_registry (env_cfg E)) sm sm' (fold (\<lambda>(d, o_id). a_deliver_lines E p d o_id) (env_order E ids))"
proof -
  let ?R = "tpcc_registry (env_cfg E)" and ?w = "del_w_id p" and ?db = "db_abs T sm"
  have step: "\<exists>v s'. deliverySubTxn2Single T E p d o_id s = Inr (v, s') \<and> becomes T ?R s s' (a_deliver_lines E p d o_id) \<and>
      amount_of_lines E ?w ?db d o_id v"
    if split: "env_order E ids = ys @ (d, o_id) # zs"
      and b: "becomes T ?R sm s (fold (\<lambda>(d, o_id). a_deliver_lines E p d o_id) ys)" for ys d o_id zs s
  proof -
    have new: "d \<notin> fst ` set ys" using assms(2) split by auto
    have abs: "db_abs T s = fold (\<lambda>(d, o_id). a_deliver_lines E p d o_id) ys ?db" using b by (simp add: becomes_def)
    have same: "order_lines E ?w d o_id (db_abs T s) = order_lines E ?w d o_id ?db"
      unfolding abs by (rule deliver_all_lines(1) [OF tpcc_lines_wf [OF inv] new])
    have "order_lines E ?w d o_id (db_abs T s) \<noteq> {}" unfolding same using lines split by auto
    then obtain k row where row: "table_map T s (ORDER_LINE_TABLE_ID + district_part E ?w d) k = Some row" "of_order o_id d ?w row"
      by (auto simp: order_lines_def)
    obtain s' krs where s': "deliverySubTxn2Single T E p d o_id s = Inr (amount_sum (env_dbl E) krs, s')"
        "lines_listed krs (of_order o_id d ?w) (table_map T s (ORDER_LINE_TABLE_ID + district_part E ?w d))"
        "becomes T ?R s s' (a_modify_where (ORDER_LINE_TABLE_ID + district_part E ?w d) (of_order o_id d ?w)
          (line_delivered (del_ol_delivery_d p)))"
      by (rule deliverySubTxn2Single_does [OF tpcc_inv_becomes [OF inv b] row])
    have "set krs = order_lines E ?w d o_id ?db" "distinct (map fst krs)"
      using s'(2) unfolding same [symmetric] by (simp_all add: lines_listed_def order_lines_def)
    then have "amount_of_lines E ?w ?db d o_id (amount_sum (env_dbl E) krs)" by (auto simp: amount_of_lines_def)
    then show ?thesis using s'(1,3) unfolding a_deliver_lines_def by blast
  qed
  show thesis
  proof (rule per_district [OF tpcc_invD(1) [OF inv] d])
    show "\<exists>v s'. deliverySubTxn2Single T E p k x s = Inr (v, s') \<and> becomes T ?R s s' (a_deliver_lines E p k x) \<and>
        amount_of_lines E ?w ?db k x v"
      if "env_order E ids = ys @ (k, x) # zs" "becomes T ?R sm s (fold (\<lambda>(k, x). a_deliver_lines E p k x) ys)" for ys k x zs s
      by (rule step [OF that])
  qed (use that in \<open>simp add: deliverySubTxn2_def\<close>)
qed

section \<open>The orders and their customers\<close>

definition order_delivered :: "32 word \<Rightarrow> bytes \<Rightarrow> bytes" where
  "order_delivered carrier row = row_with order_schema 5 (to_bytes carrier) row"

definition a_deliver_order :: "'g tpcc_env \<Rightarrow> delivery_param \<Rightarrow> 32 word \<Rightarrow> 32 word \<Rightarrow> database \<Rightarrow> database" where
  "a_deliver_order E p d o_id =
     a_modify (ORDER_TABLE_ID + district_part E (del_w_id p) d) (wkey [o_id, d, del_w_id p])
       (order_delivered (del_o_carrier_id p))"

definition order_at :: "'g tpcc_env \<Rightarrow> 32 word \<Rightarrow> 32 word \<Rightarrow> 32 word \<Rightarrow> database \<Rightarrow> bytes option" where
  "order_at E w d o_id db = db_tab db (ORDER_TABLE_ID + district_part E w d) (wkey [o_id, d, w])"

definition customer_of :: "bytes \<Rightarrow> 32 word" where
  "customer_of row = fld32 order_schema 1 row"

lemma deliverySubTxn3Single_does:
  assumes inv: "tpcc_inv T E sm" and row: "order_at E (del_w_id p) d o_id (db_abs T sm) = Some row"
  obtains sm' where "deliverySubTxn3Single T E p d o_id sm = Inr (customer_of row, sm')"
    "becomes T (tpcc_registry (env_cfg E)) sm sm' (a_deliver_order E p d o_id)"
proof -
  let ?R = "tpcc_registry (env_cfg E)" and ?i = "ORDER_TABLE_ID + district_part E (del_w_id p) d"
  let ?k = "wkey [o_id, d, del_w_id p]" and ?ps = "[(0, to_bytes o_id), (2, to_bytes d), (3, to_bytes (del_w_id p))]"
  note i = tpcc_invD(1) [OF inv] and R = tpcc_invD(3) [OF inv, of "del_w_id p" d]
  have row': "table_map T sm ?i ?k = Some row" using row by (simp add: order_at_def)
  obtain a where a: "sm_selectRecord T ?i ?ps sm = Inr (Some a)" "points_to sm ?i a ?k row"
    using select_found [OF i R, of ?ps row] row' by auto
  obtain sm' where sm': "sm_updateRecord_one ?i (Some a) \<lparr>cp_column_id = 5, cp_value = to_bytes (del_o_carrier_id p)\<rparr> sm = Inr sm'"
      "becomes T ?R sm sm' (a_put ?i ?k (order_delivered (del_o_carrier_id p) row))"
      "points_to sm' ?i a ?k (order_delivered (del_o_carrier_id p) row)"
    using update_one_keyed [OF i R a(2), of 5 "to_bytes (del_o_carrier_id p)"] by (auto simp: order_delivered_def)
  have len: "length row = 36" using map_row_length [OF i R row'] by simp
  have "sm_readColumn sm' ?i (Some a) 1 = Inr (col_data order_schema 1 row)"
    using read_column [OF becomes_inv [OF sm'(2)] R sm'(3), of 1] len tpcc_schema_inv(6)
    by (simp add: order_delivered_def col_data_row_with)
  then have "deliverySubTxn3Single T E p d o_id sm = Inr (customer_of row, sm')"
    using a(1) sm'(1) tpcc_invD(2) [OF inv]
    by (simp add: deliverySubTxn3Single_def tpcc_offset_eq customer_of_def fld32_def)
  moreover have "does T ?R (Inr sm') sm (a_deliver_order E p d o_id)"
    unfolding a_deliver_order_def by (intro does_modify [OF _ sm'(2) row']) simp_all
  ultimately show thesis using that by (simp add: does_def)
qed

lemma order_at_deliver:
  assumes "d \<notin> fst ` set ys"
  shows "order_at E (del_w_id p) d o_id (fold (\<lambda>(d, o_id). a_deliver_order E p d o_id) ys db) =
    order_at E (del_w_id p) d o_id db"
  using assms by (induction ys rule: rev_induct) (auto simp: order_at_def a_deliver_order_def)

lemma deliverySubTxn3_does:
  assumes inv: "tpcc_inv T E sm" and d: "distinct (map fst (env_order E ids))"
    and orders: "\<forall>(d, o_id) \<in> set (env_order E ids). order_at E (del_w_id p) d o_id (db_abs T sm) \<noteq> None"
  obtains m sm' where "deliverySubTxn3 T E p ids [] sm = Inr (m, sm')"
    "\<forall>(d, o_id) \<in> set (env_order E ids). \<exists>v. map_of m d = Some v \<and>
       v = customer_of (the (order_at E (del_w_id p) d o_id (db_abs T sm)))"
    "becomes T (tpcc_registry (env_cfg E)) sm sm' (fold (\<lambda>(d, o_id). a_deliver_order E p d o_id) (env_order E ids))"
proof -
  let ?R = "tpcc_registry (env_cfg E)" and ?w = "del_w_id p" and ?db = "db_abs T sm"
  have step: "\<exists>v s'. deliverySubTxn3Single T E p d o_id s = Inr (v, s') \<and> becomes T ?R s s' (a_deliver_order E p d o_id) \<and>
      v = customer_of (the (order_at E ?w d o_id ?db))"
    if split: "env_order E ids = ys @ (d, o_id) # zs"
      and b: "becomes T ?R sm s (fold (\<lambda>(d, o_id). a_deliver_order E p d o_id) ys)" for ys d o_id zs s
  proof -
    have new: "d \<notin> fst ` set ys" using assms(2) split by auto
    have abs: "db_abs T s = fold (\<lambda>(d, o_id). a_deliver_order E p d o_id) ys ?db" using b by (simp add: becomes_def)
    have same: "order_at E ?w d o_id (db_abs T s) = order_at E ?w d o_id ?db"
      unfolding abs by (rule order_at_deliver [OF new])
    obtain row where row: "order_at E ?w d o_id ?db = Some row" using orders split by auto
    show ?thesis
      using deliverySubTxn3Single_does [OF tpcc_inv_becomes [OF inv b], of p d o_id row] same row by auto
  qed
  show thesis
  proof (rule per_district [OF tpcc_invD(1) [OF inv] d])
    show "\<exists>v s'. deliverySubTxn3Single T E p k x s = Inr (v, s') \<and> becomes T ?R s s' (a_deliver_order E p k x) \<and>
        v = customer_of (the (order_at E ?w k x ?db))"
      if "env_order E ids = ys @ (k, x) # zs" "becomes T ?R sm s (fold (\<lambda>(k, x). a_deliver_order E p k x) ys)" for ys k x zs s
      by (rule step [OF that])
  qed (use that in \<open>simp add: deliverySubTxn3_def\<close>)
qed

definition customer_credited :: "64 word dbl \<Rightarrow> 64 word \<Rightarrow> bytes \<Rightarrow> bytes" where
  "customer_credited D amount row =
     row_with customer_schema 16 (to_bytes (d_add D (fld64 customer_schema 16 row) amount)) row"

definition a_credit :: "64 word dbl \<Rightarrow> 32 word \<Rightarrow> 32 word \<Rightarrow> 32 word \<Rightarrow> 64 word \<Rightarrow> database \<Rightarrow> database" where
  "a_credit D w d c_id amount = a_modify CUSTOMER_TABLE_ID (wkey [c_id, d, w]) (customer_credited D amount)"

lemma deliverySubTxn4Single_does:
  assumes inv: "tpcc_inv T E sm" and row: "table_map T sm CUSTOMER_TABLE_ID (wkey [c_id, d, del_w_id p]) \<noteq> None"
  shows "does T (tpcc_registry (env_cfg E)) (deliverySubTxn4Single T E p d amount c_id sm) sm
    (a_credit (env_dbl E) (del_w_id p) d c_id amount)"
proof -
  let ?R = "tpcc_registry (env_cfg E)" and ?i = CUSTOMER_TABLE_ID and ?k = "wkey [c_id, d, del_w_id p]"
  let ?ps = "[(0, to_bytes c_id), (Suc 0, to_bytes d), (2, to_bytes (del_w_id p))]"
  note i = tpcc_invD(1) [OF inv]
  obtain row where row: "table_map T sm ?i ?k = Some row" using row by blast
  obtain a where a: "sm_selectRecord T ?i ?ps sm = Inr (Some a)" "points_to sm ?i a ?k row"
    using select_found [OF i tpcc_registry_simps(4), of ?ps row] row by auto
  have read: "sm_readColumn sm ?i (Some a) 16 = Inr (col_data customer_schema 16 row)"
    using read_column [OF i tpcc_registry_simps(4) a(2)] by simp
  let ?v = "to_bytes (d_add (env_dbl E) (fld64 customer_schema 16 row) amount)"
  obtain sm' where sm': "sm_updateRecord_one ?i (Some a) \<lparr>cp_column_id = 16, cp_value = ?v\<rparr> sm = Inr sm'"
      "becomes T ?R sm sm' (a_put ?i ?k (customer_credited (env_dbl E) amount row))"
    using update_one_keyed [OF i tpcc_registry_simps(4) a(2), of 16 ?v] by (auto simp: customer_credited_def)
  show ?thesis
    unfolding a_credit_def
    using a(1) read sm'(1)
    by (intro does_modify [OF _ sm'(2) row])
      (simp_all add: deliverySubTxn4Single_def Let_def fld64_def numeral_2_eq_2)
qed

lemma deliverySubTxn4_does:
  fixes sm :: "('q, 'h, 'm) storage_manager"
  assumes inv: "tpcc_inv T E sm"
    and known: "\<forall>(d, o_id) \<in> set (env_order E ids). map_of c_ids d = Some (cust d) \<and> map_of amounts d = Some (amount d) \<and>
      table_map T sm CUSTOMER_TABLE_ID (wkey [cust d, d, del_w_id p]) \<noteq> None"
  shows "does T (tpcc_registry (env_cfg E)) (deliverySubTxn4 T E p ids amounts c_ids sm) sm
    (fold (\<lambda>(d, o_id). a_credit (env_dbl E) (del_w_id p) d (cust d) (amount d)) (env_order E ids))"
proof -
  let ?R = "tpcc_registry (env_cfg E)" and ?g = "\<lambda>(d, o_id :: 32 word). a_credit (env_dbl E) (del_w_id p) d (cust d) (amount d)"
  let ?body = "\<lambda>(d, no_o_id :: 32 word) sm.
       bnd (map_at c_ids d) (\<lambda>c_id. bnd (map_at amounts d) (\<lambda>amount. deliverySubTxn4Single T E p d amount c_id sm))"
  define I where "I ys s \<longleftrightarrow> becomes T ?R sm s (fold ?g ys) \<and>
      (\<forall>k. table_map T s CUSTOMER_TABLE_ID k = None \<longleftrightarrow> table_map T sm CUSTOMER_TABLE_ID k = None)"
    for ys and s :: "('q, 'h, 'm) storage_manager"
  have "\<exists>s'. fold_res ?body (env_order E ids) sm = Inr s' \<and> I (env_order E ids) s'"
  proof (rule fold_res_returns)
    show "I [] sm" using becomes_refl [OF tpcc_invD(1) [OF inv]] by (simp add: I_def id_def [symmetric])
  next
    fix ys x zs s assume split: "env_order E ids = ys @ x # zs" and s: "I ys s"
    obtain d o_id where x: "x = (d, o_id)" by (cases x)
    have b: "becomes T ?R sm s (fold ?g ys)"
      and dom: "\<And>k. table_map T s CUSTOMER_TABLE_ID k = None \<longleftrightarrow> table_map T sm CUSTOMER_TABLE_ID k = None"
      using s by (simp_all add: I_def)
    have k: "map_of c_ids d = Some (cust d)" "map_of amounts d = Some (amount d)"
        "table_map T sm CUSTOMER_TABLE_ID (wkey [cust d, d, del_w_id p]) \<noteq> None"
      using known split x by auto
    have "does T ?R (deliverySubTxn4Single T E p d (amount d) (cust d) s) s (?g x)"
      using deliverySubTxn4Single_does [OF tpcc_inv_becomes [OF inv b]] k(3) dom x by simp
    then obtain s' where s': "deliverySubTxn4Single T E p d (amount d) (cust d) s = Inr s'" "becomes T ?R s s' (?g x)"
      by (auto simp: does_def)
    have "table_map T s' CUSTOMER_TABLE_ID k = None \<longleftrightarrow> table_map T sm CUSTOMER_TABLE_ID k = None" for k
      unfolding becomes_tab [OF s'(2)] using dom [of k] x by (auto simp: a_credit_def)
    moreover have "becomes T ?R sm s' (fold ?g (ys @ [x]))" using becomes_trans [OF b s'(2)] by simp
    ultimately have "I (ys @ [x]) s'" by (simp add: I_def)
    moreover have "?body x s = Inr s'" using s'(1) k x by (simp add: map_at_def)
    ultimately show "\<exists>s'. ?body x s = Inr s' \<and> I (ys @ [x]) s'" by blast
  qed
  then show ?thesis by (auto simp: does_def I_def deliverySubTxn4_def)
qed

section \<open>The transaction\<close>

text \<open>What a delivery relies on: for every district of the warehouse the record of its oldest new order, and for
  the order that is delivered its record, its lines and its customer.\<close>

definition delivery_ready :: "'g tpcc_env \<Rightarrow> delivery_param \<Rightarrow> database \<Rightarrow> bool" where
  "delivery_ready E p db \<longleftrightarrow>
     (\<forall>d \<in> set all_districts.
        db_tab db DISTRICT_NEW_ORDER_TABLE_ID (dno_key (del_w_id p) d) \<noteq> None \<and>
        (\<forall>o_id. to_deliver E (del_w_id p) db d = Some o_id \<longrightarrow>
           order_lines E (del_w_id p) d o_id db \<noteq> {} \<and>
           (\<exists>row. order_at E (del_w_id p) d o_id db = Some row \<and>
              db_tab db CUSTOMER_TABLE_ID (wkey [customer_of row, d, del_w_id p]) \<noteq> None)))"

text \<open>What it does. The orders are \<open>ids\<close>, in the order of the iteration, and \<open>amount\<close> has their sums.\<close>

definition a_delivery :: "'g tpcc_env \<Rightarrow> delivery_param \<Rightarrow> (32 word \<times> 32 word) list \<Rightarrow> (32 word \<Rightarrow> 64 word) \<Rightarrow> database \<Rightarrow> database" where
  "a_delivery E p ids amount db =
     (let cust = (\<lambda>(d, o_id). customer_of (the (order_at E (del_w_id p) d o_id db))) in
      fold (\<lambda>(d, o_id). a_credit (env_dbl E) (del_w_id p) d (cust (d, o_id)) (amount d)) ids
        (fold (\<lambda>(d, o_id). a_deliver_order E p d o_id) ids
          (fold (\<lambda>(d, o_id). a_deliver_lines E p d o_id) ids
            (a_takes E (del_w_id p) all_districts db))))"

definition delivered_ids :: "'g tpcc_env \<Rightarrow> delivery_param \<Rightarrow> database \<Rightarrow> (32 word \<times> 32 word) list" where
  "delivered_ids E p db = env_order E (deliveries E (del_w_id p) db all_districts)"

definition amounts_ok :: "'g tpcc_env \<Rightarrow> delivery_param \<Rightarrow> database \<Rightarrow> (32 word \<Rightarrow> 64 word) \<Rightarrow> bool" where
  "amounts_ok E p db amount \<longleftrightarrow>
     (\<forall>(d, o_id) \<in> set (delivered_ids E p db). amount_of_lines E (del_w_id p) db d o_id (amount d))"

lemma a_takes_other:
  assumes "i \<noteq> DISTRICT_NEW_ORDER_TABLE_ID" "\<And>d. i \<noteq> NEW_ORDER_TABLE_ID + district_part E w d"
  shows "db_tab (a_takes E w ds db) i = db_tab db i"
proof -
  have "db_tab (a_take E w d db) i = db_tab db i" for d db
    using assms by (simp add: a_take_def fun_eq_iff split: option.split)
  then show ?thesis by (induction ds rule: rev_induct) (simp_all add: a_takes_def)
qed

lemma deliver_lines_other:
  "(\<And>d. i \<noteq> ORDER_LINE_TABLE_ID + district_part E (del_w_id p) d) \<Longrightarrow>
   db_tab (fold (\<lambda>(d, o_id). a_deliver_lines E p d o_id) ys db) i = db_tab db i"
  by (induction ys rule: rev_induct) (auto simp: a_deliver_lines_def fun_eq_iff)

lemma deliver_order_other:
  "(\<And>d. i \<noteq> ORDER_TABLE_ID + district_part E (del_w_id p) d) \<Longrightarrow>
   db_tab (fold (\<lambda>(d, o_id). a_deliver_order E p d o_id) ys db) i = db_tab db i"
  by (induction ys rule: rev_induct) (auto simp: a_deliver_order_def)

lemma a_credit_other:
  "i \<noteq> CUSTOMER_TABLE_ID \<Longrightarrow> db_tab (fold (\<lambda>(d, o_id). a_credit D w d (cust (d, o_id)) (amount d)) ys db) i = db_tab db i"
  by (induction ys rule: rev_induct) (auto simp: a_credit_def)

lemma delivered_ids_set:
  assumes "order_ok E"
  shows "set (delivered_ids E p db) = {(d, o_id). d \<in> set all_districts \<and> to_deliver E (del_w_id p) db d = Some o_id}"
    and "distinct (map fst (delivered_ids E p db))"
proof -
  let ?ids = "deliveries E (del_w_id p) db all_districts"
  have m: "mset (delivered_ids E p db) = mset ?ids" using assms by (simp add: order_ok_def delivered_ids_def)
  show "set (delivered_ids E p db) = {(d, o_id). d \<in> set all_districts \<and> to_deliver E (del_w_id p) db d = Some o_id}"
    using mset_eq_setD [OF m] by (simp add: deliveries_set)
  have "mset (map fst (delivered_ids E p db)) = mset (map fst ?ids)" using m by simp
  then show "distinct (map fst (delivered_ids E p db))"
    using deliveries_distinct [OF distinct_all_districts] by (metis mset_eq_imp_distinct_iff)
qed

lemma processDelivery_does:
  assumes inv: "tpcc_inv T E sm" and ok: "order_ok E" and ready: "delivery_ready E p (db_abs T sm)"
  obtains amount where "amounts_ok E p (db_abs T sm) amount"
    "does T (tpcc_registry (env_cfg E)) (processDelivery T E p sm) sm
       (a_delivery E p (delivered_ids E p (db_abs T sm)) amount)"
proof -
  let ?R = "tpcc_registry (env_cfg E)" and ?w = "del_w_id p" and ?db = "db_abs T sm"
  let ?ids = "deliveries E ?w ?db all_districts" and ?xs = "delivered_ids E p ?db"
  have part: "district_part E ?w d < TPCC_MAX_PARTITION_CNT" for d by (rule district_part_max [OF inv])
  note ids = part_tables [OF part part] and xs = delivered_ids_set [OF ok, of p ?db]
  have each: "order_lines E ?w d o_id ?db \<noteq> {}" "order_at E ?w d o_id ?db \<noteq> None"
      "db_tab ?db CUSTOMER_TABLE_ID (wkey [customer_of (the (order_at E ?w d o_id ?db)), d, ?w]) \<noteq> None"
    if "(d, o_id) \<in> set ?xs" for d o_id
    using ready that xs(1) by (fastforce simp: delivery_ready_def)+
  let ?f1 = "a_takes E ?w all_districts"
  let ?f2 = "fold (\<lambda>(d, o_id). a_deliver_lines E p d o_id) ?xs \<circ> ?f1"
  let ?f3 = "fold (\<lambda>(d, o_id). a_deliver_order E p d o_id) ?xs \<circ> ?f2"
  have "\<forall>d \<in> set all_districts. table_map T sm DISTRICT_NEW_ORDER_TABLE_ID (dno_key ?w d) \<noteq> None"
    using ready by (simp add: delivery_ready_def)
  then obtain sm1 where s1: "deliverySubTxn1 T E p [] sm = Inr (?ids, sm1)" "becomes T ?R sm sm1 ?f1"
    using deliverySubTxn1_does [OF inv] by metis
  note i1 = tpcc_inv_becomes [OF inv s1(2)]
  have d: "distinct (map fst (env_order E ?ids))" using xs(2) by (simp add: delivered_ids_def)
  have ol1: "order_lines E ?w d o_id (db_abs T sm1) = order_lines E ?w d o_id ?db" for d o_id
    using s1(2) ids by (simp add: becomes_def order_lines_def a_takes_other)
  have "\<forall>(d, o_id) \<in> set (env_order E ?ids). order_lines E ?w d o_id (db_abs T sm1) \<noteq> {}"
    unfolding ol1 using each(1) by (auto simp: delivered_ids_def)
  from deliverySubTxn2_does [OF i1 d this]
  obtain am sm2 where s2: "deliverySubTxn2 T E p ?ids [] sm1 = Inr (am, sm2)"
      "\<forall>(d, o_id) \<in> set ?xs. \<exists>v. map_of am d = Some v \<and> amount_of_lines E ?w (db_abs T sm1) d o_id v"
      "becomes T ?R sm1 sm2 (fold (\<lambda>(d, o_id). a_deliver_lines E p d o_id) ?xs)"
    unfolding delivered_ids_def by blast
  have b2: "becomes T ?R sm sm2 ?f2" by (rule becomes_trans [OF s1(2) s2(3)])
  note i2 = tpcc_inv_becomes [OF inv b2]
  have or2: "order_at E ?w d o_id (db_abs T sm2) = order_at E ?w d o_id ?db" for d o_id
    using b2 ids by (simp add: becomes_def order_at_def a_takes_other deliver_lines_other)
  have "\<forall>(d, o_id) \<in> set (env_order E ?ids). order_at E ?w d o_id (db_abs T sm2) \<noteq> None"
    unfolding or2 using each(2) by (auto simp: delivered_ids_def)
  from deliverySubTxn3_does [OF i2 d this]
  obtain cs sm3 where s3: "deliverySubTxn3 T E p ?ids [] sm2 = Inr (cs, sm3)"
      "\<forall>(d, o_id) \<in> set ?xs. \<exists>v. map_of cs d = Some v \<and> v = customer_of (the (order_at E ?w d o_id ?db))"
      "becomes T ?R sm2 sm3 (fold (\<lambda>(d, o_id). a_deliver_order E p d o_id) ?xs)"
    unfolding delivered_ids_def or2 by blast
  have b3: "becomes T ?R sm sm3 ?f3" by (rule becomes_trans [OF b2 s3(3)])
  note i3 = tpcc_inv_becomes [OF inv b3]
  have cu3: "table_map T sm3 CUSTOMER_TABLE_ID = table_map T sm CUSTOMER_TABLE_ID"
    unfolding becomes_tab [OF b3] using ids by (simp add: a_takes_other deliver_lines_other deliver_order_other)
  define cust where "cust d = the (map_of cs d)" for d
  define amount where "amount d = the (map_of am d)" for d
  have "map_of cs d = Some (cust d) \<and> map_of am d = Some (amount d) \<and>
      cust d = customer_of (the (order_at E ?w d o_id ?db)) \<and> amount_of_lines E ?w ?db d o_id (amount d)"
    if "(d, o_id) \<in> set ?xs" for d o_id
    using s2(2) s3(2) that by (fastforce simp: cust_def amount_def amount_of_lines_def ol1)
  then have each': "map_of cs d = Some (cust d)" "map_of am d = Some (amount d)"
      "cust d = customer_of (the (order_at E ?w d o_id ?db))" "amount_of_lines E ?w ?db d o_id (amount d)"
    if "(d, o_id) \<in> set ?xs" for d o_id
    using that by blast+
  have "\<forall>(d, o_id) \<in> set (env_order E ?ids). map_of cs d = Some (cust d) \<and> map_of am d = Some (amount d) \<and>
      table_map T sm3 CUSTOMER_TABLE_ID (wkey [cust d, d, ?w]) \<noteq> None"
    unfolding cu3 using each(3) each'(1-3) by (fastforce simp: delivered_ids_def)
  from does_after [OF deliverySubTxn4_does [OF i3 this] b3]
  obtain sm4 where s4: "deliverySubTxn4 T E p ?ids am cs sm3 = Inr sm4"
      "becomes T ?R sm sm4 (fold (\<lambda>(d, o_id). a_credit (env_dbl E) ?w d (cust d) (amount d)) ?xs \<circ> ?f3)"
    unfolding delivered_ids_def by blast
  have "processDelivery T E p sm = Inr sm4"
    using s1(1) s2(1) s3(1) s4(1) by (simp add: processDelivery_def)
  moreover have "fold (\<lambda>(d, o_id). a_credit (env_dbl E) ?w d (cust d) (amount d)) ?xs db' =
      fold (\<lambda>(d, o_id). a_credit (env_dbl E) ?w d ((\<lambda>(d, o_id). customer_of (the (order_at E ?w d o_id ?db))) (d, o_id)) (amount d)) ?xs db'" for db'
    by (rule fold_cong [OF refl refl]) (auto simp: each'(3))
  then have "becomes T ?R sm sm4 (a_delivery E p ?xs amount)"
    using s4(2) by (simp add: becomes_def a_delivery_def Let_def)
  ultimately have "does T ?R (processDelivery T E p sm) sm (a_delivery E p ?xs amount)" by (rule doesI)
  moreover have "amounts_ok E p ?db amount" using each'(4) by (auto simp: amounts_ok_def)
  ultimately show thesis using that by blast
qed

end
