(* ===== verification/TpccConsistency.thy ===== *)
theory TpccConsistency
  imports TpccNewOrder TpccDelivery
begin

text \<open>
  The payment transaction as a change of the maps, the consistency of the TPC-C database that the
  transactions of benchmark/tpcc/TpccSerialProcessor.cc keep, and the static part they do not change.
\<close>

section \<open>Payment\<close>

definition payment_ready :: "payment_param \<Rightarrow> database \<Rightarrow> bool" where
  "payment_ready p db \<longleftrightarrow>
     db_tab db WAREHOUSE_TABLE_ID (wkey [pay_w_id p]) \<noteq> None \<and>
     db_tab db DISTRICT_TABLE_ID (wkey [pay_d_id p, pay_w_id p]) \<noteq> None \<and>
     db_tab db CUSTOMER_TABLE_ID (wkey [pay_c_id p, pay_d_id p, pay_w_id p]) \<noteq> None"

definition a_payment :: "'g tpcc_env \<Rightarrow> payment_param \<Rightarrow> bytes \<Rightarrow> database \<Rightarrow> database" where
  "a_payment E p h_data =
     a_modify CUSTOMER_TABLE_ID (wkey [pay_c_id p, pay_d_id p, pay_w_id p]) (customer_paid (env_dbl E) (pay_h_amount p)) \<circ>
     (a_append HISTORY_TABLE_ID (history_row E p h_data) \<circ>
      (a_modify DISTRICT_TABLE_ID (wkey [pay_d_id p, pay_w_id p]) (district_paid (env_dbl E) (pay_h_amount p)) \<circ>
       a_modify WAREHOUSE_TABLE_ID (wkey [pay_w_id p]) (warehouse_paid (env_dbl E) (pay_h_amount p))))"

lemma processPayment_does:
  assumes inv: "tpcc_inv T E sm" and R: "rand_laws (env_lib E)" and ready: "payment_ready p (db_abs T sm)"
  shows "gen_returns (processPayment T E p sm) (\<lambda>sm'. \<exists>h_data. 12 \<le> length h_data \<and> length h_data \<le> 24 \<and>
    becomes T (tpcc_registry (env_cfg E)) sm sm' (a_payment E p h_data))"
proof -
  let ?R = "tpcc_registry (env_cfg E)"
  let ?f1 = "a_modify WAREHOUSE_TABLE_ID (wkey [pay_w_id p]) (warehouse_paid (env_dbl E) (pay_h_amount p))"
  let ?f2 = "a_modify DISTRICT_TABLE_ID (wkey [pay_d_id p, pay_w_id p]) (district_paid (env_dbl E) (pay_h_amount p)) \<circ> ?f1"
  obtain row1 row2 row4 where rows: "table_map T sm WAREHOUSE_TABLE_ID (wkey [pay_w_id p]) = Some row1"
      "table_map T sm DISTRICT_TABLE_ID (wkey [pay_d_id p, pay_w_id p]) = Some row2"
      "table_map T sm CUSTOMER_TABLE_ID (wkey [pay_c_id p, pay_d_id p, pay_w_id p]) = Some row4"
    using ready by (auto simp: payment_ready_def)
  from paymentSubTxn1_does [OF inv rows(1)]
  obtain sm1 where s1: "paymentSubTxn1 T E p sm = Inr sm1" "becomes T ?R sm sm1 ?f1" by (auto simp: does_def)
  have "table_map T sm1 DISTRICT_TABLE_ID (wkey [pay_d_id p, pay_w_id p]) = Some row2"
    unfolding becomes_tab [OF s1(2)] using rows(2) by simp
  from does_after [OF paymentSubTxn2_does [OF tpcc_inv_becomes [OF inv s1(2)] this] s1(2)]
  obtain sm2 where s2: "paymentSubTxn2 T E p sm1 = Inr sm2" "becomes T ?R sm sm2 ?f2" by blast
  note i2 = tpcc_inv_becomes [OF inv s2(2)]
  have run: "processPayment T E p sm = gbnd (paymentSubTxn3 T E p sm2) (\<lambda>sm. glift (paymentSubTxn4 T E p sm))"
    using s1(1) s2(1) by (simp add: processPayment_def gbnd_def glift_def fun_eq_iff)
  show ?thesis
    unfolding run
  proof (rule gbnd_returns [OF paymentSubTxn3_does [OF i2 R]])
    fix sm3 assume "\<exists>h_data. 12 \<le> length h_data \<and> length h_data \<le> 24 \<and>
      becomes T ?R sm2 sm3 (a_append HISTORY_TABLE_ID (history_row E p h_data))"
    then obtain h where h: "12 \<le> length h" "length h \<le> 24"
      "becomes T ?R sm2 sm3 (a_append HISTORY_TABLE_ID (history_row E p h))" by blast
    have b3: "becomes T ?R sm sm3 (a_append HISTORY_TABLE_ID (history_row E p h) \<circ> ?f2)"
      by (rule becomes_trans [OF s2(2) h(3)])
    have "table_map T sm3 CUSTOMER_TABLE_ID (wkey [pay_c_id p, pay_d_id p, pay_w_id p]) = Some row4"
      unfolding becomes_tab [OF b3] using rows(3) by simp
    from does_after [OF paymentSubTxn4_does [OF tpcc_inv_becomes [OF inv b3] this] b3]
    obtain sm4 where s4: "paymentSubTxn4 T E p sm3 = Inr sm4" "becomes T ?R sm sm4 (a_payment E p h)"
      unfolding a_payment_def by blast
    show "gen_returns (glift (paymentSubTxn4 T E p sm3)) (\<lambda>sm'. \<exists>h_data. 12 \<le> length h_data \<and> length h_data \<le> 24 \<and>
        becomes T ?R sm sm' (a_payment E p h_data))"
      by (rule glift_returns [OF s4(1)]) (use h s4(2) in blast)
  qed
qed

section \<open>Consistency\<close>

definition district_at :: "32 word \<Rightarrow> 32 word \<Rightarrow> database \<Rightarrow> bytes option" where
  "district_at w d db = db_tab db DISTRICT_TABLE_ID (wkey [d, w])"

definition dno_at :: "32 word \<Rightarrow> 32 word \<Rightarrow> database \<Rightarrow> bytes option" where
  "dno_at w d db = db_tab db DISTRICT_NEW_ORDER_TABLE_ID (dno_key w d)"

definition customer_at :: "32 word \<Rightarrow> 32 word \<Rightarrow> 32 word \<Rightarrow> database \<Rightarrow> bytes option" where
  "customer_at w d c db = db_tab db CUSTOMER_TABLE_ID (wkey [c, d, w])"

definition new_at :: "'g tpcc_env \<Rightarrow> 32 word \<Rightarrow> 32 word \<Rightarrow> 32 word \<Rightarrow> database \<Rightarrow> bytes option" where
  "new_at E w d o_id db = db_tab db (NEW_ORDER_TABLE_ID + district_part E w d) (wkey [o_id, d, w])"

definition line_at :: "'g tpcc_env \<Rightarrow> 32 word \<Rightarrow> 32 word \<Rightarrow> 32 word \<Rightarrow> 32 word \<Rightarrow> database \<Rightarrow> bytes option" where
  "line_at E w d o_id n db = db_tab db (ORDER_LINE_TABLE_ID + district_part E w d) (wkey [o_id, d, w, n])"

text \<open>
  The orders of a district have the numbers from one up to the next one, excluded; those from the oldest
  one on are new. Every order has a customer and a line. No line has a later number.
\<close>

definition district_consistent :: "'g tpcc_env \<Rightarrow> database \<Rightarrow> 32 word \<Rightarrow> 32 word \<Rightarrow> 32 word \<Rightarrow> 32 word \<Rightarrow> bool" where
  "district_consistent E db w d old nxt \<longleftrightarrow>
     0 < old \<and> old \<le> nxt \<and>
     (\<forall>o_id. order_at E w d o_id db \<noteq> None \<longleftrightarrow> 0 < o_id \<and> o_id < nxt) \<and>
     (\<forall>o_id. new_at E w d o_id db \<noteq> None \<longleftrightarrow> old \<le> o_id \<and> o_id < nxt) \<and>
     (\<forall>o_id n. line_at E w d o_id n db \<noteq> None \<longrightarrow> o_id < nxt) \<and>
     (\<forall>o_id row. order_at E w d o_id db = Some row \<longrightarrow>
        customer_at w d (customer_of row) db \<noteq> None \<and> order_lines E w d o_id db \<noteq> {})"

definition consistent :: "'g tpcc_env \<Rightarrow> database \<Rightarrow> bool" where
  "consistent E db \<longleftrightarrow>
     (\<forall>w d drow. district_at w d db = Some drow \<longrightarrow>
        (\<exists>nrow. dno_at w d db = Some nrow \<and> district_consistent E db w d (oldest nrow) (next_o_id drow)))"

text \<open>Numbers for some more orders before \<open>int\<close> overflows.\<close>

definition has_room :: "nat \<Rightarrow> database \<Rightarrow> bool" where
  "has_room k db \<longleftrightarrow> (\<forall>w d drow. district_at w d db = Some drow \<longrightarrow> unat (next_o_id drow) + k < 2 ^ 31)"

definition parts_ok :: "'g tpcc_env \<Rightarrow> bool" where
  "parts_ok E \<longleftrightarrow> 0 < partitions (env_cfg E) \<and> partitions (env_cfg E) \<le> TPCC_MAX_PARTITION_CNT"

lemma parts_okD: "parts_ok E \<Longrightarrow> district_part E w d < TPCC_MAX_PARTITION_CNT"
  using district_part_less [of E w d] by (simp add: parts_ok_def)

definition tpcc_wf :: "'g tpcc_env \<Rightarrow> database \<Rightarrow> bool" where
  "tpcc_wf E db \<longleftrightarrow>
     (\<forall>i s smbs k row. tpcc_registry (env_cfg E) i = Some (s, True, smbs) \<longrightarrow> db_tab db i k = Some row \<longrightarrow>
        length row = getSchemaSize s)"

lemma tpcc_inv_parts: "tpcc_inv T E sm \<Longrightarrow> parts_ok E"
  by (simp add: tpcc_inv_def parts_ok_def)

lemma tpcc_inv_wf: "tpcc_inv T E sm \<Longrightarrow> tpcc_wf E (db_abs T sm)"
  using map_row_length [OF tpcc_invD(1)] by (auto simp: tpcc_wf_def)

lemma consistentE:
  assumes "consistent E db" "district_at w d db = Some drow"
  obtains nrow where "dno_at w d db = Some nrow" "district_consistent E db w d (oldest nrow) (next_o_id drow)"
  using assms unfolding consistent_def by blast

lemma consistentI:
  assumes "\<And>w d drow. district_at w d db = Some drow \<Longrightarrow>
      \<exists>nrow. dno_at w d db = Some nrow \<and> district_consistent E db w d (oldest nrow) (next_o_id drow)"
  shows "consistent E db"
  using assms by (simp add: consistent_def)

text \<open>A district whose part of the database has not changed stays consistent.\<close>

lemma district_consistent_cong:
  assumes "district_consistent E db w d old nxt"
    and "\<And>o_id. map_option customer_of (order_at E w d o_id db') = map_option customer_of (order_at E w d o_id db)"
    and "\<And>o_id. new_at E w d o_id db' \<noteq> None \<longleftrightarrow> new_at E w d o_id db \<noteq> None"
    and "\<And>o_id n. line_at E w d o_id n db' \<noteq> None \<Longrightarrow> line_at E w d o_id n db \<noteq> None"
    and "\<And>c. customer_at w d c db \<noteq> None \<Longrightarrow> customer_at w d c db' \<noteq> None"
    and "\<And>o_id. order_lines E w d o_id db \<noteq> {} \<Longrightarrow> order_lines E w d o_id db' \<noteq> {}"
  shows "district_consistent E db' w d old nxt"
proof -
  have o: "order_at E w d o_id db' \<noteq> None \<longleftrightarrow> order_at E w d o_id db \<noteq> None" for o_id
    using assms(2) [of o_id] by (metis option.map_disc_iff)
  have c: "customer_at w d (customer_of row) db' \<noteq> None \<and> order_lines E w d o_id db' \<noteq> {}"
    if row: "order_at E w d o_id db' = Some row" for o_id row
  proof -
    obtain row' where row': "order_at E w d o_id db = Some row'" "customer_of row' = customer_of row"
      using assms(2) [of o_id] row by (cases "order_at E w d o_id db") auto
    have "customer_at w d (customer_of row') db \<noteq> None \<and> order_lines E w d o_id db \<noteq> {}"
      using assms(1) row'(1) unfolding district_consistent_def by blast
    then show ?thesis using assms(5) assms(6) row'(2) by simp
  qed
  show ?thesis
    using assms(1) unfolding district_consistent_def o assms(3) using assms(4) c by blast
qed

section \<open>New orders keep the consistency\<close>

definition order_valid :: "new_order_param \<Rightarrow> database \<Rightarrow> bool" where
  "order_valid p db \<longleftrightarrow>
     lists_agree p \<and> 0 < order_length p \<and> order_length p < 2 ^ 32 \<and>
     district_at (nop_w_id p) (nop_d_id p) db \<noteq> None \<and>
     customer_at (nop_w_id p) (nop_d_id p) (nop_c_id p) db \<noteq> None \<and>
     (\<forall>i < order_length p. stock_ready p i (db_tab db STOCK_TABLE_ID) \<and>
        db_tab db ITEM_TABLE_ID (wkey [nop_i_ids p ! i]) \<noteq> None)"

lemma order_valid_ready:
  assumes "consistent E db" "order_valid p db"
  shows "new_order_ready E p db"
proof -
  let ?w = "nop_w_id p" and ?d = "nop_d_id p"
  obtain drow where drow: "district_at ?w ?d db = Some drow" using assms(2) by (auto simp: order_valid_def)
  obtain nrow where c: "district_consistent E db ?w ?d (oldest nrow) (next_o_id drow)"
    by (rule consistentE [OF assms(1) drow])
  then have "order_at E ?w ?d (next_o_id drow) db = None" "new_at E ?w ?d (next_o_id drow) db = None"
    "\<And>n. line_at E ?w ?d (next_o_id drow) n db = None"
    unfolding district_consistent_def by (metis less_irrefl)+
  then show ?thesis
    using assms(2) drow
    by (simp add: order_valid_def new_order_ready_def district_at_def order_at_def new_at_def line_at_def
        line_table_def line_key_def Let_def)
qed

lemma next_o_id_advanced: "length row = 151 \<Longrightarrow> next_o_id (district_advanced row) = next_o_id row + 1"
  using tpcc_schema_inv(3) by (simp add: next_o_id_def district_advanced_def fld32_def col_data_row_with)

text \<open>The parts of the database after a new order.\<close>

lemma new_order_views:
  fixes E :: "'g tpcc_env"
  assumes parts: "parts_ok E" and drow: "district_at (nop_w_id p) (nop_d_id p) db = Some drow"
  defines "db' \<equiv> a_new_order E p db"
  shows "district_at w d db' =
      (if w = nop_w_id p \<and> d = nop_d_id p then Some (district_advanced drow) else district_at w d db)"
    "dno_at w d db' = dno_at w d db"
    "customer_at w d c db' = customer_at w d c db"
    "order_at E w d o_id db' =
      (if w = nop_w_id p \<and> d = nop_d_id p \<and> o_id = next_o_id drow then Some (order_row E p o_id) else order_at E w d o_id db)"
    "new_at E w d o_id db' =
      (if w = nop_w_id p \<and> d = nop_d_id p \<and> o_id = next_o_id drow then Some (new_order_row E p o_id) else new_at E w d o_id db)"
    "\<not> (w = nop_w_id p \<and> d = nop_d_id p \<and> o_id = next_o_id drow) \<Longrightarrow> line_at E w d o_id n db' = line_at E w d o_id n db"
    "db_tab db' WAREHOUSE_TABLE_ID = db_tab db WAREHOUSE_TABLE_ID"
    "db_tab db' ITEM_TABLE_ID = db_tab db ITEM_TABLE_ID"
proof -
  have ids: "district_part E w d < TPCC_MAX_PARTITION_CNT" for w d by (rule parts_okD [OF parts])
  note ids' = part_tables [OF ids ids] line_table_def
  have o: "next_o_id (the (db_tab db DISTRICT_TABLE_ID (district_key p))) = next_o_id drow"
    using drow by (simp add: district_at_def)
  show "district_at w d db' =
      (if w = nop_w_id p \<and> d = nop_d_id p then Some (district_advanced drow) else district_at w d db)"
    "dno_at w d db' = dno_at w d db" "customer_at w d c db' = customer_at w d c db"
    "db_tab db' WAREHOUSE_TABLE_ID = db_tab db WAREHOUSE_TABLE_ID" "db_tab db' ITEM_TABLE_ID = db_tab db ITEM_TABLE_ID"
    using drow by (auto simp: db'_def a_new_order_def Let_def district_at_def dno_at_def customer_at_def
        a_lines_other a_stocks_other ids')
  show "order_at E w d o_id db' =
      (if w = nop_w_id p \<and> d = nop_d_id p \<and> o_id = next_o_id drow then Some (order_row E p o_id) else order_at E w d o_id db)"
    "new_at E w d o_id db' =
      (if w = nop_w_id p \<and> d = nop_d_id p \<and> o_id = next_o_id drow then Some (new_order_row E p o_id) else new_at E w d o_id db)"
    unfolding db'_def a_new_order_def Let_def order_at_def new_at_def o
    by (auto simp: a_lines_other a_stocks_other ids')
  show "line_at E w d o_id n db' = line_at E w d o_id n db"
    if "\<not> (w = nop_w_id p \<and> d = nop_d_id p \<and> o_id = next_o_id drow)"
  proof (cases "ORDER_LINE_TABLE_ID + district_part E w d = line_table E p")
    case True
    have "wkey [o_id, d, w, n] \<noteq> line_key p (next_o_id drow) i" for i
      using that by (auto simp: line_key_def)
    then have "db_tab (a_lines E p (next_o_id drow) ds am k db'') (line_table E p) (wkey [o_id, d, w, n]) =
        db_tab db'' (line_table E p) (wkey [o_id, d, w, n])" for ds am k db''
      by (intro a_lines_tab) simp
    then show ?thesis
      unfolding db'_def a_new_order_def Let_def line_at_def o True by (simp add: a_stocks_other ids')
  next
    case False
    then show ?thesis
      unfolding db'_def a_new_order_def Let_def line_at_def o by (simp add: a_lines_other a_stocks_other ids')
  qed
qed

lemma new_order_lines:
  fixes E :: "'g tpcc_env"
  assumes parts: "parts_ok E" and ready: "new_order_ready E p db" and wf: "tpcc_wf E db"
  defines "o_id0 \<equiv> next_o_id (the (db_tab db DISTRICT_TABLE_ID (district_key p)))"
  shows "order_lines E w d o_id db \<subseteq> order_lines E w d o_id (a_new_order E p db)" (is ?old)
    "0 < order_length p \<Longrightarrow> order_lines E (nop_w_id p) (nop_d_id p) o_id0 (a_new_order E p db) \<noteq> {}"
proof -
  have ids: "district_part E w d < TPCC_MAX_PARTITION_CNT" for w d by (rule parts_okD [OF parts])
  note ids' = part_tables [OF ids ids] line_table_def
  let ?n = "order_length p" and ?t = "ORDER_LINE_TABLE_ID + district_part E w d"
  let ?ds = "dist_infos p (db_tab db STOCK_TABLE_ID) ?n"
  let ?am = "map (line_amount (env_dbl E) p (db_tab db ITEM_TABLE_ID)) [0..<?n]"
  define db1 where "db1 = a_stocks p ?n (a_put (NEW_ORDER_TABLE_ID + district_part E (nop_w_id p) (nop_d_id p))
      (order_key p o_id0) (new_order_row E p o_id0)
      (a_put (ORDER_TABLE_ID + district_part E (nop_w_id p) (nop_d_id p)) (order_key p o_id0) (order_row E p o_id0)
        (a_modify DISTRICT_TABLE_ID (district_key p) district_advanced db)))"
  have db': "a_new_order E p db = a_lines E p o_id0 ?ds ?am ?n db1"
    by (simp add: a_new_order_def Let_def db1_def o_id0_def)
  have same: "db_tab db1 (ORDER_LINE_TABLE_ID + district_part E w d) = db_tab db (ORDER_LINE_TABLE_ID + district_part E w d)" for w d
    by (simp add: db1_def a_stocks_other ids')
  have fresh: "db_tab db (line_table E p) (line_key p o_id0 i) = None" if "i < ?n" for i
    using ready that unfolding new_order_ready_def o_id0_def by (auto simp: Let_def)
  show ?old
  proof
    fix kr assume kr: "kr \<in> order_lines E w d o_id db"
    obtain k row where k: "kr = (k, row)" "db_tab db ?t k = Some row" "of_order o_id d w row"
      using kr by (auto simp: order_lines_def)
    have "db_tab (a_new_order E p db) ?t k = Some row"
    proof (cases "?t = line_table E p")
      case True
      have "k \<noteq> line_key p o_id0 i" if "i < ?n" for i using fresh [OF that] k(2) True by auto
      then show ?thesis unfolding db' using a_lines_tab [of ?n k p o_id0 E ?ds ?am db1] k(2) same [of w d] True by simp
    next
      case False
      then show ?thesis unfolding db' using k(2) same [of w d] by (simp add: a_lines_other)
    qed
    then show "kr \<in> order_lines E w d o_id (a_new_order E p db)" using k by (simp add: order_lines_def)
  qed
  assume n: "0 < ?n"
  then obtain m where m: "?n = Suc m" by (metis gr0_conv_Suc)
  let ?row = "order_line_row E p o_id0 (?ds ! m) (?am ! m) m"
  have at: "db_tab (a_new_order E p db) (line_table E p) (line_key p o_id0 m) = Some ?row"
    unfolding db' by (simp add: m a_line_def)
  obtain srow where srow: "db_tab db STOCK_TABLE_ID (stock_key p m) = Some srow"
    using ready m by (auto simp: new_order_ready_def stock_ready_def split: option.splits)
  have "length srow = 408" using wf srow tpcc_registry_simps(6) unfolding tpcc_wf_def by fastforce
  then have len: "length (?ds ! m) \<le> 32"
    using dist_info_length [of srow p] ready srow m by (simp add: dist_infos_def new_order_ready_def del: upt_Suc)
  have "of_order o_id0 (nop_d_id p) (nop_w_id p) ?row"
    using order_line_cols(2-4) [OF len, of E p o_id0 "?am ! m" m] by (simp add: of_order_def)
  then show "order_lines E (nop_w_id p) (nop_d_id p) o_id0 (a_new_order E p db) \<noteq> {}"
    using at by (auto simp: order_lines_def line_table_def)
qed

lemma word_less_Suc: "(x :: 32 word) < y + 1 \<longleftrightarrow> x < y \<or> x = y" if "unat y + 1 < 2 ^ 32" for y
  using that by (auto simp: word_less_nat_alt unat_word_ariths word_unat_eq_iff)

lemma new_order_consistent:
  fixes E :: "'g tpcc_env"
  assumes con: "consistent E db" and valid: "order_valid p db" and room: "has_room (Suc k) db"
    and parts: "parts_ok E" and wf: "tpcc_wf E db" and stack: "3 \<le> length (env_stack E)"
  shows "consistent E (a_new_order E p db)" "has_room k (a_new_order E p db)"
proof -
  let ?db = "a_new_order E p db" and ?w = "nop_w_id p" and ?d = "nop_d_id p"
  obtain drow where drow: "district_at ?w ?d db = Some drow" using valid by (auto simp: order_valid_def)
  obtain nrow where nrow: "dno_at ?w ?d db = Some nrow" "district_consistent E db ?w ?d (oldest nrow) (next_o_id drow)"
    by (rule consistentE [OF con drow])
  let ?o = "next_o_id drow"
  note ready = order_valid_ready [OF con valid]
  note v = new_order_views [OF parts drow]
  have o: "next_o_id (the (db_tab db DISTRICT_TABLE_ID (district_key p))) = ?o" using drow by (simp add: district_at_def)
  note lines = new_order_lines [OF parts ready wf, unfolded o]
  have "length drow = 151" using wf drow tpcc_registry_simps(3) unfolding tpcc_wf_def district_at_def by fastforce
  then have nx: "next_o_id (district_advanced drow) = ?o + 1" by (rule next_o_id_advanced)
  have bound: "unat ?o + Suc k < 2 ^ 31" using room drow by (simp add: has_room_def)
  then have small: "unat ?o + 1 < 2 ^ 32" by simp
  have unx: "unat (?o + 1) = unat ?o + 1" using small by (simp add: unat_word_ariths)
  have cust: "customer_of (order_row E p ?o) = nop_c_id p"
    using order_cols [OF stack, of p ?o] by (simp add: customer_of_def fld32_def)
  have here: "district_consistent E ?db ?w ?d (oldest nrow) (?o + 1)"
  proof -
    have c: "0 < oldest nrow" "oldest nrow \<le> ?o"
        "\<And>o_id. order_at E ?w ?d o_id db \<noteq> None \<longleftrightarrow> 0 < o_id \<and> o_id < ?o"
        "\<And>o_id. new_at E ?w ?d o_id db \<noteq> None \<longleftrightarrow> oldest nrow \<le> o_id \<and> o_id < ?o"
        "\<And>o_id n. line_at E ?w ?d o_id n db \<noteq> None \<longrightarrow> o_id < ?o"
        "\<And>o_id row. order_at E ?w ?d o_id db = Some row \<Longrightarrow>
          customer_at ?w ?d (customer_of row) db \<noteq> None \<and> order_lines E ?w ?d o_id db \<noteq> {}"
      using nrow(2) unfolding district_consistent_def by blast+
    have pos: "0 < ?o" using c(1,2) by simp
    show ?thesis
      unfolding district_consistent_def
    proof (intro conjI allI)
      show "0 < oldest nrow" by (rule c(1))
      show "oldest nrow \<le> ?o + 1" using c(2) unx by (simp add: word_le_nat_alt)
      show "order_at E ?w ?d o_id ?db \<noteq> None \<longleftrightarrow> 0 < o_id \<and> o_id < ?o + 1" for o_id
        unfolding v(4) word_less_Suc [OF small] using c(3) [of o_id] pos by auto
      show "new_at E ?w ?d o_id ?db \<noteq> None \<longleftrightarrow> oldest nrow \<le> o_id \<and> o_id < ?o + 1" for o_id
        unfolding v(5) word_less_Suc [OF small] using c(4) [of o_id] c(2) by auto
      show "line_at E ?w ?d o_id n ?db \<noteq> None \<longrightarrow> o_id < ?o + 1" for o_id n
        unfolding word_less_Suc [OF small] using c(5) [of o_id n] v(6) [of ?w ?d o_id n] by (cases "o_id = ?o") auto
      show "order_at E ?w ?d o_id ?db = Some row \<longrightarrow>
          customer_at ?w ?d (customer_of row) ?db \<noteq> None \<and> order_lines E ?w ?d o_id ?db \<noteq> {}" for o_id row
      proof (cases "o_id = ?o")
        case True
        then show ?thesis
          using cust valid lines(2) unfolding v(3,4) by (auto simp: order_valid_def)
      next
        case False
        then show ?thesis using c(6) [of o_id row] lines(1) [of ?w ?d o_id] unfolding v(3,4) by auto
      qed
    qed
  qed
  show "consistent E ?db"
  proof (rule consistentI)
    fix w d drow' assume at: "district_at w d ?db = Some drow'"
    show "\<exists>nrow. dno_at w d ?db = Some nrow \<and> district_consistent E ?db w d (oldest nrow) (next_o_id drow')"
    proof (cases "w = ?w \<and> d = ?d")
      case True
      then show ?thesis using at here nrow(1) nx unfolding v(1,2) by auto
    next
      case False
      then have "district_at w d db = Some drow'" using at unfolding v(1) by (auto split: if_splits)
      then obtain nrow' where n: "dno_at w d db = Some nrow'" "district_consistent E db w d (oldest nrow') (next_o_id drow')"
        by (rule consistentE [OF con])
      have "district_consistent E ?db w d (oldest nrow') (next_o_id drow')"
        by (rule district_consistent_cong [OF n(2)]) (use False lines(1) [of w d] in \<open>auto simp: v\<close>)
      then show ?thesis using n(1) v(2) by simp
    qed
  qed
  show "has_room k ?db"
    unfolding has_room_def
  proof (intro allI impI)
    fix w d drow' assume at: "district_at w d ?db = Some drow'"
    show "unat (next_o_id drow') + k < 2 ^ 31"
    proof (cases "w = ?w \<and> d = ?d")
      case True
      then show ?thesis using at nx unx bound unfolding v(1) by auto
    next
      case False
      then have "district_at w d db = Some drow'" using at unfolding v(1) by (auto split: if_splits)
      then have "unat (next_o_id drow') + Suc k < 2 ^ 31" using room unfolding has_room_def by blast
      then show ?thesis by simp
    qed
  qed
qed

section \<open>Payments keep the consistency\<close>

lemma next_o_id_paid: "length row = 151 \<Longrightarrow> next_o_id (district_paid D amount row) = next_o_id row"
  using tpcc_schema_inv(3) by (simp add: next_o_id_def district_paid_def fld32_def col_data_row_with)

lemma payment_consistent:
  fixes E :: "'g tpcc_env"
  assumes con: "consistent E db" and room: "has_room k db" and parts: "parts_ok E" and wf: "tpcc_wf E db"
  shows "consistent E (a_payment E p h_data db)" "has_room k (a_payment E p h_data db)"
proof -
  let ?db = "a_payment E p h_data db"
  have ids: "district_part E w d < TPCC_MAX_PARTITION_CNT" for w d by (rule parts_okD [OF parts])
  note ids' = part_tables [OF ids ids]
  have same: "dno_at w d ?db = dno_at w d db" "order_at E w d o_id ?db = order_at E w d o_id db"
    "new_at E w d o_id ?db = new_at E w d o_id db" "line_at E w d o_id n ?db = line_at E w d o_id n db"
    "order_lines E w d o_id ?db = order_lines E w d o_id db" for w d o_id n
    by (simp_all add: a_payment_def dno_at_def order_at_def new_at_def line_at_def order_lines_def ids')
  have cust: "customer_at w d c ?db \<noteq> None \<longleftrightarrow> customer_at w d c db \<noteq> None" for w d c
    by (simp add: a_payment_def customer_at_def)
  have dist: "\<exists>drow. district_at w d db = Some drow \<and> next_o_id drow = next_o_id drow'"
    if at: "district_at w d ?db = Some drow'" for w d drow'
  proof (cases "wkey [d, w] = wkey [pay_d_id p, pay_w_id p]")
    case True
    then obtain drow where drow: "district_at w d db = Some drow" "drow' = district_paid (env_dbl E) (pay_h_amount p) drow"
      using at by (auto simp: a_payment_def district_at_def)
    have "length drow = 151" using wf drow(1) tpcc_registry_simps(3) unfolding tpcc_wf_def district_at_def by fastforce
    then show ?thesis using drow next_o_id_paid by auto
  next
    case False
    then show ?thesis using at by (auto simp: a_payment_def district_at_def)
  qed
  show "consistent E ?db"
  proof (rule consistentI)
    fix w d drow' assume at: "district_at w d ?db = Some drow'"
    obtain drow where drow: "district_at w d db = Some drow" "next_o_id drow = next_o_id drow'"
      using dist [OF at] by blast
    obtain nrow where n: "dno_at w d db = Some nrow" "district_consistent E db w d (oldest nrow) (next_o_id drow)"
      by (rule consistentE [OF con drow(1)])
    have "district_consistent E ?db w d (oldest nrow) (next_o_id drow)"
      by (rule district_consistent_cong [OF n(2)]) (simp_all add: same cust del: not_None_eq)
    then show "\<exists>nrow. dno_at w d ?db = Some nrow \<and> district_consistent E ?db w d (oldest nrow) (next_o_id drow')"
      using n(1) drow(2) same by simp
  qed
  show "has_room k ?db"
    unfolding has_room_def
  proof (intro allI impI)
    fix w d drow' assume at: "district_at w d ?db = Some drow'"
    then show "unat (next_o_id drow') + k < 2 ^ 31" using dist [OF at] room unfolding has_room_def by metis
  qed
qed

section \<open>Deliveries keep the consistency\<close>

lemma to_deliver_takes:
  assumes "parts_ok E" "d \<notin> set ds"
  shows "to_deliver E w (a_takes E w ds db) d = to_deliver E w db d"
  using assms(2)
proof (induction ds rule: rev_induct)
  case (snoc d' ds)
  have "to_deliver E w (a_take E w d' (a_takes E w ds db)) d = to_deliver E w (a_takes E w ds db) d"
    using snoc.prems parts_okD [OF assms(1)] by (intro to_deliver_take) auto
  then show ?case using snoc by (simp add: a_takes_def)
qed (simp add: a_takes_def)

lemma takes_views:
  fixes E :: "'g tpcc_env"
  assumes parts: "parts_ok E" and "distinct ds"
  shows "dno_at w d (a_takes E w0 ds db) =
      (if w = w0 \<and> d \<in> set ds \<and> to_deliver E w0 db d \<noteq> None then map_option oldest_advanced (dno_at w d db) else dno_at w d db)"
    and "new_at E w d o_id (a_takes E w0 ds db) =
      (if w = w0 \<and> d \<in> set ds \<and> to_deliver E w0 db d = Some o_id then None else new_at E w d o_id db)"
proof -
  have ids: "district_part E w d < TPCC_MAX_PARTITION_CNT" for w d by (rule parts_okD [OF parts])
  note ids' = part_tables [OF ids ids]
  have one: "dno_at w d (a_take E w0 d0 db) =
        (if w = w0 \<and> d = d0 \<and> to_deliver E w0 db d0 \<noteq> None then map_option oldest_advanced (dno_at w d db) else dno_at w d db)"
      "new_at E w d o_id (a_take E w0 d0 db) =
        (if w = w0 \<and> d = d0 \<and> to_deliver E w0 db d0 = Some o_id then None else new_at E w d o_id db)" for d0 db
    by (auto simp: a_take_def dno_at_def new_at_def ids' split: option.split)
  have "dno_at w d (a_takes E w0 ds db) =
      (if w = w0 \<and> d \<in> set ds \<and> to_deliver E w0 db d \<noteq> None then map_option oldest_advanced (dno_at w d db) else dno_at w d db) \<and>
    new_at E w d o_id (a_takes E w0 ds db) =
      (if w = w0 \<and> d \<in> set ds \<and> to_deliver E w0 db d = Some o_id then None else new_at E w d o_id db)"
    using assms(2)
  proof (induction ds rule: rev_induct)
    case (snoc d0 ds)
    have d0: "d0 \<notin> set ds" "distinct ds" using snoc.prems by simp_all
    have step: "a_takes E w0 (ds @ [d0]) db = a_take E w0 d0 (a_takes E w0 ds db)" by (simp add: a_takes_def)
    show ?case
      unfolding step one to_deliver_takes [OF parts d0(1)] using snoc.IH [OF d0(2)] d0(1) by auto
  qed (simp add: a_takes_def)
  then show "dno_at w d (a_takes E w0 ds db) =
      (if w = w0 \<and> d \<in> set ds \<and> to_deliver E w0 db d \<noteq> None then map_option oldest_advanced (dno_at w d db) else dno_at w d db)"
    "new_at E w d o_id (a_takes E w0 ds db) =
      (if w = w0 \<and> d \<in> set ds \<and> to_deliver E w0 db d = Some o_id then None else new_at E w d o_id db)"
    by simp_all
qed

text \<open>Setting the dates, the carriers and the balances.\<close>

lemma lines_wf_delivered:
  assumes "lines_wf E w db"
  shows "lines_wf E w (a_deliver_lines E p d o_id db)"
  unfolding lines_wf_def
proof (intro allI impI)
  fix d' k row
  assume row: "db_tab (a_deliver_lines E p d o_id db) (ORDER_LINE_TABLE_ID + district_part E w d') k = Some row"
  then obtain row0 where "db_tab db (ORDER_LINE_TABLE_ID + district_part E w d') k = Some row0"
      "row = row0 \<or> row = line_delivered (del_ol_delivery_d p) row0"
    by (cases "district_part E w d' = district_part E (del_w_id p) d") (auto simp: a_deliver_lines_def split: if_splits)
  moreover from this(1) have "length row0 = 76" using assms by (simp add: lines_wf_def)
  ultimately show "length row = 76" using line_delivered_cols(1) by auto
qed

lemma order_lines_delivered:
  assumes "lines_wf E w db" "order_lines E w d o_id db \<noteq> {}"
  shows "order_lines E w d o_id (a_deliver_lines E p d' o_id' db) \<noteq> {}"
proof -
  obtain k row where row: "db_tab db (ORDER_LINE_TABLE_ID + district_part E w d) k = Some row" "of_order o_id d w row"
    using assms(2) by (auto simp: order_lines_def)
  have len: "length row = 76" using assms(1) row(1) by (simp add: lines_wf_def)
  let ?row = "if ORDER_LINE_TABLE_ID + district_part E w d = ORDER_LINE_TABLE_ID + district_part E (del_w_id p) d' \<and>
      of_order o_id' d' (del_w_id p) row then line_delivered (del_ol_delivery_d p) row else row"
  have "db_tab (a_deliver_lines E p d' o_id' db) (ORDER_LINE_TABLE_ID + district_part E w d) k = Some ?row"
    using row(1) by (cases "district_part E w d = district_part E (del_w_id p) d'") (simp_all add: a_deliver_lines_def)
  moreover have "of_order o_id d w ?row" using row(2) line_delivered_cols(2) [OF len] by simp
  ultimately show ?thesis by (auto simp: order_lines_def simp del: add_left_cancel)
qed

lemma deliver_lines_views:
  fixes E :: "'g tpcc_env" and p :: delivery_param
  assumes "lines_wf E w db"
  defines "db' ys \<equiv> fold (\<lambda>(d, o_id). a_deliver_lines E p d o_id) ys db"
  shows "order_lines E w d o_id db \<noteq> {} \<Longrightarrow> order_lines E w d o_id (db' ys) \<noteq> {}"
    "line_at E w d o_id n (db' ys) = None \<longleftrightarrow> line_at E w d o_id n db = None"
proof -
  have "lines_wf E w (db' ys) \<and> (order_lines E w d o_id db \<noteq> {} \<longrightarrow> order_lines E w d o_id (db' ys) \<noteq> {}) \<and>
      (line_at E w d o_id n (db' ys) = None \<longleftrightarrow> line_at E w d o_id n db = None)"
  proof (induction ys rule: rev_induct)
    case (snoc y ys)
    obtain d' o_id' where y: "y = (d', o_id')" by (cases y)
    have step: "db' (ys @ [y]) = a_deliver_lines E p d' o_id' (db' ys)" by (simp add: db'_def y)
    have "line_at E w d o_id n (a_deliver_lines E p d' o_id' (db' ys)) = None \<longleftrightarrow> line_at E w d o_id n (db' ys) = None"
      by (cases "district_part E w d = district_part E (del_w_id p) d'") (simp_all add: line_at_def a_deliver_lines_def)
    then show ?case unfolding step using snoc by (simp add: lines_wf_delivered order_lines_delivered)
  qed (simp add: db'_def assms(1))
  then show "order_lines E w d o_id db \<noteq> {} \<Longrightarrow> order_lines E w d o_id (db' ys) \<noteq> {}"
    "line_at E w d o_id n (db' ys) = None \<longleftrightarrow> line_at E w d o_id n db = None" by simp_all
qed

lemma order_delivered_cols:
  assumes "length row = 36"
  shows "length (order_delivered carrier row) = 36" "customer_of (order_delivered carrier row) = customer_of row"
    "fld32 order_schema 5 (order_delivered carrier row) = carrier"
  using assms tpcc_schema_inv(6)
  by (simp_all add: order_delivered_def customer_of_def fld32_def length_row_with col_data_row_with)

definition orders_wf :: "'g tpcc_env \<Rightarrow> database \<Rightarrow> bool" where
  "orders_wf E db \<longleftrightarrow> (\<forall>w d o_id row. order_at E w d o_id db = Some row \<longrightarrow> length row = 36)"

lemma order_at_delivered:
  "order_at E w d o_id (a_deliver_order E p d' o_id' db) =
     (if w = del_w_id p \<and> d = d' \<and> o_id = o_id'
      then map_option (order_delivered (del_o_carrier_id p)) (order_at E w d o_id db) else order_at E w d o_id db)"
  by (auto simp: order_at_def a_deliver_order_def)

lemma deliver_orders_view:
  fixes E :: "'g tpcc_env" and p :: delivery_param
  assumes "orders_wf E db"
  defines "db' ys \<equiv> fold (\<lambda>(d, o_id). a_deliver_order E p d o_id) ys db"
  shows "map_option customer_of (order_at E w d o_id (db' ys)) = map_option customer_of (order_at E w d o_id db)"
proof -
  have "orders_wf E (db' ys) \<and>
      map_option customer_of (order_at E w d o_id (db' ys)) = map_option customer_of (order_at E w d o_id db)"
  proof (induction ys rule: rev_induct)
    case (snoc y ys)
    obtain d' o_id' where y: "y = (d', o_id')" by (cases y)
    have step: "db' (ys @ [y]) = a_deliver_order E p d' o_id' (db' ys)" by (simp add: db'_def y)
    have wf: "orders_wf E (db' ys)" using snoc by simp
    have "orders_wf E (db' (ys @ [y]))"
      using wf unfolding step orders_wf_def order_at_delivered by (auto simp: order_delivered_cols split: if_splits)
    moreover have "map_option customer_of (order_at E w d o_id (db' (ys @ [y]))) = map_option customer_of (order_at E w d o_id (db' ys))"
      using wf unfolding step order_at_delivered orders_wf_def
      by (cases "order_at E w d o_id (db' ys)") (auto simp: order_delivered_cols)
    ultimately show ?case using snoc by simp
  qed (simp add: db'_def assms(1))
  then show ?thesis by simp
qed

lemma credit_customers:
  "db_tab (fold (\<lambda>(d, o_id). a_credit D w0 d (cust (d, o_id)) (amount d)) ys db) CUSTOMER_TABLE_ID k = None \<longleftrightarrow>
   db_tab db CUSTOMER_TABLE_ID k = None"
proof -
  have "db_tab (a_credit D w0 d' c' a db) CUSTOMER_TABLE_ID k = None \<longleftrightarrow> db_tab db CUSTOMER_TABLE_ID k = None" for d' c' a db
    by (auto simp: a_credit_def)
  then show ?thesis by (induction ys rule: rev_induct) (simp_all add: split_beta)
qed

lemma tpcc_wf_lines: "parts_ok E \<Longrightarrow> tpcc_wf E db \<Longrightarrow> lines_wf E w db" "parts_ok E \<Longrightarrow> tpcc_wf E db \<Longrightarrow> orders_wf E db"
proof -
  have *: "length row = getSchemaSize s" if "tpcc_wf E db" "tpcc_registry (env_cfg E) i = Some (s, True, smbs)"
    "db_tab db i k = Some row" for i s smbs k row
    using that unfolding tpcc_wf_def by blast
  assume "parts_ok E" and wf: "tpcc_wf E db"
  then have p: "district_part E w d < partitions (env_cfg E)" "partitions (env_cfg E) \<le> TPCC_MAX_PARTITION_CNT" for w d
    by (simp_all add: parts_ok_def district_part_less)
  show "lines_wf E w db" "orders_wf E db"
    using * [OF wf tpcc_registry_parts(3) [OF p]] * [OF wf tpcc_registry_parts(1) [OF p]]
    by (auto simp: lines_wf_def orders_wf_def order_at_def)
qed

definition delivery_valid :: "delivery_param \<Rightarrow> database \<Rightarrow> bool" where
  "delivery_valid p db \<longleftrightarrow> (\<forall>d \<in> set all_districts. district_at (del_w_id p) d db \<noteq> None)"

lemma to_deliver_at:
  "dno_at w d db = Some nrow \<Longrightarrow>
   to_deliver E w db d = (if new_at E w d (oldest nrow) db = None then None else Some (oldest nrow))"
  by (simp add: to_deliver_def dno_at_def new_at_def)

lemma delivery_valid_ready:
  assumes con: "consistent E db" and valid: "delivery_valid p db"
  shows "delivery_ready E p db"
  unfolding delivery_ready_def
proof (intro ballI conjI allI impI)
  fix d assume d: "d \<in> set all_districts"
  obtain drow where drow: "district_at (del_w_id p) d db = Some drow" using valid d by (auto simp: delivery_valid_def)
  obtain nrow where n: "dno_at (del_w_id p) d db = Some nrow"
      "district_consistent E db (del_w_id p) d (oldest nrow) (next_o_id drow)"
    by (rule consistentE [OF con drow])
  show "db_tab db DISTRICT_NEW_ORDER_TABLE_ID (dno_key (del_w_id p) d) \<noteq> None" using n(1) by (simp add: dno_at_def)
  fix o_id assume td: "to_deliver E (del_w_id p) db d = Some o_id"
  then have o: "o_id = oldest nrow" "new_at E (del_w_id p) d o_id db \<noteq> None"
    unfolding to_deliver_at [OF n(1)] by (auto split: if_splits)
  then have "0 < o_id \<and> o_id < next_o_id drow" using n(2) unfolding district_consistent_def by blast
  then obtain row where row: "order_at E (del_w_id p) d o_id db = Some row"
    using n(2) unfolding district_consistent_def by blast
  then have "customer_at (del_w_id p) d (customer_of row) db \<noteq> None \<and> order_lines E (del_w_id p) d o_id db \<noteq> {}"
    using n(2) unfolding district_consistent_def by blast
  then show "order_lines E (del_w_id p) d o_id db \<noteq> {}"
    "\<exists>row. order_at E (del_w_id p) d o_id db = Some row \<and>
       db_tab db CUSTOMER_TABLE_ID (wkey [customer_of row, d, del_w_id p]) \<noteq> None"
    using row by (auto simp: customer_at_def)
qed

text \<open>The parts of the database after a delivery.\<close>

lemma delivery_views:
  fixes E :: "'g tpcc_env" and p :: delivery_param and ids :: "(32 word \<times> 32 word) list" and amount :: "32 word \<Rightarrow> 64 word"
  assumes parts: "parts_ok E" and wf: "tpcc_wf E db"
  defines "db' \<equiv> a_delivery E p ids amount db"
  shows "district_at w d db' = district_at w d db"
    "dno_at w d db' = (if w = del_w_id p \<and> d \<in> set all_districts \<and> to_deliver E (del_w_id p) db d \<noteq> None
       then map_option oldest_advanced (dno_at w d db) else dno_at w d db)"
    "new_at E w d o_id db' = (if w = del_w_id p \<and> d \<in> set all_districts \<and> to_deliver E (del_w_id p) db d = Some o_id
       then None else new_at E w d o_id db)"
    "map_option customer_of (order_at E w d o_id db') = map_option customer_of (order_at E w d o_id db)"
    "line_at E w d o_id n db' = None \<longleftrightarrow> line_at E w d o_id n db = None"
    "order_lines E w d o_id db \<noteq> {} \<Longrightarrow> order_lines E w d o_id db' \<noteq> {}"
    "db_tab db' CUSTOMER_TABLE_ID k = None \<longleftrightarrow> db_tab db CUSTOMER_TABLE_ID k = None"
    "i \<in> {ITEM_TABLE_ID, WAREHOUSE_TABLE_ID, DISTRICT_TABLE_ID, STOCK_TABLE_ID} \<Longrightarrow> db_tab db' i = db_tab db i"
proof -
  have ids: "district_part E w d < TPCC_MAX_PARTITION_CNT" for w d by (rule parts_okD [OF parts])
  note ids' = part_tables [OF ids ids]
  define db1 where "db1 = a_takes E (del_w_id p) all_districts db"
  define db2 where "db2 = fold (\<lambda>(d, o_id). a_deliver_lines E p d o_id) ids db1"
  define db3 where "db3 = fold (\<lambda>(d, o_id). a_deliver_order E p d o_id) ids db2"
  obtain cust :: "32 word \<times> 32 word \<Rightarrow> 32 word" where db': "db' = fold (\<lambda>(d, o_id). a_credit (env_dbl E) (del_w_id p) d (cust (d, o_id)) (amount d)) ids db3"
    unfolding db'_def a_delivery_def Let_def db1_def db2_def db3_def by blast
  have t1: "db_tab db1 i = db_tab db i" if "i \<noteq> DISTRICT_NEW_ORDER_TABLE_ID" "\<And>d. i \<noteq> NEW_ORDER_TABLE_ID + district_part E (del_w_id p) d" for i
    unfolding db1_def by (rule a_takes_other [OF that])
  have t2: "db_tab db2 i = db_tab db1 i" if "\<And>d. i \<noteq> ORDER_LINE_TABLE_ID + district_part E (del_w_id p) d" for i
    unfolding db2_def by (rule deliver_lines_other [OF that])
  have t3: "db_tab db3 i = db_tab db2 i" if "\<And>d. i \<noteq> ORDER_TABLE_ID + district_part E (del_w_id p) d" for i
    unfolding db3_def by (rule deliver_order_other [OF that])
  have t4: "db_tab db' i = db_tab db3 i" if "i \<noteq> CUSTOMER_TABLE_ID" for i
    unfolding db' by (rule a_credit_other [OF that])
  note t = t1 t2 t3 t4 ids'
  show "district_at w d db' = district_at w d db" by (simp add: district_at_def t)
  show "i \<in> {ITEM_TABLE_ID, WAREHOUSE_TABLE_ID, DISTRICT_TABLE_ID, STOCK_TABLE_ID} \<Longrightarrow> db_tab db' i = db_tab db i" by (auto simp: t)
  have "dno_at w d db' = dno_at w d db1" "new_at E w d o_id db' = new_at E w d o_id db1"
    by (simp_all add: dno_at_def new_at_def t2 t3 t4 ids')
  then show "dno_at w d db' = (if w = del_w_id p \<and> d \<in> set all_districts \<and> to_deliver E (del_w_id p) db d \<noteq> None
       then map_option oldest_advanced (dno_at w d db) else dno_at w d db)"
    "new_at E w d o_id db' = (if w = del_w_id p \<and> d \<in> set all_districts \<and> to_deliver E (del_w_id p) db d = Some o_id
       then None else new_at E w d o_id db)"
    unfolding db1_def using takes_views [OF parts distinct_all_districts] by simp_all
  have lines1: "lines_wf E w db1" for w using tpcc_wf_lines(1) [OF parts wf, of w] by (simp add: lines_wf_def t1 ids')
  have "orders_wf E db2" using tpcc_wf_lines(2) [OF parts wf] by (simp add: orders_wf_def order_at_def t1 t2 ids')
  from deliver_orders_view [OF this, of w d o_id p ids]
  have "map_option customer_of (order_at E w d o_id db3) = map_option customer_of (order_at E w d o_id db2)"
    by (simp add: db3_def)
  then show "map_option customer_of (order_at E w d o_id db') = map_option customer_of (order_at E w d o_id db)"
    by (simp add: order_at_def t1 t2 t4 ids')
  have lv: "order_lines E w d o_id db' = order_lines E w d o_id db2" "line_at E w d o_id n db' = line_at E w d o_id n db2"
    "order_lines E w d o_id db1 = order_lines E w d o_id db" "line_at E w d o_id n db1 = line_at E w d o_id n db"
    by (simp_all add: order_lines_def line_at_def t1 t3 t4 ids')
  show "line_at E w d o_id n db' = None \<longleftrightarrow> line_at E w d o_id n db = None"
    "order_lines E w d o_id db \<noteq> {} \<Longrightarrow> order_lines E w d o_id db' \<noteq> {}"
    using deliver_lines_views(1) [OF lines1, where w = w and d = d and o_id = o_id and p = p and ys = ids]
      deliver_lines_views(2) [OF lines1, where w = w and d = d and o_id = o_id and n = n and p = p and ys = ids]
    unfolding db2_def [symmetric] lv by simp_all
  have "db_tab db3 CUSTOMER_TABLE_ID = db_tab db CUSTOMER_TABLE_ID" by (simp add: t1 t2 t3 ids')
  then show "db_tab db' CUSTOMER_TABLE_ID k = None \<longleftrightarrow> db_tab db CUSTOMER_TABLE_ID k = None"
    unfolding db' credit_customers by simp
qed

lemma oldest_advanced_eq: "length row = 12 \<Longrightarrow> oldest (oldest_advanced row) = oldest row + 1"
  using tpcc_schema_inv(10) by (simp add: oldest_def oldest_advanced_def fld32_def col_data_row_with)

lemma delivery_consistent:
  fixes E :: "'g tpcc_env"
  assumes con: "consistent E db" and room: "has_room k db" and parts: "parts_ok E" and wf: "tpcc_wf E db"
  shows "consistent E (a_delivery E p ids amount db)" "has_room k (a_delivery E p ids amount db)"
proof -
  let ?db = "a_delivery E p ids amount db"
  note v = delivery_views(1-3) [OF parts wf, where p = p and ids = ids and amount = amount]
  have v4: "map_option customer_of (order_at E w d o_id ?db) = map_option customer_of (order_at E w d o_id db)"
    and v5: "line_at E w d o_id n ?db = None \<longleftrightarrow> line_at E w d o_id n db = None"
    and v6: "order_lines E w d o_id db \<noteq> {} \<Longrightarrow> order_lines E w d o_id ?db \<noteq> {}"
    and v7: "customer_at w d c ?db = None \<longleftrightarrow> customer_at w d c db = None" for w d o_id n c
    using delivery_views(4-7) [OF parts wf, where p = p and ids = ids and amount = amount] by (simp_all add: customer_at_def)
  show "consistent E ?db"
  proof (rule consistentI)
    fix w d drow assume "district_at w d ?db = Some drow"
    then have drow: "district_at w d db = Some drow" by (simp add: v(1))
    obtain nrow where n: "dno_at w d db = Some nrow" and c: "district_consistent E db w d (oldest nrow) (next_o_id drow)"
      by (rule consistentE [OF con drow])
    show "\<exists>nrow. dno_at w d ?db = Some nrow \<and> district_consistent E ?db w d (oldest nrow) (next_o_id drow)"
    proof (cases "w = del_w_id p \<and> d \<in> set all_districts \<and> to_deliver E w db d \<noteq> None")
      case False
      have "district_consistent E ?db w d (oldest nrow) (next_o_id drow)"
        by (rule district_consistent_cong [OF c]) (use False v4 v5 v6 v7 in \<open>auto simp: v(3)\<close>)
      then show ?thesis using n False by (auto simp: v(2))
    next
      case True
      have td: "to_deliver E w db d = Some (oldest nrow)" and new: "new_at E w d (oldest nrow) db \<noteq> None"
        using True unfolding to_deliver_at [OF n] by (auto split: if_splits)
      have c': "0 < oldest nrow" "oldest nrow \<le> next_o_id drow"
          "\<And>o_id. order_at E w d o_id db \<noteq> None \<longleftrightarrow> 0 < o_id \<and> o_id < next_o_id drow"
          "\<And>o_id. new_at E w d o_id db \<noteq> None \<longleftrightarrow> oldest nrow \<le> o_id \<and> o_id < next_o_id drow"
        using c unfolding district_consistent_def by blast+
      have lt: "oldest nrow < next_o_id drow" using c'(4) [of "oldest nrow"] new by simp
      have top: "unat (next_o_id drow) < 2 ^ LENGTH(32)" by (rule unsigned_less)
      have suc: "unat (oldest nrow + 1) = unat (oldest nrow) + 1"
        using lt top by (simp add: unat_word_ariths word_less_nat_alt)
      have "length nrow = 12" using wf n tpcc_registry_simps(7) unfolding tpcc_wf_def dno_at_def by fastforce
      then have old: "oldest (oldest_advanced nrow) = oldest nrow + 1" by (rule oldest_advanced_eq)
      have new': "new_at E w d o_id ?db \<noteq> None \<longleftrightarrow> oldest nrow + 1 \<le> o_id \<and> o_id < next_o_id drow" for o_id
      proof -
        have "oldest nrow + 1 \<le> o_id \<longleftrightarrow> oldest nrow \<le> o_id \<and> o_id \<noteq> oldest nrow"
          using suc by (auto simp: word_le_nat_alt word_unat_eq_iff)
        then show ?thesis using c'(4) [of o_id] True td by (auto simp: v(3))
      qed
      have "district_consistent E ?db w d (oldest nrow + 1) (next_o_id drow)"
        unfolding district_consistent_def
      proof (intro conjI allI)
        show "0 < oldest nrow + 1" "oldest nrow + 1 \<le> next_o_id drow"
          using suc lt by (simp_all add: word_less_nat_alt word_le_nat_alt)
        show "order_at E w d o_id ?db \<noteq> None \<longleftrightarrow> 0 < o_id \<and> o_id < next_o_id drow" for o_id
          using v4 [of w d o_id] c'(3) [of o_id] by (metis option.map_disc_iff)
        show "new_at E w d o_id ?db \<noteq> None \<longleftrightarrow> oldest nrow + 1 \<le> o_id \<and> o_id < next_o_id drow" for o_id by (rule new')
        show "line_at E w d o_id n ?db \<noteq> None \<longrightarrow> o_id < next_o_id drow" for o_id n
          using c unfolding v5 district_consistent_def by blast
        show "order_at E w d o_id ?db = Some row \<longrightarrow>
            customer_at w d (customer_of row) ?db \<noteq> None \<and> order_lines E w d o_id ?db \<noteq> {}" for o_id row
        proof
          assume "order_at E w d o_id ?db = Some row"
          then obtain row' where r: "order_at E w d o_id db = Some row'" "customer_of row' = customer_of row"
            using v4 [of w d o_id] by (cases "order_at E w d o_id db") auto
          then have "customer_at w d (customer_of row') db \<noteq> None \<and> order_lines E w d o_id db \<noteq> {}"
            using c unfolding district_consistent_def by blast
          then show "customer_at w d (customer_of row) ?db \<noteq> None \<and> order_lines E w d o_id ?db \<noteq> {}"
            unfolding v7 using v6 r(2) by simp
        qed
      qed
      then show ?thesis using n True old by (auto simp: v(2))
    qed
  qed
  show "has_room k ?db" using room unfolding has_room_def v(1) .
qed

end
