(* ===== verification/TpccSerial.thy ===== *)
theory TpccSerial
  imports TpccConsistency
begin

text \<open>
  The serial processor of TPC-C (benchmark/tpcc/TpccSerialProcessor.cc) on a consistent database: it
  executes every valid transaction to its end, keeps the database consistent and the stock within bounds.
\<close>

section \<open>Valid transactions\<close>

fun event_valid :: "tpcc_event \<Rightarrow> database \<Rightarrow> bool" where
  "event_valid (DELIVERY p) db \<longleftrightarrow> delivery_valid p db"
| "event_valid (NEW_ORDER p) db \<longleftrightarrow> order_valid p db"
| "event_valid (PAYMENT p) db \<longleftrightarrow> payment_ready p db"
| "event_valid (ORDER_STATUS p) db \<longleftrightarrow> True"
| "event_valid (STOCK_LEVEL p) db \<longleftrightarrow> True"
| "event_valid ENDEXECUTION db \<longleftrightarrow> False"

text \<open>What a transaction does to the maps, for some choice of what it draws and in what order it adds.\<close>

fun event_step :: "'g tpcc_env \<Rightarrow> tpcc_event \<Rightarrow> database \<Rightarrow> database \<Rightarrow> bool" where
  "event_step E (DELIVERY p) db db' \<longleftrightarrow>
     (\<exists>amount. amounts_ok E p db amount \<and> db' = a_delivery E p (delivered_ids E p db) amount db)"
| "event_step E (NEW_ORDER p) db db' \<longleftrightarrow> db' = a_new_order E p db"
| "event_step E (PAYMENT p) db db' \<longleftrightarrow>
     (\<exists>h_data. 12 \<le> length h_data \<and> length h_data \<le> 24 \<and> db' = a_payment E p h_data db)"
| "event_step E (ORDER_STATUS p) db db' \<longleftrightarrow> db' = db"
| "event_step E (STOCK_LEVEL p) db db' \<longleftrightarrow> db' = db"
| "event_step E ENDEXECUTION db db' \<longleftrightarrow> db' = db"

definition env_ok :: "'g tpcc_env \<Rightarrow> bool" where
  "env_ok E \<longleftrightarrow> order_ok E \<and> rand_laws (env_lib E) \<and> 3 \<le> length (env_stack E)"

text \<open>The processor refines the steps on the maps.\<close>

lemma tpcc_process_refines:
  assumes inv: "tpcc_inv T E sm" and env: "env_ok E"
    and con: "consistent E (db_abs T sm)" and valid: "event_valid e (db_abs T sm)"
  shows "gen_returns (tpcc_process T E e sm) (\<lambda>sm'. tpcc_inv T E sm' \<and> event_step E e (db_abs T sm) (db_abs T sm'))"
proof -
  have ok: "order_ok E" "rand_laws (env_lib E)" "3 \<le> length (env_stack E)" using env by (simp_all add: env_ok_def)
  show ?thesis
  proof (cases e)
    case (DELIVERY p)
    obtain amount sm' where "amounts_ok E p (db_abs T sm) amount" "processDelivery T E p sm = Inr sm'"
        "becomes T (tpcc_registry (env_cfg E)) sm sm' (a_delivery E p (delivered_ids E p (db_abs T sm)) amount)"
      using processDelivery_does [OF inv ok(1) delivery_valid_ready [OF con]] valid DELIVERY
      unfolding does_def by (metis event_valid.simps(1))
    then show ?thesis
      using DELIVERY tpcc_inv_becomes [OF inv]
      by (auto simp: becomes_def intro!: glift_returns)
  next
    case (NEW_ORDER p)
    have "new_order_ready E p (db_abs T sm)" using order_valid_ready [OF con] valid NEW_ORDER by simp
    then obtain sm' where "processNewOrder T E p sm = Inr sm'" "becomes T (tpcc_registry (env_cfg E)) sm sm' (a_new_order E p)"
      using processNewOrder_does [OF inv ok(3)] by (auto simp: does_def)
    then show ?thesis
      using NEW_ORDER tpcc_inv_becomes [OF inv] by (auto simp: becomes_def intro!: glift_returns)
  next
    case (PAYMENT p)
    have "payment_ready p (db_abs T sm)" using valid PAYMENT by simp
    from processPayment_does [OF inv ok(2) this]
    have "gen_returns (processPayment T E p sm) (\<lambda>sm'. tpcc_inv T E sm' \<and> event_step E e (db_abs T sm) (db_abs T sm'))"
      by (rule gen_weaken) (use PAYMENT tpcc_inv_becomes [OF inv] in \<open>auto simp: becomes_def\<close>)
    then show ?thesis using PAYMENT by simp
  qed (use valid inv in \<open>auto intro: gret_returns\<close>)
qed

section \<open>The static part\<close>

definition same_static :: "database \<Rightarrow> database \<Rightarrow> bool" where
  "same_static db db' \<longleftrightarrow>
     (\<forall>i \<in> {ITEM_TABLE_ID, WAREHOUSE_TABLE_ID, DISTRICT_TABLE_ID, CUSTOMER_TABLE_ID}.
        \<forall>k. db_tab db' i k = None \<longleftrightarrow> db_tab db i k = None) \<and>
     (\<forall>c k. 3 \<le> c \<longrightarrow> c < 13 \<longrightarrow> map_option (col_data stock_schema c) (db_tab db' STOCK_TABLE_ID k) =
        map_option (col_data stock_schema c) (db_tab db STOCK_TABLE_ID k))"

lemma same_static_trans: "same_static db1 db2 \<Longrightarrow> same_static db2 db3 \<Longrightarrow> same_static db1 db3"
  by (simp add: same_static_def)

lemma same_staticD:
  assumes "same_static db db'"
  shows "i \<in> {ITEM_TABLE_ID, WAREHOUSE_TABLE_ID, DISTRICT_TABLE_ID, CUSTOMER_TABLE_ID} \<Longrightarrow>
      db_tab db' i k = None \<longleftrightarrow> db_tab db i k = None"
    and "lists_agree p \<Longrightarrow> same_dists p (db_tab db STOCK_TABLE_ID) (db_tab db' STOCK_TABLE_ID)"
proof -
  show "db_tab db' i k = None \<longleftrightarrow> db_tab db i k = None"
    if "i \<in> {ITEM_TABLE_ID, WAREHOUSE_TABLE_ID, DISTRICT_TABLE_ID, CUSTOMER_TABLE_ID}"
    using bspec [OF conjunct1 [OF assms [unfolded same_static_def]] that] by blast
  show "same_dists p (db_tab db STOCK_TABLE_ID) (db_tab db' STOCK_TABLE_ID)" if "lists_agree p"
    using assms that unfolding same_static_def same_dists_def lists_agree_def by simp
qed

lemma event_valid_static:
  assumes "same_static db db'" "event_valid e db"
  shows "event_valid e db'"
proof -
  have tab: "db_tab db' i k = None \<longleftrightarrow> db_tab db i k = None"
    if "i \<in> {ITEM_TABLE_ID, WAREHOUSE_TABLE_ID, DISTRICT_TABLE_ID, CUSTOMER_TABLE_ID}" for i k
    by (rule same_staticD(1) [OF assms(1) that])
  have stock: "stock_ready p i (db_tab db' STOCK_TABLE_ID)"
    if "lists_agree p" "stock_ready p i (db_tab db STOCK_TABLE_ID)" for p i
    by (rule same_dists_ready [OF same_staticD(2) [OF assms(1) that(1)] that(2)])
  show ?thesis
    using assms(2) stock
    by (cases e) (simp_all add: delivery_valid_def order_valid_def payment_ready_def district_at_def customer_at_def tab del: not_None_eq)
qed

lemma same_staticI:
  assumes "\<And>i k. i \<in> {ITEM_TABLE_ID, WAREHOUSE_TABLE_ID, DISTRICT_TABLE_ID, CUSTOMER_TABLE_ID} \<Longrightarrow>
      db_tab db' i k = None \<longleftrightarrow> db_tab db i k = None"
    and "\<And>c k. 3 \<le> c \<Longrightarrow> c < 13 \<Longrightarrow> map_option (col_data stock_schema c) (db_tab db' STOCK_TABLE_ID k) =
        map_option (col_data stock_schema c) (db_tab db STOCK_TABLE_ID k)"
  shows "same_static db db'"
  unfolding same_static_def
proof (intro conjI ballI allI impI)
  fix i k assume "i \<in> {ITEM_TABLE_ID, WAREHOUSE_TABLE_ID, DISTRICT_TABLE_ID, CUSTOMER_TABLE_ID}"
  then show "db_tab db' i k = None \<longleftrightarrow> db_tab db i k = None" by (rule assms(1))
next
  fix c :: nat and k assume "3 \<le> c" "c < 13"
  then show "map_option (col_data stock_schema c) (db_tab db' STOCK_TABLE_ID k) =
      map_option (col_data stock_schema c) (db_tab db STOCK_TABLE_ID k)" by (rule assms(2))
qed

lemma static_delivery:
  assumes "parts_ok E" "tpcc_wf E db"
  shows "same_static db (a_delivery E p ids amount db)"
proof (rule same_staticI)
  note v = delivery_views(7,8) [OF assms, where p = p and ids = ids and amount = amount]
  show "db_tab (a_delivery E p ids amount db) i k = None \<longleftrightarrow> db_tab db i k = None"
    if "i \<in> {ITEM_TABLE_ID, WAREHOUSE_TABLE_ID, DISTRICT_TABLE_ID, CUSTOMER_TABLE_ID}" for i k
  proof (cases "i = CUSTOMER_TABLE_ID")
    case False
    then have "i \<in> {ITEM_TABLE_ID, WAREHOUSE_TABLE_ID, DISTRICT_TABLE_ID, STOCK_TABLE_ID}" using that by auto
    then show ?thesis by (simp only: v(2))
  qed (simp add: v(1))
  show "map_option (col_data stock_schema c) (db_tab (a_delivery E p ids amount db) STOCK_TABLE_ID k) =
      map_option (col_data stock_schema c) (db_tab db STOCK_TABLE_ID k)" for c :: nat and k
    using v(2) [of STOCK_TABLE_ID] by simp
qed

lemma static_payment: "same_static db (a_payment E p h_data db)"
  by (rule same_staticI) (auto simp: a_payment_def)

section \<open>The stock\<close>

definition stock_within :: "database \<Rightarrow> bool" where
  "stock_within db \<longleftrightarrow>
     (\<forall>k row. db_tab db STOCK_TABLE_ID k = Some row \<longrightarrow>
        10 \<le> sint (fld32 stock_schema 2 row) \<and> sint (fld32 stock_schema 2 row) \<le> 100)"

fun quantities_ok :: "tpcc_event \<Rightarrow> bool" where
  "quantities_ok (NEW_ORDER p) \<longleftrightarrow> (\<forall>q \<in> set (nop_i_qtys p). 1 \<le> sint q \<and> sint q \<le> 10)"
| "quantities_ok _ \<longleftrightarrow> True"

text \<open>The new quantity of an item, without wrap-around.\<close>

lemma stock_quantity_sint:
  assumes "10 \<le> sint q" "sint q \<le> 100" "1 \<le> sint n" "sint n \<le> 10"
  shows "sint (stock_quantity q n) = (if sint n + 10 \<le> sint q then sint q - sint n else sint q + 91 - sint n)"
proof -
  have s: "sint (word_of_int x :: 32 word) = x" if "- 1000 \<le> x" "x \<le> 1000" for x
    using that by (simp add: signed_of_int signed_take_bit_int_eq_self)
  have eq: "word_of_int (sint n + 10) = n + 10" "word_of_int (sint q - sint n) = q - n"
    "word_of_int (sint q + 91 - sint n) = q + 91 - n" by simp_all
  have "sint (n + 10) = sint n + 10" "sint (q - n) = sint q - sint n" "sint (q + 91 - n) = sint q + 91 - sint n"
    unfolding eq [symmetric] using assms by (auto intro!: s simp del: of_int_add of_int_diff)
  then show ?thesis by (simp add: stock_quantity_def word_sle_eq)
qed

lemma stocks_kept:
  assumes len: "\<And>k row. db_tab db STOCK_TABLE_ID k = Some row \<Longrightarrow> length row = 408"
  shows "db_tab (a_stocks p n db) STOCK_TABLE_ID k = Some row \<Longrightarrow> length row = 408"
    and "3 \<le> c \<Longrightarrow> c < 13 \<Longrightarrow> map_option (col_data stock_schema c) (db_tab (a_stocks p n db) STOCK_TABLE_ID k) =
        map_option (col_data stock_schema c) (db_tab db STOCK_TABLE_ID k)"
    and "stock_within db \<Longrightarrow> \<forall>i < n. 1 \<le> sint (nop_i_qtys p ! i) \<and> sint (nop_i_qtys p ! i) \<le> 10 \<Longrightarrow>
        stock_within (a_stocks p n db)"
proof -
  have step: "\<exists>row0. db_tab db STOCK_TABLE_ID k = Some row0 \<and> (row = row0 \<or>
      row = stock_ordered (nop_w_id p) (nop_i_w_ids p ! i) (nop_i_qtys p ! i) row0)"
    if "db_tab (a_stock p i db) STOCK_TABLE_ID k = Some row" for i db k row
    using that by (auto simp: a_stock_def split: if_splits)
  have lens: "\<forall>k row. db_tab (a_stocks p n db) STOCK_TABLE_ID k = Some row \<longrightarrow> length row = 408" for n
  proof (induction n)
    case (Suc n)
    show ?case
    proof (intro allI impI)
      fix k row assume "db_tab (a_stocks p (Suc n) db) STOCK_TABLE_ID k = Some row"
      then have "db_tab (a_stock p n (a_stocks p n db)) STOCK_TABLE_ID k = Some row" by simp
      from step [OF this] obtain row0 where "db_tab (a_stocks p n db) STOCK_TABLE_ID k = Some row0"
          "row = row0 \<or> row = stock_ordered (nop_w_id p) (nop_i_w_ids p ! n) (nop_i_qtys p ! n) row0" by blast
      moreover from this(1) have "length row0 = 408" using Suc.IH by blast
      ultimately show "length row = 408" using stock_ordered_cols(1) by auto
    qed
  qed (use len in simp)
  then show "db_tab (a_stocks p n db) STOCK_TABLE_ID k = Some row \<Longrightarrow> length row = 408" by blast
  show "map_option (col_data stock_schema c) (db_tab (a_stocks p n db) STOCK_TABLE_ID k) =
        map_option (col_data stock_schema c) (db_tab db STOCK_TABLE_ID k)" if c: "3 \<le> c" "c < 13"
  proof (induction n)
    case (Suc n)
    have "map_option (col_data stock_schema c) (db_tab (a_stock p n (a_stocks p n db)) STOCK_TABLE_ID k) =
        map_option (col_data stock_schema c) (db_tab (a_stocks p n db) STOCK_TABLE_ID k)"
      using c lens [of n]
      by (cases "db_tab (a_stocks p n db) STOCK_TABLE_ID k") (auto simp: a_stock_def stock_ordered_cols(6))
    then show ?case using Suc by simp
  qed simp
  show "stock_within (a_stocks p n db)"
    if w: "stock_within db" and q: "\<forall>i < n. 1 \<le> sint (nop_i_qtys p ! i) \<and> sint (nop_i_qtys p ! i) \<le> 10"
    using q
  proof (induction n)
    case (Suc n)
    then have IH: "stock_within (a_stocks p n db)" by simp
    have q: "1 \<le> sint (nop_i_qtys p ! n)" "sint (nop_i_qtys p ! n) \<le> 10" using Suc.prems by simp_all
    show ?case
      unfolding stock_within_def
    proof (intro allI impI)
      fix k row assume "db_tab (a_stocks p (Suc n) db) STOCK_TABLE_ID k = Some row"
      then have "db_tab (a_stock p n (a_stocks p n db)) STOCK_TABLE_ID k = Some row" by simp
      from step [OF this] obtain row0 where row0: "db_tab (a_stocks p n db) STOCK_TABLE_ID k = Some row0"
          "row = row0 \<or> row = stock_ordered (nop_w_id p) (nop_i_w_ids p ! n) (nop_i_qtys p ! n) row0" by blast
      have b: "10 \<le> sint (fld32 stock_schema 2 row0)" "sint (fld32 stock_schema 2 row0) \<le> 100"
        using IH row0(1) by (auto simp: stock_within_def)
      have "length row0 = 408" using lens row0(1) by blast
      then show "10 \<le> sint (fld32 stock_schema 2 row) \<and> sint (fld32 stock_schema 2 row) \<le> 100"
        using row0(2) b q stock_quantity_sint [OF b q] by (auto simp: stock_ordered_cols(2))
    qed
  qed (use w in simp)
qed

lemma static_new_order:
  fixes E :: "'g tpcc_env"
  assumes parts: "parts_ok E" and wf: "tpcc_wf E db" and valid: "order_valid p db"
  shows "same_static db (a_new_order E p db)"
    and "stock_within db \<Longrightarrow> \<forall>q \<in> set (nop_i_qtys p). 1 \<le> sint q \<and> sint q \<le> 10 \<Longrightarrow> stock_within (a_new_order E p db)"
proof -
  have ids: "district_part E w d < TPCC_MAX_PARTITION_CNT" for w d by (rule parts_okD [OF parts])
  note ids' = part_tables [OF ids ids] line_table_def
  obtain o_id ds am f where db': "a_new_order E p db = a_lines E p o_id ds am (order_length p) (a_stocks p (order_length p) (f db))"
    and f: "\<And>k. db_tab (f db) STOCK_TABLE_ID = db_tab db STOCK_TABLE_ID"
      "\<And>i k. i \<in> {ITEM_TABLE_ID, WAREHOUSE_TABLE_ID, DISTRICT_TABLE_ID, CUSTOMER_TABLE_ID} \<Longrightarrow>
        db_tab (f db) i k = None \<longleftrightarrow> db_tab db i k = None"
  proof -
    let ?part = "district_part E (nop_w_id p) (nop_d_id p)" and ?o = "next_o_id (the (db_tab db DISTRICT_TABLE_ID (district_key p)))"
    let ?f = "\<lambda>db. a_put (NEW_ORDER_TABLE_ID + ?part) (order_key p ?o) (new_order_row E p ?o)
            (a_put (ORDER_TABLE_ID + ?part) (order_key p ?o) (order_row E p ?o)
              (a_modify DISTRICT_TABLE_ID (district_key p) district_advanced db))"
    have "db_tab (?f db) i k = None \<longleftrightarrow> db_tab db i k = None"
      if "i \<in> {ITEM_TABLE_ID, WAREHOUSE_TABLE_ID, DISTRICT_TABLE_ID, CUSTOMER_TABLE_ID}" for i k
      using that by (auto simp: ids')
    then show thesis
      using that [of ?o "dist_infos p (db_tab db STOCK_TABLE_ID) (order_length p)"
          "map (line_amount (env_dbl E) p (db_tab db ITEM_TABLE_ID)) [0..<order_length p]" ?f]
      by (simp add: a_new_order_def Let_def ids')
  qed
  have other: "db_tab (a_new_order E p db) i = db_tab (a_stocks p (order_length p) (f db)) i"
    if "\<And>w d. i \<noteq> ORDER_LINE_TABLE_ID + district_part E w d" for i
    unfolding db' using that by (intro a_lines_other) (simp add: line_table_def)
  have len: "length row = 408" if "db_tab (f db) STOCK_TABLE_ID k = Some row" for k row
    using wf that tpcc_registry_simps(6) unfolding f(1) tpcc_wf_def by fastforce
  have stock: "db_tab (a_new_order E p db) STOCK_TABLE_ID = db_tab (a_stocks p (order_length p) (f db)) STOCK_TABLE_ID"
    by (rule other) (simp add: ids')
  show "same_static db (a_new_order E p db)"
  proof (rule same_staticI)
    show "db_tab (a_new_order E p db) i k = None \<longleftrightarrow> db_tab db i k = None"
      if i: "i \<in> {ITEM_TABLE_ID, WAREHOUSE_TABLE_ID, DISTRICT_TABLE_ID, CUSTOMER_TABLE_ID}" for i k
    proof -
      have "i \<noteq> ORDER_LINE_TABLE_ID + district_part E w d" "i \<noteq> STOCK_TABLE_ID" for w d using i by (auto simp: ids')
      then show ?thesis using other [of i] f(2) [OF i] by (simp add: a_stocks_other)
    qed
    show "map_option (col_data stock_schema c) (db_tab (a_new_order E p db) STOCK_TABLE_ID k) =
        map_option (col_data stock_schema c) (db_tab db STOCK_TABLE_ID k)" if "3 \<le> c" "c < 13" for c k
    proof -
      have "map_option (col_data stock_schema c) (db_tab (a_stocks p (order_length p) (f db)) STOCK_TABLE_ID k) =
          map_option (col_data stock_schema c) (db_tab (f db) STOCK_TABLE_ID k)"
        by (rule stocks_kept(2) [OF _ that]) (rule len)
      then show ?thesis unfolding stock f(1) .
    qed
  qed
  show "stock_within (a_new_order E p db)"
    if w: "stock_within db" and q: "\<forall>q \<in> set (nop_i_qtys p). 1 \<le> sint q \<and> sint q \<le> 10"
  proof -
    have "order_length p = length (nop_i_qtys p)" using valid by (simp add: order_valid_def lists_agree_def order_length_def)
    then have q': "\<forall>i < order_length p. 1 \<le> sint (nop_i_qtys p ! i) \<and> sint (nop_i_qtys p ! i) \<le> 10" using q by simp
    have w': "stock_within (f db)" using w f(1) by (simp add: stock_within_def)
    have "stock_within (a_stocks p (order_length p) (f db))"
      by (rule stocks_kept(3) [OF _ w' q']) (rule len)
    then show ?thesis by (simp add: stock_within_def stock)
  qed
qed

section \<open>The serial processor\<close>

lemma event_step_keeps:
  fixes E :: "'g tpcc_env"
  assumes step: "event_step E e db db'" and valid: "event_valid e db" and env: "env_ok E"
    and con: "consistent E db" "has_room (Suc k) db" and parts: "parts_ok E" and wf: "tpcc_wf E db"
  shows "consistent E db'" "has_room k db'" "same_static db db'"
    and "stock_within db \<Longrightarrow> quantities_ok e \<Longrightarrow> stock_within db'"
proof -
  have less: "has_room k db" using con(2) by (fastforce simp: has_room_def)
  have same: "same_static db db" by (rule same_staticI) simp_all
  have "consistent E db' \<and> has_room k db' \<and> same_static db db' \<and> (stock_within db \<longrightarrow> quantities_ok e \<longrightarrow> stock_within db')"
  proof (cases e)
    case (DELIVERY p)
    then obtain amount where db': "db' = a_delivery E p (delivered_ids E p db) amount db" using step by auto
    have "stock_within db \<Longrightarrow> stock_within db'"
      using delivery_views(8) [OF parts wf, where p = p and ids = "delivered_ids E p db" and amount = amount and i = STOCK_TABLE_ID]
      by (simp add: stock_within_def db')
    then show ?thesis
      unfolding db' using delivery_consistent [OF con(1) less parts wf] static_delivery [OF parts wf] by blast
  next
    case (NEW_ORDER p)
    then have db': "db' = a_new_order E p db" and v: "order_valid p db" using step valid by simp_all
    have stack: "3 \<le> length (env_stack E)" using env by (simp add: env_ok_def)
    show ?thesis
      unfolding db' using new_order_consistent [OF con(1) v con(2) parts wf stack] static_new_order [OF parts wf v] NEW_ORDER by simp
  next
    case (PAYMENT p)
    then obtain h where db': "db' = a_payment E p h db" using step by auto
    have "stock_within db \<Longrightarrow> stock_within db'" by (simp add: stock_within_def db' a_payment_def)
    then show ?thesis unfolding db' using payment_consistent [OF con(1) less parts wf] static_payment by blast
  qed (use step con less same valid in simp_all)
  then show "consistent E db'" "has_room k db'" "same_static db db'"
    "stock_within db \<Longrightarrow> quantities_ok e \<Longrightarrow> stock_within db'" by simp_all
qed

text \<open>The steps on the maps, one after the other.\<close>

fun events_step :: "'g tpcc_env \<Rightarrow> tpcc_event list \<Rightarrow> database \<Rightarrow> database \<Rightarrow> bool" where
  "events_step E [] db db' \<longleftrightarrow> db' = db"
| "events_step E (e # es) db db' \<longleftrightarrow> (\<exists>db1. event_step E e db db1 \<and> events_step E es db1 db')"

text \<open>What holds of the database while the processor runs.\<close>

definition tpcc_ok :: "('q, 'h, 'm) tbb \<Rightarrow> 'g tpcc_env \<Rightarrow> nat \<Rightarrow> ('q, 'h, 'm) storage_manager \<Rightarrow> bool" where
  "tpcc_ok T E k sm \<longleftrightarrow> tpcc_inv T E sm \<and> consistent E (db_abs T sm) \<and> has_room k (db_abs T sm)"

lemma serial_run:
  fixes sm :: "('q, 'h, 'm) storage_manager"
  assumes env: "env_ok E"
  shows "tpcc_ok T E (length es) sm \<Longrightarrow> \<forall>e \<in> set es. event_valid e (db_abs T sm) \<Longrightarrow>
    gen_returns (tpcc_serial_start T E (es @ ENDEXECUTION # rest) n sm) (\<lambda>(sm', n', queue).
      n' = n + length es \<and> queue = rest \<and> tpcc_ok T E 0 sm' \<and> events_step E es (db_abs T sm) (db_abs T sm') \<and>
      same_static (db_abs T sm) (db_abs T sm') \<and>
      (stock_within (db_abs T sm) \<longrightarrow> (\<forall>e \<in> set es. quantities_ok e) \<longrightarrow> stock_within (db_abs T sm')))"
proof (induction es arbitrary: sm n)
  case Nil
  have "same_static (db_abs T sm) (db_abs T sm)" by (rule same_staticI) simp_all
  then show ?case using Nil.prems by (auto intro!: gret_returns)
next
  case (Cons e es)
  let ?db = "db_abs T sm"
  have inv: "tpcc_inv T E sm" and con: "consistent E ?db" and room: "has_room (Suc (length es)) ?db"
    using Cons.prems(1) by (simp_all add: tpcc_ok_def)
  have valid: "event_valid e ?db" and ne: "e \<noteq> ENDEXECUTION" using Cons.prems(2) by auto
  have run: "tpcc_serial_start T E ((e # es) @ ENDEXECUTION # rest) n sm =
      gbnd (tpcc_process T E e sm) (tpcc_serial_start T E (es @ ENDEXECUTION # rest) (n + 1))"
    using ne by simp
  show ?case
    unfolding run
  proof (rule gbnd_returns [OF tpcc_process_refines [OF inv env con valid]])
    fix sm1 assume s: "tpcc_inv T E sm1 \<and> event_step E e ?db (db_abs T sm1)"
    then have step: "event_step E e ?db (db_abs T sm1)" by simp
    note keeps = event_step_keeps [OF step valid env con room tpcc_inv_parts [OF inv] tpcc_inv_wf [OF inv]]
    have ok: "tpcc_ok T E (length es) sm1" using s keeps(1,2) by (simp add: tpcc_ok_def)
    have valid1: "\<forall>e \<in> set es. event_valid e (db_abs T sm1)"
      using Cons.prems(2) event_valid_static [OF keeps(3)] by simp
    show "gen_returns (tpcc_serial_start T E (es @ ENDEXECUTION # rest) (n + 1) sm1) (\<lambda>(sm', n', queue).
      n' = n + length (e # es) \<and> queue = rest \<and> tpcc_ok T E 0 sm' \<and> events_step E (e # es) ?db (db_abs T sm') \<and>
      same_static ?db (db_abs T sm') \<and>
      (stock_within ?db \<longrightarrow> (\<forall>e \<in> set (e # es). quantities_ok e) \<longrightarrow> stock_within (db_abs T sm')))"
    proof (rule gen_weaken [OF Cons.IH [OF ok valid1]])
      fix r :: "('q, 'h, 'm) storage_manager \<times> nat \<times> tpcc_event list"
      assume r: "case r of (sm', n', queue) \<Rightarrow> n' = n + 1 + length es \<and> queue = rest \<and> tpcc_ok T E 0 sm' \<and>
          events_step E es (db_abs T sm1) (db_abs T sm') \<and> same_static (db_abs T sm1) (db_abs T sm') \<and>
          (stock_within (db_abs T sm1) \<longrightarrow> (\<forall>e \<in> set es. quantities_ok e) \<longrightarrow> stock_within (db_abs T sm'))"
      obtain sm' n' queue where q: "r = (sm', n', queue)" by (cases r)
      have "same_static ?db (db_abs T sm')" using same_static_trans [OF keeps(3)] r q by simp
      moreover have "events_step E (e # es) ?db (db_abs T sm')" using step r q by auto
      ultimately show "case r of (sm', n', queue) \<Rightarrow> n' = n + length (e # es) \<and> queue = rest \<and> tpcc_ok T E 0 sm' \<and>
          events_step E (e # es) ?db (db_abs T sm') \<and> same_static ?db (db_abs T sm') \<and>
          (stock_within ?db \<longrightarrow> (\<forall>e \<in> set (e # es). quantities_ok e) \<longrightarrow> stock_within (db_abs T sm'))"
        using r q keeps(4) by simp
    qed
  qed
qed

end
