(* ===== verification/TpccPopulation.thy ===== *)
theory TpccPopulation
  imports TpccDraws TpccSerial
begin

text \<open>
  What the loops of benchmark/tpcc/TpccPopulator.cc load: every part of the populator adds the records of a
  set of keys, the sets are disjoint, and their union is a consistent TPC-C database.
\<close>

section \<open>Keys of the database\<close>

datatype tpcc_key =
    KItem "32 word"
  | KWarehouse "32 word"
  | KDistrict "32 word" "32 word"
  | KCustomer "32 word" "32 word" "32 word"
  | KStock "32 word" "32 word"
  | KDno "32 word" "32 word"
  | KOrder "32 word" "32 word" "32 word"
  | KNew "32 word" "32 word" "32 word"
  | KLine "32 word" "32 word" "32 word" "32 word"

fun key_table :: "'g tpcc_env \<Rightarrow> tpcc_key \<Rightarrow> nat" where
  "key_table E (KItem i) = ITEM_TABLE_ID"
| "key_table E (KWarehouse w) = WAREHOUSE_TABLE_ID"
| "key_table E (KDistrict w d) = DISTRICT_TABLE_ID"
| "key_table E (KCustomer w d c) = CUSTOMER_TABLE_ID"
| "key_table E (KStock w i) = STOCK_TABLE_ID"
| "key_table E (KDno w d) = DISTRICT_NEW_ORDER_TABLE_ID"
| "key_table E (KOrder w d o_id) = ORDER_TABLE_ID + district_part E w d"
| "key_table E (KNew w d o_id) = NEW_ORDER_TABLE_ID + district_part E w d"
| "key_table E (KLine w d o_id n) = ORDER_LINE_TABLE_ID + district_part E w d"

fun key_bytes :: "tpcc_key \<Rightarrow> bytes" where
  "key_bytes (KItem i) = wkey [i]"
| "key_bytes (KWarehouse w) = wkey [w]"
| "key_bytes (KDistrict w d) = wkey [d, w]"
| "key_bytes (KCustomer w d c) = wkey [c, d, w]"
| "key_bytes (KStock w i) = wkey [i, w]"
| "key_bytes (KDno w d) = wkey [w, d]"
| "key_bytes (KOrder w d o_id) = wkey [o_id, d, w]"
| "key_bytes (KNew w d o_id) = wkey [o_id, d, w]"
| "key_bytes (KLine w d o_id n) = wkey [o_id, d, w, n]"

text \<open>A record is found by its table and the bytes of its key.\<close>

lemma key_unique:
  assumes "parts_ok E" "key_table E k1 = key_table E k2" "key_bytes k1 = key_bytes k2"
  shows "k1 = k2"
proof -
  have ids: "district_part E w d < TPCC_MAX_PARTITION_CNT" for w d by (rule parts_okD [OF assms(1)])
  note t = part_tables [OF ids ids]
  show ?thesis using assms(2,3) by (cases k1; cases k2) (simp_all add: t t [symmetric])
qed

section \<open>Loaded records\<close>

text \<open>What is asked of the records: the numbers of the districts, the stock and the customers of orders, which
  lines belong to an order. \<open>nxt\<close> is the number of the next order of a district, \<open>old\<close> that of the oldest new
  one.\<close>

fun row_ok :: "32 word \<Rightarrow> 32 word \<Rightarrow> tpcc_key \<Rightarrow> bytes \<Rightarrow> bool" where
  "row_ok old nxt (KDistrict w d) row \<longleftrightarrow> next_o_id row = nxt"
| "row_ok old nxt (KDno w d) row \<longleftrightarrow> oldest row = old"
| "row_ok old nxt (KStock w i) row \<longleftrightarrow>
     10 \<le> sint (fld32 stock_schema 2 row) \<and> sint (fld32 stock_schema 2 row) \<le> 100 \<and>
     (\<forall>c. 3 \<le> c \<longrightarrow> c < 13 \<longrightarrow> 0 \<in> set (col_data stock_schema c row))"
| "row_ok old nxt (KOrder w d o_id) row \<longleftrightarrow> customer_of row = o_id"
| "row_ok old nxt (KLine w d o_id n) row \<longleftrightarrow> of_order o_id d w row"
| "row_ok old nxt _ row \<longleftrightarrow> True"

text \<open>Of the lines of an order only the first one is counted on: how many there are is drawn.\<close>

fun needed :: "tpcc_key \<Rightarrow> bool" where
  "needed (KLine w d o_id n) \<longleftrightarrow> n = 1"
| "needed _ \<longleftrightarrow> True"

definition loaded ::
  "('q, 'h, 'm) tbb \<Rightarrow> 'g tpcc_env \<Rightarrow> 32 word \<Rightarrow> 32 word \<Rightarrow> tpcc_key set \<Rightarrow> ('q, 'h, 'm) storage_manager \<Rightarrow> bool" where
  "loaded T E old nxt K sm \<longleftrightarrow>
     tpcc_inv T E sm \<and>
     (\<forall>k \<in> K. needed k \<longrightarrow> table_map T sm (key_table E k) (key_bytes k) \<noteq> None) \<and>
     (\<forall>i bs row. i \<in> dom (tpcc_registry (env_cfg E)) \<longrightarrow> table_map T sm i bs = Some row \<longrightarrow>
        (\<exists>k \<in> K. i = key_table E k \<and> bs = key_bytes k \<and> row_ok old nxt k row))"

lemma loadedD:
  assumes "loaded T E old nxt K sm"
  shows "tpcc_inv T E sm"
    and "k \<in> K \<Longrightarrow> needed k \<Longrightarrow> table_map T sm (key_table E k) (key_bytes k) \<noteq> None"
    and "i \<in> dom (tpcc_registry (env_cfg E)) \<Longrightarrow> table_map T sm i bs = Some row \<Longrightarrow>
      \<exists>k \<in> K. i = key_table E k \<and> bs = key_bytes k \<and> row_ok old nxt k row"
  using assms unfolding loaded_def by blast+

lemma key_table_registered:
  assumes "tpcc_inv T E sm"
  shows "\<exists>s smbs. tpcc_registry (env_cfg E) (key_table E k) = Some (s, True, smbs)"
  by (cases k) (simp_all add: tpcc_invD(3-5) [OF assms])

lemma loaded_row:
  assumes l: "loaded T E old nxt K sm" and row: "table_map T sm (key_table E k) (key_bytes k) = Some row"
  shows "k \<in> K" "row_ok old nxt k row"
proof -
  note inv = loadedD(1) [OF l]
  have "key_table E k \<in> dom (tpcc_registry (env_cfg E))" using key_table_registered [OF inv, of k] by auto
  from loadedD(3) [OF l this row] obtain k' where k': "k' \<in> K" "key_table E k = key_table E k'" "key_bytes k = key_bytes k'"
      "row_ok old nxt k' row" by blast
  have "k = k'" by (rule key_unique [OF tpcc_inv_parts [OF inv] k'(2,3)])
  then show "k \<in> K" "row_ok old nxt k row" using k'(1,4) by simp_all
qed

lemma loaded_absent: "loaded T E old nxt K sm \<Longrightarrow> k \<notin> K \<Longrightarrow> table_map T sm (key_table E k) (key_bytes k) = None"
  using loaded_row(1) by (metis not_None_eq)

lemma loaded_at:
  assumes l: "loaded T E old nxt K sm" and k: "needed k"
  shows "table_map T sm (key_table E k) (key_bytes k) \<noteq> None \<longleftrightarrow> k \<in> K"
  using loadedD(2) [OF l _ k] loaded_absent [OF l, of k] by (cases "k \<in> K") simp_all

lemma loaded_more:
  assumes "loaded T E old nxt K sm" "K \<subseteq> K'" "\<And>k. k \<in> K' \<Longrightarrow> k \<notin> K \<Longrightarrow> \<not> needed k"
  shows "loaded T E old nxt K' sm"
  using assms unfolding loaded_def by blast

lemma loaded_put:
  assumes l: "loaded T E old nxt K sm" and sm': "becomes T (tpcc_registry (env_cfg E)) sm sm' (a_put (key_table E k) (key_bytes k) row)"
    and ok: "row_ok old nxt k row"
  shows "loaded T E old nxt (insert k K) sm'"
proof -
  note tab = becomes_tab [OF sm']
  have at: "table_map T sm' i bs = (if i = key_table E k \<and> bs = key_bytes k then Some row else table_map T sm i bs)" for i bs
    unfolding tab by simp
  show ?thesis
    unfolding loaded_def
  proof (intro conjI ballI allI impI)
    show "tpcc_inv T E sm'" by (rule tpcc_inv_becomes [OF loadedD(1) [OF l] sm'])
    show "table_map T sm' (key_table E k') (key_bytes k') \<noteq> None" if "k' \<in> insert k K" "needed k'" for k'
      using that loadedD(2) [OF l, of k'] unfolding at by auto
    show "\<exists>k' \<in> insert k K. i = key_table E k' \<and> bs = key_bytes k' \<and> row_ok old nxt k' row'"
      if "i \<in> dom (tpcc_registry (env_cfg E))" "table_map T sm' i bs = Some row'" for i bs row'
      using that loadedD(3) [OF l that(1), of bs row'] ok unfolding at by (auto split: if_splits)
  qed
qed

lemma loaded_append:
  assumes l: "loaded T E old nxt K sm" and sm': "becomes T (tpcc_registry (env_cfg E)) sm sm' (a_append i row)"
  shows "loaded T E old nxt K sm'"
proof -
  have "table_map T sm' = table_map T sm" by (rule ext) (simp add: becomes_tab [OF sm'])
  then show ?thesis using l tpcc_inv_becomes [OF loadedD(1) [OF l] sm'] by (simp add: loaded_def)
qed

section \<open>Computations that add keys\<close>

definition adds_keys ::
  "('q, 'h, 'm) tbb \<Rightarrow> 'g tpcc_env \<Rightarrow> 32 word \<Rightarrow> 32 word \<Rightarrow>
   (('q, 'h, 'm) storage_manager \<Rightarrow> ('g, ('q, 'h, 'm) storage_manager) gen) \<Rightarrow> tpcc_key set \<Rightarrow> bool" where
  "adds_keys T E old nxt m A \<longleftrightarrow>
     (\<forall>K sm. loaded T E old nxt K sm \<longrightarrow> K \<inter> A = {} \<longrightarrow> gen_returns (m sm) (loaded T E old nxt (K \<union> A)))"

lemma adds_keysI:
  assumes "\<And>K sm. loaded T E old nxt K sm \<Longrightarrow> K \<inter> A = {} \<Longrightarrow> gen_returns (m sm) (loaded T E old nxt (K \<union> A))"
  shows "adds_keys T E old nxt m A"
  using assms by (simp add: adds_keys_def)

lemma adds_keysD:
  "adds_keys T E old nxt m A \<Longrightarrow> loaded T E old nxt K sm \<Longrightarrow> K \<inter> A = {} \<Longrightarrow>
   gen_returns (m sm) (loaded T E old nxt (K \<union> A))"
  by (simp add: adds_keys_def)

lemma adds_nothing: "adds_keys T E old nxt gret {}"
  by (rule adds_keysI) (simp add: gret_returns)

lemma adds_then:
  assumes m: "adds_keys T E old nxt m A" and m': "adds_keys T E old nxt m' B" and disj: "A \<inter> B = {}"
  shows "adds_keys T E old nxt (\<lambda>sm. gbnd (m sm) m') (A \<union> B)"
proof (rule adds_keysI)
  fix K sm assume l: "loaded T E old nxt K sm" and K: "K \<inter> (A \<union> B) = {}"
  have KA: "K \<inter> A = {}" and KB: "(K \<union> A) \<inter> B = {}" using K disj by blast+
  show "gen_returns (gbnd (m sm) m') (loaded T E old nxt (K \<union> (A \<union> B)))"
    by (rule gbnd_returns [OF adds_keysD [OF m l KA]]) (use adds_keysD [OF m' _ KB] in \<open>simp add: Un_assoc\<close>)
qed

lemma adds_drawn:
  assumes "gen_returns g Q" "\<And>x. Q x \<Longrightarrow> adds_keys T E old nxt (m x) A"
  shows "adds_keys T E old nxt (\<lambda>sm. gbnd g (\<lambda>x. m x sm)) A"
proof (rule adds_keysI)
  fix K sm assume "loaded T E old nxt K sm" "K \<inter> A = {}"
  then show "gen_returns (gbnd g (\<lambda>x. m x sm)) (loaded T E old nxt (K \<union> A))"
    by (intro gbnd_returns [OF assms(1)] adds_keysD [OF assms(2)])
qed

lemma adds_more:
  assumes m: "adds_keys T E old nxt m A" and A: "A \<subseteq> B" "\<And>k. k \<in> B \<Longrightarrow> k \<notin> A \<Longrightarrow> \<not> needed k"
  shows "adds_keys T E old nxt m B"
proof (rule adds_keysI)
  fix K sm assume l: "loaded T E old nxt K sm" and K: "K \<inter> B = {}"
  then have "K \<inter> A = {}" using A(1) by blast
  from adds_keysD [OF m l this] show "gen_returns (m sm) (loaded T E old nxt (K \<union> B))"
    by (rule gen_weaken) (use A in \<open>auto intro: loaded_more\<close>)
qed

lemma adds_fold:
  assumes "\<And>x. x \<in> set xs \<Longrightarrow> adds_keys T E old nxt (f x) (A x)" "distinct xs"
    and "\<And>x y. x \<in> set xs \<Longrightarrow> y \<in> set xs \<Longrightarrow> x \<noteq> y \<Longrightarrow> A x \<inter> A y = {}"
  shows "adds_keys T E old nxt (gfold f xs) (\<Union> (A ` set xs))"
  using assms
proof (induction xs)
  case Nil
  have "gfold f [] = gret" by (rule ext) simp
  then show ?case using adds_nothing [of T E old nxt] by simp
next
  case (Cons x xs)
  have fold: "gfold f (x # xs) = (\<lambda>sm. gbnd (f x sm) (gfold f xs))" by (rule ext) simp
  have tl: "adds_keys T E old nxt (gfold f xs) (\<Union> (A ` set xs))"
    by (rule Cons.IH) (use Cons.prems in auto)
  have hd: "adds_keys T E old nxt (f x) (A x)" using Cons.prems(1) by simp
  have "A x \<inter> A y = {}" if "y \<in> set xs" for y using that Cons.prems(2) by (intro Cons.prems(3)) auto
  then have disj: "A x \<inter> \<Union> (A ` set xs) = {}" by blast
  show ?case unfolding fold using adds_then [OF hd tl disj] by simp
qed

lemma distinct_ints_to: "distinct (ints_to n)"
proof -
  have "inj_on (word_of_int :: int \<Rightarrow> 32 word) (set [1..sint n])"
  proof (rule inj_onI)
    fix i j assume i: "i \<in> set [1..sint n]" and j: "j \<in> set [1..sint n]" and eq: "word_of_int i = (word_of_int j :: 32 word)"
    have s: "sint (word_of_int i :: 32 word) = i" "sint (word_of_int j :: 32 word) = j"
      using i j sint_word_of_int_between [of 1 i n] sint_word_of_int_between [of 1 j n] by simp_all
    show "i = j" using arg_cong [OF eq, of sint] s by simp
  qed
  then show ?thesis by (simp add: ints_to_def distinct_map)
qed

lemma set_ints_to: "set (ints_to n) = {x. 1 \<le> sint x \<and> sint x \<le> sint n}"
proof
  show "set (ints_to n) \<subseteq> {x. 1 \<le> sint x \<and> sint x \<le> sint n}"
  proof
    fix x assume "x \<in> set (ints_to n)"
    then obtain i where i: "x = word_of_int i" "1 \<le> i" "i \<le> sint n" by (auto simp: ints_to_def)
    then have "sint x = i" using sint_word_of_int_between [of 1 i n] by simp
    then show "x \<in> {x. 1 \<le> sint x \<and> sint x \<le> sint n}" using i by simp
  qed
  show "{x. 1 \<le> sint x \<and> sint x \<le> sint n} \<subseteq> set (ints_to n)"
  proof
    fix x :: "32 word" assume "x \<in> {x. 1 \<le> sint x \<and> sint x \<le> sint n}"
    then have "x = word_of_int (sint x)" "sint x \<in> set [1..sint n]" by simp_all
    then show "x \<in> set (ints_to n)" unfolding ints_to_def by (metis image_eqI set_map)
  qed
qed

lemma adds_for:
  assumes "\<And>x. 1 \<le> sint x \<Longrightarrow> sint x \<le> sint n \<Longrightarrow> adds_keys T E old nxt (body x) (A x)"
    and "\<And>x y. x \<noteq> y \<Longrightarrow> A x \<inter> A y = {}" and n: "sint n < 2147483647"
  shows "adds_keys T E old nxt (for_ints n body) (\<Union> (A ` {x. 1 \<le> sint x \<and> sint x \<le> sint n}))"
proof -
  have "n \<noteq> 2147483647" using n by auto
  then have run: "for_ints n body = (\<lambda>sm. gbnd (gfold body (ints_to n) sm) gret)" by (simp add: for_ints_def fun_eq_iff)
  have "adds_keys T E old nxt (gfold body (ints_to n)) (\<Union> (A ` set (ints_to n)))"
    by (rule adds_fold [OF assms(1) distinct_ints_to assms(2)]) (simp_all add: set_ints_to)
  from adds_then [OF this adds_nothing] show ?thesis unfolding run by (simp add: set_ints_to)
qed

section \<open>Inserting a record\<close>

lemma primary_key_built:
  assumes inv: "schema_inv s" "list_all (writable s) ws" "distinct (map fst ws)" "length buf = getSchemaSize s"
    and keyed: "primary_key_length s \<noteq> 0"
    and vs: "list_all2 (\<lambda>c v. (c, Fixed (to_bytes (v :: 32 word))) \<in> set ws \<and> col_size s c = 4) (primary_cols s) vs"
  shows "primary_key_of s (row_of s ws buf) = wkey vs"
proof -
  have "col_data s c (row_of s ws buf) = to_bytes v"
    if "(c, Fixed (to_bytes (v :: 32 word))) \<in> set ws" "col_size s c = 4" for c v
    by (rule col_data_built [OF inv that(1)]) (simp add: that(2))
  then have "list_all2 (\<lambda>c v. col_data s c (row_of s ws buf) = to_bytes v) (primary_cols s) vs"
    by (intro list_all2_mono [OF vs]) blast
  then have "map (\<lambda>c. col_data s c (row_of s ws buf)) (primary_cols s) = map to_bytes vs"
    by (induction rule: list_all2_induct) simp_all
  then show ?thesis using keyed by (simp add: primary_key_of_def key_of_def wkey_def)
qed

lemma insert_built_adds:
  assumes R: "parts_ok E \<Longrightarrow> \<exists>smbs. tpcc_registry (env_cfg E) (key_table E k) = Some (s, True, smbs)"
    and w: "schema_inv s" "list_all (writable s) ws" "distinct (map fst ws)"
    and keyed: "primary_key_length s \<noteq> 0"
    and key: "list_all2 (\<lambda>c v. (c, Fixed (to_bytes (v :: 32 word))) \<in> set ws \<and> col_size s c = 4) (primary_cols s) vs"
      "key_bytes k = wkey vs"
    and ok: "\<And>buf. length buf = getSchemaSize s \<Longrightarrow> row_ok old nxt k (row_of s ws buf)"
  shows "adds_keys T E old nxt (\<lambda>sm. glift (bnd (build_record E s ws) (\<lambda>rec. sm_insertRecord T (key_table E k) rec sm))) {k}"
proof (rule adds_keysI)
  fix K sm assume l: "loaded T E old nxt K sm" and K: "K \<inter> {k} = {}"
  note inv = loadedD(1) [OF l]
  let ?row = "row_of s ws (new_chars (env_cfg E) (getSchemaSize s))"
  have len: "length (new_chars (env_cfg E) (getSchemaSize s)) = getSchemaSize s" by simp
  have new: "table_map T sm (key_table E k) (key_bytes k) = None" by (rule loaded_absent [OF l]) (use K in simp)
  have pk: "primary_key_of s ?row = key_bytes k" unfolding key(2) by (rule primary_key_built [OF w len keyed key(1)])
  obtain smbs where smbs: "tpcc_registry (env_cfg E) (key_table E k) = Some (s, True, smbs)"
    using R [OF tpcc_inv_parts [OF inv]] by blast
  obtain sm' where sm': "bnd (build_record E s ws) (\<lambda>rec. sm_insertRecord T (key_table E k) rec sm) = Inr sm'"
      "becomes T (tpcc_registry (env_cfg E)) sm sm' (a_put (key_table E k) (key_bytes k) ?row)"
    using insert_built [OF inv smbs w(2) pk new] by (auto simp: does_def)
  show "gen_returns (glift (bnd (build_record E s ws) (\<lambda>rec. sm_insertRecord T (key_table E k) rec sm)))
      (loaded T E old nxt (K \<union> {k}))"
    by (rule glift_returns [OF sm'(1)]) (use loaded_put [OF l sm'(2) ok [OF len]] in simp)
qed

lemma parts_registered:
  assumes "parts_ok E"
  shows "tpcc_registry (env_cfg E) (ORDER_TABLE_ID + district_part E w d) = Some (order_schema, True, [])"
    "tpcc_registry (env_cfg E) (NEW_ORDER_TABLE_ID + district_part E w d) = Some (new_order_schema, True, [])"
    "tpcc_registry (env_cfg E) (ORDER_LINE_TABLE_ID + district_part E w d) = Some (order_line_schema, True, [order_line_index])"
  using assms tpcc_registry_parts [OF district_part_less [of E w d]] by (simp_all add: parts_ok_def)

lemma fld32_built:
  assumes "schema_inv s" "list_all (writable s) ws" "distinct (map fst ws)" "length buf = getSchemaSize s"
    and "(i, Fixed (to_bytes (v :: 32 word))) \<in> set ws" "col_size s i = 4"
  shows "fld32 s i (row_of s ws buf) = v"
proof -
  have "col_data s i (row_of s ws buf) = to_bytes v" by (rule col_data_built [OF assms(1-5)]) (simp add: assms(6))
  then show ?thesis by (simp add: fld32_def)
qed

lemma item_adds:
  assumes "list_all (writable item_schema) (item_writes r)" "ir_i_id r = i"
  shows "adds_keys T E old nxt (\<lambda>sm. glift (insertItemRecord T E r sm)) {KItem i}"
  using insert_built_adds [where k = "KItem i" and T = T and E = E and old = old and nxt = nxt and vs = "[i]", OF _ tpcc_schema_inv(1) assms(1)] assms(2)
  by (simp add: insertItemRecord_def populate_row_def tpcc_schemas item_writes_def)

lemma warehouse_adds:
  assumes "list_all (writable warehouse_schema) (warehouse_writes r)" "wr_w_id r = w"
  shows "adds_keys T E old nxt (\<lambda>sm. glift (insertWarehouseRecord T E r sm)) {KWarehouse w}"
  using insert_built_adds [where k = "KWarehouse w" and T = T and E = E and old = old and nxt = nxt and vs = "[w]", OF _ tpcc_schema_inv(2) assms(1)] assms(2)
  by (simp add: insertWarehouseRecord_def populate_row_def tpcc_schemas warehouse_writes_def)

lemma district_adds:
  assumes w: "list_all (writable district_schema) (district_writes r)"
    and r: "dr_d_id r = d" "dr_d_w_id r = w" "dr_d_next_o_id r = nxt"
  shows "adds_keys T E old nxt (\<lambda>sm. glift (insertDistrictRecord T E r sm)) {KDistrict w d}"
proof -
  have dist: "distinct (map fst (district_writes r))" by (simp add: district_writes_def)
  have ok: "row_ok old nxt (KDistrict w d) (row_of district_schema (district_writes r) buf)" if "length buf = getSchemaSize district_schema" for buf
    unfolding row_ok.simps next_o_id_def
    by (rule fld32_built [OF tpcc_schema_inv(3) w dist that]) (simp_all add: district_writes_def r(3))
  then show ?thesis
    using insert_built_adds [where k = "KDistrict w d" and T = T and E = E and old = old and nxt = nxt and vs = "[d, w]", OF _ tpcc_schema_inv(3) w dist _ _ _ ok] r(1,2)
    by (simp add: insertDistrictRecord_def populate_row_def tpcc_schemas district_writes_def)
qed

lemma customer_adds:
  assumes "list_all (writable customer_schema) (customer_writes r)" "cur_c_id r = c" "cur_c_d_id r = d" "cur_c_w_id r = w"
  shows "adds_keys T E old nxt (\<lambda>sm. glift (insertCustomerRecord T E r sm)) {KCustomer w d c}"
  using insert_built_adds [where k = "KCustomer w d c" and T = T and E = E and old = old and nxt = nxt and vs = "[c, d, w]", OF _ tpcc_schema_inv(4) assms(1)] assms(2-4)
  by (simp add: insertCustomerRecord_def populate_row_def tpcc_schemas customer_writes_def)

lemma dno_adds:
  "adds_keys T E old nxt (\<lambda>sm. glift (insertDistrictNewOrderRecord T E (generateDistrictNewOrderRecord w d old) sm)) {KDno w d}"
proof -
  let ?ws = "district_new_order_writes (generateDistrictNewOrderRecord w d old)"
  have w: "list_all (writable district_new_order_schema) ?ws" "distinct (map fst ?ws)"
    by (simp_all add: district_new_order_writes_def)
  have ok: "row_ok old nxt (KDno w d) (row_of district_new_order_schema ?ws buf)" if "length buf = getSchemaSize district_new_order_schema" for buf
    unfolding row_ok.simps oldest_def
    by (rule fld32_built [OF tpcc_schema_inv(10) w that])
      (simp_all add: district_new_order_writes_def generateDistrictNewOrderRecord_def)
  then show ?thesis
    using insert_built_adds [where k = "KDno w d" and T = T and E = E and old = old and nxt = nxt and vs = "[w, d]", OF _ tpcc_schema_inv(10) w _ _ _ ok]
    by (simp add: insertDistrictNewOrderRecord_def populate_row_def tpcc_schemas district_new_order_writes_def
        generateDistrictNewOrderRecord_def)
qed

lemma order_adds:
  assumes r: "or_o_id r = o_id" "or_o_c_id r = o_id" "or_o_d_id r = d" "or_o_w_id r = w" and parts: "parts_ok E"
  shows "adds_keys T E old nxt (\<lambda>sm. glift (insertOrderRecord T E r sm)) {KOrder w d o_id}"
proof -
  let ?ws = "order_record_writes r"
  have w: "list_all (writable order_schema) ?ws" "distinct (map fst ?ws)"
    by (simp_all add: order_record_writes_def)
  have ok: "row_ok old nxt (KOrder w d o_id) (row_of order_schema ?ws buf)" if "length buf = getSchemaSize order_schema" for buf
    unfolding row_ok.simps customer_of_def
    by (rule fld32_built [OF tpcc_schema_inv(6) w that]) (simp_all add: order_record_writes_def r(2))
  then show ?thesis
    using insert_built_adds [where k = "KOrder w d o_id" and T = T and E = E and old = old and nxt = nxt and vs = "[o_id, d, w]", OF _ tpcc_schema_inv(6) w _ _ _ ok] r parts
      parts_registered(1) [OF parts]
    by (simp add: insertOrderRecord_def populate_part_def tpcc_schemas order_record_writes_def tpcc_offset_eq parts_ok_def)
qed

lemma new_adds:
  assumes parts: "parts_ok E"
  shows "adds_keys T E old nxt (\<lambda>sm. glift (insertNewOrderRecord T E (generateNewOrderRecord w d o_id) sm)) {KNew w d o_id}"
proof -
  let ?ws = "new_order_record_writes (generateNewOrderRecord w d o_id)"
  have w: "list_all (writable new_order_schema) ?ws" "distinct (map fst ?ws)"
    by (simp_all add: new_order_record_writes_def)
  then show ?thesis
    using insert_built_adds [where k = "KNew w d o_id" and T = T and E = E and old = old and nxt = nxt and vs = "[o_id, d, w]", OF _ tpcc_schema_inv(7) w] parts
      parts_registered(2) [OF parts]
    by (simp add: insertNewOrderRecord_def populate_part_def tpcc_schemas new_order_record_writes_def
        generateNewOrderRecord_def tpcc_offset_eq parts_ok_def)
qed

lemma line_adds:
  assumes w: "list_all (writable order_line_schema) (order_line_record_writes r)" and parts: "parts_ok E"
    and r: "olr_ol_o_id r = o_id" "olr_ol_d_id r = d" "olr_ol_w_id r = w" "olr_ol_number r = n"
  shows "adds_keys T E old nxt (\<lambda>sm. glift (insertOrderLineRecord T E r sm)) {KLine w d o_id n}"
proof -
  let ?ws = "order_line_record_writes r"
  have dist: "distinct (map fst ?ws)" by (simp add: order_line_record_writes_def)
  have ok: "row_ok old nxt (KLine w d o_id n) (row_of order_line_schema ?ws buf)" if len: "length buf = getSchemaSize order_line_schema" for buf
    unfolding row_ok.simps of_order_def
    using fld32_built [OF tpcc_schema_inv(8) w dist len, of 0 o_id] fld32_built [OF tpcc_schema_inv(8) w dist len, of 1 d]
      fld32_built [OF tpcc_schema_inv(8) w dist len, of 2 w] r
    by (simp add: order_line_record_writes_def)
  then show ?thesis
    using insert_built_adds [where k = "KLine w d o_id n" and T = T and E = E and old = old and nxt = nxt and vs = "[o_id, d, w, n]", OF _ tpcc_schema_inv(8) w dist _ _ _ ok] r parts
      parts_registered(3) [OF parts]
    by (simp add: insertOrderLineRecord_def populate_part_def tpcc_schemas order_line_record_writes_def tpcc_offset_eq parts_ok_def)
qed

text \<open>The districts of a stock record have terminated strings.\<close>

lemma stock_adds:
  assumes r: "skr_s_i_id r = i" "skr_s_w_id r = w" "10 \<le> sint (skr_s_quantity r)" "sint (skr_s_quantity r) \<le> 100"
    and dists: "length (skr_s_dists r) = 10" "\<forall>s \<in> set (skr_s_dists r). length s = 32 \<and> 0 \<in> set s" "length (skr_s_data r) = 64"
  shows "adds_keys T E old nxt (\<lambda>sm. glift (insertStockRecord T E r sm)) {KStock w i}"
proof -
  let ?ws = "stock_writes r"
  have w: "list_all (writable stock_schema) ?ws" using dists by (intro stock_writable) simp_all
  have cols: "map fst ?ws = [0..<17]"
  proof -
    have "[0..<17] = [0, 1, 2] @ [3..<13] @ [13, 14, 15, 16]" by code_simp
    then show ?thesis by (simp add: stock_writes_def comp_def del: upt_rec_numeral)
  qed
  have dist: "distinct (map fst ?ws)" unfolding cols by (rule distinct_upt)
  have fixed: "(0, Fixed (to_bytes i)) \<in> set ?ws" "(1, Fixed (to_bytes w)) \<in> set ?ws"
      "(2, Fixed (to_bytes (skr_s_quantity r))) \<in> set ?ws"
    using r(1,2) by (simp_all add: stock_writes_def del: upt_rec_numeral)
  have ok: "row_ok old nxt (KStock w i) (row_of stock_schema ?ws buf)" if len: "length buf = getSchemaSize stock_schema" for buf
  proof -
    have q: "fld32 stock_schema 2 (row_of stock_schema ?ws buf) = skr_s_quantity r"
      by (rule fld32_built [OF tpcc_schema_inv(5) w dist len fixed(3)]) simp
    have "0 \<in> set (col_data stock_schema c (row_of stock_schema ?ws buf))" if c: "3 \<le> c" "c < 13" for c
    proof -
      have at: "(c, Sized (skr_s_dists r ! (c - 3)) 32) \<in> set ?ws"
        using c by (simp add: stock_writes_def image_iff del: upt_rec_numeral)
      have s: "skr_s_dists r ! (c - 3) \<in> set (skr_s_dists r)" using c dists(1) by simp
      then have n: "length (skr_s_dists r ! (c - 3)) = 32" "0 \<in> set (skr_s_dists r ! (c - 3))" using dists(2) by blast+
      have "col_data stock_schema (fst (c, Sized (skr_s_dists r ! (c - 3)) 32)) (row_of stock_schema ?ws buf) =
          written stock_schema (c, Sized (skr_s_dists r ! (c - 3)) 32)"
        by (rule col_data_row_of [OF tpcc_schema_inv(5) w len dist at]) (simp add: n stock_dist_cols [OF c])
      then show ?thesis using n by simp
    qed
    then show ?thesis using q r(3,4) by simp
  qed
  have key: "list_all2 (\<lambda>c v. (c, Fixed (to_bytes (v :: 32 word))) \<in> set ?ws \<and> col_size stock_schema c = 4)
      (primary_cols stock_schema) [i, w]" using fixed by simp
  have "adds_keys T E old nxt (\<lambda>sm. glift (bnd (build_record E stock_schema ?ws)
      (\<lambda>rec. sm_insertRecord T (key_table E (KStock w i)) rec sm))) {KStock w i}"
    by (rule insert_built_adds [OF _ tpcc_schema_inv(5) w dist _ key _ ok]) simp_all
  then show ?thesis by (simp add: insertStockRecord_def populate_row_def tpcc_schemas)
qed

text \<open>The history has no keys.\<close>

lemma history_adds:
  assumes w: "list_all (writable history_schema) (history_record_writes r)"
  shows "adds_keys T E old nxt (\<lambda>sm. glift (insertHistoryRecord T E r sm)) {}"
proof (rule adds_keysI)
  fix K sm assume l: "loaded T E old nxt K sm"
  note inv = loadedD(1) [OF l]
  note b = build_record_eq [OF tpcc_schema_inv(9) w, of E]
  let ?row = "row_of history_schema (history_record_writes r) (new_chars (env_cfg E) (getSchemaSize history_schema))"
  obtain sm' where sm': "sm_insertRecord T HISTORY_TABLE_ID \<lparr>lr_schema = history_schema, lr_data = Some ?row\<rparr> sm = Inr sm'"
      "becomes T (tpcc_registry (env_cfg E)) sm sm' (a_append HISTORY_TABLE_ID ?row)"
    by (rule insert_keyless [OF tpcc_invD(1) [OF inv] tpcc_registry_simps(5), of "\<lparr>lr_schema = history_schema, lr_data = Some ?row\<rparr>" ?row])
      (use b(2) in simp_all)
  have "insertHistoryRecord T E r sm = Inr sm'"
    using b(1) sm'(1) by (simp add: insertHistoryRecord_def populate_row_def tpcc_schemas)
  then show "gen_returns (glift (insertHistoryRecord T E r sm)) (loaded T E old nxt (K \<union> {}))"
    by (rule glift_returns) (use loaded_append [OF l sm'(2)] in simp)
qed

section \<open>The loops\<close>

lemma tenth_bound: "0 \<le> sint n \<Longrightarrow> sint (tenth n) \<le> sint n"
proof -
  assume n: "0 \<le> sint n"
  have "sint n < 2147483648" using sint_lt [of n] by simp
  moreover have "sint n sdiv 10 = sint n div 10" using n by (simp add: signed_divide_int_def sgn_if)
  ultimately have "sint (tenth n) = sint n div 10"
    using n by (simp add: tenth_def signed_of_int signed_take_bit_int_eq_self)
  then show ?thesis using n by simp
qed

text \<open>The rows the populator selects at random.\<close>

lemma tenth_selected:
  assumes ok: "draws_ok E C" and n: "1 \<le> sint n" "sint n < 2147483647"
  shows "gen_returns (selectUniqueIds (env_lib E) (tenth n) 1 n []) (\<lambda>rows. True)"
  by (rule gen_weaken [OF selectUniqueIds_returns [OF draws_okD(2) [OF ok]]]) (use n tenth_bound [of n] in simp_all)

lemma adds_selected:
  assumes "draws_ok E C" "1 \<le> sint n" "sint n < 2147483647" "\<And>rows. adds_keys T E old nxt (m rows) A"
  shows "adds_keys T E old nxt (\<lambda>sm. gbnd (selectUniqueIds (env_lib E) (tenth n) 1 n []) (\<lambda>rows. m rows sm)) A"
  by (rule adds_drawn [OF tenth_selected [OF assms(1-3)] assms(4)])

definition upto_int :: "32 word \<Rightarrow> 32 word set" where
  "upto_int n = {x. 1 \<le> sint x \<and> sint x \<le> sint n}"

lemma adds_for_upto:
  assumes "\<And>x. x \<in> upto_int n \<Longrightarrow> adds_keys T E old nxt (body x) (A x)"
    and "\<And>x y. x \<noteq> y \<Longrightarrow> A x \<inter> A y = {}" and n: "sint n < 2147483647"
  shows "adds_keys T E old nxt (for_ints n body) (\<Union> (A ` upto_int n))"
  unfolding upto_int_def by (rule adds_for [OF assms(1) assms(2,3)]) (simp add: upto_int_def)

lemma load_items_adds:
  assumes ok: "draws_ok E C" and n: "1 \<le> sint (num_items (env_scale E))" "sint (num_items (env_scale E)) < 2147483647"
  shows "adds_keys T E old nxt (load_items T E) (KItem ` upto_int (num_items (env_scale E)))"
proof -
  have body: "adds_keys T E old nxt (\<lambda>sm. gbnd (generateItemRecord E i) (\<lambda>r. glift (insertItemRecord T E r sm))) {KItem i}" for i
    by (rule adds_drawn [OF generateItemRecord_returns [OF ok]]) (use item_adds in blast)
  have "adds_keys T E old nxt
      (for_ints (num_items (env_scale E)) (\<lambda>i sm. gbnd (generateItemRecord E i) (\<lambda>r. glift (insertItemRecord T E r sm))))
      (\<Union> ((\<lambda>i. {KItem i}) ` upto_int (num_items (env_scale E))))"
    by (rule adds_for_upto [OF body]) (use n in auto)
  from adds_selected [OF ok n this] show ?thesis
    by (simp add: load_items_def [abs_def] Let_def UNION_singleton_eq_range)
qed

lemma load_stock_adds:
  assumes ok: "draws_ok E C" and n: "1 \<le> sint (num_items (env_scale E))" "sint (num_items (env_scale E)) < 2147483647"
  shows "adds_keys T E old nxt (load_stock T E w) (KStock w ` upto_int (num_items (env_scale E)))"
proof -
  have body: "adds_keys T E old nxt (\<lambda>sm. gbnd (generateStockRecord E w i) (\<lambda>r. glift (insertStockRecord T E r sm))) {KStock w i}" for i
    by (rule adds_drawn [OF generateStockRecord_returns [OF ok]]) (use stock_adds in blast)
  have "adds_keys T E old nxt
      (for_ints (num_items (env_scale E)) (\<lambda>i sm. gbnd (generateStockRecord E w i) (\<lambda>r. glift (insertStockRecord T E r sm))))
      (\<Union> ((\<lambda>i. {KStock w i}) ` upto_int (num_items (env_scale E))))"
    by (rule adds_for_upto [OF body]) (use n in auto)
  from adds_selected [OF ok n this] show ?thesis
    by (simp add: load_stock_def [abs_def] Let_def UNION_singleton_eq_range)
qed

lemma load_customer_adds:
  assumes ok: "draws_ok E C" and c: "c \<in> upto_int n"
  shows "adds_keys T E old nxt (load_customer T E C w d rows c) {KCustomer w d c}"
proof -
  have "adds_keys T E old nxt (\<lambda>sm. gbnd (generateHistoryRecord E w d c) (\<lambda>r. glift (insertHistoryRecord T E r sm))) {}"
    by (rule adds_drawn [OF generateHistoryRecord_returns [OF ok]]) (rule history_adds)
  then have "adds_keys T E old nxt (\<lambda>sm. gbnd (glift (insertCustomerRecord T E r sm)) (\<lambda>sm.
      gbnd (generateHistoryRecord E w d c) (\<lambda>r. glift (insertHistoryRecord T E r sm)))) {KCustomer w d c}"
    if "cur_c_id r = c \<and> cur_c_d_id r = d \<and> cur_c_w_id r = w \<and> list_all (writable customer_schema) (customer_writes r)" for r
    using adds_then [OF customer_adds, of r c d w T E old nxt "\<lambda>sm. gbnd (generateHistoryRecord E w d c) (\<lambda>r. glift (insertHistoryRecord T E r sm))" "{}"]
      that by simp
  from adds_drawn [OF generateCustomerRecord_returns [OF ok, of c w d "c \<in> set rows"] this] c show ?thesis
    by (simp add: load_customer_def [abs_def] upto_int_def)
qed

text \<open>The keys of an order, and of a district.\<close>

definition order_keys :: "32 word \<Rightarrow> 32 word \<Rightarrow> 32 word \<Rightarrow> 32 word \<Rightarrow> tpcc_key set" where
  "order_keys old w d o_id =
     {KOrder w d o_id} \<union> (range (KLine w d o_id) \<union> (if old \<le>s o_id then {KNew w d o_id} else {}))"

definition district_keys :: "32 word \<Rightarrow> 32 word \<Rightarrow> 32 word \<Rightarrow> 32 word \<Rightarrow> tpcc_key set" where
  "district_keys old n w d =
     {KDistrict w d} \<union> (KCustomer w d ` upto_int n \<union> ({KDno w d} \<union> \<Union> (order_keys old w d ` upto_int n)))"

definition warehouse_keys :: "32 word \<Rightarrow> tpcc_scale \<Rightarrow> 32 word \<Rightarrow> tpcc_key set" where
  "warehouse_keys old P w =
     {KWarehouse w} \<union> (\<Union> (district_keys old (num_customers_per_district P) w ` upto_int (num_districts_per_warehouse P)) \<union>
       KStock w ` upto_int (num_items P))"

definition all_keys :: "32 word \<Rightarrow> tpcc_scale \<Rightarrow> tpcc_key set" where
  "all_keys old P = KItem ` upto_int (num_items P) \<union> \<Union> (warehouse_keys old P ` upto_int (num_warehouses P))"

text \<open>The lines of an order: at least five.\<close>

lemma load_lines_adds:
  assumes ok: "draws_ok E C" and parts: "parts_ok E"
    and n: "1 \<le> sint (num_items (env_scale E))" "sint (num_items (env_scale E)) < 2147483647"
    and cnt: "5 \<le> sint cnt" "sint cnt \<le> 15"
  shows "adds_keys T E old nxt (for_ints cnt (load_line T E w d o_id new)) (range (KLine w d o_id))"
proof -
  have body: "adds_keys T E old nxt (load_line T E w d o_id new k) {KLine w d o_id k}" for k
    unfolding load_line_def [abs_def]
    by (rule adds_drawn [OF generateOrderLineRecord_returns [OF ok n]]) (use line_adds parts in blast)
  have "adds_keys T E old nxt (for_ints cnt (load_line T E w d o_id new)) (\<Union> ((\<lambda>k. {KLine w d o_id k}) ` upto_int cnt))"
    by (rule adds_for_upto [OF body]) (use cnt in auto)
  then show ?thesis
    by (rule adds_more) (use cnt in \<open>auto simp: upto_int_def\<close>)
qed

lemma load_order_adds:
  assumes ok: "draws_ok E C" and parts: "parts_ok E"
    and n: "1 \<le> sint (num_items (env_scale E))" "sint (num_items (env_scale E)) < 2147483647"
  shows "adds_keys T E old nxt (load_order T E w d old o_id) (order_keys old w d o_id)"
proof -
  have new: "adds_keys T E old nxt (\<lambda>sm. if old \<le>s o_id
      then glift (insertNewOrderRecord T E (generateNewOrderRecord w d o_id) sm) else gret sm)
      (if old \<le>s o_id then {KNew w d o_id} else {})"
    by (cases "old \<le>s o_id") (simp_all add: new_adds [OF parts] adds_nothing)
  have body: "adds_keys T E old nxt (\<lambda>sm. gbnd (generateOrderRecord E w d o_id o_id cnt (old \<le>s o_id)) (\<lambda>r.
      gbnd (glift (insertOrderRecord T E r sm)) (\<lambda>sm.
      gbnd (for_ints cnt (load_line T E w d o_id (old \<le>s o_id)) sm) (\<lambda>sm. if old \<le>s o_id
      then glift (insertNewOrderRecord T E (generateNewOrderRecord w d o_id) sm) else gret sm)))) (order_keys old w d o_id)"
    if cnt: "5 \<le> sint cnt" "sint cnt \<le> 15" for cnt
  proof (rule adds_drawn [OF generateOrderRecord_returns [OF ok]])
    fix r :: order_record assume r: "or_o_id r = o_id \<and> or_o_c_id r = o_id \<and> or_o_d_id r = d \<and> or_o_w_id r = w"
    have order: "adds_keys T E old nxt (\<lambda>sm. glift (insertOrderRecord T E r sm)) {KOrder w d o_id}"
      using r by (intro order_adds parts) simp_all
    have lines: "adds_keys T E old nxt (\<lambda>sm. gbnd (for_ints cnt (load_line T E w d o_id (old \<le>s o_id)) sm) (\<lambda>sm. if old \<le>s o_id
        then glift (insertNewOrderRecord T E (generateNewOrderRecord w d o_id) sm) else gret sm))
        (range (KLine w d o_id) \<union> (if old \<le>s o_id then {KNew w d o_id} else {}))"
      by (rule adds_then [OF load_lines_adds [OF ok parts n cnt] new]) auto
    show "adds_keys T E old nxt (\<lambda>sm. gbnd (glift (insertOrderRecord T E r sm)) (\<lambda>sm.
        gbnd (for_ints cnt (load_line T E w d o_id (old \<le>s o_id)) sm) (\<lambda>sm. if old \<le>s o_id
        then glift (insertNewOrderRecord T E (generateNewOrderRecord w d o_id) sm) else gret sm))) (order_keys old w d o_id)"
      unfolding order_keys_def by (rule adds_then [OF order lines]) (auto split: if_splits)
  qed
  have cnt: "gen_returns (tpcc_generateInteger (env_lib E) 5 15) (\<lambda>x. 5 \<le> sint x \<and> sint x \<le> 15)"
    by (rule gen_weaken [OF tpcc_generateInteger_returns [OF draws_okD(1) [OF ok]]]) simp_all
  show ?thesis
    unfolding load_order_def [abs_def] Let_def by (rule adds_drawn [OF cnt body]) simp_all
qed

text \<open>The sizes the populator can load.\<close>

definition scale_ok :: "tpcc_scale \<Rightarrow> bool" where
  "scale_ok P \<longleftrightarrow>
     1 \<le> sint (num_items P) \<and> sint (num_items P) < 2147483647 \<and>
     1 \<le> sint (num_customers_per_district P) \<and> sint (num_customers_per_district P) < 2147483647 \<and>
     sint (num_districts_per_warehouse P) < 2147483647 \<and> sint (num_warehouses P) < 2147483647"

definition first_new :: "tpcc_scale \<Rightarrow> 32 word" where
  "first_new P = num_customers_per_district P - num_new_orders_per_district P + 1"

lemma load_district_adds:
  assumes ok: "draws_ok E C" and parts: "parts_ok E" and scale: "scale_ok (env_scale E)"
  shows "adds_keys T E (first_new (env_scale E)) (num_customers_per_district (env_scale E) + 1) (load_district T E C w d)
    (district_keys (first_new (env_scale E)) (num_customers_per_district (env_scale E)) w d)"
proof -
  define n old where "n = num_customers_per_district (env_scale E)" and "old = first_new (env_scale E)"
  note defs = n_def [symmetric] old_def [symmetric] old_def [unfolded first_new_def, folded n_def, symmetric]
  have s: "1 \<le> sint n" "sint n < 2147483647" "1 \<le> sint (num_items (env_scale E))" "sint (num_items (env_scale E)) < 2147483647"
    using scale by (simp_all add: scale_ok_def n_def)
  have orders: "adds_keys T E old (n + 1) (for_ints n (load_order T E w d old)) (\<Union> (order_keys old w d ` upto_int n))"
    by (rule adds_for_upto [OF load_order_adds [OF ok parts s(3,4)]]) (use s in \<open>auto simp: order_keys_def split: if_splits\<close>)
  have dno: "adds_keys T E old (n + 1) (\<lambda>sm. gbnd (glift (insertDistrictNewOrderRecord T E (generateDistrictNewOrderRecord w d old) sm))
      (for_ints n (load_order T E w d old))) ({KDno w d} \<union> \<Union> (order_keys old w d ` upto_int n))"
    by (rule adds_then [OF dno_adds orders]) (auto simp: order_keys_def split: if_splits)
  have customers: "adds_keys T E old (n + 1) (\<lambda>sm. gbnd (for_ints n (load_customer T E C w d rows) sm) (\<lambda>sm.
      gbnd (glift (insertDistrictNewOrderRecord T E (generateDistrictNewOrderRecord w d old) sm)) (for_ints n (load_order T E w d old))))
      (KCustomer w d ` upto_int n \<union> ({KDno w d} \<union> \<Union> (order_keys old w d ` upto_int n)))" for rows
  proof (rule adds_then [OF _ dno])
    have "adds_keys T E old (n + 1) (for_ints n (load_customer T E C w d rows)) (\<Union> ((\<lambda>c. {KCustomer w d c}) ` upto_int n))"
      by (rule adds_for_upto [OF load_customer_adds [OF ok]]) (use s in auto)
    then show "adds_keys T E old (n + 1) (for_ints n (load_customer T E C w d rows)) (KCustomer w d ` upto_int n)"
      by (simp add: UNION_singleton_eq_range)
  qed (auto simp: order_keys_def split: if_splits)
  note rest = adds_selected [OF ok s(1,2) customers]
  have body: "adds_keys T E old (n + 1) (\<lambda>sm. gbnd (glift (insertDistrictRecord T E r sm)) (\<lambda>sm.
      gbnd (selectUniqueIds (env_lib E) (tenth n) 1 n []) (\<lambda>rows. gbnd (for_ints n (load_customer T E C w d rows) sm) (\<lambda>sm.
      gbnd (glift (insertDistrictNewOrderRecord T E (generateDistrictNewOrderRecord w d old) sm)) (for_ints n (load_order T E w d old))))))
      (district_keys old n w d)"
    if "dr_d_id r = d \<and> dr_d_w_id r = w \<and> dr_d_next_o_id r = n + 1 \<and> list_all (writable district_schema) (district_writes r)" for r
    unfolding district_keys_def
    by (rule adds_then [OF district_adds rest]) (use that in \<open>auto simp: order_keys_def split: if_splits\<close>)
  show ?thesis
    unfolding load_district_def [abs_def] Let_def defs
    by (rule adds_drawn [OF generateDistrictRecord_returns [OF ok] body])
qed

lemma load_warehouse_adds:
  assumes ok: "draws_ok E C" and parts: "parts_ok E" and scale: "scale_ok (env_scale E)"
  shows "adds_keys T E (first_new (env_scale E)) (num_customers_per_district (env_scale E) + 1) (load_warehouse T E C w)
    (warehouse_keys (first_new (env_scale E)) (env_scale E) w)"
proof -
  define n old P where "n = num_customers_per_district (env_scale E) + 1" and "old = first_new (env_scale E)" and "P = env_scale E"
  have s: "1 \<le> sint (num_items P)" "sint (num_items P) < 2147483647" "sint (num_districts_per_warehouse P) < 2147483647"
    using scale by (simp_all add: scale_ok_def P_def)
  have districts: "adds_keys T E old n (for_ints (num_districts_per_warehouse P) (load_district T E C w))
      (\<Union> (district_keys old (num_customers_per_district P) w ` upto_int (num_districts_per_warehouse P)))"
    unfolding n_def old_def P_def
    by (rule adds_for_upto [OF load_district_adds [OF ok parts scale]])
      (use s in \<open>auto simp: district_keys_def order_keys_def P_def split: if_splits\<close>)
  have rest: "adds_keys T E old n (\<lambda>sm. gbnd (for_ints (num_districts_per_warehouse P) (load_district T E C w) sm) (load_stock T E w))
      (\<Union> (district_keys old (num_customers_per_district P) w ` upto_int (num_districts_per_warehouse P)) \<union> KStock w ` upto_int (num_items P))"
    by (rule adds_then [OF districts load_stock_adds [OF ok s(1,2) [unfolded P_def], folded P_def]])
      (auto simp: district_keys_def order_keys_def split: if_splits)
  have "adds_keys T E old n (\<lambda>sm. gbnd (glift (insertWarehouseRecord T E r sm)) (\<lambda>sm.
      gbnd (for_ints (num_districts_per_warehouse P) (load_district T E C w) sm) (load_stock T E w))) (warehouse_keys old P w)"
    if "wr_w_id r = w \<and> list_all (writable warehouse_schema) (warehouse_writes r)" for r
    unfolding warehouse_keys_def
    by (rule adds_then [OF warehouse_adds rest]) (use that in \<open>auto simp: district_keys_def order_keys_def split: if_splits\<close>)
  from adds_drawn [OF generateWarehouseRecord_returns [OF ok] this] show ?thesis
    by (simp add: load_warehouse_def [abs_def] n_def old_def P_def)
qed

lemma startPopulate_adds:
  assumes ok: "draws_ok E C" and parts: "parts_ok E" and scale: "scale_ok (env_scale E)"
  shows "adds_keys T E (first_new (env_scale E)) (num_customers_per_district (env_scale E) + 1) (tpcc_startPopulate T E C)
    (all_keys (first_new (env_scale E)) (env_scale E))"
proof -
  have s: "1 \<le> sint (num_items (env_scale E))" "sint (num_items (env_scale E)) < 2147483647"
      "sint (num_warehouses (env_scale E)) < 2147483647"
    using scale by (simp_all add: scale_ok_def)
  have "adds_keys T E (first_new (env_scale E)) (num_customers_per_district (env_scale E) + 1)
      (for_ints (num_warehouses (env_scale E)) (load_warehouse T E C))
      (\<Union> (warehouse_keys (first_new (env_scale E)) (env_scale E) ` upto_int (num_warehouses (env_scale E))))"
    by (rule adds_for_upto [OF load_warehouse_adds [OF assms]])
      (use s in \<open>auto simp: warehouse_keys_def district_keys_def order_keys_def split: if_splits\<close>)
  then show ?thesis
    unfolding tpcc_startPopulate_def [abs_def] all_keys_def
    by (rule adds_then [OF load_items_adds [OF ok s(1,2)]])
      (auto simp: warehouse_keys_def district_keys_def order_keys_def split: if_splits)
qed

section \<open>The loaded database\<close>

lemma in_all_keys:
  "KItem i \<in> all_keys old P \<longleftrightarrow> i \<in> upto_int (num_items P)"
  "KWarehouse w \<in> all_keys old P \<longleftrightarrow> w \<in> upto_int (num_warehouses P)"
  "KStock w i \<in> all_keys old P \<longleftrightarrow> w \<in> upto_int (num_warehouses P) \<and> i \<in> upto_int (num_items P)"
  "KDistrict w d \<in> all_keys old P \<longleftrightarrow> w \<in> upto_int (num_warehouses P) \<and> d \<in> upto_int (num_districts_per_warehouse P)"
  "KDno w d \<in> all_keys old P \<longleftrightarrow> w \<in> upto_int (num_warehouses P) \<and> d \<in> upto_int (num_districts_per_warehouse P)"
  "KCustomer w d c \<in> all_keys old P \<longleftrightarrow>
     w \<in> upto_int (num_warehouses P) \<and> d \<in> upto_int (num_districts_per_warehouse P) \<and> c \<in> upto_int (num_customers_per_district P)"
  "KOrder w d o_id \<in> all_keys old P \<longleftrightarrow>
     w \<in> upto_int (num_warehouses P) \<and> d \<in> upto_int (num_districts_per_warehouse P) \<and> o_id \<in> upto_int (num_customers_per_district P)"
  "KNew w d o_id \<in> all_keys old P \<longleftrightarrow>
     w \<in> upto_int (num_warehouses P) \<and> d \<in> upto_int (num_districts_per_warehouse P) \<and>
     o_id \<in> upto_int (num_customers_per_district P) \<and> old \<le>s o_id"
  "KLine w d o_id n \<in> all_keys old P \<longleftrightarrow>
     w \<in> upto_int (num_warehouses P) \<and> d \<in> upto_int (num_districts_per_warehouse P) \<and> o_id \<in> upto_int (num_customers_per_district P)"
  by (auto simp: all_keys_def warehouse_keys_def district_keys_def order_keys_def image_iff split: if_splits)

lemma upto_int_less:
  assumes "0 \<le> sint n" "sint n < 2147483647"
  shows "o_id \<in> upto_int n \<longleftrightarrow> 0 < o_id \<and> o_id < n + 1"
proof -
  have n: "uint n = sint n" by (rule uint_eq_sint_nonneg [OF assms(1)])
  then have "uint (n + 1) = uint n + 1" using assms by (simp add: uint_word_ariths)
  then have less: "o_id < n + 1 \<longleftrightarrow> uint o_id \<le> sint n" using n by (simp add: word_less_def zless_add1_eq le_less)
  have pos: "0 < o_id \<longleftrightarrow> 0 < uint o_id" by (simp add: word_less_def)
  show ?thesis
  proof
    assume o: "o_id \<in> upto_int n"
    then have "uint o_id = sint o_id" using uint_eq_sint_nonneg [of o_id] by (simp add: upto_int_def)
    then show "0 < o_id \<and> o_id < n + 1" unfolding less pos using o by (simp add: upto_int_def)
  next
    assume o: "0 < o_id \<and> o_id < n + 1"
    then have u: "0 < uint o_id" "uint o_id \<le> sint n" unfolding less pos by simp_all
    then have "sint o_id = uint o_id" using assms(2) by (intro sint_eq_uint_small) simp
    then show "o_id \<in> upto_int n" using u by (simp add: upto_int_def)
  qed
qed

text \<open>The initial new orders are the last ones.\<close>

definition orders_ok :: "tpcc_scale \<Rightarrow> bool" where
  "orders_ok P \<longleftrightarrow>
     0 \<le> sint (num_new_orders_per_district P) \<and> sint (num_new_orders_per_district P) \<le> sint (num_customers_per_district P)"

lemma sint_first_new:
  assumes "scale_ok P" "orders_ok P"
  shows "sint (first_new P) = sint (num_customers_per_district P) - sint (num_new_orders_per_district P) + 1"
proof -
  let ?n = "num_customers_per_district P" and ?m = "num_new_orders_per_district P"
  have "first_new P = word_of_int (sint ?n - sint ?m + 1)" by (simp add: first_new_def)
  moreover have "sint (word_of_int (sint ?n - sint ?m + 1) :: 32 word) = sint ?n - sint ?m + 1"
    using assms by (simp add: signed_of_int signed_take_bit_int_eq_self scale_ok_def orders_ok_def del: of_int_add of_int_diff)
  ultimately show ?thesis by simp
qed

lemma new_order_range:
  assumes "scale_ok P" "orders_ok P"
  shows "0 < first_new P" "first_new P \<le> num_customers_per_district P + 1"
    "o_id \<in> upto_int (num_customers_per_district P) \<and> first_new P \<le>s o_id \<longleftrightarrow>
     first_new P \<le> o_id \<and> o_id < num_customers_per_district P + 1"
proof -
  let ?n = "num_customers_per_district P" and ?f = "first_new P"
  have n: "0 \<le> sint ?n" "sint ?n < 2147483647" using assms(1) by (simp_all add: scale_ok_def)
  note un = uint_eq_sint_nonneg [OF n(1)]
  have f: "1 \<le> sint ?f" "sint ?f \<le> sint ?n + 1" using sint_first_new [OF assms] assms(2) by (simp_all add: orders_ok_def)
  then have uf: "uint ?f = sint ?f" by (intro uint_eq_sint_nonneg) simp
  show pos: "0 < ?f" using f uf by (simp add: word_less_def)
  have "uint (?n + 1) = uint ?n + 1" using un n by (simp add: uint_word_ariths)
  then show "?f \<le> ?n + 1" using f uf un by (simp add: word_le_def)
  note mem = upto_int_less [OF n, of o_id]
  show "o_id \<in> upto_int ?n \<and> ?f \<le>s o_id \<longleftrightarrow> ?f \<le> o_id \<and> o_id < ?n + 1"
  proof
    assume o: "o_id \<in> upto_int ?n \<and> ?f \<le>s o_id"
    then have "uint o_id = sint o_id" by (intro uint_eq_sint_nonneg) (simp add: upto_int_def)
    then show "?f \<le> o_id \<and> o_id < ?n + 1" using o mem uf by (simp add: word_le_def word_sle_eq)
  next
    assume o: "?f \<le> o_id \<and> o_id < ?n + 1"
    then have "0 < o_id" using pos by (metis less_le_trans)
    then have u: "o_id \<in> upto_int ?n" using o mem by simp
    then have "uint o_id = sint o_id" by (intro uint_eq_sint_nonneg) (simp add: upto_int_def)
    then show "o_id \<in> upto_int ?n \<and> ?f \<le>s o_id" using o u uf by (simp add: word_le_def word_sle_eq)
  qed
qed

lemma loaded_views:
  assumes l: "loaded T E old nxt (all_keys old P) sm"
  shows "district_at w d (db_abs T sm) \<noteq> None \<longleftrightarrow> w \<in> upto_int (num_warehouses P) \<and> d \<in> upto_int (num_districts_per_warehouse P)"
    "dno_at w d (db_abs T sm) \<noteq> None \<longleftrightarrow> w \<in> upto_int (num_warehouses P) \<and> d \<in> upto_int (num_districts_per_warehouse P)"
    "customer_at w d c (db_abs T sm) \<noteq> None \<longleftrightarrow>
       w \<in> upto_int (num_warehouses P) \<and> d \<in> upto_int (num_districts_per_warehouse P) \<and> c \<in> upto_int (num_customers_per_district P)"
    "order_at E w d o_id (db_abs T sm) \<noteq> None \<longleftrightarrow>
       w \<in> upto_int (num_warehouses P) \<and> d \<in> upto_int (num_districts_per_warehouse P) \<and> o_id \<in> upto_int (num_customers_per_district P)"
    "new_at E w d o_id (db_abs T sm) \<noteq> None \<longleftrightarrow>
       w \<in> upto_int (num_warehouses P) \<and> d \<in> upto_int (num_districts_per_warehouse P) \<and>
       o_id \<in> upto_int (num_customers_per_district P) \<and> old \<le>s o_id"
    "db_tab (db_abs T sm) ITEM_TABLE_ID (wkey [i]) \<noteq> None \<longleftrightarrow> i \<in> upto_int (num_items P)"
    "db_tab (db_abs T sm) WAREHOUSE_TABLE_ID (wkey [w]) \<noteq> None \<longleftrightarrow> w \<in> upto_int (num_warehouses P)"
    "db_tab (db_abs T sm) STOCK_TABLE_ID (wkey [i, w]) \<noteq> None \<longleftrightarrow> w \<in> upto_int (num_warehouses P) \<and> i \<in> upto_int (num_items P)"
  using loaded_at [OF l, of "KDistrict w d"] loaded_at [OF l, of "KDno w d"] loaded_at [OF l, of "KCustomer w d c"]
    loaded_at [OF l, of "KOrder w d o_id"] loaded_at [OF l, of "KNew w d o_id"] loaded_at [OF l, of "KItem i"]
    loaded_at [OF l, of "KWarehouse w"] loaded_at [OF l, of "KStock w i"]
  by (simp_all add: in_all_keys district_at_def dno_at_def customer_at_def order_at_def new_at_def del: not_None_eq)

lemma loaded_line:
  assumes l: "loaded T E old nxt (all_keys old P) sm"
  shows "line_at E w d o_id n (db_abs T sm) \<noteq> None \<Longrightarrow> o_id \<in> upto_int (num_customers_per_district P)"
    and "w \<in> upto_int (num_warehouses P) \<Longrightarrow> d \<in> upto_int (num_districts_per_warehouse P) \<Longrightarrow>
      o_id \<in> upto_int (num_customers_per_district P) \<Longrightarrow> order_lines E w d o_id (db_abs T sm) \<noteq> {}"
proof -
  show "o_id \<in> upto_int (num_customers_per_district P)" if at: "line_at E w d o_id n (db_abs T sm) \<noteq> None"
  proof -
    obtain row where "table_map T sm (key_table E (KLine w d o_id n)) (key_bytes (KLine w d o_id n)) = Some row"
      using at by (auto simp: line_at_def)
    from loaded_row(1) [OF l this] show ?thesis by (simp add: in_all_keys)
  qed
  assume wd: "w \<in> upto_int (num_warehouses P)" "d \<in> upto_int (num_districts_per_warehouse P)"
    "o_id \<in> upto_int (num_customers_per_district P)"
  then have "KLine w d o_id 1 \<in> all_keys old P" by (simp add: in_all_keys)
  from loadedD(2) [OF l this] obtain row where
    row: "table_map T sm (key_table E (KLine w d o_id 1)) (key_bytes (KLine w d o_id 1)) = Some row" by auto
  have "of_order o_id d w row" using loaded_row(2) [OF l row] by simp
  then have "(key_bytes (KLine w d o_id 1), row) \<in> order_lines E w d o_id (db_abs T sm)"
    using row by (simp add: order_lines_def)
  then show "order_lines E w d o_id (db_abs T sm) \<noteq> {}" by blast
qed

lemma loaded_district:
  assumes l: "loaded T E old nxt (all_keys old P) sm" and at: "district_at w d (db_abs T sm) = Some drow"
  shows "next_o_id drow = nxt" "\<exists>nrow. dno_at w d (db_abs T sm) = Some nrow \<and> oldest nrow = old"
    "w \<in> upto_int (num_warehouses P)" "d \<in> upto_int (num_districts_per_warehouse P)"
proof -
  have "table_map T sm (key_table E (KDistrict w d)) (key_bytes (KDistrict w d)) = Some drow" using at by (simp add: district_at_def)
  from loaded_row [OF l this] show "next_o_id drow = nxt"
    and wd: "w \<in> upto_int (num_warehouses P)" "d \<in> upto_int (num_districts_per_warehouse P)" by (simp_all add: in_all_keys)
  obtain nrow where nrow: "dno_at w d (db_abs T sm) = Some nrow" using loaded_views(2) [OF l, of w d] wd by auto
  then have "table_map T sm (key_table E (KDno w d)) (key_bytes (KDno w d)) = Some nrow" by (simp add: dno_at_def)
  from loaded_row(2) [OF l this] nrow show "\<exists>nrow. dno_at w d (db_abs T sm) = Some nrow \<and> oldest nrow = old" by simp
qed

lemma loaded_consistent:
  fixes E :: "'g tpcc_env" and P :: tpcc_scale
  assumes l: "loaded T E (first_new P) (num_customers_per_district P + 1) (all_keys (first_new P) P) sm"
    and scale: "scale_ok P" "orders_ok P"
  shows "consistent E (db_abs T sm)"
proof (rule consistentI)
  let ?db = "db_abs T sm" and ?n = "num_customers_per_district P"
  have n: "0 \<le> sint ?n" "sint ?n < 2147483647" using scale(1) by (simp_all add: scale_ok_def)
  note less = upto_int_less [OF n]
  note v = loaded_views [OF l]
  fix w d drow assume at: "district_at w d ?db = Some drow"
  note dist = loaded_district [OF l at]
  obtain nrow where nrow: "dno_at w d ?db = Some nrow" "oldest nrow = first_new P" using dist(2) by blast
  have "district_consistent E ?db w d (first_new P) (?n + 1)"
    unfolding district_consistent_def
  proof (intro conjI allI)
    show "0 < first_new P" "first_new P \<le> ?n + 1" by (rule new_order_range [OF scale])+
    show "order_at E w d o_id ?db \<noteq> None \<longleftrightarrow> 0 < o_id \<and> o_id < ?n + 1" for o_id
      unfolding v(4) less using dist(3,4) by simp
    show "new_at E w d o_id ?db \<noteq> None \<longleftrightarrow> first_new P \<le> o_id \<and> o_id < ?n + 1" for o_id
      unfolding v(5) new_order_range(3) [OF scale] using dist(3,4) by simp
    show "line_at E w d o_id k ?db \<noteq> None \<longrightarrow> o_id < ?n + 1" for o_id k
      using loaded_line(1) [OF l] less by blast
    show "order_at E w d o_id ?db = Some row \<longrightarrow>
        customer_at w d (customer_of row) ?db \<noteq> None \<and> order_lines E w d o_id ?db \<noteq> {}" for o_id row
    proof
      assume row: "order_at E w d o_id ?db = Some row"
      then have t: "table_map T sm (key_table E (KOrder w d o_id)) (key_bytes (KOrder w d o_id)) = Some row"
        by (simp add: order_at_def)
      have c: "customer_of row = o_id" "o_id \<in> upto_int ?n" using loaded_row [OF l t] by (simp_all add: in_all_keys)
      show "customer_at w d (customer_of row) ?db \<noteq> None \<and> order_lines E w d o_id ?db \<noteq> {}"
        unfolding c(1) v(3) using dist(3,4) c(2) loaded_line(2) [OF l] by blast
    qed
  qed
  then show "\<exists>nrow. dno_at w d ?db = Some nrow \<and> district_consistent E ?db w d (oldest nrow) (next_o_id drow)"
    using nrow dist(1) by auto
qed

lemma loaded_room:
  fixes P :: tpcc_scale
  assumes l: "loaded T E (first_new P) (num_customers_per_district P + 1) (all_keys (first_new P) P) sm"
    and scale: "scale_ok P" and k: "sint (num_customers_per_district P) + 1 + int k < 2 ^ 31"
  shows "has_room k (db_abs T sm)"
  unfolding has_room_def
proof (intro allI impI)
  let ?n = "num_customers_per_district P"
  have n: "0 \<le> sint ?n" "sint ?n < 2147483647" using scale by (simp_all add: scale_ok_def)
  fix w d drow assume at: "district_at w d (db_abs T sm) = Some drow"
  have "uint (?n + 1) = sint ?n + 1" using uint_eq_sint_nonneg [OF n(1)] n by (simp add: uint_word_ariths)
  then have "int (unat (?n + 1) + k) < 2147483648" using k by simp
  then have "unat (?n + 1) + k < 2147483648" by linarith
  then show "unat (next_o_id drow) + k < 2 ^ 31" unfolding loaded_district(1) [OF l at] by simp
qed

lemma loaded_stock:
  assumes l: "loaded T E old nxt (all_keys old P) sm"
  shows "stock_within (db_abs T sm)"
    and "db_tab (db_abs T sm) STOCK_TABLE_ID (wkey [i, w]) = Some row \<Longrightarrow> 3 \<le> c \<Longrightarrow> c < 13 \<Longrightarrow>
      0 \<in> set (col_data stock_schema c row)"
proof -
  have dom: "STOCK_TABLE_ID \<in> dom (tpcc_registry (env_cfg E))" by (rule domI) (rule tpcc_registry_simps(6))
  show "stock_within (db_abs T sm)"
    unfolding stock_within_def
  proof (intro allI impI)
    fix bs row assume "db_tab (db_abs T sm) STOCK_TABLE_ID bs = Some row"
    then have at: "table_map T sm STOCK_TABLE_ID bs = Some row" by simp
    obtain k where k: "STOCK_TABLE_ID = key_table E k" "row_ok old nxt k row"
      using loadedD(3) [OF l dom at] by blast
    have "district_part E w d < TPCC_MAX_PARTITION_CNT" for w d by (rule district_part_max [OF loadedD(1) [OF l]])
    note parts = part_tables [OF this this]
    show "10 \<le> sint (fld32 stock_schema 2 row) \<and> sint (fld32 stock_schema 2 row) \<le> 100"
      using k by (cases k) (simp_all add: parts)
  qed
  show "0 \<in> set (col_data stock_schema c row)"
    if "db_tab (db_abs T sm) STOCK_TABLE_ID (wkey [i, w]) = Some row" "3 \<le> c" "c < 13"
    using loaded_row(2) [OF l, of "KStock w i" row] that by simp
qed

section \<open>The populator\<close>

lemma loaded_nothing:
  assumes new: "db_new T (tpcc_registry (env_cfg E)) sm" and parts: "parts_ok E"
  shows "loaded T E old nxt {} sm"
proof -
  have "table_map T sm i bs = None" if "i \<in> dom (tpcc_registry (env_cfg E))" for i bs
    unfolding db_new_inv(2) [OF new that] by (rule refl)
  then show ?thesis using db_new_inv(1) [OF new] parts by (simp add: loaded_def tpcc_inv_def parts_ok_def)
qed

lemma TpccPopulator_start_loads:
  assumes laws: "tbb_laws T" and ok: "draws_ok E C" and parts: "parts_ok E" and scale: "scale_ok (env_scale E)"
  shows "gen_returns (TpccPopulator_start T E C StorageManager_new)
    (loaded T E (first_new (env_scale E)) (num_customers_per_district (env_scale E) + 1)
      (all_keys (first_new (env_scale E)) (env_scale E)))"
proof -
  obtain sm where sm: "TpccPopulator_init T (env_cfg E) StorageManager_new = Inr sm" "db_new T (tpcc_registry (env_cfg E)) sm"
    using TpccPopulator_init_new [OF laws] parts unfolding parts_ok_def by metis
  have run: "TpccPopulator_start T E C StorageManager_new = tpcc_startPopulate T E C sm"
    using sm(1) by (simp add: TpccPopulator_start_def gbnd_def glift_def fun_eq_iff)
  show ?thesis
    unfolding run using adds_keysD [OF startPopulate_adds [OF ok parts scale] loaded_nothing [OF sm(2) parts]] by simp
qed

end
