(* ===== verification/TpccSource.thy ===== *)
theory TpccSource
  imports TpccPopulation
begin

text \<open>
  benchmark/tpcc/TpccSource.cc and TpccSource.h: the transactions that are drawn and pushed into the queue, and
  that every one of them can be executed on the database the populator loads. As in the theory TatpSource the
  queue is the list of its elements with its capacity, and the source runs before a processor is started,
  so a push into the full queue spins for ever.
\<close>

section \<open>Drawing transactions\<close>

definition generateDeliveryParam :: "'g tpcc_env \<Rightarrow> ('g, delivery_param) gen" where
  "generateDeliveryParam E =
     (let R = env_lib E; P = env_scale E in
      gbnd (generateWarehouseId R (starting_warehouse P) (ending_warehouse P)) (\<lambda>w_id.
      gbnd (tpcc_generateInteger R 1 10) (\<lambda>o_carrier_id.
      gbnd (generateCurrentTime R) (\<lambda>ol_delivery_d.
      gret \<lparr>del_w_id = w_id, del_o_carrier_id = o_carrier_id, del_ol_delivery_d = ol_delivery_d\<rparr>))))"

text \<open>One line of a new order: the item, the supplying warehouse and the quantity.\<close>

definition draw_line :: "'g tpcc_env \<Rightarrow> tpcc_consts \<Rightarrow> 32 word \<Rightarrow> ('g, 32 word \<times> 32 word \<times> 32 word) gen" where
  "draw_line E C w_id =
     (let R = env_lib E; P = env_scale E in
      gbnd (generateItemId R C (num_items P)) (\<lambda>i_id.
      gbnd (tpcc_generateInteger R 1 100) (\<lambda>x.
      let remote = (x = 1) in
      gbnd (if 1 <s num_warehouses P \<and> remote
            then generateIntegerExcluding R (starting_warehouse P) (ending_warehouse P) w_id
            else gret w_id) (\<lambda>i_w_id.
      gbnd (tpcc_generateInteger R 1 10) (\<lambda>i_qty.
      gret (i_id, i_w_id, i_qty))))))"

definition generateNewOrderParam :: "'g tpcc_env \<Rightarrow> tpcc_consts \<Rightarrow> ('g, new_order_param) gen" where
  "generateNewOrderParam E C =
     (let R = env_lib E; P = env_scale E in
      gbnd (generateWarehouseId R (starting_warehouse P) (ending_warehouse P)) (\<lambda>w_id.
      gbnd (generateDistrictId R (num_districts_per_warehouse P)) (\<lambda>d_id.
      gbnd (generateCustomerId R C (num_customers_per_district P)) (\<lambda>c_id.
      gbnd (tpcc_generateInteger R 5 15) (\<lambda>ol_cnt.
      gbnd (generateCurrentTime R) (\<lambda>o_entry_d.
      gbnd (gen_list (nat (sint ol_cnt)) (draw_line E C w_id)) (\<lambda>ls.
      gret \<lparr>nop_w_id = w_id, nop_d_id = d_id, nop_c_id = c_id, nop_o_entry_d = o_entry_d,
        nop_i_ids = map fst ls, nop_i_w_ids = map (fst \<circ> snd) ls, nop_i_qtys = map (snd \<circ> snd) ls\<rparr>)))))))"

definition generatePaymentParam :: "'g tpcc_env \<Rightarrow> tpcc_consts \<Rightarrow> ('g, payment_param) gen" where
  "generatePaymentParam E C =
     (let R = env_lib E; P = env_scale E; D = env_dbl E in
      gbnd (tpcc_generateInteger R 1 100) (\<lambda>x.
      gbnd (generateWarehouseId R (starting_warehouse P) (ending_warehouse P)) (\<lambda>w_id.
      gbnd (generateDistrictId R (num_districts_per_warehouse P)) (\<lambda>d_id.
      gbnd (generateFixedPoint R D 2 (d_lit D 10 1) (d_lit D 50000 1)) (\<lambda>h_amount.
      gbnd (generateCurrentTime R) (\<lambda>h_date.
      gbnd (if num_warehouses P = 1 \<or> x \<le>s 85 then gret (w_id, d_id)
            else gbnd (generateIntegerExcluding R (starting_warehouse P) (ending_warehouse P) w_id) (\<lambda>c_w_id.
                 gbnd (generateDistrictId R (num_districts_per_warehouse P)) (\<lambda>c_d_id. gret (c_w_id, c_d_id)))) (\<lambda>(c_w_id, c_d_id).
      gbnd (generateCustomerId R C (num_customers_per_district P)) (\<lambda>c_id.
      gret \<lparr>pay_w_id = w_id, pay_d_id = d_id, pay_h_amount = h_amount, pay_c_w_id = c_w_id, pay_c_d_id = c_d_id,
        pay_c_id = c_id, pay_h_date = h_date\<rparr>))))))))"

definition generateOrderStatusParam :: "'g tpcc_env \<Rightarrow> tpcc_consts \<Rightarrow> ('g, order_status_param) gen" where
  "generateOrderStatusParam E C =
     (let R = env_lib E; P = env_scale E in
      gbnd (generateWarehouseId R (starting_warehouse P) (ending_warehouse P)) (\<lambda>w_id.
      gbnd (generateDistrictId R (num_districts_per_warehouse P)) (\<lambda>d_id.
      gbnd (generateCustomerId R C (num_customers_per_district P)) (\<lambda>c_id.
      gret \<lparr>ost_w_id = w_id, ost_d_id = d_id, ost_c_last = [], ost_c_id = c_id\<rparr>))))"

definition generateStockLevelParam :: "'g tpcc_env \<Rightarrow> ('g, stock_level_param) gen" where
  "generateStockLevelParam E =
     (let R = env_lib E; P = env_scale E in
      gbnd (generateWarehouseId R (starting_warehouse P) (ending_warehouse P)) (\<lambda>w_id.
      gbnd (generateDistrictId R (num_districts_per_warehouse P)) (\<lambda>d_id.
      gret \<lparr>slp_w_id = w_id, slp_d_id = d_id\<rparr>)))"

section \<open>The source\<close>

definition tpcc_queue_push :: "nat \<Rightarrow> tpcc_event \<Rightarrow> tpcc_event list \<Rightarrow> tpcc_event list result" where
  "tpcc_queue_push capacity e q = (if length q < capacity then Inr (q @ [e]) else Inl Diverges)"

text \<open>The branches on \<open>x\<close>; the first and the third are never taken.\<close>

definition tpcc_source_event :: "'g tpcc_env \<Rightarrow> tpcc_consts \<Rightarrow> 32 word \<Rightarrow> ('g, tpcc_event) gen" where
  "tpcc_source_event E C x =
     (if x \<le>s 0 then gbnd (generateStockLevelParam E) (\<lambda>p. gret (STOCK_LEVEL p))
      else if x \<le>s 4 + 0 then gbnd (generateDeliveryParam E) (\<lambda>p. gret (DELIVERY p))
      else if x \<le>s 4 + 0 + 0 then gbnd (generateOrderStatusParam E C) (\<lambda>p. gret (ORDER_STATUS p))
      else if x \<le>s 43 + 4 + 0 + 0 then gbnd (generatePaymentParam E C) (\<lambda>p. gret (PAYMENT p))
      else gbnd (generateNewOrderParam E C) (\<lambda>p. gret (NEW_ORDER p)))"

definition tpcc_source_round ::
  "'g tpcc_env \<Rightarrow> tpcc_consts \<Rightarrow> nat \<Rightarrow> tpcc_event list \<Rightarrow> ('g, tpcc_event list) gen" where
  "tpcc_source_round E C capacity q =
     gbnd (tpcc_generateInteger (env_lib E) 1 100) (\<lambda>x.
     gbnd (tpcc_source_event E C x) (\<lambda>e. glift (tpcc_queue_push capacity e q)))"

definition tpcc_startExecution ::
  "'g tpcc_env \<Rightarrow> tpcc_consts \<Rightarrow> nat \<Rightarrow> nat \<Rightarrow> tpcc_event list \<Rightarrow> ('g, tpcc_event list) gen" where
  "tpcc_startExecution E C capacity num_transactions =
     gfold (\<lambda>_. tpcc_source_round E C capacity) [0..<num_transactions]"

definition TpccSource_start ::
  "'g tpcc_env \<Rightarrow> tpcc_consts \<Rightarrow> nat \<Rightarrow> nat \<Rightarrow> tpcc_event list \<Rightarrow> ('g, tpcc_event list) gen" where
  "TpccSource_start E C capacity num_transactions q =
     gbnd (tpcc_startExecution E C capacity num_transactions q) (\<lambda>q. glift (tpcc_queue_push capacity ENDEXECUTION q))"

section \<open>What the source draws\<close>

text \<open>Transactions on the warehouses, districts, customers and items of the scale parameters. No stock level and no
  order status is drawn.\<close>

fun event_within :: "tpcc_scale \<Rightarrow> tpcc_event \<Rightarrow> bool" where
  "event_within P (DELIVERY p) \<longleftrightarrow> del_w_id p \<in> upto_int (num_warehouses P)"
| "event_within P (NEW_ORDER p) \<longleftrightarrow>
     nop_w_id p \<in> upto_int (num_warehouses P) \<and> nop_d_id p \<in> upto_int (num_districts_per_warehouse P) \<and>
     nop_c_id p \<in> upto_int (num_customers_per_district P) \<and>
     5 \<le> length (nop_i_ids p) \<and> length (nop_i_ids p) \<le> 15 \<and>
     length (nop_i_w_ids p) = length (nop_i_ids p) \<and> length (nop_i_qtys p) = length (nop_i_ids p) \<and>
     set (nop_i_ids p) \<subseteq> upto_int (num_items P) \<and> set (nop_i_w_ids p) \<subseteq> upto_int (num_warehouses P) \<and>
     set (nop_i_qtys p) \<subseteq> upto_int 10"
| "event_within P (PAYMENT p) \<longleftrightarrow>
     pay_w_id p \<in> upto_int (num_warehouses P) \<and> pay_d_id p \<in> upto_int (num_districts_per_warehouse P) \<and>
     pay_c_id p \<in> upto_int (num_customers_per_district P)"
| "event_within P _ \<longleftrightarrow> False"

text \<open>The sizes with which the source works: the warehouses are numbered from one, there are the ten districts the
  deliveries go through, and the random numbers do not overflow.\<close>

definition source_ok :: "tpcc_scale \<Rightarrow> bool" where
  "source_ok P \<longleftrightarrow>
     starting_warehouse P = 1 \<and> ending_warehouse P = num_warehouses P \<and> 1 \<le> sint (num_warehouses P) \<and>
     num_districts_per_warehouse P = DISTRICTS_PER_WAREHOUSE \<and> sint (num_warehouses P) < 2147483647 \<and>
     1 \<le> sint (num_items P) \<and> sint (num_items P) < 2 ^ 20 \<and>
     1 \<le> sint (num_customers_per_district P) \<and> sint (num_customers_per_district P) < 2 ^ 20"

lemma upto_int_10: "q \<in> upto_int 10 \<longleftrightarrow> 1 \<le> sint q \<and> sint q \<le> 10"
  by (simp add: upto_int_def)

lemma source_warehouse:
  assumes "rand_laws (env_lib E)" "source_ok (env_scale E)"
  shows "gen_returns (generateWarehouseId (env_lib E) (starting_warehouse (env_scale E)) (ending_warehouse (env_scale E)))
    (\<lambda>w. w \<in> upto_int (num_warehouses (env_scale E)))"
  unfolding generateWarehouseId_def
  by (rule gen_weaken [OF tpcc_generateInteger_returns [OF assms(1)]]) (use assms(2) in \<open>simp_all add: source_ok_def upto_int_def\<close>)

lemma source_district:
  assumes "rand_laws (env_lib E)" "source_ok (env_scale E)"
  shows "gen_returns (generateDistrictId (env_lib E) (num_districts_per_warehouse (env_scale E)))
    (\<lambda>d. d \<in> upto_int (num_districts_per_warehouse (env_scale E)))"
  unfolding generateDistrictId_def
  by (rule gen_weaken [OF tpcc_generateInteger_returns [OF assms(1)]])
    (use assms(2) in \<open>simp_all add: source_ok_def upto_int_def DISTRICTS_PER_WAREHOUSE_def\<close>)

lemma source_customer:
  assumes "rand_laws (env_lib E)" "consts_ok C" "source_ok (env_scale E)"
  shows "gen_returns (generateCustomerId (env_lib E) C (num_customers_per_district (env_scale E)))
    (\<lambda>c. c \<in> upto_int (num_customers_per_district (env_scale E)))"
  unfolding generateCustomerId_def
  by (rule gen_weaken [OF generateNonuniformInteger_returns [OF assms(1,2)]])
    (use assms(3) in \<open>simp_all add: source_ok_def upto_int_def\<close>)

lemma source_item:
  assumes "rand_laws (env_lib E)" "consts_ok C" "source_ok (env_scale E)"
  shows "gen_returns (generateItemId (env_lib E) C (num_items (env_scale E))) (\<lambda>i. i \<in> upto_int (num_items (env_scale E)))"
  unfolding generateItemId_def
  by (rule gen_weaken [OF generateNonuniformInteger_returns [OF assms(1,2)]])
    (use assms(3) in \<open>simp_all add: source_ok_def upto_int_def\<close>)

text \<open>What \<open>generateIntegerExcluding\<close> gives stays between its bounds. It may be the excluded number.\<close>

lemma generateIntegerExcluding_returns:
  assumes R: "rand_laws R" and le: "0 \<le> sint mn" "sint mn < sint mx"
  shows "gen_returns (generateIntegerExcluding R mn mx ex) (\<lambda>n. sint mn \<le> sint n \<and> sint n \<le> sint mx)"
proof -
  have mx: "sint mx \<le> 2147483647" using sint_lt [of mx] by simp
  have s: "sint (word_of_int x :: 32 word) = x" if "0 \<le> x" "x \<le> 2147483647" for x
    using that by (simp add: signed_of_int signed_take_bit_int_eq_self)
  have "sint (word_of_int (sint mx - 1) :: 32 word) = sint mx - 1" by (rule s) (use le mx in auto)
  then have m1: "sint (mx - 1) = sint mx - 1" by simp
  show ?thesis
    unfolding generateIntegerExcluding_def
  proof (rule gbnd_returns [OF tpcc_generateInteger_returns [OF R]])
    fix num :: "32 word" assume n: "sint mn \<le> sint num \<and> sint num \<le> sint (mx - 1)"
    have "sint (word_of_int (sint num + 1) :: 32 word) = sint num + 1" by (rule s) (use n m1 le mx in auto)
    then have "sint (num + 1) = sint num + 1" by simp
    then show "gen_returns (gret (if ex <s num then num + 1 else num)) (\<lambda>n. sint mn \<le> sint n \<and> sint n \<le> sint mx)"
      using n m1 by (intro gret_returns) auto
  qed (use le mx m1 in auto)
qed

lemma source_other_warehouse:
  assumes "rand_laws (env_lib E)" "source_ok (env_scale E)" "1 < sint (num_warehouses (env_scale E))"
  shows "gen_returns (generateIntegerExcluding (env_lib E) (starting_warehouse (env_scale E)) (ending_warehouse (env_scale E)) w)
    (\<lambda>w. w \<in> upto_int (num_warehouses (env_scale E)))"
  by (rule gen_weaken [OF generateIntegerExcluding_returns [OF assms(1)]])
    (use assms(2,3) in \<open>simp_all add: source_ok_def upto_int_def\<close>)

lemma draw_line_returns:
  assumes R: "rand_laws (env_lib E)" and C: "consts_ok C" and P: "source_ok (env_scale E)"
    and w: "w \<in> upto_int (num_warehouses (env_scale E))"
  shows "gen_returns (draw_line E C w) (\<lambda>(i, v, q). i \<in> upto_int (num_items (env_scale E)) \<and>
    v \<in> upto_int (num_warehouses (env_scale E)) \<and> q \<in> upto_int 10)"
proof -
  have supplier: "gen_returns (if 1 <s num_warehouses (env_scale E) \<and> x = 1
      then generateIntegerExcluding (env_lib E) (starting_warehouse (env_scale E)) (ending_warehouse (env_scale E)) w
      else gret w) (\<lambda>v. v \<in> upto_int (num_warehouses (env_scale E)))" for x :: "32 word"
    using w source_other_warehouse [OF R P] by (auto simp: word_sless_alt intro: gret_returns)
  show ?thesis
    unfolding draw_line_def Let_def
    by (rule gbnd_returns [OF source_item [OF R C P]], rule gbnd_returns [OF tpcc_generateInteger_returns [OF R]], simp, simp,
        rule gbnd_returns [OF supplier], rule gbnd_returns [OF tpcc_generateInteger_returns [OF R]], simp, simp,
        rule gret_returns, simp add: upto_int_10)
qed

lemma generateNewOrderParam_returns:
  assumes R: "rand_laws (env_lib E)" and C: "consts_ok C" and P: "source_ok (env_scale E)"
  shows "gen_returns (generateNewOrderParam E C) (\<lambda>p. event_within (env_scale E) (NEW_ORDER p))"
proof -
  have cnt: "gen_returns (tpcc_generateInteger (env_lib E) 5 15) (\<lambda>x. 5 \<le> sint x \<and> sint x \<le> 15)"
    by (rule gen_weaken [OF tpcc_generateInteger_returns [OF R]]) simp_all
  show ?thesis
    unfolding generateNewOrderParam_def Let_def
    by (rule gbnd_returns [OF source_warehouse [OF R P]], rule gbnd_returns [OF source_district [OF R P]],
        rule gbnd_returns [OF source_customer [OF R C P]], rule gbnd_returns [OF cnt], rule gbnd_returns [OF time_returns],
        rule gbnd_returns [OF gen_list_returns [OF draw_line_returns [OF R C P]]], assumption,
        rule gret_returns) (auto simp: nat_le_iff le_nat_iff)
qed

lemma generatePaymentParam_returns:
  assumes ok: "draws_ok E C" and P: "source_ok (env_scale E)"
  shows "gen_returns (generatePaymentParam E C) (\<lambda>p. event_within (env_scale E) (PAYMENT p))"
proof -
  note R = draws_okD(1) [OF ok]
  have customer: "gen_returns (if num_warehouses (env_scale E) = 1 \<or> x \<le>s 85 then gret (w, d)
      else gbnd (generateIntegerExcluding (env_lib E) (starting_warehouse (env_scale E)) (ending_warehouse (env_scale E)) w)
        (\<lambda>c_w_id. gbnd (generateDistrictId (env_lib E) (num_districts_per_warehouse (env_scale E)))
        (\<lambda>c_d_id. gret (c_w_id, c_d_id)))) (\<lambda>_. True)" for x w d :: "32 word"
  proof (cases "num_warehouses (env_scale E) = 1 \<or> x \<le>s 85")
    case False
    have "sint (num_warehouses (env_scale E)) \<noteq> sint (1 :: 32 word)"
      using False word_eq_iff_signed [of "num_warehouses (env_scale E)" 1] by blast
    then have "1 < sint (num_warehouses (env_scale E))" using P by (simp add: source_ok_def)
    from source_other_warehouse [OF R P this] show ?thesis
      using False by (auto intro!: gbnd_returns [where P = "\<lambda>w. w \<in> upto_int (num_warehouses (env_scale E))"]
          gbnd_returns [OF source_district [OF R P]] gret_returns)
  qed (simp add: gret_returns)
  show ?thesis
    unfolding generatePaymentParam_def Let_def
    by (rule gbnd_returns [OF tpcc_generateInteger_returns [OF R]], simp, simp,
        rule gbnd_returns [OF source_warehouse [OF R P]], rule gbnd_returns [OF source_district [OF R P]],
        rule gbnd_returns [OF generateFixedPoint_returns [OF R draws_okD(8) [OF ok]]], rule gbnd_returns [OF time_returns],
        rule gbnd_returns [OF customer], clarify, rule gbnd_returns [OF source_customer [OF R draws_okD(3) [OF ok] P]],
        rule gret_returns, simp)
qed

lemma generateDeliveryParam_returns:
  assumes R: "rand_laws (env_lib E)" and P: "source_ok (env_scale E)"
  shows "gen_returns (generateDeliveryParam E) (\<lambda>p. event_within (env_scale E) (DELIVERY p))"
  unfolding generateDeliveryParam_def Let_def
  by (rule gbnd_returns [OF source_warehouse [OF R P]], rule gbnd_returns [OF tpcc_generateInteger_returns [OF R]], simp, simp,
      rule gbnd_returns [OF time_returns], rule gret_returns, simp)

text \<open>In a hundred there are 4 deliveries, 43 payments and 53 new orders.\<close>

lemma tpcc_source_event_returns:
  assumes ok: "draws_ok E C" and P: "source_ok (env_scale E)" and x: "1 \<le> sint x"
  shows "gen_returns (tpcc_source_event E C x) (\<lambda>e. event_within (env_scale E) e \<and>
    (if sint x \<le> 4 then \<exists>p. e = DELIVERY p else if sint x \<le> 47 then \<exists>p. e = PAYMENT p else \<exists>p. e = NEW_ORDER p))"
proof -
  note R = draws_okD(1) [OF ok]
  have x0: "\<not> x \<le>s 0" using x by (simp add: word_sle_eq)
  have run: "tpcc_source_event E C x =
      (if sint x \<le> 4 then gbnd (generateDeliveryParam E) (\<lambda>p. gret (DELIVERY p))
       else if sint x \<le> 47 then gbnd (generatePaymentParam E C) (\<lambda>p. gret (PAYMENT p))
       else gbnd (generateNewOrderParam E C) (\<lambda>p. gret (NEW_ORDER p)))"
    using x0 by (simp add: tpcc_source_event_def word_sle_eq)
  show ?thesis
    unfolding run
    by (auto simp del: event_within.simps intro!: gbnd_returns [OF generateDeliveryParam_returns [OF R P]]
        gbnd_returns [OF generatePaymentParam_returns [OF ok P]]
        gbnd_returns [OF generateNewOrderParam_returns [OF R draws_okD(3) [OF ok] P]] gret_returns)
qed

lemma TpccSource_start_returns:
  assumes ok: "draws_ok E C" and P: "source_ok (env_scale E)" and cap: "n < capacity"
  shows "gen_returns (TpccSource_start E C capacity n []) (\<lambda>q. \<exists>es. q = es @ [ENDEXECUTION] \<and> length es = n \<and>
    (\<forall>e \<in> set es. event_within (env_scale E) e))"
proof -
  note R = draws_okD(1) [OF ok]
  have round: "gen_returns (tpcc_source_round E C capacity q) (\<lambda>q'. \<exists>e. event_within (env_scale E) e \<and> q' = q @ [e])"
    if q: "length q < capacity" for q
    unfolding tpcc_source_round_def
  proof (rule gbnd_returns [OF tpcc_generateInteger_returns [OF R]])
    fix x :: "32 word" assume "sint (1 :: 32 word) \<le> sint x \<and> sint x \<le> sint (100 :: 32 word)"
    then have x: "1 \<le> sint x" by simp
    show "gen_returns (gbnd (tpcc_source_event E C x) (\<lambda>e. glift (tpcc_queue_push capacity e q)))
        (\<lambda>q'. \<exists>e. event_within (env_scale E) e \<and> q' = q @ [e])"
    proof (rule gbnd_returns [OF tpcc_source_event_returns [OF ok P x]])
      fix e assume e: "event_within (env_scale E) e \<and>
        (if sint x \<le> 4 then \<exists>p. e = DELIVERY p else if sint x \<le> 47 then \<exists>p. e = PAYMENT p else \<exists>p. e = NEW_ORDER p)"
      have "tpcc_queue_push capacity e q = Inr (q @ [e])" using q by (simp add: tpcc_queue_push_def)
      then show "gen_returns (glift (tpcc_queue_push capacity e q)) (\<lambda>q'. \<exists>e. event_within (env_scale E) e \<and> q' = q @ [e])"
        by (rule glift_returns) (use e in blast)
    qed
  qed simp_all
  have loop: "gen_returns (tpcc_startExecution E C capacity n []) (\<lambda>q. length q = n \<and> (\<forall>e \<in> set q. event_within (env_scale E) e))"
    unfolding tpcc_startExecution_def
  proof (rule gfold_upt_invariant [where I = "\<lambda>k q. length q = k \<and> (\<forall>e \<in> set q. event_within (env_scale E) e)"])
    fix k q assume k: "k < n" and q: "length q = k \<and> (\<forall>e \<in> set q. event_within (env_scale E) e)"
    have "length q < capacity" using k q cap by simp
    from round [OF this] show "gen_returns (tpcc_source_round E C capacity q)
        (\<lambda>q. length q = Suc k \<and> (\<forall>e \<in> set q. event_within (env_scale E) e))"
      by (rule gen_weaken) (use q in auto)
  qed simp
  show ?thesis
    unfolding TpccSource_start_def
  proof (rule gbnd_returns [OF loop])
    fix q assume q: "length q = n \<and> (\<forall>e \<in> set q. event_within (env_scale E) e)"
    have "tpcc_queue_push capacity ENDEXECUTION q = Inr (q @ [ENDEXECUTION])" using q cap by (simp add: tpcc_queue_push_def)
    then show "gen_returns (glift (tpcc_queue_push capacity ENDEXECUTION q)) (\<lambda>q. \<exists>es. q = es @ [ENDEXECUTION] \<and> length es = n \<and>
        (\<forall>e \<in> set es. event_within (env_scale E) e))"
      by (rule glift_returns) (use q in blast)
  qed
qed

end
