(* ===== verification/TpccBatch.thy ===== *)
theory TpccBatch
  imports TpccSerial Interleaving
begin

unbundle bit_operations_syntax

text \<open>
  benchmark/tpcc/TpccBatchProcessor.h and TpccBatchProcessor.cc (TpccTPBatchProcessor.cc is the same code
  with a thread pool in place of \<open>std::thread\<close>): transactions are collected in a batch and split into their
  sub-transactions. A thread is the list of the calls it makes, and one call is one step. Threads that run
  at the same time are scheduled in any interleaving; what a thread has to wait for is in \<open>schedule_a\<close> and
  \<open>schedule_b\<close>. That a call is one step is an assumption: the conflict threads insert into and delete from
  the \<open>NEW_ORDER\<close> tables, which the storage engine does not lock against a delete (\<open>delete_insert_race\<close>), and
  a race inside two such calls is in none of these schedules. \<open>TpccBatchTables\<close> proves that no two threads of a
  batch change the same \<open>NEW_ORDER\<close> table when the number of threads divides the number of partitions, and the
  properties of the processor carry that condition.
\<close>

section \<open>The batch\<close>

record tpcc_batch =
  delivery_params :: "delivery_param list"
  new_order_params :: "new_order_param list"
  payment_params :: "payment_param list"
  tpcc_batch_params :: "tpcc_event list"

text \<open>\<open>clearBatch\<close>, which is also how a processor starts.\<close>

definition tpcc_clearBatch :: "tpcc_batch \<Rightarrow> tpcc_batch" where
  "tpcc_clearBatch b =
     b\<lparr>delivery_params := [], new_order_params := [], payment_params := [], tpcc_batch_params := []\<rparr>"

definition tpcc_empty_batch :: tpcc_batch where
  "tpcc_empty_batch =
     \<lparr>delivery_params = [], new_order_params = [], payment_params = [], tpcc_batch_params = []\<rparr>"

lemma tpcc_clearBatch_empty: "tpcc_clearBatch b = tpcc_empty_batch"
  by (simp add: tpcc_clearBatch_def tpcc_empty_batch_def)

fun tpcc_dispatch :: "tpcc_event \<Rightarrow> tpcc_batch \<Rightarrow> tpcc_batch" where
  "tpcc_dispatch (DELIVERY p) b = b\<lparr>delivery_params := delivery_params b @ [p]\<rparr>"
| "tpcc_dispatch (NEW_ORDER p) b = b\<lparr>new_order_params := new_order_params b @ [p]\<rparr>"
| "tpcc_dispatch (PAYMENT p) b = b\<lparr>payment_params := payment_params b @ [p]\<rparr>"
| "tpcc_dispatch e b = b"

definition tpcc_add_event :: "tpcc_event \<Rightarrow> tpcc_batch \<Rightarrow> tpcc_batch" where
  "tpcc_add_event e b = tpcc_dispatch e (b\<lparr>tpcc_batch_params := tpcc_batch_params b @ [e]\<rparr>)"

text \<open>The inner loop of \<open>start\<close>: each element of the queue comes with the answer of the batch timer
  after it (\<open>True\<close>: the batch time is over). The result is the batch, whether the end marker was met,
  the number of transactions and the rest of the queue.\<close>

fun tpcc_collect ::
  "(tpcc_event \<times> bool) list \<Rightarrow> tpcc_batch \<Rightarrow> nat \<Rightarrow> (tpcc_batch \<times> bool \<times> nat \<times> (tpcc_event \<times> bool) list) result" where
  "tpcc_collect [] b cnt = Inl Diverges"
| "tpcc_collect ((e, timeout) # queue) b cnt =
     (if e = ENDEXECUTION then Inr (tpcc_add_event e b, True, cnt, queue)
      else if timeout then Inr (tpcc_add_event e b, False, cnt + 1, queue)
      else tpcc_collect queue (tpcc_add_event e b) (cnt + 1))"

section \<open>Buckets\<close>

definition tpcc_hash_int :: "32 word \<Rightarrow> 32 word" where
  "tpcc_hash_int key =
     (let key = NOT key + push_bit 15 key;
          key = key XOR drop_bit 12 key;
          key = key + push_bit 2 key;
          key = key XOR drop_bit 4 key;
          key = key * 2057;
          key = key XOR drop_bit 16 key
      in key)"

text \<open>\<open>bkt[h % kParallelism].emplace_back(x)\<close> for an array of \<open>kParallelism\<close> vectors.\<close>

definition bucket_push :: "bench_config \<Rightarrow> nat \<Rightarrow> 'a \<Rightarrow> 'a list list \<Rightarrow> 'a list list result" where
  "bucket_push cfg h x bkt =
     (if kParallelism cfg = 0 then Inl DivisionByZero
      else Inr (bkt[h mod kParallelism cfg := bkt ! (h mod kParallelism cfg) @ [x]]))"

definition district_offset :: "'g tpcc_env \<Rightarrow> 32 word \<Rightarrow> 32 word \<Rightarrow> nat" where
  "district_offset E w d = unat (getOrderLineTableOffset (env_scale E) w d)"

definition item_offset :: "'g tpcc_env \<Rightarrow> 32 word \<Rightarrow> 32 word \<Rightarrow> nat" where
  "item_offset E w i = unat (tpcc_hash_int (num_items (env_scale E) * (w - 1) + i - 1))"

text \<open>The local vectors of \<open>processBatch\<close> that the loop at its beginning fills, and its positions.\<close>

record tpcc_fill =
  no_bkt :: "nat list list"
  item_bkt :: "(nat \<times> nat) list list"
  dn_bkt :: "(nat \<times> 32 word) list list"
  f_s_dists :: "bytes list list"
  f_amounts :: "64 word list list"
  f_no_o_ids :: "32 word list list"
  f_delivery_pos :: nat
  f_new_order_pos :: nat

definition empty_fill :: "bench_config \<Rightarrow> tpcc_fill" where
  "empty_fill cfg =
     \<lparr>no_bkt = replicate (kParallelism cfg) [], item_bkt = replicate (kParallelism cfg) [],
      dn_bkt = replicate (kParallelism cfg) [], f_s_dists = [], f_amounts = [], f_no_o_ids = [],
      f_delivery_pos = 0, f_new_order_pos = 0\<rparr>"

text \<open>\<open>std::vector<T>(DISTRICTS_PER_WAREHOUSE + 1, x)\<close>.\<close>

definition per_district_vector :: "'a \<Rightarrow> 'a list" where
  "per_district_vector x = replicate (unat (scast (DISTRICTS_PER_WAREHOUSE + 1) :: 64 word)) x"

fun first_fill :: "'g tpcc_env \<Rightarrow> tpcc_event \<Rightarrow> tpcc_fill \<Rightarrow> tpcc_fill result" where
  "first_fill E (DELIVERY p) f =
     (let pos = f_delivery_pos f; f = f\<lparr>f_no_o_ids := f_no_o_ids f @ [per_district_vector (- 1)]\<rparr> in
      bnd (fold_res (\<lambda>d bkt. bucket_push (env_cfg E) (district_offset E (del_w_id p) d) (pos, d) bkt)
             all_districts (dn_bkt f)) (\<lambda>bkt.
      Inr (f\<lparr>dn_bkt := bkt, f_delivery_pos := pos + 1\<rparr>)))"
| "first_fill E (NEW_ORDER p) f =
     (let pos = f_new_order_pos f; offset = district_offset E (nop_w_id p) (nop_d_id p) in
      bnd (bucket_push (env_cfg E) offset (pos, - 1) (dn_bkt f)) (\<lambda>dn.
      bnd (bucket_push (env_cfg E) offset pos (no_bkt f)) (\<lambda>no.
      let f = f\<lparr>dn_bkt := dn, no_bkt := no,
                f_s_dists := f_s_dists f @ [replicate (length (nop_i_ids p)) []],
                f_amounts := f_amounts f @ [replicate (length (nop_i_ids p)) (d_of_int (env_dbl E) 0)]\<rparr> in
      bnd (fold_res (\<lambda>i bkt.
             bnd (vec_at (nop_i_w_ids p) i) (\<lambda>w. bnd (vec_at (nop_i_ids p) i) (\<lambda>i_id.
             bucket_push (env_cfg E) (item_offset E w i_id) (pos, i) bkt)))
             [0..<length (nop_i_ids p)] (item_bkt f)) (\<lambda>bkt.
      Inr (f\<lparr>item_bkt := bkt, f_new_order_pos := pos + 1\<rparr>)))))"
| "first_fill E e f = Inr f"

section \<open>The calls\<close>

text \<open>One call of a sub-transaction, with the position of its parameters and the line or the district.\<close>

datatype tpcc_call =
  No1 nat | No2 nat | No3 nat | No4 nat nat | No5 nat nat | No6 nat
| Pay1 nat | Pay2 nat | Pay3 nat | Pay4 nat
| Del1 nat "32 word" | Del2 nat "32 word" | Del3 nat "32 word" | Del4 nat "32 word"

text \<open>The storage manager and the local vectors the threads write.\<close>

record ('q, 'h, 'm) tpcc_state =
  ts_sm :: "('q, 'h, 'm) storage_manager"
  ts_dists :: "bytes list list"
  ts_amounts :: "64 word list list"
  ts_no_o_ids :: "32 word list list"
  ts_next_o_ids :: "32 word list"
  ts_c_ids :: "32 word list list"
  ts_sums :: "64 word list list"

definition get2 :: "'a list list \<Rightarrow> nat \<Rightarrow> nat \<Rightarrow> 'a result" where
  "get2 xss i j = bnd (vec_at xss i) (\<lambda>xs. vec_at xs j)"

definition set2 :: "'a list list \<Rightarrow> nat \<Rightarrow> nat \<Rightarrow> 'a \<Rightarrow> 'a list list" where
  "set2 xss i j x = xss[i := (xss ! i)[j := x]]"

text \<open>An \<open>int\<close> as an index of a vector.\<close>

definition int_index :: "32 word \<Rightarrow> nat" where
  "int_index d = unat (scast d :: 64 word)"

definition new_sm ::
  "('q, 'h, 'm) tpcc_state \<Rightarrow> ('q, 'h, 'm) storage_manager result \<Rightarrow> ('q, 'h, 'm) tpcc_state result" where
  "new_sm bs r = bnd r (\<lambda>sm. Inr (bs\<lparr>ts_sm := sm\<rparr>))"

fun db_call ::
  "('q, 'h, 'm) tbb \<Rightarrow> 'g tpcc_env \<Rightarrow> tpcc_batch \<Rightarrow> tpcc_call \<Rightarrow> ('q, 'h, 'm) tpcc_state \<Rightarrow>
   ('q, 'h, 'm) tpcc_state result" where
  "db_call T E b (No1 n) bs =
     bnd (vec_at (new_order_params b) n) (\<lambda>p.
     bnd (neworderSubTxn1 T p (ts_sm bs)) (\<lambda>(o_id, sm).
     bnd (vec_at (ts_next_o_ids bs) n) (\<lambda>_.
     Inr (bs\<lparr>ts_sm := sm, ts_next_o_ids := (ts_next_o_ids bs)[n := o_id]\<rparr>))))"
| "db_call T E b (No2 n) bs =
     bnd (vec_at (new_order_params b) n) (\<lambda>p. bnd (vec_at (ts_next_o_ids bs) n) (\<lambda>o_id.
     new_sm bs (neworderSubTxn2 T E p o_id (ts_sm bs))))"
| "db_call T E b (No3 n) bs =
     bnd (vec_at (new_order_params b) n) (\<lambda>p. bnd (vec_at (ts_next_o_ids bs) n) (\<lambda>o_id.
     new_sm bs (neworderSubTxn3 T E p o_id (ts_sm bs))))"
| "db_call T E b (No4 n i) bs =
     bnd (vec_at (new_order_params b) n) (\<lambda>p. bnd (get2 (ts_dists bs) n i) (\<lambda>_.
     bnd (neworderSubTxn4Single T p i (ts_sm bs)) (\<lambda>(s_dist, sm).
     Inr (bs\<lparr>ts_sm := sm, ts_dists := set2 (ts_dists bs) n i s_dist\<rparr>))))"
| "db_call T E b (No5 n i) bs =
     bnd (vec_at (new_order_params b) n) (\<lambda>p. bnd (get2 (ts_amounts bs) n i) (\<lambda>_.
     bnd (neworderSubTxn5Single T E p i (ts_sm bs)) (\<lambda>ol_amount.
     Inr (bs\<lparr>ts_amounts := set2 (ts_amounts bs) n i ol_amount\<rparr>))))"
| "db_call T E b (No6 n) bs =
     bnd (vec_at (new_order_params b) n) (\<lambda>p. bnd (vec_at (ts_next_o_ids bs) n) (\<lambda>o_id.
     bnd (vec_at (ts_dists bs) n) (\<lambda>s_dists. bnd (vec_at (ts_amounts bs) n) (\<lambda>ol_amounts.
     new_sm bs (neworderSubTxn6 T E p o_id s_dists ol_amounts (ts_sm bs))))))"
| "db_call T E b (Pay1 k) bs =
     bnd (vec_at (payment_params b) k) (\<lambda>p. new_sm bs (paymentSubTxn1 T E p (ts_sm bs)))"
| "db_call T E b (Pay2 k) bs =
     bnd (vec_at (payment_params b) k) (\<lambda>p. new_sm bs (paymentSubTxn2 T E p (ts_sm bs)))"
| "db_call T E b (Pay4 k) bs =
     bnd (vec_at (payment_params b) k) (\<lambda>p. new_sm bs (paymentSubTxn4 T E p (ts_sm bs)))"
| "db_call T E b (Del1 q d) bs =
     bnd (vec_at (delivery_params b) q) (\<lambda>p. bnd (get2 (ts_no_o_ids bs) q (int_index d)) (\<lambda>o_id.
     bnd (deliverySubTxn1Single T E p d o_id (ts_sm bs)) (\<lambda>(o_id, sm).
     Inr (bs\<lparr>ts_sm := sm, ts_no_o_ids := set2 (ts_no_o_ids bs) q (int_index d) o_id\<rparr>))))"
| "db_call T E b (Del2 q d) bs =
     bnd (vec_at (delivery_params b) q) (\<lambda>p. bnd (get2 (ts_no_o_ids bs) q (int_index d)) (\<lambda>o_id.
     bnd (get2 (ts_sums bs) q (int_index d)) (\<lambda>_.
     bnd (deliverySubTxn2Single T E p d o_id (ts_sm bs)) (\<lambda>(amount, sm).
     Inr (bs\<lparr>ts_sm := sm, ts_sums := set2 (ts_sums bs) q (int_index d) amount\<rparr>)))))"
| "db_call T E b (Del3 q d) bs =
     bnd (vec_at (delivery_params b) q) (\<lambda>p. bnd (get2 (ts_no_o_ids bs) q (int_index d)) (\<lambda>o_id.
     bnd (get2 (ts_c_ids bs) q (int_index d)) (\<lambda>_.
     bnd (deliverySubTxn3Single T E p d o_id (ts_sm bs)) (\<lambda>(c_id, sm).
     Inr (bs\<lparr>ts_sm := sm, ts_c_ids := set2 (ts_c_ids bs) q (int_index d) c_id\<rparr>)))))"
| "db_call T E b (Del4 q d) bs =
     bnd (vec_at (delivery_params b) q) (\<lambda>p. bnd (get2 (ts_sums bs) q (int_index d)) (\<lambda>amount.
     bnd (get2 (ts_c_ids bs) q (int_index d)) (\<lambda>c_id.
     new_sm bs (deliverySubTxn4Single T E p d amount c_id (ts_sm bs)))))"
| "db_call T E b (Pay3 k) bs = Inr bs"

text \<open>\<open>paymentSubTxn3\<close> is the call that draws from the random generator.\<close>

definition make_call ::
  "('q, 'h, 'm) tbb \<Rightarrow> 'g tpcc_env \<Rightarrow> tpcc_batch \<Rightarrow> tpcc_call \<Rightarrow> ('q, 'h, 'm) tpcc_state \<Rightarrow>
   ('g, ('q, 'h, 'm) tpcc_state) gen" where
  "make_call T E b x bs =
     (case x of
        Pay3 k \<Rightarrow>
          gbnd (glift (vec_at (payment_params b) k)) (\<lambda>p.
          gbnd (paymentSubTxn3 T E p (ts_sm bs)) (\<lambda>sm. gret (bs\<lparr>ts_sm := sm\<rparr>)))
      | _ \<Rightarrow> glift (db_call T E b x bs))"

section \<open>The threads\<close>

definition no4_threads :: "tpcc_fill \<Rightarrow> tpcc_call list list" where
  "no4_threads f = map (map (\<lambda>(n, i). No4 n i)) (item_bkt f)"

definition no5_threads :: "tpcc_fill \<Rightarrow> tpcc_call list list" where
  "no5_threads f = map (map (\<lambda>(n, i). No5 n i)) (item_bkt f)"

definition no12_threads :: "tpcc_fill \<Rightarrow> tpcc_call list list" where
  "no12_threads f = map (\<lambda>bkt. concat (map (\<lambda>n. [No1 n, No2 n]) bkt)) (no_bkt f)"

definition conflict_threads :: "tpcc_fill \<Rightarrow> tpcc_call list list" where
  "conflict_threads f = map (map (\<lambda>(q, d). if d = - 1 then No3 q else Del1 q d)) (dn_bkt f)"

definition pay_threads :: "tpcc_batch \<Rightarrow> tpcc_call list list" where
  "pay_threads b =
     (let ks = [0..<length (payment_params b)] in [map Pay1 ks, map Pay2 ks, map Pay3 ks])"

text \<open>The calls up to the point where \<open>neworder_conflict_thds\<close>, \<open>no4_thds\<close> and \<open>no5_thds\<close> are joined. The
  conflict threads are created after \<open>no12_thds\<close> are joined; \<open>pay\<close> is what the payment threads, which
  are joined only at the end, have done by then.\<close>

definition schedule_a :: "tpcc_fill \<Rightarrow> tpcc_call list list \<Rightarrow> tpcc_call list \<Rightarrow> bool" where
  "schedule_a f pay xs \<longleftrightarrow>
     (\<exists>c1 c2. interleaving (no12_threads f) c1 \<and> interleaving (conflict_threads f) c2 \<and>
        interleaving (no4_threads f @ no5_threads f @ [c1 @ c2] @ pay) xs)"

text \<open>The local vectors of the second half and its loop over the batch.\<close>

record tpcc_fill2 =
  dp_bkt :: "(nat \<times> 32 word) list list"
  del_bkt :: "(nat \<times> 32 word) list list"
  f_c_ids :: "32 word list list"
  f_sums :: "64 word list list"
  f2_delivery_pos :: nat
  f2_payment_pos :: nat

definition empty_fill2 :: "bench_config \<Rightarrow> tpcc_fill2" where
  "empty_fill2 cfg =
     \<lparr>dp_bkt = replicate (kParallelism cfg) [], del_bkt = replicate (kParallelism cfg) [],
      f_c_ids = [], f_sums = [], f2_delivery_pos = 0, f2_payment_pos = 0\<rparr>"

fun second_fill :: "'g tpcc_env \<Rightarrow> 32 word list list \<Rightarrow> tpcc_event \<Rightarrow> tpcc_fill2 \<Rightarrow> tpcc_fill2 result" where
  "second_fill E no_o_ids (DELIVERY p) f =
     (let pos = f2_delivery_pos f;
          f = f\<lparr>f_c_ids := f_c_ids f @ [per_district_vector (- 1)],
                f_sums := f_sums f @ [per_district_vector (d_of_int (env_dbl E) (- 1))]\<rparr> in
      bnd (fold_res (\<lambda>d (dp, del).
             bnd (get2 no_o_ids pos (int_index d)) (\<lambda>o_id.
             if o_id \<noteq> - 1
             then let offset = district_offset E (del_w_id p) d in
                  bnd (bucket_push (env_cfg E) offset (pos, d) dp) (\<lambda>dp.
                  bnd (bucket_push (env_cfg E) offset (pos, d) del) (\<lambda>del. Inr (dp, del)))
             else Inr (dp, del)))
             all_districts (dp_bkt f, del_bkt f)) (\<lambda>(dp, del).
      Inr (f\<lparr>dp_bkt := dp, del_bkt := del, f2_delivery_pos := pos + 1\<rparr>)))"
| "second_fill E no_o_ids (PAYMENT p) f =
     bnd (bucket_push (env_cfg E) (district_offset E (pay_w_id p) (pay_d_id p)) (f2_payment_pos f, - 1) (dp_bkt f)) (\<lambda>dp.
     Inr (f\<lparr>dp_bkt := dp, f2_payment_pos := f2_payment_pos f + 1\<rparr>))"
| "second_fill E no_o_ids e f = Inr f"

definition del3_threads :: "tpcc_fill2 \<Rightarrow> tpcc_call list list" where
  "del3_threads f = map (map (\<lambda>(q, d). Del3 q d)) (del_bkt f)"

definition no6_threads :: "tpcc_fill \<Rightarrow> tpcc_call list list" where
  "no6_threads f = map (map No6) (no_bkt f)"

definition del2_threads :: "tpcc_fill2 \<Rightarrow> tpcc_call list list" where
  "del2_threads f = map (map (\<lambda>(q, d). Del2 q d)) (del_bkt f)"

definition conflict2_threads :: "tpcc_fill2 \<Rightarrow> tpcc_call list list" where
  "conflict2_threads f = map (map (\<lambda>(q, d). if d = - 1 then Pay4 q else Del4 q d)) (dp_bkt f)"

text \<open>The calls from there to the end: \<open>del2_thds\<close> are created after \<open>no6_thds\<close> are joined, \<open>conflict2_thds\<close>
  after \<open>del2_thds\<close> and \<open>del3_thds\<close>; \<open>pay1\<close> and \<open>pay2\<close> are the rest of the payment threads.\<close>

definition schedule_b ::
  "tpcc_fill \<Rightarrow> tpcc_fill2 \<Rightarrow> tpcc_call list list \<Rightarrow> tpcc_call list list \<Rightarrow> tpcc_call list \<Rightarrow> bool" where
  "schedule_b f f2 pay1 pay2 xs \<longleftrightarrow>
     (\<exists>c3 c4 xs1 xs2. interleaving (no6_threads f) c3 \<and> interleaving (del2_threads f2) c4 \<and>
        interleaving (del3_threads f2 @ [c3 @ c4] @ pay1) xs1 \<and>
        interleaving (conflict2_threads f2 @ pay2) xs2 \<and> xs = xs1 @ xs2)"

definition tpcc_init_state ::
  "tpcc_batch \<Rightarrow> tpcc_fill \<Rightarrow> ('q, 'h, 'm) storage_manager \<Rightarrow> ('q, 'h, 'm) tpcc_state" where
  "tpcc_init_state b f sm =
     \<lparr>ts_sm = sm, ts_dists = f_s_dists f, ts_amounts = f_amounts f, ts_no_o_ids = f_no_o_ids f,
      ts_next_o_ids = replicate (length (new_order_params b)) 0, ts_c_ids = [], ts_sums = []\<rparr>"

definition second_state :: "tpcc_fill2 \<Rightarrow> ('q, 'h, 'm) tpcc_state \<Rightarrow> ('q, 'h, 'm) tpcc_state" where
  "second_state f bs = bs\<lparr>ts_c_ids := f_c_ids f, ts_sums := f_sums f\<rparr>"

text \<open>The payment threads, cut into the parts that run in the three periods.\<close>

definition pay_split ::
  "tpcc_batch \<Rightarrow> tpcc_call list list \<Rightarrow> tpcc_call list list \<Rightarrow> tpcc_call list list \<Rightarrow> bool" where
  "pay_split b pa pb pc \<longleftrightarrow>
     length pa = 3 \<and> length pb = 3 \<and> length pc = 3 \<and>
     pay_threads b = map2 (@) pa (map2 (@) pb pc)"

inductive tpcc_processBatch ::
  "('q, 'h, 'm) tbb \<Rightarrow> 'g tpcc_env \<Rightarrow> tpcc_batch \<Rightarrow> ('q, 'h, 'm) storage_manager \<Rightarrow> 'g \<Rightarrow>
   (('q, 'h, 'm) storage_manager \<times> 'g) result \<Rightarrow> bool" for T E b sm g where
  tp_fill_error:
    "fold_res (first_fill E) (tpcc_batch_params b) (empty_fill (env_cfg E)) = Inl e \<Longrightarrow>
     tpcc_processBatch T E b sm g (Inl e)"
| tp_first_error:
    "fold_res (first_fill E) (tpcc_batch_params b) (empty_fill (env_cfg E)) = Inr f \<Longrightarrow>
     pay_split b pa pb pc \<Longrightarrow> schedule_a f pa xs \<Longrightarrow>
     gfold (make_call T E b) xs (tpcc_init_state b f sm) g = Inl e \<Longrightarrow>
     tpcc_processBatch T E b sm g (Inl e)"
| tp_second_fill_error:
    "fold_res (first_fill E) (tpcc_batch_params b) (empty_fill (env_cfg E)) = Inr f \<Longrightarrow>
     pay_split b pa pb pc \<Longrightarrow> schedule_a f pa xs \<Longrightarrow>
     gfold (make_call T E b) xs (tpcc_init_state b f sm) g = Inr (bs, g1) \<Longrightarrow>
     fold_res (second_fill E (ts_no_o_ids bs)) (tpcc_batch_params b) (empty_fill2 (env_cfg E)) = Inl e \<Longrightarrow>
     tpcc_processBatch T E b sm g (Inl e)"
| tp_execute:
    "fold_res (first_fill E) (tpcc_batch_params b) (empty_fill (env_cfg E)) = Inr f \<Longrightarrow>
     pay_split b pa pb pc \<Longrightarrow> schedule_a f pa xs \<Longrightarrow>
     gfold (make_call T E b) xs (tpcc_init_state b f sm) g = Inr (bs, g1) \<Longrightarrow>
     fold_res (second_fill E (ts_no_o_ids bs)) (tpcc_batch_params b) (empty_fill2 (env_cfg E)) = Inr f2 \<Longrightarrow>
     schedule_b f f2 pb pc ys \<Longrightarrow>
     tpcc_processBatch T E b sm g
       (bnd (gfold (make_call T E b) ys (second_state f2 bs) g1) (\<lambda>(bs, g). Inr (ts_sm bs, g)))"

text \<open>\<open>start\<close>: batch after batch until the end marker; the final database, the number of transactions, the
  rest of the queue and the state of the random generator.\<close>

inductive tpcc_batch_start ::
  "('q, 'h, 'm) tbb \<Rightarrow> 'g tpcc_env \<Rightarrow> (tpcc_event \<times> bool) list \<Rightarrow> nat \<Rightarrow> ('q, 'h, 'm) storage_manager \<Rightarrow> 'g \<Rightarrow>
   ((('q, 'h, 'm) storage_manager \<times> nat \<times> (tpcc_event \<times> bool) list) \<times> 'g) result \<Rightarrow> bool" for T E where
  tbs_wait:
    "tpcc_collect queue tpcc_empty_batch 0 = Inl e \<Longrightarrow> tpcc_batch_start T E queue n sm g (Inl e)"
| tbs_error:
    "tpcc_collect queue tpcc_empty_batch 0 = Inr (b, stop, cnt, rest) \<Longrightarrow>
     tpcc_processBatch T E b sm g (Inl e) \<Longrightarrow> tpcc_batch_start T E queue n sm g (Inl e)"
| tbs_stop:
    "tpcc_collect queue tpcc_empty_batch 0 = Inr (b, True, cnt, rest) \<Longrightarrow>
     tpcc_processBatch T E b sm g (Inr (sm', g')) \<Longrightarrow>
     tpcc_batch_start T E queue n sm g (Inr ((sm', n + cnt, rest), g'))"
| tbs_next:
    "tpcc_collect queue tpcc_empty_batch 0 = Inr (b, False, cnt, rest) \<Longrightarrow>
     tpcc_processBatch T E b sm g (Inr (sm', g')) \<Longrightarrow>
     tpcc_batch_start T E rest (n + cnt) sm' g' r \<Longrightarrow> tpcc_batch_start T E queue n sm g r"

end
