(* ===== verification/TpccMain.thy ===== *)
theory TpccMain
  imports TpccSource TpccBatch
begin

text \<open>
  benchmark/tpcc/TpccMain.cc: the TPC-C benchmark as a whole. The transactions the source draws are valid on the
  database the populator loads, so the processor meets no error.
\<close>

section \<open>The drawn transactions are valid\<close>

lemma set_all_districts: "set all_districts = upto_int DISTRICTS_PER_WAREHOUSE"
  using set_ints_to [of DISTRICTS_PER_WAREHOUSE] by (simp add: all_districts_def ints_to_def upto_int_def)

lemma dist_column_range:
  assumes "nop_d_id p \<in> upto_int DISTRICTS_PER_WAREHOUSE"
  shows "3 \<le> dist_column p" "dist_column p < 13"
proof -
  let ?d = "nop_d_id p"
  have d: "1 \<le> sint ?d" "sint ?d \<le> 10" using assms by (simp_all add: upto_int_def DISTRICTS_PER_WAREHOUSE_def)
  have "sint (word_of_int (sint ?d + 2) :: 32 word) = sint ?d + 2"
    using d by (simp add: signed_of_int signed_take_bit_int_eq_self del: of_int_add)
  then have s: "sint (?d + 2) = sint ?d + 2" by simp
  have "(scast (?d + 2) :: 64 word) = word_of_int (sint ?d + 2)" unfolding s [symmetric] by (rule scast_eq)
  moreover have "uint (word_of_int (sint ?d + 2) :: 64 word) = sint ?d + 2"
    using d by (simp add: unsigned_of_int take_bit_int_eq_self del: of_int_add)
  ultimately have "uint (scast (?d + 2) :: 64 word) = sint ?d + 2" by (simp only:)
  then have "int (dist_column p) = sint ?d + 2" by (simp add: dist_column_def)
  then show "3 \<le> dist_column p" "dist_column p < 13" using d by linarith+
qed

lemma within_valid:
  assumes l: "loaded T E old nxt (all_keys old P) sm" and P: "num_districts_per_warehouse P = DISTRICTS_PER_WAREHOUSE"
    and e: "event_within P e"
  shows "event_valid e (db_abs T sm)" "quantities_ok e" "e \<noteq> ENDEXECUTION"
proof -
  note v = loaded_views [OF l]
  show "quantities_ok e" using e by (cases e) (auto simp: upto_int_10)
  show "e \<noteq> ENDEXECUTION" using e by auto
  show "event_valid e (db_abs T sm)"
  proof (cases e)
    case (DELIVERY p)
    then show ?thesis using e P by (simp add: delivery_valid_def v(1) set_all_districts del: not_None_eq)
  next
    case (NEW_ORDER p)
    then have w: "nop_w_id p \<in> upto_int (num_warehouses P)" "nop_d_id p \<in> upto_int (num_districts_per_warehouse P)"
      "nop_c_id p \<in> upto_int (num_customers_per_district P)" "5 \<le> length (nop_i_ids p)" "length (nop_i_ids p) \<le> 15"
      "length (nop_i_w_ids p) = length (nop_i_ids p)" "length (nop_i_qtys p) = length (nop_i_ids p)"
      "set (nop_i_ids p) \<subseteq> upto_int (num_items P)" "set (nop_i_w_ids p) \<subseteq> upto_int (num_warehouses P)"
      using e by simp_all
    note dc = dist_column_range [OF w(2) [unfolded P]]
    have line: "stock_ready p i (db_tab (db_abs T sm) STOCK_TABLE_ID) \<and>
        db_tab (db_abs T sm) ITEM_TABLE_ID (wkey [nop_i_ids p ! i]) \<noteq> None" if i: "i < order_length p" for i
    proof -
      have mem: "nop_i_ids p ! i \<in> upto_int (num_items P)" "nop_i_w_ids p ! i \<in> upto_int (num_warehouses P)"
        using i w(6,8,9) by (auto simp: order_length_def subset_iff)
      then obtain row where row: "db_tab (db_abs T sm) STOCK_TABLE_ID (stock_key p i) = Some row"
        using v(8) [of "nop_i_ids p ! i" "nop_i_w_ids p ! i"] by auto
      have "0 \<in> set (col_data stock_schema (dist_column p) row)" by (rule loaded_stock(2) [OF l row dc])
      then have "stock_ready p i (db_tab (db_abs T sm) STOCK_TABLE_ID)" using row unfolding stock_ready_def by simp
      then show ?thesis using v(6) [of "nop_i_ids p ! i"] mem(1) by blast
    qed
    have "lists_agree p" using w(6,7) dc by (simp add: lists_agree_def)
    moreover have "0 < order_length p \<and> order_length p < 2 ^ 32" using w(4,5) by (auto simp: order_length_def)
    moreover have "district_at (nop_w_id p) (nop_d_id p) (db_abs T sm) \<noteq> None" unfolding v(1) using w(1,2) by simp
    moreover have "customer_at (nop_w_id p) (nop_d_id p) (nop_c_id p) (db_abs T sm) \<noteq> None" unfolding v(3) using w(1-3) by simp
    ultimately show ?thesis using line NEW_ORDER by (simp add: order_valid_def del: not_None_eq)
  next
    case (PAYMENT p)
    then have w: "pay_w_id p \<in> upto_int (num_warehouses P)" "pay_d_id p \<in> upto_int (num_districts_per_warehouse P)"
      "pay_c_id p \<in> upto_int (num_customers_per_district P)" using e by simp_all
    have "db_tab (db_abs T sm) WAREHOUSE_TABLE_ID (wkey [pay_w_id p]) \<noteq> None" unfolding v(7) by (rule w(1))
    moreover have "db_tab (db_abs T sm) DISTRICT_TABLE_ID (wkey [pay_d_id p, pay_w_id p]) \<noteq> None"
      using v(1) [of "pay_w_id p" "pay_d_id p"] w by (simp add: district_at_def del: not_None_eq)
    moreover have "db_tab (db_abs T sm) CUSTOMER_TABLE_ID (wkey [pay_c_id p, pay_d_id p, pay_w_id p]) \<noteq> None"
      using v(3) [of "pay_w_id p" "pay_d_id p" "pay_c_id p"] w by (simp add: customer_at_def del: not_None_eq)
    ultimately show ?thesis using PAYMENT by (simp add: payment_ready_def del: not_None_eq)
  qed (use e in simp_all)
qed

section \<open>The program\<close>

definition TPCC_TRANSACTIONS :: nat where
  "TPCC_TRANSACTIONS = 2000000"

definition TPCC_QUEUE_CAPACITY :: nat where
  "TPCC_QUEUE_CAPACITY = 2000001"

text \<open>The arguments are the numbers \<open>atoi\<close> reads, converted to \<open>size_t\<close>; the batch time only sets the period of
  a timer.\<close>

definition tpcc_config :: "(nat \<Rightarrow> byte) \<Rightarrow> int \<Rightarrow> int \<Rightarrow> bench_config" where
  "tpcc_config memory parallelism partition_num =
     \<lparr>kParallelism = unat (word_of_int parallelism :: 64 word),
      kPartitionCnt = unat (word_of_int partition_num :: 64 word),
      kPartition = (partition_num \<noteq> 1), uninit = memory\<rparr>"

definition tpcc_prepare ::
  "('q, 'h, 'm) tbb \<Rightarrow> 'g tpcc_env \<Rightarrow> tpcc_consts \<Rightarrow> nat \<Rightarrow> nat \<Rightarrow> ('g, ('q, 'h, 'm) storage_manager \<times> tpcc_event list) gen" where
  "tpcc_prepare T E C capacity num_transactions =
     gbnd (TpccPopulator_start T E C StorageManager_new) (\<lambda>sm.
     gbnd (TpccSource_start E C capacity num_transactions []) (\<lambda>q. gret (sm, q)))"

text \<open>The constants of \<open>generateNonuniformInteger\<close> are drawn before \<open>main\<close>, from the state \<open>g\<close> of \<open>rand\<close>; \<open>srand\<close> then
  sets the state to \<open>seeded\<close>.\<close>

definition tpcc_populate ::
  "('q, 'h, 'm) tbb \<Rightarrow> 'g tpcc_env \<Rightarrow> 'g \<Rightarrow> 'g \<Rightarrow> ((('q, 'h, 'm) storage_manager \<times> tpcc_event list) \<times> 'g) result" where
  "tpcc_populate T E g seeded =
     bnd (draw_consts (env_lib E) g) (\<lambda>(C, _). tpcc_prepare T E C TPCC_QUEUE_CAPACITY TPCC_TRANSACTIONS seeded)"

text \<open>The outcome of a run: the database and the number of transactions. The batch processors read a timer with
  every transaction (\<open>map fst q' = q\<close>) and schedule threads, so they have many runs.\<close>

inductive tpcc_main ::
  "('q, 'h, 'm) tbb \<Rightarrow> 'g tpcc_env \<Rightarrow> 'g \<Rightarrow> 'g \<Rightarrow> int \<Rightarrow> (('q, 'h, 'm) storage_manager \<times> nat) result \<Rightarrow> bool" for T E g seeded where
  tpcc_main_error:
    "tpcc_populate T E g seeded = Inl e \<Longrightarrow> tpcc_main T E g seeded processor_no (Inl e)"
| tpcc_main_serial:
    "tpcc_populate T E g seeded = Inr ((sm, q), g') \<Longrightarrow> processor_no = 0 \<Longrightarrow>
     tpcc_main T E g seeded processor_no (bnd (tpcc_serial_start T E q 0 sm g') (\<lambda>((sm, txn_cnt, _), _). Inr (sm, txn_cnt)))"
| tpcc_main_batch:
    "tpcc_populate T E g seeded = Inr ((sm, q), g') \<Longrightarrow> processor_no \<noteq> 0 \<Longrightarrow> map fst q' = q \<Longrightarrow>
     tpcc_batch_start T E q' 0 sm g' r \<Longrightarrow>
     tpcc_main T E g seeded processor_no (bnd r (\<lambda>((sm, txn_cnt, _), _). Inr (sm, txn_cnt)))"

section \<open>A run\<close>

text \<open>The sizes for which populator, source and processor work together, and \<open>k\<close> transactions can be executed.\<close>

definition bench_ok :: "tpcc_scale \<Rightarrow> nat \<Rightarrow> bool" where
  "bench_ok P k \<longleftrightarrow> source_ok P \<and> orders_ok P \<and> sint (num_customers_per_district P) + 1 + int k < 2 ^ 31"

lemma bench_okD:
  assumes "bench_ok P k"
  shows "source_ok P" "orders_ok P" "scale_ok P" "sint (num_customers_per_district P) + 1 + int k < 2 ^ 31"
    "num_districts_per_warehouse P = DISTRICTS_PER_WAREHOUSE"
  using assms by (auto simp: bench_ok_def source_ok_def scale_ok_def DISTRICTS_PER_WAREHOUSE_def)

text \<open>What populator and source hand to a processor.\<close>

lemma tpcc_prepare_returns:
  assumes laws: "tbb_laws T" and ok: "draws_ok E C" and parts: "parts_ok E" and P: "bench_ok (env_scale E) k" and cap: "k < capacity"
  shows "gen_returns (tpcc_prepare T E C capacity k) (\<lambda>(sm, q). \<exists>es. q = es @ [ENDEXECUTION] \<and> length es = k \<and>
    tpcc_ok T E k sm \<and> stock_within (db_abs T sm) \<and> (\<forall>e \<in> set es. event_valid e (db_abs T sm) \<and> quantities_ok e))"
proof -
  note P' = bench_okD [OF P]
  show ?thesis
    unfolding tpcc_prepare_def
  proof (rule gbnd_returns [OF TpccPopulator_start_loads [OF laws ok parts P'(3)]], rule gbnd_returns [OF TpccSource_start_returns [OF ok P'(1) cap]])
    fix sm q
    assume l: "loaded T E (first_new (env_scale E)) (num_customers_per_district (env_scale E) + 1)
        (all_keys (first_new (env_scale E)) (env_scale E)) sm"
      and "\<exists>es. q = es @ [ENDEXECUTION] \<and> length es = k \<and> (\<forall>e \<in> set es. event_within (env_scale E) e)"
    then obtain es where es: "q = es @ [ENDEXECUTION]" "length es = k" "\<forall>e \<in> set es. event_within (env_scale E) e" by blast
    have "tpcc_ok T E k sm"
      using loadedD(1) [OF l] loaded_consistent [OF l P'(3,2)] loaded_room [OF l P'(3,4)] by (simp add: tpcc_ok_def)
    moreover have "\<forall>e \<in> set es. event_valid e (db_abs T sm) \<and> quantities_ok e"
      using es(3) within_valid [OF l P'(5)] by blast
    ultimately show "gen_returns (gret (sm, q)) (\<lambda>(sm, q). \<exists>es. q = es @ [ENDEXECUTION] \<and> length es = k \<and>
        tpcc_ok T E k sm \<and> stock_within (db_abs T sm) \<and> (\<forall>e \<in> set es. event_valid e (db_abs T sm) \<and> quantities_ok e))"
      using es(1,2) loaded_stock(1) [OF l] by (intro gret_returns) auto
  qed
qed

lemma tpcc_config_partitions:
  assumes "1 \<le> partition_num" "partition_num \<le> 100" "env_cfg E = tpcc_config memory parallelism partition_num"
  shows "parts_ok E"
proof -
  have "unat (word_of_int partition_num :: 64 word) = nat partition_num"
    using assms(1,2) by (simp add: unsigned_of_int take_bit_int_eq_self)
  then show ?thesis
    using assms by (simp add: parts_ok_def partitions_def tpcc_config_def TPCC_MAX_PARTITION_CNT_def nat_le_iff)
qed

lemma TpccScaleParams_10: "bench_ok (TpccScaleParams_unit 10) TPCC_TRANSACTIONS"
  by (simp add: bench_ok_def source_ok_def orders_ok_def TpccScaleParams_unit_def TPCC_TRANSACTIONS_def DISTRICTS_PER_WAREHOUSE_def)

end
