(* ===== verification/TpccEffects.thy ===== *)
theory TpccEffects
  imports TpccSerial
begin

text \<open>
  What the TPC-C transactions leave behind, row by row and column by column: the columns of the rows a new
  order, a delivery and a payment write, read from the maps the transactions refine to.
\<close>

section \<open>New order\<close>

lemma order_row_count:
  assumes "3 \<le> length (env_stack E)"
  shows "fld32 order_schema 6 (order_row E p o_id) = word_of_nat (length (nop_i_ids p))"
proof -
  note w = order_writable(1) [OF assms, of p o_id]
  have d: "distinct (map fst (order_writes E p o_id))" by (simp add: order_writes_def)
  have "col_data order_schema 6 (order_row E p o_id) = to_bytes (word_of_nat (length (nop_i_ids p)) :: 32 word)"
    unfolding order_row_def
    by (rule col_data_built [OF tpcc_schema_inv(6) w d, of "new_chars (env_cfg E) 36"]; simp add: order_writes_def)
  then show ?thesis by (simp add: fld32_def)
qed

lemma order_line_quantity:
  assumes "length s_dist \<le> 32"
  shows "fld32 order_line_schema 7 (order_line_row E p o_id s_dist amount i) = nop_i_qtys p ! i"
proof -
  note w = order_line_writable [OF assms, of p o_id amount i]
  have d: "distinct (map fst (order_line_writes p o_id s_dist amount i))" by (simp add: order_line_writes_def)
  have "col_data order_line_schema 7 (order_line_row E p o_id s_dist amount i) = to_bytes (nop_i_qtys p ! i)"
    unfolding order_line_row_def
    by (rule col_data_built [OF tpcc_schema_inv(8) w d, of "new_chars (env_cfg E) 76"]; simp add: order_line_writes_def)
  then show ?thesis by (simp add: fld32_def)
qed

text \<open>The lines that order the item with a stock key.\<close>

definition lines_for :: "new_order_param \<Rightarrow> nat \<Rightarrow> bytes \<Rightarrow> nat list" where
  "lines_for p n key = filter (\<lambda>i. stock_key p i = key) [0..<n]"

lemma stocks_ordered:
  assumes "\<And>k row. db_tab db STOCK_TABLE_ID k = Some row \<Longrightarrow> length row = 408"
  shows "map_option (fld32 stock_schema 13) (db_tab (a_stocks p n db) STOCK_TABLE_ID key) =
      map_option (\<lambda>row. fld32 stock_schema 13 row + (\<Sum>i\<leftarrow>lines_for p n key. nop_i_qtys p ! i)) (db_tab db STOCK_TABLE_ID key)"
    and "map_option (fld32 stock_schema 14) (db_tab (a_stocks p n db) STOCK_TABLE_ID key) =
      map_option (\<lambda>row. fld32 stock_schema 14 row + word_of_nat (length (lines_for p n key))) (db_tab db STOCK_TABLE_ID key)"
proof -
  have "map_option (fld32 stock_schema 13) (db_tab (a_stocks p n db) STOCK_TABLE_ID key) =
      map_option (\<lambda>row. fld32 stock_schema 13 row + (\<Sum>i\<leftarrow>lines_for p n key. nop_i_qtys p ! i)) (db_tab db STOCK_TABLE_ID key) \<and>
    map_option (fld32 stock_schema 14) (db_tab (a_stocks p n db) STOCK_TABLE_ID key) =
      map_option (\<lambda>row. fld32 stock_schema 14 row + word_of_nat (length (lines_for p n key))) (db_tab db STOCK_TABLE_ID key)"
  proof (induction n)
    case 0
    then show ?case by (simp add: lines_for_def)
  next
    case (Suc n)
    have len: "length row = 408" if "db_tab (a_stocks p n db) STOCK_TABLE_ID k = Some row" for k row
      by (rule stocks_kept(1) [OF _ that]) (rule assms)
    show ?case
    proof (cases "stock_key p n = key \<and> db_tab (a_stocks p n db) STOCK_TABLE_ID key \<noteq> None")
      case True
      then obtain row where row: "db_tab (a_stocks p n db) STOCK_TABLE_ID key = Some row" by auto
      have "db_tab (a_stocks p (Suc n) db) STOCK_TABLE_ID key =
          Some (stock_ordered (nop_w_id p) (nop_i_w_ids p ! n) (nop_i_qtys p ! n) row)"
        using True row by (simp add: a_stock_def)
      moreover have "lines_for p (Suc n) key = lines_for p n key @ [n]" using True by (simp add: lines_for_def)
      ultimately show ?thesis
        using Suc row stock_ordered_cols(3,4) [OF len [OF row]]
        by (cases "db_tab db STOCK_TABLE_ID key") (simp_all add: algebra_simps)
    next
      case False
      have "db_tab (a_stocks p (Suc n) db) STOCK_TABLE_ID key = db_tab (a_stocks p n db) STOCK_TABLE_ID key"
        using False by (auto simp: a_stock_def)
      moreover have "lines_for p (Suc n) key = lines_for p n key" if "stock_key p n \<noteq> key"
        using that by (simp add: lines_for_def)
      ultimately show ?thesis using Suc False by (cases "db_tab (a_stocks p n db) STOCK_TABLE_ID key") auto
    qed
  qed
  then show "map_option (fld32 stock_schema 13) (db_tab (a_stocks p n db) STOCK_TABLE_ID key) =
      map_option (\<lambda>row. fld32 stock_schema 13 row + (\<Sum>i\<leftarrow>lines_for p n key. nop_i_qtys p ! i)) (db_tab db STOCK_TABLE_ID key)"
    and "map_option (fld32 stock_schema 14) (db_tab (a_stocks p n db) STOCK_TABLE_ID key) =
      map_option (\<lambda>row. fld32 stock_schema 14 row + word_of_nat (length (lines_for p n key))) (db_tab db STOCK_TABLE_ID key)"
    by blast+
qed

lemma a_lines_at:
  assumes "i < n" "n \<le> m" "m < 2 ^ 32"
  shows "db_tab (a_lines E p o_id ds am n db) (line_table E p) (line_key p o_id i) =
    Some (order_line_row E p o_id (ds ! i) (am ! i) i)"
  using assms(1,2)
proof (induction n)
  case (Suc n)
  show ?case
  proof (cases "i = n")
    case False
    then have "line_key p o_id i \<noteq> line_key p o_id n"
      using line_key_inj [of i "Suc m" n p o_id] Suc.prems assms(3) line_key_inj [of i m n p o_id] by auto
    then show ?thesis using Suc False by (simp add: a_line_def)
  qed (simp add: a_line_def)
qed simp

text \<open>What a new order leaves: the number, the order, the new order, the lines and the stock.\<close>

lemma new_order_leaves:
  fixes E :: "'g tpcc_env"
  assumes parts: "parts_ok E" and wf: "tpcc_wf E db" and stack: "3 \<le> length (env_stack E)"
    and con: "consistent E db" and valid: "order_valid p db"
    and drow: "district_at (nop_w_id p) (nop_d_id p) db = Some drow"
  defines "db' \<equiv> a_new_order E p db" and "w \<equiv> nop_w_id p" and "d \<equiv> nop_d_id p" and "o_id \<equiv> next_o_id drow"
  shows "map_option next_o_id (district_at w d db') = Some (o_id + 1)"
    "\<exists>row. order_at E w d o_id db' = Some row \<and> customer_of row = nop_c_id p \<and>
       fld32 order_schema 6 row = word_of_nat (length (nop_i_ids p))"
    "new_at E w d o_id db' \<noteq> None"
    "i < length (nop_i_ids p) \<Longrightarrow> \<exists>row irow. line_at E w d o_id (word_of_nat (i + 1)) db' = Some row \<and>
       db_tab db ITEM_TABLE_ID (wkey [nop_i_ids p ! i]) = Some irow \<and>
       fld32 order_line_schema 4 row = nop_i_ids p ! i \<and> fld32 order_line_schema 7 row = nop_i_qtys p ! i \<and>
       fld64 order_line_schema 8 row =
         d_mul (env_dbl E) (d_of_int (env_dbl E) (sint (nop_i_qtys p ! i))) (fld64 item_schema 3 irow)"
    "map_option (fld32 stock_schema 13) (db_tab db' STOCK_TABLE_ID key) =
       map_option (\<lambda>row. fld32 stock_schema 13 row + (\<Sum>i\<leftarrow>lines_for p (length (nop_i_ids p)) key. nop_i_qtys p ! i))
         (db_tab db STOCK_TABLE_ID key)"
    "map_option (fld32 stock_schema 14) (db_tab db' STOCK_TABLE_ID key) =
       map_option (\<lambda>row. fld32 stock_schema 14 row + word_of_nat (length (lines_for p (length (nop_i_ids p)) key)))
         (db_tab db STOCK_TABLE_ID key)"
proof -
  have ids: "district_part E w d < TPCC_MAX_PARTITION_CNT" for w d by (rule parts_okD [OF parts])
  note ids' = part_tables [OF ids ids] line_table_def
  note v = new_order_views [OF parts drow]
  let ?n = "order_length p" and ?part = "district_part E w d"
  let ?ds = "dist_infos p (db_tab db STOCK_TABLE_ID) ?n" and ?am = "map (line_amount (env_dbl E) p (db_tab db ITEM_TABLE_ID)) [0..<?n]"
  have n: "?n = length (nop_i_ids p)" by (simp add: order_length_def)
  have o: "next_o_id (the (db_tab db DISTRICT_TABLE_ID (district_key p))) = o_id"
    using drow by (simp add: district_at_def o_id_def)
  define db0 where "db0 = a_put (NEW_ORDER_TABLE_ID + ?part) (order_key p o_id) (new_order_row E p o_id)
      (a_put (ORDER_TABLE_ID + ?part) (order_key p o_id) (order_row E p o_id)
        (a_modify DISTRICT_TABLE_ID (district_key p) district_advanced db))"
  have db': "db' = a_lines E p o_id ?ds ?am ?n (a_stocks p ?n db0)"
    by (simp add: db'_def a_new_order_def Let_def o db0_def w_def d_def)
  have "length drow = 151" using wf drow tpcc_registry_simps(3) unfolding tpcc_wf_def district_at_def by fastforce
  then show "map_option next_o_id (district_at w d db') = Some (o_id + 1)"
    unfolding db'_def v(1) by (simp add: w_def d_def o_id_def next_o_id_advanced)
  have "order_at E w d o_id db' = Some (order_row E p o_id)" "new_at E w d o_id db' = Some (new_order_row E p o_id)"
    unfolding db'_def v(4,5) by (simp_all add: w_def d_def o_id_def)
  then show "\<exists>row. order_at E w d o_id db' = Some row \<and> customer_of row = nop_c_id p \<and>
      fld32 order_schema 6 row = word_of_nat (length (nop_i_ids p))" "new_at E w d o_id db' \<noteq> None"
    using order_cols [OF stack, of p o_id] order_row_count [OF stack, of p o_id] by (simp_all add: customer_of_def fld32_def)
  have stock0: "db_tab db0 STOCK_TABLE_ID = db_tab db STOCK_TABLE_ID" by (simp add: db0_def ids')
  have stock: "db_tab db' STOCK_TABLE_ID = db_tab (a_stocks p ?n db0) STOCK_TABLE_ID"
    unfolding db' by (rule a_lines_other) (simp add: ids')
  have len: "length row = 408" if "db_tab db0 STOCK_TABLE_ID k = Some row" for k row
    using wf that tpcc_registry_simps(6) unfolding stock0 tpcc_wf_def by fastforce
  show "map_option (fld32 stock_schema 13) (db_tab db' STOCK_TABLE_ID key) =
       map_option (\<lambda>row. fld32 stock_schema 13 row + (\<Sum>i\<leftarrow>lines_for p (length (nop_i_ids p)) key. nop_i_qtys p ! i))
         (db_tab db STOCK_TABLE_ID key)"
    "map_option (fld32 stock_schema 14) (db_tab db' STOCK_TABLE_ID key) =
       map_option (\<lambda>row. fld32 stock_schema 14 row + word_of_nat (length (lines_for p (length (nop_i_ids p)) key)))
         (db_tab db STOCK_TABLE_ID key)"
    unfolding stock n stock0 [symmetric] by (rule stocks_ordered; erule len)+
  assume i: "i < length (nop_i_ids p)"
  have ok: "stock_ready p i (db_tab db STOCK_TABLE_ID)" "db_tab db ITEM_TABLE_ID (wkey [nop_i_ids p ! i]) \<noteq> None"
    "?n < 2 ^ 32" "lists_agree p"
    using valid i n by (auto simp: order_valid_def)
  obtain irow where irow: "db_tab db ITEM_TABLE_ID (wkey [nop_i_ids p ! i]) = Some irow" using ok(2) by auto
  obtain srow where srow: "db_tab db STOCK_TABLE_ID (stock_key p i) = Some srow"
    using ok(1) by (auto simp: stock_ready_def split: option.splits)
  have "length srow = 408" using wf srow tpcc_registry_simps(6) unfolding tpcc_wf_def by fastforce
  then have dlen: "length (?ds ! i) \<le> 32"
    using dist_info_length [of srow p] ok(4) srow i n by (simp add: dist_infos_def del: upt_Suc)
  let ?row = "order_line_row E p o_id (?ds ! i) (?am ! i) i"
  have "line_at E w d o_id (word_of_nat (i + 1)) db' = Some ?row"
    using a_lines_at [of i ?n ?n E p o_id ?ds ?am "a_stocks p ?n db0"] i n ok(3)
    unfolding db' by (simp add: line_at_def line_table_def line_key_def w_def d_def)
  moreover have "?am ! i = d_mul (env_dbl E) (d_of_int (env_dbl E) (sint (nop_i_qtys p ! i))) (fld64 item_schema 3 irow)"
    using i n irow by (simp add: line_amount_def del: upt_Suc)
  ultimately show "\<exists>row irow. line_at E w d o_id (word_of_nat (i + 1)) db' = Some row \<and>
       db_tab db ITEM_TABLE_ID (wkey [nop_i_ids p ! i]) = Some irow \<and>
       fld32 order_line_schema 4 row = nop_i_ids p ! i \<and> fld32 order_line_schema 7 row = nop_i_qtys p ! i \<and>
       fld64 order_line_schema 8 row =
         d_mul (env_dbl E) (d_of_int (env_dbl E) (sint (nop_i_qtys p ! i))) (fld64 item_schema 3 irow)"
    using irow order_line_cols(5,6) [OF dlen, of E p o_id "?am ! i" i] order_line_quantity [OF dlen, of E p o_id "?am ! i" i] by auto
qed

section \<open>Delivery\<close>

lemma fold_untouched:
  assumes "\<And>d o_id db. d \<noteq> d0 \<Longrightarrow> view (f d o_id db) = view db" "d0 \<notin> fst ` set ys"
  shows "view (fold (\<lambda>(d, o_id). f d o_id) ys db) = view db"
  using assms(2) by (induction ys arbitrary: db) (auto simp: assms(1))

text \<open>A fold over the districts changes what one district shows once.\<close>

lemma fold_once:
  assumes others: "\<And>d o_id db. d \<noteq> d0 \<Longrightarrow> view (f d o_id db) = view db"
    and xs: "distinct (map fst xs)" "(d0, o0) \<in> set xs" and step: "\<And>db. view (f d0 o0 db) = g (view db)"
  shows "view (fold (\<lambda>(d, o_id). f d o_id) xs db) = g (view db)"
proof -
  obtain ys zs where split: "xs = ys @ (d0, o0) # zs" using split_list [OF xs(2)] by blast
  then have new: "d0 \<notin> fst ` set ys" "d0 \<notin> fst ` set zs" using xs(1) by auto
  show ?thesis
    unfolding split
    using fold_untouched [of d0 view f, OF others new(2)] fold_untouched [of d0 view f, OF others new(1)] step by simp
qed

lemma deliver_lines_keep:
  assumes "lines_wf E w db"
  shows "lines_wf E w (a_deliver_lines E p d o_id db)"
  unfolding lines_wf_def
proof (intro allI impI)
  fix d' k row assume at: "db_tab (a_deliver_lines E p d o_id db) (ORDER_LINE_TABLE_ID + district_part E w d') k = Some row"
  then obtain r0 where r0: "db_tab db (ORDER_LINE_TABLE_ID + district_part E w d') k = Some r0"
      "row = r0 \<or> row = line_delivered (del_ol_delivery_d p) r0"
    unfolding a_deliver_lines_def by (auto split: if_splits)
  then have "length r0 = 76" using assms unfolding lines_wf_def by blast
  then show "length row = 76" using r0(2) line_delivered_cols(1) by auto
qed

lemma delivery_leaves:
  fixes E :: "'g tpcc_env" and p :: delivery_param and amount :: "32 word \<Rightarrow> 64 word"
  assumes parts: "parts_ok E" and wf: "tpcc_wf E db" and ok: "order_ok E"
    and d: "d \<in> set all_districts" and due: "to_deliver E (del_w_id p) db d = Some o_id"
    and row: "order_at E (del_w_id p) d o_id db = Some row"
  defines "db' \<equiv> a_delivery E p (delivered_ids E p db) amount db" and "w \<equiv> del_w_id p"
  shows "new_at E w d o_id db' = None"
    "map_option oldest (dno_at w d db') = Some (o_id + 1)"
    "map_option (fld32 order_schema 5) (order_at E w d o_id db') = Some (del_o_carrier_id p)"
    "(k, r) \<in> order_lines E w d o_id db' \<Longrightarrow> fld64 order_line_schema 6 r = del_ol_delivery_d p"
    "map_option (fld64 customer_schema 16) (customer_at w d (customer_of row) db') =
       map_option (\<lambda>r. d_add (env_dbl E) (fld64 customer_schema 16 r) (amount d)) (customer_at w d (customer_of row) db)"
proof -
  have ids: "district_part E w d < TPCC_MAX_PARTITION_CNT" for w d by (rule parts_okD [OF parts])
  note ids' = part_tables [OF ids ids]
  let ?xs = "delivered_ids E p db"
  note xs = delivered_ids_set [OF ok, of p db]
  have mem: "(d, o_id) \<in> set ?xs" using xs(1) d due by simp
  note v = delivery_views(2,3) [OF parts wf, where p = p and ids = ?xs and amount = amount]
  show "new_at E w d o_id db' = None" unfolding db'_def w_def v(2) using d due by simp
  obtain nrow where nrow: "dno_at w d db = Some nrow" "oldest nrow = o_id"
    using due by (auto simp: to_deliver_def dno_at_def w_def split: option.splits if_splits)
  have "length nrow = 12" using wf nrow(1) tpcc_registry_simps(7) unfolding tpcc_wf_def dno_at_def by fastforce
  then show "map_option oldest (dno_at w d db') = Some (o_id + 1)"
    unfolding db'_def w_def v(1) using d due nrow by (simp add: w_def oldest_advanced_eq)
  define cust where "cust x = customer_of (the (order_at E (del_w_id p) (fst x) (snd x) db))" for x
  define db1 where "db1 = a_takes E w all_districts db"
  define db2 where "db2 = fold (\<lambda>(d, o_id). a_deliver_lines E p d o_id) ?xs db1"
  define db3 where "db3 = fold (\<lambda>(d, o_id). a_deliver_order E p d o_id) ?xs db2"
  have db': "db' = fold (\<lambda>(d, o_id). a_credit (env_dbl E) w d (cust (d, o_id)) (amount d)) ?xs db3"
    by (simp add: db'_def a_delivery_def Let_def db1_def db2_def db3_def w_def cust_def split_beta)
  have t1: "db_tab db1 i = db_tab db i" if "i \<noteq> DISTRICT_NEW_ORDER_TABLE_ID" "\<And>d. i \<noteq> NEW_ORDER_TABLE_ID + district_part E w d" for i
    unfolding db1_def by (rule a_takes_other [OF that])
  have t2: "db_tab db2 i = db_tab db1 i" if "\<And>d. i \<noteq> ORDER_LINE_TABLE_ID + district_part E w d" for i
    unfolding db2_def by (rule deliver_lines_other) (use that in \<open>simp add: w_def\<close>)
  have t3: "db_tab db3 i = db_tab db2 i" if "\<And>d. i \<noteq> ORDER_TABLE_ID + district_part E w d" for i
    unfolding db3_def by (rule deliver_order_other) (use that in \<open>simp add: w_def\<close>)
  have t4: "db_tab db' i = db_tab db3 i" if "i \<noteq> CUSTOMER_TABLE_ID" for i
    unfolding db' by (rule a_credit_other [OF that])
  have "order_at E w d o_id db3 = map_option (order_delivered (del_o_carrier_id p)) (order_at E w d o_id db2)"
    unfolding db3_def
    by (rule fold_once [OF _ xs(2) mem, of "order_at E w d o_id"]) (simp_all add: order_at_delivered w_def)
  moreover have "order_at E w d o_id db2 = Some row" using row by (simp add: order_at_def t1 t2 ids' w_def)
  moreover have "order_at E w d o_id db' = order_at E w d o_id db3" by (simp add: order_at_def t4 ids')
  moreover have "length row = 36" using tpcc_wf_lines(2) [OF parts wf] row by (auto simp: orders_wf_def)
  ultimately show "map_option (fld32 order_schema 5) (order_at E w d o_id db') = Some (del_o_carrier_id p)"
    by (simp add: order_delivered_cols)
  define cs where "cs = customer_at w d (customer_of row)"
  have c: "cust (d, o_id) = customer_of row" using row by (simp add: cust_def)
  have "cs db' = map_option (customer_credited (env_dbl E) (amount d)) (cs db3)"
    unfolding db'
    by (rule fold_once [OF _ xs(2) mem, of cs "\<lambda>d o_id. a_credit (env_dbl E) w d (cust (d, o_id)) (amount d)"])
      (simp_all add: cs_def customer_at_def a_credit_def c)
  moreover have "cs db3 = cs db" by (simp add: cs_def customer_at_def t1 t2 t3 ids')
  moreover have "fld64 customer_schema 16 (customer_credited (env_dbl E) a r) = d_add (env_dbl E) (fld64 customer_schema 16 r) a"
    if "cs db = Some r" for r a
  proof -
    have "length r = 767" using wf that tpcc_registry_simps(4) unfolding tpcc_wf_def cs_def customer_at_def by fastforce
    then show ?thesis using tpcc_schema_inv(4) by (simp add: customer_credited_def fld64_def col_data_row_with)
  qed
  ultimately show "map_option (fld64 customer_schema 16) (customer_at w d (customer_of row) db') =
       map_option (\<lambda>r. d_add (env_dbl E) (fld64 customer_schema 16 r) (amount d)) (customer_at w d (customer_of row) db)"
    unfolding cs_def by (cases "customer_at w d (customer_of row) db") simp_all
  show "fld64 order_line_schema 6 r = del_ol_delivery_d p" if kr: "(k, r) \<in> order_lines E w d o_id db'"
  proof -
    let ?t = "ORDER_LINE_TABLE_ID + district_part E w d"
    obtain ys zs where split: "?xs = ys @ (d, o_id) # zs" using split_list [OF mem] by blast
    then have new: "d \<notin> fst ` set ys" "d \<notin> fst ` set zs" using xs(2) by auto
    have lines1: "lines_wf E w db1" using tpcc_wf_lines(1) [OF parts wf, of w] by (simp add: lines_wf_def t1 ids')
    let ?f = "\<lambda>ys. fold (\<lambda>(d, o_id). a_deliver_lines E p d o_id) ys"
    have a: "lines_wf E w (?f ys db1)" using deliver_all_lines(2) [OF lines1 [unfolded w_def] new(1)] by (simp add: w_def)
    have b: "lines_wf E w (a_deliver_lines E p d o_id (?f ys db1))"
      by (rule deliver_lines_keep [OF a])
    have "order_lines E w d o_id db' = order_lines E w d o_id db2" by (simp add: order_lines_def t3 t4 ids')
    also have "db2 = ?f zs (a_deliver_lines E p d o_id (?f ys db1))" by (simp add: db2_def split)
    also have "order_lines E w d o_id \<dots> = order_lines E w d o_id (a_deliver_lines E p d o_id (?f ys db1))"
      using deliver_all_lines(1) [OF b [unfolded w_def] new(2)] by (simp add: w_def)
    finally have "(k, r) \<in> order_lines E w d o_id (a_deliver_lines E p d o_id (?f ys db1))" using kr by simp
    then have at: "db_tab (a_deliver_lines E p d o_id (?f ys db1)) ?t k = Some r" "of_order o_id d w r"
      by (simp_all add: order_lines_def)
    obtain r0 where r0: "db_tab (?f ys db1) ?t k = Some r0"
        "r = (if of_order o_id d w r0 then line_delivered (del_ol_delivery_d p) r0 else r0)"
      using at(1) by (auto simp: a_deliver_lines_def w_def)
    have len: "length r0 = 76" using a r0(1) by (auto simp: lines_wf_def)
    then show ?thesis using at(2) r0(2) line_delivered_cols(4) [OF len] by (auto split: if_splits)
  qed
qed

section \<open>Payment\<close>

lemma payment_leaves:
  fixes E :: "'g tpcc_env" and p :: payment_param and h_data :: bytes
  assumes wf: "tpcc_wf E db"
  defines "db' \<equiv> a_payment E p h_data db" and "D \<equiv> env_dbl E" and "a \<equiv> pay_h_amount p"
  shows "map_option (fld64 warehouse_schema 8) (db_tab db' WAREHOUSE_TABLE_ID (wkey [pay_w_id p])) =
      map_option (\<lambda>r. d_add D (fld64 warehouse_schema 8 r) a) (db_tab db WAREHOUSE_TABLE_ID (wkey [pay_w_id p]))"
    "map_option (fld64 district_schema 9) (district_at (pay_w_id p) (pay_d_id p) db') =
      map_option (\<lambda>r. d_add D (fld64 district_schema 9 r) a) (district_at (pay_w_id p) (pay_d_id p) db)"
    "map_option (\<lambda>r. (fld64 customer_schema 16 r, fld64 customer_schema 17 r, fld32 customer_schema 18 r))
        (customer_at (pay_w_id p) (pay_d_id p) (pay_c_id p) db') =
      map_option (\<lambda>r. (d_sub D (fld64 customer_schema 16 r) a, d_add D (fld64 customer_schema 17 r) a, fld32 customer_schema 18 r + 1))
        (customer_at (pay_w_id p) (pay_d_id p) (pay_c_id p) db)"
    "(w, d, c) \<noteq> (pay_w_id p, pay_d_id p, pay_c_id p) \<Longrightarrow> customer_at w d c db' = customer_at w d c db"
    "db_rows db' HISTORY_TABLE_ID = add_mset (history_row E p h_data) (db_rows db HISTORY_TABLE_ID)"
proof -
  have len: "length r = getSchemaSize s" if "tpcc_registry (env_cfg E) i = Some (s, True, smbs)" "db_tab db i k = Some r" for i s smbs k r
    using wf that unfolding tpcc_wf_def by blast
  have w: "fld64 warehouse_schema 8 (warehouse_paid D a r) = d_add D (fld64 warehouse_schema 8 r) a" if "length r = 143" for r
    using that tpcc_schema_inv(2) by (simp add: warehouse_paid_def fld64_def col_data_row_with)
  have d: "fld64 district_schema 9 (district_paid D a r) = d_add D (fld64 district_schema 9 r) a" if "length r = 151" for r
    using that tpcc_schema_inv(3) by (simp add: district_paid_def fld64_def col_data_row_with)
  have c: "fld64 customer_schema 16 (customer_paid D a r) = d_sub D (fld64 customer_schema 16 r) a"
      "fld64 customer_schema 17 (customer_paid D a r) = d_add D (fld64 customer_schema 17 r) a"
      "fld32 customer_schema 18 (customer_paid D a r) = fld32 customer_schema 18 r + 1" if "length r = 767" for r
    using that tpcc_schema_inv(4) by (simp_all add: customer_paid_def fld64_def fld32_def col_data_row_with length_row_with)
  note at = a_payment_def district_at_def customer_at_def db'_def
  show "map_option (fld64 warehouse_schema 8) (db_tab db' WAREHOUSE_TABLE_ID (wkey [pay_w_id p])) =
      map_option (\<lambda>r. d_add D (fld64 warehouse_schema 8 r) a) (db_tab db WAREHOUSE_TABLE_ID (wkey [pay_w_id p]))"
    using len [OF tpcc_registry_simps(2)] w
    by (cases "db_tab db WAREHOUSE_TABLE_ID (wkey [pay_w_id p])") (simp_all add: at D_def a_def)
  show "map_option (fld64 district_schema 9) (district_at (pay_w_id p) (pay_d_id p) db') =
      map_option (\<lambda>r. d_add D (fld64 district_schema 9 r) a) (district_at (pay_w_id p) (pay_d_id p) db)"
    using len [OF tpcc_registry_simps(3)] d
    by (cases "db_tab db DISTRICT_TABLE_ID (wkey [pay_d_id p, pay_w_id p])") (simp_all add: at D_def a_def)
  show "map_option (\<lambda>r. (fld64 customer_schema 16 r, fld64 customer_schema 17 r, fld32 customer_schema 18 r))
        (customer_at (pay_w_id p) (pay_d_id p) (pay_c_id p) db') =
      map_option (\<lambda>r. (d_sub D (fld64 customer_schema 16 r) a, d_add D (fld64 customer_schema 17 r) a, fld32 customer_schema 18 r + 1))
        (customer_at (pay_w_id p) (pay_d_id p) (pay_c_id p) db)"
    using len [OF tpcc_registry_simps(4)] c
    by (cases "db_tab db CUSTOMER_TABLE_ID (wkey [pay_c_id p, pay_d_id p, pay_w_id p])") (simp_all add: at D_def a_def)
  show "customer_at w d c db' = customer_at w d c db" if "(w, d, c) \<noteq> (pay_w_id p, pay_d_id p, pay_c_id p)" for w d c
    using that by (auto simp: at)
  show "db_rows db' HISTORY_TABLE_ID = add_mset (history_row E p h_data) (db_rows db HISTORY_TABLE_ID)"
    by (simp add: at)
qed

end
