(* ===== verification/TpccProperties.thy ===== *)
theory TpccProperties
  imports TpccMain TpccEffects
begin

text \<open>
  The properties of the TPC-C benchmark that rest on several of its parts, with a small run of populator and
  source on which they are applied: two warehouses, twenty items, thirty customers in each district.
\<close>

section \<open>A small run\<close>

definition small_scale :: tpcc_scale where
  "small_scale = \<lparr>num_warehouses = 2, starting_warehouse = 1, ending_warehouse = 2, num_items = 20,
     num_districts_per_warehouse = DISTRICTS_PER_WAREHOUSE, num_customers_per_district = 30, num_new_orders_per_district = 9\<rparr>"

definition tpcc_sample_env :: "nat tpcc_env" where
  "tpcc_sample_env = \<lparr>env_cfg = tpcc_config (\<lambda>_. 0) 4 8, env_scale = small_scale, env_dbl = decimal_dbl,
     env_lib = counter_rand, env_stack = [0, 0, 0], env_order = id\<rparr>"

definition sample_order :: new_order_param where
  "sample_order = \<lparr>nop_w_id = 1, nop_d_id = 1, nop_c_id = 1, nop_o_entry_d = 0, nop_i_ids = [1, 1, 2, 3, 4],
     nop_i_w_ids = [1, 1, 1, 2, 1], nop_i_qtys = [5, 5, 1, 2, 3]\<rparr>"

definition sample_payment :: payment_param where
  "sample_payment = \<lparr>pay_w_id = 1, pay_d_id = 1, pay_h_amount = 10, pay_c_w_id = 2, pay_c_d_id = 1, pay_c_id = 1, pay_h_date = 0\<rparr>"

definition tpcc_sample_consts :: tpcc_consts where
  "tpcc_sample_consts = \<lparr>cLast = 0, cId = 0, orderlineItemId = 0\<rparr>"

lemma tpcc_sample_facts:
  "parts_ok tpcc_sample_env" "env_ok tpcc_sample_env" "draws_ok tpcc_sample_env tpcc_sample_consts"
  "bench_ok small_scale 10" "env_scale tpcc_sample_env = small_scale"
proof -
  have "rand_laws counter_rand" using counter_rand_fair by (simp add: rand_fair_def)
  then show "env_ok tpcc_sample_env" by (simp add: env_ok_def order_ok_def tpcc_sample_env_def)
  show "draws_ok tpcc_sample_env tpcc_sample_consts"
    using counter_rand_fair decimal_dbl_laws by (simp add: draws_ok_def tpcc_sample_env_def tpcc_sample_consts_def consts_ok_def)
  show "parts_ok tpcc_sample_env"
    by (rule tpcc_config_partitions [of 8]) (simp_all add: tpcc_sample_env_def)
  show "bench_ok small_scale 10"
    by (simp add: bench_ok_def source_ok_def orders_ok_def small_scale_def DISTRICTS_PER_WAREHOUSE_def)
  show "env_scale tpcc_sample_env = small_scale" by (simp add: tpcc_sample_env_def)
qed

lemma tpcc_sample_run:
  obtains sm es g where "tpcc_prepare list_tbb tpcc_sample_env tpcc_sample_consts 11 10 0 = Inr ((sm, es @ [ENDEXECUTION]), g)"
    "length es = 10" "tpcc_ok list_tbb tpcc_sample_env 10 sm" "stock_within (db_abs list_tbb sm)"
    "\<forall>e \<in> set es. event_valid e (db_abs list_tbb sm) \<and> quantities_ok e"
proof -
  have "gen_returns (tpcc_prepare list_tbb tpcc_sample_env tpcc_sample_consts 11 10) (\<lambda>(sm, q). \<exists>es. q = es @ [ENDEXECUTION] \<and>
      length es = 10 \<and> tpcc_ok list_tbb tpcc_sample_env 10 sm \<and> stock_within (db_abs list_tbb sm) \<and>
      (\<forall>e \<in> set es. event_valid e (db_abs list_tbb sm) \<and> quantities_ok e))" (is "gen_returns _ ?P")
    by (rule tpcc_prepare_returns [OF list_tbb_laws tpcc_sample_facts(3,1)]) (simp_all add: tpcc_sample_facts(4,5))
  then obtain r g where r: "tpcc_prepare list_tbb tpcc_sample_env tpcc_sample_consts 11 10 0 = Inr (r, g)" "?P r"
    by (rule gen_returnsE)
  obtain sm q where q: "r = (sm, q)" by (cases r)
  obtain es where "q = es @ [ENDEXECUTION]" "length es = 10" "tpcc_ok list_tbb tpcc_sample_env 10 sm"
      "stock_within (db_abs list_tbb sm)" "\<forall>e \<in> set es. event_valid e (db_abs list_tbb sm) \<and> quantities_ok e"
    using r(2) unfolding q by auto
  then show thesis using that r(1) unfolding q by blast
qed

text \<open>The database the populator makes, with one of the new orders.\<close>

lemma tpcc_sample_loaded:
  obtains sm g nrow where "TpccPopulator_start list_tbb tpcc_sample_env tpcc_sample_consts StorageManager_new 0 = Inr (sm, g)"
    "tpcc_inv list_tbb tpcc_sample_env sm" "consistent tpcc_sample_env (db_abs list_tbb sm)"
    "\<forall>e. event_within small_scale e \<longrightarrow> event_valid e (db_abs list_tbb sm)"
    "dno_at 1 1 (db_abs list_tbb sm) = Some nrow" "new_at tpcc_sample_env 1 1 (oldest nrow) (db_abs list_tbb sm) \<noteq> None"
proof -
  let ?E = tpcc_sample_env and ?P = small_scale
  note P = bench_okD [OF tpcc_sample_facts(4)]
  have "gen_returns (TpccPopulator_start list_tbb ?E tpcc_sample_consts StorageManager_new)
      (loaded list_tbb ?E (first_new ?P) (num_customers_per_district ?P + 1) (all_keys (first_new ?P) ?P))"
    using TpccPopulator_start_loads [OF list_tbb_laws tpcc_sample_facts(3,1)] P(3) by (simp add: tpcc_sample_facts(5))
  then obtain sm g where s: "TpccPopulator_start list_tbb ?E tpcc_sample_consts StorageManager_new 0 = Inr (sm, g)"
      and l: "loaded list_tbb ?E (first_new ?P) (num_customers_per_district ?P + 1) (all_keys (first_new ?P) ?P) sm"
    by (rule gen_returnsE)
  have "(1 :: 32 word) \<in> upto_int (num_warehouses ?P)" "(1 :: 32 word) \<in> upto_int (num_districts_per_warehouse ?P)"
    by (simp_all add: small_scale_def upto_int_def DISTRICTS_PER_WAREHOUSE_def)
  then obtain drow where "district_at 1 1 (db_abs list_tbb sm) = Some drow"
    using loaded_views(1) [OF l, of 1 1] by auto
  from loaded_district(2) [OF l this] obtain nrow where n: "dno_at 1 1 (db_abs list_tbb sm) = Some nrow"
      "oldest nrow = first_new ?P" by blast
  have "new_at ?E 1 1 (first_new ?P) (db_abs list_tbb sm) \<noteq> None"
    unfolding loaded_views(5) [OF l]
    by (simp add: small_scale_def upto_int_def DISTRICTS_PER_WAREHOUSE_def first_new_def)
  then show thesis
    using that [OF s loadedD(1) [OF l] loaded_consistent [OF l P(3,2)] _ n(1)] within_valid(1) [OF l P(5)] n(2) by simp
qed

section \<open>The serial processor\<close>

lemma tpcc_serial_outcome:
  assumes "env_ok E" "tpcc_ok T E (length es) sm" "\<forall>e \<in> set es. event_valid e (db_abs T sm)"
  obtains sm' g' where "tpcc_serial_start T E (es @ [ENDEXECUTION]) 0 sm g = Inr ((sm', length es, []), g')"
    "tpcc_ok T E 0 sm'" "events_step E es (db_abs T sm) (db_abs T sm')"
    "stock_within (db_abs T sm) \<Longrightarrow> \<forall>e \<in> set es. quantities_ok e \<Longrightarrow> stock_within (db_abs T sm')"
proof -
  obtain r g' where r: "tpcc_serial_start T E (es @ [ENDEXECUTION]) 0 sm g = Inr (r, g')"
      "case r of (sm', n', queue) \<Rightarrow> n' = 0 + length es \<and> queue = [] \<and> tpcc_ok T E 0 sm' \<and>
        events_step E es (db_abs T sm) (db_abs T sm') \<and> same_static (db_abs T sm) (db_abs T sm') \<and>
        (stock_within (db_abs T sm) \<longrightarrow> (\<forall>e \<in> set es. quantities_ok e) \<longrightarrow> stock_within (db_abs T sm'))"
    using gen_returnsE [OF serial_run [OF assms, of "[]" 0], of g] .
  obtain sm' n q where "r = (sm', n, q)" by (cases r)
  then show thesis using that r by simp
qed

text \<open>C8: The serial processor of TPC-C executes every queue of valid transactions up to its end marker without an error,
  counts them, and changes the maps of the database as the transactions, one after the other, say: it refines the
  specification \<open>events_step\<close> on maps, and the database is consistent at the end.\<close>

theorem tpcc_serial_refines:
  assumes "env_ok E" "tpcc_inv T E sm" "consistent E (db_abs T sm)" "has_room (length es) (db_abs T sm)"
    and "\<forall>e \<in> set es. event_valid e (db_abs T sm)"
  shows "\<exists>sm' g'. tpcc_serial_start T E (es @ [ENDEXECUTION]) 0 sm g = Inr ((sm', length es, []), g') \<and>
    tpcc_inv T E sm' \<and> consistent E (db_abs T sm') \<and> events_step E es (db_abs T sm) (db_abs T sm')"
proof -
  have "tpcc_ok T E (length es) sm" using assms(2-4) by (simp add: tpcc_ok_def)
  then show ?thesis by (rule tpcc_serial_outcome [OF assms(1) _ assms(5)]) (auto simp: tpcc_ok_def)
qed

lemma tpcc_serial_refines_witness:
  "\<exists>sm es g sm' g'. tpcc_prepare list_tbb tpcc_sample_env tpcc_sample_consts 11 10 0 = Inr ((sm, es @ [ENDEXECUTION]), g) \<and>
    tpcc_serial_start list_tbb tpcc_sample_env (es @ [ENDEXECUTION]) 0 sm g = Inr ((sm', 10, []), g') \<and>
    events_step tpcc_sample_env es (db_abs list_tbb sm) (db_abs list_tbb sm')"
proof -
  obtain sm es g where s: "tpcc_prepare list_tbb tpcc_sample_env tpcc_sample_consts 11 10 0 = Inr ((sm, es @ [ENDEXECUTION]), g)"
    "length es = 10" "tpcc_ok list_tbb tpcc_sample_env 10 sm" "\<forall>e \<in> set es. event_valid e (db_abs list_tbb sm)"
    using tpcc_sample_run by metis
  then show ?thesis
    using tpcc_serial_refines [OF tpcc_sample_facts(2), of list_tbb sm es g] unfolding tpcc_ok_def by metis
qed

text \<open>C9: Every valid transaction succeeds and keeps the TPC-C database consistent: the orders of each district stay numbered
  from one without a gap, the new orders are the last ones, each order has its customer and a line; and no
  transaction uses up more than one number of a district. Valid means: a new order has at least one line, its
  three lists have one length, its district, its customer and the item and stock of every line exist; the
  warehouse, district and customer of a payment exist; a delivery finds its ten districts. (The code itself
  does not check all of this: a new order without lines or for an unknown customer runs and breaks the
  consistency.) The numbers of the districts must have room left, and three bytes behind the local flag of a
  new order be readable.\<close>

theorem tpcc_keeps_consistency:
  assumes "env_ok E" "tpcc_inv T E sm" "consistent E (db_abs T sm)" "has_room (Suc k) (db_abs T sm)"
    and "event_valid e (db_abs T sm)"
  shows "\<exists>sm' g'. tpcc_process T E e sm g = Inr (sm', g') \<and> tpcc_inv T E sm' \<and> consistent E (db_abs T sm') \<and>
    has_room k (db_abs T sm')"
proof -
  obtain sm' g' where s: "tpcc_process T E e sm g = Inr (sm', g')"
      "tpcc_inv T E sm' \<and> event_step E e (db_abs T sm) (db_abs T sm')"
    using gen_returnsE [OF tpcc_process_refines [OF assms(2,1,3,5)], of g] .
  then show ?thesis
    using event_step_keeps(1,2) [OF _ assms(5,1,3,4) tpcc_inv_parts [OF assms(2)] tpcc_inv_wf [OF assms(2)]] by blast
qed

lemma tpcc_keeps_consistency_witness:
  "\<exists>sm es g sm' g'. tpcc_prepare list_tbb tpcc_sample_env tpcc_sample_consts 11 10 0 = Inr ((sm, es @ [ENDEXECUTION]), g) \<and>
    tpcc_process list_tbb tpcc_sample_env (hd es) sm g = Inr (sm', g') \<and> consistent tpcc_sample_env (db_abs list_tbb sm')"
proof -
  obtain sm es g where s: "tpcc_prepare list_tbb tpcc_sample_env tpcc_sample_consts 11 10 0 = Inr ((sm, es @ [ENDEXECUTION]), g)"
    "length es = 10" "tpcc_ok list_tbb tpcc_sample_env 10 sm" "\<forall>e \<in> set es. event_valid e (db_abs list_tbb sm)"
    using tpcc_sample_run by metis
  have "hd es \<in> set es" using s(2) by (cases es) auto
  then have v: "event_valid (hd es) (db_abs list_tbb sm)" using s(4) by blast
  have ok: "tpcc_inv list_tbb tpcc_sample_env sm" "consistent tpcc_sample_env (db_abs list_tbb sm)"
    "has_room (Suc 9) (db_abs list_tbb sm)" using s(3) by (simp_all add: tpcc_ok_def)
  show ?thesis using tpcc_keeps_consistency [OF tpcc_sample_facts(2) ok v, of g] s(1) by blast
qed

text \<open>C23: The quantities in stock stay between 10 and 100 in every run of the serial processor, when the ordered quantities
  are between 1 and 10: taking 91 more when fewer than ten would be left never overshoots, and the arithmetic of
  \<open>int\<close> does not wrap around.\<close>

theorem tpcc_stock_stays_within:
  assumes "env_ok E" "tpcc_inv T E sm" "consistent E (db_abs T sm)" "has_room (length es) (db_abs T sm)"
    and "\<forall>e \<in> set es. event_valid e (db_abs T sm) \<and> quantities_ok e" "stock_within (db_abs T sm)"
    and "tpcc_serial_start T E (es @ [ENDEXECUTION]) 0 sm g = Inr ((sm', n, q), g')"
    and "db_tab (db_abs T sm') STOCK_TABLE_ID key = Some row"
  shows "10 \<le> sint (fld32 stock_schema 2 row) \<and> sint (fld32 stock_schema 2 row) \<le> 100"
proof -
  have ok: "tpcc_ok T E (length es) sm" and v: "\<forall>e \<in> set es. event_valid e (db_abs T sm)"
    and qs: "\<forall>e \<in> set es. quantities_ok e"
    using assms(2-5) by (simp_all add: tpcc_ok_def)
  have "stock_within (db_abs T sm')"
    by (rule tpcc_serial_outcome [OF assms(1) ok v, of g]) (use assms(6,7) qs in auto)
  then show ?thesis using assms(8) unfolding stock_within_def by blast
qed

lemma tpcc_stock_stays_within_witness:
  "\<exists>sm es g sm' g'. tpcc_prepare list_tbb tpcc_sample_env tpcc_sample_consts 11 10 0 = Inr ((sm, es @ [ENDEXECUTION]), g) \<and>
    tpcc_serial_start list_tbb tpcc_sample_env (es @ [ENDEXECUTION]) 0 sm g = Inr ((sm', 10, []), g') \<and>
    (\<forall>key row. db_tab (db_abs list_tbb sm') STOCK_TABLE_ID key = Some row \<longrightarrow> sint (fld32 stock_schema 2 row) \<le> 100)"
proof -
  obtain sm es g where s: "tpcc_prepare list_tbb tpcc_sample_env tpcc_sample_consts 11 10 0 = Inr ((sm, es @ [ENDEXECUTION]), g)"
    "length es = 10" "tpcc_ok list_tbb tpcc_sample_env 10 sm" "stock_within (db_abs list_tbb sm)"
    "\<forall>e \<in> set es. event_valid e (db_abs list_tbb sm) \<and> quantities_ok e"
    by (rule tpcc_sample_run)
  have ok: "tpcc_ok list_tbb tpcc_sample_env (length es) sm" and v: "\<forall>e \<in> set es. event_valid e (db_abs list_tbb sm)"
    using s(2,3,5) by simp_all
  have inv: "tpcc_inv list_tbb tpcc_sample_env sm" "consistent tpcc_sample_env (db_abs list_tbb sm)"
    "has_room (length es) (db_abs list_tbb sm)" using ok by (simp_all add: tpcc_ok_def)
  obtain sm' g' where run: "tpcc_serial_start list_tbb tpcc_sample_env (es @ [ENDEXECUTION]) 0 sm g = Inr ((sm', 10, []), g')"
    by (rule tpcc_serial_outcome [OF tpcc_sample_facts(2) ok v, of g]) (simp add: s(2))
  show ?thesis
    using tpcc_stock_stays_within [OF tpcc_sample_facts(2) inv s(5,4) run] s(1) run by blast
qed

section \<open>The transactions\<close>

text \<open>C10: A new order gets the next number of its district, which is advanced; the order is entered with its customer and
  the number of its lines, and as a new one; every line has its item, its quantity and as its amount the price of the
  item times the quantity; and for every item in stock the ordered quantities are added to its year-to-date
  count and the number of lines to its number of orders, also when several lines order the same item.\<close>

theorem new_order_effect:
  assumes "tpcc_inv T E sm" "3 \<le> length (env_stack E)" "consistent E (db_abs T sm)" "order_valid p (db_abs T sm)"
    and "district_at (nop_w_id p) (nop_d_id p) (db_abs T sm) = Some drow"
  shows "\<exists>sm'. processNewOrder T E p sm = Inr sm' \<and> tpcc_inv T E sm' \<and>
    map_option next_o_id (district_at (nop_w_id p) (nop_d_id p) (db_abs T sm')) = Some (next_o_id drow + 1) \<and>
    (\<exists>row. order_at E (nop_w_id p) (nop_d_id p) (next_o_id drow) (db_abs T sm') = Some row \<and>
       customer_of row = nop_c_id p \<and> fld32 order_schema 6 row = word_of_nat (length (nop_i_ids p))) \<and>
    new_at E (nop_w_id p) (nop_d_id p) (next_o_id drow) (db_abs T sm') \<noteq> None \<and>
    (\<forall>i < length (nop_i_ids p). \<exists>row irow.
       line_at E (nop_w_id p) (nop_d_id p) (next_o_id drow) (word_of_nat (i + 1)) (db_abs T sm') = Some row \<and>
       db_tab (db_abs T sm) ITEM_TABLE_ID (wkey [nop_i_ids p ! i]) = Some irow \<and>
       fld32 order_line_schema 4 row = nop_i_ids p ! i \<and> fld32 order_line_schema 7 row = nop_i_qtys p ! i \<and>
       fld64 order_line_schema 8 row =
         d_mul (env_dbl E) (d_of_int (env_dbl E) (sint (nop_i_qtys p ! i))) (fld64 item_schema 3 irow)) \<and>
    (\<forall>key. map_option (fld32 stock_schema 13) (db_tab (db_abs T sm') STOCK_TABLE_ID key) =
         map_option (\<lambda>row. fld32 stock_schema 13 row + (\<Sum>i\<leftarrow>lines_for p (length (nop_i_ids p)) key. nop_i_qtys p ! i))
           (db_tab (db_abs T sm) STOCK_TABLE_ID key) \<and>
       map_option (fld32 stock_schema 14) (db_tab (db_abs T sm') STOCK_TABLE_ID key) =
         map_option (\<lambda>row. fld32 stock_schema 14 row + word_of_nat (length (lines_for p (length (nop_i_ids p)) key)))
           (db_tab (db_abs T sm) STOCK_TABLE_ID key))"
proof -
  obtain sm' where sm': "processNewOrder T E p sm = Inr sm'" "becomes T (tpcc_registry (env_cfg E)) sm sm' (a_new_order E p)"
    using processNewOrder_does [OF assms(1,2) order_valid_ready [OF assms(3,4)]] unfolding does_def by blast
  have abs: "db_abs T sm' = a_new_order E p (db_abs T sm)" using sm'(2) by (simp add: becomes_def)
  note leaves = new_order_leaves [OF tpcc_inv_parts [OF assms(1)] tpcc_inv_wf [OF assms(1)] assms(2-5)]
  show ?thesis
    by (intro exI [of _ sm'] conjI allI impI; (rule sm'(1) tpcc_inv_becomes [OF assms(1) sm'(2)])?; (unfold abs)?;
        (rule leaves)?; assumption?)
qed

lemma new_order_effect_witness:
  "\<exists>sm g sm'. TpccPopulator_start list_tbb tpcc_sample_env tpcc_sample_consts StorageManager_new 0 = Inr (sm, g) \<and>
    processNewOrder list_tbb tpcc_sample_env sample_order sm = Inr sm' \<and>
    (\<forall>key. map_option (fld32 stock_schema 13) (db_tab (db_abs list_tbb sm') STOCK_TABLE_ID key) =
       map_option (\<lambda>row. fld32 stock_schema 13 row + (\<Sum>i\<leftarrow>lines_for sample_order 5 key. nop_i_qtys sample_order ! i))
         (db_tab (db_abs list_tbb sm) STOCK_TABLE_ID key))"
proof -
  obtain sm g nrow where s: "TpccPopulator_start list_tbb tpcc_sample_env tpcc_sample_consts StorageManager_new 0 = Inr (sm, g)"
    "tpcc_inv list_tbb tpcc_sample_env sm" "consistent tpcc_sample_env (db_abs list_tbb sm)"
    "\<forall>e. event_within small_scale e \<longrightarrow> event_valid e (db_abs list_tbb sm)"
    "dno_at 1 1 (db_abs list_tbb sm) = Some nrow" "new_at tpcc_sample_env 1 1 (oldest nrow) (db_abs list_tbb sm) \<noteq> None"
    by (rule tpcc_sample_loaded)
  have v: "order_valid sample_order (db_abs list_tbb sm)"
    using s(4) [THEN spec, of "NEW_ORDER sample_order"] by (simp add: small_scale_def upto_int_def DISTRICTS_PER_WAREHOUSE_def sample_order_def)
  then obtain drow where d: "district_at (nop_w_id sample_order) (nop_d_id sample_order) (db_abs list_tbb sm) = Some drow"
    by (auto simp: order_valid_def)
  have st: "3 \<le> length (env_stack tpcc_sample_env)" and n: "length (nop_i_ids sample_order) = 5"
    by (simp_all add: tpcc_sample_env_def sample_order_def)
  show ?thesis using new_order_effect [OF s(2) st s(3) v d] s(1) unfolding n by blast
qed

text \<open>C11: A delivery takes the oldest new order of a district off the new orders and advances the number of the oldest one, notes
  the carrier in the order and the date in all its lines, and adds the sum of the amounts of the lines to the balance
  of its customer.\<close>

theorem delivery_effect:
  assumes "tpcc_inv T E sm" "order_ok E" "consistent E (db_abs T sm)" "delivery_valid p (db_abs T sm)"
    and "d \<in> set all_districts" "dno_at (del_w_id p) d (db_abs T sm) = Some nrow"
    and "new_at E (del_w_id p) d (oldest nrow) (db_abs T sm) \<noteq> None"
  shows "\<exists>sm' row amount. processDelivery T E p sm = Inr sm' \<and> tpcc_inv T E sm' \<and>
    order_at E (del_w_id p) d (oldest nrow) (db_abs T sm) = Some row \<and>
    amount_of_lines E (del_w_id p) (db_abs T sm) d (oldest nrow) amount \<and>
    new_at E (del_w_id p) d (oldest nrow) (db_abs T sm') = None \<and>
    map_option oldest (dno_at (del_w_id p) d (db_abs T sm')) = Some (oldest nrow + 1) \<and>
    map_option (fld32 order_schema 5) (order_at E (del_w_id p) d (oldest nrow) (db_abs T sm')) = Some (del_o_carrier_id p) \<and>
    (\<forall>(k, r) \<in> order_lines E (del_w_id p) d (oldest nrow) (db_abs T sm'). fld64 order_line_schema 6 r = del_ol_delivery_d p) \<and>
    map_option (fld64 customer_schema 16) (customer_at (del_w_id p) d (customer_of row) (db_abs T sm')) =
      map_option (\<lambda>r. d_add (env_dbl E) (fld64 customer_schema 16 r) amount)
        (customer_at (del_w_id p) d (customer_of row) (db_abs T sm))"
proof -
  let ?w = "del_w_id p" and ?o = "oldest nrow" and ?db = "db_abs T sm"
  have ready: "delivery_ready E p ?db" by (rule delivery_valid_ready [OF assms(3,4)])
  have due: "to_deliver E ?w ?db d = Some ?o" using to_deliver_at [OF assms(6), of E] assms(7) by (simp del: not_None_eq)
  obtain row where row: "order_at E ?w d ?o ?db = Some row" using ready assms(5) due unfolding delivery_ready_def by blast
  obtain amount sm' where am: "amounts_ok E p ?db amount" and sm': "processDelivery T E p sm = Inr sm'"
      "becomes T (tpcc_registry (env_cfg E)) sm sm' (a_delivery E p (delivered_ids E p ?db) amount)"
    using processDelivery_does [OF assms(1,2) ready] unfolding does_def by metis
  have abs: "db_abs T sm' = a_delivery E p (delivered_ids E p ?db) amount ?db" using sm'(2) by (simp add: becomes_def)
  have "(d, ?o) \<in> set (delivered_ids E p ?db)" using delivered_ids_set(1) [OF assms(2), of p ?db] assms(5) due by simp
  then have "amount_of_lines E ?w ?db d ?o (amount d)" using am unfolding amounts_ok_def by auto
  then have amount: "amount_of_lines E ?w ?db d ?o (amount d)" .
  note leaves = delivery_leaves [OF tpcc_inv_parts [OF assms(1)] tpcc_inv_wf [OF assms(1)] assms(2,5) due row, where amount = amount]
  show ?thesis
    by (intro exI conjI ballI; (rule sm'(1) tpcc_inv_becomes [OF assms(1) sm'(2)] row amount)?; unfold abs;
        (rule leaves(1,2,3,5) | clarify, rule leaves(4)))
qed

lemma delivery_effect_witness:
  "\<exists>sm g sm' nrow. TpccPopulator_start list_tbb tpcc_sample_env tpcc_sample_consts StorageManager_new 0 = Inr (sm, g) \<and>
    processDelivery list_tbb tpcc_sample_env \<lparr>del_w_id = 1, del_o_carrier_id = 3, del_ol_delivery_d = 0\<rparr> sm = Inr sm' \<and>
    dno_at 1 1 (db_abs list_tbb sm) = Some nrow \<and>
    map_option oldest (dno_at 1 1 (db_abs list_tbb sm')) = Some (oldest nrow + 1)"
proof -
  obtain sm g nrow where s: "TpccPopulator_start list_tbb tpcc_sample_env tpcc_sample_consts StorageManager_new 0 = Inr (sm, g)"
    "tpcc_inv list_tbb tpcc_sample_env sm" "consistent tpcc_sample_env (db_abs list_tbb sm)"
    "\<forall>e. event_within small_scale e \<longrightarrow> event_valid e (db_abs list_tbb sm)"
    "dno_at 1 1 (db_abs list_tbb sm) = Some nrow" "new_at tpcc_sample_env 1 1 (oldest nrow) (db_abs list_tbb sm) \<noteq> None"
    by (rule tpcc_sample_loaded)
  let ?p = "\<lparr>del_w_id = 1, del_o_carrier_id = 3, del_ol_delivery_d = 0\<rparr>"
  have v: "delivery_valid ?p (db_abs list_tbb sm)"
    using s(4) [THEN spec, of "DELIVERY ?p"] by (simp add: small_scale_def upto_int_def)
  have o: "order_ok tpcc_sample_env" using tpcc_sample_facts(2) by (simp add: env_ok_def)
  have d: "1 \<in> set all_districts" by (simp add: set_all_districts upto_int_def DISTRICTS_PER_WAREHOUSE_def)
  have w: "del_w_id ?p = 1" by simp
  show ?thesis using delivery_effect [OF s(2) o s(3) v d, of nrow] s(1,5,6) unfolding w by blast
qed

text \<open>C12: A payment adds the amount to the year-to-date sums of warehouse and district, takes it from the balance of the
  customer, adds it to what the customer has paid, counts the payment, and appends one row to the history. The
  customer is looked up by the warehouse and district that receive the payment: a customer of another
  warehouse or district, whom the parameters and the history row name, is left unchanged.\<close>

theorem payment_effect:
  assumes "tpcc_inv T E sm" "rand_laws (env_lib E)" "payment_ready p (db_abs T sm)"
  shows "\<exists>sm' g' h_data. processPayment T E p sm g = Inr (sm', g') \<and> tpcc_inv T E sm' \<and>
    map_option (fld64 warehouse_schema 8) (db_tab (db_abs T sm') WAREHOUSE_TABLE_ID (wkey [pay_w_id p])) =
      map_option (\<lambda>r. d_add (env_dbl E) (fld64 warehouse_schema 8 r) (pay_h_amount p))
        (db_tab (db_abs T sm) WAREHOUSE_TABLE_ID (wkey [pay_w_id p])) \<and>
    map_option (fld64 district_schema 9) (district_at (pay_w_id p) (pay_d_id p) (db_abs T sm')) =
      map_option (\<lambda>r. d_add (env_dbl E) (fld64 district_schema 9 r) (pay_h_amount p))
        (district_at (pay_w_id p) (pay_d_id p) (db_abs T sm)) \<and>
    map_option (\<lambda>r. (fld64 customer_schema 16 r, fld64 customer_schema 17 r, fld32 customer_schema 18 r))
        (customer_at (pay_w_id p) (pay_d_id p) (pay_c_id p) (db_abs T sm')) =
      map_option (\<lambda>r. (d_sub (env_dbl E) (fld64 customer_schema 16 r) (pay_h_amount p),
          d_add (env_dbl E) (fld64 customer_schema 17 r) (pay_h_amount p), fld32 customer_schema 18 r + 1))
        (customer_at (pay_w_id p) (pay_d_id p) (pay_c_id p) (db_abs T sm)) \<and>
    db_rows (db_abs T sm') HISTORY_TABLE_ID =
      add_mset (history_row E p h_data) (db_rows (db_abs T sm) HISTORY_TABLE_ID) \<and>
    ((pay_c_w_id p, pay_c_d_id p) \<noteq> (pay_w_id p, pay_d_id p) \<longrightarrow>
       customer_at (pay_c_w_id p) (pay_c_d_id p) (pay_c_id p) (db_abs T sm') =
       customer_at (pay_c_w_id p) (pay_c_d_id p) (pay_c_id p) (db_abs T sm))"
proof -
  obtain sm' g' h where s: "processPayment T E p sm g = Inr (sm', g')"
      "becomes T (tpcc_registry (env_cfg E)) sm sm' (a_payment E p h)"
    using gen_returnsE [OF processPayment_does [OF assms], of g] by metis
  have abs: "db_abs T sm' = a_payment E p h (db_abs T sm)" using s(2) by (simp add: becomes_def)
  note leaves = payment_leaves [OF tpcc_inv_wf [OF assms(1)], where p = p and h_data = h]
  have other: "(pay_c_w_id p, pay_c_d_id p) \<noteq> (pay_w_id p, pay_d_id p) \<longrightarrow>
      customer_at (pay_c_w_id p) (pay_c_d_id p) (pay_c_id p) (db_abs T sm') =
      customer_at (pay_c_w_id p) (pay_c_d_id p) (pay_c_id p) (db_abs T sm)"
    unfolding abs using leaves(4) [of "pay_c_w_id p" "pay_c_d_id p" "pay_c_id p"] by auto
  show ?thesis
    by (intro exI conjI; (rule s(1) tpcc_inv_becomes [OF assms(1) s(2)] other)?; unfold abs; rule leaves(1,2,3,5))
qed

lemma payment_effect_witness:
  "\<exists>sm g sm' g'. TpccPopulator_start list_tbb tpcc_sample_env tpcc_sample_consts StorageManager_new 0 = Inr (sm, g) \<and>
    processPayment list_tbb tpcc_sample_env sample_payment sm g = Inr (sm', g') \<and>
    customer_at 2 1 1 (db_abs list_tbb sm') = customer_at 2 1 1 (db_abs list_tbb sm)"
proof -
  obtain sm g nrow where s: "TpccPopulator_start list_tbb tpcc_sample_env tpcc_sample_consts StorageManager_new 0 = Inr (sm, g)"
    "tpcc_inv list_tbb tpcc_sample_env sm" "consistent tpcc_sample_env (db_abs list_tbb sm)"
    "\<forall>e. event_within small_scale e \<longrightarrow> event_valid e (db_abs list_tbb sm)"
    "dno_at 1 1 (db_abs list_tbb sm) = Some nrow" "new_at tpcc_sample_env 1 1 (oldest nrow) (db_abs list_tbb sm) \<noteq> None"
    by (rule tpcc_sample_loaded)
  have v: "payment_ready sample_payment (db_abs list_tbb sm)"
    using s(4) [THEN spec, of "PAYMENT sample_payment"] by (simp add: small_scale_def upto_int_def DISTRICTS_PER_WAREHOUSE_def sample_payment_def)
  have r: "rand_laws (env_lib tpcc_sample_env)" using tpcc_sample_facts(2) by (simp add: env_ok_def)
  have "(pay_c_w_id sample_payment, pay_c_d_id sample_payment) \<noteq> (pay_w_id sample_payment, pay_d_id sample_payment)"
    and c: "pay_c_w_id sample_payment = 2" "pay_c_d_id sample_payment = 1" "pay_c_id sample_payment = 1"
    by (simp_all add: sample_payment_def)
  then show ?thesis using payment_effect [OF s(2) r v, of g] s(1) unfolding c by blast
qed

end
