(* ===== verification/ResourceSteps.thy ===== *)
theory ResourceSteps
  imports Interleaving
begin

text \<open>
  Steps that can fail, on a state whose parts are resources: each step reads and changes one resource only.
  The locale \<open>resource_steps\<close> is that contract, and its theorem says that two sequences which agree on the
  order of the steps of every resource either both fail or both end in the same state. The rest is about
  which steps a scheduler has executed before a given one.
\<close>

section \<open>Sequences of steps that can fail\<close>

fun run_seq :: "('x \<Rightarrow> 's \<Rightarrow> bool) \<Rightarrow> ('x \<Rightarrow> 's \<Rightarrow> 's) \<Rightarrow> 'x list \<Rightarrow> 's \<Rightarrow> 's option" where
  "run_seq pre eff [] s = Some s"
| "run_seq pre eff (x # xs) s = (if pre x s then run_seq pre eff xs (eff x s) else None)"

lemma run_seq_append:
  "run_seq pre eff (xs @ ys) s = Option.bind (run_seq pre eff xs s) (run_seq pre eff ys)"
  by (induction xs arbitrary: s) simp_all

lemma run_seq_appendE:
  assumes "run_seq pre eff (xs @ ys) s = Some t"
  obtains s1 where "run_seq pre eff xs s = Some s1" "run_seq pre eff ys s1 = Some t"
  using assms by (auto simp: run_seq_append bind_eq_Some_conv)

lemma run_seq_cong:
  "(\<And>x s. x \<in> set xs \<Longrightarrow> pre x s = pre' x s) \<Longrightarrow> (\<And>x s. x \<in> set xs \<Longrightarrow> eff x s = eff' x s) \<Longrightarrow>
   run_seq pre eff xs s = run_seq pre' eff' xs s"
  by (induction xs arbitrary: s) auto

section \<open>Steps on resources\<close>

locale resource_steps =
  fixes pre :: "'x \<Rightarrow> 's \<Rightarrow> bool" and eff :: "'x \<Rightarrow> 's \<Rightarrow> 's" and res :: "'x \<Rightarrow> 'r"
    and same :: "'r \<Rightarrow> 's \<Rightarrow> 's \<Rightarrow> bool" and ok :: "'s \<Rightarrow> bool"
  assumes same_refl: "same r s s"
    and same_sym: "same r s s' \<Longrightarrow> same r s' s"
    and same_trans: "same r s1 s2 \<Longrightarrow> same r s2 s3 \<Longrightarrow> same r s1 s3"
    and pre_same: "ok s \<Longrightarrow> ok s' \<Longrightarrow> same (res x) s s' \<Longrightarrow> pre x s \<Longrightarrow> pre x s'"
    and eff_same: "ok s \<Longrightarrow> ok s' \<Longrightarrow> same (res x) s s' \<Longrightarrow> pre x s \<Longrightarrow> pre x s' \<Longrightarrow> same (res x) (eff x s) (eff x s')"
    and eff_other: "ok s \<Longrightarrow> pre x s \<Longrightarrow> r \<noteq> res x \<Longrightarrow> same r s (eff x s)"
    and eff_ok: "ok s \<Longrightarrow> pre x s \<Longrightarrow> ok (eff x s)"
    and same_all: "ok s \<Longrightarrow> ok s' \<Longrightarrow> (\<And>r. same r s s') \<Longrightarrow> s = s'"
begin

abbreviation "run \<equiv> run_seq pre eff"

lemma run_ok: "ok s \<Longrightarrow> run xs s = Some t \<Longrightarrow> ok t"
  by (induction xs arbitrary: s) (auto dest: eff_ok split: if_splits)

text \<open>On one resource only its own steps matter.\<close>

lemma run_filter:
  "ok s \<Longrightarrow> ok s' \<Longrightarrow> same r s s' \<Longrightarrow> run xs s = Some t \<Longrightarrow>
   \<exists>t'. run (filter (\<lambda>x. res x = r) xs) s' = Some t' \<and> same r t t'"
proof (induction xs arbitrary: s s')
  case (Cons x xs)
  have x: "pre x s" "run xs (eff x s) = Some t" using Cons.prems(4) by (auto split: if_splits)
  note ok = eff_ok [OF Cons.prems(1) x(1)]
  show ?case
  proof (cases "res x = r")
    case True
    then have s: "same (res x) s s'" using Cons.prems(3) by simp
    have x': "pre x s'" by (rule pre_same [OF Cons.prems(1,2) s x(1)])
    have "same r (eff x s) (eff x s')" using eff_same [OF Cons.prems(1,2) s x(1) x'] True by simp
    from Cons.IH [OF ok eff_ok [OF Cons.prems(2) x'] this x(2)] show ?thesis using True x' by simp
  next
    case False
    then have "same r s (eff x s)" by (intro eff_other [OF Cons.prems(1) x(1)]) simp
    then have "same r (eff x s) s'" using same_trans [OF same_sym] Cons.prems(3) by blast
    from Cons.IH [OF ok Cons.prems(2) this x(2)] show ?thesis using False by simp
  qed
qed simp

lemma run_if_filters:
  "ok s \<Longrightarrow> (\<And>r. \<exists>t. run (filter (\<lambda>x. res x = r) xs) s = Some t) \<Longrightarrow> \<exists>t. run xs s = Some t"
proof (induction xs arbitrary: s)
  case (Cons x xs)
  obtain t0 where "run (filter (\<lambda>y. res y = res x) (x # xs)) s = Some t0" using Cons.prems(2) by blast
  then have x: "pre x s" "run (filter (\<lambda>y. res y = res x) xs) (eff x s) = Some t0" by (auto split: if_splits)
  note ok = eff_ok [OF Cons.prems(1) x(1)]
  have "\<exists>t. run (filter (\<lambda>y. res y = r) xs) (eff x s) = Some t" for r
  proof (cases "r = res x")
    case False
    obtain t where "run (filter (\<lambda>y. res y = r) (x # xs)) s = Some t" using Cons.prems(2) by blast
    then have "run (filter (\<lambda>y. res y = r) xs) s = Some t" using False by simp
    from run_filter [OF Cons.prems(1) ok eff_other [OF Cons.prems(1) x(1) False] this]
    show ?thesis by auto
  qed (use x(2) in blast)
  from Cons.IH [OF ok this] show ?case using x(1) by simp
qed simp

theorem same_order:
  assumes ok: "ok s" and filters: "\<And>r. filter (\<lambda>x. res x = r) ys = filter (\<lambda>x. res x = r) xs"
    and xs: "run xs s = Some t"
  shows "run ys s = Some t"
proof -
  note f = run_filter [OF ok ok same_refl]
  have "\<exists>t'. run (filter (\<lambda>x. res x = r) ys) s = Some t'" for r
    unfolding filters using f [OF xs] by blast
  then obtain t' where t': "run ys s = Some t'" using run_if_filters [OF ok] by blast
  have "same r t t'" for r
  proof -
    obtain u where u: "run (filter (\<lambda>x. res x = r) xs) s = Some u" "same r t u" using f [OF xs] by blast
    obtain v where "run (filter (\<lambda>x. res x = r) ys) s = Some v" "same r t' v" using f [OF t'] by blast
    then have "same r t' u" using u(1) unfolding filters by simp
    then show ?thesis using same_trans [OF u(2) same_sym] by blast
  qed
  then have "t = t'" by (rule same_all [OF run_ok [OF ok xs] run_ok [OF ok t']])
  then show ?thesis using t' by simp
qed

text \<open>A step that creates its resource comes before every step that uses it: \<open>creates\<close> steps need \<open>P\<close> of the
  state to be false and the others need it to be true, which it stays.\<close>

lemma creators_first:
  assumes "\<And>x s. x \<in> set xs \<Longrightarrow> creates x \<Longrightarrow> pre x s \<Longrightarrow> \<not> P s"
    and "\<And>x s. x \<in> set xs \<Longrightarrow> \<not> creates x \<Longrightarrow> pre x s \<Longrightarrow> P s"
    and "\<And>x s. x \<in> set xs \<Longrightarrow> ok s \<Longrightarrow> pre x s \<Longrightarrow> P (eff x s)"
    and "ok s" "run xs s = Some t"
  shows "xs = filter creates xs @ filter (\<lambda>x. \<not> creates x) xs"
proof -
  have all: "filter creates xs = []" if "P s" "ok s" "run xs s = Some t" "set xs \<subseteq> S"
    and S: "\<And>x s. x \<in> S \<Longrightarrow> creates x \<Longrightarrow> pre x s \<Longrightarrow> \<not> P s"
      "\<And>x s. x \<in> S \<Longrightarrow> ok s \<Longrightarrow> pre x s \<Longrightarrow> P (eff x s)" for xs s S
    using that(1-4)
  proof (induction xs arbitrary: s)
    case (Cons x xs)
    then have x: "pre x s" "run xs (eff x s) = Some t" "x \<in> S" by (auto split: if_splits)
    have "filter creates xs = []"
      using Cons.IH [OF S(2) [OF x(3) Cons.prems(2) x(1)] eff_ok [OF Cons.prems(2) x(1)] x(2)] Cons.prems(4) by simp
    then show ?case using S(1) [OF x(3) _ x(1)] Cons.prems(1) by auto
  qed simp
  show ?thesis
  proof (cases xs)
    case (Cons x ys)
    have x: "pre x s" "run ys (eff x s) = Some t" using assms(5) Cons by (auto split: if_splits)
    have P: "P (eff x s)" using assms(3) [OF _ assms(4) x(1)] Cons by simp
    have none: "filter creates ys = []"
      by (rule all [OF P eff_ok [OF assms(4) x(1)] x(2), of "set xs"])
        (use assms(1,3) Cons in auto)
    then have "filter (\<lambda>x. \<not> creates x) ys = ys" by (simp add: filter_id_conv filter_empty_conv)
    then show ?thesis using none Cons by simp
  qed simp
qed

end

section \<open>What comes before\<close>

text \<open>\<open>before zs x y\<close>: every time \<open>y\<close> occurs in \<open>zs\<close>, \<open>x\<close> has occurred already.\<close>

definition before :: "'a list \<Rightarrow> 'a \<Rightarrow> 'a \<Rightarrow> bool" where
  "before zs x y \<longleftrightarrow> (\<forall>us vs. zs = us @ y # vs \<longrightarrow> x \<in> set us)"

lemma beforeD: "before (us @ y # vs) x y \<Longrightarrow> x \<in> set us"
  by (simp add: before_def)

end
