(* ===== verification/TpccBatchSteps.thy ===== *)
theory TpccBatchSteps
  imports TpccBatch ResourceSteps
begin

text \<open>
  The calls of a batch (theory TpccBatch) as steps on the maps: what each needs, what it changes, and the one
  part of the database it touches. The values a call takes from the local vectors (the numbers of the
  orders, the sums and so on) are given by a record, \<open>batch_values\<close>; that the vectors hold these values
  is shown in the theory TpccBatchRun.
\<close>

section \<open>The steps\<close>

record batch_values =
  bv_o_id :: "nat \<Rightarrow> 32 word"
  bv_dist :: "nat \<Rightarrow> nat \<Rightarrow> bytes"
  bv_amount :: "nat \<Rightarrow> nat \<Rightarrow> 64 word"
  bv_due :: "nat \<Rightarrow> 32 word \<Rightarrow> 32 word option"
  bv_lines :: "nat \<Rightarrow> 32 word \<Rightarrow> (bytes \<times> bytes) set"
  bv_c_id :: "nat \<Rightarrow> 32 word \<Rightarrow> 32 word"
  bv_sum :: "nat \<Rightarrow> 32 word \<Rightarrow> 64 word"
  bv_h_data :: "nat \<Rightarrow> bytes"

abbreviation no_at :: "tpcc_batch \<Rightarrow> nat \<Rightarrow> new_order_param" where
  "no_at b n \<equiv> new_order_params b ! n"

abbreviation pay_at :: "tpcc_batch \<Rightarrow> nat \<Rightarrow> payment_param" where
  "pay_at b k \<equiv> payment_params b ! k"

abbreviation del_at :: "tpcc_batch \<Rightarrow> nat \<Rightarrow> delivery_param" where
  "del_at b q \<equiv> delivery_params b ! q"

abbreviation due_id :: "batch_values \<Rightarrow> nat \<Rightarrow> 32 word \<Rightarrow> 32 word" where
  "due_id v q d \<equiv> the (bv_due v q d)"

abbreviation no_part :: "'g tpcc_env \<Rightarrow> new_order_param \<Rightarrow> nat" where
  "no_part E p \<equiv> district_part E (nop_w_id p) (nop_d_id p)"

definition dists_of :: "batch_values \<Rightarrow> tpcc_batch \<Rightarrow> nat \<Rightarrow> bytes list" where
  "dists_of v b n = map (bv_dist v n) [0..<order_length (no_at b n)]"

definition amounts_of :: "batch_values \<Rightarrow> tpcc_batch \<Rightarrow> nat \<Rightarrow> 64 word list" where
  "amounts_of v b n = map (bv_amount v n) [0..<order_length (no_at b n)]"

definition row_at :: "nat \<Rightarrow> bytes \<Rightarrow> (bytes \<Rightarrow> bool) \<Rightarrow> database \<Rightarrow> bool" where
  "row_at i k P db \<longleftrightarrow> (case db_tab db i k of None \<Rightarrow> False | Some row \<Rightarrow> P row)"

fun call_pre :: "'g tpcc_env \<Rightarrow> tpcc_batch \<Rightarrow> batch_values \<Rightarrow> tpcc_call \<Rightarrow> database \<Rightarrow> bool" where
  "call_pre E b v (No1 n) db \<longleftrightarrow>
     row_at DISTRICT_TABLE_ID (district_key (no_at b n)) (\<lambda>row. next_o_id row = bv_o_id v n) db"
| "call_pre E b v (No2 n) db \<longleftrightarrow>
     db_tab db (ORDER_TABLE_ID + no_part E (no_at b n)) (order_key (no_at b n) (bv_o_id v n)) = None"
| "call_pre E b v (No3 n) db \<longleftrightarrow>
     db_tab db (NEW_ORDER_TABLE_ID + no_part E (no_at b n)) (order_key (no_at b n) (bv_o_id v n)) = None"
| "call_pre E b v (No4 n i) db \<longleftrightarrow>
     row_at STOCK_TABLE_ID (stock_key (no_at b n) i)
       (\<lambda>row. 0 \<in> set (col_data stock_schema (dist_column (no_at b n)) row) \<and> dist_info (no_at b n) row = bv_dist v n i) db"
| "call_pre E b v (No5 n i) db \<longleftrightarrow> True"
| "call_pre E b v (No6 n) db \<longleftrightarrow>
     0 < order_length (no_at b n) \<and> (\<forall>s \<in> set (dists_of v b n). length s \<le> 32) \<and>
     order_lines E (nop_w_id (no_at b n)) (nop_d_id (no_at b n)) (bv_o_id v n) db = {}"
| "call_pre E b v (Pay1 k) db \<longleftrightarrow> db_tab db WAREHOUSE_TABLE_ID (wkey [pay_w_id (pay_at b k)]) \<noteq> None"
| "call_pre E b v (Pay2 k) db \<longleftrightarrow>
     db_tab db DISTRICT_TABLE_ID (wkey [pay_d_id (pay_at b k), pay_w_id (pay_at b k)]) \<noteq> None"
| "call_pre E b v (Pay3 k) db \<longleftrightarrow> True"
| "call_pre E b v (Pay4 k) db \<longleftrightarrow>
     db_tab db CUSTOMER_TABLE_ID (wkey [pay_c_id (pay_at b k), pay_d_id (pay_at b k), pay_w_id (pay_at b k)]) \<noteq> None"
| "call_pre E b v (Del1 q d) db \<longleftrightarrow>
     db_tab db DISTRICT_NEW_ORDER_TABLE_ID (dno_key (del_w_id (del_at b q)) d) \<noteq> None \<and>
     to_deliver E (del_w_id (del_at b q)) db d = bv_due v q d \<and> bv_due v q d \<noteq> Some (- 1)"
| "call_pre E b v (Del2 q d) db \<longleftrightarrow>
     order_lines E (del_w_id (del_at b q)) d (due_id v q d) db = bv_lines v q d \<and> bv_lines v q d \<noteq> {}"
| "call_pre E b v (Del3 q d) db \<longleftrightarrow>
     row_at (ORDER_TABLE_ID + district_part E (del_w_id (del_at b q)) d)
       (wkey [due_id v q d, d, del_w_id (del_at b q)]) (\<lambda>row. customer_of row = bv_c_id v q d) db"
| "call_pre E b v (Del4 q d) db \<longleftrightarrow>
     db_tab db CUSTOMER_TABLE_ID (wkey [bv_c_id v q d, d, del_w_id (del_at b q)]) \<noteq> None"

fun call_eff :: "'g tpcc_env \<Rightarrow> tpcc_batch \<Rightarrow> batch_values \<Rightarrow> tpcc_call \<Rightarrow> database \<Rightarrow> database" where
  "call_eff E b v (No1 n) = a_modify DISTRICT_TABLE_ID (district_key (no_at b n)) district_advanced"
| "call_eff E b v (No2 n) =
     a_put (ORDER_TABLE_ID + no_part E (no_at b n)) (order_key (no_at b n) (bv_o_id v n)) (order_row E (no_at b n) (bv_o_id v n))"
| "call_eff E b v (No3 n) =
     a_put (NEW_ORDER_TABLE_ID + no_part E (no_at b n)) (order_key (no_at b n) (bv_o_id v n))
       (new_order_row E (no_at b n) (bv_o_id v n))"
| "call_eff E b v (No4 n i) = a_stock (no_at b n) i"
| "call_eff E b v (No5 n i) = id"
| "call_eff E b v (No6 n) =
     a_lines E (no_at b n) (bv_o_id v n) (dists_of v b n) (amounts_of v b n) (order_length (no_at b n))"
| "call_eff E b v (Pay1 k) =
     a_modify WAREHOUSE_TABLE_ID (wkey [pay_w_id (pay_at b k)]) (warehouse_paid (env_dbl E) (pay_h_amount (pay_at b k)))"
| "call_eff E b v (Pay2 k) =
     a_modify DISTRICT_TABLE_ID (wkey [pay_d_id (pay_at b k), pay_w_id (pay_at b k)])
       (district_paid (env_dbl E) (pay_h_amount (pay_at b k)))"
| "call_eff E b v (Pay3 k) = a_append HISTORY_TABLE_ID (history_row E (pay_at b k) (bv_h_data v k))"
| "call_eff E b v (Pay4 k) =
     a_modify CUSTOMER_TABLE_ID (wkey [pay_c_id (pay_at b k), pay_d_id (pay_at b k), pay_w_id (pay_at b k)])
       (customer_paid (env_dbl E) (pay_h_amount (pay_at b k)))"
| "call_eff E b v (Del1 q d) = a_take E (del_w_id (del_at b q)) d"
| "call_eff E b v (Del2 q d) = a_deliver_lines E (del_at b q) d (due_id v q d)"
| "call_eff E b v (Del3 q d) = a_deliver_order E (del_at b q) d (due_id v q d)"
| "call_eff E b v (Del4 q d) = a_credit (env_dbl E) (del_w_id (del_at b q)) d (bv_c_id v q d) (bv_sum v q d)"

section \<open>The parts of the database\<close>

text \<open>A row of a table; the lines of one order; the new orders of one district with the record of the oldest;
  the two halves of the record of a district, which different threads write; the history.\<close>

datatype db_part =
  Cell nat bytes | Lines bytes | NewOrders bytes | NextId bytes | DistrictRest bytes | HistoryRows | NoPart nat nat

fun call_part :: "'g tpcc_env \<Rightarrow> tpcc_batch \<Rightarrow> batch_values \<Rightarrow> tpcc_call \<Rightarrow> db_part" where
  "call_part E b v (No1 n) = NextId (district_key (no_at b n))"
| "call_part E b v (No2 n) = Cell (ORDER_TABLE_ID + no_part E (no_at b n)) (order_key (no_at b n) (bv_o_id v n))"
| "call_part E b v (No3 n) = NewOrders (wkey [nop_d_id (no_at b n), nop_w_id (no_at b n)])"
| "call_part E b v (No4 n i) = Cell STOCK_TABLE_ID (stock_key (no_at b n) i)"
| "call_part E b v (No5 n i) = NoPart n i"
| "call_part E b v (No6 n) = Lines (order_key (no_at b n) (bv_o_id v n))"
| "call_part E b v (Pay1 k) = Cell WAREHOUSE_TABLE_ID (wkey [pay_w_id (pay_at b k)])"
| "call_part E b v (Pay2 k) = DistrictRest (wkey [pay_d_id (pay_at b k), pay_w_id (pay_at b k)])"
| "call_part E b v (Pay3 k) = HistoryRows"
| "call_part E b v (Pay4 k) =
     Cell CUSTOMER_TABLE_ID (wkey [pay_c_id (pay_at b k), pay_d_id (pay_at b k), pay_w_id (pay_at b k)])"
| "call_part E b v (Del1 q d) = NewOrders (wkey [d, del_w_id (del_at b q)])"
| "call_part E b v (Del2 q d) = Lines (wkey [due_id v q d, d, del_w_id (del_at b q)])"
| "call_part E b v (Del3 q d) =
     Cell (ORDER_TABLE_ID + district_part E (del_w_id (del_at b q)) d) (wkey [due_id v q d, d, del_w_id (del_at b q)])"
| "call_part E b v (Del4 q d) = Cell CUSTOMER_TABLE_ID (wkey [bv_c_id v q d, d, del_w_id (del_at b q)])"

definition new_order_table :: "nat \<Rightarrow> bool" where
  "new_order_table i \<longleftrightarrow> NEW_ORDER_TABLE_ID \<le> i \<and> i < NEW_ORDER_TABLE_ID + TPCC_MAX_PARTITION_CNT"

definition order_line_table :: "nat \<Rightarrow> bool" where
  "order_line_table i \<longleftrightarrow> ORDER_LINE_TABLE_ID \<le> i \<and> i < ORDER_LINE_TABLE_ID + TPCC_MAX_PARTITION_CNT"

definition row_table :: "nat \<Rightarrow> bool" where
  "row_table i \<longleftrightarrow> i \<noteq> DISTRICT_TABLE_ID \<and> i \<noteq> DISTRICT_NEW_ORDER_TABLE_ID \<and> \<not> new_order_table i \<and> \<not> order_line_table i"

fun same_part :: "db_part \<Rightarrow> database \<Rightarrow> database \<Rightarrow> bool" where
  "same_part (Cell i k) db db' \<longleftrightarrow> (row_table i \<longrightarrow> db_tab db i k = db_tab db' i k)"
| "same_part (Lines p) db db' \<longleftrightarrow>
     (\<forall>i k. order_line_table i \<longrightarrow> take 12 k = p \<longrightarrow> db_tab db i k = db_tab db' i k)"
| "same_part (NewOrders s) db db' \<longleftrightarrow>
     (\<forall>i k. new_order_table i \<longrightarrow> drop 4 k = s \<longrightarrow> db_tab db i k = db_tab db' i k) \<and>
     (\<forall>k. drop 4 k @ take 4 k = s \<longrightarrow>
        db_tab db DISTRICT_NEW_ORDER_TABLE_ID k = db_tab db' DISTRICT_NEW_ORDER_TABLE_ID k)"
| "same_part (NextId k) db db' \<longleftrightarrow>
     map_option (drop 147) (db_tab db DISTRICT_TABLE_ID k) = map_option (drop 147) (db_tab db' DISTRICT_TABLE_ID k)"
| "same_part (DistrictRest k) db db' \<longleftrightarrow>
     map_option (take 147) (db_tab db DISTRICT_TABLE_ID k) = map_option (take 147) (db_tab db' DISTRICT_TABLE_ID k)"
| "same_part HistoryRows db db' \<longleftrightarrow> db_rows db = db_rows db'"
| "same_part (NoPart n i) db db' \<longleftrightarrow> True"

text \<open>The lines of an order are under the keys that start with its key.\<close>

definition lines_keyed :: "'g tpcc_env \<Rightarrow> database \<Rightarrow> bool" where
  "lines_keyed E db \<longleftrightarrow>
     (\<forall>i k row. ORDER_LINE_TABLE_ID \<le> i \<longrightarrow> i < ORDER_LINE_TABLE_ID + partitions (env_cfg E) \<longrightarrow>
        db_tab db i k = Some row \<longrightarrow> length row = 76 \<and> length k = 16 \<and> (\<forall>o_id d w. of_order o_id d w row \<longleftrightarrow> take 12 k = wkey [o_id, d, w]))"

definition batch_db_ok :: "'g tpcc_env \<Rightarrow> database \<Rightarrow> bool" where
  "batch_db_ok E db \<longleftrightarrow> parts_ok E \<and> 3 \<le> length (env_stack E) \<and> tpcc_wf E db \<and> lines_keyed E db"

end
