(* ===== verification/TpccBatchParts.thy ===== *)
theory TpccBatchParts
  imports TpccBatchSteps
begin

text \<open>
  Each step of a batch touches one part of the database: the contract \<open>resource_steps\<close> for the calls of
  TpccBatchProcessor.cc.
\<close>

section \<open>Keys and tables\<close>

lemma wkey_parts [simp]:
  "take 12 (wkey [a, b, c, e]) = wkey [a, b, c]"
  "drop 4 (wkey [a, b, c]) = wkey [b, c]"
  "drop 4 (wkey [a, b]) @ take 4 (wkey [a, b]) = wkey [b, a]"
  by (simp_all add: wkey_def)

lemma part_kinds:
  assumes "a < TPCC_MAX_PARTITION_CNT"
  shows "row_table (ORDER_TABLE_ID + a)" "new_order_table (NEW_ORDER_TABLE_ID + a)" "order_line_table (ORDER_LINE_TABLE_ID + a)"
    "\<not> order_line_table (NEW_ORDER_TABLE_ID + a)" "\<not> new_order_table (ORDER_LINE_TABLE_ID + a)"
    "\<not> new_order_table (ORDER_TABLE_ID + a)" "\<not> order_line_table (ORDER_TABLE_ID + a)"
    "\<not> row_table (NEW_ORDER_TABLE_ID + a)" "\<not> row_table (ORDER_LINE_TABLE_ID + a)"
  using assms by (simp_all add: row_table_def new_order_table_def order_line_table_def tpcc_table_ids)

lemma whole_kinds [simp]:
  "row_table STOCK_TABLE_ID" "row_table WAREHOUSE_TABLE_ID" "row_table CUSTOMER_TABLE_ID" "row_table ITEM_TABLE_ID"
  "\<not> row_table DISTRICT_TABLE_ID" "\<not> row_table DISTRICT_NEW_ORDER_TABLE_ID"
  "\<not> new_order_table DISTRICT_TABLE_ID" "\<not> order_line_table DISTRICT_TABLE_ID"
  "\<not> order_line_table STOCK_TABLE_ID" "\<not> order_line_table WAREHOUSE_TABLE_ID" "\<not> order_line_table CUSTOMER_TABLE_ID"
  "\<not> new_order_table DISTRICT_NEW_ORDER_TABLE_ID" "\<not> order_line_table DISTRICT_NEW_ORDER_TABLE_ID"
  by (simp_all add: row_table_def new_order_table_def order_line_table_def tpcc_table_ids)

section \<open>The halves of a district\<close>

lemma district_layout: "col_off district_schema 9 = 139" "col_off district_schema 10 = 147"
  "col_size district_schema 9 = 8" "col_size district_schema 10 = 4"
  by code_simp+

lemma next_o_id_tail: "length row = 151 \<Longrightarrow> next_o_id row = of_bytes (drop 147 row)"
  by (simp add: next_o_id_def fld32_def col_data_def seg_def district_layout)

lemma district_advanced_halves:
  assumes "length row = 151"
  shows "length (district_advanced row) = 151" "take 147 (district_advanced row) = take 147 row"
    "drop 147 (district_advanced row) = to_bytes (of_bytes (drop 147 row) + 1 :: 32 word)"
  using assms next_o_id_tail [OF assms]
  by (simp_all add: district_advanced_def row_with_def set_col_def patch_def district_layout)

lemma district_paid_halves:
  assumes "length row = 151"
  shows "length (district_paid D a row) = 151" "drop 147 (district_paid D a row) = drop 147 row"
    "take 147 (district_paid D a row) = take 139 row @ to_bytes (d_add D (of_bytes (take 8 (drop 139 (take 147 row)))) a)"
  using assms
  by (simp_all add: district_paid_def row_with_def set_col_def patch_def district_layout fld64_def col_data_def seg_def drop_take)

section \<open>Well-formed databases\<close>

lemma wf_put:
  assumes "tpcc_wf E db" "\<And>s smbs. tpcc_registry (env_cfg E) i = Some (s, True, smbs) \<Longrightarrow> length row = getSchemaSize s"
  shows "tpcc_wf E (a_put i k row db)"
  using assms unfolding tpcc_wf_def by (fastforce split: if_splits)

lemma wf_modify:
  assumes "tpcc_wf E db" "tpcc_registry (env_cfg E) i = Some (s, True, smbs)"
    and "\<And>row. length row = getSchemaSize s \<Longrightarrow> length (f row) = getSchemaSize s"
  shows "tpcc_wf E (a_modify i k f db)"
proof (cases "db_tab db i k")
  case (Some row)
  have "length row = getSchemaSize s" using assms(1,2) Some unfolding tpcc_wf_def by blast
  then show ?thesis
    using Some assms by (auto simp: a_modify_def intro!: wf_put)
qed (use assms(1) in \<open>simp add: a_modify_def\<close>)

lemma wf_rows:
  assumes "tpcc_wf E db" "db_tab db DISTRICT_TABLE_ID k = Some row"
  shows "length row = 151"
  using assms tpcc_registry_simps(3) unfolding tpcc_wf_def by fastforce

lemma keyed_other:
  assumes "lines_keyed E db" "\<And>i. order_line_table i \<Longrightarrow> db_tab db' i = db_tab db i" "parts_ok E"
  shows "lines_keyed E db'"
proof -
  have "order_line_table i" if "ORDER_LINE_TABLE_ID \<le> i" "i < ORDER_LINE_TABLE_ID + partitions (env_cfg E)" for i
    using that assms(3) by (simp add: order_line_table_def parts_ok_def)
  then show ?thesis using assms(1,2) unfolding lines_keyed_def by metis
qed

lemma lines_keyedD:
  assumes "batch_db_ok E db" "db_tab db (ORDER_LINE_TABLE_ID + district_part E w d) k = Some row"
  shows "length row = 76" "length k = 16" "of_order o_id' d' w' row \<longleftrightarrow> take 12 k = wkey [o_id', d', w']"
proof -
  have k: "lines_keyed E db" and p: "parts_ok E" using assms(1) by (simp_all add: batch_db_ok_def)
  have "district_part E w d < partitions (env_cfg E)" using p by (simp add: parts_ok_def district_part_less)
  then show "length row = 76" "length k = 16" "of_order o_id' d' w' row \<longleftrightarrow> take 12 k = wkey [o_id', d', w']"
    using k assms(2) le_add1 [of ORDER_LINE_TABLE_ID] unfolding lines_keyed_def by (metis nat_add_left_cancel_less)+
qed

text \<open>The lines of an order, by their keys.\<close>

lemma order_lines_keyed:
  assumes "batch_db_ok E db"
  shows "order_lines E w d o_id db =
    {(k, row). take 12 k = wkey [o_id, d, w] \<and> db_tab db (ORDER_LINE_TABLE_ID + district_part E w d) k = Some row}"
  using lines_keyedD(3) [OF assms] by (auto simp: order_lines_def)

lemma order_lines_same:
  assumes "batch_db_ok E db" "batch_db_ok E db'" "same_part (Lines (wkey [o_id, d, w])) db db'"
  shows "order_lines E w d o_id db = order_lines E w d o_id db'"
proof -
  have "order_line_table (ORDER_LINE_TABLE_ID + district_part E w d)"
    using assms(1) by (intro part_kinds(3) parts_okD) (simp add: batch_db_ok_def)
  then show ?thesis using assms(3) by (auto simp: order_lines_keyed [OF assms(1)] order_lines_keyed [OF assms(2)])
qed

lemma to_deliver_same:
  assumes "parts_ok E" "same_part (NewOrders (wkey [d, w])) db db'"
  shows "to_deliver E w db d = to_deliver E w db' d"
    "db_tab db DISTRICT_NEW_ORDER_TABLE_ID (dno_key w d) = db_tab db' DISTRICT_NEW_ORDER_TABLE_ID (dno_key w d)"
proof -
  have t: "new_order_table (NEW_ORDER_TABLE_ID + district_part E w d)" using part_kinds(2) [OF parts_okD [OF assms(1)]] .
  show dno: "db_tab db DISTRICT_NEW_ORDER_TABLE_ID (dno_key w d) = db_tab db' DISTRICT_NEW_ORDER_TABLE_ID (dno_key w d)"
    using assms(2) by simp
  have "db_tab db (NEW_ORDER_TABLE_ID + district_part E w d) (wkey [o_id, d, w]) =
      db_tab db' (NEW_ORDER_TABLE_ID + district_part E w d) (wkey [o_id, d, w])" for o_id
    using assms(2) t by simp
  then show "to_deliver E w db d = to_deliver E w db' d" using dno by (simp add: to_deliver_def split: option.split)
qed

section \<open>What a step reads\<close>

lemma batch_db_okD: "batch_db_ok E db \<Longrightarrow> parts_ok E \<and> tpcc_wf E db"
  by (simp add: batch_db_ok_def)

lemma call_pre_same:
  assumes ok: "batch_db_ok E db" "batch_db_ok E db'" and same: "same_part (call_part E b v x) db db'"
    and pre: "call_pre E b v x db"
  shows "call_pre E b v x db'"
proof -
  have parts: "parts_ok E" using ok(1) by (simp add: batch_db_ok_def)
  note kinds = part_kinds [OF parts_okD [OF parts]]
  have len: "length row = 151" if "db_tab db DISTRICT_TABLE_ID k = Some row \<or> db_tab db' DISTRICT_TABLE_ID k = Some row" for k row
    using that wf_rows batch_db_okD [OF ok(1)] batch_db_okD [OF ok(2)] by blast
  show ?thesis
  proof (cases x)
    case (No1 n)
    then obtain row where row: "db_tab db DISTRICT_TABLE_ID (district_key (no_at b n)) = Some row" "next_o_id row = bv_o_id v n"
      using pre by (auto simp: row_at_def split: option.splits)
    then obtain row' where row': "db_tab db' DISTRICT_TABLE_ID (district_key (no_at b n)) = Some row'" "drop 147 row' = drop 147 row"
      using same No1 by (cases "db_tab db' DISTRICT_TABLE_ID (district_key (no_at b n))") auto
    have "length row = 151" "length row' = 151" using len row(1) row'(1) by blast+
    then have "next_o_id row' = next_o_id row" using row'(2) by (simp add: next_o_id_tail)
    then show ?thesis using row row' No1 by (simp add: row_at_def)
  next
    case (No6 n)
    then show ?thesis using pre order_lines_same [OF ok] same by simp
  next
    case (Del2 q d)
    then show ?thesis using pre order_lines_same [OF ok] same by simp
  next
    case (Del1 q d)
    have s: "same_part (NewOrders (wkey [d, del_w_id (del_at b q)])) db db'" using same Del1 by simp
    show ?thesis using pre Del1 by (simp add: to_deliver_same [OF parts s])
  next
    case (Pay2 k)
    then show ?thesis
      using pre same by (cases "db_tab db' DISTRICT_TABLE_ID (wkey [pay_d_id (pay_at b k), pay_w_id (pay_at b k)])") auto
  next
    case (No2 n)
    then show ?thesis using pre same kinds(1) [of "nop_w_id (no_at b n)" "nop_d_id (no_at b n)"] by simp
  next
    case (No3 n)
    then show ?thesis using pre same kinds(2) [of "nop_w_id (no_at b n)" "nop_d_id (no_at b n)"] by simp
  next
    case (No4 n i)
    then show ?thesis using pre same by (simp add: row_at_def)
  next
    case (Del3 q d)
    then show ?thesis using pre same kinds(1) [of "del_w_id (del_at b q)" d] by (simp add: row_at_def)
  qed (use pre same in simp_all)
qed

section \<open>What a step changes\<close>

fun touches :: "db_part \<Rightarrow> nat \<Rightarrow> bytes \<Rightarrow> bool" where
  "touches (Cell j k') i k \<longleftrightarrow> row_table i \<and> j = i \<and> k' = k"
| "touches (Lines p) i k \<longleftrightarrow> order_line_table i \<and> take 12 k = p"
| "touches (NewOrders s) i k \<longleftrightarrow>
     new_order_table i \<and> drop 4 k = s \<or> i = DISTRICT_NEW_ORDER_TABLE_ID \<and> drop 4 k @ take 4 k = s"
| "touches (NextId k') i k \<longleftrightarrow> i = DISTRICT_TABLE_ID \<and> k' = k"
| "touches (DistrictRest k') i k \<longleftrightarrow> i = DISTRICT_TABLE_ID \<and> k' = k"
| "touches HistoryRows i k \<longleftrightarrow> False"
| "touches (NoPart n j) i k \<longleftrightarrow> False"

lemma untouched:
  assumes "\<And>i k. touches r i k \<Longrightarrow> db_tab db i k = db_tab db' i k" "db_rows db = db_rows db'"
  shows "same_part r db db'"
  using assms by (cases r) auto

lemma put_other: "\<not> touches r i k \<Longrightarrow> same_part r db (a_put i k row db)"
  by (rule untouched) auto

lemma remove_other: "\<not> touches r i k \<Longrightarrow> same_part r db (a_remove i k db)"
  by (rule untouched) auto

lemma modify_other: "\<not> touches r i k \<Longrightarrow> same_part r db (a_modify i k f db)"
  by (rule untouched) auto

lemma modify_where_other:
  assumes "\<And>k row. db_tab db i k = Some row \<Longrightarrow> P row \<Longrightarrow> \<not> touches r i k"
  shows "same_part r db (a_modify_where i P f db)"
proof (rule untouched)
  fix j k assume t: "touches r j k"
  show "db_tab db j k = db_tab (a_modify_where i P f db) j k"
    using assms [of k] t by (cases "db_tab db j k") auto
qed simp

lemma same_part_trans: "same_part r db1 db2 \<Longrightarrow> same_part r db2 db3 \<Longrightarrow> same_part r db1 db3"
  by (cases r) auto

lemma same_part_sym: "same_part r db db' \<Longrightarrow> same_part r db' db"
  by (cases r) auto

lemma same_part_refl: "same_part r db db"
  by (cases r) auto

lemma put_same: "same_part r db db' \<Longrightarrow> same_part r (a_put i k row db) (a_put i k row db')"
  by (cases r) auto

lemma remove_same: "same_part r db db' \<Longrightarrow> same_part r (a_remove i k db) (a_remove i k db')"
  by (cases r) auto

lemma modify_same:
  "i \<noteq> DISTRICT_TABLE_ID \<Longrightarrow> same_part r db db' \<Longrightarrow> same_part r (a_modify i k f db) (a_modify i k f db')"
  by (cases r) auto

lemma modify_where_same:
  "i \<noteq> DISTRICT_TABLE_ID \<Longrightarrow> same_part r db db' \<Longrightarrow> same_part r (a_modify_where i P f db) (a_modify_where i P f db')"
  by (cases r) auto

lemma a_lines_same:
  "same_part r db db' \<Longrightarrow> same_part r (a_lines E p o_id ds am n db) (a_lines E p o_id ds am n db')"
  by (induction n) (simp_all add: a_line_def put_same)

lemma line_key_order: "take 12 (line_key p o_id i) = order_key p o_id"
  by (simp add: line_key_def)

text \<open>A row belongs to one part.\<close>

lemma touches_iff:
  "row_table i \<Longrightarrow> touches r i k \<longleftrightarrow> r = Cell i k"
  "order_line_table i \<Longrightarrow> touches r i k \<longleftrightarrow> r = Lines (take 12 k)"
  "new_order_table i \<Longrightarrow> touches r i k \<longleftrightarrow> r = NewOrders (drop 4 k)"
  "touches r DISTRICT_NEW_ORDER_TABLE_ID k \<longleftrightarrow> r = NewOrders (drop 4 k @ take 4 k)"
  "touches r DISTRICT_TABLE_ID k \<longleftrightarrow> r = NextId k \<or> r = DistrictRest k"
proof -
  have no: "order_line_table j \<Longrightarrow> \<not> new_order_table j" for j
    by (auto simp: order_line_table_def new_order_table_def tpcc_table_ids)
  show "row_table i \<Longrightarrow> touches r i k \<longleftrightarrow> r = Cell i k"
    by (cases r) (auto simp: row_table_def)
  show "order_line_table i \<Longrightarrow> touches r i k \<longleftrightarrow> r = Lines (take 12 k)"
    using no by (cases r) (auto simp: row_table_def)
  show "new_order_table i \<Longrightarrow> touches r i k \<longleftrightarrow> r = NewOrders (drop 4 k)"
    using no by (cases r) (auto simp: row_table_def)
  show "touches r DISTRICT_NEW_ORDER_TABLE_ID k \<longleftrightarrow> r = NewOrders (drop 4 k @ take 4 k)"
    by (cases r) auto
  show "touches r DISTRICT_TABLE_ID k \<longleftrightarrow> r = NextId k \<or> r = DistrictRest k"
    by (cases r) auto
qed

lemma a_lines_apart:
  fixes E :: "'g tpcc_env"
  assumes "r \<noteq> Lines (order_key p o_id)" "parts_ok E"
  shows "same_part r db (a_lines E p o_id ds am n db)"
proof (induction n)
  case (Suc n)
  have t: "order_line_table (line_table E p)"
    using part_kinds(3) [OF parts_okD [OF assms(2)], of "nop_w_id p" "nop_d_id p"] by (simp add: line_table_def)
  have "\<not> touches r (line_table E p) (line_key p o_id n)"
    using assms(1) by (simp add: touches_iff(2) [OF t] line_key_order)
  from same_part_trans [OF Suc put_other [OF this]] show ?case by (simp add: a_line_def)
qed (simp add: same_part_refl)

lemma a_take_eq:
  "a_take E w d db = (case to_deliver E w db d of None \<Rightarrow> db | Some o_id \<Rightarrow>
     a_modify DISTRICT_NEW_ORDER_TABLE_ID (dno_key w d) oldest_advanced
       (a_remove (NEW_ORDER_TABLE_ID + district_part E w d) (wkey [o_id, d, w]) db))"
  by (rule a_take_def)

lemma call_eff_same:
  assumes ok: "batch_db_ok E db" "batch_db_ok E db'" and same: "same_part (call_part E b v x) db db'"
    and pre: "call_pre E b v x db"
  shows "same_part (call_part E b v x) (call_eff E b v x db) (call_eff E b v x db')"
proof -
  have parts: "parts_ok E" using ok(1) by (simp add: batch_db_ok_def)
  have len: "length row = 151" if "db_tab db DISTRICT_TABLE_ID k = Some row \<or> db_tab db' DISTRICT_TABLE_ID k = Some row" for k row
    using that wf_rows batch_db_okD [OF ok(1)] batch_db_okD [OF ok(2)] by blast
  have not_district: "ORDER_TABLE_ID + a \<noteq> DISTRICT_TABLE_ID" "ORDER_LINE_TABLE_ID + a \<noteq> DISTRICT_TABLE_ID" for a
    by (simp_all add: tpcc_table_ids)
  show ?thesis
  proof (cases x)
    case (No1 n)
    let ?k = "district_key (no_at b n)"
    obtain row where row: "db_tab db DISTRICT_TABLE_ID ?k = Some row"
      using pre No1 by (auto simp: row_at_def split: option.splits)
    obtain row' where row': "db_tab db' DISTRICT_TABLE_ID ?k = Some row'" "drop 147 row' = drop 147 row"
      using same No1 row by (cases "db_tab db' DISTRICT_TABLE_ID ?k") auto
    have "length row = 151" "length row' = 151" using len row(1) row'(1) by blast+
    then show ?thesis using No1 row row' by (simp add: district_advanced_halves)
  next
    case (Pay2 k)
    let ?k = "wkey [pay_d_id (pay_at b k), pay_w_id (pay_at b k)]"
    obtain row where row: "db_tab db DISTRICT_TABLE_ID ?k = Some row" using pre Pay2 by auto
    obtain row' where row': "db_tab db' DISTRICT_TABLE_ID ?k = Some row'" "take 147 row' = take 147 row"
      using same Pay2 row by (cases "db_tab db' DISTRICT_TABLE_ID ?k") auto
    have l: "length row = 151" "length row' = 151" using len row(1) row'(1) by blast+
    have "take 139 row' = take 139 (take 147 row')" by simp
    also have "\<dots> = take 139 row" unfolding row'(2) by simp
    finally show ?thesis using Pay2 row row' l by (simp add: district_paid_halves)
  next
    case (Del1 q d)
    have td: "to_deliver E (del_w_id (del_at b q)) db d = to_deliver E (del_w_id (del_at b q)) db' d"
      using to_deliver_same(1) [OF parts] same Del1 by simp
    show ?thesis
    proof (cases "to_deliver E (del_w_id (del_at b q)) db' d")
      case None
      then show ?thesis using Del1 same td by (simp only: call_eff.simps a_take_eq option.case)
    next
      case (Some o_id)
      have "DISTRICT_NEW_ORDER_TABLE_ID \<noteq> DISTRICT_TABLE_ID" by simp
      from modify_same [OF this remove_same [OF same]]
      show ?thesis using Del1 td Some by (simp only: call_eff.simps a_take_eq option.case)
    qed
  next
    case (No2 n)
    then show ?thesis using put_same [OF same] by (simp only: call_eff.simps)
  next
    case (No3 n)
    then show ?thesis using put_same [OF same] by (simp only: call_eff.simps)
  next
    case (No4 n i)
    have "STOCK_TABLE_ID \<noteq> DISTRICT_TABLE_ID" by simp
    from modify_same [OF this same] show ?thesis using No4 by (simp only: call_eff.simps a_stock_def)
  next
    case (No6 n)
    then show ?thesis using a_lines_same [OF same] by (simp only: call_eff.simps)
  next
    case (Del2 q d)
    from modify_where_same [OF not_district(2) same] show ?thesis using Del2 by (simp only: call_eff.simps a_deliver_lines_def)
  next
    case (Del3 q d)
    from modify_same [OF not_district(1) same] show ?thesis using Del3 by (simp only: call_eff.simps a_deliver_order_def)
  next
    case (Del4 q d)
    have "CUSTOMER_TABLE_ID \<noteq> DISTRICT_TABLE_ID" by simp
    from modify_same [OF this same] show ?thesis using Del4 by (simp only: call_eff.simps a_credit_def)
  next
    case (Pay4 k)
    have "CUSTOMER_TABLE_ID \<noteq> DISTRICT_TABLE_ID" by simp
    from modify_same [OF this same] show ?thesis using Pay4 by (simp only: call_eff.simps)
  next
    case (Pay1 k)
    have "WAREHOUSE_TABLE_ID \<noteq> DISTRICT_TABLE_ID" by simp
    from modify_same [OF this same] show ?thesis using Pay1 by (simp only: call_eff.simps)
  next
    case (Pay3 k)
    then show ?thesis using same by (simp add: fun_eq_iff)
  qed simp
qed

lemma call_eff_other:
  assumes ok: "batch_db_ok E db" and pre: "call_pre E b v x db" and r: "r \<noteq> call_part E b v x"
  shows "same_part r db (call_eff E b v x db)"
proof -
  have parts: "parts_ok E" using ok by (simp add: batch_db_ok_def)
  note kinds = part_kinds [OF parts_okD [OF parts]]
  have len: "length row = 151" if "db_tab db DISTRICT_TABLE_ID k = Some row" for k row
    using that wf_rows batch_db_okD [OF ok] by blast
  have cell: "same_part r db (a_modify i k f db)" if "row_table i" "r \<noteq> Cell i k" for i k f
    using that by (intro modify_other) (simp add: touches_iff)
  show ?thesis
  proof (cases x)
    case (No1 n)
    have "same_part (DistrictRest k) db (a_modify DISTRICT_TABLE_ID (district_key (no_at b n)) district_advanced db)" for k
      using len by (cases "db_tab db DISTRICT_TABLE_ID k") (auto simp: district_advanced_halves)
    moreover have "same_part r db (a_modify DISTRICT_TABLE_ID (district_key (no_at b n)) district_advanced db)"
      if "r \<noteq> DistrictRest (district_key (no_at b n))"
      using that r No1 by (intro modify_other) (simp add: touches_iff(5))
    ultimately show ?thesis using No1 by (simp only: call_eff.simps) blast
  next
    case (Pay2 k)
    let ?k = "wkey [pay_d_id (pay_at b k), pay_w_id (pay_at b k)]"
    let ?f = "district_paid (env_dbl E) (pay_h_amount (pay_at b k))"
    have "same_part (NextId k') db (a_modify DISTRICT_TABLE_ID ?k ?f db)" for k'
      using len by (cases "db_tab db DISTRICT_TABLE_ID k'") (auto simp: district_paid_halves)
    moreover have "same_part r db (a_modify DISTRICT_TABLE_ID ?k ?f db)" if "r \<noteq> NextId ?k"
      using that r Pay2 by (intro modify_other) (simp add: touches_iff(5))
    ultimately show ?thesis using Pay2 by (simp only: call_eff.simps) blast
  next
    case (Pay3 k)
    then show ?thesis using r by (cases r) auto
  next
    case (No2 n)
    then show ?thesis
      using r kinds(1) [of "nop_w_id (no_at b n)" "nop_d_id (no_at b n)"]
      by (simp only: call_eff.simps call_part.simps) (intro put_other, simp add: touches_iff)
  next
    case (No3 n)
    then show ?thesis
      using r kinds(2) [of "nop_w_id (no_at b n)" "nop_d_id (no_at b n)"]
      by (simp only: call_eff.simps call_part.simps) (intro put_other, simp add: touches_iff)
  next
    case (No4 n i)
    then show ?thesis using cell r by (simp add: a_stock_def)
  next
    case (No6 n)
    then show ?thesis using a_lines_apart [OF _ parts] r by simp
  next
    case (Del1 q d)
    let ?w = "del_w_id (del_at b q)"
    have t: "new_order_table (NEW_ORDER_TABLE_ID + district_part E ?w d)" by (rule kinds(2))
    show ?thesis
    proof (cases "to_deliver E ?w db d")
      case (Some o_id)
      have "same_part r db (a_remove (NEW_ORDER_TABLE_ID + district_part E ?w d) (wkey [o_id, d, ?w]) db)"
        using r Del1 by (intro remove_other) (simp add: touches_iff(3) [OF t])
      moreover have "same_part r db1 (a_modify DISTRICT_NEW_ORDER_TABLE_ID (dno_key ?w d) oldest_advanced db1)" for db1
        using r Del1 by (intro modify_other) (simp add: touches_iff(4))
      ultimately show ?thesis
        unfolding Del1 call_eff.simps a_take_eq Some option.case by (rule same_part_trans)
    qed (use Del1 in \<open>simp add: a_take_eq same_part_refl\<close>)
  next
    case (Del2 q d)
    let ?w = "del_w_id (del_at b q)"
    have t: "order_line_table (ORDER_LINE_TABLE_ID + district_part E ?w d)" by (rule kinds(3))
    have "\<not> touches r (ORDER_LINE_TABLE_ID + district_part E ?w d) k"
      if "db_tab db (ORDER_LINE_TABLE_ID + district_part E ?w d) k = Some row" "of_order (due_id v q d) d ?w row" for k row
      using r Del2 that lines_keyedD(3) [OF ok that(1)] by (simp add: touches_iff(2) [OF t])
    from modify_where_other [OF this] show ?thesis using Del2 by (simp add: a_deliver_lines_def)
  next
    case (Del3 q d)
    then show ?thesis using cell [OF kinds(1)] r by (simp add: a_deliver_order_def)
  next
    case (Del4 q d)
    then show ?thesis using cell r by (simp add: a_credit_def)
  next
    case (Pay4 k)
    then show ?thesis using cell r by simp
  next
    case (Pay1 k)
    then show ?thesis using cell r by simp
  qed (simp add: same_part_refl)
qed

section \<open>Well-formedness is kept\<close>

lemma wf_remove: "tpcc_wf E db \<Longrightarrow> tpcc_wf E (a_remove i k db)"
  unfolding tpcc_wf_def by (auto split: if_splits)

lemma registry_parts:
  assumes "parts_ok E"
  shows "tpcc_registry (env_cfg E) (ORDER_TABLE_ID + district_part E w d) = Some (order_schema, True, [])"
    "tpcc_registry (env_cfg E) (NEW_ORDER_TABLE_ID + district_part E w d) = Some (new_order_schema, True, [])"
    "tpcc_registry (env_cfg E) (ORDER_LINE_TABLE_ID + district_part E w d) =
       Some (order_line_schema, True, [order_line_index])"
  using tpcc_registry_parts [OF district_part_less] assms by (auto simp: parts_ok_def)

lemma row_lengths:
  "length row = 143 \<Longrightarrow> length (warehouse_paid D a row) = 143"
  "length row = 767 \<Longrightarrow> length (customer_paid D a row) = 767"
  "length row = 767 \<Longrightarrow> length (customer_credited D a row) = 767"
  "length row = 36 \<Longrightarrow> length (order_delivered c row) = 36"
  "length row = 12 \<Longrightarrow> length (oldest_advanced row) = 12"
  using tpcc_schema_inv
  by (simp_all add: warehouse_paid_def customer_paid_def customer_credited_def order_delivered_def oldest_advanced_def length_row_with)

lemma new_order_row_length: "length (new_order_row E p o_id) = 12"
  using length_row_of [OF tpcc_schema_inv(7) order_writable(2), of "new_chars (env_cfg E) 12" p o_id]
  by (simp add: new_order_row_def)

lemma order_line_row_length: "length s \<le> 32 \<Longrightarrow> length (order_line_row E p o_id s a i) = 76"
  using length_row_of [OF tpcc_schema_inv(8) order_line_writable, of s "new_chars (env_cfg E) 76" p o_id a i]
  by (simp add: order_line_row_def)

lemma a_lines_ok:
  fixes E :: "'g tpcc_env"
  assumes ok: "batch_db_ok E db" and ds: "\<forall>s \<in> set ds. length s \<le> 32" and n: "n \<le> length ds"
  shows "tpcc_wf E (a_lines E p o_id ds am n db) \<and> lines_keyed E (a_lines E p o_id ds am n db)"
  using n
proof (induction n)
  case 0
  then show ?case using ok by (simp add: batch_db_ok_def)
next
  case (Suc n)
  let ?db = "a_lines E p o_id ds am n db" and ?t = "line_table E p"
  let ?row = "order_line_row E p o_id (ds ! n) (am ! n) n"
  have parts: "parts_ok E" using ok by (simp add: batch_db_ok_def)
  have IH: "tpcc_wf E ?db" "lines_keyed E ?db" using Suc by simp_all
  have s: "length (ds ! n) \<le> 32" using ds Suc.prems by simp
  have row: "length ?row = 76" by (rule order_line_row_length [OF s])
  have reg: "tpcc_registry (env_cfg E) ?t = Some (order_line_schema, True, [order_line_index])"
    using registry_parts(3) [OF parts] by (simp add: line_table_def)
  have of: "of_order o_id' d w ?row \<longleftrightarrow> take 12 (line_key p o_id n) = wkey [o_id', d, w]" for o_id' d w
    using order_line_cols(2-4) [OF s, of E p o_id "am ! n" n] by (auto simp: of_order_def line_key_order)
  have key: "length (line_key p o_id n) = 16" by (simp add: line_key_def length_wkey)
  have "tpcc_wf E (a_put ?t (line_key p o_id n) ?row ?db)"
    by (rule wf_put [OF IH(1)]) (use reg row in simp)
  moreover have "lines_keyed E (a_put ?t (line_key p o_id n) ?row ?db)"
    using IH(2) row of key unfolding lines_keyed_def by (simp split: if_splits)
  ultimately show ?case by (simp add: a_line_def)
qed

lemma deliver_lines_keyed:
  fixes E :: "'g tpcc_env"
  assumes "batch_db_ok E db"
  shows "tpcc_wf E (a_deliver_lines E p d o_id db) \<and> lines_keyed E (a_deliver_lines E p d o_id db)"
proof
  let ?t = "ORDER_LINE_TABLE_ID + district_part E (del_w_id p) d"
  have ok: "parts_ok E" "tpcc_wf E db" "lines_keyed E db" using assms by (simp_all add: batch_db_ok_def)
  have row: "length (line_delivered (del_ol_delivery_d p) row) = 76"
    "of_order o_id' d' w (line_delivered (del_ol_delivery_d p) row) \<longleftrightarrow> of_order o_id' d' w row"
    if "db_tab db ?t k = Some row" for k row o_id' d' w
    using line_delivered_cols [OF lines_keyedD(1) [OF assms that]] by simp_all
  show "tpcc_wf E (a_deliver_lines E p d o_id db)"
    unfolding tpcc_wf_def
  proof (intro allI impI)
    fix i s smbs k r
    assume reg: "tpcc_registry (env_cfg E) i = Some (s, True, smbs)" and at: "db_tab (a_deliver_lines E p d o_id db) i k = Some r"
    show "length r = getSchemaSize s"
    proof (cases "i = ?t")
      case True
      then obtain row0 where row0: "db_tab db ?t k = Some row0" "r = row0 \<or> r = line_delivered (del_ol_delivery_d p) row0"
        using at by (auto simp: a_deliver_lines_def)
      have "s = order_line_schema" using reg registry_parts(3) [OF ok(1), of "del_w_id p" d] True by simp
      then show ?thesis using row0 row(1) lines_keyedD(1) [OF assms row0(1)] by auto
    next
      case False
      then show ?thesis using ok(2) reg at unfolding tpcc_wf_def by (simp add: a_deliver_lines_def) blast
    qed
  qed
  show "lines_keyed E (a_deliver_lines E p d o_id db)"
    unfolding lines_keyed_def
  proof (intro allI impI)
    fix i k r
    assume i: "ORDER_LINE_TABLE_ID \<le> i" "i < ORDER_LINE_TABLE_ID + partitions (env_cfg E)"
      and at: "db_tab (a_deliver_lines E p d o_id db) i k = Some r"
    have old: "length r0 = 76 \<and> length k = 16 \<and> (\<forall>o_id d w. of_order o_id d w r0 \<longleftrightarrow> take 12 k = wkey [o_id, d, w])"
      if "db_tab db i k = Some r0" for r0
      using ok(3) i that unfolding lines_keyed_def by blast
    show "length r = 76 \<and> length k = 16 \<and> (\<forall>o_id d w. of_order o_id d w r \<longleftrightarrow> take 12 k = wkey [o_id, d, w])"
    proof (cases "i = ?t")
      case True
      then obtain row0 where row0: "db_tab db ?t k = Some row0" "r = row0 \<or> r = line_delivered (del_ol_delivery_d p) row0"
        using at by (auto simp: a_deliver_lines_def)
      show ?thesis using row0(2) row [OF row0(1)] old [of row0] row0(1) True by auto
    next
      case False
      then show ?thesis using old at by (simp add: a_deliver_lines_def)
    qed
  qed
qed

lemma call_eff_ok:
  fixes E :: "'g tpcc_env"
  assumes ok: "batch_db_ok E db" and pre: "call_pre E b v x db"
  shows "batch_db_ok E (call_eff E b v x db)"
proof -
  have o: "parts_ok E" "3 \<le> length (env_stack E)" "tpcc_wf E db" "lines_keyed E db"
    using ok by (simp_all add: batch_db_ok_def)
  note reg = registry_parts [OF o(1)]
  note kinds = part_kinds [OF parts_okD [OF o(1)]]
  have keyed: "lines_keyed E db'" if "\<And>i. order_line_table i \<Longrightarrow> db_tab db' i = db_tab db i" for db'
    using keyed_other [OF o(4) that o(1)] by blast
  have row: "lines_keyed E (a_modify i k f db)" "lines_keyed E (a_put i k r db)" if "\<not> order_line_table i" for i k f r
    using that by (auto intro!: keyed simp: fun_eq_iff)
  have "tpcc_wf E (call_eff E b v x db) \<and> lines_keyed E (call_eff E b v x db)"
  proof (cases x)
    case (No1 n)
    have "tpcc_wf E (a_modify DISTRICT_TABLE_ID (district_key (no_at b n)) district_advanced db)"
      by (rule wf_modify [OF o(3) tpcc_registry_simps(3)]) (simp add: district_advanced_halves)
    then show ?thesis using No1 row(1) by simp
  next
    case (No2 n)
    have "tpcc_wf E (a_put (ORDER_TABLE_ID + no_part E (no_at b n)) (order_key (no_at b n) (bv_o_id v n))
        (order_row E (no_at b n) (bv_o_id v n)) db)"
      by (rule wf_put [OF o(3)]) (use reg order_cols(1) [OF o(2)] in simp)
    then show ?thesis using No2 row(2) [OF kinds(7)] by simp
  next
    case (No3 n)
    have "tpcc_wf E (a_put (NEW_ORDER_TABLE_ID + no_part E (no_at b n)) (order_key (no_at b n) (bv_o_id v n))
        (new_order_row E (no_at b n) (bv_o_id v n)) db)"
      by (rule wf_put [OF o(3)]) (use reg new_order_row_length in simp)
    then show ?thesis using No3 row(2) [OF kinds(4)] by simp
  next
    case (No4 n i)
    have "tpcc_wf E (a_stock (no_at b n) i db)"
      unfolding a_stock_def by (rule wf_modify [OF o(3) tpcc_registry_simps(6)]) (simp add: stock_ordered_cols)
    then show ?thesis using No4 row(1) by (simp add: a_stock_def)
  next
    case (No6 n)
    then show ?thesis
      using a_lines_ok [OF ok, of "dists_of v b n" "order_length (no_at b n)"] pre by (simp add: dists_of_def)
  next
    case (Pay1 k)
    have "tpcc_wf E (a_modify WAREHOUSE_TABLE_ID (wkey [pay_w_id (pay_at b k)]) (warehouse_paid (env_dbl E) (pay_h_amount (pay_at b k))) db)"
      by (rule wf_modify [OF o(3) tpcc_registry_simps(2)]) (simp add: row_lengths)
    then show ?thesis using Pay1 row(1) by simp
  next
    case (Pay2 k)
    have "tpcc_wf E (a_modify DISTRICT_TABLE_ID (wkey [pay_d_id (pay_at b k), pay_w_id (pay_at b k)])
        (district_paid (env_dbl E) (pay_h_amount (pay_at b k))) db)"
      by (rule wf_modify [OF o(3) tpcc_registry_simps(3)]) (simp add: district_paid_halves)
    then show ?thesis using Pay2 row(1) by simp
  next
    case (Pay3 k)
    have "tpcc_wf E (a_append HISTORY_TABLE_ID (history_row E (pay_at b k) (bv_h_data v k)) db)"
      using o(3) by (simp add: tpcc_wf_def)
    then show ?thesis using Pay3 keyed by simp
  next
    case (Pay4 k)
    have "tpcc_wf E (a_modify CUSTOMER_TABLE_ID (wkey [pay_c_id (pay_at b k), pay_d_id (pay_at b k), pay_w_id (pay_at b k)])
        (customer_paid (env_dbl E) (pay_h_amount (pay_at b k))) db)"
      by (rule wf_modify [OF o(3) tpcc_registry_simps(4)]) (simp add: row_lengths)
    then show ?thesis using Pay4 row(1) by simp
  next
    case (Del1 q d)
    let ?w = "del_w_id (del_at b q)"
    have "tpcc_wf E (a_take E ?w d db)"
    proof (cases "to_deliver E ?w db d")
      case (Some o_id)
      have "tpcc_wf E (a_modify DISTRICT_NEW_ORDER_TABLE_ID (dno_key ?w d) oldest_advanced
          (a_remove (NEW_ORDER_TABLE_ID + district_part E ?w d) (wkey [o_id, d, ?w]) db))"
        by (rule wf_modify [OF wf_remove [OF o(3)] tpcc_registry_simps(7)]) (simp add: row_lengths)
      then show ?thesis using Some by (simp only: a_take_eq option.case)
    qed (use o(3) in \<open>simp add: a_take_eq\<close>)
    moreover have "lines_keyed E (a_take E ?w d db)"
    proof (rule keyed)
      fix i assume i: "order_line_table i"
      then have "i \<noteq> DISTRICT_NEW_ORDER_TABLE_ID" "i \<noteq> NEW_ORDER_TABLE_ID + district_part E ?w d"
        using kinds(4) [of ?w d] by auto
      then show "db_tab (a_take E ?w d db) i = db_tab db i" by (simp add: a_take_eq fun_eq_iff split: option.split)
    qed
    ultimately show ?thesis using Del1 by simp
  next
    case (Del2 q d)
    then show ?thesis using deliver_lines_keyed [OF ok] by simp
  next
    case (Del3 q d)
    have "tpcc_wf E (a_deliver_order E (del_at b q) d (due_id v q d) db)"
      unfolding a_deliver_order_def by (rule wf_modify [OF o(3) reg(1)]) (simp add: row_lengths)
    then show ?thesis using Del3 row(1) [OF kinds(7)] by (simp add: a_deliver_order_def)
  next
    case (Del4 q d)
    have "tpcc_wf E (a_credit (env_dbl E) (del_w_id (del_at b q)) d (bv_c_id v q d) (bv_sum v q d) db)"
      unfolding a_credit_def by (rule wf_modify [OF o(3) tpcc_registry_simps(4)]) (simp add: row_lengths)
    then show ?thesis using Del4 row(1) by (simp add: a_credit_def)
  qed (use o in simp)
  then show ?thesis using o by (simp add: batch_db_ok_def)
qed

section \<open>The contract\<close>

lemma same_parts_eq:
  fixes E :: "'g tpcc_env"
  assumes ok: "batch_db_ok E db" "batch_db_ok E db'" and same: "\<And>r. same_part r db db'"
  shows "db = db'"
proof -
  have len: "length row = 151" if "db_tab db DISTRICT_TABLE_ID k = Some row \<or> db_tab db' DISTRICT_TABLE_ID k = Some row" for k row
    using that wf_rows batch_db_okD [OF ok(1)] batch_db_okD [OF ok(2)] by blast
  have "db_tab db i k = db_tab db' i k" for i k
  proof -
    consider "row_table i" | "order_line_table i" | "new_order_table i" | "i = DISTRICT_NEW_ORDER_TABLE_ID" | "i = DISTRICT_TABLE_ID"
      by (auto simp: row_table_def)
    then show ?thesis
    proof cases
      case 1
      then show ?thesis using same [of "Cell i k"] by simp
    next
      case 2
      then show ?thesis using same [of "Lines (take 12 k)"] by simp
    next
      case 3
      then show ?thesis using same [of "NewOrders (drop 4 k)"] by simp
    next
      case 4
      then show ?thesis using same [of "NewOrders (drop 4 k @ take 4 k)"] by (simp del: append_take_drop_id)
    next
      case 5
      have n: "map_option (drop 147) (db_tab db DISTRICT_TABLE_ID k) = map_option (drop 147) (db_tab db' DISTRICT_TABLE_ID k)"
        "map_option (take 147) (db_tab db DISTRICT_TABLE_ID k) = map_option (take 147) (db_tab db' DISTRICT_TABLE_ID k)"
        using same [of "NextId k"] same [of "DistrictRest k"] by simp_all
      show ?thesis
      proof (cases "db_tab db DISTRICT_TABLE_ID k")
        case None
        then show ?thesis using n(1) 5 by simp
      next
        case (Some row)
        then obtain row' where row': "db_tab db' DISTRICT_TABLE_ID k = Some row'" "drop 147 row' = drop 147 row"
            "take 147 row' = take 147 row"
          using n by (cases "db_tab db' DISTRICT_TABLE_ID k") auto
        have "row' = row" by (rule append_take_drop_id [THEN subst, of _ 147 row']) (simp add: row'(2,3))
        then show ?thesis using Some row'(1) 5 by simp
      qed
    qed
  qed
  moreover have "db_rows db = db_rows db'" using same [of HistoryRows] by simp
  ultimately show ?thesis by (intro database.equality) (simp_all add: fun_eq_iff)
qed

interpretation batch: resource_steps "call_pre E b v" "call_eff E b v" "call_part E b v" same_part "batch_db_ok E"
  for E :: "'g tpcc_env" and b v
proof unfold_locales
  show "same_part r db db" for r db by (rule same_part_refl)
  show "same_part r db db' \<Longrightarrow> same_part r db' db" for r db db' by (rule same_part_sym)
  show "same_part r db1 db2 \<Longrightarrow> same_part r db2 db3 \<Longrightarrow> same_part r db1 db3" for r db1 db2 db3 by (rule same_part_trans)
qed (auto intro: call_pre_same call_eff_same call_eff_other call_eff_ok same_parts_eq)

end
