(* ===== verification/TpccBatchSerial.thy ===== *)
theory TpccBatchSerial
  imports TpccBatchParts
begin

text \<open>
  The calls of a batch in the order of the serial processor (benchmark/tpcc/TpccSerialProcessor.cc): executing
  them as steps on the maps succeeds on a consistent database and does what the transactions do, one after
  the other.
\<close>

section \<open>The calls of a transaction\<close>

definition due_districts :: "batch_values \<Rightarrow> nat \<Rightarrow> 32 word list" where
  "due_districts v q = filter (\<lambda>d. bv_due v q d \<noteq> None) all_districts"

fun event_calls :: "batch_values \<Rightarrow> tpcc_event \<Rightarrow> nat \<Rightarrow> nat \<Rightarrow> nat \<Rightarrow> tpcc_call list" where
  "event_calls v (DELIVERY p) n q k =
     map (Del1 q) all_districts @ map (Del2 q) (due_districts v q) @ map (Del3 q) (due_districts v q) @
     map (Del4 q) (due_districts v q)"
| "event_calls v (NEW_ORDER p) n q k =
     [No1 n, No2 n, No3 n] @ map (No4 n) [0..<order_length p] @ map (No5 n) [0..<order_length p] @ [No6 n]"
| "event_calls v (PAYMENT p) n q k = [Pay1 k, Pay2 k, Pay3 k, Pay4 k]"
| "event_calls v e n q k = []"

text \<open>The values of a transaction, as they are in the database when it starts.\<close>

definition order_values :: "'g tpcc_env \<Rightarrow> new_order_param \<Rightarrow> batch_values \<Rightarrow> nat \<Rightarrow> database \<Rightarrow> bool" where
  "order_values E p v n db \<longleftrightarrow>
     bv_o_id v n = next_o_id (the (db_tab db DISTRICT_TABLE_ID (district_key p))) \<and>
     (\<forall>i < order_length p. bv_dist v n i = dist_info p (the (db_tab db STOCK_TABLE_ID (stock_key p i))) \<and>
        bv_amount v n i = line_amount (env_dbl E) p (db_tab db ITEM_TABLE_ID) i)"

definition delivery_values :: "'g tpcc_env \<Rightarrow> delivery_param \<Rightarrow> batch_values \<Rightarrow> nat \<Rightarrow> database \<Rightarrow> bool" where
  "delivery_values E p v q db \<longleftrightarrow>
     (\<forall>d \<in> set all_districts. bv_due v q d = to_deliver E (del_w_id p) db d \<and>
        (\<forall>o_id. to_deliver E (del_w_id p) db d = Some o_id \<longrightarrow>
           bv_lines v q d = order_lines E (del_w_id p) d o_id db \<and>
           bv_c_id v q d = customer_of (the (order_at E (del_w_id p) d o_id db))))"

section \<open>Loops of steps\<close>

lemma run_map:
  "(\<And>ys x zs. xs = ys @ x # zs \<Longrightarrow> pre (c x) (fold (\<lambda>x. eff (c x)) ys s)) \<Longrightarrow>
   run_seq pre eff (map c xs) s = Some (fold (\<lambda>x. eff (c x)) xs s)"
proof (induction xs arbitrary: s)
  case (Cons x xs)
  have "pre (c x) s" using Cons.prems [of "[]" x xs] by simp
  moreover have "run_seq pre eff (map c xs) (eff (c x) s) = Some (fold (\<lambda>x. eff (c x)) xs (eff (c x) s))"
  proof (rule Cons.IH)
    fix ys y zs assume "xs = ys @ y # zs"
    then show "pre (c y) (fold (\<lambda>x. eff (c x)) ys (eff (c x) s))" using Cons.prems [of "x # ys" y zs] by simp
  qed
  ultimately show ?case by simp
qed simp

lemma run_upt:
  assumes "\<And>i. i < m \<Longrightarrow> pre (c i) (g i s) \<and> eff (c i) (g i s) = g (Suc i) s" "g 0 s = s"
  shows "run_seq pre eff (map c [0..<m]) s = Some (g m s)"
  using assms(1)
proof (induction m)
  case (Suc m)
  have "run_seq pre eff (map c [0..<m]) s = Some (g m s)" using Suc by simp
  then show ?case using Suc.prems [of m] by (simp add: run_seq_append)
qed (simp add: assms(2))

section \<open>New order\<close>

lemma no_lines_yet:
  assumes ok: "batch_db_ok E db" and con: "consistent E db" and drow: "district_at w d db = Some drow"
  shows "order_lines E w d (next_o_id drow) db = {}"
proof -
  obtain nrow where n: "district_consistent E db w d (oldest nrow) (next_o_id drow)" by (rule consistentE [OF con drow])
  have no: "line_at E w d (next_o_id drow) m db = None" for m
    using n unfolding district_consistent_def by (metis less_irrefl)
  have False if row: "take 12 k = wkey [next_o_id drow, d, w]"
    "db_tab db (ORDER_LINE_TABLE_ID + district_part E w d) k = Some row" for k row
  proof -
    have len: "length k = 16" by (rule lines_keyedD(2) [OF ok row(2)])
    have "k = take 12 k @ drop 12 k" by simp
    also have "\<dots> = wkey [next_o_id drow, d, w, of_bytes (drop 12 k)]"
      using row(1) len to_bytes_of_bytes_32 [of "drop 12 k"] by (simp add: wkey_def)
    finally show False using no [of "of_bytes (drop 12 k)"] row(2) by (simp add: line_at_def)
  qed
  then show ?thesis unfolding order_lines_keyed [OF ok] by blast
qed

lemma run_new_order:
  fixes E :: "'g tpcc_env"
  assumes ok: "batch_db_ok E db" and con: "consistent E db" and valid: "order_valid p db"
    and p: "no_at b n = p" and vals: "order_values E p v n db"
  shows "run_seq (call_pre E b v) (call_eff E b v) (event_calls v (NEW_ORDER p) n q k) db = Some (a_new_order E p db)"
proof -
  let ?run = "run_seq (call_pre E b v) (call_eff E b v)"
  let ?w = "nop_w_id p" and ?d = "nop_d_id p" and ?m = "order_length p"
  have parts: "parts_ok E" and wf: "tpcc_wf E db" using ok by (simp_all add: batch_db_ok_def)
  have part: "no_part E p < TPCC_MAX_PARTITION_CNT" by (rule parts_okD [OF parts])
  note ids = part_tables [OF part part] line_table_def
  obtain drow where drow: "district_at ?w ?d db = Some drow" using valid by (auto simp: order_valid_def)
  let ?o = "next_o_id drow"
  have at: "db_tab db DISTRICT_TABLE_ID (district_key p) = Some drow" using drow by (simp add: district_at_def)
  have o: "bv_o_id v n = ?o" using vals at by (simp add: order_values_def)
  have la: "lists_agree p" and ready: "\<And>i. i < ?m \<Longrightarrow> stock_ready p i (db_tab db STOCK_TABLE_ID)" and pos: "0 < ?m"
    using valid by (simp_all add: order_valid_def)
  have nr: "db_tab db (ORDER_TABLE_ID + no_part E p) (order_key p ?o) = None"
      "db_tab db (NEW_ORDER_TABLE_ID + no_part E p) (order_key p ?o) = None"
    using order_valid_ready [OF con valid] at by (auto simp: new_order_ready_def Let_def)
  have stock_len: "length row = 408" if "db_tab db STOCK_TABLE_ID k = Some row" for k row
    using wf that tpcc_registry_simps(6) unfolding tpcc_wf_def by fastforce
  let ?f1 = "a_modify DISTRICT_TABLE_ID (district_key p) district_advanced"
  let ?f2 = "a_put (ORDER_TABLE_ID + no_part E p) (order_key p ?o) (order_row E p ?o)"
  let ?f3 = "a_put (NEW_ORDER_TABLE_ID + no_part E p) (order_key p ?o) (new_order_row E p ?o)"
  let ?db3 = "?f3 (?f2 (?f1 db))"
  have r1: "?run [No1 n, No2 n, No3 n] db = Some ?db3"
    using p o at nr ids by (simp add: row_at_def)
  have stock3: "db_tab ?db3 STOCK_TABLE_ID = db_tab db STOCK_TABLE_ID" using ids by simp
  have r4: "?run (map (No4 n) [0..<?m]) ?db3 = Some (a_stocks p ?m ?db3)"
  proof (rule run_upt [where g = "\<lambda>i. a_stocks p i"])
    fix i assume i: "i < ?m"
    have same: "same_dists p (db_tab db STOCK_TABLE_ID) (db_tab (a_stocks p j ?db3) STOCK_TABLE_ID)" for j
    proof (induction j)
      case (Suc j)
      have "same_dists p (db_tab db STOCK_TABLE_ID) (db_tab (a_stock p j (a_stocks p j ?db3)) STOCK_TABLE_ID)"
      proof (rule same_dists_stock [OF Suc la])
        fix k row assume "db_tab (a_stocks p j ?db3) STOCK_TABLE_ID k = Some row"
        then show "length row = 408" by (rule stocks_kept(1) [rotated]) (rule stock_len, simp only: stock3)
      qed
      then show ?case by simp
    qed (simp add: same_dists_def ids)
    have "stock_ready p i (db_tab (a_stocks p i ?db3) STOCK_TABLE_ID)" by (rule same_dists_ready [OF same ready [OF i]])
    then obtain row where row: "db_tab (a_stocks p i ?db3) STOCK_TABLE_ID (stock_key p i) = Some row"
        "0 \<in> set (col_data stock_schema (dist_column p) row)"
      by (auto simp: stock_ready_def split: option.splits)
    obtain row0 where "db_tab db STOCK_TABLE_ID (stock_key p i) = Some row0"
        "col_data stock_schema (dist_column p) row = col_data stock_schema (dist_column p) row0"
      by (rule same_distsD [OF same row(1)])
    then have "dist_info p row = bv_dist v n i" using vals i by (simp add: order_values_def dist_info_def)
    then show "call_pre E b v (No4 n i) (a_stocks p i ?db3) \<and>
        call_eff E b v (No4 n i) (a_stocks p i ?db3) = a_stocks p (Suc i) ?db3"
      using p row by (simp add: row_at_def)
  qed simp
  let ?db4 = "a_stocks p ?m ?db3"
  have r5: "?run (map (No5 n) [0..<?m]) ?db4 = Some ?db4"
    by (rule run_upt [where g = "\<lambda>i. id", simplified]) simp
  have ds: "dists_of v b n = dist_infos p (db_tab db STOCK_TABLE_ID) ?m"
    using vals p by (simp add: dists_of_def dist_infos_def order_values_def)
  have am: "amounts_of v b n = map (line_amount (env_dbl E) p (db_tab db ITEM_TABLE_ID)) [0..<?m]"
    using vals p by (simp add: amounts_of_def order_values_def)
  have short: "\<forall>s \<in> set (dists_of v b n). length s \<le> 32"
  proof
    fix s assume "s \<in> set (dists_of v b n)"
    then obtain i where i: "i < ?m" "s = dist_info p (the (db_tab db STOCK_TABLE_ID (stock_key p i)))"
      unfolding ds by (auto simp: dist_infos_def)
    obtain r where "db_tab db STOCK_TABLE_ID (stock_key p i) = Some r"
      using ready [OF i(1)] by (auto simp: stock_ready_def split: option.splits)
    then show "length s \<le> 32" using i(2) stock_len dist_info_length [OF _ la] by simp
  qed
  have "db_tab ?db4 (ORDER_LINE_TABLE_ID + no_part E p) = db_tab db (ORDER_LINE_TABLE_ID + no_part E p)"
    using ids by (simp add: a_stocks_other)
  then have "order_lines E ?w ?d ?o ?db4 = {}"
    using no_lines_yet [OF ok con drow] by (simp add: order_lines_def)
  then have r6: "?run [No6 n] ?db4 = Some (a_new_order E p db)"
    using p o pos short at by (simp add: a_new_order_def Let_def ds am)
  show ?thesis
    by (simp only: event_calls.simps run_seq_append r1 r4 r5 r6 bind.simps)
qed

section \<open>Payment\<close>

lemma run_payment:
  assumes "payment_ready p db" "pay_at b k = p"
  shows "run_seq (call_pre E b v) (call_eff E b v) (event_calls v (PAYMENT p) n q k) db =
    Some (a_payment E p (bv_h_data v k) db)"
  using assms by (simp add: payment_ready_def a_payment_def del: not_None_eq)

section \<open>Delivery\<close>

text \<open>Lists with the same elements, each of which is on its own part, agree on every part.\<close>

lemma filter_same_elements:
  assumes "mset xs = mset ys" "inj_on f (set xs)" "distinct xs"
  shows "filter (\<lambda>x. f x = r) xs = filter (\<lambda>x. f x = r) ys"
proof -
  let ?P = "\<lambda>x. f x = r"
  have m: "mset (filter ?P xs) = mset (filter ?P ys)" using assms(1) by simp
  show ?thesis
  proof (cases "filter ?P xs")
    case Nil
    then show ?thesis using m by simp
  next
    case (Cons x zs)
    have "zs = []"
    proof (rule ccontr)
      assume "zs \<noteq> []"
      then obtain y ws where zs: "zs = y # ws" by (cases zs) auto
      have "set (filter ?P xs) = set (x # zs)" using Cons by simp
      moreover have "x \<in> set (x # zs)" "y \<in> set (x # zs)" using zs by simp_all
      ultimately have "x \<in> set (filter ?P xs)" "y \<in> set (filter ?P xs)" by simp_all
      then have "x \<in> set xs" "y \<in> set xs" "f x = r" "f y = r" by simp_all
      moreover have "distinct (filter ?P xs)" using assms(3) by (rule distinct_filter)
      then have "x \<noteq> y" unfolding Cons zs by simp
      ultimately have "x \<in> set xs" "y \<in> set xs" "f x = r" "f y = r" "x \<noteq> y" by simp_all
      then show False using assms(2) by (metis inj_onD)
    qed
    then have "mset (filter ?P ys) = {#x#}" unfolding m [symmetric] Cons by (simp only: mset_single_iff)
    then have "filter ?P ys = [x]" by (simp only: mset_single_iff)
    then show ?thesis using Cons \<open>zs = []\<close> by simp
  qed
qed

text \<open>The calls of a delivery for its orders in any order.\<close>

definition delivery_calls :: "nat \<Rightarrow> (32 word \<times> 32 word) list \<Rightarrow> tpcc_call list" where
  "delivery_calls q ids =
     map (Del1 q) all_districts @ map (\<lambda>(d, o_id). Del2 q d) ids @ map (\<lambda>(d, o_id). Del3 q d) ids @
     map (\<lambda>(d, o_id). Del4 q d) ids"

lemma delivery_calls_due:
  assumes vals: "delivery_values E p v q db"
  shows "event_calls v (DELIVERY p) n q k = delivery_calls q (deliveries E (del_w_id p) db all_districts)"
proof -
  have "map fst (deliveries E (del_w_id p) db ds) = filter (\<lambda>d. bv_due v q d \<noteq> None) ds" if "set ds \<subseteq> set all_districts" for ds
    using that
  proof (induction ds rule: rev_induct)
    case (snoc d ds)
    have "bv_due v q d = to_deliver E (del_w_id p) db d" using vals snoc.prems by (simp add: delivery_values_def)
    then show ?case using snoc by (auto simp: deliveries_simps split: option.split)
  qed (simp add: deliveries_simps)
  then have due: "due_districts v q = map fst (deliveries E (del_w_id p) db all_districts)" by (simp add: due_districts_def)
  have pair: "map (\<lambda>(d, o_id). c d) ids = map c (map fst ids)" for c :: "32 word \<Rightarrow> tpcc_call" and ids :: "(32 word \<times> 32 word) list"
    by (simp add: split_beta)
  show ?thesis unfolding delivery_calls_def pair event_calls.simps due by simp
qed

lemma takes_due:
  fixes E :: "'g tpcc_env"
  assumes parts: "parts_ok E" "d \<notin> set ds"
  shows "to_deliver E w (a_takes E w ds db) d = to_deliver E w db d"
    "db_tab (a_takes E w ds db) DISTRICT_NEW_ORDER_TABLE_ID k = None \<longleftrightarrow> db_tab db DISTRICT_NEW_ORDER_TABLE_ID k = None"
proof -
  have ids: "district_part E w d < TPCC_MAX_PARTITION_CNT" for d by (rule parts_okD [OF parts(1)])
  show "to_deliver E w (a_takes E w ds db) d = to_deliver E w db d"
    using parts(2)
  proof (induction ds rule: rev_induct)
    case (snoc d' ds)
    then have "d \<noteq> d'" "to_deliver E w (a_takes E w ds db) d = to_deliver E w db d" by simp_all
    then show ?case using to_deliver_take [OF ids ids, where db = "a_takes E w ds db"] by (simp add: a_takes_def)
  qed (simp add: a_takes_def)
  show "db_tab (a_takes E w ds db) DISTRICT_NEW_ORDER_TABLE_ID k = None \<longleftrightarrow> db_tab db DISTRICT_NEW_ORDER_TABLE_ID k = None"
  proof (induction ds rule: rev_induct)
    case (snoc d' ds)
    then show ?case using a_take_dno [OF ids, where db = "a_takes E w ds db"] by (simp add: a_takes_def del: not_None_eq)
  qed (simp add: a_takes_def)
qed

lemma credits_kept:
  "db_tab (fold (\<lambda>(d, o_id). a_credit D w d (cust (d, o_id)) (amount d)) ys db) CUSTOMER_TABLE_ID k = None \<longleftrightarrow>
   db_tab db CUSTOMER_TABLE_ID k = None"
  by (induction ys rule: rev_induct) (auto simp: a_credit_def split_beta)

lemma to_deliver_small:
  assumes con: "consistent E db" and valid: "delivery_valid p db" and d: "d \<in> set all_districts"
  shows "to_deliver E (del_w_id p) db d \<noteq> Some (- 1)"
proof
  assume td: "to_deliver E (del_w_id p) db d = Some (- 1)"
  obtain drow where drow: "district_at (del_w_id p) d db = Some drow" using valid d by (auto simp: delivery_valid_def)
  obtain nrow where n: "dno_at (del_w_id p) d db = Some nrow"
      "district_consistent E db (del_w_id p) d (oldest nrow) (next_o_id drow)"
    by (rule consistentE [OF con drow])
  have "new_at E (del_w_id p) d (- 1) db \<noteq> None" using td unfolding to_deliver_at [OF n(1)] by (auto split: if_splits)
  then have "- 1 < next_o_id drow" using n(2) unfolding district_consistent_def by blast
  then show False by (simp add: word_less_nat_alt) (metis not_less word_le_nat_alt word_order.extremum)
qed

lemma run_delivery_ids:
  fixes E :: "'g tpcc_env"
  assumes ok: "batch_db_ok E db" and ready: "delivery_ready E p db"
    and small: "\<forall>d \<in> set all_districts. to_deliver E (del_w_id p) db d \<noteq> Some (- 1)"
    and p: "del_at b q = p" and vals: "delivery_values E p v q db"
    and dist: "distinct (map fst ids)"
    and ids: "set ids = {(d, o_id). d \<in> set all_districts \<and> to_deliver E (del_w_id p) db d = Some o_id}"
  shows "run_seq (call_pre E b v) (call_eff E b v) (delivery_calls q ids) db = Some (a_delivery E p ids (bv_sum v q) db)"
proof -
  let ?run = "run_seq (call_pre E b v) (call_eff E b v)" and ?w = "del_w_id p"
  have parts: "parts_ok E" using ok by (simp add: batch_db_ok_def)
  have part: "district_part E ?w d < TPCC_MAX_PARTITION_CNT" for d by (rule parts_okD [OF parts])
  note tabs = part_tables [OF part part]
  have each: "bv_due v q d = Some o_id" "bv_lines v q d = order_lines E ?w d o_id db" "order_lines E ?w d o_id db \<noteq> {}"
      "\<exists>row. order_at E ?w d o_id db = Some row \<and> customer_of row = bv_c_id v q d"
      "db_tab db CUSTOMER_TABLE_ID (wkey [bv_c_id v q d, d, ?w]) \<noteq> None"
      "bv_c_id v q d = customer_of (the (order_at E ?w d o_id db))"
    if "(d, o_id) \<in> set ids" for d o_id
  proof -
    have d: "d \<in> set all_districts" "to_deliver E ?w db d = Some o_id" using that ids by auto
    obtain row where row: "order_lines E ?w d o_id db \<noteq> {}" "order_at E ?w d o_id db = Some row"
        "db_tab db CUSTOMER_TABLE_ID (wkey [customer_of row, d, ?w]) \<noteq> None"
      using ready d unfolding delivery_ready_def by blast
    have v: "bv_due v q d = Some o_id" "bv_lines v q d = order_lines E ?w d o_id db"
        "bv_c_id v q d = customer_of (the (order_at E ?w d o_id db))"
      using vals d by (auto simp: delivery_values_def)
    show "bv_due v q d = Some o_id" "bv_lines v q d = order_lines E ?w d o_id db" "order_lines E ?w d o_id db \<noteq> {}"
      "\<exists>row. order_at E ?w d o_id db = Some row \<and> customer_of row = bv_c_id v q d"
      "db_tab db CUSTOMER_TABLE_ID (wkey [bv_c_id v q d, d, ?w]) \<noteq> None"
      "bv_c_id v q d = customer_of (the (order_at E ?w d o_id db))"
      using v row by simp_all
  qed
  let ?f1 = "a_takes E ?w all_districts"
  have r1: "?run (map (Del1 q) all_districts) db = Some (?f1 db)"
  proof -
    have "?run (map (Del1 q) all_districts) db = Some (fold (\<lambda>d. call_eff E b v (Del1 q d)) all_districts db)"
    proof (rule run_map)
      fix ys d zs assume split: "all_districts = ys @ d # zs"
      have d: "d \<notin> set ys" "d \<in> set all_districts" using distinct_all_districts unfolding split by simp_all
      have eq: "fold (\<lambda>d. call_eff E b v (Del1 q d)) ys db = a_takes E ?w ys db" using p by (simp add: a_takes_def)
      have "db_tab db DISTRICT_NEW_ORDER_TABLE_ID (dno_key ?w d) \<noteq> None"
        using bspec [OF ready [unfolded delivery_ready_def] d(2)] by (rule conjunct1)
      moreover have "bv_due v q d = to_deliver E ?w db d" using vals d(2) by (simp add: delivery_values_def)
      moreover have "to_deliver E ?w db d \<noteq> Some (- 1)" using small d(2) by blast
      ultimately show "call_pre E b v (Del1 q d) (fold (\<lambda>d. call_eff E b v (Del1 q d)) ys db)"
        unfolding eq using p takes_due [OF parts d(1), of ?w db] by (simp del: not_None_eq)
    qed
    then show ?thesis using p by (simp add: a_takes_def)
  qed
  have fold2: "fold (\<lambda>x. call_eff E b v ((\<lambda>(d, o_id). Del2 q d) x)) ys s = fold (\<lambda>(d, o_id). a_deliver_lines E p d o_id) ys s"
    "fold (\<lambda>x. call_eff E b v ((\<lambda>(d, o_id). Del3 q d) x)) ys s = fold (\<lambda>(d, o_id). a_deliver_order E p d o_id) ys s"
    "fold (\<lambda>x. call_eff E b v ((\<lambda>(d, o_id). Del4 q d) x)) ys s =
       fold (\<lambda>(d, o_id). a_credit (env_dbl E) ?w d ((\<lambda>(d, o_id). customer_of (the (order_at E ?w d o_id db))) (d, o_id)) (bv_sum v q d)) ys s"
    if "set ys \<subseteq> set ids" for ys s
    using that each(1,6) p by (auto intro!: fold_cong)
  have d: "distinct (map fst ys)" "d \<notin> fst ` set ys" "(d, o_id) \<in> set ids" "set ys \<subseteq> set ids"
    if "ids = ys @ (d, o_id) # zs" for ys d o_id zs
    using dist that by auto
  let ?f2 = "fold (\<lambda>(d, o_id). a_deliver_lines E p d o_id) ids" and ?f3 = "fold (\<lambda>(d, o_id). a_deliver_order E p d o_id) ids"
  have wf1: "lines_wf E ?w (?f1 db)"
    using lines_keyedD(1) [OF ok] tabs by (simp add: lines_wf_def a_takes_other)
  have r2: "?run (map (\<lambda>(d, o_id). Del2 q d) ids) (?f1 db) = Some (?f2 (?f1 db))"
  proof -
    have "?run (map (\<lambda>(d, o_id). Del2 q d) ids) (?f1 db) = Some (fold (\<lambda>x. call_eff E b v ((\<lambda>(d, o_id). Del2 q d) x)) ids (?f1 db))"
    proof (rule run_map)
      fix ys x zs assume split: "ids = ys @ x # zs"
      obtain e o_id where x: "x = (e, o_id)" by (cases x)
      note s = d [OF split [unfolded x]]
      have "order_lines E ?w e o_id (fold (\<lambda>(d, o_id). a_deliver_lines E p d o_id) ys (?f1 db)) = order_lines E ?w e o_id (?f1 db)"
        by (rule deliver_all_lines(1) [OF wf1 s(2)])
      also have "\<dots> = order_lines E ?w e o_id db" using tabs by (simp add: order_lines_def a_takes_other)
      finally show "call_pre E b v ((\<lambda>(d, o_id). Del2 q d) x) (fold (\<lambda>x. call_eff E b v ((\<lambda>(d, o_id). Del2 q d) x)) ys (?f1 db))"
        unfolding fold2 [OF s(4)] x using each(1-3) [OF s(3)] p by simp
    qed
    then show ?thesis unfolding fold2 [OF subset_refl] .
  qed
  have ord: "order_at E ?w e o_id (?f2 (?f1 db)) = order_at E ?w e o_id db" for e o_id
    using tabs by (simp add: order_at_def deliver_lines_other a_takes_other)
  have r3: "?run (map (\<lambda>(d, o_id). Del3 q d) ids) (?f2 (?f1 db)) = Some (?f3 (?f2 (?f1 db)))"
  proof -
    have "?run (map (\<lambda>(d, o_id). Del3 q d) ids) (?f2 (?f1 db)) =
        Some (fold (\<lambda>x. call_eff E b v ((\<lambda>(d, o_id). Del3 q d) x)) ids (?f2 (?f1 db)))"
    proof (rule run_map)
      fix ys x zs assume split: "ids = ys @ x # zs"
      obtain e o_id where x: "x = (e, o_id)" by (cases x)
      note s = d [OF split [unfolded x]]
      have "order_at E ?w e o_id (fold (\<lambda>(d, o_id). a_deliver_order E p d o_id) ys (?f2 (?f1 db))) = order_at E ?w e o_id db"
        by (rule trans [OF order_at_deliver [OF s(2)] ord])
      then show "call_pre E b v ((\<lambda>(d, o_id). Del3 q d) x) (fold (\<lambda>x. call_eff E b v ((\<lambda>(d, o_id). Del3 q d) x)) ys (?f2 (?f1 db)))"
        unfolding fold2 [OF s(4)] x using each(1,4) [OF s(3)] p by (auto simp: row_at_def order_at_def)
    qed
    then show ?thesis unfolding fold2 [OF subset_refl] .
  qed
  let ?db3 = "?f3 (?f2 (?f1 db))"
  have cu3: "db_tab ?db3 CUSTOMER_TABLE_ID = db_tab db CUSTOMER_TABLE_ID"
    using tabs by (simp add: deliver_order_other deliver_lines_other a_takes_other)
  have r4: "?run (map (\<lambda>(d, o_id). Del4 q d) ids) ?db3 = Some (a_delivery E p ids (bv_sum v q) db)"
  proof -
    have "?run (map (\<lambda>(d, o_id). Del4 q d) ids) ?db3 = Some (fold (\<lambda>x. call_eff E b v ((\<lambda>(d, o_id). Del4 q d) x)) ids ?db3)"
    proof (rule run_map)
      fix ys x zs assume split: "ids = ys @ x # zs"
      obtain e o_id where x: "x = (e, o_id)" by (cases x)
      note s = d [OF split [unfolded x]]
      have "db_tab (fold (\<lambda>(d, o_id). a_credit (env_dbl E) ?w d
          ((\<lambda>(d, o_id). customer_of (the (order_at E ?w d o_id db))) (d, o_id)) (bv_sum v q d)) ys ?db3) CUSTOMER_TABLE_ID k = None \<longleftrightarrow>
          db_tab ?db3 CUSTOMER_TABLE_ID k = None" for k
        by (rule credits_kept)
      then show "call_pre E b v ((\<lambda>(d, o_id). Del4 q d) x) (fold (\<lambda>x. call_eff E b v ((\<lambda>(d, o_id). Del4 q d) x)) ys ?db3)"
        unfolding fold2 [OF s(4)] x
        using each(5) [OF s(3)] p by (simp add: cu3 del: not_None_eq)
    qed
    then show ?thesis unfolding fold2 [OF subset_refl] by (simp add: a_delivery_def Let_def)
  qed
  show ?thesis using r1 r2 r3 r4 by (simp add: delivery_calls_def run_seq_append)
qed

lemma run_delivery:
  fixes E :: "'g tpcc_env"
  assumes ok: "batch_db_ok E db" and con: "consistent E db" and valid: "delivery_valid p db" and order: "order_ok E"
    and p: "del_at b q = p" and vals: "delivery_values E p v q db"
  shows "run_seq (call_pre E b v) (call_eff E b v) (event_calls v (DELIVERY p) n q k) db =
    Some (a_delivery E p (delivered_ids E p db) (bv_sum v q) db)"
proof -
  let ?w = "del_w_id p"
  let ?ids = "delivered_ids E p db" and ?due = "deliveries E ?w db all_districts"
  have small: "\<forall>d \<in> set all_districts. to_deliver E ?w db d \<noteq> Some (- 1)" using to_deliver_small [OF con valid] by blast
  note i = delivered_ids_set [OF order, of p db]
  have run: "run_seq (call_pre E b v) (call_eff E b v) (delivery_calls q ?ids) db = Some (a_delivery E p ?ids (bv_sum v q) db)"
    by (rule run_delivery_ids [OF ok delivery_valid_ready [OF con valid] small p vals i(2) i(1)])
  have m: "mset ?due = mset ?ids" using order by (simp add: order_ok_def delivered_ids_def)
  have dist: "distinct (map fst ?due)" by (rule deliveries_distinct [OF distinct_all_districts])
  have same: "filter (\<lambda>x. call_part E b v x = r) (map (\<lambda>(d, o_id). c d) ?due) =
      filter (\<lambda>x. call_part E b v x = r) (map (\<lambda>(d, o_id). c d) ?ids)"
    if inj: "\<And>d d'. call_part E b v (c d) = call_part E b v (c d') \<Longrightarrow> d = d'" for c :: "32 word \<Rightarrow> tpcc_call" and r
  proof (rule filter_same_elements)
    show "mset (map (\<lambda>(d, o_id). c d) ?due) = mset (map (\<lambda>(d, o_id). c d) ?ids)" using m by simp
    show "inj_on (call_part E b v) (set (map (\<lambda>(d, o_id). c d) ?due))" by (rule inj_onI) (use inj in auto)
    have "map (\<lambda>(d, o_id). c d) ?due = map c (map fst ?due)" by (simp add: split_beta)
    moreover have "inj c" using inj by (metis injI)
    ultimately show "distinct (map (\<lambda>(d, o_id). c d) ?due)" using dist by (simp only: distinct_map) (metis inj_on_subset subset_UNIV)
  qed
  have "filter (\<lambda>x. call_part E b v x = r) (delivery_calls q ?due) = filter (\<lambda>x. call_part E b v x = r) (delivery_calls q ?ids)" for r
    unfolding delivery_calls_def filter_append by (intro arg_cong2 [where f = "(@)"] same refl) simp_all
  from batch.same_order [OF ok this run] show ?thesis
    unfolding delivery_calls_due [OF vals] .
qed

section \<open>The values of a batch\<close>

text \<open>Two databases that differ at most in the contents of the customers and in the history.\<close>

definition same_books :: "database \<Rightarrow> database \<Rightarrow> bool" where
  "same_books db db' \<longleftrightarrow>
     (\<forall>i. i \<noteq> CUSTOMER_TABLE_ID \<longrightarrow> db_tab db' i = db_tab db i) \<and>
     (\<forall>k. db_tab db' CUSTOMER_TABLE_ID k = None \<longleftrightarrow> db_tab db CUSTOMER_TABLE_ID k = None)"

lemma same_booksD:
  "same_books db db' \<Longrightarrow> i \<noteq> CUSTOMER_TABLE_ID \<Longrightarrow> db_tab db' i = db_tab db i"
  "same_books db db' \<Longrightarrow> db_tab db' CUSTOMER_TABLE_ID k = None \<longleftrightarrow> db_tab db CUSTOMER_TABLE_ID k = None"
  by (simp_all add: same_books_def)

lemma same_books_ops:
  assumes "same_books db db'"
  shows "same_books (a_put i k row db) (a_put i k row db')" "same_books (a_modify i k f db) (a_modify i k f db')"
    "same_books (a_remove i k db) (a_remove i k db')" "same_books (a_append i row db) (a_append j row' db')"
    "i \<noteq> CUSTOMER_TABLE_ID \<Longrightarrow> same_books (a_modify_where i P f db) (a_modify_where i P f db')"
    "same_books (a_modify CUSTOMER_TABLE_ID k f db) (a_modify CUSTOMER_TABLE_ID k f' db')"
  using assms unfolding same_books_def by (auto simp: fun_eq_iff)

lemma same_books_new_order:
  assumes "same_books db db'"
  shows "same_books (a_new_order E p db) (a_new_order E p db')"
proof -
  have stocks: "same_books (a_stocks p n db1) (a_stocks p n db2)" if "same_books db1 db2" for n db1 db2
    using that by (induction n) (simp_all add: a_stock_def same_books_ops)
  have lines: "same_books (a_lines E p o_id ds am n db1) (a_lines E p o_id ds am n db2)" if "same_books db1 db2"
    for n db1 db2 o_id ds am
    using that by (induction n) (simp_all add: a_line_def same_books_ops)
  have "db_tab db' DISTRICT_TABLE_ID = db_tab db DISTRICT_TABLE_ID" "db_tab db' STOCK_TABLE_ID = db_tab db STOCK_TABLE_ID"
    "db_tab db' ITEM_TABLE_ID = db_tab db ITEM_TABLE_ID"
    using assms by (simp_all add: same_booksD)
  then show ?thesis unfolding a_new_order_def Let_def by (simp only:) (intro lines stocks same_books_ops assms)
qed

lemma same_books_payment: "same_books db db' \<Longrightarrow> same_books (a_payment E p h db) (a_payment E p h' db')"
  unfolding a_payment_def comp_def by (intro same_books_ops)

lemma same_books_deliver:
  assumes "same_books db db'"
  shows "to_deliver E w db' d = to_deliver E w db d" "delivered_ids E p db' = delivered_ids E p db"
    "order_at E w d o_id db' = order_at E w d o_id db" "order_lines E w d o_id db' = order_lines E w d o_id db"
proof -
  have c: "DISTRICT_NEW_ORDER_TABLE_ID \<noteq> CUSTOMER_TABLE_ID" "NEW_ORDER_TABLE_ID + a \<noteq> CUSTOMER_TABLE_ID"
    "ORDER_TABLE_ID + a \<noteq> CUSTOMER_TABLE_ID" "ORDER_LINE_TABLE_ID + a \<noteq> CUSTOMER_TABLE_ID" for a
    by (simp_all add: tpcc_table_ids)
  show td: "to_deliver E w db' d = to_deliver E w db d" for w d
    using same_booksD(1) [OF assms] c by (simp add: to_deliver_def split: option.split)
  show "delivered_ids E p db' = delivered_ids E p db" by (simp add: delivered_ids_def deliveries_def td)
  show "order_at E w d o_id db' = order_at E w d o_id db" "order_lines E w d o_id db' = order_lines E w d o_id db"
    using same_booksD(1) [OF assms] c by (simp_all add: order_at_def order_lines_def)
qed

lemma same_books_take: "same_books db db' \<Longrightarrow> same_books (a_take E w d db) (a_take E w d db')"
  by (simp add: a_take_eq same_books_deliver same_books_ops split: option.split)

lemma same_books_delivery:
  assumes "same_books db db'"
  shows "same_books (a_delivery E p ids am db) (a_delivery E p ids am' db')"
proof -
  have c: "ORDER_LINE_TABLE_ID + a \<noteq> CUSTOMER_TABLE_ID" for a by (simp add: tpcc_table_ids)
  have takes: "same_books (a_takes E w ds db) (a_takes E w ds db')" for w ds
    using assms by (induction ds rule: rev_induct) (simp_all add: a_takes_def same_books_take)
  have 2: "same_books (fold (\<lambda>(d, o_id). a_deliver_lines E p d o_id) xs db1) (fold (\<lambda>(d, o_id). a_deliver_lines E p d o_id) xs db2)"
    if "same_books db1 db2" for xs db1 db2
    using that c by (induction xs rule: rev_induct) (auto simp: a_deliver_lines_def same_books_ops)
  have 3: "same_books (fold (\<lambda>(d, o_id). a_deliver_order E p d o_id) xs db1) (fold (\<lambda>(d, o_id). a_deliver_order E p d o_id) xs db2)"
    if "same_books db1 db2" for xs db1 db2
    using that by (induction xs rule: rev_induct) (auto simp: a_deliver_order_def same_books_ops)
  have 4: "same_books (fold (\<lambda>(d, o_id). a_credit D w d (cust (d, o_id)) (am d)) xs db1)
      (fold (\<lambda>(d, o_id). a_credit D w d (cust (d, o_id)) (am' d)) xs db2)"
    if "same_books db1 db2" for xs db1 db2 D w and cust :: "32 word \<times> 32 word \<Rightarrow> 32 word"
    using that by (induction xs rule: rev_induct) (auto simp: a_credit_def same_books_ops)
  show ?thesis
    unfolding a_delivery_def Let_def same_books_deliver(3) [OF assms] by (intro 4 3 2 takes)
qed

section \<open>All transactions\<close>

text \<open>The calls of a list of transactions, the first of which have the positions \<open>n\<close>, \<open>q\<close> and \<open>k\<close>; the parameters
  at these positions; and the values in the databases in which the transactions start.\<close>

fun batch_calls :: "batch_values \<Rightarrow> tpcc_event list \<Rightarrow> nat \<Rightarrow> nat \<Rightarrow> nat \<Rightarrow> tpcc_call list" where
  "batch_calls v [] n q k = []"
| "batch_calls v (DELIVERY p # es) n q k = event_calls v (DELIVERY p) n q k @ batch_calls v es n (q + 1) k"
| "batch_calls v (NEW_ORDER p # es) n q k = event_calls v (NEW_ORDER p) n q k @ batch_calls v es (n + 1) q k"
| "batch_calls v (PAYMENT p # es) n q k = event_calls v (PAYMENT p) n q k @ batch_calls v es n q (k + 1)"
| "batch_calls v (e # es) n q k = batch_calls v es n q k"

fun params_at :: "tpcc_batch \<Rightarrow> tpcc_event list \<Rightarrow> nat \<Rightarrow> nat \<Rightarrow> nat \<Rightarrow> bool" where
  "params_at b [] n q k \<longleftrightarrow> True"
| "params_at b (DELIVERY p # es) n q k \<longleftrightarrow> del_at b q = p \<and> params_at b es n (q + 1) k"
| "params_at b (NEW_ORDER p # es) n q k \<longleftrightarrow> no_at b n = p \<and> params_at b es (n + 1) q k"
| "params_at b (PAYMENT p # es) n q k \<longleftrightarrow> pay_at b k = p \<and> params_at b es n q (k + 1)"
| "params_at b (e # es) n q k \<longleftrightarrow> params_at b es n q k"

fun values_ok :: "'g tpcc_env \<Rightarrow> batch_values \<Rightarrow> tpcc_event list \<Rightarrow> nat \<Rightarrow> nat \<Rightarrow> database \<Rightarrow> bool" where
  "values_ok E v [] n q db \<longleftrightarrow> True"
| "values_ok E v (DELIVERY p # es) n q db \<longleftrightarrow>
     delivery_values E p v q db \<and> values_ok E v es n (q + 1) (a_delivery E p (delivered_ids E p db) (\<lambda>_. 0) db)"
| "values_ok E v (NEW_ORDER p # es) n q db \<longleftrightarrow>
     order_values E p v n db \<and> values_ok E v es (n + 1) q (a_new_order E p db)"
| "values_ok E v (PAYMENT p # es) n q db \<longleftrightarrow> values_ok E v es n q (a_payment E p [] db)"
| "values_ok E v (e # es) n q db \<longleftrightarrow> values_ok E v es n q db"

text \<open>What the calls themselves choose: the order in which a sum is added up, and the random strings.\<close>

definition sum_ok :: "'g tpcc_env \<Rightarrow> batch_values \<Rightarrow> nat \<Rightarrow> 32 word \<Rightarrow> bool" where
  "sum_ok E v q d \<longleftrightarrow>
     (\<exists>krs. distinct (map fst krs) \<and> set krs = bv_lines v q d \<and> bv_sum v q d = amount_sum (env_dbl E) krs)"

definition h_data_ok :: "batch_values \<Rightarrow> nat \<Rightarrow> bool" where
  "h_data_ok v k \<longleftrightarrow> 12 \<le> length (bv_h_data v k) \<and> length (bv_h_data v k) \<le> 24"

definition chosen_ok :: "'g tpcc_env \<Rightarrow> batch_values \<Rightarrow> tpcc_call list \<Rightarrow> bool" where
  "chosen_ok E v xs \<longleftrightarrow> (\<forall>q d. Del2 q d \<in> set xs \<longrightarrow> sum_ok E v q d) \<and> (\<forall>k. Pay3 k \<in> set xs \<longrightarrow> h_data_ok v k)"

lemma chosen_ok_append: "chosen_ok E v (xs @ ys) \<longleftrightarrow> chosen_ok E v xs \<and> chosen_ok E v ys"
  by (auto simp: chosen_ok_def)

definition same_from :: "nat \<Rightarrow> nat \<Rightarrow> batch_values \<Rightarrow> batch_values \<Rightarrow> bool" where
  "same_from n q v v' \<longleftrightarrow>
     (\<forall>i \<ge> n. bv_o_id v' i = bv_o_id v i \<and> bv_dist v' i = bv_dist v i \<and> bv_amount v' i = bv_amount v i) \<and>
     (\<forall>i \<ge> q. bv_due v' i = bv_due v i \<and> bv_lines v' i = bv_lines v i \<and> bv_c_id v' i = bv_c_id v i)"

lemma values_ok_from:
  "same_from n q v v' \<Longrightarrow> values_ok E v es n q db \<Longrightarrow> values_ok E v' es n q db"
proof (induction es arbitrary: n q db)
  case (Cons e es)
  have weak: "same_from (n + 1) q v v'" "same_from n (q + 1) v v'" using Cons.prems(1) by (simp_all add: same_from_def)
  show ?case
  proof (cases e)
    case (DELIVERY p)
    have "delivery_values E p v q db" using Cons.prems(2) DELIVERY by simp
    then have "delivery_values E p v' q db" using Cons.prems(1) by (simp add: delivery_values_def same_from_def)
    then show ?thesis using Cons.IH [OF weak(2)] Cons.prems(2) DELIVERY by simp
  next
    case (NEW_ORDER p)
    have "order_values E p v n db" using Cons.prems(2) NEW_ORDER by simp
    then have "order_values E p v' n db" using Cons.prems(1) by (simp add: order_values_def same_from_def)
    then show ?thesis using Cons.IH [OF weak(1)] Cons.prems(2) NEW_ORDER by simp
  qed (use Cons in simp_all)
qed simp

lemma values_exist: "\<exists>v. values_ok E v es n q db"
proof (induction es arbitrary: n q db)
  case (Cons e es)
  show ?case
  proof (cases e)
    case (DELIVERY p)
    obtain v where v: "values_ok E v es n (q + 1) (a_delivery E p (delivered_ids E p db) (\<lambda>_. 0) db)"
      using Cons.IH by blast
    let ?td = "to_deliver E (del_w_id p) db"
    let ?v = "v\<lparr>bv_due := (bv_due v)(q := ?td),
        bv_lines := (bv_lines v)(q := \<lambda>d. order_lines E (del_w_id p) d (the (?td d)) db),
        bv_c_id := (bv_c_id v)(q := \<lambda>d. customer_of (the (order_at E (del_w_id p) d (the (?td d)) db)))\<rparr>"
    have "same_from n (q + 1) v ?v" by (simp add: same_from_def)
    from values_ok_from [OF this v] have "values_ok E ?v (DELIVERY p # es) n q db"
      by (simp add: delivery_values_def)
    then show ?thesis using DELIVERY by blast
  next
    case (NEW_ORDER p)
    obtain v where v: "values_ok E v es (n + 1) q (a_new_order E p db)" using Cons.IH by blast
    let ?v = "v\<lparr>bv_o_id := (bv_o_id v)(n := next_o_id (the (db_tab db DISTRICT_TABLE_ID (district_key p)))),
        bv_dist := (bv_dist v)(n := \<lambda>i. dist_info p (the (db_tab db STOCK_TABLE_ID (stock_key p i)))),
        bv_amount := (bv_amount v)(n := line_amount (env_dbl E) p (db_tab db ITEM_TABLE_ID))\<rparr>"
    have "same_from (n + 1) q v ?v" by (simp add: same_from_def)
    from values_ok_from [OF this v] have "values_ok E ?v (NEW_ORDER p # es) n q db"
      by (simp add: order_values_def)
    then show ?thesis using NEW_ORDER by blast
  qed (use Cons in simp_all)
qed simp

lemma values_same_books:
  assumes "same_books db db'"
  shows "order_values E p v n db \<Longrightarrow> order_values E p v n db'" "delivery_values E p' v q db \<Longrightarrow> delivery_values E p' v q db'"
proof -
  have "db_tab db' DISTRICT_TABLE_ID = db_tab db DISTRICT_TABLE_ID" "db_tab db' STOCK_TABLE_ID = db_tab db STOCK_TABLE_ID"
    "db_tab db' ITEM_TABLE_ID = db_tab db ITEM_TABLE_ID"
    using assms by (simp_all add: same_booksD)
  then show "order_values E p v n db \<Longrightarrow> order_values E p v n db'" by (simp add: order_values_def)
  show "delivery_values E p' v q db \<Longrightarrow> delivery_values E p' v q db'"
    by (simp add: delivery_values_def same_books_deliver [OF assms])
qed

text \<open>One transaction.\<close>

lemma run_delivery_step:
  fixes E :: "'g tpcc_env"
  assumes env: "env_ok E" and ok: "batch_db_ok E db" and con: "consistent E db" and room: "has_room k' db"
    and valid: "delivery_valid p db" and p: "del_at b q = p" and vals: "delivery_values E p v q db"
    and books: "same_books db0 db"
  shows "\<exists>db'. run_seq (call_pre E b v) (call_eff E b v) (event_calls v (DELIVERY p) n q k) db = Some db' \<and>
    consistent E db' \<and> has_room k' db' \<and> same_static db db' \<and>
    same_books (a_delivery E p (delivered_ids E p db0) (\<lambda>_. 0) db0) db' \<and>
    (chosen_ok E v (event_calls v (DELIVERY p) n q k) \<longrightarrow> event_step E (DELIVERY p) db db')"
proof -
  have wf: "parts_ok E" "tpcc_wf E db" using ok by (simp_all add: batch_db_ok_def)
  have order: "order_ok E" using env by (simp add: env_ok_def)
  let ?db = "a_delivery E p (delivered_ids E p db) (bv_sum v q) db"
  have "event_step E (DELIVERY p) db ?db" if draws: "chosen_ok E v (event_calls v (DELIVERY p) n q k)"
  proof -
    have "amount_of_lines E (del_w_id p) db d o_id (bv_sum v q d)" if "(d, o_id) \<in> set (delivered_ids E p db)" for d o_id
    proof -
      have d: "d \<in> set all_districts" "to_deliver E (del_w_id p) db d = Some o_id"
        using that delivered_ids_set(1) [OF order] by auto
      then have "bv_due v q d = Some o_id" "bv_lines v q d = order_lines E (del_w_id p) d o_id db"
        using vals by (auto simp: delivery_values_def)
      moreover from this d(1) have "Del2 q d \<in> set (event_calls v (DELIVERY p) n q k)" by (simp add: due_districts_def)
      then have "sum_ok E v q d" using draws unfolding chosen_ok_def by blast
      ultimately show ?thesis by (simp add: sum_ok_def amount_of_lines_def)
    qed
    then show ?thesis by (auto simp: amounts_ok_def)
  qed
  moreover have "same_books (a_delivery E p (delivered_ids E p db0) (\<lambda>_. 0) db0) ?db"
    unfolding same_books_deliver(2) [OF books] by (rule same_books_delivery [OF books])
  ultimately show ?thesis
    using run_delivery [OF ok con valid order p vals] delivery_consistent [OF con room wf] static_delivery [OF wf] by blast
qed

lemma run_new_order_step:
  fixes E :: "'g tpcc_env"
  assumes env: "env_ok E" and ok: "batch_db_ok E db" and con: "consistent E db" and room: "has_room (Suc k') db"
    and valid: "order_valid p db" and p: "no_at b n = p" and vals: "order_values E p v n db"
    and books: "same_books db0 db"
  shows "\<exists>db'. run_seq (call_pre E b v) (call_eff E b v) (event_calls v (NEW_ORDER p) n q k) db = Some db' \<and>
    consistent E db' \<and> has_room k' db' \<and> same_static db db' \<and> same_books (a_new_order E p db0) db' \<and>
    event_step E (NEW_ORDER p) db db'"
proof -
  have wf: "parts_ok E" "tpcc_wf E db" and stack: "3 \<le> length (env_stack E)" using ok by (simp_all add: batch_db_ok_def)
  show ?thesis
    using run_new_order [OF ok con valid p vals] new_order_consistent [OF con valid room wf stack]
      static_new_order(1) [OF wf valid] same_books_new_order [OF books] by auto
qed

lemma run_payment_step:
  fixes E :: "'g tpcc_env"
  assumes ok: "batch_db_ok E db" and con: "consistent E db" and room: "has_room k' db"
    and valid: "payment_ready p db" and p: "pay_at b k = p" and books: "same_books db0 db"
  shows "\<exists>db'. run_seq (call_pre E b v) (call_eff E b v) (event_calls v (PAYMENT p) n q k) db = Some db' \<and>
    consistent E db' \<and> has_room k' db' \<and> same_static db db' \<and> same_books (a_payment E p [] db0) db' \<and>
    (chosen_ok E v (event_calls v (PAYMENT p) n q k) \<longrightarrow> event_step E (PAYMENT p) db db')"
proof -
  have wf: "parts_ok E" "tpcc_wf E db" using ok by (simp_all add: batch_db_ok_def)
  have "chosen_ok E v (event_calls v (PAYMENT p) n q k) \<Longrightarrow> event_step E (PAYMENT p) db (a_payment E p (bv_h_data v k) db)"
    by (auto simp: chosen_ok_def h_data_ok_def)
  then show ?thesis
    using run_payment [OF valid p] payment_consistent [OF con room wf] static_payment same_books_payment [OF books] by blast
qed

text \<open>The transactions one after the other on the maps, and the stock within its bounds when the orders are.\<close>

definition events_run :: "'g tpcc_env \<Rightarrow> tpcc_event list \<Rightarrow> database \<Rightarrow> database \<Rightarrow> bool" where
  "events_run E es db db' \<longleftrightarrow>
     events_step E es db db' \<and> (stock_within db \<longrightarrow> (\<forall>e \<in> set es. quantities_ok e) \<longrightarrow> stock_within db')"

lemma events_run_skip [simp]:
  "events_run E (ORDER_STATUS p # es) db db' \<longleftrightarrow> events_run E es db db'"
  "events_run E (STOCK_LEVEL p' # es) db db' \<longleftrightarrow> events_run E es db db'"
  by (simp_all add: events_run_def)

lemma run_batch_calls:
  fixes E :: "'g tpcc_env"
  assumes env: "env_ok E"
  shows "batch_db_ok E db \<Longrightarrow> consistent E db \<Longrightarrow> has_room (length es + m) db \<Longrightarrow> \<forall>e \<in> set es. event_valid e db \<Longrightarrow>
    params_at b es n q k \<Longrightarrow> values_ok E v es n q db0 \<Longrightarrow> same_books db0 db \<Longrightarrow>
    \<exists>db'. run_seq (call_pre E b v) (call_eff E b v) (batch_calls v es n q k) db = Some db' \<and>
      consistent E db' \<and> has_room m db' \<and> same_static db db' \<and>
      (chosen_ok E v (batch_calls v es n q k) \<longrightarrow> events_run E es db db')"
proof (induction es arbitrary: db db0 n q k)
  case Nil
  have "same_static db db" by (rule same_staticI) simp_all
  then show ?case using Nil.prems by (simp add: events_run_def)
next
  case (Cons e es)
  have valid: "event_valid e db" using Cons.prems(4) by simp
  have later: "\<forall>e \<in> set es. event_valid e db'" if "same_static db db'" for db'
    using Cons.prems(4) event_valid_static [OF that] by simp
  have rm: "has_room (Suc (length es + m)) db" "has_room (length es + m) db" using Cons.prems(3) by (fastforce simp: has_room_def)+
  let ?run = "run_seq (call_pre E b v) (call_eff E b v)"
  have step: "\<exists>db'. ?run (event_calls v e n q k @ batch_calls v es n' q' k') db = Some db' \<and>
      consistent E db' \<and> has_room m db' \<and> same_static db db' \<and>
      (chosen_ok E v (event_calls v e n q k @ batch_calls v es n' q' k') \<longrightarrow> events_run E (e # es) db db')"
    if first: "\<exists>db'. ?run (event_calls v e n q k) db = Some db' \<and> consistent E db' \<and> has_room (length es + m) db' \<and>
        same_static db db' \<and> same_books db1 db' \<and> (chosen_ok E v (event_calls v e n q k) \<longrightarrow> event_step E e db db')"
      and rest: "params_at b es n' q' k'" "values_ok E v es n' q' db1" for n' q' k' db1
  proof -
    obtain db' where db': "?run (event_calls v e n q k) db = Some db'" "consistent E db'" "has_room (length es + m) db'"
        "same_static db db'" "same_books db1 db'" "chosen_ok E v (event_calls v e n q k) \<longrightarrow> event_step E e db db'"
      using first by blast
    obtain db'' where "?run (batch_calls v es n' q' k') db' = Some db''"
        "consistent E db''" "has_room m db''" "same_static db' db''"
        "chosen_ok E v (batch_calls v es n' q' k') \<longrightarrow> events_run E es db' db''"
      using Cons.IH [OF batch.run_ok [OF Cons.prems(1) db'(1)] db'(2,3) later [OF db'(4)] rest db'(5)] by blast
    moreover have "events_run E (e # es) db db''"
      if "events_run E es db' db''" "chosen_ok E v (event_calls v e n q k)"
    proof -
      have s: "event_step E e db db'" using that(2) db'(6) by simp
      have wf: "parts_ok E" "tpcc_wf E db" using Cons.prems(1) by (simp_all add: batch_db_ok_def)
      show ?thesis
        using that(1) s event_step_keeps(4) [OF s valid env Cons.prems(2) rm(1) wf] by (auto simp: events_run_def)
    qed
    ultimately show ?thesis
      using db'(1) same_static_trans [OF db'(4), of db''] by (auto simp: run_seq_append chosen_ok_append)
  qed
  show ?case
  proof (cases e)
    case (DELIVERY p)
    have v: "delivery_valid p db" "del_at b q = p" "delivery_values E p v q db"
      using valid Cons.prems(5,6) DELIVERY by (simp_all add: values_same_books(2) [OF Cons.prems(7)])
    have rest: "params_at b es n (q + 1) k" "values_ok E v es n (q + 1) (a_delivery E p (delivered_ids E p db0) (\<lambda>_. 0) db0)"
      using Cons.prems(5,6) DELIVERY by simp_all
    show ?thesis
      using step [OF run_delivery_step [OF env Cons.prems(1,2) rm(2) v Cons.prems(7), where n = n and k = k, folded DELIVERY] rest]
      by (simp only: DELIVERY batch_calls.simps)
  next
    case (NEW_ORDER p)
    have v: "order_valid p db" "no_at b n = p" "order_values E p v n db"
      using valid Cons.prems(5,6) NEW_ORDER by (simp_all add: values_same_books(1) [OF Cons.prems(7)])
    have rest: "params_at b es (n + 1) q k" "values_ok E v es (n + 1) q (a_new_order E p db0)"
      using Cons.prems(5,6) NEW_ORDER by simp_all
    have "\<exists>db'. ?run (event_calls v e n q k) db = Some db' \<and> consistent E db' \<and> has_room (length es + m) db' \<and>
        same_static db db' \<and> same_books (a_new_order E p db0) db' \<and> (chosen_ok E v (event_calls v e n q k) \<longrightarrow> event_step E e db db')"
      using run_new_order_step [OF env Cons.prems(1,2) rm(1) v Cons.prems(7), where q = q and k = k] NEW_ORDER by blast
    from step [OF this rest] show ?thesis by (simp only: NEW_ORDER batch_calls.simps)
  next
    case (PAYMENT p)
    have v: "payment_ready p db" "pay_at b k = p" using valid Cons.prems(5) PAYMENT by simp_all
    have rest: "params_at b es n q (k + 1)" "values_ok E v es n q (a_payment E p [] db0)"
      using Cons.prems(5,6) PAYMENT by simp_all
    show ?thesis
      using step [OF run_payment_step [OF Cons.prems(1,2) rm(2) v Cons.prems(7), where n = n and q = q, folded PAYMENT] rest]
      by (simp only: PAYMENT batch_calls.simps)
  qed (use Cons.IH [OF Cons.prems(1,2) rm(2)] Cons.prems in auto)
qed

end
