(* ===== verification/TpccBatchThreads.thy ===== *)
theory TpccBatchThreads
  imports TpccBatchSerial
begin

text \<open>
  The threads of \<open>TpccBatchProcessor::processBatch\<close> (benchmark/tpcc/TpccBatchProcessor.cc): what the loops that
  fill the buckets produce. A thread holds, in the order of the batch, the calls of one family whose
  district or item belongs to its bucket.
\<close>

section \<open>Families of threads\<close>

datatype call_family =
  FNo12 | FNo4 | FNo5 | FConflict | FPay1 | FPay2 | FPay3 | FNo6 | FDel2 | FDel3 | FConflict2

fun family :: "tpcc_call \<Rightarrow> call_family" where
  "family (No1 n) = FNo12" | "family (No2 n) = FNo12" | "family (No3 n) = FConflict" | "family (No4 n i) = FNo4"
| "family (No5 n i) = FNo5" | "family (No6 n) = FNo6" | "family (Pay1 k) = FPay1" | "family (Pay2 k) = FPay2"
| "family (Pay3 k) = FPay3" | "family (Pay4 k) = FConflict2" | "family (Del1 q d) = FConflict"
| "family (Del2 q d) = FDel2" | "family (Del3 q d) = FDel3" | "family (Del4 q d) = FConflict2"

definition no_bucket :: "'g tpcc_env \<Rightarrow> new_order_param \<Rightarrow> nat" where
  "no_bucket E p = district_offset E (nop_w_id p) (nop_d_id p) mod kParallelism (env_cfg E)"

definition line_bucket :: "'g tpcc_env \<Rightarrow> new_order_param \<Rightarrow> nat \<Rightarrow> nat" where
  "line_bucket E p i = item_offset E (nop_i_w_ids p ! i) (nop_i_ids p ! i) mod kParallelism (env_cfg E)"

definition del_bucket :: "'g tpcc_env \<Rightarrow> delivery_param \<Rightarrow> 32 word \<Rightarrow> nat" where
  "del_bucket E p d = district_offset E (del_w_id p) d mod kParallelism (env_cfg E)"

definition pay_bucket :: "'g tpcc_env \<Rightarrow> payment_param \<Rightarrow> nat" where
  "pay_bucket E p = district_offset E (pay_w_id p) (pay_d_id p) mod kParallelism (env_cfg E)"

fun call_bucket :: "'g tpcc_env \<Rightarrow> tpcc_batch \<Rightarrow> tpcc_call \<Rightarrow> nat" where
  "call_bucket E b (No1 n) = no_bucket E (no_at b n)"
| "call_bucket E b (No2 n) = no_bucket E (no_at b n)"
| "call_bucket E b (No3 n) = no_bucket E (no_at b n)"
| "call_bucket E b (No4 n i) = line_bucket E (no_at b n) i"
| "call_bucket E b (No5 n i) = line_bucket E (no_at b n) i"
| "call_bucket E b (No6 n) = no_bucket E (no_at b n)"
| "call_bucket E b (Pay4 k) = pay_bucket E (pay_at b k)"
| "call_bucket E b (Del1 q d) = del_bucket E (del_at b q) d"
| "call_bucket E b (Del2 q d) = del_bucket E (del_at b q) d"
| "call_bucket E b (Del3 q d) = del_bucket E (del_at b q) d"
| "call_bucket E b (Del4 q d) = del_bucket E (del_at b q) d"
| "call_bucket E b _ = 0"

definition in_thread :: "'g tpcc_env \<Rightarrow> tpcc_batch \<Rightarrow> call_family \<Rightarrow> nat \<Rightarrow> tpcc_call \<Rightarrow> bool" where
  "in_thread E b \<phi> t x \<longleftrightarrow> family x = \<phi> \<and> call_bucket E b x = t"

lemma in_thread_simps [simp]:
  "in_thread E b \<phi> t (No1 n) \<longleftrightarrow> \<phi> = FNo12 \<and> no_bucket E (no_at b n) = t"
  "in_thread E b \<phi> t (No2 n) \<longleftrightarrow> \<phi> = FNo12 \<and> no_bucket E (no_at b n) = t"
  "in_thread E b \<phi> t (No3 n) \<longleftrightarrow> \<phi> = FConflict \<and> no_bucket E (no_at b n) = t"
  "in_thread E b \<phi> t (No4 n i) \<longleftrightarrow> \<phi> = FNo4 \<and> line_bucket E (no_at b n) i = t"
  "in_thread E b \<phi> t (No5 n i) \<longleftrightarrow> \<phi> = FNo5 \<and> line_bucket E (no_at b n) i = t"
  "in_thread E b \<phi> t (No6 n) \<longleftrightarrow> \<phi> = FNo6 \<and> no_bucket E (no_at b n) = t"
  "in_thread E b \<phi> t (Pay1 k) \<longleftrightarrow> \<phi> = FPay1 \<and> t = 0"
  "in_thread E b \<phi> t (Pay2 k) \<longleftrightarrow> \<phi> = FPay2 \<and> t = 0"
  "in_thread E b \<phi> t (Pay3 k) \<longleftrightarrow> \<phi> = FPay3 \<and> t = 0"
  "in_thread E b \<phi> t (Pay4 k) \<longleftrightarrow> \<phi> = FConflict2 \<and> pay_bucket E (pay_at b k) = t"
  "in_thread E b \<phi> t (Del1 q d) \<longleftrightarrow> \<phi> = FConflict \<and> del_bucket E (del_at b q) d = t"
  "in_thread E b \<phi> t (Del2 q d) \<longleftrightarrow> \<phi> = FDel2 \<and> del_bucket E (del_at b q) d = t"
  "in_thread E b \<phi> t (Del3 q d) \<longleftrightarrow> \<phi> = FDel3 \<and> del_bucket E (del_at b q) d = t"
  "in_thread E b \<phi> t (Del4 q d) \<longleftrightarrow> \<phi> = FConflict2 \<and> del_bucket E (del_at b q) d = t"
  by (auto simp: in_thread_def)

lemma filter_calls:
  "filter (in_thread E b \<phi> t) (map (No4 n) is) =
     (if \<phi> = FNo4 then map (No4 n) (filter (\<lambda>i. line_bucket E (no_at b n) i = t) is) else [])"
  "filter (in_thread E b \<phi> t) (map (No5 n) is) =
     (if \<phi> = FNo5 then map (No5 n) (filter (\<lambda>i. line_bucket E (no_at b n) i = t) is) else [])"
  "filter (in_thread E b \<phi> t) (map (Del1 q) ds) =
     (if \<phi> = FConflict then map (Del1 q) (filter (\<lambda>d. del_bucket E (del_at b q) d = t) ds) else [])"
  "filter (in_thread E b \<phi> t) (map (Del2 q) ds) =
     (if \<phi> = FDel2 then map (Del2 q) (filter (\<lambda>d. del_bucket E (del_at b q) d = t) ds) else [])"
  "filter (in_thread E b \<phi> t) (map (Del3 q) ds) =
     (if \<phi> = FDel3 then map (Del3 q) (filter (\<lambda>d. del_bucket E (del_at b q) d = t) ds) else [])"
  "filter (in_thread E b \<phi> t) (map (Del4 q) ds) =
     (if \<phi> = FConflict2 then map (Del4 q) (filter (\<lambda>d. del_bucket E (del_at b q) d = t) ds) else [])"
  by (auto simp: filter_map comp_def)

definition thread_of :: "'g tpcc_env \<Rightarrow> tpcc_batch \<Rightarrow> tpcc_call list \<Rightarrow> call_family \<Rightarrow> nat \<Rightarrow> tpcc_call list" where
  "thread_of E b cs \<phi> t = filter (in_thread E b \<phi> t) cs"

lemma thread_of_append [simp]: "thread_of E b (xs @ ys) \<phi> t = thread_of E b xs \<phi> t @ thread_of E b ys \<phi> t"
  by (simp add: thread_of_def)

definition threads_of :: "'g tpcc_env \<Rightarrow> tpcc_batch \<Rightarrow> tpcc_call list \<Rightarrow> call_family \<Rightarrow> tpcc_call list list" where
  "threads_of E b cs \<phi> = map (thread_of E b cs \<phi>) [0..<kParallelism (env_cfg E)]"

section \<open>Filling buckets\<close>

lemma bucket_push_loop:
  assumes "0 < kParallelism cfg" "length bkt = kParallelism cfg"
  obtains bkt' where "fold_res (\<lambda>x bkt. bucket_push cfg (h x) (g x) bkt) xs bkt = Inr bkt'" "length bkt' = kParallelism cfg"
    "\<forall>t < kParallelism cfg. bkt' ! t = bkt ! t @ map g (filter (\<lambda>x. h x mod kParallelism cfg = t) xs)"
proof -
  have "\<exists>bkt'. fold_res (\<lambda>x bkt. bucket_push cfg (h x) (g x) bkt) xs bkt = Inr bkt' \<and> length bkt' = kParallelism cfg \<and>
      (\<forall>t < kParallelism cfg. bkt' ! t = bkt ! t @ map g (filter (\<lambda>x. h x mod kParallelism cfg = t) xs))"
    using assms(2)
  proof (induction xs arbitrary: bkt)
    case (Cons x xs)
    let ?bkt = "bkt[h x mod kParallelism cfg := bkt ! (h x mod kParallelism cfg) @ [g x]]"
    have "length ?bkt = kParallelism cfg" using Cons.prems by simp
    from Cons.IH [OF this] obtain bkt' where b: "fold_res (\<lambda>x bkt. bucket_push cfg (h x) (g x) bkt) xs ?bkt = Inr bkt'"
        "length bkt' = kParallelism cfg"
        "\<forall>t < kParallelism cfg. bkt' ! t = ?bkt ! t @ map g (filter (\<lambda>x. h x mod kParallelism cfg = t) xs)"
      by blast
    have "bkt' ! t = bkt ! t @ map g (filter (\<lambda>x. h x mod kParallelism cfg = t) (x # xs))" if "t < kParallelism cfg" for t
      using b(3) that Cons.prems assms(1) by (auto simp: nth_list_update)
    then show ?case using b(1,2) assms(1) by (simp add: bucket_push_def)
  qed simp
  then show thesis using that by blast
qed

lemma bucket_push_one:
  assumes "0 < kParallelism cfg" "length bkt = kParallelism cfg"
  obtains bkt' where "bucket_push cfg h x bkt = Inr bkt'" "length bkt' = kParallelism cfg"
    "\<forall>t < kParallelism cfg. bkt' ! t = bkt ! t @ (if h mod kParallelism cfg = t then [x] else [])"
  using assms by (auto simp: bucket_push_def nth_list_update)

text \<open>The calls a bucket stands for.\<close>

abbreviation calls4 :: "(nat \<times> nat) list \<Rightarrow> tpcc_call list" where "calls4 \<equiv> map (\<lambda>(n, i). No4 n i)"
abbreviation calls5 :: "(nat \<times> nat) list \<Rightarrow> tpcc_call list" where "calls5 \<equiv> map (\<lambda>(n, i). No5 n i)"
abbreviation calls12 :: "nat list \<Rightarrow> tpcc_call list" where "calls12 ns \<equiv> concat (map (\<lambda>n. [No1 n, No2 n]) ns)"
abbreviation callsc :: "(nat \<times> 32 word) list \<Rightarrow> tpcc_call list" where
  "callsc \<equiv> map (\<lambda>(q, d). if d = - 1 then No3 q else Del1 q d)"
abbreviation calls_del2 :: "(nat \<times> 32 word) list \<Rightarrow> tpcc_call list" where "calls_del2 \<equiv> map (\<lambda>(q, d). Del2 q d)"
abbreviation calls_del3 :: "(nat \<times> 32 word) list \<Rightarrow> tpcc_call list" where "calls_del3 \<equiv> map (\<lambda>(q, d). Del3 q d)"
abbreviation callsc2 :: "(nat \<times> 32 word) list \<Rightarrow> tpcc_call list" where
  "callsc2 \<equiv> map (\<lambda>(q, d). if d = - 1 then Pay4 q else Del4 q d)"

lemma district_numbers: "d \<in> set all_districts \<Longrightarrow> d \<noteq> - 1 \<and> int_index d < 11"
proof -
  have "\<forall>d \<in> set all_districts. d \<noteq> - 1 \<and> int_index d < 11" by code_simp
  then show "d \<in> set all_districts \<Longrightarrow> d \<noteq> - 1 \<and> int_index d < 11" by blast
qed

lemma int_index_inj: "d \<in> set all_districts \<Longrightarrow> d' \<in> set all_districts \<Longrightarrow> int_index d = int_index d' \<Longrightarrow> d = d'"
proof -
  have "\<forall>d \<in> set all_districts. \<forall>d' \<in> set all_districts. int_index d = int_index d' \<longrightarrow> d = d'" by code_simp
  then show "d \<in> set all_districts \<Longrightarrow> d' \<in> set all_districts \<Longrightarrow> int_index d = int_index d' \<Longrightarrow> d = d'" by blast
qed

text \<open>\<open>fills E b f cs n q f'\<close>: the loop has added the calls \<open>cs\<close> to the buckets.\<close>

definition fills :: "'g tpcc_env \<Rightarrow> tpcc_batch \<Rightarrow> tpcc_fill \<Rightarrow> tpcc_call list \<Rightarrow> tpcc_fill \<Rightarrow> bool" where
  "fills E b f cs f' \<longleftrightarrow>
     length (no_bkt f') = kParallelism (env_cfg E) \<and> length (item_bkt f') = kParallelism (env_cfg E) \<and>
     length (dn_bkt f') = kParallelism (env_cfg E) \<and>
     (\<forall>t < kParallelism (env_cfg E).
        calls4 (item_bkt f' ! t) = calls4 (item_bkt f ! t) @ thread_of E b cs FNo4 t \<and>
        calls5 (item_bkt f' ! t) = calls5 (item_bkt f ! t) @ thread_of E b cs FNo5 t \<and>
        calls12 (no_bkt f' ! t) = calls12 (no_bkt f ! t) @ thread_of E b cs FNo12 t \<and>
        map No6 (no_bkt f' ! t) = map No6 (no_bkt f ! t) @ thread_of E b cs FNo6 t \<and>
        callsc (dn_bkt f' ! t) = callsc (dn_bkt f ! t) @ thread_of E b cs FConflict t)"

lemma fills_trans:
  "fills E b f cs f1 \<Longrightarrow> fills E b f1 cs' f2 \<Longrightarrow> fills E b f (cs @ cs') f2"
  unfolding fills_def by (intro conjI allI impI) simp_all

definition bkts_ok :: "'g tpcc_env \<Rightarrow> tpcc_fill \<Rightarrow> bool" where
  "bkts_ok E f \<longleftrightarrow> length (no_bkt f) = kParallelism (env_cfg E) \<and> length (item_bkt f) = kParallelism (env_cfg E) \<and>
     length (dn_bkt f) = kParallelism (env_cfg E)"

lemma first_fill_delivery:
  assumes K: "0 < kParallelism (env_cfg E)" and f: "bkts_ok E f" and p: "del_at b (f_delivery_pos f) = p"
  obtains f' where "first_fill E (DELIVERY p) f = Inr f'" "fills E b f (event_calls v (DELIVERY p) n (f_delivery_pos f) k) f'"
    "f_delivery_pos f' = f_delivery_pos f + 1" "f_new_order_pos f' = f_new_order_pos f"
    "f_no_o_ids f' = f_no_o_ids f @ [per_district_vector (- 1)]" "f_s_dists f' = f_s_dists f" "f_amounts f' = f_amounts f"
proof -
  let ?q = "f_delivery_pos f" and ?K = "kParallelism (env_cfg E)"
  have l: "length (dn_bkt f) = ?K" using f by (simp add: bkts_ok_def)
  obtain bkt where bkt: "fold_res (\<lambda>d bkt. bucket_push (env_cfg E) (district_offset E (del_w_id p) d) (?q, d) bkt)
        all_districts (dn_bkt f) = Inr bkt" "length bkt = ?K"
      "\<forall>t < ?K. bkt ! t = dn_bkt f ! t @ map (Pair ?q) (filter (\<lambda>d. district_offset E (del_w_id p) d mod ?K = t) all_districts)"
    by (rule bucket_push_loop [OF K l, where h = "district_offset E (del_w_id p)" and g = "Pair ?q" and xs = all_districts])
  have c: "callsc (map (Pair ?q) (filter P all_districts)) = map (Del1 ?q) (filter P all_districts)" for P
    using district_numbers by (simp add: comp_def)
  let ?f = "f\<lparr>f_no_o_ids := f_no_o_ids f @ [per_district_vector (- 1)], dn_bkt := bkt, f_delivery_pos := ?q + 1\<rparr>"
  have "fills E b f (event_calls v (DELIVERY p) n ?q k) ?f"
    using f bkt(2,3) c p by (simp add: fills_def bkts_ok_def thread_of_def filter_calls del_bucket_def)
  then show thesis using that [of ?f] bkt(1) by (simp add: Let_def)
qed

lemma first_fill_new_order:
  assumes K: "0 < kParallelism (env_cfg E)" and f: "bkts_ok E f" and p: "no_at b (f_new_order_pos f) = p"
    and la: "length (nop_i_w_ids p) = length (nop_i_ids p)"
  obtains f' where "first_fill E (NEW_ORDER p) f = Inr f'" "fills E b f (event_calls v (NEW_ORDER p) (f_new_order_pos f) q k) f'"
    "f_delivery_pos f' = f_delivery_pos f" "f_new_order_pos f' = f_new_order_pos f + 1"
    "f_no_o_ids f' = f_no_o_ids f" "f_s_dists f' = f_s_dists f @ [replicate (order_length p) []]"
    "f_amounts f' = f_amounts f @ [replicate (order_length p) (d_of_int (env_dbl E) 0)]"
proof -
  let ?n = "f_new_order_pos f" and ?K = "kParallelism (env_cfg E)" and ?m = "order_length p"
  let ?off = "district_offset E (nop_w_id p) (nop_d_id p)"
  have l: "length (dn_bkt f) = ?K" "length (no_bkt f) = ?K" "length (item_bkt f) = ?K" using f by (simp_all add: bkts_ok_def)
  obtain dn where dn: "bucket_push (env_cfg E) ?off (?n, - 1) (dn_bkt f) = Inr dn" "length dn = ?K"
      "\<forall>t < ?K. dn ! t = dn_bkt f ! t @ (if ?off mod ?K = t then [(?n, - 1)] else [])"
    by (rule bucket_push_one [OF K l(1)])
  obtain no where no: "bucket_push (env_cfg E) ?off ?n (no_bkt f) = Inr no" "length no = ?K"
      "\<forall>t < ?K. no ! t = no_bkt f ! t @ (if ?off mod ?K = t then [?n] else [])"
    by (rule bucket_push_one [OF K l(2)])
  let ?h = "\<lambda>i. item_offset E (nop_i_w_ids p ! i) (nop_i_ids p ! i)"
  obtain it where it: "fold_res (\<lambda>i bkt. bucket_push (env_cfg E) (?h i) (?n, i) bkt) [0..<?m] (item_bkt f) = Inr it"
      "length it = ?K" "\<forall>t < ?K. it ! t = item_bkt f ! t @ map (Pair ?n) (filter (\<lambda>i. ?h i mod ?K = t) [0..<?m])"
    by (rule bucket_push_loop [OF K l(3), where h = ?h and g = "Pair ?n" and xs = "[0..<?m]"])
  have cong: "fold_res g is s = fold_res g' is s" if "\<And>i s. i \<in> set is \<Longrightarrow> g i s = g' i s"
    for g g' :: "nat \<Rightarrow> (nat \<times> nat) list list \<Rightarrow> (nat \<times> nat) list list result" and "is" s
    using that by (induction "is" arbitrary: s) (auto simp: bnd_def split: sum.split)
  have "fold_res (\<lambda>i bkt. bnd (vec_at (nop_i_w_ids p) i) (\<lambda>w. bnd (vec_at (nop_i_ids p) i) (\<lambda>i_id.
        bucket_push (env_cfg E) (item_offset E w i_id) (?n, i) bkt))) [0..<?m] (item_bkt f) = Inr it"
    unfolding it(1) [symmetric] by (rule cong) (use la in \<open>simp add: vec_at_eq order_length_def\<close>)
  then have items: "fold_res (\<lambda>i bkt. bnd (vec_at (nop_i_w_ids p) i) (\<lambda>w. bnd (vec_at (nop_i_ids p) i) (\<lambda>i_id.
        bucket_push (env_cfg E) (item_offset E w i_id) (?n, i) bkt))) [0..<length (nop_i_ids p)] (item_bkt f) = Inr it"
    by (simp add: order_length_def)
  let ?f = "f\<lparr>dn_bkt := dn, no_bkt := no, f_s_dists := f_s_dists f @ [replicate ?m []],
      f_amounts := f_amounts f @ [replicate ?m (d_of_int (env_dbl E) 0)], item_bkt := it, f_new_order_pos := ?n + 1\<rparr>"
  have "fills E b f (event_calls v (NEW_ORDER p) ?n q k) ?f"
    using dn(2,3) no(2,3) it(2,3) p
    by (simp add: fills_def thread_of_def filter_calls no_bucket_def line_bucket_def comp_def)
  then show thesis using that [of ?f] dn(1) no(1) items by (simp add: Let_def order_length_def)
qed

section \<open>The loop at the beginning\<close>

definition orders_of :: "tpcc_event list \<Rightarrow> new_order_param list" where
  "orders_of es = List.map_filter (\<lambda>e. case e of NEW_ORDER p \<Rightarrow> Some p | _ \<Rightarrow> None) es"

definition deliveries_of :: "tpcc_event list \<Rightarrow> delivery_param list" where
  "deliveries_of es = List.map_filter (\<lambda>e. case e of DELIVERY p \<Rightarrow> Some p | _ \<Rightarrow> None) es"

definition payments_of :: "tpcc_event list \<Rightarrow> payment_param list" where
  "payments_of es = List.map_filter (\<lambda>e. case e of PAYMENT p \<Rightarrow> Some p | _ \<Rightarrow> None) es"

lemma parameters_of_simps [simp]:
  "orders_of [] = []" "orders_of (NEW_ORDER p # es) = p # orders_of es" "orders_of (DELIVERY p1 # es) = orders_of es"
  "orders_of (PAYMENT p2 # es) = orders_of es" "orders_of (ORDER_STATUS p3 # es) = orders_of es"
  "orders_of (STOCK_LEVEL p4 # es) = orders_of es" "orders_of (ENDEXECUTION # es) = orders_of es"
  "deliveries_of [] = []" "deliveries_of (NEW_ORDER p # es) = deliveries_of es"
  "deliveries_of (DELIVERY p1 # es) = p1 # deliveries_of es" "deliveries_of (PAYMENT p2 # es) = deliveries_of es"
  "deliveries_of (ORDER_STATUS p3 # es) = deliveries_of es" "deliveries_of (STOCK_LEVEL p4 # es) = deliveries_of es"
  "deliveries_of (ENDEXECUTION # es) = deliveries_of es"
  "payments_of [] = []" "payments_of (NEW_ORDER p # es) = payments_of es" "payments_of (DELIVERY p1 # es) = payments_of es"
  "payments_of (PAYMENT p2 # es) = p2 # payments_of es" "payments_of (ORDER_STATUS p3 # es) = payments_of es"
  "payments_of (STOCK_LEVEL p4 # es) = payments_of es" "payments_of (ENDEXECUTION # es) = payments_of es"
  by (simp_all add: orders_of_def deliveries_of_def payments_of_def List.map_filter_def)

definition tpcc_batch_of :: "tpcc_event list \<Rightarrow> tpcc_batch" where
  "tpcc_batch_of es = fold tpcc_add_event es tpcc_empty_batch"

lemma tpcc_batch_of_simps:
  "new_order_params (tpcc_batch_of es) = orders_of es" "delivery_params (tpcc_batch_of es) = deliveries_of es"
  "payment_params (tpcc_batch_of es) = payments_of es" "tpcc_batch_params (tpcc_batch_of es) = es"
proof -
  have "new_order_params (fold tpcc_add_event es b) = new_order_params b @ orders_of es \<and>
      delivery_params (fold tpcc_add_event es b) = delivery_params b @ deliveries_of es \<and>
      payment_params (fold tpcc_add_event es b) = payment_params b @ payments_of es \<and>
      tpcc_batch_params (fold tpcc_add_event es b) = tpcc_batch_params b @ es" for b
  proof (induction es arbitrary: b)
    case (Cons e es)
    then show ?case by (cases e) (simp_all add: tpcc_add_event_def)
  qed simp
  from this [of tpcc_empty_batch]
  show "new_order_params (tpcc_batch_of es) = orders_of es" "delivery_params (tpcc_batch_of es) = deliveries_of es"
    "payment_params (tpcc_batch_of es) = payments_of es" "tpcc_batch_params (tpcc_batch_of es) = es"
    by (simp_all add: tpcc_batch_of_def tpcc_empty_batch_def)
qed

lemma drop_Cons: "drop n xs = y # ys \<Longrightarrow> xs ! n = y \<and> drop (Suc n) xs = ys"
  by (metis drop_Suc list.sel(3) nth_via_drop tl_drop)

lemma params_at_drop:
  "drop n (new_order_params b) = orders_of es \<Longrightarrow> drop q (delivery_params b) = deliveries_of es \<Longrightarrow>
   drop k (payment_params b) = payments_of es \<Longrightarrow> params_at b es n q k"
proof (induction es arbitrary: n q k)
  case (Cons e es)
  then show ?case by (cases e) (auto dest: drop_Cons)
qed simp

lemma params_at_batch: "params_at (tpcc_batch_of es) es 0 0 0"
  by (rule params_at_drop) (simp_all add: tpcc_batch_of_simps)

lemma fills_bkts: "fills E b f cs f' \<Longrightarrow> bkts_ok E f'"
  by (simp add: fills_def bkts_ok_def)

lemma fills_refl: "bkts_ok E f \<Longrightarrow> fills E b f [] f"
  by (simp add: fills_def bkts_ok_def thread_of_def)

lemma first_fill_all:
  fixes E :: "'g tpcc_env"
  assumes K: "0 < kParallelism (env_cfg E)"
  shows "bkts_ok E f \<Longrightarrow> params_at b es (f_new_order_pos f) (f_delivery_pos f) k \<Longrightarrow>
    \<forall>p \<in> set (orders_of es). length (nop_i_w_ids p) = length (nop_i_ids p) \<Longrightarrow>
    \<exists>f'. fold_res (first_fill E) es f = Inr f' \<and> fills E b f (batch_calls v es (f_new_order_pos f) (f_delivery_pos f) k) f' \<and>
      f_no_o_ids f' = f_no_o_ids f @ replicate (length (deliveries_of es)) (per_district_vector (- 1)) \<and>
      f_s_dists f' = f_s_dists f @ map (\<lambda>p. replicate (order_length p) []) (orders_of es) \<and>
      f_amounts f' = f_amounts f @ map (\<lambda>p. replicate (order_length p) (d_of_int (env_dbl E) 0)) (orders_of es)"
proof (induction es arbitrary: f k)
  case Nil
  then show ?case by (simp add: fills_refl)
next
  case (Cons e es)
  show ?case
  proof (cases e)
    case (DELIVERY p)
    have p: "del_at b (f_delivery_pos f) = p" using Cons.prems(2) DELIVERY by simp
    obtain f1 where f1: "first_fill E (DELIVERY p) f = Inr f1"
        "fills E b f (event_calls v (DELIVERY p) (f_new_order_pos f) (f_delivery_pos f) k) f1"
        "f_delivery_pos f1 = f_delivery_pos f + 1" "f_new_order_pos f1 = f_new_order_pos f"
        "f_no_o_ids f1 = f_no_o_ids f @ [per_district_vector (- 1)]" "f_s_dists f1 = f_s_dists f" "f_amounts f1 = f_amounts f"
      by (rule first_fill_delivery [OF K Cons.prems(1) p, where v = v and n = "f_new_order_pos f" and k = k])
    have "params_at b es (f_new_order_pos f1) (f_delivery_pos f1) k" using Cons.prems(2) DELIVERY f1(3,4) by simp
    from Cons.IH [OF fills_bkts [OF f1(2)] this] obtain f' where f': "fold_res (first_fill E) es f1 = Inr f'"
        "fills E b f1 (batch_calls v es (f_new_order_pos f1) (f_delivery_pos f1) k) f'"
        "f_no_o_ids f' = f_no_o_ids f1 @ replicate (length (deliveries_of es)) (per_district_vector (- 1))"
        "f_s_dists f' = f_s_dists f1 @ map (\<lambda>p. replicate (order_length p) []) (orders_of es)"
        "f_amounts f' = f_amounts f1 @ map (\<lambda>p. replicate (order_length p) (d_of_int (env_dbl E) 0)) (orders_of es)"
      using Cons.prems(3) DELIVERY by auto
    show ?thesis
      using f1(1) f'(1) fills_trans [OF f1(2) f'(2)] f1(3-7) f'(3-5) DELIVERY by (simp add: replicate_append_same)
  next
    case (NEW_ORDER p)
    have p: "no_at b (f_new_order_pos f) = p" "length (nop_i_w_ids p) = length (nop_i_ids p)"
      using Cons.prems(2,3) NEW_ORDER by simp_all
    obtain f1 where f1: "first_fill E (NEW_ORDER p) f = Inr f1"
        "fills E b f (event_calls v (NEW_ORDER p) (f_new_order_pos f) (f_delivery_pos f) k) f1"
        "f_delivery_pos f1 = f_delivery_pos f" "f_new_order_pos f1 = f_new_order_pos f + 1"
        "f_no_o_ids f1 = f_no_o_ids f" "f_s_dists f1 = f_s_dists f @ [replicate (order_length p) []]"
        "f_amounts f1 = f_amounts f @ [replicate (order_length p) (d_of_int (env_dbl E) 0)]"
      by (rule first_fill_new_order [OF K Cons.prems(1) p, where v = v and q = "f_delivery_pos f" and k = k])
    have "params_at b es (f_new_order_pos f1) (f_delivery_pos f1) k" using Cons.prems(2) NEW_ORDER f1(3,4) by simp
    from Cons.IH [OF fills_bkts [OF f1(2)] this] obtain f' where f': "fold_res (first_fill E) es f1 = Inr f'"
        "fills E b f1 (batch_calls v es (f_new_order_pos f1) (f_delivery_pos f1) k) f'"
        "f_no_o_ids f' = f_no_o_ids f1 @ replicate (length (deliveries_of es)) (per_district_vector (- 1))"
        "f_s_dists f' = f_s_dists f1 @ map (\<lambda>p. replicate (order_length p) []) (orders_of es)"
        "f_amounts f' = f_amounts f1 @ map (\<lambda>p. replicate (order_length p) (d_of_int (env_dbl E) 0)) (orders_of es)"
      using Cons.prems(3) NEW_ORDER by auto
    show ?thesis
      using f1(1) f'(1) fills_trans [OF f1(2) f'(2)] f1(3-7) f'(3-5) NEW_ORDER by simp
  next
    case (PAYMENT p)
    have "params_at b es (f_new_order_pos f) (f_delivery_pos f) (k + 1)" using Cons.prems(2) PAYMENT by simp
    from Cons.IH [OF Cons.prems(1) this] obtain f' where f': "fold_res (first_fill E) es f = Inr f'"
        "fills E b f (batch_calls v es (f_new_order_pos f) (f_delivery_pos f) (k + 1)) f'"
        "f_no_o_ids f' = f_no_o_ids f @ replicate (length (deliveries_of es)) (per_district_vector (- 1))"
        "f_s_dists f' = f_s_dists f @ map (\<lambda>p. replicate (order_length p) []) (orders_of es)"
        "f_amounts f' = f_amounts f @ map (\<lambda>p. replicate (order_length p) (d_of_int (env_dbl E) 0)) (orders_of es)"
      using Cons.prems(3) PAYMENT by auto
    have "fills E b f (event_calls v (PAYMENT p) (f_new_order_pos f) (f_delivery_pos f) k) f"
      using Cons.prems(1) by (simp add: fills_def bkts_ok_def thread_of_def)
    from fills_trans [OF this f'(2)] show ?thesis using f'(1,3-5) PAYMENT by simp
  qed (use Cons in simp_all)
qed

lemma first_threads:
  assumes "fills E b (empty_fill (env_cfg E)) cs f"
  shows "no4_threads f = threads_of E b cs FNo4" "no5_threads f = threads_of E b cs FNo5"
    "no12_threads f = threads_of E b cs FNo12" "no6_threads f = threads_of E b cs FNo6"
    "conflict_threads f = threads_of E b cs FConflict"
  unfolding no4_threads_def no5_threads_def no12_threads_def no6_threads_def conflict_threads_def threads_of_def
  using assms by (auto simp: fills_def empty_fill_def intro!: nth_equalityI)

section \<open>The loop in the middle\<close>

definition fills2 :: "'g tpcc_env \<Rightarrow> tpcc_batch \<Rightarrow> tpcc_fill2 \<Rightarrow> tpcc_call list \<Rightarrow> tpcc_fill2 \<Rightarrow> bool" where
  "fills2 E b f cs f' \<longleftrightarrow>
     length (dp_bkt f') = kParallelism (env_cfg E) \<and> length (del_bkt f') = kParallelism (env_cfg E) \<and>
     (\<forall>t < kParallelism (env_cfg E).
        callsc2 (dp_bkt f' ! t) = callsc2 (dp_bkt f ! t) @ thread_of E b cs FConflict2 t \<and>
        calls_del2 (del_bkt f' ! t) = calls_del2 (del_bkt f ! t) @ thread_of E b cs FDel2 t \<and>
        calls_del3 (del_bkt f' ! t) = calls_del3 (del_bkt f ! t) @ thread_of E b cs FDel3 t)"

lemma fills2_trans: "fills2 E b f cs f1 \<Longrightarrow> fills2 E b f1 cs' f2 \<Longrightarrow> fills2 E b f (cs @ cs') f2"
  unfolding fills2_def by (intro conjI allI impI) simp_all

definition bkts2_ok :: "'g tpcc_env \<Rightarrow> tpcc_fill2 \<Rightarrow> bool" where
  "bkts2_ok E f \<longleftrightarrow> length (dp_bkt f) = kParallelism (env_cfg E) \<and> length (del_bkt f) = kParallelism (env_cfg E)"

lemma due_loop:
  assumes K: "0 < kParallelism (env_cfg E)" and l: "length dp = kParallelism (env_cfg E)" "length del = kParallelism (env_cfg E)"
    and due: "\<forall>d \<in> set ds. get2 no_o_ids q (int_index d) = Inr (case v d of None \<Rightarrow> - 1 | Some o_id \<Rightarrow> o_id) \<and> v d \<noteq> Some (- 1)"
  obtains dp' del' where "fold_res (\<lambda>d (dp, del).
             bnd (get2 no_o_ids q (int_index d)) (\<lambda>o_id.
             if o_id \<noteq> - 1
             then let offset = district_offset E w d in
                  bnd (bucket_push (env_cfg E) offset (q, d) dp) (\<lambda>dp.
                  bnd (bucket_push (env_cfg E) offset (q, d) del) (\<lambda>del. Inr (dp, del)))
             else Inr (dp, del))) ds (dp, del) = Inr (dp', del')"
    "length dp' = kParallelism (env_cfg E)" "length del' = kParallelism (env_cfg E)"
    "\<forall>t < kParallelism (env_cfg E).
       dp' ! t = dp ! t @ map (Pair q) (filter (\<lambda>d. district_offset E w d mod kParallelism (env_cfg E) = t) (filter (\<lambda>d. v d \<noteq> None) ds)) \<and>
       del' ! t = del ! t @ map (Pair q) (filter (\<lambda>d. district_offset E w d mod kParallelism (env_cfg E) = t) (filter (\<lambda>d. v d \<noteq> None) ds))"
proof -
  let ?K = "kParallelism (env_cfg E)" and ?body = "\<lambda>d (dp, del).
             bnd (get2 no_o_ids q (int_index d)) (\<lambda>o_id.
             if o_id \<noteq> - 1
             then let offset = district_offset E w d in
                  bnd (bucket_push (env_cfg E) offset (q, d) dp) (\<lambda>dp.
                  bnd (bucket_push (env_cfg E) offset (q, d) del) (\<lambda>del. Inr (dp, del)))
             else Inr (dp, del))"
  let ?new = "\<lambda>t ds. map (Pair q) (filter (\<lambda>d. district_offset E w d mod ?K = t) (filter (\<lambda>d. v d \<noteq> None) ds))"
  have "\<exists>dp' del'. fold_res ?body ds (dp, del) = Inr (dp', del') \<and> length dp' = ?K \<and> length del' = ?K \<and>
      (\<forall>t < ?K. dp' ! t = dp ! t @ ?new t ds \<and> del' ! t = del ! t @ ?new t ds)"
    using l due
  proof (induction ds arbitrary: dp del)
    case (Cons d ds)
    have g: "get2 no_o_ids q (int_index d) = Inr (case v d of None \<Rightarrow> - 1 | Some o_id \<Rightarrow> o_id)" "v d \<noteq> Some (- 1)"
      using Cons.prems(3) by simp_all
    have due: "\<forall>d \<in> set ds. get2 no_o_ids q (int_index d) = Inr (case v d of None \<Rightarrow> - 1 | Some o_id \<Rightarrow> o_id) \<and> v d \<noteq> Some (- 1)"
      using Cons.prems(3) by simp
    show ?case
    proof (cases "v d")
      case None
      then show ?thesis using Cons.IH [OF Cons.prems(1,2) due] g by simp
    next
      case (Some o_id)
      let ?off = "district_offset E w d"
      obtain dp1 where dp1: "bucket_push (env_cfg E) ?off (q, d) dp = Inr dp1" "length dp1 = ?K"
          "\<forall>t < ?K. dp1 ! t = dp ! t @ (if ?off mod ?K = t then [(q, d)] else [])"
        by (rule bucket_push_one [OF K Cons.prems(1)])
      obtain del1 where del1: "bucket_push (env_cfg E) ?off (q, d) del = Inr del1" "length del1 = ?K"
          "\<forall>t < ?K. del1 ! t = del ! t @ (if ?off mod ?K = t then [(q, d)] else [])"
        by (rule bucket_push_one [OF K Cons.prems(2)])
      obtain dp' del' where r: "fold_res ?body ds (dp1, del1) = Inr (dp', del')" "length dp' = ?K" "length del' = ?K"
          "\<forall>t < ?K. dp' ! t = dp1 ! t @ ?new t ds \<and> del' ! t = del1 ! t @ ?new t ds"
        using Cons.IH [OF dp1(2) del1(2) due] by blast
      have "fold_res ?body (d # ds) (dp, del) = Inr (dp', del')"
        using g Some dp1(1) del1(1) r(1) by (simp add: Let_def)
      moreover have "\<forall>t < ?K. dp' ! t = dp ! t @ ?new t (d # ds) \<and> del' ! t = del ! t @ ?new t (d # ds)"
        using r(4) dp1(3) del1(3) Some by simp
      ultimately show ?thesis using r(2,3) by blast
    qed
  qed simp
  then show thesis using that by blast
qed

lemma second_fill_delivery:
  assumes K: "0 < kParallelism (env_cfg E)" and f: "bkts2_ok E f" and p: "del_at b (f2_delivery_pos f) = p"
    and due: "\<forall>d \<in> set all_districts. get2 no_o_ids (f2_delivery_pos f) (int_index d) =
        Inr (case bv_due v (f2_delivery_pos f) d of None \<Rightarrow> - 1 | Some o_id \<Rightarrow> o_id) \<and> bv_due v (f2_delivery_pos f) d \<noteq> Some (- 1)"
  obtains f' where "second_fill E no_o_ids (DELIVERY p) f = Inr f'"
    "fills2 E b f (event_calls v (DELIVERY p) n (f2_delivery_pos f) k) f'"
    "f2_delivery_pos f' = f2_delivery_pos f + 1" "f2_payment_pos f' = f2_payment_pos f"
    "f_c_ids f' = f_c_ids f @ [per_district_vector (- 1)]"
    "f_sums f' = f_sums f @ [per_district_vector (d_of_int (env_dbl E) (- 1))]"
proof -
  let ?q = "f2_delivery_pos f" and ?K = "kParallelism (env_cfg E)"
  let ?ds = "filter (\<lambda>d. bv_due v ?q d \<noteq> None) all_districts"
  have l: "length (dp_bkt f) = ?K" "length (del_bkt f) = ?K" using f by (simp_all add: bkts2_ok_def)
  obtain dp del where r: "fold_res (\<lambda>d (dp, del).
             bnd (get2 no_o_ids ?q (int_index d)) (\<lambda>o_id.
             if o_id \<noteq> - 1
             then let offset = district_offset E (del_w_id p) d in
                  bnd (bucket_push (env_cfg E) offset (?q, d) dp) (\<lambda>dp.
                  bnd (bucket_push (env_cfg E) offset (?q, d) del) (\<lambda>del. Inr (dp, del)))
             else Inr (dp, del))) all_districts (dp_bkt f, del_bkt f) = Inr (dp, del)"
    "length dp = ?K" "length del = ?K"
    "\<forall>t < ?K.
       dp ! t = dp_bkt f ! t @ map (Pair ?q) (filter (\<lambda>d. district_offset E (del_w_id p) d mod ?K = t) ?ds) \<and>
       del ! t = del_bkt f ! t @ map (Pair ?q) (filter (\<lambda>d. district_offset E (del_w_id p) d mod ?K = t) ?ds)"
    by (rule due_loop [OF K l due])
  have c: "callsc2 (map (Pair ?q) (filter P ?ds)) = map (Del4 ?q) (filter P ?ds)" for P
    using district_numbers by (simp add: comp_def)
  let ?f = "f\<lparr>f_c_ids := f_c_ids f @ [per_district_vector (- 1)],
      f_sums := f_sums f @ [per_district_vector (d_of_int (env_dbl E) (- 1))],
      dp_bkt := dp, del_bkt := del, f2_delivery_pos := ?q + 1\<rparr>"
  have "fills2 E b f (event_calls v (DELIVERY p) n ?q k) ?f"
    using r(2-4) c p by (simp add: fills2_def thread_of_def filter_calls del_bucket_def due_districts_def comp_def del: filter_filter)
  then show thesis using that [of ?f] r(1) by (simp add: Let_def)
qed

lemma second_fill_all:
  fixes E :: "'g tpcc_env"
  assumes K: "0 < kParallelism (env_cfg E)"
  shows "bkts2_ok E f \<Longrightarrow> params_at b es n (f2_delivery_pos f) (f2_payment_pos f) \<Longrightarrow>
    \<forall>q d. f2_delivery_pos f \<le> q \<longrightarrow> q < f2_delivery_pos f + length (deliveries_of es) \<longrightarrow> d \<in> set all_districts \<longrightarrow>
      get2 no_o_ids q (int_index d) = Inr (case bv_due v q d of None \<Rightarrow> - 1 | Some o_id \<Rightarrow> o_id) \<and> bv_due v q d \<noteq> Some (- 1) \<Longrightarrow>
    \<exists>f'. fold_res (second_fill E no_o_ids) es f = Inr f' \<and>
      fills2 E b f (batch_calls v es n (f2_delivery_pos f) (f2_payment_pos f)) f' \<and>
      f_c_ids f' = f_c_ids f @ replicate (length (deliveries_of es)) (per_district_vector (- 1)) \<and>
      f_sums f' = f_sums f @ replicate (length (deliveries_of es)) (per_district_vector (d_of_int (env_dbl E) (- 1)))"
proof (induction es arbitrary: f n)
  case Nil
  then show ?case by (simp add: fills2_def bkts2_ok_def thread_of_def)
next
  case (Cons e es)
  let ?K = "kParallelism (env_cfg E)"
  show ?case
  proof (cases e)
    case (DELIVERY p)
    have p: "del_at b (f2_delivery_pos f) = p" using Cons.prems(2) DELIVERY by simp
    have due: "\<forall>d \<in> set all_districts. get2 no_o_ids (f2_delivery_pos f) (int_index d) =
        Inr (case bv_due v (f2_delivery_pos f) d of None \<Rightarrow> - 1 | Some o_id \<Rightarrow> o_id) \<and> bv_due v (f2_delivery_pos f) d \<noteq> Some (- 1)"
      using Cons.prems(3) DELIVERY by simp
    obtain f1 where f1: "second_fill E no_o_ids (DELIVERY p) f = Inr f1"
        "fills2 E b f (event_calls v (DELIVERY p) n (f2_delivery_pos f) (f2_payment_pos f)) f1"
        "f2_delivery_pos f1 = f2_delivery_pos f + 1" "f2_payment_pos f1 = f2_payment_pos f"
        "f_c_ids f1 = f_c_ids f @ [per_district_vector (- 1)]"
        "f_sums f1 = f_sums f @ [per_district_vector (d_of_int (env_dbl E) (- 1))]"
      by (rule second_fill_delivery [OF K Cons.prems(1) p due, where n = n and k = "f2_payment_pos f"])
    have ok: "bkts2_ok E f1" using f1(2) by (simp add: fills2_def bkts2_ok_def)
    have pa: "params_at b es n (f2_delivery_pos f1) (f2_payment_pos f1)" using Cons.prems(2) DELIVERY f1(3,4) by simp
    have "\<forall>q d. f2_delivery_pos f1 \<le> q \<longrightarrow> q < f2_delivery_pos f1 + length (deliveries_of es) \<longrightarrow> d \<in> set all_districts \<longrightarrow>
      get2 no_o_ids q (int_index d) = Inr (case bv_due v q d of None \<Rightarrow> - 1 | Some o_id \<Rightarrow> o_id) \<and> bv_due v q d \<noteq> Some (- 1)"
      using Cons.prems(3) DELIVERY f1(3) by simp
    from Cons.IH [OF ok pa this] obtain f' where f': "fold_res (second_fill E no_o_ids) es f1 = Inr f'"
        "fills2 E b f1 (batch_calls v es n (f2_delivery_pos f1) (f2_payment_pos f1)) f'"
        "f_c_ids f' = f_c_ids f1 @ replicate (length (deliveries_of es)) (per_district_vector (- 1))"
        "f_sums f' = f_sums f1 @ replicate (length (deliveries_of es)) (per_district_vector (d_of_int (env_dbl E) (- 1)))"
      by blast
    show ?thesis using f1(1) f'(1) fills2_trans [OF f1(2) f'(2)] f1(3-6) f'(3,4) DELIVERY by simp
  next
    case (PAYMENT p)
    have p: "pay_at b (f2_payment_pos f) = p" using Cons.prems(2) PAYMENT by simp
    let ?off = "district_offset E (pay_w_id p) (pay_d_id p)"
    have l: "length (dp_bkt f) = ?K" using Cons.prems(1) by (simp add: bkts2_ok_def)
    obtain dp where dp: "bucket_push (env_cfg E) ?off (f2_payment_pos f, - 1) (dp_bkt f) = Inr dp" "length dp = ?K"
        "\<forall>t < ?K. dp ! t = dp_bkt f ! t @ (if ?off mod ?K = t then [(f2_payment_pos f, - 1)] else [])"
      by (rule bucket_push_one [OF K l])
    let ?f = "f\<lparr>dp_bkt := dp, f2_payment_pos := f2_payment_pos f + 1\<rparr>"
    have f1: "fills2 E b f (event_calls v (PAYMENT p) n (f2_delivery_pos f) (f2_payment_pos f)) ?f"
      using Cons.prems(1) dp(2,3) p by (simp add: fills2_def bkts2_ok_def thread_of_def pay_bucket_def)
    have ok: "bkts2_ok E ?f" using f1 by (simp add: fills2_def bkts2_ok_def)
    have pa: "params_at b es n (f2_delivery_pos ?f) (f2_payment_pos ?f)" using Cons.prems(2) PAYMENT by simp
    have "\<forall>q d. f2_delivery_pos ?f \<le> q \<longrightarrow> q < f2_delivery_pos ?f + length (deliveries_of es) \<longrightarrow> d \<in> set all_districts \<longrightarrow>
      get2 no_o_ids q (int_index d) = Inr (case bv_due v q d of None \<Rightarrow> - 1 | Some o_id \<Rightarrow> o_id) \<and> bv_due v q d \<noteq> Some (- 1)"
      using Cons.prems(3) PAYMENT by simp
    from Cons.IH [OF ok pa this] obtain f' where f': "fold_res (second_fill E no_o_ids) es ?f = Inr f'"
        "fills2 E b ?f (batch_calls v es n (f2_delivery_pos ?f) (f2_payment_pos ?f)) f'"
        "f_c_ids f' = f_c_ids ?f @ replicate (length (deliveries_of es)) (per_district_vector (- 1))"
        "f_sums f' = f_sums ?f @ replicate (length (deliveries_of es)) (per_district_vector (d_of_int (env_dbl E) (- 1)))"
      by blast
    show ?thesis using dp(1) f'(1) fills2_trans [OF f1 f'(2)] f'(3,4) PAYMENT by simp
  next
    case (NEW_ORDER p)
    have "params_at b es (n + 1) (f2_delivery_pos f) (f2_payment_pos f)" using Cons.prems(2) NEW_ORDER by simp
    from Cons.IH [OF Cons.prems(1) this] obtain f' where f': "fold_res (second_fill E no_o_ids) es f = Inr f'"
        "fills2 E b f (batch_calls v es (n + 1) (f2_delivery_pos f) (f2_payment_pos f)) f'"
        "f_c_ids f' = f_c_ids f @ replicate (length (deliveries_of es)) (per_district_vector (- 1))"
        "f_sums f' = f_sums f @ replicate (length (deliveries_of es)) (per_district_vector (d_of_int (env_dbl E) (- 1)))"
      using Cons.prems(3) NEW_ORDER by auto
    have "fills2 E b f (event_calls v (NEW_ORDER p) n (f2_delivery_pos f) (f2_payment_pos f)) f"
      using Cons.prems(1) by (simp add: fills2_def bkts2_ok_def thread_of_def filter_calls)
    from fills2_trans [OF this f'(2)] show ?thesis using f'(1,3,4) NEW_ORDER by simp
  qed (use Cons in simp_all)
qed

lemma second_threads:
  assumes "fills2 E b (empty_fill2 (env_cfg E)) cs f"
  shows "del3_threads f = threads_of E b cs FDel3" "del2_threads f = threads_of E b cs FDel2"
    "conflict2_threads f = threads_of E b cs FConflict2"
  unfolding del3_threads_def del2_threads_def conflict2_threads_def threads_of_def
  using assms by (auto simp: fills2_def empty_fill2_def intro!: nth_equalityI)

end
