(* ===== verification/TpccBatchSchedules.thy ===== *)
theory TpccBatchSchedules
  imports TpccBatchThreads
begin

text \<open>
  The schedules of \<open>TpccBatchProcessor::processBatch\<close> (benchmark/tpcc/TpccBatchProcessor.cc): every schedule
  keeps the order of each thread and the order the joins force, so that the calls on each part of the
  database come in the order of the batch.
\<close>

section \<open>Schedules of groups of threads\<close>

lemma interleaving_append:
  "interleaving ths zs \<Longrightarrow> ths = as @ bs \<Longrightarrow>
   \<exists>z1 z2. interleaving as z1 \<and> interleaving bs z2 \<and> interleaving [z1, z2] zs"
proof (induction arbitrary: as bs rule: interleaving.induct)
  case (il_done ths)
  then have "interleaving as []" "interleaving bs []" "interleaving [[], []] []" by (auto intro!: interleaving.il_done)
  then show ?case by blast
next
  case (il_step i ths x xs zs)
  show ?case
  proof (cases "i < length as")
    case True
    have "ths[i := xs] = as[i := xs] @ bs" using il_step.prems True by (simp add: list_update_append)
    from il_step.IH [OF this] obtain z1 z2 where z: "interleaving (as[i := xs]) z1" "interleaving bs z2" "interleaving [z1, z2] zs"
      by blast
    have "interleaving as (x # z1)" using il_step.hyps(2) il_step.prems True z(1) by (intro interleaving.il_step [of i]) (auto simp: nth_append)
    moreover have "interleaving [x # z1, z2] (x # zs)" using z(3) by (intro interleaving.il_step [of 0]) auto
    ultimately show ?thesis using z(2) by blast
  next
    case False
    let ?j = "i - length as"
    have j: "?j < length bs" using il_step.hyps(1) il_step.prems False by simp
    have "ths[i := xs] = as @ bs[?j := xs]" using il_step.prems False by (simp add: list_update_append)
    from il_step.IH [OF this] obtain z1 z2 where z: "interleaving as z1" "interleaving (bs[?j := xs]) z2" "interleaving [z1, z2] zs"
      by blast
    have "interleaving bs (x # z2)"
      using il_step.hyps(2) il_step.prems False z(2) j by (intro interleaving.il_step [of ?j]) (auto simp: nth_append)
    moreover have "interleaving [z1, x # z2] (x # zs)" using z(3) by (intro interleaving.il_step [of 1]) auto
    ultimately show ?thesis using z(1) by blast
  qed
qed

lemma interleaving_appendE:
  assumes "interleaving (as @ bs) zs"
  obtains z1 z2 where "interleaving as z1" "interleaving bs z2" "interleaving [z1, z2] zs"
  using interleaving_append [OF assms refl] by blast

lemma filter_two:
  assumes "interleaving [z1, z2] zs"
  shows "filter P z2 = [] \<Longrightarrow> filter P zs = filter P z1" "filter P z1 = [] \<Longrightarrow> filter P zs = filter P z2"
proof -
  show "filter P zs = filter P z1" if "filter P z2 = []"
    using filter_interleaving [OF assms, of 0 P] that by (simp add: less_Suc_eq)
  show "filter P zs = filter P z2" if "filter P z1 = []"
    using filter_interleaving [OF assms, of 1 P] that by (simp add: less_Suc_eq)
qed

lemma interleaving_single: "interleaving [z] zs \<Longrightarrow> zs = z"
  using filter_interleaving [of "[z]" zs 0 "\<lambda>_. True"] by simp

section \<open>What is in a piece of a schedule\<close>

text \<open>\<open>holds_threads E b F zs\<close>: the calls of every thread in \<open>zs\<close> are those \<open>F\<close> gives, in that order.\<close>

definition holds_threads ::
  "'g tpcc_env \<Rightarrow> tpcc_batch \<Rightarrow> (call_family \<Rightarrow> nat \<Rightarrow> tpcc_call list) \<Rightarrow> tpcc_call list \<Rightarrow> bool" where
  "holds_threads E b F zs \<longleftrightarrow> (\<forall>\<phi> t. thread_of E b zs \<phi> t = F \<phi> t)"

lemma holds_two:
  assumes "interleaving [z1, z2] zs" "holds_threads E b F1 z1" "holds_threads E b F2 z2"
    and "\<And>\<phi> t. F1 \<phi> t = [] \<or> F2 \<phi> t = []"
  shows "holds_threads E b (\<lambda>\<phi> t. F1 \<phi> t @ F2 \<phi> t) zs"
  unfolding holds_threads_def
proof (intro allI)
  fix \<phi> t
  have h: "filter (in_thread E b \<phi> t) z1 = F1 \<phi> t" "filter (in_thread E b \<phi> t) z2 = F2 \<phi> t"
    using assms(2,3) by (simp_all add: holds_threads_def thread_of_def)
  show "thread_of E b zs \<phi> t = F1 \<phi> t @ F2 \<phi> t"
    using assms(4) [of \<phi> t] filter_two [OF assms(1), of "in_thread E b \<phi> t"] h by (auto simp: thread_of_def)
qed

lemma holds_append:
  "holds_threads E b F1 z1 \<Longrightarrow> holds_threads E b F2 z2 \<Longrightarrow> holds_threads E b (\<lambda>\<phi> t. F1 \<phi> t @ F2 \<phi> t) (z1 @ z2)"
  by (simp add: holds_threads_def)

lemma holds_family:
  assumes "holds_threads E b F zs" "x \<in> set zs"
  shows "F (family x) (call_bucket E b x) \<noteq> []"
proof -
  have "x \<in> set (thread_of E b zs (family x) (call_bucket E b x))"
    using assms(2) by (simp add: thread_of_def in_thread_def)
  then show ?thesis using assms(1) by (auto simp: holds_threads_def)
qed

lemma call_bucket_less: "0 < kParallelism (env_cfg E) \<Longrightarrow> call_bucket E b x < kParallelism (env_cfg E)"
  by (cases x) (simp_all add: no_bucket_def line_bucket_def del_bucket_def pay_bucket_def)

definition one_family :: "'g tpcc_env \<Rightarrow> tpcc_batch \<Rightarrow> tpcc_call list \<Rightarrow> call_family \<Rightarrow> call_family \<Rightarrow> nat \<Rightarrow> tpcc_call list" where
  "one_family E b cs \<phi>' \<phi> t = (if \<phi> = \<phi>' then thread_of E b cs \<phi> t else [])"

lemma holds_one_family:
  fixes E :: "'g tpcc_env"
  assumes K: "0 < kParallelism (env_cfg E)" and il: "interleaving (threads_of E b cs \<phi>') zs"
  shows "holds_threads E b (one_family E b cs \<phi>') zs"
  unfolding holds_threads_def
proof (intro allI)
  fix \<phi> t
  let ?K = "kParallelism (env_cfg E)" and ?P = "in_thread E b \<phi> t"
  have len: "length (threads_of E b cs \<phi>') = ?K" by (simp add: threads_of_def)
  have nth: "threads_of E b cs \<phi>' ! i = filter (in_thread E b \<phi>' i) cs" if "i < ?K" for i
    using that by (simp add: threads_of_def thread_of_def)
  have other: "filter ?P (filter (in_thread E b \<phi>' i) cs) = []" if "\<phi> \<noteq> \<phi>' \<or> i \<noteq> t" for i
    using that by (auto simp: in_thread_def filter_empty_conv)
  show "thread_of E b zs \<phi> t = one_family E b cs \<phi>' \<phi> t"
  proof (cases "\<phi> = \<phi>' \<and> t < ?K")
    case True
    have "filter ?P zs = filter ?P (threads_of E b cs \<phi>' ! t)"
    proof (rule filter_interleaving [OF il])
      fix i assume "i < length (threads_of E b cs \<phi>')" "i \<noteq> t"
      then show "filter ?P (threads_of E b cs \<phi>' ! i) = []" using nth other by (simp add: len del: filter_filter)
    qed (use True len in simp)
    also have "\<dots> = filter ?P cs" using True nth by simp
    finally show ?thesis using True by (simp add: thread_of_def one_family_def)
  next
    case False
    have "filter ?P zs = []"
    proof (rule filter_interleaving_none [OF il])
      fix th assume "th \<in> set (threads_of E b cs \<phi>')"
      then obtain i where i: "i < ?K" "th = filter (in_thread E b \<phi>' i) cs" by (auto simp: threads_of_def thread_of_def)
      then show "filter ?P th = []" using other [of i] False by (auto simp del: filter_filter)
    qed
    moreover have "filter ?P cs = []" if "\<not> t < ?K"
      using call_bucket_less [OF K] that by (auto simp: filter_empty_conv in_thread_def)
    ultimately show ?thesis using False by (auto simp: thread_of_def one_family_def)
  qed
qed

text \<open>The payment threads.\<close>

fun three_families :: "tpcc_call list \<Rightarrow> tpcc_call list \<Rightarrow> tpcc_call list \<Rightarrow> call_family \<Rightarrow> nat \<Rightarrow> tpcc_call list" where
  "three_families p1 p2 p3 FPay1 t = (if t = 0 then p1 else [])"
| "three_families p1 p2 p3 FPay2 t = (if t = 0 then p2 else [])"
| "three_families p1 p2 p3 FPay3 t = (if t = 0 then p3 else [])"
| "three_families p1 p2 p3 _ t = []"

lemma filter_all_or_none:
  "(\<forall>x \<in> set xs. P x) \<Longrightarrow> filter P xs = xs" "(\<forall>x \<in> set xs. \<not> P x) \<Longrightarrow> filter P xs = []"
  by (simp_all add: filter_id_conv filter_empty_conv)

lemma holds_payments:
  assumes il: "interleaving [p1, p2, p3] zs"
    and p: "set p1 \<subseteq> range Pay1" "set p2 \<subseteq> range Pay2" "set p3 \<subseteq> range Pay3"
  shows "holds_threads E b (three_families p1 p2 p3) zs"
  unfolding holds_threads_def
proof (intro allI)
  fix \<phi> t
  let ?P = "in_thread E b \<phi> t"
  have f: "filter ?P p1 = (if \<phi> = FPay1 \<and> t = 0 then p1 else [])" "filter ?P p2 = (if \<phi> = FPay2 \<and> t = 0 then p2 else [])"
    "filter ?P p3 = (if \<phi> = FPay3 \<and> t = 0 then p3 else [])"
    using p by (auto intro!: filter_all_or_none)
  note n = filter_interleaving [OF il, where P = ?P]
  have one: "filter ?P zs = filter ?P ([p1, p2, p3] ! j)"
    if "j < 3" "\<And>i. i < 3 \<Longrightarrow> i \<noteq> j \<Longrightarrow> filter ?P ([p1, p2, p3] ! i) = []" for j
    using n [of j] that by simp
  have cases3: "i = 0 \<or> i = 1 \<or> i = 2" if "i < 3" for i :: nat using that by linarith
  have none: "filter ?P zs = []" if "filter ?P p1 = []" "filter ?P p2 = []" "filter ?P p3 = []"
    by (rule filter_interleaving_none [OF il]) (use that in auto)
  show "thread_of E b zs \<phi> t = three_families p1 p2 p3 \<phi> t"
  proof (cases "t = 0 \<and> \<phi> \<in> {FPay1, FPay2, FPay3}")
    case True
    then consider "\<phi> = FPay1" | "\<phi> = FPay2" | "\<phi> = FPay3" by blast
    then show ?thesis
    proof cases
      case 1
      have "filter ?P zs = filter ?P ([p1, p2, p3] ! 0)" by (rule one) (use 1 f cases3 in fastforce)+
      then show ?thesis using 1 True f by (simp add: thread_of_def)
    next
      case 2
      have "filter ?P zs = filter ?P ([p1, p2, p3] ! 1)" by (rule one) (use 2 f cases3 in fastforce)+
      then show ?thesis using 2 True f by (simp add: thread_of_def)
    next
      case 3
      have "filter ?P zs = filter ?P ([p1, p2, p3] ! 2)" by (rule one) (use 3 f cases3 in fastforce)+
      then show ?thesis using 3 True f by (simp add: thread_of_def)
    qed
  next
    case False
    then have "filter ?P zs = []" using none f by auto
    moreover have "three_families p1 p2 p3 \<phi> t = []" using False by (cases \<phi>) auto
    ultimately show ?thesis by (simp add: thread_of_def)
  qed
qed

lemma pay_splitE:
  assumes "pay_split b pa pb pc"
  obtains a1 a2 a3 b1 b2 b3 c1 c2 c3 where "pa = [a1, a2, a3]" "pb = [b1, b2, b3]" "pc = [c1, c2, c3]"
    "a1 @ b1 @ c1 = map Pay1 [0..<length (payment_params b)]"
    "a2 @ b2 @ c2 = map Pay2 [0..<length (payment_params b)]"
    "a3 @ b3 @ c3 = map Pay3 [0..<length (payment_params b)]"
proof -
  have three: "\<exists>x y z. xs = [x, y, z]" if "length xs = 3" for xs :: "tpcc_call list list"
    using that by (auto simp: numeral_3_eq_3 length_Suc_conv)
  have l: "length pa = 3" "length pb = 3" "length pc = 3" and eq: "pay_threads b = map2 (@) pa (map2 (@) pb pc)"
    using assms by (simp_all add: pay_split_def)
  obtain a1 a2 a3 where a: "pa = [a1, a2, a3]" using three [OF l(1)] by blast
  obtain b1 b2 b3 where b: "pb = [b1, b2, b3]" using three [OF l(2)] by blast
  obtain c1 c2 c3 where c: "pc = [c1, c2, c3]" using three [OF l(3)] by blast
  show thesis using that [OF a b c] eq by (simp add: a b c pay_threads_def Let_def)
qed

section \<open>The order the joins force\<close>

definition ordered :: "call_family \<Rightarrow> call_family \<Rightarrow> tpcc_call list \<Rightarrow> bool" where
  "ordered \<phi>1 \<phi>2 zs \<longleftrightarrow>
     filter (\<lambda>x. family x = \<phi>1 \<or> family x = \<phi>2) zs = filter (\<lambda>x. family x = \<phi>1) zs @ filter (\<lambda>x. family x = \<phi>2) zs"

lemma ordered_two:
  assumes il: "interleaving [z1, z2] zs"
  shows "ordered \<phi>1 \<phi>2 z1 \<Longrightarrow> \<forall>x \<in> set z2. family x \<noteq> \<phi>1 \<and> family x \<noteq> \<phi>2 \<Longrightarrow> ordered \<phi>1 \<phi>2 zs"
    and "ordered \<phi>1 \<phi>2 z2 \<Longrightarrow> \<forall>x \<in> set z1. family x \<noteq> \<phi>1 \<and> family x \<noteq> \<phi>2 \<Longrightarrow> ordered \<phi>1 \<phi>2 zs"
proof -
  note two = filter_two [OF il]
  show "ordered \<phi>1 \<phi>2 zs" if z: "ordered \<phi>1 \<phi>2 z1" "\<forall>x \<in> set z2. family x \<noteq> \<phi>1 \<and> family x \<noteq> \<phi>2"
  proof -
    have "filter (\<lambda>x. family x = \<phi>1 \<or> family x = \<phi>2) zs = filter (\<lambda>x. family x = \<phi>1 \<or> family x = \<phi>2) z1"
      "filter (\<lambda>x. family x = \<phi>1) zs = filter (\<lambda>x. family x = \<phi>1) z1"
      "filter (\<lambda>x. family x = \<phi>2) zs = filter (\<lambda>x. family x = \<phi>2) z1"
      by (rule two(1), use z(2) in \<open>simp add: filter_empty_conv\<close>)+
    then show ?thesis using z(1) unfolding ordered_def by metis
  qed
  show "ordered \<phi>1 \<phi>2 zs" if z: "ordered \<phi>1 \<phi>2 z2" "\<forall>x \<in> set z1. family x \<noteq> \<phi>1 \<and> family x \<noteq> \<phi>2"
  proof -
    have "filter (\<lambda>x. family x = \<phi>1 \<or> family x = \<phi>2) zs = filter (\<lambda>x. family x = \<phi>1 \<or> family x = \<phi>2) z2"
      "filter (\<lambda>x. family x = \<phi>1) zs = filter (\<lambda>x. family x = \<phi>1) z2"
      "filter (\<lambda>x. family x = \<phi>2) zs = filter (\<lambda>x. family x = \<phi>2) z2"
      by (rule two(2), use z(2) in \<open>simp add: filter_empty_conv\<close>)+
    then show ?thesis using z(1) unfolding ordered_def by metis
  qed
qed

lemma ordered_append:
  assumes "\<forall>x \<in> set c. family x \<noteq> \<phi>2" "\<forall>x \<in> set c'. family x \<noteq> \<phi>1"
  shows "ordered \<phi>1 \<phi>2 (c @ c')"
proof -
  have "filter (\<lambda>x. family x = \<phi>1 \<or> family x = \<phi>2) c = filter (\<lambda>x. family x = \<phi>1) c" "filter (\<lambda>x. family x = \<phi>2) c = []"
    "filter (\<lambda>x. family x = \<phi>1 \<or> family x = \<phi>2) c' = filter (\<lambda>x. family x = \<phi>2) c'" "filter (\<lambda>x. family x = \<phi>1) c' = []"
    using assms by (auto intro!: filter_cong simp: filter_empty_conv)
  then show ?thesis by (simp add: ordered_def)
qed

lemma ordered_more:
  assumes "ordered \<phi>1 \<phi>2 zs" "\<forall>x \<in> set ys. family x \<noteq> \<phi>1 \<and> family x \<noteq> \<phi>2"
  shows "ordered \<phi>1 \<phi>2 (ys @ zs)" "ordered \<phi>1 \<phi>2 (zs @ ys)"
proof -
  have "filter (\<lambda>x. family x = \<phi>1 \<or> family x = \<phi>2) ys = []" "filter (\<lambda>x. family x = \<phi>1) ys = []" "filter (\<lambda>x. family x = \<phi>2) ys = []"
    using assms(2) by (simp_all add: filter_empty_conv)
  then show "ordered \<phi>1 \<phi>2 (ys @ zs)" "ordered \<phi>1 \<phi>2 (zs @ ys)" using assms(1) by (simp_all add: ordered_def)
qed

lemma ordered_after:
  assumes o: "ordered \<phi>1 \<phi>2 (us @ y # vs)" and f: "family y = \<phi>2" "\<phi>1 \<noteq> \<phi>2" and x: "x \<in> set vs"
  shows "family x \<noteq> \<phi>1"
proof
  assume "family x = \<phi>1"
  note f = this f
  from x obtain v1 v2 where v: "vs = v1 @ x # v2" by (meson split_list)
  let ?P = "\<lambda>x. family x = \<phi>1 \<or> family x = \<phi>2"
  have eq: "filter ?P us @ y # filter ?P v1 @ x # filter ?P v2 =
      filter (\<lambda>x. family x = \<phi>1) (us @ y # vs) @ filter (\<lambda>x. family x = \<phi>2) (us @ y # vs)"
    using o f v by (simp add: ordered_def)
  have no: False if e: "A @ y # B @ x # C = D @ D'" and d: "\<forall>z \<in> set D. family z = \<phi>1" "\<forall>z \<in> set D'. family z = \<phi>2"
    for A B C D D'
  proof -
    from e consider us where "A = D @ us" "us @ y # B @ x # C = D'" | us where "A @ us = D" "y # B @ x # C = us @ D'"
      by (auto simp: append_eq_append_conv2)
    then show False
    proof cases
      case 1
      then have "x \<in> set D'" by auto
      then show False using d(2) f by auto
    next
      case (2 us)
      have "us = []"
      proof (cases us)
        case (Cons z zs)
        then have "y \<in> set D" using 2 by auto
        then show ?thesis using d(1) f by auto
      qed simp
      then have "x \<in> set D'" using 2(2) by (metis append_Nil in_set_conv_decomp list.set_intros(2))
      then show False using d(2) f by auto
    qed
  qed
  show False by (rule no [OF eq]) (simp_all only: set_filter mem_Collect_eq, simp_all)
qed

lemma orderedD:
  "ordered \<phi>1 \<phi>2 (us @ y # vs) \<Longrightarrow> family x = \<phi>1 \<Longrightarrow> family y = \<phi>2 \<Longrightarrow> \<phi>1 \<noteq> \<phi>2 \<Longrightarrow> x \<in> set (us @ y # vs) \<Longrightarrow> x \<in> set us"
  using ordered_after [of \<phi>1 \<phi>2 us y vs x] by auto

section \<open>The two halves\<close>

lemma three_families_append:
  "three_families a1 a2 a3 \<phi> t @ three_families b1 b2 b3 \<phi> t = three_families (a1 @ b1) (a2 @ b2) (a3 @ b3) \<phi> t"
  by (cases \<phi>) simp_all

lemma three_families_none: "\<phi> \<notin> {FPay1, FPay2, FPay3} \<Longrightarrow> three_families a1 a2 a3 \<phi> t = []"
  by (cases \<phi>) simp_all

lemma schedule_a_facts:
  fixes E :: "'g tpcc_env"
  assumes K: "0 < kParallelism (env_cfg E)" and f: "fills E b (empty_fill (env_cfg E)) cs f"
    and p: "set a1 \<subseteq> range Pay1" "set a2 \<subseteq> range Pay2" "set a3 \<subseteq> range Pay3"
    and s: "schedule_a f [a1, a2, a3] xs"
  shows "thread_of E b xs \<phi> t = (if \<phi> \<in> {FNo4, FNo5, FNo12, FConflict} then thread_of E b cs \<phi> t else three_families a1 a2 a3 \<phi> t)"
    "ordered FNo12 FConflict xs"
proof -
  note th = first_threads [OF f]
  obtain c1 c2 where c: "interleaving (threads_of E b cs FNo12) c1" "interleaving (threads_of E b cs FConflict) c2"
      "interleaving (threads_of E b cs FNo4 @ threads_of E b cs FNo5 @ [c1 @ c2] @ [a1, a2, a3]) xs"
    using s th by (auto simp: schedule_a_def)
  obtain z4 zr where z4: "interleaving (threads_of E b cs FNo4) z4"
      "interleaving (threads_of E b cs FNo5 @ [c1 @ c2] @ [a1, a2, a3]) zr" "interleaving [z4, zr] xs"
    by (rule interleaving_appendE [OF c(3)])
  obtain z5 zs where z5: "interleaving (threads_of E b cs FNo5) z5" "interleaving ([c1 @ c2] @ [a1, a2, a3]) zs" "interleaving [z5, zs] zr"
    by (rule interleaving_appendE [OF z4(2)])
  obtain zc zp where zc: "interleaving [c1 @ c2] zc" "interleaving [a1, a2, a3] zp" "interleaving [zc, zp] zs"
    by (rule interleaving_appendE [OF z5(2)])
  have zc': "zc = c1 @ c2" by (rule interleaving_single [OF zc(1)])
  note h = holds_one_family [OF K]
  note hp = holds_payments [OF zc(2) p, of E b]
  note h1 = h [OF c(1)] and h2 = h [OF c(2)] and h4 = h [OF z4(1)] and h5 = h [OF z5(1)]
  have hc: "holds_threads E b (\<lambda>\<phi> t. one_family E b cs FNo12 \<phi> t @ one_family E b cs FConflict \<phi> t) zc"
    unfolding zc' by (rule holds_append [OF h1 h2])
  have n1: "(one_family E b cs FNo12 \<phi> t @ one_family E b cs FConflict \<phi> t) = [] \<or> three_families a1 a2 a3 \<phi> t = []" for \<phi> t
    by (cases \<phi>) (simp_all add: one_family_def)
  note hs = holds_two [OF zc(3) hc hp n1]
  have n2: "one_family E b cs FNo5 \<phi> t = [] \<or>
      (one_family E b cs FNo12 \<phi> t @ one_family E b cs FConflict \<phi> t) @ three_families a1 a2 a3 \<phi> t = []" for \<phi> t
    by (cases \<phi>) (simp_all add: one_family_def)
  note hr = holds_two [OF z5(3) h5 hs n2]
  have n3: "one_family E b cs FNo4 \<phi> t = [] \<or> one_family E b cs FNo5 \<phi> t @
      (one_family E b cs FNo12 \<phi> t @ one_family E b cs FConflict \<phi> t) @ three_families a1 a2 a3 \<phi> t = []" for \<phi> t
    by (cases \<phi>) (simp_all add: one_family_def)
  note hx = holds_two [OF z4(3) h4 hr n3]
  show "thread_of E b xs \<phi> t = (if \<phi> \<in> {FNo4, FNo5, FNo12, FConflict} then thread_of E b cs \<phi> t else three_families a1 a2 a3 \<phi> t)"
    using hx unfolding holds_threads_def by (cases \<phi>) (simp_all add: one_family_def)
  have fam: "family x = \<phi>" if "holds_threads E b (one_family E b cs \<phi>) z" "x \<in> set z" for \<phi> z x
    using holds_family [OF that] by (simp add: one_family_def split: if_splits)
  have fp: "family x \<in> {FPay1, FPay2, FPay3}" if "x \<in> set zp" for x
    using holds_family [OF hp that] three_families_none by blast
  have "ordered FNo12 FConflict zc" unfolding zc' by (rule ordered_append) (use fam [OF h1] fam [OF h2] in auto)
  then have "ordered FNo12 FConflict zs" using fp by (intro ordered_two(1) [OF zc(3)]) fastforce+
  then have "ordered FNo12 FConflict zr" by (rule ordered_two(2) [OF z5(3)]) (use fam [OF h5] in auto)
  then show "ordered FNo12 FConflict xs" by (rule ordered_two(2) [OF z4(3)]) (use fam [OF h4] in auto)
qed

lemma schedule_b_facts:
  fixes E :: "'g tpcc_env"
  assumes K: "0 < kParallelism (env_cfg E)" and f: "fills E b (empty_fill (env_cfg E)) cs f"
    and f2: "fills2 E b (empty_fill2 (env_cfg E)) cs f2"
    and p: "set a1 \<subseteq> range Pay1" "set a2 \<subseteq> range Pay2" "set a3 \<subseteq> range Pay3"
      "set b1 \<subseteq> range Pay1" "set b2 \<subseteq> range Pay2" "set b3 \<subseteq> range Pay3"
    and s: "schedule_b f f2 [a1, a2, a3] [b1, b2, b3] ys"
  shows "thread_of E b ys \<phi> t = (if \<phi> \<in> {FDel3, FNo6, FDel2, FConflict2} then thread_of E b cs \<phi> t
      else three_families (a1 @ b1) (a2 @ b2) (a3 @ b3) \<phi> t)"
    "ordered FNo6 FDel2 ys" "ordered FDel2 FConflict2 ys" "ordered FDel3 FConflict2 ys"
proof -
  note th = first_threads [OF f] and th2 = second_threads [OF f2]
  obtain c3 c4 xs1 xs2 where c: "interleaving (threads_of E b cs FNo6) c3" "interleaving (threads_of E b cs FDel2) c4"
      "interleaving (threads_of E b cs FDel3 @ [c3 @ c4] @ [a1, a2, a3]) xs1"
      "interleaving (threads_of E b cs FConflict2 @ [b1, b2, b3]) xs2" "ys = xs1 @ xs2"
    using s th th2 by (auto simp: schedule_b_def)
  obtain z3 zr where z3: "interleaving (threads_of E b cs FDel3) z3" "interleaving ([c3 @ c4] @ [a1, a2, a3]) zr" "interleaving [z3, zr] xs1"
    by (rule interleaving_appendE [OF c(3)])
  obtain zc zp where zc: "interleaving [c3 @ c4] zc" "interleaving [a1, a2, a3] zp" "interleaving [zc, zp] zr"
    by (rule interleaving_appendE [OF z3(2)])
  have zc': "zc = c3 @ c4" by (rule interleaving_single [OF zc(1)])
  obtain zd zq where zd: "interleaving (threads_of E b cs FConflict2) zd" "interleaving [b1, b2, b3] zq" "interleaving [zd, zq] xs2"
    by (rule interleaving_appendE [OF c(4)])
  note h = holds_one_family [OF K]
  note hp = holds_payments [OF zc(2) p(1-3), of E b] and hq = holds_payments [OF zd(2) p(4-6), of E b]
  note h6 = h [OF c(1)] and h2 = h [OF c(2)] and h3 = h [OF z3(1)] and hd = h [OF zd(1)]
  have hc: "holds_threads E b (\<lambda>\<phi> t. one_family E b cs FNo6 \<phi> t @ one_family E b cs FDel2 \<phi> t) zc"
    unfolding zc' by (rule holds_append [OF h6 h2])
  have n1: "(one_family E b cs FNo6 \<phi> t @ one_family E b cs FDel2 \<phi> t) = [] \<or> three_families a1 a2 a3 \<phi> t = []" for \<phi> t
    by (cases \<phi>) (simp_all add: one_family_def)
  note hr = holds_two [OF zc(3) hc hp n1]
  have n2: "one_family E b cs FDel3 \<phi> t = [] \<or>
      (one_family E b cs FNo6 \<phi> t @ one_family E b cs FDel2 \<phi> t) @ three_families a1 a2 a3 \<phi> t = []" for \<phi> t
    by (cases \<phi>) (simp_all add: one_family_def)
  note hx1 = holds_two [OF z3(3) h3 hr n2]
  have n3: "one_family E b cs FConflict2 \<phi> t = [] \<or> three_families b1 b2 b3 \<phi> t = []" for \<phi> t
    by (cases \<phi>) (simp_all add: one_family_def)
  note hx2 = holds_two [OF zd(3) hd hq n3]
  show "thread_of E b ys \<phi> t = (if \<phi> \<in> {FDel3, FNo6, FDel2, FConflict2} then thread_of E b cs \<phi> t
      else three_families (a1 @ b1) (a2 @ b2) (a3 @ b3) \<phi> t)"
    using holds_append [OF hx1 hx2] unfolding holds_threads_def c(5) three_families_append [symmetric]
    by (cases \<phi>) (simp_all add: one_family_def)
  have fam: "family x = \<phi>" if "holds_threads E b (one_family E b cs \<phi>) z" "x \<in> set z" for \<phi> z x
    using holds_family [OF that] by (simp add: one_family_def split: if_splits)
  have fp: "family x \<in> {FPay1, FPay2, FPay3}" if "x \<in> set zp" for x
    using holds_family [OF hp that] three_families_none by blast
  have f1: "family x \<in> {FDel3, FNo6, FDel2, FPay1, FPay2, FPay3}" if "x \<in> set xs1" for x
    using holds_family [OF hx1 that] by (cases "family x") (simp_all add: one_family_def)
  have f2': "family x \<in> {FConflict2, FPay1, FPay2, FPay3}" if "x \<in> set xs2" for x
    using holds_family [OF hx2 that] by (cases "family x") (simp_all add: one_family_def)
  have "ordered FNo6 FDel2 zc" unfolding zc' by (rule ordered_append) (use fam [OF h6] fam [OF h2] in auto)
  then have "ordered FNo6 FDel2 zr" using fp by (intro ordered_two(1) [OF zc(3)]) fastforce+
  then have "ordered FNo6 FDel2 xs1" by (rule ordered_two(2) [OF z3(3)]) (use fam [OF h3] in auto)
  then show "ordered FNo6 FDel2 ys" unfolding c(5) using f2' by (intro ordered_more(2)) fastforce+
  show "ordered FDel2 FConflict2 ys" "ordered FDel3 FConflict2 ys"
    unfolding c(5) by (rule ordered_append; use f1 f2' in fastforce)+
qed

section \<open>The whole schedule\<close>

lemma payment_threads_of_batch:
  "filter (\<lambda>x. family x = FPay1) (batch_calls v es n q k) = map Pay1 [k..<k + length (payments_of es)]"
  "filter (\<lambda>x. family x = FPay2) (batch_calls v es n q k) = map Pay2 [k..<k + length (payments_of es)]"
  "filter (\<lambda>x. family x = FPay3) (batch_calls v es n q k) = map Pay3 [k..<k + length (payments_of es)]"
proof -
  have "filter (\<lambda>x. family x = FPay1) (batch_calls v es n q k) = map Pay1 [k..<k + length (payments_of es)] \<and>
      filter (\<lambda>x. family x = FPay2) (batch_calls v es n q k) = map Pay2 [k..<k + length (payments_of es)] \<and>
      filter (\<lambda>x. family x = FPay3) (batch_calls v es n q k) = map Pay3 [k..<k + length (payments_of es)]"
  proof (induction es arbitrary: n q k)
    case (Cons e es)
    have none: "filter (\<lambda>x. family x = \<phi>) (event_calls v e n q k) = []"
      if "\<phi> \<in> {FPay1, FPay2, FPay3}" "\<forall>p. e \<noteq> PAYMENT p" for \<phi>
      using that by (cases e) (auto simp: filter_empty_conv)
    have up: "[k..<Suc (k + m)] = k # [Suc k..<Suc (k + m)]" for m by (simp add: upt_conv_Cons del: upt_Suc)
    show ?case using Cons.IH none by (cases e) (simp_all del: event_calls.simps upt_Suc add: event_calls.simps(3) up)
  qed simp
  then show "filter (\<lambda>x. family x = FPay1) (batch_calls v es n q k) = map Pay1 [k..<k + length (payments_of es)]"
    "filter (\<lambda>x. family x = FPay2) (batch_calls v es n q k) = map Pay2 [k..<k + length (payments_of es)]"
    "filter (\<lambda>x. family x = FPay3) (batch_calls v es n q k) = map Pay3 [k..<k + length (payments_of es)]"
    by simp_all
qed

lemma payment_thread_of:
  "\<phi> \<in> {FPay1, FPay2, FPay3} \<Longrightarrow> thread_of E b cs \<phi> t = (if t = 0 then filter (\<lambda>x. family x = \<phi>) cs else [])"
proof -
  assume "\<phi> \<in> {FPay1, FPay2, FPay3}"
  then have "family x = \<phi> \<Longrightarrow> call_bucket E b x = 0" for x by (cases x) auto
  then show "thread_of E b cs \<phi> t = (if t = 0 then filter (\<lambda>x. family x = \<phi>) cs else [])"
    by (auto simp: thread_of_def in_thread_def filter_empty_conv intro!: filter_cong)
qed

definition first_families :: "call_family set" where
  "first_families = {FNo4, FNo5, FNo12, FConflict, FPay1, FPay2, FPay3}"

definition second_families :: "call_family set" where
  "second_families = {FDel3, FNo6, FDel2, FConflict2, FPay1, FPay2, FPay3}"

definition batch_schedule ::
  "'g tpcc_env \<Rightarrow> tpcc_batch \<Rightarrow> tpcc_call list \<Rightarrow> tpcc_call list \<Rightarrow> tpcc_call list \<Rightarrow> bool" where
  "batch_schedule E b cs xs ys \<longleftrightarrow>
     (\<forall>\<phi> t. thread_of E b (xs @ ys) \<phi> t = thread_of E b cs \<phi> t) \<and>
     family ` set xs \<subseteq> first_families \<and> family ` set ys \<subseteq> second_families \<and>
     ordered FNo12 FConflict xs \<and> ordered FNo6 FDel2 ys \<and> ordered FDel2 FConflict2 ys \<and> ordered FDel3 FConflict2 ys"

lemma schedules_facts:
  fixes E :: "'g tpcc_env" and v :: batch_values
  assumes K: "0 < kParallelism (env_cfg E)"
    and b: "b = tpcc_batch_of es'" "payments_of es' = payments_of es"
    and f: "fills E b (empty_fill (env_cfg E)) (batch_calls v es 0 0 0) f"
    and f2: "fills2 E b (empty_fill2 (env_cfg E)) (batch_calls v es 0 0 0) f2"
    and split: "pay_split b pa pb pc" and a: "schedule_a f pa xs" and s: "schedule_b f f2 pb pc ys"
  shows "batch_schedule E b (batch_calls v es 0 0 0) xs ys"
proof -
  let ?cs = "batch_calls v es 0 0 0" and ?m = "length (payments_of es)"
  obtain a1 a2 a3 b1 b2 b3 c1 c2 c3 where p: "pa = [a1, a2, a3]" "pb = [b1, b2, b3]" "pc = [c1, c2, c3]"
    "a1 @ b1 @ c1 = map Pay1 [0..<?m]" "a2 @ b2 @ c2 = map Pay2 [0..<?m]" "a3 @ b3 @ c3 = map Pay3 [0..<?m]"
    by (rule pay_splitE [OF split]) (simp add: b tpcc_batch_of_simps)
  have "set (a1 @ b1 @ c1) \<subseteq> range Pay1" "set (a2 @ b2 @ c2) \<subseteq> range Pay2" "set (a3 @ b3 @ c3) \<subseteq> range Pay3"
    unfolding p(4-6) by auto
  then have r: "set a1 \<subseteq> range Pay1" "set a2 \<subseteq> range Pay2" "set a3 \<subseteq> range Pay3"
      "set b1 \<subseteq> range Pay1" "set b2 \<subseteq> range Pay2" "set b3 \<subseteq> range Pay3"
      "set c1 \<subseteq> range Pay1" "set c2 \<subseteq> range Pay2" "set c3 \<subseteq> range Pay3"
    by simp_all
  note fa = schedule_a_facts [OF K f r(1-3) a [unfolded p(1)]]
  note fb = schedule_b_facts [OF K f f2 r(4-9) s [unfolded p(2,3)]]
  have pays: "thread_of E b ?cs \<phi> t = three_families (a1 @ b1 @ c1) (a2 @ b2 @ c2) (a3 @ b3 @ c3) \<phi> t"
    if "\<phi> \<in> {FPay1, FPay2, FPay3}" for \<phi> t
    using that payment_threads_of_batch [of v es 0 0 0] unfolding p(4-6) by (auto simp: payment_thread_of)
  have "thread_of E b (xs @ ys) \<phi> t = thread_of E b ?cs \<phi> t" for \<phi> t
  proof (cases "\<phi> \<in> {FPay1, FPay2, FPay3}")
    case True
    have "thread_of E b (xs @ ys) \<phi> t = three_families a1 a2 a3 \<phi> t @ three_families (b1 @ c1) (b2 @ c2) (b3 @ c3) \<phi> t"
      using fa(1) [of \<phi> t] fb(1) [of \<phi> t] True by auto
    then show ?thesis using pays [OF True] by (simp add: three_families_append)
  next
    case False
    then show ?thesis using fa(1) [of \<phi> t] fb(1) [of \<phi> t] by (cases \<phi>) simp_all
  qed
  moreover have "family ` set xs \<subseteq> first_families"
  proof
    fix \<phi> assume "\<phi> \<in> family ` set xs"
    then obtain x where "x \<in> set xs" "family x = \<phi>" by blast
    then have "x \<in> set (thread_of E b xs \<phi> (call_bucket E b x))" by (simp add: thread_of_def in_thread_def)
    then show "\<phi> \<in> first_families" using fa(1) [of \<phi> "call_bucket E b x"] by (cases \<phi>) (auto simp: first_families_def)
  qed
  moreover have "family ` set ys \<subseteq> second_families"
  proof
    fix \<phi> assume "\<phi> \<in> family ` set ys"
    then obtain x where "x \<in> set ys" "family x = \<phi>" by blast
    then have "x \<in> set (thread_of E b ys \<phi> (call_bucket E b x))" by (simp add: thread_of_def in_thread_def)
    then show "\<phi> \<in> second_families" using fb(1) [of \<phi> "call_bucket E b x"] by (cases \<phi>) (auto simp: second_families_def)
  qed
  ultimately show ?thesis using fa(2) fb(2-4) by (simp add: batch_schedule_def)
qed

end
