(* ===== verification/TpccBatchOrder.thy ===== *)
theory TpccBatchOrder
  imports TpccBatchSchedules
begin

text \<open>
  Every schedule of a batch (benchmark/tpcc/TpccBatchProcessor.cc) does to the maps what the calls do in the
  order of the serial processor: on every part of the database the calls come in the same order.
\<close>

section \<open>Calls on one part\<close>

lemma same_bucket:
  assumes "call_part E b v x = call_part E b v y" "family x = family y"
  shows "call_bucket E b x = call_bucket E b y"
  using assms by (cases x; cases y)
    (auto simp: no_bucket_def line_bucket_def del_bucket_def pay_bucket_def)

lemma same_families:
  assumes "parts_ok E" "call_part E b v x = call_part E b v y" "family x \<noteq> family y"
  shows "(\<exists>i k. call_part E b v x = Cell i k \<and> {family x, family y} = {FNo12, FDel3}) \<or>
    (\<exists>k. call_part E b v x = Lines k \<and> {family x, family y} = {FNo6, FDel2})"
proof -
  have "district_part E w d < TPCC_MAX_PARTITION_CNT" for w d by (rule parts_okD [OF assms(1)])
  then have "ORDER_TABLE_ID + district_part E w d \<notin> {STOCK_TABLE_ID, WAREHOUSE_TABLE_ID, CUSTOMER_TABLE_ID}" for w d
    by (simp add: tpcc_table_ids)
  then show ?thesis using assms(2,3) by (cases x; cases y) (auto simp: tpcc_table_ids)
qed

definition on_part :: "'g tpcc_env \<Rightarrow> tpcc_batch \<Rightarrow> batch_values \<Rightarrow> db_part \<Rightarrow> call_family \<Rightarrow> tpcc_call \<Rightarrow> bool" where
  "on_part E b v r \<phi> x \<longleftrightarrow> call_part E b v x = r \<and> family x = \<phi>"

lemma filter_on_part:
  assumes "\<And>t. thread_of E b zs \<phi> t = thread_of E b cs \<phi> t"
  shows "filter (on_part E b v r \<phi>) zs = filter (on_part E b v r \<phi>) cs"
proof -
  have f: "filter (on_part E b v r \<phi>) us = filter (\<lambda>x. call_part E b v x = r) (thread_of E b us \<phi> t)"
    if x: "on_part E b v r \<phi> x" "call_bucket E b x = t" for us x t
    unfolding thread_of_def filter_filter
  proof (rule filter_cong [OF refl])
    fix y
    show "on_part E b v r \<phi> y \<longleftrightarrow> in_thread E b \<phi> t y \<and> call_part E b v y = r"
      using x same_bucket [of E b v y x] by (auto simp: on_part_def in_thread_def)
  qed
  show ?thesis
  proof (cases "\<exists>x. on_part E b v r \<phi> x")
    case True
    then obtain x where "on_part E b v r \<phi> x" by blast
    from f [OF this refl] show ?thesis using assms by simp
  qed simp
qed

lemma filter_ordered:
  assumes o: "ordered \<phi>1 \<phi>2 zs" and f: "\<And>x. x \<in> set zs \<Longrightarrow> call_part E b v x = r \<Longrightarrow> family x = \<phi>1 \<or> family x = \<phi>2"
  shows "filter (\<lambda>x. call_part E b v x = r) zs = filter (on_part E b v r \<phi>1) zs @ filter (on_part E b v r \<phi>2) zs"
proof -
  let ?P = "\<lambda>x. call_part E b v x = r"
  have "filter ?P zs = filter ?P (filter (\<lambda>x. family x = \<phi>1 \<or> family x = \<phi>2) zs)"
    using f by (auto intro!: filter_cong)
  also have "\<dots> = filter ?P (filter (\<lambda>x. family x = \<phi>1) zs) @ filter ?P (filter (\<lambda>x. family x = \<phi>2) zs)"
    using o unfolding ordered_def by (simp del: filter_filter)
  finally show ?thesis by (simp add: on_part_def [abs_def] conj_commute)
qed

text \<open>A row or the lines of an order are there before a delivery can use them.\<close>

abbreviation batch_run :: "'g tpcc_env \<Rightarrow> tpcc_batch \<Rightarrow> batch_values \<Rightarrow> tpcc_call list \<Rightarrow> database \<Rightarrow> database option" where
  "batch_run E b v \<equiv> run_seq (call_pre E b v) (call_eff E b v)"

definition created :: "'g tpcc_env \<Rightarrow> db_part \<Rightarrow> database \<Rightarrow> bool" where
  "created E r db \<longleftrightarrow>
     (case r of Cell i k \<Rightarrow> db_tab db i k \<noteq> None
      | Lines p \<Rightarrow> \<exists>o_id d w. p = wkey [o_id, d, w] \<and> order_lines E w d o_id db \<noteq> {}
      | _ \<Rightarrow> False)"

lemma created_simps [simp]:
  "created E (Cell i k) db \<longleftrightarrow> db_tab db i k \<noteq> None"
  "created E (Lines (wkey [o_id, d, w])) db \<longleftrightarrow> order_lines E w d o_id db \<noteq> {}"
  by (auto simp: created_def)

lemma created_after:
  fixes E :: "'g tpcc_env"
  assumes ok: "batch_db_ok E db" and pre: "call_pre E b v x db" and x: "family x \<in> {FNo6, FDel2, FDel3} \<or> (\<exists>n. x = No2 n)"
  shows "created E (call_part E b v x) (call_eff E b v x db)"
proof -
  note ok' = call_eff_ok [OF ok pre]
  consider n where "x = No6 n" | q d where "x = Del2 q d" | q d where "x = Del3 q d" | n where "x = No2 n"
    using x by (cases x; force)
  then show ?thesis
  proof cases
    case (1 n)
    let ?p = "no_at b n"
    obtain m where m: "order_length ?p = Suc m" using pre 1 by (cases "order_length ?p") auto
    have "db_tab (call_eff E b v x db) (line_table E ?p) (line_key ?p (bv_o_id v n) m) \<noteq> None"
      using 1 m by (simp add: a_line_def)
    then have "order_lines E (nop_w_id ?p) (nop_d_id ?p) (bv_o_id v n) (call_eff E b v x db) \<noteq> {}"
      using line_key_order [of ?p "bv_o_id v n" m] unfolding order_lines_keyed [OF ok'] by (auto simp: line_table_def)
    then show ?thesis using 1 by simp
  next
    case (2 q d)
    let ?w = "del_w_id (del_at b q)"
    have "order_lines E ?w d (due_id v q d) db \<noteq> {}" using pre 2 by auto
    then obtain k row where "take 12 k = wkey [due_id v q d, d, ?w]"
        "db_tab db (ORDER_LINE_TABLE_ID + district_part E ?w d) k = Some row"
      unfolding order_lines_keyed [OF ok] by blast
    then have "order_lines E ?w d (due_id v q d) (call_eff E b v x db) \<noteq> {}"
      using 2 unfolding order_lines_keyed [OF ok'] by (auto simp: a_deliver_lines_def)
    then show ?thesis using 2 by simp
  next
    case (3 q d)
    then show ?thesis using pre by (auto simp: a_deliver_order_def row_at_def split: option.splits)
  qed simp
qed

lemma created_before:
  assumes "call_pre E b v x db"
  shows "family x \<in> {FDel2, FDel3} \<Longrightarrow> created E (call_part E b v x) db"
    "x \<in> range No2 \<union> range No6 \<Longrightarrow> \<not> created E (call_part E b v x) db"
proof -
  show "created E (call_part E b v x) db" if "family x \<in> {FDel2, FDel3}"
    using that assms by (cases x) (auto simp: row_at_def split: option.splits)
  show "\<not> created E (call_part E b v x) db" if "x \<in> range No2 \<union> range No6"
    using that assms by auto
qed

text \<open>The calls on one part, in the order of the serial processor.\<close>

lemma creators_on_part:
  fixes E :: "'g tpcc_env"
  assumes ok: "batch_db_ok E db" and run: "batch_run E b v cs db = Some db'"
    and f: "\<And>x. x \<in> set cs \<Longrightarrow> call_part E b v x = r \<Longrightarrow>
      x \<in> range No2 \<and> \<phi>1 = FNo12 \<or> x \<in> range No6 \<and> \<phi>1 = FNo6 \<or> family x \<in> {FDel2, FDel3} \<and> family x = \<phi>2"
    and ne: "\<phi>1 \<in> {FNo12, FNo6}" "\<phi>2 \<in> {FDel2, FDel3}"
  shows "filter (\<lambda>x. call_part E b v x = r) cs = filter (on_part E b v r \<phi>1) cs @ filter (on_part E b v r \<phi>2) cs"
proof -
  let ?xs = "filter (\<lambda>x. call_part E b v x = r) cs"
  obtain t where t: "batch_run E b v ?xs db = Some t"
    using batch.run_filter [OF ok ok same_part_refl run, of r] by blast
  have fam: "family x = \<phi>2 \<longleftrightarrow> family x \<noteq> \<phi>1" if "x \<in> set cs" "call_part E b v x = r" for x
  proof -
    have "\<phi>1 \<noteq> \<phi>2" using ne by auto
    moreover have "family x = \<phi>1 \<or> family x = \<phi>2" using f [OF that] by auto
    ultimately show ?thesis by metis
  qed
  have two: "?xs = filter (\<lambda>x. family x = \<phi>1) ?xs @ filter (\<lambda>x. family x \<noteq> \<phi>1) ?xs"
  proof (rule batch.creators_first [OF _ _ _ ok t, where P = "created E r"])
    fix x s assume x: "x \<in> set ?xs" and pre: "call_pre E b v x s"
    show "family x = \<phi>1 \<Longrightarrow> \<not> created E r s" "family x \<noteq> \<phi>1 \<Longrightarrow> created E r s" "batch_db_ok E s \<Longrightarrow> created E r (call_eff E b v x s)"
      using x f [of x] ne created_before [OF pre] created_after [OF _ pre] by auto
  qed
  have "filter (\<lambda>x. family x \<noteq> \<phi>1) ?xs = filter (on_part E b v r \<phi>2) cs"
    unfolding filter_filter
  proof (rule filter_cong [OF refl])
    fix x assume "x \<in> set cs"
    then show "call_part E b v x = r \<and> family x \<noteq> \<phi>1 \<longleftrightarrow> on_part E b v r \<phi>2 x" using fam unfolding on_part_def by blast
  qed
  moreover have "filter (\<lambda>x. family x = \<phi>1) ?xs = filter (on_part E b v r \<phi>1) cs"
    by (auto simp: on_part_def intro!: filter_cong)
  ultimately show ?thesis using two by simp
qed


section \<open>Every schedule\<close>

lemma same_filters:
  fixes E :: "'g tpcc_env"
  assumes ok: "batch_db_ok E db" and run: "batch_run E b v cs db = Some db'" and s: "batch_schedule E b cs xs ys"
  shows "filter (\<lambda>x. call_part E b v x = r) (xs @ ys) = filter (\<lambda>x. call_part E b v x = r) cs"
proof -
  let ?P = "\<lambda>x. call_part E b v x = r"
  have parts: "parts_ok E" using ok by (simp add: batch_db_ok_def)
  have th: "thread_of E b (xs @ ys) \<phi> t = thread_of E b cs \<phi> t" for \<phi> t using s by (simp add: batch_schedule_def)
  have fx: "family x \<in> first_families" if "x \<in> set xs" for x using s that by (auto simp: batch_schedule_def)
  have fy: "family x \<in> second_families" if "x \<in> set ys" for x using s that by (auto simp: batch_schedule_def)
  have o1: "ordered FNo12 FDel3 (xs @ ys)"
    by (rule ordered_append) (use fx fy in \<open>fastforce simp: first_families_def second_families_def\<close>)+
  have "\<forall>x \<in> set xs. family x \<noteq> FNo6 \<and> family x \<noteq> FDel2" using fx by (fastforce simp: first_families_def)
  then have o2: "ordered FNo6 FDel2 (xs @ ys)" using s by (auto simp: batch_schedule_def intro: ordered_more(1))
  show ?thesis
  proof (cases "\<exists>x y. ?P x \<and> ?P y \<and> family x \<noteq> family y")
    case True
    then obtain x y where "?P x" "?P y" "family x \<noteq> family y" by blast
    then have r: "(\<exists>i k. r = Cell i k \<and> {family x, family y} = {FNo12, FDel3}) \<or> (\<exists>k. r = Lines k \<and> {family x, family y} = {FNo6, FDel2})"
      using same_families [OF parts, of b v x y] by simp
    define \<phi>1 where "\<phi>1 = (if \<exists>k. r = Lines k then FNo6 else FNo12)"
    define \<phi>2 where "\<phi>2 = (if \<exists>k. r = Lines k then FDel2 else FDel3)"
    have xy: "{family x, family y} = {\<phi>1, \<phi>2}" using r by (auto simp: \<phi>1_def \<phi>2_def)
    have f: "z \<in> range No2 \<and> \<phi>1 = FNo12 \<or> z \<in> range No6 \<and> \<phi>1 = FNo6 \<or> family z \<in> {FDel2, FDel3} \<and> family z = \<phi>2" if "?P z" for z
    proof -
      have "family z \<in> {family x, family y}"
      proof (cases "family z = family x")
        case False
        then have "(\<exists>i k. r = Cell i k \<and> {family z, family x} = {FNo12, FDel3}) \<or> (\<exists>k. r = Lines k \<and> {family z, family x} = {FNo6, FDel2})"
          using same_families [OF parts, of b v z x] \<open>?P x\<close> that by simp
        with r show ?thesis by auto
      qed simp
      then have "family z \<in> {\<phi>1, \<phi>2}" using xy by blast
      then show ?thesis using r that by (cases z) (auto simp: \<phi>1_def \<phi>2_def split: if_splits)
    qed
    have o: "ordered \<phi>1 \<phi>2 (xs @ ys)" using o1 o2 by (auto simp: \<phi>1_def \<phi>2_def)
    have "filter ?P (xs @ ys) = filter (on_part E b v r \<phi>1) (xs @ ys) @ filter (on_part E b v r \<phi>2) (xs @ ys)"
      by (rule filter_ordered [OF o]) (use f in force)
    also have "\<dots> = filter (on_part E b v r \<phi>1) cs @ filter (on_part E b v r \<phi>2) cs"
      by (simp only: filter_on_part [OF th])
    also have "\<dots> = filter ?P cs"
      by (rule creators_on_part [OF ok run f, symmetric]) (simp_all add: \<phi>1_def \<phi>2_def)
    finally show ?thesis .
  next
    case False
    show ?thesis
    proof (cases "\<exists>x. ?P x")
      case True
      then obtain x where x: "?P x" by blast
      have P: "?P = on_part E b v r (family x)"
      proof
        fix y
        show "?P y = on_part E b v r (family x) y" using False x unfolding on_part_def by blast
      qed
      show ?thesis unfolding P by (rule filter_on_part [OF th])
    qed simp
  qed
qed

lemma schedule_run:
  fixes E :: "'g tpcc_env"
  assumes ok: "batch_db_ok E db" and run: "batch_run E b v cs db = Some db'" and s: "batch_schedule E b cs xs ys"
  shows "batch_run E b v (xs @ ys) db = Some db'"
  by (rule batch.same_order [OF ok same_filters [OF ok run s] run])

end
