(* ===== verification/TpccBatchReady.thy ===== *)
theory TpccBatchReady
  imports TpccBatchOrder
begin

text \<open>
  Which calls a batch makes, and what a schedule (benchmark/tpcc/TpccBatchProcessor.cc) has executed when it
  comes to a call: the calls that compute what the call reads from the local vectors.
\<close>

section \<open>The calls of a batch\<close>

fun call_range :: "nat \<Rightarrow> nat \<Rightarrow> nat \<Rightarrow> nat \<Rightarrow> nat \<Rightarrow> nat \<Rightarrow> tpcc_call \<Rightarrow> bool" where
  "call_range n n' q q' k k' (No1 j) \<longleftrightarrow> n \<le> j \<and> j < n'"
| "call_range n n' q q' k k' (No2 j) \<longleftrightarrow> n \<le> j \<and> j < n'"
| "call_range n n' q q' k k' (No3 j) \<longleftrightarrow> n \<le> j \<and> j < n'"
| "call_range n n' q q' k k' (No4 j i) \<longleftrightarrow> n \<le> j \<and> j < n'"
| "call_range n n' q q' k k' (No5 j i) \<longleftrightarrow> n \<le> j \<and> j < n'"
| "call_range n n' q q' k k' (No6 j) \<longleftrightarrow> n \<le> j \<and> j < n'"
| "call_range n n' q q' k k' (Pay1 j) \<longleftrightarrow> k \<le> j \<and> j < k'"
| "call_range n n' q q' k k' (Pay2 j) \<longleftrightarrow> k \<le> j \<and> j < k'"
| "call_range n n' q q' k k' (Pay3 j) \<longleftrightarrow> k \<le> j \<and> j < k'"
| "call_range n n' q q' k k' (Pay4 j) \<longleftrightarrow> k \<le> j \<and> j < k'"
| "call_range n n' q q' k k' (Del1 j d) \<longleftrightarrow> q \<le> j \<and> j < q'"
| "call_range n n' q q' k k' (Del2 j d) \<longleftrightarrow> q \<le> j \<and> j < q'"
| "call_range n n' q q' k k' (Del3 j d) \<longleftrightarrow> q \<le> j \<and> j < q'"
| "call_range n n' q q' k k' (Del4 j d) \<longleftrightarrow> q \<le> j \<and> j < q'"

fun call_detail :: "tpcc_batch \<Rightarrow> batch_values \<Rightarrow> tpcc_call \<Rightarrow> bool" where
  "call_detail b v (No4 n i) \<longleftrightarrow> i < order_length (no_at b n)"
| "call_detail b v (No5 n i) \<longleftrightarrow> i < order_length (no_at b n)"
| "call_detail b v (Del1 q d) \<longleftrightarrow> d \<in> set all_districts"
| "call_detail b v (Del2 q d) \<longleftrightarrow> d \<in> set all_districts \<and> bv_due v q d \<noteq> None"
| "call_detail b v (Del3 q d) \<longleftrightarrow> d \<in> set all_districts \<and> bv_due v q d \<noteq> None"
| "call_detail b v (Del4 q d) \<longleftrightarrow> d \<in> set all_districts \<and> bv_due v q d \<noteq> None"
| "call_detail b v x \<longleftrightarrow> True"

lemma call_range_Suc:
  "call_range n (Suc (n + m)) q q' k k' x \<longleftrightarrow> call_range n (Suc n) q q k k x \<or> call_range (Suc n) (Suc (n + m)) q q' k k' x"
  "call_range n n' q (Suc (q + m)) k k' x \<longleftrightarrow> call_range n n q (Suc q) k k x \<or> call_range n n' (Suc q) (Suc (q + m)) k k' x"
  "call_range n n' q q' k (Suc (k + m)) x \<longleftrightarrow> call_range n n q q k (Suc k) x \<or> call_range n n' q q' (Suc k) (Suc (k + m)) x"
  by (cases x; force)+

lemma one_position: "n \<le> j \<and> j < Suc n \<longleftrightarrow> j = n"
  by auto

lemma set_event_calls:
  assumes "no_at b n = p"
  shows "x \<in> set (event_calls v (NEW_ORDER p) n q k) \<longleftrightarrow> call_range n (Suc n) q q k k x \<and> call_detail b v x"
    "x \<in> set (event_calls v (DELIVERY p1) n q k) \<longleftrightarrow> call_range n n q (Suc q) k k x \<and> call_detail b v x"
    "x \<in> set (event_calls v (PAYMENT p2) n q k) \<longleftrightarrow> call_range n n q q k (Suc k) x \<and> call_detail b v x"
proof -
  show "x \<in> set (event_calls v (NEW_ORDER p) n q k) \<longleftrightarrow> call_range n (Suc n) q q k k x \<and> call_detail b v x"
    using assms by (cases x) (auto simp: one_position)
  show "x \<in> set (event_calls v (DELIVERY p1) n q k) \<longleftrightarrow> call_range n n q (Suc q) k k x \<and> call_detail b v x"
    by (cases x) (auto simp: one_position due_districts_def)
  show "x \<in> set (event_calls v (PAYMENT p2) n q k) \<longleftrightarrow> call_range n n q q k (Suc k) x \<and> call_detail b v x"
    by (cases x) (auto simp: one_position)
qed

lemma set_batch_calls:
  "params_at b es n q k \<Longrightarrow> x \<in> set (batch_calls v es n q k) \<longleftrightarrow>
     call_range n (n + length (orders_of es)) q (q + length (deliveries_of es)) k (k + length (payments_of es)) x \<and>
     call_detail b v x"
proof (induction es arbitrary: n q k)
  case Nil
  then show ?case by (cases x) simp_all
next
  case (Cons e es)
  show ?case
  proof (cases e)
    case (DELIVERY p)
    have IH: "x \<in> set (batch_calls v es n (q + 1) k) \<longleftrightarrow> call_range n (n + length (orders_of es)) (q + 1)
        (q + 1 + length (deliveries_of es)) k (k + length (payments_of es)) x \<and> call_detail b v x"
      using Cons.prems DELIVERY by (intro Cons.IH) simp
    show ?thesis
      unfolding DELIVERY batch_calls.simps set_append Un_iff IH set_event_calls(2) [of b n, OF refl]
      by (auto simp: call_range_Suc(2))
  next
    case (NEW_ORDER p)
    have IH: "x \<in> set (batch_calls v es (n + 1) q k) \<longleftrightarrow> call_range (n + 1) (n + 1 + length (orders_of es)) q
        (q + length (deliveries_of es)) k (k + length (payments_of es)) x \<and> call_detail b v x"
      using Cons.prems NEW_ORDER by (intro Cons.IH) simp
    have p: "no_at b n = p" using Cons.prems NEW_ORDER by simp
    show ?thesis
      unfolding NEW_ORDER batch_calls.simps set_append Un_iff IH set_event_calls(1) [OF p]
      by (auto simp: call_range_Suc(1))
  next
    case (PAYMENT p)
    have IH: "x \<in> set (batch_calls v es n q (k + 1)) \<longleftrightarrow> call_range n (n + length (orders_of es)) q
        (q + length (deliveries_of es)) (k + 1) (k + 1 + length (payments_of es)) x \<and> call_detail b v x"
      using Cons.prems PAYMENT by (intro Cons.IH) simp
    show ?thesis
      unfolding PAYMENT batch_calls.simps set_append Un_iff IH set_event_calls(3) [of b n, OF refl]
      by (auto simp: call_range_Suc(3))
  qed (use Cons in simp_all)
qed

section \<open>What a call needs\<close>

fun call_needs :: "tpcc_batch \<Rightarrow> tpcc_call \<Rightarrow> tpcc_call set" where
  "call_needs b (No2 n) = {No1 n}"
| "call_needs b (No3 n) = {No1 n}"
| "call_needs b (No6 n) =
     insert (No1 n) (No4 n ` {..<order_length (no_at b n)} \<union> No5 n ` {..<order_length (no_at b n)})"
| "call_needs b (Del2 q d) = {Del1 q d}"
| "call_needs b (Del3 q d) = {Del1 q d}"
| "call_needs b (Del4 q d) = {Del1 q d, Del2 q d, Del3 q d}"
| "call_needs b x = {}"

lemma needs_in_range:
  "call_range 0 n' 0 q' 0 k' x \<Longrightarrow> call_detail b v x \<Longrightarrow> y \<in> call_needs b x \<Longrightarrow>
   call_range 0 n' 0 q' 0 k' y \<and> call_detail b v y"
  by (cases x) auto

lemma before_both:
  assumes "before as x y" "before bs x y"
  shows "before (as @ bs) x y"
  unfolding before_def
proof (intro allI impI)
  fix us vs assume "as @ bs = us @ y # vs"
  then consider ws where "us = as @ ws" "bs = ws @ y # vs" | ws where "as = us @ ws" "ws @ bs = y # vs"
    by (auto simp: append_eq_append_conv2)
  then show "x \<in> set us"
  proof cases
    case (1 ws)
    then show ?thesis using beforeD [of ws y vs x] assms(2) by simp
  next
    case (2 ws)
    show ?thesis
    proof (cases ws)
      case Nil
      then show ?thesis using 2 beforeD [of "[]" y vs x] assms(2) by simp
    next
      case (Cons z zs)
      then show ?thesis using 2 beforeD [of us y zs x] assms(1) by simp
    qed
  qed
qed

lemma thread_No12: "before (thread_of E b (batch_calls v es n q k) FNo12 t) (No1 j) (No2 j)"
proof (induction es arbitrary: n q k)
  case Nil
  then show ?case by (simp add: thread_of_def before_def)
next
  case (Cons e es)
  have "before [No1 m, No2 m] (No1 j) (No2 j)" for m
    by (auto simp: before_def Cons_eq_append_conv append_eq_Cons_conv)
  moreover have "before [] (No1 j) (No2 j)" by (simp add: before_def)
  ultimately have ev: "before (thread_of E b (event_calls v e n q k) FNo12 t) (No1 j) (No2 j)"
    by (cases e) (simp_all add: thread_of_def filter_calls)
  show ?case
    by (cases e) (use Cons.IH before_both [OF ev] in \<open>simp_all del: event_calls.simps\<close>)
qed

lemma families_of_needs:
  "y \<in> call_needs b x \<Longrightarrow>
   family y \<in> first_families - second_families \<and> family x \<in> second_families - first_families \<or>
   family y = FNo12 \<and> (family x = FConflict \<or> (\<exists>n. x = No2 n \<and> y = No1 n)) \<or>
   family y \<in> {FDel2, FDel3} \<and> family x = FConflict2"
  by (cases x) (auto simp: first_families_def second_families_def)

lemma schedule_orders:
  assumes "batch_schedule E b cs xs ys"
  shows "\<phi>1 \<in> first_families - second_families \<Longrightarrow> \<phi>2 \<in> second_families - first_families \<Longrightarrow> ordered \<phi>1 \<phi>2 (xs @ ys)"
    "ordered FNo12 FConflict (xs @ ys)" "ordered FDel2 FConflict2 (xs @ ys)" "ordered FDel3 FConflict2 (xs @ ys)"
proof -
  have fx: "family x \<in> first_families" if "x \<in> set xs" for x using assms that by (auto simp: batch_schedule_def)
  have fy: "family y \<in> second_families" if "y \<in> set ys" for y using assms that by (auto simp: batch_schedule_def)
  show "ordered \<phi>1 \<phi>2 (xs @ ys)" if "\<phi>1 \<in> first_families - second_families" "\<phi>2 \<in> second_families - first_families"
    by (rule ordered_append) (use that fx fy in blast)+
  show "ordered FNo12 FConflict (xs @ ys)"
    by (rule ordered_more(2)) (use assms fy in \<open>auto simp: batch_schedule_def second_families_def\<close>)
  have "\<forall>x \<in> set xs. family x \<notin> {FDel2, FDel3, FConflict2}" using fx by (fastforce simp: first_families_def)
  then show "ordered FDel2 FConflict2 (xs @ ys)" "ordered FDel3 FConflict2 (xs @ ys)"
    using assms by (auto simp: batch_schedule_def intro!: ordered_more(1))
qed

text \<open>The calls of a schedule are those of the batch.\<close>

lemma schedule_set:
  assumes "batch_schedule E b cs xs ys"
  shows "set (xs @ ys) = set cs"
proof -
  have m: "x \<in> set zs \<longleftrightarrow> x \<in> set (thread_of E b zs (family x) (call_bucket E b x))" for x zs
    by (simp add: thread_of_def in_thread_def)
  have "x \<in> set (xs @ ys) \<longleftrightarrow> x \<in> set cs" for x
    unfolding m [of x "xs @ ys"] m [of x cs] using assms by (simp add: batch_schedule_def)
  then show ?thesis by blast
qed

lemma needs_before:
  fixes E :: "'g tpcc_env"
  assumes s: "batch_schedule E b (batch_calls v es 0 0 0) xs ys" and p: "params_at b es 0 0 0"
    and split: "xs @ ys = us @ x # vs" and y: "y \<in> call_needs b x"
  shows "y \<in> set us"
proof -
  let ?cs = "batch_calls v es 0 0 0"
  have "x \<in> set (xs @ ys)" using split by simp
  then have "x \<in> set ?cs" by (simp only: schedule_set [OF s])
  then have "y \<in> set ?cs" unfolding set_batch_calls [OF p] using needs_in_range y by blast
  then have y': "y \<in> set (us @ x # vs)" unfolding split [symmetric] schedule_set [OF s] .
  note o = schedule_orders [OF s, unfolded split]
  show ?thesis
    using families_of_needs [OF y]
  proof (elim disjE conjE exE)
    assume f: "family y \<in> first_families - second_families" "family x \<in> second_families - first_families"
    then show ?thesis using y' by (intro orderedD [OF o(1)]) auto
  next
    assume "family y = FNo12" "family x = FConflict"
    then show ?thesis using y' by (intro orderedD [OF o(2)]) auto
  next
    fix n assume x: "x = No2 n" "y = No1 n"
    let ?t = "no_bucket E (no_at b n)" and ?P = "in_thread E b FNo12 (no_bucket E (no_at b n))"
    have "filter ?P us @ No2 n # filter ?P vs = thread_of E b (xs @ ys) FNo12 ?t"
      unfolding split thread_of_def x(1) by simp
    also have "\<dots> = thread_of E b ?cs FNo12 ?t" using s by (simp add: batch_schedule_def)
    finally have "before (filter ?P us @ No2 n # filter ?P vs) (No1 n) (No2 n)" using thread_No12 by simp
    then show ?thesis using x(2) beforeD by fastforce
  next
    assume f: "family y \<in> {FDel2, FDel3}" "family x = FConflict2"
    then show ?thesis using y' orderedD [OF o(3)] orderedD [OF o(4)] by auto
  qed
qed

text \<open>A sum is added up before it is used, and a payment draws once.\<close>

lemma sum_before:
  fixes E :: "'g tpcc_env"
  assumes s: "batch_schedule E b cs xs ys" and split: "xs @ ys = us @ Del2 q d # vs"
  shows "Del4 q d \<notin> set us"
proof
  assume "Del4 q d \<in> set us"
  then obtain u1 u2 where "us = u1 @ Del4 q d # u2" by (meson split_list)
  then have "ordered FDel2 FConflict2 (u1 @ Del4 q d # (u2 @ Del2 q d # vs))"
    using schedule_orders(3) [OF s] split by simp
  from ordered_after [OF this, of "Del2 q d"] show False by simp
qed

lemma payment_once:
  fixes E :: "'g tpcc_env"
  assumes s: "batch_schedule E b (batch_calls v es 0 0 0) xs ys" and split: "xs @ ys = us @ Pay3 k # vs"
  shows "Pay3 k \<notin> set us"
proof -
  have "thread_of E b (xs @ ys) FPay3 0 = thread_of E b (batch_calls v es 0 0 0) FPay3 0" using s by (simp add: batch_schedule_def)
  also have "\<dots> = map Pay3 [0..<length (payments_of es)]"
    by (simp add: payment_thread_of payment_threads_of_batch)
  finally have "distinct (thread_of E b (us @ Pay3 k # vs) FPay3 0)" unfolding split by (simp add: distinct_map inj_on_def)
  then show ?thesis by (simp add: thread_of_def)
qed

end
