(* ===== verification/TpccBatchRun.thy ===== *)
theory TpccBatchRun
  imports TpccBatchReady
begin

text \<open>
  The calls of \<open>TpccBatchProcessor::processBatch\<close> (benchmark/tpcc/TpccBatchProcessor.cc) on the storage manager and
  the local vectors: what the vectors hold when a call reads them, and that the calls refine the steps on
  the maps.
\<close>

section \<open>The database\<close>

lemma batch_db_of_inv:
  fixes E :: "'g tpcc_env"
  assumes inv: "tpcc_inv T E sm" and stack: "3 \<le> length (env_stack E)"
  shows "batch_db_ok E (db_abs T sm)"
proof -
  have "length row = 76 \<and> length k = 16 \<and> (\<forall>o_id d w. of_order o_id d w row \<longleftrightarrow> take 12 k = wkey [o_id, d, w])"
    if i: "ORDER_LINE_TABLE_ID \<le> i" "i < ORDER_LINE_TABLE_ID + partitions (env_cfg E)" and row: "table_map T sm i k = Some row"
    for i k row
  proof -
    obtain j where j: "i = ORDER_LINE_TABLE_ID + j" "j < partitions (env_cfg E)" using i by (metis le_Suc_ex nat_add_left_cancel_less)
    have reg: "tpcc_registry (env_cfg E) i = Some (order_line_schema, True, [order_line_index])"
      using tpcc_registry_parts [OF j(2)] tpcc_inv_parts [OF inv] by (simp add: j(1) parts_ok_def)
    obtain t where t: "sm i = Some t" "st_inv T t" "st_schema t = order_line_schema" "has_primary t = True"
      by (rule db_inv_tableE [OF tpcc_invD(1) [OF inv] reg])
    then obtain a where a: "a \<in> st_live t" "record_key t a = k" "st_bytes t a = row"
      using row st_map_iff [of T t k row] by (auto simp: table_map_at)
    have len: "length row = 76" using st_invD(7) [OF t(2)] t(3) a by auto
    let ?c = "\<lambda>i. col_data order_line_schema i row"
    have key: "k = ?c 0 @ ?c 1 @ ?c 2 @ ?c 3"
      using a(2,3) t(3) by (auto simp: primary_key_of_def key_of_def numeral_2_eq_2 numeral_3_eq_3)
    have c: "length (?c i) = 4" if "i < 4" for i
    proof -
      have "i = 0 \<or> i = Suc 0 \<or> i = 2 \<or> i = 3" using that by linarith
      then show ?thesis using length_col_data [OF tpcc_schema_inv(8), of i row] len by auto
    qed
    have f: "fld32 order_line_schema i row = x \<longleftrightarrow> ?c i = to_bytes x" if "i < 4" for i x
      using to_bytes_of_bytes_32 [OF c [OF that]] by (auto simp: fld32_def)
    have "take 12 k = ?c 0 @ ?c 1 @ ?c 2" using c by (simp add: key)
    then have "take 12 k = wkey [o_id, d, w] \<longleftrightarrow> of_order o_id d w row" for o_id d w
      using c by (simp add: wkey_def of_order_def f)
    then show ?thesis using len key c by simp
  qed
  then show ?thesis using tpcc_inv_parts [OF inv] tpcc_inv_wf [OF inv] stack by (simp add: batch_db_ok_def lines_keyed_def)
qed

section \<open>Vectors of vectors\<close>

definition shaped :: "nat list \<Rightarrow> 'a list list \<Rightarrow> bool" where
  "shaped ls xss \<longleftrightarrow> map length xss = ls"

lemma shaped_get2: "shaped ls xss \<Longrightarrow> i < length ls \<Longrightarrow> j < ls ! i \<Longrightarrow> get2 xss i j = Inr (xss ! i ! j)"
  by (auto simp: shaped_def get2_def vec_at_eq)

lemma shaped_row: "shaped ls xss \<Longrightarrow> i < length ls \<Longrightarrow> vec_at xss i = Inr (xss ! i) \<and> length (xss ! i) = ls ! i"
  by (auto simp: shaped_def vec_at_eq)

lemma shaped_set2: "shaped ls xss \<Longrightarrow> shaped ls (set2 xss i j x)"
  by (cases "i < length xss") (auto simp: shaped_def set2_def map_update intro!: nth_equalityI simp: nth_list_update)

lemma get2_set2:
  "shaped ls xss \<Longrightarrow> i < length ls \<Longrightarrow> j < ls ! i \<Longrightarrow>
   get2 (set2 xss i j x) i' j' = (if i' = i \<and> j' = j then Inr x else get2 xss i' j')"
  by (auto simp: shaped_def set2_def get2_def vec_at_def nth_list_update split: if_splits)

section \<open>What is drawn and added up while the calls run\<close>

definition with_draws :: "batch_values \<Rightarrow> (nat \<Rightarrow> 32 word \<Rightarrow> 64 word) \<Rightarrow> (nat \<Rightarrow> bytes) \<Rightarrow> batch_values" where
  "with_draws v su ho = v\<lparr>bv_sum := su, bv_h_data := ho\<rparr>"

lemma with_draws_simps [simp]:
  "bv_o_id (with_draws v su ho) = bv_o_id v" "bv_dist (with_draws v su ho) = bv_dist v"
  "bv_amount (with_draws v su ho) = bv_amount v" "bv_due (with_draws v su ho) = bv_due v"
  "bv_lines (with_draws v su ho) = bv_lines v" "bv_c_id (with_draws v su ho) = bv_c_id v"
  "bv_sum (with_draws v su ho) = su" "bv_h_data (with_draws v su ho) = ho"
  by (simp_all add: with_draws_def)

lemma with_draws_lists [simp]:
  "dists_of (with_draws v su ho) b n = dists_of v b n" "amounts_of (with_draws v su ho) b n = amounts_of v b n"
  by (simp_all add: dists_of_def amounts_of_def)

lemma with_draws_pre [simp]: "call_pre E b (with_draws v su ho) x db \<longleftrightarrow> call_pre E b v x db"
  by (cases x) simp_all

lemma with_draws_eff:
  "\<forall>q d. x = Del4 q d \<longrightarrow> su q d = su' q d \<Longrightarrow> \<forall>k. x = Pay3 k \<longrightarrow> ho k = ho' k \<Longrightarrow>
   call_eff E b (with_draws v su ho) x = call_eff E b (with_draws v su' ho') x"
  by (cases x) simp_all

lemma with_draws_calls: "batch_calls (with_draws v su ho) es n q k = batch_calls v es n q k"
proof (induction es arbitrary: n q k)
  case (Cons e es)
  have "event_calls (with_draws v su ho) e n q k = event_calls v e n q k" for n q k
    by (cases e) (simp_all add: due_districts_def)
  then show ?case by (cases e) (simp_all only: batch_calls.simps Cons.IH)
qed simp

lemma run_draws_cong:
  assumes "\<And>q d. Del4 q d \<in> set xs \<Longrightarrow> su q d = su' q d" "\<And>k. Pay3 k \<in> set xs \<Longrightarrow> ho k = ho' k"
  shows "batch_run E b (with_draws v su ho) xs db = batch_run E b (with_draws v su' ho') xs db"
  using assms by (intro run_seq_cong with_draws_eff [THEN fun_cong]) auto

section \<open>The invariant of the calls\<close>

definition due_or_none :: "32 word option \<Rightarrow> 32 word" where
  "due_or_none r = (case r of None \<Rightarrow> - 1 | Some o_id \<Rightarrow> o_id)"

text \<open>What the local vectors hold after the calls \<open>ys\<close>; \<open>later\<close>: in the second half.\<close>

definition vectors_ok :: "tpcc_batch \<Rightarrow> batch_values \<Rightarrow> bool \<Rightarrow> tpcc_call list \<Rightarrow> ('q, 'h, 'm) tpcc_state \<Rightarrow> bool" where
  "vectors_ok b v later ys bs \<longleftrightarrow>
     length (ts_next_o_ids bs) = length (new_order_params b) \<and>
     shaped (map order_length (new_order_params b)) (ts_dists bs) \<and>
     shaped (map order_length (new_order_params b)) (ts_amounts bs) \<and>
     shaped (replicate (length (delivery_params b)) 11) (ts_no_o_ids bs) \<and>
     (later \<longrightarrow> shaped (replicate (length (delivery_params b)) 11) (ts_c_ids bs) \<and>
        shaped (replicate (length (delivery_params b)) 11) (ts_sums bs)) \<and>
     (\<forall>n. No1 n \<in> set ys \<longrightarrow> ts_next_o_ids bs ! n = bv_o_id v n) \<and>
     (\<forall>n i. No4 n i \<in> set ys \<longrightarrow> get2 (ts_dists bs) n i = Inr (bv_dist v n i)) \<and>
     (\<forall>n i. No5 n i \<in> set ys \<longrightarrow> get2 (ts_amounts bs) n i = Inr (bv_amount v n i)) \<and>
     (\<forall>q < length (delivery_params b). \<forall>d \<in> set all_districts. get2 (ts_no_o_ids bs) q (int_index d) =
        Inr (if Del1 q d \<in> set ys then due_or_none (bv_due v q d) else - 1)) \<and>
     (\<forall>q. \<forall>d \<in> set all_districts. Del3 q d \<in> set ys \<longrightarrow> get2 (ts_c_ids bs) q (int_index d) = Inr (bv_c_id v q d))"

definition sums_held :: "(nat \<Rightarrow> 32 word \<Rightarrow> 64 word) \<Rightarrow> tpcc_call list \<Rightarrow> ('q, 'h, 'm) tpcc_state \<Rightarrow> bool" where
  "sums_held su ys bs \<longleftrightarrow>
     (\<forall>q. \<forall>d \<in> set all_districts. Del2 q d \<in> set ys \<longrightarrow> get2 (ts_sums bs) q (int_index d) = Inr (su q d))"

definition batch_inv ::
  "('q, 'h, 'm) tbb \<Rightarrow> 'g tpcc_env \<Rightarrow> tpcc_batch \<Rightarrow> batch_values \<Rightarrow> database \<Rightarrow> bool \<Rightarrow> tpcc_call list \<Rightarrow>
   ('q, 'h, 'm) tpcc_state \<Rightarrow> bool" where
  "batch_inv T E b v db0 later ys bs \<longleftrightarrow>
     tpcc_inv T E (ts_sm bs) \<and> vectors_ok b v later ys bs \<and>
     (\<exists>su ho. batch_run E b (with_draws v su ho) ys db0 = Some (db_abs T (ts_sm bs)) \<and>
        chosen_ok E (with_draws v su ho) ys \<and> sums_held su ys bs)"

lemma batch_invI:
  assumes run: "batch_run E b (with_draws v su ho) us db0 = Some (db_abs T sm)" and draws: "chosen_ok E (with_draws v su ho) us"
    and inv: "tpcc_inv T E sm" and pre: "call_pre E b v x (db_abs T sm)"
    and b: "becomes T (tpcc_registry (env_cfg E)) sm (ts_sm bs') (call_eff E b (with_draws v su ho) x)"
    and x: "chosen_ok E (with_draws v su ho) [x]" "sums_held su (us @ [x]) bs'" "vectors_ok b v later (us @ [x]) bs'"
  shows "batch_inv T E b v db0 later (us @ [x]) bs'"
proof -
  have "tpcc_inv T E (ts_sm bs')" using inv becomes_inv [OF b] by (simp add: tpcc_inv_def)
  moreover have "batch_run E b (with_draws v su ho) (us @ [x]) db0 = Some (db_abs T (ts_sm bs'))"
    using run pre b by (simp add: run_seq_append becomes_def)
  ultimately show ?thesis using draws x chosen_ok_append [of E "with_draws v su ho" us "[x]"] by (auto simp: batch_inv_def)
qed

text \<open>A call that draws nothing and does not use what is drawn.\<close>

definition draw_free :: "tpcc_call \<Rightarrow> bool" where
  "draw_free x \<longleftrightarrow> (\<forall>q d. x \<noteq> Del2 q d) \<and> (\<forall>q d. x \<noteq> Del4 q d) \<and> (\<forall>k. x \<noteq> Pay3 k)"

lemma batch_inv_quiet:
  assumes inv: "batch_inv T E b v db0 later us bs" and pre: "call_pre E b v x (db_abs T (ts_sm bs))" and q: "draw_free x"
    and b: "becomes T (tpcc_registry (env_cfg E)) (ts_sm bs) (ts_sm bs') (call_eff E b v x)"
    and s: "ts_sums bs' = ts_sums bs" and v: "vectors_ok b v later (us @ [x]) bs'"
  shows "batch_inv T E b v db0 later (us @ [x]) bs'"
proof -
  obtain su ho where d: "batch_run E b (with_draws v su ho) us db0 = Some (db_abs T (ts_sm bs))"
      "chosen_ok E (with_draws v su ho) us" "sums_held su us bs"
    using inv by (auto simp: batch_inv_def)
  have v0: "with_draws v (bv_sum v) (bv_h_data v) = v" by (simp add: with_draws_def)
  have "call_eff E b v x = call_eff E b (with_draws v su ho) x"
    using with_draws_eff [of x "bv_sum v" su "bv_h_data v" ho E b v, unfolded v0] q by (simp add: draw_free_def)
  then have b': "becomes T (tpcc_registry (env_cfg E)) (ts_sm bs) (ts_sm bs') (call_eff E b (with_draws v su ho) x)"
    using b by simp
  have i: "tpcc_inv T E (ts_sm bs)" using inv by (simp add: batch_inv_def)
  show ?thesis
    by (rule batch_invI [OF d(1,2) i pre b' _ _ v]) (use q d(3) s in \<open>auto simp: draw_free_def chosen_ok_def sums_held_def\<close>)
qed

section \<open>The calls, one by one\<close>

definition writes_vector :: "tpcc_call \<Rightarrow> bool" where
  "writes_vector x \<longleftrightarrow> (\<exists>n. x = No1 n) \<or> (\<exists>n i. x = No4 n i) \<or> (\<exists>n i. x = No5 n i) \<or> (\<exists>q d. x = Del1 q d) \<or> (\<exists>q d. x = Del3 q d)"

lemma vectors_kept:
  "vectors_ok b v later us bs \<Longrightarrow> \<not> writes_vector x \<Longrightarrow> vectors_ok b v later (us @ [x]) (bs\<lparr>ts_sm := sm'\<rparr>)"
  by (cases x) (simp_all add: vectors_ok_def writes_vector_def)

lemma step_new_sm:
  assumes inv: "batch_inv T E b v db0 later us bs" and pre: "call_pre E b v x (db_abs T (ts_sm bs))"
    and x: "draw_free x" "\<not> writes_vector x"
    and d: "does T (tpcc_registry (env_cfg E)) r (ts_sm bs) (call_eff E b v x)"
  shows "\<exists>bs'. new_sm bs r = Inr bs' \<and> batch_inv T E b v db0 later (us @ [x]) bs'"
proof -
  obtain sm' where sm': "r = Inr sm'" "becomes T (tpcc_registry (env_cfg E)) (ts_sm bs) sm' (call_eff E b v x)"
    using d by (auto simp: does_def)
  have "vectors_ok b v later us bs" using inv by (simp add: batch_inv_def)
  from vectors_kept [OF this x(2)] have "batch_inv T E b v db0 later (us @ [x]) (bs\<lparr>ts_sm := sm'\<rparr>)"
    by (intro batch_inv_quiet [OF inv pre x(1)]) (simp_all add: sm'(2))
  then show ?thesis using sm'(1) by (simp add: new_sm_def)
qed

lemma batch_invD: "batch_inv T E b v db0 later us bs \<Longrightarrow> tpcc_inv T E (ts_sm bs)"
  "batch_inv T E b v db0 later us bs \<Longrightarrow> vectors_ok b v later us bs"
  by (simp_all add: batch_inv_def)

lemma step_No1:
  assumes inv: "batch_inv T E b v db0 later us bs" and pre: "call_pre E b v (No1 n) (db_abs T (ts_sm bs))"
    and n: "n < length (new_order_params b)"
  shows "\<exists>bs'. db_call T E b (No1 n) bs = Inr bs' \<and> batch_inv T E b v db0 later (us @ [No1 n]) bs'"
proof -
  note i = batch_invD [OF inv]
  obtain row where row: "table_map T (ts_sm bs) DISTRICT_TABLE_ID (district_key (no_at b n)) = Some row" "next_o_id row = bv_o_id v n"
    using pre by (auto simp: row_at_def split: option.splits)
  obtain sm' where sm': "neworderSubTxn1 T (no_at b n) (ts_sm bs) = Inr (next_o_id row, sm')"
      "becomes T (tpcc_registry (env_cfg E)) (ts_sm bs) sm' (a_modify DISTRICT_TABLE_ID (district_key (no_at b n)) district_advanced)"
    by (rule neworderSubTxn1_does [OF i(1) row(1)])
  let ?bs = "bs\<lparr>ts_sm := sm', ts_next_o_ids := (ts_next_o_ids bs)[n := bv_o_id v n]\<rparr>"
  have "vectors_ok b v later (us @ [No1 n]) ?bs"
    using i(2) n by (auto simp: vectors_ok_def nth_list_update)
  then have "batch_inv T E b v db0 later (us @ [No1 n]) ?bs"
    by (intro batch_inv_quiet [OF inv pre]) (simp_all add: draw_free_def sm'(2))
  moreover have "length (ts_next_o_ids bs) = length (new_order_params b)" using i(2) by (simp add: vectors_ok_def)
  ultimately show ?thesis using sm'(1) row(2) n by (simp add: vec_at_eq)
qed

lemma order_id_held:
  assumes "vectors_ok b v later us bs" "No1 n \<in> set us" "n < length (new_order_params b)"
  shows "vec_at (ts_next_o_ids bs) n = Inr (bv_o_id v n)"
  using assms by (simp add: vectors_ok_def vec_at_eq)

lemma step_No2:
  assumes inv: "batch_inv T E b v db0 later us bs" and pre: "call_pre E b v (No2 n) (db_abs T (ts_sm bs))"
    and n: "n < length (new_order_params b)" "No1 n \<in> set us" and stack: "3 \<le> length (env_stack E)"
  shows "\<exists>bs'. db_call T E b (No2 n) bs = Inr bs' \<and> batch_inv T E b v db0 later (us @ [No2 n]) bs'"
proof -
  note i = batch_invD [OF inv]
  have "does T (tpcc_registry (env_cfg E)) (neworderSubTxn2 T E (no_at b n) (bv_o_id v n) (ts_sm bs)) (ts_sm bs) (call_eff E b v (No2 n))"
    using neworderSubTxn2_does [OF i(1) stack] pre by simp
  from step_new_sm [OF inv pre _ _ this] show ?thesis
    using order_id_held [OF i(2) n(2,1)] n(1) by (simp add: vec_at_eq draw_free_def writes_vector_def)
qed

lemma step_No3:
  assumes inv: "batch_inv T E b v db0 later us bs" and pre: "call_pre E b v (No3 n) (db_abs T (ts_sm bs))"
    and n: "n < length (new_order_params b)" "No1 n \<in> set us"
  shows "\<exists>bs'. db_call T E b (No3 n) bs = Inr bs' \<and> batch_inv T E b v db0 later (us @ [No3 n]) bs'"
proof -
  note i = batch_invD [OF inv]
  have "does T (tpcc_registry (env_cfg E)) (neworderSubTxn3 T E (no_at b n) (bv_o_id v n) (ts_sm bs)) (ts_sm bs) (call_eff E b v (No3 n))"
    using neworderSubTxn3_does [OF i(1)] pre by simp
  from step_new_sm [OF inv pre _ _ this] show ?thesis
    using order_id_held [OF i(2) n(2,1)] n(1) by (simp add: vec_at_eq draw_free_def writes_vector_def)
qed

lemma step_payments:
  assumes inv: "batch_inv T E b v db0 later us bs" and k: "k < length (payment_params b)"
  shows "call_pre E b v (Pay1 k) (db_abs T (ts_sm bs)) \<Longrightarrow>
      \<exists>bs'. db_call T E b (Pay1 k) bs = Inr bs' \<and> batch_inv T E b v db0 later (us @ [Pay1 k]) bs'"
    "call_pre E b v (Pay2 k) (db_abs T (ts_sm bs)) \<Longrightarrow>
      \<exists>bs'. db_call T E b (Pay2 k) bs = Inr bs' \<and> batch_inv T E b v db0 later (us @ [Pay2 k]) bs'"
    "call_pre E b v (Pay4 k) (db_abs T (ts_sm bs)) \<Longrightarrow>
      \<exists>bs'. db_call T E b (Pay4 k) bs = Inr bs' \<and> batch_inv T E b v db0 later (us @ [Pay4 k]) bs'"
proof -
  note i = batch_invD [OF inv]
  have q: "draw_free (Pay1 k)" "draw_free (Pay2 k)" "draw_free (Pay4 k)"
    "\<not> writes_vector (Pay1 k)" "\<not> writes_vector (Pay2 k)" "\<not> writes_vector (Pay4 k)"
    by (simp_all add: draw_free_def writes_vector_def)
  show "\<exists>bs'. db_call T E b (Pay1 k) bs = Inr bs' \<and> batch_inv T E b v db0 later (us @ [Pay1 k]) bs'"
    if pre: "call_pre E b v (Pay1 k) (db_abs T (ts_sm bs))"
  proof -
    obtain row where "table_map T (ts_sm bs) WAREHOUSE_TABLE_ID (wkey [pay_w_id (pay_at b k)]) = Some row" using pre by auto
    from step_new_sm [OF inv pre q(1,4)] paymentSubTxn1_does [OF i(1) this] show ?thesis using k by (simp add: vec_at_eq)
  qed
  show "\<exists>bs'. db_call T E b (Pay2 k) bs = Inr bs' \<and> batch_inv T E b v db0 later (us @ [Pay2 k]) bs'"
    if pre: "call_pre E b v (Pay2 k) (db_abs T (ts_sm bs))"
  proof -
    obtain row where "table_map T (ts_sm bs) DISTRICT_TABLE_ID (wkey [pay_d_id (pay_at b k), pay_w_id (pay_at b k)]) = Some row"
      using pre by auto
    from step_new_sm [OF inv pre q(2,5)] paymentSubTxn2_does [OF i(1) this] show ?thesis using k by (simp add: vec_at_eq)
  qed
  show "\<exists>bs'. db_call T E b (Pay4 k) bs = Inr bs' \<and> batch_inv T E b v db0 later (us @ [Pay4 k]) bs'"
    if pre: "call_pre E b v (Pay4 k) (db_abs T (ts_sm bs))"
  proof -
    obtain row where "table_map T (ts_sm bs) CUSTOMER_TABLE_ID
        (wkey [pay_c_id (pay_at b k), pay_d_id (pay_at b k), pay_w_id (pay_at b k)]) = Some row"
      using pre by auto
    from step_new_sm [OF inv pre q(3,6)] paymentSubTxn4_does [OF i(1) this] show ?thesis using k by (simp add: vec_at_eq)
  qed
qed

text \<open>The lines of an order.\<close>

definition orders_ready :: "'g tpcc_env \<Rightarrow> tpcc_batch \<Rightarrow> batch_values \<Rightarrow> database \<Rightarrow> bool" where
  "orders_ready E b v db \<longleftrightarrow>
     (\<forall>n < length (new_order_params b). lists_agree (no_at b n) \<and> order_length (no_at b n) < 2 ^ 32 \<and>
        (\<forall>i < order_length (no_at b n). db_tab db ITEM_TABLE_ID (wkey [nop_i_ids (no_at b n) ! i]) \<noteq> None \<and>
           bv_amount v n i = line_amount (env_dbl E) (no_at b n) (db_tab db ITEM_TABLE_ID) i))"

lemma run_items:
  fixes E :: "'g tpcc_env"
  assumes ok: "batch_db_ok E db" and run: "batch_run E b v xs db = Some db'"
  shows "db_tab db' ITEM_TABLE_ID = db_tab db ITEM_TABLE_ID"
proof
  fix k
  have "parts_ok E" using ok by (simp add: batch_db_ok_def)
  then have "ORDER_TABLE_ID + district_part E w d \<noteq> ITEM_TABLE_ID" for w d
    using parts_okD [of E w d] by (simp add: tpcc_table_ids)
  then have "call_part E b v x \<noteq> Cell ITEM_TABLE_ID k" for x
    by (cases x) (simp_all add: tpcc_table_ids)
  then have "filter (\<lambda>x. call_part E b v x = Cell ITEM_TABLE_ID k) xs = []" by simp
  then show "db_tab db' ITEM_TABLE_ID k = db_tab db ITEM_TABLE_ID k"
    using batch.run_filter [OF ok ok same_part_refl run, of "Cell ITEM_TABLE_ID k"] by simp
qed

lemma step_No4:
  assumes inv: "batch_inv T E b v db0 later us bs" and pre: "call_pre E b v (No4 n j) (db_abs T (ts_sm bs))"
    and n: "n < length (new_order_params b)" "j < order_length (no_at b n)" and ready: "orders_ready E b v db0"
  shows "\<exists>bs'. db_call T E b (No4 n j) bs = Inr bs' \<and> batch_inv T E b v db0 later (us @ [No4 n j]) bs'"
proof -
  note i = batch_invD [OF inv]
  let ?p = "no_at b n"
  have la: "lists_agree ?p" "j < length (nop_i_ids ?p)" using ready n by (simp_all add: orders_ready_def order_length_def)
  obtain row where row: "table_map T (ts_sm bs) STOCK_TABLE_ID (stock_key ?p j) = Some row"
      "0 \<in> set (col_data stock_schema (dist_column ?p) row)" "dist_info ?p row = bv_dist v n j"
    using pre by (auto simp: row_at_def split: option.splits)
  then have "stock_ready ?p j (table_map T (ts_sm bs) STOCK_TABLE_ID)" by (simp add: stock_ready_def)
  from neworderSubTxn4Single_does [OF i(1) la this]
  obtain sm' row' where sm': "neworderSubTxn4Single T ?p j (ts_sm bs) = Inr (dist_info ?p row', sm')"
      "table_map T (ts_sm bs) STOCK_TABLE_ID (stock_key ?p j) = Some row'"
      "becomes T (tpcc_registry (env_cfg E)) (ts_sm bs) sm' (a_stock ?p j)"
    by metis
  have d: "dist_info ?p row' = bv_dist v n j" using row(1,3) sm'(2) by simp
  have sh: "shaped (map order_length (new_order_params b)) (ts_dists bs)" using i(2) by (simp add: vectors_ok_def)
  let ?bs = "bs\<lparr>ts_sm := sm', ts_dists := set2 (ts_dists bs) n j (bv_dist v n j)\<rparr>"
  have "vectors_ok b v later (us @ [No4 n j]) ?bs"
    using i(2) n by (auto simp: vectors_ok_def shaped_set2 get2_set2 [OF sh])
  then have "batch_inv T E b v db0 later (us @ [No4 n j]) ?bs"
    by (intro batch_inv_quiet [OF inv pre]) (simp_all add: draw_free_def sm'(3))
  then show ?thesis using sm'(1) n d shaped_get2 [OF sh, of n j] by (simp add: vec_at_eq)
qed

lemma step_No5:
  fixes E :: "'g tpcc_env"
  assumes inv: "batch_inv T E b v db0 later us bs" and ok: "batch_db_ok E db0"
    and n: "n < length (new_order_params b)" "j < order_length (no_at b n)" and ready: "orders_ready E b v db0"
  shows "\<exists>bs'. db_call T E b (No5 n j) bs = Inr bs' \<and> batch_inv T E b v db0 later (us @ [No5 n j]) bs'"
proof -
  note i = batch_invD [OF inv]
  let ?p = "no_at b n"
  obtain su ho where "batch_run E b (with_draws v su ho) us db0 = Some (db_abs T (ts_sm bs))" using inv by (auto simp: batch_inv_def)
  from run_items [OF ok this] have items: "table_map T (ts_sm bs) ITEM_TABLE_ID = db_tab db0 ITEM_TABLE_ID" by simp
  have r: "lists_agree ?p" "bv_amount v n j = line_amount (env_dbl E) ?p (table_map T (ts_sm bs) ITEM_TABLE_ID) j"
    using ready n by (simp_all add: orders_ready_def items)
  obtain row where "table_map T (ts_sm bs) ITEM_TABLE_ID (wkey [nop_i_ids ?p ! j]) = Some row"
    using ready n by (fastforce simp: orders_ready_def items)
  from neworderSubTxn5Single_does [OF i(1) r(1) n(2) this]
  have sub: "neworderSubTxn5Single T E ?p j (ts_sm bs) = Inr (bv_amount v n j)" using r(2) by simp
  have sh: "shaped (map order_length (new_order_params b)) (ts_amounts bs)" using i(2) by (simp add: vectors_ok_def)
  let ?bs = "bs\<lparr>ts_amounts := set2 (ts_amounts bs) n j (bv_amount v n j)\<rparr>"
  have "becomes T (tpcc_registry (env_cfg E)) (ts_sm bs) (ts_sm ?bs) (call_eff E b v (No5 n j))"
    using becomes_refl [OF tpcc_invD(1) [OF i(1)]] by simp
  moreover have "vectors_ok b v later (us @ [No5 n j]) ?bs"
    using i(2) n by (auto simp: vectors_ok_def shaped_set2 get2_set2 [OF sh])
  ultimately have "batch_inv T E b v db0 later (us @ [No5 n j]) ?bs"
    by (intro batch_inv_quiet [OF inv]) (simp_all add: draw_free_def)
  then show ?thesis using sub n shaped_get2 [OF sh, of n j] by (simp add: vec_at_eq)
qed

lemma row_is_list:
  assumes "shaped ls xss" "n < length ls" "\<And>j. j < ls ! n \<Longrightarrow> get2 xss n j = Inr (f j)"
  shows "vec_at xss n = Inr (map f [0..<ls ! n])"
proof -
  note r = shaped_row [OF assms(1,2)]
  have "xss ! n = map f [0..<ls ! n]"
  proof (rule nth_equalityI)
    fix j assume "j < length (xss ! n)"
    then have j: "j < ls ! n" using r by simp
    then show "xss ! n ! j = map f [0..<ls ! n] ! j" using assms(3) [OF j] shaped_get2 [OF assms(1,2) j] by simp
  qed (use r in simp)
  then show ?thesis using r by simp
qed

lemma step_No6:
  fixes E :: "'g tpcc_env"
  assumes inv: "batch_inv T E b v db0 later us bs" and pre: "call_pre E b v (No6 n) (db_abs T (ts_sm bs))"
    and stack: "3 \<le> length (env_stack E)" and n: "n < length (new_order_params b)" and ready: "orders_ready E b v db0"
    and needs: "call_needs b (No6 n) \<subseteq> set us"
  shows "\<exists>bs'. db_call T E b (No6 n) bs = Inr bs' \<and> batch_inv T E b v db0 later (us @ [No6 n]) bs'"
proof -
  note i = batch_invD [OF inv]
  let ?p = "no_at b n" and ?o = "bv_o_id v n" and ?m = "order_length (no_at b n)"
  have r: "lists_agree ?p" "?m < 2 ^ 32" using ready n by (simp_all add: orders_ready_def)
  have held: "get2 (ts_dists bs) n j = Inr (bv_dist v n j)" "get2 (ts_amounts bs) n j = Inr (bv_amount v n j)" if "j < ?m" for j
  proof -
    have "No4 n j \<in> set us" "No5 n j \<in> set us" using needs that by auto
    then show "get2 (ts_dists bs) n j = Inr (bv_dist v n j)" "get2 (ts_amounts bs) n j = Inr (bv_amount v n j)"
      using i(2) by (simp_all add: vectors_ok_def)
  qed
  have sh: "shaped (map order_length (new_order_params b)) (ts_dists bs)" "shaped (map order_length (new_order_params b)) (ts_amounts bs)"
    using i(2) by (simp_all add: vectors_ok_def)
  have ds: "vec_at (ts_dists bs) n = Inr (dists_of v b n)"
    using row_is_list [OF sh(1), of n "bv_dist v n"] n held(1) by (simp add: dists_of_def)
  have am: "vec_at (ts_amounts bs) n = Inr (amounts_of v b n)"
    using row_is_list [OF sh(2), of n "bv_amount v n"] n held(2) by (simp add: amounts_of_def)
  have o: "vec_at (ts_next_o_ids bs) n = Inr ?o" using order_id_held [OF i(2) _ n] needs by simp
  note ok = batch_db_of_inv [OF i(1) stack]
  have new: "table_map T (ts_sm bs) (line_table E ?p) (line_key ?p ?o j) = None" if "j < ?m" for j
  proof (rule ccontr)
    assume "table_map T (ts_sm bs) (line_table E ?p) (line_key ?p ?o j) \<noteq> None"
    then have "order_lines E (nop_w_id ?p) (nop_d_id ?p) ?o (db_abs T (ts_sm bs)) \<noteq> {}"
      unfolding order_lines_keyed [OF ok] using line_key_order by (auto simp: line_table_def)
    then show False using pre by simp
  qed
  have "does T (tpcc_registry (env_cfg E)) (neworderSubTxn6 T E ?p ?o (dists_of v b n) (amounts_of v b n) (ts_sm bs)) (ts_sm bs)
      (call_eff E b v (No6 n))"
    unfolding call_eff.simps
    by (rule neworderSubTxn6_does [OF i(1) r _ _ _ new]) (use pre in \<open>simp_all add: dists_of_def amounts_of_def\<close>)
  from step_new_sm [OF inv pre _ _ this] show ?thesis
    using ds am o n by (simp add: vec_at_eq draw_free_def writes_vector_def)
qed

text \<open>The orders that are delivered.\<close>

lemma step_Del1:
  assumes inv: "batch_inv T E b v db0 later us bs" and pre: "call_pre E b v (Del1 q d) (db_abs T (ts_sm bs))"
    and q: "q < length (delivery_params b)" "d \<in> set all_districts"
  shows "\<exists>bs'. db_call T E b (Del1 q d) bs = Inr bs' \<and> batch_inv T E b v db0 later (us @ [Del1 q d]) bs'"
proof -
  note i = batch_invD [OF inv]
  let ?p = "del_at b q" and ?j = "int_index d"
  have sh: "shaped (replicate (length (delivery_params b)) 11) (ts_no_o_ids bs)" using i(2) by (simp add: vectors_ok_def)
  have j: "?j < 11" using district_numbers [OF q(2)] by simp
  define o0 where "o0 = (if Del1 q d \<in> set us then due_or_none (bv_due v q d) else - 1)"
  have cur: "get2 (ts_no_o_ids bs) q ?j = Inr o0" using i(2) q by (simp add: vectors_ok_def o0_def)
  have dno: "table_map T (ts_sm bs) DISTRICT_NEW_ORDER_TABLE_ID (dno_key (del_w_id ?p) d) \<noteq> None"
    and td: "to_deliver E (del_w_id ?p) (db_abs T (ts_sm bs)) d = bv_due v q d"
    using pre by simp_all
  obtain sm' where sm': "deliverySubTxn1Single T E ?p d o0 (ts_sm bs) =
        Inr (case bv_due v q d of None \<Rightarrow> o0 | Some no_o_id \<Rightarrow> no_o_id, sm')"
      "becomes T (tpcc_registry (env_cfg E)) (ts_sm bs) sm' (a_take E (del_w_id ?p) d)"
    using deliverySubTxn1Single_does [OF i(1) dno, of o0] unfolding td by metis
  have r: "(case bv_due v q d of None \<Rightarrow> o0 | Some no_o_id \<Rightarrow> no_o_id) = due_or_none (bv_due v q d)"
    by (simp add: due_or_none_def o0_def split: option.split)
  let ?bs = "bs\<lparr>ts_sm := sm', ts_no_o_ids := set2 (ts_no_o_ids bs) q ?j (due_or_none (bv_due v q d))\<rparr>"
  have g: "get2 (set2 (ts_no_o_ids bs) q ?j x) q' (int_index d') = (if q' = q \<and> d' = d then Inr x else get2 (ts_no_o_ids bs) q' (int_index d'))"
    if "d' \<in> set all_districts" for q' d' x
    using get2_set2 [OF sh, of q ?j x q' "int_index d'"] q j int_index_inj [OF that q(2)] by auto
  have "vectors_ok b v later (us @ [Del1 q d]) ?bs"
    using i(2) by (simp add: vectors_ok_def shaped_set2 g)
  then have "batch_inv T E b v db0 later (us @ [Del1 q d]) ?bs"
    by (intro batch_inv_quiet [OF inv pre]) (simp_all add: draw_free_def sm'(2))
  then show ?thesis using sm'(1) q cur r by (simp add: vec_at_eq)
qed

lemma due_held:
  assumes "vectors_ok b v later us bs" "Del1 q d \<in> set us" "q < length (delivery_params b)" "d \<in> set all_districts" "bv_due v q d \<noteq> None"
  shows "get2 (ts_no_o_ids bs) q (int_index d) = Inr (due_id v q d)"
  using assms by (auto simp: vectors_ok_def due_or_none_def)

lemma step_Del2:
  fixes E :: "'g tpcc_env"
  assumes inv: "batch_inv T E b v db0 True us bs" and pre: "call_pre E b v (Del2 q d) (db_abs T (ts_sm bs))"
    and q: "q < length (delivery_params b)" "call_detail b v (Del2 q d)"
    and needs: "Del1 q d \<in> set us" "Del4 q d \<notin> set us"
  shows "\<exists>bs'. db_call T E b (Del2 q d) bs = Inr bs' \<and> batch_inv T E b v db0 True (us @ [Del2 q d]) bs'"
proof -
  note i = batch_invD [OF inv]
  let ?p = "del_at b q" and ?j = "int_index d" and ?o = "due_id v q d" and ?db = "db_abs T (ts_sm bs)"
  have d: "d \<in> set all_districts" "bv_due v q d \<noteq> None" using q(2) by simp_all
  have j: "?j < 11" using district_numbers [OF d(1)] by simp
  have sh: "shaped (replicate (length (delivery_params b)) 11) (ts_sums bs)" using i(2) by (simp add: vectors_ok_def)
  obtain su ho where r: "batch_run E b (with_draws v su ho) us db0 = Some ?db" "chosen_ok E (with_draws v su ho) us" "sums_held su us bs"
    using inv by (auto simp: batch_inv_def)
  have "order_lines E (del_w_id ?p) d ?o ?db \<noteq> {}" using pre by auto
  then obtain k row where k: "table_map T (ts_sm bs) (ORDER_LINE_TABLE_ID + district_part E (del_w_id ?p) d) k = Some row"
      "of_order ?o d (del_w_id ?p) row" by (auto simp: order_lines_def)
  obtain sm' krs where sm': "deliverySubTxn2Single T E ?p d ?o (ts_sm bs) = Inr (amount_sum (env_dbl E) krs, sm')"
      "lines_listed krs (of_order ?o d (del_w_id ?p)) (table_map T (ts_sm bs) (ORDER_LINE_TABLE_ID + district_part E (del_w_id ?p) d))"
      "becomes T (tpcc_registry (env_cfg E)) (ts_sm bs) sm'
         (a_modify_where (ORDER_LINE_TABLE_ID + district_part E (del_w_id ?p) d) (of_order ?o d (del_w_id ?p))
           (line_delivered (del_ol_delivery_d ?p)))"
    by (rule deliverySubTxn2Single_does [OF i(1) k])
  let ?a = "amount_sum (env_dbl E) krs"
  define su' where "su' = su(q := (su q)(d := ?a))"
  let ?bs = "bs\<lparr>ts_sm := sm', ts_sums := set2 (ts_sums bs) q ?j ?a\<rparr>"
  have r': "batch_run E b (with_draws v su' ho) us db0 = Some ?db"
    unfolding r(1) [symmetric] by (rule run_draws_cong) (use needs(2) in \<open>auto simp: su'_def\<close>)
  have so: "sum_ok E (with_draws v su' ho) q d"
    using sm'(2) pre by (auto simp: sum_ok_def su'_def lines_listed_def order_lines_def)
  have dr: "chosen_ok E (with_draws v su' ho) us"
    unfolding chosen_ok_def
  proof (intro conjI allI impI)
    fix q' d' assume "Del2 q' d' \<in> set us"
    then have "sum_ok E (with_draws v su ho) q' d'" using r(2) by (simp add: chosen_ok_def)
    then show "sum_ok E (with_draws v su' ho) q' d'"
      using so by (cases "q' = q \<and> d' = d") (auto simp: sum_ok_def su'_def)
  next
    fix k assume "Pay3 k \<in> set us"
    then show "h_data_ok (with_draws v su' ho) k" using r(2) by (simp add: chosen_ok_def h_data_ok_def)
  qed
  have sums: "sums_held su' (us @ [Del2 q d]) ?bs"
    unfolding sums_held_def
  proof (intro allI ballI impI)
    fix q' d' assume d': "d' \<in> set all_districts" "Del2 q' d' \<in> set (us @ [Del2 q d])"
    have "get2 (set2 (ts_sums bs) q ?j ?a) q' (int_index d') = (if q' = q \<and> d' = d then Inr ?a else get2 (ts_sums bs) q' (int_index d'))"
      using get2_set2 [OF sh, of q ?j ?a q' "int_index d'"] q j int_index_inj [OF d'(1) d(1)] by auto
    then show "get2 (ts_sums ?bs) q' (int_index d') = Inr (su' q' d')"
      using d' r(3) by (auto simp: su'_def sums_held_def)
  qed
  have "vectors_ok b v True (us @ [Del2 q d]) ?bs"
    using i(2) by (simp add: vectors_ok_def shaped_set2)
  then have "batch_inv T E b v db0 True (us @ [Del2 q d]) ?bs"
    using sm'(3) so by (intro batch_invI [OF r' dr i(1) pre _ _ sums]) (simp_all add: a_deliver_lines_def chosen_ok_def)
  moreover have "get2 (ts_no_o_ids bs) q ?j = Inr ?o" by (rule due_held [OF i(2) needs(1) q(1) d])
  ultimately show ?thesis using sm'(1) q shaped_get2 [OF sh, of q ?j] j by (simp add: vec_at_eq)
qed

lemma step_Del3:
  assumes inv: "batch_inv T E b v db0 True us bs" and pre: "call_pre E b v (Del3 q d) (db_abs T (ts_sm bs))"
    and q: "q < length (delivery_params b)" "call_detail b v (Del3 q d)" and needs: "Del1 q d \<in> set us"
  shows "\<exists>bs'. db_call T E b (Del3 q d) bs = Inr bs' \<and> batch_inv T E b v db0 True (us @ [Del3 q d]) bs'"
proof -
  note i = batch_invD [OF inv]
  let ?p = "del_at b q" and ?j = "int_index d" and ?o = "due_id v q d"
  have d: "d \<in> set all_districts" "bv_due v q d \<noteq> None" using q(2) by simp_all
  have j: "?j < 11" using district_numbers [OF d(1)] by simp
  have sh: "shaped (replicate (length (delivery_params b)) 11) (ts_c_ids bs)" using i(2) by (simp add: vectors_ok_def)
  obtain row where row: "order_at E (del_w_id ?p) d ?o (db_abs T (ts_sm bs)) = Some row" "customer_of row = bv_c_id v q d"
    using pre by (auto simp: row_at_def order_at_def split: option.splits)
  obtain sm' where sm': "deliverySubTxn3Single T E ?p d ?o (ts_sm bs) = Inr (customer_of row, sm')"
      "becomes T (tpcc_registry (env_cfg E)) (ts_sm bs) sm' (a_deliver_order E ?p d ?o)"
    by (rule deliverySubTxn3Single_does [OF i(1) row(1)])
  let ?bs = "bs\<lparr>ts_sm := sm', ts_c_ids := set2 (ts_c_ids bs) q ?j (bv_c_id v q d)\<rparr>"
  have g: "get2 (set2 (ts_c_ids bs) q ?j x) q' (int_index d') = (if q' = q \<and> d' = d then Inr x else get2 (ts_c_ids bs) q' (int_index d'))"
    if "d' \<in> set all_districts" for q' d' x
    using get2_set2 [OF sh, of q ?j x q' "int_index d'"] q j int_index_inj [OF that d(1)] by auto
  have "vectors_ok b v True (us @ [Del3 q d]) ?bs"
    using i(2) by (simp add: vectors_ok_def shaped_set2 g)
  then have "batch_inv T E b v db0 True (us @ [Del3 q d]) ?bs"
    by (intro batch_inv_quiet [OF inv pre]) (simp_all add: draw_free_def sm'(2))
  moreover have "get2 (ts_no_o_ids bs) q ?j = Inr ?o" by (rule due_held [OF i(2) needs q(1) d])
  ultimately show ?thesis using sm'(1) row(2) q shaped_get2 [OF sh, of q ?j] j by (simp add: vec_at_eq)
qed

lemma step_Del4:
  assumes inv: "batch_inv T E b v db0 True us bs" and pre: "call_pre E b v (Del4 q d) (db_abs T (ts_sm bs))"
    and q: "q < length (delivery_params b)" "d \<in> set all_districts" and needs: "Del2 q d \<in> set us" "Del3 q d \<in> set us"
  shows "\<exists>bs'. db_call T E b (Del4 q d) bs = Inr bs' \<and> batch_inv T E b v db0 True (us @ [Del4 q d]) bs'"
proof -
  note i = batch_invD [OF inv]
  let ?p = "del_at b q" and ?j = "int_index d" and ?c = "bv_c_id v q d"
  obtain su ho where r: "batch_run E b (with_draws v su ho) us db0 = Some (db_abs T (ts_sm bs))"
      "chosen_ok E (with_draws v su ho) us" "sums_held su us bs"
    using inv by (auto simp: batch_inv_def)
  have held: "get2 (ts_sums bs) q ?j = Inr (su q d)" "get2 (ts_c_ids bs) q ?j = Inr ?c"
    using r(3) i(2) needs q by (simp_all add: sums_held_def vectors_ok_def)
  have "table_map T (ts_sm bs) CUSTOMER_TABLE_ID (wkey [?c, d, del_w_id ?p]) \<noteq> None" using pre by simp
  from deliverySubTxn4Single_does [OF i(1) this, of "su q d"]
  obtain sm' where sm': "deliverySubTxn4Single T E ?p d (su q d) ?c (ts_sm bs) = Inr sm'"
      "becomes T (tpcc_registry (env_cfg E)) (ts_sm bs) sm' (call_eff E b (with_draws v su ho) (Del4 q d))"
    by (auto simp: does_def)
  let ?bs = "bs\<lparr>ts_sm := sm'\<rparr>"
  have "vectors_ok b v True (us @ [Del4 q d]) ?bs" by (rule vectors_kept [OF i(2)]) (simp add: writes_vector_def)
  moreover have "sums_held su (us @ [Del4 q d]) ?bs" using r(3) by (auto simp: sums_held_def)
  ultimately have "batch_inv T E b v db0 True (us @ [Del4 q d]) ?bs"
    using sm'(2) by (intro batch_invI [OF r(1,2) i(1) pre]) (simp_all add: chosen_ok_def)
  then show ?thesis using sm'(1) q held by (simp add: vec_at_eq new_sm_def)
qed

text \<open>The call that draws.\<close>

lemma step_Pay3:
  fixes E :: "'g tpcc_env"
  assumes inv: "batch_inv T E b v db0 later us bs" and R: "rand_laws (env_lib E)"
    and k: "k < length (payment_params b)" and once: "Pay3 k \<notin> set us"
  shows "gen_returns (make_call T E b (Pay3 k) bs) (batch_inv T E b v db0 later (us @ [Pay3 k]))"
proof -
  note i = batch_invD [OF inv]
  let ?p = "pay_at b k"
  obtain su ho where r: "batch_run E b (with_draws v su ho) us db0 = Some (db_abs T (ts_sm bs))"
      "chosen_ok E (with_draws v su ho) us" "sums_held su us bs"
    using inv by (auto simp: batch_inv_def)
  have after: "batch_inv T E b v db0 later (us @ [Pay3 k]) (bs\<lparr>ts_sm := sm'\<rparr>)"
    if h: "12 \<le> length h_data" "length h_data \<le> 24"
      and b: "becomes T (tpcc_registry (env_cfg E)) (ts_sm bs) sm' (a_append HISTORY_TABLE_ID (history_row E ?p h_data))"
    for h_data sm'
  proof -
    let ?ho = "ho(k := h_data)" and ?bs = "bs\<lparr>ts_sm := sm'\<rparr>"
    have r': "batch_run E b (with_draws v su ?ho) us db0 = Some (db_abs T (ts_sm bs))"
      unfolding r(1) [symmetric] by (rule run_draws_cong) (use once in auto)
    have d: "chosen_ok E (with_draws v su ?ho) us"
      using r(2) h by (auto simp: chosen_ok_def sum_ok_def h_data_ok_def)
    have "vectors_ok b v later (us @ [Pay3 k]) ?bs" by (rule vectors_kept [OF i(2)]) (simp add: writes_vector_def)
    moreover have "sums_held su (us @ [Pay3 k]) ?bs" using r(3) by (auto simp: sums_held_def)
    ultimately show ?thesis
      using b h by (intro batch_invI [OF r' d i(1)]) (simp_all add: chosen_ok_def h_data_ok_def)
  qed
  have "gen_returns (gbnd (glift (vec_at (payment_params b) k)) (\<lambda>p.
          gbnd (paymentSubTxn3 T E p (ts_sm bs)) (\<lambda>sm. gret (bs\<lparr>ts_sm := sm\<rparr>)))) (batch_inv T E b v db0 later (us @ [Pay3 k]))"
  proof (rule gbnd_returns [OF glift_returns [where P = "\<lambda>p. p = ?p"]])
    show "vec_at (payment_params b) k = Inr ?p" using k by (simp add: vec_at_eq)
    fix p assume p: "p = ?p"
    show "gen_returns (gbnd (paymentSubTxn3 T E p (ts_sm bs)) (\<lambda>sm. gret (bs\<lparr>ts_sm := sm\<rparr>))) (batch_inv T E b v db0 later (us @ [Pay3 k]))"
      unfolding p by (rule gbnd_returns [OF paymentSubTxn3_does [OF i(1) R]]) (auto intro!: gret_returns after)
  qed simp
  then show ?thesis by (simp add: make_call_def)
qed

section \<open>A whole half\<close>

abbreviation in_batch :: "tpcc_batch \<Rightarrow> batch_values \<Rightarrow> tpcc_call \<Rightarrow> bool" where
  "in_batch b v x \<equiv>
     call_range 0 (length (new_order_params b)) 0 (length (delivery_params b)) 0 (length (payment_params b)) x \<and>
     call_detail b v x"

lemma call_step:
  fixes E :: "'g tpcc_env"
  assumes env: "env_ok E" and ok: "batch_db_ok E db0" and ready: "orders_ready E b v db0"
    and inv: "batch_inv T E b v db0 later us bs" and pre: "call_pre E b v x (db_abs T (ts_sm bs))"
    and x: "in_batch b v x" and needs: "call_needs b x \<subseteq> set us"
    and late: "(\<exists>q d. x = Del2 q d \<or> x = Del3 q d \<or> x = Del4 q d) \<Longrightarrow> later"
    and once: "\<And>k. x = Pay3 k \<Longrightarrow> Pay3 k \<notin> set us" and sums: "\<And>q d. x = Del2 q d \<Longrightarrow> Del4 q d \<notin> set us"
  shows "gen_returns (make_call T E b x bs) (batch_inv T E b v db0 later (us @ [x]))"
proof (cases "\<exists>k. x = Pay3 k")
  case True
  then obtain k where "x = Pay3 k" by blast
  then show ?thesis using step_Pay3 [OF inv] env x once by (simp add: env_ok_def)
next
  case False
  have stack: "3 \<le> length (env_stack E)" using env by (simp add: env_ok_def)
  have "\<exists>bs'. db_call T E b x bs = Inr bs' \<and> batch_inv T E b v db0 later (us @ [x]) bs'"
  proof (cases x)
    case (No1 n)
    show ?thesis unfolding No1 by (rule step_No1 [OF inv]) (use pre x No1 in simp_all)
  next
    case (No2 n)
    show ?thesis unfolding No2 by (rule step_No2 [OF inv _ _ _ stack]) (use pre x needs No2 in simp_all)
  next
    case (No3 n)
    show ?thesis unfolding No3 by (rule step_No3 [OF inv]) (use pre x needs No3 in simp_all)
  next
    case (No4 n i)
    show ?thesis unfolding No4 by (rule step_No4 [OF inv _ _ _ ready]) (use pre x No4 in simp_all)
  next
    case (No5 n i)
    show ?thesis unfolding No5 by (rule step_No5 [OF inv ok _ _ ready]) (use x No5 in simp_all)
  next
    case (No6 n)
    show ?thesis unfolding No6 by (rule step_No6 [OF inv _ stack _ ready]) (use pre x needs No6 in simp_all)
  next
    case (Pay1 k)
    show ?thesis unfolding Pay1 by (rule step_payments(1) [OF inv]) (use pre x Pay1 in simp_all)
  next
    case (Pay2 k)
    show ?thesis unfolding Pay2 by (rule step_payments(2) [OF inv]) (use pre x Pay2 in simp_all)
  next
    case (Pay4 k)
    show ?thesis unfolding Pay4 by (rule step_payments(3) [OF inv]) (use pre x Pay4 in simp_all)
  next
    case (Del1 q d)
    show ?thesis unfolding Del1 by (rule step_Del1 [OF inv]) (use pre x Del1 in simp_all)
  next
    case (Del2 q d)
    then have later: "later" using late by blast
    then have inv': "batch_inv T E b v db0 True us bs" using inv by simp
    have "\<exists>bs'. db_call T E b (Del2 q d) bs = Inr bs' \<and> batch_inv T E b v db0 True (us @ [Del2 q d]) bs'"
      by (rule step_Del2 [OF inv']) (use pre x needs sums Del2 in simp_all)
    then show ?thesis using later Del2 by simp
  next
    case (Del3 q d)
    then have later: "later" using late by blast
    then have inv': "batch_inv T E b v db0 True us bs" using inv by simp
    have "\<exists>bs'. db_call T E b (Del3 q d) bs = Inr bs' \<and> batch_inv T E b v db0 True (us @ [Del3 q d]) bs'"
      by (rule step_Del3 [OF inv']) (use pre x needs Del3 in simp_all)
    then show ?thesis using later Del3 by simp
  next
    case (Del4 q d)
    then have later: "later" using late by blast
    then have inv': "batch_inv T E b v db0 True us bs" using inv by simp
    have "\<exists>bs'. db_call T E b (Del4 q d) bs = Inr bs' \<and> batch_inv T E b v db0 True (us @ [Del4 q d]) bs'"
      by (rule step_Del4 [OF inv']) (use pre x needs Del4 in simp_all)
    then show ?thesis using later Del4 by simp
  qed (use False in simp)
  then obtain bs' where "db_call T E b x bs = Inr bs'" "batch_inv T E b v db0 later (us @ [x]) bs'" by blast
  moreover have "make_call T E b x bs = glift (db_call T E b x bs)" using False by (cases x) (simp_all add: make_call_def)
  ultimately show ?thesis by (simp add: glift_returns)
qed

end
