(* ===== verification/TpccBatchExec.thy ===== *)
theory TpccBatchExec
  imports TpccBatchRun
begin

text \<open>
  \<open>TpccBatchProcessor::processBatch\<close> and \<open>start\<close> (benchmark/tpcc/TpccBatchProcessor.cc): whatever the schedule of the
  threads, a batch ends without error in a database that the serial processor could have ended in.
\<close>

section \<open>The parameters of a batch\<close>

text \<open>A batch holds its transactions, and the last one the end marker after them.\<close>

definition closes :: "tpcc_event list \<Rightarrow> tpcc_event list \<Rightarrow> bool" where
  "closes es es' \<longleftrightarrow> es' = es \<or> es' = es @ [ENDEXECUTION]"

lemma parameters_of_append [simp]:
  "orders_of (es @ es') = orders_of es @ orders_of es'" "deliveries_of (es @ es') = deliveries_of es @ deliveries_of es'"
  "payments_of (es @ es') = payments_of es @ payments_of es'"
  by (simp_all add: orders_of_def deliveries_of_def payments_of_def List.map_filter_def)

lemma closes_parameters:
  assumes "closes es es'"
  shows "orders_of es' = orders_of es" "deliveries_of es' = deliveries_of es" "payments_of es' = payments_of es"
    "batch_calls v es' n q k = batch_calls v es n q k"
proof -
  have "batch_calls v (es @ [ENDEXECUTION]) n q k = batch_calls v es n q k"
  proof (induction es arbitrary: n q k)
    case (Cons e es)
    then show ?case by (cases e) simp_all
  qed simp
  then show "orders_of es' = orders_of es" "deliveries_of es' = deliveries_of es" "payments_of es' = payments_of es"
    "batch_calls v es' n q k = batch_calls v es n q k"
    using assms by (auto simp: closes_def)
qed

lemma set_orders: "p \<in> set (orders_of es) \<longleftrightarrow> NEW_ORDER p \<in> set es"
proof (induction es)
  case (Cons e es)
  then show ?case by (cases e) auto
qed simp

section \<open>The items\<close>

lemma items_kept:
  fixes E :: "'g tpcc_env"
  assumes "parts_ok E"
  shows "db_tab (a_new_order E p db) ITEM_TABLE_ID = db_tab db ITEM_TABLE_ID"
    "db_tab (a_delivery E p' ids am db) ITEM_TABLE_ID = db_tab db ITEM_TABLE_ID"
    "db_tab (a_payment E p'' h db) ITEM_TABLE_ID = db_tab db ITEM_TABLE_ID"
proof -
  have ids: "district_part E w d < TPCC_MAX_PARTITION_CNT" for w d by (rule parts_okD [OF assms])
  note ids' = part_tables [OF ids ids] line_table_def
  have c: "ITEM_TABLE_ID \<notin> {STOCK_TABLE_ID, DISTRICT_TABLE_ID, DISTRICT_NEW_ORDER_TABLE_ID, CUSTOMER_TABLE_ID, WAREHOUSE_TABLE_ID}"
    "ITEM_TABLE_ID \<noteq> ORDER_TABLE_ID + district_part E w d" "ITEM_TABLE_ID \<noteq> NEW_ORDER_TABLE_ID + district_part E w d"
    "ITEM_TABLE_ID \<noteq> ORDER_LINE_TABLE_ID + district_part E w d" for w d
    using ids [of w d] by (simp_all add: tpcc_table_ids)
  have c': "ITEM_TABLE_ID \<noteq> line_table E p" using c by (simp add: line_table_def)
  show "db_tab (a_new_order E p db) ITEM_TABLE_ID = db_tab db ITEM_TABLE_ID"
    using c c' by (simp add: a_new_order_def Let_def a_lines_other a_stocks_other)
  show "db_tab (a_payment E p'' h db) ITEM_TABLE_ID = db_tab db ITEM_TABLE_ID"
    using c by (simp add: a_payment_def)
  have 1: "db_tab (a_takes E w ds db) ITEM_TABLE_ID = db_tab db ITEM_TABLE_ID" for w ds db
    using c by (induction ds rule: rev_induct) (simp_all add: a_takes_def a_take_eq split: option.split)
  have 2: "db_tab (fold (\<lambda>(d, o_id). a_deliver_lines E p d o_id) xs db) ITEM_TABLE_ID = db_tab db ITEM_TABLE_ID" for p xs db
    using c by (induction xs rule: rev_induct) (auto simp: a_deliver_lines_def)
  have 3: "db_tab (fold (\<lambda>(d, o_id). a_deliver_order E p d o_id) xs db) ITEM_TABLE_ID = db_tab db ITEM_TABLE_ID" for p xs db
    using c by (induction xs rule: rev_induct) (auto simp: a_deliver_order_def)
  have 4: "db_tab (fold (\<lambda>(d, o_id). a_credit D w d (cust (d, o_id)) (am d)) xs db) ITEM_TABLE_ID = db_tab db ITEM_TABLE_ID"
    for xs db D w and cust :: "32 word \<times> 32 word \<Rightarrow> 32 word"
    using c by (induction xs rule: rev_induct) (auto simp: a_credit_def)
  show "db_tab (a_delivery E p' ids am db) ITEM_TABLE_ID = db_tab db ITEM_TABLE_ID"
    unfolding a_delivery_def Let_def by (simp only: 1 2 3 4)
qed

lemma values_items:
  fixes E :: "'g tpcc_env"
  assumes parts: "parts_ok E"
  shows "params_at b es n q k \<Longrightarrow> values_ok E v es n q db \<Longrightarrow> n \<le> j \<Longrightarrow> j < n + length (orders_of es) \<Longrightarrow>
    i < order_length (no_at b j) \<Longrightarrow> bv_amount v j i = line_amount (env_dbl E) (no_at b j) (db_tab db ITEM_TABLE_ID) i"
proof (induction es arbitrary: n q k db)
  case (Cons e es)
  note items = items_kept [OF parts]
  show ?case
  proof (cases e)
    case (DELIVERY p)
    have pa: "params_at b es n (q + 1) k" using Cons.prems(1) DELIVERY by simp
    have va: "values_ok E v es n (q + 1) (a_delivery E p (delivered_ids E p db) (\<lambda>_. 0) db)" using Cons.prems(2) DELIVERY by simp
    have j: "j < n + length (orders_of es)" using Cons.prems(4) DELIVERY by simp
    from Cons.IH [OF pa va Cons.prems(3) j Cons.prems(5)] show ?thesis by (simp only: items)
  next
    case (NEW_ORDER p)
    have pa: "params_at b es (n + 1) q k" "no_at b n = p" using Cons.prems(1) NEW_ORDER by simp_all
    have va: "order_values E p v n db" "values_ok E v es (n + 1) q (a_new_order E p db)" using Cons.prems(2) NEW_ORDER by simp_all
    show ?thesis
    proof (cases "j = n")
      case True
      then show ?thesis using va(1) pa(2) Cons.prems(5) by (simp add: order_values_def)
    next
      case False
      then have j: "n + 1 \<le> j" "j < n + 1 + length (orders_of es)" using Cons.prems(3,4) NEW_ORDER by simp_all
      from Cons.IH [OF pa(1) va(2) j Cons.prems(5)] show ?thesis by (simp only: items)
    qed
  next
    case (PAYMENT p)
    have pa: "params_at b es n q (k + 1)" using Cons.prems(1) PAYMENT by simp
    have va: "values_ok E v es n q (a_payment E p [] db)" using Cons.prems(2) PAYMENT by simp
    have j: "j < n + length (orders_of es)" using Cons.prems(4) PAYMENT by simp
    from Cons.IH [OF pa va Cons.prems(3) j Cons.prems(5)] show ?thesis by (simp only: items)
  qed (use Cons in auto)
qed simp

section \<open>A batch on a database\<close>

text \<open>\<open>batch_ready E m es es' db v\<close>: the transactions \<open>es\<close> of the batch \<open>es'\<close> are valid on the database, which has
  room for them and \<open>m\<close> more, and \<open>v\<close> are the
  values they have in the order of the serial processor.\<close>

definition batch_ready ::
  "'g tpcc_env \<Rightarrow> nat \<Rightarrow> tpcc_event list \<Rightarrow> tpcc_event list \<Rightarrow> database \<Rightarrow> batch_values \<Rightarrow> bool" where
  "batch_ready E m es es' db v \<longleftrightarrow>
     env_ok E \<and> 0 < kParallelism (env_cfg E) \<and> closes es es' \<and> batch_db_ok E db \<and> consistent E db \<and>
     has_room (length es + m) db \<and> (\<forall>e \<in> set es. event_valid e db) \<and> values_ok E v es 0 0 db"

lemma batch_readyD:
  assumes "batch_ready E m es es' db v"
  shows "env_ok E" "0 < kParallelism (env_cfg E)" "batch_db_ok E db"
    "params_at (tpcc_batch_of es') es 0 0 0" "params_at (tpcc_batch_of es') es' 0 0 0"
    "new_order_params (tpcc_batch_of es') = orders_of es" "delivery_params (tpcc_batch_of es') = deliveries_of es"
    "payment_params (tpcc_batch_of es') = payments_of es"
proof -
  note p = closes_parameters(1-3) [of es es']
  show "env_ok E" "0 < kParallelism (env_cfg E)" "batch_db_ok E db" using assms by (simp_all add: batch_ready_def)
  show b: "new_order_params (tpcc_batch_of es') = orders_of es" "delivery_params (tpcc_batch_of es') = deliveries_of es"
    "payment_params (tpcc_batch_of es') = payments_of es"
    using p assms by (simp_all add: batch_ready_def tpcc_batch_of_simps)
  show "params_at (tpcc_batch_of es') es 0 0 0" by (rule params_at_drop) (simp_all add: b)
  show "params_at (tpcc_batch_of es') es' 0 0 0" by (rule params_at_batch)
qed

lemma batch_orders:
  assumes r: "batch_ready E m es es' db v" and n: "n < length (orders_of es)"
  shows "order_valid (no_at (tpcc_batch_of es') n) db"
proof -
  have "no_at (tpcc_batch_of es') n \<in> set (orders_of es)" using n by (simp add: batch_readyD(6) [OF r])
  then have "NEW_ORDER (no_at (tpcc_batch_of es') n) \<in> set es" by (simp add: set_orders)
  then show ?thesis using r by (fastforce simp: batch_ready_def)
qed

lemma batch_orders_ready:
  fixes E :: "'g tpcc_env"
  assumes r: "batch_ready E m es es' db v"
  shows "orders_ready E (tpcc_batch_of es') v db"
proof -
  note d = batch_readyD [OF r]
  have parts: "parts_ok E" using d(3) by (simp add: batch_db_ok_def)
  have vals: "values_ok E v es 0 0 db" using r by (simp add: batch_ready_def)
  have "bv_amount v n i = line_amount (env_dbl E) (no_at (tpcc_batch_of es') n) (db_tab db ITEM_TABLE_ID) i"
    if "n < length (orders_of es)" "i < order_length (no_at (tpcc_batch_of es') n)" for n i
    using values_items [OF parts d(4) vals _ _ that(2)] that(1) by simp
  then show ?thesis using batch_orders [OF r] d(6) by (auto simp: orders_ready_def order_valid_def)
qed

text \<open>Every schedule succeeds on the maps, whatever is drawn.\<close>

lemma serial_runs:
  fixes E :: "'g tpcc_env"
  assumes r: "batch_ready E m es es' db v"
  shows "\<exists>db'. batch_run E (tpcc_batch_of es') (with_draws v su ho) (batch_calls v es 0 0 0) db = Some db' \<and>
    consistent E db' \<and> has_room m db' \<and> same_static db db' \<and>
    (chosen_ok E (with_draws v su ho) (batch_calls v es 0 0 0) \<longrightarrow> events_run E es db db')"
proof -
  note d = batch_readyD [OF r]
  have "same_from 0 0 v (with_draws v su ho)" by (simp add: same_from_def)
  moreover have "values_ok E v es 0 0 db" using r by (simp add: batch_ready_def)
  ultimately have vals: "values_ok E (with_draws v su ho) es 0 0 db" by (rule values_ok_from)
  have ok: "consistent E db" "has_room (length es + m) db" "\<forall>e \<in> set es. event_valid e db" using r by (simp_all add: batch_ready_def)
  have "same_books db db" by (simp add: same_books_def)
  from run_batch_calls [OF d(1,3) ok d(4) vals this] show ?thesis unfolding with_draws_calls .
qed

lemma batch_runs:
  fixes E :: "'g tpcc_env"
  assumes r: "batch_ready E m es es' db v" and s: "batch_schedule E (tpcc_batch_of es') (batch_calls v es 0 0 0) xs ys"
  shows "\<exists>db'. batch_run E (tpcc_batch_of es') (with_draws v su ho) (xs @ ys) db = Some db' \<and>
    consistent E db' \<and> has_room m db' \<and> same_static db db' \<and>
    (chosen_ok E (with_draws v su ho) (xs @ ys) \<longrightarrow> events_run E es db db')"
proof -
  let ?v = "with_draws v su ho"
  have "chosen_ok E ?v (xs @ ys) \<longleftrightarrow> chosen_ok E ?v (batch_calls v es 0 0 0)"
    unfolding chosen_ok_def schedule_set [OF s] ..
  then show ?thesis
    using serial_runs [OF r, of su ho] schedule_run [OF batch_readyD(3) [OF r] _ s, of ?v] by blast
qed

lemma due_not_marker:
  fixes E :: "'g tpcc_env"
  assumes r: "batch_ready E m es es' db v" and q: "q < length (deliveries_of es)" "d \<in> set all_districts"
  shows "bv_due v q d \<noteq> Some (- 1)"
proof -
  note p = batch_readyD [OF r]
  have "Del1 q d \<in> set (batch_calls v es 0 0 0)" using q by (simp add: set_batch_calls [OF p(4)])
  then obtain us vs where split: "batch_calls v es 0 0 0 = us @ Del1 q d # vs" by (meson split_list)
  obtain db' where "batch_run E (tpcc_batch_of es') (with_draws v (bv_sum v) (bv_h_data v)) (us @ Del1 q d # vs) db = Some db'"
    using serial_runs [OF r] unfolding split by blast
  then obtain db1 where "call_pre E (tpcc_batch_of es') v (Del1 q d) db1"
    by (elim run_seq_appendE) (auto split: if_splits)
  then show ?thesis by simp
qed

text \<open>Some calls of a schedule, after those before them.\<close>

lemma batch_piece:
  fixes E :: "'g tpcc_env"
  assumes r: "batch_ready E m es es' db v" and s: "batch_schedule E (tpcc_batch_of es') (batch_calls v es 0 0 0) xs ys"
    and split: "xs @ ys = us @ zs @ rest" and late: "\<not> later \<Longrightarrow> us @ zs = xs"
    and inv: "batch_inv T E (tpcc_batch_of es') v db later us bs"
  shows "gen_returns (gfold (make_call T E (tpcc_batch_of es')) zs bs)
    (batch_inv T E (tpcc_batch_of es') v db later (us @ zs))"
proof -
  let ?b = "tpcc_batch_of es'"
  note d = batch_readyD [OF r]
  have fx: "family x \<in> first_families" if "x \<in> set xs" for x using s that by (auto simp: batch_schedule_def)
  show ?thesis
  proof (rule gfold_invariant [where I = "\<lambda>ps. batch_inv T E ?b v db later (us @ ps)"])
    fix ps x qs st
    assume zs: "zs = ps @ x # qs" and inv: "batch_inv T E ?b v db later (us @ ps) st"
    have split': "xs @ ys = (us @ ps) @ x # (qs @ rest)" using split zs by simp
    have x: "x \<in> set (batch_calls v es 0 0 0)" unfolding schedule_set [OF s, symmetric] split' by simp
    have "\<exists>su ho. batch_run E ?b (with_draws v su ho) (us @ ps) db = Some (db_abs T (ts_sm st))"
      using inv by (auto simp: batch_inv_def)
    then obtain su ho where run: "batch_run E ?b (with_draws v su ho) (us @ ps) db = Some (db_abs T (ts_sm st))" by blast
    obtain db' where "batch_run E ?b (with_draws v su ho) ((us @ ps) @ x # (qs @ rest)) db = Some db'"
      using batch_runs [OF r s, of su ho] unfolding split' by blast
    then have pre: "call_pre E ?b v x (db_abs T (ts_sm st))"
      unfolding run_seq_append [of _ _ "us @ ps"] run by (simp split: if_splits)
    have "gen_returns (make_call T E ?b x st) (batch_inv T E ?b v db later ((us @ ps) @ [x]))"
    proof (rule call_step [OF d(1,3) batch_orders_ready [OF r] inv pre])
      show "in_batch ?b v x" using x set_batch_calls [OF d(4)] d(6-8) by simp
      show "call_needs ?b x \<subseteq> set (us @ ps)" using needs_before [OF s d(4) split'] by blast
      show later if "\<exists>q d. x = Del2 q d \<or> x = Del3 q d \<or> x = Del4 q d"
      proof (rule ccontr)
        assume "\<not> later"
        then have "x \<in> set xs" using late zs by auto
        then show False using that fx by (fastforce simp: first_families_def)
      qed
      show "Pay3 k \<notin> set (us @ ps)" if "x = Pay3 k" for k using payment_once [OF s] split' that by blast
      show "Del4 q d \<notin> set (us @ ps)" if "x = Del2 q d" for q d using sum_before [OF s] split' that by blast
    qed
    then show "gen_returns (make_call T E ?b x st) (batch_inv T E ?b v db later (us @ (ps @ [x])))" by simp
  qed (use inv in simp)
qed

section \<open>The loops around the halves\<close>

lemma first_loop:
  fixes E :: "'g tpcc_env"
  assumes r: "batch_ready E m es es' db v"
  obtains f where "fold_res (first_fill E) (tpcc_batch_params (tpcc_batch_of es')) (empty_fill (env_cfg E)) = Inr f"
    "fills E (tpcc_batch_of es') (empty_fill (env_cfg E)) (batch_calls v es 0 0 0) f"
    "f_no_o_ids f = replicate (length (deliveries_of es)) (per_district_vector (- 1))"
    "f_s_dists f = map (\<lambda>p. replicate (order_length p) []) (orders_of es)"
    "f_amounts f = map (\<lambda>p. replicate (order_length p) (d_of_int (env_dbl E) 0)) (orders_of es)"
proof -
  let ?f0 = "empty_fill (env_cfg E)"
  note d = batch_readyD [OF r]
  have c: "closes es es'" using r by (simp add: batch_ready_def)
  note c' = closes_parameters [OF c]
  have "bkts_ok E ?f0" by (simp add: bkts_ok_def empty_fill_def)
  moreover have "params_at (tpcc_batch_of es') es' (f_new_order_pos ?f0) (f_delivery_pos ?f0) 0"
    using d(5) by (simp add: empty_fill_def)
  moreover have "\<forall>p \<in> set (orders_of es'). length (nop_i_w_ids p) = length (nop_i_ids p)"
    using r by (fastforce simp: c'(1) set_orders batch_ready_def order_valid_def lists_agree_def)
  ultimately obtain f where "fold_res (first_fill E) es' ?f0 = Inr f"
      "fills E (tpcc_batch_of es') ?f0 (batch_calls v es' (f_new_order_pos ?f0) (f_delivery_pos ?f0) 0) f"
      "f_no_o_ids f = f_no_o_ids ?f0 @ replicate (length (deliveries_of es')) (per_district_vector (- 1))"
      "f_s_dists f = f_s_dists ?f0 @ map (\<lambda>p. replicate (order_length p) []) (orders_of es')"
      "f_amounts f = f_amounts ?f0 @ map (\<lambda>p. replicate (order_length p) (d_of_int (env_dbl E) 0)) (orders_of es')"
    using first_fill_all [OF d(2), where v = v] by metis
  then show thesis using that [of f] by (simp add: c' empty_fill_def tpcc_batch_of_simps)
qed

lemma second_loop:
  fixes E :: "'g tpcc_env"
  assumes r: "batch_ready E m es es' db v"
    and no: "\<And>q d. q < length (deliveries_of es) \<Longrightarrow> d \<in> set all_districts \<Longrightarrow> get2 no_o_ids q (int_index d) = Inr (due_or_none (bv_due v q d))"
  obtains f where "fold_res (second_fill E no_o_ids) (tpcc_batch_params (tpcc_batch_of es')) (empty_fill2 (env_cfg E)) = Inr f"
    "fills2 E (tpcc_batch_of es') (empty_fill2 (env_cfg E)) (batch_calls v es 0 0 0) f"
    "f_c_ids f = replicate (length (deliveries_of es)) (per_district_vector (- 1))"
    "f_sums f = replicate (length (deliveries_of es)) (per_district_vector (d_of_int (env_dbl E) (- 1)))"
proof -
  let ?f0 = "empty_fill2 (env_cfg E)"
  note d = batch_readyD [OF r]
  have c: "closes es es'" using r by (simp add: batch_ready_def)
  note c' = closes_parameters [OF c]
  have "bkts2_ok E ?f0" by (simp add: bkts2_ok_def empty_fill2_def)
  moreover have "params_at (tpcc_batch_of es') es' 0 (f2_delivery_pos ?f0) (f2_payment_pos ?f0)"
    using d(5) by (simp add: empty_fill2_def)
  moreover have "\<forall>q d. f2_delivery_pos ?f0 \<le> q \<longrightarrow> q < f2_delivery_pos ?f0 + length (deliveries_of es') \<longrightarrow> d \<in> set all_districts \<longrightarrow>
      get2 no_o_ids q (int_index d) = Inr (case bv_due v q d of None \<Rightarrow> - 1 | Some o_id \<Rightarrow> o_id) \<and> bv_due v q d \<noteq> Some (- 1)"
    using no due_not_marker [OF r] by (simp add: c' empty_fill2_def due_or_none_def)
  ultimately have "\<exists>f'. fold_res (second_fill E no_o_ids) es' ?f0 = Inr f' \<and>
      fills2 E (tpcc_batch_of es') ?f0 (batch_calls v es' 0 (f2_delivery_pos ?f0) (f2_payment_pos ?f0)) f' \<and>
      f_c_ids f' = f_c_ids ?f0 @ replicate (length (deliveries_of es')) (per_district_vector (- 1)) \<and>
      f_sums f' = f_sums ?f0 @ replicate (length (deliveries_of es')) (per_district_vector (d_of_int (env_dbl E) (- 1)))"
    by (rule second_fill_all [OF d(2)])
  then obtain f where "fold_res (second_fill E no_o_ids) es' ?f0 = Inr f"
      "fills2 E (tpcc_batch_of es') ?f0 (batch_calls v es' 0 (f2_delivery_pos ?f0) (f2_payment_pos ?f0)) f"
      "f_c_ids f = f_c_ids ?f0 @ replicate (length (deliveries_of es')) (per_district_vector (- 1))"
      "f_sums f = f_sums ?f0 @ replicate (length (deliveries_of es')) (per_district_vector (d_of_int (env_dbl E) (- 1)))"
    by blast
  then show thesis using that [of f] by (simp add: c' empty_fill2_def tpcc_batch_of_simps)
qed

text \<open>Vectors that hold the numbers of the orders to be delivered.\<close>

lemma due_vectors:
  obtains no_o_ids where "\<And>q d. q < Q \<Longrightarrow> d \<in> set all_districts \<Longrightarrow> get2 no_o_ids q (int_index d) = Inr (g q d)"
proof -
  let ?m = "map (\<lambda>q. map (\<lambda>j. g q (inv_into (set all_districts) int_index j)) [0..<11]) [0..<Q]"
  have inj: "inj_on int_index (set all_districts)" by (intro inj_onI int_index_inj)
  have "get2 ?m q (int_index d) = Inr (g q d)" if "q < Q" "d \<in> set all_districts" for q d
    using that district_numbers [OF that(2)] inv_into_f_f [OF inj that(2)] by (simp add: get2_def vec_at_eq del: upt_Suc)
  then show thesis by (rule that)
qed

lemma schedules_exist: "\<exists>xs. schedule_a f pay xs" "\<exists>xs. schedule_b f f2 pay1 pay2 xs"
  unfolding schedule_a_def schedule_b_def using interleaving_concat by blast+

section \<open>The two halves\<close>

lemma district_vector_facts: "length (per_district_vector x) = 11" "j < 11 \<Longrightarrow> per_district_vector x ! j = x"
proof -
  have "length (per_district_vector (0 :: nat)) = 11" by code_simp
  then have n: "unat (scast (DISTRICTS_PER_WAREHOUSE + 1) :: 64 word) = 11" by (simp add: per_district_vector_def)
  then show "length (per_district_vector x) = 11" "j < 11 \<Longrightarrow> per_district_vector x ! j = x"
    by (simp_all add: per_district_vector_def)
qed

lemma first_state:
  assumes r: "batch_ready E m es es' (db_abs T sm) v" and inv: "tpcc_inv T E sm"
    and f: "f_no_o_ids f = replicate (length (deliveries_of es)) (per_district_vector (- 1))"
      "f_s_dists f = map (\<lambda>p. replicate (order_length p) []) (orders_of es)"
      "f_amounts f = map (\<lambda>p. replicate (order_length p) (d_of_int (env_dbl E) 0)) (orders_of es)"
  shows "batch_inv T E (tpcc_batch_of es') v (db_abs T sm) False [] (tpcc_init_state (tpcc_batch_of es') f sm)"
proof -
  note d = batch_readyD [OF r]
  have "get2 (replicate (length (deliveries_of es)) (per_district_vector (- 1))) q (int_index d) = Inr (- 1 :: 32 word)"
    if "q < length (deliveries_of es)" "d \<in> set all_districts" for q d
    using that district_numbers [OF that(2)] by (simp add: get2_def vec_at_eq district_vector_facts)
  then have "vectors_ok (tpcc_batch_of es') v False [] (tpcc_init_state (tpcc_batch_of es') f sm)"
    using f d(6,7) by (simp add: vectors_ok_def tpcc_init_state_def shaped_def district_vector_facts comp_def)
  then show ?thesis using inv by (auto simp: batch_inv_def tpcc_init_state_def chosen_ok_def sums_held_def)
qed

lemma middle_state:
  assumes inv: "batch_inv T E (tpcc_batch_of es') v db False xs bs" and r: "batch_ready E m es es' db v"
    and x: "\<And>x. x \<in> set xs \<Longrightarrow> family x \<in> first_families"
    and f: "f_c_ids f = replicate (length (deliveries_of es)) (per_district_vector (- 1))"
      "f_sums f = replicate (length (deliveries_of es)) (per_district_vector (d_of_int (env_dbl E) (- 1)))"
  shows "batch_inv T E (tpcc_batch_of es') v db True xs (second_state f bs)"
proof -
  note d = batch_readyD [OF r]
  have none: "Del2 q d \<notin> set xs" "Del3 q d \<notin> set xs" for q d
    using x [of "Del2 q d"] x [of "Del3 q d"] by (auto simp: first_families_def)
  show ?thesis
    using inv f d(7) none by (auto simp: batch_inv_def vectors_ok_def second_state_def shaped_def district_vector_facts sums_held_def)
qed

lemma middle_due:
  fixes E :: "'g tpcc_env"
  assumes inv: "batch_inv T E (tpcc_batch_of es') v db False xs bs" and r: "batch_ready E m es es' db v"
    and s: "batch_schedule E (tpcc_batch_of es') (batch_calls v es 0 0 0) xs ys"
    and q: "q < length (deliveries_of es)" "d \<in> set all_districts"
  shows "get2 (ts_no_o_ids bs) q (int_index d) = Inr (due_or_none (bv_due v q d))"
proof -
  note p = batch_readyD [OF r]
  have "Del1 q d \<in> set (xs @ ys)" unfolding schedule_set [OF s] using q by (simp add: set_batch_calls [OF p(4)])
  moreover have "Del1 q d \<notin> set ys" using s by (auto simp: batch_schedule_def second_families_def)
  ultimately have "Del1 q d \<in> set xs" by simp
  moreover have "vectors_ok (tpcc_batch_of es') v False xs bs" using inv by (simp add: batch_inv_def)
  ultimately show ?thesis using q p(7) by (simp add: vectors_ok_def)
qed

text \<open>Any schedule of the first half leads to a state in which the loop in the middle succeeds, and from it any schedule
  of the second half to the end.\<close>

lemma both_halves:
  fixes E :: "'g tpcc_env"
  assumes r: "batch_ready E m es es' (db_abs T sm) v" and inv: "tpcc_inv T E sm"
    and f: "fold_res (first_fill E) (tpcc_batch_params (tpcc_batch_of es')) (empty_fill (env_cfg E)) = Inr f"
    and split: "pay_split (tpcc_batch_of es') pa pb pc" and a: "schedule_a f pa xs"
  defines "b \<equiv> tpcc_batch_of es'"
  shows "gen_returns (gfold (make_call T E b) xs (tpcc_init_state b f sm)) (\<lambda>bs.
    \<exists>f2. fold_res (second_fill E (ts_no_o_ids bs)) (tpcc_batch_params b) (empty_fill2 (env_cfg E)) = Inr f2 \<and>
      (\<forall>ys. schedule_b f f2 pb pc ys \<longrightarrow> gen_returns (gfold (make_call T E b) ys (second_state f2 bs)) (\<lambda>bs'.
         tpcc_ok T E m (ts_sm bs') \<and> same_static (db_abs T sm) (db_abs T (ts_sm bs')) \<and>
         events_run E es (db_abs T sm) (db_abs T (ts_sm bs')))))"
proof -
  let ?db = "db_abs T sm" and ?cs = "batch_calls v es 0 0 0" and ?f02 = "empty_fill2 (env_cfg E)"
  note d = batch_readyD [OF r]
  have c: "closes es es'" using r by (simp add: batch_ready_def)
  obtain f' where "fold_res (first_fill E) (tpcc_batch_params b) (empty_fill (env_cfg E)) = Inr f'"
      and f': "fills E b (empty_fill (env_cfg E)) ?cs f'" "f_no_o_ids f' = replicate (length (deliveries_of es)) (per_district_vector (- 1))"
        "f_s_dists f' = map (\<lambda>p. replicate (order_length p) []) (orders_of es)"
        "f_amounts f' = map (\<lambda>p. replicate (order_length p) (d_of_int (env_dbl E) 0)) (orders_of es)"
    unfolding b_def by (rule first_loop [OF r])
  then have ff: "f' = f" using f by (simp add: b_def)
  note f' = f' [unfolded ff]
  have sched: "batch_schedule E b ?cs xs ys" if "fills2 E b ?f02 ?cs f2" "schedule_b f f2 pb pc ys" for f2 ys
    unfolding b_def
    by (rule schedules_facts [OF d(2) refl closes_parameters(3) [OF c] f'(1) [unfolded b_def] that(1) [unfolded b_def] split a that(2)])
  obtain no0 where no0: "\<And>q d. q < length (deliveries_of es) \<Longrightarrow> d \<in> set all_districts \<Longrightarrow>
      get2 no0 q (int_index d) = Inr (due_or_none (bv_due v q d))"
    using due_vectors [where Q = "length (deliveries_of es)" and g = "\<lambda>q d. due_or_none (bv_due v q d)"] by blast
  obtain f20 where "fills2 E b ?f02 ?cs f20" unfolding b_def by (rule second_loop [OF r no0])
  moreover obtain ys0 where "schedule_b f f20 pb pc ys0" using schedules_exist(2) by blast
  ultimately have s0: "batch_schedule E b ?cs xs ys0" by (rule sched)
  have fx: "family x \<in> first_families" if "x \<in> set xs" for x using s0 that by (auto simp: batch_schedule_def)
  have "gen_returns (gfold (make_call T E b) xs (tpcc_init_state b f sm)) (batch_inv T E b v ?db False ([] @ xs))"
    unfolding b_def
    by (rule batch_piece [OF r s0 [unfolded b_def], of "[]" xs ys0])
      (simp_all add: first_state [OF r inv f'(2-4)])
  then show ?thesis
  proof (rule gen_weaken)
    fix bs assume "batch_inv T E b v ?db False ([] @ xs) bs"
    then have bs: "batch_inv T E b v ?db False xs bs" by simp
    obtain f2 where f2: "fold_res (second_fill E (ts_no_o_ids bs)) (tpcc_batch_params b) ?f02 = Inr f2"
        "fills2 E b ?f02 ?cs f2" "f_c_ids f2 = replicate (length (deliveries_of es)) (per_district_vector (- 1))"
        "f_sums f2 = replicate (length (deliveries_of es)) (per_district_vector (d_of_int (env_dbl E) (- 1)))"
      using second_loop [OF r middle_due [OF bs [unfolded b_def] r s0 [unfolded b_def]]] unfolding b_def by blast
    have bs2: "batch_inv T E b v ?db True xs (second_state f2 bs)"
      unfolding b_def by (rule middle_state [OF bs [unfolded b_def] r fx f2(3,4)])
    have "gen_returns (gfold (make_call T E b) ys (second_state f2 bs)) (\<lambda>bs'. tpcc_ok T E m (ts_sm bs') \<and>
        same_static ?db (db_abs T (ts_sm bs')) \<and> events_run E es ?db (db_abs T (ts_sm bs')))"
      if "schedule_b f f2 pb pc ys" for ys
    proof -
      note s = sched [OF f2(2) that]
      have "gen_returns (gfold (make_call T E b) ys (second_state f2 bs)) (batch_inv T E b v ?db True (xs @ ys))"
        unfolding b_def
        by (rule batch_piece [OF r s [unfolded b_def], of xs ys "[]"]) (simp_all add: bs2 [unfolded b_def])
      then show ?thesis
      proof (rule gen_weaken)
        fix bs' assume bs': "batch_inv T E b v ?db True (xs @ ys) bs'"
        then obtain su ho where run: "batch_run E b (with_draws v su ho) (xs @ ys) ?db = Some (db_abs T (ts_sm bs'))"
            "chosen_ok E (with_draws v su ho) (xs @ ys)"
          by (auto simp: batch_inv_def)
        have "tpcc_inv T E (ts_sm bs')" using bs' by (simp add: batch_inv_def)
        then show "tpcc_ok T E m (ts_sm bs') \<and> same_static ?db (db_abs T (ts_sm bs')) \<and> events_run E es ?db (db_abs T (ts_sm bs'))"
          using batch_runs [OF r s [unfolded b_def], of su ho] run by (auto simp: tpcc_ok_def b_def)
      qed
    qed
    then show "\<exists>f2. fold_res (second_fill E (ts_no_o_ids bs)) (tpcc_batch_params b) ?f02 = Inr f2 \<and>
        (\<forall>ys. schedule_b f f2 pb pc ys \<longrightarrow> gen_returns (gfold (make_call T E b) ys (second_state f2 bs)) (\<lambda>bs'.
           tpcc_ok T E m (ts_sm bs') \<and> same_static ?db (db_abs T (ts_sm bs')) \<and>
           events_run E es ?db (db_abs T (ts_sm bs'))))"
      using f2(1) by blast
  qed
qed

section \<open>processBatch\<close>

lemma ready_of_ok:
  fixes E :: "'g tpcc_env"
  assumes env: "env_ok E" and K: "0 < kParallelism (env_cfg E)" and c: "closes es es'"
    and ok: "tpcc_ok T E (length es + m) sm" and valid: "\<forall>e \<in> set es. event_valid e (db_abs T sm)"
  obtains v where "batch_ready E m es es' (db_abs T sm) v"
proof -
  obtain v where "values_ok E v es 0 0 (db_abs T sm)" using values_exist by blast
  moreover have "batch_db_ok E (db_abs T sm)" using ok env by (intro batch_db_of_inv) (simp_all add: tpcc_ok_def env_ok_def)
  ultimately have "batch_ready E m es es' (db_abs T sm) v" using assms by (simp add: batch_ready_def tpcc_ok_def)
  then show thesis by (rule that)
qed

lemma tpcc_batch_serial:
  fixes E :: "'g tpcc_env"
  assumes env: "env_ok E" and K: "0 < kParallelism (env_cfg E)" and c: "closes es es'"
    and ok: "tpcc_ok T E (length es + m) sm" and valid: "\<forall>e \<in> set es. event_valid e (db_abs T sm)"
    and run: "tpcc_processBatch T E (tpcc_batch_of es') sm g r"
  shows "\<exists>sm' g'. r = Inr (sm', g') \<and> tpcc_ok T E m sm' \<and> same_static (db_abs T sm) (db_abs T sm') \<and>
    events_run E es (db_abs T sm) (db_abs T sm')"
proof -
  let ?b = "tpcc_batch_of es'"
  obtain v where v: "batch_ready E m es es' (db_abs T sm) v" by (rule ready_of_ok [OF env K c ok valid])
  have inv: "tpcc_inv T E sm" using ok by (simp add: tpcc_ok_def)
  obtain f0 where f0: "fold_res (first_fill E) (tpcc_batch_params ?b) (empty_fill (env_cfg E)) = Inr f0" by (rule first_loop [OF v])
  note halves = both_halves [OF v inv]
  show ?thesis
    using run
  proof cases
    case (tp_fill_error e)
    then show ?thesis using f0 by simp
  next
    case (tp_first_error f pa pb pc xs e)
    then show ?thesis using halves [of f pa pb pc xs] by (auto elim!: gen_returnsE [where g = g])
  next
    case (tp_second_fill_error f pa pb pc xs bs g1 e)
    then show ?thesis using halves [of f pa pb pc xs] by (auto elim!: gen_returnsE [where g = g])
  next
    case (tp_execute f pa pb pc xs bs g1 f2 ys)
    obtain bs1 g1' where "gfold (make_call T E ?b) xs (tpcc_init_state ?b f sm) g = Inr (bs1, g1')"
        "\<exists>f2. fold_res (second_fill E (ts_no_o_ids bs1)) (tpcc_batch_params ?b) (empty_fill2 (env_cfg E)) = Inr f2 \<and>
      (\<forall>ys. schedule_b f f2 pb pc ys \<longrightarrow> gen_returns (gfold (make_call T E ?b) ys (second_state f2 bs1)) (\<lambda>bs'.
         tpcc_ok T E m (ts_sm bs') \<and> same_static (db_abs T sm) (db_abs T (ts_sm bs')) \<and>
         events_run E es (db_abs T sm) (db_abs T (ts_sm bs'))))"
      by (rule gen_returnsE [OF halves [OF tp_execute(2-4)], where g = g])
    then have "gen_returns (gfold (make_call T E ?b) ys (second_state f2 bs)) (\<lambda>bs'.
         tpcc_ok T E m (ts_sm bs') \<and> same_static (db_abs T sm) (db_abs T (ts_sm bs')) \<and>
         events_run E es (db_abs T sm) (db_abs T (ts_sm bs')))"
      using tp_execute(5-7) by auto
    then show ?thesis using tp_execute(1) by (elim gen_returnsE [where g = g1]) auto
  qed
qed

lemma tpcc_batch_exists:
  fixes E :: "'g tpcc_env"
  assumes env: "env_ok E" and K: "0 < kParallelism (env_cfg E)" and c: "closes es es'"
    and ok: "tpcc_ok T E (length es + m) sm" and valid: "\<forall>e \<in> set es. event_valid e (db_abs T sm)"
  shows "\<exists>r. tpcc_processBatch T E (tpcc_batch_of es') sm g r"
proof -
  let ?b = "tpcc_batch_of es'"
  obtain v where v: "batch_ready E m es es' (db_abs T sm) v" by (rule ready_of_ok [OF env K c ok valid])
  obtain f where f: "fold_res (first_fill E) (tpcc_batch_params ?b) (empty_fill (env_cfg E)) = Inr f" by (rule first_loop [OF v])
  let ?n = "[[], [], []] :: tpcc_call list list"
  have split: "pay_split ?b (pay_threads ?b) ?n ?n" by (simp add: pay_split_def pay_threads_def Let_def)
  obtain xs where xs: "schedule_a f (pay_threads ?b) xs" using schedules_exist(1) by blast
  show ?thesis
  proof (cases "gfold (make_call T E ?b) xs (tpcc_init_state ?b f sm) g")
    case (Inl e)
    then show ?thesis using tp_first_error [OF f split xs] by blast
  next
    case (Inr p)
    obtain bs g1 where p: "p = (bs, g1)" by (cases p)
    show ?thesis
    proof (cases "fold_res (second_fill E (ts_no_o_ids bs)) (tpcc_batch_params ?b) (empty_fill2 (env_cfg E))")
      case (Inl e)
      then show ?thesis using tp_second_fill_error [OF f split xs] Inr p by blast
    next
      case f2: (Inr f2)
      obtain ys where "schedule_b f f2 ?n ?n ys" using schedules_exist(2) by blast
      then show ?thesis using tp_execute [OF f split xs _ f2] Inr p by blast
    qed
  qed
qed

section \<open>start\<close>

lemma tpcc_collect_spec:
  assumes "\<forall>e \<in> fst ` set q. e \<noteq> ENDEXECUTION"
  shows "tpcc_collect (q @ (ENDEXECUTION, tm) # rest) b cnt =
      Inr (fold tpcc_add_event (map fst q @ [ENDEXECUTION]) b, True, cnt + length q, rest) \<or>
    (\<exists>q1 q2. q = q1 @ q2 \<and> q1 \<noteq> [] \<and> tpcc_collect (q @ (ENDEXECUTION, tm) # rest) b cnt =
      Inr (fold tpcc_add_event (map fst q1) b, False, cnt + length q1, q2 @ (ENDEXECUTION, tm) # rest))"
  using assms
proof (induction q arbitrary: b cnt)
  case (Cons et q)
  obtain e timeout where et: "et = (e, timeout)" by (cases et)
  have e: "e \<noteq> ENDEXECUTION" using Cons.prems et by simp
  show ?case
  proof (cases timeout)
    case True
    then show ?thesis using e et by (intro disjI2 exI [of _ "[et]"] exI [of _ q]) simp
  next
    case False
    have step: "tpcc_collect ((et # q) @ (ENDEXECUTION, tm) # rest) b cnt =
        tpcc_collect (q @ (ENDEXECUTION, tm) # rest) (tpcc_add_event e b) (cnt + 1)"
      using False e et by simp
    have "\<forall>e \<in> fst ` set q. e \<noteq> ENDEXECUTION" using Cons.prems by simp
    from Cons.IH [OF this, of "tpcc_add_event e b" "cnt + 1"] show ?thesis
    proof (elim disjE exE conjE)
      fix q1 q2 assume q: "q = q1 @ q2" "q1 \<noteq> []" "tpcc_collect (q @ (ENDEXECUTION, tm) # rest) (tpcc_add_event e b) (cnt + 1) =
          Inr (fold tpcc_add_event (map fst q1) (tpcc_add_event e b), False, cnt + 1 + length q1, q2 @ (ENDEXECUTION, tm) # rest)"
      then show ?thesis unfolding step by (intro disjI2 exI [of _ "et # q1"] exI [of _ q2]) (simp add: et)
    qed (use step in \<open>simp add: et\<close>)
  qed
qed simp

lemma tpcc_collect_of:
  assumes "\<forall>e \<in> fst ` set q. e \<noteq> ENDEXECUTION"
  obtains (stop) "tpcc_collect (q @ (ENDEXECUTION, tm) # rest) tpcc_empty_batch 0 =
      Inr (tpcc_batch_of (map fst q @ [ENDEXECUTION]), True, length q, rest)"
  | (again) q1 q2 where "q = q1 @ q2" "q1 \<noteq> []" "tpcc_collect (q @ (ENDEXECUTION, tm) # rest) tpcc_empty_batch 0 =
      Inr (tpcc_batch_of (map fst q1), False, length q1, q2 @ (ENDEXECUTION, tm) # rest)"
  using tpcc_collect_spec [OF assms, of tm rest tpcc_empty_batch 0] unfolding tpcc_batch_of_def by auto

text \<open>What every run of the batch processor does, whatever the schedules and the timer.\<close>

definition tpcc_batch_result ::
  "('q, 'h, 'm) tbb \<Rightarrow> 'g tpcc_env \<Rightarrow> ('q, 'h, 'm) storage_manager \<Rightarrow> tpcc_event list \<Rightarrow> nat \<Rightarrow> (tpcc_event \<times> bool) list \<Rightarrow>
   ((('q, 'h, 'm) storage_manager \<times> nat \<times> (tpcc_event \<times> bool) list) \<times> 'g) result \<Rightarrow> bool" where
  "tpcc_batch_result T E sm es n rest r \<longleftrightarrow>
     (\<exists>sm' g'. r = Inr ((sm', n + length es, rest), g') \<and> tpcc_ok T E 0 sm' \<and>
        same_static (db_abs T sm) (db_abs T sm') \<and> events_run E es (db_abs T sm) (db_abs T sm'))"

lemma events_run_append:
  assumes "events_run E es db db1" "events_run E es' db1 db'"
  shows "events_run E (es @ es') db db'"
proof -
  have "events_step E es db db1 \<Longrightarrow> events_step E es' db1 db' \<Longrightarrow> events_step E (es @ es') db db'"
    by (induction es arbitrary: db) auto
  then show ?thesis using assms by (simp add: events_run_def)
qed

lemma events_valid_ne: "\<forall>e \<in> S. event_valid e db \<Longrightarrow> \<forall>e \<in> S. e \<noteq> ENDEXECUTION"
  by auto

lemma tpcc_start_spec:
  fixes E :: "'g tpcc_env"
  assumes env: "env_ok E" and K: "0 < kParallelism (env_cfg E)" and run: "tpcc_batch_start T E queue n sm g r"
    and "queue = q @ (ENDEXECUTION, tm) # rest" "tpcc_ok T E (length q) sm" "\<forall>e \<in> fst ` set q. event_valid e (db_abs T sm)"
  shows "tpcc_batch_result T E sm (map fst q) n rest r"
  using run assms(4-6)
proof (induction arbitrary: q rule: tpcc_batch_start.induct)
  case (tbs_wait queue e n sm g)
  show ?case
    using tbs_wait(1,2)
    by (cases rule: tpcc_collect_of [OF events_valid_ne [OF tbs_wait.prems(3)], where tm = tm and rest = rest]) auto
next
  case (tbs_error queue b stop cnt rest' sm g e n)
  obtain es es' m where b: "b = tpcc_batch_of es'" "closes es es'" "length q = length es + m" "set es \<subseteq> fst ` set q"
  proof (cases rule: tpcc_collect_of [OF events_valid_ne [OF tbs_error.prems(3)], where tm = tm and rest = rest])
    case 1
    then show thesis using that [of "map fst q @ [ENDEXECUTION]" "map fst q" 0] tbs_error(1,3) by (auto simp: closes_def)
  next
    case (2 q1 q2)
    then show thesis using that [of "map fst q1" "map fst q1" "length q2"] tbs_error(1,3) by (auto simp: closes_def)
  qed
  have "tpcc_ok T E (length es + m) sm" "\<forall>e \<in> set es. event_valid e (db_abs T sm)" using tbs_error.prems(2,3) b(3,4) by auto
  from tpcc_batch_serial [OF env K b(2) this] show ?case using tbs_error(2) b(1) by blast
next
  case (tbs_stop queue b cnt rest' sm g sm' g' n)
  have b: "b = tpcc_batch_of (map fst q @ [ENDEXECUTION]) \<and> cnt = length q \<and> rest' = rest"
    using tbs_stop(1,3)
    by (cases rule: tpcc_collect_of [OF events_valid_ne [OF tbs_stop.prems(3)], where tm = tm and rest = rest]) auto
  have c: "closes (map fst q) (map fst q @ [ENDEXECUTION])" by (simp add: closes_def)
  have "tpcc_ok T E (length (map fst q) + 0) sm" "\<forall>e \<in> set (map fst q). event_valid e (db_abs T sm)"
    using tbs_stop.prems(2,3) by simp_all
  from tpcc_batch_serial [OF env K c this, of g "Inr (sm', g')"] tbs_stop(2) b
  show ?case by (simp add: tpcc_batch_result_def)
next
  case (tbs_next queue b cnt rest' sm g sm' g' n r)
  obtain q1 q2 where q: "q = q1 @ q2" "b = tpcc_batch_of (map fst q1)" "cnt = length q1" "rest' = q2 @ (ENDEXECUTION, tm) # rest"
    using tbs_next(1,5)
    by (cases rule: tpcc_collect_of [OF events_valid_ne [OF tbs_next.prems(3)], where tm = tm and rest = rest]) auto
  have c: "closes (map fst q1) (map fst q1)" by (simp add: closes_def)
  have "tpcc_ok T E (length (map fst q1) + length q2) sm" "\<forall>e \<in> set (map fst q1). event_valid e (db_abs T sm)"
    using tbs_next.prems(2,3) q(1) by simp_all
  from tpcc_batch_serial [OF env K c this, of g "Inr (sm', g')"] tbs_next(2) q(2)
  have sm': "tpcc_ok T E (length q2) sm'" "same_static (db_abs T sm) (db_abs T sm')"
    "events_run E (map fst q1) (db_abs T sm) (db_abs T sm')"
    by simp_all
  have "\<forall>e \<in> fst ` set q2. event_valid e (db_abs T sm')"
    using tbs_next.prems(3) q(1) event_valid_static [OF sm'(2)] by auto
  from tbs_next.IH [OF q(4) sm'(1) this] show ?case
    using same_static_trans [OF sm'(2)] events_run_append [OF sm'(3)] q(1,3) by (fastforce simp: tpcc_batch_result_def)
qed

lemma tpcc_start_exists:
  fixes E :: "'g tpcc_env"
  assumes env: "env_ok E" and K: "0 < kParallelism (env_cfg E)"
    and "tpcc_ok T E (length q) sm" "\<forall>e \<in> fst ` set q. event_valid e (db_abs T sm)"
  shows "\<exists>r. tpcc_batch_start T E (q @ (ENDEXECUTION, tm) # rest) n sm g r"
  using assms(3,4)
proof (induction "length q" arbitrary: q n sm g rule: less_induct)
  case less
  from events_valid_ne [OF less.prems(2)] show ?case
  proof (cases rule: tpcc_collect_of [where tm = tm and rest = rest])
    case stop
    have c: "closes (map fst q) (map fst q @ [ENDEXECUTION])" by (simp add: closes_def)
    have "tpcc_ok T E (length (map fst q) + 0) sm" "\<forall>e \<in> set (map fst q). event_valid e (db_abs T sm)"
      using less.prems by simp_all
    from tpcc_batch_exists [OF env K c this] obtain r where r: "tpcc_processBatch T E (tpcc_batch_of (map fst q @ [ENDEXECUTION])) sm g r"
      by blast
    show ?thesis
    proof (cases r)
      case (Inl e)
      have "tpcc_batch_start T E (q @ (ENDEXECUTION, tm) # rest) n sm g (Inl e)"
        by (rule tbs_error [OF stop]) (use r Inl in simp)
      then show ?thesis by blast
    next
      case (Inr p)
      obtain sm' g' where p: "p = (sm', g')" by (cases p)
      have "tpcc_batch_start T E (q @ (ENDEXECUTION, tm) # rest) n sm g (Inr ((sm', n + length q, rest), g'))"
        by (rule tbs_stop [OF stop]) (use r Inr p in simp)
      then show ?thesis by blast
    qed
  next
    case (again q1 q2)
    have c: "closes (map fst q1) (map fst q1)" by (simp add: closes_def)
    have ok: "tpcc_ok T E (length (map fst q1) + length q2) sm" "\<forall>e \<in> set (map fst q1). event_valid e (db_abs T sm)"
      using less.prems again(1) by simp_all
    obtain r where r: "tpcc_processBatch T E (tpcc_batch_of (map fst q1)) sm g r" using tpcc_batch_exists [OF env K c ok] by blast
    obtain sm' g' where sm': "r = Inr (sm', g')" "tpcc_ok T E (length q2) sm'" "same_static (db_abs T sm) (db_abs T sm')"
      using tpcc_batch_serial [OF env K c ok r] by blast
    have "\<forall>e \<in> fst ` set q2. event_valid e (db_abs T sm')"
      using less.prems(2) again(1) event_valid_static [OF sm'(3)] by auto
    then obtain r' where "tpcc_batch_start T E (q2 @ (ENDEXECUTION, tm) # rest) (n + length q1) sm' g' r'"
      using less.hyps [of q2 sm' "n + length q1" g'] sm'(2) again(1,2) by auto
    then have "tpcc_batch_start T E (q @ (ENDEXECUTION, tm) # rest) n sm g r'"
      by (intro tbs_next [OF again(3) r [unfolded sm'(1)]])
    then show ?thesis by blast
  qed
qed

end
