(* ===== verification/TpccBatchTables.thy ===== *)
theory TpccBatchTables
  imports TpccBatchReady
begin

text \<open>
  When a call may count as one step. \<open>BaseTable::deleteRecord\<close> takes no mutex, so a thread that deletes from a table
  must not meet another one that deletes from it or inserts into it. The only records the batch processor
  (benchmark/tpcc/TpccBatchProcessor.cc) deletes are new orders. Here: when the number of threads divides the number of
  partitions, no two threads that run at the same time as the deliveries change the same \<open>NEW_ORDER\<close> table.
\<close>

section \<open>Which tables a call changes\<close>

definition changes_table ::
  "('q, 'h, 'm) tbb \<Rightarrow> 'g tpcc_env \<Rightarrow> tpcc_batch \<Rightarrow> tpcc_call \<Rightarrow> nat \<Rightarrow> bool" where
  "changes_table T E b x i \<longleftrightarrow>
     (\<exists>(bs :: ('q, 'h, 'm) tpcc_state) g bs' g'. make_call T E b x bs g = Inr (bs', g') \<and> ts_sm bs' i \<noteq> ts_sm bs i)"

lemma tpcc_with_table_frame: "with_table i f sm = Inr sm' \<Longrightarrow> j \<noteq> i \<Longrightarrow> sm' j = sm j"
  by (auto simp: with_table_def bnd_eq_Inr)

lemma updates_frame:
  "sm_insertRecord T i rec sm = Inr sm' \<Longrightarrow> j \<noteq> i \<Longrightarrow> sm' j = sm j"
  "sm_deleteRecord T i r sm = Inr sm' \<Longrightarrow> j \<noteq> i \<Longrightarrow> sm' j = sm j"
  "sm_updateRecord_one i r p sm = Inr sm' \<Longrightarrow> j \<noteq> i \<Longrightarrow> sm' j = sm j"
  "sm_updateRecord i r ps sm = Inr sm' \<Longrightarrow> j \<noteq> i \<Longrightarrow> sm' j = sm j"
  "sm_updateRecords_one i rs k p sm = Inr sm' \<Longrightarrow> j \<noteq> i \<Longrightarrow> sm' j = sm j"
  unfolding sm_insertRecord_def sm_deleteRecord_def sm_updateRecord_one_def sm_updateRecord_def sm_updateRecords_one_def
  by (erule (1) tpcc_with_table_frame)+

lemma fold_res_frame:
  assumes "\<And>x s s'. f x s = Inr s' \<Longrightarrow> P s' = P s" "fold_res f xs s = Inr s'"
  shows "P s' = P s"
  using assms(2) by (induction xs arbitrary: s) (auto simp: bnd_eq_Inr dest!: assms(1))

section \<open>The calls that change a table of new orders\<close>

lemma sub_transactions_frame:
  assumes parts: "parts_ok E" and i: "new_order_table i"
  shows "neworderSubTxn1 T p sm = Inr (v1, sm') \<Longrightarrow> sm' i = sm i"
    "neworderSubTxn2 T E p o_id sm = Inr sm' \<Longrightarrow> sm' i = sm i"
    "neworderSubTxn4Single T p k sm = Inr (v4, sm') \<Longrightarrow> sm' i = sm i"
    "paymentSubTxn1 T E pp sm = Inr sm' \<Longrightarrow> sm' i = sm i"
    "paymentSubTxn2 T E pp sm = Inr sm' \<Longrightarrow> sm' i = sm i"
    "paymentSubTxn4 T E pp sm = Inr sm' \<Longrightarrow> sm' i = sm i"
    "deliverySubTxn3Single T E dp d o_id sm = Inr (v5, sm') \<Longrightarrow> sm' i = sm i"
    "deliverySubTxn4Single T E dp d am c_id sm = Inr sm' \<Longrightarrow> sm' i = sm i"
proof -
  have off: "tpcc_offset E w d = Inr (district_part E w d)" for w d
    using parts by (simp add: tpcc_offset_eq parts_ok_def)
  have ne: "i \<noteq> DISTRICT_TABLE_ID" "i \<noteq> STOCK_TABLE_ID" "i \<noteq> WAREHOUSE_TABLE_ID" "i \<noteq> CUSTOMER_TABLE_ID"
    "i \<noteq> ORDER_TABLE_ID + district_part E w d" for w d
    using i part_kinds(6) [OF parts_okD [OF parts]] whole_kinds by (auto simp: row_table_def)
  note frame = updates_frame(1,3,4) [OF _ ne(1)] updates_frame(1,3,4) [OF _ ne(2)] updates_frame(1,3,4) [OF _ ne(3)]
    updates_frame(1,3,4) [OF _ ne(4)] updates_frame(1,3,4) [OF _ ne(5)]
  show "neworderSubTxn1 T p sm = Inr (v1, sm') \<Longrightarrow> sm' i = sm i"
    by (auto simp: neworderSubTxn1_def bnd_eq_Inr Let_def dest: frame)
  show "neworderSubTxn2 T E p o_id sm = Inr sm' \<Longrightarrow> sm' i = sm i"
    by (auto simp: neworderSubTxn2_def bnd_eq_Inr Let_def off dest: frame)
  show "neworderSubTxn4Single T p k sm = Inr (v4, sm') \<Longrightarrow> sm' i = sm i"
    by (auto simp: neworderSubTxn4Single_def bnd_eq_Inr Let_def split: if_splits dest!: frame)
  show "paymentSubTxn1 T E pp sm = Inr sm' \<Longrightarrow> sm' i = sm i"
    by (auto simp: paymentSubTxn1_def bnd_eq_Inr Let_def dest: frame)
  show "paymentSubTxn2 T E pp sm = Inr sm' \<Longrightarrow> sm' i = sm i"
    by (auto simp: paymentSubTxn2_def bnd_eq_Inr Let_def dest: frame)
  show "paymentSubTxn4 T E pp sm = Inr sm' \<Longrightarrow> sm' i = sm i"
    by (auto simp: paymentSubTxn4_def bnd_eq_Inr Let_def dest: frame)
  show "deliverySubTxn3Single T E dp d o_id sm = Inr (v5, sm') \<Longrightarrow> sm' i = sm i"
    by (auto simp: deliverySubTxn3Single_def bnd_eq_Inr Let_def off dest: frame)
  show "deliverySubTxn4Single T E dp d am c_id sm = Inr sm' \<Longrightarrow> sm' i = sm i"
    by (auto simp: deliverySubTxn4Single_def bnd_eq_Inr Let_def dest: frame)
qed

lemma loops_frame:
  assumes parts: "parts_ok E" and i: "new_order_table i"
  shows "neworderSubTxn6 T E p o_id ss as sm = Inr sm' \<Longrightarrow> sm' i = sm i"
    "deliverySubTxn2Single T E dp d o_id sm = Inr (v2, sm') \<Longrightarrow> sm' i = sm i"
proof -
  have off: "tpcc_offset E w d = Inr (district_part E w d)" for w d
    using parts by (simp add: tpcc_offset_eq parts_ok_def)
  have ne: "i \<noteq> ORDER_LINE_TABLE_ID + district_part E w d" for w d
    using i part_kinds(5) [OF parts_okD [OF parts]] by auto
  show "neworderSubTxn6 T E p o_id ss as sm = Inr sm' \<Longrightarrow> sm' i = sm i"
    unfolding neworderSubTxn6_def
    by (erule fold_res_frame [where P = "\<lambda>sm. sm i", rotated])
      (auto simp: bnd_eq_Inr Let_def off dest: updates_frame(1) [OF _ ne])
  show "deliverySubTxn2Single T E dp d o_id sm = Inr (v2, sm') \<Longrightarrow> sm' i = sm i"
    unfolding deliverySubTxn2Single_def
    by (auto simp: bnd_eq_Inr off dest: updates_frame(5) [OF _ ne]
        dest!: fold_res_frame [where P = "\<lambda>(am, sm). sm i", rotated])
qed

lemma new_order_calls_frame:
  assumes parts: "parts_ok E" and i: "new_order_table i"
  shows "neworderSubTxn3 T E p o_id sm = Inr sm' \<Longrightarrow>
      i \<noteq> NEW_ORDER_TABLE_ID + district_part E (nop_w_id p) (nop_d_id p) \<Longrightarrow> sm' i = sm i"
    "deliverySubTxn1Single T E dp d o_id sm = Inr (v1, sm') \<Longrightarrow>
      i \<noteq> NEW_ORDER_TABLE_ID + district_part E (del_w_id dp) d \<Longrightarrow> sm' i = sm i"
proof -
  have off: "tpcc_offset E w d = Inr (district_part E w d)" for w d
    using parts by (simp add: tpcc_offset_eq parts_ok_def)
  have ne: "i \<noteq> DISTRICT_NEW_ORDER_TABLE_ID" using i whole_kinds by auto
  show "neworderSubTxn3 T E p o_id sm = Inr sm' \<Longrightarrow>
      i \<noteq> NEW_ORDER_TABLE_ID + district_part E (nop_w_id p) (nop_d_id p) \<Longrightarrow> sm' i = sm i"
    by (auto simp: neworderSubTxn3_def bnd_eq_Inr off dest: updates_frame(1))
  show "deliverySubTxn1Single T E dp d o_id sm = Inr (v1, sm') \<Longrightarrow>
      i \<noteq> NEW_ORDER_TABLE_ID + district_part E (del_w_id dp) d \<Longrightarrow> sm' i = sm i"
    by (auto simp: deliverySubTxn1Single_def bnd_eq_Inr off Let_def split: if_splits
        dest!: updates_frame(2) updates_frame(3) [OF _ ne])
qed

lemma payment_history_frame:
  assumes "new_order_table i" "paymentSubTxn3 T E p sm g = Inr (sm', g')"
  shows "sm' i = sm i"
proof -
  have ne: "i \<noteq> HISTORY_TABLE_ID" using assms(1) by (auto simp: new_order_table_def tpcc_table_ids)
  show ?thesis
    using assms(2) by (auto simp: paymentSubTxn3_def gbnd_def glift_def bnd_eq_Inr split: sum.splits prod.splits
        dest: updates_frame(1) [OF _ ne])
qed

text \<open>The table of new orders a call may change: the one of its district.\<close>

fun touched_new_orders :: "'g tpcc_env \<Rightarrow> tpcc_batch \<Rightarrow> tpcc_call \<Rightarrow> nat option" where
  "touched_new_orders E b (No3 n) = Some (NEW_ORDER_TABLE_ID + district_part E (nop_w_id (no_at b n)) (nop_d_id (no_at b n)))"
| "touched_new_orders E b (Del1 q d) = Some (NEW_ORDER_TABLE_ID + district_part E (del_w_id (del_at b q)) d)"
| "touched_new_orders E b x = None"

lemma changes_new_orders:
  assumes parts: "parts_ok E" and i: "new_order_table i" and c: "changes_table T E b x i"
  shows "touched_new_orders E b x = Some i"
proof -
  obtain bs g bs' g' where r: "make_call T E b x bs g = Inr (bs', g')" "ts_sm bs' i \<noteq> ts_sm bs i"
    using c unfolding changes_table_def by blast
  note frames = sub_transactions_frame [OF parts i] loops_frame [OF parts i] payment_history_frame [OF i]
    new_order_calls_frame [OF parts i]
  show ?thesis
    using r
    by (cases x)
      (auto simp: make_call_def glift_def gbnd_def gret_def new_sm_def get2_def bnd_eq_Inr vec_at_def split: if_splits sum.splits prod.splits
        dest: frames)
qed

section \<open>Threads on different tables\<close>

text \<open>All threads of the first half of a batch, among them those that run while the deliveries delete new orders.\<close>

definition first_half_threads :: "tpcc_fill \<Rightarrow> tpcc_batch \<Rightarrow> tpcc_call list list" where
  "first_half_threads f b = no12_threads f @ conflict_threads f @ no4_threads f @ no5_threads f @ pay_threads b"

definition new_orders_separate ::
  "('q, 'h, 'm) tbb \<Rightarrow> 'g tpcc_env \<Rightarrow> tpcc_event list \<Rightarrow> bool" where
  "new_orders_separate T E es \<longleftrightarrow>
     (\<forall>f. fold_res (first_fill E) es (empty_fill (env_cfg E)) = Inr f \<longrightarrow>
        (let ths = first_half_threads f (tpcc_batch_of es) in
         \<forall>j < length ths. \<forall>j' < length ths. \<forall>x \<in> set (ths ! j). \<forall>y \<in> set (ths ! j'). \<forall>i.
           j \<noteq> j' \<and> new_order_table i \<and> changes_table T E (tpcc_batch_of es) x i \<longrightarrow>
           \<not> changes_table T E (tpcc_batch_of es) y i))"

lemma same_part_same_bucket:
  assumes "kParallelism (env_cfg E) dvd partitions (env_cfg E)" "district_part E w d = district_part E w' d'"
  shows "district_offset E w d mod kParallelism (env_cfg E) = district_offset E w' d' mod kParallelism (env_cfg E)"
proof (cases "kPartition (env_cfg E)")
  case True
  then have dvd: "kParallelism (env_cfg E) dvd kPartitionCnt (env_cfg E)" using assms(1) by (simp add: partitions_def)
  have "district_offset E w d mod kPartitionCnt (env_cfg E) = district_offset E w' d' mod kPartitionCnt (env_cfg E)"
    using assms(2) True by (simp add: district_part_def district_offset_def)
  then have "district_offset E w d mod kPartitionCnt (env_cfg E) mod kParallelism (env_cfg E) =
      district_offset E w' d' mod kPartitionCnt (env_cfg E) mod kParallelism (env_cfg E)" by (rule arg_cong)
  then show ?thesis by (simp only: mod_mod_cancel [OF dvd])
next
  case False
  then show ?thesis using assms(1) by (simp add: partitions_def)
qed

lemma touched_bucket:
  assumes "kParallelism (env_cfg E) dvd partitions (env_cfg E)"
    and "touched_new_orders E b x = Some i" "touched_new_orders E b y = Some i"
  shows "call_bucket E b x = call_bucket E b y"
  using assms(2,3)
  by (cases x; cases y) (auto simp: no_bucket_def del_bucket_def intro!: same_part_same_bucket [OF assms(1)])

lemma threads_apart:
  assumes dvd: "kParallelism (env_cfg E) dvd partitions (env_cfg E)"
    and c: "conflict_threads f = threads_of E b cs FConflict"
    and ths: "ths = first_half_threads f b" "j < length ths" "j' < length ths"
    and x: "x \<in> set (ths ! j)" "y \<in> set (ths ! j')" "touched_new_orders E b x = Some i" "touched_new_orders E b y = Some i"
  shows "j = j'"
proof -
  let ?n = "length (no12_threads f)"
  have pos: "?n \<le> k \<and> k - ?n < length (conflict_threads f) \<and> ths ! k = conflict_threads f ! (k - ?n)"
    if "k < length ths" "z \<in> set (ths ! k)" "touched_new_orders E b z = Some i" for k z
  proof -
    let ?rest = "no4_threads f @ no5_threads f @ pay_threads b"
    have no12: "touched_new_orders E b z = None" if "th \<in> set (no12_threads f)" "z \<in> set th" for th z
      using that by (auto simp: no12_threads_def)
    have rest: "touched_new_orders E b z = None" if "th \<in> set ?rest" "z \<in> set th" for th z
      using that by (auto simp: no4_threads_def no5_threads_def pay_threads_def Let_def)
    have split: "ths = no12_threads f @ conflict_threads f @ ?rest" by (simp add: ths(1) first_half_threads_def)
    have "\<not> k < ?n"
    proof
      assume k: "k < ?n"
      then have "ths ! k = no12_threads f ! k" by (simp add: split nth_append)
      then show False using no12 [of "ths ! k" z] that(2,3) k by simp
    qed
    moreover have "k - ?n < length (conflict_threads f)"
    proof (rule ccontr)
      let ?k = "k - ?n - length (conflict_threads f)"
      assume no: "\<not> k - ?n < length (conflict_threads f)"
      then have "ths ! k = ?rest ! ?k" using \<open>\<not> k < ?n\<close> unfolding split by (simp only: nth_append if_False)
      moreover have "?k < length ?rest"
        using that(1) no \<open>\<not> k < ?n\<close> unfolding split length_append by arith
      ultimately have "ths ! k \<in> set ?rest" by (simp only: nth_mem)
      then show False using rest [of "ths ! k" z] that(2,3) by simp
    qed
    ultimately show ?thesis unfolding split by (simp add: nth_append)
  qed
  note jx = pos [OF ths(2) x(1,3)] and jy = pos [OF ths(3) x(2,4)]
  have "call_bucket E b x = j - ?n" "call_bucket E b y = j' - ?n"
    using jx jy x(1,2) unfolding c by (auto simp: threads_of_def thread_of_def in_thread_def)
  then show ?thesis using touched_bucket [OF dvd x(3,4)] jx jy by linarith
qed

lemma batch_new_orders_separate:
  fixes T :: "('q, 'h, 'm) tbb" and E :: "'g tpcc_env"
  assumes K: "0 < kParallelism (env_cfg E)" "kParallelism (env_cfg E) dvd partitions (env_cfg E)" and parts: "parts_ok E"
    and es: "\<forall>p \<in> set (orders_of es). length (nop_i_w_ids p) = length (nop_i_ids p)"
  shows "new_orders_separate T E es"
  unfolding new_orders_separate_def Let_def
proof (intro allI impI ballI)
  fix f j j' x y i
  let ?b = "tpcc_batch_of es" and ?ths = "first_half_threads f (tpcc_batch_of es)"
  assume f: "fold_res (first_fill E) es (empty_fill (env_cfg E)) = Inr f"
  have bk: "bkts_ok E (empty_fill (env_cfg E))" by (simp add: bkts_ok_def empty_fill_def)
  have at: "params_at ?b es (f_new_order_pos (empty_fill (env_cfg E))) (f_delivery_pos (empty_fill (env_cfg E))) 0"
    by (simp add: empty_fill_def params_at_batch)
  obtain cs where "fills E ?b (empty_fill (env_cfg E)) cs f"
    using first_fill_all [OF K(1) bk at es] f by auto
  then have c: "conflict_threads f = threads_of E ?b cs FConflict" by (rule first_threads)
  assume j: "j < length ?ths" "j' < length ?ths" "x \<in> set (?ths ! j)" "y \<in> set (?ths ! j')"
  assume a: "j \<noteq> j' \<and> new_order_table i \<and> changes_table T E ?b x i"
  show "\<not> changes_table T E ?b y i"
  proof
    assume "changes_table T E ?b y i"
    then have "touched_new_orders E ?b y = Some i" using changes_new_orders [OF parts] a by blast
    moreover have "touched_new_orders E ?b x = Some i" using changes_new_orders [OF parts] a by blast
    ultimately show False using threads_apart [OF K(2) c refl j] a by blast
  qed
qed

end
