(* ===== verification/TpccBenchmark.thy ===== *)
theory TpccBenchmark
  imports TpccProperties TpccBatchExec TpccBatchTables
begin

text \<open>
  The TPC-C benchmark as a whole, and what it does at its limits: the outcome of the main program
  (benchmark/tpcc/TpccMain.cc) and of the batch processors, the database its populator makes, the errors of
  transactions whose records are missing, the read past a local variable, and the random generator.
\<close>

section \<open>The batch processors\<close>

lemma tpcc_batch_outcome:
  fixes E :: "'g tpcc_env"
  assumes "env_ok E" "0 < kParallelism (env_cfg E)" "tpcc_ok T E (length q) sm" "\<forall>e \<in> fst ` set q. event_valid e (db_abs T sm)"
    and "tpcc_batch_start T E (q @ (ENDEXECUTION, tm) # rest) 0 sm g r"
  obtains sm' g' where "r = Inr ((sm', length q, rest), g')" "tpcc_ok T E 0 sm'"
    "events_step E (map fst q) (db_abs T sm) (db_abs T sm')"
    "stock_within (db_abs T sm) \<Longrightarrow> \<forall>e \<in> fst ` set q. quantities_ok e \<Longrightarrow> stock_within (db_abs T sm')"
  using tpcc_start_spec [OF assms(1,2,5) refl assms(3,4)] by (auto simp: tpcc_batch_result_def events_run_def)

lemma orders_of_valid:
  assumes "\<forall>e \<in> set es. e = ENDEXECUTION \<or> event_valid e db"
  shows "\<forall>p \<in> set (orders_of es). length (nop_i_w_ids p) = length (nop_i_ids p)"
  using assms
proof (induction es)
  case (Cons e es)
  then show ?case by (cases e) (auto simp: order_valid_def lists_agree_def order_length_def)
qed simp

text \<open>C4: The batch processors of TPC-C are strictly serializable when the number of threads divides the number of
  partitions. Then no two threads of a batch that run while the deliveries delete new orders change the same
  \<open>NEW_ORDER\<close> table, the only tables records are deleted from; with this a call of a sub-transaction
  counts as one atomic step (an assumption of the model: with another number of threads two of them may delete
  from and insert into one table at the same time, the race of the storage engine). Whatever the timer cuts
  the queue into and in whatever order the calls of the threads of a batch are interleaved, a queue of valid
  transactions is executed up to its end marker without an error, and the database is one the transactions,
  executed one after the other in the order of the queue, can lead to.\<close>

theorem tpcc_batch_serializable:
  fixes T :: "('q, 'h, 'm) tbb" and E :: "'g tpcc_env"
  assumes "env_ok E" "0 < kParallelism (env_cfg E)" "kParallelism (env_cfg E) dvd partitions (env_cfg E)"
    and "tpcc_inv T E sm" "consistent E (db_abs T sm)"
    and "has_room (length q) (db_abs T sm)" "\<forall>e \<in> fst ` set q. event_valid e (db_abs T sm)"
  shows "(\<forall>es. set es \<subseteq> insert ENDEXECUTION (fst ` set q) \<longrightarrow> new_orders_separate T E es) \<and>
    (\<exists>r. tpcc_batch_start T E (q @ (ENDEXECUTION, tm) # rest) 0 sm g r) \<and>
    (\<forall>r. tpcc_batch_start T E (q @ (ENDEXECUTION, tm) # rest) 0 sm g r \<longrightarrow>
       (\<exists>sm' g'. r = Inr ((sm', length q, rest), g') \<and> tpcc_inv T E sm' \<and> consistent E (db_abs T sm') \<and>
          events_step E (map fst q) (db_abs T sm) (db_abs T sm')))"
proof -
  have ok: "tpcc_ok T E (length q) sm" using assms(4-6) by (simp add: tpcc_ok_def)
  have "\<exists>sm' g'. r = Inr ((sm', length q, rest), g') \<and> tpcc_inv T E sm' \<and> consistent E (db_abs T sm') \<and>
      events_step E (map fst q) (db_abs T sm) (db_abs T sm')"
    if "tpcc_batch_start T E (q @ (ENDEXECUTION, tm) # rest) 0 sm g r" for r
    by (rule tpcc_batch_outcome [OF assms(1,2) ok assms(7) that]) (auto simp: tpcc_ok_def)
  moreover have "new_orders_separate T E es" if "set es \<subseteq> insert ENDEXECUTION (fst ` set q)" for es
  proof (rule batch_new_orders_separate [OF assms(2,3)])
    show "parts_ok E" using assms(4) by (simp add: tpcc_inv_def parts_ok_def)
    show "\<forall>p \<in> set (orders_of es). length (nop_i_w_ids p) = length (nop_i_ids p)"
      by (rule orders_of_valid) (use that assms(7) in blast)
  qed
  ultimately show ?thesis using tpcc_start_exists [OF assms(1,2) ok assms(7)] by blast
qed

lemma tpcc_batch_serializable_witness:
  "\<exists>sm es g sm' g'. tpcc_prepare list_tbb tpcc_sample_env tpcc_sample_consts 11 10 0 = Inr ((sm, es @ [ENDEXECUTION]), g) \<and>
    tpcc_batch_start list_tbb tpcc_sample_env (map (\<lambda>e. (e, False)) es @ [(ENDEXECUTION, True)]) 0 sm g (Inr ((sm', 10, []), g')) \<and>
    events_step tpcc_sample_env es (db_abs list_tbb sm) (db_abs list_tbb sm')"
proof -
  obtain sm es g where s: "tpcc_prepare list_tbb tpcc_sample_env tpcc_sample_consts 11 10 0 = Inr ((sm, es @ [ENDEXECUTION]), g)"
    "length es = 10" "tpcc_ok list_tbb tpcc_sample_env 10 sm" "\<forall>e \<in> set es. event_valid e (db_abs list_tbb sm)"
    using tpcc_sample_run by metis
  let ?q = "map (\<lambda>e. (e, False)) es"
  have K: "0 < kParallelism (env_cfg tpcc_sample_env)"
    "kParallelism (env_cfg tpcc_sample_env) dvd partitions (env_cfg tpcc_sample_env)"
    by (simp_all add: tpcc_sample_env_def tpcc_config_def partitions_def)
  have "tpcc_inv list_tbb tpcc_sample_env sm" "consistent tpcc_sample_env (db_abs list_tbb sm)"
    "has_room (length ?q) (db_abs list_tbb sm)" "\<forall>e \<in> fst ` set ?q. event_valid e (db_abs list_tbb sm)"
    using s by (simp_all add: tpcc_ok_def)
  note run = conjunct2 [OF tpcc_batch_serializable [OF tpcc_sample_facts(2) K this, of True "[]" g]]
  then obtain r where r: "tpcc_batch_start list_tbb tpcc_sample_env (?q @ [(ENDEXECUTION, True)]) 0 sm g r" by blast
  with run obtain sm' g' where "r = Inr ((sm', length ?q, []), g')"
    "events_step tpcc_sample_env (map fst ?q) (db_abs list_tbb sm) (db_abs list_tbb sm')"
    by blast
  then show ?thesis using r s(1,2) by (auto simp: comp_def)
qed

section \<open>The main program\<close>

lemma tpcc_populate_returns:
  fixes E :: "'g tpcc_env"
  assumes "tbb_laws T" "rand_fair (env_lib E)" "amounts_laws (env_dbl E)"
    and "env_scale E = TpccScaleParams_unit 10" "env_cfg E = tpcc_config memory parallelism partition_num"
    and "1 \<le> partition_num" "partition_num \<le> 100"
  obtains sm es g2 where "tpcc_populate T E g seeded = Inr ((sm, es @ [ENDEXECUTION]), g2)"
    "length es = TPCC_TRANSACTIONS" "tpcc_ok T E (length es) sm" "stock_within (db_abs T sm)"
    "\<forall>e \<in> set es. event_valid e (db_abs T sm)" "\<forall>e \<in> set es. quantities_ok e"
proof -
  have laws: "rand_laws (env_lib E)" using assms(2) by (simp add: rand_fair_def)
  obtain C g1 where C: "draw_consts (env_lib E) g = Inr (C, g1)" "consts_ok C"
    by (rule gen_returnsE [OF draw_consts_returns [OF laws], of g])
  have ok: "draws_ok E C" using assms(2,3) C(2) by (simp add: draws_ok_def)
  have P: "bench_ok (env_scale E) TPCC_TRANSACTIONS" unfolding assms(4) by (rule TpccScaleParams_10)
  have cap: "TPCC_TRANSACTIONS < TPCC_QUEUE_CAPACITY" by (simp add: TPCC_TRANSACTIONS_def TPCC_QUEUE_CAPACITY_def)
  obtain r g2 where r: "tpcc_prepare T E C TPCC_QUEUE_CAPACITY TPCC_TRANSACTIONS seeded = Inr (r, g2)"
      "case r of (sm, q) \<Rightarrow> \<exists>es. q = es @ [ENDEXECUTION] \<and> length es = TPCC_TRANSACTIONS \<and>
        tpcc_ok T E TPCC_TRANSACTIONS sm \<and> stock_within (db_abs T sm) \<and> (\<forall>e \<in> set es. event_valid e (db_abs T sm) \<and> quantities_ok e)"
    by (rule gen_returnsE [OF tpcc_prepare_returns [OF assms(1) ok tpcc_config_partitions [OF assms(6,7,5)] P cap], of seeded])
  obtain sm q where q: "r = (sm, q)" by (cases r)
  obtain es where es: "q = es @ [ENDEXECUTION]" "length es = TPCC_TRANSACTIONS" "tpcc_ok T E (length es) sm"
      "stock_within (db_abs T sm)" "\<forall>e \<in> set es. event_valid e (db_abs T sm)" "\<forall>e \<in> set es. quantities_ok e"
    using r(2) unfolding q by auto
  have "tpcc_populate T E g seeded = Inr ((sm, es @ [ENDEXECUTION]), g2)"
    using C(1) r(1) by (simp add: tpcc_populate_def q es(1))
  then show ?thesis by (rule that) (rule es)+
qed

lemma tpcc_batch_ends:
  fixes E :: "'g tpcc_env"
  assumes "env_ok E" "0 < kParallelism (env_cfg E)" "tpcc_ok T E (length es) sm" "stock_within (db_abs T sm)"
    and "\<forall>e \<in> set es. event_valid e (db_abs T sm)" "\<forall>e \<in> set es. quantities_ok e"
    and "tpcc_batch_start T E q' 0 sm g r" "map fst q' = es @ [ENDEXECUTION]"
  shows "\<exists>sm g'. r = Inr ((sm, length es, []), g') \<and> tpcc_ok T E 0 sm \<and> stock_within (db_abs T sm)"
proof -
  from assms(8) obtain q1 tm where q1: "q' = q1 @ [(ENDEXECUTION, tm)]" "map fst q1 = es" by (auto simp: map_eq_append_conv)
  have len: "length q1 = length es" and set: "fst ` set q1 = set es" by (simp_all add: q1(2) [symmetric])
  have ok: "tpcc_ok T E (length q1) sm" "\<forall>e \<in> fst ` set q1. event_valid e (db_abs T sm)"
    using assms(3,5) by (simp_all add: len set)
  show ?thesis
    by (rule tpcc_batch_outcome [OF assms(1,2) ok assms(7) [unfolded q1(1)]]) (use assms(4,6) len set in auto)
qed

text \<open>C3: The main program of TPC-C with its ten units and any number of partitions up to the hundred the table numbers
  leave room for ends without an error when \<open>rand\<close> gives every number from time to time: populator
  and source return, the processor executes all two million transactions, and the database is consistent at
  the end, with the quantities in stock between 10 and 100. This is for the serial processor and for the batch
  processors with a number of threads that divides the number of partitions, for every order in which the
  calls of their threads are interleaved; a call of a sub-transaction counts as one atomic step, which is an
  assumption of the model (with other numbers of threads two of them may work on one \<open>NEW_ORDER\<close> table and
  meet the race of \<open>BaseTable::deleteRecord\<close>, which this theorem leaves out).\<close>

theorem tpcc_benchmark:
  fixes E :: "'g tpcc_env"
  assumes "tbb_laws T" "rand_fair (env_lib E)" "amounts_laws (env_dbl E)" "env_ok E"
    and "env_scale E = TpccScaleParams_unit 10" "env_cfg E = tpcc_config memory parallelism partition_num"
    and "1 \<le> partition_num" "partition_num \<le> 100" "processor_no = 0 \<or> 0 < kParallelism (env_cfg E) \<and> kParallelism (env_cfg E) dvd partitions (env_cfg E)"
  shows "(\<exists>r. tpcc_main T E g seeded processor_no r) \<and>
    (\<forall>r. tpcc_main T E g seeded processor_no r \<longrightarrow>
       (\<exists>sm. r = Inr (sm, TPCC_TRANSACTIONS) \<and> tpcc_inv T E sm \<and> consistent E (db_abs T sm) \<and> stock_within (db_abs T sm)))"
proof -
  obtain sm es g2 where prep: "tpcc_populate T E g seeded = Inr ((sm, es @ [ENDEXECUTION]), g2)"
    and es: "length es = TPCC_TRANSACTIONS" "tpcc_ok T E (length es) sm" "stock_within (db_abs T sm)"
      "\<forall>e \<in> set es. event_valid e (db_abs T sm)" "\<forall>e \<in> set es. quantities_ok e"
    by (rule tpcc_populate_returns [OF assms(1-3,5-8)])
  obtain sm' g' where s: "tpcc_serial_start T E (es @ [ENDEXECUTION]) 0 sm g2 = Inr ((sm', length es, []), g')"
      "tpcc_ok T E 0 sm'" "stock_within (db_abs T sm')"
    by (rule tpcc_serial_outcome [OF assms(4) es(2,4), of g2]) (use es(3,5) in blast)
  have "\<exists>r. tpcc_main T E g seeded processor_no r"
  proof (cases "processor_no = 0")
    case True
    then show ?thesis using tpcc_main_serial [OF prep] by blast
  next
    case False
    then have K: "0 < kParallelism (env_cfg E)" using assms(9) by simp
    let ?q = "map (\<lambda>e. (e, False)) es"
    have "tpcc_ok T E (length ?q) sm" "\<forall>e \<in> fst ` set ?q. event_valid e (db_abs T sm)" using es(2,4) by simp_all
    from tpcc_start_exists [OF assms(4) K this, of False "[]" 0 g2]
    obtain r where "tpcc_batch_start T E (?q @ [(ENDEXECUTION, False)]) 0 sm g2 r" by blast
    then have "tpcc_main T E g seeded processor_no (bnd r (\<lambda>((sm, txn_cnt, _), _). Inr (sm, txn_cnt)))"
      by (rule tpcc_main_batch [OF prep False, rotated]) (simp add: comp_def)
    then show ?thesis by blast
  qed
  moreover have "\<exists>sm. r = Inr (sm, TPCC_TRANSACTIONS) \<and> tpcc_inv T E sm \<and> consistent E (db_abs T sm) \<and> stock_within (db_abs T sm)"
    if "tpcc_main T E g seeded processor_no r" for r
    using that
  proof cases
    case (tpcc_main_error e)
    then show ?thesis using prep by simp
  next
    case (tpcc_main_serial sm1 q1 g1)
    then show ?thesis using prep s es(1) by (auto simp: tpcc_ok_def)
  next
    case (tpcc_main_batch sm1 q1 g1 q' r1)
    then have "tpcc_batch_start T E q' 0 sm g2 r1" "map fst q' = es @ [ENDEXECUTION]" using prep by simp_all
    moreover have "0 < kParallelism (env_cfg E)" using assms(9) tpcc_main_batch(3) by simp
    ultimately show ?thesis
      using tpcc_batch_ends [OF assms(4) _ es(2-5), of q' g2 r1] es(1) tpcc_main_batch(1) by (auto simp: tpcc_ok_def)
  qed
  ultimately show ?thesis by blast
qed

lemma tpcc_benchmark_witness:
  "\<exists>sm. tpcc_main list_tbb (tpcc_sample_env\<lparr>env_scale := TpccScaleParams_unit 10\<rparr>) 0 0 1 (Inr (sm, TPCC_TRANSACTIONS)) \<and>
    stock_within (db_abs list_tbb sm)"
proof -
  let ?E = "tpcc_sample_env\<lparr>env_scale := TpccScaleParams_unit 10\<rparr>"
  have "env_ok ?E" using tpcc_sample_facts(2) by (simp add: env_ok_def order_ok_def)
  moreover have "rand_fair (env_lib ?E)" "amounts_laws (env_dbl ?E)"
    using tpcc_sample_facts(3) by (simp_all add: draws_ok_def)
  moreover have "env_cfg ?E = tpcc_config (\<lambda>_. 0) 4 8" by (simp add: tpcc_sample_env_def)
  moreover have "0 < kParallelism (env_cfg ?E) \<and> kParallelism (env_cfg ?E) dvd partitions (env_cfg ?E)"
    by (simp add: tpcc_sample_env_def tpcc_config_def partitions_def)
  ultimately show ?thesis using tpcc_benchmark [OF list_tbb_laws, of ?E "\<lambda>_. 0" 4 8 1 0 0] by auto
qed

section \<open>The populator\<close>

text \<open>C22: The populator returns and loads exactly the records with the keys up to the sizes of the scale: items, warehouses,
  stock, districts, customers and orders, and as new orders the last ones of each district. The database is
  consistent, with the quantities in stock between 10 and 100.\<close>

theorem tpcc_populator_loads:
  assumes "tbb_laws T" "draws_ok E C" "parts_ok E" "scale_ok (env_scale E)" "orders_ok (env_scale E)"
  shows "\<exists>sm g'. TpccPopulator_start T E C StorageManager_new g = Inr (sm, g') \<and>
    tpcc_inv T E sm \<and> consistent E (db_abs T sm) \<and> stock_within (db_abs T sm) \<and>
    (\<forall>w d c i. let in_w = w \<in> upto_int (num_warehouses (env_scale E));
                   in_d = d \<in> upto_int (num_districts_per_warehouse (env_scale E));
                   in_c = c \<in> upto_int (num_customers_per_district (env_scale E));
                   in_i = i \<in> upto_int (num_items (env_scale E)); db = db_abs T sm in
       (db_tab db ITEM_TABLE_ID (wkey [i]) \<noteq> None \<longleftrightarrow> in_i) \<and>
       (db_tab db WAREHOUSE_TABLE_ID (wkey [w]) \<noteq> None \<longleftrightarrow> in_w) \<and>
       (db_tab db STOCK_TABLE_ID (wkey [i, w]) \<noteq> None \<longleftrightarrow> in_w \<and> in_i) \<and>
       (district_at w d db \<noteq> None \<longleftrightarrow> in_w \<and> in_d) \<and>
       (customer_at w d c db \<noteq> None \<longleftrightarrow> in_w \<and> in_d \<and> in_c) \<and>
       (order_at E w d c db \<noteq> None \<longleftrightarrow> in_w \<and> in_d \<and> in_c) \<and>
       (new_at E w d c db \<noteq> None \<longleftrightarrow> in_w \<and> in_d \<and> in_c \<and> first_new (env_scale E) \<le>s c))"
proof -
  obtain sm g' where s: "TpccPopulator_start T E C StorageManager_new g = Inr (sm, g')"
      and l: "loaded T E (first_new (env_scale E)) (num_customers_per_district (env_scale E) + 1)
        (all_keys (first_new (env_scale E)) (env_scale E)) sm"
    by (rule gen_returnsE [OF TpccPopulator_start_loads [OF assms(1-4)], of g])
  show ?thesis
    unfolding Let_def
    by (intro exI conjI allI; rule s loadedD(1) [OF l] loaded_consistent [OF l assms(4,5)] loaded_stock(1) [OF l]
        loaded_views(6,7,8,1,3,4,5) [OF l])
qed

lemma tpcc_populator_loads_witness:
  "\<exists>sm g. TpccPopulator_start list_tbb tpcc_sample_env tpcc_sample_consts StorageManager_new 0 = Inr (sm, g) \<and>
    customer_at 2 10 30 (db_abs list_tbb sm) \<noteq> None \<and> customer_at 2 10 31 (db_abs list_tbb sm) = None"
proof -
  note P = bench_okD [OF tpcc_sample_facts(4)]
  have P': "scale_ok (env_scale tpcc_sample_env)" "orders_ok (env_scale tpcc_sample_env)"
    using P(2,3) by (simp_all add: tpcc_sample_facts(5))
  obtain sm g where s: "TpccPopulator_start list_tbb tpcc_sample_env tpcc_sample_consts StorageManager_new 0 = Inr (sm, g)"
    and c: "customer_at w d c (db_abs list_tbb sm) \<noteq> None \<longleftrightarrow>
      w \<in> upto_int (num_warehouses small_scale) \<and> d \<in> upto_int (num_districts_per_warehouse small_scale) \<and>
      c \<in> upto_int (num_customers_per_district small_scale)" for w d c
    using tpcc_populator_loads [OF list_tbb_laws tpcc_sample_facts(3,1) P', of 0] unfolding Let_def tpcc_sample_facts(5)
    by (elim exE conjE) metis
  have "customer_at 2 10 30 (db_abs list_tbb sm) \<noteq> None"
    unfolding c by (simp add: small_scale_def upto_int_def DISTRICTS_PER_WAREHOUSE_def)
  moreover have "customer_at 2 10 31 (db_abs list_tbb sm) = None"
    using c [of 2 10 31] by (auto simp: small_scale_def upto_int_def)
  ultimately show ?thesis using s by blast
qed

section \<open>Missing records\<close>

lemma missing_warehouse:
  assumes inv: "tpcc_inv T E sm" and none: "db_tab (db_abs T sm) WAREHOUSE_TABLE_ID (wkey [pay_w_id p]) = None"
  shows "paymentSubTxn1 T E p sm = Inl NullPointer"
proof -
  note i = tpcc_invD(1) [OF inv]
  have "sm_selectRecord T WAREHOUSE_TABLE_ID [(0, to_bytes (pay_w_id p))] sm = Inr None"
    using select_missing [OF i tpcc_registry_simps(2), of "[(0, to_bytes (pay_w_id p))]"] none by simp
  then have "sm_selectRecord_one T WAREHOUSE_TABLE_ID \<lparr>cp_column_id = 0, cp_value = to_bytes (pay_w_id p)\<rparr> sm = Inr None"
    using select_one_keyed [OF i tpcc_registry_simps(2), of 0 "to_bytes (pay_w_id p)"] by simp
  then show ?thesis by (simp add: paymentSubTxn1_def sm_readColumn_def)
qed

lemma missing_district:
  assumes inv: "tpcc_inv T E sm" and none: "district_at (nop_w_id p) (nop_d_id p) (db_abs T sm) = None"
  shows "neworderSubTxn1 T p sm = Inl AssertionFailed"
  using select_missing [OF tpcc_invD(1) [OF inv] tpcc_registry_simps(3), of "[(0, to_bytes (nop_d_id p)), (1, to_bytes (nop_w_id p))]"]
    none by (simp add: neworderSubTxn1_def district_at_def assert_that_fails)

lemma missing_new_order_list:
  assumes inv: "tpcc_inv T E sm" and none: "dno_at (del_w_id p) 1 (db_abs T sm) = None"
  shows "deliverySubTxn1 T E p ids sm = Inl AssertionFailed"
proof -
  have ds: "all_districts = 1 # map word_of_int [2..sint DISTRICTS_PER_WAREHOUSE]"
    by (simp add: all_districts_def DISTRICTS_PER_WAREHOUSE_def upto.simps)
  have "sm_selectRecord T DISTRICT_NEW_ORDER_TABLE_ID [(0, to_bytes (del_w_id p)), (1, to_bytes (1 :: 32 word))] sm = Inr None"
    using select_missing [OF tpcc_invD(1) [OF inv] tpcc_registry_simps(7),
        of "[(0, to_bytes (del_w_id p)), (1, to_bytes (1 :: 32 word))]"] none by (simp add: dno_at_def)
  then show ?thesis unfolding deliverySubTxn1_def ds fold_res.simps by (simp add: assert_that_fails)
qed

text \<open>C28: Transactions whose records are missing: a payment in a warehouse that does not exist reads the sum of the
  payments (column 8) through the null pointer the select gives, where a new order in a district that does not
  exist, and a delivery when the row of the first district is missing in \<open>DISTRICT_NEW_ORDER\<close>, are stopped by
  an assertion.\<close>

theorem tpcc_missing_records:
  assumes "tpcc_inv T E sm"
    and "db_tab (db_abs T sm) WAREHOUSE_TABLE_ID (wkey [pay_w_id pp]) = None"
    and "district_at (nop_w_id np) (nop_d_id np) (db_abs T sm) = None"
    and "dno_at (del_w_id dp) 1 (db_abs T sm) = None"
  shows "processPayment T E pp sm g = Inl NullPointer \<and> processNewOrder T E np sm = Inl AssertionFailed \<and>
    processDelivery T E dp sm = Inl AssertionFailed"
  using missing_warehouse [OF assms(1,2)] missing_district [OF assms(1,3)] missing_new_order_list [OF assms(1,4)]
  by (simp_all add: processPayment_def processNewOrder_def processDelivery_def gbnd_def glift_def)

lemma tpcc_missing_records_witness:
  "\<exists>sm. TpccPopulator_init list_tbb (env_cfg tpcc_sample_env) StorageManager_new = Inr sm \<and>
    processPayment list_tbb tpcc_sample_env sample_payment sm 0 = Inl NullPointer \<and>
    processNewOrder list_tbb tpcc_sample_env sample_order sm = Inl AssertionFailed"
proof -
  obtain sm where sm: "TpccPopulator_init list_tbb (env_cfg tpcc_sample_env) StorageManager_new = Inr sm"
      "db_new list_tbb (tpcc_registry (env_cfg tpcc_sample_env)) sm"
    using TpccPopulator_init_new [OF list_tbb_laws] tpcc_sample_facts(1) unfolding parts_ok_def by metis
  have l: "loaded list_tbb tpcc_sample_env 0 0 {} sm" by (rule loaded_nothing [OF sm(2) tpcc_sample_facts(1)])
  have n: "table_map list_tbb sm i k = None" if "i \<in> dom (tpcc_registry (env_cfg tpcc_sample_env))" for i k
    using loadedD(3) [OF l that, of k] by (cases "table_map list_tbb sm i k") auto
  have w: "table_map list_tbb sm WAREHOUSE_TABLE_ID k = None" "table_map list_tbb sm DISTRICT_TABLE_ID k = None"
    "table_map list_tbb sm DISTRICT_NEW_ORDER_TABLE_ID k = None" for k
    by (rule n, rule domI, rule tpcc_registry_simps(2) tpcc_registry_simps(3) tpcc_registry_simps(7))+
  show ?thesis
    using sm(1) tpcc_missing_records [OF loadedD(1) [OF l], of sample_payment sample_order
        "\<lparr>del_w_id = 1, del_o_carrier_id = 1, del_ol_delivery_d = 0\<rparr>"] w by (simp add: district_at_def dno_at_def)
qed

section \<open>The flag of a new order\<close>

text \<open>The flag \<open>o_all_local\<close> of an order is written with the size of its column, four bytes, from a local variable of one
  byte: without three readable bytes behind it the transaction ends in a bad access, for every order.\<close>

theorem bool_read_past_end:
  assumes "length (env_stack E) < 3"
  shows "neworderSubTxn2 T E p o_id sm = Inl BadAccess"
proof -
  let ?buf = "new_chars (env_cfg E) (getSchemaSize order_schema)" and ?last = "(7, Fixed ((if all_local p then 1 else 0) # env_stack E))"
  obtain ws where ws: "order_writes E p o_id = ws @ [?last]" "list_all (writable order_schema) ws"
    by (rule that [of "butlast (order_writes E p o_id)"]) (simp_all add: order_writes_def)
  have "write_column ?last \<lparr>lr_schema = order_schema, lr_data = Some buf\<rparr> = Inl BadAccess" for buf
    using assms tpcc_schema_inv(6) by (simp add: setColumn_def read_buffer_def res_simps)
  then have "build_record E order_schema (order_writes E p o_id) = Inl BadAccess"
    using write_columns_eq [OF tpcc_schema_inv(6) ws(2), of ?buf] length_new_chars [of "env_cfg E" "getSchemaSize order_schema"]
    by (simp add: build_record_def ws(1) write_columns_def fold_res_append Record_new_def transferData_def)
  then show ?thesis
    by (simp add: neworderSubTxn2_def Let_def tpcc_schemas all_local_fold all_local_def order_writes_def)
qed

lemma bool_read_past_end_witness:
  "neworderSubTxn2 list_tbb (tpcc_sample_env\<lparr>env_stack := []\<rparr>) sample_order 1 StorageManager_new = Inl BadAccess"
  by (rule bool_read_past_end) simp

section \<open>The random generator\<close>

text \<open>Without any fairness: when the loop ends it gives a new number between the bounds.\<close>

lemma unique_number_new:
  fixes R :: "'g c_lib"
  assumes "unique_number R mn mx rows num g = Some r" "rand_laws R" "sint mn \<le> sint mx" "sint mx - sint mn < 2147483647"
    and "num = - 1 \<or> num \<in> set rows \<or> (sint mn \<le> sint num \<and> sint num \<le> sint mx)"
  shows "\<exists>num' g'. r = Inr (num', g') \<and> num' \<notin> set rows \<and> sint mn \<le> sint num' \<and> sint num' \<le> sint mx"
proof -
  define new where "new rows r \<longleftrightarrow> (\<exists>num' g'. r = Inr (num', g') \<and> num' \<notin> set rows \<and> sint mn \<le> sint num' \<and> sint num' \<le> sint mx)"
    for rows and r :: "(32 word \<times> 'g) result"
  define I where "I R' mn' mx' rows' num g r \<longleftrightarrow>
      (R', mn', mx', rows') = (R, mn, mx, rows) \<longrightarrow> num = - 1 \<or> num \<in> set rows \<or> (sint mn \<le> sint num \<and> sint num \<le> sint mx) \<longrightarrow> new rows r"
    for R' :: "'g c_lib" and mn' mx' rows' num and g :: 'g and r
  have "I R mn mx rows num g r"
  proof (rule unique_number.raw_induct [where P = I, OF _ assms(1)])
    fix f R' mn' mx' rows' num g r
    assume IH: "\<And>R' mn' mx' rows' num g r. f R' mn' mx' rows' num g = Some r \<Longrightarrow> I R' mn' mx' rows' num g r"
      and eq: "(if num = - 1 \<or> num \<in> set rows'
        then case tpcc_generateInteger R' mn' mx' g of Inl e \<Rightarrow> Some (Inl e) | Inr (num', g') \<Rightarrow> f R' mn' mx' rows' num' g'
        else Some (Inr (num, g))) = Some r"
    obtain v g' where v: "tpcc_generateInteger R mn mx g = Inr (v, g')" "sint mn \<le> sint v \<and> sint v \<le> sint mx"
      by (rule gen_returnsE [OF tpcc_generateInteger_returns [OF assms(2-4)], of g])
    show "I R' mn' mx' rows' num g r"
      unfolding I_def
    proof (intro impI)
      assume same: "(R', mn', mx', rows') = (R, mn, mx, rows)"
        and start: "num = - 1 \<or> num \<in> set rows \<or> (sint mn \<le> sint num \<and> sint num \<le> sint mx)"
      show "new rows r"
      proof (cases "num = - 1 \<or> num \<in> set rows")
        case True
        then have "f R mn mx rows v g' = Some r" using eq same v(1) by simp
        from IH [OF this] show ?thesis using v(2) by (simp add: I_def)
      next
        case False
        then show ?thesis using eq same start by (auto simp: new_def)
      qed
    qed
  qed
  then show ?thesis using assms(5) by (simp add: I_def new_def)
qed

text \<open>More numbers than there are cannot be drawn.\<close>

lemma selectUniqueIds_exhausted:
  assumes R: "rand_laws R" and mn: "sint mn \<le> sint mx" "sint mx - sint mn < 2147483647" and n: "sint mx - sint mn + 1 < sint n"
  shows "selectUniqueIds R n mn mx [] g = Inl Diverges"
proof -
  let ?A = "{x :: 32 word. sint mn \<le> sint x \<and> sint x \<le> sint mx}"
  let ?draw = "\<lambda>_ rows. gbnd (\<lambda>g. returned (unique_number R mn mx rows (- 1) g)) (\<lambda>num. gret (num # rows))"
  have "gfold ?draw xs rows g = Inl Diverges \<or>
      (\<exists>rows' g'. gfold ?draw xs rows g = Inr (rows', g') \<and> distinct rows' \<and> set rows' \<subseteq> ?A \<and> length rows' = length rows + length xs)"
    if "distinct rows" "set rows \<subseteq> ?A" for xs :: "nat list" and rows g
    using that
  proof (induction xs arbitrary: rows g)
    case (Cons x xs)
    show ?case
    proof (cases "unique_number R mn mx rows (- 1) g")
      case None
      then show ?thesis by (simp add: gbnd_def returned_def)
    next
      case (Some r)
      obtain num g' where num: "r = Inr (num, g')" "num \<notin> set rows" "sint mn \<le> sint num" "sint num \<le> sint mx"
        using unique_number_new [OF Some R mn] by blast
      have "distinct (num # rows)" "set (num # rows) \<subseteq> ?A" using Cons.prems num(2-4) by simp_all
      from Cons.IH [OF this, of g'] show ?thesis using Some num(1) by (simp add: gbnd_def gret_def returned_def)
    qed
  qed (simp add: gret_def)
  from this [of "[]" "[0..<nat (sint n)]" g]
  consider "selectUniqueIds R n mn mx [] g = Inl Diverges" | rows where "distinct rows" "set rows \<subseteq> ?A" "length rows = nat (sint n)"
    unfolding selectUniqueIds_def by auto
  then show ?thesis
  proof cases
    case 2
    have "length rows \<le> card ?A" using card_mono [OF finite 2(2)] distinct_card [OF 2(1)] by simp
    then show ?thesis using 2(3) n mn(1) unfolding card_between [OF mn(1)] by linarith
  qed
qed

text \<open>C29: For bounds of at least one, as the populator gives them, that are less than \<open>INT_MAX\<close> apart, the loop of
  \<open>selectUniqueIds\<close> ends exactly when there are enough numbers between the bounds, provided that \<open>rand\<close> gives every
  number from time to time: then it returns different numbers between the bounds, as many as asked for; asked
  for one more than there are it draws for ever. (The bounds have to exclude minus one, which the loop takes to
  mean that nothing is drawn yet and never accepts.)\<close>

theorem unique_ids_end:
  assumes "rand_fair R" "1 \<le> sint mn" "sint mn \<le> sint mx" "sint mx - sint mn < 2147483647"
  shows "if sint n \<le> sint mx - sint mn + 1
    then \<exists>rows g'. selectUniqueIds R n mn mx [] g = Inr (rows, g') \<and> distinct rows \<and> length rows = nat (sint n) \<and>
      set rows \<subseteq> {x. sint mn \<le> sint x \<and> sint x \<le> sint mx}
    else selectUniqueIds R n mn mx [] g = Inl Diverges"
proof (cases "sint n \<le> sint mx - sint mn + 1")
  case True
  obtain rows g' where "selectUniqueIds R n mn mx [] g = Inr (rows, g')" "distinct rows \<and> length rows = nat (sint n) \<and>
      set rows \<subseteq> {x. sint mn \<le> sint x \<and> sint x \<le> sint mx}"
    by (rule gen_returnsE [OF selectUniqueIds_returns [OF assms True], of g])
  then show ?thesis using True by simp
next
  case False
  have "rand_laws R" using assms(1) by (simp add: rand_fair_def)
  then show ?thesis using selectUniqueIds_exhausted [OF _ assms(3,4), of R n g] False by simp
qed

lemma unique_ids_end_witness:
  "(\<exists>rows g'. selectUniqueIds counter_rand 3 1 3 [] 0 = Inr (rows, g') \<and> distinct rows \<and> length rows = 3) \<and>
    selectUniqueIds counter_rand 4 1 3 [] 0 = Inl Diverges"
  using unique_ids_end [OF counter_rand_fair, of 1 3 3 0] unique_ids_end [OF counter_rand_fair, of 1 3 4 0] by auto

lemma sint_inject: "sint x = sint y \<longleftrightarrow> x = y" for x y :: "32 word"
proof
  assume "sint x = sint y"
  then have "word_of_int (sint x) = (word_of_int (sint y) :: 32 word)" by (rule arg_cong)
  then show "x = y" by simp
qed simp

lemma excluding_below:
  assumes "rand_fair R" "0 \<le> sint mn" "sint mn \<le> sint ex" "sint ex < sint mx"
  shows "{x. \<exists>g g'. generateIntegerExcluding R mn mx ex g = Inr (x, g')} =
    {x. sint mn \<le> sint x \<and> sint x \<le> sint mx} - {ex + 1}"
proof -
  have R: "rand_laws R" using assms(1) by (simp add: rand_fair_def)
  have mx: "sint mx \<le> 2147483647" using sint_lt [of mx] by simp
  have s: "sint (word_of_int x :: 32 word) = x" if "0 \<le> x" "x \<le> 2147483647" for x
    using that by (simp add: signed_of_int signed_take_bit_int_eq_self)
  have "sint (word_of_int (sint mx - 1) :: 32 word) = sint mx - 1" by (rule s) (use assms mx in auto)
  then have m1: "sint (mx - 1) = sint mx - 1" by simp
  have le: "sint mn \<le> sint (mx - 1)" "sint (mx - 1) - sint mn < 2147483647" using assms m1 mx by auto
  have suc: "sint (y + 1) = sint y + 1" if "0 \<le> sint y" "sint y < sint mx" for y :: "32 word"
  proof -
    have "sint (word_of_int (sint y + 1) :: 32 word) = sint y + 1" by (rule s) (use that mx in auto)
    then show ?thesis by simp
  qed
  have drawn: "\<exists>g g'. tpcc_generateInteger R mn (mx - 1) g = Inr (y, g')" if y: "sint mn \<le> sint y" "sint y \<le> sint (mx - 1)" for y
  proof -
    have "0 \<le> sint y - sint mn \<and> sint y - sint mn \<le> RAND_MAX" using y assms(2) mx m1 by (simp add: RAND_MAX_def)
    then obtain g where "fst (c_rand R g) = sint y - sint mn" using assms(1) unfolding rand_fair_def by blast
    then show ?thesis using generateInteger_hits [OF R y le(2)] by (metis prod.collapse)
  qed
  have run: "generateIntegerExcluding R mn mx ex g = Inr (if ex <s y then y + 1 else y, g')"
    if "tpcc_generateInteger R mn (mx - 1) g = Inr (y, g')" for g y g'
    using that by (simp add: generateIntegerExcluding_def gbnd_def gret_def)
  show ?thesis
  proof (intro equalityI subsetI)
    fix x assume "x \<in> {x. \<exists>g g'. generateIntegerExcluding R mn mx ex g = Inr (x, g')}"
    then obtain g g' where x: "generateIntegerExcluding R mn mx ex g = Inr (x, g')" by blast
    obtain y g1 where y: "tpcc_generateInteger R mn (mx - 1) g = Inr (y, g1)" "sint mn \<le> sint y \<and> sint y \<le> sint (mx - 1)"
      by (rule gen_returnsE [OF tpcc_generateInteger_returns [OF R le], of g])
    have "x = (if ex <s y then y + 1 else y)" using x run [OF y(1)] by simp
    then show "x \<in> {x. sint mn \<le> sint x \<and> sint x \<le> sint mx} - {ex + 1}"
      using y(2) suc [of y] suc [of ex] m1 assms by (auto simp: word_sless_alt split: if_splits)
  next
    fix x assume x: "x \<in> {x. sint mn \<le> sint x \<and> sint x \<le> sint mx} - {ex + 1}"
    then have bounds: "sint mn \<le> sint x" "sint x \<le> sint mx" "x \<noteq> ex + 1" by simp_all
    have "sint (ex + 1) = sint ex + 1" by (rule suc) (use assms(2-4) in auto)
    then have "sint x = sint ex + 1 \<longrightarrow> sint x = sint (ex + 1)" by metis
    moreover have "sint x \<noteq> sint (ex + 1)" using bounds(3) sint_inject by blast
    ultimately have other: "sint x \<noteq> sint ex + 1" by blast
    have "\<exists>y. sint mn \<le> sint y \<and> sint y \<le> sint (mx - 1) \<and> x = (if ex <s y then y + 1 else y)"
    proof (cases "sint x \<le> sint ex")
      case True
      then show ?thesis using bounds assms m1 by (intro exI [of _ x]) (simp add: word_sless_alt)
    next
      case False
      have "sint (word_of_int (sint x - 1) :: 32 word) = sint x - 1" by (rule s) (use False bounds assms mx in auto)
      then have "sint (x - 1) = sint x - 1" by simp
      then show ?thesis using False bounds other assms m1 by (intro exI [of _ "x - 1"]) (simp add: word_sless_alt)
    qed
    then obtain y where y: "sint mn \<le> sint y" "sint y \<le> sint (mx - 1)" "x = (if ex <s y then y + 1 else y)" by blast
    obtain g g' where "tpcc_generateInteger R mn (mx - 1) g = Inr (y, g')" using drawn [OF y(1,2)] by blast
    from run [OF this] show "x \<in> {x. \<exists>g g'. generateIntegerExcluding R mn mx ex g = Inr (x, g')}"
      unfolding y(3) by blast
  qed
qed

text \<open>For the last number nothing is added, so it is the one left out.\<close>

lemma excluding_last:
  assumes "rand_fair R" "0 \<le> sint mn" "sint mn < sint mx"
  shows "{x. \<exists>g g'. generateIntegerExcluding R mn mx mx g = Inr (x, g')} =
    {x. sint mn \<le> sint x \<and> sint x \<le> sint mx} - {mx}"
proof -
  have R: "rand_laws R" using assms(1) by (simp add: rand_fair_def)
  have mx: "sint mx \<le> 2147483647" using sint_lt [of mx] by simp
  have s: "sint (word_of_int x :: 32 word) = x" if "0 \<le> x" "x \<le> 2147483647" for x
    using that by (simp add: signed_of_int signed_take_bit_int_eq_self)
  have "sint (word_of_int (sint mx - 1) :: 32 word) = sint mx - 1" by (rule s) (use assms(2,3) mx in auto)
  then have m1: "sint (mx - 1) = sint mx - 1" by simp
  have le: "sint mn \<le> sint (mx - 1)" "sint (mx - 1) - sint mn < 2147483647" using assms m1 mx by auto
  have run: "generateIntegerExcluding R mn mx mx g = Inr (y, g')"
    if "tpcc_generateInteger R mn (mx - 1) g = Inr (y, g')" "sint y \<le> sint (mx - 1)" for g y g'
    using that m1 by (simp add: generateIntegerExcluding_def gbnd_def gret_def word_sless_alt)
  have other: "x \<noteq> mx \<longleftrightarrow> sint x \<noteq> sint mx" for x using sint_inject by blast
  show ?thesis
  proof (intro equalityI subsetI)
    fix x assume "x \<in> {x. \<exists>g g'. generateIntegerExcluding R mn mx mx g = Inr (x, g')}"
    then obtain g g' where x: "generateIntegerExcluding R mn mx mx g = Inr (x, g')" by blast
    obtain y g1 where y: "tpcc_generateInteger R mn (mx - 1) g = Inr (y, g1)" "sint mn \<le> sint y \<and> sint y \<le> sint (mx - 1)"
      by (rule gen_returnsE [OF tpcc_generateInteger_returns [OF R le], of g])
    then have "x = y" using x run by fastforce
    then show "x \<in> {x. sint mn \<le> sint x \<and> sint x \<le> sint mx} - {mx}" using y(2) m1 other [of x] by auto
  next
    fix x assume "x \<in> {x. sint mn \<le> sint x \<and> sint x \<le> sint mx} - {mx}"
    then have x: "sint mn \<le> sint x" "sint x \<le> sint (mx - 1)" using m1 other [of x] by auto
    have "0 \<le> sint x - sint mn \<and> sint x - sint mn \<le> RAND_MAX" using x assms(2) mx m1 by (simp add: RAND_MAX_def)
    then obtain g where "fst (c_rand R g) = sint x - sint mn" using assms(1) unfolding rand_fair_def by blast
    then obtain g' where "tpcc_generateInteger R mn (mx - 1) g = Inr (x, g')"
      using generateInteger_hits [OF R x le(2)] by (metis prod.collapse)
    from run [OF this x(2)] show "x \<in> {x. \<exists>g g'. generateIntegerExcluding R mn mx mx g = Inr (x, g')}" by blast
  qed
qed

text \<open>C30: \<open>generateIntegerExcluding\<close> excludes the wrong number, unless the one to exclude is the last. For bounds \<open>mn\<close> and
  \<open>mx\<close> that are not negative and differ, and a number \<open>ex\<close> between them to exclude, it returns exactly these: if
  \<open>ex\<close> is less than \<open>mx\<close>, every number between the bounds, \<open>ex\<close> among them, except its successor; if \<open>ex\<close> is
  \<open>mx\<close>, every number but \<open>ex\<close>.\<close>

theorem excluding_gives_excluded:
  assumes "rand_fair R" "0 \<le> sint mn" "sint mn < sint mx" "sint mn \<le> sint ex" "sint ex \<le> sint mx"
  shows "{x. \<exists>g g'. generateIntegerExcluding R mn mx ex g = Inr (x, g')} =
    {x. sint mn \<le> sint x \<and> sint x \<le> sint mx} - {if ex = mx then ex else ex + 1}"
proof (cases "ex = mx")
  case True
  then show ?thesis using excluding_last [OF assms(1-3)] by simp
next
  case False
  then have "sint ex < sint mx" using assms(5) sint_inject [of ex mx] by linarith
  then show ?thesis using excluding_below [OF assms(1,2,4)] False by simp
qed

lemma excluding_gives_excluded_witness:
  "(\<exists>g g'. generateIntegerExcluding counter_rand 1 3 2 g = Inr (2, g')) \<and>
    \<not> (\<exists>g g'. generateIntegerExcluding counter_rand 1 3 2 g = Inr (3, g'))"
  using excluding_gives_excluded [OF counter_rand_fair, of 1 3 2] by (auto simp: set_eq_iff)

end
