(* ===== verification/Spec2Isabelle.thy ===== *)
theory Spec2Isabelle
  imports StorageProperties ConcurrentTable TatpMain Distributions Client TpccBenchmark
begin

text \<open>
  IMDB-D is an in-memory database in C++: a storage engine (\<open>src/storage\<close>), two benchmarks that run
  transactions on it (\<open>src/benchmark\<close>), helpers (\<open>src/common\<close>), and the beginnings of a distributed
  layer (\<open>src/dtxn\<close>). This library models the storage engine, the TATP benchmark from its populator and source
  to its serial and batch processors, the TPC-C benchmark likewise, the random
  distributions, the thread pool and the other helpers, and the network layer, as HOL functions and
  step relations that follow the code, and proves what makes them correct.

  The parts and how they interact. A \<open>StorageManager\<close> holds numbered \<open>SchemaTable\<close>s. A schema
  table is a \<open>BaseTable\<close> (blocks of equally sized slots with a header, a free list, counters) whose
  records are laid out by a \<open>Schema\<close>, with a primary index and secondary indexes from keys to record
  addresses. Transactions are sequences of selects, inserts, updates and deletes on the storage
  manager; a processor takes events from a queue and executes them, one after the other or in batches whose
  sub-transactions are distributed over threads. In the network layer a coordinator owns one linker per
  node, a linker is a queue of requests with a worker thread and a TCP connection, and a node answers
  each connection with an echo session.

  The theories and the code they model:
  \<^item> \<open>Prelude\<close>: errors as values (a failed assertion, an exception, undefined behaviour and
    divergence are constructors of \<open>error\<close>, so a theorem that an operation returns \<open>Inr\<close> says that none of
    them happens), sequencing, bytes and the little-endian layout of integers.
  \<^item> \<open>MetaTypes\<close> (MetaTypes.h), \<open>Schema\<close> (Schema.h, Schema.cc), \<open>TableRecord\<close> (Record.h, Record.cc):
    columns, their offsets and sizes, reading and writing a column of a record, key symbols.
  \<^item> \<open>Memory\<close> (Block.h and the C memory operations on blocks), \<open>BaseTable\<close> (BaseTable.h, BaseTable.cc)
    with the locale \<open>record_store\<close> as its contract, \<open>TableIterator\<close> (TableIterator.h, SchemaTableIterator.h).
  \<^item> \<open>ConcurrentTable\<close>: the same insert and delete split into the accesses they make to the table outside
    and inside the mutex, in every interleaving.
  \<^item> \<open>Tbb\<close>: the containers of Intel TBB, a parameter with the documented laws. \<open>Indexes\<close>: the four index
    classes, behind the locales \<open>unique_index\<close> and \<open>multi_index\<close>.
  \<^item> \<open>SchemaTable\<close> (SchemaTable.h, SchemaTable.cc, Records.h), \<open>RecordViews\<close> (the pointers and arrays
    a caller reads records through), \<open>TableMap\<close> (the table as a map from primary keys to records),
    \<open>StorageManager\<close> (StorageManager.h).
  \<^item> \<open>BenchSchema\<close>, \<open>TatpSchema\<close>, \<open>TatpProcessor\<close>, \<open>TatpSerial\<close>, \<open>TatpBatch\<close>: the schemas, the
    registration of the tables, the sub-transactions (TatpBaseProcessor.cc), the seven transactions and
    the main loops (TatpSerialProcessor.cc, TatpBatchProcessor.cc). \<open>Interleaving\<close>: schedules of threads
    given as lists of steps, with the locale \<open>commuting_steps\<close>. \<open>TatpBatchTables\<close>: which threads of a batch
    change which \<open>CALL_FORWARDING\<close> tables.
  \<^item> \<open>RandomGenerator\<close> (distributions/RandomGenerator.cc, with computations that draw numbers and the
    rules \<open>gen_returns\<close>), \<open>TatpUtil\<close> (TatpUtil.h), \<open>TatpPopulator\<close> (TatpPopulator.cc, TatpRecords.h),
    \<open>TatpPopulation\<close> (the invariants of its loops), \<open>TatpSource\<close> (TatpSource.h, ScaleParams.h),
    \<open>TatpMain\<close> (TatpMain.cc, the benchmark as a whole), \<open>Distributions\<close> (the other files of distributions).
  \<^item> \<open>Database\<close>: the storage manager as the benchmarks use it, with one lemma for each of its operations on the maps
    from keys to rows (\<open>db_abs\<close>); \<open>RowBuilder\<close>: the calls of \<open>setColumn\<close> that fill a new record.
  \<^item> \<open>TpccSchema\<close> (TpccSchema.cc, TpccConstants.h, ScaleParams.h), \<open>TpccRandom\<close> (tpcc/RandomGenerator.h),
    \<open>TpccProcessor\<close> (TpccBaseProcessor.cc, the parameters of TpccTuples.h), \<open>TpccSerialProcessor\<close>
    (TpccSerialProcessor.cc), \<open>TpccTables\<close> and \<open>TpccPopulator\<close> (TpccPopulator.cc, TpccRecords.h), \<open>TpccSource\<close>
    (TpccSource.cc), \<open>TpccMain\<close> (TpccMain.cc): the code of TPC-C.
  \<^item> \<open>TpccRefinement\<close>, \<open>TpccNewOrder\<close>, \<open>TpccDelivery\<close>: what its sub-transactions do to the maps; \<open>TpccConsistency\<close>,
    \<open>TpccSerial\<close>: the consistency of the database and the steps on the maps the serial processor refines; \<open>TpccDraws\<close>,
    \<open>TpccPopulation\<close>: what the generators return and the loading loops leave; \<open>TpccEffects\<close>: the rows and columns the
    transactions change.
  \<^item> \<open>TpccBatch\<close>: TpccBatchProcessor.cc (TpccTPBatchProcessor.cc is the same code over a thread pool).
    \<open>ResourceSteps\<close>: steps that can fail and touch one resource each, with the locale \<open>resource_steps\<close>;
    \<open>TpccBatchSteps\<close> and \<open>TpccBatchParts\<close>: the calls of a batch as such steps on the maps, and their interpretation;
    \<open>TpccBatchSerial\<close>: these steps in the order of the serial processor; \<open>TpccBatchThreads\<close>,
    \<open>TpccBatchSchedules\<close>, \<open>TpccBatchOrder\<close>, \<open>TpccBatchReady\<close>: what the buckets hold and what every schedule keeps in order;
    \<open>TpccBatchRun\<close>, \<open>TpccBatchExec\<close>: the calls on the storage manager and the local vectors, a batch and the main loop;
    \<open>TpccBatchTables\<close>: which threads of a batch change which \<open>NEW_ORDER\<close> tables.
  \<^item> \<open>TpccProperties\<close>, \<open>TpccBenchmark\<close>: the properties of TPC-C.
  \<^item> \<open>ThreadPool\<close> (ThreadPool.h), \<open>Common\<close> (CharArray.h with the heap its pointers point into,
    EventTuple.h, Timer.h).
  \<^item> \<open>Asio\<close>: a TCP connection as a parameter with the laws of a byte stream. \<open>EchoNodeSession\<close>
    (EchoNodeSession.h and the accept handler of BaseNodeService.h), \<open>NodeLinker\<close> (NodeLinker.cc, over the
    pool with one worker), \<open>Coordinator\<close> (BaseCoordinatorService.h, the reply in client.cc),
    \<open>Client\<close> (client.cc).
  \<^item> \<open>StorageProperties\<close> and this theory hold properties that span components; the others stand in the
    theory of their component.

  What the groups of lemmas show. Storage: \<open>bt_inv\<close> (slots, free list, counters and flags agree) is
  kept by every operation, and the table is a map from addresses to bytes under every history of inserts,
  deletes and updates; the iterator visits exactly the live records; \<open>st_inv\<close> (every index follows the
  records) is kept, and insert, update, delete and select on a schema table refine the operations
  on a map from primary keys to records. Concurrency: inserts alone are safe under every interleaving, an
  insert and a delete are not, with the schedule that loses a record. TATP: the serial processor
  refines a sequence of effects on an abstract database; when the subscribers of one table belong to one thread,
  no two threads of a batch change one \<open>CALL_FORWARDING\<close> table and every schedule of whole iterations ends in the
  state the serial processor ends in, and a run exists; the populator loads the subscribers the source asks
  for, so a whole run of the benchmark with the serial processor, or with a batch processor and one thread for each
  loop, meets no error and ends in one database. TPC-C: each
  transaction refines an operation on the maps (\<open>a_new_order\<close>, \<open>a_payment\<close>, \<open>a_delivery\<close>), and keeps the database
  \<open>consistent\<close> (orders numbered without a gap, the new orders the last ones, every order with its customer and a line) and the stock
  between its bounds; the populator loads such a database, the source draws valid transactions, so
  the main program ends without an error, with the serial processor and with a batch processor whose number of threads divides
  the number of partitions. Under this condition no two threads of a batch change one \<open>NEW_ORDER\<close> table, and a batch, with
  calls as steps, is strictly serializable: each call touches one part of the database (a row, the lines of an order, the new orders of a district), every schedule keeps the order of the calls on each
  part, and what a call reads from a local vector has been computed before it. Thread pool: no task is lost or
  run twice, no notification is lost, the workers come to rest, and the destructor drains the queue.
  Network: for every interleaving of callers, worker, session and network and every way the stream is cut, the replies
  are a prefix of what was sent; and how a short read shifts all later replies.

  Parameters and bounds. Code outside the repository is a parameter: the TBB containers (record \<open>tbb\<close>,
  hypothesis \<open>tbb_laws\<close>, instance \<open>list_tbb\<close>) and the sockets (record \<open>tcp\<close>, hypothesis \<open>tcp_laws\<close>,
  instance \<open>list_tcp\<close>). So are two parts of the standard library that are not a matter of computation: the
  distribution of random integers (record \<open>rng\<close>, hypothesis \<open>rng_laws\<close>, instance \<open>list_rng\<close>) and the
  doubles with the distribution of random doubles (records \<open>dbl\<close> and \<open>real_rng\<close>, hypothesis
  \<open>dbl_laws\<close>, instance \<open>real_dbl\<close>). TPC-C runs in an environment (record \<open>tpcc_env\<close>): \<open>rand\<close> and the clock (record \<open>c_lib\<close>,
  hypotheses \<open>rand_laws\<close> and, where a loop draws until it meets a new number, \<open>rand_fair\<close>, instance \<open>counter_rand\<close>), the doubles of its
  amounts (hypothesis \<open>amounts_laws\<close>: the bounds of the amounts, cut to integers, are in their order; instance \<open>decimal_dbl\<close>), the
  iteration order of unordered maps (\<open>env_order\<close>, a permutation) and the bytes behind a local variable that are read by
  mistake (\<open>env_stack\<close>). Which overload the unqualified \<open>abs\<close> of Util.cc is depends on the headers a compiler's library
  includes, so it is an argument of the hash functions (\<open>abs_long\<close>, \<open>abs_int\<close>). The contents of uninitialised memory are arguments; where the program
  works only for some contents (\<open>arrays_distinct\<close>), the theorem says so. Numbers of type \<open>size_t\<close> that
  count records, blocks or tasks are \<open>nat\<close>; where a wrap-around can happen (the decrement of a counter, the
  hash of a subscriber number, the offsets of a schema, sizes converted between integer types) it is written out, or the values are
  words. Loops that may not end (the iterator, the queue of the serial processor) are partial functions, and
  termination is proved where it holds; no fuel is used. A run of the pool or of a linker is a sequence of
  steps of any length; \<open>pool_rank\<close> bounds the quiet ones. Strings and keys are lists of bytes.

  The grain of concurrency. In \<open>ThreadPool\<close>, \<open>NodeLinker\<close> and \<open>ConcurrentTable\<close> a step is what a thread does
  under a mutex, one write to the table, one socket operation or one notification. In
  \<open>TatpBatch\<close> and \<open>TpccBatch\<close> a step is one call of a thread's loop: that a call is atomic is an assumption, and
  \<open>delete_insert_race\<close> shows that the storage engine does not give it when two threads delete from and insert into
  one table. So the properties of the batch processors (\<open>batch_equals_serial\<close>, \<open>benchmark_outcome\<close>,
  \<open>tpcc_batch_serializable\<close>, \<open>tpcc_benchmark\<close>) are stated where the code keeps such threads apart, and
  say that it does (\<open>forwardings_separate\<close>, \<open>new_orders_separate\<close>): one thread for the subscribers of each
  \<open>CALL_FORWARDING\<close> table in TATP, a number of threads that divides the number of partitions in TPC-C. Outside these
  conditions the code has the race, and nothing is claimed. Inside them what remains of the assumption is that calls on
  one table that only insert, select or update, and calls on different tables, do not disturb each other: inserts are proved safe
  by \<open>concurrent_inserts\<close>, index operations are safe by the documentation of TBB, and threads update the
  rows of their own bucket only. Memory is sequentially consistent.

  Not modelled. The mutex of \<open>BaseTable\<close> and the data races on its counters beyond the steps of
  \<open>ConcurrentTable\<close>. The order-status and stock-level transactions of TPC-C have no
  code. Its scale factors other than one. The
  formatting of records in TatpRecords.cc and TpccRecords.cc. Printing, timing output and command lines, name resolution and the loop of the
  \<open>io_service\<close>. Of client.cc the class of the order, whose header is not in the repository: its two functions are a
  parameter (record \<open>order_codec\<close>, hypothesis \<open>codec_laws\<close>). Memory is
  never exhausted, \<open>new\<close> does not throw. Destructors that only free memory are not separate
  definitions, except where freeing matters (\<open>CharArray\<close>, the pool, the linkers).
\<close>

section \<open>The database the witnesses start from\<close>

definition sample_cfg :: bench_config where
  "sample_cfg = \<lparr>kParallelism = 4, kPartitionCnt = 8, kPartition = True, uninit = (\<lambda>_. 0)\<rparr>"

lemma sample_database:
  obtains sm where "TatpPopulator_init list_tbb sample_cfg StorageManager_new = Inr sm"
    "tatp_inv list_tbb sample_cfg sm" "db_sub (tatp_abs list_tbb sm) = Map.empty"
    "\<And>s. db_cf (tatp_abs list_tbb sm) (partition_of sample_cfg s) = Map.empty"
proof -
  have cfg: "0 < partitions sample_cfg" "partitions sample_cfg \<le> MAX_PARTITION_CNT"
    by (simp_all add: partitions_def sample_cfg_def tatp_table_ids)
  obtain sm where sm: "TatpPopulator_init list_tbb sample_cfg StorageManager_new = Inr sm"
    "tatp_inv list_tbb sample_cfg sm" "table_map list_tbb sm SUBSCRIBER_TABLE_ID = Map.empty"
    "\<And>p. p < partitions sample_cfg \<Longrightarrow> table_map list_tbb sm (CALL_FORWARDING_TABLE_ID + p) = Map.empty"
    using TatpPopulator_init_inv [OF list_tbb_laws cfg] by metis
  then show thesis
    using that tatp_abs_simps [OF sm(2)] partition_of_less [OF cfg(1)] by simp
qed

definition sample_nbr :: bytes where
  "sample_nbr = replicate 13 48 @ [49]"

definition sample_events :: "tatp_event list" where
  "sample_events =
     [INSERT_CALL_FORWARDING \<lparr>icf_sub_nbr = sample_nbr, icf_sf_type = 1, icf_start_time = 8,
        icf_end_time = 16, icf_numberx = sample_nbr\<rparr>,
      GET_SUBSCRIBER_DATA \<lparr>gsd_s_id = 1\<rparr>,
      DELETE_CALL_FORWARDING \<lparr>dcf_sub_nbr = sample_nbr, dcf_sf_type = 1, dcf_start_time = 8\<rparr>]"

lemma sample_events_ok: "\<forall>e \<in> set sample_events. event_ok db e \<and> e \<noteq> END_EXECUTION"
  by (simp add: sample_events_def sample_nbr_def)

text \<open>The same database with one subscriber, inserted as the populator does it.\<close>

definition sample_subscriber :: bytes where
  "sample_subscriber = [1, 0, 0, 0] @ sample_nbr @ replicate 49 0"

lemma sample_subscriber_facts:
  "length sample_subscriber = 67"
  "primary_key_of subscriber_schema sample_subscriber = to_bytes (1 :: 32 word)"
  "table_row subscriber_schema sample_subscriber = sample_subscriber"
  "key_of subscriber_schema [1] sample_subscriber = take 15 (c_str sample_nbr)"
  "of_bytes (col_data subscriber_schema 0 sample_subscriber) = (1 :: 32 word)"
  by code_simp+

lemma populated_database:
  obtains sm where "tatp_inv list_tbb sample_cfg sm"
    "bnd (TatpPopulator_init list_tbb sample_cfg StorageManager_new)
       (sm_insertData list_tbb SUBSCRIBER_TABLE_ID sample_subscriber) = Inr sm"
    "db_sid (tatp_abs list_tbb sm) sample_nbr = 1"
    "db_sub (tatp_abs list_tbb sm) = [to_bytes (1 :: 32 word) \<mapsto> sample_subscriber]"
proof -
  obtain sm0 where sm0: "TatpPopulator_init list_tbb sample_cfg StorageManager_new = Inr sm0"
    "tatp_inv list_tbb sample_cfg sm0" "db_sub (tatp_abs list_tbb sm0) = Map.empty"
    by (rule sample_database) blast
  obtain t where t: "sm0 SUBSCRIBER_TABLE_ID = Some t" "st_inv list_tbb t" "st_schema t = subscriber_schema"
    "has_primary t" "map fst (secondary_index_ptrs t) = [size_t_symbol [1]]"
    using table_okE [OF tatp_invD(4) [OF sm0(2)] tatp_invD(1) [OF sm0(2)]] by metis
  have empty: "st_map list_tbb t = Map.empty"
    using sm0(3) t(1) by (simp add: tatp_abs_simps(1) [OF sm0(2)] table_map_at)
  obtain t' where t': "SchemaTable_insertRecord list_tbb sample_subscriber t = Inr t'" "st_inv list_tbb t'"
    "same_shape t t'" "st_map list_tbb t' = [to_bytes (1 :: 32 word) \<mapsto> sample_subscriber]"
    using insert_refines [OF t(2,4), of sample_subscriber] t(3) empty sample_subscriber_facts(1-3) by auto
  let ?sm = "sm0(SUBSCRIBER_TABLE_ID \<mapsto> t')"
  have inv: "tatp_inv list_tbb sample_cfg ?sm" by (rule tatp_inv_update [OF sm0(2) t(1) t'(2,3)])
  have ins: "sm_insertData list_tbb SUBSCRIBER_TABLE_ID sample_subscriber sm0 = Inr ?sm"
    using t(1) t'(1) by (simp add: sm_insertData_def with_table_def table_at_def)
  have shape: "st_schema t' = subscriber_schema" "has_primary t'"
    "map fst (secondary_index_ptrs t') = [size_t_symbol [1]]"
    using t'(3) t(3-5) by (simp_all add: same_shape_def)
  obtain m where m: "secondary_index_ptrs t' = [(size_t_symbol [1], m)]"
    by (rule secondary_single [OF shape(3)])
  let ?k = "take 15 (c_str sample_nbr)"
  have rows: "st_bytes t' a = sample_subscriber" if "a \<in> st_live t'" for a
    using st_map_at [OF t'(2) shape(2) that] t'(4) by (simp split: if_splits)
  have cols: "index_columns (size_t_symbol [1]) = [1]" by (rule index_columns_single) simp
  have "secondary_ok list_tbb (st_schema t') (st_base t') (size_t_symbol [1], m)"
    using st_invD(9) [OF t'(2)] m by simp
  then have follows: "multi_follows (mm_range list_tbb m) (st_live t') (\<lambda>a. key_of subscriber_schema [1] (st_bytes t' a))"
    using cols shape(1) by (simp add: secondary_ok_def)
  obtain b where b: "b \<in> st_live t'"
    using st_map_iff [OF t'(2) shape(2), of "to_bytes (1 :: 32 word)" sample_subscriber] t'(4) by auto
  have "getSubscriberId list_tbb sample_nbr ?sm = Inr 1"
  proof (cases "TBBMultiIndex_searchRecord list_tbb m ?k")
    case None
    then show ?thesis
      using tbb_multi.search_follows [OF list_multimap_laws follows, of ?k] b rows sample_subscriber_facts(4)
      by simp
  next
    case (Some a)
    then have "a \<in> st_live t'"
      using tbb_multi.search_follows [OF list_multimap_laws follows, of ?k] by simp
    then show ?thesis
      using getSubscriberId_eq [of ?sm t' list_tbb m sample_nbr] t'(2) shape(1,2) m Some rows
        sample_subscriber_facts(5) by (simp add: sample_nbr_def)
  qed
  then have "db_sid (tatp_abs list_tbb ?sm) sample_nbr = 1" by (simp add: tatp_abs_def)
  moreover have "db_sub (tatp_abs list_tbb ?sm) = [to_bytes (1 :: 32 word) \<mapsto> sample_subscriber]"
    using t'(4) by (simp add: tatp_abs_simps(1) [OF inv])
  ultimately show thesis using that [OF inv] sm0(1) ins by simp
qed

section \<open>The TATP benchmark\<close>

text \<open>C2: The batch processor gives the result of the serial one. Let the transactions be valid (the subscriber of an
  \<open>UPDATE_LOCATION\<close> exists, numbers have their fourteen digits), and let those that insert or delete call
  forwardings of one \<open>CALL_FORWARDING\<close> table be given to one thread, as they are when there is one thread per
  loop. Then no two threads that run at the same time change the same \<open>CALL_FORWARDING\<close> table, the only
  tables records are inserted into and deleted from; with this an iteration of a thread's loop counts as one atomic step
  (an assumption of the model: without it two threads may meet the race of \<open>BaseTable::deleteRecord\<close>). For every
  way the batch timer cuts the queue and every order in which the iterations of the threads' loops are
  interleaved, the batch processor executes the transactions up to the end marker without an error, counts
  them, keeps the database well formed and leaves all its tables with the rows with which the serial processor
  leaves them; and a run exists.\<close>

theorem batch_equals_serial:
  fixes T :: "('q, 'h, 'm) tbb"
  assumes "0 < kParallelism cfg" "tatp_inv T cfg sm"
    and "\<forall>e \<in> fst ` set q. event_ok (tatp_abs T sm) e \<and> e \<noteq> END_EXECUTION"
    and "tables_have_threads cfg (db_sid (tatp_abs T sm)) (fst ` set q)"
  shows "(\<forall>es. set es \<subseteq> insert END_EXECUTION (fst ` set q) \<longrightarrow> forwardings_separate T cfg (db_sid (tatp_abs T sm)) es) \<and>
    (\<exists>sm_s.
      tatp_serial_start T cfg (map fst q @ END_EXECUTION # left) 0 sm = Inr (sm_s, length q, left) \<and>
      (\<exists>r. tatp_batch_start T cfg (q @ (END_EXECUTION, tm) # rest) 0 sm r) \<and>
      (\<forall>r. tatp_batch_start T cfg (q @ (END_EXECUTION, tm) # rest) 0 sm r \<longrightarrow>
         (\<exists>sm_b. r = Inr (sm_b, length q, rest) \<and> tatp_inv T cfg sm_b \<and> tatp_abs T sm_b = tatp_abs T sm_s)))"
proof -
  have ok: "\<forall>e \<in> set (map fst q). event_ok (tatp_abs T sm) e \<and> e \<noteq> END_EXECUTION"
    using assms(3) by simp
  obtain sm_s where sm_s: "tatp_serial_start T cfg (map fst q @ END_EXECUTION # left) 0 sm =
      Inr (sm_s, 0 + length (map fst q), left)"
    "tatp_abs T sm_s = fold (step_effect cfg) (events_steps (db_sid (tatp_abs T sm)) (map fst q)) (tatp_abs T sm)"
    by (rule serial_refines [OF assms(2) ok, of left 0])
  have "\<exists>sm_b. r = Inr (sm_b, length q, rest) \<and> tatp_inv T cfg sm_b \<and> tatp_abs T sm_b = tatp_abs T sm_s"
    if "tatp_batch_start T cfg (q @ (END_EXECUTION, tm) # rest) 0 sm r" for r
    using batch_start_spec [OF assms(1) that refl assms(2,3)] sm_s(2) by (auto simp: batch_result_def)
  moreover have "forwardings_separate T cfg (db_sid (tatp_abs T sm)) es"
    if "set es \<subseteq> insert END_EXECUTION (fst ` set q)" for es
  proof (rule batch_forwardings_separate [OF assms(1)])
    show "0 < partitions cfg" "partitions cfg \<le> MAX_PARTITION_CNT" using assms(2) by (simp_all add: tatp_inv_def)
    show "tables_have_threads cfg (db_sid (tatp_abs T sm)) (set es)"
      using tables_have_threads_end [OF assms(4)] that by (rule tables_have_threads_mono)
  qed
  ultimately show ?thesis
    using batch_start_exists [OF assms(1-3)] sm_s(1) by auto
qed

definition sample_queue :: "(tatp_event \<times> bool) list" where
  "sample_queue =
     map (\<lambda>e. (e, False)) sample_events @
     [(UPDATE_LOCATION \<lparr>ul_vlr_location = 9, ul_sub_nbr = sample_nbr\<rparr>, True),
      (UPDATE_SUBSCRIBER_DATA \<lparr>usd_s_id = 1, usd_bit_1 = 1, usd_data_a = 5, usd_sf_type = 2\<rparr>, False)]"

lemma batch_equals_serial_witness:
  "\<exists>sm sm_s. db_sub (tatp_abs list_tbb sm) = [to_bytes (1 :: 32 word) \<mapsto> sample_subscriber] \<and>
    tatp_serial_start list_tbb sample_cfg (map fst sample_queue @ [END_EXECUTION]) 0 sm = Inr (sm_s, 5, []) \<and>
    (\<exists>sm_b. tatp_batch_start list_tbb sample_cfg (sample_queue @ [(END_EXECUTION, False)]) 0 sm
        (Inr (sm_b, 5, [])) \<and>
       tatp_abs list_tbb sm_b = tatp_abs list_tbb sm_s)"
proof -
  obtain sm where sm: "tatp_inv list_tbb sample_cfg sm" "db_sid (tatp_abs list_tbb sm) sample_nbr = 1"
    "db_sub (tatp_abs list_tbb sm) = [to_bytes (1 :: 32 word) \<mapsto> sample_subscriber]"
    by (rule populated_database) blast
  have ok: "\<forall>e \<in> fst ` set sample_queue. event_ok (tatp_abs list_tbb sm) e \<and> e \<noteq> END_EXECUTION"
    using sm(2,3) by (simp add: sample_queue_def sample_events_def sample_nbr_def)
  have k: "0 < kParallelism sample_cfg" by (simp add: sample_cfg_def)
  have own: "tables_have_threads sample_cfg (db_sid (tatp_abs list_tbb sm)) (fst ` set sample_queue)"
    by (simp add: tables_have_threads_def sample_queue_def sample_events_def)
  have "length sample_queue = 5" by (simp add: sample_queue_def sample_events_def)
  then show ?thesis
    using conjunct2 [OF batch_equals_serial [OF k sm(1) ok own, of "[]" False "[]"]] sm(3) by metis
qed

text \<open>C21: The serial processor executes valid transactions (the subscriber of an \<open>UPDATE_LOCATION\<close> exists, numbers have
  their fourteen digits) up to the end marker of the queue in order, each as the sequence of its
  sub-transactions on the maps of the database, leaves the rest of the queue, and keeps every table and index
  well formed. Transactions that are not valid are left out: an \<open>UPDATE_LOCATION\<close> of an unknown subscriber
  ends at a null pointer.\<close>

theorem serial_executes:
  assumes "tatp_inv T cfg sm" "\<forall>e \<in> set es. event_ok (tatp_abs T sm) e \<and> e \<noteq> END_EXECUTION"
  shows "\<exists>sm'. tatp_serial_start T cfg (es @ END_EXECUTION # rest) n sm = Inr (sm', n + length es, rest) \<and>
    tatp_inv T cfg sm' \<and>
    tatp_abs T sm' = fold (step_effect cfg) (events_steps (db_sid (tatp_abs T sm)) es) (tatp_abs T sm)"
  by (cases rule: serial_refines [OF assms, of rest n]) blast

lemma serial_executes_witness:
  "\<exists>sm sm'. TatpPopulator_init list_tbb sample_cfg StorageManager_new = Inr sm \<and>
    tatp_serial_start list_tbb sample_cfg (sample_events @ [END_EXECUTION]) 0 sm = Inr (sm', 3, []) \<and>
    db_sub (tatp_abs list_tbb sm') = db_sub (tatp_abs list_tbb sm)"
proof -
  obtain sm where sm: "TatpPopulator_init list_tbb sample_cfg StorageManager_new = Inr sm"
    "tatp_inv list_tbb sample_cfg sm"
    by (rule sample_database)
  obtain sm' where sm': "tatp_serial_start list_tbb sample_cfg (sample_events @ [END_EXECUTION]) 0 sm =
      Inr (sm', 0 + length sample_events, [])"
    "tatp_abs list_tbb sm' = fold (step_effect sample_cfg)
       (events_steps (db_sid (tatp_abs list_tbb sm)) sample_events) (tatp_abs list_tbb sm)"
    using serial_executes [OF sm(2) sample_events_ok, of "[]" 0] by blast
  have "db_sub (tatp_abs list_tbb sm') = db_sub (tatp_abs list_tbb sm)"
    unfolding sm'(2) by (simp add: sample_events_def events_steps_def a_deleteCF_def a_insertCF_def)
  then show ?thesis
    using sm(1) sm'(1) by (intro exI [of _ sm] exI [of _ sm']) (simp add: sample_events_def)
qed

text \<open>Once the subscribers of a batch are looked up, its sub-transactions are distributed to the buckets without
  an error: the bucket of a thread holds, in the order of the transactions, exactly the
  sub-transactions of its group of tables whose subscriber hashes to the thread. So two that touch
  the same rows are in one bucket, in order, and none is lost.\<close>

theorem buckets_distribute:
  assumes "0 < kParallelism cfg" "ids_ok es sid bs"
  shows "\<exists>bk. fold_res (fill_bucket cfg bs) es (empty_buckets cfg) = Inr bk \<and>
    length (dcf_icf_bkt bk) = kParallelism cfg \<and> length (gsd_ul_usd_bkt bk) = kParallelism cfg \<and>
    length (icf_usd_bkt bk) = kParallelism cfg \<and>
    (\<forall>t < kParallelism cfg.
       map (resolve es sid \<circ> Dcf_icf) (dcf_icf_bkt bk ! t) =
         filter (in_bucket cfg CF_tables t) (events_steps sid es) \<and>
       map (resolve es sid \<circ> Gsd_ul_usd) (gsd_ul_usd_bkt bk ! t) =
         filter (in_bucket cfg Sub_table t) (events_steps sid es) \<and>
       map (resolve es sid \<circ> Icf_usd) (icf_usd_bkt bk ! t) =
         filter (in_bucket cfg SF_tables t) (events_steps sid es))"
  by (cases rule: fill_buckets_spec [OF assms]) (auto simp: filled_def bkt_ok_def)

lemma buckets_distribute_witness:
  "\<exists>bk. fold_res (fill_bucket sample_cfg (\<lparr>bs_sm = StorageManager_new, dcf_s_ids = [7], icf_s_ids = [7],
        ul_s_ids = []\<rparr> :: (addr list, (bytes \<times> addr) list, (bytes \<times> addr) list) batch_state))
      sample_events (empty_buckets sample_cfg) = Inr bk \<and>
    map (resolve sample_events (\<lambda>_. 7) \<circ> Dcf_icf) (dcf_icf_bkt bk ! bucket_of sample_cfg 7) =
      [CF_Insert 7 1 8 16 sample_nbr, CF_Delete 7 1 8]"
proof -
  let ?bs = "\<lparr>bs_sm = StorageManager_new, dcf_s_ids = [7], icf_s_ids = [7], ul_s_ids = []\<rparr> ::
    (addr list, (bytes \<times> addr) list, (bytes \<times> addr) list) batch_state"
  have ids: "ids_ok sample_events (\<lambda>_. 7) ?bs"
    by (simp add: ids_ok_def sample_events_def event_lists)
  have k: "0 < kParallelism sample_cfg" by (simp add: sample_cfg_def)
  have "filter (in_bucket sample_cfg CF_tables (bucket_of sample_cfg 7)) (events_steps (\<lambda>_. 7) sample_events) =
      [CF_Insert 7 1 8 16 sample_nbr, CF_Delete 7 1 8]"
    by (simp add: sample_events_def events_steps_def in_bucket_def)
  then show ?thesis
    using buckets_distribute [OF k ids] bucket_of_less [OF k] by auto
qed

text \<open>The loops that start at the thread's number and step by the number of threads give every index of the
  batch to exactly one thread.\<close>

theorem threads_partition:
  assumes "0 < kParallelism cfg"
  shows "length (loop_threads cfg f n) = kParallelism cfg \<and>
    mset (concat (loop_threads cfg f n)) = mset (map f [0..<n])"
proof -
  let ?k = "kParallelism cfg"
  let ?idx = "concat (map (strided ?k n) [0..<?k])"
  have set: "set ?idx = {..<n}"
  proof (intro equalityI subsetI)
    fix i assume "i \<in> {..<n}"
    then have "i \<in> set (strided ?k n (i mod ?k))" "i mod ?k \<in> set [0..<?k]"
      using assms by (simp_all add: set_strided)
    then show "i \<in> set ?idx" by (auto simp del: set_upt)
  qed (auto simp: set_strided [OF assms])
  have inj: "s = t" if "s < ?k" "t < ?k" "set (strided ?k n s) \<inter> set (strided ?k n t) \<noteq> {}" for s t
    using that by (auto simp: set_strided [OF assms])
  have "distinct (concat (map (strided ?k n) ts))" if "distinct ts" "set ts \<subseteq> {..<?k}" for ts
    using that
  proof (induction ts)
    case (Cons t ts)
    have "set (strided ?k n t) \<inter> set (strided ?k n s) = {}" if "s \<in> set ts" for s
      using inj [of t s] Cons.prems that by auto
    then show ?case using Cons distinct_strided by auto
  qed simp
  then have "distinct ?idx" by (simp add: atLeast0LessThan)
  then have "mset ?idx = mset [0..<n]"
    using set by (intro set_eq_iff_mset_eq_distinct [THEN iffD1]) (auto simp: atLeast0LessThan)
  then have "mset (map f ?idx) = mset (map f [0..<n])"
    by (metis mset_map)
  then show ?thesis by (simp add: loop_threads_def map_concat comp_def)
qed

lemma threads_partition_witness:
  "mset (concat (loop_threads sample_cfg Dcf_sid 10)) = mset (map Dcf_sid [0..<10])"
proof -
  have "0 < kParallelism sample_cfg" by (simp add: sample_cfg_def)
  from threads_partition [OF this] show ?thesis by blast
qed

text \<open>C34: Inserting a call forwarding and then deleting it, by the same subscriber number, facility and start time,
  restores the database when the forwarding was not there before.\<close>

theorem insert_delete_forwarding:
  assumes "tatp_inv T cfg sm" "14 \<le> length (icf_sub_nbr p)" "14 \<le> length (icf_numberx p)"
    and "db_cf (tatp_abs T sm) (partition_of cfg (db_sid (tatp_abs T sm) (icf_sub_nbr p)))
      (cf_key (db_sid (tatp_abs T sm) (icf_sub_nbr p)) (icf_sf_type p) (icf_start_time p)) = None"
  shows "\<exists>sm1 sm2. processInsertCallForwarding T cfg p sm = Inr sm1 \<and>
    db_cf (tatp_abs T sm1) (partition_of cfg (db_sid (tatp_abs T sm) (icf_sub_nbr p)))
      (cf_key (db_sid (tatp_abs T sm) (icf_sub_nbr p)) (icf_sf_type p) (icf_start_time p)) =
      Some (cf_row (db_sid (tatp_abs T sm) (icf_sub_nbr p)) (icf_sf_type p) (icf_start_time p)
        (icf_end_time p) (icf_numberx p)) \<and>
    processDeleteCallForwarding T cfg \<lparr>dcf_sub_nbr = icf_sub_nbr p, dcf_sf_type = icf_sf_type p,
      dcf_start_time = icf_start_time p\<rparr> sm1 = Inr sm2 \<and>
    tatp_inv T cfg sm2 \<and> tatp_abs T sm2 = tatp_abs T sm"
proof -
  let ?db = "tatp_abs T sm"
  let ?del = "DELETE_CALL_FORWARDING \<lparr>dcf_sub_nbr = icf_sub_nbr p, dcf_sf_type = icf_sf_type p,
      dcf_start_time = icf_start_time p\<rparr>"
  define s where "s = db_sid ?db (icf_sub_nbr p)"
  let ?k = "cf_key s (icf_sf_type p) (icf_start_time p)" and ?p = "partition_of cfg s"
  let ?row = "cf_row s (icf_sf_type p) (icf_start_time p) (icf_end_time p) (icf_numberx p)"
  obtain sm1 where sm1: "process_event T cfg (INSERT_CALL_FORWARDING p) sm = Inr sm1" "tatp_inv T cfg sm1"
    "tatp_abs T sm1 = a_insertCF ?p ?k ?row ?db"
    using process_event_refines [OF assms(1), of "INSERT_CALL_FORWARDING p"] assms(2,3)
    by (auto simp: runs_to_def s_def)
  have sid: "db_sid (tatp_abs T sm1) (icf_sub_nbr p) = s"
    unfolding sm1(3) by (simp add: a_insertCF_def s_def)
  obtain sm2 where sm2: "process_event T cfg ?del sm1 = Inr sm2" "tatp_inv T cfg sm2"
    "tatp_abs T sm2 = a_deleteCF ?p ?k (tatp_abs T sm1)"
    using process_event_refines [OF sm1(2), of ?del] assms(2) sid by (auto simp: runs_to_def)
  have absent: "db_cf ?db ?p ?k = None" using assms(4) by (simp add: s_def)
  then have restored: "tatp_abs T sm2 = ?db"
    unfolding sm2(3) sm1(3) by (simp add: a_insertCF_def a_deleteCF_def fun_upd_idem)
  have there: "db_cf (tatp_abs T sm1) ?p ?k = Some ?row"
    unfolding sm1(3) using absent by (simp add: a_insertCF_def)
  show ?thesis
    using sm1(1) sm2(1,2) restored there unfolding s_def [symmetric] by auto
qed

lemma insert_delete_forwarding_witness:
  "\<exists>sm sm1 sm2. TatpPopulator_init list_tbb sample_cfg StorageManager_new = Inr sm \<and>
    processInsertCallForwarding list_tbb sample_cfg \<lparr>icf_sub_nbr = sample_nbr, icf_sf_type = 1,
      icf_start_time = 8, icf_end_time = 16, icf_numberx = sample_nbr\<rparr> sm = Inr sm1 \<and>
    processDeleteCallForwarding list_tbb sample_cfg \<lparr>dcf_sub_nbr = sample_nbr, dcf_sf_type = 1,
      dcf_start_time = 8\<rparr> sm1 = Inr sm2 \<and> tatp_abs list_tbb sm2 = tatp_abs list_tbb sm"
proof -
  obtain sm where sm: "TatpPopulator_init list_tbb sample_cfg StorageManager_new = Inr sm"
    "tatp_inv list_tbb sample_cfg sm"
    "\<And>s. db_cf (tatp_abs list_tbb sm) (partition_of sample_cfg s) = Map.empty"
    by (rule sample_database) blast
  show ?thesis
    using insert_delete_forwarding [OF sm(2), of "\<lparr>icf_sub_nbr = sample_nbr, icf_sf_type = 1,
      icf_start_time = 8, icf_end_time = 16, icf_numberx = sample_nbr\<rparr>"] sm(1,3)
    by (auto simp: sample_nbr_def)
qed

text \<open>The populator registers the tables of an empty storage manager without an error, for every number of
  partitions that fits the table numbers: each table has its schema, its primary index and its
  secondary index, and every map of the database is empty.\<close>

theorem populator_init:
  assumes "tbb_laws T" "0 < partitions cfg" "partitions cfg \<le> MAX_PARTITION_CNT"
  shows "\<exists>sm. TatpPopulator_init T cfg StorageManager_new = Inr sm \<and> tatp_inv T cfg sm \<and>
    db_sub (tatp_abs T sm) = Map.empty \<and>
    (\<forall>s. db_sf (tatp_abs T sm) (partition_of cfg s) = Map.empty \<and>
      db_cf (tatp_abs T sm) (partition_of cfg s) = Map.empty)"
proof -
  obtain sm where "TatpPopulator_init T cfg StorageManager_new = Inr sm" "tatp_inv T cfg sm"
    "table_map T sm SUBSCRIBER_TABLE_ID = Map.empty"
    "\<And>p. p < partitions cfg \<Longrightarrow> table_map T sm (SPECIAL_FACILITY_TABLE_ID + p) = Map.empty"
    "\<And>p. p < partitions cfg \<Longrightarrow> table_map T sm (CALL_FORWARDING_TABLE_ID + p) = Map.empty"
    using TatpPopulator_init_inv [OF assms] by metis
  then show ?thesis
    using tatp_abs_simps [of T cfg sm] partition_of_less [OF assms(2)] by auto
qed

lemma populator_init_witness:
  "\<exists>sm. TatpPopulator_init list_tbb sample_cfg StorageManager_new = Inr sm \<and>
    db_sub (tatp_abs list_tbb sm) = Map.empty"
proof -
  have "0 < partitions sample_cfg" "partitions sample_cfg \<le> MAX_PARTITION_CNT"
    by (simp_all add: partitions_def sample_cfg_def tatp_table_ids)
  from populator_init [OF list_tbb_laws this] show ?thesis by blast
qed

lemma subscriber_row_length:
  assumes "tatp_inv T cfg sm" "db_sub (tatp_abs T sm) k = Some d"
  shows "length d = 67"
proof -
  obtain t where t: "sm SUBSCRIBER_TABLE_ID = Some t" "st_inv T t" "st_schema t = subscriber_schema" "has_primary t"
    using table_okE [OF tatp_invD(4) [OF assms(1)] tatp_invD(1) [OF assms(1)]] by metis
  have "st_map T t k = Some d"
    using assms(2) t(1) by (simp add: tatp_abs_simps(1) [OF assms(1)] table_map_at)
  then obtain a where "st_bytes t a = d" using st_map_iff [OF t(2,4)] by blast
  then show ?thesis using st_invD(7) [OF t(2)] t(3) length_record_bytes by fastforce
qed

text \<open>An update of a subscriber's location writes the new location into the subscriber's row and changes no other
  column of it and no other subscriber; if the subscriber does not exist, it uses the null pointer
  the lookup returned, where the other update transactions check for it.\<close>

theorem update_location:
  assumes "tatp_inv T cfg sm" "14 \<le> length (ul_sub_nbr p)"
  shows "case db_sub (tatp_abs T sm) (to_bytes (db_sid (tatp_abs T sm) (ul_sub_nbr p))) of
      None \<Rightarrow> processUpdateLocation T p sm = Inl NullPointer
    | Some d \<Rightarrow> \<exists>sm' d'. processUpdateLocation T p sm = Inr sm' \<and> tatp_inv T cfg sm' \<and>
        db_sub (tatp_abs T sm') =
          (db_sub (tatp_abs T sm))(to_bytes (db_sid (tatp_abs T sm) (ul_sub_nbr p)) \<mapsto> d') \<and>
        col_data subscriber_schema 33 d' = to_bytes (ul_vlr_location p) \<and>
        (\<forall>j < 33. col_data subscriber_schema j d' = col_data subscriber_schema j d)"
proof -
  define s where "s = db_sid (tatp_abs T sm) (ul_sub_nbr p)"
  note sid = getSubscriberId_returns [OF assms]
  show ?thesis
  proof (cases "db_sub (tatp_abs T sm) (to_bytes s)")
    case None
    then have "processUpdateLocation T p sm = Inl NullPointer"
      using updateSubscriberVLRLocation_unknown [OF assms(1)] sid by (simp add: processUpdateLocation_def s_def)
    then show ?thesis using None by (simp add: s_def)
  next
    case (Some d)
    let ?d' = "set_col subscriber_schema 33 (to_bytes (ul_vlr_location p)) d"
    note len = subscriber_row_length [OF assms(1) Some]
    have "refines T cfg (updateSubscriberVLRLocation T s (ul_vlr_location p))
        (a_updateSub 33 (to_bytes s) (to_bytes (ul_vlr_location p))) sm"
      by (rule updateSubscriberVLRLocation_refines [OF assms(1)]) (simp add: Some)
    then obtain sm' where sm': "processUpdateLocation T p sm = Inr sm'" "tatp_inv T cfg sm'"
      "db_sub (tatp_abs T sm') = (db_sub (tatp_abs T sm))(to_bytes s \<mapsto> ?d')"
      using sid Some by (auto simp: refines_def processUpdateLocation_def a_updateSub_def s_def)
    have "col_data subscriber_schema 33 ?d' = to_bytes (ul_vlr_location p)"
      using len by (intro col_data_set_col_same [OF tatp_schema_inv(1)]) simp_all
    moreover have "col_data subscriber_schema j ?d' = col_data subscriber_schema j d" if "j < 33" for j
      using that len by (intro col_data_set_col_other [OF tatp_schema_inv(1)]) simp_all
    ultimately show ?thesis
      using sm' Some unfolding s_def [symmetric] by auto
  qed
qed

lemma update_location_witness:
  "\<exists>sm sm' d'. db_sub (tatp_abs list_tbb sm) = [to_bytes (1 :: 32 word) \<mapsto> sample_subscriber] \<and>
    processUpdateLocation list_tbb \<lparr>ul_vlr_location = 9, ul_sub_nbr = sample_nbr\<rparr> sm = Inr sm' \<and>
    db_sub (tatp_abs list_tbb sm') = [to_bytes (1 :: 32 word) \<mapsto> d'] \<and>
    col_data subscriber_schema 33 d' = to_bytes (9 :: 32 word)"
proof -
  obtain sm where sm: "tatp_inv list_tbb sample_cfg sm" "db_sid (tatp_abs list_tbb sm) sample_nbr = 1"
    "db_sub (tatp_abs list_tbb sm) = [to_bytes (1 :: 32 word) \<mapsto> sample_subscriber]"
    by (rule populated_database) blast
  have "14 \<le> length sample_nbr" by (simp add: sample_nbr_def)
  then obtain sm' d' where "processUpdateLocation list_tbb \<lparr>ul_vlr_location = 9, ul_sub_nbr = sample_nbr\<rparr> sm = Inr sm'"
    "db_sub (tatp_abs list_tbb sm') = [to_bytes (1 :: 32 word) \<mapsto> d']"
    "col_data subscriber_schema 33 d' = to_bytes (9 :: 32 word)"
    using update_location [OF sm(1), of "\<lparr>ul_vlr_location = 9, ul_sub_nbr = sample_nbr\<rparr>"] sm(2,3) by auto
  then show ?thesis using sm(3) by blast
qed

text \<open>Without an end marker in its queue the serial processor never returns: it executes what there is and then
  waits for more.\<close>

theorem serial_without_end:
  assumes "tatp_inv T cfg sm" "\<forall>e \<in> set es. event_ok (tatp_abs T sm) e \<and> e \<noteq> END_EXECUTION"
  shows "tatp_serial_start T cfg es n sm = Inl Diverges"
  using assms
proof (induction es arbitrary: sm n)
  case Nil
  then show ?case by simp
next
  case (Cons e es)
  obtain sm1 where sm1: "process_event T cfg e sm = Inr sm1" "tatp_inv T cfg sm1"
      "tatp_abs T sm1 = fold (step_effect cfg) (event_steps (db_sid (tatp_abs T sm)) e) (tatp_abs T sm)"
    using process_event_refines [OF Cons.prems(1), of e] Cons.prems(2) by (auto simp: runs_to_def)
  have "same_subscribers (tatp_abs T sm) (tatp_abs T sm1)"
    unfolding sm1(3) by (rule steps_same_subscribers)
  then have "tatp_serial_start T cfg es (n + 1) sm1 = Inl Diverges"
    using Cons.IH [OF sm1(2)] Cons.prems(2) event_ok_same by auto
  then show ?case using sm1(1) Cons.prems(2) by simp
qed

lemma serial_without_end_witness:
  "\<exists>sm. TatpPopulator_init list_tbb sample_cfg StorageManager_new = Inr sm \<and>
    tatp_serial_start list_tbb sample_cfg sample_events 0 sm = Inl Diverges"
proof -
  obtain sm where sm: "TatpPopulator_init list_tbb sample_cfg StorageManager_new = Inr sm"
    "tatp_inv list_tbb sample_cfg sm"
    by (rule sample_database)
  then show ?thesis
    using serial_without_end [OF sm(2) sample_events_ok] by blast
qed

end
